(* ===== verification/Prelude.thy ===== *)
theory Prelude
  imports Main "HOL-Library.Word"
begin

unbundle bit_operations_syntax

text \<open>
  What every component shares: the C integer types by name, the faults a run of the code can
  end in, sequencing of steps that may fault, the tail queues of \<open>queue(3)\<close> as lists, and
  the generic lemmas the component proofs rest on.

  A C function that can fault (divide by zero, follow a null pointer, leave an array or the
  disk image, loop for ever) is modelled with the result type \<open>fault + 'a\<close>: \<open>Inl\<close>
  the fault, \<open>Inr\<close> the value it returns.
\<close>

section \<open>Integer types\<close>

type_synonym u8 = "8 word"
type_synonym u16 = "16 word"
type_synonym u32 = "32 word"
type_synonym u64 = "64 word"

section \<open>Faults and sequencing\<close>

datatype fault =
    Div_by_zero       \<comment> \<open>integer division or remainder by zero\<close>
  | Null_deref        \<comment> \<open>a null pointer is dereferenced\<close>
  | Bad_block         \<comment> \<open>a block number outside the block array is read or written\<close>
  | Overflow          \<comment> \<open>a copy writes past the end of its buffer\<close>
  | Uninitialised     \<comment> \<open>a variable is used before it was assigned\<close>
  | Diverges          \<comment> \<open>the loop does not end\<close>
  | Kernel_panic      \<comment> \<open>an explicit call of panic()\<close>

definition and_then :: "'e + 'a \<Rightarrow> ('a \<Rightarrow> 'e + 'b) \<Rightarrow> 'e + 'b" where
  "and_then m f = (case m of Inl e \<Rightarrow> Inl e | Inr x \<Rightarrow> f x)"

named_theorems run_simps \<open>evaluation of sequenced steps\<close>

lemma and_then_Inl [simp, run_simps]: "and_then (Inl e) f = Inl e"
  by (simp add: and_then_def)

lemma and_then_Inr [simp, run_simps]: "and_then (Inr x) f = f x"
  by (simp add: and_then_def)

lemma and_then_eq_Inr: "and_then m f = Inr y \<longleftrightarrow> (\<exists>x. m = Inr x \<and> f x = Inr y)"
  by (cases m) auto

lemma and_then_InrE [elim!]:
  assumes "and_then m f = Inr y"
  obtains x where "m = Inr x" and "f x = Inr y"
  using assms by (auto simp: and_then_eq_Inr)

lemma and_then_cong [fundef_cong]:
  "m = m' \<Longrightarrow> (\<And>x. m' = Inr x \<Longrightarrow> f x = g x) \<Longrightarrow> and_then m f = and_then m' g"
  by (cases m') (auto simp: and_then_def)

section \<open>Tail queues\<close>

text \<open>
  A \<open>TAILQ\<close> of \<open>queue(3)\<close> is the list of its elements from head to tail. Removing an
  element that is not on the queue corrupts the links in C; the callers' lemmas therefore
  carry membership as a premise.
\<close>

definition tailq_insert_head :: "'a \<Rightarrow> 'a list \<Rightarrow> 'a list" where
  "tailq_insert_head x q = x # q"

definition tailq_insert_tail :: "'a \<Rightarrow> 'a list \<Rightarrow> 'a list" where
  "tailq_insert_tail x q = q @ [x]"

definition tailq_remove :: "'a \<Rightarrow> 'a list \<Rightarrow> 'a list" where
  "tailq_remove x q = remove1 x q"

fun tailq_insert_after :: "'a \<Rightarrow> 'a \<Rightarrow> 'a list \<Rightarrow> 'a list" where
  "tailq_insert_after l x [] = []"
| "tailq_insert_after l x (y # q) = (if y = l then y # x # q else y # tailq_insert_after l x q)"

definition tailq_first :: "'a list \<Rightarrow> 'a option" where
  "tailq_first q = (case q of [] \<Rightarrow> None | x # _ \<Rightarrow> Some x)"

fun tailq_next :: "'a \<Rightarrow> 'a list \<Rightarrow> 'a option" where
  "tailq_next l [] = None"
| "tailq_next l (y # q) = (if y = l then tailq_first q else tailq_next l q)"

fun tailq_prev :: "'a \<Rightarrow> 'a list \<Rightarrow> 'a option" where
  "tailq_prev l [] = None"
| "tailq_prev l [y] = None"
| "tailq_prev l (x # y # q) = (if y = l then Some x else tailq_prev l (y # q))"

named_theorems tailq_simps \<open>membership, order and size of tail queues\<close>

lemma set_tailq_insert_head [simp, tailq_simps]: "set (tailq_insert_head x q) = insert x (set q)"
  by (simp add: tailq_insert_head_def)

lemma set_tailq_insert_tail [simp, tailq_simps]: "set (tailq_insert_tail x q) = insert x (set q)"
  by (simp add: tailq_insert_tail_def)

lemma set_tailq_remove [simp, tailq_simps]:
  "distinct q \<Longrightarrow> set (tailq_remove x q) = set q - {x}"
  by (simp add: tailq_remove_def)

lemma distinct_tailq_insert_head [simp, tailq_simps]:
  "distinct (tailq_insert_head x q) \<longleftrightarrow> x \<notin> set q \<and> distinct q"
  by (simp add: tailq_insert_head_def)

lemma distinct_tailq_insert_tail [simp, tailq_simps]:
  "distinct (tailq_insert_tail x q) \<longleftrightarrow> x \<notin> set q \<and> distinct q"
  by (auto simp: tailq_insert_tail_def)

lemma distinct_tailq_remove [simp, tailq_simps]: "distinct q \<Longrightarrow> distinct (tailq_remove x q)"
  by (simp add: tailq_remove_def)

lemma length_tailq_remove [simp, tailq_simps]:
  "x \<in> set q \<Longrightarrow> length (tailq_remove x q) = length q - 1"
  by (simp add: tailq_remove_def length_remove1)

lemma tailq_insert_head_neq_Nil [simp]: "tailq_insert_head x q \<noteq> []"
  by (simp add: tailq_insert_head_def)

lemma tailq_insert_tail_neq_Nil [simp]: "tailq_insert_tail x q \<noteq> []"
  by (simp add: tailq_insert_tail_def)

lemma length_tailq_insert [simp, tailq_simps]:
  "length (tailq_insert_head x q) = Suc (length q)"
  "length (tailq_insert_tail x q) = Suc (length q)"
  by (simp_all add: tailq_insert_head_def tailq_insert_tail_def)

lemma tailq_first_eq_None [simp]: "tailq_first q = None \<longleftrightarrow> q = []"
  by (simp add: tailq_first_def split: list.splits)

lemma tailq_first_Cons [simp]: "tailq_first (x # q) = Some x"
  by (simp add: tailq_first_def)

lemma tailq_first_in_set: "tailq_first q = Some x \<Longrightarrow> x \<in> set q"
  by (auto simp: tailq_first_def split: list.splits)

lemma tailq_remove_insert_head:
  "tailq_remove x (tailq_insert_head x q) = q"
  by (simp add: tailq_remove_def tailq_insert_head_def)

lemma tailq_remove_insert_tail:
  "x \<notin> set q \<Longrightarrow> tailq_remove x (tailq_insert_tail x q) = q"
  by (simp add: tailq_remove_def tailq_insert_tail_def remove1_append)

section \<open>Single bits of a word\<close>

text \<open>The simplifier writes the mask \<open>1 << k\<close>, \<open>push_bit k 1\<close>, as \<open>2 ^ k\<close>.\<close>

lemma bit_single: "bit (2 ^ k :: 'a::len word) n \<longleftrightarrow> n = k \<and> n < LENGTH('a)"
  by (auto simp: bit_simps)

lemma bit_or_single:
  "n < LENGTH('a) \<Longrightarrow> bit (w OR 2 ^ k :: 'a::len word) n \<longleftrightarrow> n = k \<or> bit w n"
  by (auto simp: bit_or_iff bit_single)

lemma bit_and_not_single:
  "n < LENGTH('a) \<Longrightarrow> bit (w AND NOT (2 ^ k) :: 'a::len word) n \<longleftrightarrow> n \<noteq> k \<and> bit w n"
  by (auto simp: bit_and_iff bit_not_iff bit_single)

lemma drop_bit_AND_1_eq_0: "drop_bit k (w :: 'a::len word) AND 1 = 0 \<longleftrightarrow> \<not> bit w k"
  by (simp add: and_one_eq mod_2_eq_odd bit_iff_odd_drop_bit)

lemma same_cell: "i div b = j div b \<Longrightarrow> i mod b = j mod b \<Longrightarrow> i = (j :: nat)"
  by (metis div_mult_mod_eq)

section \<open>Lists\<close>

lemma list_update_eq_map_upd:
  "i < length xs \<Longrightarrow> j < length xs \<Longrightarrow> xs[i := v] ! j = (if j = i then v else xs ! j)"
  by (simp add: nth_list_update)

lemma take_drop_middle:
  "k + n \<le> length xs \<Longrightarrow> take k xs @ take n (drop k xs) @ drop (k + n) xs = xs"
  by (metis append_assoc append_take_drop_id drop_drop add.commute)

text \<open>\<open>memcpy\<close> into a byte array: \<open>overlay off buf xs\<close> overwrites \<open>length buf\<close> elements.\<close>

definition overlay :: "nat \<Rightarrow> 'a list \<Rightarrow> 'a list \<Rightarrow> 'a list" where
  "overlay off buf xs = take off xs @ buf @ drop (off + length buf) xs"

lemma length_overlay [simp]:
  "off + length buf \<le> length xs \<Longrightarrow> length (overlay off buf xs) = length xs"
  by (simp add: overlay_def)

lemma overlay_Nil [simp]: "overlay off [] xs = xs"
  by (simp add: overlay_def)

lemma nth_overlay:
  assumes "off + length buf \<le> length xs" and "i < length xs"
  shows "overlay off buf xs ! i =
    (if off \<le> i \<and> i < off + length buf then buf ! (i - off) else xs ! i)"
  using assms by (auto simp: overlay_def nth_append min_def)

lemma overlay_read:
  assumes "off + length buf \<le> length xs"
  shows "take (length buf) (drop off (overlay off buf xs)) = buf"
  using assms by (simp add: overlay_def)

lemma overlay_append_left:
  "off + length buf \<le> length xs \<Longrightarrow> overlay off buf (xs @ ys) = overlay off buf xs @ ys"
  by (simp add: overlay_def)

lemma overlay_append_right:
  "overlay (length xs + off) buf (xs @ ys) = xs @ overlay off buf ys"
  by (simp add: overlay_def)

lemma overlay_append_split:
  assumes "off + k = length xs" and "k \<le> length buf"
  shows "overlay off buf (xs @ ys) = overlay off (take k buf) xs @ overlay 0 (drop k buf) ys"
proof -
  have "off + length buf - length xs = length buf - k" using assms by linarith
  moreover have "off \<le> length xs" using assms by linarith
  moreover have "off + length buf \<ge> length xs" using assms by linarith
  ultimately show ?thesis
    using assms append_take_drop_id [of k buf] by (simp add: overlay_def min_def)
qed

end
