(* ===== verification/Bitset_Spec.thy ===== *)
theory Bitset_Spec
  imports Prelude
begin

text \<open>
  The interface of a bitmap: a mutable set of small numbers kept in an array of machine words.
  Two components of the repository keep one, the block allocator of AOFS (a byte array) and the
  run queues of the scheduler (an array of \<open>rqb_word_t\<close>), and both are used as the set of the
  indices whose bit is one. The locale states the laws of testing, setting and clearing a bit;
  the clients' lemmas on the set are proved once here.
\<close>

locale bit_map =
  fixes ok :: "'m \<Rightarrow> bool"
    and cap :: nat
    and get :: "'m \<Rightarrow> nat \<Rightarrow> bool"
    and put :: "nat \<Rightarrow> 'm \<Rightarrow> 'm"
    and clr :: "nat \<Rightarrow> 'm \<Rightarrow> 'm"
  assumes ok_put: "ok m \<Longrightarrow> i < cap \<Longrightarrow> ok (put i m)"
    and ok_clr: "ok m \<Longrightarrow> i < cap \<Longrightarrow> ok (clr i m)"
    and get_put: "ok m \<Longrightarrow> i < cap \<Longrightarrow> j < cap \<Longrightarrow> get (put i m) j \<longleftrightarrow> j = i \<or> get m j"
    and get_clr: "ok m \<Longrightarrow> i < cap \<Longrightarrow> j < cap \<Longrightarrow> get (clr i m) j \<longleftrightarrow> j \<noteq> i \<and> get m j"
begin

definition members :: "'m \<Rightarrow> nat set" where
  "members m = {i. i < cap \<and> get m i}"

lemma finite_members [simp]: "finite (members m)"
  by (simp add: members_def)

lemma members_lt: "i \<in> members m \<Longrightarrow> i < cap"
  by (simp add: members_def)

lemma members_iff: "i < cap \<Longrightarrow> i \<in> members m \<longleftrightarrow> get m i"
  by (simp add: members_def)

lemma members_put: "ok m \<Longrightarrow> i < cap \<Longrightarrow> members (put i m) = insert i (members m)"
  by (auto simp: members_def get_put)

lemma members_clr: "ok m \<Longrightarrow> i < cap \<Longrightarrow> members (clr i m) = members m - {i}"
  by (auto simp: members_def get_clr)

lemma members_clr_put:
  "ok m \<Longrightarrow> i < cap \<Longrightarrow> \<not> get m i \<Longrightarrow> members (clr i (put i m)) = members m"
  by (auto simp: members_def get_put get_clr ok_put)

lemma members_put_clr:
  "ok m \<Longrightarrow> i < cap \<Longrightarrow> get m i \<Longrightarrow> members (put i (clr i m)) = members m"
  by (auto simp: members_def get_put get_clr ok_clr)

text \<open>A bitmap tracks a family of queues when bit \<open>i\<close> says whether queue \<open>i\<close> is inhabited.\<close>

definition tracks :: "'m \<Rightarrow> (nat \<Rightarrow> bool) \<Rightarrow> bool" where
  "tracks m p \<longleftrightarrow> ok m \<and> (\<forall>i<cap. get m i \<longleftrightarrow> p i)"

lemma tracksI: "ok m \<Longrightarrow> (\<And>i. i < cap \<Longrightarrow> get m i \<longleftrightarrow> p i) \<Longrightarrow> tracks m p"
  by (simp add: tracks_def)

lemma tracksD: "tracks m p \<Longrightarrow> i < cap \<Longrightarrow> get m i \<longleftrightarrow> p i"
  by (simp add: tracks_def)

lemma tracks_ok: "tracks m p \<Longrightarrow> ok m"
  by (simp add: tracks_def)

lemma tracks_put:
  "tracks m p \<Longrightarrow> i < cap \<Longrightarrow> q i \<Longrightarrow> (\<And>j. j \<noteq> i \<Longrightarrow> q j = p j) \<Longrightarrow> tracks (put i m) q"
  by (rule tracksI, simp add: ok_put tracks_ok, rename_tac j, case_tac "j = i")
    (simp_all add: get_put tracks_ok tracksD)

lemma tracks_clr:
  "tracks m p \<Longrightarrow> i < cap \<Longrightarrow> \<not> q i \<Longrightarrow> (\<And>j. j \<noteq> i \<Longrightarrow> q j = p j) \<Longrightarrow> tracks (clr i m) q"
  by (rule tracksI, simp add: ok_clr tracks_ok, rename_tac j, case_tac "j = i")
    (simp_all add: get_clr tracks_ok tracksD)

lemma tracks_cong:
  "tracks m p \<Longrightarrow> (\<And>j. j < cap \<Longrightarrow> q j = p j) \<Longrightarrow> tracks m q"
  by (auto simp: tracks_def)

end

end
