(* ===== verification/Sched_Types.thy ===== *)
theory Sched_Types
  imports Prelude
begin

text \<open>
  The data of the scheduler (\<open>src/asgn2/kern/sched_ule.c\<close>, \<open>src/asgn2/sys/runq.h\<close>). A thread is
  a number, its fields are in a store \<open>tid \<Rightarrow> thread\<close> that operations return updated. What the
  files take from headers outside the repository is an argument: the record \<open>kern\<close> has the
  priority ranges of \<open>sys/priority.h\<close> and \<open>sys/resource.h\<close> and \<open>hz\<close>, next to the file's own
  static variables; \<open>runq_md\<close> has the bit macros of \<open>machine/runq.h\<close>. Flag words are sets of flags.
\<close>

type_synonym tid = nat

section \<open>Threads\<close>

datatype td_flag =
    TDF_NEEDRESCHED | TDF_SLICEEND | TDF_BORROWING | TDF_NOLOAD | TDF_IDLETD | TDF_INPANIC
  | TDF_CANSWAP

datatype ts_flag = TSF_BOUND | TSF_XFERABLE

datatype srq_flag = SRQ_YIELDING | SRQ_OURSELF | SRQ_INTR | SRQ_PREEMPTED | SRQ_BORROWING

datatype td_run_state = TDS_INHIBITED | TDS_CAN_RUN | TDS_RUNQ | TDS_RUNNING

datatype td_inhibitor = TDI_SUSPENDED | TDI_SLEEPING | TDI_SWAPPED | TDI_LOCK | TDI_IWAIT

text \<open>Which of its processor's queues a thread is on, with the processor (\<open>ts_runq\<close>).\<close>

datatype runq_kind = Q_realtime | Q_timeshare | Q_lottery | Q_idle

record td_sched =
  ts_runq :: "(nat \<times> runq_kind) option"
  ts_flags :: "ts_flag set"
  ts_cpu :: nat
  ts_rltick :: int
  ts_slice :: int
  ts_slptime :: int
  ts_runtime :: int
  ts_ltick :: int
  ts_ftick :: int
  ts_ticks :: int

record thread = td_sched +
  td_priority :: nat
  td_base_pri :: nat
  td_user_pri :: nat
  td_base_user_pri :: nat
  td_lend_user_pri :: nat
  td_pri_class :: nat
  td_rqindex :: nat
  td_flags :: "td_flag set"
  td_state :: td_run_state
  td_inhibitors :: "td_inhibitor set"
  td_lastcpu :: int
  td_oncpu :: int
  td_owepreempt :: bool
  td_critnest :: nat
  td_pinned :: nat
  td_slptick :: int
  td_cpuset :: "nat set"
  cr_uid :: nat
  p_nice :: int
  p_pid :: int
  p_system :: bool

type_synonym threads = "tid \<Rightarrow> thread"

definition upd_td :: "threads \<Rightarrow> tid \<Rightarrow> (thread \<Rightarrow> thread) \<Rightarrow> threads" where
  "upd_td T t f = T(t := f (T t))"

lemma upd_td_same [simp]: "upd_td T t f t = f (T t)"
  by (simp add: upd_td_def)

lemma upd_td_other [simp]: "u \<noteq> t \<Longrightarrow> upd_td T t f u = T u"
  by (simp add: upd_td_def)

definition THREAD_CAN_MIGRATE :: "thread \<Rightarrow> bool" where
  "THREAD_CAN_MIGRATE td \<longleftrightarrow> td_pinned td = 0"

definition THREAD_CAN_SCHED :: "thread \<Rightarrow> nat \<Rightarrow> bool" where
  "THREAD_CAN_SCHED td cpu \<longleftrightarrow> cpu \<in> td_cpuset td"

definition isRoot :: "thread \<Rightarrow> bool" where
  "isRoot td \<longleftrightarrow> cr_uid td = 0"

section \<open>Run queues\<close>

definition RQ_NQS :: nat where "RQ_NQS = 64"
definition RQ_PPQ :: nat where "RQ_PPQ = 4"

record 'w runq =
  rqb_bits :: "'w list"
  rq_queues :: "tid list list"

text \<open>
  The macros of \<open>machine/runq.h\<close>: number of words, bits per word and its logarithm, index of the
  lowest set bit of a word, word and bit of a queue number.
\<close>

record 'w runq_md =
  RQB_LEN :: nat
  RQB_BPW :: nat
  RQB_L2BPW :: nat
  RQB_FFS :: "'w \<Rightarrow> nat"
  RQB_WORD :: "nat \<Rightarrow> nat"
  RQB_BIT :: "nat \<Rightarrow> 'w"

text \<open>
  What the scheduler relies on: the words hold exactly \<open>RQ_NQS\<close> bits (a compile-time assertion
  of \<open>kern_switch.c\<close>), and the macros mean what their names say.
\<close>

definition runq_md_ok :: "'w::len word runq_md \<Rightarrow> bool" where
  "runq_md_ok md \<longleftrightarrow>
    RQB_BPW md * RQB_LEN md = RQ_NQS \<and> RQB_BPW md = LENGTH('w) \<and> RQB_BPW md = 2 ^ RQB_L2BPW md \<and>
    (\<forall>w. w \<noteq> 0 \<longrightarrow> bit w (RQB_FFS md w) \<and> (\<forall>j<RQB_FFS md w. \<not> bit w j)) \<and>
    (\<forall>p<RQ_NQS. RQB_WORD md p = p div RQB_BPW md \<and> RQB_BIT md p = 2 ^ (p mod RQB_BPW md))"

definition lowest_bit :: "'w::len word \<Rightarrow> nat" where
  "lowest_bit w = (case find (bit w) [0..<LENGTH('w)] of Some i \<Rightarrow> i | None \<Rightarrow> 0)"

text \<open>The macros of the two kinds of machines: one word of 64 bits, two words of 32.\<close>

definition amd64_runq :: "64 word runq_md" where
  "amd64_runq = \<lparr>RQB_LEN = 1, RQB_BPW = 64, RQB_L2BPW = 6, RQB_FFS = lowest_bit,
    RQB_WORD = (\<lambda>p. p div 64), RQB_BIT = (\<lambda>p. push_bit (p mod 64) 1)\<rparr>"

definition i386_runq :: "32 word runq_md" where
  "i386_runq = \<lparr>RQB_LEN = 2, RQB_BPW = 32, RQB_L2BPW = 5, RQB_FFS = lowest_bit,
    RQB_WORD = (\<lambda>p. p div 32), RQB_BIT = (\<lambda>p. push_bit (p mod 32) 1)\<rparr>"

lemma lowest_bit:
  fixes w :: "'w::len word"
  assumes "w \<noteq> 0"
  shows "bit w (lowest_bit w) \<and> (\<forall>j<lowest_bit w. \<not> bit w j)"
proof -
  have "\<exists>i<LENGTH('w). bit w i"
  proof (rule ccontr)
    assume "\<not> ?thesis"
    then have "w = 0" by (auto intro!: bit_word_eqI)
    then show False using assms by simp
  qed
  then obtain i where i: "find (bit w) [0..<LENGTH('w)] = Some i"
    using find_None_iff [of "bit w" "[0..<LENGTH('w)]"] by fastforce
  then have "lowest_bit w = i" by (simp add: lowest_bit_def)
  then show ?thesis using i by (auto simp: find_Some_iff)
qed

lemma amd64_ok: "runq_md_ok amd64_runq"
  using lowest_bit by (auto simp: runq_md_ok_def amd64_runq_def RQ_NQS_def)

lemma i386_ok: "runq_md_ok i386_runq"
  using lowest_bit by (auto simp: runq_md_ok_def i386_runq_def RQ_NQS_def)

section \<open>The kernel's constants and the scheduler's variables\<close>

record kern =
  PRI_MIN_TIMESHARE :: nat
  PRI_MAX_TIMESHARE :: nat
  PRI_MIN_IDLE :: nat
  PRI_MAX_IDLE :: nat
  PRI_MAX_ITHD :: nat
  PRI_MIN_KERN :: nat
  PRI_MAX_KERN :: nat
  PRIO_MIN :: int
  PRIO_MAX :: int
  PRI_TIMESHARE :: nat
  PRI_BASE :: "nat \<Rightarrow> nat"
  PRI_FIFO_BIT :: nat
  FSHIFT :: nat
  NOCPU :: int
  hz :: int
  mp_maxid :: nat
  sched_interact :: int
  tickincr :: int
  realstathz :: int
  sched_slice :: int
  sched_slice_min :: int
  preempt_thresh :: nat
  static_boost :: int
  sched_idlespins :: int
  sched_idlespinthresh :: int
  rebalance :: int
  balance_interval :: int
  affinity :: int
  steal_idle :: int
  steal_thresh :: int

definition PRI_TIMESHARE_RANGE :: "kern \<Rightarrow> nat" where
  "PRI_TIMESHARE_RANGE k = PRI_MAX_TIMESHARE k - PRI_MIN_TIMESHARE k + 1"

definition SCHED_PRI_NRESV :: "kern \<Rightarrow> nat" where
  "SCHED_PRI_NRESV k = nat (PRIO_MAX k - PRIO_MIN k)"

definition PRI_INTERACT_RANGE :: "kern \<Rightarrow> nat" where
  "PRI_INTERACT_RANGE k = (PRI_TIMESHARE_RANGE k - SCHED_PRI_NRESV k) div 2"

definition PRI_BATCH_RANGE :: "kern \<Rightarrow> nat" where
  "PRI_BATCH_RANGE k = PRI_TIMESHARE_RANGE k - PRI_INTERACT_RANGE k"

definition PRI_MIN_INTERACT :: "kern \<Rightarrow> nat" where "PRI_MIN_INTERACT k = PRI_MIN_TIMESHARE k"

definition PRI_MAX_INTERACT :: "kern \<Rightarrow> nat" where
  "PRI_MAX_INTERACT k = PRI_MIN_TIMESHARE k + PRI_INTERACT_RANGE k - 1"

definition PRI_MIN_BATCH :: "kern \<Rightarrow> nat" where
  "PRI_MIN_BATCH k = PRI_MIN_TIMESHARE k + PRI_INTERACT_RANGE k"

definition PRI_MAX_BATCH :: "kern \<Rightarrow> nat" where "PRI_MAX_BATCH k = PRI_MAX_TIMESHARE k"

definition SCHED_PRI_NHALF :: "kern \<Rightarrow> nat" where "SCHED_PRI_NHALF k = SCHED_PRI_NRESV k div 2"
definition SCHED_PRI_MIN :: "kern \<Rightarrow> nat" where "SCHED_PRI_MIN k = PRI_MIN_BATCH k + SCHED_PRI_NHALF k"
definition SCHED_PRI_MAX :: "kern \<Rightarrow> nat" where "SCHED_PRI_MAX k = PRI_MAX_BATCH k - SCHED_PRI_NHALF k"

definition SCHED_PRI_RANGE :: "kern \<Rightarrow> nat" where
  "SCHED_PRI_RANGE k = SCHED_PRI_MAX k - SCHED_PRI_MIN k + 1"

definition SCHED_TICK_SECS :: int where "SCHED_TICK_SECS = 10"
definition SCHED_TICK_TARG :: "kern \<Rightarrow> int" where "SCHED_TICK_TARG k = hz k * SCHED_TICK_SECS"
definition SCHED_TICK_MAX :: "kern \<Rightarrow> int" where "SCHED_TICK_MAX k = SCHED_TICK_TARG k + hz k"
definition SCHED_TICK_SHIFT :: nat where "SCHED_TICK_SHIFT = 10"
definition SCHED_SLP_RUN_MAX :: "kern \<Rightarrow> int" where
  "SCHED_SLP_RUN_MAX k = push_bit SCHED_TICK_SHIFT (hz k * 5)"
definition SCHED_SLP_RUN_FORK :: "kern \<Rightarrow> int" where
  "SCHED_SLP_RUN_FORK k = push_bit SCHED_TICK_SHIFT (hz k div 2)"
definition SCHED_INTERACT_MAX :: int where "SCHED_INTERACT_MAX = 100"
definition SCHED_INTERACT_HALF :: int where "SCHED_INTERACT_HALF = SCHED_INTERACT_MAX div 2"
definition SCHED_INTERACT_THRESH :: int where "SCHED_INTERACT_THRESH = 30"
definition SCHED_SLICE_DEFAULT_DIVISOR :: int where "SCHED_SLICE_DEFAULT_DIVISOR = 10"
definition SCHED_SLICE_MIN_DIVISOR :: int where "SCHED_SLICE_MIN_DIVISOR = 6"

text \<open>
  The ranges of \<open>sys/priority.h\<close>: kernel threads, timeshare, idle in this order, all of them
  below 256; the nice values leave room in the timeshare range.
\<close>

definition kern_ok :: "kern \<Rightarrow> bool" where
  "kern_ok k \<longleftrightarrow> PRI_MAX_ITHD k < PRI_MIN_KERN k \<and> PRI_MIN_KERN k \<le> PRI_MAX_KERN k \<and>
    PRI_MAX_KERN k < PRI_MIN_TIMESHARE k \<and> PRI_MIN_TIMESHARE k \<le> PRI_MAX_TIMESHARE k \<and>
    PRI_MAX_TIMESHARE k < PRI_MIN_IDLE k \<and> PRI_MIN_IDLE k \<le> PRI_MAX_IDLE k \<and> PRI_MAX_IDLE k < 256 \<and>
    PRIO_MIN k = -20 \<and> PRIO_MAX k = 20 \<and> 82 \<le> PRI_TIMESHARE_RANGE k \<and> PRI_TIMESHARE_RANGE k \<le> 128 \<and>
    1 \<le> hz k \<and> FSHIFT k = 11"

text \<open>FreeBSD's values, with the variables as \<open>sched_initticks\<close> leaves them at 1000 and 127 Hz.\<close>

definition freebsd :: kern where
  "freebsd = \<lparr>PRI_MIN_TIMESHARE = 120, PRI_MAX_TIMESHARE = 223, PRI_MIN_IDLE = 224,
    PRI_MAX_IDLE = 255, PRI_MAX_ITHD = 47, PRI_MIN_KERN = 80, PRI_MAX_KERN = 119, PRIO_MIN = -20,
    PRIO_MAX = 20, PRI_TIMESHARE = 3, PRI_BASE = unset_bit 3, PRI_FIFO_BIT = 8, FSHIFT = 11, NOCPU = -1, hz = 1000, mp_maxid = 3, sched_interact = 30,
    tickincr = 8062, realstathz = 127, sched_slice = 12, sched_slice_min = 2, preempt_thresh = 80,
    static_boost = 152, sched_idlespins = 10000, sched_idlespinthresh = 15, rebalance = 1,
    balance_interval = 127, affinity = 1, steal_idle = 1, steal_thresh = 2\<rparr>"

lemma freebsd_ok: "kern_ok freebsd"
  by (simp add: kern_ok_def freebsd_def PRI_TIMESHARE_RANGE_def)

lemma kern_batch:
  assumes "kern_ok k"
  shows "PRI_MIN_TIMESHARE k < PRI_MIN_BATCH k" and "PRI_MIN_BATCH k + SCHED_PRI_NRESV k < PRI_MAX_BATCH k"
    and "PRI_MIN_BATCH k + PRI_BATCH_RANGE k = PRI_MAX_BATCH k + 1" and "SCHED_PRI_NRESV k = 40"
    and "PRI_MAX_BATCH k < 256" and "0 < PRI_INTERACT_RANGE k" and "0 < PRI_BATCH_RANGE k"
proof -
  have nresv: "SCHED_PRI_NRESV k = 40" using assms by (simp add: kern_ok_def SCHED_PRI_NRESV_def)
  define R where "R = PRI_TIMESHARE_RANGE k"
  define q where "q = (R - 40) div 2"
  have R: "PRI_MAX_TIMESHARE k + 1 = PRI_MIN_TIMESHARE k + R" "PRI_MAX_TIMESHARE k < 255" "82 \<le> R"
    using assms by (auto simp: kern_ok_def R_def PRI_TIMESHARE_RANGE_def)
  have q: "2 * q \<le> R - 40" "R - 40 < 2 * q + 2" unfolding q_def by linarith+
  have int_range: "PRI_INTERACT_RANGE k = q" by (simp add: PRI_INTERACT_RANGE_def nresv q_def R_def)
  have batch: "PRI_BATCH_RANGE k = R - q" "PRI_MIN_BATCH k = PRI_MIN_TIMESHARE k + q"
    "PRI_MAX_BATCH k = PRI_MAX_TIMESHARE k"
    by (simp_all add: PRI_BATCH_RANGE_def PRI_MIN_BATCH_def PRI_MAX_BATCH_def int_range R_def)
  show "PRI_MIN_TIMESHARE k < PRI_MIN_BATCH k" "PRI_MIN_BATCH k + SCHED_PRI_NRESV k < PRI_MAX_BATCH k"
    "PRI_MIN_BATCH k + PRI_BATCH_RANGE k = PRI_MAX_BATCH k + 1" "SCHED_PRI_NRESV k = 40"
    "PRI_MAX_BATCH k < 256" "0 < PRI_INTERACT_RANGE k" "0 < PRI_BATCH_RANGE k"
    unfolding batch int_range nresv using R q by linarith+
qed

end
