(* ===== verification/Runq.thy ===== *)
theory Runq
  imports Bitset_Spec Sched_Types
begin

text \<open>
  The run queues of \<open>src/asgn2/kern/kern_switch.c\<close>: \<open>RQ_NQS\<close> tail queues of threads and a bitmap
  of the queues that are not empty, in machine words whose width and count are the parameters of
  \<open>runq_md\<close>. Operations that store into the thread (\<open>td_rqindex\<close>) return the thread store too.
\<close>

section \<open>Operations\<close>

definition runq_init :: "'w::len word runq_md \<Rightarrow> 'w word runq" where
  "runq_init md = \<lparr>rqb_bits = replicate (RQB_LEN md) 0, rq_queues = replicate RQ_NQS []\<rparr>"

definition runq_clrbit :: "'w::len word runq_md \<Rightarrow> nat \<Rightarrow> 'w word list \<Rightarrow> 'w word list" where
  "runq_clrbit md pri bits =
    bits[RQB_WORD md pri := bits ! RQB_WORD md pri AND NOT (RQB_BIT md pri)]"

definition runq_setbit :: "'w::len word runq_md \<Rightarrow> nat \<Rightarrow> 'w word list \<Rightarrow> 'w word list" where
  "runq_setbit md pri bits =
    bits[RQB_WORD md pri := bits ! RQB_WORD md pri OR RQB_BIT md pri]"

text \<open>The scan over the words: the first word that is not zero under the mask of its turn.\<close>

fun scan_words :: "'w::len word runq_md \<Rightarrow> 'w word \<Rightarrow> nat \<Rightarrow> 'w word list \<Rightarrow> nat option" where
  "scan_words md msk i [] = None"
| "scan_words md msk i (w # ws) =
    (let m = w AND msk
     in if m = 0 then scan_words md (-1) (Suc i) ws
        else Some (RQB_FFS md m + push_bit (RQB_L2BPW md) i))"

definition runq_findbit :: "'w::len word runq_md \<Rightarrow> 'w word runq \<Rightarrow> int" where
  "runq_findbit md rq = (case scan_words md (-1) 0 (rqb_bits rq) of Some p \<Rightarrow> int p | None \<Rightarrow> -1)"

definition runq_findbit_from :: "'w::len word runq_md \<Rightarrow> 'w word runq \<Rightarrow> nat \<Rightarrow> int" where
  "runq_findbit_from md rq pri =
    (let msk = push_bit (pri mod RQB_BPW md) (-1);
         start = RQB_WORD md pri
     in case scan_words md msk start (drop start (rqb_bits rq)) of
          Some p \<Rightarrow> int p
        | None \<Rightarrow>
            if pri = 0 then -1
            else (case scan_words md (-1) 0 (rqb_bits rq) of Some p \<Rightarrow> int p | None \<Rightarrow> -1))"

definition queue_upd :: "nat \<Rightarrow> (tid list \<Rightarrow> tid list) \<Rightarrow> 'w runq \<Rightarrow> 'w runq" where
  "queue_upd i f rq = rq\<lparr>rq_queues := (rq_queues rq)[i := f (rq_queues rq ! i)]\<rparr>"

definition runq_add_pri ::
    "'w::len word runq_md \<Rightarrow> threads \<Rightarrow> 'w word runq \<Rightarrow> tid \<Rightarrow> nat \<Rightarrow> srq_flag set
      \<Rightarrow> threads \<times> 'w word runq" where
  "runq_add_pri md T rq td pri flags =
    (let T1 = upd_td T td (\<lambda>x. x\<lparr>td_rqindex := pri\<rparr>);
         rq1 = rq\<lparr>rqb_bits := runq_setbit md pri (rqb_bits rq)\<rparr>
     in (T1, if SRQ_PREEMPTED \<in> flags then queue_upd pri (tailq_insert_head td) rq1
             else queue_upd pri (tailq_insert_tail td) rq1))"

definition runq_add ::
    "'w::len word runq_md \<Rightarrow> threads \<Rightarrow> 'w word runq \<Rightarrow> tid \<Rightarrow> srq_flag set \<Rightarrow> threads \<times> 'w word runq" where
  "runq_add md T rq td flags =
    (let pri = td_priority (T td) div RQ_PPQ;
         T1 = upd_td T td (\<lambda>x. x\<lparr>td_rqindex := pri\<rparr>);
         rq1 = rq\<lparr>rqb_bits := runq_setbit md pri (rqb_bits rq)\<rparr>
     in (T1, if SRQ_PREEMPTED \<in> flags then queue_upd pri (tailq_insert_head td) rq1
             else queue_upd pri (tailq_insert_tail td) rq1))"

fun any_word :: "'w::len word list \<Rightarrow> bool" where
  "any_word [] = False"
| "any_word (w # ws) = (if w \<noteq> 0 then True else any_word ws)"

definition runq_check :: "'w::len word runq \<Rightarrow> bool" where
  "runq_check rq = any_word (rqb_bits rq)"

text \<open>
  \<open>runq_choose_fuzz\<close>: among the first \<open>fuzz\<close> threads of the queue prefer one that ran on the
  processor \<open>cpu\<close> last.
\<close>

fun fuzz_scan :: "threads \<Rightarrow> nat \<Rightarrow> nat \<Rightarrow> tid \<Rightarrow> tid list \<Rightarrow> tid" where
  "fuzz_scan T cpu 0 td q = td"
| "fuzz_scan T cpu (Suc count) td [] = td"
| "fuzz_scan T cpu (Suc count) td (td2 # q) =
    (if td_lastcpu (T td2) = int cpu then td2 else fuzz_scan T cpu count td q)"

definition runq_choose_fuzz ::
    "'w::len word runq_md \<Rightarrow> threads \<Rightarrow> nat \<Rightarrow> 'w word runq \<Rightarrow> int \<Rightarrow> tid option" where
  "runq_choose_fuzz md T cpu rq fuzz =
    (let pri = runq_findbit md rq
     in if pri = -1 then None
        else let rqh = rq_queues rq ! nat pri
             in case tailq_first rqh of None \<Rightarrow> None
                | Some td \<Rightarrow> Some (if fuzz > 1 then fuzz_scan T cpu (nat fuzz) td rqh else td))"

definition runq_choose :: "'w::len word runq_md \<Rightarrow> 'w word runq \<Rightarrow> tid option" where
  "runq_choose md rq =
    (let pri = runq_findbit md rq
     in if pri = -1 then None else tailq_first (rq_queues rq ! nat pri))"

definition runq_choose_from :: "'w::len word runq_md \<Rightarrow> 'w word runq \<Rightarrow> nat \<Rightarrow> tid option" where
  "runq_choose_from md rq idx =
    (let pri = runq_findbit_from md rq idx
     in if pri = -1 then None else tailq_first (rq_queues rq ! nat pri))"

text \<open>
  Removal; \<open>idx\<close> is the index the caller passes by reference, advanced when its queue becomes
  empty.
\<close>

definition runq_remove_idx ::
    "'w::len word runq_md \<Rightarrow> threads \<Rightarrow> 'w word runq \<Rightarrow> tid \<Rightarrow> nat option \<Rightarrow> 'w word runq \<times> nat option" where
  "runq_remove_idx md T rq td idx =
    (let pri = td_rqindex (T td);
         rq1 = queue_upd pri (tailq_remove td) rq
     in if rq_queues rq1 ! pri = []
        then (rq1\<lparr>rqb_bits := runq_clrbit md pri (rqb_bits rq1)\<rparr>,
              if idx = Some pri then Some ((pri + 1) mod RQ_NQS) else idx)
        else (rq1, idx))"

definition runq_remove :: "'w::len word runq_md \<Rightarrow> threads \<Rightarrow> 'w word runq \<Rightarrow> tid \<Rightarrow> 'w word runq" where
  "runq_remove md T rq td = fst (runq_remove_idx md T rq td None)"

section \<open>The bitmap\<close>

definition bits_ok :: "'w::len word runq_md \<Rightarrow> 'w word list \<Rightarrow> bool" where
  "bits_ok md bits \<longleftrightarrow> runq_md_ok md \<and> length bits = RQB_LEN md"

definition bit_set :: "'w::len word runq_md \<Rightarrow> 'w word list \<Rightarrow> nat \<Rightarrow> bool" where
  "bit_set md bits i \<longleftrightarrow> bit (bits ! (i div RQB_BPW md)) (i mod RQB_BPW md)"

lemma runq_md_okD:
  fixes md :: "'w::len word runq_md"
  assumes "runq_md_ok md"
  shows "RQB_BPW md * RQB_LEN md = RQ_NQS" and "RQB_BPW md = LENGTH('w)"
    and "RQB_BPW md = 2 ^ RQB_L2BPW md"
    and "w \<noteq> 0 \<Longrightarrow> bit w (RQB_FFS md w)" and "w \<noteq> 0 \<Longrightarrow> \<forall>j<RQB_FFS md w. \<not> bit w j"
  using assms unfolding runq_md_ok_def by blast+

lemma runq_md_cell:
  fixes md :: "'w::len word runq_md"
  assumes "runq_md_ok md" and "i < RQ_NQS"
  shows "RQB_WORD md i = i div RQB_BPW md" and "RQB_BIT md i = 2 ^ (i mod RQB_BPW md)"
    and "i div RQB_BPW md < RQB_LEN md" and "i mod RQB_BPW md < LENGTH('w)"
proof -
  have bpw: "RQB_BPW md * RQB_LEN md = RQ_NQS" "RQB_BPW md = LENGTH('w)"
    using runq_md_okD [OF assms(1)] by blast+
  show "RQB_WORD md i = i div RQB_BPW md" "RQB_BIT md i = 2 ^ (i mod RQB_BPW md)"
    using assms by (simp_all add: runq_md_ok_def)
  show "i div RQB_BPW md < RQB_LEN md"
    using assms(2) bpw(1) by (intro less_mult_imp_div_less) (simp add: mult.commute)
  show "i mod RQB_BPW md < LENGTH('w)" unfolding bpw(2) by simp
qed

lemma bit_set_setbit:
  assumes ok: "bits_ok md bits" and i: "i < RQ_NQS" and j: "j < RQ_NQS"
  shows "bit_set md (runq_setbit md i bits) j \<longleftrightarrow> j = i \<or> bit_set md bits j"
proof -
  have md: "runq_md_ok md" and len: "length bits = RQB_LEN md" using ok by (simp_all add: bits_ok_def)
  note ci = runq_md_cell [OF md i] and cj = runq_md_cell [OF md j]
  show ?thesis
  proof (cases "i div RQB_BPW md = j div RQB_BPW md")
    case True
    then have "j = i \<longleftrightarrow> j mod RQB_BPW md = i mod RQB_BPW md" using same_cell [of j "RQB_BPW md" i] by auto
    then show ?thesis
      using True ci cj len by (simp add: bit_set_def runq_setbit_def bit_or_single)
  next
    case False
    then show ?thesis using ci cj len by (auto simp: bit_set_def runq_setbit_def)
  qed
qed

lemma bit_set_clrbit:
  assumes ok: "bits_ok md bits" and i: "i < RQ_NQS" and j: "j < RQ_NQS"
  shows "bit_set md (runq_clrbit md i bits) j \<longleftrightarrow> j \<noteq> i \<and> bit_set md bits j"
proof -
  have md: "runq_md_ok md" and len: "length bits = RQB_LEN md" using ok by (simp_all add: bits_ok_def)
  note ci = runq_md_cell [OF md i] and cj = runq_md_cell [OF md j]
  show ?thesis
  proof (cases "i div RQB_BPW md = j div RQB_BPW md")
    case True
    then have "j = i \<longleftrightarrow> j mod RQB_BPW md = i mod RQB_BPW md" using same_cell [of j "RQB_BPW md" i] by auto
    then show ?thesis
      using True ci cj len by (simp add: bit_set_def runq_clrbit_def bit_and_not_single)
  next
    case False
    then show ?thesis using ci cj len by (auto simp: bit_set_def runq_clrbit_def)
  qed
qed

interpretation rqb: bit_map "bits_ok md" RQ_NQS "bit_set md" "runq_setbit md" "runq_clrbit md"
  for md :: "'w::len word runq_md"
  by unfold_locales
    (simp_all add: bit_set_setbit bit_set_clrbit, simp_all add: bits_ok_def runq_setbit_def runq_clrbit_def)

section \<open>The scan finds the least set bit\<close>

text \<open>A queue number is the pair of its word and its bit.\<close>

lemma scan_words_None:
  fixes ws :: "'w::len word list"
  shows "scan_words md msk i ws = None \<longleftrightarrow>
    (\<forall>k<length ws. (ws ! k) AND (if k = 0 then msk else -1) = 0)"
  by (induction ws arbitrary: msk i) (auto simp: Let_def less_Suc_eq_0_disj)

lemma scan_words_Some:
  fixes ws :: "'w::len word list"
  assumes md: "runq_md_ok md"
  shows "scan_words md msk i ws = Some p \<Longrightarrow> \<exists>k<length ws. \<exists>b<LENGTH('w).
    p = (i + k) * RQB_BPW md + b \<and> bit (ws ! k AND (if k = 0 then msk else -1)) b \<and>
    (\<forall>b'<b. \<not> bit (ws ! k AND (if k = 0 then msk else -1)) b') \<and>
    (\<forall>k'<k. ws ! k' AND (if k' = 0 then msk else -1) = 0)"
proof (induction ws arbitrary: msk i)
  case (Cons w ws)
  show ?case
  proof (cases "w AND msk = 0")
    case True
    then have "scan_words md (-1) (Suc i) ws = Some p" using Cons.prems by simp
    from Cons.IH [OF this] obtain k b where kb: "k < length ws" "b < LENGTH('w)"
        "p = (Suc i + k) * RQB_BPW md + b" "bit (ws ! k) b" "\<forall>b'<b. \<not> bit (ws ! k) b'"
        "\<forall>k'<k. ws ! k' = 0" by auto
    show ?thesis
      using kb True by (intro exI [of _ "Suc k"] exI [of _ b] conjI) (auto simp: less_Suc_eq_0_disj)
  next
    case False
    let ?b = "RQB_FFS md (w AND msk)"
    have b: "bit (w AND msk) ?b" "\<forall>j<?b. \<not> bit (w AND msk) j"
      using runq_md_okD(4,5) [OF md] False by blast+
    have "p = i * RQB_BPW md + ?b"
      using Cons.prems False by (simp add: push_bit_eq_mult runq_md_okD(3) [OF md])
    moreover have "?b < LENGTH('w)" using b(1) by (rule bit_imp_le_length)
    ultimately show ?thesis
      using b by (intro exI [of _ 0] conjI exI [of _ ?b]) auto
  qed
qed simp

lemma cell_less_iff:
  assumes "b < (w :: nat)" and "b' < w"
  shows "k * w + b < k' * w + b' \<longleftrightarrow> k < k' \<or> k = k' \<and> b < b'"
proof (cases k k' rule: linorder_cases)
  case less
  then have "Suc k * w \<le> k' * w" by (intro mult_le_mono1) simp
  then show ?thesis using less assms by simp
next
  case greater
  then have "Suc k' * w \<le> k * w" by (intro mult_le_mono1) simp
  then show ?thesis using greater assms by simp
qed simp

text \<open>The scan from word \<open>i\<close> under a mask that hides the bits below \<open>s\<close> of that word.\<close>

lemma scan_from:
  fixes bits :: "'w::len word list"
  assumes ok: "bits_ok md bits" and start: "start < RQ_NQS"
  shows "scan_words md (push_bit (start mod RQB_BPW md) (-1)) (start div RQB_BPW md)
      (drop (start div RQB_BPW md) bits) =
    (if \<exists>p. start \<le> p \<and> p < RQ_NQS \<and> bit_set md bits p
     then Some (LEAST p. start \<le> p \<and> p < RQ_NQS \<and> bit_set md bits p) else None)"
    (is "?scan = _")
proof -
  have md: "runq_md_ok md" and len: "length bits = RQB_LEN md" using ok by (simp_all add: bits_ok_def)
  have bpw: "RQB_BPW md * RQB_LEN md = RQ_NQS" "RQB_BPW md = LENGTH('w)"
    using runq_md_okD [OF md] by blast+
  let ?n = "RQB_BPW md" and ?i = "start div RQB_BPW md" and ?s = "start mod RQB_BPW md"
  let ?ws = "drop ?i bits" and ?mask = "push_bit ?s (-1) :: 'w word"
  have start_eq: "start = ?i * ?n + ?s" by simp
  have s: "?s < ?n" unfolding bpw(2) by simp
  have mask: "bit (w AND (if k = 0 then ?mask else -1)) b \<longleftrightarrow> bit w b \<and> (k = 0 \<longrightarrow> ?s \<le> b)"
    if "b < LENGTH('w)" for w :: "'w word" and k :: nat and b
    using that by (auto simp: bit_simps)
  have in_range: "\<exists>k b. p = (?i + k) * ?n + b \<and> b < ?n \<and> k < length ?ws \<and> (k = 0 \<longrightarrow> ?s \<le> b) \<and>
      bit_set md bits p = bit (?ws ! k) b" if p: "start \<le> p" "p < RQ_NQS" for p
  proof -
    have le: "?i \<le> p div ?n" using p(1) by (rule div_le_mono)
    let ?k = "p div ?n - ?i" and ?b = "p mod ?n"
    have "p = (?i + ?k) * ?n + ?b" using le by simp
    moreover have "?b < ?n" unfolding bpw(2) by simp
    moreover have "?k < length ?ws" using runq_md_cell(3) [OF md p(2)] len le by simp
    moreover have "?k = 0 \<longrightarrow> ?s \<le> ?b"
    proof
      assume "?k = 0"
      then have "p div ?n = ?i" using le by simp
      then have "p = ?i * ?n + ?b" using div_mult_mod_eq [of p ?n] by simp
      then show "?s \<le> ?b" using p(1) start_eq by linarith
    qed
    moreover have "bit_set md bits p = bit (?ws ! ?k) ?b"
      using le runq_md_cell(3) [OF md p(2)] len by (simp add: bit_set_def)
    ultimately show ?thesis by (intro exI [of _ ?k] exI [of _ ?b] conjI)
  qed
  show ?thesis
  proof (cases ?scan)
    case None
    have "\<not> bit_set md bits p" if p: "start \<le> p" "p < RQ_NQS" for p
    proof -
      obtain k b where kb: "b < ?n" "k < length ?ws" "k = 0 \<longrightarrow> ?s \<le> b" "bit_set md bits p = bit (?ws ! k) b"
        using in_range [OF p] by blast
      have "?ws ! k AND (if k = 0 then ?mask else -1) = 0"
        using None [unfolded scan_words_None] kb(2) by blast
      then have no: "\<not> bit (?ws ! k AND (if k = 0 then ?mask else -1)) b" by simp
      have "b < LENGTH('w)" using kb(1) bpw(2) by simp
      then show ?thesis using no mask [of b "?ws ! k" k] kb(3,4) by blast
    qed
    then show ?thesis using None by auto
  next
    case (Some p)
    from scan_words_Some [OF md Some] obtain k b where kb: "k < length ?ws" "b < LENGTH('w)"
        "p = (?i + k) * ?n + b" "bit (?ws ! k AND (if k = 0 then ?mask else -1)) b"
        "\<forall>b'<b. \<not> bit (?ws ! k AND (if k = 0 then ?mask else -1)) b'"
        "\<forall>k'<k. ?ws ! k' AND (if k' = 0 then ?mask else -1) = 0" by blast
    have b_n: "b < ?n" using kb(2) bpw(2) by simp
    have cell: "p div ?n = ?i + k" "p mod ?n = b" using kb(3) b_n by simp_all
    have p_set: "bit_set md bits p" and low: "k = 0 \<longrightarrow> ?s \<le> b"
      using kb(1,4) mask [OF kb(2)] cell by (simp_all add: bit_set_def)
    have "?i + k < RQB_LEN md" using kb(1) len by simp
    then have "(?i + k) * ?n + b < RQB_LEN md * ?n + 0"
      using b_n s by (simp only: cell_less_iff [OF b_n, of 0] gr_implies_not0 mult_0 simp_thms)
    then have p_lt: "p < RQ_NQS" using kb(3) bpw(1) by (simp add: mult.commute)
    have p_ge: "start \<le> p"
    proof (cases "k = 0")
      case True
      then have "p = ?i * ?n + b" "?s \<le> b" using low kb(3) by simp_all
      then show ?thesis using start_eq by linarith
    next
      case False
      then have "?i < ?i + k" by simp
      then have "?i * ?n + ?s < (?i + k) * ?n + b" using cell_less_iff [OF s b_n] by blast
      then show ?thesis using kb(3) start_eq by linarith
    qed
    have least: "p \<le> q" if q: "start \<le> q" "q < RQ_NQS" "bit_set md bits q" for q
    proof (rule ccontr)
      assume "\<not> p \<le> q"
      obtain k' b' where q': "q = (?i + k') * ?n + b'" "b' < ?n" "k' < length ?ws" "k' = 0 \<longrightarrow> ?s \<le> b'"
          "bit (?ws ! k') b'"
        using in_range [OF q(1,2)] q(3) by blast
      then have "bit (?ws ! k' AND (if k' = 0 then ?mask else -1)) b'"
        using mask [of b' "?ws ! k'" k'] bpw(2) by simp
      moreover have "k' < k \<or> k' = k \<and> b' < b"
        using \<open>\<not> p \<le> q\<close> q'(1,2) kb(3) cell_less_iff [OF q'(2) b_n, of "?i + k'" "?i + k"] by simp
      ultimately show False using kb(5,6) by (metis bit_0_eq bot_apply bot_bool_def)
    qed
    have "(LEAST p. start \<le> p \<and> p < RQ_NQS \<and> bit_set md bits p) = p"
      using p_ge p_lt p_set least by (intro Least_equality) auto
    then show ?thesis using Some p_ge p_lt p_set by auto
  qed
qed

section \<open>The invariant\<close>

text \<open>
  A run queue is well formed when bit \<open>i\<close> of the status says whether queue \<open>i\<close> is inhabited and
  no thread is on it twice.
\<close>

definition inhabited :: "'w runq \<Rightarrow> nat \<Rightarrow> bool" where
  "inhabited rq i \<longleftrightarrow> i < RQ_NQS \<and> rq_queues rq ! i \<noteq> []"

definition on_runq :: "'w runq \<Rightarrow> tid set" where
  "on_runq rq = (\<Union>i<RQ_NQS. set (rq_queues rq ! i))"

definition runq_ok :: "'w::len word runq_md \<Rightarrow> 'w word runq \<Rightarrow> bool" where
  "runq_ok md rq \<longleftrightarrow> rqb.tracks md (rqb_bits rq) (inhabited rq) \<and> length (rq_queues rq) = RQ_NQS \<and>
    (\<forall>i<RQ_NQS. distinct (rq_queues rq ! i)) \<and>
    (\<forall>i<RQ_NQS. \<forall>j<RQ_NQS. i \<noteq> j \<longrightarrow> set (rq_queues rq ! i) \<inter> set (rq_queues rq ! j) = {})"

lemma runq_okD:
  assumes "runq_ok md rq"
  shows "rqb.tracks md (rqb_bits rq) (inhabited rq)" and "length (rq_queues rq) = RQ_NQS"
    and "i < RQ_NQS \<Longrightarrow> distinct (rq_queues rq ! i)" and "bits_ok md (rqb_bits rq)"
    and "i < RQ_NQS \<Longrightarrow> bit_set md (rqb_bits rq) i \<longleftrightarrow> inhabited rq i"
  using assms rqb.tracks_ok [of md "rqb_bits rq"] rqb.tracksD [of md "rqb_bits rq"]
  unfolding runq_ok_def by blast+

lemma findbit_spec:
  assumes ok: "runq_ok md rq"
  shows "runq_findbit md rq = (if \<exists>i. inhabited rq i then int (LEAST i. inhabited rq i) else -1)"
proof -
  have bits: "p < RQ_NQS \<and> bit_set md (rqb_bits rq) p \<longleftrightarrow> inhabited rq p" for p
    using runq_okD(5) [OF ok] by (auto simp: inhabited_def)
  have "(0::nat) < RQ_NQS" by (simp add: RQ_NQS_def)
  from scan_from [OF runq_okD(4) [OF ok] this] show ?thesis
    by (simp add: runq_findbit_def bits)
qed

lemma findbit_from_spec:
  assumes ok: "runq_ok md rq" and pri: "pri < RQ_NQS"
  shows "runq_findbit_from md rq pri =
    (if \<exists>i\<ge>pri. inhabited rq i then int (LEAST i. pri \<le> i \<and> inhabited rq i)
     else if \<exists>i. inhabited rq i then int (LEAST i. inhabited rq i) else -1)"
proof -
  have bits: "p < RQ_NQS \<and> bit_set md (rqb_bits rq) p \<longleftrightarrow> inhabited rq p" for p
    using runq_okD(5) [OF ok] by (auto simp: inhabited_def)
  have md: "runq_md_ok md" using runq_okD(4) [OF ok] by (simp add: bits_ok_def)
  have "(0::nat) < RQ_NQS" by (simp add: RQ_NQS_def)
  note all = scan_from [OF runq_okD(4) [OF ok] this] and rest = scan_from [OF runq_okD(4) [OF ok] pri]
  have "pri = 0 \<Longrightarrow> (\<exists>i\<ge>pri. inhabited rq i) \<longleftrightarrow> (\<exists>i. inhabited rq i)" by simp
  then show ?thesis
    using all rest by (auto simp: runq_findbit_from_def Let_def bits runq_md_cell(1) [OF md pri])
qed

lemma inhabited_Least:
  assumes "\<exists>i. inhabited rq i"
  shows "inhabited rq (LEAST i. inhabited rq i)" and "j < (LEAST i. inhabited rq i) \<Longrightarrow> \<not> inhabited rq j"
  using assms LeastI_ex not_less_Least by blast+

section \<open>The operations keep the invariant\<close>

lemma queue_upd_simps [simp]:
  "rqb_bits (queue_upd i f rq) = rqb_bits rq"
  "rq_queues (queue_upd i f rq) = (rq_queues rq)[i := f (rq_queues rq ! i)]"
  by (simp_all add: queue_upd_def)

lemma nth_queue_upd:
  "length qs = RQ_NQS \<Longrightarrow> i < RQ_NQS \<Longrightarrow> qs[i := q] ! j = (if j = i then q else qs ! j)"
  by simp

lemma runq_ok_put:
  assumes ok: "runq_ok md rq" and i: "i < RQ_NQS" and q: "q \<noteq> []" "distinct q"
    and sub: "set q \<subseteq> insert t (set (rq_queues rq ! i))" and t: "t \<notin> on_runq rq"
  shows "runq_ok md (rq\<lparr>rqb_bits := runq_setbit md i (rqb_bits rq), rq_queues := (rq_queues rq)[i := q]\<rparr>)"
    (is "runq_ok md ?rq")
proof -
  note D = runq_okD [OF ok]
  have "rqb.tracks md (runq_setbit md i (rqb_bits rq)) (inhabited ?rq)"
    by (rule rqb.tracks_put [OF D(1) i]) (use q i D(2) in \<open>simp_all add: inhabited_def\<close>)
  moreover have "set ((rq_queues ?rq) ! a) \<inter> set ((rq_queues ?rq) ! b) = {}"
    if "a < RQ_NQS" "b < RQ_NQS" "a \<noteq> b" for a b
  proof -
    have "set (rq_queues rq ! a) \<inter> set (rq_queues rq ! b) = {}" "t \<notin> set (rq_queues rq ! a)"
        "t \<notin> set (rq_queues rq ! b)"
      using ok that t by (auto simp: runq_ok_def on_runq_def)
    then show ?thesis using that sub D(2) i by (auto simp: nth_list_update)
  qed
  ultimately show ?thesis
    using D(2,3) i q by (simp add: runq_ok_def nth_list_update)
qed

lemma runq_ok_take:
  assumes ok: "runq_ok md rq" and i: "i < RQ_NQS" and rq1: "rq1 = queue_upd i (tailq_remove t) rq"
  shows "runq_ok md (if rq_queues rq1 ! i = [] then rq1\<lparr>rqb_bits := runq_clrbit md i (rqb_bits rq1)\<rparr> else rq1)"
proof -
  note D = runq_okD [OF ok]
  let ?q = "tailq_remove t (rq_queues rq ! i)"
  have dist: "distinct ?q" and sub: "set ?q \<subseteq> set (rq_queues rq ! i)"
    using D(3) [OF i] by (simp, auto)
  have q1: "rq_queues rq1 = (rq_queues rq)[i := ?q]" "rqb_bits rq1 = rqb_bits rq" by (simp_all add: rq1)
  have disj: "\<forall>a<RQ_NQS. \<forall>b<RQ_NQS. a \<noteq> b \<longrightarrow> set (rq_queues rq1 ! a) \<inter> set (rq_queues rq1 ! b) = {}"
    using ok sub D(2) i unfolding q1 runq_ok_def by (auto simp: nth_list_update)
  show ?thesis
  proof (cases "?q = []")
    case True
    have "rqb.tracks md (runq_clrbit md i (rqb_bits rq))
        (inhabited (rq1\<lparr>rqb_bits := runq_clrbit md i (rqb_bits rq1)\<rparr>))"
      by (rule rqb.tracks_clr [OF D(1) i]) (use True q1 i D(2) in \<open>simp_all add: inhabited_def\<close>)
    then show ?thesis
      using True q1 disj D(2,3) i dist by (simp add: runq_ok_def nth_list_update)
  next
    case False
    have "rqb.tracks md (rqb_bits rq) (inhabited rq1)"
    proof (rule rqb.tracks_cong [OF D(1)])
      fix j assume "j < RQ_NQS"
      moreover have "rq_queues rq ! i \<noteq> []" using False by (auto simp: tailq_remove_def)
      ultimately show "inhabited rq1 j = inhabited rq j"
        using False q1 D(2) i by (auto simp: inhabited_def nth_list_update)
    qed
    then show ?thesis
      using False q1 disj D(2,3) i dist by (simp add: runq_ok_def nth_list_update)
  qed
qed

lemma runq_init_ok: "runq_md_ok md \<Longrightarrow> runq_ok md (runq_init md)"
proof -
  assume md: "runq_md_ok md"
  have "rqb.tracks md (replicate (RQB_LEN md) 0) (inhabited (runq_init md))"
    using md by (intro rqb.tracksI)
      (simp_all add: bits_ok_def inhabited_def runq_init_def bit_set_def runq_md_cell)
  then show ?thesis by (simp add: runq_ok_def runq_init_def)
qed

lemma runq_add_pri_ok:
  assumes ok: "runq_ok md rq" and pri: "pri < RQ_NQS" and t: "t \<notin> on_runq rq"
  shows "runq_ok md (snd (runq_add_pri md T rq t pri flags))"
proof -
  have "t \<notin> set (rq_queues rq ! pri)" using t pri by (auto simp: on_runq_def)
  then show ?thesis
    using runq_ok_put [OF ok pri _ _ _ t, of "tailq_insert_head t (rq_queues rq ! pri)"]
      runq_ok_put [OF ok pri _ _ _ t, of "tailq_insert_tail t (rq_queues rq ! pri)"]
      runq_okD(3) [OF ok pri]
    by (simp add: runq_add_pri_def Let_def queue_upd_def subset_insertI2)
qed

lemma runq_add_eq: "runq_add md T rq t flags = runq_add_pri md T rq t (td_priority (T t) div RQ_PPQ) flags"
  by (simp add: runq_add_def runq_add_pri_def Let_def)

lemma rq_queues_remove_idx [simp]:
  "rq_queues (fst (runq_remove_idx md T rq t idx)) =
    (rq_queues rq)[td_rqindex (T t) := tailq_remove t (rq_queues rq ! td_rqindex (T t))]"
  by (simp add: runq_remove_idx_def Let_def)

lemma runq_remove_idx_ok:
  assumes ok: "runq_ok md rq" and pri: "td_rqindex (T t) < RQ_NQS"
  shows "runq_ok md (fst (runq_remove_idx md T rq t idx))"
  using runq_ok_take [OF ok pri refl, of t]
  by (auto simp: runq_remove_idx_def Let_def split: if_splits)

section \<open>Members\<close>

lemma on_runq_split:
  "i < RQ_NQS \<Longrightarrow> on_runq rq = set (rq_queues rq ! i) \<union> (\<Union>j\<in>{..<RQ_NQS} - {i}. set (rq_queues rq ! j))"
  by (auto simp: on_runq_def)

lemma on_runq_update:
  assumes "length (rq_queues rq) = RQ_NQS" and "i < RQ_NQS" and "rq_queues rq' = (rq_queues rq)[i := q]"
  shows "on_runq rq' = set q \<union> (\<Union>j\<in>{..<RQ_NQS} - {i}. set (rq_queues rq ! j))"
  using assms on_runq_split [OF assms(2), of rq'] by simp

lemma rq_queues_add_pri [simp]:
  "rq_queues (snd (runq_add_pri md T rq t pri flags)) =
    (rq_queues rq)[pri := (if SRQ_PREEMPTED \<in> flags then tailq_insert_head else tailq_insert_tail) t
      (rq_queues rq ! pri)]"
  by (simp add: runq_add_pri_def Let_def)

lemma on_runq_add_pri:
  assumes ok: "runq_ok md rq" and pri: "pri < RQ_NQS"
  shows "on_runq (snd (runq_add_pri md T rq t pri flags)) = insert t (on_runq rq)"
proof -
  show ?thesis
    unfolding on_runq_update [OF runq_okD(2) [OF ok] pri rq_queues_add_pri [of md T rq t pri flags]]
      on_runq_split [OF pri, of rq] by simp
qed

lemma on_runq_remove:
  assumes ok: "runq_ok md rq" and pri: "td_rqindex (T t) < RQ_NQS"
    and mem: "t \<in> set (rq_queues rq ! td_rqindex (T t))"
  shows "on_runq (fst (runq_remove_idx md T rq t idx)) = on_runq rq - {t}"
proof -
  have "t \<notin> set (rq_queues rq ! j)" if "j < RQ_NQS" "j \<noteq> td_rqindex (T t)" for j
    using ok pri mem that unfolding runq_ok_def by blast
  moreover have "set (tailq_remove t (rq_queues rq ! td_rqindex (T t))) =
      set (rq_queues rq ! td_rqindex (T t)) - {t}"
    using runq_okD(3) [OF ok pri] by simp
  ultimately show ?thesis
    unfolding on_runq_update [OF runq_okD(2) [OF ok] pri rq_queues_remove_idx [of md T rq t idx]]
      on_runq_split [OF pri, of rq]
    by auto
qed

end
