(* ===== verification/Lottery.thy ===== *)
theory Lottery
  imports Runq
begin

text \<open>
  The lottery queue of \<open>src/asgn2/kern/kern_switch.c\<close>: one run queue of which only queue 0 is
  used. A thread holds \<open>p_nice + 1\<close> tickets; the winner is drawn by the residue of \<open>random()\<close>
  modulo their sum.
\<close>

section \<open>Operations\<close>

definition lottery_q_add :: "'w::len word runq_md \<Rightarrow> 'w word runq \<Rightarrow> tid \<Rightarrow> 'w word runq" where
  "lottery_q_add md rq td =
    (let queue_idx = 0;
         rq1 = rq\<lparr>rqb_bits := runq_setbit md queue_idx (rqb_bits rq)\<rparr>
     in queue_upd queue_idx (tailq_insert_head td) rq1)"

definition lottery_q_remove :: "'w::len word runq_md \<Rightarrow> 'w word runq \<Rightarrow> tid \<Rightarrow> 'w word runq" where
  "lottery_q_remove md rq td =
    (let queue_idx = 0;
         rq1 = queue_upd queue_idx (tailq_remove td) rq
     in if rq_queues rq1 ! queue_idx = []
        then rq1\<lparr>rqb_bits := runq_clrbit md queue_idx (rqb_bits rq1)\<rparr> else rq1)"

definition tickets :: "threads \<Rightarrow> tid \<Rightarrow> int" where
  "tickets T td = p_nice (T td) + 1"

fun tck_total :: "threads \<Rightarrow> int \<Rightarrow> tid list \<Rightarrow> int" where
  "tck_total T tck_tot [] = tck_tot"
| "tck_total T tck_tot (td # q) = tck_total T (tck_tot + tickets T td) q"

text \<open>The second loop; \<open>None\<close> when it runs off the end of the queue, with \<open>td\<close> null.\<close>

fun draw :: "threads \<Rightarrow> int \<Rightarrow> tid list \<Rightarrow> tid option" where
  "draw T r [] = None"
| "draw T r (td # q) = (let r1 = r - tickets T td in if r1 < 0 then Some td else draw T r1 q)"

text \<open>
  \<open>random() % tck_tot\<close> is computed on \<open>u_long\<close> (64 bits), the total converted to it, and stored
  into an \<open>int\<close>; \<open>rand\<close> is what \<open>random()\<close> returns. With \<open>print\<close> the winner is dereferenced.
\<close>

definition lottery_q_choose ::
    "threads \<Rightarrow> 'w::len word runq \<Rightarrow> bool \<Rightarrow> nat \<Rightarrow> fault + tid option" where
  "lottery_q_choose T rq print rand =
    (let rqh = rq_queues rq ! 0
     in if rqh = [] then Inr None
        else let tck_tot = tck_total T 0 rqh
             in if tck_tot = 0 then Inl Div_by_zero
                else let r = signed_take_bit 31 (int rand mod (tck_tot mod 2 ^ 64));
                         td = draw T r rqh
                     in if print \<and> td = None then Inl Null_deref else Inr td)"

section \<open>The invariant of the lottery queue\<close>

definition lottery_ok :: "'w::len word runq_md \<Rightarrow> 'w word runq \<Rightarrow> bool" where
  "lottery_ok md rq \<longleftrightarrow> runq_ok md rq \<and> (\<forall>i<RQ_NQS. i \<noteq> 0 \<longrightarrow> rq_queues rq ! i = [])"

lemma RQ_NQS_pos [simp]: "0 < RQ_NQS"
  by (simp add: RQ_NQS_def)

lemma lottery_on_runq: "lottery_ok md rq \<Longrightarrow> on_runq rq = set (rq_queues rq ! 0)"
  by (force simp: lottery_ok_def on_runq_split [of 0])

lemma lottery_add_ok:
  assumes ok: "lottery_ok md rq" and t: "t \<notin> set (rq_queues rq ! 0)"
  shows "lottery_ok md (lottery_q_add md rq t)"
    and "rq_queues (lottery_q_add md rq t) ! 0 = t # rq_queues rq ! 0"
proof -
  have rok: "runq_ok md rq" using ok by (simp add: lottery_ok_def)
  have "t \<notin> on_runq rq" using t lottery_on_runq [OF ok] by simp
  from runq_ok_put [OF rok RQ_NQS_pos _ _ _ this, of "tailq_insert_head t (rq_queues rq ! 0)"]
  have "runq_ok md (lottery_q_add md rq t)"
    using t runq_okD(3) [OF rok, of 0] by (simp add: lottery_q_add_def queue_upd_def subset_insertI2)
  then show "lottery_ok md (lottery_q_add md rq t)"
    using ok runq_okD(2) [OF rok] by (simp add: lottery_ok_def lottery_q_add_def)
  show "rq_queues (lottery_q_add md rq t) ! 0 = t # rq_queues rq ! 0"
    using runq_okD(2) [OF rok] by (simp add: lottery_q_add_def tailq_insert_head_def)
qed

lemma lottery_remove_ok:
  assumes ok: "lottery_ok md rq"
  shows "lottery_ok md (lottery_q_remove md rq t)"
    and "rq_queues (lottery_q_remove md rq t) ! 0 = remove1 t (rq_queues rq ! 0)"
proof -
  have rok: "runq_ok md rq" using ok by (simp add: lottery_ok_def)
  have "runq_ok md (lottery_q_remove md rq t)"
    using runq_ok_take [OF rok RQ_NQS_pos refl, of t]
    by (auto simp: lottery_q_remove_def Let_def split: if_splits)
  moreover have q: "rq_queues (lottery_q_remove md rq t) =
      (rq_queues rq)[0 := tailq_remove t (rq_queues rq ! 0)]"
    by (simp add: lottery_q_remove_def Let_def)
  ultimately show "lottery_ok md (lottery_q_remove md rq t)"
    using ok runq_okD(2) [OF rok] by (simp add: lottery_ok_def)
  show "rq_queues (lottery_q_remove md rq t) ! 0 = remove1 t (rq_queues rq ! 0)"
    using runq_okD(2) [OF rok] q by (simp add: tailq_remove_def)
qed

lemma runq_init_lottery_ok: "runq_md_ok md \<Longrightarrow> lottery_ok md (runq_init md)"
  using runq_init_ok by (simp add: lottery_ok_def runq_init_def)

section \<open>The draw\<close>

lemma tck_total_sum: "tck_total T n q = n + (\<Sum>td\<leftarrow>q. tickets T td)"
  by (induction q arbitrary: n) simp_all

lemma draw_in_set: "draw T r q = Some td \<Longrightarrow> td \<in> set q"
  by (induction q arbitrary: r) (auto simp: Let_def split: if_splits)

lemma draw_Some:
  "(\<And>td. td \<in> set q \<Longrightarrow> 0 < tickets T td) \<Longrightarrow> 0 \<le> r \<Longrightarrow> r < (\<Sum>td\<leftarrow>q. tickets T td) \<Longrightarrow>
    \<exists>td. draw T r q = Some td"
proof (induction q arbitrary: r)
  case (Cons a q)
  then show ?case by (cases "r < tickets T a") simp_all
qed simp

text \<open>The residues that choose \<open>td\<close> are an interval as long as its number of tickets.\<close>

lemma draw_interval:
  assumes "td \<in> set q" and "distinct q" and "\<And>u. u \<in> set q \<Longrightarrow> 0 < tickets T u"
  shows "\<exists>a\<ge>0. a + tickets T td \<le> (\<Sum>u\<leftarrow>q. tickets T u) \<and>
    (\<forall>r\<ge>0. draw T r q = Some td \<longleftrightarrow> a \<le> r \<and> r < a + tickets T td)"
  using assms
proof (induction q)
  case (Cons x q)
  have pos: "0 < tickets T x" and nn: "0 \<le> (\<Sum>u\<leftarrow>q. tickets T u)"
    using Cons.prems(3) by simp (rule sum_list_nonneg, use Cons.prems(3) in \<open>force simp: less_imp_le\<close>)
  show ?case
  proof (cases "td = x")
    case True
    then have "td \<notin> set q" using Cons.prems(2) by simp
    then have "draw T r q \<noteq> Some td" for r using draw_in_set by blast
    then show ?thesis using True nn pos by (intro exI [of _ 0]) (auto simp: Let_def)
  next
    case False
    then obtain a where a: "0 \<le> a" "a + tickets T td \<le> (\<Sum>u\<leftarrow>q. tickets T u)"
        "\<forall>r\<ge>0. draw T r q = Some td \<longleftrightarrow> a \<le> r \<and> r < a + tickets T td"
      using Cons by auto
    have "draw T r (x # q) = Some td \<longleftrightarrow> tickets T x + a \<le> r \<and> r < tickets T x + a + tickets T td"
      if "0 \<le> r" for r
    proof (cases "r < tickets T x")
      case True
      then show ?thesis using False a(1) by simp
    next
      case ge: False
      then show ?thesis using a(3) by (auto simp: Let_def)
    qed
    then show ?thesis using a pos by (intro exI [of _ "tickets T x + a"]) auto
  qed
qed simp

lemma card_draw:
  assumes "td \<in> set q" and "distinct q" and "\<And>u. u \<in> set q \<Longrightarrow> 0 < tickets T u"
  shows "card {r :: nat. int r < (\<Sum>u\<leftarrow>q. tickets T u) \<and> draw T (int r) q = Some td} = nat (tickets T td)"
proof -
  obtain a where a: "0 \<le> a" "a + tickets T td \<le> (\<Sum>u\<leftarrow>q. tickets T u)"
      "\<forall>r\<ge>0. draw T r q = Some td \<longleftrightarrow> a \<le> r \<and> r < a + tickets T td"
    using draw_interval [OF assms] by blast
  have "{r :: nat. int r < (\<Sum>u\<leftarrow>q. tickets T u) \<and> draw T (int r) q = Some td} =
      {nat a..<nat (a + tickets T td)}"
    using a by auto
  moreover have "nat (a + tickets T td) - nat a = nat (tickets T td)" using a(1) by simp
  ultimately show ?thesis by simp
qed

text \<open>With positive tickets and a total that fits an \<open>int\<close>, the code computes the draw.\<close>

lemma lottery_choose_draw:
  assumes q: "rq_queues rq ! 0 \<noteq> []" and pos: "\<And>u. u \<in> set (rq_queues rq ! 0) \<Longrightarrow> 0 < tickets T u"
    and tot: "tot = (\<Sum>u\<leftarrow>rq_queues rq ! 0. tickets T u)" and lt: "tot < 2 ^ 31"
  shows "lottery_q_choose T rq print rand = Inr (draw T (int rand mod tot) (rq_queues rq ! 0))"
    and "0 < tot" and "\<exists>td\<in>set (rq_queues rq ! 0). draw T (int rand mod tot) (rq_queues rq ! 0) = Some td"
proof -
  let ?q = "rq_queues rq ! 0"
  obtain x q' where x: "?q = x # q'" using q by (cases ?q) auto
  have "0 \<le> (\<Sum>u\<leftarrow>q'. tickets T u)" using pos x by (intro sum_list_nonneg) (auto intro: less_imp_le)
  then show "0 < tot" using tot x pos [of x] by simp
  have "tot mod 2 ^ 64 = tot" using \<open>0 < tot\<close> lt by simp
  moreover have "0 \<le> int rand mod tot" "int rand mod tot < tot" using \<open>0 < tot\<close> by simp_all
  moreover have "signed_take_bit 31 (int rand mod tot) = int rand mod tot"
    using calculation lt by (intro signed_take_bit_int_eq_self) simp_all
  moreover obtain td where "draw T (int rand mod tot) ?q = Some td"
    using draw_Some [of ?q T "int rand mod tot"] pos calculation(2,3) tot by blast
  ultimately show "lottery_q_choose T rq print rand = Inr (draw T (int rand mod tot) ?q)"
      "\<exists>td\<in>set ?q. draw T (int rand mod tot) ?q = Some td"
    using q \<open>0 < tot\<close> tot draw_in_set by (auto simp: lottery_q_choose_def Let_def tck_total_sum)
qed

end
