(* ===== verification/Runq_Props.thy ===== *)
theory Runq_Props
  imports Lottery
begin

text \<open>
  The properties of the run queues and of the lottery queue.
\<close>

section \<open>A status word array is determined by its bits\<close>

lemma bits_eqI:
  assumes a: "bits_ok md a" and b: "bits_ok md b" and eq: "\<And>i. i < RQ_NQS \<Longrightarrow> bit_set md a i = bit_set md b i"
  shows "a = b"
proof (rule nth_equalityI)
  have md: "runq_md_ok md" and len: "length a = RQB_LEN md" "length b = RQB_LEN md"
    using a b by (simp_all add: bits_ok_def)
  show "length a = length b" using len by simp
  fix k assume k: "k < length a"
  show "a ! k = b ! k"
  proof (rule bit_word_eqI)
    fix n assume n: "n < LENGTH('a)"
    let ?w = "RQB_BPW md"
    have w: "n < ?w" using n runq_md_okD(2) [OF md] by simp
    have "k * ?w + n < RQB_LEN md * ?w + 0" using cell_less_iff [OF w, of 0 k "RQB_LEN md"] k len w by simp
    then have lt: "k * ?w + n < RQ_NQS" using runq_md_okD(1) [OF md] by (simp add: mult.commute)
    have "(k * ?w + n) div ?w = k" "(k * ?w + n) mod ?w = n" using w by simp_all
    then show "bit (a ! k) n = bit (b ! k) n" using eq [OF lt] by (simp add: bit_set_def)
  qed
qed

lemma runq_eqI:
  assumes "runq_ok md a" and "runq_ok md b" and "rq_queues a = rq_queues b"
  shows "rqb_bits a = rqb_bits b"
  using assms by (intro bits_eqI [of md]) (auto simp: runq_okD inhabited_def)

section \<open>Concrete queues\<close>

definition td0 :: thread where
  "td0 = \<lparr>ts_runq = None, ts_flags = {}, ts_cpu = 0, ts_rltick = 0, ts_slice = 0, ts_slptime = 0,
    ts_runtime = 0, ts_ltick = 0, ts_ftick = 0, ts_ticks = 0, td_priority = 160, td_base_pri = 160,
    td_user_pri = 160, td_base_user_pri = 160, td_lend_user_pri = 255, td_pri_class = 3,
    td_rqindex = 0, td_flags = {}, td_state = TDS_CAN_RUN, td_inhibitors = {}, td_lastcpu = 0, td_oncpu = -1,
    td_owepreempt = False, td_critnest = 0, td_pinned = 0, td_slptick = 0, td_cpuset = {0, 1, 2, 3},
    cr_uid = 1001, p_nice = 0, p_pid = 100, p_system = False\<rparr>"

definition lottery3 :: "64 word runq" where
  "lottery3 = lottery_q_add amd64_runq (lottery_q_add amd64_runq (runq_init amd64_runq) 7) 8"

lemma lottery3_ok: "lottery_ok amd64_runq lottery3" and lottery3_queue: "rq_queues lottery3 ! 0 = [8, 7]"
proof -
  note init = runq_init_lottery_ok [OF amd64_ok]
  have q0: "rq_queues (runq_init amd64_runq) ! 0 = []" by (simp add: runq_init_def RQ_NQS_def)
  note one = lottery_add_ok [OF init, of 7, unfolded q0, simplified]
  note two = lottery_add_ok [OF one(1), of 8, unfolded one(2), simplified]
  show "lottery_ok amd64_runq lottery3" "rq_queues lottery3 ! 0 = [8, 7]"
    using two by (simp_all add: lottery3_def)
qed

section \<open>Properties\<close>

text \<open>
  C34: adding a thread that is not queued, to any queue number below \<open>RQ_NQS\<close>, and removing a
  queued one keep the run queue well formed (status bit \<open>i\<close> is set exactly when queue \<open>i\<close> is
  inhabited, no thread is queued twice) and add or remove exactly that thread.
\<close>

theorem runq_invariant:
  assumes ok: "runq_ok md rq"
  shows "(t \<notin> on_runq rq \<and> pri < RQ_NQS \<longrightarrow>
      runq_ok md (snd (runq_add_pri md T rq t pri flags)) \<and>
      on_runq (snd (runq_add_pri md T rq t pri flags)) = insert t (on_runq rq)) \<and>
    (t \<notin> on_runq rq \<and> td_priority (T t) < 256 \<longrightarrow>
      runq_ok md (snd (runq_add md T rq t flags)) \<and>
      on_runq (snd (runq_add md T rq t flags)) = insert t (on_runq rq)) \<and>
    (td_rqindex (T t) < RQ_NQS \<and> t \<in> set (rq_queues rq ! td_rqindex (T t)) \<longrightarrow>
      runq_ok md (runq_remove md T rq t) \<and> on_runq (runq_remove md T rq t) = on_runq rq - {t})"
proof -
  have "td_priority (T t) < 256 \<Longrightarrow> td_priority (T t) div RQ_PPQ < RQ_NQS"
    by (simp add: RQ_NQS_def RQ_PPQ_def)
  then show ?thesis
    using runq_add_pri_ok [OF ok, of pri t T flags] on_runq_add_pri [OF ok, of pri T t flags]
      runq_add_pri_ok [OF ok, of "td_priority (T t) div RQ_PPQ" t T flags]
      on_runq_add_pri [OF ok, of "td_priority (T t) div RQ_PPQ" T t flags]
      runq_remove_idx_ok [OF ok, of T t None] on_runq_remove [OF ok, of T t None]
    unfolding runq_add_eq runq_remove_def by blast
qed

theorem runq_invariant_witness:
  "runq_ok amd64_runq (snd (runq_add amd64_runq (\<lambda>_. td0) (runq_init amd64_runq) 7 {}))"
proof -
  have "7 \<notin> on_runq (runq_init amd64_runq)" by (simp add: on_runq_def runq_init_def)
  moreover have "td_priority ((\<lambda>_. td0) 7) < 256" by (simp add: td0_def)
  ultimately show ?thesis
    using runq_invariant [OF runq_init_ok [OF amd64_ok], of 7 0 "\<lambda>_. td0" "{}"] by blast
qed

text \<open>
  \<open>runq_choose\<close> returns the first thread of the first inhabited queue, and nothing exactly
  when no thread is queued.
\<close>

theorem runq_choose_first:
  assumes ok: "runq_ok md rq"
  shows "case runq_choose md rq of
      None \<Rightarrow> on_runq rq = {}
    | Some t \<Rightarrow> \<exists>i<RQ_NQS. \<exists>q. rq_queues rq ! i = t # q \<and> (\<forall>j<i. rq_queues rq ! j = [])"
proof (cases "\<exists>i. inhabited rq i")
  case True
  define i where "i = (LEAST i. inhabited rq i)"
  have i: "inhabited rq i" unfolding i_def by (rule inhabited_Least(1) [OF True])
  have low: "\<not> inhabited rq j" if "j < i" for j
    using that unfolding i_def by (rule inhabited_Least(2) [OF True])
  obtain t q where tq: "rq_queues rq ! i = t # q" using i by (auto simp: inhabited_def neq_Nil_conv)
  have "runq_choose md rq = Some t"
    using True tq by (simp add: runq_choose_def findbit_spec [OF ok] i_def [symmetric])
  moreover have "\<forall>j<i. rq_queues rq ! j = []"
    using low i by (auto simp: inhabited_def)
  ultimately show ?thesis using tq i by (auto simp: inhabited_def)
next
  case False
  then have "on_runq rq = {}" by (auto simp: on_runq_def inhabited_def)
  then show ?thesis using False by (simp add: runq_choose_def findbit_spec [OF ok])
qed

theorem runq_choose_first_witness:
  "runq_choose amd64_runq lottery3 \<noteq> None"
proof -
  have "on_runq lottery3 = {8, 7}" using lottery_on_runq [OF lottery3_ok] lottery3_queue by simp
  moreover have "runq_ok amd64_runq lottery3" using lottery3_ok by (simp add: lottery_ok_def)
  ultimately show ?thesis
    using runq_choose_first [of amd64_runq lottery3] by (cases "runq_choose amd64_runq lottery3") simp_all
qed

text \<open>
  \<open>runq_choose_from\<close> searches cyclically: from queue \<open>idx\<close> to the last, and only when these
  are empty from queue 0 on; it returns nothing exactly when no thread is queued.
\<close>

theorem runq_choose_from_cyclic:
  assumes ok: "runq_ok md rq" and idx: "idx < RQ_NQS"
  shows "case runq_choose_from md rq idx of
      None \<Rightarrow> on_runq rq = {}
    | Some t \<Rightarrow> \<exists>i<RQ_NQS. \<exists>q. rq_queues rq ! i = t # q \<and>
        (idx \<le> i \<and> (\<forall>j. idx \<le> j \<and> j < i \<longrightarrow> rq_queues rq ! j = []) \<or>
         i < idx \<and> (\<forall>j<RQ_NQS. idx \<le> j \<or> j < i \<longrightarrow> rq_queues rq ! j = []))"
proof -
  note spec = findbit_from_spec [OF ok idx]
  consider (high) "\<exists>i\<ge>idx. inhabited rq i" | (low) "\<not> (\<exists>i\<ge>idx. inhabited rq i)" "\<exists>i. inhabited rq i"
    | (none) "\<not> (\<exists>i. inhabited rq i)" by blast
  then show ?thesis
  proof cases
    case high
    define i where "i = (LEAST i. idx \<le> i \<and> inhabited rq i)"
    have i: "idx \<le> i \<and> inhabited rq i" 
      unfolding i_def using high LeastI_ex [of "\<lambda>i. idx \<le> i \<and> inhabited rq i"] by simp
    have below: "\<not> (idx \<le> j \<and> inhabited rq j)" if "j < i" for j
      using that unfolding i_def by (rule not_less_Least [of _ "\<lambda>i. idx \<le> i \<and> inhabited rq i"])
    obtain t q where tq: "rq_queues rq ! i = t # q" using i by (auto simp: inhabited_def neq_Nil_conv)
    have "runq_choose_from md rq idx = Some t" using high tq by (simp add: runq_choose_from_def spec i_def [symmetric])
    moreover have "rq_queues rq ! j = []" if "idx \<le> j" "j < i" for j
      using below [OF that(2)] that i by (auto simp: inhabited_def)
    ultimately show ?thesis using tq i by (auto simp: inhabited_def)
  next
    case low
    define i where "i = (LEAST i. inhabited rq i)"
    have i: "inhabited rq i" unfolding i_def by (rule inhabited_Least(1) [OF low(2)])
    have below: "\<not> inhabited rq j" if "j < i" for j
      using that unfolding i_def by (rule inhabited_Least(2) [OF low(2)])
    obtain t q where tq: "rq_queues rq ! i = t # q" using i by (auto simp: inhabited_def neq_Nil_conv)
    have "runq_findbit_from md rq idx = int i"
      unfolding spec i_def by (simp only: low if_True if_False not_False_eq_True)
    then have "runq_choose_from md rq idx = Some t" using tq by (simp add: runq_choose_from_def)
    moreover have "i < idx" using low(1) i not_less by blast
    moreover have "rq_queues rq ! j = []" if "j < RQ_NQS" "idx \<le> j \<or> j < i" for j
      using low(1) below that by (auto simp: inhabited_def)
    ultimately show ?thesis using tq i by (auto simp: inhabited_def)
  next
    case none
    then have "on_runq rq = {}" by (auto simp: on_runq_def inhabited_def)
    then show ?thesis using none by (auto simp: runq_choose_from_def spec)
  qed
qed

theorem runq_choose_from_cyclic_witness:
  "runq_choose_from amd64_runq lottery3 5 \<noteq> None"
proof -
  have "on_runq lottery3 = {8, 7}" using lottery_on_runq [OF lottery3_ok] lottery3_queue by simp
  moreover have "runq_ok amd64_runq lottery3" using lottery3_ok by (simp add: lottery_ok_def)
  ultimately show ?thesis
    using runq_choose_from_cyclic [of amd64_runq lottery3 5]
    by (cases "runq_choose_from amd64_runq lottery3 5") (simp_all add: RQ_NQS_def)
qed

text \<open>
  removing a thread right after adding it gives back the run queue, queues and status words,
  as it was; the same holds of the lottery queue.
\<close>

theorem runq_add_remove:
  assumes ok: "runq_ok md rq" and t: "t \<notin> on_runq rq" and pri: "pri < RQ_NQS"
  shows "(case runq_add_pri md T rq t pri flags of (T1, rq1) \<Rightarrow> runq_remove md T1 rq1 t) = rq"
proof -
  obtain T1 rq1 where add: "runq_add_pri md T rq t pri flags = (T1, rq1)" by (cases "runq_add_pri md T rq t pri flags")
  then have rq1: "rq1 = snd (runq_add_pri md T rq t pri flags)" by simp
  have T1: "td_rqindex (T1 t) = pri" using add by (auto simp: runq_add_pri_def Let_def)
  have ok1: "runq_ok md rq1" unfolding rq1 by (rule runq_add_pri_ok [OF ok pri t])
  have ok2: "runq_ok md (runq_remove md T1 rq1 t)"
    unfolding runq_remove_def using ok1 T1 pri by (simp add: runq_remove_idx_ok)
  have "t \<notin> set (rq_queues rq ! pri)" using t pri by (auto simp: on_runq_def)
  then have queues: "rq_queues (runq_remove md T1 rq1 t) = rq_queues rq"
    using T1 pri runq_okD(2) [OF ok]
    by (simp add: runq_remove_def rq1 tailq_remove_insert_head tailq_remove_insert_tail list_update_overwrite
        del: upd_td_same)
  have "rqb_bits (runq_remove md T1 rq1 t) = rqb_bits rq" by (rule runq_eqI [OF ok2 ok queues])
  then show ?thesis using queues add by (simp add: runq.equality)
qed

theorem runq_add_remove_witness:
  "(case runq_add_pri amd64_runq (\<lambda>_. td0) (runq_init amd64_runq) 7 40 {} of
    (T1, rq1) \<Rightarrow> runq_remove amd64_runq T1 rq1 7) = runq_init amd64_runq"
proof -
  have "7 \<notin> on_runq (runq_init amd64_runq)" by (simp add: on_runq_def runq_init_def)
  then show ?thesis
    by (rule runq_add_remove [OF runq_init_ok [OF amd64_ok]]) (simp add: RQ_NQS_def)
qed

text \<open>
  C37: the lottery is fair. On a queue of threads with nice values at least 0 whose tickets fit
  an \<open>int\<close>, exactly \<open>p_nice + 1\<close> of the residues of the random number choose a given thread, and
  every random number chooses a queued thread.
\<close>

theorem lottery_fair:
  assumes "lottery_ok md rq" and td: "td \<in> set (rq_queues rq ! 0)"
    and "\<And>u. u \<in> set (rq_queues rq ! 0) \<Longrightarrow> 0 \<le> p_nice (T u)"
    and "tot = (\<Sum>u\<leftarrow>rq_queues rq ! 0. p_nice (T u) + 1)" and "tot < 2 ^ 31"
  shows "card {r. r < nat tot \<and> lottery_q_choose T rq print r = Inr (Some td)} = nat (p_nice (T td) + 1) \<and>
    (\<forall>rand. \<exists>u\<in>set (rq_queues rq ! 0). lottery_q_choose T rq print rand = Inr (Some u))"
proof -
  let ?q = "rq_queues rq ! 0"
  have pos: "0 < tickets T u" if "u \<in> set ?q" for u using assms(3) [OF that] by (simp add: tickets_def)
  have tot: "tot = (\<Sum>u\<leftarrow>?q. tickets T u)" using assms(4) by (simp add: tickets_def)
  have q: "?q \<noteq> []" using td by auto
  note draw = lottery_choose_draw [OF q pos tot assms(5)]
  have "distinct ?q" using assms(1) runq_okD(3) [of md rq 0] by (simp add: lottery_ok_def)
  have "{r. r < nat tot \<and> lottery_q_choose T rq print r = Inr (Some td)} =
      {r :: nat. int r < (\<Sum>u\<leftarrow>?q. tickets T u) \<and> draw T (int r) ?q = Some td}"
    using tot by (auto simp: draw(1))
  then have "card {r. r < nat tot \<and> lottery_q_choose T rq print r = Inr (Some td)} = nat (p_nice (T td) + 1)"
    using card_draw [OF td \<open>distinct ?q\<close> pos] by (simp add: tickets_def)
  moreover have "\<forall>rand. \<exists>u\<in>set ?q. lottery_q_choose T rq print rand = Inr (Some u)"
    using draw(1,3) by (metis (no_types))
  ultimately show ?thesis by blast
qed

theorem lottery_fair_witness:
  "card {r. r < 4 \<and> lottery_q_choose (\<lambda>t. td0\<lparr>p_nice := if t = 7 then 2 else 0\<rparr>) lottery3 False r
    = Inr (Some 7)} = 3"
  using lottery_fair [OF lottery3_ok, of 7 "\<lambda>t. td0\<lparr>p_nice := if t = 7 then 2 else 0\<rparr>" 4 False]
  by (simp add: lottery3_queue)

text \<open>
  With negative nice values the draw fails (\<open>kern_switch.c:462\<close>): tickets that add up to 0
  divide by zero, and when every thread has nice below -1 no thread is chosen, whatever the
  random number, so the printing variant follows a null pointer.
\<close>

theorem lottery_negative_nice:
  assumes q: "rq_queues rq ! 0 \<noteq> []"
  shows "((\<Sum>u\<leftarrow>rq_queues rq ! 0. p_nice (T u) + 1) = 0 \<longrightarrow>
      lottery_q_choose T rq print rand = Inl Div_by_zero) \<and>
    ((\<forall>u\<in>set (rq_queues rq ! 0). p_nice (T u) < -1) \<and>
      - (2 ^ 31) \<le> (\<Sum>u\<leftarrow>rq_queues rq ! 0. p_nice (T u) + 1) \<and> rand < 2 ^ 31 \<longrightarrow>
      lottery_q_choose T rq print rand = (if print then Inl Null_deref else Inr None))"
proof -
  let ?q = "rq_queues rq ! 0"
  have sum: "tck_total T 0 ?q = (\<Sum>u\<leftarrow>?q. p_nice (T u) + 1)"
    by (simp add: tck_total_sum tickets_def [abs_def])
  have zero: "(\<Sum>u\<leftarrow>?q. p_nice (T u) + 1) = 0 \<Longrightarrow> lottery_q_choose T rq print rand = Inl Div_by_zero"
    using q sum by (simp add: lottery_q_choose_def Let_def)
  have "lottery_q_choose T rq print rand = (if print then Inl Null_deref else Inr None)"
    if neg: "\<forall>u\<in>set ?q. p_nice (T u) < -1"
    and bound: "- (2 ^ 31) \<le> (\<Sum>u\<leftarrow>?q. p_nice (T u) + 1)" and rand: "rand < 2 ^ 31"
  proof -
  have none: "0 \<le> r \<Longrightarrow> (\<And>u. u \<in> set xs \<Longrightarrow> tickets T u < 0) \<Longrightarrow> draw T r xs = None" for r xs
  proof (induction xs arbitrary: r)
    case (Cons a xs)
    then have a: "tickets T a < 0" "\<not> r < tickets T a" by simp (use Cons.prems in \<open>force\<close>)
    then show ?case using Cons.IH [of "r - tickets T a"] Cons.prems by simp
  qed simp
  have neg_sum: "(\<And>u. u \<in> set xs \<Longrightarrow> tickets T u < 0) \<Longrightarrow> xs \<noteq> [] \<Longrightarrow> (\<Sum>u\<leftarrow>xs. tickets T u) < 0" for xs
  proof (induction xs)
    case (Cons a xs)
    then show ?case by (cases xs) (auto simp: add_neg_neg)
  qed simp
  have tk: "tickets T u < 0" if "u \<in> set ?q" for u using neg that by (auto simp: tickets_def)
  let ?tot = "\<Sum>u\<leftarrow>?q. p_nice (T u) + 1"
  have lt: "?tot < 0" using neg_sum [OF tk q] by (simp add: tickets_def [abs_def])
  have "?tot mod 2 ^ 64 = ?tot + 2 ^ 64"
  proof -
    have "?tot mod 2 ^ 64 = (?tot + 2 ^ 64) mod 2 ^ 64" by simp
    also have "\<dots> = ?tot + 2 ^ 64" by (rule mod_pos_pos_trivial) (insert bound lt, simp_all)
    finally show ?thesis .
  qed
  then have "int rand mod (?tot mod 2 ^ 64) = int rand" using bound rand by simp
  moreover have "signed_take_bit 31 (int rand) = int rand"
    using rand by (intro signed_take_bit_int_eq_self) simp_all
  moreover have "draw T (int rand) ?q = None" using none tk by simp
  ultimately show ?thesis using q lt sum by (simp add: lottery_q_choose_def Let_def)
  qed
  with zero show ?thesis by blast
qed

theorem lottery_negative_nice_witness:
  "lottery_q_choose (\<lambda>t. td0\<lparr>p_nice := -1\<rparr>) lottery3 False 5 = Inl Div_by_zero \<and>
   lottery_q_choose (\<lambda>t. td0\<lparr>p_nice := -5\<rparr>) lottery3 True 5 = Inl Null_deref"
  using lottery_negative_nice [of lottery3 "\<lambda>t. td0\<lparr>p_nice := -1\<rparr>" False 5]
    lottery_negative_nice [of lottery3 "\<lambda>t. td0\<lparr>p_nice := -5\<rparr>" True 5]
  by (simp add: lottery3_queue)

end
