(* ===== verification/Sched_Tdq.thy ===== *)
theory Sched_Tdq
  imports Runq_Props
begin

text \<open>
  The per-processor thread queue of \<open>src/asgn2/kern/sched_ule.c\<close>: four run queues (real-time,
  timeshare, lottery, idle), the load counters and the two indices of the circular timeshare
  queue. Threads of root go to the timeshare queue, the others of the same priorities to the
  lottery queue. Lock assertions and tracing are left out; \<open>rand\<close> is the value \<open>random()\<close> returns
  to the lottery.
\<close>

section \<open>Data\<close>

record 'w tdq =
  tdq_load :: int
  tdq_cpu_idle :: bool
  tdq_sysload :: int
  tdq_transferable :: int
  tdq_switchcnt :: int
  tdq_oldswitchcnt :: int
  tdq_lowpri :: nat
  tdq_ipipending :: bool
  tdq_idx :: nat
  tdq_ridx :: nat
  tdq_realtime :: "'w runq"
  tdq_timeshare :: "'w runq"
  tdq_lottery :: "'w runq"
  tdq_idle :: "'w runq"
  nPrints :: int

definition queue_of :: "runq_kind \<Rightarrow> 'w tdq \<Rightarrow> 'w runq" where
  "queue_of q tdq = (case q of Q_realtime \<Rightarrow> tdq_realtime tdq | Q_timeshare \<Rightarrow> tdq_timeshare tdq
    | Q_lottery \<Rightarrow> tdq_lottery tdq | Q_idle \<Rightarrow> tdq_idle tdq)"

definition set_queue :: "runq_kind \<Rightarrow> 'w runq \<Rightarrow> 'w tdq \<Rightarrow> 'w tdq" where
  "set_queue q rq tdq = (case q of Q_realtime \<Rightarrow> tdq\<lparr>tdq_realtime := rq\<rparr>
    | Q_timeshare \<Rightarrow> tdq\<lparr>tdq_timeshare := rq\<rparr> | Q_lottery \<Rightarrow> tdq\<lparr>tdq_lottery := rq\<rparr>
    | Q_idle \<Rightarrow> tdq\<lparr>tdq_idle := rq\<rparr>)"

section \<open>Preemption test\<close>

definition sched_shouldpreempt :: "kern \<Rightarrow> nat \<Rightarrow> nat \<Rightarrow> bool \<Rightarrow> bool" where
  "sched_shouldpreempt k pri cpri remote =
    (if pri \<ge> cpri then False
     else if cpri \<ge> PRI_MIN_IDLE k then True
     else if preempt_thresh k = 0 then False
     else if pri \<le> preempt_thresh k then True
     else remote \<and> pri \<le> PRI_MAX_INTERACT k \<and> cpri > PRI_MAX_INTERACT k)"

section \<open>Run queue of a thread\<close>

text \<open>
  The position of a timeshare thread of root. All arithmetic is on \<open>u_char\<close> values; subtracting 1
  from 0 wraps to 255.
\<close>

definition timeshare_slot :: "kern \<Rightarrow> 'w tdq \<Rightarrow> nat \<Rightarrow> srq_flag set \<Rightarrow> nat" where
  "timeshare_slot k tdq pri flags =
    (if flags \<inter> {SRQ_BORROWING, SRQ_PREEMPTED} = {}
     then let pri1 = RQ_NQS * (pri - PRI_MIN_BATCH k) div PRI_BATCH_RANGE k;
              pri2 = (pri1 + tdq_idx tdq) mod RQ_NQS
          in if tdq_ridx tdq \<noteq> tdq_idx tdq \<and> pri2 = tdq_ridx tdq
             then ((if pri2 = 0 then 255 else pri2 - 1) mod RQ_NQS) else pri2
     else tdq_ridx tdq)"

definition tdq_runq_add ::
    "'w::len word runq_md \<Rightarrow> kern \<Rightarrow> nat \<Rightarrow> threads \<Rightarrow> 'w word tdq \<Rightarrow> tid \<Rightarrow> srq_flag set
      \<Rightarrow> threads \<times> 'w word tdq" where
  "tdq_runq_add md k cpu T tdq td flags =
    (let pri = td_priority (T td);
         T1 = upd_td T td (\<lambda>x. x\<lparr>td_state := TDS_RUNQ\<rparr>);
         (T2, tdq2) =
           (if THREAD_CAN_MIGRATE (T td)
            then (upd_td T1 td (\<lambda>x. x\<lparr>ts_flags := insert TSF_XFERABLE (ts_flags x)\<rparr>),
                  tdq\<lparr>tdq_transferable := tdq_transferable tdq + 1\<rparr>)
            else (T1, tdq));
         on = (\<lambda>q. upd_td T2 td (\<lambda>x. x\<lparr>ts_runq := Some (cpu, q)\<rparr>))
     in if pri < PRI_MIN_BATCH k then
          (let (T3, rq) = runq_add md (on Q_realtime) (tdq_realtime tdq2) td flags
           in (T3, tdq2\<lparr>tdq_realtime := rq\<rparr>))
        else if pri \<le> PRI_MAX_BATCH k then
          (if \<not> isRoot (T td)
           then (on Q_lottery, tdq2\<lparr>tdq_lottery := lottery_q_add md (tdq_lottery tdq2) td\<rparr>)
           else let (T3, rq) = runq_add_pri md (on Q_timeshare) (tdq_timeshare tdq2) td
                      (timeshare_slot k tdq2 pri flags) flags
                in (T3, tdq2\<lparr>tdq_timeshare := rq\<rparr>))
        else
          (let (T3, rq) = runq_add md (on Q_idle) (tdq_idle tdq2) td flags
           in (T3, tdq2\<lparr>tdq_idle := rq\<rparr>)))"

text \<open>A null \<open>ts_runq\<close> would be dereferenced (an assertion excludes it when compiled in).\<close>

definition tdq_runq_rem ::
    "'w::len word runq_md \<Rightarrow> nat \<Rightarrow> threads \<Rightarrow> 'w word tdq \<Rightarrow> tid \<Rightarrow> fault + (threads \<times> 'w word tdq)" where
  "tdq_runq_rem md cpu T tdq td =
    (let (T1, tdq1) =
       (if TSF_XFERABLE \<in> ts_flags (T td)
        then (upd_td T td (\<lambda>x. x\<lparr>ts_flags := ts_flags x - {TSF_XFERABLE}\<rparr>),
              tdq\<lparr>tdq_transferable := tdq_transferable tdq - 1\<rparr>)
        else (T, tdq))
     in case ts_runq (T td) of
          None \<Rightarrow> Inl Null_deref
        | Some (_, Q_timeshare) \<Rightarrow>
            (if tdq_idx tdq1 \<noteq> tdq_ridx tdq1
             then let (rq, r) = runq_remove_idx md T1 (tdq_timeshare tdq1) td (Some (tdq_ridx tdq1))
                  in Inr (T1, tdq1\<lparr>tdq_timeshare := rq, tdq_ridx := the r\<rparr>)
             else let (rq, _) = runq_remove_idx md T1 (tdq_timeshare tdq1) td None
                  in Inr (T1, tdq1\<lparr>tdq_timeshare := rq\<rparr>))
        | Some (_, Q_lottery) \<Rightarrow>
            Inr (T1, tdq1\<lparr>tdq_lottery := lottery_q_remove md (tdq_lottery tdq1) td\<rparr>)
        | Some (_, q) \<Rightarrow> Inr (T1, set_queue q (runq_remove md T1 (queue_of q tdq1) td) tdq1))"

section \<open>Load\<close>

definition tdq_load_add :: "'w tdq \<Rightarrow> thread \<Rightarrow> 'w tdq" where
  "tdq_load_add tdq td =
    tdq\<lparr>tdq_load := tdq_load tdq + 1,
        tdq_sysload := tdq_sysload tdq + (if TDF_NOLOAD \<in> td_flags td then 0 else 1)\<rparr>"

definition tdq_load_rem :: "'w tdq \<Rightarrow> thread \<Rightarrow> 'w tdq" where
  "tdq_load_rem tdq td =
    tdq\<lparr>tdq_load := tdq_load tdq - 1,
        tdq_sysload := tdq_sysload tdq - (if TDF_NOLOAD \<in> td_flags td then 0 else 1)\<rparr>"

text \<open>\<open>sched_slice / load\<close> has positive operands in the last branch, where \<open>div\<close> is C's division.\<close>

definition tdq_slice :: "kern \<Rightarrow> 'w tdq \<Rightarrow> int" where
  "tdq_slice k tdq =
    (let load = tdq_sysload tdq - 1
     in if load \<ge> SCHED_SLICE_MIN_DIVISOR then sched_slice_min k
        else if load \<le> 1 then sched_slice k
        else sched_slice k div load)"

section \<open>Choosing\<close>

definition tdq_choose ::
    "'w::len word runq_md \<Rightarrow> threads \<Rightarrow> 'w word tdq \<Rightarrow> nat \<Rightarrow> fault + tid option" where
  "tdq_choose md T tdq rand =
    (case runq_choose md (tdq_realtime tdq) of Some td \<Rightarrow> Inr (Some td)
     | None \<Rightarrow>
        (case runq_choose_from md (tdq_timeshare tdq) (tdq_ridx tdq) of Some td \<Rightarrow> Inr (Some td)
         | None \<Rightarrow>
            and_then (lottery_q_choose T (tdq_lottery tdq) True rand) (\<lambda>r.
            case r of Some td \<Rightarrow> Inr (Some td)
            | None \<Rightarrow> Inr (runq_choose md (tdq_idle tdq)))))"

definition tdq_setlowpri ::
    "'w::len word runq_md \<Rightarrow> threads \<Rightarrow> 'w word tdq \<Rightarrow> tid \<Rightarrow> nat \<Rightarrow> fault + 'w word tdq" where
  "tdq_setlowpri md T tdq ctd rand =
    and_then (tdq_choose md T tdq rand) (\<lambda>r.
    Inr (case r of
        None \<Rightarrow> tdq\<lparr>tdq_lowpri := td_priority (T ctd)\<rparr>
      | Some td \<Rightarrow>
          (if td_priority (T td) > td_priority (T ctd) then tdq\<lparr>tdq_lowpri := td_priority (T ctd)\<rparr>
           else tdq\<lparr>tdq_lowpri := td_priority (T td)\<rparr>)))"

definition tdq_setup :: "'w::len word runq_md \<Rightarrow> 'w word tdq \<Rightarrow> 'w word tdq" where
  "tdq_setup md tdq = tdq\<lparr>nPrints := 1, tdq_realtime := runq_init md, tdq_timeshare := runq_init md,
    tdq_idle := runq_init md, tdq_lottery := runq_init md\<rparr>"

text \<open>\<open>tdq_add\<close> and the selection part of \<open>sched_choose\<close>; \<open>idlethread\<close> is the processor's idle thread.\<close>

definition tdq_add ::
    "'w::len word runq_md \<Rightarrow> kern \<Rightarrow> nat \<Rightarrow> threads \<Rightarrow> 'w word tdq \<Rightarrow> tid \<Rightarrow> srq_flag set
      \<Rightarrow> threads \<times> 'w word tdq" where
  "tdq_add md k cpu T tdq td flags =
    (let tdq1 = (if td_priority (T td) < tdq_lowpri tdq then tdq\<lparr>tdq_lowpri := td_priority (T td)\<rparr> else tdq);
         (T2, tdq2) = tdq_runq_add md k cpu T tdq1 td flags
     in (T2, tdq_load_add tdq2 (T2 td)))"

definition sched_choose ::
    "'w::len word runq_md \<Rightarrow> kern \<Rightarrow> nat \<Rightarrow> tid \<Rightarrow> threads \<Rightarrow> 'w word tdq \<Rightarrow> nat
      \<Rightarrow> fault + (tid \<times> threads \<times> 'w word tdq)" where
  "sched_choose md k cpu idlethread T tdq rand =
    and_then (tdq_choose md T tdq rand) (\<lambda>r.
    case r of
      None \<Rightarrow> Inr (idlethread, T, tdq\<lparr>tdq_lowpri := PRI_MAX_IDLE k\<rparr>)
    | Some td \<Rightarrow>
        and_then (tdq_runq_rem md cpu T tdq td) (\<lambda>(T1, tdq1).
        Inr (td, T1, tdq1\<lparr>tdq_lowpri := td_priority (T1 td)\<rparr>)))"

definition sched_rem ::
    "'w::len word runq_md \<Rightarrow> nat \<Rightarrow> tid \<Rightarrow> threads \<Rightarrow> 'w word tdq \<Rightarrow> tid \<Rightarrow> nat
      \<Rightarrow> fault + (threads \<times> 'w word tdq)" where
  "sched_rem md cpu curthread T tdq td rand =
    and_then (tdq_runq_rem md cpu T tdq td) (\<lambda>(T1, tdq1).
    let tdq2 = tdq_load_rem tdq1 (T1 td);
        T2 = upd_td T1 td (\<lambda>x. x\<lparr>td_state := TDS_CAN_RUN\<rparr>)
    in if td_priority (T2 td) = tdq_lowpri tdq2
       then and_then (tdq_setlowpri md T2 tdq2 curthread rand) (\<lambda>tdq3. Inr (T2, tdq3))
       else Inr (T2, tdq2))"

section \<open>Printing\<close>

text \<open>\<open>runq_print\<close> and \<open>tdq_print\<close>: the values printed, in order.\<close>

datatype 'w print_line = Runq_bits nat 'w | Thread_line tid nat nat nat | Tdq_line string int

fun bit_lines :: "'w::len word runq_md \<Rightarrow> threads \<Rightarrow> 'w word runq \<Rightarrow> nat \<Rightarrow> 'w word \<Rightarrow> nat list \<Rightarrow> 'w word print_line list" where
  "bit_lines md T rq i w [] = []"
| "bit_lines md T rq i w (j # js) =
    (if w AND push_bit j 1 \<noteq> 0
     then let pri = j + push_bit (RQB_L2BPW md) i
          in map (\<lambda>td. Thread_line td (td_priority (T td)) (td_rqindex (T td)) pri) (rq_queues rq ! pri)
     else []) @ bit_lines md T rq i w js"

definition runq_print :: "'w::len word runq_md \<Rightarrow> threads \<Rightarrow> 'w word runq \<Rightarrow> 'w word print_line list" where
  "runq_print md T rq = concat (map (\<lambda>i. Runq_bits i (rqb_bits rq ! i) #
      bit_lines md T rq i (rqb_bits rq ! i) [0..<RQB_BPW md]) [0..<RQB_LEN md])"

definition tdq_print :: "'w::len word runq_md \<Rightarrow> threads \<Rightarrow> 'w word tdq \<Rightarrow> 'w word print_line list" where
  "tdq_print md T tdq =
    [Tdq_line ''load'' (tdq_load tdq), Tdq_line ''switch cnt'' (tdq_switchcnt tdq),
     Tdq_line ''old switch cnt'' (tdq_oldswitchcnt tdq), Tdq_line ''timeshare idx'' (int (tdq_idx tdq)),
     Tdq_line ''timeshare ridx'' (int (tdq_ridx tdq)),
     Tdq_line ''load transferable'' (tdq_transferable tdq),
     Tdq_line ''lowest priority'' (int (tdq_lowpri tdq))] @
    runq_print md T (tdq_realtime tdq) @ runq_print md T (tdq_timeshare tdq) @
    runq_print md T (tdq_idle tdq) @ runq_print md T (tdq_lottery tdq)"

section \<open>The invariant\<close>

definition queued :: "'w tdq \<Rightarrow> tid set" where
  "queued tdq = (\<Union>q. on_runq (queue_of q tdq))"

text \<open>
  A queue is consistent with the threads when each of its members says that it is there: the
  processor and queue in \<open>ts_runq\<close>, and, except in the lottery queue, the index in \<open>td_rqindex\<close>.
\<close>

definition placed :: "nat \<Rightarrow> threads \<Rightarrow> runq_kind \<Rightarrow> 'w runq \<Rightarrow> bool" where
  "placed cpu T q rq \<longleftrightarrow> (\<forall>t\<in>on_runq rq. ts_runq (T t) = Some (cpu, q) \<and>
    (q \<noteq> Q_lottery \<longrightarrow> td_rqindex (T t) < RQ_NQS \<and> t \<in> set (rq_queues rq ! td_rqindex (T t))))"

definition tdq_ok :: "'w::len word runq_md \<Rightarrow> nat \<Rightarrow> threads \<Rightarrow> 'w word tdq \<Rightarrow> bool" where
  "tdq_ok md cpu T tdq \<longleftrightarrow>
    (\<forall>q. runq_ok md (queue_of q tdq) \<and> placed cpu T q (queue_of q tdq)) \<and>
    lottery_ok md (tdq_lottery tdq) \<and> tdq_idx tdq < RQ_NQS \<and> tdq_ridx tdq < RQ_NQS \<and>
    tdq_transferable tdq = int (card {t \<in> queued tdq. TSF_XFERABLE \<in> ts_flags (T t)})"

lemma on_runq_finite [simp]: "finite (on_runq rq)"
  by (simp add: on_runq_def)

lemma runq_kind_UNIV: "(UNIV :: runq_kind set) = {Q_realtime, Q_timeshare, Q_lottery, Q_idle}"
  using runq_kind.exhaust by auto

lemma queued_finite [simp]: "finite (queued tdq)"
  by (simp add: queued_def runq_kind_UNIV)

lemma queue_of_simps [simp]:
  "queue_of Q_realtime tdq = tdq_realtime tdq" "queue_of Q_timeshare tdq = tdq_timeshare tdq"
  "queue_of Q_lottery tdq = tdq_lottery tdq" "queue_of Q_idle tdq = tdq_idle tdq"
  by (simp_all add: queue_of_def)

lemma queue_of_set_queue [simp]:
  "queue_of q' (set_queue q rq tdq) = (if q' = q then rq else queue_of q' tdq)"
  by (cases q; cases q') (simp_all add: set_queue_def)

lemma set_queue_simps [simp]:
  "tdq_transferable (set_queue q rq tdq) = tdq_transferable tdq"
  "tdq_idx (set_queue q rq tdq) = tdq_idx tdq" "tdq_ridx (set_queue q rq tdq) = tdq_ridx tdq"
  "tdq_lowpri (set_queue q rq tdq) = tdq_lowpri tdq"
  by (cases q; simp add: set_queue_def)+

lemma tdq_okD:
  assumes "tdq_ok md cpu T tdq"
  shows "runq_ok md (queue_of q tdq)" and "placed cpu T q (queue_of q tdq)"
    and "lottery_ok md (tdq_lottery tdq)" and "tdq_idx tdq < RQ_NQS" and "tdq_ridx tdq < RQ_NQS"
    and "tdq_transferable tdq = int (card {t \<in> queued tdq. TSF_XFERABLE \<in> ts_flags (T t)})"
  using assms unfolding tdq_ok_def by blast+

lemma tdq_ok_queue:
  assumes ok: "tdq_ok md cpu T tdq" and t: "t \<in> on_runq (queue_of q tdq)"
  shows "ts_runq (T t) = Some (cpu, q)" and "t \<in> queued tdq"
    and "q' \<noteq> q \<Longrightarrow> t \<notin> on_runq (queue_of q' tdq)"
proof -
  show "ts_runq (T t) = Some (cpu, q)" using tdq_okD(2) [OF ok, of q] t by (auto simp: placed_def)
  then show "q' \<noteq> q \<Longrightarrow> t \<notin> on_runq (queue_of q' tdq)"
    using tdq_okD(2) [OF ok, of q'] by (auto simp: placed_def)
  show "t \<in> queued tdq" using t by (auto simp: queued_def)
qed

end
