(* ===== verification/Sched_Inv.thy ===== *)
theory Sched_Inv
  imports Sched_Tdq
begin

text \<open>
  The invariant \<open>tdq_ok\<close> of a thread queue along adding, removing and choosing a thread: every
  run queue is well formed, each queued thread is on the queue its own fields name, and the count
  of transferable threads is the number of queued threads that carry the flag.
\<close>

section \<open>One thread more, one thread less\<close>

lemma tdq_ok_insert:
  assumes ok: "tdq_ok md cpu T tdq" and t: "t \<notin> queued tdq"
    and rq: "runq_ok md rq'" "on_runq rq' = insert t (on_runq (queue_of q tdq))"
    and keep: "\<forall>i u. i < RQ_NQS \<longrightarrow> u \<in> set (rq_queues (queue_of q tdq) ! i) \<longrightarrow> u \<in> set (rq_queues rq' ! i)"
    and lot: "q = Q_lottery \<longrightarrow> lottery_ok md rq'"
    and T': "\<forall>u. u \<noteq> t \<longrightarrow> T' u = T u" "ts_runq (T' t) = Some (cpu, q)"
      "q \<noteq> Q_lottery \<longrightarrow> td_rqindex (T' t) < RQ_NQS \<and> t \<in> set (rq_queues rq' ! td_rqindex (T' t))"
    and tdq': "\<forall>q'. queue_of q' tdq' = (if q' = q then rq' else queue_of q' tdq)"
      "tdq_idx tdq' < RQ_NQS" "tdq_ridx tdq' < RQ_NQS"
      "tdq_transferable tdq' = tdq_transferable tdq + (if TSF_XFERABLE \<in> ts_flags (T' t) then 1 else 0)"
  shows "tdq_ok md cpu T' tdq'" and "queued tdq' = insert t (queued tdq)"
proof -
  show queued': "queued tdq' = insert t (queued tdq)"
    using tdq'(1) rq(2) by (auto simp: queued_def split: if_splits)
  have other: "T' u = T u" if "u \<in> on_runq (queue_of q' tdq)" for u q'
    using that t T'(1) by (auto simp: queued_def)
  have "runq_ok md (queue_of q' tdq') \<and> placed cpu T' q' (queue_of q' tdq')" for q'
  proof (cases "q' = q")
    case True
    have "placed cpu T' q rq'"
      using rq(2) T'(2,3) other [of _ q] keep tdq_okD(2) [OF ok, of q]
      unfolding placed_def by (auto simp: ball_Un)
    then show ?thesis using True tdq'(1) rq(1) by simp
  next
    case False
    then show ?thesis
      using tdq'(1) tdq_okD(1,2) [OF ok, of q'] other [of _ q'] by (simp add: placed_def)
  qed
  moreover have "lottery_ok md (tdq_lottery tdq')"
    using tdq'(1) lot tdq_okD(3) [OF ok] by (metis queue_of_simps(3))
  moreover have "tdq_transferable tdq' = int (card {u \<in> queued tdq'. TSF_XFERABLE \<in> ts_flags (T' u)})"
  proof -
    have "{u \<in> queued tdq'. TSF_XFERABLE \<in> ts_flags (T' u)} =
        (if TSF_XFERABLE \<in> ts_flags (T' t) then insert t else id)
          {u \<in> queued tdq. TSF_XFERABLE \<in> ts_flags (T u)}"
      using queued' t T'(1) by auto
    then show ?thesis using tdq'(4) tdq_okD(6) [OF ok] t by simp
  qed
  ultimately show "tdq_ok md cpu T' tdq'" using tdq'(2,3) unfolding tdq_ok_def by blast
qed

lemma tdq_ok_delete:
  assumes ok: "tdq_ok md cpu T tdq" and t: "t \<in> on_runq (queue_of q tdq)"
    and rq: "runq_ok md rq'" "on_runq rq' = on_runq (queue_of q tdq) - {t}"
    and keep: "\<forall>i u. i < RQ_NQS \<longrightarrow> u \<noteq> t \<longrightarrow> u \<in> set (rq_queues (queue_of q tdq) ! i) \<longrightarrow>
      u \<in> set (rq_queues rq' ! i)"
    and lot: "q = Q_lottery \<longrightarrow> lottery_ok md rq'"
    and T': "\<forall>u. u \<noteq> t \<longrightarrow> T' u = T u"
    and tdq': "\<forall>q'. queue_of q' tdq' = (if q' = q then rq' else queue_of q' tdq)"
      "tdq_idx tdq' < RQ_NQS" "tdq_ridx tdq' < RQ_NQS"
      "tdq_transferable tdq' = tdq_transferable tdq - (if TSF_XFERABLE \<in> ts_flags (T t) then 1 else 0)"
  shows "tdq_ok md cpu T' tdq'" and "queued tdq' = queued tdq - {t}"
proof -
  have only: "t \<notin> on_runq (queue_of q' tdq)" if "q' \<noteq> q" for q'
    using tdq_ok_queue(3) [OF ok t that] .
  show queued': "queued tdq' = queued tdq - {t}"
    using tdq'(1) rq(2) only by (auto simp: queued_def split: if_splits)
  have "runq_ok md (queue_of q' tdq') \<and> placed cpu T' q' (queue_of q' tdq')" for q'
  proof (cases "q' = q")
    case True
    have "placed cpu T' q rq'"
      using rq(2) T' keep tdq_okD(2) [OF ok, of q] unfolding placed_def by auto
    then show ?thesis using True tdq'(1) rq(1) by simp
  next
    case False
    have "T' u = T u" if "u \<in> on_runq (queue_of q' tdq)" for u using that only [OF False] T' by auto
    then show ?thesis
      using False tdq'(1) tdq_okD(1,2) [OF ok, of q'] by (simp add: placed_def)
  qed
  moreover have "lottery_ok md (tdq_lottery tdq')"
    using tdq'(1) lot tdq_okD(3) [OF ok] by (metis queue_of_simps(3))
  moreover have "tdq_transferable tdq' = int (card {u \<in> queued tdq'. TSF_XFERABLE \<in> ts_flags (T' u)})"
  proof -
    let ?X = "{u \<in> queued tdq. TSF_XFERABLE \<in> ts_flags (T u)}"
    have X': "{u \<in> queued tdq'. TSF_XFERABLE \<in> ts_flags (T' u)} = ?X - {t}"
      using queued' T' by auto
    have "t \<in> queued tdq" using tdq_ok_queue(2) [OF ok t] .
    show ?thesis
    proof (cases "TSF_XFERABLE \<in> ts_flags (T t)")
      case True
      then have "t \<in> ?X" using \<open>t \<in> queued tdq\<close> by simp
      then have "int (card (?X - {t})) = int (card ?X) - 1"
        using card_Suc_Diff1 [of ?X t] by simp
      then show ?thesis using True tdq'(4) tdq_okD(6) [OF ok] X' by simp
    next
      case False
      then have "?X - {t} = ?X" by auto
      then show ?thesis using False tdq'(4) tdq_okD(6) [OF ok] X' by simp
    qed
  qed
  ultimately show "tdq_ok md cpu T' tdq'" using tdq'(2,3) unfolding tdq_ok_def by blast
qed

section \<open>Adding\<close>

lemma set_nth_keep:
  assumes "length qs = n" and "i < n" and "u \<in> set (qs ! i)" and "set (qs ! p) \<subseteq> set q"
  shows "u \<in> set (qs[p := q] ! i)"
  using assms by (cases "i = p") (auto simp: nth_list_update)

lemma add_pri_facts:
  assumes ok: "runq_ok md rq" and t: "t \<notin> on_runq rq" and pri: "pri < RQ_NQS"
    and r: "runq_add_pri md T rq t pri flags = (T', rq')"
  shows "runq_ok md rq'" and "on_runq rq' = insert t (on_runq rq)"
    and "\<forall>i u. i < RQ_NQS \<longrightarrow> u \<in> set (rq_queues rq ! i) \<longrightarrow> u \<in> set (rq_queues rq' ! i)"
    and "T' = upd_td T t (\<lambda>x. x\<lparr>td_rqindex := pri\<rparr>)" and "t \<in> set (rq_queues rq' ! pri)"
proof -
  have rq': "rq' = snd (runq_add_pri md T rq t pri flags)" using r by simp
  show "runq_ok md rq'" "on_runq rq' = insert t (on_runq rq)"
    unfolding rq' using runq_add_pri_ok [OF ok pri t] on_runq_add_pri [OF ok pri] by simp_all
  show "\<forall>i u. i < RQ_NQS \<longrightarrow> u \<in> set (rq_queues rq ! i) \<longrightarrow> u \<in> set (rq_queues rq' ! i)"
    unfolding rq' rq_queues_add_pri
    by (intro allI impI set_nth_keep) (simp_all add: runq_okD(2) [OF ok] subset_insertI)
  show "t \<in> set (rq_queues rq' ! pri)" unfolding rq' using runq_okD(2) [OF ok] pri by auto
  show "T' = upd_td T t (\<lambda>x. x\<lparr>td_rqindex := pri\<rparr>)" using r by (auto simp: runq_add_pri_def Let_def)
qed

lemma timeshare_slot_lt:
  "tdq_ridx tdq < RQ_NQS \<Longrightarrow> timeshare_slot k tdq pri flags < RQ_NQS"
  by (simp add: timeshare_slot_def Let_def RQ_NQS_def)

text \<open>The part of \<open>tdq_runq_add\<close> before the queue is chosen.\<close>

definition marked :: "threads \<Rightarrow> tid \<Rightarrow> threads" where
  "marked T td = upd_td T td (\<lambda>x. x\<lparr>td_state := TDS_RUNQ,
    ts_flags := if THREAD_CAN_MIGRATE (T td) then insert TSF_XFERABLE (ts_flags x) else ts_flags x\<rparr>)"

definition counted :: "threads \<Rightarrow> 'w tdq \<Rightarrow> tid \<Rightarrow> 'w tdq" where
  "counted T tdq td = tdq\<lparr>tdq_transferable := tdq_transferable tdq +
    (if THREAD_CAN_MIGRATE (T td) then 1 else 0)\<rparr>"

definition kind_of :: "kern \<Rightarrow> thread \<Rightarrow> runq_kind" where
  "kind_of k td = (if td_priority td < PRI_MIN_BATCH k then Q_realtime
    else if td_priority td \<le> PRI_MAX_BATCH k then (if isRoot td then Q_timeshare else Q_lottery)
    else Q_idle)"

lemma tdq_runq_add_eq:
  "tdq_runq_add md k cpu T tdq td flags =
    (let T2 = marked T td; tdq2 = counted T tdq td; q = kind_of k (T td);
         T3 = upd_td T2 td (\<lambda>x. x\<lparr>ts_runq := Some (cpu, q)\<rparr>)
     in case q of
          Q_lottery \<Rightarrow> (T3, tdq2\<lparr>tdq_lottery := lottery_q_add md (tdq_lottery tdq2) td\<rparr>)
        | Q_timeshare \<Rightarrow>
            (case runq_add_pri md T3 (tdq_timeshare tdq2) td
                (timeshare_slot k tdq2 (td_priority (T td)) flags) flags of
              (T4, rq) \<Rightarrow> (T4, set_queue q rq tdq2))
        | _ \<Rightarrow> (case runq_add_pri md T3 (queue_of q tdq2) td (td_priority (T td) div RQ_PPQ) flags of
              (T4, rq) \<Rightarrow> (T4, set_queue q rq tdq2)))"
proof -
  have T2: "(if THREAD_CAN_MIGRATE (T td)
            then (upd_td (upd_td T td (\<lambda>x. x\<lparr>td_state := TDS_RUNQ\<rparr>)) td
                    (\<lambda>x. x\<lparr>ts_flags := insert TSF_XFERABLE (ts_flags x)\<rparr>),
                  tdq\<lparr>tdq_transferable := tdq_transferable tdq + 1\<rparr>)
            else (upd_td T td (\<lambda>x. x\<lparr>td_state := TDS_RUNQ\<rparr>), tdq)) = (marked T td, counted T tdq td)"
    by (auto simp: marked_def counted_def upd_td_def)
  have pri: "td_priority (upd_td (marked T td) td (\<lambda>x. x\<lparr>ts_runq := r\<rparr>) td) = td_priority (T td)" for r
    by (simp add: marked_def)
  show ?thesis
    unfolding tdq_runq_add_def Let_def T2 prod.case runq_add_eq pri
    by (simp add: kind_of_def set_queue_def split: prod.splits)
qed

lemma tdq_runq_add_ok:
  assumes ok: "tdq_ok md cpu T tdq" and t: "t \<notin> queued tdq" and pri: "td_priority (T t) < 256"
    and xfer: "TSF_XFERABLE \<notin> ts_flags (T t)" and r: "tdq_runq_add md k cpu T tdq t flags = (T', tdq')"
  shows "tdq_ok md cpu T' tdq'" and "queued tdq' = insert t (queued tdq)"
    and "\<forall>u. u \<noteq> t \<longrightarrow> T' u = T u" and "ts_runq (T' t) = Some (cpu, kind_of k (T t))"
    and "td_priority (T' t) = td_priority (T t)" and "td_flags (T' t) = td_flags (T t)"
proof -
  let ?q = "kind_of k (T t)"
  define T3 where "T3 = upd_td (marked T t) t (\<lambda>x. x\<lparr>ts_runq := Some (cpu, ?q)\<rparr>)"
  define tdq2 where "tdq2 = counted T tdq t"
  have queues2: "queue_of q tdq2 = queue_of q tdq" for q
    by (cases q) (simp_all add: tdq2_def counted_def)
  have fields2: "tdq_idx tdq2 = tdq_idx tdq" "tdq_ridx tdq2 = tdq_ridx tdq"
    "tdq_transferable tdq2 = tdq_transferable tdq + (if TSF_XFERABLE \<in> ts_flags (T3 t) then 1 else 0)"
    using xfer by (simp_all add: tdq2_def counted_def T3_def marked_def)
  have other3: "\<forall>u. u \<noteq> t \<longrightarrow> T3 u = T u" by (simp add: T3_def marked_def)
  have T3t: "ts_runq (T3 t) = Some (cpu, ?q)" "td_priority (T3 t) = td_priority (T t)"
    "td_flags (T3 t) = td_flags (T t)" by (simp_all add: T3_def marked_def)
  have t_q: "t \<notin> on_runq (queue_of q tdq)" for q using t by (auto simp: queued_def)
  have "(tdq_ok md cpu T' tdq' \<and> queued tdq' = insert t (queued tdq)) \<and> (\<forall>u. u \<noteq> t \<longrightarrow> T' u = T u) \<and>
    ts_runq (T' t) = Some (cpu, ?q) \<and> td_priority (T' t) = td_priority (T t) \<and> td_flags (T' t) = td_flags (T t)"
  proof (cases "?q = Q_lottery")
    case True
    have eq: "T' = T3" "tdq' = tdq2\<lparr>tdq_lottery := lottery_q_add md (tdq_lottery tdq) t\<rparr>"
      using r True queues2 [of Q_lottery] by (simp_all add: tdq_runq_add_eq Let_def T3_def tdq2_def)
    have t0: "t \<notin> set (rq_queues (tdq_lottery tdq) ! 0)"
      using t_q [of Q_lottery] by (auto simp: on_runq_def)
    note add = lottery_add_ok [OF tdq_okD(3) [OF ok] t0]
    have on: "on_runq (lottery_q_add md (tdq_lottery tdq) t) = insert t (on_runq (queue_of Q_lottery tdq))"
      using lottery_on_runq [OF add(1)] lottery_on_runq [OF tdq_okD(3) [OF ok]] add(2) by simp
    have queues': "queue_of q tdq' = (if q = Q_lottery then lottery_q_add md (tdq_lottery tdq) t else queue_of q tdq)" for q
      using queues2 [of q] eq(2) by (cases q) simp_all
    have keep: "\<forall>i u. i < RQ_NQS \<longrightarrow> u \<in> set (rq_queues (queue_of Q_lottery tdq) ! i) \<longrightarrow>
        u \<in> set (rq_queues (lottery_q_add md (tdq_lottery tdq) t) ! i)"
      unfolding lottery_q_add_def
      by (auto intro!: set_nth_keep [where n = RQ_NQS] simp: runq_okD(2) [OF tdq_okD(1) [OF ok, of Q_lottery], simplified])
    have rok: "runq_ok md (lottery_q_add md (tdq_lottery tdq) t)" using add(1) by (simp add: lottery_ok_def)
    have "tdq_idx tdq' < RQ_NQS" "tdq_ridx tdq' < RQ_NQS"
      "tdq_transferable tdq' = tdq_transferable tdq + (if TSF_XFERABLE \<in> ts_flags (T' t) then 1 else 0)"
      using eq fields2 tdq_okD(4,5) [OF ok] by simp_all
    note bnd = this and ins = tdq_ok_insert [OF ok t rok on keep, where T' = T' and tdq' = tdq']
    have "tdq_ok md cpu T' tdq'" by (rule ins(1)) (use bnd eq queues' True T3t other3 add(1) in simp_all)
    moreover have "queued tdq' = insert t (queued tdq)"
      by (rule ins(2)) (use bnd eq queues' True T3t other3 add(1) in simp_all)
    ultimately show ?thesis using eq other3 T3t True by simp
  next
    case False
    define p where "p = (if ?q = Q_timeshare then timeshare_slot k tdq2 (td_priority (T t)) flags
      else td_priority (T t) div RQ_PPQ)"
    have p: "p < RQ_NQS"
      using timeshare_slot_lt [of tdq2] fields2(2) tdq_okD(5) [OF ok] pri
      by (auto simp: p_def RQ_NQS_def RQ_PPQ_def)
    obtain T4 rq where a: "runq_add_pri md T3 (queue_of ?q tdq) t p flags = (T4, rq)" by fastforce
    then have eq: "T' = T4" "tdq' = set_queue ?q rq tdq2"
      using r False queues2 [of ?q]
      by (cases ?q; simp add: tdq_runq_add_eq Let_def T3_def tdq2_def p_def)+
    note f = add_pri_facts [OF tdq_okD(1) [OF ok] t_q p a]
    have queues': "queue_of q tdq' = (if q = ?q then rq else queue_of q tdq)" for q
      using queues2 [of q] eq(2) by simp
    have T4t: "\<forall>u. u \<noteq> t \<longrightarrow> T4 u = T u" "ts_runq (T4 t) = Some (cpu, ?q)" "td_rqindex (T4 t) = p"
      "ts_flags (T4 t) = ts_flags (T3 t)" "td_priority (T4 t) = td_priority (T t)" "td_flags (T4 t) = td_flags (T t)"
      using other3 T3t f(4) by simp_all
    have "tdq_idx tdq' < RQ_NQS" "tdq_ridx tdq' < RQ_NQS"
      "tdq_transferable tdq' = tdq_transferable tdq + (if TSF_XFERABLE \<in> ts_flags (T' t) then 1 else 0)"
      using eq fields2 tdq_okD(4,5) [OF ok] T4t(4) by simp_all
    note bnd = this and ins = tdq_ok_insert [OF ok t f(1,2,3), where T' = T' and tdq' = tdq']
    have "tdq_ok md cpu T' tdq'" by (rule ins(1)) (use bnd eq queues' False T4t p f(5) in simp_all)
    moreover have "queued tdq' = insert t (queued tdq)"
      by (rule ins(2)) (use bnd eq queues' False T4t p f(5) in simp_all)
    ultimately show ?thesis using eq T4t by simp
  qed
  then show "tdq_ok md cpu T' tdq'" "queued tdq' = insert t (queued tdq)"
    "\<forall>u. u \<noteq> t \<longrightarrow> T' u = T u" "ts_runq (T' t) = Some (cpu, kind_of k (T t))"
    "td_priority (T' t) = td_priority (T t)" "td_flags (T' t) = td_flags (T t)" by simp_all
qed

section \<open>Removing\<close>

lemma set_nth_drop:
  assumes "length qs = n" and "i < n" and "u \<in> set (qs ! i)" and "u \<noteq> t"
  shows "u \<in> set (qs[p := tailq_remove t (qs ! p)] ! i)"
  using assms by (cases "i = p") (auto simp: nth_list_update tailq_remove_def)

lemma remove_idx_facts:
  assumes ok: "runq_ok md rq" and pri: "td_rqindex (T t) < RQ_NQS"
    and mem: "t \<in> set (rq_queues rq ! td_rqindex (T t))" and r: "runq_remove_idx md T rq t idx = (rq', idx')"
  shows "runq_ok md rq'" and "on_runq rq' = on_runq rq - {t}"
    and "\<forall>i u. i < RQ_NQS \<longrightarrow> u \<noteq> t \<longrightarrow> u \<in> set (rq_queues rq ! i) \<longrightarrow> u \<in> set (rq_queues rq' ! i)"
    and "idx = Some c \<Longrightarrow> c < RQ_NQS \<Longrightarrow> the idx' < RQ_NQS"
proof -
  have rq': "rq' = fst (runq_remove_idx md T rq t idx)" using r by simp
  show "runq_ok md rq'" "on_runq rq' = on_runq rq - {t}"
    unfolding rq' by (rule runq_remove_idx_ok [where T = T and t = t, OF ok pri],
        rule on_runq_remove [where T = T and t = t, OF ok pri mem])
  show "\<forall>i u. i < RQ_NQS \<longrightarrow> u \<noteq> t \<longrightarrow> u \<in> set (rq_queues rq ! i) \<longrightarrow> u \<in> set (rq_queues rq' ! i)"
    unfolding rq' rq_queues_remove_idx
    by (intro allI impI set_nth_drop) (simp_all add: runq_okD(2) [OF ok])
  show "idx = Some c \<Longrightarrow> c < RQ_NQS \<Longrightarrow> the idx' < RQ_NQS"
    using r by (auto simp: runq_remove_idx_def Let_def RQ_NQS_def split: if_splits)
qed

text \<open>The part of \<open>tdq_runq_rem\<close> before the queue is looked at.\<close>

definition unmarked :: "threads \<Rightarrow> tid \<Rightarrow> threads" where
  "unmarked T td = upd_td T td (\<lambda>x. x\<lparr>ts_flags := ts_flags x - {TSF_XFERABLE}\<rparr>)"

definition uncounted :: "threads \<Rightarrow> 'w tdq \<Rightarrow> tid \<Rightarrow> 'w tdq" where
  "uncounted T tdq td = tdq\<lparr>tdq_transferable := tdq_transferable tdq -
    (if TSF_XFERABLE \<in> ts_flags (T td) then 1 else 0)\<rparr>"

lemma unmarked_other [simp]: "u \<noteq> t \<Longrightarrow> unmarked T t u = T u"
  by (simp add: unmarked_def)

lemma unmarked_same [simp]: "unmarked T t t = (T t)\<lparr>ts_flags := ts_flags (T t) - {TSF_XFERABLE}\<rparr>"
  by (simp add: unmarked_def)

lemma uncounted_simps [simp]:
  "queue_of q (uncounted T tdq t) = queue_of q tdq"
  "tdq_idx (uncounted T tdq t) = tdq_idx tdq" "tdq_ridx (uncounted T tdq t) = tdq_ridx tdq"
  "tdq_lowpri (uncounted T tdq t) = tdq_lowpri tdq" "tdq_load (uncounted T tdq t) = tdq_load tdq"
  "tdq_sysload (uncounted T tdq t) = tdq_sysload tdq"
  "tdq_transferable (uncounted T tdq t) =
    tdq_transferable tdq - (if TSF_XFERABLE \<in> ts_flags (T t) then 1 else 0)"
  by (cases q) (simp_all add: uncounted_def)

lemma uncounted_queues [simp]:
  "tdq_realtime (uncounted T tdq t) = tdq_realtime tdq" "tdq_timeshare (uncounted T tdq t) = tdq_timeshare tdq"
  "tdq_lottery (uncounted T tdq t) = tdq_lottery tdq" "tdq_idle (uncounted T tdq t) = tdq_idle tdq"
  by (simp_all add: uncounted_def)

lemma queue_of_ridx [simp]: "queue_of q (tdq\<lparr>tdq_ridx := r\<rparr>) = queue_of q tdq"
  by (cases q) simp_all

lemma set_ridx_id [simp]: "tdq\<lparr>tdq_ridx := tdq_ridx tdq\<rparr> = tdq" for tdq :: "'w tdq"
  by simp

lemma set_queue_ridx: "(set_queue q rq tdq)\<lparr>tdq_ridx := tdq_ridx tdq\<rparr> = set_queue q rq tdq"
  by (cases q) (simp_all add: set_queue_def)

lemma rem_prefix_eq:
  "(if TSF_XFERABLE \<in> ts_flags (T td)
     then (upd_td T td (\<lambda>x. x\<lparr>ts_flags := ts_flags x - {TSF_XFERABLE}\<rparr>),
           tdq\<lparr>tdq_transferable := tdq_transferable tdq - 1\<rparr>)
     else (T, tdq)) = (unmarked T td, uncounted T tdq td)"
proof -
  have "TSF_XFERABLE \<notin> ts_flags (T td) \<Longrightarrow> unmarked T td = T"
    by (rule ext) (simp add: unmarked_def upd_td_def)
  then show ?thesis by (auto simp: unmarked_def uncounted_def)
qed

lemma unmarked_rqindex [simp]: "td_rqindex (unmarked T t u) = td_rqindex (T u)"
  by (cases "u = t") simp_all

lemma tdq_runq_rem_cases:
  assumes "ts_runq (T t) = Some (c, q)"
  shows "\<exists>rq' ridx'. tdq_runq_rem md cpu T tdq t =
      Inr (unmarked T t, (set_queue q rq' (uncounted T tdq t))\<lparr>tdq_ridx := ridx'\<rparr>) \<and>
    (if q = Q_lottery then rq' = lottery_q_remove md (tdq_lottery tdq) t \<and> ridx' = tdq_ridx tdq
     else \<exists>idx r. runq_remove_idx md (unmarked T t) (queue_of q tdq) t idx = (rq', r) \<and>
       (idx = None \<and> ridx' = tdq_ridx tdq \<or> idx = Some (tdq_ridx tdq) \<and> ridx' = the r))"
proof (cases q)
  case Q_lottery
  then have "tdq_runq_rem md cpu T tdq t = Inr (unmarked T t,
      set_queue q (lottery_q_remove md (tdq_lottery tdq) t) (uncounted T tdq t))"
    using assms by (simp add: tdq_runq_rem_def rem_prefix_eq set_queue_def)
  then show ?thesis
    using Q_lottery set_queue_ridx [where q = q and tdq = "uncounted T tdq t"] by auto
next
  case Q_timeshare
  obtain rq' r where a: "runq_remove_idx md (unmarked T t) (tdq_timeshare tdq) t
      (if tdq_idx tdq = tdq_ridx tdq then None else Some (tdq_ridx tdq)) = (rq', r)" by fastforce
  then have "tdq_runq_rem md cpu T tdq t = Inr (unmarked T t, (set_queue q rq' (uncounted T tdq t))
      \<lparr>tdq_ridx := if tdq_idx tdq = tdq_ridx tdq then tdq_ridx tdq else the r\<rparr>)"
    using assms Q_timeshare set_queue_ridx [where q = q and rq = rq' and tdq = "uncounted T tdq t"]
    by (auto simp: tdq_runq_rem_def rem_prefix_eq set_queue_def)
  then show ?thesis using a Q_timeshare by (auto split: if_splits)
next
  case Q_realtime
  obtain rq' r where a: "runq_remove_idx md (unmarked T t) (tdq_realtime tdq) t None = (rq', r)"
    by fastforce
  then have "tdq_runq_rem md cpu T tdq t = Inr (unmarked T t, set_queue q rq' (uncounted T tdq t))"
    using assms Q_realtime by (simp add: tdq_runq_rem_def rem_prefix_eq runq_remove_def)
  then show ?thesis
    using a Q_realtime by (intro exI [of _ rq'] exI [of _ "tdq_ridx tdq"]) (auto simp: set_queue_def)
next
  case Q_idle
  obtain rq' r where a: "runq_remove_idx md (unmarked T t) (tdq_idle tdq) t None = (rq', r)"
    by fastforce
  then have "tdq_runq_rem md cpu T tdq t = Inr (unmarked T t, set_queue q rq' (uncounted T tdq t))"
    using assms Q_idle by (simp add: tdq_runq_rem_def rem_prefix_eq runq_remove_def)
  then show ?thesis
    using a Q_idle by (intro exI [of _ rq'] exI [of _ "tdq_ridx tdq"]) (auto simp: set_queue_def)
qed

lemma tdq_runq_rem_ok:
  assumes ok: "tdq_ok md cpu T tdq" and t: "t \<in> queued tdq"
  shows "\<exists>tdq'. tdq_runq_rem md cpu T tdq t = Inr (unmarked T t, tdq') \<and>
    tdq_ok md cpu (unmarked T t) tdq' \<and> queued tdq' = queued tdq - {t} \<and>
    tdq_lowpri tdq' = tdq_lowpri tdq \<and> tdq_load tdq' = tdq_load tdq \<and> tdq_sysload tdq' = tdq_sysload tdq"
proof -
  obtain q where tq: "t \<in> on_runq (queue_of q tdq)" using t by (auto simp: queued_def)
  note on = tdq_ok_queue(1) [OF ok tq]
  obtain rq' ridx' where r: "tdq_runq_rem md cpu T tdq t =
      Inr (unmarked T t, (set_queue q rq' (uncounted T tdq t))\<lparr>tdq_ridx := ridx'\<rparr>)"
    and rq': "if q = Q_lottery then rq' = lottery_q_remove md (tdq_lottery tdq) t \<and> ridx' = tdq_ridx tdq
     else \<exists>idx r. runq_remove_idx md (unmarked T t) (queue_of q tdq) t idx = (rq', r) \<and>
       (idx = None \<and> ridx' = tdq_ridx tdq \<or> idx = Some (tdq_ridx tdq) \<and> ridx' = the r)"
    using tdq_runq_rem_cases [where T = T and t = t, OF on, of md cpu tdq] by blast
  let ?tdq = "(set_queue q rq' (uncounted T tdq t))\<lparr>tdq_ridx := ridx'\<rparr>"
  have facts: "runq_ok md rq' \<and> on_runq rq' = on_runq (queue_of q tdq) - {t} \<and>
      (\<forall>i u. i < RQ_NQS \<longrightarrow> u \<noteq> t \<longrightarrow> u \<in> set (rq_queues (queue_of q tdq) ! i) \<longrightarrow> u \<in> set (rq_queues rq' ! i)) \<and>
      (q = Q_lottery \<longrightarrow> lottery_ok md rq') \<and> ridx' < RQ_NQS"
  proof (cases "q = Q_lottery")
    case True
    have rq'_eq: "rq' = lottery_q_remove md (tdq_lottery tdq) t" and ridx: "ridx' < RQ_NQS"
      using rq' True tdq_okD(5) [OF ok] by simp_all
    note lok = tdq_okD(3) [OF ok]
    note rem = lottery_remove_ok [OF lok, of t]
    have "distinct (rq_queues (tdq_lottery tdq) ! 0)"
      using runq_okD(3) [of md "tdq_lottery tdq" 0] lok by (simp add: lottery_ok_def)
    then have "on_runq rq' = on_runq (queue_of q tdq) - {t}"
      using True lottery_on_runq [OF rem(1)] lottery_on_runq [OF lok] rem(2) rq'_eq by simp
    moreover have "u \<in> set (rq_queues rq' ! i)" if "i < RQ_NQS" "u \<noteq> t" "u \<in> set (rq_queues (queue_of q tdq) ! i)" for i u
      using that True rem lok rq'_eq by (cases "i = 0") (auto simp: lottery_ok_def)
    ultimately show ?thesis using rem(1) rq'_eq ridx by (simp add: lottery_ok_def)
  next
    case False
    then obtain idx r where ri: "runq_remove_idx md (unmarked T t) (queue_of q tdq) t idx = (rq', r)"
      "idx = None \<and> ridx' = tdq_ridx tdq \<or> idx = Some (tdq_ridx tdq) \<and> ridx' = the r" using rq' by auto
    have pos: "td_rqindex (T t) < RQ_NQS" "t \<in> set (rq_queues (queue_of q tdq) ! td_rqindex (T t))"
      using tdq_okD(2) [OF ok, of q] tq False by (auto simp: placed_def)
    note f = remove_idx_facts [where T = "unmarked T t" and t = t, unfolded unmarked_rqindex,
      OF tdq_okD(1) [OF ok] pos ri(1)]
    have "ridx' < RQ_NQS" using ri(2) f(4) tdq_okD(5) [OF ok] by auto
    then show ?thesis using f(1-3) False by blast
  qed
  note del = tdq_ok_delete [OF ok tq, where rq' = rq' and T' = "unmarked T t" and tdq' = ?tdq]
  have queues: "\<forall>q'. queue_of q' ?tdq = (if q' = q then rq' else queue_of q' tdq)"
    by simp
  have "tdq_ok md cpu (unmarked T t) ?tdq"
    by (rule del(1)) (use facts queues tdq_okD(4) [OF ok] in simp_all)
  moreover have "queued ?tdq = queued tdq - {t}"
    by (rule del(2)) (use facts queues tdq_okD(4) [OF ok] in simp_all)
  moreover have "tdq_load (set_queue q rq' x) = tdq_load x" "tdq_sysload (set_queue q rq' x) = tdq_sysload x" for x
    by (cases q; simp add: set_queue_def)+
  ultimately show ?thesis using r by simp
qed

end
