(* ===== verification/Sched_Interact.thy ===== *)
theory Sched_Interact
  imports Sched_Inv "HOL-Library.Signed_Division"
begin

text \<open>
  Interactivity, priorities and time accounting of a thread (\<open>src/asgn2/kern/sched_ule.c\<close>):
  the functions that read and write fields of one thread only. \<open>u_int\<close> and \<open>int\<close> fields are
  numbers; \<open>u32_of\<close> and \<open>s32_of\<close> bring the result of an operation back to the type. C's signed
  division is \<open>sdiv\<close>; operands the code keeps nonnegative are divided with \<open>div\<close>.
\<close>

section \<open>Arithmetic\<close>

definition u32_of :: "int \<Rightarrow> int" where "u32_of x = take_bit 32 x"
definition s32_of :: "int \<Rightarrow> int" where "s32_of x = signed_take_bit 31 x"

text \<open>\<open>max\<close> and \<open>min\<close> of \<open>libkern.h\<close> compare as \<open>u_int\<close>, \<open>imax\<close> as \<open>int\<close>.\<close>

definition max_u :: "int \<Rightarrow> int \<Rightarrow> int" where "max_u a b = max (u32_of a) (u32_of b)"
definition min_u :: "int \<Rightarrow> int \<Rightarrow> int" where "min_u a b = min (u32_of a) (u32_of b)"

lemma u32_of_id [simp]: "0 \<le> x \<Longrightarrow> x < 2 ^ 32 \<Longrightarrow> u32_of x = x"
  by (simp add: u32_of_def take_bit_int_eq_self)

lemma u32_of_range [simp]: "0 \<le> u32_of x" "u32_of x < 2 ^ 32"
  using take_bit_int_less_exp [of 32 x] by (simp_all add: u32_of_def)

lemma s32_of_id: "- (2 ^ 31) \<le> x \<Longrightarrow> x < 2 ^ 31 \<Longrightarrow> s32_of x = x"
  unfolding s32_of_def by (rule signed_take_bit_int_eq_self) simp_all

lemma s32_of_small [simp]: "0 \<le> x \<Longrightarrow> x < 2 ^ 31 \<Longrightarrow> s32_of x = x"
  by (rule s32_of_id) simp_all

section \<open>Constants after the clocks are set up\<close>

text \<open>\<open>hogticks\<close> belongs to the kernel; it is returned beside the scheduler's variables.\<close>

definition sched_initticks :: "int \<Rightarrow> kern \<Rightarrow> kern \<times> int" where
  "sched_initticks stathz k =
    (let k1 = k\<lparr>realstathz := if stathz \<noteq> 0 then stathz else hz k\<rparr>;
         k2 = k1\<lparr>sched_slice := realstathz k1 sdiv SCHED_SLICE_DEFAULT_DIVISOR\<rparr>;
         k3 = k2\<lparr>sched_slice_min := sched_slice k2 sdiv SCHED_SLICE_MIN_DIVISOR\<rparr>;
         hogticks = max 1 ((2 * hz k3 * sched_slice k3 + realstathz k3 sdiv 2) sdiv realstathz k3);
         incr = push_bit SCHED_TICK_SHIFT (hz k3) sdiv realstathz k3;
         incr1 = (if incr = 0 then 1 else incr);
         k4 = k3\<lparr>tickincr := incr1, balance_interval := realstathz k3, affinity := max_u 1 (hz k3 sdiv 1000)\<rparr>
     in (if sched_idlespinthresh k4 < 0
         then k4\<lparr>sched_idlespinthresh := s32_of (u32_of (2 * max_u 10000 (6 * hz k4)) div u32_of (realstathz k4))\<rparr>
         else k4, hogticks))"

definition sched_rr_interval :: "kern \<Rightarrow> int" where
  "sched_rr_interval k = max 1 ((sched_slice k * hz k + realstathz k sdiv 2) sdiv realstathz k)"

definition EINVAL :: int where "EINVAL = 22"

text \<open>
  \<open>sysctl_kern_quantum\<close>: the handler reports \<open>new_val\<close> and, when the request writes, gives the
  error of the transfer and the value written.
\<close>

definition sysctl_kern_quantum :: "kern \<Rightarrow> (int \<times> int) option \<Rightarrow> int \<times> kern \<times> int option" where
  "sysctl_kern_quantum k req =
    (let period = 1000000 sdiv realstathz k
     in case req of
          None \<Rightarrow> (0, k, None)
        | Some (error, new_val) \<Rightarrow>
            if error \<noteq> 0 then (error, k, None)
            else if new_val \<le> 0 then (EINVAL, k, None)
            else let k1 = k\<lparr>sched_slice := max 1 ((new_val + period sdiv 2) sdiv period)\<rparr>;
                     k2 = k1\<lparr>sched_slice_min := sched_slice k1 sdiv SCHED_SLICE_MIN_DIVISOR\<rparr>
                 in (0, k2, Some (max 1 ((2 * hz k2 * sched_slice k2 + realstathz k2 sdiv 2) sdiv realstathz k2))))"

section \<open>Interactivity\<close>

text \<open>
  \<open>ts_slptime\<close> and \<open>ts_runtime\<close> are \<open>u_int\<close>; so is all the arithmetic, with the results stored
  into \<open>int\<close>.
\<close>

definition sched_interact_score :: "kern \<Rightarrow> thread \<Rightarrow> int" where
  "sched_interact_score k td =
    (if sched_interact k \<le> SCHED_INTERACT_HALF \<and> ts_runtime td \<ge> ts_slptime td
     then SCHED_INTERACT_HALF
     else if ts_runtime td > ts_slptime td
     then let d = max_u 1 (ts_runtime td div SCHED_INTERACT_HALF)
          in s32_of (u32_of (SCHED_INTERACT_HALF + (SCHED_INTERACT_HALF - ts_slptime td div d)))
     else if ts_slptime td > ts_runtime td
     then let d = max_u 1 (ts_slptime td div SCHED_INTERACT_HALF)
          in s32_of (ts_runtime td div d)
     else if ts_runtime td \<noteq> 0 then SCHED_INTERACT_HALF
     else 0)"

definition sched_interact_update :: "kern \<Rightarrow> thread \<Rightarrow> thread" where
  "sched_interact_update k td =
    (let sum = u32_of (ts_runtime td + ts_slptime td)
     in if sum < u32_of (SCHED_SLP_RUN_MAX k) then td
        else if sum > u32_of (SCHED_SLP_RUN_MAX k * 2)
        then (if ts_runtime td > ts_slptime td
              then td\<lparr>ts_runtime := u32_of (SCHED_SLP_RUN_MAX k), ts_slptime := 1\<rparr>
              else td\<lparr>ts_slptime := u32_of (SCHED_SLP_RUN_MAX k), ts_runtime := 1\<rparr>)
        else if sum > u32_of (SCHED_SLP_RUN_MAX k sdiv 5 * 6)
        then td\<lparr>ts_runtime := ts_runtime td div 2, ts_slptime := ts_slptime td div 2\<rparr>
        else td\<lparr>ts_runtime := ts_runtime td div 5 * 4, ts_slptime := ts_slptime td div 5 * 4\<rparr>)"

definition sched_interact_fork :: "kern \<Rightarrow> thread \<Rightarrow> fault + thread" where
  "sched_interact_fork k td =
    (let sum = s32_of (ts_runtime td + ts_slptime td)
     in if sum > SCHED_SLP_RUN_FORK k
        then if SCHED_SLP_RUN_FORK k = 0 then Inl Div_by_zero
             else let ratio = sum sdiv SCHED_SLP_RUN_FORK k
                  in if ratio = 0 then Inl Div_by_zero
                     else Inr (td\<lparr>ts_runtime := ts_runtime td div u32_of ratio,
                                  ts_slptime := ts_slptime td div u32_of ratio\<rparr>)
        else Inr td)"

section \<open>Processor use\<close>

definition sched_pctcpu_update :: "kern \<Rightarrow> int \<Rightarrow> bool \<Rightarrow> thread \<Rightarrow> fault + thread" where
  "sched_pctcpu_update k ticks run td =
    (let t = ticks;
         past = (if u32_of (t - ts_ltick td) \<ge> u32_of (SCHED_TICK_TARG k)
           then Inr (td\<lparr>ts_ticks := 0, ts_ftick := s32_of (t - SCHED_TICK_TARG k)\<rparr>)
           else if s32_of (t - ts_ftick td) \<ge> SCHED_TICK_MAX k
           then (let span = s32_of (ts_ltick td - ts_ftick td)
                 in if span = 0 then Inl Div_by_zero
                    else Inr (td\<lparr>ts_ticks := s32_of (ts_ticks td sdiv span *
                                  s32_of (ts_ltick td - s32_of (t - SCHED_TICK_TARG k))),
                                 ts_ftick := s32_of (t - SCHED_TICK_TARG k)\<rparr>))
           else Inr td)
     in and_then past (\<lambda>td1.
        let td2 = (if run
              then td1\<lparr>ts_ticks := s32_of (ts_ticks td1 + push_bit SCHED_TICK_SHIFT (s32_of (t - ts_ltick td1)))\<rparr>
              else td1)
        in Inr (td2\<lparr>ts_ltick := t\<rparr>)))"

definition SCHED_TICK_HZ :: "thread \<Rightarrow> int" where
  "SCHED_TICK_HZ td = drop_bit SCHED_TICK_SHIFT (ts_ticks td)"

definition SCHED_TICK_TOTAL :: "kern \<Rightarrow> thread \<Rightarrow> int" where
  "SCHED_TICK_TOTAL k td = max_u (ts_ltick td - ts_ftick td) (hz k)"

text \<open>
  \<open>SCHED_PRI_TICKS\<close>: the tick total is unsigned, so the whole quotient is.
\<close>

definition roundup_u :: "int \<Rightarrow> int \<Rightarrow> int" where
  "roundup_u x y = u32_of (u32_of (x + (y - 1)) div y * y)"

definition SCHED_PRI_TICKS :: "kern \<Rightarrow> thread \<Rightarrow> fault + int" where
  "SCHED_PRI_TICKS k td =
    (let range = int (SCHED_PRI_RANGE k);
         d = roundup_u (SCHED_TICK_TOTAL k td) range div range
     in if d = 0 then Inl Div_by_zero else Inr (u32_of (SCHED_TICK_HZ td) div d))"

definition FSCALE :: "kern \<Rightarrow> int" where "FSCALE k = 2 ^ FSHIFT k"

definition sched_pctcpu :: "kern \<Rightarrow> int \<Rightarrow> thread \<Rightarrow> fault + (int \<times> thread)" where
  "sched_pctcpu k ticks td =
    and_then (sched_pctcpu_update k ticks (td_state td = TDS_RUNNING) td) (\<lambda>td1.
    if ts_ticks td1 \<noteq> 0
    then let rtick = s32_of (min_u (SCHED_TICK_HZ td1 sdiv SCHED_TICK_SECS) (hz k))
         in Inr (u32_of (drop_bit (FSHIFT k) (s32_of (FSCALE k * (s32_of (FSCALE k * rtick) sdiv hz k)))), td1)
    else Inr (0, td1))"

section \<open>Priority\<close>

definition u_char_of :: "int \<Rightarrow> nat" where "u_char_of x = nat (x mod 256)"

definition sched_user_prio :: "nat \<Rightarrow> thread \<Rightarrow> thread" where
  "sched_user_prio prio td =
    (let td1 = td\<lparr>td_base_user_pri := prio\<rparr>
     in if td_lend_user_pri td1 \<le> prio then td1 else td1\<lparr>td_user_pri := prio\<rparr>)"

definition interactive_pri :: "kern \<Rightarrow> int \<Rightarrow> int" where
  "interactive_pri k score = int (PRI_MIN_INTERACT k) +
    (int (PRI_MAX_INTERACT k) - int (PRI_MIN_INTERACT k) + 1) sdiv sched_interact k * score"

definition batch_pri :: "kern \<Rightarrow> thread \<Rightarrow> fault + int" where
  "batch_pri k td =
    and_then (if ts_ticks td \<noteq> 0
        then and_then (SCHED_PRI_TICKS k td) (\<lambda>p. Inr (min_u p (int (SCHED_PRI_RANGE k) - 1)))
        else Inr 0) (\<lambda>p.
    Inr (int (SCHED_PRI_MIN k) + p + p_nice td))"

definition sched_priority :: "kern \<Rightarrow> thread \<Rightarrow> fault + thread" where
  "sched_priority k td =
    (if PRI_BASE k (td_pri_class td) \<noteq> PRI_TIMESHARE k then Inr td
     else let score = max 0 (sched_interact_score k td + p_nice td)
          in and_then (if score < sched_interact k then Inr (interactive_pri k score) else batch_pri k td) (\<lambda>pri.
             Inr (sched_user_prio (u_char_of pri) td)))"

section \<open>Class, fork and exit of a thread\<close>

definition sched_class :: "nat \<Rightarrow> thread \<Rightarrow> thread" where
  "sched_class c td = (if td_pri_class td = c then td else td\<lparr>td_pri_class := c\<rparr>)"

definition sched_fork_thread :: "kern \<Rightarrow> 'w tdq \<Rightarrow> thread \<Rightarrow> thread \<Rightarrow> thread" where
  "sched_fork_thread k tdq td child =
    child\<lparr>td_oncpu := NOCPU k, td_lastcpu := NOCPU k, td_cpuset := td_cpuset td,
      ts_cpu := ts_cpu td, ts_flags := {},
      ts_ticks := ts_ticks td, ts_ltick := ts_ltick td, ts_ftick := ts_ftick td,
      td_priority := td_base_pri child,
      ts_slptime := ts_slptime td, ts_runtime := ts_runtime td,
      ts_slice := s32_of (tdq_slice k tdq - sched_slice_min k)\<rparr>"

text \<open>
  \<open>sched_fork\<close> returns the parent and the child.
\<close>

definition sched_fork :: "kern \<Rightarrow> int \<Rightarrow> 'w tdq \<Rightarrow> thread \<Rightarrow> thread \<Rightarrow> fault + (thread \<times> thread)" where
  "sched_fork k ticks tdq td child =
    and_then (sched_pctcpu_update k ticks True td) (\<lambda>td1.
    and_then (sched_interact_fork k (sched_fork_thread k tdq td1 child)) (\<lambda>child1.
    and_then (sched_priority k child1) (\<lambda>child2.
    let td2 = td1\<lparr>ts_runtime := u32_of (ts_runtime td1 + tickincr k)\<rparr>;
        td3 = sched_interact_update k td2
    in and_then (sched_priority k td3) (\<lambda>td4. Inr (td4, child2)))))"

definition sched_exit_thread :: "kern \<Rightarrow> thread \<Rightarrow> thread \<Rightarrow> fault + thread" where
  "sched_exit_thread k td child =
    (let td1 = td\<lparr>ts_runtime := u32_of (ts_runtime td + ts_runtime child)\<rparr>
     in sched_priority k (sched_interact_update k td1))"

definition schedinit :: "int \<Rightarrow> thread \<Rightarrow> thread" where
  "schedinit ticks td = td\<lparr>ts_ltick := ticks, ts_ftick := ticks, ts_slice := 0\<rparr>"

end
