(* ===== verification/Sched_Props.thy ===== *)
theory Sched_Props
  imports Sched_Interact
begin

text \<open>
  The properties of the thread queue and of the interactivity computations.
\<close>

section \<open>What is chosen\<close>

lemma runq_choose_cases:
  assumes "runq_ok md rq"
  shows "runq_choose md rq = None \<longleftrightarrow> on_runq rq = {}"
    and "runq_choose md rq = Some t \<Longrightarrow> t \<in> on_runq rq"
proof -
  note spec = findbit_spec [OF assms]
  have ex: "(\<exists>i. inhabited rq i) \<longleftrightarrow> on_runq rq \<noteq> {}" by (auto simp: on_runq_def inhabited_def)
  define i where "i = (LEAST i. inhabited rq i)"
  have i: "inhabited rq i" if "on_runq rq \<noteq> {}" 
    unfolding i_def by (rule inhabited_Least(1)) (use that ex in simp)
  have eq: "runq_choose md rq = (if on_runq rq = {} then None else tailq_first (rq_queues rq ! i))"
    using spec ex by (auto simp: runq_choose_def i_def)
  show "runq_choose md rq = None \<longleftrightarrow> on_runq rq = {}" using eq i by (auto simp: inhabited_def)
  show "t \<in> on_runq rq" if "runq_choose md rq = Some t"
  proof -
    have "on_runq rq \<noteq> {}" "tailq_first (rq_queues rq ! i) = Some t" using eq that by (auto split: if_splits)
    then have "t \<in> set (rq_queues rq ! i)" "i < RQ_NQS"
      using i tailq_first_in_set by (fast, auto simp: inhabited_def)
    then show ?thesis by (auto simp: on_runq_def)
  qed
qed

lemma runq_choose_from_cases:
  assumes "runq_ok md rq" and "idx < RQ_NQS"
  shows "runq_choose_from md rq idx = None \<longleftrightarrow> on_runq rq = {}"
    and "runq_choose_from md rq idx = Some t \<Longrightarrow> t \<in> on_runq rq"
proof -
  note spec = findbit_from_spec [OF assms]
  have ex: "(\<exists>i. inhabited rq i) \<longleftrightarrow> on_runq rq \<noteq> {}" by (auto simp: on_runq_def inhabited_def)
  define i where "i = (if \<exists>i\<ge>idx. inhabited rq i then LEAST i. idx \<le> i \<and> inhabited rq i
    else LEAST i. inhabited rq i)"
  have i: "inhabited rq i" if "on_runq rq \<noteq> {}"
  proof (cases "\<exists>i\<ge>idx. inhabited rq i")
    case True
    then have "idx \<le> i \<and> inhabited rq i"
      unfolding i_def using LeastI_ex [of "\<lambda>i. idx \<le> i \<and> inhabited rq i"] by simp
    then show ?thesis ..
  next
    case False
    then have "i = (LEAST i. inhabited rq i)" unfolding i_def by (simp only: if_False)
    then show ?thesis using inhabited_Least(1) ex that by metis
  qed
  have eq: "runq_choose_from md rq idx = (if on_runq rq = {} then None else tailq_first (rq_queues rq ! i))"
  proof (cases "on_runq rq = {}")
    case True
    then have "\<not> (\<exists>i. inhabited rq i)" using ex by simp
    then show ?thesis using spec True by (auto simp: runq_choose_from_def)
  next
    case False
    then have "runq_findbit_from md rq idx = int i" using spec ex by (auto simp: i_def)
    then show ?thesis using False by (simp add: runq_choose_from_def)
  qed
  show "runq_choose_from md rq idx = None \<longleftrightarrow> on_runq rq = {}" using eq i by (auto simp: inhabited_def)
  show "t \<in> on_runq rq" if "runq_choose_from md rq idx = Some t"
  proof -
    have "on_runq rq \<noteq> {}" "tailq_first (rq_queues rq ! i) = Some t" using eq that by (auto split: if_splits)
    then have "t \<in> set (rq_queues rq ! i)" "i < RQ_NQS"
      using i tailq_first_in_set by (fast, auto simp: inhabited_def)
    then show ?thesis by (auto simp: on_runq_def)
  qed
qed

text \<open>The lottery behaves when every queued thread has a ticket and the tickets fit an \<open>int\<close>.\<close>

definition nice_lottery :: "threads \<Rightarrow> 'w tdq \<Rightarrow> bool" where
  "nice_lottery T tdq \<longleftrightarrow> (\<forall>u\<in>on_runq (tdq_lottery tdq). 0 \<le> p_nice (T u)) \<and>
    (\<Sum>u\<in>on_runq (tdq_lottery tdq). p_nice (T u) + 1) < 2 ^ 31"

lemma lottery_choose_cases:
  assumes ok: "lottery_ok md (tdq_lottery tdq)" and nice: "nice_lottery T tdq"
  shows "case lottery_q_choose T (tdq_lottery tdq) print rand of
      Inl _ \<Rightarrow> False
    | Inr None \<Rightarrow> on_runq (tdq_lottery tdq) = {}
    | Inr (Some t) \<Rightarrow> t \<in> on_runq (tdq_lottery tdq)"
proof (cases "rq_queues (tdq_lottery tdq) ! 0 = []")
  case True
  then show ?thesis using lottery_on_runq [OF ok] by (simp add: lottery_q_choose_def Let_def)
next
  case False
  have pos: "0 < tickets T u" if "u \<in> set (rq_queues (tdq_lottery tdq) ! 0)" for u
    using nice that lottery_on_runq [OF ok] by (auto simp: nice_lottery_def tickets_def)
  have lt: "(\<Sum>u\<leftarrow>rq_queues (tdq_lottery tdq) ! 0. tickets T u) < 2 ^ 31"
    using nice lottery_on_runq [OF ok] runq_okD(3) [of md "tdq_lottery tdq" 0] ok
    by (simp add: nice_lottery_def lottery_ok_def sum_list_distinct_conv_sum_set tickets_def)
  note draw = lottery_choose_draw [OF False pos refl lt]
  obtain t where t: "t \<in> set (rq_queues (tdq_lottery tdq) ! 0)"
    "lottery_q_choose T (tdq_lottery tdq) print rand = Inr (Some t)"
    using draw(1,3) by force
  then show ?thesis using lottery_on_runq [OF ok] by simp
qed

text \<open>The queue that serves: real-time before timeshare before lottery before idle.\<close>

definition serving :: "'w tdq \<Rightarrow> runq_kind option" where
  "serving tdq = (if on_runq (tdq_realtime tdq) \<noteq> {} then Some Q_realtime
    else if on_runq (tdq_timeshare tdq) \<noteq> {} then Some Q_timeshare
    else if on_runq (tdq_lottery tdq) \<noteq> {} then Some Q_lottery
    else if on_runq (tdq_idle tdq) \<noteq> {} then Some Q_idle else None)"

lemma queued_kinds: "queued tdq = on_runq (tdq_realtime tdq) \<union> on_runq (tdq_timeshare tdq) \<union>
    on_runq (tdq_lottery tdq) \<union> on_runq (tdq_idle tdq)"
  by (auto simp: queued_def runq_kind_UNIV)

lemma serving_None: "serving tdq = None \<longleftrightarrow> queued tdq = {}"
  by (auto simp: serving_def queued_kinds)

lemma tdq_choose_cases:
  assumes ok: "tdq_ok md cpu T tdq" and nice: "nice_lottery T tdq"
  shows "case serving tdq of
      None \<Rightarrow> tdq_choose md T tdq rand = Inr None
    | Some q \<Rightarrow> \<exists>t\<in>on_runq (queue_of q tdq). tdq_choose md T tdq rand = Inr (Some t)"
proof -
  note rt = runq_choose_cases [OF tdq_okD(1) [OF ok, of Q_realtime], simplified]
  note idl = runq_choose_cases [OF tdq_okD(1) [OF ok, of Q_idle], simplified]
  note ts = runq_choose_from_cases [OF tdq_okD(1) [OF ok, of Q_timeshare] tdq_okD(5) [OF ok], simplified]
  note lot = lottery_choose_cases [OF tdq_okD(3) [OF ok] nice, of True rand]
  show ?thesis
  proof (cases "on_runq (tdq_realtime tdq) = {} \<and> on_runq (tdq_timeshare tdq) = {}")
    case False
    then show ?thesis
      using rt ts by (auto simp: serving_def tdq_choose_def split: option.splits)
  next
    case none: True
    then have "runq_choose md (tdq_realtime tdq) = None"
      "runq_choose_from md (tdq_timeshare tdq) (tdq_ridx tdq) = None" using rt ts by simp_all
    then have eq: "tdq_choose md T tdq rand =
      and_then (lottery_q_choose T (tdq_lottery tdq) True rand) (\<lambda>r.
            case r of Some td \<Rightarrow> Inr (Some td)
            | None \<Rightarrow> Inr (runq_choose md (tdq_idle tdq)))" by (simp add: tdq_choose_def)
    show ?thesis
    proof (cases "on_runq (tdq_lottery tdq) = {}")
      case True
      then have "lottery_q_choose T (tdq_lottery tdq) True rand = Inr None"
        using lot by (auto split: sum.splits option.splits)
      then show ?thesis
        using eq none True idl by (cases "runq_choose md (tdq_idle tdq)") (auto simp: serving_def)
    next
      case False
      then obtain t where "t \<in> on_runq (tdq_lottery tdq)"
        "lottery_q_choose T (tdq_lottery tdq) True rand = Inr (Some t)"
        using lot by (auto split: sum.splits option.splits)
      then show ?thesis using eq none False by (auto simp: serving_def)
    qed
  qed
qed


lemma tdq_ok_fields:
  assumes "tdq_ok md cpu T tdq"
  shows "tdq_ok md cpu T (tdq\<lparr>tdq_lowpri := p\<rparr>)"
    and "tdq_ok md cpu T (tdq\<lparr>tdq_load := l, tdq_sysload := s\<rparr>)"
    and "queued (tdq\<lparr>tdq_lowpri := p\<rparr>) = queued tdq"
    and "queued (tdq\<lparr>tdq_load := l, tdq_sysload := s\<rparr>) = queued tdq"
    and "queued (tdq_load_add tdq x) = queued tdq" and "queued (tdq_load_rem tdq x) = queued tdq"
    and "tdq_ok md cpu T (tdq_load_add tdq x)" and "tdq_ok md cpu T (tdq_load_rem tdq x)"
proof -
  have q: "queue_of q (tdq\<lparr>tdq_lowpri := p\<rparr>) = queue_of q tdq"
    "queue_of q (tdq\<lparr>tdq_load := l, tdq_sysload := s\<rparr>) = queue_of q tdq" for q p l s
    by (cases q; simp)+
  show queued: "queued (tdq\<lparr>tdq_lowpri := p\<rparr>) = queued tdq"
    "queued (tdq\<lparr>tdq_load := l, tdq_sysload := s\<rparr>) = queued tdq" for p l s
    by (simp_all add: queued_def q)
  then show "queued (tdq_load_add tdq x) = queued tdq" "queued (tdq_load_rem tdq x) = queued tdq"
    by (simp_all add: tdq_load_add_def tdq_load_rem_def)
  show ok: "tdq_ok md cpu T (tdq\<lparr>tdq_lowpri := p\<rparr>)"
    "tdq_ok md cpu T (tdq\<lparr>tdq_load := l, tdq_sysload := s\<rparr>)" for p l s
    using assms by (simp_all add: tdq_ok_def q queued)
  then show "tdq_ok md cpu T (tdq_load_add tdq x)" "tdq_ok md cpu T (tdq_load_rem tdq x)"
    by (simp_all add: tdq_load_add_def tdq_load_rem_def)
qed

lemma tdq_ok_threads:
  assumes "tdq_ok md cpu T tdq" and "\<forall>u\<in>queued tdq. T' u = T u"
  shows "tdq_ok md cpu T' tdq"
proof -
  have eq: "T' u = T u" if "u \<in> on_runq (queue_of q tdq)" for u q
    using assms(2) that by (auto simp: queued_def)
  have "placed cpu T' q (queue_of q tdq)" for q
    using tdq_okD(2) [OF assms(1), of q] eq [of _ q] by (simp add: placed_def)
  moreover have "{t \<in> queued tdq. TSF_XFERABLE \<in> ts_flags (T' t)} = {t \<in> queued tdq. TSF_XFERABLE \<in> ts_flags (T t)}"
    using assms(2) by auto
  ultimately show ?thesis using assms(1) by (simp add: tdq_ok_def)
qed

lemma nice_lottery_less:
  assumes nice: "nice_lottery T tdq" and sub: "on_runq (tdq_lottery tdq') \<subseteq> on_runq (tdq_lottery tdq)"
    and T': "\<forall>u. p_nice (T' u) = p_nice (T u)"
  shows "nice_lottery T' tdq'"
proof -
  have "(\<Sum>u\<in>on_runq (tdq_lottery tdq'). p_nice (T u) + 1) \<le> (\<Sum>u\<in>on_runq (tdq_lottery tdq). p_nice (T u) + 1)"
    using nice sub by (intro sum_mono2) (auto simp: nice_lottery_def)
  then show ?thesis using nice sub T' by (auto simp: nice_lottery_def)
qed

lemma lottery_sub:
  assumes ok: "tdq_ok md cpu T tdq" and ok': "tdq_ok md cpu (unmarked T t) tdq'" and sub: "queued tdq' \<subseteq> queued tdq"
  shows "on_runq (tdq_lottery tdq') \<subseteq> on_runq (tdq_lottery tdq)"
proof
  fix u assume "u \<in> on_runq (tdq_lottery tdq')"
  then have u: "u \<in> on_runq (queue_of Q_lottery tdq')" by simp
  note u' = tdq_ok_queue [OF ok' u]
  obtain q where q: "u \<in> on_runq (queue_of q tdq)" using u'(2) sub by (auto simp: queued_def)
  have "ts_runq (unmarked T t u) = ts_runq (T u)" by (cases "u = t") simp_all
  then have "q = Q_lottery" using u'(1) tdq_ok_queue(1) [OF ok q] by simp
  then show "u \<in> on_runq (tdq_lottery tdq)" using q by simp
qed

lemma load_rem_lottery: "tdq_lottery (tdq_load_rem tdq x) = tdq_lottery tdq"
  by (simp add: tdq_load_rem_def)

lemma tdq_setlowpri_ok:
  assumes "tdq_ok md cpu T tdq" and "nice_lottery T tdq"
  shows "\<exists>p. tdq_setlowpri md T tdq ctd rand = Inr (tdq\<lparr>tdq_lowpri := p\<rparr>)"
proof -
  obtain r where "tdq_choose md T tdq rand = Inr r"
    using tdq_choose_cases [OF assms, of rand] by (cases "serving tdq") auto
  then show ?thesis by (cases r) (auto simp: tdq_setlowpri_def)
qed

lemma tdq_add_ok:
  assumes ok: "tdq_ok md cpu T tdq" and t: "t \<notin> queued tdq" and pri: "td_priority (T t) < 256"
    and xfer: "TSF_XFERABLE \<notin> ts_flags (T t)"
  shows "case tdq_add md k cpu T tdq t flags of (T', tdq') \<Rightarrow>
    tdq_ok md cpu T' tdq' \<and> queued tdq' = insert t (queued tdq) \<and> tdq_load tdq' = tdq_load tdq + 1 \<and>
    tdq_lowpri tdq' = min (td_priority (T t)) (tdq_lowpri tdq)"
proof -
  define tdq1 where "tdq1 = (if td_priority (T t) < tdq_lowpri tdq
    then tdq\<lparr>tdq_lowpri := td_priority (T t)\<rparr> else tdq)"
  have ok1: "tdq_ok md cpu T tdq1" and t1: "t \<notin> queued tdq1" and q1: "queued tdq1 = queued tdq"
    using tdq_ok_fields(1,3) [OF ok] ok t by (simp_all add: tdq1_def)
  obtain T' tdq2 where r: "tdq_runq_add md k cpu T tdq1 t flags = (T', tdq2)" by fastforce
  note add = tdq_runq_add_ok [OF ok1 t1 pri xfer r]
  have fields: "tdq_load tdq2 = tdq_load tdq1" "tdq_lowpri tdq2 = tdq_lowpri tdq1"
    using r by (auto simp: tdq_runq_add_eq Let_def counted_def set_queue_def split: runq_kind.splits prod.splits)
  have "tdq_add md k cpu T tdq t flags = (T', tdq_load_add tdq2 (T' t))"
    using r by (simp add: tdq_add_def tdq1_def)
  then show ?thesis
    using tdq_ok_fields(5,7) [OF add(1), of "T' t"] add(2) q1 fields by (simp add: tdq_load_add_def tdq1_def)
qed

lemma tdq_setup_ok:
  assumes "runq_md_ok md" and "tdq_idx tdq < RQ_NQS" and "tdq_ridx tdq < RQ_NQS" and "tdq_transferable tdq = 0"
  shows "tdq_ok md cpu T (tdq_setup md tdq)" and "queued (tdq_setup md tdq) = {}"
proof -
  have q: "queue_of q (tdq_setup md tdq) = runq_init md" for q by (cases q) (simp_all add: tdq_setup_def)
  have none: "on_runq (runq_init md) = {}" by (simp add: on_runq_def runq_init_def)
  show queued: "queued (tdq_setup md tdq) = {}" by (simp add: queued_def q none)
  have "tdq_lottery (tdq_setup md tdq) = runq_init md" using q [of Q_lottery] by simp
  then show "tdq_ok md cpu T (tdq_setup md tdq)"
    using assms runq_init_ok [OF assms(1)] runq_init_lottery_ok [OF assms(1)]
    by (simp add: tdq_ok_def q placed_def none queued) (simp add: tdq_setup_def)
qed

text \<open>An empty queue, and one with the timeshare thread 7 of an ordinary user.\<close>

definition tdq0 :: "64 word tdq" where
  "tdq0 = tdq_setup amd64_runq \<lparr>tdq_load = 0, tdq_cpu_idle = False, tdq_sysload = 0, tdq_transferable = 0,
    tdq_switchcnt = 0, tdq_oldswitchcnt = 0, tdq_lowpri = 255, tdq_ipipending = False, tdq_idx = 0,
    tdq_ridx = 0, tdq_realtime = runq_init amd64_runq, tdq_timeshare = runq_init amd64_runq,
    tdq_lottery = runq_init amd64_runq, tdq_idle = runq_init amd64_runq, nPrints = 0\<rparr>"

definition thr7 :: threads where
  "thr7 = fst (tdq_add amd64_runq freebsd 0 (\<lambda>_. td0) tdq0 7 {})"

definition tdq7 :: "64 word tdq" where
  "tdq7 = snd (tdq_add amd64_runq freebsd 0 (\<lambda>_. td0) tdq0 7 {})"

lemma tdq0_ok: "tdq_ok amd64_runq cpu T tdq0" and tdq0_queued: "queued tdq0 = {}"
  unfolding tdq0_def by (rule tdq_setup_ok; simp add: amd64_ok RQ_NQS_def)+

lemma tdq7_facts: "tdq_ok amd64_runq 0 thr7 tdq7" "queued tdq7 = {7}"
proof -
  have "7 \<notin> queued tdq0" "td_priority td0 < 256" "TSF_XFERABLE \<notin> ts_flags td0"
    by (simp_all add: tdq0_queued td0_def)
  then show "tdq_ok amd64_runq 0 thr7 tdq7" "queued tdq7 = {7}"
    using tdq_add_ok [OF tdq0_ok, where t = 7 and T = "\<lambda>_. td0" and k = freebsd and flags = "{}" and cpu = 0]
    by (auto simp: thr7_def tdq7_def tdq0_queued split: prod.splits)
qed

lemma thr7_nice: "p_nice (thr7 u) = 0"
  by (cases "u = 7") (simp_all add: thr7_def tdq_add_def tdq_runq_add_eq Let_def marked_def td0_def
      runq_add_pri_def split: runq_kind.splits)

lemma nice7: "nice_lottery thr7 tdq7"
proof -
  have "on_runq (tdq_lottery tdq7) \<subseteq> {7}" using tdq7_facts(2) by (auto simp: queued_kinds)
  then have "on_runq (tdq_lottery tdq7) = {} \<or> on_runq (tdq_lottery tdq7) = {7}" by auto
  then show ?thesis by (auto simp: nice_lottery_def thr7_nice)
qed

text \<open>Only the fields that place a thread on a queue change.\<close>

definition same_thread :: "thread \<Rightarrow> thread \<Rightarrow> bool" where
  "same_thread x y \<longleftrightarrow> (\<exists>st fl rq i. y = x\<lparr>td_state := st, ts_flags := fl, ts_runq := rq, td_rqindex := i\<rparr>)"

lemma same_threadI:
  "y = x\<lparr>td_state := td_state y, ts_flags := ts_flags y, ts_runq := ts_runq y, td_rqindex := td_rqindex y\<rparr> \<Longrightarrow> same_thread x y"
  unfolding same_thread_def by blast

lemma same_thread_trans: "same_thread x y \<Longrightarrow> same_thread y z \<Longrightarrow> same_thread x z"
  unfolding same_thread_def by fastforce

lemma same_thread_cpu:
  assumes "same_thread x y" shows "same_thread (x\<lparr>ts_cpu := c\<rparr>) (y\<lparr>ts_cpu := c\<rparr>)"
proof -
  obtain st fl rq i where "y = x\<lparr>td_state := st, ts_flags := fl, ts_runq := rq, td_rqindex := i\<rparr>"
    using assms by (auto simp: same_thread_def)
  then have "y\<lparr>ts_cpu := c\<rparr> = (x\<lparr>ts_cpu := c\<rparr>)\<lparr>td_state := st, ts_flags := fl, ts_runq := rq, td_rqindex := i\<rparr>" by simp
  then show ?thesis unfolding same_thread_def by blast
qed

lemma same_threadD:
  assumes "same_thread x y"
  shows "td_priority y = td_priority x" and "td_flags y = td_flags x" and "p_nice y = p_nice x"
    and "td_cpuset y = td_cpuset x" and "td_pinned y = td_pinned x" and "ts_cpu y = ts_cpu x"
  using assms by (auto simp: same_thread_def)

lemma tdq_add_frame:
  assumes "tdq_add md k cpu T tdq t flags = (T', tdq')"
  shows "(\<forall>u. u \<noteq> t \<longrightarrow> T' u = T u) \<and> same_thread (T t) (T' t) \<and> td_state (T' t) = TDS_RUNQ"
  using assms
  by (auto simp: tdq_add_def tdq_runq_add_eq Let_def marked_def runq_add_pri_def intro!: same_threadI
      split: runq_kind.splits prod.splits)

lemma sched_rem_ok:
  assumes ok: "tdq_ok md cpu T tdq" and t: "t \<in> queued tdq" and nice: "nice_lottery T tdq"
  shows "\<exists>T' tdq'. sched_rem md cpu curthread T tdq t rand = Inr (T', tdq') \<and>
    tdq_ok md cpu T' tdq' \<and> queued tdq' = queued tdq - {t} \<and> tdq_load tdq' = tdq_load tdq - 1 \<and>
    (\<forall>u. u \<noteq> t \<longrightarrow> T' u = T u) \<and> same_thread (T t) (T' t) \<and> TSF_XFERABLE \<notin> ts_flags (T' t)"
proof -
  obtain tdq1 where r: "tdq_runq_rem md cpu T tdq t = Inr (unmarked T t, tdq1)"
    and ok1: "tdq_ok md cpu (unmarked T t) tdq1" and q1: "queued tdq1 = queued tdq - {t}"
    and load1: "tdq_load tdq1 = tdq_load tdq"
    using tdq_runq_rem_ok [OF ok t] by blast
  define T2 where "T2 = upd_td (unmarked T t) t (\<lambda>x. x\<lparr>td_state := TDS_CAN_RUN\<rparr>)"
  define tdq2 where "tdq2 = tdq_load_rem tdq1 (unmarked T t t)"
  have q2: "queued tdq2 = queued tdq - {t}" unfolding tdq2_def tdq_ok_fields(6) [OF ok1] by (rule q1)
  have ok2: "tdq_ok md cpu T2 tdq2"
    unfolding tdq2_def using q2
    by (intro tdq_ok_threads [OF tdq_ok_fields(8) [OF ok1]]) (auto simp: T2_def tdq2_def)
  have "on_runq (tdq_lottery tdq1) \<subseteq> on_runq (tdq_lottery tdq)"
    using q1 by (intro lottery_sub [OF ok ok1]) auto
  moreover have "p_nice (T2 u) = p_nice (T u)" for u
    by (cases "u = t") (simp_all add: T2_def unmarked_def)
  moreover have "tdq_lottery tdq2 = tdq_lottery tdq1" unfolding tdq2_def by (rule load_rem_lottery)
  ultimately have nice2: "nice_lottery T2 tdq2" using nice_lottery_less [of T tdq tdq2 T2] nice by metis
  obtain p where p: "tdq_setlowpri md T2 tdq2 curthread rand = Inr (tdq2\<lparr>tdq_lowpri := p\<rparr>)"
    using tdq_setlowpri_ok [OF ok2 nice2] ..
  have "sched_rem md cpu curthread T tdq t rand = Inr (T2,
      if td_priority (T2 t) = tdq_lowpri tdq2 then tdq2\<lparr>tdq_lowpri := p\<rparr> else tdq2)"
    unfolding sched_rem_def r and_then_Inr prod.case Let_def T2_def [symmetric] tdq2_def [symmetric] p by simp
  moreover have "tdq_ok md cpu T2 (tdq2\<lparr>tdq_lowpri := p\<rparr>)"
    "queued (tdq2\<lparr>tdq_lowpri := p\<rparr>) = queued tdq - {t}" using tdq_ok_fields(1,3) [OF ok2] q2 by simp_all
  moreover have "tdq_load tdq2 = tdq_load tdq - 1" using load1 by (simp add: tdq2_def tdq_load_rem_def)
  moreover have "(\<forall>u. u \<noteq> t \<longrightarrow> T2 u = T u) \<and> same_thread (T t) (T2 t) \<and> TSF_XFERABLE \<notin> ts_flags (T2 t)"
    by (auto simp: T2_def intro!: same_threadI)
  ultimately show ?thesis
    using ok2 q2 by (cases "td_priority (T2 t) = tdq_lowpri tdq2") auto
qed

section \<open>Properties of the thread queue\<close>

text \<open>
  C19: adding a thread to a processor's queue (\<open>tdq_add\<close>) and taking one off it (\<open>sched_rem\<close>)
  keep the invariant: every run queue is well formed, each queued thread is where its own fields
  say, the transferable count is the number of queued threads marked transferable. Exactly this
  thread is added or removed and the load changes by one.
\<close>

theorem tdq_invariant:
  assumes ok: "tdq_ok md cpu T tdq"
  shows "(t \<notin> queued tdq \<and> td_priority (T t) < 256 \<and> TSF_XFERABLE \<notin> ts_flags (T t) \<longrightarrow>
      (case tdq_add md k cpu T tdq t flags of (T', tdq') \<Rightarrow>
        tdq_ok md cpu T' tdq' \<and> queued tdq' = insert t (queued tdq) \<and> tdq_load tdq' = tdq_load tdq + 1 \<and>
        tdq_lowpri tdq' = min (td_priority (T t)) (tdq_lowpri tdq))) \<and>
    (t \<in> queued tdq \<and> nice_lottery T tdq \<longrightarrow>
      (\<exists>T' tdq'. sched_rem md cpu curthread T tdq t rand = Inr (T', tdq') \<and>
        tdq_ok md cpu T' tdq' \<and> queued tdq' = queued tdq - {t} \<and> tdq_load tdq' = tdq_load tdq - 1))"
    (is "?add \<and> ?rem")
proof
  show ?add by (intro impI tdq_add_ok [OF ok]) simp_all
  show ?rem using sched_rem_ok [OF ok, of t curthread rand] by auto
qed

theorem tdq_invariant_witness:
  "(case tdq_add amd64_runq freebsd 0 (\<lambda>_. td0) tdq0 7 {} of (T', tdq') \<Rightarrow>
      tdq_ok amd64_runq 0 T' tdq' \<and> queued tdq' = {7}) \<and>
    (\<exists>T' tdq'. sched_rem amd64_runq 0 1 thr7 tdq7 7 0 = Inr (T', tdq') \<and> queued tdq' = {})"
proof
  have "7 \<notin> queued tdq0 \<and> td_priority ((\<lambda>_. td0) 7) < 256 \<and> TSF_XFERABLE \<notin> ts_flags ((\<lambda>_. td0) 7)"
    by (simp add: tdq0_queued td0_def)
  from mp [OF conjunct1 [OF tdq_invariant [where T = "\<lambda>_. td0" and t = 7 and k = freebsd and flags = "{}"
        and cpu = 0, OF tdq0_ok]] this]
  show "case tdq_add amd64_runq freebsd 0 (\<lambda>_. td0) tdq0 7 {} of (T', tdq') \<Rightarrow>
      tdq_ok amd64_runq 0 T' tdq' \<and> queued tdq' = {7}"
    by (auto simp: tdq0_queued split: prod.splits)
  have "7 \<in> queued tdq7 \<and> nice_lottery thr7 tdq7" using nice7 tdq7_facts by simp
  from mp [OF conjunct2 [OF tdq_invariant [OF tdq7_facts(1)]] this, of 1 0]
  show "\<exists>T' tdq'. sched_rem amd64_runq 0 1 thr7 tdq7 7 0 = Inr (T', tdq') \<and> queued tdq' = {}"
    using tdq7_facts(2) by fastforce
qed

text \<open>What \<open>sched_choose\<close> does, with the threads it leaves alone.\<close>

lemma sched_choose_ok:
  assumes ok: "tdq_ok md cpu T tdq" and nice: "nice_lottery T tdq"
  shows "\<exists>t T' tdq'. sched_choose md k cpu idlethread T tdq rand = Inr (t, T', tdq') \<and>
    (case serving tdq of
       None \<Rightarrow> queued tdq = {} \<and> t = idlethread \<and> T' = T \<and> tdq' = tdq\<lparr>tdq_lowpri := PRI_MAX_IDLE k\<rparr>
     | Some q \<Rightarrow> t \<in> on_runq (queue_of q tdq) \<and> T' = unmarked T t \<and> tdq_ok md cpu T' tdq' \<and> queued tdq' = queued tdq - {t} \<and>
         tdq_load tdq' = tdq_load tdq \<and> tdq_lowpri tdq' = td_priority (T t))"
proof (cases "serving tdq")
  case None
  then show ?thesis
    using tdq_choose_cases [OF ok nice, of rand] serving_None [of tdq] by (simp add: sched_choose_def)
next
  case (Some q)
  then obtain t where t: "t \<in> on_runq (queue_of q tdq)" "tdq_choose md T tdq rand = Inr (Some t)"
    using tdq_choose_cases [OF ok nice, of rand] by auto
  obtain tdq1 where r: "tdq_runq_rem md cpu T tdq t = Inr (unmarked T t, tdq1)"
      "tdq_ok md cpu (unmarked T t) tdq1" "queued tdq1 = queued tdq - {t}" "tdq_load tdq1 = tdq_load tdq"
    using tdq_runq_rem_ok [OF ok tdq_ok_queue(2) [OF ok t(1)]] by blast
  have "sched_choose md k cpu idlethread T tdq rand =
      Inr (t, unmarked T t, tdq1\<lparr>tdq_lowpri := td_priority (T t)\<rparr>)"
    unfolding sched_choose_def t(2) and_then_Inr option.case r(1) by simp
  then show ?thesis using Some t(1) tdq_ok_fields(1,3) [OF r(2)] r(3,4) by simp
qed

text \<open>
  C33: \<open>sched_choose\<close> serves real-time threads first, then root's timeshare threads, then the
  lottery, then idle threads, and takes the chosen thread off its queue; with nothing queued it
  returns the idle thread. The processor's lowest priority becomes the chosen thread's.
\<close>

theorem sched_choose_order:
  assumes ok: "tdq_ok md cpu T tdq" and nice: "nice_lottery T tdq"
  shows "\<exists>t T' tdq'. sched_choose md k cpu idlethread T tdq rand = Inr (t, T', tdq') \<and>
    (case serving tdq of
       None \<Rightarrow> queued tdq = {} \<and> t = idlethread \<and> T' = T \<and> tdq' = tdq\<lparr>tdq_lowpri := PRI_MAX_IDLE k\<rparr>
     | Some q \<Rightarrow> t \<in> on_runq (queue_of q tdq) \<and> tdq_ok md cpu T' tdq' \<and> queued tdq' = queued tdq - {t} \<and>
         tdq_load tdq' = tdq_load tdq \<and> tdq_lowpri tdq' = td_priority (T t))"
  using sched_choose_ok [OF assms, of k idlethread rand] by (cases "serving tdq") auto

theorem sched_choose_order_witness:
  "\<exists>T' tdq'. sched_choose amd64_runq freebsd 0 1 thr7 tdq7 0 = Inr (7, T', tdq') \<and> queued tdq' = {}"
proof -
  have "serving tdq7 \<noteq> None" using tdq7_facts(2) serving_None [of tdq7] by simp
  then obtain q where "serving tdq7 = Some q" by blast
  then obtain t T' tdq' where c: "sched_choose amd64_runq freebsd 0 1 thr7 tdq7 0 = Inr (t, T', tdq')"
      "t \<in> on_runq (queue_of q tdq7)" "queued tdq' = queued tdq7 - {t}"
    using sched_choose_order [OF tdq7_facts(1) nice7, of freebsd 1 0] by auto
  have "t = 7" using c(2) tdq7_facts(2) by (auto simp: queued_def)
  then show ?thesis using c tdq7_facts(2) by auto
qed

end
