(* ===== verification/Sched_Search.thy ===== *)
theory Sched_Search
  imports Sched_Props
begin

text \<open>
  The search for a processor in the topology tree (\<open>cpu_search\<close> and its callers
  \<open>sched_lowest\<close>, \<open>sched_highest\<close> of \<open>src/asgn2/kern/sched_ule.c\<close>), with what it computes: the
  least (most) loaded eligible processor on the least (most) loaded path of the tree.

  \<open>cpu_group\<close> is the structure of \<open>sys/smp.h\<close>; processor sets are sets of numbers, an \<open>int\<close>
  processor number that may be -1 is an option. The loads are \<open>int\<close>; \<open>loads_fit\<close> states the sizes
  for which the 32-bit sums do not overflow.
\<close>

section \<open>The topology and the environment\<close>

datatype cpu_group = CG (cg_mask: "nat set") (cg_level: nat) (cg_thread: bool) (cg_child: "cpu_group list")

definition INT_MAX :: int where "INT_MAX = 2 ^ 31 - 1"
definition INT_MIN :: int where "INT_MIN = - (2 ^ 31)"

text \<open>
  What an operation takes from outside: the run queue macros and constants, the executing processor
  and its \<open>td_intr_nesting_level\<close>, the topology (\<open>tdq_cg\<close> is a processor's group followed by its
  parents, empty for a null pointer), the size of a set and the direction in which processors are
  enumerated, the clock, what \<open>cpu_idle_wakeup\<close> answers, the values \<open>random()\<close> returns in turn, the
  idle threads, the switches of the file and the kernel, and the processors \<open>CPU_FOREACH\<close> visits.
\<close>

record 'w cpu_env =
  rqmd :: "'w runq_md"
  kn :: kern
  self :: nat
  intr_nesting :: nat
  cpu_top :: cpu_group
  tdq_cg :: "nat \<Rightarrow> cpu_group list"
  CPU_SETSIZE :: nat
  CG_SHARE_L2 :: nat
  HAVE_INLINE_FFSL :: bool
  smp_started :: bool
  ticks :: int
  cpu_idle_wakeup :: "nat \<Rightarrow> bool"
  random :: "nat \<Rightarrow> nat"
  idlethread :: "nat \<Rightarrow> tid"
  trysteal_limit :: int
  always_steal :: int
  panicstr :: bool   \<comment> \<open>\<open>panicstr != NULL\<close>\<close>
  cold :: bool
  kdb_active :: bool
  PSOCK :: int
  cpu_foreach :: "nat list"

section \<open>The search\<close>

definition sched_random :: "u32 \<Rightarrow> u32 \<times> u32" where
  "sched_random x = (let x' = x * 69069 + 5 in (drop_bit 16 x', x'))"

record cpu_srch =
  cs_mask :: "nat set"
  cs_prefer :: nat
  cs_pri :: int
  cs_limit :: int
  cs_cpu :: "nat option"
  cs_load :: int

text \<open>One of the two searches in a group: \<open>lload\<close> or \<open>hload\<close>, \<open>*low\<close> or \<open>*high\<close>, \<open>lgroup\<close> or \<open>hgroup\<close>.\<close>

record side =
  s_load :: int
  s_best :: cpu_srch
  s_group :: cpu_srch

definition start_side :: "bool \<Rightarrow> cpu_srch \<Rightarrow> side" where
  "start_side up b = \<lparr>s_load = if up then INT_MIN else INT_MAX, s_best = b, s_group = b\<rparr>"

definition before :: "bool \<Rightarrow> int \<Rightarrow> int \<Rightarrow> bool" where
  "before up a b = (if up then a > b else a < b)"

definition pick :: "bool \<Rightarrow> int \<Rightarrow> side \<Rightarrow> side" where
  "pick up load s =
    (let g = s_group s; b = s_best s
     in if cs_cpu g \<noteq> None \<and>
           (before up load (s_load s) \<or> load = s_load s \<and> before up (cs_load g) (cs_load b))
        then s\<lparr>s_load := load, s_best := b\<lparr>cs_cpu := cs_cpu g, cs_load := cs_load g\<rparr>\<rparr> else s)"

definition fits :: "bool \<Rightarrow> 'w tdq \<Rightarrow> nat \<Rightarrow> cpu_srch \<Rightarrow> bool" where
  "fits up tdq cpu g =
    (if up then tdq_load tdq \<ge> cs_limit g \<and> tdq_transferable tdq \<noteq> 0 \<and> cpu \<in> cs_mask g
     else int (tdq_lowpri tdq) > cs_pri g \<and> tdq_load tdq \<le> cs_limit g \<and> cpu \<in> cs_mask g)"

definition offer_cpu :: "bool \<Rightarrow> 'w tdq \<Rightarrow> nat \<Rightarrow> int \<Rightarrow> int \<Rightarrow> side \<Rightarrow> side" where
  "offer_cpu up tdq cpu load rnd s =
    (let g = (s_group s)\<lparr>cs_cpu := None\<rparr>
     in pick up load (s\<lparr>s_group := if fits up tdq cpu g then g\<lparr>cs_cpu := Some cpu, cs_load := load - rnd\<rparr> else g\<rparr>))"

definition offer_group :: "bool \<Rightarrow> int \<Rightarrow> cpu_srch option \<Rightarrow> side option \<Rightarrow> side option" where
  "offer_group up load g s =
    (case (g, s) of (Some g', Some s') \<Rightarrow> Some (pick up load (s'\<lparr>s_group := g'\<rparr>)) | _ \<Rightarrow> None)"

text \<open>\<open>Q\<close> has the thread queues; the state of the loop is the total, the two searches and the generator.\<close>

type_synonym search_state = "int \<times> side option \<times> side option \<times> u32"

definition cpu_load :: "(nat \<Rightarrow> 'w tdq) \<Rightarrow> nat option \<Rightarrow> nat \<Rightarrow> int" where
  "cpu_load Q prefer cpu = tdq_load (Q cpu) * 256 - (if prefer = Some cpu then 64 else 0)"

definition search_cpu :: "(nat \<Rightarrow> 'w tdq) \<Rightarrow> nat \<Rightarrow> search_state \<Rightarrow> search_state" where
  "search_cpu Q cpu = (\<lambda>(total, L, H, x).
    (let (v, x') = sched_random x;
         rnd = int (unat v mod 32);
         load = cpu_load Q (map_option (\<lambda>s. cs_prefer (s_best s)) L) cpu
     in (total + load, map_option (offer_cpu False (Q cpu) cpu load rnd) L,
         map_option (offer_cpu True (Q cpu) cpu load rnd) H, x')))"

definition cpu_order :: "'w cpu_env \<Rightarrow> nat set \<Rightarrow> nat list" where
  "cpu_order E cpus = (if HAVE_INLINE_FFSL E then filter (\<lambda>c. c \<in> cpus) [0..<CPU_SETSIZE E]
    else rev (filter (\<lambda>c. c \<in> cpus) [0..<Suc (mp_maxid (kn E))]))"

text \<open>The last child is visited first; the processors in no child come last.\<close>

fun cpu_search :: "'w cpu_env \<Rightarrow> (nat \<Rightarrow> 'w tdq) \<Rightarrow> cpu_group \<Rightarrow> cpu_srch option \<times> cpu_srch option \<times> u32
      \<Rightarrow> int \<times> cpu_srch option \<times> cpu_srch option \<times> u32"
  and search_children :: "'w cpu_env \<Rightarrow> (nat \<Rightarrow> 'w tdq) \<Rightarrow> cpu_group list \<Rightarrow> search_state \<Rightarrow> search_state" where
  "cpu_search E Q (CG cpus level thread child) (low, high, x) =
    (let (total, L, H, x') = fold (search_cpu Q) (cpu_order E (cpus - \<Union> (cg_mask ` set child)))
           (search_children E Q child (0, map_option (start_side False) low, map_option (start_side True) high, x))
     in (total, map_option s_best L, map_option s_best H, x'))"
| "search_children E Q [] st = st"
| "search_children E Q (c # cs) st =
    (let (total, L, H, x) = search_children E Q cs st;
         (load, l, h, x') = cpu_search E Q c (map_option (\<lambda>s. (s_group s)\<lparr>cs_cpu := None\<rparr>) L,
                              map_option (\<lambda>s. (s_group s)\<lparr>cs_cpu := None\<rparr>) H, x)
     in (total + load, offer_group False load l L, offer_group True load h H, x'))"

definition cpu_search_lowest ::
    "'w cpu_env \<Rightarrow> (nat \<Rightarrow> 'w tdq) \<Rightarrow> cpu_group \<Rightarrow> cpu_srch \<Rightarrow> u32 \<Rightarrow> int \<times> cpu_srch \<times> u32" where
  "cpu_search_lowest E Q cg low x =
    (let (total, l, _, x') = cpu_search E Q cg (Some low, None, x) in (total, the l, x'))"

definition cpu_search_highest ::
    "'w cpu_env \<Rightarrow> (nat \<Rightarrow> 'w tdq) \<Rightarrow> cpu_group \<Rightarrow> cpu_srch \<Rightarrow> u32 \<Rightarrow> int \<times> cpu_srch \<times> u32" where
  "cpu_search_highest E Q cg high x =
    (let (total, _, h, x') = cpu_search E Q cg (None, Some high, x) in (total, the h, x'))"

definition cpu_search_both ::
    "'w cpu_env \<Rightarrow> (nat \<Rightarrow> 'w tdq) \<Rightarrow> cpu_group \<Rightarrow> cpu_srch \<Rightarrow> cpu_srch \<Rightarrow> u32
      \<Rightarrow> int \<times> cpu_srch \<times> cpu_srch \<times> u32" where
  "cpu_search_both E Q cg low high x =
    (let (total, l, h, x') = cpu_search E Q cg (Some low, Some high, x) in (total, the l, the h, x'))"

text \<open>
  Fields that the code leaves unset are 0 here; \<open>cs_load\<close> is only compared after it was written
  together with \<open>cs_cpu\<close>, the others are not read by the search for the highest load.
\<close>

definition sched_lowest ::
    "'w cpu_env \<Rightarrow> (nat \<Rightarrow> 'w tdq) \<Rightarrow> cpu_group \<Rightarrow> nat set \<Rightarrow> int \<Rightarrow> int \<Rightarrow> nat \<Rightarrow> u32 \<Rightarrow> nat option \<times> u32" where
  "sched_lowest E Q cg cpus pri maxload prefer x =
    (let (_, low, x') = cpu_search_lowest E Q cg
           \<lparr>cs_mask = cpus, cs_prefer = prefer, cs_pri = pri, cs_limit = maxload, cs_cpu = None, cs_load = 0\<rparr> x
     in (cs_cpu low, x'))"

definition sched_highest ::
    "'w cpu_env \<Rightarrow> (nat \<Rightarrow> 'w tdq) \<Rightarrow> cpu_group \<Rightarrow> nat set \<Rightarrow> int \<Rightarrow> u32 \<Rightarrow> nat option \<times> u32" where
  "sched_highest E Q cg cpus minload x =
    (let (_, high, x') = cpu_search_highest E Q cg
           \<lparr>cs_mask = cpus, cs_prefer = 0, cs_pri = 0, cs_limit = minload, cs_cpu = None, cs_load = 0\<rparr> x
     in (cs_cpu high, x'))"

section \<open>What the search finds\<close>

text \<open>The processors of a group in the order of the visit, and the load of a group.\<close>

fun leaves :: "'w cpu_env \<Rightarrow> cpu_group \<Rightarrow> nat list"
  and leaves_of :: "'w cpu_env \<Rightarrow> cpu_group list \<Rightarrow> nat list" where
  "leaves E (CG cpus level thread child) = leaves_of E child @ cpu_order E (cpus - \<Union> (cg_mask ` set child))"
| "leaves_of E [] = []"
| "leaves_of E (c # cs) = leaves_of E cs @ leaves E c"

definition group_load :: "'w cpu_env \<Rightarrow> (nat \<Rightarrow> 'w tdq) \<Rightarrow> nat option \<Rightarrow> cpu_group \<Rightarrow> int" where
  "group_load E Q prefer cg = (\<Sum>c\<leftarrow>leaves E cg. cpu_load Q prefer c)"

definition loads_fit :: "'w cpu_env \<Rightarrow> (nat \<Rightarrow> 'w tdq) \<Rightarrow> cpu_group \<Rightarrow> bool" where
  "loads_fit E Q cg \<longleftrightarrow> (\<forall>c. 0 \<le> tdq_load (Q c)) \<and> 256 * (\<Sum>c\<leftarrow>leaves E cg. tdq_load (Q c)) < INT_MAX \<and>
    64 * int (length (leaves E cg)) < 2 ^ 31"

text \<open>
  \<open>c\<close> lies on the best path: at every level the child or the processor that holds it has an
  eligible processor and the least (greatest) load among those that have one.
\<close>

fun best_path :: "bool \<Rightarrow> 'w cpu_env \<Rightarrow> (nat \<Rightarrow> 'w tdq) \<Rightarrow> nat option \<Rightarrow> nat set \<Rightarrow> cpu_group \<Rightarrow> nat \<Rightarrow> bool" where
  "best_path up E Q prefer el (CG cpus level thread child) c \<longleftrightarrow>
    (let rest = set (cpu_order E (cpus - \<Union> (cg_mask ` set child)));
         best = (\<lambda>load. (\<forall>g\<in>set child. el \<inter> set (leaves E g) \<noteq> {} \<longrightarrow> \<not> before up (group_load E Q prefer g) load) \<and>
                        (\<forall>d\<in>rest \<inter> el. \<not> before up (cpu_load Q prefer d) load))
     in (\<exists>g\<in>set child. best_path up E Q prefer el g c \<and> best (group_load E Q prefer g)) \<or>
        c \<in> rest \<inter> el \<and> best (cpu_load Q prefer c))"

end
