(* ===== verification/Sched_Search_Props.thy ===== *)
theory Sched_Search_Props
  imports Sched_Search
begin

text \<open>
  The search of the topology tree finds a processor exactly when an eligible one exists, and then one
  on the best path. The proof is an induction over the tree with an invariant of the loop over the
  children and processors of a group, once for both directions.
\<close>

section \<open>Loads\<close>

definition load_ok :: "int \<Rightarrow> bool" where "load_ok l \<longleftrightarrow> INT_MIN < l \<and> l < INT_MAX"

lemma leaves_of_child: "g \<in> set child \<Longrightarrow> \<exists>xs ys. leaves_of E child = xs @ leaves E g @ ys"
proof (induction child)
  case (Cons a child)
  show ?case
  proof (cases "g = a")
    case True
    then show ?thesis by (intro exI [of _ "leaves_of E child"] exI [of _ "[]"]) simp
  next
    case False
    then obtain xs ys where "leaves_of E child = xs @ leaves E g @ ys" using Cons by auto
    then show ?thesis by (intro exI [of _ xs] exI [of _ "ys @ leaves E a"]) simp
  qed
qed simp

lemma sum_list_part:
  fixes f :: "'a \<Rightarrow> int"
  assumes "\<forall>c. 0 \<le> f c"
  shows "0 \<le> (\<Sum>c\<leftarrow>xs. f c)" and "(\<Sum>c\<leftarrow>ys. f c) \<le> (\<Sum>c\<leftarrow>xs @ ys @ zs. f c)"
proof -
  have nn: "0 \<le> (\<Sum>c\<leftarrow>xs. f c)" for xs using assms by (intro sum_list_nonneg) auto
  then show "0 \<le> (\<Sum>c\<leftarrow>xs. f c)" .
  show "(\<Sum>c\<leftarrow>ys. f c) \<le> (\<Sum>c\<leftarrow>xs @ ys @ zs. f c)" using nn [of xs] nn [of zs] by simp
qed

lemma loads_fit_part:
  assumes "loads_fit E Q cg" and "leaves E cg = xs @ leaves E g @ ys"
  shows "loads_fit E Q g"
  using assms sum_list_part(2) [of "\<lambda>c. tdq_load (Q c)" "leaves E g" xs ys]
  by (simp add: loads_fit_def)

lemma loads_fit_child:
  assumes "loads_fit E Q (CG cpus level thread child)" and "g \<in> set child"
  shows "loads_fit E Q g"
proof -
  obtain xs ys where "leaves_of E child = xs @ leaves E g @ ys" using leaves_of_child assms(2) by metis
  then have "leaves E (CG cpus level thread child) =
      xs @ leaves E g @ (ys @ cpu_order E (cpus - \<Union> (cg_mask ` set child)))" by simp
  then show ?thesis by (rule loads_fit_part [OF assms(1)])
qed

lemma loads_ok:
  assumes "\<forall>c. 0 \<le> tdq_load (Q c)" and "256 * (\<Sum>c\<leftarrow>xs. tdq_load (Q c)) < INT_MAX"
    and "64 * int (length xs) < 2 ^ 31"
  shows "load_ok (\<Sum>c\<leftarrow>xs. cpu_load Q prefer c)"
proof -
  have "- 64 * int (length xs) \<le> (\<Sum>c\<leftarrow>xs. cpu_load Q prefer c) \<and>
      (\<Sum>c\<leftarrow>xs. cpu_load Q prefer c) \<le> 256 * (\<Sum>c\<leftarrow>xs. tdq_load (Q c))"
  proof (induction xs)
    case (Cons c xs)
    have "tdq_load (Q c) * 256 - 64 \<le> cpu_load Q prefer c" "cpu_load Q prefer c \<le> tdq_load (Q c) * 256"
      by (simp_all add: cpu_load_def)
    then show ?case using assms(1) [rule_format, of c] Cons by simp
  qed simp
  then show ?thesis using assms by (auto simp: load_ok_def INT_MIN_def)
qed

lemma group_load_ok: "loads_fit E Q cg \<Longrightarrow> load_ok (group_load E Q prefer cg)"
  by (auto simp: group_load_def loads_fit_def intro: loads_ok)

lemma leaf_load_ok:
  assumes "loads_fit E Q cg" and "c \<in> set (leaves E cg)"
  shows "load_ok (cpu_load Q prefer c)"
proof -
  obtain xs ys where "leaves E cg = xs @ [c] @ ys" using assms(2) by (metis append_Cons append_Nil split_list)
  then have "256 * (\<Sum>c\<leftarrow>[c]. tdq_load (Q c)) < INT_MAX" "64 * int (length [c]) < 2 ^ 31"
    using assms(1) sum_list_part(2) [of "\<lambda>c. tdq_load (Q c)" "[c]" xs ys] by (auto simp: loads_fit_def)
  then show ?thesis using loads_ok [of Q "[c]" "prefer"] assms(1) by (simp add: loads_fit_def)
qed

section \<open>The invariant of the loop\<close>

definition same_params :: "cpu_srch \<Rightarrow> cpu_srch \<Rightarrow> bool" where
  "same_params b g \<longleftrightarrow> cs_mask g = cs_mask b \<and> cs_prefer g = cs_prefer b \<and> cs_pri g = cs_pri b \<and> cs_limit g = cs_limit b"

definition elig :: "bool \<Rightarrow> (nat \<Rightarrow> 'w tdq) \<Rightarrow> cpu_srch \<Rightarrow> nat set" where
  "elig up Q b = {c. fits up (Q c) c b}"

lemma same_params_elig: "same_params b g \<Longrightarrow> elig up Q g = elig up Q b"
  by (auto simp: same_params_def elig_def fits_def)

lemma same_params_upd [simp]:
  "same_params b (g\<lparr>cs_cpu := c\<rparr>) = same_params b g" "same_params b (g\<lparr>cs_load := l\<rparr>) = same_params b g"
  "same_params b b"
  by (auto simp: same_params_def)

text \<open>The groups \<open>gs\<close> and processors \<open>cs\<close> have been visited.\<close>

definition side_inv :: "bool \<Rightarrow> 'w cpu_env \<Rightarrow> (nat \<Rightarrow> 'w tdq) \<Rightarrow> nat option \<Rightarrow> cpu_srch \<Rightarrow> cpu_group set \<Rightarrow> nat set
    \<Rightarrow> side \<Rightarrow> bool" where
  "side_inv up E Q prefer b gs cs s \<longleftrightarrow> same_params b (s_best s) \<and> same_params b (s_group s) \<and>
    (case cs_cpu (s_best s) of
       None \<Rightarrow> s_load s = (if up then INT_MIN else INT_MAX) \<and>
         (\<forall>g\<in>gs. elig up Q b \<inter> set (leaves E g) = {}) \<and> elig up Q b \<inter> cs = {}
     | Some c \<Rightarrow> ((\<exists>g\<in>gs. s_load s = group_load E Q prefer g \<and> best_path up E Q prefer (elig up Q b) g c) \<or>
           c \<in> cs \<inter> elig up Q b \<and> s_load s = cpu_load Q prefer c) \<and>
         (\<forall>g\<in>gs. elig up Q b \<inter> set (leaves E g) \<noteq> {} \<longrightarrow> \<not> before up (group_load E Q prefer g) (s_load s)) \<and>
         (\<forall>d\<in>cs \<inter> elig up Q b. \<not> before up (cpu_load Q prefer d) (s_load s)))"

lemma before_simps:
  "\<not> before up a a" "before up a b \<Longrightarrow> before up b c \<Longrightarrow> before up a c"
  "before up a b \<Longrightarrow> \<not> before up c b \<Longrightarrow> \<not> before up c a"
  by (auto simp: before_def split: if_splits)

lemma before_bound: "load_ok l \<Longrightarrow> before up l (if up then INT_MIN else INT_MAX)"
  by (simp add: load_ok_def before_def)

definition answer :: "bool \<Rightarrow> 'w cpu_env \<Rightarrow> (nat \<Rightarrow> 'w tdq) \<Rightarrow> nat option \<Rightarrow> cpu_srch \<Rightarrow> cpu_group \<Rightarrow> cpu_srch \<Rightarrow> bool" where
  "answer up E Q prefer b cg g \<longleftrightarrow> same_params b g \<and>
    (case cs_cpu g of None \<Rightarrow> elig up Q b \<inter> set (leaves E cg) = {}
     | Some c \<Rightarrow> best_path up E Q prefer (elig up Q b) cg c)"

text \<open>When the group of \<open>s\<close> answers for a new item, \<open>pick\<close> takes it in.\<close>

lemma pick_None: "cs_cpu g = None \<Longrightarrow> pick up l (s\<lparr>s_group := g\<rparr>) = s\<lparr>s_group := g\<rparr>"
  by (simp add: pick_def)

lemma pick_Some:
  assumes "cs_cpu g = Some c" and "s' = pick up l (s\<lparr>s_group := g\<rparr>)"
  shows "s_group s' = g \<and>
    (s_load s' = l \<and> cs_cpu (s_best s') = Some c \<and> (\<forall>b. same_params b (s_best s') = same_params b (s_best s)) \<and>
       (before up l (s_load s) \<or> l = s_load s) \<or>
     s' = s\<lparr>s_group := g\<rparr> \<and> \<not> before up l (s_load s))"
  using assms by (auto simp: pick_def Let_def)

lemma side_inv_None:
  assumes "side_inv up E Q prefer b gs cs s" and "cs_cpu (s_best s) = None"
  shows "s_load s = (if up then INT_MIN else INT_MAX)" and "\<forall>g\<in>gs. elig up Q b \<inter> set (leaves E g) = {}"
    and "elig up Q b \<inter> cs = {}"
  using assms by (simp_all add: side_inv_def)

text \<open>Whatever was visited before is not better than the new load, when that is taken.\<close>

lemma side_inv_rest:
  assumes inv: "side_inv up E Q prefer b gs cs s" and l: "before up l (s_load s) \<or> l = s_load s"
  shows "\<forall>g\<in>gs. elig up Q b \<inter> set (leaves E g) \<noteq> {} \<longrightarrow> \<not> before up (group_load E Q prefer g) l"
    and "\<forall>d\<in>cs \<inter> elig up Q b. \<not> before up (cpu_load Q prefer d) l"
proof -
  have *: "\<not> before up k l" if "\<not> before up k (s_load s)" for k
    using that l before_simps(3) [of up l "s_load s" k] by auto
  show "\<forall>g\<in>gs. elig up Q b \<inter> set (leaves E g) \<noteq> {} \<longrightarrow> \<not> before up (group_load E Q prefer g) l"
    "\<forall>d\<in>cs \<inter> elig up Q b. \<not> before up (cpu_load Q prefer d) l"
    using inv * unfolding side_inv_def by (cases "cs_cpu (s_best s)"; auto)+
qed

lemma pick_group:
  assumes inv: "side_inv up E Q prefer b gs cs s" and ans: "answer up E Q prefer b cg g"
    and ok: "load_ok (group_load E Q prefer cg)"
  shows "side_inv up E Q prefer b (insert cg gs) cs (pick up (group_load E Q prefer cg) (s\<lparr>s_group := g\<rparr>))"
proof (cases "cs_cpu g")
  case None
  then show ?thesis
    using inv ans by (cases "cs_cpu (s_best s)") (simp_all add: side_inv_def answer_def pick_None)
next
  case (Some c)
  let ?l = "group_load E Q prefer cg"
  define s' where "s' = pick up ?l (s\<lparr>s_group := g\<rparr>)"
  note p = pick_Some [OF Some s'_def]
  have g: "same_params b g" "best_path up E Q prefer (elig up Q b) cg c" using ans Some by (simp_all add: answer_def)
  have sb: "same_params b (s_best s)" using inv by (simp add: side_inv_def)
  show ?thesis
  proof (cases "s_load s' = ?l \<and> cs_cpu (s_best s') = Some c \<and> (\<forall>b. same_params b (s_best s') = same_params b (s_best s)) \<and>
       (before up ?l (s_load s) \<or> ?l = s_load s)")
    case True
    then have "before up ?l (s_load s) \<or> ?l = s_load s" by simp
    note rest = side_inv_rest [OF inv this]
    show ?thesis
      unfolding s'_def [symmetric] using True rest g sb p by (simp add: side_inv_def before_simps(1))
  next
    case False
    then have s': "s' = s\<lparr>s_group := g\<rparr>" "\<not> before up ?l (s_load s)" using p by blast+
    then obtain d where "cs_cpu (s_best s) = Some d"
      using side_inv_None(1) [OF inv] before_bound [OF ok, of up] by (cases "cs_cpu (s_best s)") auto
    then show ?thesis
      unfolding s'_def [symmetric] using s' inv g by (simp add: side_inv_def)
  qed
qed

lemma offer_cpu_inv:
  assumes inv: "side_inv up E Q prefer b gs cs s" and ok: "load_ok (cpu_load Q prefer c)"
  shows "side_inv up E Q prefer b gs (insert c cs) (offer_cpu up (Q c) c (cpu_load Q prefer c) rnd s)"
proof -
  let ?l = "cpu_load Q prefer c" and ?g0 = "(s_group s)\<lparr>cs_cpu := None\<rparr>"
  define g where "g = (if fits up (Q c) c ?g0 then ?g0\<lparr>cs_cpu := Some c, cs_load := ?l - rnd\<rparr> else ?g0)"
  have params: "same_params b (s_best s)" "same_params b (s_group s)" using inv by (simp_all add: side_inv_def)
  then have g: "same_params b g" by (simp add: g_def)
  have fit: "fits up (Q c) c ?g0 \<longleftrightarrow> c \<in> elig up Q b"
    using same_params_elig [of b ?g0 up Q] params by (auto simp: elig_def)
  have eq: "offer_cpu up (Q c) c ?l rnd s = pick up ?l (s\<lparr>s_group := g\<rparr>)"
    by (simp add: offer_cpu_def g_def Let_def)
  show ?thesis
  proof (cases "c \<in> elig up Q b")
    case False
    then have "cs_cpu g = None" using fit by (simp add: g_def)
    then show ?thesis
      unfolding eq using inv g False by (cases "cs_cpu (s_best s)") (simp_all add: side_inv_def pick_None)
  next
    case True
    then have gc: "cs_cpu g = Some c" using fit by (simp add: g_def)
    define s' where "s' = pick up ?l (s\<lparr>s_group := g\<rparr>)"
    note p = pick_Some [OF gc s'_def]
    show ?thesis
    proof (cases "s_load s' = ?l \<and> cs_cpu (s_best s') = Some c \<and> (\<forall>b. same_params b (s_best s') = same_params b (s_best s)) \<and>
         (before up ?l (s_load s) \<or> ?l = s_load s)")
      case t: True
      then have "before up ?l (s_load s) \<or> ?l = s_load s" by simp
      note rest = side_inv_rest [OF inv this]
      show ?thesis
        unfolding eq s'_def [symmetric] using t rest g params p True by (simp add: side_inv_def before_simps(1))
    next
      case False
      then have s': "s' = s\<lparr>s_group := g\<rparr>" "\<not> before up ?l (s_load s)" using p by blast+
      then obtain d where "cs_cpu (s_best s) = Some d"
        using side_inv_None(1) [OF inv] before_bound [OF ok, of up] by (cases "cs_cpu (s_best s)") auto
      then show ?thesis
        unfolding eq s'_def [symmetric] using s' inv g by (simp add: side_inv_def) blast
    qed
  qed
qed

section \<open>The whole tree\<close>

definition sides :: "bool \<Rightarrow> 'w cpu_env \<Rightarrow> (nat \<Rightarrow> 'w tdq) \<Rightarrow> nat option \<Rightarrow> cpu_srch option \<Rightarrow> cpu_group set \<Rightarrow> nat set
    \<Rightarrow> side option \<Rightarrow> bool" where
  "sides up E Q prefer bo gs cs so \<longleftrightarrow>
    (case bo of None \<Rightarrow> so = None | Some b \<Rightarrow> \<exists>s. so = Some s \<and> side_inv up E Q prefer b gs cs s)"

definition answers :: "bool \<Rightarrow> 'w cpu_env \<Rightarrow> (nat \<Rightarrow> 'w tdq) \<Rightarrow> nat option \<Rightarrow> cpu_srch option \<Rightarrow> cpu_group
    \<Rightarrow> cpu_srch option \<Rightarrow> bool" where
  "answers up E Q prefer bo cg go \<longleftrightarrow>
    (case bo of None \<Rightarrow> go = None | Some b \<Rightarrow> \<exists>g. go = Some g \<and> answer up E Q prefer b cg g)"

lemma sides_prefer:
  "sides up E Q prefer bo gs cs so \<Longrightarrow> map_option (\<lambda>s. cs_prefer (s_best s)) so = map_option cs_prefer bo"
  by (auto simp: sides_def side_inv_def same_params_def split: option.splits)

lemma sides_start:
  "(\<forall>b. bo = Some b \<longrightarrow> cs_cpu b = None) \<Longrightarrow> sides up E Q prefer bo {} {} (map_option (start_side up) bo)"
  by (cases bo) (simp_all add: sides_def side_inv_def start_side_def)

lemma search_cpus:
  assumes "sides False E Q (map_option cs_prefer low) low gs cs L" and "sides True E Q (map_option cs_prefer low) high gs cs H"
    and "\<forall>c\<in>set xs. load_ok (cpu_load Q (map_option cs_prefer low) c)"
  shows "\<exists>L' H' x'. fold (search_cpu Q) xs (t, L, H, x) =
      (t + (\<Sum>c\<leftarrow>xs. cpu_load Q (map_option cs_prefer low) c), L', H', x') \<and>
    sides False E Q (map_option cs_prefer low) low gs (set xs \<union> cs) L' \<and>
    sides True E Q (map_option cs_prefer low) high gs (set xs \<union> cs) H'"
  using assms
proof (induction xs arbitrary: t L H x cs)
  case (Cons c xs)
  let ?p = "map_option cs_prefer low"
  obtain v x1 where r: "sched_random x = (v, x1)" by fastforce
  let ?L = "map_option (offer_cpu False (Q c) c (cpu_load Q ?p c) (int (unat v mod 32))) L"
    and ?H = "map_option (offer_cpu True (Q c) c (cpu_load Q ?p c) (int (unat v mod 32))) H"
  have step: "search_cpu Q c (t, L, H, x) = (t + cpu_load Q ?p c, ?L, ?H, x1)"
    using sides_prefer [OF Cons.prems(1)] r by (simp add: search_cpu_def Let_def)
  have ok: "load_ok (cpu_load Q ?p c)" using Cons.prems(3) by simp
  have "sides False E Q ?p low gs (insert c cs) ?L" "sides True E Q ?p high gs (insert c cs) ?H"
    using Cons.prems(1,2) offer_cpu_inv [OF _ ok] by (auto simp: sides_def split: option.splits)
  from Cons.IH [OF this] Cons.prems(3)
  obtain L' H' x' where "fold (search_cpu Q) xs (t + cpu_load Q ?p c, ?L, ?H, x1) =
      (t + cpu_load Q ?p c + (\<Sum>c\<leftarrow>xs. cpu_load Q ?p c), L', H', x')"
    "sides False E Q ?p low gs (set xs \<union> insert c cs) L'" "sides True E Q ?p high gs (set xs \<union> insert c cs) H'"
    by fastforce
  then show ?case using step by simp
qed simp

text \<open>The statement for one group, and for the children of a group given it for each child.\<close>

definition search_spec :: "'w cpu_env \<Rightarrow> (nat \<Rightarrow> 'w tdq) \<Rightarrow> cpu_group \<Rightarrow> bool" where
  "search_spec E Q g \<longleftrightarrow> (\<forall>low high x. (\<forall>b. low = Some b \<longrightarrow> cs_cpu b = None) \<longrightarrow> (\<forall>b. high = Some b \<longrightarrow> cs_cpu b = None) \<longrightarrow>
    (\<exists>l h x'. cpu_search E Q g (low, high, x) = (group_load E Q (map_option cs_prefer low) g, l, h, x') \<and>
      answers False E Q (map_option cs_prefer low) low g l \<and> answers True E Q (map_option cs_prefer low) high g h))"

lemma answer_same:
  assumes "same_params b b'" shows "answer up E Q prefer b' cg g = answer up E Q prefer b cg g"
proof -
  have "elig up Q b' = elig up Q b" by (rule same_params_elig [OF assms])
  then show ?thesis using assms by (cases "cs_cpu g") (simp_all add: answer_def same_params_def)
qed

lemma search_specD:
  assumes "search_spec E Q g" and "\<forall>b. low = Some b \<longrightarrow> cs_cpu b = None" and "\<forall>b. high = Some b \<longrightarrow> cs_cpu b = None"
  obtains l h x' where "cpu_search E Q g (low, high, x) = (group_load E Q (map_option cs_prefer low) g, l, h, x')"
    and "answers False E Q (map_option cs_prefer low) low g l" and "answers True E Q (map_option cs_prefer low) high g h"
  using assms unfolding search_spec_def by blast

lemma leaves_of_set: "set (leaves_of E child) = (\<Union>g\<in>set child. set (leaves E g))"
  by (induction child) auto

lemma offer_group_sides:
  assumes so: "sides up E Q prefer bo gs cs so"
    and ans: "answers up E Q prefer (map_option (\<lambda>s. (s_group s)\<lparr>cs_cpu := None\<rparr>) so) g go"
    and ok: "load_ok (group_load E Q prefer g)"
  shows "sides up E Q prefer bo (insert g gs) cs (offer_group up (group_load E Q prefer g) go so)"
proof (cases bo)
  case None
  then show ?thesis using so by (auto simp: sides_def offer_group_def split: option.splits)
next
  case (Some b)
  then obtain s where s: "so = Some s" "side_inv up E Q prefer b gs cs s" using so by (auto simp: sides_def)
  then obtain g' where g': "go = Some g'" "answer up E Q prefer ((s_group s)\<lparr>cs_cpu := None\<rparr>) g g'"
    using ans by (auto simp: answers_def)
  have "same_params b ((s_group s)\<lparr>cs_cpu := None\<rparr>)" using s(2) by (simp add: side_inv_def)
  then have "answer up E Q prefer b g g'" using answer_same g'(2) by metis
  from pick_group [OF s(2) this ok] show ?thesis using Some s g' by (simp add: sides_def offer_group_def)
qed

lemma search_children_spec:
  assumes "sides False E Q (map_option cs_prefer low) low gs {} L" and "sides True E Q (map_option cs_prefer low) high gs {} H"
    and "\<forall>g\<in>set child. search_spec E Q g \<and> loads_fit E Q g"
  shows "\<exists>L' H' x'. search_children E Q child (t, L, H, x) =
      (t + (\<Sum>c\<leftarrow>leaves_of E child. cpu_load Q (map_option cs_prefer low) c), L', H', x') \<and>
    sides False E Q (map_option cs_prefer low) low (set child \<union> gs) {} L' \<and>
    sides True E Q (map_option cs_prefer low) high (set child \<union> gs) {} H'"
  using assms
proof (induction child)
  case Nil
  then show ?case by simp
next
  case (Cons g child)
  let ?p = "map_option cs_prefer low"
  obtain L1 H1 x1 where c: "search_children E Q child (t, L, H, x) = (t + (\<Sum>c\<leftarrow>leaves_of E child. cpu_load Q ?p c), L1, H1, x1)"
    "sides False E Q ?p low (set child \<union> gs) {} L1" "sides True E Q ?p high (set child \<union> gs) {} H1"
    using Cons by auto
  let ?l = "map_option (\<lambda>s. (s_group s)\<lparr>cs_cpu := None\<rparr>) L1" and ?h = "map_option (\<lambda>s. (s_group s)\<lparr>cs_cpu := None\<rparr>) H1"
  have p: "map_option cs_prefer ?l = ?p"
    using c(2) by (auto simp: sides_def side_inv_def same_params_def split: option.splits)
  obtain l h x2 where s: "cpu_search E Q g (?l, ?h, x1) = (group_load E Q ?p g, l, h, x2)"
    "answers False E Q ?p ?l g l" "answers True E Q ?p ?h g h"
  proof -
    have none: "\<forall>b. ?l = Some b \<longrightarrow> cs_cpu b = None" "\<forall>b. ?h = Some b \<longrightarrow> cs_cpu b = None" by auto
    have "search_spec E Q g" using Cons.prems(3) by simp
    from search_specD [OF this none, of x1] that p show ?thesis by metis
  qed
  have ok: "load_ok (group_load E Q ?p g)" using Cons.prems(3) group_load_ok by auto
  show ?case
    using offer_group_sides [OF c(2) s(2) ok] offer_group_sides [OF c(3) s(3) ok] c(1) s(1)
    by (simp add: group_load_def)
qed

lemma side_inv_answer:
  assumes inv: "side_inv up E Q prefer b (set child) (set (cpu_order E (cpus - \<Union> (cg_mask ` set child)))) s"
  shows "answer up E Q prefer b (CG cpus level thread child) (s_best s)"
proof (cases "cs_cpu (s_best s)")
  case None
  then show ?thesis using inv by (auto simp: side_inv_def answer_def leaves_of_set)
next
  case (Some c)
  let ?rest = "set (cpu_order E (cpus - \<Union> (cg_mask ` set child)))" and ?el = "elig up Q b"
  have w: "(\<exists>g\<in>set child. s_load s = group_load E Q prefer g \<and> best_path up E Q prefer ?el g c) \<or>
      c \<in> ?rest \<inter> ?el \<and> s_load s = cpu_load Q prefer c"
    and best: "(\<forall>g\<in>set child. ?el \<inter> set (leaves E g) \<noteq> {} \<longrightarrow> \<not> before up (group_load E Q prefer g) (s_load s)) \<and>
      (\<forall>d\<in>?rest \<inter> ?el. \<not> before up (cpu_load Q prefer d) (s_load s))"
    and params: "same_params b (s_best s)"
    using inv Some by (simp_all add: side_inv_def)
  from w have "best_path up E Q prefer ?el (CG cpus level thread child) c"
  proof
    assume "\<exists>g\<in>set child. s_load s = group_load E Q prefer g \<and> best_path up E Q prefer ?el g c"
    then obtain g where "g \<in> set child" "s_load s = group_load E Q prefer g" "best_path up E Q prefer ?el g c" by auto
    then show ?thesis using best unfolding best_path.simps Let_def by metis
  next
    assume "c \<in> ?rest \<inter> ?el \<and> s_load s = cpu_load Q prefer c"
    then show ?thesis using best unfolding best_path.simps Let_def by metis
  qed
  then show ?thesis using Some params by (simp add: answer_def)
qed

lemma search_spec: "loads_fit E Q g \<Longrightarrow> search_spec E Q g"
proof (induction g)
  case (CG cpus level thread child)
  show ?case
    unfolding search_spec_def
  proof (intro allI impI)
    fix low high :: "cpu_srch option" and x
    assume low: "\<forall>b. low = Some b \<longrightarrow> cs_cpu b = None" and high: "\<forall>b. high = Some b \<longrightarrow> cs_cpu b = None"
    let ?p = "map_option cs_prefer low" and ?g = "CG cpus level thread child"
    let ?rest = "cpu_order E (cpus - \<Union> (cg_mask ` set child))"
    have ch: "\<forall>g\<in>set child. search_spec E Q g \<and> loads_fit E Q g"
      using CG loads_fit_child [OF CG.prems] by simp
    obtain L H x1 where c: "search_children E Q child (0, map_option (start_side False) low, map_option (start_side True) high, x) =
        (0 + (\<Sum>c\<leftarrow>leaves_of E child. cpu_load Q ?p c), L, H, x1)"
      "sides False E Q ?p low (set child \<union> {}) {} L" "sides True E Q ?p high (set child \<union> {}) {} H"
      using search_children_spec [OF sides_start [OF low] sides_start [OF high] ch] by blast
    have ok: "\<forall>c\<in>set ?rest. load_ok (cpu_load Q ?p c)"
      using leaf_load_ok [OF CG.prems] by simp
    obtain L' H' x' where r: "fold (search_cpu Q) ?rest (0 + (\<Sum>c\<leftarrow>leaves_of E child. cpu_load Q ?p c), L, H, x1) =
        (0 + (\<Sum>c\<leftarrow>leaves_of E child. cpu_load Q ?p c) + (\<Sum>c\<leftarrow>?rest. cpu_load Q ?p c), L', H', x')"
      "sides False E Q ?p low (set child \<union> {}) (set ?rest \<union> {}) L'" "sides True E Q ?p high (set child \<union> {}) (set ?rest \<union> {}) H'"
      using search_cpus [OF c(2,3) ok] by blast
    have ans: "answers up E Q ?p bo ?g (map_option s_best so)"
      if "sides up E Q ?p bo (set child) (set ?rest) so" for up bo so
      using that side_inv_answer by (cases bo) (auto simp: sides_def answers_def)
    show "\<exists>l h x'. cpu_search E Q ?g (low, high, x) = (group_load E Q ?p ?g, l, h, x') \<and>
        answers False E Q ?p low ?g l \<and> answers True E Q ?p high ?g h"
      using c(1) r ans by (simp add: group_load_def)
  qed
qed

lemma best_path_leaf: "best_path up E Q prefer el cg c \<Longrightarrow> c \<in> el \<inter> set (leaves E cg)"
proof (induction cg)
  case (CG cpus level thread child)
  then show ?case by (auto simp: Let_def leaves_of_set)
qed

lemma search_one:
  assumes fit: "loads_fit E Q cg" and b: "cs_cpu b = None"
  shows "\<exists>g x'. cpu_search_lowest E Q cg b x = (group_load E Q (Some (cs_prefer b)) cg, g, x') \<and>
      answer False E Q (Some (cs_prefer b)) b cg g"
    and "\<exists>g x'. cpu_search_highest E Q cg b x = (group_load E Q None cg, g, x') \<and> answer True E Q None b cg g"
proof -
  obtain l h x' where "cpu_search E Q cg (Some b, None, x) = (group_load E Q (map_option cs_prefer (Some b)) cg, l, h, x')"
    "answers False E Q (map_option cs_prefer (Some b)) (Some b) cg l"
    by (rule search_specD [OF search_spec [OF fit], of "Some b" None x]) (use b in simp_all)
  then show "\<exists>g x'. cpu_search_lowest E Q cg b x = (group_load E Q (Some (cs_prefer b)) cg, g, x') \<and>
      answer False E Q (Some (cs_prefer b)) b cg g"
    by (auto simp: cpu_search_lowest_def answers_def)
  obtain l h x' where "cpu_search E Q cg (None, Some b, x) = (group_load E Q (map_option cs_prefer None) cg, l, h, x')"
    "answers True E Q (map_option cs_prefer None) (Some b) cg h"
    by (rule search_specD [OF search_spec [OF fit], of None "Some b" x]) (use b in simp_all)
  then show "\<exists>g x'. cpu_search_highest E Q cg b x = (group_load E Q None cg, g, x') \<and> answer True E Q None b cg g"
    by (auto simp: cpu_search_highest_def answers_def)
qed

section \<open>The two entries\<close>

definition low_ok :: "(nat \<Rightarrow> 'w tdq) \<Rightarrow> nat set \<Rightarrow> int \<Rightarrow> int \<Rightarrow> nat set" where
  "low_ok Q cpus pri maxload = {c \<in> cpus. pri < int (tdq_lowpri (Q c)) \<and> tdq_load (Q c) \<le> maxload}"

definition high_ok :: "(nat \<Rightarrow> 'w tdq) \<Rightarrow> nat set \<Rightarrow> int \<Rightarrow> nat set" where
  "high_ok Q cpus minload = {c \<in> cpus. minload \<le> tdq_load (Q c) \<and> tdq_transferable (Q c) \<noteq> 0}"

lemma sched_lowest_answer:
  assumes "loads_fit E Q cg" and "sched_lowest E Q cg cpus pri maxload prefer x = (r, x')"
  shows "case r of None \<Rightarrow> low_ok Q cpus pri maxload \<inter> set (leaves E cg) = {}
    | Some c \<Rightarrow> best_path False E Q (Some prefer) (low_ok Q cpus pri maxload) cg c"
proof -
  let ?b = "\<lparr>cs_mask = cpus, cs_prefer = prefer, cs_pri = pri, cs_limit = maxload, cs_cpu = None, cs_load = 0\<rparr>"
  have el: "elig False Q ?b = low_ok Q cpus pri maxload" by (auto simp: elig_def fits_def low_ok_def)
  obtain g x1 where "cpu_search_lowest E Q cg ?b x = (group_load E Q (Some prefer) cg, g, x1)"
    "answer False E Q (Some prefer) ?b cg g"
    using search_one(1) [OF assms(1), of ?b x] by auto
  then show ?thesis
    using assms(2) by (cases "cs_cpu g") (auto simp: sched_lowest_def answer_def el split: option.splits)
qed

lemma sched_highest_answer:
  assumes "loads_fit E Q cg" and "sched_highest E Q cg cpus minload x = (r, x')"
  shows "case r of None \<Rightarrow> high_ok Q cpus minload \<inter> set (leaves E cg) = {}
    | Some c \<Rightarrow> best_path True E Q None (high_ok Q cpus minload) cg c"
proof -
  let ?b = "\<lparr>cs_mask = cpus, cs_prefer = 0, cs_pri = 0, cs_limit = minload, cs_cpu = None, cs_load = 0\<rparr>"
  have el: "elig True Q ?b = high_ok Q cpus minload" by (auto simp: elig_def fits_def high_ok_def)
  obtain g x1 where "cpu_search_highest E Q cg ?b x = (group_load E Q None cg, g, x1)"
    "answer True E Q None ?b cg g"
    using search_one(2) [OF assms(1), of ?b x] by auto
  then show ?thesis
    using assms(2) by (cases "cs_cpu g") (auto simp: sched_highest_def answer_def el split: option.splits)
qed

text \<open>
  C32: The searches for the least and the most loaded processor are sound and complete on every
  topology: they return a processor exactly when the group has one that is allowed and eligible
  (priority and load limit; load and a transferable thread), and then one that lies, at every level of
  the tree, in the child or processor of least (greatest) load among those that have an eligible one.
\<close>

theorem search_best_path:
  assumes "loads_fit E Q cg"
  shows "(case fst (sched_lowest E Q cg cpus pri maxload pref x) of
      None \<Rightarrow> low_ok Q cpus pri maxload \<inter> set (leaves E cg) = {}
    | Some c \<Rightarrow> c \<in> low_ok Q cpus pri maxload \<inter> set (leaves E cg) \<and>
        best_path False E Q (Some pref) (low_ok Q cpus pri maxload) cg c) \<and>
    (case fst (sched_highest E Q cg cpus minload y) of
      None \<Rightarrow> high_ok Q cpus minload \<inter> set (leaves E cg) = {}
    | Some c \<Rightarrow> c \<in> high_ok Q cpus minload \<inter> set (leaves E cg) \<and>
        best_path True E Q None (high_ok Q cpus minload) cg c)"
  using sched_lowest_answer [OF assms surjective_pairing, of cpus pri maxload pref x]
    sched_highest_answer [OF assms surjective_pairing, of cpus minload y]
  by (auto split: option.splits dest: best_path_leaf)

text \<open>Four processors in two groups, all with one queue of load 1.\<close>

definition smt4 :: cpu_group where
  "smt4 = CG {0, 1, 2, 3} 3 False [CG {0, 1} 1 True [], CG {2, 3} 1 True []]"

definition cpu_env0 :: "64 word cpu_env" where
  "cpu_env0 = \<lparr>rqmd = amd64_runq, kn = freebsd, self = 0, intr_nesting = 0, cpu_top = smt4,
    tdq_cg = (\<lambda>c. if c < 2 then [CG {0, 1} 1 True [], smt4] else [CG {2, 3} 1 True [], smt4]),
    CPU_SETSIZE = 8, CG_SHARE_L2 = 2, HAVE_INLINE_FFSL = True, smp_started = True, ticks = 1000, cpu_idle_wakeup = (\<lambda>_. False),
    random = (\<lambda>_. 0), idlethread = (\<lambda>c. 100 + c), trysteal_limit = 2, always_steal = 0, panicstr = False, cold = False,
    kdb_active = False, PSOCK = 104, cpu_foreach = [0, 1, 2, 3]\<rparr>"

lemma cpu_env0_leaves: "leaves cpu_env0 smt4 = [2, 3, 0, 1]"
  by (simp add: smt4_def cpu_order_def cpu_env0_def upt_rec)

theorem search_best_path_witness:
  "loads_fit cpu_env0 (\<lambda>_. tdq0) smt4 \<and>
   (case fst (sched_lowest cpu_env0 (\<lambda>_. tdq0) smt4 {1, 3} (-1) 5 0 7) of None \<Rightarrow> False | Some c \<Rightarrow> c = 1 \<or> c = 3) \<and>
   fst (sched_highest cpu_env0 (\<lambda>_. tdq0) smt4 {0, 1, 2, 3} 2 7) = None"
proof -
  have fit: "loads_fit cpu_env0 (\<lambda>_. tdq0) smt4"
    by (simp add: loads_fit_def cpu_env0_leaves tdq0_def tdq_setup_def INT_MAX_def)
  have low: "low_ok (\<lambda>_. tdq0) {1, 3} (-1) 5 = {1, 3}" by (auto simp: low_ok_def tdq0_def tdq_setup_def)
  have high: "high_ok (\<lambda>_. tdq0) {0, 1, 2, 3} 2 = {}" by (auto simp: high_ok_def tdq0_def tdq_setup_def)
  define l where "l = fst (sched_lowest cpu_env0 (\<lambda>_. tdq0) smt4 {1, 3} (-1) 5 0 7)"
  define h where "h = fst (sched_highest cpu_env0 (\<lambda>_. tdq0) smt4 {0, 1, 2, 3} 2 7)"
  note l = conjunct1 [OF search_best_path [OF fit, where cpus = "{1, 3}" and pri = "-1" and maxload = 5 and pref = 0 and x = 7],
    folded l_def, unfolded low cpu_env0_leaves]
  note h = conjunct2 [OF search_best_path [OF fit, where cpus = "{0, 1, 2, 3}" and minload = 2 and y = 7],
    folded h_def, unfolded high cpu_env0_leaves]
  have "case l of None \<Rightarrow> False | Some c \<Rightarrow> c = 1 \<or> c = 3" using l by (cases l) auto
  moreover have "h = None" using h by (cases h) auto
  ultimately show ?thesis using fit by (simp add: l_def h_def)
qed

end
