(* ===== verification/Sched_Smp.thy ===== *)
theory Sched_Smp
  imports Sched_Search_Props
begin

text \<open>
  The scheduler across processors (\<open>src/asgn2/kern/sched_ule.c\<close>): stealing and moving threads, the
  load balancer, the idle processor's search for work, notification of remote processors and the
  choice of a processor for a thread.

  The state has the thread queue, current thread and random generator of every processor, the threads
  and the interrupts sent. The functions run with the locks they take held, so without interference;
  only \<open>tdq_idled\<close> and \<open>tdq_trysteal\<close>, which drop a lock, have an argument for what other processors do
  meanwhile. A result \<open>Inl\<close> is a fault.
\<close>

record 'w smp =
  cpus :: "nat \<Rightarrow> 'w tdq"
  thr :: threads
  curthr :: "nat \<Rightarrow> tid"
  randomval :: "nat \<Rightarrow> u32"
  balance_tdq :: "nat option"
  balance_ticks :: int
  ipis :: "nat list"
  draws :: nat

definition upd_cpu :: "nat \<Rightarrow> ('w tdq \<Rightarrow> 'w tdq) \<Rightarrow> 'w smp \<Rightarrow> 'w smp" where
  "upd_cpu c f s = s\<lparr>cpus := (cpus s)(c := f (cpus s c))\<rparr>"

definition upd_thr :: "tid \<Rightarrow> (thread \<Rightarrow> thread) \<Rightarrow> 'w smp \<Rightarrow> 'w smp" where
  "upd_thr t f s = s\<lparr>thr := upd_td (thr s) t f\<rparr>"

section \<open>The operations of one queue, in the whole state\<close>

text \<open>
  A call that may draw a lottery ticket uses the next value of \<open>random()\<close>. The queue a thread is
  removed from is that of its \<open>ts_cpu\<close>.
\<close>

definition sched_rem_on :: "'w::len word cpu_env \<Rightarrow> tid \<Rightarrow> 'w word smp \<Rightarrow> fault + 'w word smp" where
  "sched_rem_on E t s =
    (let c = ts_cpu (thr s t)
     in and_then (sched_rem (rqmd E) c (curthr s c) (thr s) (cpus s c) t (random E (draws s))) (\<lambda>(T, q).
        Inr (s\<lparr>thr := T, cpus := (cpus s)(c := q), draws := draws s + 1\<rparr>)))"

definition tdq_add_on :: "'w::len word cpu_env \<Rightarrow> nat \<Rightarrow> tid \<Rightarrow> srq_flag set \<Rightarrow> 'w word smp \<Rightarrow> 'w word smp" where
  "tdq_add_on E c t flags s =
    (let (T, q) = tdq_add (rqmd E) (kn E) c (thr s) (cpus s c) t flags
     in s\<lparr>thr := T, cpus := (cpus s)(c := q)\<rparr>)"

definition lowest_in :: "'w cpu_env \<Rightarrow> cpu_group \<Rightarrow> nat set \<Rightarrow> int \<Rightarrow> int \<Rightarrow> nat \<Rightarrow> 'w smp \<Rightarrow> nat option \<times> 'w smp" where
  "lowest_in E cg m pri maxload pref s =
    (let (r, x) = sched_lowest E (cpus s) cg m pri maxload pref (randomval s (self E))
     in (r, s\<lparr>randomval := (randomval s)(self E := x)\<rparr>))"

definition highest_in :: "'w cpu_env \<Rightarrow> cpu_group \<Rightarrow> nat set \<Rightarrow> int \<Rightarrow> 'w smp \<Rightarrow> nat option \<times> 'w smp" where
  "highest_in E cg m minload s =
    (let (r, x) = sched_highest E (cpus s) cg m minload (randomval s (self E))
     in (r, s\<lparr>randomval := (randomval s)(self E := x)\<rparr>))"

section \<open>Notification\<close>

definition tdq_notify :: "'w cpu_env \<Rightarrow> nat \<Rightarrow> tid \<Rightarrow> 'w smp \<Rightarrow> 'w smp" where
  "tdq_notify E c td s =
    (let cpu = ts_cpu (thr s td); pri = td_priority (thr s td); ctd = curthr s cpu
     in if tdq_ipipending (cpus s c) then s
        else if \<not> sched_shouldpreempt (kn E) pri (td_priority (thr s ctd)) True then s
        else if TDF_IDLETD \<in> td_flags (thr s ctd) \<and> (\<not> tdq_cpu_idle (cpus s c) \<or> cpu_idle_wakeup E cpu) then s
        else (upd_cpu c (\<lambda>q. q\<lparr>tdq_ipipending := True\<rparr>) s)\<lparr>ipis := ipis s @ [cpu]\<rparr>)"

section \<open>Stealing\<close>

definition can_steal :: "threads \<Rightarrow> nat \<Rightarrow> tid \<Rightarrow> bool" where
  "can_steal T cpu td \<longleftrightarrow> THREAD_CAN_MIGRATE (T td) \<and> THREAD_CAN_SCHED (T td) cpu"

text \<open>
  The walk over the timeshare queue: the result is the thread found and the variable \<open>first\<close>, which is
  the last thread seen.
\<close>

fun steal_queue :: "threads \<Rightarrow> nat \<Rightarrow> tid list \<Rightarrow> tid option \<Rightarrow> tid option \<times> tid option" where
  "steal_queue T cpu [] first = (None, first)"
| "steal_queue T cpu (td # q) first =
    (if first \<noteq> None \<and> can_steal T cpu td then (Some td, first) else steal_queue T cpu q (Some td))"

fun steal_bits ::
    "'w::len word runq_md \<Rightarrow> threads \<Rightarrow> 'w word runq \<Rightarrow> nat \<Rightarrow> nat \<Rightarrow> nat list \<Rightarrow> tid option \<Rightarrow> tid option \<times> tid option" where
  "steal_bits md T rq cpu i [] first = (None, first)"
| "steal_bits md T rq cpu i (j # js) first =
    (if rqb_bits rq ! i AND push_bit j 1 = 0 then steal_bits md T rq cpu i js first
     else case steal_queue T cpu (rq_queues rq ! (j + push_bit (RQB_L2BPW md) i)) first of
            (Some td, f) \<Rightarrow> (Some td, f)
          | (None, f) \<Rightarrow> steal_bits md T rq cpu i js f)"

fun steal_words ::
    "'w::len word runq_md \<Rightarrow> threads \<Rightarrow> 'w word runq \<Rightarrow> nat \<Rightarrow> nat list \<Rightarrow> nat \<Rightarrow> tid option \<Rightarrow> tid option \<times> tid option" where
  "steal_words md T rq cpu [] b first = (None, first)"
| "steal_words md T rq cpu (i # is) b first =
    (if rqb_bits rq ! i = 0 then steal_words md T rq cpu is 0 first
     else let b1 = (if b = 0 then RQB_FFS md (rqb_bits rq ! i) else b)
          in case steal_bits md T rq cpu i [b1..<RQB_BPW md] first of
               (Some td, f) \<Rightarrow> (Some td, f)
             | (None, f) \<Rightarrow> steal_words md T rq cpu is 0 f)"

definition runq_steal_from ::
    "'w::len word runq_md \<Rightarrow> threads \<Rightarrow> 'w word runq \<Rightarrow> nat \<Rightarrow> nat \<Rightarrow> tid option" where
  "runq_steal_from md T rq cpu start =
    (let last = (\<lambda>first. case first of None \<Rightarrow> None | Some td \<Rightarrow> if can_steal T cpu td then Some td else None)
     in case steal_words md T rq cpu [RQB_WORD md start..<RQB_LEN md] (start mod RQB_BPW md) None of
          (Some td, _) \<Rightarrow> Some td
        | (None, first) \<Rightarrow>
            if start \<noteq> 0
            then (case steal_words md T rq cpu [RQB_WORD md 0..<RQB_LEN md] 0 first of
                    (Some td, _) \<Rightarrow> Some td
                  | (None, first') \<Rightarrow> last first')
            else last first)"

definition runq_steal :: "'w::len word runq_md \<Rightarrow> threads \<Rightarrow> 'w word runq \<Rightarrow> nat \<Rightarrow> tid option" where
  "runq_steal md T rq cpu =
    find (can_steal T cpu) (concat (map (\<lambda>w.
      if rqb_bits rq ! w = 0 then []
      else concat (map (\<lambda>b. if rqb_bits rq ! w AND push_bit b 1 = 0 then []
                           else rq_queues rq ! (b + push_bit (RQB_L2BPW md) w)) [0..<RQB_BPW md])) [0..<RQB_LEN md]))"

text \<open>The lottery queue is not looked at.\<close>

definition tdq_steal :: "'w::len word runq_md \<Rightarrow> threads \<Rightarrow> 'w word tdq \<Rightarrow> nat \<Rightarrow> tid option" where
  "tdq_steal md T tdq cpu =
    (case runq_steal md T (tdq_realtime tdq) cpu of
       Some td \<Rightarrow> Some td
     | None \<Rightarrow>
         (case runq_steal_from md T (tdq_timeshare tdq) cpu (tdq_ridx tdq) of
            Some td \<Rightarrow> Some td
          | None \<Rightarrow> runq_steal md T (tdq_idle tdq) cpu))"

definition tdq_move :: "'w::len word cpu_env \<Rightarrow> nat \<Rightarrow> nat \<Rightarrow> 'w word smp \<Rightarrow> fault + (tid option \<times> 'w word smp)" where
  "tdq_move E source dest s =
    (case tdq_steal (rqmd E) (thr s) (cpus s source) dest of
       None \<Rightarrow> Inr (None, s)
     | Some td \<Rightarrow>
         and_then (sched_rem_on E td s) (\<lambda>s1.
         Inr (Some td, tdq_add_on E dest td {SRQ_YIELDING} (upd_thr td (\<lambda>x. x\<lparr>ts_cpu := dest\<rparr>) s1))))"

section \<open>The load balancer\<close>

definition sched_balance_pair ::
    "'w::len word cpu_env \<Rightarrow> nat \<Rightarrow> nat \<Rightarrow> 'w word smp \<Rightarrow> fault + (bool \<times> 'w word smp)" where
  "sched_balance_pair E high low s =
    (if tdq_transferable (cpus s high) \<noteq> 0 \<and> tdq_load (cpus s high) > tdq_load (cpus s low)
     then and_then (tdq_move E high low s) (\<lambda>(r, s1).
            case r of None \<Rightarrow> Inr (False, s1)
            | Some td \<Rightarrow> Inr (True, if low \<noteq> self E then tdq_notify E low td s1 else s1))
     else Inr (False, s))"

text \<open>
  The loop of \<open>sched_balance_group\<close>: at its head with the donors left, or at \<open>nextlow\<close> with the donor,
  the receivers left and \<open>anylow\<close>. The first argument bounds the turns.
\<close>

fun balance_loop ::
    "'w::len word cpu_env \<Rightarrow> cpu_group \<Rightarrow> nat \<Rightarrow> nat set \<Rightarrow> (nat \<times> nat set \<times> bool) option \<Rightarrow> 'w word smp
      \<Rightarrow> fault + 'w word smp" where
  "balance_loop E cg 0 hmask st s = Inl Diverges"
| "balance_loop E cg (Suc n) hmask None s =
    (case highest_in E cg hmask 2 s of
       (None, s1) \<Rightarrow> Inr s1
     | (Some high, s1) \<Rightarrow>
         (let hmask1 = hmask - {high}
          in if hmask1 = {} then Inr s1 else balance_loop E cg n hmask1 (Some (high, hmask1, True)) s1))"
| "balance_loop E cg (Suc n) hmask (Some (high, lmask, anylow)) s =
    (case lowest_in E cg lmask (-1) (tdq_load (cpus s high) - 1) high s of
       (None, s1) \<Rightarrow> if anylow then Inr s1 else balance_loop E cg n hmask None s1
     | (Some low, s1) \<Rightarrow>
         and_then (sched_balance_pair E high low s1) (\<lambda>(moved, s2).
         if moved then balance_loop E cg n (hmask - {low}) None s2
         else balance_loop E cg n hmask (Some (high, lmask - {low}, False)) s2))"

definition balance_turns :: "nat \<Rightarrow> nat" where
  "balance_turns N = N * (N + 2) + 1"

definition sched_balance_group :: "'w::len word cpu_env \<Rightarrow> cpu_group \<Rightarrow> 'w word smp \<Rightarrow> fault + 'w word smp" where
  "sched_balance_group E cg s =
    balance_loop E cg (balance_turns (CPU_SETSIZE E)) {..<CPU_SETSIZE E} None s"

definition sched_balance :: "'w::len word cpu_env \<Rightarrow> 'w word smp \<Rightarrow> fault + 'w word smp" where
  "sched_balance E s =
    (let k = kn E
     in if \<not> smp_started E \<or> rebalance k = 0 then Inr s
        else if balance_interval k = 0 then Inl Div_by_zero
        else let (v, x) = sched_random (randomval s (self E));
                 bt = s32_of (max_u (balance_interval k sdiv 2) 1 + int (unat v) mod u32_of (balance_interval k))
             in sched_balance_group E (cpu_top E)
                  (s\<lparr>randomval := (randomval s)(self E := x), balance_ticks := bt\<rparr>))"

section \<open>An idle processor looks for work\<close>

text \<open>
  \<open>others\<close> is what the other processors do to the state right after a search and while the two locks
  are awaited; its first argument tells these moments apart. The list is the group searched next and
  its parents. The result: the value returned, whether \<open>mi_switch\<close> is called, and the state.
\<close>

definition switchcnt :: "'w tdq \<Rightarrow> int" where
  "switchcnt q = tdq_switchcnt q + tdq_oldswitchcnt q"

definition no_donor :: "'w cpu_env \<Rightarrow> 'w tdq \<Rightarrow> bool" where
  "no_donor E q \<longleftrightarrow> tdq_load q < steal_thresh (kn E) \<or> tdq_transferable q = 0"

fun idle_loop ::
    "'w::len word cpu_env \<Rightarrow> (nat \<Rightarrow> 'w word smp \<Rightarrow> 'w word smp) \<Rightarrow> nat \<Rightarrow> nat \<Rightarrow> cpu_group list \<Rightarrow> nat set \<Rightarrow> int
      \<Rightarrow> 'w word smp \<Rightarrow> fault + (int \<times> bool \<times> 'w word smp)" where
  "idle_loop E others c 0 path m cnt s = Inl Diverges"
| "idle_loop E others c (Suc n) [] m cnt s = Inr (1, False, s)"
| "idle_loop E others c (Suc n) (cg # path) m cnt s =
    (let (r, s0) = highest_in E cg m (steal_thresh (kn E)) s;
         s1 = others (2 * n + 1) s0
     in if tdq_load (cpus s1 c) \<noteq> 0 then Inr (0, False, s1)
        else case r of
               None \<Rightarrow> if path = [] then Inr (1, False, s1) else idle_loop E others c n path m cnt s1
             | Some cpu \<Rightarrow>
                 if no_donor E (cpus s1 cpu)
                 then idle_loop E others c n (tdq_cg E c) m (switchcnt (cpus s1 c)) s1
                 else
                   (let s2 = others (2 * n) s1
                    in if tdq_load (cpus s2 c) \<noteq> 0 then Inr (0, True, s2)
                       else if no_donor E (cpus s2 cpu) \<or> cnt \<noteq> switchcnt (cpus s2 c)
                       then idle_loop E others c n (tdq_cg E c) m (switchcnt (cpus s2 c)) s2
                       else and_then (tdq_move E cpu c s2) (\<lambda>(td, s3).
                              if td \<noteq> None then Inr (0, True, s3)
                              else idle_loop E others c n (cg # path) (m - {cpu}) cnt s3)))"

definition tdq_idled ::
    "'w::len word cpu_env \<Rightarrow> (nat \<Rightarrow> 'w word smp \<Rightarrow> 'w word smp) \<Rightarrow> nat \<Rightarrow> nat \<Rightarrow> 'w word smp
      \<Rightarrow> fault + (int \<times> bool \<times> 'w word smp)" where
  "tdq_idled E others turns c s =
    (if \<not> smp_started E \<or> steal_idle (kn E) = 0 \<or> tdq_cg E c = [] then Inr (1, False, s)
     else idle_loop E others c turns (tdq_cg E c) ({..<CPU_SETSIZE E} - {self E}) (switchcnt (cpus s c)) s)"

fun trysteal_loop ::
    "'w::len word cpu_env \<Rightarrow> (nat \<Rightarrow> 'w word smp \<Rightarrow> 'w word smp) \<Rightarrow> nat \<Rightarrow> nat \<Rightarrow> int \<Rightarrow> cpu_group list \<Rightarrow> nat set
      \<Rightarrow> 'w word smp \<Rightarrow> fault + 'w word smp" where
  "trysteal_loop E others c 0 i path m s = Inl Diverges"
| "trysteal_loop E others c (Suc n) i [] m s = Inr s"
| "trysteal_loop E others c (Suc n) i (cg # path) m s =
    (let (r, s0) = highest_in E cg m (steal_thresh (kn E)) s;
         s1 = others (2 * n + 1) s0
     in if tdq_load (cpus s1 c) > 0 then Inr s1
        else case r of
               None \<Rightarrow> if path = [] \<or> i + 1 > trysteal_limit E then Inr s1 else trysteal_loop E others c n (i + 1) path m s1
             | Some cpu \<Rightarrow>
                 if no_donor E (cpus s1 cpu) then trysteal_loop E others c n i (cg # path) m s1
                 else
                   (let s2 = others (2 * n) s1
                    in if tdq_load (cpus s2 c) > 0 \<or> no_donor E (cpus s2 cpu) then Inr s2
                       else and_then (tdq_move E cpu c s2) (\<lambda>(td, s3). Inr s3)))"

definition tdq_trysteal ::
    "'w::len word cpu_env \<Rightarrow> (nat \<Rightarrow> 'w word smp \<Rightarrow> 'w word smp) \<Rightarrow> nat \<Rightarrow> nat \<Rightarrow> 'w word smp \<Rightarrow> fault + 'w word smp" where
  "tdq_trysteal E others turns c s =
    (if \<not> smp_started E \<or> trysteal_limit E = 0 \<or> tdq_cg E c = [] then Inr s
     else trysteal_loop E others c turns 1 (tdq_cg E c) ({..<CPU_SETSIZE E} - {self E}) s)"

section \<open>Choosing a processor for a thread\<close>

definition sched_setcpu :: "tid \<Rightarrow> nat \<Rightarrow> 'w smp \<Rightarrow> 'w smp" where
  "sched_setcpu t cpu s = upd_thr t (\<lambda>x. x\<lparr>ts_cpu := cpu\<rparr>) s"

definition SCHED_AFFINITY :: "'w cpu_env \<Rightarrow> thread \<Rightarrow> nat \<Rightarrow> bool" where
  "SCHED_AFFINITY E td t \<longleftrightarrow> ts_rltick td > ticks E - int t * affinity (kn E)"

text \<open>The last group on the way up whose cache is still warm.\<close>

definition last_cache :: "'w cpu_env \<Rightarrow> thread \<Rightarrow> cpu_group list \<Rightarrow> cpu_group option" where
  "last_cache E td path =
    (case rev (filter (\<lambda>cg. \<not> cg_thread cg \<and> SCHED_AFFINITY E td (cg_level cg)) path) of [] \<Rightarrow> None | cg # _ \<Rightarrow> Some cg)"

text \<open>The searches, from near to far; that the last one fails is asserted not to happen.\<close>

definition search_lowest :: "'w::len word cpu_env \<Rightarrow> tid \<Rightarrow> 'w word smp \<Rightarrow> fault + (nat \<times> 'w word smp)" where
  "search_lowest E t s =
    (let td = thr s t; k = kn E; pri = int (td_priority td); here = self E; top = cpu_top E;
         (cpu1, s1) =
           (case last_cache E td (tdq_cg E (ts_cpu td)) of
              None \<Rightarrow> (None, s)
            | Some cg \<Rightarrow>
                if cg \<noteq> top \<and> cg_mask cg \<noteq> cg_mask top
                then lowest_in E cg (td_cpuset td) (max pri (int (PRI_MAX_TIMESHARE k))) INT_MAX (ts_cpu td) s
                else (None, s));
         (cpu2, s2) = (if cpu1 = None then lowest_in E top (td_cpuset td) pri INT_MAX (ts_cpu td) s1 else (cpu1, s1));
         (cpu3, s3) = (if cpu2 = None then lowest_in E top (td_cpuset td) (-1) INT_MAX (ts_cpu td) s2 else (cpu2, s2))
     in case cpu3 of
          None \<Rightarrow> Inl Kernel_panic
        | Some cpu \<Rightarrow>
            Inr (if THREAD_CAN_SCHED td here \<and> int (tdq_lowpri (cpus s3 here)) > pri \<and>
                    tdq_lowpri (cpus s3 cpu) < PRI_MIN_IDLE k \<and> tdq_load (cpus s3 here) \<le> tdq_load (cpus s3 cpu) + 1
                 then here else cpu, s3))"

definition sched_pickcpu :: "'w::len word cpu_env \<Rightarrow> tid \<Rightarrow> srq_flag set \<Rightarrow> 'w word smp \<Rightarrow> fault + (nat \<times> 'w word smp)" where
  "sched_pickcpu E t flags s =
    (let td = thr s t; k = kn E; here = self E
     in if \<not> smp_started E then Inr (here, s)
        else if SRQ_OURSELF \<in> flags \<or> \<not> THREAD_CAN_MIGRATE td then Inr (ts_cpu td, s)
        else
          (let intr = (td_priority td \<le> PRI_MAX_ITHD k \<and> THREAD_CAN_SCHED td here \<and> intr_nesting E \<noteq> 0 \<and> ts_cpu td \<noteq> here);
               s1 = (if intr then upd_thr t (\<lambda>x. x\<lparr>ts_cpu := here\<rparr>) s else s);
               near = ts_cpu (thr s1 t);
               idle = (\<lambda>c. tdq_lowpri (cpus s1 c) \<ge> PRI_MIN_IDLE k)
           in if intr \<and> tdq_lowpri (cpus s1 here) > td_priority td then Inr (here, s1)
              else if THREAD_CAN_SCHED td near \<and> idle near \<and> SCHED_AFFINITY E td (CG_SHARE_L2 E)
              then (case tdq_cg E near of
                      [] \<Rightarrow> Inl Null_deref
                    | cg # _ \<Rightarrow>
                        if cg_thread cg \<longrightarrow> list_all (\<lambda>c. c \<in> cg_mask cg \<longrightarrow> idle c) [0..<Suc (mp_maxid k)]
                        then Inr (near, s1) else search_lowest E t s1)
              else search_lowest E t s1))"

section \<open>Setting up\<close>

text \<open>\<open>present\<close> lists the processors of \<open>CPU_FOREACH\<close>.\<close>

definition sched_setup_smp :: "'w::len word cpu_env \<Rightarrow> nat list \<Rightarrow> 'w word smp \<Rightarrow> fault + 'w word smp" where
  "sched_setup_smp E present s =
    (if list_ex (\<lambda>i. tdq_cg E i = []) present then Inl Kernel_panic
     else sched_balance E (s\<lparr>balance_tdq := Some (self E), cpus := (\<lambda>i. if List.member present i then tdq_setup (rqmd E) (cpus s i) else cpus s i)\<rparr>))"

definition sched_setup :: "'w::len word cpu_env \<Rightarrow> nat list \<Rightarrow> tid \<Rightarrow> 'w word smp \<Rightarrow> fault + 'w word smp" where
  "sched_setup E present thread0 s =
    and_then (sched_setup_smp E present s) (\<lambda>s1.
    Inr (upd_cpu (self E) (\<lambda>q. (tdq_load_add q (thr s1 thread0))\<lparr>tdq_lowpri := td_priority (thr s1 thread0)\<rparr>) s1))"

end
