(* ===== verification/Sched_Steal_Props.thy ===== *)
theory Sched_Steal_Props
  imports Sched_Smp
begin

text \<open>
  Stealing: the scans over bits and words visit the threads in the order of their queues, so that both
  walks become searches of one list; what is stolen, and what is never stolen.
\<close>

section \<open>The threads from a queue on\<close>

definition threads_from :: "'w runq \<Rightarrow> nat \<Rightarrow> tid list" where
  "threads_from rq start = concat (map (\<lambda>i. rq_queues rq ! i) [start..<RQ_NQS])"

lemma threads_from_set: "set (threads_from rq 0) = on_runq rq"
  by (auto simp: threads_from_def on_runq_def)

lemma threads_from_split: "start \<le> n \<Longrightarrow> n \<le> RQ_NQS \<Longrightarrow>
    threads_from rq start = concat (map (\<lambda>i. rq_queues rq ! i) [start..<n]) @ threads_from rq n"
  by (metis concat_append le_Suc_ex map_append threads_from_def upt_add_eq_append)

lemma clear_bit_empty:
  fixes md :: "'w::len word runq_md"
  assumes ok: "runq_ok md rq" and w: "w < RQB_LEN md" and b: "b < RQB_BPW md"
    and clear: "rqb_bits rq ! w AND push_bit b 1 = 0"
  shows "rq_queues rq ! (b + push_bit (RQB_L2BPW md) w) = []"
proof -
  have md: "runq_md_ok md" using runq_okD(4) [OF ok] by (simp add: bits_ok_def)
  note D = runq_md_okD(1,2,3) [OF md]
  have idx: "b + push_bit (RQB_L2BPW md) w = w * RQB_BPW md + b" using D(3) by (simp add: push_bit_eq_mult)
  have "Suc w * RQB_BPW md \<le> RQB_LEN md * RQB_BPW md" using w by (intro mult_le_mono1) simp
  then have "w * RQB_BPW md + b < RQB_LEN md * RQB_BPW md" using b by simp
  then have lt: "w * RQB_BPW md + b < RQ_NQS" using D(1) by (simp add: mult.commute)
  have "\<not> bit (rqb_bits rq ! w) b"
  proof
    assume "bit (rqb_bits rq ! w) b"
    then have "bit (rqb_bits rq ! w AND push_bit b 1) b" using b D(2) by (simp add: bit_and_iff bit_single)
    then show False using clear by simp
  qed
  then have "\<not> bit_set md (rqb_bits rq) (w * RQB_BPW md + b)" using b by (simp add: bit_set_def)
  then show ?thesis using runq_okD(5) [OF ok lt] lt idx by (simp add: inhabited_def add.commute)
qed

section \<open>The linear walk\<close>

lemma upt_shift: "map (\<lambda>j. a + j) [b..<c] = [a + b..<a + c]" for a :: nat
  by (induction c) auto

lemma upt_words: "[0..<n * B] = concat (map (\<lambda>w. map (\<lambda>b. w * B + b) [0..<B]) [0..<n])" for B :: nat
proof (induction n)
  case (Suc n)
  have "[0..<Suc n * B] = [0..<n * B] @ [n * B..<n * B + B]"
    by (metis add.commute le_add1 le_add_same_cancel1 mult_Suc upt_add_eq_append zero_le)
  moreover have "[n * B..<n * B + B] = map (\<lambda>b. n * B + b) [0..<B]" by (simp add: map_add_upt add.commute)
  ultimately show ?case using Suc by simp
qed simp

lemma concat_map_concat: "concat (map f (concat xss)) = concat (map (\<lambda>xs. concat (map f xs)) xss)"
  by (induction xss) simp_all

lemma runq_steal_eq:
  fixes md :: "'w::len word runq_md"
  assumes ok: "runq_ok md rq"
  shows "runq_steal md T rq cpu = find (can_steal T cpu) (threads_from rq 0)"
proof -
  have md: "runq_md_ok md" using runq_okD(4) [OF ok] by (simp add: bits_ok_def)
  note D = runq_md_okD(1,2,3) [OF md]
  let ?q = "\<lambda>w b. rq_queues rq ! (w * RQB_BPW md + b)"
  have idx: "b + push_bit (RQB_L2BPW md) w = w * RQB_BPW md + b" for w b using D(3) by (simp add: push_bit_eq_mult)
  have inner: "(if rqb_bits rq ! w = 0 then []
      else concat (map (\<lambda>b. if rqb_bits rq ! w AND push_bit b 1 = 0 then []
                           else rq_queues rq ! (b + push_bit (RQB_L2BPW md) w)) [0..<RQB_BPW md])) =
      concat (map (?q w) [0..<RQB_BPW md])" if w: "w < RQB_LEN md" for w
  proof (cases "rqb_bits rq ! w = 0")
    case True
    then have "?q w b = []" if "b < RQB_BPW md" for b using clear_bit_empty [OF ok w that] idx by simp
    then show ?thesis using True by simp
  next
    case False
    have "(if rqb_bits rq ! w AND push_bit b 1 = 0 then [] else rq_queues rq ! (b + push_bit (RQB_L2BPW md) w)) = ?q w b"
      if "b < RQB_BPW md" for b using clear_bit_empty [OF ok w that] idx by (auto simp: add.commute)
    then show ?thesis using False by (auto intro!: arg_cong [where f = concat])
  qed
  have "threads_from rq 0 = concat (map (\<lambda>i. rq_queues rq ! i) [0..<RQB_LEN md * RQB_BPW md])"
    using D(1) by (simp add: threads_from_def mult.commute)
  also have "\<dots> = concat (map (\<lambda>w. concat (map (?q w) [0..<RQB_BPW md])) [0..<RQB_LEN md])"
    unfolding upt_words concat_map_concat by (simp add: comp_def)
  finally have eq: "threads_from rq 0 = concat (map (\<lambda>w. concat (map (?q w) [0..<RQB_BPW md])) [0..<RQB_LEN md])" .
  show ?thesis
    unfolding runq_steal_def eq
    by (intro arg_cong [where f = "\<lambda>x. find (can_steal T cpu) (concat x)"] map_cong refl inner) simp
qed

section \<open>The rotating walk\<close>

lemma steal_queue_append:
  "steal_queue T cpu (q @ q') first = (case steal_queue T cpu q first of
      (Some td, f) \<Rightarrow> (Some td, f) | (None, f) \<Rightarrow> steal_queue T cpu q' f)"
  by (induction T cpu q first rule: steal_queue.induct) auto

lemma steal_queue_Some: "steal_queue T cpu q (Some f) = (case find (can_steal T cpu) q of
    Some td \<Rightarrow> (Some td, Some (last (f # takeWhile (\<lambda>u. \<not> can_steal T cpu u) q)))
  | None \<Rightarrow> (None, Some (last (f # q))))"
  by (induction q arbitrary: f) (auto split: option.splits)

lemma steal_bits_eq:
  assumes ok: "runq_ok md rq" and i: "i < RQB_LEN md" and js: "\<forall>j\<in>set js. j < RQB_BPW md"
  shows "steal_bits md T rq cpu i js first =
    steal_queue T cpu (concat (map (\<lambda>j. rq_queues rq ! (j + push_bit (RQB_L2BPW md) i)) js)) first"
  using js
proof (induction js arbitrary: first)
  case (Cons j js)
  then show ?case
    using clear_bit_empty [OF ok i, of j] by (auto simp: steal_queue_append split: prod.splits option.splits)
qed simp

text \<open>The bits from \<open>b\<close> on, or from the lowest bit set when \<open>b\<close> is 0, and the words after it.\<close>

lemma steal_words_eq:
  fixes md :: "'w::len word runq_md"
  assumes ok: "runq_ok md rq" and w: "w + n = RQB_LEN md" and b: "b < RQB_BPW md"
  shows "steal_words md T rq cpu [w..<w + n] b first =
    steal_queue T cpu (if n = 0 then [] else threads_from rq (w * RQB_BPW md + b)) first"
  using w b
proof (induction n arbitrary: w b first)
  case (Suc n)
  let ?B = "RQB_BPW md" and ?bits = "rqb_bits rq ! w"
  have md: "runq_md_ok md" using runq_okD(4) [OF ok] by (simp add: bits_ok_def)
  note D = runq_md_okD [OF md]
  have idx: "b + push_bit (RQB_L2BPW md) w = w * ?B + b" for b using D(3) by (simp add: push_bit_eq_mult)
  have w_lt: "w < RQB_LEN md" using Suc.prems by simp
  have "Suc w * ?B \<le> RQB_LEN md * ?B" using w_lt by (intro mult_le_mono1) simp
  then have le: "Suc w * ?B \<le> RQ_NQS" using D(1) by (simp add: mult.commute)
  have B0: "0 < ?B" using Suc.prems(2) by simp
  have rest: "steal_words md T rq cpu [Suc w..<Suc w + n] 0 f = steal_queue T cpu (threads_from rq (Suc w * ?B)) f" for f
  proof (cases "n = 0")
    case True
    then have "Suc w * ?B = RQ_NQS" using Suc.prems(1) D(1) by (simp add: mult.commute)
    then have "threads_from rq (Suc w * ?B) = []" by (simp add: threads_from_def)
    then show ?thesis using True by simp
  next
    case False
    then show ?thesis using Suc.IH [of "Suc w" 0 f] Suc.prems(1) B0 by (simp del: upt_Suc)
  qed
  have split: "threads_from rq (w * ?B + b) =
      concat (map (\<lambda>j. rq_queues rq ! (w * ?B + j)) [b..<?B]) @ threads_from rq (Suc w * ?B)"
  proof -
    have "[w * ?B + b..<Suc w * ?B] = map (\<lambda>j. w * ?B + j) [b..<?B]"
      using upt_shift [of "w * ?B" b ?B] by (simp add: add.commute)
    then show ?thesis
      using threads_from_split [of "w * ?B + b" "Suc w * ?B" rq] le Suc.prems(2) by (simp add: comp_def)
  qed
  have upt: "[w..<w + Suc n] = w # [Suc w..<Suc w + n]" by (simp add: upt_rec)
  show ?case
  proof (cases "?bits = 0")
    case True
    have "rq_queues rq ! (w * ?B + j) = []" if "j < ?B" for j
      using clear_bit_empty [OF ok w_lt that] True idx by simp
    then have "concat (map (\<lambda>j. rq_queues rq ! (w * ?B + j)) [b..<?B]) = []" by simp
    note nil = this
    show ?thesis using True rest unfolding upt split nil by (simp del: upt_Suc)
  next
    case False
    define b1 where "b1 = (if b = 0 then RQB_FFS md ?bits else b)"
    have below: "rq_queues rq ! (w * ?B + j) = []" if "b \<le> j" "j < b1" for j
    proof -
      have "b = 0" "j < RQB_FFS md ?bits" using that by (auto simp: b1_def split: if_splits)
      then have "\<not> bit ?bits j" using D(5) [OF False] by simp
      have "bit ?bits (RQB_FFS md ?bits)" by (rule D(4) [OF False])
      then have "RQB_FFS md ?bits < ?B" using D(2) by (metis bit_imp_le_length)
      then have j: "j < ?B" using \<open>j < RQB_FFS md ?bits\<close> by simp
      have "?bits AND push_bit j 1 = 0"
        using \<open>\<not> bit ?bits j\<close> by (intro bit_word_eqI) (auto simp: bit_and_iff bit_single)
      then show ?thesis using clear_bit_empty [OF ok w_lt j] idx by simp
    qed
    have b1: "b \<le> b1" "b1 \<le> ?B"
    proof -
      have "bit ?bits (RQB_FFS md ?bits)" by (rule D(4) [OF False])
      then have "RQB_FFS md ?bits < ?B" using D(2) by (metis bit_imp_le_length)
      then show "b \<le> b1" "b1 \<le> ?B" using Suc.prems(2) by (auto simp: b1_def)
    qed
    have "[b..<?B] = [b..<b1] @ [b1..<?B]" using b1 by (metis le_Suc_ex upt_add_eq_append)
    then have skip: "concat (map (\<lambda>j. rq_queues rq ! (w * ?B + j)) [b..<?B]) =
        concat (map (\<lambda>j. rq_queues rq ! (w * ?B + j)) [b1..<?B])"
      using below by simp
    have "steal_bits md T rq cpu w [b1..<?B] first =
        steal_queue T cpu (concat (map (\<lambda>j. rq_queues rq ! (w * ?B + j)) [b1..<?B])) first"
      using steal_bits_eq [OF ok w_lt, of "[b1..<?B]"] idx by simp
    then show ?thesis
      using False rest unfolding upt split skip
      by (simp add: b1_def [symmetric] steal_queue_append del: upt_Suc split: prod.splits option.splits)
  qed
qed simp

definition rotated :: "'w runq \<Rightarrow> nat \<Rightarrow> tid list" where
  "rotated rq start = threads_from rq start @ (if start = 0 then [] else threads_from rq 0)"

lemma steal_from_words:
  fixes md :: "'w::len word runq_md"
  assumes ok: "runq_ok md rq" and start: "start < RQ_NQS"
  shows "steal_words md T rq cpu [RQB_WORD md start..<RQB_LEN md] (start mod RQB_BPW md) first =
    steal_queue T cpu (threads_from rq start) first"
proof -
  have md: "runq_md_ok md" using runq_okD(4) [OF ok] by (simp add: bits_ok_def)
  note c = runq_md_cell [OF md start]
  define n where "n = RQB_LEN md - start div RQB_BPW md"
  have n: "start div RQB_BPW md + n = RQB_LEN md" "n \<noteq> 0" using c(3) by (simp_all add: n_def)
  have "start mod RQB_BPW md < RQB_BPW md" using c(4) runq_md_okD(2) [OF md] by simp
  from steal_words_eq [OF ok n(1) this, of T cpu first] show ?thesis
    unfolding n(1) c(1) using n(2) by (simp add: mult.commute)
qed

lemma steal_queue_None: "steal_queue T cpu q None = (case q of [] \<Rightarrow> (None, None) | t # q' \<Rightarrow> steal_queue T cpu q' (Some t))"
  by (cases q) simp_all

text \<open>The first thread seen is passed over, unless it is the only one.\<close>

lemma steal_from_eq:
  fixes md :: "'w::len word runq_md"
  assumes ok: "runq_ok md rq" and start: "start < RQ_NQS"
  shows "runq_steal_from md T rq cpu start = (case rotated rq start of [] \<Rightarrow> None
    | t # q \<Rightarrow> if q = [] \<and> can_steal T cpu t then Some t else find (can_steal T cpu) q)"
proof -
  let ?can = "can_steal T cpu" and ?V = "rotated rq start"
  define chk where "chk = (\<lambda>first. case first of None \<Rightarrow> None | Some td \<Rightarrow> if ?can td then Some td else None)"
  have "(0::nat) < RQ_NQS" by (simp add: RQ_NQS_def)
  note two = steal_from_words [OF ok this, of T cpu] steal_from_words [OF ok start, of T cpu None]
  have "runq_steal_from md T rq cpu start =
      (case steal_queue T cpu ?V None of (Some td, _) \<Rightarrow> Some td | (None, first) \<Rightarrow> chk first)"
  proof -
    have unf: "runq_steal_from md T rq cpu start =
      (case steal_words md T rq cpu [RQB_WORD md start..<RQB_LEN md] (start mod RQB_BPW md) None of
          (Some td, _) \<Rightarrow> Some td
        | (None, first) \<Rightarrow>
            if start \<noteq> 0
            then (case steal_words md T rq cpu [RQB_WORD md 0..<RQB_LEN md] 0 first of
                    (Some td, _) \<Rightarrow> Some td | (None, first') \<Rightarrow> chk first')
            else chk first)"
      unfolding runq_steal_from_def chk_def Let_def ..
    have two0: "steal_words md T rq cpu [RQB_WORD md 0..<RQB_LEN md] 0 first =
        steal_queue T cpu (threads_from rq 0) first" for first using two(1) by simp
    show ?thesis
      unfolding unf two0 two(2) rotated_def
      by (cases "start = 0") (auto simp: steal_queue_append split: prod.splits option.splits)
  qed
  also have "\<dots> = (case ?V of [] \<Rightarrow> None | t # q \<Rightarrow> if q = [] \<and> ?can t then Some t else find ?can q)"
  proof (cases ?V)
    case Nil
    then show ?thesis by (simp add: chk_def)
  next
    case (Cons t q)
    show ?thesis
    proof (cases "find ?can q")
      case None
      then have none: "\<forall>u\<in>set q. \<not> ?can u" by (auto simp: find_None_iff)
      have "chk (Some (last (t # q))) = (if q = [] \<and> ?can t then Some t else None)"
        using none by (cases "q = []") (auto simp: chk_def)
      then show ?thesis using Cons None by (simp add: steal_queue_Some)
    next
      case (Some u)
      then have "q \<noteq> []" by auto
      then show ?thesis using Cons Some by (simp add: steal_queue_Some)
    qed
  qed
  finally show ?thesis .
qed

section \<open>What is stolen\<close>

lemma find_in: "find P xs = Some x \<Longrightarrow> P x \<and> x \<in> set xs"
  by (auto simp: find_Some_iff)

lemma rotated_set: "start < RQ_NQS \<Longrightarrow> set (rotated rq start) = on_runq rq"
proof -
  assume "start < RQ_NQS"
  then have "set (threads_from rq start) \<subseteq> set (threads_from rq 0)" using threads_from_split [of 0 start rq] by auto
  then show ?thesis by (auto simp: rotated_def threads_from_set)
qed

lemma steal_from_cases:
  assumes ok: "runq_ok md rq" and start: "start < RQ_NQS"
  shows "runq_steal_from md T rq cpu start = Some t \<Longrightarrow> can_steal T cpu t \<and> t \<in> on_runq rq"
    and "runq_steal_from md T rq cpu start = None \<Longrightarrow> u \<in> on_runq rq \<Longrightarrow> can_steal T cpu u \<Longrightarrow>
      (start = 0 \<or> threads_from rq start = []) \<and> (\<exists>v. threads_from rq 0 = u # v \<and> v \<noteq> [])"
proof -
  note eq = steal_from_eq [OF ok start, of T cpu] and set = rotated_set [OF start, of rq]
  show "can_steal T cpu t \<and> t \<in> on_runq rq" if "runq_steal_from md T rq cpu start = Some t"
  proof (cases "rotated rq start")
    case (Cons w v)
    then have "t = w \<and> can_steal T cpu w \<or> find (can_steal T cpu) v = Some t"
      using that by (auto simp: eq split: if_splits)
    then show ?thesis using find_in [of "can_steal T cpu" v t] set Cons by auto
  qed (use that eq in simp)
  assume none: "runq_steal_from md T rq cpu start = None" and u: "u \<in> on_runq rq" "can_steal T cpu u"
  obtain w v where r: "rotated rq start = w # v" using set u(1) by (cases "rotated rq start") auto
  have "v \<noteq> []" "\<forall>x\<in>set v. \<not> can_steal T cpu x" "w = u"
    using none r u set by (auto simp: eq find_None_iff split: if_splits)
  moreover have "start = 0 \<or> threads_from rq start = []"
  proof (rule ccontr)
    assume n: "\<not> ?thesis"
    then obtain v' where "threads_from rq start = w # v'" using r by (cases "threads_from rq start") (auto simp: rotated_def)
    then have "v = v' @ threads_from rq 0" using r n by (simp add: rotated_def)
    then show False using \<open>\<forall>x\<in>set v. \<not> can_steal T cpu x\<close> u threads_from_set [of rq] by auto
  qed
  ultimately show "(start = 0 \<or> threads_from rq start = []) \<and> (\<exists>v. threads_from rq 0 = u # v \<and> v \<noteq> [])"
    using r by (auto simp: rotated_def split: if_splits)
qed

lemma steal_linear_cases:
  assumes "runq_ok md rq"
  shows "runq_steal md T rq cpu = Some t \<Longrightarrow> can_steal T cpu t \<and> t \<in> on_runq rq"
    and "runq_steal md T rq cpu = None \<Longrightarrow> u \<in> on_runq rq \<Longrightarrow> \<not> can_steal T cpu u"
  using find_in [of "can_steal T cpu" "threads_from rq 0" t]
  by (auto simp: runq_steal_eq [OF assms] threads_from_set find_None_iff)

lemma tdq_steal_Some:
  assumes ok: "tdq_ok md c T q" and t: "tdq_steal md T q dest = Some t"
  shows "can_steal T dest t" and "\<exists>k. k \<noteq> Q_lottery \<and> t \<in> on_runq (queue_of k q)"
    and "u \<in> on_runq (tdq_realtime q) \<Longrightarrow> can_steal T dest u \<Longrightarrow> t \<in> on_runq (tdq_realtime q)"
proof -
  note rt = steal_linear_cases [OF tdq_okD(1) [OF ok, of Q_realtime, simplified], where T = T and cpu = dest]
    and ts = steal_from_cases(1) [OF tdq_okD(1) [OF ok, of Q_timeshare, simplified] tdq_okD(5) [OF ok], where T = T and cpu = dest]
    and idl = steal_linear_cases(1) [OF tdq_okD(1) [OF ok, of Q_idle, simplified], where T = T and cpu = dest]
  have "can_steal T dest t \<and> (t \<in> on_runq (tdq_realtime q) \<or> t \<in> on_runq (tdq_timeshare q) \<or> t \<in> on_runq (tdq_idle q))"
    using t rt(1) ts idl by (auto simp: tdq_steal_def split: option.splits)
  then show "can_steal T dest t" "\<exists>k. k \<noteq> Q_lottery \<and> t \<in> on_runq (queue_of k q)"
    by (simp, metis queue_of_simps runq_kind.distinct)
  show "t \<in> on_runq (tdq_realtime q)" if "u \<in> on_runq (tdq_realtime q)" "can_steal T dest u"
    using t rt(1,2) that by (auto simp: tdq_steal_def split: option.splits)
qed

text \<open>
  What a processor steals from a thread queue: a thread that may migrate and run on the thief, a
  real-time one when there is one, and never a thread of the lottery. Nothing is stolen only when the
  threads that could be are in the lottery, or one is the head of the timeshare queue, which the walk
  passes over when other threads follow it.
\<close>

theorem steal_order:
  assumes "tdq_ok md c T q"
  shows "case tdq_steal md T q dest of
      Some t \<Rightarrow> can_steal T dest t \<and> t \<in> queued q \<and> t \<notin> on_runq (tdq_lottery q) \<and>
        (t \<in> on_runq (tdq_realtime q) \<or> on_runq (tdq_realtime q) \<inter> {u. can_steal T dest u} = {})
    | None \<Rightarrow> queued q \<inter> {u. can_steal T dest u} \<subseteq> on_runq (tdq_lottery q) \<union>
        {u. (tdq_ridx q = 0 \<or> threads_from (tdq_timeshare q) (tdq_ridx q) = []) \<and>
            (\<exists>v. threads_from (tdq_timeshare q) 0 = u # v \<and> v \<noteq> [])}"
proof (cases "tdq_steal md T q dest")
  case None
  note rt = steal_linear_cases(2) [OF tdq_okD(1) [OF assms, of Q_realtime, simplified], where T = T and cpu = dest]
    and ts = steal_from_cases(2) [OF tdq_okD(1) [OF assms, of Q_timeshare, simplified] tdq_okD(5) [OF assms], where T = T and cpu = dest]
    and idl = steal_linear_cases(2) [OF tdq_okD(1) [OF assms, of Q_idle, simplified], where T = T and cpu = dest]
  have n: "runq_steal md T (tdq_realtime q) dest = None" "runq_steal_from md T (tdq_timeshare q) dest (tdq_ridx q) = None"
    "runq_steal md T (tdq_idle q) dest = None"
    using None by (auto simp: tdq_steal_def split: option.splits)
  have "u \<in> on_runq (tdq_lottery q) \<or> (tdq_ridx q = 0 \<or> threads_from (tdq_timeshare q) (tdq_ridx q) = []) \<and>
      (\<exists>v. threads_from (tdq_timeshare q) 0 = u # v \<and> v \<noteq> [])" if "u \<in> queued q" "can_steal T dest u" for u
    using that rt [OF n(1)] idl [OF n(3)] ts [OF n(2)] unfolding queued_kinds by blast
  then show ?thesis using None by auto
next
  case (Some t)
  note t = tdq_steal_Some [OF assms Some]
  obtain k where k: "k \<noteq> Q_lottery" "t \<in> on_runq (queue_of k q)" using t(2) by blast
  have "t \<in> queued q" by (rule tdq_ok_queue(2) [OF assms k(2)])
  moreover have "t \<notin> on_runq (tdq_lottery q)"
    using tdq_ok_queue(3) [OF assms k(2), of Q_lottery] k(1) by simp
  ultimately show ?thesis using Some t(1,3) by auto
qed

theorem steal_order_witness: "can_steal thr7 1 7 \<and> 7 \<in> queued tdq7 \<and> tdq_steal amd64_runq thr7 tdq7 1 = None"
proof -
  have "ts_runq (thr7 7) = Some (0, Q_lottery)" and free: "can_steal thr7 1 7"
    by (simp_all add: thr7_def tdq_add_def tdq_runq_add_def td0_def isRoot_def Let_def upd_td_def can_steal_def
        PRI_MIN_BATCH_def PRI_MAX_BATCH_def PRI_INTERACT_RANGE_def PRI_TIMESHARE_RANGE_def SCHED_PRI_NRESV_def
        freebsd_def THREAD_CAN_MIGRATE_def THREAD_CAN_SCHED_def)
  moreover have "7 \<in> queued tdq7" using tdq7_facts(2) by simp
  ultimately have lot: "7 \<in> on_runq (tdq_lottery tdq7)"
    using tdq_ok_queue(1) [OF tdq7_facts(1)] by (fastforce simp: queued_def)
  show ?thesis
    using steal_order [OF tdq7_facts(1), of 1] tdq7_facts(2) lot free by (cases "tdq_steal amd64_runq thr7 tdq7 1") auto
qed

end
