(* ===== verification/Sched_Smp_Props.thy ===== *)
theory Sched_Smp_Props
  imports Sched_Steal_Props
begin

text \<open>
  The invariant of the scheduler over all processors, and that moving a thread, balancing the load
  and looking for work keep it: no thread is lost, duplicated or moved where it may not run.
\<close>

section \<open>The invariant\<close>

definition all_queued :: "'w cpu_env \<Rightarrow> 'w smp \<Rightarrow> tid set" where
  "all_queued E s = (\<Union>c\<le>mp_maxid (kn E). queued (cpus s c))"

definition total_load :: "'w cpu_env \<Rightarrow> 'w smp \<Rightarrow> int" where
  "total_load E s = (\<Sum>c\<le>mp_maxid (kn E). tdq_load (cpus s c))"

text \<open>
  Every processor's queue is consistent, its threads name it and are counted in its load; the loads
  do not overflow the search; the tickets of all queued threads fit an \<open>int\<close>.
\<close>

definition smp_ok :: "'w::len word cpu_env \<Rightarrow> 'w word smp \<Rightarrow> bool" where
  "smp_ok E s \<longleftrightarrow>
    (\<forall>c\<le>mp_maxid (kn E). tdq_ok (rqmd E) c (thr s) (cpus s c) \<and> int (card (queued (cpus s c))) \<le> tdq_load (cpus s c) \<and>
       (\<forall>t\<in>queued (cpus s c). ts_cpu (thr s t) = c \<and> td_priority (thr s t) < 256)) \<and>
    (\<forall>c. 0 \<le> tdq_load (cpus s c)) \<and> 256 * total_load E s < INT_MAX \<and>
    (\<forall>u\<in>all_queued E s. 0 \<le> p_nice (thr s u)) \<and> (\<Sum>u\<in>all_queued E s. p_nice (thr s u) + 1) < 2 ^ 31"

definition topo_ok :: "'w cpu_env \<Rightarrow> bool" where
  "topo_ok E \<longleftrightarrow> (\<forall>g. g = cpu_top E \<or> (\<exists>c. g \<in> set (tdq_cg E c)) \<longrightarrow>
      distinct (leaves E g) \<and> set (leaves E g) \<subseteq> {..mp_maxid (kn E)}) \<and>
    mp_maxid (kn E) < CPU_SETSIZE E \<and> CPU_SETSIZE E < 2 ^ 24"

lemma smp_okD:
  assumes "smp_ok E s" and "c \<le> mp_maxid (kn E)"
  shows "tdq_ok (rqmd E) c (thr s) (cpus s c)" and "int (card (queued (cpus s c))) \<le> tdq_load (cpus s c)"
    and "t \<in> queued (cpus s c) \<Longrightarrow> ts_cpu (thr s t) = c \<and> td_priority (thr s t) < 256"
  using assms by (auto simp: smp_ok_def)

lemma all_queued_finite [simp]: "finite (all_queued E s)"
  by (simp add: all_queued_def)

lemma smp_nice:
  assumes ok: "smp_ok E s" and c: "c \<le> mp_maxid (kn E)"
  shows "nice_lottery (thr s) (cpus s c)"
proof -
  have sub: "on_runq (tdq_lottery (cpus s c)) \<subseteq> all_queued E s"
    using c by (auto simp: all_queued_def queued_kinds)
  have "(\<Sum>u\<in>on_runq (tdq_lottery (cpus s c)). p_nice (thr s u) + 1) \<le> (\<Sum>u\<in>all_queued E s. p_nice (thr s u) + 1)"
    using ok sub by (intro sum_mono2) (auto simp: smp_ok_def)
  then show ?thesis using ok sub by (auto simp: nice_lottery_def smp_ok_def)
qed

lemma smp_disjoint:
  assumes "smp_ok E s" and "c \<le> mp_maxid (kn E)" and "d \<le> mp_maxid (kn E)" and "c \<noteq> d"
  shows "queued (cpus s c) \<inter> queued (cpus s d) = {}"
  using smp_okD(3) [OF assms(1,2)] smp_okD(3) [OF assms(1,3)] assms(4) by blast

lemma smp_loads_fit:
  assumes ok: "smp_ok E s" and topo: "topo_ok E" and g: "g = cpu_top E \<or> g \<in> set (tdq_cg E c)"
  shows "loads_fit E (cpus s) g"
proof -
  have l: "distinct (leaves E g)" "set (leaves E g) \<subseteq> {..mp_maxid (kn E)}"
    using topo g by (auto simp: topo_ok_def)
  have nn: "\<forall>c. 0 \<le> tdq_load (cpus s c)" using ok by (simp add: smp_ok_def)
  have "(\<Sum>c\<leftarrow>leaves E g. tdq_load (cpus s c)) = (\<Sum>c\<in>set (leaves E g). tdq_load (cpus s c))"
    using l(1) by (simp add: sum_list_distinct_conv_sum_set)
  also have "\<dots> \<le> total_load E s" unfolding total_load_def using l(2) nn by (intro sum_mono2) auto
  finally have "256 * (\<Sum>c\<leftarrow>leaves E g. tdq_load (cpus s c)) < INT_MAX" using ok by (simp add: smp_ok_def)
  moreover have "length (leaves E g) \<le> Suc (mp_maxid (kn E))"
    using l card_mono [of "{..mp_maxid (kn E)}" "set (leaves E g)"] by (simp add: distinct_card)
  then have "64 * int (length (leaves E g)) < 2 ^ 31" using topo by (simp add: topo_ok_def)
  ultimately show ?thesis using nn by (simp add: loads_fit_def)
qed

section \<open>Moving a thread\<close>

text \<open>A thread taken off the queue of its processor and put onto another.\<close>

definition moved :: "'w cpu_env \<Rightarrow> nat \<Rightarrow> nat \<Rightarrow> tid \<Rightarrow> 'w smp \<Rightarrow> 'w smp \<Rightarrow> bool" where
  "moved E source dest t s s' \<longleftrightarrow>
    queued (cpus s' source) = queued (cpus s source) - {t} \<and> queued (cpus s' dest) = insert t (queued (cpus s dest)) \<and>
    tdq_load (cpus s' source) = tdq_load (cpus s source) - 1 \<and> tdq_load (cpus s' dest) = tdq_load (cpus s dest) + 1 \<and>
    (\<forall>c. c \<noteq> source \<longrightarrow> c \<noteq> dest \<longrightarrow> cpus s' c = cpus s c) \<and> (\<forall>u. u \<noteq> t \<longrightarrow> thr s' u = thr s u) \<and>
    same_thread ((thr s t)\<lparr>ts_cpu := dest\<rparr>) (thr s' t)"

lemma tdq_load_cong:
  fixes Q Q' :: "nat \<Rightarrow> 'w tdq"
  assumes *: "\<forall>c. c \<noteq> a \<longrightarrow> c \<noteq> b \<longrightarrow> Q' c = Q c" "a \<noteq> b" "a \<le> n" "b \<le> n"
    "tdq_load (Q' a) = tdq_load (Q a) - 1" "tdq_load (Q' b) = tdq_load (Q b) + 1"
  shows "(\<Sum>c\<le>n. tdq_load (Q' c)) = (\<Sum>c\<le>n. tdq_load (Q c))"
proof -
  have split: "(\<Sum>c\<le>n. f c) = f a + f b + (\<Sum>c\<in>{..n} - {a} - {b}. f c)" for f :: "nat \<Rightarrow> int"
    using *(2-4) sum.remove [of "{..n}" a f] sum.remove [of "{..n} - {a}" b f] by simp
  have "(\<Sum>c\<in>{..n} - {a} - {b}. tdq_load (Q' c)) = (\<Sum>c\<in>{..n} - {a} - {b}. tdq_load (Q c))"
    using *(1) by (intro sum.cong) auto
  then show ?thesis
    unfolding split [of "\<lambda>c. tdq_load (Q' c)"] split [of "\<lambda>c. tdq_load (Q c)"] *(5,6) by simp
qed

text \<open>Such a move keeps the invariant and the set of queued threads.\<close>

lemma moved_ok:
  assumes ok: "smp_ok E s" and st: "source \<le> mp_maxid (kn E)" "dest \<le> mp_maxid (kn E)" "source \<noteq> dest"
    and t: "t \<in> queued (cpus s source)" and m: "moved E source dest t s s'"
    and okq: "tdq_ok (rqmd E) source (thr s') (cpus s' source)" "tdq_ok (rqmd E) dest (thr s') (cpus s' dest)"
  shows "smp_ok E s'" and "all_queued E s' = all_queued E s" and "total_load E s' = total_load E s"
proof -
  note M = m [unfolded moved_def]
  let ?n = "mp_maxid (kn E)"
  have other: "cpus s' c = cpus s c" if "c \<noteq> source" "c \<noteq> dest" for c using M that by blast
  have not_t: "t \<notin> queued (cpus s c)" if "c \<le> ?n" "c \<noteq> source" for c
    using smp_disjoint [OF ok st(1) that(1)] that(2) t by blast
  have q: "queued (cpus s' c) = (if c = source then queued (cpus s c) - {t}
      else if c = dest then insert t (queued (cpus s c)) else queued (cpus s c))" for c
    using M st(3) other [of c] by simp
  show all: "all_queued E s' = all_queued E s"
    using t st by (auto simp: all_queued_def q split: if_splits)
  show load: "total_load E s' = total_load E s"
    unfolding total_load_def by (rule tdq_load_cong [of source dest]) (use M st in auto)
  have same: "same_thread ((thr s t)\<lparr>ts_cpu := dest\<rparr>) (thr s' t)" "\<forall>u. u \<noteq> t \<longrightarrow> thr s' u = thr s u" using M by blast+
  note sd = same_threadD [OF same(1)]
  have nice: "p_nice (thr s' u) = p_nice (thr s u)" for u using sd(3) same(2) by (cases "u = t") simp_all
  have card: "int (card (queued (cpus s' c))) \<le> tdq_load (cpus s' c)" if c: "c \<le> ?n" for c
  proof -
    have fin: "finite (queued (cpus s c))" by simp
    consider "c = source" | "c = dest" | "c \<noteq> source" "c \<noteq> dest" by blast
    then show ?thesis
    proof cases
      case 1
      have "int (card (queued (cpus s source) - {t})) = int (card (queued (cpus s source))) - 1"
      proof -
        have "0 < card (queued (cpus s source))" using t by (auto simp: card_gt_0_iff)
        then show ?thesis using t by (simp add: of_nat_diff)
      qed
      then show ?thesis using 1 M smp_okD(2) [OF ok st(1)] by simp
    next
      case 2
      then show ?thesis using M smp_okD(2) [OF ok st(2)] not_t [OF st(2)] st(3) fin by simp
    next
      case 3
      then show ?thesis using other smp_okD(2) [OF ok c] by simp
    qed
  qed
  have tok: "tdq_ok (rqmd E) c (thr s') (cpus s' c)" if c: "c \<le> ?n" for c
  proof (cases "c = source \<or> c = dest")
    case False
    then have "\<forall>u\<in>queued (cpus s c). thr s' u = thr s u" using not_t [OF c] same(2) by metis
    from tdq_ok_threads [OF smp_okD(1) [OF ok c] this] show ?thesis using False other by simp
  qed (use okq in auto)
  have place: "ts_cpu (thr s' u) = c \<and> td_priority (thr s' u) < 256" if c: "c \<le> ?n" and u: "u \<in> queued (cpus s' c)" for c u
  proof (cases "u = t")
    case True
    then have "c = dest" using u q [of c] not_t [OF c] st(3) by (auto split: if_splits)
    then show ?thesis using True sd(1,6) smp_okD(3) [OF ok st(1) t] by simp
  next
    case False
    then have "u \<in> queued (cpus s c)" using u q [of c] by (auto split: if_splits)
    then show ?thesis using smp_okD(3) [OF ok c] same(2) False by simp
  qed
  have nn: "0 \<le> tdq_load (cpus s' c)" for c
  proof (cases "c \<le> ?n")
    case True
    then show ?thesis using card [OF True] by linarith
  next
    case False
    then have "cpus s' c = cpus s c" using other st by auto
    then show ?thesis using ok by (simp add: smp_ok_def)
  qed
  show "smp_ok E s'"
    using ok tok card place nn all load nice by (simp add: smp_ok_def)
qed

lemma tdq_add_on_ok:
  assumes ok: "tdq_ok (rqmd E) c (thr s) (cpus s c)" and t: "t \<notin> queued (cpus s c)" "td_priority (thr s t) < 256"
    "TSF_XFERABLE \<notin> ts_flags (thr s t)"
  shows "\<exists>T q. tdq_add_on E c t flags s = s\<lparr>thr := T, cpus := (cpus s)(c := q)\<rparr> \<and>
    tdq_ok (rqmd E) c T q \<and> queued q = insert t (queued (cpus s c)) \<and> tdq_load q = tdq_load (cpus s c) + 1 \<and>
    (\<forall>u. u \<noteq> t \<longrightarrow> T u = thr s u) \<and> same_thread (thr s t) (T t) \<and> td_state (T t) = TDS_RUNQ \<and>
    tdq_lowpri q = min (td_priority (thr s t)) (tdq_lowpri (cpus s c))"
proof -
  obtain T q where r: "tdq_add (rqmd E) (kn E) c (thr s) (cpus s c) t flags = (T, q)" by fastforce
  then show ?thesis
    using tdq_add_ok [OF ok t, of "kn E" flags] tdq_add_frame [OF r] by (auto simp: tdq_add_on_def)
qed

lemma sched_rem_on_ok:
  assumes ok: "smp_ok E s" and c: "c \<le> mp_maxid (kn E)" and t: "t \<in> queued (cpus s c)"
  shows "\<exists>T q. sched_rem_on E t s = Inr (s\<lparr>thr := T, cpus := (cpus s)(c := q), draws := draws s + 1\<rparr>) \<and>
    tdq_ok (rqmd E) c T q \<and> queued q = queued (cpus s c) - {t} \<and> tdq_load q = tdq_load (cpus s c) - 1 \<and>
    (\<forall>u. u \<noteq> t \<longrightarrow> T u = thr s u) \<and> same_thread (thr s t) (T t) \<and> TSF_XFERABLE \<notin> ts_flags (T t)"
proof -
  have tc: "ts_cpu (thr s t) = c" using smp_okD(3) [OF ok c t] by simp
  obtain T q where "sched_rem (rqmd E) c (curthr s c) (thr s) (cpus s c) t (random E (draws s)) = Inr (T, q) \<and>
    tdq_ok (rqmd E) c T q \<and> queued q = queued (cpus s c) - {t} \<and> tdq_load q = tdq_load (cpus s c) - 1 \<and>
    (\<forall>u. u \<noteq> t \<longrightarrow> T u = thr s u) \<and> same_thread (thr s t) (T t) \<and> TSF_XFERABLE \<notin> ts_flags (T t)"
    using sched_rem_ok [OF smp_okD(1) [OF ok c] t smp_nice [OF ok c], of "curthr s c" "random E (draws s)"] by blast
  then show ?thesis by (auto simp: sched_rem_on_def tc Let_def)
qed

lemma tdq_move_ok:
  assumes ok: "smp_ok E s" and st: "source \<le> mp_maxid (kn E)" "dest \<le> mp_maxid (kn E)" "source \<noteq> dest"
  shows "\<exists>r s'. tdq_move E source dest s = Inr (r, s') \<and> curthr s' = curthr s \<and> randomval s' = randomval s \<and>
    (case r of None \<Rightarrow> s' = s \<and> tdq_steal (rqmd E) (thr s) (cpus s source) dest = None
     | Some t \<Rightarrow> tdq_steal (rqmd E) (thr s) (cpus s source) dest = Some t \<and> t \<in> queued (cpus s source) \<and>
         can_steal (thr s) dest t \<and> moved E source dest t s s' \<and>
         smp_ok E s' \<and> all_queued E s' = all_queued E s \<and> total_load E s' = total_load E s)"
proof (cases "tdq_steal (rqmd E) (thr s) (cpus s source) dest")
  case None
  then show ?thesis by (simp add: tdq_move_def)
next
  case (Some t)
  note sok = smp_okD(1) [OF ok st(1)]
  have can: "can_steal (thr s) dest t" by (rule tdq_steal_Some(1) [OF sok Some])
  obtain k where "t \<in> on_runq (queue_of k (cpus s source))" using tdq_steal_Some(2) [OF sok Some] by blast
  then have t: "t \<in> queued (cpus s source)" by (auto simp: queued_def)
  obtain T q where rem: "sched_rem_on E t s = Inr (s\<lparr>thr := T, cpus := (cpus s)(source := q), draws := draws s + 1\<rparr>)"
    and q: "tdq_ok (rqmd E) source T q" "queued q = queued (cpus s source) - {t}" "tdq_load q = tdq_load (cpus s source) - 1"
    and T: "\<forall>u. u \<noteq> t \<longrightarrow> T u = thr s u" "same_thread (thr s t) (T t)" "TSF_XFERABLE \<notin> ts_flags (T t)"
    using sched_rem_on_ok [OF ok st(1) t] by blast
  define s1 where "s1 = upd_thr t (\<lambda>x. x\<lparr>ts_cpu := dest\<rparr>) (s\<lparr>thr := T, cpus := (cpus s)(source := q), draws := draws s + 1\<rparr>)"
  have s1: "cpus s1 = (cpus s)(source := q)" "\<forall>u. u \<noteq> t \<longrightarrow> thr s1 u = thr s u" "thr s1 t = (T t)\<lparr>ts_cpu := dest\<rparr>"
    "curthr s1 = curthr s" "randomval s1 = randomval s"
    using T(1) by (simp_all add: s1_def upd_thr_def)
  have same1: "same_thread ((thr s t)\<lparr>ts_cpu := dest\<rparr>) (thr s1 t)" using same_thread_cpu [OF T(2)] s1(3) by simp
  have not_t: "t \<notin> queued (cpus s dest)" using smp_disjoint [OF ok st] t by blast
  have "\<forall>u\<in>queued (cpus s dest). thr s1 u = thr s u" using not_t s1(2) by metis
  then have okd: "tdq_ok (rqmd E) dest (thr s1) (cpus s1 dest)"
    using tdq_ok_threads [OF smp_okD(1) [OF ok st(2)]] s1(1) st(3) by simp
  have pri: "td_priority (thr s1 t) < 256" using same_threadD(1) [OF T(2)] s1(3) smp_okD(3) [OF ok st(1) t] by simp
  have xf: "TSF_XFERABLE \<notin> ts_flags (thr s1 t)" using T(3) s1(3) by simp
  have nt: "t \<notin> queued (cpus s1 dest)" using not_t s1(1) st(3) by simp
  obtain T' q' where add: "tdq_add_on E dest t {SRQ_YIELDING} s1 = s1\<lparr>thr := T', cpus := (cpus s1)(dest := q')\<rparr>"
    and q': "tdq_ok (rqmd E) dest T' q'" "queued q' = insert t (queued (cpus s1 dest))" "tdq_load q' = tdq_load (cpus s1 dest) + 1"
    and T': "\<forall>u. u \<noteq> t \<longrightarrow> T' u = thr s1 u" "same_thread (thr s1 t) (T' t)"
    using tdq_add_on_ok [OF okd nt pri xf, of "{SRQ_YIELDING}"] by blast
  define s' where "s' = s1\<lparr>thr := T', cpus := (cpus s1)(dest := q')\<rparr>"
  have move: "tdq_move E source dest s = Inr (Some t, s')"
    using Some rem add by (simp add: tdq_move_def s1_def s'_def)
  have mv: "moved E source dest t s s'"
    using q q' T T' s1 st(3) same_thread_trans [OF same1 T'(2)] by (simp add: moved_def s'_def)
  have "\<forall>u\<in>queued q. T' u = T u"
    using q(2) T'(1) T(1) s1(2) by auto
  then have oks: "tdq_ok (rqmd E) source (thr s') (cpus s' source)"
    using tdq_ok_threads [OF q(1)] st(3) s1(1) by (simp add: s'_def)
  have "tdq_ok (rqmd E) dest (thr s') (cpus s' dest)" using q'(1) by (simp add: s'_def)
  from moved_ok [OF ok st t mv oks this] show ?thesis
    using move mv can t Some s1(4,5) by (simp add: s'_def)
qed

section \<open>What the balancer keeps\<close>

text \<open>The fields of a queue that the invariant is about.\<close>

definition core :: "'w tdq \<Rightarrow> 'w runq \<times> 'w runq \<times> 'w runq \<times> 'w runq \<times> int \<times> int \<times> nat \<times> nat" where
  "core q = (tdq_realtime q, tdq_timeshare q, tdq_lottery q, tdq_idle q, tdq_load q, tdq_transferable q, tdq_idx q, tdq_ridx q)"

lemma core_queued: "core q' = core q \<Longrightarrow> queued q' = queued q"
  by (simp add: core_def queued_kinds)

lemma core_ok: "core q' = core q \<Longrightarrow> tdq_ok md c T q' = tdq_ok md c T q"
proof -
  assume c: "core q' = core q"
  have "queue_of k q' = queue_of k q" for k using c by (cases k) (simp_all add: core_def)
  then show ?thesis using c core_queued [OF c] by (simp add: tdq_ok_def core_def)
qed

lemma core_load: "core q' = core q \<Longrightarrow> tdq_load q' = tdq_load q"
  by (simp add: core_def)

lemma smp_ok_core:
  assumes ok: "smp_ok E s" and c: "\<forall>c. core (cpus s' c) = core (cpus s c)" and t: "thr s' = thr s"
  shows "smp_ok E s'" and "all_queued E s' = all_queued E s" and "total_load E s' = total_load E s"
proof -
  have q: "queued (cpus s' d) = queued (cpus s d)" for d using c core_queued by metis
  have l: "tdq_load (cpus s' d) = tdq_load (cpus s d)" for d using c core_load by metis
  show all: "all_queued E s' = all_queued E s" by (simp add: all_queued_def q)
  show load: "total_load E s' = total_load E s" by (simp add: total_load_def l)
  show "smp_ok E s'"
    using ok t all load core_ok [OF c [rule_format]] by (simp add: smp_ok_def q l)
qed

text \<open>A change of threads that are on no queue keeps the invariant.\<close>

lemma smp_ok_thr:
  assumes ok: "smp_ok E s" and c: "cpus s' = cpus s" and same: "\<forall>u\<in>all_queued E s. thr s' u = thr s u"
  shows "smp_ok E s'"
proof -
  have all: "all_queued E s' = all_queued E s" and load: "total_load E s' = total_load E s"
    by (simp_all add: all_queued_def total_load_def c)
  have in_all: "u \<in> all_queued E s" if "u \<in> queued (cpus s d)" "d \<le> mp_maxid (kn E)" for u d
    using that by (auto simp: all_queued_def)
  have tok: "tdq_ok (rqmd E) d (thr s') (cpus s d)" if "d \<le> mp_maxid (kn E)" for d
    using tdq_ok_threads [OF smp_okD(1) [OF ok that]] same in_all that by metis
  have place: "ts_cpu (thr s' u) = d \<and> td_priority (thr s' u) < 256" if "d \<le> mp_maxid (kn E)" "u \<in> queued (cpus s d)" for d u
    using smp_okD(3) [OF ok that] same in_all [OF that(2,1)] by simp
  show ?thesis using ok tok place same by (simp add: smp_ok_def c all load)
qed

text \<open>Threads stay where they are or go where they may run.\<close>

definition smp_keeps :: "'w::len word cpu_env \<Rightarrow> 'w word smp \<Rightarrow> 'w word smp \<Rightarrow> bool" where
  "smp_keeps E s s' \<longleftrightarrow> smp_ok E s' \<and> all_queued E s' = all_queued E s \<and> total_load E s' = total_load E s \<and>
    curthr s' = curthr s \<and>
    (\<forall>u. td_cpuset (thr s' u) = td_cpuset (thr s u) \<and> td_pinned (thr s' u) = td_pinned (thr s u) \<and>
      (ts_cpu (thr s' u) = ts_cpu (thr s u) \<or> td_pinned (thr s u) = 0 \<and> ts_cpu (thr s' u) \<in> td_cpuset (thr s u)))"

lemma smp_keeps_refl: "smp_ok E s \<Longrightarrow> smp_keeps E s s"
  by (simp add: smp_keeps_def)

lemma smp_keeps_trans: "smp_keeps E s s' \<Longrightarrow> smp_keeps E s' s'' \<Longrightarrow> smp_keeps E s s''"
  by (simp add: smp_keeps_def) metis

lemma smp_keeps_core:
  assumes "smp_ok E s" and "\<forall>c. core (cpus s' c) = core (cpus s c)" and "thr s' = thr s" and "curthr s' = curthr s"
  shows "smp_keeps E s s'"
  using smp_ok_core [OF assms(1-3)] assms(3,4) by (simp add: smp_keeps_def)

lemma smp_keeps_moved:
  assumes m: "moved E source dest t s s'" and can: "can_steal (thr s) dest t" and ok: "smp_ok E s'"
    and same: "all_queued E s' = all_queued E s" "total_load E s' = total_load E s" "curthr s' = curthr s"
  shows "smp_keeps E s s'"
proof -
  have st: "same_thread ((thr s t)\<lparr>ts_cpu := dest\<rparr>) (thr s' t)" and other: "\<forall>u. u \<noteq> t \<longrightarrow> thr s' u = thr s u"
    using m by (simp_all add: moved_def)
  note sd = same_threadD(4-6) [OF st]
  have "td_cpuset (thr s' u) = td_cpuset (thr s u) \<and> td_pinned (thr s' u) = td_pinned (thr s u) \<and>
      (ts_cpu (thr s' u) = ts_cpu (thr s u) \<or> td_pinned (thr s u) = 0 \<and> ts_cpu (thr s' u) \<in> td_cpuset (thr s u))" for u
    using sd other can by (cases "u = t") (simp_all add: can_steal_def THREAD_CAN_MIGRATE_def THREAD_CAN_SCHED_def)
  then show ?thesis using ok same by (simp add: smp_keeps_def)
qed

lemma keeps_notify: "smp_ok E s \<Longrightarrow> smp_keeps E s (tdq_notify E c t s)"
  by (rule smp_keeps_core) (auto simp: tdq_notify_def upd_cpu_def core_def Let_def)

lemma sched_balance_pair_ok:
  assumes ok: "smp_ok E s" and st: "high \<le> mp_maxid (kn E)" "low \<le> mp_maxid (kn E)" "high \<noteq> low"
  shows "\<exists>b s'. sched_balance_pair E high low s = Inr (b, s') \<and> smp_keeps E s s'"
proof (cases "tdq_transferable (cpus s high) \<noteq> 0 \<and> tdq_load (cpus s high) > tdq_load (cpus s low)")
  case True
  obtain r s' where mv: "tdq_move E high low s = Inr (r, s')" "curthr s' = curthr s"
    "case r of None \<Rightarrow> s' = s
     | Some t \<Rightarrow> can_steal (thr s) low t \<and> moved E high low t s s' \<and>
         smp_ok E s' \<and> all_queued E s' = all_queued E s \<and> total_load E s' = total_load E s"
    using tdq_move_ok [OF ok st] by (auto split: option.splits)
  show ?thesis
  proof (cases r)
    case None
    then show ?thesis using True mv smp_keeps_refl [OF ok] by (intro exI [of _ False]) (simp add: sched_balance_pair_def)
  next
    case (Some t)
    then have m: "can_steal (thr s) low t" "moved E high low t s s'" "smp_ok E s'" "all_queued E s' = all_queued E s"
      "total_load E s' = total_load E s" using mv(3) by simp_all
    have k: "smp_keeps E s s'" by (rule smp_keeps_moved [OF m(2,1,3,4,5) mv(2)])
    have "smp_keeps E s (tdq_notify E low t s')" by (rule smp_keeps_trans [OF k keeps_notify [OF m(3)]])
    then show ?thesis using True mv(1) Some k by (intro exI [of _ True]) (simp add: sched_balance_pair_def)
  qed
next
  case False
  then show ?thesis using smp_keeps_refl [OF ok] by (auto simp: sched_balance_pair_def)
qed

lemma highest_in_ok:
  assumes ok: "smp_ok E s" and topo: "topo_ok E" and g: "g = cpu_top E \<or> g \<in> set (tdq_cg E c)"
    and r: "highest_in E g m l s = (r, s1)"
  shows "smp_keeps E s s1" and "thr s1 = thr s" and "cpus s1 = cpus s"
    and "r = Some d \<Longrightarrow> d \<in> m \<and> d \<le> mp_maxid (kn E) \<and> l \<le> tdq_load (cpus s d) \<and> tdq_transferable (cpus s d) \<noteq> 0 \<and> d \<in> set (leaves E g)"
    and "r = None \<Longrightarrow> d \<in> m \<Longrightarrow> d \<in> set (leaves E g) \<Longrightarrow> l \<le> tdq_load (cpus s d) \<Longrightarrow> tdq_transferable (cpus s d) = 0"
proof -
  obtain x where h: "sched_highest E (cpus s) g m l (randomval s (self E)) = (r, x)"
    and s1: "s1 = s\<lparr>randomval := (randomval s)(self E := x)\<rparr>"
    using r by (auto simp: highest_in_def split: prod.splits)
  show "smp_keeps E s s1" by (rule smp_keeps_core [OF ok]) (simp_all add: s1)
  show "thr s1 = thr s" "cpus s1 = cpus s" by (simp_all add: s1)
  note ans = sched_highest_answer [OF smp_loads_fit [OF ok topo g] h]
  have sub: "set (leaves E g) \<subseteq> {..mp_maxid (kn E)}" using topo g by (auto simp: topo_ok_def)
  show "d \<in> m \<and> d \<le> mp_maxid (kn E) \<and> l \<le> tdq_load (cpus s d) \<and> tdq_transferable (cpus s d) \<noteq> 0 \<and> d \<in> set (leaves E g)"
    if "r = Some d"
    using that ans best_path_leaf [of True E "cpus s" None _ g d] sub by (auto simp: high_ok_def)
  show "tdq_transferable (cpus s d) = 0" if "r = None" "d \<in> m" "d \<in> set (leaves E g)" "l \<le> tdq_load (cpus s d)"
    using that ans by (auto simp: high_ok_def)
qed

lemma lowest_in_ok:
  assumes ok: "smp_ok E s" and topo: "topo_ok E" and g: "g = cpu_top E \<or> g \<in> set (tdq_cg E c)"
    and r: "lowest_in E g m pri l pref s = (r, s1)"
  shows "smp_keeps E s s1" and "thr s1 = thr s" and "cpus s1 = cpus s"
    and "r = Some d \<Longrightarrow> d \<in> m \<and> d \<le> mp_maxid (kn E) \<and> tdq_load (cpus s d) \<le> l \<and> pri < int (tdq_lowpri (cpus s d))"
    and "r = None \<Longrightarrow> d \<in> m \<Longrightarrow> d \<in> set (leaves E g) \<Longrightarrow> tdq_load (cpus s d) \<le> l \<Longrightarrow> int (tdq_lowpri (cpus s d)) \<le> pri"
proof -
  obtain x where h: "sched_lowest E (cpus s) g m pri l pref (randomval s (self E)) = (r, x)"
    and s1: "s1 = s\<lparr>randomval := (randomval s)(self E := x)\<rparr>"
    using r by (auto simp: lowest_in_def split: prod.splits)
  show "smp_keeps E s s1" by (rule smp_keeps_core [OF ok]) (simp_all add: s1)
  show "thr s1 = thr s" "cpus s1 = cpus s" by (simp_all add: s1)
  note ans = sched_lowest_answer [OF smp_loads_fit [OF ok topo g] h]
  have sub: "set (leaves E g) \<subseteq> {..mp_maxid (kn E)}" using topo g by (auto simp: topo_ok_def)
  show "d \<in> m \<and> d \<le> mp_maxid (kn E) \<and> tdq_load (cpus s d) \<le> l \<and> pri < int (tdq_lowpri (cpus s d))" if "r = Some d"
    using that ans best_path_leaf [of False E "cpus s" "Some pref" _ g d] sub by (auto simp: low_ok_def)
  show "int (tdq_lowpri (cpus s d)) \<le> pri" if "r = None" "d \<in> m" "d \<in> set (leaves E g)" "tdq_load (cpus s d) \<le> l"
    using that ans by (fastforce simp: low_ok_def)
qed

section \<open>The balancer\<close>

definition balance_measure :: "nat \<Rightarrow> nat set \<Rightarrow> (nat \<times> nat set \<times> bool) option \<Rightarrow> nat" where
  "balance_measure N hmask st =
    card hmask * (N + 2) + (case st of None \<Rightarrow> 0 | Some (_, lmask, _) \<Rightarrow> card lmask + 1)"

lemma card_remove_less:
  assumes "m \<subseteq> {..<N :: nat}" and "d \<in> m"
  shows "card (m - {d}) * (N + 2) + N + 1 < card m * (N + 2)" and "card (m - {d}) < card m" and "card (m - {d}) < N"
proof -
  have fin: "finite m" by (rule finite_subset [OF assms(1)]) simp
  have c: "card m = Suc (card (m - {d}))" using card_Suc_Diff1 [OF fin assms(2)] by simp
  then show "card (m - {d}) * (N + 2) + N + 1 < card m * (N + 2)" "card (m - {d}) < card m" by simp_all
  show "card (m - {d}) < N" using c card_mono [of "{..<N}" m] assms(1) by simp
qed

lemma balance_loop_ok:
  assumes topo: "topo_ok E" and g: "g = cpu_top E \<or> g \<in> set (tdq_cg E c)"
  shows "smp_ok E s \<Longrightarrow> hmask \<subseteq> {..<CPU_SETSIZE E} \<Longrightarrow>
    (case st of None \<Rightarrow> True | Some (high, lmask, _) \<Rightarrow>
       lmask \<subseteq> {..<CPU_SETSIZE E} \<and> high \<notin> lmask \<and> high \<le> mp_maxid (kn E)) \<Longrightarrow>
    balance_measure (CPU_SETSIZE E) hmask st < n \<Longrightarrow>
    \<exists>s'. balance_loop E g n hmask st s = Inr s' \<and> smp_keeps E s s'"
proof (induction n arbitrary: hmask st s)
  case 0
  then show ?case by simp
next
  case (Suc n)
  let ?N = "CPU_SETSIZE E"
  show ?case
  proof (cases st)
    case None
    obtain r s1 where h: "highest_in E g hmask 2 s = (r, s1)" by fastforce
    note H = highest_in_ok [OF Suc.prems(1) topo g h]
    have ok1: "smp_ok E s1" using H(1) by (simp add: smp_keeps_def)
    show ?thesis
    proof (cases r)
      case None
      then show ?thesis using h \<open>st = None\<close> H(1) by simp
    next
      case (Some high)
      note hi = H(4) [OF Some]
      show ?thesis
      proof (cases "hmask - {high} = {}")
        case True
        then show ?thesis using h \<open>st = None\<close> Some H(1) by simp
      next
        case False
        have "balance_measure ?N (hmask - {high}) (Some (high, hmask - {high}, True)) < n"
          using card_remove_less [OF Suc.prems(2), of high] hi Suc.prems(4) None by (simp add: balance_measure_def)
        moreover have "hmask - {high} \<subseteq> {..<?N}" using Suc.prems(2) by auto
        ultimately obtain s' where "balance_loop E g n (hmask - {high}) (Some (high, hmask - {high}, True)) s1 = Inr s'" "smp_keeps E s1 s'"
          using Suc.IH [OF ok1, of "hmask - {high}" "Some (high, hmask - {high}, True)"] hi by auto
        then show ?thesis using h None Some False smp_keeps_trans [OF H(1)] by (simp add: Let_def)
      qed
    qed
  next
    case (Some p)
    obtain high lmask anylow where p: "p = (high, lmask, anylow)" by (cases p)
    have st: "lmask \<subseteq> {..<?N}" "high \<notin> lmask" "high \<le> mp_maxid (kn E)" using Suc.prems(3) Some p by simp_all
    obtain r s1 where l: "lowest_in E g lmask (-1) (tdq_load (cpus s high) - 1) high s = (r, s1)" by fastforce
    note L = lowest_in_ok [OF Suc.prems(1) topo g l]
    have ok1: "smp_ok E s1" using L(1) by (simp add: smp_keeps_def)
    show ?thesis
    proof (cases r)
      case None
      show ?thesis
      proof (cases anylow)
        case True
        then show ?thesis using l p Some None L(1) by simp
      next
        case False
        have "balance_measure ?N hmask None < n" using Suc.prems(4) Some p by (simp add: balance_measure_def)
        then obtain s' where "balance_loop E g n hmask None s1 = Inr s'" "smp_keeps E s1 s'"
          using Suc.IH [OF ok1 Suc.prems(2), of None] by auto
        then show ?thesis using l p Some None False smp_keeps_trans [OF L(1)] by simp
      qed
    next
      case (Some low)
      note lo = L(4) [OF Some]
      have "high \<noteq> low" using lo st(2) by auto
      with lo obtain b s2 where bp: "sched_balance_pair E high low s1 = Inr (b, s2)" "smp_keeps E s1 s2"
        using sched_balance_pair_ok [OF ok1 st(3), of low] by blast
      have k2: "smp_keeps E s s2" using smp_keeps_trans [OF L(1) bp(2)] .
      have ok2: "smp_ok E s2" using bp(2) by (simp add: smp_keeps_def)
      show ?thesis
      proof (cases b)
        case True
        have "card (hmask - {low}) \<le> card hmask"
          using Suc.prems(2) finite_subset by (intro card_mono) auto
        then have "card (hmask - {low}) * (?N + 2) \<le> card hmask * (?N + 2)" by (rule mult_le_mono1)
        then have "balance_measure ?N (hmask - {low}) None < n"
          using Suc.prems(4) \<open>st = Some p\<close> p by (simp add: balance_measure_def)
        moreover have "hmask - {low} \<subseteq> {..<?N}" using Suc.prems(2) by auto
        ultimately obtain s' where "balance_loop E g n (hmask - {low}) None s2 = Inr s'" "smp_keeps E s2 s'"
          using Suc.IH [OF ok2, of "hmask - {low}" None] by auto
        then show ?thesis using l p \<open>st = Some p\<close> Some bp True smp_keeps_trans [OF k2] by simp
      next
        case False
        have "balance_measure ?N hmask (Some (high, lmask - {low}, False)) < n"
          using card_remove_less(2) [OF st(1), of low] lo Suc.prems(4) \<open>st = Some p\<close> p by (simp add: balance_measure_def)
        moreover have "lmask - {low} \<subseteq> {..<?N}" "high \<notin> lmask - {low}" using st by auto
        ultimately obtain s' where "balance_loop E g n hmask (Some (high, lmask - {low}, False)) s2 = Inr s'" "smp_keeps E s2 s'"
          using Suc.IH [OF ok2 Suc.prems(2), of "Some (high, lmask - {low}, False)"] st(3) by auto
        then show ?thesis using l p \<open>st = Some p\<close> Some bp False smp_keeps_trans [OF k2] by simp
      qed
    qed
  qed
qed

text \<open>
  C25: The load balancer ends without a fault from every consistent state of the processors. It neither
  loses nor duplicates a thread: the same threads are queued, each on one processor, the total load is
  the same, and a thread is only moved to a processor it may run on, if it is not pinned.
\<close>

theorem balance_keeps_threads:
  assumes ok: "smp_ok E s" and topo: "topo_ok E"
  shows "\<exists>s'. sched_balance_group E (cpu_top E) s = Inr s' \<and> smp_keeps E s s'"
proof -
  have "balance_measure (CPU_SETSIZE E) {..<CPU_SETSIZE E} None < balance_turns (CPU_SETSIZE E)"
    by (simp add: balance_measure_def balance_turns_def)
  from balance_loop_ok [OF topo _ ok _ _ this, of "cpu_top E"] show ?thesis by (simp add: sched_balance_group_def)
qed

text \<open>Four processors; the first has the thread 7.\<close>

definition smp7 :: "64 word smp" where
  "smp7 = \<lparr>cpus = (\<lambda>c. if c = 0 then tdq7 else tdq0), thr = thr7, curthr = (\<lambda>c. 100 + c), randomval = (\<lambda>_. 1),
    balance_tdq = Some 0, balance_ticks = 0, ipis = [], draws = 0\<rparr>"

lemma cpu_env0_simps: "kn cpu_env0 = freebsd" "rqmd cpu_env0 = amd64_runq" "mp_maxid freebsd = 3"
  "CPU_SETSIZE cpu_env0 = 8" "cpu_top cpu_env0 = smt4" "self cpu_env0 = 0"
  by (simp_all add: cpu_env0_def freebsd_def)

lemma topo0: "topo_ok cpu_env0"
proof -
  have "set (tdq_cg cpu_env0 c) \<subseteq> {CG {0, 1} 1 True [], CG {2, 3} 1 True [], smt4}" for c
    by (auto simp: cpu_env0_def)
  then have g: "g \<in> {CG {0, 1} 1 True [], CG {2, 3} 1 True [], smt4}"
    if "g = cpu_top cpu_env0 \<or> (\<exists>c. g \<in> set (tdq_cg cpu_env0 c))" for g
    using that by (auto simp: cpu_env0_simps)
  have "distinct (leaves cpu_env0 g) \<and> set (leaves cpu_env0 g) \<subseteq> {..3}"
    if "g \<in> {CG {0, 1} 1 True [], CG {2, 3} 1 True [], smt4}" for g
    using that cpu_env0_leaves by (auto simp: cpu_order_def cpu_env0_def smt4_def)
  then show ?thesis using g by (auto simp: topo_ok_def cpu_env0_simps)
qed

lemma smp7_ok: "smp_ok cpu_env0 smp7" and smp7_queued: "all_queued cpu_env0 smp7 = {7}"
proof -
  have q: "queued (cpus smp7 c) = (if c = 0 then {7} else {})" for c
    by (simp add: smp7_def tdq7_facts(2) tdq0_queued)
  show all: "all_queued cpu_env0 smp7 = {7}" by (auto simp: all_queued_def q split: if_splits)
  have l: "tdq_load tdq7 = 1" "tdq_load tdq0 = 0"
    by (simp_all add: tdq7_def tdq_add_def tdq_load_add_def tdq_runq_add_eq Let_def counted_def tdq0_def tdq_setup_def
        set_queue_def split: runq_kind.splits prod.splits)
  have load: "tdq_load (cpus smp7 c) = (if c = 0 then 1 else 0)" for c by (simp add: smp7_def l)
  have t: "ts_cpu (thr7 7) = 0" "td_priority (thr7 7) < 256"
  proof -
    obtain T q where r: "tdq_add amd64_runq freebsd 0 (\<lambda>_. td0) tdq0 7 {} = (T, q)" by fastforce
    then have "same_thread td0 (thr7 7)" using tdq_add_frame [OF r] by (simp add: thr7_def)
    then show "ts_cpu (thr7 7) = 0" "td_priority (thr7 7) < 256" using same_threadD [of td0 "thr7 7"] by (simp_all add: td0_def)
  qed
  have ok: "tdq_ok amd64_runq c thr7 (cpus smp7 c)" for c
    using tdq7_facts(1) tdq0_ok by (simp add: smp7_def)
  have sum: "total_load cpu_env0 smp7 = 1" by (simp add: total_load_def load)
  show "smp_ok cpu_env0 smp7"
    using ok t by (simp add: smp_ok_def cpu_env0_simps all q load sum INT_MAX_def)
      (use tdq7_facts(1) tdq0_ok in \<open>simp add: smp7_def thr7_nice\<close>)
qed

theorem balance_keeps_threads_witness:
  "\<exists>s'. sched_balance_group cpu_env0 smt4 smp7 = Inr s' \<and> all_queued cpu_env0 s' = {7}"
  using balance_keeps_threads [OF smp7_ok topo0] smp7_queued by (auto simp: smp_keeps_def cpu_env0_simps)

section \<open>An idle processor\<close>

text \<open>Without interference a donor the search finds is one, so that the search is never restarted.\<close>

definition nothing_in :: "'w::len word cpu_env \<Rightarrow> 'w word smp \<Rightarrow> nat \<Rightarrow> nat \<Rightarrow> bool" where
  "nothing_in E s c d \<longleftrightarrow> no_donor E (cpus s d) \<or> tdq_steal (rqmd E) (thr s) (cpus s d) c = None"

lemma idle_loop_ok:
  assumes topo: "topo_ok E" and c: "c \<le> mp_maxid (kn E)"
  shows "smp_ok E s \<Longrightarrow> tdq_load (cpus s c) = 0 \<Longrightarrow> cnt = switchcnt (cpus s c) \<Longrightarrow> set path \<subseteq> set (tdq_cg E c) \<Longrightarrow>
    path \<noteq> [] \<Longrightarrow> m \<subseteq> {..<CPU_SETSIZE E} - {c} \<Longrightarrow> card m + length path < n \<Longrightarrow>
    (\<forall>d\<in>{..<CPU_SETSIZE E} - {c} - m. nothing_in E s c d) \<Longrightarrow>
    \<exists>v sw s'. idle_loop E (\<lambda>_ s. s) c n path m cnt s = Inr (v, sw, s') \<and> smp_keeps E s s' \<and>
      (if sw then v = 0 \<and> (\<exists>d t. d \<noteq> c \<and> \<not> no_donor E (cpus s d) \<and> moved E d c t s s')
       else v = 1 \<and> cpus s' = cpus s \<and> (\<forall>g\<in>set path. \<forall>d\<in>set (leaves E g) - {c}. nothing_in E s c d))"
proof (induction n arbitrary: path m s)
  case 0
  then show ?case by simp
next
  case (Suc n)
  obtain cg rest where path: "path = cg # rest" using Suc.prems(5) by (cases path) auto
  obtain r s1 where h: "highest_in E cg m (steal_thresh (kn E)) s = (r, s1)" by fastforce
  have g: "cg = cpu_top E \<or> cg \<in> set (tdq_cg E c)" using Suc.prems(4) path by auto
  note H = highest_in_ok [OF Suc.prems(1) topo g h]
  have ok1: "smp_ok E s1" using H(1) by (simp add: smp_keeps_def)
  have ld: "tdq_load (cpus s1 c) = 0" using H(3) Suc.prems(2) by simp
  have same: "nothing_in E s' c d = nothing_in E s c d" if "cpus s' = cpus s" "thr s' = thr s" for s' d
    using that by (simp add: nothing_in_def)
  have "set (leaves E cg) \<subseteq> {..mp_maxid (kn E)}" "mp_maxid (kn E) < CPU_SETSIZE E"
    using topo g by (auto simp: topo_ok_def)
  then have sub: "set (leaves E cg) \<subseteq> {..<CPU_SETSIZE E}" by auto
  show ?case
  proof (cases r)
    case None
    have here: "\<forall>d\<in>set (leaves E cg) - {c}. nothing_in E s c d"
    proof
      fix d assume d: "d \<in> set (leaves E cg) - {c}"
      show "nothing_in E s c d"
      proof (cases "d \<in> m")
        case True
        have "tdq_transferable (cpus s d) = 0" if "steal_thresh (kn E) \<le> tdq_load (cpus s d)"
          by (rule H(5) [OF None True _ that]) (use d in simp)
        then show ?thesis by (auto simp: nothing_in_def no_donor_def)
      next
        case False
        then show ?thesis using Suc.prems(8) d sub by auto
      qed
    qed
    show ?thesis
    proof (cases "rest = []")
      case True
      then show ?thesis using h path None ld H(1,3) here by simp (rule exI [of _ False], simp)
    next
      case False
      have "\<exists>v sw s'. idle_loop E (\<lambda>_ s. s) c n rest m cnt s1 = Inr (v, sw, s') \<and> smp_keeps E s1 s' \<and>
        (if sw then v = 0 \<and> (\<exists>d t. d \<noteq> c \<and> \<not> no_donor E (cpus s1 d) \<and> moved E d c t s1 s')
         else v = 1 \<and> cpus s' = cpus s1 \<and> (\<forall>g\<in>set rest. \<forall>d\<in>set (leaves E g) - {c}. nothing_in E s1 c d))"
        using Suc.prems path ld H(2,3) same [OF H(3,2)] False by (intro Suc.IH [OF ok1]) auto
      then obtain v sw s' where i: "idle_loop E (\<lambda>_ s. s) c n rest m cnt s1 = Inr (v, sw, s')" "smp_keeps E s1 s'"
        "if sw then v = 0 \<and> (\<exists>d t. d \<noteq> c \<and> \<not> no_donor E (cpus s1 d) \<and> moved E d c t s1 s')
         else v = 1 \<and> cpus s' = cpus s1 \<and> (\<forall>g\<in>set rest. \<forall>d\<in>set (leaves E g) - {c}. nothing_in E s1 c d)" by blast
      have "moved E d c t s s' = moved E d c t s1 s'" for d t by (simp add: moved_def H(2,3))
      then show ?thesis
        using h path None ld False i(1,3) smp_keeps_trans [OF H(1) i(2)] here H(3) same [OF H(3,2)]
        by (cases sw) auto
    qed
  next
    case (Some d)
    note d = H(4) [OF Some]
    have nd: "\<not> no_donor E (cpus s1 d)" using d H(3) by (simp add: no_donor_def)
    have dc: "d \<noteq> c" using d Suc.prems(6) by auto
    have dn: "d \<le> mp_maxid (kn E)" using d by simp
    obtain t s3 where mv0: "tdq_move E d c s1 = Inr (t, s3) \<and> curthr s3 = curthr s1 \<and> randomval s3 = randomval s1 \<and>
      (case t of None \<Rightarrow> s3 = s1 \<and> tdq_steal (rqmd E) (thr s1) (cpus s1 d) c = None
       | Some t \<Rightarrow> tdq_steal (rqmd E) (thr s1) (cpus s1 d) c = Some t \<and> t \<in> queued (cpus s1 d) \<and>
         can_steal (thr s1) c t \<and> moved E d c t s1 s3 \<and>
         smp_ok E s3 \<and> all_queued E s3 = all_queued E s1 \<and> total_load E s3 = total_load E s1)"
      using tdq_move_ok [OF ok1 dn c dc] by blast
    have mv: "tdq_move E d c s1 = Inr (t, s3)"
      "case t of None \<Rightarrow> s3 = s1 \<and> tdq_steal (rqmd E) (thr s1) (cpus s1 d) c = None
       | Some t \<Rightarrow> can_steal (thr s1) c t \<and> moved E d c t s1 s3 \<and> smp_ok E s3 \<and> all_queued E s3 = all_queued E s1 \<and>
           total_load E s3 = total_load E s1 \<and> curthr s3 = curthr s1"
      using mv0 by (cases t; simp)+
    have cnt: "cnt = switchcnt (cpus s1 c)" using Suc.prems(3) H(3) by simp
    show ?thesis
    proof (cases t)
      case (Some t')
      then have k: "smp_keeps E s1 s3" using mv(2) smp_keeps_moved [of E d c t' s1 s3] by simp
      have "moved E d c t' s s3" using mv(2) Some by (simp add: moved_def H(2,3))
      moreover have "\<not> no_donor E (cpus s d)" using nd H(3) by simp
      ultimately show ?thesis
        using h path \<open>r = Some d\<close> ld nd cnt mv(1) Some smp_keeps_trans [OF H(1) k] dc by auto
    next
      case None
      then have s3: "s3 = s1" "nothing_in E s c d" using mv(2) H(2,3) by (simp_all add: nothing_in_def)
      have "card (m - {d}) < card m" by (rule card_remove_less(2)) (use Suc.prems(6) d in auto)
      then have less: "card (m - {d}) + length path < n" using Suc.prems(7) by simp
      have "\<exists>v sw s'. idle_loop E (\<lambda>_ s. s) c n path (m - {d}) cnt s1 = Inr (v, sw, s') \<and> smp_keeps E s1 s' \<and>
        (if sw then v = 0 \<and> (\<exists>d t. d \<noteq> c \<and> \<not> no_donor E (cpus s1 d) \<and> moved E d c t s1 s')
         else v = 1 \<and> cpus s' = cpus s1 \<and> (\<forall>g\<in>set path. \<forall>d\<in>set (leaves E g) - {c}. nothing_in E s1 c d))"
        using Suc.prems s3(2) ld H(3) same [OF H(3,2)] less by (intro Suc.IH [OF ok1]) auto
      then obtain v sw s' where i: "idle_loop E (\<lambda>_ s. s) c n path (m - {d}) cnt s1 = Inr (v, sw, s')" "smp_keeps E s1 s'"
        "if sw then v = 0 \<and> (\<exists>d t. d \<noteq> c \<and> \<not> no_donor E (cpus s1 d) \<and> moved E d c t s1 s')
         else v = 1 \<and> cpus s' = cpus s1 \<and> (\<forall>g\<in>set path. \<forall>d\<in>set (leaves E g) - {c}. nothing_in E s1 c d)" by blast
      have "moved E d c t s s' = moved E d c t s1 s'" for d t by (simp add: moved_def H(2,3))
      then show ?thesis
        using h path \<open>r = Some d\<close> ld nd cnt mv(1) None s3(1) i(1,3) smp_keeps_trans [OF H(1) i(2)] H(3) same [OF H(3,2)]
        by (cases sw) auto
    qed
  qed
qed

text \<open>
  An idle processor's search for work ends. Either it steals one thread from a donor with the
  load of the threshold, which moves to this processor and which it then switches to, or it reports
  that it found nothing, and then no processor of its groups had a thread it could steal.
\<close>

theorem idle_finds_work:
  assumes ok: "smp_ok E s" and topo: "topo_ok E" and c: "c \<le> mp_maxid (kn E)" "self E = c" "tdq_load (cpus s c) = 0"
    and on: "smp_started E" "steal_idle (kn E) \<noteq> 0" "tdq_cg E c \<noteq> []"
    and turns: "CPU_SETSIZE E + length (tdq_cg E c) < turns"
  shows "\<exists>v sw s'. tdq_idled E (\<lambda>_ s. s) turns c s = Inr (v, sw, s') \<and> smp_keeps E s s' \<and>
      (if sw then v = 0 \<and> (\<exists>d t. d \<noteq> c \<and> \<not> no_donor E (cpus s d) \<and> moved E d c t s s')
       else v = 1 \<and> cpus s' = cpus s \<and> (\<forall>g\<in>set (tdq_cg E c). \<forall>d\<in>set (leaves E g) - {c}. nothing_in E s c d))"
proof -
  have "card ({..<CPU_SETSIZE E} - {c}) \<le> CPU_SETSIZE E" using card_mono [of "{..<CPU_SETSIZE E}"] by simp
  then have "card ({..<CPU_SETSIZE E} - {c}) + length (tdq_cg E c) < turns" using turns by linarith
  then have "\<exists>v sw s'. idle_loop E (\<lambda>_ s. s) c turns (tdq_cg E c) ({..<CPU_SETSIZE E} - {c}) (switchcnt (cpus s c)) s = Inr (v, sw, s') \<and>
      smp_keeps E s s' \<and>
      (if sw then v = 0 \<and> (\<exists>d t. d \<noteq> c \<and> \<not> no_donor E (cpus s d) \<and> moved E d c t s s')
       else v = 1 \<and> cpus s' = cpus s \<and> (\<forall>g\<in>set (tdq_cg E c). \<forall>d\<in>set (leaves E g) - {c}. nothing_in E s c d))"
    using on by (intro idle_loop_ok [OF topo c(1) ok c(3)]) auto
  then show ?thesis using on by (simp add: tdq_idled_def c(2))
qed

lemma leaves_self: "leaves (E\<lparr>self := n\<rparr>) g = leaves E g" "leaves_of (E\<lparr>self := n\<rparr>) gs = leaves_of E gs"
  by (induction E g and E gs rule: leaves_leaves_of.induct) (simp_all add: cpu_order_def)

text \<open>Seen from processor 1: processor 0 has only the lottery thread 7, which is not stolen.\<close>

theorem idle_finds_work_witness:
  "\<exists>s'. tdq_idled (cpu_env0\<lparr>self := 1\<rparr>) (\<lambda>_ s. s) 20 1 smp7 = Inr (1, False, s') \<and> queued (cpus s' 0) = {7}"
proof -
  let ?E = "cpu_env0\<lparr>self := 1\<rparr>"
  have ok: "smp_ok ?E smp7" using smp7_ok by (simp add: smp_ok_def all_queued_def total_load_def)
  have topo: "topo_ok ?E" using topo0 by (simp add: topo_ok_def leaves_self)
  have load0: "tdq_load (cpus smp7 1) = 0" by (simp add: smp7_def tdq0_def tdq_setup_def)
  have moved7: False if "d \<noteq> 1" "\<not> no_donor ?E (cpus smp7 d)" for d
  proof -
    have "tdq_load tdq7 = 1" "tdq_load tdq0 = 0"
      by (simp_all add: tdq7_def tdq_add_def tdq_load_add_def tdq_runq_add_eq Let_def counted_def tdq0_def tdq_setup_def
          set_queue_def split: runq_kind.splits prod.splits)
    then show False using that by (auto simp: no_donor_def smp7_def cpu_env0_simps freebsd_def split: if_splits)
  qed
  have "\<exists>v sw s'. tdq_idled ?E (\<lambda>_ s. s) 20 1 smp7 = Inr (v, sw, s') \<and> smp_keeps ?E smp7 s' \<and>
      (if sw then v = 0 \<and> (\<exists>d t. d \<noteq> 1 \<and> \<not> no_donor ?E (cpus smp7 d) \<and> moved ?E d 1 t smp7 s')
       else v = 1 \<and> cpus s' = cpus smp7 \<and> (\<forall>g\<in>set (tdq_cg ?E 1). \<forall>d\<in>set (leaves ?E g) - {1}. nothing_in ?E smp7 1 d))"
    by (rule idle_finds_work [OF ok topo _ _ load0]) (simp_all add: cpu_env0_def freebsd_def)
  then obtain v sw s' where i: "tdq_idled ?E (\<lambda>_ s. s) 20 1 smp7 = Inr (v, sw, s')"
    "if sw then \<exists>d t. d \<noteq> 1 \<and> \<not> no_donor ?E (cpus smp7 d) \<and> moved ?E d 1 t smp7 s'
       else v = 1 \<and> cpus s' = cpus smp7" by (metis (no_types, lifting))
  then have "\<not> sw" using moved7 by auto
  then show ?thesis using i by (simp add: smp7_def tdq7_facts(2))
qed

section \<open>The processor chosen for a thread\<close>

lemma search_lowest_ok:
  assumes ok: "smp_ok E s" and topo: "topo_ok E" and here: "self E \<le> mp_maxid (kn E)" and t: "ts_cpu (thr s t) \<le> mp_maxid (kn E)"
    and some: "td_cpuset (thr s t) \<inter> set (leaves E (cpu_top E)) \<noteq> {}"
  shows "\<exists>cpu s'. search_lowest E t s = Inr (cpu, s') \<and> cpu \<in> td_cpuset (thr s t) \<inter> {..mp_maxid (kn E)} \<and> smp_keeps E s s' \<and>
    cpus s' = cpus s \<and> thr s' = thr s"
proof -
  let ?td = "thr s t" and ?k = "kn E" and ?top = "cpu_top E"
  define pri where "pri = int (td_priority ?td)"
  have step: "smp_keeps E s s2 \<and> cpus s2 = cpus s \<and> thr s2 = thr s \<and> (r \<noteq> None \<longrightarrow> the r \<in> td_cpuset ?td \<inter> {..mp_maxid ?k})"
    if s1: "smp_keeps E s s1" "cpus s1 = cpus s" "thr s1 = thr s" and g: "g = ?top \<or> g \<in> set (tdq_cg E (ts_cpu ?td))"
      and l: "lowest_in E g (td_cpuset ?td) p INT_MAX (ts_cpu ?td) s1 = (r, s2)" for g p r s1 s2
  proof -
    have "smp_ok E s1" using s1(1) by (simp add: smp_keeps_def)
    note L = lowest_in_ok [OF this topo g l]
    show ?thesis using smp_keeps_trans [OF s1(1) L(1)] L(2,3) L(4) s1 by (cases r) auto
  qed
  obtain c1 s1 where one: "(case last_cache E ?td (tdq_cg E (ts_cpu ?td)) of
              None \<Rightarrow> (None, s)
            | Some cg \<Rightarrow>
                if cg \<noteq> ?top \<and> cg_mask cg \<noteq> cg_mask ?top
                then lowest_in E cg (td_cpuset ?td) (max pri (int (PRI_MAX_TIMESHARE ?k))) INT_MAX (ts_cpu ?td) s
                else (None, s)) = (c1, s1)" by fastforce
  have k1: "smp_keeps E s s1 \<and> cpus s1 = cpus s \<and> thr s1 = thr s \<and> (c1 \<noteq> None \<longrightarrow> the c1 \<in> td_cpuset ?td \<inter> {..mp_maxid ?k})"
  proof (cases "last_cache E ?td (tdq_cg E (ts_cpu ?td))")
    case (Some cg)
    obtain gs where f: "filter (\<lambda>cg. \<not> cg_thread cg \<and> SCHED_AFFINITY E ?td (cg_level cg)) (tdq_cg E (ts_cpu ?td)) = rev gs @ [cg]"
      using Some by (auto simp: last_cache_def split: list.splits)
    have "cg \<in> set (filter (\<lambda>cg. \<not> cg_thread cg \<and> SCHED_AFFINITY E ?td (cg_level cg)) (tdq_cg E (ts_cpu ?td)))"
      unfolding f by simp
    then have "cg \<in> set (tdq_cg E (ts_cpu ?td))" by simp
    then have st: "lowest_in E cg (td_cpuset ?td) p INT_MAX (ts_cpu ?td) s = (c1, s1) \<Longrightarrow>
        smp_keeps E s s1 \<and> cpus s1 = cpus s \<and> thr s1 = thr s \<and> (c1 \<noteq> None \<longrightarrow> the c1 \<in> td_cpuset ?td \<inter> {..mp_maxid ?k})" for p
      using step [OF smp_keeps_refl [OF ok] refl refl, of cg] by blast
    show ?thesis
    proof (cases "cg \<noteq> ?top \<and> cg_mask cg \<noteq> cg_mask ?top")
      case True
      then show ?thesis using one Some by (intro st [of "max pri (int (PRI_MAX_TIMESHARE ?k))"]) simp
    next
      case False
      then have "(None, s) = (c1, s1)" using one unfolding Some option.case if_not_P [OF False] by simp
      then show ?thesis using smp_keeps_refl [OF ok] by auto
    qed
  qed (use one smp_keeps_refl [OF ok] in auto)
  obtain c2 s2 where two: "(if c1 = None then lowest_in E ?top (td_cpuset ?td) pri INT_MAX (ts_cpu ?td) s1 else (c1, s1)) = (c2, s2)"
    by fastforce
  have k2: "smp_keeps E s s2 \<and> cpus s2 = cpus s \<and> thr s2 = thr s \<and> (c2 \<noteq> None \<longrightarrow> the c2 \<in> td_cpuset ?td \<inter> {..mp_maxid ?k})"
  proof (cases c1)
    case None
    have l: "lowest_in E ?top (td_cpuset ?td) pri INT_MAX (ts_cpu ?td) s1 = (c2, s2)" using two unfolding None by simp
    show ?thesis by (rule step [OF _ _ _ disjI1 [OF refl] l]) (use k1 in simp_all)
  next
    case (Some d)
    then show ?thesis using two k1 by auto
  qed
  obtain c3 s3 where three: "(if c2 = None then lowest_in E ?top (td_cpuset ?td) (-1) INT_MAX (ts_cpu ?td) s2 else (c2, s2)) = (c3, s3)"
    by fastforce
  have k3: "smp_keeps E s s3 \<and> cpus s3 = cpus s \<and> thr s3 = thr s \<and> (c3 \<noteq> None \<longrightarrow> the c3 \<in> td_cpuset ?td \<inter> {..mp_maxid ?k})"
  proof (cases c2)
    case None
    have l: "lowest_in E ?top (td_cpuset ?td) (-1) INT_MAX (ts_cpu ?td) s2 = (c3, s3)" using three unfolding None by simp
    show ?thesis by (rule step [OF _ _ _ disjI1 [OF refl] l]) (use k2 in simp_all)
  next
    case (Some d)
    then show ?thesis using three k2 by auto
  qed
  have "c3 \<noteq> None"
  proof (cases c2)
    case None
    then have l: "lowest_in E ?top (td_cpuset ?td) (-1) INT_MAX (ts_cpu ?td) s2 = (c3, s3)" using three by simp
    obtain d where d: "d \<in> td_cpuset ?td" "d \<in> set (leaves E ?top)" using some by auto
    have ok2: "smp_ok E s2" using k2 by (simp add: smp_keeps_def)
    have "d \<le> mp_maxid ?k" using topo d(2) by (auto simp: topo_ok_def)
    then have "tdq_load (cpus s2 d) \<le> total_load E s2"
      unfolding total_load_def using ok2 by (intro member_le_sum) (auto simp: smp_ok_def)
    moreover have "256 * total_load E s2 < INT_MAX" "0 \<le> total_load E s2"
      using ok2 by (auto simp: smp_ok_def total_load_def intro: sum_nonneg)
    ultimately have "tdq_load (cpus s2 d) \<le> INT_MAX" by linarith
    then show ?thesis using lowest_in_ok(5) [OF ok2 topo disjI1 [OF refl] l _ d] by fastforce
  next
    case (Some d)
    then show ?thesis using three by auto
  qed
  then obtain cpu where c3: "c3 = Some cpu" by auto
  have "search_lowest E t s = Inr (if THREAD_CAN_SCHED ?td (self E) \<and> int (tdq_lowpri (cpus s3 (self E))) > pri \<and>
                    tdq_lowpri (cpus s3 cpu) < PRI_MIN_IDLE ?k \<and> tdq_load (cpus s3 (self E)) \<le> tdq_load (cpus s3 cpu) + 1
                 then self E else cpu, s3)"
    unfolding search_lowest_def Let_def pri_def [symmetric] one prod.case two three c3 by simp
  then show ?thesis using k3 c3 here by (auto simp: THREAD_CAN_SCHED_def)
qed

text \<open>All cases: the thread stays out of the queues, only its \<open>ts_cpu\<close> may change.\<close>

definition pickable :: "'w::len word cpu_env \<Rightarrow> 'w word smp \<Rightarrow> tid \<Rightarrow> bool" where
  "pickable E s t \<longleftrightarrow> self E \<le> mp_maxid (kn E) \<and> ts_cpu (thr s t) \<le> mp_maxid (kn E) \<and> t \<notin> all_queued E s \<and>
    (\<forall>c. tdq_cg E c \<noteq> []) \<and> td_cpuset (thr s t) \<inter> set (leaves E (cpu_top E)) \<noteq> {}"

definition picked :: "'w::len word cpu_env \<Rightarrow> tid \<Rightarrow> 'w word smp \<Rightarrow> 'w word smp \<Rightarrow> bool" where
  "picked E t s s' \<longleftrightarrow> smp_ok E s' \<and> cpus s' = cpus s \<and> curthr s' = curthr s \<and> (\<forall>u. u \<noteq> t \<longrightarrow> thr s' u = thr s u) \<and>
    (\<exists>c. thr s' t = (thr s t)\<lparr>ts_cpu := c\<rparr>)"

lemma pickcpu_ok:
  assumes ok: "smp_ok E s" and topo: "topo_ok E" and p: "pickable E s t"
  shows "\<exists>cpu s'. sched_pickcpu E t flags s = Inr (cpu, s') \<and> picked E t s s' \<and> cpu \<le> mp_maxid (kn E) \<and>
    (smp_started E \<and> SRQ_OURSELF \<notin> flags \<and> THREAD_CAN_MIGRATE (thr s t) \<longrightarrow> cpu \<in> td_cpuset (thr s t))"
proof (cases "smp_started E \<and> SRQ_OURSELF \<notin> flags \<and> THREAD_CAN_MIGRATE (thr s t)")
  case False
  have same: "picked E t s s" using ok by (auto simp: picked_def intro: exI [of _ "ts_cpu (thr s t)"])
  have le: "self E \<le> mp_maxid (kn E)" "ts_cpu (thr s t) \<le> mp_maxid (kn E)" using p by (simp_all add: pickable_def)
  have "sched_pickcpu E t flags s = Inr (self E, s) \<and> \<not> smp_started E \<or>
      sched_pickcpu E t flags s = Inr (ts_cpu (thr s t), s) \<and> smp_started E"
    using False by (auto simp: sched_pickcpu_def Let_def)
  then show ?thesis using same le False by auto
next
  case run: True
  have here: "self E \<le> mp_maxid (kn E)" and t: "ts_cpu (thr s t) \<le> mp_maxid (kn E)" "t \<notin> all_queued E s"
    and groups: "\<forall>c. tdq_cg E c \<noteq> []" and some: "td_cpuset (thr s t) \<inter> set (leaves E (cpu_top E)) \<noteq> {}"
    using p by (simp_all add: pickable_def)
  define intr where "intr \<longleftrightarrow> td_priority (thr s t) \<le> PRI_MAX_ITHD (kn E) \<and> THREAD_CAN_SCHED (thr s t) (self E) \<and>
    intr_nesting E \<noteq> 0 \<and> ts_cpu (thr s t) \<noteq> self E"
  define s1 where "s1 = (if intr then upd_thr t (\<lambda>x. x\<lparr>ts_cpu := self E\<rparr>) s else s)"
  have other: "\<forall>u. u \<noteq> t \<longrightarrow> thr s1 u = thr s u" and c1: "cpus s1 = cpus s" and set1: "td_cpuset (thr s1 t) = td_cpuset (thr s t)"
    and t1: "ts_cpu (thr s1 t) \<le> mp_maxid (kn E)"
    using t(1) here by (simp_all add: s1_def upd_thr_def)
  have ok1: "smp_ok E s1" by (rule smp_ok_thr [OF ok c1]) (use other t(2) in metis)
  have p1: "picked E t s s1"
    using ok1 c1 other by (auto simp: picked_def s1_def upd_thr_def intro: exI [of _ "ts_cpu (thr s t)"])
  obtain cpu s' where sl: "search_lowest E t s1 = Inr (cpu, s')" "cpu \<in> td_cpuset (thr s t)" "cpu \<le> mp_maxid (kn E)"
    "smp_keeps E s1 s'" "cpus s' = cpus s" "thr s' = thr s1"
    using search_lowest_ok [OF ok1 topo here t1] some set1 c1 by auto
  have p': "picked E t s s'" using p1 sl(4-6) by (simp add: picked_def smp_keeps_def)
  have cg: "\<exists>cg rest. tdq_cg E c = cg # rest" for c using groups by (cases "tdq_cg E c") auto
  have near: "THREAD_CAN_SCHED (thr s t) c \<Longrightarrow> c \<in> td_cpuset (thr s t)" for c by (simp add: THREAD_CAN_SCHED_def)
  have pick: "sched_pickcpu E t flags s =
      (let near = ts_cpu (thr s1 t); idle = (\<lambda>c. tdq_lowpri (cpus s1 c) \<ge> PRI_MIN_IDLE (kn E))
       in if intr \<and> tdq_lowpri (cpus s1 (self E)) > td_priority (thr s t) then Inr (self E, s1)
          else if THREAD_CAN_SCHED (thr s t) near \<and> idle near \<and> SCHED_AFFINITY E (thr s t) (CG_SHARE_L2 E)
          then (case tdq_cg E near of
                  [] \<Rightarrow> Inl Null_deref
                | cg # _ \<Rightarrow>
                    if cg_thread cg \<longrightarrow> list_all (\<lambda>c. c \<in> cg_mask cg \<longrightarrow> idle c) [0..<Suc (mp_maxid (kn E))]
                    then Inr (near, s1) else search_lowest E t s1)
          else search_lowest E t s1)"
    using run unfolding sched_pickcpu_def Let_def s1_def intr_def by (simp only: simp_thms if_True if_False)
  show ?thesis
  proof (cases "intr \<and> tdq_lowpri (cpus s1 (self E)) > td_priority (thr s t)")
    case True
    then show ?thesis using near p1 here by (simp add: pick Let_def intr_def)
  next
    case False
    obtain cg rest where cgs: "tdq_cg E (ts_cpu (thr s1 t)) = cg # rest" using cg by blast
    have "sched_pickcpu E t flags s = search_lowest E t s1 \<or>
      sched_pickcpu E t flags s = Inr (ts_cpu (thr s1 t), s1) \<and> THREAD_CAN_SCHED (thr s t) (ts_cpu (thr s1 t))"
      unfolding pick Let_def cgs list.case if_not_P [OF False] by simp
    then show ?thesis using near p1 p' sl t1 by auto
  qed
qed

text \<open>
  C27: The processor chosen for a thread that may migrate is one the thread may run on, and the choice
  never fails: the last search finds a processor whenever the thread's set has one of the system. The
  queues are not touched.
\<close>

theorem pickcpu_allowed:
  assumes ok: "smp_ok E s" and topo: "topo_ok E" and here: "self E \<le> mp_maxid (kn E)"
    and t: "ts_cpu (thr s t) \<le> mp_maxid (kn E)" "t \<notin> all_queued E s" and groups: "\<forall>c. tdq_cg E c \<noteq> []"
    and some: "td_cpuset (thr s t) \<inter> set (leaves E (cpu_top E)) \<noteq> {}"
    and run: "smp_started E" "SRQ_OURSELF \<notin> flags" "THREAD_CAN_MIGRATE (thr s t)"
  shows "\<exists>cpu s'. sched_pickcpu E t flags s = Inr (cpu, s') \<and> cpu \<in> td_cpuset (thr s t) \<and> smp_ok E s' \<and> cpus s' = cpus s"
proof -
  have "pickable E s t" using here t groups some by (simp add: pickable_def)
  from pickcpu_ok [OF ok topo this, of flags] show ?thesis using run by (auto simp: picked_def)
qed

theorem pickcpu_allowed_witness:
  "\<exists>cpu s'. sched_pickcpu cpu_env0 8 {} (upd_thr 8 (\<lambda>x. x\<lparr>td_cpuset := {1, 3}\<rparr>) smp7) = Inr (cpu, s') \<and> (cpu = 1 \<or> cpu = 3)"
proof -
  let ?s = "upd_thr 8 (\<lambda>x. x\<lparr>td_cpuset := {1, 3}\<rparr>) smp7"
  have c: "cpus ?s = cpus smp7" "all_queued cpu_env0 ?s = {7}"
    using smp7_queued by (simp_all add: upd_thr_def all_queued_def)
  have ok: "smp_ok cpu_env0 ?s"
    by (rule smp_ok_thr [OF smp7_ok c(1)]) (simp add: smp7_queued upd_thr_def)
  have "thr7 8 = td0"
    by (simp add: thr7_def tdq_add_def tdq_runq_add_eq Let_def marked_def runq_add_pri_def split: runq_kind.splits)
  have e: "\<forall>c. tdq_cg cpu_env0 c \<noteq> []" "smp_started cpu_env0" by (simp_all add: cpu_env0_def)
  from \<open>thr7 8 = td0\<close> have t8: "td_cpuset (thr ?s 8) = {1, 3}" "ts_cpu (thr ?s 8) = 0" "td_pinned (thr ?s 8) = 0"
    by (simp_all add: upd_thr_def smp7_def td0_def)
  show ?thesis
    using pickcpu_allowed [OF ok topo0, of 8 "{}"] c t8 e
    by (auto simp: cpu_env0_simps cpu_env0_leaves THREAD_CAN_MIGRATE_def)
qed

end
