(* ===== verification/Sched_Sys.thy ===== *)
theory Sched_Sys
  imports Sched_Smp_Props
begin

text \<open>
  The scheduler's operations on threads (\<open>src/asgn2/kern/sched_ule.c\<close>, \<open>kern_switch.c\<close>): adding a
  thread, priorities and priority lending, the context switch, sleep and wakeup, the clock tick,
  binding, critical sections and the idle thread. They act on the state \<open>smp\<close>; the processor that
  executes is \<open>self\<close>, its current thread \<open>curthr s (self E)\<close>.

  \<open>mi_switch\<close> and \<open>cpu_switch\<close> are not in these files. An operation that ends in \<open>mi_switch\<close> returns the
  flags it passes; \<open>cpu_switch\<close> makes the chosen thread the current one. \<open>turnstile_adjust\<close> is the
  argument \<open>ta\<close>. What other processors do while a lock is dropped is the argument \<open>others\<close>.
\<close>

datatype sw_flag = SW_VOL | SW_INVOL | SW_PREEMPT | SWT_IDLE | SWT_RELINQUISH | SWT_OWEPREEMPT
  | SWT_REMOTEPREEMPT | SWT_REMOTEWAKEIDLE

definition s16_of :: "int \<Rightarrow> int" where "s16_of x = signed_take_bit 15 x"

definition current :: "'w cpu_env \<Rightarrow> 'w smp \<Rightarrow> tid" where
  "current E s = curthr s (self E)"

definition on_thread :: "tid \<Rightarrow> (thread \<Rightarrow> fault + thread) \<Rightarrow> 'w smp \<Rightarrow> fault + 'w smp" where
  "on_thread t f s = and_then (f (thr s t)) (\<lambda>td. Inr (s\<lparr>thr := (thr s)(t := td)\<rparr>))"

definition tdq_runq_add_on :: "'w::len word cpu_env \<Rightarrow> nat \<Rightarrow> tid \<Rightarrow> srq_flag set \<Rightarrow> 'w word smp \<Rightarrow> 'w word smp" where
  "tdq_runq_add_on E c t flags s =
    (let (T, q) = tdq_runq_add (rqmd E) (kn E) c (thr s) (cpus s c) t flags
     in s\<lparr>thr := T, cpus := (cpus s)(c := q)\<rparr>)"

definition tdq_setlowpri_on :: "'w::len word cpu_env \<Rightarrow> nat \<Rightarrow> tid \<Rightarrow> 'w word smp \<Rightarrow> fault + 'w word smp" where
  "tdq_setlowpri_on E c ctd s =
    and_then (tdq_setlowpri (rqmd E) (thr s) (cpus s c) ctd (random E (draws s))) (\<lambda>q.
    Inr (s\<lparr>cpus := (cpus s)(c := q), draws := draws s + 1\<rparr>))"

definition sched_choose_on :: "'w::len word cpu_env \<Rightarrow> 'w word smp \<Rightarrow> fault + (tid \<times> 'w word smp)" where
  "sched_choose_on E s =
    (let here = self E
     in and_then (sched_choose (rqmd E) (kn E) here (idlethread E here) (thr s) (cpus s here) (random E (draws s)))
          (\<lambda>(t, T, q). Inr (t, s\<lparr>thr := T, cpus := (cpus s)(here := q), draws := draws s + 1\<rparr>)))"

section \<open>Adding a thread\<close>

definition sched_setpreempt :: "'w cpu_env \<Rightarrow> tid \<Rightarrow> 'w smp \<Rightarrow> 'w smp" where
  "sched_setpreempt E t s =
    (let ctd = current E s; pri = td_priority (thr s t); cpri = td_priority (thr s ctd);
         s1 = (if pri < cpri then upd_thr ctd (\<lambda>x. x\<lparr>td_flags := insert TDF_NEEDRESCHED (td_flags x)\<rparr>) s else s)
     in if panicstr E \<or> pri \<ge> cpri \<or> cold E \<or> td_state (thr s ctd) = TDS_INHIBITED then s1
        else if \<not> sched_shouldpreempt (kn E) pri cpri False then s1
        else upd_thr ctd (\<lambda>x. x\<lparr>td_owepreempt := True\<rparr>) s1)"

definition sched_add :: "'w::len word cpu_env \<Rightarrow> tid \<Rightarrow> srq_flag set \<Rightarrow> 'w word smp \<Rightarrow> fault + 'w word smp" where
  "sched_add E t flags s =
    and_then (if PRI_BASE (kn E) (td_pri_class (thr s t)) = PRI_TIMESHARE (kn E)
              then on_thread t (sched_priority (kn E)) s else Inr s) (\<lambda>s1.
    and_then (sched_pickcpu E t flags s1) (\<lambda>(cpu, s2).
    let s3 = tdq_add_on E cpu t flags (sched_setcpu t cpu s2)
    in Inr (if cpu \<noteq> self E then tdq_notify E cpu t s3
            else if SRQ_YIELDING \<notin> flags then sched_setpreempt E t s3 else s3)))"

section \<open>Priorities\<close>

definition sched_thread_priority :: "'w::len word cpu_env \<Rightarrow> tid \<Rightarrow> nat \<Rightarrow> 'w word smp \<Rightarrow> fault + 'w word smp" where
  "sched_thread_priority E t prio s =
    (let old = td_priority (thr s t); c = ts_cpu (thr s t); set = upd_thr t (\<lambda>x. x\<lparr>td_priority := prio\<rparr>)
     in if old = prio then Inr s
        else if td_state (thr s t) = TDS_RUNQ \<and> prio < old
        then and_then (sched_rem_on E t s) (\<lambda>s1. sched_add E t {SRQ_BORROWING} (set s1))
        else if td_state (thr s t) = TDS_RUNNING
        then if prio < tdq_lowpri (cpus s c) then Inr (upd_cpu c (\<lambda>q. q\<lparr>tdq_lowpri := prio\<rparr>) (set s))
             else if tdq_lowpri (cpus s c) = old then tdq_setlowpri_on E c t (set s)
             else Inr (set s)
        else Inr (set s))"

definition sched_lend_prio :: "'w::len word cpu_env \<Rightarrow> tid \<Rightarrow> nat \<Rightarrow> 'w word smp \<Rightarrow> fault + 'w word smp" where
  "sched_lend_prio E t prio s =
    sched_thread_priority E t prio (upd_thr t (\<lambda>x. x\<lparr>td_flags := insert TDF_BORROWING (td_flags x)\<rparr>) s)"

definition lent_base :: "kern \<Rightarrow> thread \<Rightarrow> nat" where
  "lent_base k td = (if td_base_pri td \<ge> PRI_MIN_TIMESHARE k \<and> td_base_pri td \<le> PRI_MAX_TIMESHARE k
     then td_user_pri td else td_base_pri td)"

definition sched_unlend_prio :: "'w::len word cpu_env \<Rightarrow> tid \<Rightarrow> nat \<Rightarrow> 'w word smp \<Rightarrow> fault + 'w word smp" where
  "sched_unlend_prio E t prio s =
    (let base_pri = lent_base (kn E) (thr s t)
     in if prio \<ge> base_pri
        then sched_thread_priority E t base_pri (upd_thr t (\<lambda>x. x\<lparr>td_flags := td_flags x - {TDF_BORROWING}\<rparr>) s)
        else sched_lend_prio E t prio s)"

definition sched_prio ::
    "'w::len word cpu_env \<Rightarrow> (tid \<Rightarrow> nat \<Rightarrow> 'w word smp \<Rightarrow> fault + 'w word smp) \<Rightarrow> tid \<Rightarrow> nat \<Rightarrow> 'w word smp \<Rightarrow> fault + 'w word smp" where
  "sched_prio E ta t prio s =
    (let s1 = upd_thr t (\<lambda>x. x\<lparr>td_base_pri := prio\<rparr>) s; old = td_priority (thr s t)
     in if TDF_BORROWING \<in> td_flags (thr s t) \<and> old < prio then Inr s1
        else and_then (sched_thread_priority E t prio s1) (\<lambda>s2.
               if TDI_LOCK \<in> td_inhibitors (thr s2 t) \<and> old \<noteq> prio then ta t old s2 else Inr s2))"

definition sched_lend_user_prio ::
    "'w::len word cpu_env \<Rightarrow> (tid \<Rightarrow> nat \<Rightarrow> 'w word smp \<Rightarrow> fault + 'w word smp) \<Rightarrow> tid \<Rightarrow> nat \<Rightarrow> 'w word smp \<Rightarrow> fault + 'w word smp" where
  "sched_lend_user_prio E ta t prio s =
    (let s1 = upd_thr t (\<lambda>x. x\<lparr>td_lend_user_pri := prio, td_user_pri := min prio (td_base_user_pri x)\<rparr>) s;
         td = thr s1 t
     in if td_priority td > td_user_pri td then sched_prio E ta t (td_user_pri td) s1
        else if td_priority td \<noteq> td_user_pri td
        then Inr (upd_thr t (\<lambda>x. x\<lparr>td_flags := insert TDF_NEEDRESCHED (td_flags x)\<rparr>) s1)
        else Inr s1)"

text \<open>The threads of the process are given as a list.\<close>

fun nice_threads ::
    "'w::len word cpu_env \<Rightarrow> (tid \<Rightarrow> nat \<Rightarrow> 'w word smp \<Rightarrow> fault + 'w word smp) \<Rightarrow> tid list \<Rightarrow> 'w word smp \<Rightarrow> fault + 'w word smp" where
  "nice_threads E ta [] s = Inr s"
| "nice_threads E ta (t # ts) s =
    and_then (on_thread t (sched_priority (kn E)) s) (\<lambda>s1.
    and_then (sched_prio E ta t (td_base_user_pri (thr s1 t)) s1) (\<lambda>s2. nice_threads E ta ts s2))"

definition sched_nice ::
    "'w::len word cpu_env \<Rightarrow> (tid \<Rightarrow> nat \<Rightarrow> 'w word smp \<Rightarrow> fault + 'w word smp) \<Rightarrow> tid list \<Rightarrow> int \<Rightarrow> 'w word smp \<Rightarrow> fault + 'w word smp" where
  "sched_nice E ta ts nice s =
    nice_threads E ta ts (s\<lparr>thr := (\<lambda>t. if List.member ts t then (thr s t)\<lparr>p_nice := nice\<rparr> else thr s t)\<rparr>)"

definition sched_userret :: "'w::len word cpu_env \<Rightarrow> tid \<Rightarrow> 'w word smp \<Rightarrow> fault + 'w word smp" where
  "sched_userret E t s =
    (if td_priority (thr s t) \<noteq> td_user_pri (thr s t)
     then tdq_setlowpri_on E (self E) t (upd_thr t (\<lambda>x. x\<lparr>td_priority := td_user_pri x, td_base_pri := td_user_pri x\<rparr>) s)
     else Inr s)"

section \<open>Sleep, wakeup, fork and exit\<close>

definition sched_sleep ::
    "'w::len word cpu_env \<Rightarrow> (tid \<Rightarrow> nat \<Rightarrow> 'w word smp \<Rightarrow> fault + 'w word smp) \<Rightarrow> tid \<Rightarrow> int \<Rightarrow> 'w word smp \<Rightarrow> fault + 'w word smp" where
  "sched_sleep E ta t prio s =
    (let k = kn E;
         s1 = upd_thr t (\<lambda>x. x\<lparr>td_slptick := ticks E,
                td_flags := if TDI_SUSPENDED \<in> td_inhibitors x \<or> prio \<ge> PSOCK E then insert TDF_CANSWAP (td_flags x) else td_flags x\<rparr>) s
     in if PRI_BASE k (td_pri_class (thr s t)) \<noteq> PRI_TIMESHARE k then Inr s1
        else if static_boost k = 1 \<and> prio \<noteq> 0 then sched_prio E ta t (u_char_of prio) s1
        else if static_boost k \<noteq> 0 \<and> int (td_priority (thr s1 t)) > static_boost k
        then sched_prio E ta t (u_char_of (static_boost k)) s1
        else Inr s1)"

definition woken :: "'w cpu_env \<Rightarrow> thread \<Rightarrow> fault + thread" where
  "woken E td =
    (let slptick = td_slptick td; td1 = td\<lparr>td_flags := td_flags td - {TDF_CANSWAP}, td_slptick := 0\<rparr>
     in and_then (if slptick \<noteq> 0 \<and> slptick \<noteq> ticks E
          then sched_pctcpu_update (kn E) (ticks E) False (sched_interact_update (kn E)
                 (td1\<lparr>ts_slptime := u32_of (ts_slptime td1 + push_bit SCHED_TICK_SHIFT (s32_of (ticks E - slptick)))\<rparr>))
          else Inr td1) (\<lambda>td2. Inr (td2\<lparr>ts_slice := 0\<rparr>)))"

definition sched_wakeup :: "'w::len word cpu_env \<Rightarrow> tid \<Rightarrow> 'w word smp \<Rightarrow> fault + 'w word smp" where
  "sched_wakeup E t s = and_then (on_thread t (woken E) s) (\<lambda>s1. sched_add E t {} s1)"

text \<open>\<open>first\<close> is the first thread of the process.\<close>

definition sched_exit :: "kern \<Rightarrow> tid \<Rightarrow> tid \<Rightarrow> 'w smp \<Rightarrow> fault + 'w smp" where
  "sched_exit k first child s = on_thread first (\<lambda>td. sched_exit_thread k td (thr s child)) s"

definition sched_fork_exit :: "'w cpu_env \<Rightarrow> tid \<Rightarrow> 'w smp \<Rightarrow> 'w smp" where
  "sched_fork_exit E t s = upd_thr t (\<lambda>x. x\<lparr>td_oncpu := int (self E)\<rparr>) s"

end
