(* ===== verification/Sched_Switch.thy ===== *)
theory Sched_Switch
  imports Sched_Sys
begin

text \<open>
  The context switch, preemption, the clock tick, binding and the idle thread
  (\<open>src/asgn2/kern/sched_ule.c\<close>), with \<open>choosethread\<close> and the critical sections of \<open>kern_switch.c\<close>.
  \<open>turns\<close> bounds the loops.
\<close>

section \<open>Choosing the next thread\<close>

fun choosethread_panic :: "'w::len word cpu_env \<Rightarrow> nat \<Rightarrow> tid \<Rightarrow> 'w word smp \<Rightarrow> fault + (tid \<times> 'w word smp)" where
  "choosethread_panic E 0 t s = Inl Diverges"
| "choosethread_panic E (Suc n) t s =
    (if \<not> p_system (thr s t) \<and> TDF_INPANIC \<notin> td_flags (thr s t)
     then and_then (sched_choose_on E (upd_thr t (\<lambda>x. x\<lparr>td_state := TDS_CAN_RUN\<rparr>) s)) (\<lambda>(t', s').
            choosethread_panic E n t' s')
     else Inr (t, upd_thr t (\<lambda>x. x\<lparr>td_state := TDS_RUNNING\<rparr>) s))"

definition choosethread :: "'w::len word cpu_env \<Rightarrow> nat \<Rightarrow> 'w word smp \<Rightarrow> fault + (tid \<times> 'w word smp)" where
  "choosethread E turns s =
    and_then (sched_choose_on E s) (\<lambda>(t, s1).
    if panicstr E then choosethread_panic E turns t s1
    else Inr (t, upd_thr t (\<lambda>x. x\<lparr>td_state := TDS_RUNNING\<rparr>) s1))"

section \<open>The context switch\<close>

definition sched_switch_migrate ::
    "'w::len word cpu_env \<Rightarrow> (nat \<Rightarrow> 'w word smp \<Rightarrow> 'w word smp) \<Rightarrow> tid \<Rightarrow> srq_flag set \<Rightarrow> 'w word smp \<Rightarrow> 'w word smp" where
  "sched_switch_migrate E others t flags s =
    (let dest = ts_cpu (thr s t);
         s1 = others 0 (upd_cpu (self E) (\<lambda>q. tdq_load_rem q (thr s t)) s)
     in tdq_notify E dest t (tdq_add_on E dest t flags s1))"

text \<open>The thread leaves the processor: to a run queue, or it goes to sleep, or it is the idle thread.\<close>

definition put_back ::
    "'w::len word cpu_env \<Rightarrow> (nat \<Rightarrow> 'w word smp \<Rightarrow> 'w word smp) \<Rightarrow> nat \<Rightarrow> tid \<Rightarrow> bool \<Rightarrow> 'w word smp \<Rightarrow> fault + 'w word smp" where
  "put_back E others turns t preempted s =
    (let here = self E; td = thr s t;
         flags = (if preempted then {SRQ_OURSELF, SRQ_YIELDING, SRQ_PREEMPTED} else {SRQ_OURSELF, SRQ_YIELDING})
     in if TDF_IDLETD \<in> td_flags td then Inr (upd_thr t (\<lambda>x. x\<lparr>td_state := TDS_CAN_RUN\<rparr>) s)
        else if td_state td = TDS_RUNNING then
          and_then (if THREAD_CAN_MIGRATE td \<and> \<not> THREAD_CAN_SCHED td (ts_cpu td)
                    then and_then (sched_pickcpu E t {} s) (\<lambda>(c, s'). Inr (upd_thr t (\<lambda>x. x\<lparr>ts_cpu := c\<rparr>) s'))
                    else Inr s) (\<lambda>s1.
          Inr (if ts_cpu (thr s1 t) = here then tdq_runq_add_on E here t flags s1
               else sched_switch_migrate E others t flags s1))
        else (let s1 = upd_cpu here (\<lambda>q. tdq_load_rem q td) s
              in if tdq_load (cpus s1 here) = 0 then tdq_trysteal E others turns here s1 else Inr s1))"

text \<open>Up to \<open>cpu_switch\<close>; the result has the thread that runs next.\<close>

definition switch_out ::
    "'w::len word cpu_env \<Rightarrow> (nat \<Rightarrow> 'w word smp \<Rightarrow> 'w word smp) \<Rightarrow> nat \<Rightarrow> tid \<Rightarrow> sw_flag set \<Rightarrow> 'w word smp
      \<Rightarrow> fault + (tid \<times> 'w word smp)" where
  "switch_out E others turns t flags s =
    (let here = self E; k = kn E
     in and_then (on_thread t (sched_pctcpu_update k (ticks E) True) s) (\<lambda>s1.
     let td = thr s1 t;
         preempted = (TDF_SLICEEND \<notin> td_flags td \<and> SW_PREEMPT \<in> flags);
         s2 = upd_thr t (\<lambda>x. x\<lparr>ts_rltick := ticks E, td_lastcpu := td_oncpu x, td_oncpu := NOCPU k,
                 td_flags := td_flags x - {TDF_NEEDRESCHED, TDF_SLICEEND}, td_owepreempt := False\<rparr>) s1;
         s3 = (if TDF_IDLETD \<in> td_flags td then s2
               else upd_cpu here (\<lambda>q. q\<lparr>tdq_switchcnt := s16_of (tdq_switchcnt q + 1)\<rparr>) s2)
     in and_then (put_back E others turns t preempted s3) (\<lambda>s4.
        and_then (choosethread E turns s4) (\<lambda>(newtd, s5).
        if newtd \<noteq> t then and_then (on_thread newtd (sched_pctcpu_update k (ticks E) False) s5) (\<lambda>s6. Inr (newtd, s6))
        else Inr (newtd, s5)))))"

text \<open>
  Every thread comes back from \<open>cpu_switch\<close> in its own call of \<open>sched_switch\<close> (a new one in
  \<open>sched_fork_exit\<close>) and sets \<open>td_oncpu\<close> to the processor it is on.
\<close>

definition switch_in :: "'w cpu_env \<Rightarrow> tid \<Rightarrow> 'w smp \<Rightarrow> 'w smp" where
  "switch_in E newtd s =
    upd_thr newtd (\<lambda>x. x\<lparr>td_oncpu := int (self E)\<rparr>) (s\<lparr>curthr := (curthr s)(self E := newtd)\<rparr>)"

definition sched_switch ::
    "'w::len word cpu_env \<Rightarrow> (nat \<Rightarrow> 'w word smp \<Rightarrow> 'w word smp) \<Rightarrow> nat \<Rightarrow> tid \<Rightarrow> sw_flag set \<Rightarrow> 'w word smp \<Rightarrow> fault + 'w word smp" where
  "sched_switch E others turns t flags s =
    and_then (switch_out E others turns t flags s) (\<lambda>(newtd, s'). Inr (switch_in E newtd s'))"

text \<open>\<open>cpu_throw\<close> does not return; a null thread is a processor that enters for the first time.\<close>

definition sched_throw :: "'w::len word cpu_env \<Rightarrow> nat \<Rightarrow> tid option \<Rightarrow> 'w word smp \<Rightarrow> fault + (tid \<times> 'w word smp)" where
  "sched_throw E turns td s =
    (let s1 = (case td of None \<Rightarrow> s
         | Some t \<Rightarrow> upd_thr t (\<lambda>x. x\<lparr>td_lastcpu := td_oncpu x, td_oncpu := NOCPU (kn E)\<rparr>)
                       (upd_cpu (self E) (\<lambda>q. tdq_load_rem q (thr s t)) s))
     in choosethread E turns s1)"

section \<open>Preemption and critical sections\<close>

text \<open>\<open>thread_lock\<close> enters a critical section of its own, until \<open>thread_unlock\<close>.\<close>

definition sched_preempt :: "'w cpu_env \<Rightarrow> tid \<Rightarrow> 'w smp \<Rightarrow> sw_flag set option \<times> 'w smp" where
  "sched_preempt E t s =
    (let s1 = upd_cpu (self E) (\<lambda>q. q\<lparr>tdq_ipipending := False\<rparr>) s
     in if td_priority (thr s t) > tdq_lowpri (cpus s (self E))
        then if td_critnest (thr s t) + 1 > 1 then (None, upd_thr t (\<lambda>x. x\<lparr>td_owepreempt := True\<rparr>) s1)
             else if TDF_IDLETD \<in> td_flags (thr s t) then (Some {SW_INVOL, SW_PREEMPT, SWT_REMOTEWAKEIDLE}, s1)
             else (Some {SW_INVOL, SW_PREEMPT, SWT_REMOTEPREEMPT}, s1)
        else (None, s1))"

definition critical_enter :: "'w cpu_env \<Rightarrow> 'w smp \<Rightarrow> 'w smp" where
  "critical_enter E s = upd_thr (current E s) (\<lambda>x. x\<lparr>td_critnest := td_critnest x + 1\<rparr>) s"

definition critical_exit :: "'w cpu_env \<Rightarrow> 'w smp \<Rightarrow> fault + (sw_flag set option \<times> 'w smp)" where
  "critical_exit E s =
    (let t = current E s; td = thr s t; s1 = upd_thr t (\<lambda>x. x\<lparr>td_critnest := td_critnest x - 1\<rparr>) s
     in if td_critnest td = 0 then Inl Kernel_panic
        else if td_critnest td = 1 \<and> td_owepreempt td \<and> \<not> kdb_active E
        then Inr (Some ({SW_INVOL, SW_PREEMPT} \<union> (if TDF_IDLETD \<in> td_flags td then {SWT_IDLE} else {SWT_OWEPREEMPT})), s1)
        else Inr (None, s1))"

definition sched_relinquish :: "'w smp \<Rightarrow> sw_flag set option \<times> 'w smp" where
  "sched_relinquish s = (Some {SW_VOL, SWT_RELINQUISH}, s)"

section \<open>The clock tick\<close>

definition advance_idx :: "'w tdq \<Rightarrow> 'w tdq" where
  "advance_idx q =
    (if tdq_idx q = tdq_ridx q
     then let i = (tdq_idx q + 1) mod RQ_NQS
          in q\<lparr>tdq_idx := i, tdq_ridx := if rq_queues (tdq_timeshare q) ! tdq_ridx q = [] then i else tdq_ridx q\<rparr>
     else q)"

definition charge :: "kern \<Rightarrow> thread \<Rightarrow> fault + thread" where
  "charge k td =
    (if PRI_BASE k (td_pri_class td) = PRI_TIMESHARE k
     then sched_priority k (sched_interact_update k (td\<lparr>ts_runtime := u32_of (ts_runtime td + tickincr k)\<rparr>))
     else Inr td)"

definition use_slice :: "kern \<Rightarrow> 'w tdq \<Rightarrow> thread \<Rightarrow> thread" where
  "use_slice k q td =
    (if TDF_IDLETD \<in> td_flags td then td
     else if ts_slice td + 1 \<ge> tdq_slice k q
     then td\<lparr>ts_slice := 0, td_flags := td_flags td \<union> {TDF_NEEDRESCHED, TDF_SLICEEND}\<rparr>
     else td\<lparr>ts_slice := ts_slice td + 1\<rparr>)"

definition sched_clock :: "'w::len word cpu_env \<Rightarrow> tid \<Rightarrow> 'w word smp \<Rightarrow> fault + 'w word smp" where
  "sched_clock E t s =
    (let here = self E; k = kn E
     in and_then
          (if balance_tdq s = Some here \<and> balance_ticks s \<noteq> 0
           then let s' = s\<lparr>balance_ticks := balance_ticks s - 1\<rparr>
                in if balance_ticks s' = 0 then sched_balance E s' else Inr s'
           else Inr s) (\<lambda>s1.
        let s2 = upd_cpu here (\<lambda>q. advance_idx (q\<lparr>tdq_oldswitchcnt := tdq_switchcnt q, tdq_switchcnt := s16_of (tdq_load q)\<rparr>)) s1
        in and_then (on_thread t (sched_pctcpu_update k (ticks E) True) s2) (\<lambda>s3.
        if and (td_pri_class (thr s3 t)) (PRI_FIFO_BIT k) \<noteq> 0 then Inr s3
        else and_then (on_thread t (charge k) s3) (\<lambda>s4. Inr (upd_thr t (use_slice k (cpus s4 here)) s4)))))"

definition sched_estcpu :: "thread \<Rightarrow> nat" where "sched_estcpu td = 0"

definition sched_runnable :: "'w cpu_env \<Rightarrow> 'w smp \<Rightarrow> int" where
  "sched_runnable E s =
    (let load = tdq_load (cpus s (self E))
     in if TDF_IDLETD \<in> td_flags (thr s (current E s)) then (if load > 0 then 1 else 0)
        else if load - 1 > 0 then 1 else 0)"

definition sched_load :: "'w cpu_env \<Rightarrow> 'w smp \<Rightarrow> int" where
  "sched_load E s = fold (\<lambda>i total. total + tdq_sysload (cpus s i)) (cpu_foreach E) 0"

section \<open>Binding to a processor\<close>

definition sched_affinity :: "'w::len word cpu_env \<Rightarrow> tid \<Rightarrow> 'w word smp \<Rightarrow> fault + 'w word smp" where
  "sched_affinity E t s =
    (if THREAD_CAN_SCHED (thr s t) (ts_cpu (thr s t)) then Inr s
     else if td_state (thr s t) = TDS_RUNQ then and_then (sched_rem_on E t s) (\<lambda>s1. sched_add E t {} s1)
     else if td_state (thr s t) \<noteq> TDS_RUNNING then Inr s
     else let s1 = upd_thr t (\<lambda>x. x\<lparr>td_flags := insert TDF_NEEDRESCHED (td_flags x)\<rparr>) s
          in Inr (if t \<noteq> current E s then s1\<lparr>ipis := ipis s1 @ [ts_cpu (thr s t)]\<rparr> else s1))"

definition sched_unbind :: "tid \<Rightarrow> 'w smp \<Rightarrow> 'w smp" where
  "sched_unbind t s =
    (if TSF_BOUND \<notin> ts_flags (thr s t) then s
     else upd_thr t (\<lambda>x. x\<lparr>ts_flags := ts_flags x - {TSF_BOUND}, td_pinned := td_pinned x - 1\<rparr>) s)"

definition sched_bind :: "'w cpu_env \<Rightarrow> tid \<Rightarrow> nat \<Rightarrow> 'w smp \<Rightarrow> fault + (sw_flag set option \<times> 'w smp)" where
  "sched_bind E t cpu s =
    (let s1 = sched_unbind t s
     in if \<not> THREAD_CAN_MIGRATE (thr s1 t) then Inl Kernel_panic
        else let s2 = upd_thr t (\<lambda>x. x\<lparr>ts_flags := insert TSF_BOUND (ts_flags x), td_pinned := td_pinned x + 1\<rparr>) s1
             in if self E = cpu then Inr (None, s2) else Inr (Some {SW_VOL}, upd_thr t (\<lambda>x. x\<lparr>ts_cpu := cpu\<rparr>) s2))"

definition sched_is_bound :: "thread \<Rightarrow> bool" where
  "sched_is_bound td \<longleftrightarrow> TSF_BOUND \<in> ts_flags td"

section \<open>The idle thread\<close>

text \<open>
  One turn of the endless loop of processor \<open>c\<close>. Other processors act at the points named here; at
  \<open>Idling\<close> the processor is in \<open>cpu_idle\<close>, with the argument passed to it.
\<close>

datatype idle_point = Switched | Searching nat | Search_switched | Spinning nat | Fence | Idling bool

definition TDQ_IDLESPIN :: "'w cpu_env \<Rightarrow> nat \<Rightarrow> bool" where
  "TDQ_IDLESPIN E c = (case tdq_cg E c of [] \<Rightarrow> False | cg # _ \<Rightarrow> \<not> cg_thread cg)"

fun idle_spin :: "(idle_point \<Rightarrow> 'w smp \<Rightarrow> 'w smp) \<Rightarrow> nat \<Rightarrow> nat \<Rightarrow> 'w smp \<Rightarrow> 'w smp" where
  "idle_spin others c 0 s = s"
| "idle_spin others c (Suc n) s = (if tdq_load (cpus s c) \<noteq> 0 then s else idle_spin others c n (others (Spinning n) s))"

definition idle_sleep ::
    "'w cpu_env \<Rightarrow> (idle_point \<Rightarrow> 'w smp \<Rightarrow> 'w smp) \<Rightarrow> nat \<Rightarrow> int \<Rightarrow> 'w smp \<Rightarrow> int \<times> 'w smp" where
  "idle_sleep E others c old s =
    (let cnt = switchcnt (cpus s c);
         awake = upd_cpu c (\<lambda>q. q\<lparr>tdq_cpu_idle := False\<rparr>)
     in if tdq_load (cpus s c) \<noteq> 0 \<or> cnt \<noteq> old then (old, s)
        else let s1 = others Fence (upd_cpu c (\<lambda>q. q\<lparr>tdq_cpu_idle := True\<rparr>) s)
             in if tdq_load (cpus s1 c) \<noteq> 0 then (old, awake s1)
                else let s2 = awake (others (Idling (cnt * 4 > sched_idlespinthresh (kn E))) s1)
                     in if switchcnt (cpus s2 c) \<noteq> old then (old, s2)
                        else (old + 1, upd_cpu c (\<lambda>q. q\<lparr>tdq_switchcnt := s16_of (tdq_switchcnt q + 1)\<rparr>) s2))"

definition sched_idletd ::
    "'w::len word cpu_env \<Rightarrow> (idle_point \<Rightarrow> 'w word smp \<Rightarrow> 'w word smp) \<Rightarrow> nat \<Rightarrow> nat \<Rightarrow> int \<Rightarrow> 'w word smp
      \<Rightarrow> fault + (int \<times> 'w word smp)" where
  "sched_idletd E others turns c old s =
    (let s1 = (if tdq_load (cpus s c) \<noteq> 0 then others Switched s else s);
         cnt = switchcnt (cpus s1 c)
     in and_then
          (if always_steal E \<noteq> 0 \<or> cnt \<noteq> old
           then and_then (tdq_idled E (\<lambda>n. others (Searching n)) turns c s1) (\<lambda>(r, sw, s').
                  Inr (cnt, r = 0, if sw then others Search_switched s' else s'))
           else Inr (old, False, s1)) (\<lambda>(old1, again, s2).
        Inr (if again then (old1, s2)
             else let s3 = (if TDQ_IDLESPIN E c \<and> switchcnt (cpus s2 c) > sched_idlespinthresh (kn E)
                            then idle_spin others c (nat (sched_idlespins (kn E))) s2 else s2)
                  in idle_sleep E others c old1 s3)))"

end
