(* ===== verification/Interact_Props.thy ===== *)
theory Interact_Props
  imports Sched_Props
begin

text \<open>
  The properties of the interactivity score, the history it is computed from, and the priority
  it leads to.
\<close>

section \<open>The score\<close>

lemma div_bounds:
  fixes a :: int
  assumes "0 \<le> a" and "d = max_u 1 (a div 50)" and "a < 2 ^ 32"
  shows "1 \<le> d" and "a < 50 * d + 50" and "2500 \<le> a \<Longrightarrow> 50 \<le> d" and "50 \<le> a \<Longrightarrow> 50 * d \<le> a"
proof -
  have "0 \<le> a div 50" "a div 50 < 2 ^ 32" using assms by auto
  then have d: "d = max 1 (a div 50)" using assms(2) by (simp add: max_u_def)
  then show "1 \<le> d" "a < 50 * d + 50" "2500 \<le> a \<Longrightarrow> 50 \<le> d" "50 \<le> a \<Longrightarrow> 50 * d \<le> a"
    using assms(1) by (auto simp: max_def)
qed

lemma div_le_if:
  fixes b :: int
  assumes "0 < d" and "b < d * (n + 1)"
  shows "b div d \<le> n"
proof (rule ccontr)
  assume "\<not> b div d \<le> n"
  then have "d * (n + 1) \<le> d * (b div d)" using assms(1) by (intro mult_left_mono) simp_all
  moreover have "d * (b div d) + b mod d = b" by simp
  moreover have "0 \<le> b mod d" using assms(1) by simp
  ultimately show False using assms(2) by linarith
qed

lemma score_quotient:
  fixes a b :: int
  assumes ab: "0 \<le> b" "b < a" "a < 2 ^ 32" and d: "d = max_u 1 (a div 50)"
  shows "0 \<le> b div d" and "b div d \<le> 99" and "2500 \<le> a \<Longrightarrow> b div d \<le> 50"
proof -
  note bd = div_bounds [OF _ d ab(3)]
  have a: "0 \<le> a" using ab by simp
  note bd = bd [OF a]
  show "0 \<le> b div d" using ab(1) bd(1) by (simp add: pos_imp_zdiv_nonneg_iff)
  show "b div d \<le> 99" by (rule div_le_if) (use bd(1,2) ab in auto)
  show "b div d \<le> 50" if "2500 \<le> a" by (rule div_le_if) (use bd(1,2) bd(3) [OF that] ab in auto)
qed

text \<open>
  The interactivity score is between 0 and 100. For histories of at least 2500 (two and a
  half ticks) it is at most 50 when the thread slept longer than it ran, and at least 50 when it
  ran longer than it slept.
\<close>

theorem interact_score_range:
  assumes "0 \<le> ts_runtime td" and "ts_runtime td < 2 ^ 32" and "0 \<le> ts_slptime td" and "ts_slptime td < 2 ^ 32"
  shows "0 \<le> sched_interact_score k td \<and> sched_interact_score k td \<le> 100 \<and>
    (ts_runtime td < ts_slptime td \<and> 2500 \<le> ts_slptime td \<longrightarrow> sched_interact_score k td \<le> 50) \<and>
    (ts_slptime td < ts_runtime td \<and> 2500 \<le> ts_runtime td \<longrightarrow> 50 \<le> sched_interact_score k td)"
proof -
  let ?r = "ts_runtime td" and ?s = "ts_slptime td"
  consider (half) "sched_interact k \<le> 50 \<and> ?r \<ge> ?s" | (run) "\<not> (sched_interact k \<le> 50 \<and> ?r \<ge> ?s)" "?r > ?s"
    | (sleep) "?s > ?r" | (eq) "\<not> (sched_interact k \<le> 50 \<and> ?r \<ge> ?s)" "?s = ?r" by linarith
  then show ?thesis
  proof cases
    case half
    then show ?thesis by (simp add: sched_interact_score_def SCHED_INTERACT_HALF_def SCHED_INTERACT_MAX_def)
  next
    case run
    define d where "d = max_u 1 (?r div 50)"
    note q = score_quotient [OF assms(3) run(2) assms(2) d_def]
    have "sched_interact_score k td = s32_of (u32_of (50 + (50 - ?s div d)))"
      using run by (simp add: sched_interact_score_def SCHED_INTERACT_HALF_def SCHED_INTERACT_MAX_def d_def Let_def)
    also have "\<dots> = 100 - ?s div d" using q(1,2) by simp
    finally show ?thesis using q run(2) by auto
  next
    case sleep
    define d where "d = max_u 1 (?s div 50)"
    note q = score_quotient [OF assms(1) sleep assms(4) d_def]
    have "sched_interact_score k td = s32_of (?r div d)"
      using sleep by (simp add: sched_interact_score_def SCHED_INTERACT_HALF_def SCHED_INTERACT_MAX_def d_def Let_def)
    also have "\<dots> = ?r div d" using q(1,2) by simp
    finally show ?thesis using q sleep by auto
  next
    case eq
    then show ?thesis by (simp add: sched_interact_score_def SCHED_INTERACT_HALF_def SCHED_INTERACT_MAX_def)
  qed
qed

theorem interact_score_range_witness:
  "sched_interact_score freebsd (td0\<lparr>ts_slptime := 4000, ts_runtime := 1000\<rparr>) \<le> 50"
  using interact_score_range [of "td0\<lparr>ts_slptime := 4000, ts_runtime := 1000\<rparr>" freebsd] by simp

section \<open>The history\<close>

text \<open>
  \<open>sched_interact_update\<close> keeps the accumulated sleep and run time at most
  \<open>SCHED_SLP_RUN_MAX + 1\<close>, and a thread that slept at least as long as it ran, or ran at least
  as long as it slept, still did so afterwards.
\<close>

theorem interact_update_bounded:
  assumes k: "1 \<le> hz k" "hz k \<le> 100000"
    and h: "0 \<le> ts_runtime td" "0 \<le> ts_slptime td" "ts_runtime td + ts_slptime td < 2 ^ 32"
    and td': "td' = sched_interact_update k td"
  shows "0 \<le> ts_runtime td' \<and> 0 \<le> ts_slptime td' \<and>
    ts_runtime td' + ts_slptime td' \<le> SCHED_SLP_RUN_MAX k + 1 \<and>
    (ts_runtime td \<le> ts_slptime td \<longrightarrow> ts_runtime td' \<le> ts_slptime td') \<and>
    (ts_slptime td < ts_runtime td \<longrightarrow> ts_slptime td' \<le> ts_runtime td') \<and>
    (ts_runtime td + ts_slptime td < SCHED_SLP_RUN_MAX k \<longrightarrow> td' = td)"
proof -
  define M where "M = SCHED_SLP_RUN_MAX k"
  have M: "M = 5120 * hz k" by (simp add: M_def SCHED_SLP_RUN_MAX_def SCHED_TICK_SHIFT_def push_bit_eq_mult)
  have Mb: "5120 \<le> M" "M * 2 < 2 ^ 32" "M mod 5 = 0" unfolding M using k by simp_all
  have sum: "u32_of (ts_runtime td + ts_slptime td) = ts_runtime td + ts_slptime td" using h by simp
  have five: "M sdiv 5 = M div 5" using Mb by (simp add: signed_divide_int_def)
  have m: "u32_of M = M" "u32_of (M * 2) = M * 2" "u32_of (M sdiv 5 * 6) = M div 5 * 6"
    unfolding five using Mb by (auto intro!: u32_of_id)
  consider (low) "ts_runtime td + ts_slptime td < M" | (far) "ts_runtime td + ts_slptime td > M * 2"
    | (half) "M div 5 * 6 < ts_runtime td + ts_slptime td" "ts_runtime td + ts_slptime td \<le> M * 2"
    | (fifth) "M \<le> ts_runtime td + ts_slptime td" "ts_runtime td + ts_slptime td \<le> M div 5 * 6" 
    using Mb by linarith
  then show ?thesis
  proof cases
    case low
    then have "td' = td" unfolding td' sched_interact_update_def Let_def M_def [symmetric] sum m by simp
    then show ?thesis using low h by (simp add: M_def)
  next
    case far
    then have "td' = (if ts_runtime td > ts_slptime td then td\<lparr>ts_runtime := M, ts_slptime := 1\<rparr>
        else td\<lparr>ts_slptime := M, ts_runtime := 1\<rparr>)"
      unfolding td' sched_interact_update_def Let_def M_def [symmetric] sum m using Mb by simp
    then show ?thesis using far Mb by (auto simp: M_def [symmetric])
  next
    case half
    then have "td' = td\<lparr>ts_runtime := ts_runtime td div 2, ts_slptime := ts_slptime td div 2\<rparr>"
      unfolding td' sched_interact_update_def Let_def M_def [symmetric] sum m using Mb by auto
    then show ?thesis using half h Mb by (auto simp: M_def [symmetric] zdiv_mono1)
  next
    case fifth
    then have "td' = td\<lparr>ts_runtime := ts_runtime td div 5 * 4, ts_slptime := ts_slptime td div 5 * 4\<rparr>"
      unfolding td' sched_interact_update_def Let_def M_def [symmetric] sum m using Mb by auto
    then show ?thesis using fifth h Mb by (auto simp: M_def [symmetric] zdiv_mono1)
  qed
qed

theorem interact_update_bounded_witness:
  "ts_slptime (sched_interact_update freebsd (td0\<lparr>ts_slptime := 100000000\<rparr>)) \<le> 5120001"
proof -
  have "SCHED_SLP_RUN_MAX freebsd = 5120000" by (simp add: SCHED_SLP_RUN_MAX_def SCHED_TICK_SHIFT_def freebsd_def push_bit_eq_mult)
  then show ?thesis
    using interact_update_bounded [of freebsd "td0\<lparr>ts_slptime := 100000000\<rparr>", OF _ _ _ _ _ refl]
    by (simp add: freebsd_def [THEN arg_cong [where f = hz]] td0_def [THEN arg_cong [where f = ts_runtime]])
qed

section \<open>The priority\<close>

lemma sched_pri_range:
  assumes "kern_ok k"
  shows "0 < SCHED_PRI_RANGE k" and "SCHED_PRI_RANGE k < 256"
    and "SCHED_PRI_MIN k = PRI_MIN_BATCH k + 20" and "SCHED_PRI_MIN k + SCHED_PRI_RANGE k + 19 = PRI_MAX_BATCH k"
proof -
  note b = kern_batch [OF assms]
  have half: "SCHED_PRI_NHALF k = 20" by (simp add: SCHED_PRI_NHALF_def b(4))
  show min: "SCHED_PRI_MIN k = PRI_MIN_BATCH k + 20" by (simp add: SCHED_PRI_MIN_def half)
  have "SCHED_PRI_RANGE k = PRI_MAX_BATCH k - 20 - (PRI_MIN_BATCH k + 20) + 1"
    by (simp only: SCHED_PRI_RANGE_def SCHED_PRI_MAX_def half min)
  then show "0 < SCHED_PRI_RANGE k" "SCHED_PRI_RANGE k < 256"
    "SCHED_PRI_MIN k + SCHED_PRI_RANGE k + 19 = PRI_MAX_BATCH k"
    using b(2,4,5) min by linarith+
qed

lemma div_mult_le_int: "0 < r \<Longrightarrow> x div r * r \<le> x" for r :: int
  using div_mult_mod_eq [of x r] pos_mod_sign [of r x] by linarith

lemma pri_ticks_ok:
  assumes k: "kern_ok k" "hz k < 2 ^ 31" and t: "0 \<le> ts_ltick td - ts_ftick td" "ts_ltick td - ts_ftick td < 2 ^ 31"
  shows "\<exists>p. SCHED_PRI_TICKS k td = Inr p"
proof -
  let ?r = "int (SCHED_PRI_RANGE k)"
  define tot where "tot = SCHED_TICK_TOTAL k td"
  have hz: "1 \<le> hz k" using k(1) by (simp add: kern_ok_def)
  have tot: "1 \<le> tot" "tot < 2 ^ 31"
    using hz k(2) t by (auto simp: tot_def SCHED_TICK_TOTAL_def max_u_def)
  have r: "0 < ?r" "?r < 256" using sched_pri_range(1,2) [OF k(1)] by simp_all
  have up: "u32_of (tot + (?r - 1)) = tot + (?r - 1)" using tot r by simp
  define q where "q = (tot + (?r - 1)) div ?r"
  have "q * ?r \<le> tot + (?r - 1)" unfolding q_def by (rule div_mult_le_int [OF r(1)])
  moreover have "1 \<le> q" using tot r by (simp add: q_def pos_imp_zdiv_pos_iff int_one_le_iff_zero_less)
  moreover have "0 \<le> q * ?r" using r(1) \<open>1 \<le> q\<close> by simp
  ultimately have "roundup_u tot ?r = q * ?r" using tot r by (simp add: roundup_u_def up q_def [symmetric])
  then have "roundup_u tot ?r div ?r \<noteq> 0" using r(1) \<open>1 \<le> q\<close> by simp
  then show ?thesis by (simp add: SCHED_PRI_TICKS_def Let_def tot_def [symmetric])
qed

lemma batch_pri_range:
  assumes k: "kern_ok k" "hz k < 2 ^ 31" and t: "0 \<le> ts_ltick td - ts_ftick td" "ts_ltick td - ts_ftick td < 2 ^ 31"
    and nice: "-20 \<le> p_nice td" "p_nice td \<le> 20"
  shows "\<exists>p. batch_pri k td = Inr p \<and> int (PRI_MIN_BATCH k) \<le> p \<and> p \<le> int (PRI_MAX_BATCH k)"
proof -
  note r = sched_pri_range [OF k(1)]
  obtain p where p: "SCHED_PRI_TICKS k td = Inr p" using pri_ticks_ok [OF k t] by blast
  define m where "m = (if ts_ticks td \<noteq> 0 then min_u p (int (SCHED_PRI_RANGE k) - 1) else 0)"
  have m: "0 \<le> m" "m \<le> int (SCHED_PRI_RANGE k) - 1"
    using r(1,2) by (auto simp: m_def min_u_def)
  have "batch_pri k td = Inr (int (SCHED_PRI_MIN k) + m + p_nice td)" by (simp add: batch_pri_def m_def p)
  moreover have "int (PRI_MIN_BATCH k) \<le> int (SCHED_PRI_MIN k) + m + p_nice td"
    "int (SCHED_PRI_MIN k) + m + p_nice td \<le> int (PRI_MAX_BATCH k)" using m r(3,4) nice by linarith+
  ultimately show ?thesis by blast
qed

lemma interactive_pri_range:
  assumes k: "kern_ok k" and s: "0 \<le> score" "score < sched_interact k"
  shows "int (PRI_MIN_INTERACT k) \<le> interactive_pri k score" and "interactive_pri k score \<le> int (PRI_MAX_INTERACT k)"
proof -
  define R where "R = int (PRI_MAX_INTERACT k) - int (PRI_MIN_INTERACT k) + 1"
  have R: "0 < R" using kern_batch(6) [OF k] by (simp add: R_def PRI_MAX_INTERACT_def PRI_MIN_INTERACT_def)
  have q: "0 \<le> R div sched_interact k" using R s by (simp add: pos_imp_zdiv_nonneg_iff)
  have "R div sched_interact k * score \<le> R div sched_interact k * (sched_interact k - 1)"
    using q s by (intro mult_left_mono) simp_all
  also have "\<dots> = R div sched_interact k * sched_interact k - R div sched_interact k" by (simp add: right_diff_distrib)
  finally have le: "R div sched_interact k * score \<le> R div sched_interact k * sched_interact k - R div sched_interact k" .
  have mul: "R div sched_interact k * sched_interact k \<le> R" using s R by (simp add: minus_mod_eq_div_mult [symmetric])
  have "R div sched_interact k * score \<le> R - 1"
  proof (cases "R div sched_interact k = 0")
    case False
    then have "1 \<le> R div sched_interact k" using q by linarith
    then show ?thesis using le mul by linarith
  qed (use R in simp)
  moreover have "0 \<le> R div sched_interact k * score" using q s by simp
  moreover have "R sdiv sched_interact k = R div sched_interact k" using R s by (simp add: signed_divide_int_def)
  ultimately show "int (PRI_MIN_INTERACT k) \<le> interactive_pri k score" "interactive_pri k score \<le> int (PRI_MAX_INTERACT k)"
    by (simp_all add: interactive_pri_def R_def [symmetric]) (simp add: R_def)
qed

lemma sched_priority_ok:
  assumes k: "kern_ok k" "hz k < 2 ^ 31" and cls: "PRI_BASE k (td_pri_class td) = PRI_TIMESHARE k"
    and nice: "-20 \<le> p_nice td" "p_nice td \<le> 20"
    and t: "0 \<le> ts_ltick td - ts_ftick td" "ts_ltick td - ts_ftick td < 2 ^ 31"
  shows "\<exists>p. sched_priority k td = Inr (sched_user_prio p td) \<and>
    (if max 0 (sched_interact_score k td + p_nice td) < sched_interact k
     then PRI_MIN_INTERACT k \<le> p \<and> p \<le> PRI_MAX_INTERACT k
     else PRI_MIN_BATCH k \<le> p \<and> p \<le> PRI_MAX_BATCH k)"
proof -
  define score where "score = max 0 (sched_interact_score k td + p_nice td)"
  have small: "PRI_MAX_INTERACT k < 256" "PRI_MAX_BATCH k < 256"
    using kern_batch(1,3,5,7) [OF k(1)] kern_batch(2) [OF k(1)]
    by (simp_all add: PRI_MAX_INTERACT_def PRI_MIN_BATCH_def)
  have char: "int a \<le> p \<and> p \<le> int b \<Longrightarrow> b < 256 \<Longrightarrow> a \<le> u_char_of p \<and> u_char_of p \<le> b" for a b p
    by (auto simp: u_char_of_def)
  show ?thesis
  proof (cases "score < sched_interact k")
    case True
    have "sched_priority k td = Inr (sched_user_prio (u_char_of (interactive_pri k score)) td)"
      unfolding sched_priority_def Let_def score_def [symmetric] using True cls by simp
    moreover have "PRI_MIN_INTERACT k \<le> u_char_of (interactive_pri k score) \<and>
        u_char_of (interactive_pri k score) \<le> PRI_MAX_INTERACT k"
      using interactive_pri_range [OF k(1) _ True] small by (intro char) (simp_all add: score_def)
    ultimately show ?thesis using True by (auto simp: score_def)
  next
    case False
    obtain p where p: "batch_pri k td = Inr p" "int (PRI_MIN_BATCH k) \<le> p" "p \<le> int (PRI_MAX_BATCH k)"
      using batch_pri_range [OF k t nice] by blast
    have "sched_priority k td = Inr (sched_user_prio (u_char_of p) td)"
      unfolding sched_priority_def Let_def score_def [symmetric] using False cls p(1) by simp
    moreover have "PRI_MIN_BATCH k \<le> u_char_of p \<and> u_char_of p \<le> PRI_MAX_BATCH k"
      using p small by (intro char) simp_all
    ultimately show ?thesis using False by (auto simp: score_def)
  qed
qed

text \<open>
  \<open>sched_priority\<close> never divides by zero and keeps the two bands apart: a timeshare thread
  whose score with its nice value is below \<open>sched_interact\<close> gets a user priority in the
  interactive range, every other one a priority in the batch range, whatever its tick counts.
\<close>

theorem sched_priority_range:
  assumes k: "kern_ok k" "hz k < 2 ^ 31" and cls: "PRI_BASE k (td_pri_class td) = PRI_TIMESHARE k"
    and nice: "-20 \<le> p_nice td" "p_nice td \<le> 20"
    and t: "0 \<le> ts_ltick td - ts_ftick td" "ts_ltick td - ts_ftick td < 2 ^ 31"
  shows "\<exists>p. sched_priority k td = Inr (sched_user_prio p td) \<and>
    (if max 0 (sched_interact_score k td + p_nice td) < sched_interact k
     then PRI_MIN_INTERACT k \<le> p \<and> p \<le> PRI_MAX_INTERACT k
     else PRI_MIN_BATCH k \<le> p \<and> p \<le> PRI_MAX_BATCH k)"
  by (rule sched_priority_ok [OF assms])

lemma freebsd_hz: "hz freebsd = 1000" and freebsd_class: "PRI_BASE freebsd 3 = PRI_TIMESHARE freebsd"
  by (simp_all add: freebsd_def unset_bit_eq_and_not)

theorem sched_priority_range_witness:
  "\<exists>p. sched_priority freebsd (td0\<lparr>ts_ticks := -7, ts_ltick := 5000, p_nice := 20\<rparr>) =
    Inr (sched_user_prio p (td0\<lparr>ts_ticks := -7, ts_ltick := 5000, p_nice := 20\<rparr>)) \<and> p \<le> 223"
proof -
  let ?td = "td0\<lparr>ts_ticks := -7, ts_ltick := 5000, p_nice := 20\<rparr>"
  have max: "PRI_MAX_INTERACT freebsd \<le> 223" "PRI_MAX_BATCH freebsd \<le> 223"
    by (simp_all add: PRI_MAX_INTERACT_def PRI_INTERACT_RANGE_def PRI_TIMESHARE_RANGE_def SCHED_PRI_NRESV_def
        PRI_MAX_BATCH_def freebsd_def)
  have "td_pri_class ?td = 3" "ts_ftick ?td = 0" by (simp_all add: td0_def)
  then show ?thesis
    using sched_priority_range [OF freebsd_ok, of ?td] max by (fastforce simp: freebsd_hz freebsd_class split: if_splits)
qed

end
