(* ===== verification/Sched_Sys_Props.thy ===== *)
theory Sched_Sys_Props
  imports Sched_Switch Interact_Props
begin

text \<open>
  What the operations on threads do to the queues of all processors: adding a thread, changing and
  lending priorities, and the context switch keep the invariant \<open>smp_ok\<close>; \<open>extra\<close> counts the threads
  in a processor's load that are not on its queue.
\<close>

section \<open>Putting a thread on a queue and taking it off\<close>

definition fits_in :: "'w::len word cpu_env \<Rightarrow> 'w word smp \<Rightarrow> tid \<Rightarrow> bool" where
  "fits_in E s t \<longleftrightarrow> t \<notin> all_queued E s \<and> td_priority (thr s t) < 256 \<and> TSF_XFERABLE \<notin> ts_flags (thr s t) \<and>
    0 \<le> p_nice (thr s t) \<and> (\<Sum>u\<in>all_queued E s. p_nice (thr s u) + 1) + p_nice (thr s t) + 1 < 2 ^ 31"

definition extra :: "'w smp \<Rightarrow> nat \<Rightarrow> int" where
  "extra s c = tdq_load (cpus s c) - int (card (queued (cpus s c)))"

lemma extra_nonneg: "smp_ok E s \<Longrightarrow> c \<le> mp_maxid (kn E) \<Longrightarrow> 0 \<le> extra s c"
  using smp_okD(2) [of E s c] by (simp add: extra_def)

lemma total_load_upd:
  assumes "c \<le> mp_maxid (kn E)" and "\<forall>d. d \<noteq> c \<longrightarrow> cpus s' d = cpus s d"
  shows "total_load E s' = total_load E s + (tdq_load (cpus s' c) - tdq_load (cpus s c))"
proof -
  have r: "total_load E x = tdq_load (cpus x c) + (\<Sum>d\<in>{..mp_maxid (kn E)} - {c}. tdq_load (cpus x d))" for x :: "'a smp"
    unfolding total_load_def using assms(1) sum.remove [of "{..mp_maxid (kn E)}" c] by simp
  have "(\<Sum>d\<in>{..mp_maxid (kn E)} - {c}. tdq_load (cpus s' d)) = (\<Sum>d\<in>{..mp_maxid (kn E)} - {c}. tdq_load (cpus s d))"
    using assms(2) by (intro sum.cong) auto
  then show ?thesis unfolding r [of s] r [of s'] by simp
qed

lemma inserted_ok:
  assumes ok: "smp_ok E s" and c: "c \<le> mp_maxid (kn E)" and fit: "fits_in E s t"
    and q: "tdq_ok (rqmd E) c (thr s') (cpus s' c)" "queued (cpus s' c) = insert t (queued (cpus s c))"
    and load: "int (card (queued (cpus s c))) < tdq_load (cpus s' c)" "256 * total_load E s' < INT_MAX"
    and other: "\<forall>d. d \<noteq> c \<longrightarrow> cpus s' d = cpus s d" "\<forall>u. u \<noteq> t \<longrightarrow> thr s' u = thr s u"
    and t: "ts_cpu (thr s' t) = c" "td_priority (thr s' t) < 256" "p_nice (thr s' t) = p_nice (thr s t)"
  shows "smp_ok E s'" and "all_queued E s' = insert t (all_queued E s)"
proof -
  let ?n = "mp_maxid (kn E)"
  have not_t: "t \<notin> queued (cpus s d)" if "d \<le> ?n" for d using fit that by (auto simp: fits_in_def all_queued_def)
  have qd: "queued (cpus s' d) = (if d = c then insert t (queued (cpus s d)) else queued (cpus s d))" for d
    using q(2) other(1) by simp
  show all: "all_queued E s' = insert t (all_queued E s)"
    using c by (auto simp: all_queued_def qd split: if_splits)
  have tok: "tdq_ok (rqmd E) d (thr s') (cpus s' d)" if d: "d \<le> ?n" for d
  proof (cases "d = c")
    case False
    have "\<forall>u\<in>queued (cpus s d). thr s' u = thr s u" using not_t [OF d] other(2) by metis
    from tdq_ok_threads [OF smp_okD(1) [OF ok d] this] show ?thesis using False other(1) by simp
  qed (use q(1) in simp)
  have card: "int (card (queued (cpus s' d))) \<le> tdq_load (cpus s' d)" if d: "d \<le> ?n" for d
  proof (cases "d = c")
    case True
    then show ?thesis using load(1) not_t [OF c] by (simp add: q(2))
  next
    case False
    then show ?thesis using smp_okD(2) [OF ok d] other(1) by simp
  qed
  have place: "ts_cpu (thr s' u) = d \<and> td_priority (thr s' u) < 256" if d: "d \<le> ?n" and u: "u \<in> queued (cpus s' d)" for d u
  proof (cases "u = t")
    case True
    then have "d = c" using u qd [of d] not_t [OF d] by (auto split: if_splits)
    then show ?thesis using True t by simp
  next
    case False
    then show ?thesis using u qd [of d] smp_okD(3) [OF ok d] other(2) by (auto split: if_splits)
  qed
  have nn: "0 \<le> tdq_load (cpus s' d)" for d
    using load(1) other(1) ok by (cases "d = c") (auto simp: smp_ok_def)
  have eq: "thr s' u = thr s u" if "u \<in> all_queued E s" for u using that other(2) fit by (metis fits_in_def)
  have "(\<Sum>u\<in>all_queued E s'. p_nice (thr s' u) + 1) = (\<Sum>u\<in>all_queued E s. p_nice (thr s u) + 1) + p_nice (thr s t) + 1"
    using fit t(3) eq by (simp add: all fits_in_def)
  then have nice: "(\<Sum>u\<in>all_queued E s'. p_nice (thr s' u) + 1) < 2 ^ 31" "\<forall>u\<in>all_queued E s'. 0 \<le> p_nice (thr s' u)"
    using fit t(3) eq ok by (auto simp: fits_in_def all smp_ok_def)
  show "smp_ok E s'" using tok card place nn nice load(2) by (simp add: smp_ok_def)
qed

lemma removed_ok:
  assumes ok: "smp_ok E s" and c: "c \<le> mp_maxid (kn E)" and t: "t \<in> queued (cpus s c)"
    and q: "tdq_ok (rqmd E) c (thr s') (cpus s' c)" "queued (cpus s' c) = queued (cpus s c) - {t}"
    and load: "int (card (queued (cpus s c))) \<le> tdq_load (cpus s' c) + 1" "tdq_load (cpus s' c) \<le> tdq_load (cpus s c)"
    and other: "\<forall>d. d \<noteq> c \<longrightarrow> cpus s' d = cpus s d" "\<forall>u. u \<noteq> t \<longrightarrow> thr s' u = thr s u"
  shows "smp_ok E s'" and "all_queued E s' = all_queued E s - {t}"
proof -
  let ?n = "mp_maxid (kn E)"
  have not_t: "t \<notin> queued (cpus s d)" if "d \<le> ?n" "d \<noteq> c" for d
    using smp_disjoint [OF ok c that(1)] that(2) t by blast
  have qd: "queued (cpus s' d) = (if d = c then queued (cpus s d) - {t} else queued (cpus s d))" for d
    using q(2) other(1) by simp
  show all: "all_queued E s' = all_queued E s - {t}"
    using not_t by (auto simp: all_queued_def qd split: if_splits)
  have tok: "tdq_ok (rqmd E) d (thr s') (cpus s' d)" if d: "d \<le> ?n" for d
  proof (cases "d = c")
    case False
    have "\<forall>u\<in>queued (cpus s d). thr s' u = thr s u" using not_t [OF d False] other(2) by metis
    from tdq_ok_threads [OF smp_okD(1) [OF ok d] this] show ?thesis using False other(1) by simp
  qed (use q(1) in simp)
  have cardt: "card (queued (cpus s c) - {t}) + 1 = card (queued (cpus s c))"
    using t by (metis Suc_eq_plus1 card_Suc_Diff1 queued_finite)
  have card: "int (card (queued (cpus s' d))) \<le> tdq_load (cpus s' d)" if d: "d \<le> ?n" for d
    using load(1) cardt smp_okD(2) [OF ok d] other(1) by (cases "d = c") (simp_all add: q(2))
  have place: "ts_cpu (thr s' u) = d \<and> td_priority (thr s' u) < 256" if d: "d \<le> ?n" and u: "u \<in> queued (cpus s' d)" for d u
  proof -
    have "u \<in> queued (cpus s d)" "u \<noteq> t" using u qd [of d] not_t [OF d] by (auto split: if_splits)
    then show ?thesis using smp_okD(3) [OF ok d] other(2) by simp
  qed
  have nn: "0 \<le> tdq_load (cpus s' d)" for d
    using card [OF c] other(1) ok by (cases "d = c") (auto simp: smp_ok_def)
  have "total_load E s' \<le> total_load E s" using total_load_upd [OF c other(1)] load(2) by simp
  then have tot: "256 * total_load E s' < INT_MAX" using ok by (simp add: smp_ok_def)
  have "(\<Sum>u\<in>all_queued E s'. p_nice (thr s' u) + 1) = (\<Sum>u\<in>all_queued E s'. p_nice (thr s u) + 1)"
    using other(2) all by (intro sum.cong) auto
  also have "\<dots> \<le> (\<Sum>u\<in>all_queued E s. p_nice (thr s u) + 1)"
    using all ok by (intro sum_mono2) (auto simp: smp_ok_def)
  finally have nice: "(\<Sum>u\<in>all_queued E s'. p_nice (thr s' u) + 1) < 2 ^ 31" "\<forall>u\<in>all_queued E s'. 0 \<le> p_nice (thr s' u)"
    using other(2) all ok by (auto simp: smp_ok_def)
  show "smp_ok E s'" using tok card place nn nice tot by (simp add: smp_ok_def)
qed

text \<open>The fields of a thread that the invariant reads.\<close>

definition place :: "thread \<Rightarrow> (nat \<times> runq_kind) option \<times> nat \<times> ts_flag set \<times> nat \<times> nat \<times> int" where
  "place td = (ts_runq td, td_rqindex td, ts_flags td, ts_cpu td, td_priority td, p_nice td)"

lemma placeD:
  assumes "place x = place y"
  shows "ts_runq x = ts_runq y" "td_rqindex x = td_rqindex y" "ts_flags x = ts_flags y" "ts_cpu x = ts_cpu y"
    "td_priority x = td_priority y" "p_nice x = p_nice y"
  using assms by (simp_all add: place_def)

lemma tdq_ok_place:
  assumes "tdq_ok md c T q" and "\<forall>u. place (T' u) = place (T u)" shows "tdq_ok md c T' q"
  using assms(1) placeD [OF assms(2) [rule_format]] by (simp add: tdq_ok_def placed_def)

lemma smp_ok_place:
  assumes ok: "smp_ok E s" and c: "\<forall>d. core (cpus s' d) = core (cpus s d)" and T: "\<forall>u. place (thr s' u) = place (thr s u)"
  shows "smp_ok E s'" and "all_queued E s' = all_queued E s" and "total_load E s' = total_load E s"
    and "extra s' d = extra s d"
proof -
  define s1 where "s1 = s\<lparr>cpus := cpus s'\<rparr>"
  have c1: "\<forall>d. core (cpus s1 d) = core (cpus s d)" and t1: "thr s1 = thr s" using c by (simp_all add: s1_def)
  note k = smp_ok_core [OF ok c1 t1]
  have a: "all_queued E s' = all_queued E s1" "total_load E s' = total_load E s1"
    by (simp_all add: all_queued_def total_load_def s1_def)
  show "all_queued E s' = all_queued E s" "total_load E s' = total_load E s" using a k(2,3) by simp_all
  show "extra s' d = extra s d" using core_queued [OF c [rule_format]] core_load [OF c [rule_format]] by (simp add: extra_def)
  note p = placeD [OF T [rule_format]]
  have "tdq_ok (rqmd E) d (thr s') (cpus s' d)" if "d \<le> mp_maxid (kn E)" for d
    using tdq_ok_place [OF smp_okD(1) [OF k(1) that]] T t1 by (simp add: s1_def)
  then show "smp_ok E s'" using k(1) a p by (simp add: smp_ok_def s1_def)
qed

section \<open>Adding a thread\<close>

definition prio_ready :: "kern \<Rightarrow> thread \<Rightarrow> bool" where
  "prio_ready k td \<longleftrightarrow> kern_ok k \<and> hz k < 2 ^ 31 \<and> -20 \<le> p_nice td \<and> p_nice td \<le> 20 \<and>
    0 \<le> ts_ltick td - ts_ftick td \<and> ts_ltick td - ts_ftick td < 2 ^ 31"

lemma prios_id: "\<exists>p q. td = td\<lparr>td_base_user_pri := p, td_user_pri := q\<rparr>"
  by (rule exI [of _ "td_base_user_pri td"], rule exI [of _ "td_user_pri td"], simp)

lemma sched_priority_effect:
  assumes "prio_ready k td"
  shows "\<exists>p q. sched_priority k td = Inr (td\<lparr>td_base_user_pri := p, td_user_pri := q\<rparr>)"
proof (cases "PRI_BASE k (td_pri_class td) = PRI_TIMESHARE k")
  case True
  obtain p where "sched_priority k td = Inr (sched_user_prio p td)"
    using sched_priority_ok [OF _ _ True] assms by (auto simp: prio_ready_def)
  moreover have "\<exists>q. sched_user_prio p td = td\<lparr>td_base_user_pri := p, td_user_pri := q\<rparr>"
    by (auto simp: sched_user_prio_def Let_def intro: exI [of _ "td_user_pri td"])
  ultimately show ?thesis by auto
next
  case False
  then show ?thesis using prios_id [of td] by (simp add: sched_priority_def)
qed

definition lent :: "'w smp \<Rightarrow> tid set" where
  "lent s = {u. TDF_BORROWING \<in> td_flags (thr s u)}"

text \<open>What adding the thread to the processor \<open>cpu\<close> means for the whole system.\<close>

definition added :: "'w::len word cpu_env \<Rightarrow> tid \<Rightarrow> nat \<Rightarrow> 'w word smp \<Rightarrow> 'w word smp \<Rightarrow> bool" where
  "added E t cpu s s' \<longleftrightarrow> smp_ok E s' \<and> cpu \<le> mp_maxid (kn E) \<and> all_queued E s' = insert t (all_queued E s) \<and>
    t \<in> queued (cpus s' cpu) \<and> (\<forall>c. extra s' c = extra s c) \<and> total_load E s' = total_load E s + 1 \<and>
    lent s' = lent s \<and> curthr s' = curthr s \<and> ts_cpu (thr s' t) = cpu \<and> td_state (thr s' t) = TDS_RUNQ \<and>
    td_priority (thr s' t) = td_priority (thr s t) \<and> tdq_lowpri (cpus s' cpu) \<le> td_priority (thr s t) \<and>
    (\<forall>u. u \<noteq> t \<longrightarrow> place (thr s' u) = place (thr s u) \<and> td_state (thr s' u) = td_state (thr s u))"

lemma added_after:
  assumes a: "added E t cpu s s1" and c: "\<forall>d. core (cpus s2 d) = core (cpus s1 d)" "\<forall>d. tdq_lowpri (cpus s2 d) = tdq_lowpri (cpus s1 d)"
    and T: "\<forall>u. place (thr s2 u) = place (thr s1 u) \<and> td_state (thr s2 u) = td_state (thr s1 u)" and cur: "curthr s2 = curthr s1" "lent s2 = lent s1"
  shows "added E t cpu s s2"
proof -
  have ok: "smp_ok E s1" using a by (simp add: added_def)
  have p: "\<forall>u. place (thr s2 u) = place (thr s1 u)" using T by simp
  note k = smp_ok_place [OF ok c(1) p]
  show ?thesis
    using a k T c(2) cur core_queued [OF c(1) [rule_format]] placeD(4,5) [OF p [rule_format]] by (simp add: added_def)
qed

lemma place_same: "same_thread x y \<Longrightarrow> p_nice y = p_nice x \<and> td_priority y = td_priority x \<and> ts_cpu y = ts_cpu x"
  using same_threadD by blast

lemma tdq_add_on_added:
  assumes ok: "smp_ok E s" and c: "c \<le> mp_maxid (kn E)" and fit: "fits_in E s t" and room: "256 * (total_load E s + 1) < INT_MAX"
    and t: "ts_cpu (thr s t) = c"
  shows "added E t c s (tdq_add_on E c t flags s)"
proof -
  have nt: "t \<notin> queued (cpus s c)" using fit c by (auto simp: fits_in_def all_queued_def)
  obtain T q where a: "tdq_add_on E c t flags s = s\<lparr>thr := T, cpus := (cpus s)(c := q)\<rparr>"
    "tdq_ok (rqmd E) c T q" "queued q = insert t (queued (cpus s c))" "tdq_load q = tdq_load (cpus s c) + 1"
    "\<forall>u. u \<noteq> t \<longrightarrow> T u = thr s u" "same_thread (thr s t) (T t)" "td_state (T t) = TDS_RUNQ"
    "tdq_lowpri q = min (td_priority (thr s t)) (tdq_lowpri (cpus s c))"
    using tdq_add_on_ok [OF smp_okD(1) [OF ok c] nt, of flags] fit by (auto simp: fits_in_def)
  define s' where "s' = s\<lparr>thr := T, cpus := (cpus s)(c := q)\<rparr>"
  have load: "total_load E s' = total_load E s + 1"
    using total_load_upd [OF c, of s' s] a(4) by (simp add: s'_def)
  note sd = same_threadD [OF a(6)]
  have ins: "smp_ok E s' \<and> all_queued E s' = insert t (all_queued E s)"
    using inserted_ok [OF ok c fit, of s'] a load room smp_okD(2) [OF ok c] sd t fit by (simp add: s'_def fits_in_def)
  have "extra s' d = extra s d" for d using a(3,4) nt by (simp add: extra_def s'_def)
  moreover have "td_flags (T u) = td_flags (thr s u)" for u using a(5) sd(2) by (cases "u = t") simp_all
  ultimately show ?thesis using a ins load c sd t by (simp add: added_def s'_def lent_def)
qed

lemma setpreempt_effect:
  "cpus (sched_setpreempt E t s) = cpus s" "curthr (sched_setpreempt E t s) = curthr s"
  "place (thr (sched_setpreempt E t s) u) = place (thr s u)" "td_state (thr (sched_setpreempt E t s) u) = td_state (thr s u)"
  by (cases "u = current E s"; simp add: sched_setpreempt_def Let_def upd_thr_def place_def)+

lemma setpreempt_lent: "lent (sched_setpreempt E t s) = lent s"
proof -
  have "(TDF_BORROWING \<in> td_flags (thr (sched_setpreempt E t s) u)) = (TDF_BORROWING \<in> td_flags (thr s u))" for u
    by (cases "u = current E s") (simp_all add: sched_setpreempt_def Let_def upd_thr_def)
  then show ?thesis by (simp add: lent_def)
qed

lemma notify_effect:
  "core (cpus (tdq_notify E c t s) d) = core (cpus s d)" "tdq_lowpri (cpus (tdq_notify E c t s) d) = tdq_lowpri (cpus s d)"
  "thr (tdq_notify E c t s) = thr s" "curthr (tdq_notify E c t s) = curthr s" "lent (tdq_notify E c t s) = lent s"
  by (simp_all add: tdq_notify_def Let_def upd_cpu_def core_def lent_def)

lemma sched_add_ok:
  assumes ok: "smp_ok E s" and topo: "topo_ok E" and p: "pickable E s t" and fit: "fits_in E s t"
    and room: "256 * (total_load E s + 1) < INT_MAX" and pr: "prio_ready (kn E) (thr s t)"
  shows "\<exists>cpu s'. sched_add E t flags s = Inr s' \<and> added E t cpu s s' \<and>
    (smp_started E \<and> SRQ_OURSELF \<notin> flags \<and> THREAD_CAN_MIGRATE (thr s t) \<longrightarrow> cpu \<in> td_cpuset (thr s t))"
proof -
  obtain x where x: "(if PRI_BASE (kn E) (td_pri_class (thr s t)) = PRI_TIMESHARE (kn E)
        then on_thread t (sched_priority (kn E)) s else Inr s) = Inr (s\<lparr>thr := (thr s)(t := x)\<rparr>)"
    "\<exists>p q. x = (thr s t)\<lparr>td_base_user_pri := p, td_user_pri := q\<rparr>"
  proof (cases "PRI_BASE (kn E) (td_pri_class (thr s t)) = PRI_TIMESHARE (kn E)")
    case True
    obtain p q where "sched_priority (kn E) (thr s t) = Inr ((thr s t)\<lparr>td_base_user_pri := p, td_user_pri := q\<rparr>)"
      using sched_priority_effect [OF pr] by blast
    then show ?thesis using True by (intro that) (auto simp: on_thread_def)
  next
    case False
    show ?thesis
      by (rule that [of "thr s t"]) (use False prios_id [of "thr s t"] in simp_all)
  qed
  define s1 where "s1 = s\<lparr>thr := (thr s)(t := x)\<rparr>"
  have s1: "cpus s1 = cpus s" "curthr s1 = curthr s" "\<forall>u. u \<noteq> t \<longrightarrow> thr s1 u = thr s u" "place (thr s1 t) = place (thr s t)"
    "td_cpuset (thr s1 t) = td_cpuset (thr s t)" "td_pinned (thr s1 t) = td_pinned (thr s t)"
    "td_state (thr s1 t) = td_state (thr s t)" "td_flags (thr s1 t) = td_flags (thr s t)"
    using x(2) by (auto simp: s1_def place_def)
  have nt: "t \<notin> all_queued E s" using fit by (simp add: fits_in_def)
  have ok1: "smp_ok E s1" by (rule smp_ok_thr [OF ok s1(1)]) (use nt s1(3) in metis)
  have aq: "all_queued E s' = all_queued E s" "total_load E s' = total_load E s" if "cpus s' = cpus s" for s' :: "'a word smp"
    using that by (simp_all add: all_queued_def total_load_def)
  have p1: "pickable E s1 t" using p s1(5) placeD(4) [OF s1(4)] by (simp add: pickable_def aq [OF s1(1)])
  obtain cpu s2 where pk: "sched_pickcpu E t flags s1 = Inr (cpu, s2)" "picked E t s1 s2" "cpu \<le> mp_maxid (kn E)"
    "smp_started E \<and> SRQ_OURSELF \<notin> flags \<and> THREAD_CAN_MIGRATE (thr s1 t) \<longrightarrow> cpu \<in> td_cpuset (thr s1 t)"
    using pickcpu_ok [OF ok1 topo p1] by blast
  define s3 where "s3 = sched_setcpu t cpu s2"
  obtain d where d: "thr s2 t = (thr s1 t)\<lparr>ts_cpu := d\<rparr>" using pk(2) by (auto simp: picked_def)
  have s3: "cpus s3 = cpus s" "curthr s3 = curthr s" "\<forall>u. u \<noteq> t \<longrightarrow> thr s3 u = thr s u" "ts_cpu (thr s3 t) = cpu"
    "td_priority (thr s3 t) = td_priority (thr s t)" "ts_flags (thr s3 t) = ts_flags (thr s t)" "p_nice (thr s3 t) = p_nice (thr s t)"
    using pk(2) s1 d placeD [OF s1(4)] by (simp_all add: s3_def sched_setcpu_def upd_thr_def picked_def)
  have "td_flags (thr s3 u) = td_flags (thr s u)" for u
    using s3(3) s1(8) d by (cases "u = t") (simp_all add: s3_def sched_setcpu_def upd_thr_def)
  then have lent3: "lent s3 = lent s" by (simp add: lent_def)
  have ok3: "smp_ok E s3" by (rule smp_ok_thr [OF ok s3(1)]) (use nt s3(3) in metis)
  have "(\<Sum>u\<in>all_queued E s. p_nice (thr s3 u) + 1) = (\<Sum>u\<in>all_queued E s. p_nice (thr s u) + 1)"
    using nt s3(3) by (intro sum.cong refl) metis
  then have fit3: "fits_in E s3 t" using fit s3 by (simp add: fits_in_def aq [OF s3(1)])
  have room3: "256 * (total_load E s3 + 1) < INT_MAX" using room by (simp add: aq [OF s3(1)])
  define s4 where "s4 = tdq_add_on E cpu t flags s3"
  have "added E t cpu s3 s4" unfolding s4_def by (rule tdq_add_on_added [OF ok3 pk(3) fit3 room3 s3(4)])
  then have a4: "added E t cpu s s4"
    using s3 lent3 by (simp add: added_def aq [OF s3(1)] extra_def)
  define s5 where "s5 = (if cpu \<noteq> self E then tdq_notify E cpu t s4
            else if SRQ_YIELDING \<notin> flags then sched_setpreempt E t s4 else s4)"
  have "sched_add E t flags s = Inr s5"
    using x(1) pk(1) by (simp add: sched_add_def s1_def s5_def s4_def s3_def Let_def)
  moreover have "added E t cpu s s5"
    using a4 added_after [OF a4, of "tdq_notify E cpu t s4"] added_after [OF a4, of "sched_setpreempt E t s4"]
    by (auto simp: s5_def notify_effect setpreempt_effect setpreempt_lent)
  moreover have "THREAD_CAN_MIGRATE (thr s1 t) = THREAD_CAN_MIGRATE (thr s t)" by (simp add: THREAD_CAN_MIGRATE_def s1(6))
  ultimately show ?thesis using pk(4) s1(5) by auto
qed

section \<open>Changing a priority\<close>

lemma smp_ok_pri:
  assumes ok: "smp_ok E s" and p: "p < 256"
  shows "smp_ok E (upd_thr t (\<lambda>x. x\<lparr>td_priority := p\<rparr>) s)"
proof -
  let ?s = "upd_thr t (\<lambda>x. x\<lparr>td_priority := p\<rparr>) s"
  have f: "ts_runq (thr ?s u) = ts_runq (thr s u)" "td_rqindex (thr ?s u) = td_rqindex (thr s u)"
    "ts_flags (thr ?s u) = ts_flags (thr s u)" "ts_cpu (thr ?s u) = ts_cpu (thr s u)" "p_nice (thr ?s u) = p_nice (thr s u)"
    "td_priority (thr ?s u) = (if u = t then p else td_priority (thr s u))" for u
    by (cases "u = t"; simp add: upd_thr_def)+
  have "cpus ?s = cpus s" "all_queued E ?s = all_queued E s" "total_load E ?s = total_load E s"
    by (simp_all add: upd_thr_def all_queued_def total_load_def)
  then show ?thesis using ok p f by (simp add: smp_ok_def tdq_ok_def placed_def)
qed

text \<open>A thread that can be given to a processor, and whose state says whether it is queued.\<close>

definition settled :: "'w::len word cpu_env \<Rightarrow> 'w word smp \<Rightarrow> tid \<Rightarrow> bool" where
  "settled E s t \<longleftrightarrow> self E \<le> mp_maxid (kn E) \<and> ts_cpu (thr s t) \<le> mp_maxid (kn E) \<and> (\<forall>c. tdq_cg E c \<noteq> []) \<and>
    td_cpuset (thr s t) \<inter> set (leaves E (cpu_top E)) \<noteq> {} \<and> prio_ready (kn E) (thr s t) \<and>
    (td_state (thr s t) = TDS_RUNQ \<longleftrightarrow> t \<in> all_queued E s)"

definition repriced :: "'w::len word cpu_env \<Rightarrow> tid \<Rightarrow> nat \<Rightarrow> 'w word smp \<Rightarrow> 'w word smp \<Rightarrow> bool" where
  "repriced E t p s s' \<longleftrightarrow> smp_ok E s' \<and> all_queued E s' = all_queued E s \<and> total_load E s' = total_load E s \<and>
    (\<forall>c. extra s' c = extra s c) \<and> lent s' = lent s \<and> td_priority (thr s' t) = p \<and>
    (td_state (thr s' t) = td_state (thr s t))"

lemma setlowpri_on_ok:
  assumes ok: "smp_ok E s" and c: "c \<le> mp_maxid (kn E)"
  shows "\<exists>s'. tdq_setlowpri_on E c t s = Inr s' \<and> smp_ok E s' \<and> all_queued E s' = all_queued E s \<and>
    total_load E s' = total_load E s \<and> (\<forall>d. extra s' d = extra s d) \<and> thr s' = thr s \<and> curthr s' = curthr s"
proof -
  obtain p where "tdq_setlowpri (rqmd E) (thr s) (cpus s c) t (random E (draws s)) = Inr ((cpus s c)\<lparr>tdq_lowpri := p\<rparr>)"
    using tdq_setlowpri_ok [OF smp_okD(1) [OF ok c] smp_nice [OF ok c], of t "random E (draws s)"] by blast
  then have r: "tdq_setlowpri_on E c t s = Inr (s\<lparr>cpus := (cpus s)(c := (cpus s c)\<lparr>tdq_lowpri := p\<rparr>), draws := draws s + 1\<rparr>)"
    by (simp add: tdq_setlowpri_on_def)
  define s' where "s' = s\<lparr>cpus := (cpus s)(c := (cpus s c)\<lparr>tdq_lowpri := p\<rparr>), draws := draws s + 1\<rparr>"
  have "\<forall>d. core (cpus s' d) = core (cpus s d)" "\<forall>u. place (thr s' u) = place (thr s u)"
    by (simp_all add: s'_def core_def)
  note k = smp_ok_place [OF ok this]
  show ?thesis using r k by (simp add: s'_def)
qed

lemma thread_priority_ok:
  assumes ok: "smp_ok E s" and topo: "topo_ok E" and st: "settled E s t" and prio: "prio < 256"
  shows "\<exists>s'. sched_thread_priority E t prio s = Inr s' \<and> repriced E t prio s s'"
proof -
  let ?old = "td_priority (thr s t)" and ?c = "ts_cpu (thr s t)"
  let ?set = "upd_thr t (\<lambda>x. x\<lparr>td_priority := prio\<rparr>)"
  note S = st [unfolded settled_def]
  have c: "?c \<le> mp_maxid (kn E)" using S by blast
  have set_ok: "smp_ok E (?set s)" by (rule smp_ok_pri [OF ok prio])
  have set_q: "cpus (?set s) = cpus s" by (simp add: upd_thr_def)
  have l: "td_flags (thr (?set x) u) = td_flags (thr x u)" for x u by (cases "u = t") (simp_all add: upd_thr_def)
  have set_rep: "repriced E t prio s (?set s)"
    using set_ok by (simp add: repriced_def all_queued_def total_load_def extra_def set_q lent_def l) (simp add: upd_thr_def)
  consider "?old = prio" | "?old \<noteq> prio" "td_state (thr s t) = TDS_RUNQ" "prio < ?old"
    | "?old \<noteq> prio" "\<not> (td_state (thr s t) = TDS_RUNQ \<and> prio < ?old)" "td_state (thr s t) = TDS_RUNNING"
    | "?old \<noteq> prio" "\<not> (td_state (thr s t) = TDS_RUNQ \<and> prio < ?old)" "td_state (thr s t) \<noteq> TDS_RUNNING" by blast
  then show ?thesis
  proof cases
    case 1
    then show ?thesis using ok by (simp add: sched_thread_priority_def Let_def repriced_def)
  next
    case 2
    then have "t \<in> all_queued E s" using S by blast
    then have tq: "t \<in> queued (cpus s ?c)" using smp_okD(3) [OF ok] by (auto simp: all_queued_def)
    obtain T q where r: "sched_rem_on E t s = Inr (s\<lparr>thr := T, cpus := (cpus s)(?c := q), draws := draws s + 1\<rparr>)"
      "tdq_ok (rqmd E) ?c T q" "queued q = queued (cpus s ?c) - {t}" "tdq_load q = tdq_load (cpus s ?c) - 1"
      "\<forall>u. u \<noteq> t \<longrightarrow> T u = thr s u" "same_thread (thr s t) (T t)" "TSF_XFERABLE \<notin> ts_flags (T t)"
      using sched_rem_on_ok [OF ok c tq] by blast
    define s1 where "s1 = s\<lparr>thr := T, cpus := (cpus s)(?c := q), draws := draws s + 1\<rparr>"
    have rem: "smp_ok E s1" "all_queued E s1 = all_queued E s - {t}"
      using removed_ok [OF ok c tq, of s1] r smp_okD(2) [OF ok c] by (simp_all add: s1_def)
    have tot: "total_load E s1 = total_load E s - 1" using total_load_upd [OF c, of s1 s] r(4) by (simp add: s1_def)
    define s2 where "s2 = ?set s1"
    have s2: "cpus s2 = cpus s1" "\<forall>u. u \<noteq> t \<longrightarrow> thr s2 u = thr s u" "thr s2 t = (T t)\<lparr>td_priority := prio\<rparr>"
      using r(5) by (simp_all add: s2_def upd_thr_def s1_def)
    have ok2: "smp_ok E s2" unfolding s2_def by (rule smp_ok_pri [OF rem(1) prio])
    have aq: "all_queued E s2 = all_queued E s - {t}" "total_load E s2 = total_load E s - 1" "extra s2 = extra s1"
      using rem(2) tot by (simp_all add: all_queued_def total_load_def s2(1) extra_def fun_eq_iff)
    obtain a b d e where TT: "T t = (thr s t)\<lparr>td_state := a, ts_flags := b, ts_runq := d, td_rqindex := e\<rparr>"
      using r(6) by (auto simp: same_thread_def)
    have p2: "pickable E s2 t" using S by (simp add: pickable_def aq(1) s2(3) TT)
    have "(\<Sum>u\<in>all_queued E s. p_nice (thr s u) + 1) = (p_nice (thr s t) + 1) + (\<Sum>u\<in>all_queued E s - {t}. p_nice (thr s u) + 1)"
      using \<open>t \<in> all_queued E s\<close> by (simp add: sum.remove)
    moreover have "(\<Sum>u\<in>all_queued E s - {t}. p_nice (thr s2 u) + 1) = (\<Sum>u\<in>all_queued E s - {t}. p_nice (thr s u) + 1)"
      using s2(2) by (intro sum.cong) auto
    ultimately have fit: "fits_in E s2 t"
      using ok prio r(7) \<open>t \<in> all_queued E s\<close> by (simp add: fits_in_def aq(1) s2(3) TT smp_ok_def)
    have room: "256 * (total_load E s2 + 1) < INT_MAX" using ok by (simp add: aq(2) smp_ok_def)
    have pr: "prio_ready (kn E) (thr s2 t)" using S by (simp add: s2(3) TT prio_ready_def)
    obtain cpu s' where add: "sched_add E t {SRQ_BORROWING} s2 = Inr s'" "added E t cpu s2 s'"
      using sched_add_ok [OF ok2 topo p2 fit room pr] by blast
    have "card (queued (cpus s ?c) - {t}) + 1 = card (queued (cpus s ?c))"
      using tq by (metis Suc_eq_plus1 card_Suc_Diff1 queued_finite)
    then have "extra s1 d = extra s d" for d using r(3,4) by (simp add: extra_def s1_def)
    moreover have "td_flags (thr s2 u) = td_flags (thr s u)" for u using s2(2,3) TT by (cases "u = t") simp_all
    then have "lent s2 = lent s" by (simp add: lent_def)
    ultimately have "repriced E t prio s s'"
      using add(2) \<open>t \<in> all_queued E s\<close> 2(2) by (auto simp: added_def repriced_def aq s2(3))
    moreover have "sched_thread_priority E t prio s = Inr s'"
      using 2 r(1) add(1) by (simp add: sched_thread_priority_def Let_def s2_def s1_def)
    ultimately show ?thesis by blast
  next
    case 3
    have e: "sched_thread_priority E t prio s =
      (if prio < tdq_lowpri (cpus s ?c) then Inr (upd_cpu ?c (\<lambda>q. q\<lparr>tdq_lowpri := prio\<rparr>) (?set s))
             else if tdq_lowpri (cpus s ?c) = ?old then tdq_setlowpri_on E ?c t (?set s)
             else Inr (?set s))" using 3 by (simp add: sched_thread_priority_def Let_def)
    define s1 where "s1 = upd_cpu ?c (\<lambda>q. q\<lparr>tdq_lowpri := prio\<rparr>) (?set s)"
    have s1: "\<forall>d. core (cpus s1 d) = core (cpus (?set s) d)" "\<forall>u. place (thr s1 u) = place (thr (?set s) u)"
      "thr s1 = thr (?set s)" by (simp_all add: s1_def upd_cpu_def core_def)
    have "repriced E t prio s s1"
      using set_rep smp_ok_place [OF set_ok s1(1,2)] s1(3) by (simp add: repriced_def lent_def)
    moreover obtain s2 where s2: "tdq_setlowpri_on E ?c t (?set s) = Inr s2" "smp_ok E s2" "all_queued E s2 = all_queued E (?set s)"
      "total_load E s2 = total_load E (?set s)" "\<forall>d. extra s2 d = extra (?set s) d" "thr s2 = thr (?set s)"
      using setlowpri_on_ok [OF set_ok c, of t] by blast
    moreover have "repriced E t prio s s2" using set_rep s2 by (simp add: repriced_def lent_def)
    ultimately show ?thesis using set_rep by (simp add: e s1_def)
  next
    case 4
    have "sched_thread_priority E t prio s = Inr (?set s)"
      unfolding sched_thread_priority_def Let_def using 4(1) by (simp only: if_not_P [OF 4(2)] if_not_P [OF 4(3)] if_False)
    then show ?thesis using set_rep by simp
  qed
qed

text \<open>
  C24: A thread that becomes runnable is queued: \<open>sched_add\<close> never fails, puts the thread on the queue of
  one processor of the system, one the thread may run on unless it is pinned, and no other thread
  appears or disappears. The load of that processor grows by one and its lowest priority is at most
  the thread's.
\<close>

theorem sched_add_places:
  assumes ok: "smp_ok E s" and topo: "topo_ok E" and p: "pickable E s t" and fit: "fits_in E s t"
    and room: "256 * (total_load E s + 1) < INT_MAX" and pr: "prio_ready (kn E) (thr s t)"
    and run: "smp_started E" "SRQ_OURSELF \<notin> flags" "td_pinned (thr s t) = 0"
  shows "\<exists>cpu s'. sched_add E t flags s = Inr s' \<and> cpu \<le> mp_maxid (kn E) \<and> cpu \<in> td_cpuset (thr s t) \<and>
    t \<in> queued (cpus s' cpu) \<and> smp_ok E s' \<and> all_queued E s' = insert t (all_queued E s) \<and>
    total_load E s' = total_load E s + 1 \<and> tdq_lowpri (cpus s' cpu) \<le> td_priority (thr s t)"
  using sched_add_ok [OF ok topo p fit room pr, of flags] run by (fastforce simp: added_def THREAD_CAN_MIGRATE_def)

definition smp8 :: "64 word smp" where
  "smp8 = upd_thr 8 (\<lambda>x. x\<lparr>td_cpuset := {1, 3}\<rparr>) smp7"

lemma smp8_facts: "smp_ok cpu_env0 smp8" "all_queued cpu_env0 smp8 = {7}" "total_load cpu_env0 smp8 = 1"
  "thr smp8 8 = td0\<lparr>td_cpuset := {1, 3}\<rparr>" "thr smp8 7 = thr7 7"
proof -
  have c: "cpus smp8 = cpus smp7" by (simp add: smp8_def upd_thr_def)
  show aq: "all_queued cpu_env0 smp8 = {7}" using smp7_queued by (simp add: all_queued_def c)
  show "smp_ok cpu_env0 smp8"
    by (rule smp_ok_thr [OF smp7_ok c]) (simp add: smp7_queued upd_thr_def smp8_def)
  have l: "tdq_load tdq7 = 1" "tdq_load tdq0 = 0"
    by (simp_all add: tdq7_def tdq_add_def tdq_load_add_def tdq_runq_add_eq Let_def counted_def tdq0_def tdq_setup_def
        set_queue_def split: runq_kind.splits prod.splits)
  have "tdq_load (cpus smp8 d) = (if d = 0 then 1 else 0)" for d by (simp add: c smp7_def l)
  then show "total_load cpu_env0 smp8 = 1" by (simp add: total_load_def cpu_env0_simps)
  have "thr7 8 = td0"
    by (simp add: thr7_def tdq_add_def tdq_runq_add_eq Let_def marked_def runq_add_pri_def split: runq_kind.splits)
  then show "thr smp8 8 = td0\<lparr>td_cpuset := {1, 3}\<rparr>" "thr smp8 7 = thr7 7"
    by (simp_all add: smp8_def upd_thr_def smp7_def)
qed

lemma env0_facts: "\<forall>c. tdq_cg cpu_env0 c \<noteq> []" "smp_started cpu_env0" "panicstr cpu_env0 = False"
  by (simp_all add: cpu_env0_def)

lemma td0_ready: "prio_ready freebsd (td0\<lparr>td_cpuset := m\<rparr>)"
  using freebsd_ok by (simp add: prio_ready_def td0_def freebsd_hz)

lemma smp8_fits: "fits_in cpu_env0 smp8 8" "pickable cpu_env0 smp8 8"
proof -
  show "fits_in cpu_env0 smp8 8"
    by (simp add: fits_in_def smp8_facts thr7_nice) (simp add: td0_def)
  show "pickable cpu_env0 smp8 8"
    using env0_facts by (simp add: pickable_def smp8_facts cpu_env0_simps cpu_env0_leaves) (simp add: td0_def)
qed

theorem sched_add_places_witness:
  "\<exists>s'. sched_add cpu_env0 8 {} smp8 = Inr s' \<and> all_queued cpu_env0 s' = {7, 8} \<and>
    (8 \<in> queued (cpus s' 1) \<or> 8 \<in> queued (cpus s' 3))"
proof -
  have "td_pinned (thr smp8 8) = 0" "td_cpuset (thr smp8 8) = {1, 3}" "prio_ready (kn cpu_env0) (thr smp8 8)"
    using td0_ready by (simp_all add: smp8_facts cpu_env0_simps) (simp add: td0_def)
  then show ?thesis
    using sched_add_places [OF smp8_facts(1) topo0 smp8_fits(2,1), of "{}"] env0_facts
    by (auto simp: smp8_facts INT_MAX_def)
qed

section \<open>Lending a priority\<close>

text \<open>Updates of a thread that leave its place and its processor set alone.\<close>

lemma upd_flags_ok:
  assumes ok: "smp_ok E s" and st: "settled E s t" and s1: "s1 = upd_thr t (\<lambda>x. x\<lparr>td_flags := f x, td_base_pri := b x\<rparr>) s"
  shows "smp_ok E s1" "settled E s1 t" "all_queued E s1 = all_queued E s" "total_load E s1 = total_load E s"
    "extra s1 d = extra s d" "td_priority (thr s1 t) = td_priority (thr s t)" "td_state (thr s1 t) = td_state (thr s t)"
    "lent s1 = (if TDF_BORROWING \<in> f (thr s t) then insert t (lent s) else lent s - {t})"
proof -
  have c: "\<forall>d. core (cpus s1 d) = core (cpus s d)" by (simp add: s1 upd_thr_def)
  have T: "\<forall>u. place (thr s1 u) = place (thr s u)" by (simp add: s1 upd_thr_def place_def upd_td_def)
  note k = smp_ok_place [OF ok c T]
  show "smp_ok E s1" "all_queued E s1 = all_queued E s" "total_load E s1 = total_load E s" "extra s1 d = extra s d"
    using k by blast+
  have t1: "thr s1 t = (thr s t)\<lparr>td_flags := f (thr s t), td_base_pri := b (thr s t)\<rparr>" by (simp add: s1 upd_thr_def)
  then show "settled E s1 t" using st k(2) by (simp add: settled_def prio_ready_def)
  show "td_priority (thr s1 t) = td_priority (thr s t)" "td_state (thr s1 t) = td_state (thr s t)" by (simp_all add: t1)
  have "x \<in> lent s1 \<longleftrightarrow> x \<in> (if TDF_BORROWING \<in> f (thr s t) then insert t (lent s) else lent s - {t})" for x
    using t1 by (cases "x = t") (simp_all add: lent_def s1 upd_thr_def)
  then show "lent s1 = (if TDF_BORROWING \<in> f (thr s t) then insert t (lent s) else lent s - {t})" by blast
qed

lemma lend_prio_ok:
  assumes ok: "smp_ok E s" and topo: "topo_ok E" and st: "settled E s t" and prio: "prio < 256"
  shows "\<exists>s'. sched_lend_prio E t prio s = Inr s' \<and> smp_ok E s' \<and> all_queued E s' = all_queued E s \<and>
    total_load E s' = total_load E s \<and> td_priority (thr s' t) = prio \<and> lent s' = insert t (lent s)"
proof -
  define s1 where "s1 = upd_thr t (\<lambda>x. x\<lparr>td_flags := insert TDF_BORROWING (td_flags x), td_base_pri := td_base_pri x\<rparr>) s"
  note u = upd_flags_ok [OF ok st s1_def]
  have "s1 = upd_thr t (\<lambda>x. x\<lparr>td_flags := insert TDF_BORROWING (td_flags x)\<rparr>) s" by (simp add: s1_def)
  then show ?thesis
    using thread_priority_ok [OF u(1) topo u(2) prio] u(3,4,8) by (auto simp: sched_lend_prio_def repriced_def)
qed

text \<open>
  \<open>turnstile_adjust\<close> moves the thread among those that wait for a lock and may lend its priority on:
  it keeps the queues consistent, and the thread's own priority.
\<close>

definition adjusts_others :: "'w::len word cpu_env \<Rightarrow> tid \<Rightarrow> (tid \<Rightarrow> nat \<Rightarrow> 'w word smp \<Rightarrow> fault + 'w word smp) \<Rightarrow> bool" where
  "adjusts_others E t ta \<longleftrightarrow> (\<forall>p x. smp_ok E x \<longrightarrow> (\<exists>x'. ta t p x = Inr x' \<and> smp_ok E x' \<and> all_queued E x' = all_queued E x \<and>
    td_priority (thr x' t) = td_priority (thr x t)))"

text \<open>
  Priority lending. A thread that is lent a priority has it, while it borrows \<open>sched_prio\<close> never makes
  its priority worse, and when lending ends with \<open>sched_unlend_prio\<close> it has the better of its own
  priority and the one still asked for, and goes on borrowing exactly when that one is better. None of
  these fails or changes which threads are queued, whether the thread runs, sleeps or is queued.
\<close>

theorem priority_lending:
  assumes ok: "smp_ok E s" and topo: "topo_ok E" and st: "settled E s t" and prio: "prio < 256"
    and base: "lent_base (kn E) (thr s t) < 256" and ta: "adjusts_others E t ta"
  shows "(\<exists>s'. sched_lend_prio E t prio s = Inr s' \<and> smp_ok E s' \<and> all_queued E s' = all_queued E s \<and>
      td_priority (thr s' t) = prio \<and> t \<in> lent s') \<and>
    (\<exists>s'. sched_prio E ta t prio s = Inr s' \<and> smp_ok E s' \<and> all_queued E s' = all_queued E s \<and>
      td_priority (thr s' t) = (if t \<in> lent s then min (td_priority (thr s t)) prio else prio)) \<and>
    (\<exists>s'. sched_unlend_prio E t prio s = Inr s' \<and> smp_ok E s' \<and> all_queued E s' = all_queued E s \<and>
      td_priority (thr s' t) = min prio (lent_base (kn E) (thr s t)) \<and>
      (t \<in> lent s' \<longleftrightarrow> prio < lent_base (kn E) (thr s t)))"
proof (intro conjI)
  show "\<exists>s'. sched_lend_prio E t prio s = Inr s' \<and> smp_ok E s' \<and> all_queued E s' = all_queued E s \<and>
      td_priority (thr s' t) = prio \<and> t \<in> lent s'"
    using lend_prio_ok [OF ok topo st prio] by auto
  define s1 where "s1 = upd_thr t (\<lambda>x. x\<lparr>td_flags := td_flags x, td_base_pri := prio\<rparr>) s"
  have s1: "s1 = upd_thr t (\<lambda>x. x\<lparr>td_base_pri := prio\<rparr>) s" by (simp add: s1_def)
  note u1 = upd_flags_ok [OF ok st s1_def]
  show "\<exists>s'. sched_prio E ta t prio s = Inr s' \<and> smp_ok E s' \<and> all_queued E s' = all_queued E s \<and>
      td_priority (thr s' t) = (if t \<in> lent s then min (td_priority (thr s t)) prio else prio)"
  proof (cases "t \<in> lent s \<and> td_priority (thr s t) < prio")
    case True
    then have "sched_prio E ta t prio s = Inr s1" by (simp add: sched_prio_def s1 lent_def)
    then show ?thesis using u1 True by auto
  next
    case False
    obtain s' where s': "sched_thread_priority E t prio s1 = Inr s'" "repriced E t prio s1 s'"
      using thread_priority_ok [OF u1(1) topo u1(2) prio] by blast
    have "smp_ok E s'" using s'(2) by (simp add: repriced_def)
    then obtain s'' where s'': "ta t (td_priority (thr s t)) s' = Inr s''" "smp_ok E s''" "all_queued E s'' = all_queued E s'"
      "td_priority (thr s'' t) = td_priority (thr s' t)" using ta unfolding adjusts_others_def by blast
    have "sched_prio E ta t prio s = Inr s' \<or> sched_prio E ta t prio s = Inr s''"
      using False s'(1) s''(1) by (auto simp: sched_prio_def s1 [symmetric] lent_def Let_def)
    then show ?thesis using u1 False s'(2) s''(2-4) by (auto simp: repriced_def)
  qed
  let ?b = "lent_base (kn E) (thr s t)"
  define s2 where "s2 = upd_thr t (\<lambda>x. x\<lparr>td_flags := td_flags x - {TDF_BORROWING}, td_base_pri := td_base_pri x\<rparr>) s"
  have s2: "s2 = upd_thr t (\<lambda>x. x\<lparr>td_flags := td_flags x - {TDF_BORROWING}\<rparr>) s" by (simp add: s2_def)
  note u2 = upd_flags_ok [OF ok st s2_def]
  show "\<exists>s'. sched_unlend_prio E t prio s = Inr s' \<and> smp_ok E s' \<and> all_queued E s' = all_queued E s \<and>
      td_priority (thr s' t) = min prio ?b \<and> (t \<in> lent s' \<longleftrightarrow> prio < ?b)"
  proof (cases "prio < ?b")
    case True
    then show ?thesis using lend_prio_ok [OF ok topo st prio] by (auto simp: sched_unlend_prio_def Let_def)
  next
    case False
    obtain s' where "sched_thread_priority E t ?b s2 = Inr s'" "repriced E t ?b s2 s'"
      using thread_priority_ok [OF u2(1) topo u2(2) base] by blast
    moreover from this have "sched_unlend_prio E t prio s = Inr s'"
      using False by (simp add: sched_unlend_prio_def Let_def s2)
    ultimately show ?thesis using u2 False by (auto simp: repriced_def)
  qed
qed

text \<open>The queued thread 7 of an ordinary user, with user priority 160, is lent 90 and keeps it.\<close>

theorem priority_lending_witness:
  "\<exists>s'. sched_unlend_prio cpu_env0 7 90 smp7 = Inr s' \<and> td_priority (thr s' 7) = 90 \<and> all_queued cpu_env0 s' = {7}"
proof -
  obtain T q where r: "tdq_add amd64_runq freebsd 0 (\<lambda>_. td0) tdq0 7 {} = (T, q)" by fastforce
  then have t7: "same_thread td0 (thr7 7)" "td_state (thr7 7) = TDS_RUNQ"
    using tdq_add_frame [OF r] by (simp_all add: thr7_def)
  obtain a b c d where t7': "thr7 7 = td0\<lparr>td_state := a, ts_flags := b, ts_runq := c, td_rqindex := d\<rparr>"
    using t7(1) by (auto simp: same_thread_def)
  have s7: "thr smp7 7 = thr7 7" by (simp add: smp7_def)
  have "prio_ready freebsd (thr smp7 7)" using td0_ready [of "{0, 1, 2, 3}"] by (simp add: prio_ready_def s7 t7' td0_def)
  then have "settled cpu_env0 smp7 7"
    using env0_facts t7(2) by (simp add: settled_def cpu_env0_simps cpu_env0_leaves smp7_queued s7)
      (simp add: t7' td0_def)
  moreover have "lent_base freebsd (thr smp7 7) = 160" by (simp add: lent_base_def s7 t7' td0_def)
  moreover have "adjusts_others cpu_env0 7 (\<lambda>_ _. Inr)" by (simp add: adjusts_others_def)
  ultimately show ?thesis
    using priority_lending [OF smp7_ok topo0, of 7 90 "\<lambda>_ _. Inr"] by (auto simp: cpu_env0_simps smp7_queued)
qed

end
