(* ===== verification/Sched_Switch_Props.thy ===== *)
theory Sched_Switch_Props
  imports Sched_Sys_Props
begin

text \<open>
  The context switch of \<open>sched_switch\<close>: the thread that leaves, the thread that is stolen when the
  processor would idle, the thread that is chosen, and the loads.
\<close>

section \<open>Accounting of ticks\<close>

lemma s32_of_u32_of: "s32_of (u32_of x) = s32_of x"
  by (simp add: s32_of_def u32_of_def signed_take_bit_take_bit)

lemma u32_of_s32_of: "u32_of (s32_of x) = u32_of x"
  by (simp add: s32_of_def u32_of_def take_bit_signed_take_bit)

lemma u32_of_add: "u32_of (u32_of x + u32_of y) = u32_of (x + y)"
  by (simp add: u32_of_def take_bit_add)

definition ticked :: "thread \<Rightarrow> thread \<Rightarrow> bool" where
  "ticked x y \<longleftrightarrow> (\<exists>a b c. y = x\<lparr>ts_ticks := a, ts_ftick := b, ts_ltick := c\<rparr>)"

lemma tickedI: "y = x\<lparr>ts_ticks := ts_ticks y, ts_ftick := ts_ftick y, ts_ltick := ts_ltick y\<rparr> \<Longrightarrow> ticked x y"
  unfolding ticked_def by blast

lemma ticked_fields:
  assumes "ticked x y"
  shows "place y = place x" "td_flags y = td_flags x" "td_state y = td_state x" "td_cpuset y = td_cpuset x"
    "td_pinned y = td_pinned x" "p_system y = p_system x"
  using assms by (auto simp: ticked_def place_def)

text \<open>The division of \<open>sched_pctcpu_update\<close> is safe: ticks that lie far back have a positive span.\<close>

lemma pctcpu_update_ok:
  assumes "1 \<le> hz k" and "11 * hz k < 2 ^ 31"
  shows "\<exists>td'. sched_pctcpu_update k now run td = Inr td' \<and> ticked td td'"
proof -
  have targ: "0 \<le> SCHED_TICK_TARG k" "SCHED_TICK_TARG k < 2 ^ 31" "SCHED_TICK_TARG k < SCHED_TICK_MAX k"
    using assms by (simp_all add: SCHED_TICK_TARG_def SCHED_TICK_MAX_def SCHED_TICK_SECS_def)
  have safe: "s32_of (ts_ltick td - ts_ftick td) \<noteq> 0"
    if "\<not> u32_of (now - ts_ltick td) \<ge> u32_of (SCHED_TICK_TARG k)" "s32_of (now - ts_ftick td) \<ge> SCHED_TICK_MAX k"
  proof
    assume z: "s32_of (ts_ltick td - ts_ftick td) = 0"
    then have "u32_of (ts_ltick td - ts_ftick td) = u32_of 0" using u32_of_s32_of by metis
    then have "u32_of (now - ts_ftick td) = u32_of (now - ts_ltick td)"
      using u32_of_add [of "now - ts_ltick td" "ts_ltick td - ts_ftick td"] u32_of_add [of "now - ts_ltick td" 0]
      by simp
    then have "s32_of (now - ts_ftick td) = s32_of (u32_of (now - ts_ltick td))" using s32_of_u32_of by metis
    moreover have "u32_of (now - ts_ltick td) < SCHED_TICK_TARG k" using that(1) targ by simp
    ultimately show False using that(2) targ by simp
  qed
  define td1 where "td1 = (if u32_of (now - ts_ltick td) \<ge> u32_of (SCHED_TICK_TARG k)
      then td\<lparr>ts_ticks := 0, ts_ftick := s32_of (now - SCHED_TICK_TARG k)\<rparr>
      else if s32_of (now - ts_ftick td) \<ge> SCHED_TICK_MAX k
      then td\<lparr>ts_ticks := s32_of (ts_ticks td sdiv s32_of (ts_ltick td - ts_ftick td) *
             s32_of (ts_ltick td - s32_of (now - SCHED_TICK_TARG k))), ts_ftick := s32_of (now - SCHED_TICK_TARG k)\<rparr>
      else td)"
  have "\<exists>a b. td = td\<lparr>ts_ticks := a, ts_ftick := b\<rparr>"
    by (rule exI [of _ "ts_ticks td"], rule exI [of _ "ts_ftick td"], simp)
  then have td1: "\<exists>a b. td1 = td\<lparr>ts_ticks := a, ts_ftick := b\<rparr>" unfolding td1_def by auto
  have "sched_pctcpu_update k now run td = (let td2 = (if run
              then td1\<lparr>ts_ticks := s32_of (ts_ticks td1 + push_bit SCHED_TICK_SHIFT (s32_of (now - ts_ltick td1)))\<rparr>
              else td1) in Inr (td2\<lparr>ts_ltick := now\<rparr>))"
    using safe by (auto simp: sched_pctcpu_update_def Let_def td1_def)
  then show ?thesis using td1 by (auto simp: Let_def intro!: tickedI)
qed

lemma pctcpu_on_ok:
  assumes hz: "1 \<le> hz k" "11 * hz k < 2 ^ 31"
  shows "\<exists>s'. on_thread t (sched_pctcpu_update k now run) s = Inr s' \<and> cpus s' = cpus s \<and> curthr s' = curthr s \<and>
    (\<forall>u. u \<noteq> t \<longrightarrow> thr s' u = thr s u) \<and> ticked (thr s t) (thr s' t)"
  using pctcpu_update_ok [OF hz, of now run "thr s t"] by (auto simp: on_thread_def)

section \<open>Stealing before the processor idles\<close>

lemma moved_extra:
  assumes ok: "smp_ok E s" and d: "d \<le> mp_maxid (kn E)" "c \<le> mp_maxid (kn E)" "d \<noteq> c" and t: "t \<in> queued (cpus s d)"
    and m: "moved E d c t s s'"
  shows "extra s' e = extra s e"
proof -
  have nt: "t \<notin> queued (cpus s c)" using smp_disjoint [OF ok d] t by blast
  have "card (queued (cpus s d) - {t}) + 1 = card (queued (cpus s d))"
    using t by (metis Suc_eq_plus1 card_Suc_Diff1 queued_finite)
  note card = this
  consider "e = d" | "e = c" | "e \<noteq> d" "e \<noteq> c" by blast
  then show ?thesis using m d(3) nt card by cases (simp_all add: moved_def extra_def)
qed

text \<open>
  What the other processors do while this one has dropped its locks: they move queued threads from queue to
  queue, onto and off this processor's too, as stealing and balancing does. They do not start or end threads.
\<close>

definition moves_only :: "'w::len word cpu_env \<Rightarrow> (nat \<Rightarrow> 'w word smp \<Rightarrow> 'w word smp) \<Rightarrow> bool" where
  "moves_only E others \<longleftrightarrow> (\<forall>k x. smp_ok E x \<longrightarrow> smp_keeps E x (others k x) \<and> (\<forall>c. extra (others k x) c = extra x c) \<and>
    (\<forall>u. u \<notin> all_queued E x \<longrightarrow> thr (others k x) u = thr x u) \<and> (\<forall>u. p_nice (thr (others k x) u) = p_nice (thr x u)))"

lemma moves_onlyD:
  assumes "moves_only E others" "smp_ok E x"
  shows "smp_keeps E x (others k x)" "extra (others k x) c = extra x c" "u \<notin> all_queued E x \<Longrightarrow> thr (others k x) u = thr x u"
    "p_nice (thr (others k x) u) = p_nice (thr x u)"
  using assms unfolding moves_only_def by blast+

lemma moves_only_quiet: "moves_only E (\<lambda>_ x. x)"
  by (simp add: moves_only_def smp_keeps_refl)

text \<open>A processor that moves a thread from one queue to another is of this kind.\<close>

lemma moves_only_move:
  assumes d: "d \<le> mp_maxid (kn E)" "c \<le> mp_maxid (kn E)" "d \<noteq> c"
  shows "moves_only E (\<lambda>_ x. case tdq_move E d c x of Inr (t, y) \<Rightarrow> y | Inl _ \<Rightarrow> x)"
  unfolding moves_only_def
proof (intro allI impI)
  fix k :: nat and x assume ok: "smp_ok E x"
  obtain r y where mv: "tdq_move E d c x = Inr (r, y)" "curthr y = curthr x"
    "case r of None \<Rightarrow> y = x
     | Some t \<Rightarrow> t \<in> queued (cpus x d) \<and> can_steal (thr x) c t \<and> moved E d c t x y \<and>
       smp_ok E y \<and> all_queued E y = all_queued E x \<and> total_load E y = total_load E x"
    using tdq_move_ok [OF ok d] by (auto split: option.splits)
  have "smp_keeps E x y \<and> (\<forall>c. extra y c = extra x c) \<and>
    (\<forall>u. u \<notin> all_queued E x \<longrightarrow> thr y u = thr x u) \<and> (\<forall>u. p_nice (thr y u) = p_nice (thr x u))"
  proof (cases r)
    case None
    then show ?thesis using mv(3) smp_keeps_refl [OF ok] by simp
  next
    case (Some t)
    then have t: "t \<in> queued (cpus x d)" "moved E d c t x y" and k: "smp_keeps E x y"
      using mv(2,3) smp_keeps_moved [of E d c t x y] by auto
    have "t \<in> all_queued E x" using t(1) d(1) by (auto simp: all_queued_def)
    moreover have "p_nice (thr y t) = p_nice (thr x t)" using t(2) by (auto simp: moved_def same_thread_def)
    ultimately show ?thesis using k t(2) moved_extra [OF ok d t] by (auto simp: moved_def) metis+
  qed
  then show "smp_keeps E x (case tdq_move E d c x of Inr (t, y) \<Rightarrow> y | Inl _ \<Rightarrow> x) \<and>
    (\<forall>e. extra (case tdq_move E d c x of Inr (t, y) \<Rightarrow> y | Inl _ \<Rightarrow> x) e = extra x e) \<and>
    (\<forall>u. u \<notin> all_queued E x \<longrightarrow> thr (case tdq_move E d c x of Inr (t, y) \<Rightarrow> y | Inl _ \<Rightarrow> x) u = thr x u) \<and>
    (\<forall>u. p_nice (thr (case tdq_move E d c x of Inr (t, y) \<Rightarrow> y | Inl _ \<Rightarrow> x) u) = p_nice (thr x u))"
    by (simp add: mv(1))
qed

text \<open>The search runs out of turns only when others interfere; else it ends with the same threads and loads.\<close>

definition stolen :: "'w::len word cpu_env \<Rightarrow> bool \<Rightarrow> 'w word smp \<Rightarrow> fault + 'w word smp \<Rightarrow> bool" where
  "stolen E quiet s r \<longleftrightarrow> (case r of Inr s' \<Rightarrow> smp_keeps E s s' \<and> (\<forall>e. extra s' e = extra s e) | Inl f \<Rightarrow> f = Diverges \<and> \<not> quiet)"

lemma stolen_trans:
  "stolen E quiet s1 r \<Longrightarrow> smp_keeps E s s1 \<Longrightarrow> \<forall>e. extra s1 e = extra s e \<Longrightarrow> stolen E quiet s r"
  unfolding stolen_def using smp_keeps_trans by (auto split: sum.splits)

lemma trysteal_loop_ok:
  assumes topo: "topo_ok E" and c: "c \<le> mp_maxid (kn E)" and m: "c \<notin> m" and oth: "moves_only E others"
  shows "smp_ok E s \<Longrightarrow> set path \<subseteq> set (tdq_cg E c) \<Longrightarrow>
    stolen E (others = (\<lambda>_ x. x) \<and> length path < n) s (trysteal_loop E others c n i path m s)"
proof (induction n arbitrary: i path s)
  case 0
  then show ?case by (simp add: stolen_def)
next
  case (Suc n)
  show ?case
  proof (cases path)
    case Nil
    then show ?thesis using smp_keeps_refl [OF Suc.prems(1)] by (simp add: stolen_def)
  next
    case (Cons cg rest)
    obtain r s0 where h: "highest_in E cg m (steal_thresh (kn E)) s = (r, s0)" by fastforce
    have g: "cg = cpu_top E \<or> cg \<in> set (tdq_cg E c)" using Suc.prems(2) Cons by auto
    note H = highest_in_ok [OF Suc.prems(1) topo g h]
    have ok0: "smp_ok E s0" using H(1) by (simp add: smp_keeps_def)
    have ex0: "extra s0 e = extra s e" for e using H(3) by (simp add: extra_def)
    define s1 where "s1 = others (2 * n + 1) s0"
    have k1: "smp_keeps E s s1" unfolding s1_def by (rule smp_keeps_trans [OF H(1) moves_onlyD(1) [OF oth ok0]])
    have ex1: "extra s1 e = extra s e" for e unfolding s1_def using moves_onlyD(2) [OF oth ok0] ex0 by simp
    have ok1: "smp_ok E s1" using k1 by (simp add: smp_keeps_def)
    have L: "trysteal_loop E others c (Suc n) i path m s =
        (if tdq_load (cpus s1 c) > 0 then Inr s1
         else case r of
           None \<Rightarrow> if rest = [] \<or> i + 1 > trysteal_limit E then Inr s1 else trysteal_loop E others c n (i + 1) rest m s1
         | Some cpu \<Rightarrow>
             if no_donor E (cpus s1 cpu) then trysteal_loop E others c n i path m s1
             else (let s2 = others (2 * n) s1
                   in if tdq_load (cpus s2 c) > 0 \<or> no_donor E (cpus s2 cpu) then Inr s2
                      else and_then (tdq_move E cpu c s2) (\<lambda>(td, s3). Inr s3)))"
      unfolding Cons trysteal_loop.simps h prod.case Let_def s1_def ..
    have "stolen E (others = (\<lambda>_ x. x) \<and> length path < Suc n) s1 (trysteal_loop E others c (Suc n) i path m s)"
    proof (cases "tdq_load (cpus s1 c) > 0")
      case True
      then show ?thesis unfolding L using smp_keeps_refl [OF ok1] by (simp add: stolen_def)
    next
      case ld: False
      show ?thesis
      proof (cases r)
        case None
        have "stolen E (others = (\<lambda>_ x. x) \<and> length rest < n) s1 (trysteal_loop E others c n (i + 1) rest m s1)"
          using Suc.IH [OF ok1] Suc.prems(2) Cons by auto
        then show ?thesis unfolding L using ld None smp_keeps_refl [OF ok1] by (simp add: stolen_def Cons)
      next
        case (Some d)
        have dc: "d \<noteq> c" "d \<le> mp_maxid (kn E)" using H(4) [OF Some] m by auto
        show ?thesis
        proof (cases "no_donor E (cpus s1 d)")
          case True
          have "\<not> no_donor E (cpus s0 d)" using H(4) [OF Some] H(3) by (simp add: no_donor_def)
          then have "others \<noteq> (\<lambda>_ x. x)" using True by (auto simp: s1_def)
          then have "stolen E (others = (\<lambda>_ x. x) \<and> length path < Suc n) s1 (trysteal_loop E others c n i path m s1)"
            using Suc.IH [OF ok1 Suc.prems(2), of i] by (simp add: stolen_def)
          then show ?thesis unfolding L using ld True Some by simp
        next
          case nd: False
          define s2 where "s2 = others (2 * n) s1"
          have k2: "smp_keeps E s1 s2" and ex2: "\<forall>e. extra s2 e = extra s1 e"
            unfolding s2_def using moves_onlyD [OF oth ok1] by blast+
          have ok2: "smp_ok E s2" using k2 by (simp add: smp_keeps_def)
          show ?thesis
          proof (cases "tdq_load (cpus s2 c) > 0 \<or> no_donor E (cpus s2 d)")
            case True
            then show ?thesis unfolding L using ld nd Some k2 ex2 by (simp add: s2_def [symmetric] stolen_def)
          next
            case False
            obtain t s3 where mv: "tdq_move E d c s2 = Inr (t, s3)" "curthr s3 = curthr s2"
              "case t of None \<Rightarrow> s3 = s2
               | Some t \<Rightarrow> t \<in> queued (cpus s2 d) \<and> can_steal (thr s2) c t \<and> moved E d c t s2 s3 \<and>
                 smp_ok E s3 \<and> all_queued E s3 = all_queued E s2 \<and> total_load E s3 = total_load E s2"
              using tdq_move_ok [OF ok2 dc(2) c dc(1)] by (auto split: option.splits)
            have "smp_keeps E s2 s3 \<and> (\<forall>e. extra s3 e = extra s2 e)"
              using mv(2,3) smp_keeps_refl [OF ok2] smp_keeps_moved [of E d c _ s2 s3] moved_extra [OF ok2 dc(2) c dc(1)]
              by (cases t) auto
            then have "smp_keeps E s1 s3 \<and> (\<forall>e. extra s3 e = extra s1 e)" using smp_keeps_trans [OF k2] ex2 by simp
            then show ?thesis unfolding L using ld nd Some False mv(1) by (simp add: s2_def [symmetric] stolen_def)
          qed
        qed
      qed
    qed
    then show ?thesis by (rule stolen_trans) (use k1 ex1 in simp_all)
  qed
qed

lemma trysteal_ok:
  assumes topo: "topo_ok E" and c: "c \<le> mp_maxid (kn E)" "self E = c" and ok: "smp_ok E s" and oth: "moves_only E others"
    and n: "length (tdq_cg E c) < n"
  shows "stolen E (others = (\<lambda>_ x. x)) s (tdq_trysteal E others n c s)"
  using trysteal_loop_ok [OF topo c(1) _ oth ok, of "{..<CPU_SETSIZE E} - {c}" "tdq_cg E c" n 1] smp_keeps_refl [OF ok] c(2) n
  by (auto simp: tdq_trysteal_def stolen_def)

section \<open>The next thread\<close>

text \<open>The processor's own queue loses the thread chosen; when it is empty the idle thread runs.\<close>

definition chosen :: "'w::len word cpu_env \<Rightarrow> tid \<Rightarrow> 'w word smp \<Rightarrow> 'w word smp \<Rightarrow> bool" where
  "chosen E new s s' \<longleftrightarrow> smp_ok E s' \<and> curthr s' = curthr s \<and> all_queued E s' = all_queued E s - {new} \<and>
    (\<forall>c. c \<noteq> self E \<longrightarrow> cpus s' c = cpus s c) \<and> (\<forall>u. u \<noteq> new \<longrightarrow> thr s' u = thr s u) \<and>
    (if queued (cpus s (self E)) = {}
     then new = idlethread E (self E) \<and> extra s' (self E) = extra s (self E) \<and> queued (cpus s' (self E)) = {}
     else new \<in> queued (cpus s (self E)) \<and> extra s' (self E) = extra s (self E) + 1)"

lemma sched_choose_on_ok:
  assumes ok: "smp_ok E s" and here: "self E \<le> mp_maxid (kn E)" and idle: "idlethread E (self E) \<notin> all_queued E s"
  shows "\<exists>new s'. sched_choose_on E s = Inr (new, s') \<and> chosen E new s s' \<and> p_system (thr s' new) = p_system (thr s new) \<and>
    td_flags (thr s' new) = td_flags (thr s new)"
proof -
  let ?c = "self E"
  obtain t T q where ch: "sched_choose (rqmd E) (kn E) ?c (idlethread E ?c) (thr s) (cpus s ?c) (random E (draws s)) = Inr (t, T, q)"
    "case serving (cpus s ?c) of
       None \<Rightarrow> queued (cpus s ?c) = {} \<and> t = idlethread E ?c \<and> T = thr s \<and> q = (cpus s ?c)\<lparr>tdq_lowpri := PRI_MAX_IDLE (kn E)\<rparr>
     | Some k \<Rightarrow> t \<in> on_runq (queue_of k (cpus s ?c)) \<and> T = unmarked (thr s) t \<and> tdq_ok (rqmd E) ?c T q \<and>
         queued q = queued (cpus s ?c) - {t} \<and> tdq_load q = tdq_load (cpus s ?c) \<and> tdq_lowpri q = td_priority (thr s t)"
    using sched_choose_ok [OF smp_okD(1) [OF ok here] smp_nice [OF ok here]] by blast
  define s' where "s' = s\<lparr>thr := T, cpus := (cpus s)(?c := q), draws := draws s + 1\<rparr>"
  have r: "sched_choose_on E s = Inr (t, s')" by (simp add: sched_choose_on_def ch(1) s'_def Let_def)
  show ?thesis
  proof (cases "serving (cpus s ?c)")
    case None
    then have q: "queued (cpus s ?c) = {}" "t = idlethread E ?c" "T = thr s" "q = (cpus s ?c)\<lparr>tdq_lowpri := PRI_MAX_IDLE (kn E)\<rparr>"
      using ch(2) by auto
    have c: "\<forall>d. core (cpus s' d) = core (cpus s d)" "\<forall>u. place (thr s' u) = place (thr s u)"
      by (simp_all add: s'_def core_def q)
    note k = smp_ok_place [OF ok c]
    have "queued (cpus s' ?c) = {}" using q(1) core_queued [OF c(1) [rule_format]] by simp
    then have "chosen E t s s'" using k q idle by (simp add: chosen_def) (simp add: s'_def q)
    then show ?thesis using r q by (auto simp: s'_def)
  next
    case (Some k)
    then have q: "t \<in> queued (cpus s ?c)" "T = unmarked (thr s) t" "tdq_ok (rqmd E) ?c T q" "queued q = queued (cpus s ?c) - {t}"
      "tdq_load q = tdq_load (cpus s ?c)" using ch(2) by (auto simp: queued_def)
    have s': "cpus s' ?c = q" "\<forall>d. d \<noteq> ?c \<longrightarrow> cpus s' d = cpus s d" "\<forall>u. u \<noteq> t \<longrightarrow> thr s' u = thr s u" "curthr s' = curthr s"
      using q(2) by (simp_all add: s'_def)
    have "smp_ok E s' \<and> all_queued E s' = all_queued E s - {t}"
      using removed_ok [OF ok here q(1), of s'] s' q smp_okD(2) [OF ok here] by (simp add: s'_def)
    moreover have "card (queued (cpus s ?c) - {t}) + 1 = card (queued (cpus s ?c))"
      using q(1) by (metis Suc_eq_plus1 card_Suc_Diff1 queued_finite)
    then have "extra s' ?c = extra s ?c + 1" using q(4,5) s'(1) by (simp add: extra_def)
    ultimately have "chosen E t s s'" using s' q(1) by (auto simp: chosen_def)
    then show ?thesis using r q(2) by (auto simp: s'_def)
  qed
qed

lemma chosen_here_less:
  assumes ok: "smp_ok E s" and here: "self E \<le> mp_maxid (kn E)" and ch: "chosen E new s s'"
  shows "queued (cpus s' (self E)) \<subseteq> queued (cpus s (self E)) - {new}"
proof
  fix u assume u: "u \<in> queued (cpus s' (self E))"
  have ok': "smp_ok E s'" using ch by (simp add: chosen_def)
  have "u \<in> all_queued E s'" using u here by (auto simp: all_queued_def)
  then have "u \<in> all_queued E s" "u \<noteq> new" using ch by (simp_all add: chosen_def)
  then obtain d where d: "d \<le> mp_maxid (kn E)" "u \<in> queued (cpus s d)" by (auto simp: all_queued_def)
  have "thr s' u = thr s u" using ch \<open>u \<noteq> new\<close> by (simp add: chosen_def)
  then have "d = self E" using smp_okD(3) [OF ok d] smp_okD(3) [OF ok' here u] by simp
  then show "u \<in> queued (cpus s (self E)) - {new}" using d(2) \<open>u \<noteq> new\<close> by simp
qed

section \<open>The thread that leaves\<close>

lemma load_rem_ok:
  assumes ok: "smp_ok E s" and c: "c \<le> mp_maxid (kn E)" and ex: "1 \<le> extra s c" and s1: "s1 = upd_cpu c (\<lambda>q. tdq_load_rem q td) s"
  shows "smp_ok E s1" "all_queued E s1 = all_queued E s" "total_load E s1 = total_load E s - 1"
    "extra s1 d = (if d = c then extra s d - 1 else extra s d)" "thr s1 = thr s" "curthr s1 = curthr s"
    "tdq_load (cpus s1 c) = tdq_load (cpus s c) - 1" "queued (cpus s1 d) = queued (cpus s d)"
proof -
  have q: "queued (cpus s1 d) = queued (cpus s d)" for d by (simp add: s1 upd_cpu_def tdq_ok_fields(6) [OF smp_okD(1) [OF ok c]])
  have l: "tdq_load (cpus s1 d) = tdq_load (cpus s d) - (if d = c then 1 else 0)" for d
    by (simp add: s1 upd_cpu_def tdq_load_rem_def)
  show all: "all_queued E s1 = all_queued E s" by (simp add: all_queued_def q)
  show tot: "total_load E s1 = total_load E s - 1"
    using total_load_upd [OF c, of s1 s] l [of c] by (simp add: s1 upd_cpu_def)
  show "extra s1 d = (if d = c then extra s d - 1 else extra s d)" for d by (simp add: extra_def q l)
  show t: "thr s1 = thr s" "curthr s1 = curthr s" by (simp_all add: s1 upd_cpu_def)
  show "tdq_load (cpus s1 c) = tdq_load (cpus s c) - 1" by (simp add: l)
  show "queued (cpus s1 d) = queued (cpus s d)" for d by (rule q)
  have tok: "tdq_ok (rqmd E) d (thr s1) (cpus s1 d)" if "d \<le> mp_maxid (kn E)" for d
  proof -
    have "cpus s1 d = (if d = c then tdq_load_rem (cpus s d) td else cpus s d)" by (simp add: s1 upd_cpu_def)
    then show ?thesis using smp_okD(1) [OF ok that] tdq_ok_fields(8) [OF smp_okD(1) [OF ok that], of td] by (cases "d = c") (simp_all add: t)
  qed
  have card: "int (card (queued (cpus s1 d))) \<le> tdq_load (cpus s1 d)" if "d \<le> mp_maxid (kn E)" for d
    using smp_okD(2) [OF ok that] ex by (cases "d = c") (simp_all add: q l extra_def)
  have nn: "0 \<le> tdq_load (cpus s1 d)" for d
    using ok ex by (cases "d = c") (simp_all add: l smp_ok_def extra_def)
  show "smp_ok E s1" using ok tok card nn by (simp add: smp_ok_def all tot t q)
qed

lemma runq_add_on_ok:
  assumes ok: "smp_ok E s" and c: "c \<le> mp_maxid (kn E)" and fit: "fits_in E s t" and ex: "1 \<le> extra s c" and t: "ts_cpu (thr s t) = c"
  shows "smp_ok E (tdq_runq_add_on E c t flags s)" "all_queued E (tdq_runq_add_on E c t flags s) = insert t (all_queued E s)"
    "extra (tdq_runq_add_on E c t flags s) d = (if d = c then extra s d - 1 else extra s d)"
    "curthr (tdq_runq_add_on E c t flags s) = curthr s"
proof -
  have nt: "t \<notin> queued (cpus s c)" using fit c by (auto simp: fits_in_def all_queued_def)
  obtain T q where r: "tdq_runq_add (rqmd E) (kn E) c (thr s) (cpus s c) t flags = (T, q)" by fastforce
  have f: "td_priority (thr s t) < 256" "TSF_XFERABLE \<notin> ts_flags (thr s t)" using fit by (simp_all add: fits_in_def)
  note add = tdq_runq_add_ok [OF smp_okD(1) [OF ok c] nt f r]
  have load: "tdq_load q = tdq_load (cpus s c)"
    using r by (auto simp: tdq_runq_add_eq Let_def counted_def set_queue_def split: runq_kind.splits prod.splits)
  have same: "same_thread (thr s t) (T t)"
    using r by (auto simp: tdq_runq_add_eq Let_def marked_def runq_add_pri_def intro!: same_threadI
        split: runq_kind.splits prod.splits)
  note sd = same_threadD [OF same]
  define s' where "s' = s\<lparr>thr := T, cpus := (cpus s)(c := q)\<rparr>"
  have e: "tdq_runq_add_on E c t flags s = s'" by (simp add: tdq_runq_add_on_def r s'_def)
  have tot: "total_load E s' = total_load E s" using total_load_upd [OF c, of s' s] load by (simp add: s'_def)
  have ins: "smp_ok E s' \<and> all_queued E s' = insert t (all_queued E s)"
    using inserted_ok [OF ok c fit, of s'] add load ex tot ok sd t f by (simp add: s'_def extra_def smp_ok_def)
  then show "smp_ok E (tdq_runq_add_on E c t flags s)" "all_queued E (tdq_runq_add_on E c t flags s) = insert t (all_queued E s)"
    unfolding e by blast+
  show "extra (tdq_runq_add_on E c t flags s) d = (if d = c then extra s d - 1 else extra s d)"
    using add(2) nt load by (simp add: e s'_def extra_def)
  show "curthr (tdq_runq_add_on E c t flags s) = curthr s" by (simp add: e s'_def)
qed

lemma migrate_ok:
  assumes ok: "smp_ok E s" and c: "self E \<le> mp_maxid (kn E)" and fit: "fits_in E s t" and ex: "1 \<le> extra s (self E)"
    and t: "ts_cpu (thr s t) \<le> mp_maxid (kn E)" and oth: "moves_only E others"
  shows "smp_ok E (sched_switch_migrate E others t flags s)"
    "all_queued E (sched_switch_migrate E others t flags s) = insert t (all_queued E s)"
    "extra (sched_switch_migrate E others t flags s) d = (if d = self E then extra s d - 1 else extra s d)"
    "curthr (sched_switch_migrate E others t flags s) = curthr s"
proof -
  define s0 where "s0 = upd_cpu (self E) (\<lambda>q. tdq_load_rem q (thr s t)) s"
  note l = load_rem_ok [OF ok c ex s0_def]
  define s1 where "s1 = others 0 s0"
  have O: "smp_keeps E s0 s1" "extra s1 c = extra s0 c" "u \<notin> all_queued E s0 \<Longrightarrow> thr s1 u = thr s0 u" "p_nice (thr s1 u) = p_nice (thr s0 u)" for c u
    unfolding s1_def using moves_onlyD [OF oth l(1)] by blast+
  have k: "smp_ok E s1" "all_queued E s1 = all_queued E s" "total_load E s1 = total_load E s - 1" "curthr s1 = curthr s"
    using O(1) l by (simp_all add: smp_keeps_def)
  have t1: "thr s1 t = thr s t" using O(3) [of t] fit l by (simp add: fits_in_def)
  have fit1: "fits_in E s1 t" using fit by (simp add: fits_in_def k t1 O(4) l)
  have room: "256 * (total_load E s1 + 1) < INT_MAX" using ok by (simp add: k smp_ok_def)
  have t2: "ts_cpu (thr s1 t) = ts_cpu (thr s t)" by (simp add: t1)
  define s2 where "s2 = tdq_notify E (ts_cpu (thr s t)) t (tdq_add_on E (ts_cpu (thr s t)) t flags s1)"
  have "added E t (ts_cpu (thr s t)) s1 s2"
    unfolding s2_def using tdq_add_on_added [OF k(1) t fit1 room t2]
    by (rule added_after) (simp_all add: notify_effect)
  moreover have "sched_switch_migrate E others t flags s = s2" by (simp add: sched_switch_migrate_def s2_def s1_def s0_def Let_def)
  ultimately show "smp_ok E (sched_switch_migrate E others t flags s)"
    "all_queued E (sched_switch_migrate E others t flags s) = insert t (all_queued E s)"
    "extra (sched_switch_migrate E others t flags s) d = (if d = self E then extra s d - 1 else extra s d)"
    "curthr (sched_switch_migrate E others t flags s) = curthr s"
    by (simp_all add: added_def k O(2) l)
qed

definition stays :: "thread \<Rightarrow> bool" where
  "stays td \<longleftrightarrow> TDF_IDLETD \<notin> td_flags td \<and> td_state td = TDS_RUNNING"

lemma put_back_ok:
  assumes ok: "smp_ok E s" and topo: "topo_ok E" and here: "self E \<le> mp_maxid (kn E)" and nt: "t \<notin> all_queued E s"
    and ex: "TDF_IDLETD \<notin> td_flags (thr s t) \<Longrightarrow> 1 \<le> extra s (self E)"
    and run: "stays (thr s t) \<Longrightarrow> fits_in E s t \<and> pickable E s t"
    and n: "length (tdq_cg E (self E)) < n" and oth: "moves_only E others"
  shows "(\<exists>s'. put_back E others n t pre s = Inr s' \<and> smp_ok E s' \<and> curthr s' = curthr s \<and>
      all_queued E s' = (if stays (thr s t) then insert t (all_queued E s) else all_queued E s) \<and>
      (\<forall>c. extra s' c = (if c = self E \<and> TDF_IDLETD \<notin> td_flags (thr s t) then extra s c - 1 else extra s c))) \<or>
    put_back E others n t pre s = Inl Diverges \<and> others \<noteq> (\<lambda>_ x. x) \<and> td_state (thr s t) \<noteq> TDS_RUNNING \<and> TDF_IDLETD \<notin> td_flags (thr s t)"
proof (cases "stays (thr s t)")
  case True
  note st = True [unfolded stays_def] and r = run [OF True]
  define fl where "fl = (if pre then {SRQ_OURSELF, SRQ_YIELDING, SRQ_PREEMPTED} else {SRQ_OURSELF, SRQ_YIELDING})"
  obtain s1 where s1: "(if THREAD_CAN_MIGRATE (thr s t) \<and> \<not> THREAD_CAN_SCHED (thr s t) (ts_cpu (thr s t))
      then and_then (sched_pickcpu E t {} s) (\<lambda>(c, s'). Inr (upd_thr t (\<lambda>x. x\<lparr>ts_cpu := c\<rparr>) s')) else Inr s) = Inr s1"
    "cpus s1 = cpus s" "curthr s1 = curthr s" "\<forall>u. u \<noteq> t \<longrightarrow> thr s1 u = thr s u" "\<exists>c. thr s1 t = (thr s t)\<lparr>ts_cpu := c\<rparr>"
    "ts_cpu (thr s1 t) \<le> mp_maxid (kn E)"
  proof (cases "THREAD_CAN_MIGRATE (thr s t) \<and> \<not> THREAD_CAN_SCHED (thr s t) (ts_cpu (thr s t))")
    case True
    obtain c s' where p: "sched_pickcpu E t {} s = Inr (c, s')" "picked E t s s'" "c \<le> mp_maxid (kn E)"
      using pickcpu_ok [OF ok topo conjunct2 [OF r]] by blast
    show ?thesis
      by (rule that [of "upd_thr t (\<lambda>x. x\<lparr>ts_cpu := c\<rparr>) s'"]) (use True p in \<open>auto simp: upd_thr_def picked_def\<close>)
  next
    case False
    show ?thesis
      by (rule that [of s]) (use False r in \<open>auto simp: pickable_def intro: exI [of _ "ts_cpu (thr s t)"]\<close>)
  qed
  have aq: "all_queued E s1 = all_queued E s" "extra s1 = extra s" by (simp_all add: all_queued_def extra_def s1(2) fun_eq_iff)
  have ok1: "smp_ok E s1" by (rule smp_ok_thr [OF ok s1(2)]) (use nt s1(4) in metis)
  obtain c where c: "thr s1 t = (thr s t)\<lparr>ts_cpu := c\<rparr>" using s1(5) by blast
  have "(\<Sum>u\<in>all_queued E s. p_nice (thr s1 u) + 1) = (\<Sum>u\<in>all_queued E s. p_nice (thr s u) + 1)"
    using nt s1(4) by (intro sum.cong refl) metis
  then have fit1: "fits_in E s1 t" using r by (simp add: fits_in_def aq c)
  have ex1: "1 \<le> extra s1 (self E)" using ex st by (simp add: aq)
  define s2 where "s2 = (if ts_cpu (thr s1 t) = self E then tdq_runq_add_on E (self E) t fl s1
               else sched_switch_migrate E others t fl s1)"
  have "put_back E others n t pre s = Inr s2"
    using st s1(1) by (simp add: put_back_def Let_def s2_def fl_def)
  moreover have "smp_ok E s2 \<and> curthr s2 = curthr s1 \<and> all_queued E s2 = insert t (all_queued E s1) \<and>
      (\<forall>d. extra s2 d = (if d = self E then extra s1 d - 1 else extra s1 d))"
    using runq_add_on_ok [OF ok1 here fit1 ex1] migrate_ok [OF ok1 here fit1 ex1 s1(6) oth] by (simp add: s2_def)
  ultimately show ?thesis using True st s1(3) by (simp add: aq)
next
  case False
  show ?thesis
  proof (cases "TDF_IDLETD \<in> td_flags (thr s t)")
    case True
    define s1 where "s1 = upd_thr t (\<lambda>x. x\<lparr>td_state := TDS_CAN_RUN\<rparr>) s"
    have "put_back E others n t pre s = Inr s1" using True by (simp add: put_back_def Let_def s1_def)
    moreover have c: "\<forall>d. core (cpus s1 d) = core (cpus s d)" "\<forall>u. place (thr s1 u) = place (thr s u)"
      by (simp_all add: s1_def upd_thr_def place_def upd_td_def)
    moreover note smp_ok_place [OF ok c]
    ultimately show ?thesis using True by (auto simp: s1_def upd_thr_def stays_def)
  next
    case not_idle: False
    then have st: "td_state (thr s t) \<noteq> TDS_RUNNING" using False by (simp add: stays_def)
    define s1 where "s1 = upd_cpu (self E) (\<lambda>q. tdq_load_rem q (thr s t)) s"
    note l = load_rem_ok [OF ok here ex [OF not_idle] s1_def]
    have e: "put_back E others n t pre s =
        (if tdq_load (cpus s1 (self E)) = 0 then tdq_trysteal E others n (self E) s1 else Inr s1)"
      using not_idle st by (simp add: put_back_def Let_def s1_def)
    show ?thesis
    proof (cases "tdq_load (cpus s1 (self E)) = 0")
      case True
      have "stolen E (others = (\<lambda>_ x. x)) s1 (put_back E others n t pre s)"
        using trysteal_ok [OF topo here refl l(1) oth n] e True by simp
      then show ?thesis using False not_idle st l
        by (cases "put_back E others n t pre s") (auto simp: stolen_def smp_keeps_def)
    next
      case some: False
      then show ?thesis using e False not_idle l by auto
    qed
  qed
qed

section \<open>The whole switch\<close>

lemma choosethread_ok:
  assumes ok: "smp_ok E s" and here: "self E \<le> mp_maxid (kn E)" and idle: "idlethread E (self E) \<notin> all_queued E s"
    and calm: "\<not> panicstr E"
  shows "\<exists>new s'. choosethread E n s = Inr (new, s') \<and> chosen E new s s' \<and> td_state (thr s' new) = TDS_RUNNING"
proof -
  obtain new s1 where c: "sched_choose_on E s = Inr (new, s1)" "chosen E new s s1"
    using sched_choose_on_ok [OF ok here idle] by blast
  define s' where "s' = upd_thr new (\<lambda>x. x\<lparr>td_state := TDS_RUNNING\<rparr>) s1"
  have ok1: "smp_ok E s1" using c(2) by (simp add: chosen_def)
  have k: "\<forall>d. core (cpus s' d) = core (cpus s1 d)" "\<forall>u. place (thr s' u) = place (thr s1 u)"
    by (simp_all add: s'_def upd_thr_def place_def upd_td_def)
  note p = smp_ok_place [OF ok1 k]
  have "chosen E new s s'"
    using c(2) p by (simp add: chosen_def) (simp add: s'_def upd_thr_def)
  then show ?thesis using c(1) calm by (auto simp: choosethread_def s'_def upd_thr_def)
qed

text \<open>When a thread calls the scheduler: its processor's load counts it, the idle thread excepted.\<close>

definition switchable :: "'w::len word cpu_env \<Rightarrow> 'w word smp \<Rightarrow> tid \<Rightarrow> bool" where
  "switchable E s t \<longleftrightarrow> smp_ok E s \<and> self E \<le> mp_maxid (kn E) \<and> t \<notin> all_queued E s \<and>
    idlethread E (self E) \<notin> all_queued E s \<and> (TDF_IDLETD \<in> td_flags (thr s t) \<longleftrightarrow> t = idlethread E (self E)) \<and>
    extra s (self E) = (if t = idlethread E (self E) then 0 else 1) \<and>
    (if stays (thr s t) then fits_in E s t \<and> pickable E s t else True)"

text \<open>
  The outcome of a switch away from \<open>t\<close>: with the set of queued threads as it must be before the choice
  (\<open>before\<close>), the thread that runs next is one of them, or the idle thread when this processor's queue is empty.
\<close>

definition switched :: "'w::len word cpu_env \<Rightarrow> tid \<Rightarrow> 'w word smp \<Rightarrow> 'w word smp \<Rightarrow> bool" where
  "switched E t s s' \<longleftrightarrow> smp_ok E s' \<and>
    (let new = current E s'; before = (if stays (thr s t) then insert t (all_queued E s) else all_queued E s); idle = idlethread E (self E)
     in all_queued E s' = before - {new} \<and> (new = idle \<or> new \<in> before) \<and>
        td_state (thr s' new) = TDS_RUNNING \<and> td_oncpu (thr s' new) = int (self E) \<and>
        (if new = idle then queued (cpus s' (self E)) = {} else True) \<and>
        (\<forall>c. extra s' c = (if c = self E then if new = idle then 0 else 1 else extra s c)))"

lemma switch_ok:
  assumes sw: "switchable E s t" and topo: "topo_ok E" and hz: "1 \<le> hz (kn E)" "11 * hz (kn E) < 2 ^ 31"
    and n: "length (tdq_cg E (self E)) < n" and calm: "\<not> panicstr E" and oth: "moves_only E others"
  shows "case sched_switch E others n t flags s of Inr s' \<Rightarrow> switched E t s s'
    | Inl f \<Rightarrow> f = Diverges \<and> others \<noteq> (\<lambda>_ x. x) \<and> td_state (thr s t) \<noteq> TDS_RUNNING \<and> t \<noteq> idlethread E (self E)"
proof -
  let ?here = "self E" and ?k = "kn E"
  note S = sw [unfolded switchable_def]
  obtain s1 where s1: "on_thread t (sched_pctcpu_update ?k (ticks E) True) s = Inr s1" "cpus s1 = cpus s" "curthr s1 = curthr s"
    "\<forall>u. u \<noteq> t \<longrightarrow> thr s1 u = thr s u" "ticked (thr s t) (thr s1 t)"
    using pctcpu_on_ok [OF hz] by blast
  note tf = ticked_fields [OF s1(5)]
  define s2 where "s2 = upd_thr t (\<lambda>x. x\<lparr>ts_rltick := ticks E, td_lastcpu := td_oncpu x, td_oncpu := NOCPU ?k,
                 td_flags := td_flags x - {TDF_NEEDRESCHED, TDF_SLICEEND}, td_owepreempt := False\<rparr>) s1"
  define s3 where "s3 = (if TDF_IDLETD \<in> td_flags (thr s1 t) then s2
               else upd_cpu ?here (\<lambda>q. q\<lparr>tdq_switchcnt := s16_of (tdq_switchcnt q + 1)\<rparr>) s2)"
  define pre where "pre = (TDF_SLICEEND \<notin> td_flags (thr s1 t) \<and> SW_PREEMPT \<in> flags)"
  have c3: "\<forall>d. core (cpus s3 d) = core (cpus s d)" "curthr s3 = curthr s"
    by (simp_all add: s3_def s2_def upd_thr_def upd_cpu_def core_def s1(2,3))
  have t3: "thr s3 = thr s2" by (simp add: s3_def upd_cpu_def)
  have pl3: "place (thr s3 t) = place (thr s t)" "td_state (thr s3 t) = td_state (thr s t)"
    "td_cpuset (thr s3 t) = td_cpuset (thr s t)" "TDF_IDLETD \<in> td_flags (thr s3 t) \<longleftrightarrow> TDF_IDLETD \<in> td_flags (thr s t)"
    using tf by (simp_all add: t3 s2_def upd_thr_def place_def)
  have o3: "\<forall>u. u \<noteq> t \<longrightarrow> thr s3 u = thr s u" using s1(4) by (simp add: t3 s2_def upd_thr_def)
  have p3: "\<forall>u. place (thr s3 u) = place (thr s u)" using pl3(1) o3 by metis
  have ok: "smp_ok E s" using S by blast
  note k3 = smp_ok_place [OF ok c3(1) p3]
  have stays3: "stays (thr s3 t) = stays (thr s t)" using pl3 by (simp add: stays_def)
  have sum3: "(\<Sum>u\<in>all_queued E s. p_nice (thr s3 u) + 1) = (\<Sum>u\<in>all_queued E s. p_nice (thr s u) + 1)"
    using placeD(6) [OF p3 [rule_format]] by simp
  have run3: "stays (thr s3 t) \<Longrightarrow> fits_in E s3 t \<and> pickable E s3 t"
    using S stays3 placeD [OF pl3(1)] by (simp add: fits_in_def pickable_def k3 pl3(3) sum3)
  have put: "put_back E others n t pre s3 = Inl Diverges \<and> others \<noteq> (\<lambda>_ x. x) \<and> td_state (thr s t) \<noteq> TDS_RUNNING \<and> t \<noteq> idlethread E ?here \<or>
      (\<exists>s4. put_back E others n t pre s3 = Inr s4 \<and> smp_ok E s4 \<and> curthr s4 = curthr s3 \<and>
      all_queued E s4 = (if stays (thr s3 t) then insert t (all_queued E s3) else all_queued E s3) \<and>
      (\<forall>c. extra s4 c = (if c = ?here \<and> TDF_IDLETD \<notin> td_flags (thr s3 t) then extra s3 c - 1 else extra s3 c)))"
    using put_back_ok [OF k3(1) topo _ _ _ run3 n oth, of pre] S pl3(2,4) k3(2,4) by auto
  have out: "switch_out E others n t flags s = and_then (put_back E others n t pre s3) (\<lambda>s4.
        and_then (choosethread E n s4) (\<lambda>(newtd, s5).
        if newtd \<noteq> t then and_then (on_thread newtd (sched_pctcpu_update ?k (ticks E) False) s5) (\<lambda>s6. Inr (newtd, s6))
        else Inr (newtd, s5)))"
    unfolding switch_out_def Let_def s1(1) and_then_Inr s2_def [symmetric] s3_def [symmetric] pre_def [symmetric] ..
  show ?thesis
  proof (cases "put_back E others n t pre s3")
    case (Inl f)
    then show ?thesis using put by (simp add: sched_switch_def out)
  next
    case put_Inr: (Inr s4')
    obtain s4 where s4: "put_back E others n t pre s3 = Inr s4" "smp_ok E s4" "curthr s4 = curthr s3"
      "all_queued E s4 = (if stays (thr s3 t) then insert t (all_queued E s3) else all_queued E s3)"
      "\<forall>c. extra s4 c = (if c = ?here \<and> TDF_IDLETD \<notin> td_flags (thr s3 t) then extra s3 c - 1 else extra s3 c)"
      using put put_Inr by auto
    define B where "B = (if stays (thr s t) then insert t (all_queued E s) else all_queued E s)"
    have B: "all_queued E s4 = B" using s4(4) by (simp add: B_def stays3 k3(2))
    have "idlethread E ?here \<notin> B" using S by (auto simp: B_def stays_def)
    note idle4 = this [folded B]
    have here: "?here \<le> mp_maxid ?k" using S by blast
    obtain new s5 where s5: "choosethread E n s4 = Inr (new, s5)" "chosen E new s4 s5" "td_state (thr s5 new) = TDS_RUNNING"
      using choosethread_ok [OF s4(2) here idle4 calm] by blast
    have ok5: "smp_ok E s5" using s5(2) by (simp add: chosen_def)
    obtain s6 where s6: "(if new \<noteq> t then and_then (on_thread new (sched_pctcpu_update ?k (ticks E) False) s5) (\<lambda>s6. Inr (new, s6))
          else Inr (new, s5)) = Inr (new, s6)" "cpus s6 = cpus s5" "\<forall>u. place (thr s6 u) = place (thr s5 u)"
      "td_state (thr s6 new) = TDS_RUNNING"
    proof (cases "new = t")
      case True
      then show ?thesis using that [of s5] s5(3) by simp
    next
      case False
      obtain x where x: "on_thread new (sched_pctcpu_update ?k (ticks E) False) s5 = Inr x" "cpus x = cpus s5"
        "\<forall>u. u \<noteq> new \<longrightarrow> thr x u = thr s5 u" "ticked (thr s5 new) (thr x new)"
        using pctcpu_on_ok [OF hz] by blast
      have "place (thr x u) = place (thr s5 u)" for u using x(3) ticked_fields(1) [OF x(4)] by (cases "u = new") simp_all
      then show ?thesis using that [of x] False x ticked_fields(3) [OF x(4)] s5(3) by simp
    qed
    define s' where "s' = switch_in E new s6"
    have c': "\<forall>d. core (cpus s' d) = core (cpus s5 d)" by (simp add: s'_def switch_in_def upd_thr_def s6(2))
    have p': "\<forall>u. place (thr s' u) = place (thr s5 u)"
      using s6(3) by (simp add: s'_def switch_in_def upd_thr_def upd_td_def place_def)
    note k' = smp_ok_place [OF ok5 c' p']
    have so: "switch_out E others n t flags s = Inr (new, s6)"
      unfolding out and_then_Inr s4(1) s5(1) prod.case s6(1) ..
    have res: "sched_switch E others n t flags s = Inr s'" by (simp add: sched_switch_def so s'_def)
    have cur: "current E s' = new" by (simp add: current_def s'_def switch_in_def upd_thr_def)
    have new: "td_state (thr s' new) = TDS_RUNNING" "td_oncpu (thr s' new) = int ?here"
      using s6(4) by (simp_all add: s'_def switch_in_def upd_thr_def)
    have other: "extra s' c = extra s c" if "c \<noteq> ?here" for c
      using that s5(2) s4(5) by (simp add: k'(4) chosen_def extra_def [of s5] extra_def [of s4, symmetric] k3(4))
    have ex4: "extra s4 ?here = 0" using S s4(5) pl3(4) by (simp add: k3(4))
    have aq: "all_queued E s' = B - {new}" using s5(2) B by (simp add: k'(2) chosen_def)
    show ?thesis
    proof (cases "queued (cpus s4 ?here) = {}")
      case True
      then have "new = idlethread E ?here" "extra s5 ?here = extra s4 ?here" "queued (cpus s5 ?here) = {}"
        using s5(2) by (simp_all add: chosen_def)
      moreover from this(3) have "queued (cpus s' ?here) = {}" using core_queued [OF c' [rule_format]] by simp
      ultimately show ?thesis
        using res k'(1,4) aq new other ex4 by (simp add: switched_def Let_def cur B_def [symmetric])
    next
      case False
      then have n4: "new \<in> queued (cpus s4 ?here)" "extra s5 ?here = extra s4 ?here + 1" using s5(2) by (simp_all add: chosen_def)
      then have "new \<in> B" using B here by (auto simp: all_queued_def)
      moreover have "new \<noteq> idlethread E ?here" using \<open>new \<in> B\<close> idle4 B by metis
      ultimately show ?thesis
        using res k'(1,4) aq new other ex4 n4(2) by (simp add: switched_def Let_def cur B_def [symmetric])
    qed
  qed
qed

text \<open>
  C12: A context switch, outside a panic, conserves the threads: the thread that leaves is queued exactly when
  it can still run, the thread that comes is taken off the queue of this processor (the idle thread
  when nothing is queued there), no other thread appears or disappears, and the load of the processor
  counts its queue and its new thread as before, also when the thread migrates or another is stolen.
  This holds when no queued thread has a negative nice value, nor has the thread that leaves for a queue,
  and their tickets together fit an \<open>int\<close> (part of \<open>smp_ok\<close> and \<open>fits_in\<close>); with a negative one the lottery can divide
  by zero. While the locks are dropped the other processors may move any queued threads from queue to queue; that
  they switch, start or end threads meanwhile is left out. The switch returns, unless it searches for a thread
  to steal, because a thread goes to sleep, and the others' moves keep the search from ending within \<open>n\<close> turns.
\<close>

theorem switch_conserves:
  assumes "switchable E s t" "topo_ok E" "1 \<le> hz (kn E)" "11 * hz (kn E) < 2 ^ 31"
    and "length (tdq_cg E (self E)) < n" "\<not> panicstr E" "moves_only E others"
  shows "case sched_switch E others n t flags s of Inr s' \<Rightarrow> switched E t s s'
    | Inl f \<Rightarrow> f = Diverges \<and> others \<noteq> (\<lambda>_ x. x) \<and> td_state (thr s t) \<noteq> TDS_RUNNING \<and> t \<noteq> idlethread E (self E)"
  by (rule switch_ok [OF assms])

text \<open>
  The idle thread 100 of processor 0 switches; the thread 7 is queued there, and the others move threads from 0 to 1.
\<close>

theorem switch_conserves_witness:
  "\<exists>s'. sched_switch cpu_env0 (\<lambda>_ x. case tdq_move cpu_env0 0 1 x of Inr (t, y) \<Rightarrow> y | Inl _ \<Rightarrow> x) 5 100 {SW_VOL, SWT_IDLE}
      (upd_thr 100 (\<lambda>x. x\<lparr>td_flags := {TDF_IDLETD}\<rparr>) smp7) = Inr s' \<and>
    (current cpu_env0 s' = 7 \<and> all_queued cpu_env0 s' = {} \<or> current cpu_env0 s' = 100 \<and> queued (cpus s' 0) = {})"
proof -
  let ?s = "upd_thr 100 (\<lambda>x. x\<lparr>td_flags := {TDF_IDLETD}\<rparr>) smp7"
  let ?o = "\<lambda>_ x. case tdq_move cpu_env0 0 1 x of Inr (t, y) \<Rightarrow> y | Inl _ \<Rightarrow> x"
  have c: "cpus ?s = cpus smp7" "all_queued cpu_env0 ?s = {7}"
    using smp7_queued by (simp_all add: upd_thr_def all_queued_def)
  have ok: "smp_ok cpu_env0 ?s"
    by (rule smp_ok_thr [OF smp7_ok c(1)]) (simp add: smp7_queued upd_thr_def)
  have l: "tdq_load tdq7 = 1"
    by (simp add: tdq7_def tdq_add_def tdq_load_add_def tdq_runq_add_eq Let_def counted_def tdq0_def tdq_setup_def
        set_queue_def split: runq_kind.splits prod.splits)
  have "extra ?s 0 = 0" by (simp add: extra_def c(1)) (simp add: smp7_def l tdq7_facts(2))
  moreover have fl: "td_flags (thr ?s 100) = {TDF_IDLETD}" by (simp add: upd_thr_def)
  moreover have i: "idlethread cpu_env0 0 = 100" by (simp add: cpu_env0_def)
  ultimately have sw: "switchable cpu_env0 ?s 100"
    using ok c(2) by (simp add: switchable_def cpu_env0_simps stays_def)
  have e: "length (tdq_cg cpu_env0 (self cpu_env0)) < 5" "1 \<le> hz (kn cpu_env0)" "11 * hz (kn cpu_env0) < 2 ^ 31" "\<not> panicstr cpu_env0"
    by (simp_all add: cpu_env0_def freebsd_hz)
  have o: "moves_only cpu_env0 ?o" by (rule moves_only_move) (simp_all add: cpu_env0_simps)
  obtain s' where r: "sched_switch cpu_env0 ?o 5 100 {SW_VOL, SWT_IDLE} ?s = Inr s'" "switched cpu_env0 100 ?s s'"
    using switch_conserves [OF sw topo0 e(2,3,1,4) o, of "{SW_VOL, SWT_IDLE}"] i
    by (auto simp: cpu_env0_simps split: sum.splits)
  have "stays (thr ?s 100) = False" using fl by (simp add: stays_def)
  then have "all_queued cpu_env0 s' = {7} - {current cpu_env0 s'} \<and> (current cpu_env0 s' = 100 \<or> current cpu_env0 s' = 7) \<and>
      (current cpu_env0 s' = 100 \<longrightarrow> queued (cpus s' 0) = {})"
    using r(2) i c(2) by (simp add: switched_def Let_def cpu_env0_simps split: if_splits)
  then show ?thesis using r(1) by auto
qed

section \<open>Choosing a thread in a panic\<close>

lemma choosethread_panic_ok:
  assumes here: "self E \<le> mp_maxid (kn E)"
  shows "smp_ok E s \<Longrightarrow> idlethread E (self E) \<notin> all_queued E s \<Longrightarrow> p_system (thr s (idlethread E (self E))) \<Longrightarrow>
    t \<notin> all_queued E s \<Longrightarrow> card (queued (cpus s (self E))) + 1 < n \<Longrightarrow>
    \<exists>new s'. choosethread_panic E n t s = Inr (new, s') \<and> smp_ok E s' \<and> new \<notin> all_queued E s' \<and>
      (p_system (thr s' new) \<or> TDF_INPANIC \<in> td_flags (thr s' new)) \<and> td_state (thr s' new) = TDS_RUNNING \<and>
      all_queued E s' \<subseteq> all_queued E s"
proof (induction n arbitrary: t s)
  case 0
  then show ?case by simp
next
  case (Suc n)
  have place_upd: "smp_ok E (upd_thr t (\<lambda>x. x\<lparr>td_state := st\<rparr>) s)" "all_queued E (upd_thr t (\<lambda>x. x\<lparr>td_state := st\<rparr>) s) = all_queued E s" for st
    using smp_ok_place(1,2) [OF Suc.prems(1), of "upd_thr t (\<lambda>x. x\<lparr>td_state := st\<rparr>) s"]
    by (simp_all add: upd_thr_def upd_td_def place_def)
  show ?case
  proof (cases "\<not> p_system (thr s t) \<and> TDF_INPANIC \<notin> td_flags (thr s t)")
    case False
    then show ?thesis using place_upd [of TDS_RUNNING] Suc.prems(4) by (auto simp: upd_thr_def)
  next
    case True
    define s1 where "s1 = upd_thr t (\<lambda>x. x\<lparr>td_state := TDS_CAN_RUN\<rparr>) s"
    have ok1: "smp_ok E s1" "all_queued E s1 = all_queued E s" using place_upd by (simp_all add: s1_def)
    have sys: "p_system (thr s1 u) = p_system (thr s u)" for u by (cases "u = t") (simp_all add: s1_def upd_thr_def)
    have c1: "cpus s1 = cpus s" by (simp add: s1_def upd_thr_def)
    obtain new s2 where ch: "sched_choose_on E s1 = Inr (new, s2)" "chosen E new s1 s2" "p_system (thr s2 new) = p_system (thr s1 new)"
      using sched_choose_on_ok [OF ok1(1) here] Suc.prems(2) ok1(2) by auto
    let ?i = "idlethread E (self E)"
    have i2: "?i \<notin> all_queued E s2" "new \<notin> all_queued E s2" using ch(2) Suc.prems(2) ok1(2) by (simp_all add: chosen_def)
    have sys2: "p_system (thr s2 ?i)" using ch(2,3) sys Suc.prems(3) by (cases "?i = new") (simp_all add: chosen_def)
    have ok2: "smp_ok E s2" "all_queued E s2 \<subseteq> all_queued E s" using ch(2) ok1(2) by (auto simp: chosen_def)
    have e: "choosethread_panic E (Suc n) t s = choosethread_panic E n new s2"
      using True ch(1) by (simp add: s1_def)
    show ?thesis
    proof (cases "queued (cpus s1 (self E)) = {}")
      case True
      then have "new = ?i" using ch(2) by (simp add: chosen_def)
      obtain m where n: "n = Suc m" using Suc.prems(5) by (cases n) auto
      have "smp_ok E (upd_thr new (\<lambda>x. x\<lparr>td_state := TDS_RUNNING\<rparr>) s2) \<and>
          all_queued E (upd_thr new (\<lambda>x. x\<lparr>td_state := TDS_RUNNING\<rparr>) s2) = all_queued E s2"
        using smp_ok_place(1,2) [OF ok2(1), of "upd_thr new (\<lambda>x. x\<lparr>td_state := TDS_RUNNING\<rparr>) s2"]
        by (simp add: upd_thr_def upd_td_def place_def)
      then show ?thesis using e n sys2 \<open>new = ?i\<close> i2 ok2(2) by (auto simp: upd_thr_def)
    next
      case False
      then have "new \<in> queued (cpus s (self E))" "new \<in> all_queued E s" using ch(2) here c1 by (auto simp: chosen_def all_queued_def)
      moreover have "queued (cpus s2 (self E)) \<subseteq> queued (cpus s (self E)) - {new}"
        using chosen_here_less [OF ok1(1) here ch(2)] c1 by simp
      ultimately have "card (queued (cpus s2 (self E))) < card (queued (cpus s (self E)))"
        by (intro psubset_card_mono) auto
      then have less: "card (queued (cpus s2 (self E))) + 1 < n" using Suc.prems(5) by simp
      obtain new' s' where "choosethread_panic E n new s2 = Inr (new', s') \<and> smp_ok E s' \<and> new' \<notin> all_queued E s' \<and>
        (p_system (thr s' new') \<or> TDF_INPANIC \<in> td_flags (thr s' new')) \<and> td_state (thr s' new') = TDS_RUNNING \<and>
        all_queued E s' \<subseteq> all_queued E s2"
        using Suc.IH [OF ok2(1) i2(1) sys2 i2(2) less] by blast
      then show ?thesis using e ok2(2) by auto
    qed
  qed
qed

end
