(* ===== verification/Sched_Clock_Props.thy ===== *)
theory Sched_Clock_Props
  imports Sched_Switch_Props
begin

text \<open>
  The choice of a thread in a panic, and the idle thread against the processors that give it work.
\<close>

section \<open>Panic\<close>

text \<open>
  In a panic \<open>choosethread\<close> returns: it passes over every thread that neither belongs to a system
  process nor is the panicking one, at the latest with the idle thread, and the thread it returns is
  off the queues and running.
\<close>

theorem panic_choice:
  assumes ok: "smp_ok E s" and here: "self E \<le> mp_maxid (kn E)" and panic: "panicstr E"
    and idle: "idlethread E (self E) \<notin> all_queued E s" "p_system (thr s (idlethread E (self E)))"
    and n: "card (queued (cpus s (self E))) + 1 < turns"
  shows "\<exists>new s'. choosethread E turns s = Inr (new, s') \<and> smp_ok E s' \<and> new \<notin> all_queued E s' \<and>
    (p_system (thr s' new) \<or> TDF_INPANIC \<in> td_flags (thr s' new)) \<and> td_state (thr s' new) = TDS_RUNNING"
proof -
  let ?i = "idlethread E (self E)"
  obtain t s1 where c: "sched_choose_on E s = Inr (t, s1)" "chosen E t s s1" "p_system (thr s1 t) = p_system (thr s t)"
    using sched_choose_on_ok [OF ok here idle(1)] by blast
  have ok1: "smp_ok E s1" "?i \<notin> all_queued E s1" "t \<notin> all_queued E s1" using c(2) idle(1) by (simp_all add: chosen_def)
  have sys: "p_system (thr s1 ?i)" using c(2,3) idle(2) by (cases "?i = t") (simp_all add: chosen_def)
  have "queued (cpus s1 (self E)) \<subseteq> queued (cpus s (self E))" using chosen_here_less [OF ok here c(2)] by blast
  then have "card (queued (cpus s1 (self E))) + 1 < turns" using n card_mono [OF queued_finite] by (meson add_le_mono1 le_less_trans)
  then show ?thesis
    using choosethread_panic_ok [OF here ok1(1,2) sys ok1(3)] c(1) panic by (fastforce simp: choosethread_def)
qed

theorem panic_choice_witness:
  "\<exists>new s'. choosethread (cpu_env0\<lparr>panicstr := True\<rparr>) 4 (upd_thr 100 (\<lambda>x. x\<lparr>p_system := True\<rparr>) smp7) = Inr (new, s') \<and>
    (p_system (thr s' new) \<or> TDF_INPANIC \<in> td_flags (thr s' new)) \<and> new \<notin> all_queued cpu_env0 s'"
proof -
  let ?E = "cpu_env0\<lparr>panicstr := True\<rparr>" and ?s = "upd_thr 100 (\<lambda>x. x\<lparr>p_system := True\<rparr>) smp7"
  have c: "cpus ?s = cpus smp7" "\<And>x. all_queued ?E x = all_queued cpu_env0 x" "\<And>x. total_load ?E x = total_load cpu_env0 x"
    by (simp_all add: upd_thr_def all_queued_def total_load_def)
  have aq: "all_queued cpu_env0 ?s = {7}" using smp7_queued by (simp add: all_queued_def c(1))
  have "smp_ok cpu_env0 ?s" by (rule smp_ok_thr [OF smp7_ok c(1)]) (simp add: smp7_queued upd_thr_def)
  then have "smp_ok ?E ?s" by (simp add: smp_ok_def c)
  moreover have "card (queued (cpus ?s (self ?E))) + 1 < 4" by (simp add: cpu_env0_simps upd_thr_def smp7_def tdq7_facts(2))
  moreover have "idlethread ?E (self ?E) = 100" "p_system (thr ?s 100)" "self ?E \<le> mp_maxid (kn ?E)"
    by (simp_all add: cpu_env0_def freebsd_def upd_thr_def)
  ultimately show ?thesis
    using panic_choice [of ?E ?s 4] aq c(2) by fastforce
qed

section \<open>The idle thread\<close>

lemma idle_spin_cong:
  assumes "\<forall>n x. others (Spinning n) x = others' (Spinning n) x"
  shows "idle_spin others c n s = idle_spin others' c n s"
  using assms by (induction n arbitrary: s) simp_all

text \<open>
  C30: No wakeup is lost between an idle processor and the one that gives it a thread. The idle thread calls
  \<open>cpu_idle\<close> only with an empty load, seen after \<open>tdq_cpu_idle\<close> is set: what others would do to it at
  any other moment in \<open>cpu_idle\<close> makes no difference. And \<open>tdq_notify\<close> of a thread that should run,
  when it sees \<open>tdq_cpu_idle\<close> set, has the processor woken or sends it an interrupt.
\<close>

theorem idle_no_lost_wakeup:
  assumes same: "\<forall>p x. (case p of Idling b \<Rightarrow> tdq_load (cpus x c) = 0 \<and> tdq_cpu_idle (cpus x c) | _ \<Rightarrow> True) \<longrightarrow> others p x = others' p x"
    and flag: "\<forall>x. tdq_cpu_idle (cpus (others Fence x) c) = tdq_cpu_idle (cpus x c)"
  shows "sched_idletd E others turns c old s = sched_idletd E others' turns c old s \<and>
    (ts_cpu (thr x t) = c \<and> TDF_IDLETD \<in> td_flags (thr x (curthr x c)) \<and> \<not> tdq_ipipending (cpus x c) \<and>
       tdq_cpu_idle (cpus x c) \<and> sched_shouldpreempt (kn E) (td_priority (thr x t)) (td_priority (thr x (curthr x c))) True \<longrightarrow>
     cpu_idle_wakeup E c \<or> ipis (tdq_notify E c t x) = ipis x @ [c])"
proof
  have s: "others p = others' p" if "\<forall>b. p \<noteq> Idling b" for p
    using same that by (auto simp: fun_eq_iff split: idle_point.splits)
  have sp: "idle_spin others = idle_spin others'"
    by (intro ext idle_spin_cong) (simp add: s)
  have e: "others Switched = others' Switched" "others Search_switched = others' Search_switched"
    "(\<lambda>n. others (Searching n)) = (\<lambda>n. others' (Searching n))" by (simp_all add: s)
  have idl: "others (Idling b) y = others' (Idling b) y" if "tdq_load (cpus y c) = 0" "tdq_cpu_idle (cpus y c)" for b y
    using same [THEN spec, of "Idling b", THEN spec, of y] that by simp
  have "idle_sleep E others c old s = idle_sleep E others' c old s" for old s
  proof -
    define s1 where "s1 = others Fence (upd_cpu c (\<lambda>q. q\<lparr>tdq_cpu_idle := True\<rparr>) s)"
    have "tdq_cpu_idle (cpus s1 c)" by (simp add: s1_def flag upd_cpu_def)
    then have i: "tdq_load (cpus s1 c) = 0 \<Longrightarrow> others (Idling b) s1 = others' (Idling b) s1" for b using idl by blast
    have f: "others' Fence = others Fence" using s [of Fence] by simp
    show ?thesis
      unfolding idle_sleep_def Let_def f s1_def [symmetric] using i by (cases "tdq_load (cpus s1 c) = 0") simp_all
  qed
  then have sl: "idle_sleep E others c = idle_sleep E others' c" by (intro ext)
  show "sched_idletd E others turns c old s = sched_idletd E others' turns c old s"
    unfolding sched_idletd_def e sp sl ..
  show "ts_cpu (thr x t) = c \<and> TDF_IDLETD \<in> td_flags (thr x (curthr x c)) \<and> \<not> tdq_ipipending (cpus x c) \<and>
       tdq_cpu_idle (cpus x c) \<and> sched_shouldpreempt (kn E) (td_priority (thr x t)) (td_priority (thr x (curthr x c))) True \<longrightarrow>
     cpu_idle_wakeup E c \<or> ipis (tdq_notify E c t x) = ipis x @ [c]"
    by (auto simp: tdq_notify_def Let_def upd_cpu_def)
qed

theorem idle_no_lost_wakeup_witness:
  "sched_idletd cpu_env0 (\<lambda>_ x. x) 20 1 0 smp7 =
    sched_idletd cpu_env0 (\<lambda>p x. case p of Idling b \<Rightarrow> if tdq_load (cpus x 1) = 0 then x else smp7 | _ \<Rightarrow> x) 20 1 0 smp7"
proof -
  have same: "\<forall>p (x :: 64 word smp). (case p of Idling b \<Rightarrow> tdq_load (cpus x 1) = 0 \<and> tdq_cpu_idle (cpus x 1) | _ \<Rightarrow> True) \<longrightarrow>
      x = (case p of Idling b \<Rightarrow> if tdq_load (cpus x 1) = 0 then x else smp7 | _ \<Rightarrow> x)"
    by (simp split: idle_point.split)
  show ?thesis by (rule idle_no_lost_wakeup [OF same, THEN conjunct1]) simp
qed

end
