(* ===== verification/Aofs_Bitmap.thy ===== *)
theory Aofs_Bitmap
  imports Bitset_Spec
begin

unbundle bit_operations_syntax

text \<open>
  The block bitmap of AOFS (\<open>src/asgn4/aofs.c\<close>, \<open>bit_at\<close> to \<open>clear_bit\<close>): one bit per
  block, eight to a byte, lowest bit first. The array is a list of bytes, and \<open>map[byte_num]\<close>
  is \<open>m ! byte_num\<close>. An index is a natural number: no caller passes a negative one. The two
  functions that store into the array return the array beside their \<open>int\<close> result.
\<close>

section \<open>Constants of aofs.h\<close>

definition BLOCK_SIZE :: nat where "BLOCK_SIZE = 4096"
definition BLOCK_NUM :: nat where "BLOCK_NUM = 4096"
definition MAGICNUM :: u32 where "MAGICNUM = 0xfa19283e"
definition MAX_FILENAME :: nat where "MAX_FILENAME = 255"

text \<open>\<open>BLOCK_NUM / sizeof(uint8_t)\<close>: the number of bytes of the bitmap array.\<close>

definition BITMAP_SIZE :: nat where "BITMAP_SIZE = BLOCK_NUM div 1"

section \<open>Operations\<close>

definition bit_at :: "u8 list \<Rightarrow> nat \<Rightarrow> u8" where
  "bit_at m idx =
    (let el_size = 8; bit_offset = idx mod el_size; byte_num = idx div el_size
     in drop_bit bit_offset (m ! byte_num) AND 1)"

fun find_free_bit_from :: "u8 list \<Rightarrow> nat \<Rightarrow> nat \<Rightarrow> int" where
  "find_free_bit_from m i 0 = -1"
| "find_free_bit_from m i (Suc n) =
    (if drop_bit (i mod 8) (m ! (i div 8)) AND 1 = 0 then int i
     else find_free_bit_from m (Suc i) n)"

definition find_free_bit :: "u8 list \<Rightarrow> nat \<Rightarrow> int" where
  "find_free_bit m num_bits = find_free_bit_from m 0 num_bits"

definition set_bit :: "u8 list \<Rightarrow> nat \<Rightarrow> int \<times> u8 list" where
  "set_bit m bit_idx =
    (let el_size = 8; bit_offset = bit_idx mod el_size; byte_num = bit_idx div el_size
     in if drop_bit bit_offset (m ! byte_num) AND 1 \<noteq> 0 then (-1, m)
        else (0, m[byte_num := m ! byte_num OR push_bit bit_offset 1]))"

definition clear_bit :: "u8 list \<Rightarrow> nat \<Rightarrow> int \<times> u8 list" where
  "clear_bit m bit_idx =
    (let el_size = 8; bit_offset = bit_idx mod el_size; byte_num = bit_idx div el_size
     in if drop_bit bit_offset (m ! byte_num) AND 1 = 0 then (-1, m)
        else (0, m[byte_num := m ! byte_num AND NOT (push_bit bit_offset 1)]))"

section \<open>The bitmap as a set of block numbers\<close>

lemma bit_at_neq_0: "bit_at m i \<noteq> 0 \<longleftrightarrow> bit (m ! (i div 8)) (i mod 8)"
  by (simp add: bit_at_def Let_def drop_bit_AND_1_eq_0)

definition in_use :: "u8 list \<Rightarrow> nat \<Rightarrow> bool" where
  "in_use m i \<longleftrightarrow> bit_at m i \<noteq> 0"

lemma in_use_set_bit:
  assumes "i < 8 * length m" and "j < 8 * length m"
  shows "in_use (snd (set_bit m i)) j \<longleftrightarrow> j = i \<or> in_use m j"
proof -
  have "i div 8 < length m" and "j div 8 < length m" and "j mod 8 < LENGTH(8)"
    using assms by (simp_all add: less_mult_imp_div_less mult.commute)
  note simps = this in_use_def bit_at_neq_0 set_bit_def Let_def drop_bit_AND_1_eq_0
    nth_list_update push_bit_of_1 bit_or_single
  show ?thesis
  proof (cases "i div 8 = j div 8")
    case True
    then have "j = i \<longleftrightarrow> j mod 8 = i mod 8" using same_cell [of j 8 i] by auto
    then show ?thesis using True by (auto simp: simps)
  next
    case False
    then show ?thesis by (auto simp add: simps)
  qed
qed

lemma in_use_clear_bit:
  assumes "i < 8 * length m" and "j < 8 * length m"
  shows "in_use (snd (clear_bit m i)) j \<longleftrightarrow> j \<noteq> i \<and> in_use m j"
proof -
  have "i div 8 < length m" and "j div 8 < length m" and "j mod 8 < LENGTH(8)"
    using assms by (simp_all add: less_mult_imp_div_less mult.commute)
  note simps = this in_use_def bit_at_neq_0 clear_bit_def Let_def drop_bit_AND_1_eq_0
    nth_list_update push_bit_of_1 bit_and_not_single
  show ?thesis
  proof (cases "i div 8 = j div 8")
    case True
    then have "j = i \<longleftrightarrow> j mod 8 = i mod 8" using same_cell [of j 8 i] by auto
    then show ?thesis using True by (auto simp: simps)
  next
    case False
    then show ?thesis by (auto simp add: simps)
  qed
qed

lemma length_set_bit [simp]: "length (snd (set_bit m i)) = length m"
  by (simp add: set_bit_def Let_def)

lemma length_clear_bit [simp]: "length (snd (clear_bit m i)) = length m"
  by (simp add: clear_bit_def Let_def)

interpretation bm: bit_map "\<lambda>m. length m = BITMAP_SIZE" "8 * BITMAP_SIZE" in_use
  "\<lambda>i m. snd (set_bit m i)" "\<lambda>i m. snd (clear_bit m i)"
  by unfold_locales (simp_all add: in_use_set_bit in_use_clear_bit)

section \<open>Results of the operations\<close>

lemma set_bit_result: "fst (set_bit m i) = (if in_use m i then -1 else 0)"
  by (simp add: set_bit_def in_use_def bit_at_def Let_def)

lemma clear_bit_result: "fst (clear_bit m i) = (if in_use m i then 0 else -1)"
  by (simp add: clear_bit_def in_use_def bit_at_def Let_def)

lemma find_free_bit_from_Suc:
  "find_free_bit_from m i (Suc n) = (if in_use m i then find_free_bit_from m (Suc i) n else int i)"
  by (simp add: in_use_def bit_at_def Let_def)

lemma find_free_bit_from_spec:
  "find_free_bit_from m i n =
    (if \<exists>j. i \<le> j \<and> j < i + n \<and> \<not> in_use m j
     then int (LEAST j. i \<le> j \<and> \<not> in_use m j) else -1)"
proof (induction n arbitrary: i)
  case (Suc n)
  show ?case
  proof (cases "in_use m i")
    case True
    have "(i \<le> j \<and> \<not> in_use m j) = (Suc i \<le> j \<and> \<not> in_use m j)" for j
      using True by (cases "i = j") auto
    moreover have "(i \<le> j \<and> j < i + Suc n \<and> \<not> in_use m j)
        = (Suc i \<le> j \<and> j < Suc i + n \<and> \<not> in_use m j)" for j
      using True by (cases "i = j") auto
    ultimately show ?thesis
      using True by (simp only: find_free_bit_from_Suc Suc if_True)
  next
    case False
    then have "(LEAST j. i \<le> j \<and> \<not> in_use m j) = i"
      by (intro Least_equality) auto
    moreover have "\<exists>j. i \<le> j \<and> j < i + Suc n \<and> \<not> in_use m j" using False by auto
    ultimately show ?thesis
      using False by (simp only: find_free_bit_from_Suc if_True if_False)
  qed
qed simp

lemma find_free_bit_least:
  "find_free_bit m n =
    (if \<exists>j<n. \<not> in_use m j then int (LEAST j. \<not> in_use m j) else -1)"
  by (simp add: find_free_bit_def find_free_bit_from_spec)

lemma find_free_bit_free:
  assumes "find_free_bit m n = int k"
  shows "k < n" and "\<not> in_use m k" and "\<forall>j<k. in_use m j"
proof -
  from assms obtain j where j: "j < n" "\<not> in_use m j" and k: "k = (LEAST j. \<not> in_use m j)"
    by (auto simp: find_free_bit_least split: if_splits)
  show "k < n" using j k by (metis Least_le order_le_less_trans)
  show "\<not> in_use m k" using j k by (metis LeastI)
  show "\<forall>j<k. in_use m j" using k not_less_Least by blast
qed

lemma find_free_bit_cases:
  obtains "find_free_bit m n = -1" and "\<forall>j<n. in_use m j"
  | k where "find_free_bit m n = int k" and "k < n" and "\<not> in_use m k" and "\<forall>j<k. in_use m j"
proof (cases "\<exists>j<n. \<not> in_use m j")
  case True
  then have "find_free_bit m n = int (LEAST j. \<not> in_use m j)" by (simp add: find_free_bit_least)
  with find_free_bit_free [OF this] show ?thesis using that(2) by blast
next
  case False
  then show ?thesis using that(1) by (simp add: find_free_bit_least)
qed

end
