(* ===== verification/Aofs_Disk.thy ===== *)
theory Aofs_Disk
  imports Aofs_Bitmap
begin

text \<open>
  The on-disk image of AOFS and its block operations (\<open>src/asgn4/aofs.h\<close>, \<open>src/asgn4/aofs.c\<close>
  down to \<open>deallocate_block\<close>). The disk file is the structure \<open>AOFS\<close>: the superblock at offset
  0 and block \<open>b\<close> at \<open>BLOCK_OFFSET(b)\<close>; seeking and reading or writing \<open>sizeof(Block)\<close> there
  is access to element \<open>b\<close> of the block array. A block number outside the array is not on
  the image (-1 is the last bytes of the superblock), which is the fault \<open>Bad_block\<close>.

  Two things the C code takes from its surroundings are collected in \<open>env\<close>: the value of
  \<open>time(NULL)\<close> while an operation runs, and the contents a stack variable of type \<open>Block\<close>
  has before it is assigned (\<open>clear_block\<close> leaves the mode and owner fields of such a variable).
  A C string is the list of its characters before the terminating zero; \<open>strcpy\<close> of a name that
  does not fit the 256 bytes of \<open>filename\<close> is the fault \<open>Overflow\<close>.
\<close>

section \<open>Data\<close>

record super_block =
  magicnum :: u32
  totalblocks :: nat
  blocksize :: nat
  bitmap :: "u8 list"

record block_meta =
  filename :: string
  next_block :: int
  is_head :: bool
  st_mode :: u16
  st_atim :: u64
  st_mtim :: u64
  st_ctim :: u64
  st_size :: int
  st_uid :: u32
  st_gid :: u32
  st_blocks :: int
  st_blksize :: int
  st_flags :: u32
  st_birthtim :: u64

text \<open>
  \<open>sizeof(BlockMeta)\<close> on the 64-bit ABI of FreeBSD: 256 bytes of name, 4 of \<open>next\<close>, 1 of
  \<open>head\<close> and 1 of padding, 2 of mode, three 8-byte times, 8 of size, 4 + 4 of owner, 8 of block
  count, 4 + 4 of block size and flags, 8 of birth time.
\<close>

definition BLOCK_META :: nat where
  "BLOCK_META = 256 + 4 + 1 + 1 + 2 + 3 * 8 + 8 + 4 + 4 + 8 + 4 + 4 + 8"

definition BLOCK_DATA :: nat where "BLOCK_DATA = BLOCK_SIZE - BLOCK_META"

record block =
  dbm :: block_meta
  data :: "u8 list"

record aofs =
  sb :: super_block
  blocks :: "block list"

record env =
  now :: u64
  stack_block :: block

lemma BLOCK_DATA_value: "BLOCK_DATA = 3768"
  by (simp add: BLOCK_DATA_def BLOCK_SIZE_def BLOCK_META_def)

lemma BLOCK_DATA_pos [simp]: "0 < BLOCK_DATA"
  by (simp add: BLOCK_DATA_value)

lemma BLOCK_DATA_neq_0 [simp]: "BLOCK_DATA \<noteq> 0"
  by (simp add: BLOCK_DATA_value)

section \<open>Reading and writing blocks\<close>

definition read_super_block :: "aofs \<Rightarrow> super_block" where
  "read_super_block disk = sb disk"

definition write_super_block :: "aofs \<Rightarrow> super_block \<Rightarrow> aofs" where
  "write_super_block disk s = disk\<lparr>sb := s\<rparr>"

definition read_block :: "aofs \<Rightarrow> int \<Rightarrow> fault + block" where
  "read_block disk block_num =
    (if 0 \<le> block_num \<and> nat block_num < length (blocks disk)
     then Inr (blocks disk ! nat block_num) else Inl Bad_block)"

definition write_block :: "aofs \<Rightarrow> int \<Rightarrow> block \<Rightarrow> fault + aofs" where
  "write_block disk block_num b =
    (if 0 \<le> block_num \<and> nat block_num < length (blocks disk)
     then Inr (disk\<lparr>blocks := (blocks disk)[nat block_num := b]\<rparr>) else Inl Bad_block)"

definition strcpy_filename :: "block \<Rightarrow> string \<Rightarrow> fault + block" where
  "strcpy_filename b name =
    (if length name < 256 then Inr (b\<lparr>dbm := (dbm b)\<lparr>filename := name\<rparr>\<rparr>) else Inl Overflow)"

definition clear_block :: "env \<Rightarrow> block \<Rightarrow> block" where
  "clear_block e b =
    b\<lparr>dbm := (dbm b)\<lparr>filename := '''', next_block := -1, is_head := False,
        st_atim := now e, st_mtim := now e, st_ctim := now e, st_birthtim := now e,
        st_size := 0, st_blocks := 0, st_blksize := int BLOCK_DATA, st_flags := 0\<rparr>,
      data := replicate BLOCK_DATA 0\<rparr>"

section \<open>Creating an image\<close>

definition init_fs :: "env \<Rightarrow> aofs \<Rightarrow> aofs" where
  "init_fs e fs =
    fs\<lparr>sb := (sb fs)\<lparr>magicnum := MAGICNUM, totalblocks := BLOCK_NUM, blocksize := BLOCK_SIZE,
                    bitmap := replicate BITMAP_SIZE 0\<rparr>,
       blocks := map (clear_block e) (take BITMAP_SIZE (blocks fs))\<rparr>"

text \<open>
  \<open>read_fs\<close> and \<open>write_fs\<close> open the image, copy the superblock and then as many blocks as it
  counts; \<open>opened\<close> says whether \<open>open\<close> gave a descriptor.
\<close>

definition read_fs :: "bool \<Rightarrow> aofs \<Rightarrow> aofs \<Rightarrow> int \<times> aofs" where
  "read_fs opened disk fs =
    (if \<not> opened then (-1, fs)
     else let n = totalblocks (sb disk)
          in (0, fs\<lparr>sb := sb disk, blocks := take n (blocks disk) @ drop n (blocks fs)\<rparr>))"

definition write_fs :: "bool \<Rightarrow> aofs \<Rightarrow> aofs \<Rightarrow> int \<times> aofs" where
  "write_fs opened disk fs =
    (if \<not> opened then (-1, disk)
     else let n = totalblocks (sb fs)
          in (0, disk\<lparr>sb := sb fs, blocks := take n (blocks fs) @ drop n (blocks disk)\<rparr>))"

section \<open>Allocation\<close>

definition allocate_block :: "env \<Rightarrow> aofs \<Rightarrow> fault + (int \<times> aofs)" where
  "allocate_block e disk =
    (let s = read_super_block disk;
         block_num = find_free_bit (bitmap s) (totalblocks s)
     in if block_num = -1 then Inr (-1, disk)
        else let m = snd (set_bit (bitmap s) (nat block_num));
                 disk1 = write_super_block disk (s\<lparr>bitmap := m\<rparr>);
                 b = clear_block e (stack_block e)
             in and_then (write_block disk1 block_num b) (\<lambda>disk2. Inr (block_num, disk2)))"

definition deallocate_block :: "env \<Rightarrow> aofs \<Rightarrow> int \<Rightarrow> fault + (int \<times> aofs)" where
  "deallocate_block e disk block_num =
    (if block_num < 0 then Inr (block_num, disk)
     else let s = read_super_block disk;
              m = snd (clear_bit (bitmap s) (nat block_num))
          in and_then (read_block disk block_num) (\<lambda>b.
             and_then (write_block disk block_num (clear_block e b)) (\<lambda>disk1.
             Inr (next_block (dbm b), write_super_block disk1 (s\<lparr>bitmap := m\<rparr>)))))"

section \<open>Printing\<close>

text \<open>The lines written to standard output, one value per \<open>printf\<close>.\<close>

datatype printed =
    Chain_line nat bool int string     \<comment> \<open>block, head or tail, next, name\<close>
  | Cannot_print_block
  | Error_reading_block int
  | Block_info int string int bool int \<comment> \<open>number, name, next, head, size\<close>

fun print_aofs_from :: "aofs \<Rightarrow> nat \<Rightarrow> nat \<Rightarrow> fault + printed list" where
  "print_aofs_from disk b 0 = Inr []"
| "print_aofs_from disk b (Suc n) =
    (if bit_at (bitmap (sb disk)) b \<noteq> 0
     then and_then (read_block disk (int b)) (\<lambda>blk.
          and_then (print_aofs_from disk (Suc b) n) (\<lambda>out.
          Inr (Chain_line b (is_head (dbm blk)) (next_block (dbm blk)) (filename (dbm blk)) # out)))
     else print_aofs_from disk (Suc b) n)"

definition print_aofs :: "aofs \<Rightarrow> fault + printed list" where
  "print_aofs disk = print_aofs_from disk 0 (totalblocks (sb disk))"

text \<open>
  After a failed read \<open>print_block\<close> goes on and prints its uninitialised block, the one on
  the stack.
\<close>

definition print_block :: "env \<Rightarrow> aofs \<Rightarrow> int \<Rightarrow> printed list" where
  "print_block e disk block_num =
    (if block_num = -1 then [Cannot_print_block]
     else case read_block disk block_num of
         Inr b \<Rightarrow> [Block_info block_num (filename (dbm b)) (next_block (dbm b)) (is_head (dbm b))
                    (st_size (dbm b))]
       | Inl _ \<Rightarrow> (let b = stack_block e
                   in [Error_reading_block block_num,
                       Block_info block_num (filename (dbm b)) (next_block (dbm b)) (is_head (dbm b))
                         (st_size (dbm b))]))"

section \<open>Well-formed images\<close>

text \<open>
  The shape every operation keeps: the arrays have their sizes and the superblock counts all
  the blocks.
\<close>

definition shape :: "aofs \<Rightarrow> bool" where
  "shape d \<longleftrightarrow> length (bitmap (sb d)) = BITMAP_SIZE \<and> totalblocks (sb d) = BLOCK_NUM \<and>
    length (blocks d) = BLOCK_NUM \<and> (\<forall>b\<in>set (blocks d). length (data b) = BLOCK_DATA)"

definition used :: "aofs \<Rightarrow> nat \<Rightarrow> bool" where
  "used d i \<longleftrightarrow> in_use (bitmap (sb d)) i"

definition blk :: "aofs \<Rightarrow> nat \<Rightarrow> block" where
  "blk d i = blocks d ! i"

definition free_blocks :: "aofs \<Rightarrow> nat set" where
  "free_blocks d = {i. i < BLOCK_NUM \<and> \<not> used d i}"

lemma finite_free_blocks [simp]: "finite (free_blocks d)"
  by (simp add: free_blocks_def)

lemma shape_data: "shape d \<Longrightarrow> i < BLOCK_NUM \<Longrightarrow> length (data (blk d i)) = BLOCK_DATA"
  by (simp add: shape_def blk_def)

lemma read_block_ok: "shape d \<Longrightarrow> i < BLOCK_NUM \<Longrightarrow> read_block d (int i) = Inr (blk d i)"
  by (simp add: read_block_def shape_def blk_def)

definition upd_blk :: "aofs \<Rightarrow> nat \<Rightarrow> block \<Rightarrow> aofs" where
  "upd_blk d i b = d\<lparr>blocks := (blocks d)[i := b]\<rparr>"

lemma write_block_ok: "shape d \<Longrightarrow> i < BLOCK_NUM \<Longrightarrow> write_block d (int i) b = Inr (upd_blk d i b)"
  by (simp add: write_block_def shape_def upd_blk_def)

lemma shape_upd_blk:
  "shape d \<Longrightarrow> length (data b) = BLOCK_DATA \<Longrightarrow> shape (upd_blk d i b)"
  by (auto simp: shape_def upd_blk_def dest: set_update_subset_insert [THEN subsetD])

lemma blk_upd_blk: "shape d \<Longrightarrow> i < BLOCK_NUM \<Longrightarrow> blk (upd_blk d i b) j = (if j = i then b else blk d j)"
  by (cases "j = i") (simp_all add: blk_def upd_blk_def shape_def)

lemma used_upd_blk [simp]: "used (upd_blk d i b) = used d"
  by (simp add: used_def upd_blk_def fun_eq_iff)

lemma free_blocks_upd_blk [simp]: "free_blocks (upd_blk d i b) = free_blocks d"
  by (simp add: free_blocks_def)

lemma clear_block_simps [simp]:
  "length (data (clear_block e b)) = BLOCK_DATA"
  "data (clear_block e b) = replicate BLOCK_DATA 0"
  "next_block (dbm (clear_block e b)) = -1"
  "is_head (dbm (clear_block e b)) = False"
  "st_size (dbm (clear_block e b)) = 0"
  "filename (dbm (clear_block e b)) = ''''"
  by (simp_all add: clear_block_def)

definition upd_bitmap :: "aofs \<Rightarrow> u8 list \<Rightarrow> aofs" where
  "upd_bitmap d m = d\<lparr>sb := (sb d)\<lparr>bitmap := m\<rparr>\<rparr>"

lemma shape_upd_bitmap: "shape d \<Longrightarrow> length m = BITMAP_SIZE \<Longrightarrow> shape (upd_bitmap d m)"
  by (simp add: shape_def upd_bitmap_def)

lemma blk_upd_bitmap [simp]: "blk (upd_bitmap d m) = blk d"
  by (simp add: blk_def upd_bitmap_def fun_eq_iff)

lemma BLOCK_NUM_le: "BLOCK_NUM \<le> 8 * BITMAP_SIZE"
  by (simp add: BITMAP_SIZE_def)

text \<open>
  What allocation promises: with a free block, the lowest one becomes a cleared block in use and
  nothing else changes; with none the image is left as it was.
\<close>

lemma allocate_block_full:
  assumes "shape d" and "free_blocks d = {}"
  shows "allocate_block e d = Inr (-1, d)"
proof -
  have "find_free_bit (bitmap (sb d)) BLOCK_NUM = -1"
    using assms(2) by (auto simp: find_free_bit_least free_blocks_def used_def)
  then show ?thesis
    using assms by (simp add: allocate_block_def shape_def read_super_block_def Let_def)
qed

lemma allocate_block_free:
  assumes shape: "shape d" and free: "free_blocks d \<noteq> {}"
  obtains n d' where "allocate_block e d = Inr (int n, d')" and "n \<in> free_blocks d"
    and "\<forall>j\<in>free_blocks d. n \<le> j" and "shape d'"
    and "free_blocks d' = free_blocks d - {n}"
    and "\<forall>j<BLOCK_NUM. used d' j \<longleftrightarrow> j = n \<or> used d j"
    and "blk d' n = clear_block e (stack_block e)" and "\<forall>j. j \<noteq> n \<longrightarrow> blk d' j = blk d j"
proof -
  let ?m = "bitmap (sb d)"
  obtain n where n: "find_free_bit ?m BLOCK_NUM = int n" "n < BLOCK_NUM" "\<not> in_use ?m n"
      "\<forall>j<n. in_use ?m j"
    using find_free_bit_cases [of ?m BLOCK_NUM] free
    by (auto simp: free_blocks_def used_def)
  let ?m' = "snd (set_bit ?m n)"
  let ?d1 = "upd_bitmap d ?m'"
  let ?d' = "upd_blk ?d1 n (clear_block e (stack_block e))"
  have len: "length ?m = BITMAP_SIZE" using shape by (simp add: shape_def)
  have shape1: "shape ?d1" using shape len by (intro shape_upd_bitmap) simp_all
  have "read_super_block d = sb d" "totalblocks (sb d) = BLOCK_NUM"
    using shape by (simp_all add: shape_def read_super_block_def)
  then have res: "allocate_block e d = Inr (int n, ?d')"
    using n write_block_ok [OF shape1 n(2)]
    by (simp add: allocate_block_def Let_def write_super_block_def upd_bitmap_def)
  have used': "used ?d' j \<longleftrightarrow> j = n \<or> used d j" if "j < BLOCK_NUM" for j
    using that n(2) len BLOCK_NUM_le by (simp add: used_def upd_bitmap_def in_use_set_bit)
  have free': "free_blocks ?d' = free_blocks d - {n}"
    using used' by (auto simp: free_blocks_def)
  have least: "\<forall>j\<in>free_blocks d. n \<le> j"
    using n(4) by (auto simp: free_blocks_def used_def not_less [symmetric])
  have "n \<in> free_blocks d" using n by (simp add: free_blocks_def used_def)
  then show thesis
    by (rule that [OF res _ least])
      (use shape_upd_blk [OF shape1] free' used' shape1 n(2) in \<open>simp_all add: blk_upd_blk\<close>)
qed

lemma deallocate_block_ok:
  assumes shape: "shape d" and n: "n < BLOCK_NUM"
  obtains d' where "deallocate_block e d (int n) = Inr (next_block (dbm (blk d n)), d')"
    and "shape d'" and "\<forall>j<BLOCK_NUM. used d' j \<longleftrightarrow> j \<noteq> n \<and> used d j"
    and "free_blocks d' = insert n (free_blocks d)"
    and "blk d' n = clear_block e (blk d n)" and "\<forall>j. j \<noteq> n \<longrightarrow> blk d' j = blk d j"
proof -
  let ?m = "bitmap (sb d)"
  let ?m' = "snd (clear_bit ?m n)"
  let ?d1 = "upd_blk d n (clear_block e (blk d n))"
  let ?d' = "upd_bitmap ?d1 ?m'"
  have len: "length ?m = BITMAP_SIZE" using shape by (simp add: shape_def)
  have res: "deallocate_block e d (int n) = Inr (next_block (dbm (blk d n)), ?d')"
    using n shape
    by (simp add: deallocate_block_def Let_def read_super_block_def read_block_ok write_block_ok
        write_super_block_def upd_bitmap_def upd_blk_def)
  have shape': "shape ?d'"
    using shape len by (intro shape_upd_bitmap shape_upd_blk) simp_all
  have used': "used ?d' j \<longleftrightarrow> j \<noteq> n \<and> used d j" if "j < BLOCK_NUM" for j
    using that n len BLOCK_NUM_le by (simp add: used_def upd_bitmap_def in_use_clear_bit)
  have free': "free_blocks ?d' = insert n (free_blocks d)"
    using used' n by (auto simp: free_blocks_def)
  show thesis
    by (rule that [OF res shape' _ free'])
      (use used' shape n in \<open>simp_all add: blk_upd_blk\<close>)
qed

end
