(* ===== verification/Aofs_Files.thy ===== *)
theory Aofs_Files
  imports Aofs_Disk
begin

text \<open>
  The file operations of AOFS (\<open>src/asgn4/aofs.c\<close>, \<open>aofs_create_file\<close> to
  \<open>aofs_truncate_file\<close>) on the disk image of \<open>Aofs_Disk\<close>. A file is a chain of blocks linked by
  \<open>next_block\<close>, its first block marked \<open>is_head\<close> and carrying name and size.

  Loops: \<open>for\<close> loops recurse on the number of iterations left; the loop of \<open>aofs_write_file\<close> is
  total (each turn consumes bytes or offset); the two \<open>while\<close> loops that follow a chain until its
  end take fuel and give \<open>Inl Diverges\<close> when it runs out. \<open>chain_fuel\<close> exceeds the number of
  blocks, so a run that exhausts it has met a cycle (or a negative link other than -1, which
  \<open>delete_chain\<close> passes back to itself for ever).
\<close>

section \<open>Names\<close>

definition ENOENT :: int where "ENOENT = 2"

definition chain_fuel :: nat where "chain_fuel = BLOCK_NUM + 2"

text \<open>The result of \<open>aofs_find_file_head\<close>: \<open>None\<close> is -1, with the caller's block untouched.\<close>

fun find_head_from :: "aofs \<Rightarrow> string \<Rightarrow> nat \<Rightarrow> nat \<Rightarrow> fault + (nat \<times> block) option" where
  "find_head_from disk name block_num 0 = Inr None"
| "find_head_from disk name block_num (Suc n) =
    (if bit_at (bitmap (sb disk)) block_num \<noteq> 0
     then and_then (read_block disk (int block_num)) (\<lambda>b.
          if is_head (dbm b) \<and> filename (dbm b) = name then Inr (Some (block_num, b))
          else find_head_from disk name (Suc block_num) n)
     else find_head_from disk name (Suc block_num) n)"

definition aofs_find_file_head :: "aofs \<Rightarrow> string \<Rightarrow> fault + (nat \<times> block) option" where
  "aofs_find_file_head disk name = find_head_from disk name 0 BLOCK_NUM"

definition aofs_create_file :: "env \<Rightarrow> aofs \<Rightarrow> string \<Rightarrow> fault + (int \<times> aofs)" where
  "aofs_create_file e disk name =
    and_then (allocate_block e disk) (\<lambda>(block_num, disk1).
    if block_num = -1 then Inr (-1, disk1)
    else and_then (strcpy_filename (clear_block e (stack_block e)) name) (\<lambda>b.
         and_then (write_block disk1 block_num (b\<lparr>dbm := (dbm b)\<lparr>is_head := True\<rparr>\<rparr>)) (\<lambda>disk2.
         Inr (block_num, disk2))))"

section \<open>Deleting\<close>

fun delete_chain :: "env \<Rightarrow> nat \<Rightarrow> aofs \<Rightarrow> int \<Rightarrow> fault + aofs" where
  "delete_chain e 0 disk blockidx = (if blockidx = -1 then Inr disk else Inl Diverges)"
| "delete_chain e (Suc fuel) disk blockidx =
    (if blockidx = -1 then Inr disk
     else and_then (deallocate_block e disk blockidx) (\<lambda>(n, disk1).
          delete_chain e fuel disk1 n))"

definition aofs_delete_file :: "env \<Rightarrow> aofs \<Rightarrow> string \<Rightarrow> fault + (int \<times> aofs)" where
  "aofs_delete_file e disk path =
    and_then (aofs_find_file_head disk path) (\<lambda>r.
    case r of None \<Rightarrow> Inr (- ENOENT, disk)
    | Some (blockidx, _) \<Rightarrow>
        and_then (delete_chain e chain_fuel disk (int blockidx)) (\<lambda>disk1. Inr (0, disk1)))"

section \<open>Writing\<close>

text \<open>
  \<open>write_to_block\<close> gives the number of bytes it accounts for and the block; the buffer is the
  list of the bytes still to be written, so that \<open>bytes_to_write\<close> is its length. \<open>BLOCK_DATA\<close> is a
  \<open>size_t\<close>, so an \<open>off_t\<close> compared with it is converted: \<open>as_size\<close>.
\<close>

definition as_size :: "int \<Rightarrow> int" where "as_size x = x mod 2 ^ 64"

lemma as_size_id: "0 \<le> x \<Longrightarrow> x < 2 ^ 63 \<Longrightarrow> as_size x = x"
  by (simp add: as_size_def)

lemma as_size_bounds: "0 \<le> as_size x" "as_size x < 2 ^ 64"
  by (simp_all add: as_size_def)

definition write_to_block :: "u8 list \<Rightarrow> block \<Rightarrow> nat \<Rightarrow> int \<Rightarrow> nat \<times> block" where
  "write_to_block buf b bytes_to_write offset =
    (if as_size offset > int BLOCK_DATA then (BLOCK_DATA, b)
     else let off = nat (if offset < 0 then 0 else as_size offset);
              n = (if bytes_to_write + off > BLOCK_DATA then BLOCK_DATA - off else bytes_to_write)
          in (n, b\<lparr>data := overlay off (take n buf) (data b)\<rparr>))"

text \<open>
  The second half of one turn of the loop: the block that follows, allocated when the chain ends
  and bytes remain. After the last byte the code reads the next block too and never looks at it;
  a link of -1 is then harmless, which is the last line.
\<close>

definition follow_block ::
    "env \<Rightarrow> string \<Rightarrow> aofs \<Rightarrow> block \<Rightarrow> bool \<Rightarrow> fault + (aofs \<times> block \<times> block)" where
  "follow_block e name disk b again =
    (if again \<and> next_block (dbm b) = -1
     then and_then (allocate_block e disk) (\<lambda>(n, disk1).
          and_then (read_block disk1 n) (\<lambda>nb.
          and_then (strcpy_filename nb name) (\<lambda>nb1.
          Inr (disk1, b\<lparr>dbm := (dbm b)\<lparr>next_block := n\<rparr>\<rparr>, nb1))))
     else case read_block disk (next_block (dbm b)) of
         Inr nb \<Rightarrow> Inr (disk, b, nb)
       | Inl f \<Rightarrow> if again then Inl f else Inr (disk, b, b))"

definition touch :: "env \<Rightarrow> block \<Rightarrow> block" where
  "touch e b = b\<lparr>dbm := (dbm b)\<lparr>st_mtim := now e, st_atim := now e, st_ctim := now e\<rparr>\<rparr>"

lemma write_to_block_progress:
  assumes "buf \<noteq> []" and "\<not> int BLOCK_DATA < as_size offset"
    and "write_to_block buf b (length buf) offset = (wr, b1)"
  shows "0 < wr \<or> as_size offset = int BLOCK_DATA"
  using assms as_size_bounds [of offset] BLOCK_DATA_pos by (auto simp: write_to_block_def Let_def split: if_splits)

lemma as_size_step:
  assumes "int BLOCK_DATA < as_size x"
  shows "as_size (signed_take_bit 63 (x - int BLOCK_DATA)) = as_size x - int BLOCK_DATA"
proof -
  have "as_size (signed_take_bit 63 (x - int BLOCK_DATA)) = (x - int BLOCK_DATA) mod 2 ^ 64"
    unfolding as_size_def take_bit_eq_mod [symmetric] by (rule take_bit_signed_take_bit) simp
  also have "\<dots> = (as_size x - int BLOCK_DATA) mod 2 ^ 64" by (simp add: as_size_def mod_diff_left_eq)
  also have "\<dots> = as_size x - int BLOCK_DATA"
    using assms as_size_bounds [of x] by (intro mod_pos_pos_trivial) auto
  finally show ?thesis .
qed

function write_loop ::
    "env \<Rightarrow> string \<Rightarrow> aofs \<Rightarrow> block \<Rightarrow> int \<Rightarrow> u8 list \<Rightarrow> int \<Rightarrow> int \<Rightarrow> fault + (int \<times> aofs)" where
  "write_loop e name disk b block_num buf offset bytes_written =
    (if buf = [] then Inr (bytes_written, disk)
     else if as_size offset > int BLOCK_DATA
     then and_then (read_block disk (next_block (dbm b))) (\<lambda>b1.
          write_loop e name disk b1 (next_block (dbm b)) buf (signed_take_bit 63 (offset - int BLOCK_DATA)) bytes_written)
     else let w = write_to_block buf b (length buf) offset; buf1 = drop (fst w) buf
          in and_then (follow_block e name disk (snd w) (buf1 \<noteq> [])) (\<lambda>(disk1, b1, nb).
             and_then (write_block disk1 block_num (touch e b1)) (\<lambda>disk2.
             write_loop e name disk2 nb (next_block (dbm b1)) buf1 0
               (bytes_written + int (fst w)))))"
  by pat_completeness auto

termination
proof (relation "measures [\<lambda>(e, name, disk, b, block_num, buf, offset, w). length buf,
    \<lambda>(e, name, disk, b, block_num, buf, offset, w). nat (as_size offset)]", goal_cases)
  case (2 e name disk b block_num buf offset bytes_written x)
  then show ?case using as_size_step [of offset] BLOCK_DATA_pos by simp
next
  case (3 e name disk b block_num buf offset bytes_written w x)
  have "0 < fst w \<or> as_size offset = int BLOCK_DATA"
    using write_to_block_progress [of buf offset b "fst w" "snd w"] 3 by simp
  then show ?case using 3 by (cases "fst w = 0") (auto simp: BLOCK_DATA_value as_size_def)
qed simp

declare write_loop.simps [simp del]

definition aofs_write_file ::
    "env \<Rightarrow> aofs \<Rightarrow> string \<Rightarrow> u8 list \<Rightarrow> int \<Rightarrow> fault + (int \<times> aofs)" where
  "aofs_write_file e disk name buf offset =
    and_then (aofs_find_file_head disk name) (\<lambda>r.
    and_then
      (case r of Some (n, b) \<Rightarrow> Inr (int n, b, disk)
       | None \<Rightarrow> and_then (aofs_create_file e disk name) (\<lambda>(n, disk1).
                 and_then (read_block disk1 n) (\<lambda>b. Inr (n, b, disk1))))
      (\<lambda>(block_num, b, disk1).
    let off = (if offset > st_size (dbm b) then st_size (dbm b) else offset);
        b1 = b\<lparr>dbm := (dbm b)\<lparr>st_size := int (length buf) + off\<rparr>\<rparr>
    in and_then (write_block disk1 block_num b1) (\<lambda>disk2.
       and_then (write_loop e name disk2 b1 block_num buf off 0) (\<lambda>(written, disk3).
       and_then (print_aofs disk3) (\<lambda>_. Inr (written, disk3))))))"

section \<open>Reading\<close>

text \<open>\<open>memcpy\<close> into the caller's buffer, whose size is the length of the list.\<close>

definition memcpy_at :: "int \<Rightarrow> u8 list \<Rightarrow> u8 list \<Rightarrow> fault + u8 list" where
  "memcpy_at pos src buf =
    (if 0 \<le> pos \<and> nat pos + length src \<le> length buf then Inr (overlay (nat pos) src buf)
     else Inl Overflow)"

text \<open>The loop to the first block to read; \<open>None\<close> is the early \<open>return 0\<close>.\<close>

fun seek_block :: "aofs \<Rightarrow> block \<Rightarrow> nat \<Rightarrow> fault + block option" where
  "seek_block disk cur 0 = Inr (Some cur)"
| "seek_block disk cur (Suc n) =
    (if next_block (dbm cur) < 0 then Inr None
     else and_then (read_block disk (next_block (dbm cur))) (\<lambda>cur1. seek_block disk cur1 n))"

text \<open>
  The loop over the full blocks between the first and the last, as it stands: block number \<open>i\<close>
  of them is copied to position \<open>block_offset + BLOCK_DATA * i\<close> of the buffer. The first
  component says that the chain ended early.
\<close>

fun read_middle ::
    "aofs \<Rightarrow> nat \<Rightarrow> nat \<Rightarrow> nat \<Rightarrow> block \<Rightarrow> u8 list \<Rightarrow> int \<Rightarrow> fault + (bool \<times> block \<times> u8 list \<times> int)" where
  "read_middle disk block_offset i 0 cur buf bytes_read = Inr (False, cur, buf, bytes_read)"
| "read_middle disk block_offset i (Suc n) cur buf bytes_read =
    (if next_block (dbm cur) < 0 then Inr (True, cur, buf, bytes_read)
     else and_then (read_block disk (next_block (dbm cur))) (\<lambda>cur1.
          and_then (memcpy_at (int (block_offset + BLOCK_DATA * i)) (data cur1) buf) (\<lambda>buf1.
          read_middle disk block_offset (Suc i) n cur1 buf1 (bytes_read + int BLOCK_DATA))))"

text \<open>
  The plan of a read: \<open>start_block\<close>, \<open>block_offset\<close>, \<open>num_blocks\<close>, \<open>size_f\<close>, \<open>size_l\<close>. The
  arithmetic is on \<open>size_t\<close> (64 bits, unsigned), its results stored into \<open>int\<close> where the code
  does; the byte counts come back as numbers.
\<close>

definition read_plan :: "nat \<Rightarrow> nat \<Rightarrow> nat \<times> nat \<times> int \<times> nat \<times> nat" where
  "read_plan sz offset =
    (let start_block = offset div BLOCK_DATA;
         block_offset = offset - start_block * BLOCK_DATA;
         num_blocks = signed_take_bit 31
           ((int block_offset + int sz - 1) mod 2 ^ 64 div int BLOCK_DATA);
         size_f = (if num_blocks = 0 then sz else BLOCK_DATA - block_offset);
         size_l = (if num_blocks = 0 then 0
                   else nat ((int sz - (int size_f + (num_blocks - 1) * int BLOCK_DATA)) mod 2 ^ 64))
     in (start_block, block_offset, num_blocks, size_f, size_l))"

definition aofs_read_file ::
    "env \<Rightarrow> aofs \<Rightarrow> string \<Rightarrow> u8 list \<Rightarrow> nat \<Rightarrow> fault + (int \<times> u8 list \<times> aofs)" where
  "aofs_read_file e disk path buf offset =
    and_then (aofs_find_file_head disk path) (\<lambda>r.
    case r of None \<Rightarrow> Inr (- ENOENT, buf, disk)
    | Some (head_block, cur0) \<Rightarrow>
      let cur = cur0\<lparr>dbm := (dbm cur0)\<lparr>st_atim := now e\<rparr>\<rparr> in
      and_then (write_block disk (int head_block) cur) (\<lambda>disk1.
      case read_plan (length buf) offset of (start_block, block_offset, num_blocks, size_f, size_l) \<Rightarrow>
      and_then (seek_block disk1 cur start_block) (\<lambda>c.
      case c of None \<Rightarrow> Inr (0, buf, disk1)
      | Some cur1 \<Rightarrow>
        and_then (memcpy_at 0 (take size_f (drop block_offset (data cur1))) buf) (\<lambda>buf1.
        and_then (read_middle disk1 block_offset 0 (nat (num_blocks - 1)) cur1 buf1 (int size_f))
          (\<lambda>(ended, cur2, buf2, bytes_read).
        if ended \<or> num_blocks \<le> 0 then Inr (bytes_read, buf2, disk1)
        else if next_block (dbm cur2) < 0 then Inr (bytes_read, buf2, disk1)
        else and_then (read_block disk1 (next_block (dbm cur2))) (\<lambda>cur3.
             and_then (memcpy_at (int block_offset + int BLOCK_DATA * num_blocks)
                         (take size_l (data cur3)) buf2) (\<lambda>buf3.
             Inr (bytes_read + int size_l, buf3, disk1))))))))"

section \<open>Truncating\<close>

text \<open>The loop to the last block to keep, with the number of that block.\<close>

fun seek_keep :: "aofs \<Rightarrow> int \<Rightarrow> block \<Rightarrow> nat \<Rightarrow> fault + (int \<times> block)" where
  "seek_keep disk prev cur 0 = Inr (prev, cur)"
| "seek_keep disk prev cur (Suc n) =
    and_then (read_block disk (next_block (dbm cur))) (\<lambda>cur1.
      seek_keep disk (next_block (dbm cur)) cur1 n)"

text \<open>The loop to the end of the chain.\<close>

fun seek_last :: "nat \<Rightarrow> aofs \<Rightarrow> int \<Rightarrow> block \<Rightarrow> fault + (int \<times> block)" where
  "seek_last 0 disk prev cur = (if next_block (dbm cur) = -1 then Inr (prev, cur) else Inl Diverges)"
| "seek_last (Suc fuel) disk prev cur =
    (if next_block (dbm cur) = -1 then Inr (prev, cur)
     else and_then (read_block disk (next_block (dbm cur))) (\<lambda>cur1.
          seek_last fuel disk (next_block (dbm cur)) cur1))"

text \<open>The loop that appends \<open>n\<close> empty blocks; the flag is \<open>False\<close> for the early \<open>return -1\<close>.\<close>

fun append_blocks :: "env \<Rightarrow> string \<Rightarrow> nat \<Rightarrow> aofs \<Rightarrow> int \<Rightarrow> block \<Rightarrow> fault + (bool \<times> aofs)" where
  "append_blocks e path 0 disk prev cur = Inr (True, disk)"
| "append_blocks e path (Suc n) disk prev cur =
    and_then (allocate_block e disk) (\<lambda>(b, disk1).
    if b = -1 then Inr (False, disk1)
    else and_then (write_block disk1 prev (cur\<lparr>dbm := (dbm cur)\<lparr>next_block := b\<rparr>\<rparr>)) (\<lambda>disk2.
         and_then (read_block disk2 b) (\<lambda>cur1.
         and_then (strcpy_filename (clear_block e cur1) path) (\<lambda>cur2.
         and_then (write_block disk2 b cur2) (\<lambda>disk3.
         append_blocks e path n disk3 b cur2)))))"

definition set_size :: "aofs \<Rightarrow> int \<Rightarrow> int \<Rightarrow> fault + (int \<times> aofs)" where
  "set_size disk file_head sz =
    and_then (read_block disk file_head) (\<lambda>cur.
    and_then (write_block disk file_head (cur\<lparr>dbm := (dbm cur)\<lparr>st_size := sz\<rparr>\<rparr>)) (\<lambda>disk1.
    and_then (print_aofs disk1) (\<lambda>_. Inr (0, disk1))))"

text \<open>The number of whole blocks, divided as \<open>size_t\<close> and stored into an \<open>int\<close>.\<close>

definition whole_blocks :: "int \<Rightarrow> int" where
  "whole_blocks x = signed_take_bit 31 (as_size x div int BLOCK_DATA)"

lemma whole_blocks_small:
  assumes "0 \<le> x" "x < 2 ^ 42"
  shows "whole_blocks x = x div int BLOCK_DATA" "as_size x = x"
proof -
  show a: "as_size x = x" using assms by (simp add: as_size_id)
  have "x div int BLOCK_DATA < 2 ^ 31" "0 \<le> x div int BLOCK_DATA"
    using assms by (simp_all add: BLOCK_DATA_value)
  then show "whole_blocks x = x div int BLOCK_DATA" by (simp add: whole_blocks_def a signed_take_bit_int_eq_self)
qed

definition aofs_truncate_file :: "env \<Rightarrow> aofs \<Rightarrow> string \<Rightarrow> int \<Rightarrow> fault + (int \<times> aofs)" where
  "aofs_truncate_file e disk path sz =
    and_then (aofs_find_file_head disk path) (\<lambda>r.
    case r of None \<Rightarrow> Inr (- ENOENT, disk)
    | Some (file_head, cur) \<Rightarrow>
      let cur_size = st_size (dbm cur);
          cur_blocks = whole_blocks cur_size;
          new_blocks = whole_blocks sz;
          block_offset = nat (as_size sz mod int BLOCK_DATA);
          diff_blocks = new_blocks - cur_blocks
      in if sz < cur_size then
           (if cur_blocks - new_blocks \<noteq> 0
            then and_then (seek_keep disk (int file_head) cur (nat new_blocks)) (\<lambda>(prev, cur1).
                 and_then (delete_chain e chain_fuel disk (next_block (dbm cur1))) (\<lambda>disk1.
                 and_then (write_block disk1 prev
                    (cur1\<lparr>dbm := (dbm cur1)\<lparr>next_block := -1\<rparr>,
                          data := overlay block_offset (replicate (BLOCK_DATA - block_offset) 0)
                                    (data cur1)\<rparr>)) (\<lambda>disk2.
                 set_size disk2 (int file_head) sz)))
            else set_size disk (int file_head) sz)
         else if sz > cur_size \<and> diff_blocks \<noteq> 0 then
           and_then (seek_last chain_fuel disk (int file_head) cur) (\<lambda>(prev, cur1).
           and_then (append_blocks e path (nat diff_blocks) disk prev cur1) (\<lambda>(ok, disk1).
           if ok then set_size disk1 (int file_head) sz else Inr (-1, disk1)))
         else set_size disk (int file_head) sz)"

end
