(* ===== verification/Aofs_Inv.thy ===== *)
theory Aofs_Inv
  imports Aofs_Files
begin

text \<open>
  What an AOFS image means: \<open>rep d F\<close> says that the image \<open>d\<close> holds exactly the files of \<open>F\<close>,
  which gives each name the chain of its blocks. The chains are disjoint, the bitmap is their
  union, and each is linked by \<open>next_block\<close> from its head to a last block with link -1. The
  theory has the lemmas that move \<open>rep\<close> along an operation on one file, and with them that
  looking up, creating and deleting a file implement lookup, insertion and removal on \<open>F\<close>.
\<close>

section \<open>Chains\<close>

fun seg :: "aofs \<Rightarrow> int \<Rightarrow> nat list \<Rightarrow> int \<Rightarrow> bool" where
  "seg d n [] m \<longleftrightarrow> n = m"
| "seg d n (i # c) m \<longleftrightarrow> n = int i \<and> i < BLOCK_NUM \<and> seg d (next_block (dbm (blk d i))) c m"

lemma seg_append: "seg d n (xs @ ys) m \<longleftrightarrow> (\<exists>k. seg d n xs k \<and> seg d k ys m)"
  by (induction xs arbitrary: n) auto

lemma seg_frame:
  "(\<And>i. i \<in> set c \<Longrightarrow> next_block (dbm (blk d' i)) = next_block (dbm (blk d i))) \<Longrightarrow>
    seg d' n c m \<longleftrightarrow> seg d n c m"
  by (induction c arbitrary: n) auto

lemma seg_lt: "seg d n c m \<Longrightarrow> i \<in> set c \<Longrightarrow> i < BLOCK_NUM"
  by (induction c arbitrary: n) auto

lemma seg_hd: "seg d n c m \<Longrightarrow> c \<noteq> [] \<Longrightarrow> n = int (hd c)"
  by (cases c) auto

definition content :: "aofs \<Rightarrow> nat list \<Rightarrow> u8 list" where
  "content d c = concat (map (\<lambda>i. data (blk d i)) c)"

lemma content_simps [simp]:
  "content d [] = []" "content d (i # c) = data (blk d i) @ content d c"
  "content d (c @ c') = content d c @ content d c'"
  by (simp_all add: content_def)

lemma content_frame: "(\<And>i. i \<in> set c \<Longrightarrow> blk d' i = blk d i) \<Longrightarrow> content d' c = content d c"
  by (simp add: content_def cong: map_cong)

lemma length_content:
  "shape d \<Longrightarrow> (\<And>i. i \<in> set c \<Longrightarrow> i < BLOCK_NUM) \<Longrightarrow> length (content d c) = BLOCK_DATA * length c"
  by (induction c) (auto simp: shape_data)

section \<open>Files and images\<close>

definition file_ok :: "aofs \<Rightarrow> string \<Rightarrow> nat list \<Rightarrow> bool" where
  "file_ok d f c \<longleftrightarrow> c \<noteq> [] \<and> distinct c \<and> seg d (int (hd c)) c (-1) \<and>
    is_head (dbm (blk d (hd c))) \<and> filename (dbm (blk d (hd c))) = f \<and>
    (\<forall>i\<in>set (tl c). \<not> is_head (dbm (blk d i)))"

definition chain_of :: "(string \<Rightarrow> nat list option) \<Rightarrow> string \<Rightarrow> nat set" where
  "chain_of F f = (case F f of None \<Rightarrow> {} | Some c \<Rightarrow> set c)"

definition rep :: "aofs \<Rightarrow> (string \<Rightarrow> nat list option) \<Rightarrow> bool" where
  "rep d F \<longleftrightarrow> shape d \<and> (\<forall>f c. F f = Some c \<longrightarrow> file_ok d f c) \<and>
    (\<forall>f g. f \<noteq> g \<longrightarrow> chain_of F f \<inter> chain_of F g = {}) \<and>
    (\<forall>i<BLOCK_NUM. used d i \<longleftrightarrow> (\<exists>f. i \<in> chain_of F f))"

lemma repI:
  "shape d \<Longrightarrow> (\<And>f c. F f = Some c \<Longrightarrow> file_ok d f c) \<Longrightarrow>
    (\<And>f g i. f \<noteq> g \<Longrightarrow> i \<in> chain_of F f \<Longrightarrow> i \<notin> chain_of F g) \<Longrightarrow>
    (\<And>i. i < BLOCK_NUM \<Longrightarrow> used d i \<longleftrightarrow> (\<exists>f. i \<in> chain_of F f)) \<Longrightarrow> rep d F"
  unfolding rep_def by blast

lemma rep_shape: "rep d F \<Longrightarrow> shape d"
  by (simp add: rep_def)

lemma rep_file: "rep d F \<Longrightarrow> F f = Some c \<Longrightarrow> file_ok d f c"
  by (simp add: rep_def)

lemma rep_used: "rep d F \<Longrightarrow> i < BLOCK_NUM \<Longrightarrow> used d i \<longleftrightarrow> (\<exists>f. i \<in> chain_of F f)"
  by (simp add: rep_def)

lemma rep_disjoint: "rep d F \<Longrightarrow> i \<in> chain_of F f \<Longrightarrow> i \<in> chain_of F g \<Longrightarrow> f = g"
  unfolding rep_def by blast

lemma file_ok_lt: "file_ok d f c \<Longrightarrow> i \<in> set c \<Longrightarrow> i < BLOCK_NUM"
  by (auto simp: file_ok_def dest: seg_lt)

lemma file_ok_hd: "file_ok d f c \<Longrightarrow> hd c \<in> set c"
  by (simp add: file_ok_def)

lemma file_ok_frame:
  "file_ok d f c \<Longrightarrow> (\<And>i. i \<in> set c \<Longrightarrow> blk d' i = blk d i) \<Longrightarrow> file_ok d' f c"
  using seg_frame [of c d' d] by (auto simp: file_ok_def list.set_sel)

lemma rep_chain_lt: "rep d F \<Longrightarrow> i \<in> chain_of F f \<Longrightarrow> i < BLOCK_NUM"
  by (auto simp: chain_of_def dest: rep_file file_ok_lt split: option.splits)

lemma rep_chain_used: "rep d F \<Longrightarrow> i \<in> chain_of F f \<Longrightarrow> used d i"
  using rep_chain_lt rep_used by blast

lemma rep_free: "rep d F \<Longrightarrow> i \<in> free_blocks d \<Longrightarrow> i \<notin> chain_of F f"
  using rep_chain_used by (auto simp: free_blocks_def)

text \<open>
  The two frame rules: an operation that changes only blocks of \<open>f\<close> and free ones leaves the
  other files as they are.
\<close>

lemma rep_other_files:
  assumes rep: "rep d F"
    and same: "\<forall>i<BLOCK_NUM. used d i \<longrightarrow> i \<notin> chain_of F f \<longrightarrow> blk d' i = blk d i"
    and g: "g \<noteq> f" "F g = Some c"
  shows "file_ok d' g c" and "content d' c = content d c"
    and "st_size (dbm (blk d' (hd c))) = st_size (dbm (blk d (hd c)))"
proof -
  have blk: "blk d' i = blk d i" if "i \<in> set c" for i
  proof -
    have i: "i \<in> chain_of F g" using that g by (simp add: chain_of_def)
    then have "i < BLOCK_NUM" "used d i" "i \<notin> chain_of F f"
      using rep g(1) by (auto dest: rep_chain_lt rep_chain_used rep_disjoint)
    then show ?thesis using same by simp
  qed
  show "file_ok d' g c" using rep_file [OF rep g(2)] blk by (rule file_ok_frame)
  show "content d' c = content d c" using blk by (rule content_frame)
  show "st_size (dbm (blk d' (hd c))) = st_size (dbm (blk d (hd c)))"
    using blk file_ok_hd [OF rep_file [OF rep g(2)]] by simp
qed

lemma rep_update:
  assumes rep: "rep d F" and shape: "shape d'" and fok: "file_ok d' f c'"
    and new: "set c' \<subseteq> chain_of F f \<union> free_blocks d"
    and used': "\<forall>i<BLOCK_NUM. used d' i \<longleftrightarrow> i \<in> set c' \<or> (used d i \<and> i \<notin> chain_of F f)"
    and same: "\<forall>i<BLOCK_NUM. used d i \<longrightarrow> i \<notin> chain_of F f \<longrightarrow> blk d' i = blk d i"
  shows "rep d' (F(f \<mapsto> c'))"
proof -
  have chains: "chain_of (F(f \<mapsto> c')) g = (if g = f then set c' else chain_of F g)" for g
    by (simp add: chain_of_def)
  have disj: "set c' \<inter> chain_of F g = {}" if "g \<noteq> f" for g
    using new that rep_disjoint [OF rep] rep_free [OF rep] by blast
  have files: "file_ok d' g c" if "(F(f \<mapsto> c')) g = Some c" for g c
    using that fok rep_other_files(1) [OF rep same] by (auto split: if_splits)
  have "used d' i \<longleftrightarrow> (\<exists>g. i \<in> chain_of (F(f \<mapsto> c')) g)" if "i < BLOCK_NUM" for i
    using that used' rep_used [OF rep that] rep_disjoint [OF rep] unfolding chains by (metis)
  moreover have "i \<notin> chain_of (F(f \<mapsto> c')) h"
    if "g \<noteq> h" "i \<in> chain_of (F(f \<mapsto> c')) g" for g h i
    using that disj [of g] disj [of h] rep_disjoint [OF rep] unfolding chains
    by (auto split: if_splits)
  ultimately show ?thesis using repI [OF shape files] by blast
qed

lemma rep_remove:
  assumes rep: "rep d F" and shape: "shape d'"
    and used': "\<forall>i<BLOCK_NUM. used d' i \<longleftrightarrow> used d i \<and> i \<notin> chain_of F f"
    and same: "\<forall>i<BLOCK_NUM. used d i \<longrightarrow> i \<notin> chain_of F f \<longrightarrow> blk d' i = blk d i"
  shows "rep d' (F(f := None))"
proof -
  have chains: "chain_of (F(f := None)) g = (if g = f then {} else chain_of F g)" for g
    by (simp add: chain_of_def)
  have files: "file_ok d' g c" if "(F(f := None)) g = Some c" for g c
    using that rep_other_files(1) [OF rep same] by (auto split: if_splits)
  have "used d' i \<longleftrightarrow> (\<exists>g. i \<in> chain_of (F(f := None)) g)" if "i < BLOCK_NUM" for i
    using that used' rep_used [OF rep that] rep_disjoint [OF rep] unfolding chains
    by (metis empty_iff)
  moreover have "i \<notin> chain_of (F(f := None)) h"
    if "g \<noteq> h" "i \<in> chain_of (F(f := None)) g" for g h i
    using that rep_disjoint [OF rep] unfolding chains by (auto split: if_splits)
  ultimately show ?thesis using repI [OF shape files] by blast
qed

section \<open>Looking up a file\<close>

definition head_named :: "aofs \<Rightarrow> string \<Rightarrow> nat \<Rightarrow> bool" where
  "head_named d f i \<longleftrightarrow> used d i \<and> is_head (dbm (blk d i)) \<and> filename (dbm (blk d i)) = f"

lemma find_head_from_Suc:
  "shape d \<Longrightarrow> i < BLOCK_NUM \<Longrightarrow>
    find_head_from d f i (Suc n) =
      (if head_named d f i then Inr (Some (i, blk d i)) else find_head_from d f (Suc i) n)"
  by (simp add: head_named_def used_def in_use_def read_block_ok)

lemma find_head_from_None:
  "shape d \<Longrightarrow> i + n \<le> BLOCK_NUM \<Longrightarrow> (\<And>j. i \<le> j \<Longrightarrow> j < i + n \<Longrightarrow> \<not> head_named d f j) \<Longrightarrow>
    find_head_from d f i n = Inr None"
  by (induction n arbitrary: i) (simp_all add: find_head_from_Suc del: find_head_from.simps(2))

lemma find_head_from_Some:
  "shape d \<Longrightarrow> i + n \<le> BLOCK_NUM \<Longrightarrow> i \<le> k \<Longrightarrow> k < i + n \<Longrightarrow>
    (\<And>j. head_named d f j \<longleftrightarrow> j = k) \<Longrightarrow> find_head_from d f i n = Inr (Some (k, blk d k))"
proof (induction n arbitrary: i)
  case (Suc n)
  then show ?case
    by (cases "i = k") (simp_all add: find_head_from_Suc del: find_head_from.simps(2))
qed simp

lemma rep_head_named:
  assumes rep: "rep d F" and "i < BLOCK_NUM"
  shows "head_named d f i \<longleftrightarrow> (\<exists>c. F f = Some c \<and> i = hd c)"
proof
  assume head: "head_named d f i"
  then obtain g c where g: "F g = Some c" "i \<in> set c"
    using rep_used [OF rep \<open>i < BLOCK_NUM\<close>]
    by (auto simp: head_named_def chain_of_def split: option.splits)
  note ok = rep_file [OF rep g(1)]
  then have "i = hd c" using g(2) head
    by (cases c) (auto simp: file_ok_def head_named_def)
  then show "\<exists>c. F f = Some c \<and> i = hd c"
    using ok g head by (auto simp: file_ok_def head_named_def)
next
  assume "\<exists>c. F f = Some c \<and> i = hd c"
  then obtain c where c: "F f = Some c" "i = hd c" by blast
  note ok = rep_file [OF rep c(1)]
  have "i \<in> chain_of F f" using file_ok_hd [OF ok] c by (simp add: chain_of_def)
  then show "head_named d f i"
    using rep_chain_used [OF rep] ok c(2) by (auto simp: head_named_def file_ok_def)
qed

lemma find_file_head_rep:
  assumes rep: "rep d F"
  shows "aofs_find_file_head d f =
    Inr (case F f of None \<Rightarrow> None | Some c \<Rightarrow> Some (hd c, blk d (hd c)))"
proof (cases "F f")
  case None
  then show ?thesis
    using find_head_from_None [OF rep_shape [OF rep], of 0 BLOCK_NUM f] rep_head_named [OF rep]
    by (simp add: aofs_find_file_head_def)
next
  case (Some c)
  note ok = rep_file [OF rep Some]
  have hd: "hd c < BLOCK_NUM" using ok file_ok_hd file_ok_lt by blast
  have heads: "head_named d f j \<longleftrightarrow> j = hd c" if "j < BLOCK_NUM" for j
    using rep_head_named [OF rep that, of f] Some by simp
  have "find_head_from d f i n = Inr (Some (hd c, blk d (hd c)))"
    if "i + n \<le> BLOCK_NUM" "i \<le> hd c" "hd c < i + n" for i n
    using that
  proof (induction n arbitrary: i)
    case (Suc n)
    then show ?case
      using heads by (cases "i = hd c")
        (simp_all add: find_head_from_Suc [OF rep_shape [OF rep]] del: find_head_from.simps(2))
  qed simp
  from this [of 0 BLOCK_NUM] show ?thesis
    using hd Some by (simp add: aofs_find_file_head_def)
qed

section \<open>Printing does not fault\<close>

lemma print_aofs_from_ok: "shape d \<Longrightarrow> b + n \<le> BLOCK_NUM \<Longrightarrow> \<exists>out. print_aofs_from d b n = Inr out"
proof (induction n arbitrary: b)
  case (Suc n)
  then obtain out where "print_aofs_from d (Suc b) n = Inr out" by fastforce
  then show ?case using Suc.prems by (simp add: read_block_ok)
qed simp

lemma print_aofs_ok: "shape d \<Longrightarrow> \<exists>out. print_aofs d = Inr out"
  using print_aofs_from_ok [of d 0 BLOCK_NUM] by (simp add: print_aofs_def shape_def)

section \<open>Creating a file\<close>

definition new_head :: "env \<Rightarrow> string \<Rightarrow> block" where
  "new_head e f = (let b = clear_block e (stack_block e)
    in b\<lparr>dbm := (dbm b)\<lparr>filename := f, is_head := True\<rparr>\<rparr>)"

lemma create_file_rep:
  assumes rep: "rep d F" and new: "F f = None" and len: "length f < 256"
    and free: "free_blocks d \<noteq> {}"
  obtains n d' where "aofs_create_file e d f = Inr (int n, d')" and "rep d' (F(f \<mapsto> [n]))"
    and "n \<in> free_blocks d" and "blk d' n = new_head e f" and "\<forall>j. j \<noteq> n \<longrightarrow> blk d' j = blk d j"
    and "free_blocks d' = free_blocks d - {n}"
proof -
  obtain n d1 where a: "allocate_block e d = Inr (int n, d1)" "n \<in> free_blocks d"
      "\<forall>j\<in>free_blocks d. n \<le> j" "shape d1" "free_blocks d1 = free_blocks d - {n}"
      "\<forall>j<BLOCK_NUM. used d1 j \<longleftrightarrow> j = n \<or> used d j"
      "blk d1 n = clear_block e (stack_block e)" "\<forall>j. j \<noteq> n \<longrightarrow> blk d1 j = blk d j"
    by (rule allocate_block_free [OF rep_shape [OF rep] free])
  let ?d' = "upd_blk d1 n (new_head e f)"
  have n: "n < BLOCK_NUM" using a(2) by (simp add: free_blocks_def)
  have nh: "length (data (new_head e f)) = BLOCK_DATA" "next_block (dbm (new_head e f)) = -1"
    "is_head (dbm (new_head e f))" "filename (dbm (new_head e f)) = f"
    by (simp_all add: new_head_def Let_def)
  have res: "aofs_create_file e d f = Inr (int n, ?d')"
    using a n len
    by (simp add: aofs_create_file_def strcpy_filename_def write_block_ok new_head_def Let_def)
  have same: "blk ?d' j = blk d j" if "j \<noteq> n" for j
    using that a n by (simp add: blk_upd_blk)
  have blk_n: "blk ?d' n = new_head e f" using a n by (simp add: blk_upd_blk)
  have "rep ?d' (F(f \<mapsto> [n]))"
  proof (rule rep_update [OF rep])
    show "shape ?d'" using a nh by (simp add: shape_upd_blk)
    show "file_ok ?d' f [n]" using n nh blk_n by (simp add: file_ok_def)
    show "set [n] \<subseteq> chain_of F f \<union> free_blocks d" using a by simp
    show "\<forall>i<BLOCK_NUM. used ?d' i \<longleftrightarrow> i \<in> set [n] \<or> used d i \<and> i \<notin> chain_of F f"
      using a new by (simp add: chain_of_def)
    have "used d i \<Longrightarrow> blk ?d' i = blk d i" for i
      using same [of i] a(2) by (auto simp: free_blocks_def)
    then show "\<forall>i<BLOCK_NUM. used d i \<longrightarrow> i \<notin> chain_of F f \<longrightarrow> blk ?d' i = blk d i" by simp
  qed
  from res this a(2) blk_n show thesis by (rule that) (use a same in simp_all)
qed

section \<open>Deleting a file\<close>

lemma delete_chain_seg:
  assumes "shape d" and "seg d n c (-1)" and "distinct c" and "length c \<le> fuel"
  obtains d' where "delete_chain e fuel d n = Inr d'" and "shape d'"
    and "\<forall>i<BLOCK_NUM. used d' i \<longleftrightarrow> used d i \<and> i \<notin> set c"
    and "\<forall>i. i \<notin> set c \<longrightarrow> blk d' i = blk d i"
  using assms
proof (induction c arbitrary: d n fuel thesis)
  case Nil
  then show ?case by (cases fuel) simp_all
next
  case (Cons i c)
  from Cons.prems(5) obtain fuel' where fuel: "fuel = Suc fuel'" by (cases fuel) simp_all
  have i: "n = int i" "i < BLOCK_NUM" "i \<notin> set c" using Cons.prems by simp_all
  obtain d1 where a: "deallocate_block e d (int i) = Inr (next_block (dbm (blk d i)), d1)"
      "shape d1" "\<forall>j<BLOCK_NUM. used d1 j \<longleftrightarrow> j \<noteq> i \<and> used d j"
      "free_blocks d1 = insert i (free_blocks d)" "blk d1 i = clear_block e (blk d i)"
      "\<forall>j. j \<noteq> i \<longrightarrow> blk d1 j = blk d j"
    by (rule deallocate_block_ok [OF Cons.prems(2) i(2)])
  have "next_block (dbm (blk d1 j)) = next_block (dbm (blk d j))" if "j \<in> set c" for j
    using a(6) i(3) that by auto
  then have "seg d1 (next_block (dbm (blk d i))) c (-1)"
    using Cons.prems(3) seg_frame [of c d1 d] by simp
  from Cons.IH [OF _ a(2) this] obtain d'
    where d': "delete_chain e fuel' d1 (next_block (dbm (blk d i))) = Inr d'" "shape d'"
      "\<forall>j<BLOCK_NUM. used d' j \<longleftrightarrow> used d1 j \<and> j \<notin> set c"
      "\<forall>j. j \<notin> set c \<longrightarrow> blk d' j = blk d1 j"
    using Cons.prems(4,5) fuel by (metis Suc_le_mono distinct.simps(2) length_Cons)
  show ?case
    by (rule Cons.prems(1) [of d']) (use a d' fuel i in auto)
qed

lemma seg_length_le:
  assumes "seg d n c m" and "distinct c"
  shows "length c \<le> BLOCK_NUM"
proof -
  have "set c \<subseteq> {..<BLOCK_NUM}" using assms(1) seg_lt by blast
  then show ?thesis
    using card_mono [of "{..<BLOCK_NUM}" "set c"] distinct_card [OF assms(2)] by simp
qed

lemma delete_file_rep:
  assumes rep: "rep d F" and f: "F f = Some c"
  obtains d' where "aofs_delete_file e d f = Inr (0, d')" and "rep d' (F(f := None))"
    and "\<forall>i. i \<notin> set c \<longrightarrow> blk d' i = blk d i"
    and "free_blocks d' = free_blocks d \<union> set c"
proof -
  note ok = rep_file [OF rep f]
  have seg: "seg d (int (hd c)) c (-1)" "distinct c" using ok by (simp_all add: file_ok_def)
  have len: "length c \<le> chain_fuel" using seg_length_le [OF seg] by (simp add: chain_fuel_def)
  obtain d' where d': "delete_chain e chain_fuel d (int (hd c)) = Inr d'" "shape d'"
      "\<forall>i<BLOCK_NUM. used d' i \<longleftrightarrow> used d i \<and> i \<notin> set c"
      "\<forall>i. i \<notin> set c \<longrightarrow> blk d' i = blk d i"
    by (rule delete_chain_seg [OF rep_shape [OF rep] seg len])
  have c: "chain_of F f = set c" using f by (simp add: chain_of_def)
  have "aofs_delete_file e d f = Inr (0, d')"
    using d'(1) f by (simp add: aofs_delete_file_def find_file_head_rep [OF rep])
  moreover have "rep d' (F(f := None))"
    by (rule rep_remove [OF rep d'(2)]) (use d' c in simp_all)
  moreover have "free_blocks d' = free_blocks d \<union> set c"
    using d'(3) file_ok_lt [OF ok] by (auto simp: free_blocks_def)
  ultimately show thesis using d'(4) by (intro that)
qed

end
