(* ===== verification/Aofs_Write.thy ===== *)
theory Aofs_Write
  imports Aofs_Inv
begin

text \<open>
  The write loop of \<open>aofs_write_file\<close>: on a chain of \<open>d\<close> it lays the buffer over the bytes of the
  chain at the offset, appending zeroed blocks from the free ones while bytes remain, and leaves
  every other block as it was.
\<close>

text \<open>What a write keeps of a block: its head mark, its size field and, in a head, its name.\<close>

definition keeps :: "block \<Rightarrow> block \<Rightarrow> bool" where
  "keeps a b \<longleftrightarrow> is_head (dbm b) = is_head (dbm a) \<and> st_size (dbm b) = st_size (dbm a) \<and>
    (is_head (dbm a) \<longrightarrow> filename (dbm b) = filename (dbm a))"

lemma keeps_refl [simp]: "keeps a a"
  by (simp add: keeps_def)

lemma keeps_trans: "keeps a b \<Longrightarrow> keeps b c \<Longrightarrow> keeps a c"
  by (simp add: keeps_def)

text \<open>The copy of block \<open>cur\<close> in memory differs from the disk at most in the name of a tail.\<close>

definition copy_of :: "aofs \<Rightarrow> nat \<Rightarrow> block \<Rightarrow> bool" where
  "copy_of d cur b \<longleftrightarrow> keeps (blk d cur) b \<and> data b = data (blk d cur) \<and>
    next_block (dbm b) = next_block (dbm (blk d cur))"

lemma copy_of_self [simp]: "copy_of d i (blk d i)"
  by (simp add: copy_of_def)

definition on_chain :: "aofs \<Rightarrow> nat list \<Rightarrow> bool" where
  "on_chain d cs \<longleftrightarrow> cs \<noteq> [] \<and> seg d (int (hd cs)) cs (-1) \<and> distinct cs \<and> (\<forall>i\<in>set cs. used d i)"

definition wrote :: "aofs \<Rightarrow> aofs \<Rightarrow> nat list \<Rightarrow> nat list \<Rightarrow> nat \<Rightarrow> u8 list \<Rightarrow> bool" where
  "wrote d d' cs new off buf \<longleftrightarrow>
    shape d' \<and> seg d' (int (hd cs)) (cs @ new) (-1) \<and> distinct (cs @ new) \<and>
    set new \<subseteq> free_blocks d \<and> (\<forall>i<BLOCK_NUM. used d' i \<longleftrightarrow> used d i \<or> i \<in> set new) \<and>
    (\<forall>i. i \<notin> set (cs @ new) \<longrightarrow> blk d' i = blk d i) \<and>
    (\<forall>i\<in>set cs. keeps (blk d i) (blk d' i)) \<and> (\<forall>i\<in>set new. \<not> is_head (dbm (blk d' i))) \<and>
    content d' (cs @ new) = overlay off buf (content d cs @ replicate (BLOCK_DATA * length new) 0)"

section \<open>One turn of the loop\<close>

text \<open>Going on from the next block of the chain.\<close>

lemma wrote_next:
  assumes w: "wrote d2 d' (r # rs) new off2 buf2" and shape: "shape d"
    and chain: "on_chain d (cur # r # rs)" and d2: "d2 = upd_blk d cur B"
    and B: "keeps (blk d cur) B" "next_block (dbm B) = int r"
    and bytes: "\<And>X. data B @ overlay off2 buf2 X = overlay off buf (data (blk d cur) @ X)"
  shows "wrote d d' (cur # r # rs) new off buf"
proof -
  have cur: "cur < BLOCK_NUM" "cur \<notin> set (r # rs)" "used d cur"
    using chain by (auto simp: on_chain_def)
  have blk2: "blk d2 i = (if i = cur then B else blk d i)" for i
    using blk_upd_blk [OF shape cur(1)] d2 by simp
  have new: "set new \<subseteq> free_blocks d" and "cur \<notin> set new"
    using w cur(3) d2 by (auto simp: wrote_def free_blocks_def)
  then have out: "cur \<notin> set ((r # rs) @ new)" using cur by auto
  then have blk_cur: "blk d' cur = B" using w blk2 by (auto simp: wrote_def)
  have "content d2 (r # rs) = content d (r # rs)"
    using cur(2) blk2 by (intro content_frame) auto
  then have "content d' ((cur # r # rs) @ new) =
      overlay off buf (content d (cur # r # rs) @ replicate (BLOCK_DATA * length new) 0)"
    using w blk_cur bytes by (simp add: wrote_def)
  moreover have "\<forall>i. i \<notin> set ((cur # r # rs) @ new) \<longrightarrow> blk d' i = blk d i"
    using w blk2 by (auto simp: wrote_def)
  moreover have "keeps (blk d i) (blk d' i)" if "i \<in> set (cur # r # rs)" for i
  proof (cases "i = cur")
    case False
    then have "keeps (blk d2 i) (blk d' i)" using w that by (auto simp: wrote_def)
    then show ?thesis using blk2 [of i] False by simp
  qed (simp add: blk_cur B(1))
  moreover have "seg d' (int cur) ((cur # r # rs) @ new) (-1)"
    using w blk_cur B(2) cur(1) by (simp add: wrote_def)
  ultimately show ?thesis
    using w new out d2 unfolding wrote_def by simp
qed

text \<open>Going on from a block just appended.\<close>

lemma wrote_append:
  assumes w: "wrote d2 d' [n] new 0 buf2" and shape: "shape d" and chain: "on_chain d [cur]"
    and n: "n \<in> free_blocks d" "free_blocks d2 = free_blocks d - {n}"
    and used2: "\<forall>i<BLOCK_NUM. used d2 i \<longleftrightarrow> i = n \<or> used d i"
    and blk2: "blk d2 cur = B" "data (blk d2 n) = replicate BLOCK_DATA 0"
      "\<not> is_head (dbm (blk d2 n))" "\<forall>i. i \<noteq> n \<longrightarrow> i \<noteq> cur \<longrightarrow> blk d2 i = blk d i"
    and B: "keeps (blk d cur) B" "next_block (dbm B) = int n"
    and bytes: "\<And>X. data B @ overlay 0 buf2 X = overlay off buf (data (blk d cur) @ X)"
  shows "wrote d d' [cur] (n # new) off buf"
proof -
  have cur: "cur < BLOCK_NUM" "used d cur" using chain by (auto simp: on_chain_def)
  have ncur: "n \<noteq> cur" and n_lt: "n < BLOCK_NUM" using n(1) cur by (auto simp: free_blocks_def)
  have new: "set new \<subseteq> free_blocks d - {n}" using w n(2) by (simp add: wrote_def)
  then have out: "cur \<notin> set ([n] @ new)" using cur ncur by (auto simp: free_blocks_def)
  then have blk_cur: "blk d' cur = B" using w blk2(1) by (auto simp: wrote_def)
  have head_n: "\<not> is_head (dbm (blk d' n))" using w blk2(3) by (auto simp: wrote_def keeps_def)
  have "content d' ([cur] @ n # new) =
      overlay off buf (content d [cur] @ replicate (BLOCK_DATA * length (n # new)) 0)"
    using w blk_cur bytes blk2(2) by (simp add: wrote_def replicate_add)
  moreover have "\<forall>i. i \<notin> set ([cur] @ n # new) \<longrightarrow> blk d' i = blk d i"
    using w blk2(4) by (auto simp: wrote_def)
  moreover have "\<forall>i<BLOCK_NUM. used d' i \<longleftrightarrow> used d i \<or> i \<in> set (n # new)"
    using w used2 by (auto simp: wrote_def)
  moreover have "seg d' (int cur) ([cur] @ n # new) (-1)"
    using w blk_cur B(2) cur(1) by (simp add: wrote_def)
  moreover have "shape d'" "distinct ([cur] @ n # new)" "\<forall>i\<in>set (n # new). \<not> is_head (dbm (blk d' i))"
    using w out head_n by (auto simp: wrote_def)
  ultimately show ?thesis
    using n(1) new blk_cur B(1) unfolding wrote_def by auto
qed

text \<open>The last turn: the remaining bytes fit the current block.\<close>

lemma wrote_last:
  assumes shape: "shape d" and chain: "on_chain d (cur # rs)" and d': "d' = upd_blk d cur B"
    and B: "keeps (blk d cur) B" "next_block (dbm B) = next_block (dbm (blk d cur))"
      "data B = overlay off buf (data (blk d cur))"
    and fit: "off + length buf \<le> BLOCK_DATA"
  shows "wrote d d' (cur # rs) [] off buf"
proof -
  have cur: "cur < BLOCK_NUM" "cur \<notin> set rs" using chain by (auto simp: on_chain_def)
  have len: "length (data (blk d cur)) = BLOCK_DATA" using shape cur(1) by (rule shape_data)
  have blk': "blk d' i = (if i = cur then B else blk d i)" for i
    using blk_upd_blk [OF shape cur(1)] d' by simp
  have "content d' rs = content d rs" using cur(2) blk' by (intro content_frame) auto
  moreover have "shape d'" using shape d' len B(3) fit by (simp add: shape_upd_blk)
  moreover have "next_block (dbm (blk d' i)) = next_block (dbm (blk d i))" for i
    using blk' B(2) by simp
  then have "seg d' (int cur) (cur # rs) (-1)"
    using chain seg_frame [of "cur # rs" d' d] by (auto simp: on_chain_def)
  ultimately show ?thesis
    using chain d' blk' B fit len by (auto simp: wrote_def on_chain_def overlay_append_left)
qed

lemma small_offset: "0 \<le> off \<Longrightarrow> off \<le> int BLOCK_DATA \<Longrightarrow> as_size off = off"
  by (rule as_size_id) (simp_all add: BLOCK_DATA_value)

lemma write_to_block_fst:
  assumes "0 \<le> off" and "off \<le> int BLOCK_DATA"
  shows "fst (write_to_block buf b (length buf) off) = min (length buf) (BLOCK_DATA - nat off)"
  using assms by (auto simp: write_to_block_def Let_def small_offset)

lemma write_to_block_snd:
  assumes "0 \<le> off" and "off \<le> int BLOCK_DATA"
  shows "snd (write_to_block buf b (length buf) off) =
    b\<lparr>data := overlay (nat off) (take (BLOCK_DATA - nat off) buf) (data b)\<rparr>"
  using assms by (auto simp: write_to_block_def Let_def not_less small_offset)

lemma follow_block_last:
  "\<exists>nb. follow_block e name d b False = Inr (d, b, nb)"
  by (simp add: follow_block_def split: sum.splits)

lemma follow_block_next:
  "shape d \<Longrightarrow> next_block (dbm b) = int r \<Longrightarrow> r < BLOCK_NUM \<Longrightarrow>
    follow_block e name d b again = Inr (d, b, blk d r)"
  by (simp add: follow_block_def read_block_ok)

lemma on_chain_upd:
  assumes "on_chain d cs" and "shape d" and "cur < BLOCK_NUM" and "cur \<notin> set cs"
  shows "on_chain (upd_blk d cur B) cs"
proof -
  have "blk (upd_blk d cur B) i = blk d i" if "i \<in> set cs" for i
    using that assms by (auto simp: blk_upd_blk)
  then show ?thesis using assms seg_frame [of cs "upd_blk d cur B" d] by (simp add: on_chain_def)
qed

lemma follow_block_new:
  assumes "shape d" and "free_blocks d \<noteq> {}" and "next_block (dbm b) = -1" and "length name < 256"
  obtains n d1 nb where "follow_block e name d b True =
      Inr (d1, b\<lparr>dbm := (dbm b)\<lparr>next_block := int n\<rparr>\<rparr>, nb)"
    and "shape d1" and "n \<in> free_blocks d" and "free_blocks d1 = free_blocks d - {n}"
    and "\<forall>j<BLOCK_NUM. used d1 j \<longleftrightarrow> j = n \<or> used d j"
    and "blk d1 n = clear_block e (stack_block e)" and "copy_of d1 n nb"
    and "\<forall>j. j \<noteq> n \<longrightarrow> blk d1 j = blk d j"
proof -
  obtain n d1 where a: "allocate_block e d = Inr (int n, d1)" "n \<in> free_blocks d"
      "\<forall>j\<in>free_blocks d. n \<le> j" "shape d1" "free_blocks d1 = free_blocks d - {n}"
      "\<forall>j<BLOCK_NUM. used d1 j \<longleftrightarrow> j = n \<or> used d j"
      "blk d1 n = clear_block e (stack_block e)" "\<forall>j. j \<noteq> n \<longrightarrow> blk d1 j = blk d j"
    by (rule allocate_block_free [OF assms(1,2)])
  let ?nb = "blk d1 n\<lparr>dbm := (dbm (blk d1 n))\<lparr>filename := name\<rparr>\<rparr>"
  have "n < BLOCK_NUM" using a(2) by (simp add: free_blocks_def)
  then have "follow_block e name d b True =
      Inr (d1, b\<lparr>dbm := (dbm b)\<lparr>next_block := int n\<rparr>\<rparr>, ?nb)"
    using a assms by (simp add: follow_block_def read_block_ok strcpy_filename_def)
  moreover have "copy_of d1 n ?nb" using a(7) by (simp add: copy_of_def keeps_def)
  ultimately show thesis using a by (intro that)
qed

section \<open>The loop\<close>

theorem write_loop_wrote:
  assumes "shape d" and "on_chain d (cur # rs)" and "copy_of d cur b"
    and "0 \<le> off" and "nat off \<le> BLOCK_DATA * length (cur # rs)"
    and "nat off + length buf \<le> BLOCK_DATA * (length (cur # rs) + card (free_blocks d))"
    and "length name < 256"
  shows "\<exists>d' new. write_loop e name d b (int cur) buf off w = Inr (w + int (length buf), d') \<and>
    wrote d d' (cur # rs) new (nat off) buf"
  using assms
proof (induction "length buf + nat off" arbitrary: d cur rs b off buf w rule: less_induct)
  case less
  note shape = less.prems(1) and chain = less.prems(2) and copy = less.prems(3)
  have cur: "cur < BLOCK_NUM" "cur \<notin> set rs" "used d cur" "distinct (cur # rs)"
    using chain by (auto simp: on_chain_def)
  have len: "length (data (blk d cur)) = BLOCK_DATA" using shape cur(1) by (rule shape_data)
  have next_b: "next_block (dbm b) = next_block (dbm (blk d cur))"
    using copy by (simp add: copy_of_def)
  have next_r: "next_block (dbm (blk d cur)) = int r \<and> r < BLOCK_NUM \<and> on_chain d (r # rs')"
    if "rs = r # rs'" for r rs'
    using chain that by (auto simp: on_chain_def)
  have "length (cur # rs) \<le> BLOCK_NUM" using chain unfolding on_chain_def by (blast intro: seg_length_le)
  then have "BLOCK_DATA * length (cur # rs) \<le> BLOCK_DATA * BLOCK_NUM" by (rule mult_le_mono2)
  then have "nat off \<le> BLOCK_DATA * BLOCK_NUM" using less.prems(5) by linarith
  then have "off < 2 ^ 62" using less.prems(4) by (simp add: BLOCK_DATA_value BLOCK_NUM_def)
  then have off: "as_size off = off" "signed_take_bit 63 (off - int BLOCK_DATA) = off - int BLOCK_DATA"
    using less.prems(4) by (simp_all add: as_size_id BLOCK_DATA_value signed_take_bit_int_eq_self)
  consider (empty) "buf = []" | (skip) "buf \<noteq> []" "int BLOCK_DATA < off"
    | (store) "buf \<noteq> []" "off \<le> int BLOCK_DATA" by linarith
  then show ?case
  proof cases
    case empty
    have "wrote d d (cur # rs) [] (nat off) buf"
      using shape chain empty by (simp add: wrote_def on_chain_def)
    then show ?thesis using empty by (auto simp: write_loop.simps [of e name d b])
  next
    case skip
    then have "rs \<noteq> []" using less.prems(4,5) by (cases rs) auto
    then obtain r rs' where rs: "rs = r # rs'" by (cases rs) auto
    note r = next_r [OF rs]
    have res: "write_loop e name d b (int cur) buf off w =
        write_loop e name d (blk d r) (int r) buf (off - int BLOCK_DATA) w"
      using skip r next_b shape by (simp add: write_loop.simps [of e name d b] read_block_ok off)
    have "\<exists>d' new. write_loop e name d (blk d r) (int r) buf (off - int BLOCK_DATA) w
          = Inr (w + int (length buf), d') \<and> wrote d d' (r # rs') new (nat (off - int BLOCK_DATA)) buf"
      by (rule less.hyps) (use skip r rs less.prems shape in \<open>simp_all add: nat_diff_distrib\<close>)
    then obtain d' new where d': "write_loop e name d b (int cur) buf off w
          = Inr (w + int (length buf), d')" "wrote d d' (r # rs') new (nat (off - int BLOCK_DATA)) buf"
      using res by auto
    have "nat off = BLOCK_DATA + nat (off - int BLOCK_DATA)" using skip by linarith
    then have "wrote d d' (cur # rs) new (nat off) buf"
      unfolding rs
      by (intro wrote_next [OF d'(2) shape chain [unfolded rs], of "blk d cur"])
        (use r len overlay_append_right [of "data (blk d cur)"] in
          \<open>simp_all add: upd_blk_def blk_def\<close>)
    then show ?thesis using d'(1) by blast
  next
    case store
    let ?k = "BLOCK_DATA - nat off"
    let ?b1 = "b\<lparr>data := overlay (nat off) (take ?k buf) (data b)\<rparr>"
    let ?buf1 = "drop ?k buf"
    have k: "nat off + ?k = BLOCK_DATA" using store less.prems(4) by linarith
    have drop_min: "drop (min (length buf) ?k) buf = ?buf1" by (simp add: min_def)
    have res: "write_loop e name d b (int cur) buf off w =
        and_then (follow_block e name d ?b1 (?buf1 \<noteq> [])) (\<lambda>(d1, b2, nb).
        and_then (write_block d1 (int cur) (touch e b2)) (\<lambda>d2.
        write_loop e name d2 nb (next_block (dbm b2)) ?buf1 0
          (w + int (min (length buf) ?k))))"
      using store less.prems(4) drop_min
      by (simp add: write_loop.simps [of e name d b] write_to_block_fst write_to_block_snd Let_def off
          del: of_nat_min drop_eq_Nil drop_eq_Nil2)
    have data_b: "data b = data (blk d cur)" using copy by (simp add: copy_of_def)
    have keep1: "keeps (blk d cur) (touch e (?b1\<lparr>dbm := (dbm ?b1)\<lparr>next_block := n\<rparr>\<rparr>))" for n
      using copy by (simp add: copy_of_def keeps_def touch_def)
    have keep0: "keeps (blk d cur) (touch e ?b1)"
      using copy by (simp add: copy_of_def keeps_def touch_def)
    have split: "overlay (nat off) (take ?k buf) (data (blk d cur)) @ overlay 0 ?buf1 X =
        overlay (nat off) buf (data (blk d cur) @ X)" if "?buf1 \<noteq> []" for X
      using that k len by (intro overlay_append_split [symmetric]) simp_all
    show ?thesis
    proof (cases "?buf1 = []")
      case True
      obtain nb where "follow_block e name d ?b1 False = Inr (d, ?b1, nb)"
        using follow_block_last by blast
      then have "write_loop e name d b (int cur) buf off w =
          Inr (w + int (length buf), upd_blk d cur (touch e ?b1))"
        using res True shape cur(1)
        by (simp add: write_block_ok write_loop.simps [of _ _ _ _ _ "[]"])
      moreover have "wrote d (upd_blk d cur (touch e ?b1)) (cur # rs) [] (nat off) buf"
        by (rule wrote_last [OF shape chain refl keep0])
          (use True k data_b next_b in \<open>simp_all add: touch_def\<close>)
      ultimately show ?thesis by blast
    next
      case more: False
      then have less_k: "?k < length buf" by simp
      show ?thesis
      proof (cases rs)
        case (Cons r rs')
        note r = next_r [OF Cons]
        let ?d2 = "upd_blk d cur (touch e ?b1)"
        have shape2: "shape ?d2"
          using shape data_b len k by (intro shape_upd_blk) (simp_all add: touch_def)
        have blk_r: "blk ?d2 r = blk d r" using shape cur(1,2) Cons by (simp add: blk_upd_blk)
        have "\<exists>d' new. write_loop e name ?d2 (blk d r) (int r) ?buf1 0 (w + int ?k)
            = Inr ((w + int ?k) + int (length ?buf1), d') \<and> wrote ?d2 d' (r # rs') new (nat 0) ?buf1"
        proof (rule less.hyps)
          show "on_chain ?d2 (r # rs')" using r shape cur Cons by (intro on_chain_upd) simp_all
          show "length ?buf1 + nat 0 < length buf + nat off"
            using less_k k BLOCK_DATA_pos unfolding length_drop by linarith
          show "copy_of ?d2 r (blk d r)" using blk_r copy_of_self by metis
        qed (use shape2 less_k k less.prems(6,7) Cons in simp_all)
        then obtain d' new where "wrote ?d2 d' (r # rs') new 0 ?buf1"
            "write_loop e name ?d2 (blk d r) (int r) ?buf1 0 (w + int ?k)
              = Inr (w + int (length buf), d')"
          using less_k by auto
        moreover have "write_loop e name d b (int cur) buf off w =
            write_loop e name ?d2 (blk d r) (int r) ?buf1 0 (w + int ?k)"
          using res more r next_b shape cur(1) less_k
          by (simp add: follow_block_next write_block_ok del: drop_eq_Nil drop_eq_Nil2)
        moreover have "wrote d d' (cur # rs) new (nat off) buf"
          unfolding Cons
          by (rule wrote_next [OF calculation(1) shape chain [unfolded Cons] refl keep0])
            (use r next_b data_b split more in \<open>simp_all add: touch_def\<close>)
        ultimately show ?thesis by auto
      next
        case Nil
        have "free_blocks d \<noteq> {}" using less.prems(6) Nil less_k k by auto
        moreover have "next_block (dbm ?b1) = -1" using chain next_b Nil by (simp add: on_chain_def)
        ultimately obtain n d1 nb where a: "follow_block e name d ?b1 True =
              Inr (d1, ?b1\<lparr>dbm := (dbm ?b1)\<lparr>next_block := int n\<rparr>\<rparr>, nb)"
            "shape d1" "n \<in> free_blocks d" "free_blocks d1 = free_blocks d - {n}"
            "\<forall>j<BLOCK_NUM. used d1 j \<longleftrightarrow> j = n \<or> used d j"
            "blk d1 n = clear_block e (stack_block e)" "copy_of d1 n nb"
            "\<forall>j. j \<noteq> n \<longrightarrow> blk d1 j = blk d j"
          by (rule follow_block_new [OF shape _ _ less.prems(7)])
        let ?B = "touch e (?b1\<lparr>dbm := (dbm ?b1)\<lparr>next_block := int n\<rparr>\<rparr>)"
        let ?d2 = "upd_blk d1 cur ?B"
        have n: "n < BLOCK_NUM" "n \<noteq> cur" using a(3) cur by (auto simp: free_blocks_def)
        have shape2: "shape ?d2"
          using a(2) data_b len k by (intro shape_upd_blk) (simp_all add: touch_def)
        have blk2: "blk ?d2 i = (if i = cur then ?B else blk d1 i)" for i
          using a(2) cur(1) by (simp add: blk_upd_blk)
        have "\<exists>d' new. write_loop e name ?d2 nb (int n) ?buf1 0 (w + int ?k)
            = Inr ((w + int ?k) + int (length ?buf1), d') \<and> wrote ?d2 d' [n] new (nat 0) ?buf1"
        proof (rule less.hyps)
          show "on_chain ?d2 [n]" using n a(5,6) blk2 by (simp add: on_chain_def)
          show "length ?buf1 + nat 0 < length buf + nat off"
            using less_k k BLOCK_DATA_pos unfolding length_drop by linarith
          show "copy_of ?d2 n nb" using a(7) blk2 n(2) by (simp add: copy_of_def)
          have "card (free_blocks d) = Suc (card (free_blocks ?d2))"
            using a(3,4) by (metis card_Suc_Diff1 finite_free_blocks free_blocks_upd_blk)
          then show "nat 0 + length ?buf1 \<le> BLOCK_DATA * (length [n] + card (free_blocks ?d2))"
            using less.prems(6) Nil less_k k by simp
        qed (use shape2 less_k k less.prems(7) Nil in simp_all)
        then obtain d' new where d': "wrote ?d2 d' [n] new 0 ?buf1"
            "write_loop e name ?d2 nb (int n) ?buf1 0 (w + int ?k) = Inr (w + int (length buf), d')"
          using less_k by auto
        moreover have "write_loop e name d b (int cur) buf off w =
            write_loop e name ?d2 nb (int n) ?buf1 0 (w + int ?k)"
          using res more a(1,2) cur(1) less_k
          by (simp add: write_block_ok del: drop_eq_Nil drop_eq_Nil2)
        moreover have "wrote d d' (cur # rs) (n # new) (nat off) buf"
          unfolding Nil
        proof (rule wrote_append [OF d'(1) shape chain [unfolded Nil] a(3) _ _ _ _ _ _ keep1])
          show "blk ?d2 cur = ?B" using blk2 by simp
          show "free_blocks ?d2 = free_blocks d - {n}" using a(4) by simp
          show "\<forall>i<BLOCK_NUM. used ?d2 i \<longleftrightarrow> i = n \<or> used d i" using a(5) by simp
          show "data ?B @ overlay 0 ?buf1 X = overlay (nat off) buf (data (blk d cur) @ X)" for X
            using split [OF more] data_b by (simp add: touch_def)
        qed (use a n blk2 in \<open>simp_all add: touch_def\<close>)
        ultimately show ?thesis by auto
      qed
    qed
  qed
qed

end
