(* ===== verification/Aofs_Spec.thy ===== *)
theory Aofs_Spec
  imports Aofs_Write
begin

text \<open>
  The abstract file system: a map from names to byte strings. \<open>fs_ok d F\<close> adds to \<open>rep\<close> that
  the size field of every file is covered by its blocks; \<open>abs_fs d F\<close> reads off each file the
  first \<open>st_size\<close> bytes of its chain. Creating, deleting and writing refine map operations.
\<close>

section \<open>Abstraction\<close>

definition size_field :: "aofs \<Rightarrow> nat list \<Rightarrow> int" where
  "size_field d c = st_size (dbm (blk d (hd c)))"

definition bytes_of :: "aofs \<Rightarrow> nat list \<Rightarrow> u8 list" where
  "bytes_of d c = take (nat (size_field d c)) (content d c)"

definition covered :: "aofs \<Rightarrow> nat list \<Rightarrow> bool" where
  "covered d c \<longleftrightarrow> 0 \<le> size_field d c \<and> size_field d c \<le> int (BLOCK_DATA * length c)"

definition fs_ok :: "aofs \<Rightarrow> (string \<Rightarrow> nat list option) \<Rightarrow> bool" where
  "fs_ok d F \<longleftrightarrow> rep d F \<and> (\<forall>f c. F f = Some c \<longrightarrow> covered d c)"

definition abs_fs :: "aofs \<Rightarrow> (string \<Rightarrow> nat list option) \<Rightarrow> string \<Rightarrow> u8 list option" where
  "abs_fs d F f = map_option (bytes_of d) (F f)"

lemma fs_okD: "fs_ok d F \<Longrightarrow> rep d F" "fs_ok d F \<Longrightarrow> F f = Some c \<Longrightarrow> covered d c"
  by (simp_all add: fs_ok_def)

lemma length_chain_content: "rep d F \<Longrightarrow> F f = Some c \<Longrightarrow> length (content d c) = BLOCK_DATA * length c"
  by (meson file_ok_lt length_content rep_file rep_shape)

lemma length_bytes_of:
  assumes "fs_ok d F" and "F f = Some c"
  shows "length (bytes_of d c) = nat (size_field d c)"
proof -
  have "nat (size_field d c) \<le> BLOCK_DATA * length c"
    using fs_okD(2) [OF assms] unfolding covered_def by linarith
  then show ?thesis
    using length_chain_content [OF fs_okD(1) [OF assms(1)] assms(2)] by (simp add: bytes_of_def)
qed

lemma fs_ok_update:
  assumes ok: "fs_ok d F" and shape: "shape d'" and fok: "file_ok d' f c'" and cov: "covered d' c'"
    and new: "set c' \<subseteq> chain_of F f \<union> free_blocks d"
    and used': "\<forall>i<BLOCK_NUM. used d' i \<longleftrightarrow> i \<in> set c' \<or> (used d i \<and> i \<notin> chain_of F f)"
    and same: "\<forall>i<BLOCK_NUM. used d i \<longrightarrow> i \<notin> chain_of F f \<longrightarrow> blk d' i = blk d i"
  shows "fs_ok d' (F(f \<mapsto> c'))" and "abs_fs d' (F(f \<mapsto> c')) = (abs_fs d F)(f \<mapsto> bytes_of d' c')"
proof -
  note rep = fs_okD(1) [OF ok]
  have other: "size_field d' c = size_field d c \<and> content d' c = content d c"
    if "g \<noteq> f" "F g = Some c" for g c
    using rep_other_files(2,3) [OF rep same that] by (simp add: size_field_def)
  show "abs_fs d' (F(f \<mapsto> c')) = (abs_fs d F)(f \<mapsto> bytes_of d' c')"
  proof (rule ext)
    fix g
    show "abs_fs d' (F(f \<mapsto> c')) g = ((abs_fs d F)(f \<mapsto> bytes_of d' c')) g"
    proof (cases "F g")
      case (Some c)
      then show ?thesis using other [of g c] by (cases "g = f") (simp_all add: abs_fs_def bytes_of_def)
    qed (simp add: abs_fs_def)
  qed
  show "fs_ok d' (F(f \<mapsto> c'))"
    unfolding fs_ok_def
  proof (intro conjI allI impI)
    show "rep d' (F(f \<mapsto> c'))" by (rule rep_update [OF rep shape fok new used' same])
    show "covered d' c" if "(F(f \<mapsto> c')) g = Some c" for g c
      using that cov other [of g c] fs_okD(2) [OF ok, of g c]
      by (cases "g = f") (simp_all add: covered_def)
  qed
qed

lemma fs_ok_remove:
  assumes ok: "fs_ok d F" and shape: "shape d'"
    and used': "\<forall>i<BLOCK_NUM. used d' i \<longleftrightarrow> used d i \<and> i \<notin> chain_of F f"
    and same: "\<forall>i<BLOCK_NUM. used d i \<longrightarrow> i \<notin> chain_of F f \<longrightarrow> blk d' i = blk d i"
  shows "fs_ok d' (F(f := None))" and "abs_fs d' (F(f := None)) = (abs_fs d F)(f := None)"
proof -
  note rep = fs_okD(1) [OF ok]
  have other: "size_field d' c = size_field d c \<and> content d' c = content d c"
    if "g \<noteq> f" "F g = Some c" for g c
    using rep_other_files(2,3) [OF rep same that] by (simp add: size_field_def)
  show "abs_fs d' (F(f := None)) = (abs_fs d F)(f := None)"
  proof (rule ext)
    fix g
    show "abs_fs d' (F(f := None)) g = ((abs_fs d F)(f := None)) g"
    proof (cases "F g")
      case (Some c)
      then show ?thesis using other [of g c] by (cases "g = f") (simp_all add: abs_fs_def bytes_of_def)
    qed (simp add: abs_fs_def)
  qed
  show "fs_ok d' (F(f := None))"
    unfolding fs_ok_def
  proof (intro conjI allI impI)
    show "rep d' (F(f := None))" by (rule rep_remove [OF rep shape used' same])
    show "covered d' c" if "(F(f := None)) g = Some c" for g c
      using that other [of g c] fs_okD(2) [OF ok, of g c]
      by (cases "g = f") (simp_all add: covered_def)
  qed
qed

section \<open>A fresh image\<close>

text \<open>\<open>init_fs\<close> on any structure with \<open>BLOCK_NUM\<close> blocks gives the empty file system.\<close>

lemma in_use_zero: "i < 8 * n \<Longrightarrow> \<not> in_use (replicate n 0) i"
  by (simp add: in_use_def bit_at_def Let_def less_mult_imp_div_less mult.commute)

lemma init_fs_shape: "length (blocks fs) = BLOCK_NUM \<Longrightarrow> shape (init_fs e fs)"
  by (auto simp: shape_def init_fs_def BITMAP_SIZE_def)

lemma init_fs_used: "i < BLOCK_NUM \<Longrightarrow> \<not> used (init_fs e fs) i"
  using BLOCK_NUM_le by (simp add: used_def init_fs_def in_use_zero)

lemma init_fs_free: "free_blocks (init_fs e fs) = {..<BLOCK_NUM}"
  using init_fs_used by (auto simp: free_blocks_def)

lemma init_fs_ok: "length (blocks fs) = BLOCK_NUM \<Longrightarrow> fs_ok (init_fs e fs) Map.empty"
  using init_fs_shape init_fs_used by (simp add: fs_ok_def rep_def chain_of_def)

section \<open>Creating and deleting\<close>

lemma create_file_ok:
  assumes ok: "fs_ok d F" and new: "F f = None" and len: "length f < 256"
    and free: "free_blocks d \<noteq> {}"
  obtains n d' where "aofs_create_file e d f = Inr (int n, d')" and "fs_ok d' (F(f \<mapsto> [n]))"
    and "abs_fs d' (F(f \<mapsto> [n])) = (abs_fs d F)(f \<mapsto> [])" and "n \<in> free_blocks d"
    and "free_blocks d' = free_blocks d - {n}" and "blk d' n = new_head e f"
proof -
  note rep = fs_okD(1) [OF ok]
  obtain n d' where c: "aofs_create_file e d f = Inr (int n, d')" "rep d' (F(f \<mapsto> [n]))"
      "n \<in> free_blocks d" "blk d' n = new_head e f" "\<forall>j. j \<noteq> n \<longrightarrow> blk d' j = blk d j"
      "free_blocks d' = free_blocks d - {n}"
    by (rule create_file_rep [OF rep new len free])
  have size0: "size_field d' [n] = 0" using c(4) by (simp add: size_field_def new_head_def Let_def)
  have none: "chain_of F f = {}" using new by (simp add: chain_of_def)
  have n: "n < BLOCK_NUM" "\<not> used d n" using c(3) by (simp_all add: free_blocks_def)
  have used': "\<forall>i<BLOCK_NUM. used d' i \<longleftrightarrow> i \<in> set [n] \<or> (used d i \<and> i \<notin> chain_of F f)"
    using c(6) none n by (auto simp: free_blocks_def)
  have "fs_ok d' (F(f \<mapsto> [n]))" "abs_fs d' (F(f \<mapsto> [n])) = (abs_fs d F)(f \<mapsto> bytes_of d' [n])"
    by (rule fs_ok_update [OF ok rep_shape [OF c(2)] rep_file [OF c(2)] _ _ used'];
        use size0 c n in \<open>auto simp: covered_def\<close>)+
  moreover have "bytes_of d' [n] = []" using size0 by (simp add: bytes_of_def)
  ultimately show thesis using c by (intro that) simp_all
qed

lemma delete_file_ok:
  assumes ok: "fs_ok d F" and f: "F f = Some c"
  obtains d' where "aofs_delete_file e d f = Inr (0, d')" and "fs_ok d' (F(f := None))"
    and "abs_fs d' (F(f := None)) = (abs_fs d F)(f := None)"
    and "free_blocks d' = free_blocks d \<union> set c"
proof -
  note rep = fs_okD(1) [OF ok]
  obtain d' where c: "aofs_delete_file e d f = Inr (0, d')" "rep d' (F(f := None))"
      "\<forall>i. i \<notin> set c \<longrightarrow> blk d' i = blk d i" "free_blocks d' = free_blocks d \<union> set c"
    by (rule delete_file_rep [OF rep f])
  have ch: "chain_of F f = set c" using f by (simp add: chain_of_def)
  have used': "\<forall>i<BLOCK_NUM. used d' i \<longleftrightarrow> used d i \<and> i \<notin> chain_of F f"
    using c(4) ch by (auto simp: free_blocks_def)
  show thesis
    by (rule that [OF c(1) _ _ c(4)])
      (rule fs_ok_remove [OF ok rep_shape [OF c(2)] used']; use c(3) ch in simp)+
qed

section \<open>Writing\<close>

lemma wrote_file_ok:
  assumes w: "wrote d d' c new off buf" and fok: "file_ok d f c"
  shows "file_ok d' f (c @ new)"
proof -
  have c: "c \<noteq> []" using fok by (simp add: file_ok_def)
  then have hd: "hd c \<in> set c" "tl (c @ new) = tl c @ new" "hd (c @ new) = hd c" by simp_all
  have "keeps (blk d i) (blk d' i)" if "i \<in> set c" for i using w that by (simp add: wrote_def)
  then have "is_head (dbm (blk d' i)) = is_head (dbm (blk d i))"
      "is_head (dbm (blk d i)) \<Longrightarrow> filename (dbm (blk d' i)) = filename (dbm (blk d i))"
    if "i \<in> set c" for i using that by (simp_all add: keeps_def)
  then show ?thesis
    using w fok c hd by (auto simp: file_ok_def wrote_def dest: list.set_sel(2))
qed

lemma take_overlay:
  "off \<le> length xs \<Longrightarrow> take (off + length buf) (overlay off buf xs) = take off xs @ buf"
  by (simp add: overlay_def)

lemma write_existing_ok:
  assumes ok: "fs_ok d F" and f: "F f = Some c" and off: "0 \<le> offset" and len: "length f < 256"
    and off': "off = min (nat offset) (nat (size_field d c))"
    and room: "off + length buf \<le> BLOCK_DATA * (length c + card (free_blocks d))"
  obtains d' new where "aofs_write_file e d f buf offset = Inr (int (length buf), d')"
    and "fs_ok d' (F(f \<mapsto> c @ new))"
    and "abs_fs d' (F(f \<mapsto> c @ new)) = (abs_fs d F)(f \<mapsto> take off (bytes_of d c) @ buf)"
proof -
  note rep = fs_okD(1) [OF ok] and cov = fs_okD(2) [OF ok f]
  note fok = rep_file [OF rep f] and shape = rep_shape [OF rep]
  have hd: "hd c \<in> set c" "hd c < BLOCK_NUM" using fok file_ok_hd file_ok_lt by blast+
  have ch: "chain_of F f = set c" using f by (simp add: chain_of_def)
  have c: "c = hd c # tl c" "distinct c" using fok by (simp_all add: file_ok_def)
  define b where "b = blk d (hd c)"
  define b1 where "b1 = b\<lparr>dbm := (dbm b)\<lparr>st_size := int (length buf) + int off\<rparr>\<rparr>"
  define d2 where "d2 = upd_blk d (hd c) b1"
  have off_eq: "(if offset > st_size (dbm b) then st_size (dbm b) else offset) = int off"
    using off off' cov by (auto simp: b_def covered_def size_field_def)
  have blk2: "blk d2 i = (if i = hd c then b1 else blk d i)" for i
    using shape hd by (simp add: d2_def blk_upd_blk)
  have shape2: "shape d2"
    using shape hd(2) by (simp add: d2_def b1_def b_def shape_upd_blk shape_data)
  have cont2: "content d2 c = content d c"
    unfolding content_def using blk2 by (intro arg_cong [of _ _ concat]) (simp add: b1_def b_def)
  have "next_block (dbm (blk d2 i)) = next_block (dbm (blk d i))"
      "is_head (dbm (blk d2 i)) = is_head (dbm (blk d i))"
      "filename (dbm (blk d2 i)) = filename (dbm (blk d i))" for i
    using blk2 by (simp_all add: b1_def b_def)
  then have fok2: "file_ok d2 f c"
    using fok seg_frame [of c d2 d] by (simp add: file_ok_def)
  have used_c: "used d i" if "i \<in> set c" for i
    using rep_chain_used [OF rep, of i f] that ch by simp
  have chain2: "on_chain d2 (hd c # tl c)"
    using fok2 used_c c by (simp add: on_chain_def file_ok_def d2_def)
  have copy2: "copy_of d2 (hd c) b1" using blk2 [of "hd c"] copy_of_self [of d2 "hd c"] by simp
  have off_c: "off \<le> BLOCK_DATA * length c" using off' cov unfolding covered_def by linarith
  have len_hd: "length (hd c # tl c) = length c" using c(1) by metis
  have "\<exists>d3 new. write_loop e f d2 b1 (int (hd c)) buf (int off) 0 = Inr (0 + int (length buf), d3) \<and>
      wrote d2 d3 (hd c # tl c) new (nat (int off)) buf"
    by (rule write_loop_wrote [OF shape2 chain2 copy2], unfold len_hd)
      (use off_c room len in \<open>simp_all add: d2_def\<close>)
  then obtain d3 new where loop: "write_loop e f d2 b1 (int (hd c)) buf (int off) 0
        = Inr (int (length buf), d3)" and w: "wrote d2 d3 c new off buf"
    unfolding c(1) [symmetric] by auto
  have new: "set new \<subseteq> free_blocks d" using w by (simp add: wrote_def d2_def)
  have size3: "size_field d3 (c @ new) = int (length buf) + int off"
  proof -
    have "hd (c @ new) = hd c" using fok by (simp add: file_ok_def)
    moreover have "keeps (blk d2 (hd c)) (blk d3 (hd c))" using w hd(1) by (simp add: wrote_def)
    ultimately show ?thesis using blk2 by (simp add: keeps_def size_field_def b1_def)
  qed
  have cont3: "content d3 (c @ new) = overlay off buf (content d c @ replicate (BLOCK_DATA * length new) 0)"
    using w cont2 by (simp add: wrote_def)
  have len_c: "length (content d c) = BLOCK_DATA * length c"
    using length_chain_content [OF rep f] .
  have off_le: "off \<le> length (content d c)" using off_c len_c by simp
  have "take (nat (int (length buf) + int off)) (content d3 (c @ new)) = take off (content d c) @ buf"
    using take_overlay [of off "content d c @ replicate (BLOCK_DATA * length new) 0" buf] off_le
    unfolding cont3 by (simp add: nat_int_add add.commute)
  moreover have "min off (nat (size_field d c)) = off" unfolding off' by simp
  ultimately have bytes: "bytes_of d3 (c @ new) = take off (bytes_of d c) @ buf"
    unfolding bytes_of_def size3 take_take by simp
  have cov3: "covered d3 (c @ new)"
  proof -
    have "length (take (off + length buf) (content d3 (c @ new))) = off + length buf"
      using take_overlay [of off "content d c @ replicate (BLOCK_DATA * length new) 0" buf] off_le
      unfolding cont3 by simp
    moreover have "length (content d3 (c @ new)) = BLOCK_DATA * length (c @ new)"
      using w wrote_file_ok [OF w fok2] by (intro length_content) (auto simp: wrote_def file_ok_lt)
    ultimately have "off + length buf \<le> BLOCK_DATA * length (c @ new)"
      unfolding length_take by linarith
    then show ?thesis unfolding covered_def size3 by linarith
  qed
  have "shape d3" using w by (simp add: wrote_def)
  then obtain out where out: "print_aofs d3 = Inr out" using print_aofs_ok by blast
  have "aofs_write_file e d f buf offset = Inr (int (length buf), d3)"
    using f hd(2) shape loop out
    by (simp add: aofs_write_file_def find_file_head_rep [OF rep] Let_def write_block_ok
        b_def [symmetric] off_eq b1_def [symmetric] d2_def [symmetric] split del: if_split)
  moreover have "set (c @ new) \<subseteq> chain_of F f \<union> free_blocks d" using new ch by auto
  moreover have "\<forall>i<BLOCK_NUM. used d3 i \<longleftrightarrow> i \<in> set (c @ new) \<or> used d i \<and> i \<notin> chain_of F f"
    using w ch used_c by (auto simp: wrote_def d2_def)
  moreover have "blk d3 i = blk d i" if "used d i" "i \<notin> chain_of F f" for i
  proof -
    have "i \<notin> set (c @ new)" using that new ch by (auto simp: free_blocks_def)
    moreover from this have "blk d3 i = blk d2 i" using w by (simp add: wrote_def)
    ultimately show ?thesis using blk2 [of i] hd(1) by auto
  qed
  ultimately have "aofs_write_file e d f buf offset = Inr (int (length buf), d3)"
      "fs_ok d3 (F(f \<mapsto> c @ new))"
      "abs_fs d3 (F(f \<mapsto> c @ new)) = (abs_fs d F)(f \<mapsto> bytes_of d3 (c @ new))"
    using fs_ok_update [OF ok \<open>shape d3\<close> wrote_file_ok [OF w fok2] cov3] by blast+
  then show thesis using bytes by (intro that) simp_all
qed

end
