(* ===== verification/Aofs_Read.thy ===== *)
theory Aofs_Read
  imports Aofs_Spec
begin

text \<open>
  What \<open>aofs_read_file\<close> puts into the caller's buffer. A read that stays in one block, or
  starts at a block boundary and takes at most two blocks, returns the bytes of the chain; every
  read across a boundary from inside a block writes past the end of the buffer; an aligned read
  of three blocks returns the second block first.
\<close>

section \<open>Following the chain\<close>

lemma seek_block_seg:
  "shape d \<Longrightarrow> seg d (int i) (i # c) (-1) \<Longrightarrow> n \<le> length c \<Longrightarrow>
    seek_block d (blk d i) n = Inr (Some (blk d ((i # c) ! n)))"
proof (induction n arbitrary: i c)
  case (Suc n)
  then obtain j c' where "c = j # c'" by (cases c) auto
  then show ?case using Suc by (simp add: read_block_ok)
qed simp

lemma drop_content:
  assumes "shape d" and "\<And>i. i \<in> set c \<Longrightarrow> i < BLOCK_NUM" and "k < length c" and "bo \<le> BLOCK_DATA"
  shows "drop (BLOCK_DATA * k + bo) (content d c) =
    drop bo (data (blk d (c ! k))) @ content d (drop (Suc k) c)"
  using assms
proof (induction c arbitrary: k)
  case (Cons i c)
  have "length (data (blk d i)) = BLOCK_DATA" using Cons.prems by (simp add: shape_data)
  then show ?case using Cons by (cases k) simp_all
qed simp

section \<open>The plan of a read\<close>

lemma read_plan_eq:
  assumes "0 < n" and "n < 2 ^ 31 - BLOCK_DATA"
  shows "read_plan n offset =
    (let bo = offset mod BLOCK_DATA; nb = (bo + n - 1) div BLOCK_DATA
     in (offset div BLOCK_DATA, bo, int nb, if nb = 0 then n else BLOCK_DATA - bo,
         if nb = 0 then 0 else bo + n - nb * BLOCK_DATA))"
proof -
  define bo where "bo = offset mod BLOCK_DATA"
  define nb where "nb = (bo + n - 1) div BLOCK_DATA"
  have bo: "offset - offset div BLOCK_DATA * BLOCK_DATA = bo" "bo < BLOCK_DATA"
    by (simp_all add: bo_def minus_div_mult_eq_mod)
  have lt: "bo + n - 1 < 2 ^ 31" using bo(2) assms by linarith
  have arg: "int bo + int n - 1 = int (bo + n - 1)" using assms(1) by simp
  have "int (bo + n - 1) mod 2 ^ 64 = int (bo + n - 1)" using lt by simp
  moreover have "nb \<le> bo + n - 1" by (simp add: nb_def)
  then have "signed_take_bit 31 (int nb) = int nb"
    using lt by (intro signed_take_bit_int_eq_self) simp_all
  ultimately have blocks: "signed_take_bit 31 ((int bo + int n - 1) mod 2 ^ 64 div int BLOCK_DATA) = int nb"
    unfolding arg by (simp add: nb_def zdiv_int)
  have last: "nat ((int n - (int (BLOCK_DATA - bo) + (int nb - 1) * int BLOCK_DATA)) mod 2 ^ 64) =
      bo + n - nb * BLOCK_DATA" if "nb \<noteq> 0"
  proof -
    have "nb * BLOCK_DATA \<le> bo + n - 1" by (simp add: nb_def)
    moreover have "int (BLOCK_DATA - bo) = int BLOCK_DATA - int bo" using bo(2) by simp
    moreover have "int (bo + n - nb * BLOCK_DATA) = int bo + int n - int nb * int BLOCK_DATA"
      using calculation(1) assms(1) by (simp add: of_nat_diff)
    ultimately have "int n - (int (BLOCK_DATA - bo) + (int nb - 1) * int BLOCK_DATA) =
        int (bo + n - nb * BLOCK_DATA)"
      by (simp only: left_diff_distrib mult_1)
    moreover have "int (bo + n - nb * BLOCK_DATA) mod 2 ^ 64 = int (bo + n - nb * BLOCK_DATA)"
      using lt by simp
    ultimately show ?thesis by (simp only: nat_int)
  qed
  show ?thesis
    unfolding read_plan_def Let_def bo blocks bo_def [symmetric] nb_def [symmetric]
    using last by auto
qed

section \<open>Reads that work\<close>

text \<open>The state after the access time is stamped is an image of the same files.\<close>

definition stamp :: "env \<Rightarrow> aofs \<Rightarrow> nat \<Rightarrow> aofs" where
  "stamp e d h = upd_blk d h (blk d h\<lparr>dbm := (dbm (blk d h))\<lparr>st_atim := now e\<rparr>\<rparr>)"

lemma stamp_blk:
  assumes "shape d" and "h < BLOCK_NUM"
  shows "data (blk (stamp e d h) i) = data (blk d i)"
    and "next_block (dbm (blk (stamp e d h) i)) = next_block (dbm (blk d i))"
    and "keeps (blk d i) (blk (stamp e d h) i)"
    and "shape (stamp e d h)"
  using assms by (simp_all add: stamp_def blk_upd_blk keeps_def shape_upd_blk shape_data)

lemma stamp_ok:
  assumes ok: "fs_ok d F" and f: "F f = Some c"
  shows "fs_ok (stamp e d (hd c)) F" and "abs_fs (stamp e d (hd c)) F = abs_fs d F"
    and "content (stamp e d (hd c)) c = content d c"
proof -
  let ?d = "stamp e d (hd c)"
  note rep = fs_okD(1) [OF ok] and fok = rep_file [OF fs_okD(1) [OF ok] f]
  have hd: "hd c < BLOCK_NUM" using fok file_ok_hd file_ok_lt by blast
  note st = stamp_blk [OF rep_shape [OF rep] hd, where e = e]
  have keeps: "is_head (dbm (blk ?d i)) = is_head (dbm (blk d i))"
      "st_size (dbm (blk ?d i)) = st_size (dbm (blk d i))"
      "is_head (dbm (blk d i)) \<Longrightarrow> filename (dbm (blk ?d i)) = filename (dbm (blk d i))" for i
    using st(3) [of i] by (simp_all add: keeps_def)
  show content: "content ?d c = content d c" by (simp add: content_def st(1))
  have fok': "file_ok ?d f c" using fok seg_frame [of c ?d d] st(2) keeps by (simp add: file_ok_def)
  have size: "size_field ?d c = size_field d c" by (simp add: size_field_def keeps)
  then have cov: "covered ?d c" using fs_okD(2) [OF ok f] by (simp add: covered_def)
  have ch: "chain_of F f = set c" using f by (simp add: chain_of_def)
  have same: "\<forall>i<BLOCK_NUM. used d i \<longrightarrow> i \<notin> chain_of F f \<longrightarrow> blk ?d i = blk d i"
    using file_ok_hd [OF fok] rep_shape [OF rep] hd by (auto simp: stamp_def blk_upd_blk ch)
  have used': "\<forall>i<BLOCK_NUM. used ?d i \<longleftrightarrow> i \<in> set c \<or> used d i \<and> i \<notin> chain_of F f"
    using rep_chain_used [OF rep, of _ f] ch by (auto simp: stamp_def)
  have same_F: "F(f \<mapsto> c) = F" using f by auto
  note upd = fs_ok_update [OF ok st(4) fok' cov _ used' same, unfolded same_F]
  show "fs_ok ?d F" by (rule upd(1)) (simp add: ch)
  have "bytes_of ?d c = bytes_of d c" by (simp add: bytes_of_def size content)
  then have "(abs_fs d F)(f \<mapsto> bytes_of ?d c) = abs_fs d F"
    using f by (auto simp: abs_fs_def fun_eq_iff)
  then show "abs_fs ?d F = abs_fs d F" using upd(2) ch by simp
qed

text \<open>The part of \<open>aofs_read_file\<close> after the head was found, stamped and the first block reached.\<close>

lemma read_file_start:
  assumes ok: "fs_ok d F" and f: "F f = Some c"
    and n: "0 < length buf" "length buf < 2 ^ 31 - BLOCK_DATA"
    and k: "offset div BLOCK_DATA < length c"
    and bo: "bo = offset mod BLOCK_DATA" and nb: "nb = (bo + length buf - 1) div BLOCK_DATA"
    and first: "first = take (if nb = 0 then length buf else BLOCK_DATA - bo)
      (drop bo (data (blk d (c ! (offset div BLOCK_DATA)))))"
    and d1: "d1 = stamp e d (hd c)"
  shows "aofs_read_file e d f buf offset =
    and_then (read_middle d1 bo 0 (nb - 1) (blk d1 (c ! (offset div BLOCK_DATA)))
        (overlay 0 first buf) (int (length first)))
      (\<lambda>(ended, cur2, buf2, bytes_read).
        if ended \<or> nb = 0 then Inr (bytes_read, buf2, d1)
        else if next_block (dbm cur2) < 0 then Inr (bytes_read, buf2, d1)
        else and_then (read_block d1 (next_block (dbm cur2))) (\<lambda>cur3.
             and_then (memcpy_at (int bo + int BLOCK_DATA * int nb)
                 (take (bo + length buf - nb * BLOCK_DATA) (data cur3)) buf2) (\<lambda>buf3.
             Inr (bytes_read + int (bo + length buf - nb * BLOCK_DATA), buf3, d1))))"
proof -
  note rep = fs_okD(1) [OF ok] and fok = rep_file [OF fs_okD(1) [OF ok] f]
  have hd: "hd c < BLOCK_NUM" using fok file_ok_hd file_ok_lt by blast
  note shape = rep_shape [OF rep] and st = stamp_blk [OF rep_shape [OF rep] hd, where e = e]
  obtain t where t: "c = hd c # t" using fok by (cases c) (auto simp: file_ok_def)
  have fok1: "file_ok d1 f c"
    using rep_file [OF fs_okD(1) [OF stamp_ok(1) [OF ok f]] f] d1 by simp
  have "seg d1 (int (hd c)) (hd c # t) (-1)" using fok1 t by (metis file_ok_def)
  then have seek: "seek_block d1 (blk d1 (hd c)) (offset div BLOCK_DATA) =
      Inr (Some (blk d1 (c ! (offset div BLOCK_DATA))))"
    using seek_block_seg [of d1 "hd c" t "offset div BLOCK_DATA"] st(4) k t d1
    by (metis Suc_le_eq Suc_le_mono length_Cons)
  have blk1: "blk d1 (hd c) = blk d (hd c)\<lparr>dbm := (dbm (blk d (hd c)))\<lparr>st_atim := now e\<rparr>\<rparr>"
    using shape hd by (simp add: d1 stamp_def blk_upd_blk)
  have bo_lt: "bo < BLOCK_DATA" by (simp add: bo)
  have len_k: "length (data (blk d (c ! (offset div BLOCK_DATA)))) = BLOCK_DATA"
    using shape file_ok_lt [OF fok] k by (simp add: shape_data)
  have fits: "(if nb = 0 then length buf else BLOCK_DATA - bo) \<le> length buf \<and>
      (if nb = 0 then length buf else BLOCK_DATA - bo) \<le> BLOCK_DATA - bo"
  proof (cases "nb = 0")
    case True
    then have "bo + length buf - 1 < BLOCK_DATA" using nb by (simp add: div_eq_0_iff)
    then show ?thesis using True by simp
  next
    case False
    then have "BLOCK_DATA \<le> bo + length buf - 1" using nb by (simp add: div_eq_0_iff)
    then show ?thesis using False by simp
  qed
  then have len_first: "length first = (if nb = 0 then length buf else BLOCK_DATA - bo)"
    using first len_k by auto
  have copy: "memcpy_at 0 (take (if nb = 0 then length buf else BLOCK_DATA - bo)
      (drop bo (data (blk d (c ! (offset div BLOCK_DATA)))))) buf = Inr (overlay 0 first buf)"
    unfolding first [symmetric] using len_first fits by (simp add: memcpy_at_def)
  have plan: "read_plan (length buf) offset = (offset div BLOCK_DATA, bo, int nb,
      if nb = 0 then length buf else BLOCK_DATA - bo, if nb = 0 then 0 else bo + length buf - nb * BLOCK_DATA)"
    using read_plan_eq [OF n, of offset] by (simp add: bo nb Let_def)
  have wr: "write_block d (int (hd c)) (blk d1 (hd c)) = Inr d1"
    using shape hd blk1 by (simp add: write_block_ok d1 stamp_def)
  have data1: "data (blk d1 i) = data (blk d i)" for i using st(1) d1 by simp
  show ?thesis
    using len_first copy
    by (cases "nb = 0")
      (simp_all add: aofs_read_file_def find_file_head_rep [OF rep] f Let_def blk1 [symmetric] wr plan
        seek data1 nat_diff_distrib)
qed


text \<open>The link from a block of the chain to the next.\<close>

lemma seg_nth_link:
  "seg d n c (-1) \<Longrightarrow> Suc k < length c \<Longrightarrow> next_block (dbm (blk d (c ! k))) = int (c ! Suc k)"
proof (induction c arbitrary: n k)
  case (Cons i c)
  then show ?case by (cases k; cases c) auto
qed simp

lemma stamp_next:
  assumes ok: "fs_ok d F" and f: "F f = Some c" and k: "Suc k < length c" and d1: "d1 = stamp e d (hd c)"
  shows "next_block (dbm (blk d1 (c ! k))) = int (c ! Suc k)"
    and "read_block d1 (int (c ! Suc k)) = Inr (blk d1 (c ! Suc k))"
proof -
  note ok1 = stamp_ok(1) [OF ok f, of e, folded d1]
  note fok = rep_file [OF fs_okD(1) [OF ok1] f]
  show "next_block (dbm (blk d1 (c ! k))) = int (c ! Suc k)"
    using fok k by (intro seg_nth_link [of _ "int (hd c)"]) (simp_all add: file_ok_def)
  show "read_block d1 (int (c ! Suc k)) = Inr (blk d1 (c ! Suc k))"
    using k file_ok_lt [OF fok] rep_shape [OF fs_okD(1) [OF ok1]] by (simp add: read_block_ok)
qed

lemma stamp_data:
  assumes ok: "fs_ok d F" and f: "F f = Some c" and k: "k < length c" and d1: "d1 = stamp e d (hd c)"
  shows "data (blk d1 (c ! k)) = data (blk d (c ! k))" and "length (data (blk d (c ! k))) = BLOCK_DATA"
proof -
  note rep = fs_okD(1) [OF ok] and fok = rep_file [OF fs_okD(1) [OF ok] f]
  have hd: "hd c < BLOCK_NUM" using fok file_ok_hd file_ok_lt by blast
  show "data (blk d1 (c ! k)) = data (blk d (c ! k))"
    using stamp_blk(1) [OF rep_shape [OF rep] hd] d1 by simp
  show "length (data (blk d (c ! k))) = BLOCK_DATA"
    using rep_shape [OF rep] file_ok_lt [OF fok] k by (simp add: shape_data)
qed

lemma chain_bytes:
  assumes ok: "fs_ok d F" and f: "F f = Some c" and k: "offset div BLOCK_DATA < length c"
  shows "drop offset (content d c) =
    drop (offset mod BLOCK_DATA) (data (blk d (c ! (offset div BLOCK_DATA)))) @
    content d (drop (Suc (offset div BLOCK_DATA)) c)"
proof -
  note rep = fs_okD(1) [OF ok] and fok = rep_file [OF fs_okD(1) [OF ok] f]
  have "offset mod BLOCK_DATA \<le> BLOCK_DATA" by simp
  from drop_content [OF rep_shape [OF rep] _ k this] show ?thesis
    using file_ok_lt [OF fok] by simp
qed

lemma overlay_all: "length src = length buf \<Longrightarrow> overlay 0 src buf = src"
  by (simp add: overlay_def)

lemma read_one_block:
  assumes ok: "fs_ok d F" and f: "F f = Some c"
    and n: "0 < length buf" "length buf < 2 ^ 31 - BLOCK_DATA"
    and within: "offset mod BLOCK_DATA + length buf \<le> BLOCK_DATA"
    and k: "offset div BLOCK_DATA < length c"
  shows "aofs_read_file e d f buf offset =
    Inr (int (length buf), take (length buf) (drop offset (content d c)), stamp e d (hd c))"
proof -
  let ?D = "data (blk d (c ! (offset div BLOCK_DATA)))"
  let ?bo = "offset mod BLOCK_DATA"
  let ?first = "take (length buf) (drop ?bo ?D)"
  have "?bo + length buf - 1 < BLOCK_DATA" using within n by linarith
  then have nb: "0 = (?bo + length buf - 1) div BLOCK_DATA" by simp
  have len: "length ?D = BLOCK_DATA" by (rule stamp_data(2) [OF ok f k refl])
  have first: "?first = take (if (0::nat) = 0 then length buf else BLOCK_DATA - ?bo) (drop ?bo ?D)"
    by simp
  have len_first: "length ?first = length buf" using len within by simp
  have "take (length buf) (drop offset (content d c)) = ?first"
    unfolding chain_bytes [OF ok f k] using len within by simp
  then show ?thesis
    unfolding read_file_start [OF ok f n k refl nb first refl]
    using len_first overlay_all [OF len_first] by simp
qed

lemma read_two_blocks:
  assumes ok: "fs_ok d F" and f: "F f = Some c"
    and n: "BLOCK_DATA < length buf" "length buf \<le> 2 * BLOCK_DATA"
    and aligned: "offset mod BLOCK_DATA = 0"
    and k: "Suc (offset div BLOCK_DATA) < length c"
  shows "aofs_read_file e d f buf offset =
    Inr (int (length buf), take (length buf) (drop offset (content d c)), stamp e d (hd c))"
proof -
  let ?k = "offset div BLOCK_DATA"
  let ?d1 = "stamp e d (hd c)"
  let ?D0 = "data (blk d (c ! ?k))" and ?D1 = "data (blk d (c ! Suc ?k))"
  have n': "0 < length buf" "length buf < 2 ^ 31 - BLOCK_DATA" 
    using n by (linarith, simp add: BLOCK_DATA_value)
  have k0: "?k < length c" using k by simp
  have nb: "1 = (offset mod BLOCK_DATA + length buf - 1) div BLOCK_DATA"
    using n aligned by (simp add: BLOCK_DATA_value)
  have len: "length ?D0 = BLOCK_DATA" "length ?D1 = BLOCK_DATA" "data (blk ?d1 (c ! Suc ?k)) = ?D1"
    using stamp_data(1) [OF ok f k refl] stamp_data(2) [OF ok f k0 refl] stamp_data(2) [OF ok f k refl]
    by simp_all
  have first: "?D0 = take (if (1::nat) = 0 then length buf else BLOCK_DATA - offset mod BLOCK_DATA)
      (drop (offset mod BLOCK_DATA) ?D0)"
    using aligned len by simp
  let ?m = "length buf - BLOCK_DATA"
  let ?last = "take ?m ?D1"
  have len_last: "length ?last = ?m" using n len by simp
  have copy: "memcpy_at (int BLOCK_DATA) ?last (overlay 0 ?D0 buf)
      = Inr (overlay BLOCK_DATA ?last (overlay 0 ?D0 buf))"
    using n len len_last by (simp add: memcpy_at_def)
  have "overlay BLOCK_DATA ?last (overlay 0 ?D0 buf) = ?D0 @ ?last"
    using n len by (simp add: overlay_def)
  moreover have "drop (Suc ?k) c = c ! Suc ?k # drop (Suc (Suc ?k)) c"
    using k by (simp add: Cons_nth_drop_Suc)
  then have "take (length buf) (drop offset (content d c)) = ?D0 @ ?last"
    unfolding chain_bytes [OF ok f k0] using aligned len n by simp
  moreover have "int BLOCK_DATA + int ?m = int (length buf)" using n by simp
  ultimately show ?thesis
    unfolding read_file_start [OF ok f n' k0 refl nb first refl]
    using aligned len stamp_next [OF ok f k refl, of e] copy by simp
qed

section \<open>Reads that do not work\<close>

lemma read_middle_seg:
  assumes "shape d" and "\<forall>j\<in>set c. j < BLOCK_NUM"
    and "\<And>j. Suc j < length c \<Longrightarrow> next_block (dbm (blk d (c ! j))) = int (c ! Suc j)"
  shows "k + m < length c \<Longrightarrow>
    read_middle d bo i m (blk d (c ! k)) buf w = Inl Overflow \<or>
    (\<exists>buf' w'. read_middle d bo i m (blk d (c ! k)) buf w = Inr (False, blk d (c ! (k + m)), buf', w') \<and>
       length buf' = length buf)"
proof (induction m arbitrary: k i buf w)
  case (Suc m)
  have link: "next_block (dbm (blk d (c ! k))) = int (c ! Suc k)" using Suc.prems assms(3) by simp
  have rd: "read_block d (int (c ! Suc k)) = Inr (blk d (c ! Suc k))"
    using Suc.prems assms(1,2) by (simp add: read_block_ok)
  let ?pos = "int (bo + BLOCK_DATA * i)" and ?src = "data (blk d (c ! Suc k))"
  show ?case
  proof (cases "memcpy_at ?pos ?src buf")
    case (Inl x)
    then have "x = Overflow" by (auto simp: memcpy_at_def split: if_splits)
    then show ?thesis using Inl link rd by simp
  next
    case (Inr buf1)
    then have "length buf1 = length buf" by (auto simp: memcpy_at_def split: if_splits)
    then show ?thesis using Suc.IH [of "Suc k" "Suc i" buf1 "w + int BLOCK_DATA"] Suc.prems Inr link rd
      by simp
  qed
qed simp

text \<open>A read that starts inside a block and goes past its end leaves the caller's buffer.\<close>

lemma read_across_overflows:
  assumes ok: "fs_ok d F" and f: "F f = Some c"
    and n: "length buf < 2 ^ 31 - BLOCK_DATA"
    and inside: "0 < offset mod BLOCK_DATA" and across: "BLOCK_DATA < offset mod BLOCK_DATA + length buf"
    and exists: "(offset + length buf - 1) div BLOCK_DATA < length c"
  shows "aofs_read_file e d f buf offset = Inl Overflow"
proof -
  let ?k = "offset div BLOCK_DATA" and ?bo = "offset mod BLOCK_DATA" and ?n = "length buf"
  let ?d1 = "stamp e d (hd c)"
  define nb where "nb = (?bo + ?n - 1) div BLOCK_DATA"
  have n0: "0 < ?n"
  proof (rule ccontr)
    assume "\<not> 0 < ?n"
    then have "BLOCK_DATA < ?bo" using across by linarith
    then show False using mod_less_divisor [OF BLOCK_DATA_pos, of offset] by linarith
  qed
  have "offset + ?n - 1 = ?k * BLOCK_DATA + (?bo + ?n - 1)"
    using div_mult_mod_eq [of offset BLOCK_DATA] n0 by linarith
  then have kn: "?k + nb < length c" using exists by (simp add: nb_def div_mult_self1 add.commute)
  have "1 * BLOCK_DATA \<le> ?bo + ?n - 1" using across by linarith
  then have nb: "0 < nb" unfolding nb_def by (simp add: div_greater_zero_iff)
  have k: "?k < length c" using kn by linarith
  note ok1 = stamp_ok(1) [OF ok f, of e]
  note shape1 = rep_shape [OF fs_okD(1) [OF ok1]] and fok1 = rep_file [OF fs_okD(1) [OF ok1] f]
  let ?first = "take (if nb = 0 then ?n else BLOCK_DATA - ?bo) (drop ?bo (data (blk d (c ! ?k))))"
  have "length ?first \<le> BLOCK_DATA - ?bo" using nb by simp
  then have "length ?first \<le> ?n" using across by linarith
  then have len1: "length (overlay 0 ?first buf) = ?n" by simp
  note start = read_file_start [OF ok f n0 n k refl nb_def refl refl, of e]
  have link: "next_block (dbm (blk ?d1 (c ! j))) = int (c ! Suc j)" if "Suc j < length c" for j
    by (rule stamp_next(1) [OF ok f that refl])
  have mid: "?k + (nb - 1) < length c" using kn by linarith
  from read_middle_seg [OF shape1 _ link this, of ?bo 0 "overlay 0 ?first buf" "int (length ?first)"]
  consider "read_middle ?d1 ?bo 0 (nb - 1) (blk ?d1 (c ! ?k)) (overlay 0 ?first buf)
        (int (length ?first)) = Inl Overflow"
    | buf' w where "read_middle ?d1 ?bo 0 (nb - 1) (blk ?d1 (c ! ?k)) (overlay 0 ?first buf)
        (int (length ?first)) = Inr (False, blk ?d1 (c ! (?k + (nb - 1))), buf', w)" "length buf' = ?n"
    using file_ok_lt [OF fok1] len1 by fastforce
  then show ?thesis
  proof cases
    case 1
    then show ?thesis unfolding start by simp
  next
    case 2
    have "Suc (?k + (nb - 1)) = ?k + nb" using nb by simp
    then have step: "next_block (dbm (blk ?d1 (c ! (?k + (nb - 1))))) = int (c ! (?k + nb))"
        "read_block ?d1 (int (c ! (?k + nb))) = Inr (blk ?d1 (c ! (?k + nb)))"
      using stamp_next [OF ok f _ refl, of "?k + (nb - 1)" e] kn by simp_all
    have len: "length (data (blk ?d1 (c ! (?k + nb)))) = BLOCK_DATA"
      using stamp_data [OF ok f kn refl] by simp
    have le: "nb * BLOCK_DATA \<le> ?bo + ?n - 1" by (simp add: nb_def)
    have "?bo + ?n - 1 < nb * BLOCK_DATA + BLOCK_DATA"
      using dividend_less_div_times [OF BLOCK_DATA_pos, of "?bo + ?n - 1"] unfolding nb_def by linarith
    then have "?bo + ?n - nb * BLOCK_DATA \<le> BLOCK_DATA" by linarith
    then have "length (take (?bo + ?n - nb * BLOCK_DATA) (data (blk ?d1 (c ! (?k + nb)))))
        = ?bo + ?n - nb * BLOCK_DATA" using len by simp
    moreover have "?n < nat (int ?bo + int BLOCK_DATA * int nb) + (?bo + ?n - nb * BLOCK_DATA)"
    proof -
      have "nat (int ?bo + int BLOCK_DATA * int nb) = ?bo + nb * BLOCK_DATA"
        by (simp add: nat_add_distrib nat_mult_distrib mult.commute)
      then show ?thesis using le n0 inside by linarith
    qed
    ultimately have "memcpy_at (int ?bo + int BLOCK_DATA * int nb)
        (take (?bo + ?n - nb * BLOCK_DATA) (data (blk ?d1 (c ! (?k + nb))))) buf' = Inl Overflow"
      using 2(2) unfolding memcpy_at_def by auto
    then show ?thesis unfolding start 2(1) using nb step by simp
  qed
qed

text \<open>
  An aligned read of three blocks: the middle block is copied to the start of the buffer, over
  the first one, and the second third of the buffer keeps what it held.
\<close>

lemma read_three_blocks:
  assumes ok: "fs_ok d F" and f: "F f = Some c"
    and n: "length buf = 3 * BLOCK_DATA" and aligned: "offset mod BLOCK_DATA = 0"
    and k: "offset div BLOCK_DATA + 2 < length c"
  shows "aofs_read_file e d f buf offset =
    Inr (int (length buf), data (blk d (c ! (offset div BLOCK_DATA + 1))) @
      take BLOCK_DATA (drop BLOCK_DATA buf) @ data (blk d (c ! (offset div BLOCK_DATA + 2))),
      stamp e d (hd c))"
proof -
  let ?k = "offset div BLOCK_DATA" and ?d1 = "stamp e d (hd c)"
  let ?D0 = "data (blk d (c ! ?k))" and ?D1 = "data (blk d (c ! (?k + 1)))"
    and ?D2 = "data (blk d (c ! (?k + 2)))"
  have n': "0 < length buf" "length buf < 2 ^ 31 - BLOCK_DATA"
    using n by (simp_all add: BLOCK_DATA_value)
  have k': "?k < length c" "Suc ?k < length c" "Suc (?k + 1) < length c" "?k + 1 < length c"
    using k by simp_all
  have nb: "2 = (offset mod BLOCK_DATA + length buf - 1) div BLOCK_DATA"
    using n aligned by (simp add: BLOCK_DATA_value)
  have len: "length ?D0 = BLOCK_DATA" "length ?D1 = BLOCK_DATA" "length ?D2 = BLOCK_DATA"
    using stamp_data(2) [OF ok f k'(1) refl] stamp_data(2) [OF ok f k'(4) refl]
      stamp_data(2) [OF ok f k refl] by simp_all
  have dat: "data (blk ?d1 (c ! Suc ?k)) = ?D1" "data (blk ?d1 (c ! Suc (Suc ?k))) = ?D2"
    using stamp_data(1) [OF ok f k'(2) refl, of e] stamp_data(1) [OF ok f k'(3) refl, of e] by simp_all
  have first: "?D0 = take (if (2::nat) = 0 then length buf else BLOCK_DATA - offset mod BLOCK_DATA)
      (drop (offset mod BLOCK_DATA) ?D0)"
    using aligned len by simp
  let ?b0 = "overlay 0 ?D0 buf" and ?b1 = "overlay 0 ?D1 (overlay 0 ?D0 buf)"
  have copy: "memcpy_at 0 ?D1 ?b0 = Inr ?b1"
      "memcpy_at (int BLOCK_DATA * 2) ?D2 ?b1 = Inr (overlay (2 * BLOCK_DATA) ?D2 ?b1)"
    using n len by (simp_all add: memcpy_at_def nat_mult_distrib mult.commute)
  have "overlay (2 * BLOCK_DATA) ?D2 ?b1 = ?D1 @ take BLOCK_DATA (drop BLOCK_DATA buf) @ ?D2"
    using n len by (simp add: overlay_def)
  moreover have "int BLOCK_DATA + int BLOCK_DATA + int BLOCK_DATA = int (length buf)" using n by simp
  ultimately show ?thesis
    unfolding read_file_start [OF ok f n' k'(1) refl nb first refl]
    using aligned len dat copy n stamp_next [OF ok f k'(2) refl, of e]
      stamp_next [OF ok f k'(3) refl, of e]
    by (simp add: numeral_2_eq_2)
qed

end
