(* ===== verification/Aofs_Fuse.thy ===== *)
theory Aofs_Fuse
  imports Aofs_Read
begin

text \<open>
  The FUSE callbacks of \<open>src/asgn4/run_fs.c\<close> and the programs that create and mount an image
  (\<open>src/asgn4/init_disk.c\<close>, \<open>main\<close> of \<open>run_fs.c\<close>). Each callback opens the image first; \<open>fd\<close> is
  the descriptor \<open>OPEN_DISK\<close> yields, negative when the open fails, and is then the result.
  A path is the string FUSE passes, which starts with a slash.
\<close>

section \<open>Attributes\<close>

record stat =
  sb_mode :: u16
  sb_nlink :: nat
  sb_ino :: nat
  sb_dev :: nat
  sb_atime :: u64
  sb_mtime :: u64
  sb_ctime :: u64
  sb_size :: int
  sb_blocks :: int
  sb_blksize :: int
  sb_flags :: u32
  sb_uid :: u32
  sb_gid :: u32

definition S_IFDIR :: u16 where "S_IFDIR = 0x4000"
definition S_IFREG :: u16 where "S_IFREG = 0x8000"

text \<open>\<open>memset(stbuf, 0, sizeof(struct stat))\<close>.\<close>

definition zero_stat :: stat where
  "zero_stat = \<lparr>sb_mode = 0, sb_nlink = 0, sb_ino = 0, sb_dev = 0, sb_atime = 0, sb_mtime = 0,
    sb_ctime = 0, sb_size = 0, sb_blocks = 0, sb_blksize = 0, sb_flags = 0, sb_uid = 0, sb_gid = 0\<rparr>"

definition aofs_getattr :: "int \<Rightarrow> aofs \<Rightarrow> string \<Rightarrow> stat \<Rightarrow> fault + (int \<times> stat)" where
  "aofs_getattr fd disk path stbuf =
    (if fd < 0 then Inr (fd, stbuf)
     else if path = ''/'' then Inr (0, zero_stat\<lparr>sb_mode := S_IFDIR OR 0x1ED, sb_nlink := 2\<rparr>)
     else and_then (aofs_find_file_head disk path) (\<lambda>r.
       case r of None \<Rightarrow> Inr (- ENOENT, zero_stat)
       | Some (_, b) \<Rightarrow>
           Inr (0, zero_stat\<lparr>sb_nlink := 1, sb_ino := 0, sb_dev := 0, sb_atime := st_atim (dbm b),
             sb_mtime := st_mtim (dbm b), sb_ctime := st_ctim (dbm b), sb_size := st_size (dbm b),
             sb_blocks := st_blocks (dbm b), sb_blksize := st_blksize (dbm b),
             sb_flags := st_flags (dbm b), sb_uid := st_uid (dbm b), sb_gid := st_gid (dbm b),
             sb_mode := S_IFREG OR 0x124 OR 0x1B6\<rparr>)))"

text \<open>The bits of the flags as \<open>print_fi_flags\<close> prints them, lowest first.\<close>

definition print_fi_flags :: "u32 \<Rightarrow> string" where
  "print_fi_flags flags =
    map (\<lambda>i. if push_bit i 1 AND flags \<noteq> 0 then CHR ''1'' else CHR ''0'') [0..<32]"

definition print_stbuf :: "stat \<Rightarrow> (string \<times> int) list" where
  "print_stbuf s =
    [(''st_dev'', int (sb_dev s)), (''st_ino'', int (sb_ino s)), (''st_nlink'', int (sb_nlink s)),
     (''st_mode'', uint (sb_mode s)), (''st_atime'', uint (sb_atime s)),
     (''st_mtime'', uint (sb_mtime s)), (''st_ctime'', uint (sb_ctime s)), (''st_size'', sb_size s),
     (''st_uid'', uint (sb_uid s)), (''st_gid'', uint (sb_gid s))]"

section \<open>Directory\<close>

text \<open>The names handed to the \<open>filler\<close> callback, in order.\<close>

fun readdir_from :: "aofs \<Rightarrow> nat \<Rightarrow> nat \<Rightarrow> fault + string list" where
  "readdir_from disk block_num 0 = Inr []"
| "readdir_from disk block_num (Suc n) =
    (if bit_at (bitmap (sb disk)) block_num \<noteq> 0
     then and_then (read_block disk (int block_num)) (\<lambda>b.
          and_then (readdir_from disk (Suc block_num) n) (\<lambda>names.
          Inr (if is_head (dbm b) then tl (filename (dbm b)) # names else names)))
     else readdir_from disk (Suc block_num) n)"

definition aofs_readdir :: "int \<Rightarrow> aofs \<Rightarrow> string \<Rightarrow> fault + (int \<times> string list)" where
  "aofs_readdir fd disk path =
    (if path \<noteq> ''/'' then Inr (0, [tl path])
     else if fd < 0 then Inr (fd, [''.'', ''..''])
     else and_then (readdir_from disk 0 BLOCK_NUM) (\<lambda>names. Inr (0, ''.'' # ''..'' # names)))"

section \<open>Files\<close>

definition aofs_open :: "int \<Rightarrow> aofs \<Rightarrow> string \<Rightarrow> fault + int" where
  "aofs_open fd disk path =
    (if fd < 0 then Inr fd
     else and_then (aofs_find_file_head disk path) (\<lambda>r.
       Inr (case r of Some _ \<Rightarrow> 0 | None \<Rightarrow> - ENOENT)))"

definition aofs_create :: "env \<Rightarrow> int \<Rightarrow> aofs \<Rightarrow> string \<Rightarrow> fault + (int \<times> aofs)" where
  "aofs_create e fd disk path =
    (if fd < 0 then Inr (fd, disk)
     else and_then (aofs_create_file e disk path) (\<lambda>(x, disk1).
       Inr (if x \<ge> 0 then 0 else -1, disk1)))"

definition aofs_read ::
    "env \<Rightarrow> int \<Rightarrow> aofs \<Rightarrow> string \<Rightarrow> u8 list \<Rightarrow> nat \<Rightarrow> fault + (int \<times> u8 list \<times> aofs)" where
  "aofs_read e fd disk path buf offset =
    (if fd < 0 then Inr (fd, buf, disk) else aofs_read_file e disk path buf offset)"

definition aofs_write ::
    "env \<Rightarrow> int \<Rightarrow> aofs \<Rightarrow> string \<Rightarrow> u8 list \<Rightarrow> int \<Rightarrow> fault + (int \<times> aofs)" where
  "aofs_write e fd disk path buf offset =
    (if fd < 0 then Inr (fd, disk) else aofs_write_file e disk path buf offset)"

definition aofs_release :: "string \<Rightarrow> int" where
  "aofs_release path = 0"

definition aofs_unlink :: "env \<Rightarrow> int \<Rightarrow> aofs \<Rightarrow> string \<Rightarrow> fault + (int \<times> aofs)" where
  "aofs_unlink e fd disk path =
    (if fd < 0 then Inr (fd, disk) else aofs_delete_file e disk path)"

definition aofs_truncate :: "env \<Rightarrow> int \<Rightarrow> aofs \<Rightarrow> string \<Rightarrow> int \<Rightarrow> fault + (int \<times> aofs)" where
  "aofs_truncate e fd disk path new_size =
    (if fd < 0 then Inr (fd, disk) else aofs_truncate_file e disk path new_size)"

text \<open>
  \<open>utimens\<close> and \<open>chown\<close> do not look at the result of the search: for a missing file they write
  the uninitialised block of the stack to block -1.
\<close>

definition aofs_utimens ::
    "env \<Rightarrow> int \<Rightarrow> aofs \<Rightarrow> string \<Rightarrow> u64 \<Rightarrow> u64 \<Rightarrow> fault + (int \<times> aofs)" where
  "aofs_utimens e fd disk path atime mtime =
    (if fd < 0 then Inr (fd, disk)
     else and_then (aofs_find_file_head disk path) (\<lambda>r.
       let (file_head, head) = (case r of None \<Rightarrow> (-1, stack_block e) | Some (n, b) \<Rightarrow> (int n, b));
           head1 = head\<lparr>dbm := (dbm head)\<lparr>st_atim := atime, st_mtim := mtime\<rparr>\<rparr>
       in and_then (write_block disk file_head head1) (\<lambda>disk1. Inr (0, disk1))))"

definition aofs_chown ::
    "env \<Rightarrow> int \<Rightarrow> aofs \<Rightarrow> string \<Rightarrow> u32 \<Rightarrow> u32 \<Rightarrow> fault + (int \<times> aofs)" where
  "aofs_chown e fd disk path uid gid =
    (if fd < 0 then Inr (fd, disk)
     else and_then (aofs_find_file_head disk path) (\<lambda>r.
       let (file_head, head) = (case r of None \<Rightarrow> (-1, stack_block e) | Some (n, b) \<Rightarrow> (int n, b));
           head1 = head\<lparr>dbm := (dbm head)\<lparr>st_uid := uid, st_gid := gid\<rparr>\<rparr>
       in and_then (write_block disk file_head head1) (\<lambda>disk1. Inr (0, disk1))))"

section \<open>The programs\<close>

text \<open>How \<open>main\<close> of \<open>run_fs.c\<close> ends: with an exit status, or by mounting.\<close>

datatype run_fs_end = Exit_status int | Mounted

definition run_fs_main :: "nat \<Rightarrow> string \<Rightarrow> bool \<Rightarrow> run_fs_end" where
  "run_fs_main argc argv1 opened =
    (if argc < 2 then Exit_status 1
     else if length argv1 > MAX_FILENAME then Exit_status 1
     else if \<not> opened then Exit_status 1
     else Mounted)"

text \<open>
  \<open>init_disk\<close>: exit status and image; \<open>mem\<close> is the \<open>malloc\<close>ed structure before \<open>init_fs\<close>.
\<close>

definition init_disk_main :: "env \<Rightarrow> nat \<Rightarrow> bool \<Rightarrow> aofs \<Rightarrow> aofs \<Rightarrow> int \<times> aofs" where
  "init_disk_main e argc opened mem disk =
    (if argc > 2 then (1, disk)
     else let (r, disk1) = write_fs opened disk (init_fs e mem)
          in if r \<noteq> 0 then (1, disk1) else (0, disk1))"

end
