(* ===== verification/Aofs_Trunc.thy ===== *)
theory Aofs_Trunc
  imports Aofs_Spec
begin

text \<open>
  \<open>aofs_truncate_file\<close> and \<open>delete_chain\<close>: shrinking a file keeps its first bytes and frees the
  blocks beyond; growing it keeps all its bytes and appends blocks, one too few when the file
  filled its blocks exactly; deleting a chain ends on every image whose links are block numbers
  or -1, cyclic ones included.
\<close>

section \<open>Deleting a chain ends\<close>

definition links_ok :: "aofs \<Rightarrow> bool" where
  "links_ok d \<longleftrightarrow> (\<forall>i<BLOCK_NUM. next_block (dbm (blk d i)) = -1 \<or>
    0 \<le> next_block (dbm (blk d i)) \<and> nat (next_block (dbm (blk d i))) < BLOCK_NUM)"

definition linked :: "aofs \<Rightarrow> nat set" where
  "linked d = {i. i < BLOCK_NUM \<and> next_block (dbm (blk d i)) \<noteq> -1}"

lemma delete_chain_ends:
  "shape d \<Longrightarrow> links_ok d \<Longrightarrow> n = -1 \<or> 0 \<le> n \<and> nat n < BLOCK_NUM \<Longrightarrow>
    card (linked d) + 1 \<le> fuel \<Longrightarrow> \<exists>d'. delete_chain e fuel d n = Inr d'"
proof (induction fuel arbitrary: d n)
  case (Suc fuel)
  show ?case
  proof (cases "n = -1")
    case False
    then obtain i where i: "n = int i" "i < BLOCK_NUM" using Suc.prems(3) by (metis int_nat_eq nat_int)
    obtain d1 where a: "deallocate_block e d (int i) = Inr (next_block (dbm (blk d i)), d1)"
        "shape d1" "\<forall>j<BLOCK_NUM. used d1 j \<longleftrightarrow> j \<noteq> i \<and> used d j"
        "free_blocks d1 = insert i (free_blocks d)" "blk d1 i = clear_block e (blk d i)"
        "\<forall>j. j \<noteq> i \<longrightarrow> blk d1 j = blk d j"
      by (rule deallocate_block_ok [OF Suc.prems(1) i(2)])
    have next1: "next_block (dbm (blk d1 j)) = (if j = i then -1 else next_block (dbm (blk d j)))" for j
      using a(5,6) by simp
    have linked1: "linked d1 = linked d - {i}" using next1 by (auto simp: linked_def)
    have links1: "links_ok d1" using Suc.prems(2) next1 by (simp add: links_ok_def)
    show ?thesis
    proof (cases "i \<in> linked d")
      case True
      have "finite (linked d)" by (simp add: linked_def)
      then have "card (linked d1) + 1 \<le> fuel"
        using Suc.prems(4) True card_Suc_Diff1 [of "linked d" i] linked1 by simp
      moreover have "next_block (dbm (blk d i)) = -1 \<or>
          0 \<le> next_block (dbm (blk d i)) \<and> nat (next_block (dbm (blk d i))) < BLOCK_NUM"
        using Suc.prems(2) i(2) by (simp add: links_ok_def)
      ultimately show ?thesis
        using Suc.IH [OF a(2) links1] a(1) i(1) by simp
    next
      case False
      then have "next_block (dbm (blk d i)) = -1" using i(2) by (simp add: linked_def)
      then show ?thesis using a(1) i(1) by (cases fuel) simp_all
    qed
  qed simp
qed simp

lemma card_linked: "card (linked d) \<le> BLOCK_NUM"
  using card_mono [of "{..<BLOCK_NUM}" "linked d"] by (auto simp: linked_def)

section \<open>The size field\<close>

definition resize :: "aofs \<Rightarrow> nat \<Rightarrow> int \<Rightarrow> aofs" where
  "resize d h s = upd_blk d h (blk d h\<lparr>dbm := (dbm (blk d h))\<lparr>st_size := s\<rparr>\<rparr>)"

lemma resize_blk:
  assumes "shape d" and "h < BLOCK_NUM"
  shows "shape (resize d h s)" and "used (resize d h s) = used d"
    and "data (blk (resize d h s) i) = data (blk d i)"
    and "next_block (dbm (blk (resize d h s) i)) = next_block (dbm (blk d i))"
    and "is_head (dbm (blk (resize d h s) i)) = is_head (dbm (blk d i))"
    and "filename (dbm (blk (resize d h s) i)) = filename (dbm (blk d i))"
    and "st_size (dbm (blk (resize d h s) h)) = s"
    and "i \<noteq> h \<Longrightarrow> blk (resize d h s) i = blk d i"
  using assms by (simp_all add: resize_def blk_upd_blk shape_upd_blk shape_data)

lemma set_size_ok:
  assumes "shape d" and "h < BLOCK_NUM"
  shows "set_size d (int h) s = Inr (0, resize d h s)"
proof -
  obtain out where "print_aofs (resize d h s) = Inr out"
    using resize_blk(1) [OF assms] print_aofs_ok by blast
  then show ?thesis
    using assms by (simp add: set_size_def read_block_ok write_block_ok resize_def)
qed

lemma resize_file:
  assumes "shape d" and "file_ok d f c"
  shows "file_ok (resize d (hd c) s) f c" and "size_field (resize d (hd c) s) c = s"
    and "content (resize d (hd c) s) c' = content d c'"
proof -
  have h: "hd c < BLOCK_NUM" using assms(2) file_ok_hd file_ok_lt by blast
  note r = resize_blk [OF assms(1) h, where s = s]
  show "file_ok (resize d (hd c) s) f c"
    using assms(2) seg_frame [of c "resize d (hd c) s" d] r(4,5,6) by (simp add: file_ok_def)
  show "size_field (resize d (hd c) s) c = s" using r(7) by (simp add: size_field_def)
  show "content (resize d (hd c) s) c' = content d c'" using r(3) by (simp add: content_def)
qed

section \<open>Shrinking\<close>

lemma seek_keep_seg:
  "shape d \<Longrightarrow> seg d (int i) (i # c) (-1) \<Longrightarrow> n \<le> length c \<Longrightarrow>
    seek_keep d (int i) (blk d i) n = Inr (int ((i # c) ! n), blk d ((i # c) ! n))"
proof (induction n arbitrary: i c)
  case (Suc n)
  then obtain j c' where "c = j # c'" by (cases c) auto
  then show ?case using Suc by (simp add: read_block_ok)
qed simp

text \<open>The image after a chain was cut behind its \<open>p\<close>-th block, before the size is set.\<close>

lemma cut_chain:
  assumes shape: "shape d" and fok: "file_ok d f c" and p: "p < length c" and bo: "bo \<le> BLOCK_DATA"
  obtains d1 d2 where "delete_chain e chain_fuel d (next_block (dbm (blk d (c ! p)))) = Inr d1"
    and "write_block d1 (int (c ! p)) ((blk d (c ! p))\<lparr>dbm := (dbm (blk d (c ! p)))\<lparr>next_block := -1\<rparr>,
           data := overlay bo (replicate (BLOCK_DATA - bo) 0) (data (blk d (c ! p)))\<rparr>) = Inr d2"
    and "shape d2" and "file_ok d2 f (take (Suc p) c)"
    and "\<forall>i<BLOCK_NUM. used d2 i \<longleftrightarrow> used d i \<and> i \<notin> set (drop (Suc p) c)"
    and "\<forall>i. i \<notin> set c \<longrightarrow> blk d2 i = blk d i"
    and "take (BLOCK_DATA * p + bo) (content d2 (take (Suc p) c)) = take (BLOCK_DATA * p + bo) (content d c)"
proof -
  let ?P = "c ! p" and ?k = "take p c" and ?rest = "drop (Suc p) c"
  let ?B = "(blk d ?P)\<lparr>dbm := (dbm (blk d ?P))\<lparr>next_block := -1\<rparr>,
    data := overlay bo (replicate (BLOCK_DATA - bo) 0) (data (blk d ?P))\<rparr>"
  have c: "c = ?k @ ?P # ?rest" using p by (rule id_take_nth_drop)
  have P: "?P < BLOCK_NUM" using file_ok_lt [OF fok] p by simp
  have dist: "distinct ?k" "distinct ?rest" "?P \<notin> set ?k" "?P \<notin> set ?rest" "set ?k \<inter> set ?rest = {}"
    using fok c unfolding file_ok_def by (metis distinct_append distinct.simps(2) disjoint_insert(1)
      inf_commute list.simps(15))+
  have segs: "seg d (int (hd c)) ?k (int ?P) \<and> seg d (next_block (dbm (blk d ?P))) ?rest (-1)"
  proof -
    have "seg d (int (hd c)) (?k @ ?P # ?rest) (-1)" using fok c by (simp add: file_ok_def)
    then show ?thesis unfolding seg_append by auto
  qed
  then have seg_k: "seg d (int (hd c)) ?k (int ?P)" and seg_r: "seg d (next_block (dbm (blk d ?P))) ?rest (-1)"
    by blast+
  have "length ?rest \<le> chain_fuel" using seg_length_le [OF seg_r dist(2)] by (simp add: chain_fuel_def)
  then obtain d1 where d1: "delete_chain e chain_fuel d (next_block (dbm (blk d ?P))) = Inr d1" "shape d1"
      "\<forall>i<BLOCK_NUM. used d1 i \<longleftrightarrow> used d i \<and> i \<notin> set ?rest"
      "\<forall>i. i \<notin> set ?rest \<longrightarrow> blk d1 i = blk d i"
    by (rule delete_chain_seg [OF shape seg_r dist(2)])
  let ?d2 = "upd_blk d1 ?P ?B"
  have len: "length (data (blk d ?P)) = BLOCK_DATA" using shape P by (rule shape_data)
  have wr: "write_block d1 (int ?P) ?B = Inr ?d2" using d1(2) P by (rule write_block_ok)
  have shape2: "shape ?d2" using d1(2) len bo by (simp add: shape_upd_blk)
  have blk2: "blk ?d2 i = (if i = ?P then ?B else blk d1 i)" for i
    using d1(2) P by (simp add: blk_upd_blk)
  have keep: "is_head (dbm (blk ?d2 i)) = is_head (dbm (blk d i))"
      "filename (dbm (blk ?d2 i)) = filename (dbm (blk d i))" if "i \<in> set (take (Suc p) c)" for i
    using that blk2 d1(4) dist(5) p by (auto simp: take_Suc_conv_app_nth)
  have k_same: "blk ?d2 i = blk d i" if "i \<in> set ?k" for i
    using that blk2 d1(4) dist(3,5) by auto
  then have "seg ?d2 (int (hd c)) ?k (int ?P)" using seg_k seg_frame [of ?k ?d2 d] by simp
  then have seg2: "seg ?d2 (int (hd c)) (take (Suc p) c) (-1)"
    using p P blk2 by (simp add: take_Suc_conv_app_nth seg_append)
  have hd2: "hd (take (Suc p) c) = hd c" "hd c \<in> set (take (Suc p) c)"
    using p by (cases c; simp)+
  have tl2: "set (tl (take (Suc p) c)) \<subseteq> set (tl c) \<inter> set (take (Suc p) c)"
    using p by (cases c) (auto dest: in_set_takeD)
  have "\<not> is_head (dbm (blk ?d2 i))" if "i \<in> set (tl (take (Suc p) c))" for i
  proof -
    have "i \<in> set (tl c)" "i \<in> set (take (Suc p) c)" using that tl2 by blast+
    then show ?thesis using keep(1) [of i] fok by (simp add: file_ok_def)
  qed
  moreover have "take (Suc p) c \<noteq> []" using p by (cases c) simp_all
  ultimately have fok2: "file_ok ?d2 f (take (Suc p) c)"
    using fok seg2 hd2 keep [OF hd2(2)] unfolding file_ok_def by (simp add: distinct_take)
  have "content ?d2 ?k = content d ?k" using k_same by (rule content_frame)
  then have c2: "content ?d2 (take (Suc p) c) =
      content d ?k @ overlay bo (replicate (BLOCK_DATA - bo) 0) (data (blk d ?P))"
    using p blk2 by (simp add: take_Suc_conv_app_nth)
  have "i < BLOCK_NUM" if "i \<in> set ?k" for i
    using that file_ok_lt [OF fok] by (auto dest: in_set_takeD)
  then have len_k: "length (content d ?k) = BLOCK_DATA * p"
    using length_content [OF shape, of ?k] p by simp
  have "content d c = content d ?k @ data (blk d ?P) @ content d ?rest"
    by (subst c) simp
  then have bytes: "take (BLOCK_DATA * p + bo) (content ?d2 (take (Suc p) c)) =
      take (BLOCK_DATA * p + bo) (content d c)"
    unfolding c2 using len_k len bo by (simp add: overlay_def)
  have others: "\<forall>i. i \<notin> set c \<longrightarrow> blk ?d2 i = blk d i"
    using blk2 d1(4) p by (metis in_set_dropD nth_mem)
  from d1(1) wr shape2 fok2 _ others bytes show thesis by (rule that) (use d1(3) in simp)
qed

text \<open>
  An operation that ends by setting the size of a file \<open>f\<close> whose chain is now \<open>c'\<close>.
\<close>

lemma resized_ok:
  assumes ok: "fs_ok d F" and shape: "shape d2" and fok: "file_ok d2 f c'"
    and s: "0 \<le> s" "s \<le> int (BLOCK_DATA * length c')"
    and new: "set c' \<subseteq> chain_of F f \<union> free_blocks d"
    and used2: "\<forall>i<BLOCK_NUM. used d2 i \<longleftrightarrow> i \<in> set c' \<or> (used d i \<and> i \<notin> chain_of F f)"
    and same: "\<forall>i<BLOCK_NUM. used d i \<longrightarrow> i \<notin> chain_of F f \<longrightarrow> blk d2 i = blk d i"
  shows "fs_ok (resize d2 (hd c') s) (F(f \<mapsto> c'))"
    and "abs_fs (resize d2 (hd c') s) (F(f \<mapsto> c')) =
      (abs_fs d F)(f \<mapsto> take (nat s) (content d2 c'))"
proof -
  note rep = fs_okD(1) [OF ok]
  have hd: "hd c' < BLOCK_NUM" "hd c' \<in> set c'" using fok file_ok_hd file_ok_lt by blast+
  let ?d3 = "resize d2 (hd c') s"
  note r = resize_blk [OF shape hd(1), where s = s] and rf = resize_file [OF shape fok, where s = s]
  have "blk ?d3 i = blk d i" if "i < BLOCK_NUM" "used d i" "i \<notin> chain_of F f" for i
  proof -
    have "hd c' \<noteq> i" using hd(2) new that by (auto simp: free_blocks_def)
    then show ?thesis using r(8) [of i] same that by simp
  qed
  then have same3: "\<forall>i<BLOCK_NUM. used d i \<longrightarrow> i \<notin> chain_of F f \<longrightarrow> blk ?d3 i = blk d i" by blast
  have cov: "covered ?d3 c'" using s rf(2) by (simp add: covered_def)
  have bytes: "bytes_of ?d3 c' = take (nat s) (content d2 c')" by (simp add: bytes_of_def rf)
  note upd = fs_ok_update [OF ok r(1) rf(1) cov new used2 [folded r(2)] same3]
  show "fs_ok ?d3 (F(f \<mapsto> c'))" using upd(1) r(2) by simp
  show "abs_fs ?d3 (F(f \<mapsto> c')) = (abs_fs d F)(f \<mapsto> take (nat s) (content d2 c'))"
    using upd(2) bytes r(2) by simp
qed

lemma size_field_small:
  assumes "fs_ok d F" "F f = Some c"
  shows "0 \<le> size_field d c" "size_field d c \<le> int (BLOCK_DATA * BLOCK_NUM)"
proof -
  note cov = fs_okD(2) [OF assms] and fok = rep_file [OF fs_okD(1) [OF assms(1)] assms(2)]
  show "0 \<le> size_field d c" using cov by (simp add: covered_def)
  have "length c \<le> BLOCK_NUM" using fok by (auto simp: file_ok_def intro: seg_length_le)
  then have "BLOCK_DATA * length c \<le> BLOCK_DATA * BLOCK_NUM" by (rule mult_le_mono2)
  then show "size_field d c \<le> int (BLOCK_DATA * BLOCK_NUM)" using cov unfolding covered_def by linarith
qed

lemma image_size_small: "x \<le> 2 * int (BLOCK_DATA * BLOCK_NUM) + int BLOCK_DATA \<Longrightarrow> x < 2 ^ 42"
  by (simp add: BLOCK_DATA_value BLOCK_NUM_def)

lemma truncate_shrink:
  assumes ok: "fs_ok d F" and f: "F f = Some c" and s: "0 \<le> s" "s < size_field d c"
  shows "\<exists>d' c'. aofs_truncate_file e d f s = Inr (0, d') \<and> fs_ok d' (F(f \<mapsto> c')) \<and>
    abs_fs d' (F(f \<mapsto> c')) = (abs_fs d F)(f \<mapsto> take (nat s) (bytes_of d c)) \<and>
    int (length c') \<le> max (s div int BLOCK_DATA + 1) (int (length c))"
proof -
  note rep = fs_okD(1) [OF ok] and cov = fs_okD(2) [OF ok f]
  note fok = rep_file [OF rep f] and shape = rep_shape [OF rep]
  have hd: "hd c \<in> set c" "hd c < BLOCK_NUM" using fok file_ok_hd file_ok_lt by blast+
  have ch: "chain_of F f = set c" using f by (simp add: chain_of_def)
  have c: "c = hd c # tl c" using fok by (simp add: file_ok_def)
  let ?cur = "st_size (dbm (blk d (hd c)))"
  let ?p = "nat (s div int BLOCK_DATA)" and ?bo = "nat (s mod int BLOCK_DATA)"
  have s_eq: "nat s = BLOCK_DATA * ?p + ?bo"
  proof -
    have "s = int BLOCK_DATA * (s div int BLOCK_DATA) + s mod int BLOCK_DATA" by simp
    moreover have "0 \<le> s div int BLOCK_DATA" "0 \<le> s mod int BLOCK_DATA"
      using s(1) by (simp_all add: pos_imp_zdiv_nonneg_iff)
    ultimately show ?thesis by (metis int_nat_eq nat_int of_nat_add of_nat_mult)
  qed
  have "s mod int BLOCK_DATA < int BLOCK_DATA" by (rule pos_mod_bound) simp
  then have bo: "?bo \<le> BLOCK_DATA" by linarith
  have cur: "?cur = size_field d c" by (simp add: size_field_def)
  have "size_field d c < 2 ^ 42" using size_field_small [OF ok f] by (intro image_size_small) linarith
  note wb = whole_blocks_small [OF s(1)] whole_blocks_small [OF size_field_small(1) [OF ok f] this]
  note wb = wb(3,4) wb(1,2) [OF less_trans [OF s(2) \<open>size_field d c < 2 ^ 42\<close>]]
  have take_s: "take (nat s) (bytes_of d c) = take (nat s) (content d c)"
    using s by (simp add: bytes_of_def min_def)
  show ?thesis
  proof (cases "?cur div int BLOCK_DATA - s div int BLOCK_DATA = 0")
    case True
    have "aofs_truncate_file e d f s = Inr (0, resize d (hd c) s)"
      using True s cur f set_size_ok [OF shape hd(2), of s]
      by (simp add: aofs_truncate_file_def find_file_head_rep [OF rep] Let_def wb)
    moreover have "s \<le> int (BLOCK_DATA * length c)" using cov s by (simp add: covered_def)
    moreover have "set c \<subseteq> chain_of F f \<union> free_blocks d" using ch by simp
    moreover have "\<forall>i<BLOCK_NUM. used d i \<longleftrightarrow> i \<in> set c \<or> used d i \<and> i \<notin> chain_of F f"
      using rep_chain_used [OF rep, of _ f] ch by auto
    ultimately show ?thesis
      using resized_ok [OF ok shape fok s(1)] take_s by (intro exI conjI) auto
  next
    case False
    have div_le: "s div int BLOCK_DATA \<le> ?cur div int BLOCK_DATA"
      using s cur by (intro zdiv_mono1) simp_all
    have "int ?p < int (length c)"
    proof -
      have "?cur div int BLOCK_DATA \<le> (int BLOCK_DATA * int (length c)) div int BLOCK_DATA"
        using cov cur by (intro zdiv_mono1) (simp_all add: covered_def)
      then show ?thesis using False div_le s(1) by (simp add: pos_imp_zdiv_nonneg_iff)
    qed
    then have p: "?p < length c" by linarith
    have seg: "seg d (int (hd c)) (hd c # tl c) (-1)" using fok c by (metis file_ok_def)
    have "?p \<le> length (tl c)" using p by simp
    from seek_keep_seg [OF shape seg this]
    have seek: "seek_keep d (int (hd c)) (blk d (hd c)) ?p = Inr (int (c ! ?p), blk d (c ! ?p))"
      unfolding c [symmetric] .
    let ?c' = "take (Suc ?p) c"
    obtain d1 d2 where cut: "delete_chain e chain_fuel d (next_block (dbm (blk d (c ! ?p)))) = Inr d1"
        "write_block d1 (int (c ! ?p)) ((blk d (c ! ?p))\<lparr>dbm := (dbm (blk d (c ! ?p)))\<lparr>next_block := -1\<rparr>,
           data := overlay ?bo (replicate (BLOCK_DATA - ?bo) 0) (data (blk d (c ! ?p)))\<rparr>) = Inr d2"
        "shape d2" "file_ok d2 f ?c'"
        "\<forall>i<BLOCK_NUM. used d2 i \<longleftrightarrow> used d i \<and> i \<notin> set (drop (Suc ?p) c)"
        "\<forall>i. i \<notin> set c \<longrightarrow> blk d2 i = blk d i"
        "take (BLOCK_DATA * ?p + ?bo) (content d2 ?c') = take (BLOCK_DATA * ?p + ?bo) (content d c)"
      by (rule cut_chain [OF shape fok p bo])
    have hd': "hd ?c' = hd c" using p by (cases c) simp_all
    have "aofs_truncate_file e d f s = Inr (0, resize d2 (hd ?c') s)"
      using False s cur f seek cut(1,2) set_size_ok [OF cut(3) hd(2), of s] hd'
      by (simp add: aofs_truncate_file_def find_file_head_rep [OF rep] Let_def wb)
    moreover have "set ?c' \<subseteq> chain_of F f \<union> free_blocks d"
      using ch by (auto dest: in_set_takeD)
    moreover have "\<forall>i<BLOCK_NUM. used d2 i \<longleftrightarrow> i \<in> set ?c' \<or> used d i \<and> i \<notin> chain_of F f"
    proof -
      have "set c = set ?c' \<union> set (drop (Suc ?p) c)" by (metis append_take_drop_id set_append)
      moreover have "set ?c' \<inter> set (drop (Suc ?p) c) = {}"
        using fok by (metis append_take_drop_id distinct_append file_ok_def)
      moreover have "\<forall>i\<in>set c. used d i" using rep_chain_used [OF rep, of _ f] ch by auto
      ultimately show ?thesis using cut(5) ch by blast
    qed
    moreover have "s \<le> int (BLOCK_DATA * length ?c')"
    proof -
      have "length ?c' = Suc ?p" using p by simp
      then have "nat s \<le> BLOCK_DATA * length ?c'" unfolding s_eq using bo by simp
      then show ?thesis by linarith
    qed
    moreover have "take (nat s) (content d2 ?c') = take (nat s) (content d c)"
      unfolding s_eq by (rule cut(7))
    moreover have "int (length ?c') \<le> s div int BLOCK_DATA + 1"
    proof -
      have "length ?c' = Suc ?p" using p by simp
      moreover have "0 \<le> s div int BLOCK_DATA" using s(1) by (simp add: pos_imp_zdiv_nonneg_iff)
      ultimately show ?thesis by linarith
    qed
    ultimately show ?thesis
      using resized_ok [OF ok cut(3,4) s(1)] take_s cut(6) ch by (intro exI conjI) auto
  qed
qed

section \<open>Growing\<close>

lemma seek_last_seg:
  "shape d \<Longrightarrow> seg d (int i) (i # c) (-1) \<Longrightarrow> length c \<le> fuel \<Longrightarrow>
    seek_last fuel d (int i) (blk d i) = Inr (int (last (i # c)), blk d (last (i # c)))"
proof (induction c arbitrary: i fuel)
  case Nil
  then show ?case by (cases fuel) simp_all
next
  case (Cons j c)
  then obtain fuel' where "fuel = Suc fuel'" by (cases fuel) auto
  then show ?case using Cons by (simp add: read_block_ok)
qed

text \<open>The loop that appends \<open>m\<close> blocks, as a write of no bytes.\<close>

lemma append_blocks_wrote:
  "shape d \<Longrightarrow> on_chain d [cur] \<Longrightarrow> m \<le> card (free_blocks d) \<Longrightarrow> length path < 256 \<Longrightarrow>
    \<exists>d' new. append_blocks e path m d (int cur) (blk d cur) = Inr (True, d') \<and>
      wrote d d' [cur] new 0 [] \<and> length new = m"
proof (induction m arbitrary: d cur)
  case 0
  then have "wrote d d [cur] [] 0 []" by (auto simp: wrote_def on_chain_def)
  then show ?case by auto
next
  case (Suc m)
  note shape = Suc.prems(1) and chain = Suc.prems(2)
  have cur: "cur < BLOCK_NUM" "used d cur" using chain by (simp_all add: on_chain_def)
  have "free_blocks d \<noteq> {}" using Suc.prems(3) by auto
  then obtain n d1 where a: "allocate_block e d = Inr (int n, d1)" "n \<in> free_blocks d"
      "\<forall>j\<in>free_blocks d. n \<le> j" "shape d1" "free_blocks d1 = free_blocks d - {n}"
      "\<forall>j<BLOCK_NUM. used d1 j \<longleftrightarrow> j = n \<or> used d j"
      "blk d1 n = clear_block e (stack_block e)" "\<forall>j. j \<noteq> n \<longrightarrow> blk d1 j = blk d j"
    by (rule allocate_block_free [OF shape])
  have n: "n < BLOCK_NUM" "n \<noteq> cur" using a(2) cur by (auto simp: free_blocks_def)
  let ?B = "(blk d cur)\<lparr>dbm := (dbm (blk d cur))\<lparr>next_block := int n\<rparr>\<rparr>"
  let ?C = "(clear_block e (blk d1 n))\<lparr>dbm := (dbm (clear_block e (blk d1 n)))\<lparr>filename := path\<rparr>\<rparr>"
  let ?d2 = "upd_blk d1 cur ?B"
  let ?d3 = "upd_blk ?d2 n ?C"
  have shape2: "shape ?d2" using a(4) shape cur(1) by (simp add: shape_upd_blk shape_data)
  have shape3: "shape ?d3" using shape2 by (simp add: shape_upd_blk)
  have blk3: "blk ?d3 i = (if i = n then ?C else if i = cur then ?B else blk d1 i)" for i
    using a(4) shape2 n cur(1) by (simp add: blk_upd_blk)
  have blk2n: "blk ?d2 n = blk d1 n" using a(4) cur(1) n(2) by (simp add: blk_upd_blk)
  have step: "append_blocks e path (Suc m) d (int cur) (blk d cur) =
      append_blocks e path m ?d3 (int n) (blk ?d3 n)"
    using a(1) a(4) n cur(1) shape2 blk2n blk3 Suc.prems(4)
    by (simp add: write_block_ok read_block_ok strcpy_filename_def)
  have "card (free_blocks d) = Suc (card (free_blocks ?d3))"
    using a(2,5) by (metis card_Suc_Diff1 finite_free_blocks free_blocks_upd_blk)
  then have "m \<le> card (free_blocks ?d3)" using Suc.prems(3) by simp
  moreover have "on_chain ?d3 [n]" using n(1) a(6) blk3 by (simp add: on_chain_def)
  ultimately obtain d' new where d': "append_blocks e path m ?d3 (int n) (blk ?d3 n) = Inr (True, d')"
      "wrote ?d3 d' [n] new 0 []" "length new = m"
    using Suc.IH [OF shape3] Suc.prems(4) by blast
  have "wrote d d' [cur] (n # new) 0 []"
  proof (rule wrote_append [OF d'(2) shape chain a(2), where B = ?B])
    show "\<forall>i<BLOCK_NUM. used ?d3 i \<longleftrightarrow> i = n \<or> used d i" using a(6) by simp
    show "\<forall>i. i \<noteq> n \<longrightarrow> i \<noteq> cur \<longrightarrow> blk ?d3 i = blk d i" using blk3 a(8) by simp
  qed (use a(5) n blk3 in \<open>simp_all add: keeps_def\<close>)
  then show ?case using step d'(1,3) by auto
qed

text \<open>A write of no bytes behind the last block, seen from the whole chain.\<close>

lemma wrote_behind:
  "shape d \<Longrightarrow> on_chain d (xs @ [cur]) \<Longrightarrow> wrote d d' [cur] new 0 [] \<Longrightarrow>
    wrote d d' (xs @ [cur]) new 0 []"
proof (induction xs)
  case (Cons x xs)
  have chain': "on_chain d (xs @ [cur])"
    using Cons.prems(2) by (cases xs) (auto simp: on_chain_def)
  note w = Cons.IH [OF Cons.prems(1) chain' Cons.prems(3)]
  obtain r rs where rs: "xs @ [cur] = r # rs" by (cases xs) auto
  have "next_block (dbm (blk d x)) = int r" "d = upd_blk d x (blk d x)"
    using Cons.prems(2) rs by (auto simp: on_chain_def upd_blk_def blk_def)
  then show ?case
    using wrote_next [OF w [unfolded rs] Cons.prems(1), of x "blk d x" 0 "[]"] Cons.prems(2) rs by simp
qed simp

lemma truncate_grow:
  assumes ok: "fs_ok d F" and f: "F f = Some c" and s: "size_field d c < s" and len: "length f < 256"
    and m: "m = nat (s div int BLOCK_DATA - size_field d c div int BLOCK_DATA)"
    and free: "m \<le> card (free_blocks d)"
  shows "\<exists>d2 new. aofs_truncate_file e d f s = Inr (0, resize d2 (hd c) s) \<and>
    wrote d d2 c new 0 [] \<and> length new = m \<and> file_ok d2 f (c @ new)"
proof -
  note rep = fs_okD(1) [OF ok] and cov = fs_okD(2) [OF ok f]
  note fok = rep_file [OF rep f] and shape = rep_shape [OF rep]
  have hd: "hd c < BLOCK_NUM" using fok file_ok_hd file_ok_lt by blast
  have c: "c = hd c # tl c" "c = butlast c @ [last c]" using fok by (simp_all add: file_ok_def)
  have seg: "seg d (int (hd c)) c (-1)" "distinct c" using fok by (simp_all add: file_ok_def)
  have used: "\<forall>i\<in>set c. used d i" using rep_chain_used [OF rep, of _ f] f by (simp add: chain_of_def)
  have chain: "on_chain d c" using fok used by (simp add: on_chain_def file_ok_def)
  have cur: "st_size (dbm (blk d (hd c))) = size_field d c" by (simp add: size_field_def)
  have div_le: "size_field d c div int BLOCK_DATA \<le> s div int BLOCK_DATA"
    using s by (intro zdiv_mono1) simp_all
  have lim: "size_field d c < 2 ^ 42" using size_field_small [OF ok f] by (intro image_size_small) linarith
  have "card (free_blocks d) \<le> card {..<BLOCK_NUM}" by (intro card_mono) (auto simp: free_blocks_def)
  then have "m \<le> BLOCK_NUM" using free by simp
  then have "s div int BLOCK_DATA \<le> size_field d c div int BLOCK_DATA + int BLOCK_NUM" using m by linarith
  moreover have "size_field d c div int BLOCK_DATA \<le> int BLOCK_NUM"
    using size_field_small [OF ok f] by (simp add: BLOCK_DATA_value BLOCK_NUM_def)
  ultimately have "s < 2 ^ 42" by (simp add: BLOCK_DATA_value BLOCK_NUM_def)
  moreover have "0 \<le> s" using size_field_small(1) [OF ok f] s by simp
  ultimately have wb: "whole_blocks (size_field d c) = size_field d c div int BLOCK_DATA" "whole_blocks s = s div int BLOCK_DATA" "as_size s = s"
    using whole_blocks_small size_field_small(1) [OF ok f] lim by blast+
  show ?thesis
  proof (cases "m = 0")
    case True
    then have "s div int BLOCK_DATA - size_field d c div int BLOCK_DATA = 0" using m div_le by simp
    then have "aofs_truncate_file e d f s = Inr (0, resize d (hd c) s)"
      using s cur f set_size_ok [OF shape hd, of s]
      by (simp add: aofs_truncate_file_def find_file_head_rep [OF rep] Let_def wb)
    moreover have "wrote d d c [] 0 []" using shape seg by (simp add: wrote_def)
    ultimately show ?thesis using True fok by auto
  next
    case False
    then have diff: "s div int BLOCK_DATA - size_field d c div int BLOCK_DATA \<noteq> 0" using m by simp
    have "length c \<le> BLOCK_NUM" using seg by (rule seg_length_le)
    then have "length (tl c) \<le> chain_fuel" by (simp add: chain_fuel_def)
    moreover have "seg d (int (hd c)) (hd c # tl c) (-1)" using seg(1) c(1) by metis
    ultimately have "seek_last chain_fuel d (int (hd c)) (blk d (hd c)) = Inr (int (last c), blk d (last c))"
      using seek_last_seg [OF shape, of "hd c" "tl c" chain_fuel] c(1) by metis
    moreover have chain1: "on_chain d [last c]"
    proof -
      have "seg d (int (hd c)) (butlast c @ [last c]) (-1)" using seg(1) c(2) by simp
      then have "\<exists>k. seg d k [last c] (-1)" unfolding seg_append by blast
      moreover have "last c \<in> set c" using c(2) by (metis last_in_set snoc_eq_iff_butlast)
      ultimately show ?thesis using used by (simp add: on_chain_def)
    qed
    moreover obtain d2 new where d2: "append_blocks e f m d (int (last c)) (blk d (last c)) = Inr (True, d2)"
        "wrote d d2 [last c] new 0 []" "length new = m"
      using append_blocks_wrote [OF shape chain1 free len] by blast
    moreover have w: "wrote d d2 c new 0 []"
      using wrote_behind [OF shape, of "butlast c" "last c"] chain d2(2) c(2) by simp
    moreover have "shape d2" using w by (simp add: wrote_def)
    ultimately have "aofs_truncate_file e d f s = Inr (0, resize d2 (hd c) s)"
      using s cur f diff m set_size_ok [OF _ hd, of d2 s]
      by (simp add: aofs_truncate_file_def find_file_head_rep [OF rep] Let_def wb)
    then show ?thesis using w d2(3) wrote_file_ok [OF w fok] by blast
  qed
qed

lemma truncate_grow_ok:
  assumes ok: "fs_ok d F" and f: "F f = Some c" and s: "size_field d c < s" and len: "length f < 256"
    and m: "m = nat (s div int BLOCK_DATA - size_field d c div int BLOCK_DATA)"
    and free: "m \<le> card (free_blocks d)" and room: "s \<le> int (BLOCK_DATA * (length c + m))"
  shows "\<exists>d' c' pad. aofs_truncate_file e d f s = Inr (0, d') \<and> fs_ok d' (F(f \<mapsto> c')) \<and>
    abs_fs d' (F(f \<mapsto> c')) = (abs_fs d F)(f \<mapsto> bytes_of d c @ pad) \<and>
    int (length (bytes_of d c @ pad)) = s"
proof -
  note rep = fs_okD(1) [OF ok] and cov = fs_okD(2) [OF ok f]
  note fok = rep_file [OF rep f]
  have ch: "chain_of F f = set c" using f by (simp add: chain_of_def)
  have used: "\<forall>i\<in>set c. used d i" using rep_chain_used [OF rep, of _ f] ch by simp
  obtain d2 new where d2: "aofs_truncate_file e d f s = Inr (0, resize d2 (hd c) s)"
      "wrote d d2 c new 0 []" "length new = m" "file_ok d2 f (c @ new)"
    using truncate_grow [OF ok f s len m free] by blast
  have shape2: "shape d2" using d2(2) by (simp add: wrote_def)
  have hd: "hd (c @ new) = hd c" using fok by (simp add: file_ok_def)
  have s0: "0 \<le> s" using s cov by (simp add: covered_def)
  have "blk d2 i = blk d i" if "used d i" "i \<notin> set c" for i
  proof -
    have "i \<notin> set (c @ new)" using that d2(2) by (auto simp: wrote_def free_blocks_def)
    then show ?thesis using d2(2) by (simp add: wrote_def)
  qed
  then have same: "\<forall>i<BLOCK_NUM. used d i \<longrightarrow> i \<notin> chain_of F f \<longrightarrow> blk d2 i = blk d i" using ch by simp
  have used2: "\<forall>i<BLOCK_NUM. used d2 i \<longleftrightarrow> i \<in> set (c @ new) \<or> used d i \<and> i \<notin> chain_of F f"
    using d2(2) used ch by (auto simp: wrote_def)
  have sub: "set (c @ new) \<subseteq> chain_of F f \<union> free_blocks d" using d2(2) ch by (auto simp: wrote_def)
  have room2: "s \<le> int (BLOCK_DATA * length (c @ new))" using room d2(3) by simp
  note upd = resized_ok [OF ok shape2 d2(4) s0 room2 sub used2 same, unfolded hd]
  let ?all = "content d c @ replicate (BLOCK_DATA * length new) 0"
  have cont: "content d2 (c @ new) = ?all" using d2(2) by (simp add: wrote_def)
  have len_all: "length ?all = BLOCK_DATA * length (c @ new)"
    using length_chain_content [OF rep f] by (simp add: add_mult_distrib2)
  define pad where "pad = drop (nat (size_field d c)) (take (nat s) ?all)"
  have "nat (size_field d c) \<le> nat s" using s by simp
  moreover have "nat (size_field d c) \<le> length (content d c)"
    using cov length_chain_content [OF rep f] unfolding covered_def by linarith
  ultimately have "bytes_of d c = take (nat (size_field d c)) (take (nat s) ?all)"
    by (simp add: bytes_of_def min_def)
  then have "bytes_of d c @ pad = take (nat s) ?all" unfolding pad_def by (metis append_take_drop_id)
  moreover have "int (length (take (nat s) ?all)) = s"
    unfolding length_take len_all using room2 s0 by linarith
  ultimately show ?thesis using d2(1) upd unfolding cont by metis
qed

text \<open>
  A file that fills its blocks exactly is left without the block its new last bytes need.
\<close>

lemma truncate_grow_short:
  assumes ok: "fs_ok d F" and f: "F f = Some c" and len: "length f < 256"
    and full: "size_field d c = int (BLOCK_DATA * length c)"
    and s: "size_field d c < s" "s mod int BLOCK_DATA \<noteq> 0"
    and free: "nat (s div int BLOCK_DATA - size_field d c div int BLOCK_DATA) \<le> card (free_blocks d)"
  shows "\<exists>d' c'. aofs_truncate_file e d f s = Inr (0, d') \<and> file_ok d' f c' \<and> hd c' = hd c \<and>
    size_field d' c' = s \<and> int (BLOCK_DATA * length c') < s"
proof -
  note fok = rep_file [OF fs_okD(1) [OF ok] f]
  obtain d2 new where d2: "aofs_truncate_file e d f s = Inr (0, resize d2 (hd c) s)"
      "wrote d d2 c new 0 []" "file_ok d2 f (c @ new)"
      "length new = nat (s div int BLOCK_DATA - size_field d c div int BLOCK_DATA)"
    using truncate_grow [OF ok f s(1) len refl free] by blast
  have shape2: "shape d2" using d2(2) by (simp add: wrote_def)
  have hd: "hd (c @ new) = hd c" using fok by (simp add: file_ok_def)
  have "size_field d c div int BLOCK_DATA \<le> s div int BLOCK_DATA"
    using s by (intro zdiv_mono1) simp_all
  moreover have "size_field d c div int BLOCK_DATA = int (length c)" by (simp add: full)
  ultimately have "int (length (c @ new)) = s div int BLOCK_DATA" using d2(4) by simp
  then have "int (BLOCK_DATA * length (c @ new)) = int BLOCK_DATA * (s div int BLOCK_DATA)" by simp
  also have "\<dots> = s - s mod int BLOCK_DATA" by (simp add: minus_mod_eq_mult_div)
  also have "\<dots> < s"
  proof -
    have "0 \<le> s mod int BLOCK_DATA" by simp
    then show ?thesis using s(2) by linarith
  qed
  finally show ?thesis
    using d2(1) resize_file [OF shape2 d2(3), where s = s, unfolded hd] hd by metis
qed

end
