(* ===== verification/Aofs_Props.thy ===== *)
theory Aofs_Props
  imports Aofs_Fuse Aofs_Trunc
begin

text \<open>
  The properties of AOFS, each stated on the operations of the code, with a concrete image where
  its hypotheses hold. The concrete images start from \<open>image0\<close>, what \<open>init_fs\<close> makes of a
  structure of zeroed blocks.
\<close>

section \<open>Concrete images\<close>

definition block0 :: block where
  "block0 = \<lparr>dbm = \<lparr>filename = '''', next_block = 0, is_head = False, st_mode = 0, st_atim = 0,
      st_mtim = 0, st_ctim = 0, st_size = 0, st_uid = 0, st_gid = 0, st_blocks = 0, st_blksize = 0,
      st_flags = 0, st_birthtim = 0\<rparr>, data = replicate BLOCK_DATA 0\<rparr>"

definition env0 :: env where
  "env0 = \<lparr>now = 1700000000, stack_block = block0\<rparr>"

definition image0 :: aofs where
  "image0 = init_fs env0 \<lparr>sb = \<lparr>magicnum = 0, totalblocks = 0, blocksize = 0, bitmap = []\<rparr>,
    blocks = replicate BLOCK_NUM block0\<rparr>"

lemma image0_ok: "fs_ok image0 Map.empty" and image0_free: "free_blocks image0 = {..<BLOCK_NUM}"
  and image0_card: "card (free_blocks image0) = BLOCK_NUM" and image0_abs: "abs_fs image0 F = (\<lambda>f. map_option (bytes_of image0) (F f))"
  by (simp_all add: image0_def init_fs_ok init_fs_free abs_fs_def fun_eq_iff)

lemma BLOCK_NUM_value: "BLOCK_NUM = 4096"
  by (rule BLOCK_NUM_def)

lemma image0_shape: "shape image0"
  by (rule rep_shape [OF fs_okD(1) [OF image0_ok]])

lemma created_file:
  obtains n d where "fs_ok d [''/a'' \<mapsto> [n]]" and "abs_fs d [''/a'' \<mapsto> [n]] = [''/a'' \<mapsto> []]"
    and "card (free_blocks d) = BLOCK_NUM - 1" and "aofs_create_file env0 image0 ''/a'' = Inr (int n, d)"
    and "size_field d [n] = 0"
proof -
  have free: "free_blocks image0 \<noteq> {}" using image0_card by (auto simp: BLOCK_NUM_value)
  obtain n d where c: "aofs_create_file env0 image0 ''/a'' = Inr (int n, d)" "fs_ok d [''/a'' \<mapsto> [n]]"
      "abs_fs d [''/a'' \<mapsto> [n]] = (abs_fs image0 Map.empty)(''/a'' \<mapsto> [])"
      "n \<in> free_blocks image0" "free_blocks d = free_blocks image0 - {n}" "blk d n = new_head env0 ''/a''"
    by (rule create_file_ok [OF image0_ok _ _ free, where f = "''/a''"]) simp_all
  have "card (free_blocks d) = BLOCK_NUM - 1" using c(4,5) image0_card by simp
  moreover have "size_field d [n] = 0" using c(6) by (simp add: size_field_def new_head_def Let_def)
  moreover have "abs_fs image0 Map.empty = Map.empty" by (simp add: image0_abs)
  ultimately show thesis using c that by simp
qed

lemma written_file:
  assumes "length bs \<le> BLOCK_DATA * BLOCK_NUM"
  obtains d c where "fs_ok d [''/a'' \<mapsto> c]" and "abs_fs d [''/a'' \<mapsto> c] = [''/a'' \<mapsto> bs]"
    and "size_field d c = int (length bs)" and "length bs \<le> BLOCK_DATA * length c"
    and "bytes_of d c = bs"
proof -
  obtain n d where d: "fs_ok d [''/a'' \<mapsto> [n]]" "abs_fs d [''/a'' \<mapsto> [n]] = [''/a'' \<mapsto> []]"
      "card (free_blocks d) = BLOCK_NUM - 1" "size_field d [n] = 0"
    by (rule created_file)
  have room: "0 + length bs \<le> BLOCK_DATA * (length [n] + card (free_blocks d))"
    using assms d(3) by (simp add: BLOCK_NUM_value)
  obtain d' new where w: "fs_ok d' ([''/a'' \<mapsto> [n]](''/a'' \<mapsto> [n] @ new))"
      "abs_fs d' ([''/a'' \<mapsto> [n]](''/a'' \<mapsto> [n] @ new)) =
        (abs_fs d [''/a'' \<mapsto> [n]])(''/a'' \<mapsto> take 0 (bytes_of d [n]) @ bs)"
    by (rule write_existing_ok [OF d(1), of "''/a''" "[n]" 0 0 bs env0]) (use room d(4) in simp_all)
  let ?c = "[n] @ new"
  have ok: "fs_ok d' [''/a'' \<mapsto> ?c]" using w(1) by simp
  have abs: "abs_fs d' [''/a'' \<mapsto> ?c] = [''/a'' \<mapsto> bs]" using w(2) d(2) by simp
  have "abs_fs d' [''/a'' \<mapsto> ?c] ''/a'' = Some (bytes_of d' ?c)" by (simp add: abs_fs_def)
  then have bytes: "bytes_of d' ?c = bs" using abs by simp
  have cov: "covered d' ?c" using fs_okD(2) [OF ok, of "''/a''" ?c] by simp
  have size: "size_field d' ?c = int (length bs)"
    using length_bytes_of [OF ok, of "''/a''" ?c] bytes cov unfolding covered_def by simp
  have "length bs \<le> BLOCK_DATA * length ?c" using cov size unfolding covered_def by linarith
  from ok abs size this bytes show thesis by (rule that)
qed

section \<open>Writing\<close>

text \<open>For a missing file \<open>aofs_write_file\<close> goes on as on the image with the created file.\<close>

lemma write_after_create:
  assumes rep: "rep d F" and new: "F f = None" and rep1: "rep d1 (F(f \<mapsto> [n]))"
    and create: "aofs_create_file e d f = Inr (int n, d1)" and n: "n < BLOCK_NUM"
  shows "aofs_write_file e d f buf offset = aofs_write_file e d1 f buf offset"
  using new n create
  by (simp add: aofs_write_file_def find_file_head_rep [OF rep] find_file_head_rep [OF rep1]
      read_block_ok [OF rep_shape [OF rep1]])

definition room_for :: "aofs \<Rightarrow> (string \<Rightarrow> nat list option) \<Rightarrow> string \<Rightarrow> nat \<Rightarrow> bool" where
  "room_for d F f n \<longleftrightarrow> (F f = None \<longrightarrow> free_blocks d \<noteq> {}) \<and>
    n \<le> BLOCK_DATA * ((case F f of None \<Rightarrow> 0 | Some c \<Rightarrow> length c) + card (free_blocks d))"

text \<open>
  C1: \<open>aofs_write_file\<close> with enough free blocks returns the number of bytes it was given and
  implements "replace everything from the offset on": the file afterwards is its first \<open>offset\<close>
  bytes (all of them when the offset is beyond its end) followed by the buffer, created if it
  was missing; every other file is unchanged and the image is well formed again.
\<close>

theorem write_file_refines:
  assumes ok: "fs_ok d F" and off: "0 \<le> offset" and len: "length f < 256"
    and old: "old = (case abs_fs d F f of None \<Rightarrow> [] | Some bs \<Rightarrow> bs)"
    and room: "room_for d F f (min (nat offset) (length old) + length buf)"
  shows "\<exists>d' F'. aofs_write_file e d f buf offset = Inr (int (length buf), d') \<and> fs_ok d' F' \<and>
    abs_fs d' F' = (abs_fs d F)(f \<mapsto> take (nat offset) old @ buf)"
proof (cases "F f")
  case (Some c)
  have old_c: "old = bytes_of d c" using old Some by (simp add: abs_fs_def)
  have len_c: "length (bytes_of d c) = nat (size_field d c)" by (rule length_bytes_of [OF ok Some])
  define k where "k = min (nat offset) (nat (size_field d c))"
  have room_c: "k + length buf \<le> BLOCK_DATA * (length c + card (free_blocks d))"
    using room Some old_c len_c by (simp add: room_for_def k_def)
  have "take k (bytes_of d c) = take (nat offset) old"
    using old_c len_c by (simp add: k_def min_def)
  then show ?thesis
    using write_existing_ok [OF ok Some off len k_def room_c, of e] by metis
next
  case None
  have old_nil: "old = []" using old None by (simp add: abs_fs_def)
  have free: "free_blocks d \<noteq> {}" using room None by (simp add: room_for_def)
  obtain n d1 where c: "aofs_create_file e d f = Inr (int n, d1)" "fs_ok d1 (F(f \<mapsto> [n]))"
      "abs_fs d1 (F(f \<mapsto> [n])) = (abs_fs d F)(f \<mapsto> [])" "n \<in> free_blocks d"
      "free_blocks d1 = free_blocks d - {n}" "blk d1 n = new_head e f"
    by (rule create_file_ok [OF ok None len free])
  have size: "size_field d1 [n] = 0" using c(6) by (simp add: size_field_def new_head_def Let_def)
  have "card (free_blocks d) = Suc (card (free_blocks d1))"
    using c(4,5) by (metis card_Suc_Diff1 finite_free_blocks)
  then have room1: "0 + length buf \<le> BLOCK_DATA * (length [n] + card (free_blocks d1))"
    using room None old_nil by (simp add: room_for_def)
  have n: "n < BLOCK_NUM" using c(4) by (simp add: free_blocks_def)
  obtain d' new where w: "aofs_write_file e d1 f buf offset = Inr (int (length buf), d')"
      "fs_ok d' ((F(f \<mapsto> [n]))(f \<mapsto> [n] @ new))"
      "abs_fs d' ((F(f \<mapsto> [n]))(f \<mapsto> [n] @ new)) =
        (abs_fs d1 (F(f \<mapsto> [n])))(f \<mapsto> take 0 (bytes_of d1 [n]) @ buf)"
    by (rule write_existing_ok [OF c(2) _ off len _ room1]) (simp_all add: size)
  have "aofs_write_file e d f buf offset = aofs_write_file e d1 f buf offset"
    by (rule write_after_create [OF fs_okD(1) [OF ok] None fs_okD(1) [OF c(2)] c(1) n])
  then show ?thesis using w c(3) old_nil by (intro exI conjI) auto
qed

theorem write_file_refines_witness:
  "\<exists>d' F'. aofs_write_file env0 image0 ''/a'' [1, 2, 3] 0 = Inr (3, d') \<and> fs_ok d' F' \<and>
    abs_fs d' F' = [''/a'' \<mapsto> [1, 2, 3]]"
proof -
  have "room_for image0 Map.empty ''/a'' (min (nat 0) (length ([] :: u8 list)) + length [1, 2, 3 :: u8])"
    using image0_card by (auto simp: room_for_def BLOCK_NUM_value BLOCK_DATA_value)
  from write_file_refines [OF image0_ok _ _ _ this, of env0] show ?thesis
    by (simp add: image0_abs)
qed

section \<open>Creating, finding and deleting\<close>

text \<open>
  \<open>aofs_create_file\<close> of a new name puts an empty file of that name on the image and changes
  nothing else; the block it returns is the head that \<open>aofs_find_file_head\<close> then finds.
\<close>

theorem create_file_refines:
  assumes ok: "fs_ok d F" and new: "F f = None" and len: "length f < 256" and free: "free_blocks d \<noteq> {}"
  shows "\<exists>n d' F'. aofs_create_file e d f = Inr (int n, d') \<and> fs_ok d' F' \<and>
    abs_fs d' F' = (abs_fs d F)(f \<mapsto> []) \<and> free_blocks d' = free_blocks d - {n} \<and>
    aofs_find_file_head d' f = Inr (Some (n, blk d' n))"
proof -
  obtain n d' where c: "aofs_create_file e d f = Inr (int n, d')" "fs_ok d' (F(f \<mapsto> [n]))"
      "abs_fs d' (F(f \<mapsto> [n])) = (abs_fs d F)(f \<mapsto> [])" "n \<in> free_blocks d"
      "free_blocks d' = free_blocks d - {n}" "blk d' n = new_head e f"
    by (rule create_file_ok [OF ok new len free])
  have "aofs_find_file_head d' f = Inr (Some (n, blk d' n))"
    using find_file_head_rep [OF fs_okD(1) [OF c(2)], of f] by simp
  then show ?thesis using c by blast
qed

theorem create_file_refines_witness:
  "\<exists>n d' F'. aofs_create_file env0 image0 ''/b'' = Inr (int n, d') \<and> fs_ok d' F' \<and>
    abs_fs d' F' = [''/b'' \<mapsto> []]"
proof -
  have "free_blocks image0 \<noteq> {}" using image0_card by (auto simp: BLOCK_NUM_value)
  from create_file_refines [OF image0_ok _ _ this, of "''/b''" env0] show ?thesis
    by (auto simp: image0_abs)
qed

text \<open>
  C39: \<open>aofs_delete_file\<close> of an existing file returns 0, removes exactly that file and frees
  exactly its blocks; of a missing file it returns \<open>-ENOENT\<close> and leaves the image alone.
\<close>

theorem delete_file_refines:
  assumes ok: "fs_ok d F"
  shows "case F f of None \<Rightarrow> aofs_delete_file e d f = Inr (- ENOENT, d)
    | Some c \<Rightarrow> (\<exists>d' F'. aofs_delete_file e d f = Inr (0, d') \<and> fs_ok d' F' \<and>
        abs_fs d' F' = (abs_fs d F)(f := None) \<and> free_blocks d' = free_blocks d \<union> set c)"
proof (cases "F f")
  case None
  then show ?thesis
    by (simp add: aofs_delete_file_def find_file_head_rep [OF fs_okD(1) [OF ok]])
next
  case (Some c)
  obtain d' where "aofs_delete_file e d f = Inr (0, d')" "fs_ok d' (F(f := None))"
      "abs_fs d' (F(f := None)) = (abs_fs d F)(f := None)" "free_blocks d' = free_blocks d \<union> set c"
    by (rule delete_file_ok [OF ok Some])
  then show ?thesis using Some by auto
qed

theorem delete_file_refines_witness:
  "\<exists>d d' F'. aofs_create_file env0 image0 ''/a'' = Inr d \<and>
    aofs_delete_file env0 (snd d) ''/a'' = Inr (0, d') \<and> fs_ok d' F' \<and> abs_fs d' F' = Map.empty"
proof -
  obtain n d where d: "fs_ok d [''/a'' \<mapsto> [n]]" "abs_fs d [''/a'' \<mapsto> [n]] = [''/a'' \<mapsto> []]"
      "card (free_blocks d) = BLOCK_NUM - 1" "aofs_create_file env0 image0 ''/a'' = Inr (int n, d)"
      "size_field d [n] = 0"
    by (rule created_file)
  from delete_file_refines [OF d(1), where f = "''/a''" and e = env0] show ?thesis
    using d(2,4) by auto
qed

text \<open>
  The loop of \<open>delete_chain\<close> ends, from any block or -1, on every image whose links are
  block numbers or -1, even where they run in a cycle: it never exhausts \<open>chain_fuel\<close>.
\<close>

theorem delete_chain_terminates:
  assumes "shape d" and "links_ok d" and "n = -1 \<or> 0 \<le> n \<and> nat n < BLOCK_NUM"
  shows "\<exists>d'. delete_chain e chain_fuel d n = Inr d'"
  by (rule delete_chain_ends [OF assms]) (use card_linked [of d] in \<open>simp add: chain_fuel_def\<close>)

theorem delete_chain_terminates_witness:
  "\<exists>d'. delete_chain env0 chain_fuel
    (upd_blk image0 5 (block0\<lparr>dbm := (dbm block0)\<lparr>next_block := 5\<rparr>\<rparr>)) 5 = Inr d'"
proof (rule delete_chain_terminates)
  let ?b = "block0\<lparr>dbm := (dbm block0)\<lparr>next_block := 5\<rparr>\<rparr>"
  show "shape (upd_blk image0 5 ?b)"
    by (rule shape_upd_blk [OF image0_shape]) (simp add: block0_def)
  have "next_block (dbm (blk image0 i)) = -1" if "i < BLOCK_NUM" for i
    using that by (simp add: image0_def init_fs_def blk_def BITMAP_SIZE_def)
  then show "links_ok (upd_blk image0 5 ?b)"
    by (simp add: links_ok_def blk_upd_blk [OF image0_shape] BLOCK_NUM_value)
qed (simp add: BLOCK_NUM_value)

section \<open>Reading\<close>

lemma last_block_exists:
  "0 < n \<Longrightarrow> offset + n \<le> BLOCK_DATA * len \<Longrightarrow> (offset + n - 1) div BLOCK_DATA < len"
  by (rule less_mult_imp_div_less) (simp add: mult.commute)

text \<open>
  C40: a read that stays inside one block, or starts at a block boundary and takes at most two
  blocks, fills the buffer with the bytes of the file's chain from the offset on (whatever the
  size field says), and leaves every file as it was.
\<close>

theorem read_file_correct:
  assumes ok: "fs_ok d F" and f: "F f = Some c" and n: "0 < length buf" "length buf < 2 ^ 31 - BLOCK_DATA"
    and easy: "offset mod BLOCK_DATA + length buf \<le> BLOCK_DATA \<or>
      offset mod BLOCK_DATA = 0 \<and> length buf \<le> 2 * BLOCK_DATA"
    and exists: "offset + length buf \<le> BLOCK_DATA * length c"
  shows "\<exists>d'. aofs_read_file e d f buf offset =
      Inr (int (length buf), take (length buf) (drop offset (content d c)), d') \<and>
    fs_ok d' F \<and> abs_fs d' F = abs_fs d F"
proof -
  have lt: "(offset + length buf - 1) div BLOCK_DATA < length c"
    by (rule last_block_exists [OF n(1) exists])
  have "aofs_read_file e d f buf offset =
      Inr (int (length buf), take (length buf) (drop offset (content d c)), stamp e d (hd c))"
  proof (cases "offset mod BLOCK_DATA + length buf \<le> BLOCK_DATA")
    case True
    have "offset \<le> offset + length buf - 1" using n(1) by linarith
    then have "offset div BLOCK_DATA \<le> (offset + length buf - 1) div BLOCK_DATA"
      by (rule div_le_mono)
    then show ?thesis using read_one_block [OF ok f n True] lt by simp
  next
    case False
    then have al: "offset mod BLOCK_DATA = 0" "BLOCK_DATA < length buf" "length buf \<le> 2 * BLOCK_DATA"
      using easy by simp_all
    have "(offset + BLOCK_DATA) div BLOCK_DATA \<le> (offset + length buf - 1) div BLOCK_DATA"
      using al(2) by (intro div_le_mono) simp
    moreover have "(offset + BLOCK_DATA) div BLOCK_DATA = Suc (offset div BLOCK_DATA)"
      by (simp add: div_add_self2)
    ultimately have "Suc (offset div BLOCK_DATA) < length c" using lt by linarith
    then show ?thesis by (rule read_two_blocks [OF ok f al(2,3,1)])
  qed
  then show ?thesis using stamp_ok [OF ok f, of e] by blast
qed

theorem read_file_correct_witness:
  "\<exists>d d'. aofs_read_file env0 d ''/a'' [0, 0] 1 = Inr (2, [8, 9], d')"
proof -
  obtain d c where d: "fs_ok d [''/a'' \<mapsto> c]" "abs_fs d [''/a'' \<mapsto> c] = [''/a'' \<mapsto> [7, 8, 9]]"
      "size_field d c = int (length [7, 8, 9 :: u8])" "length [7, 8, 9 :: u8] \<le> BLOCK_DATA * length c"
      "bytes_of d c = [7, 8, 9]"
    by (rule written_file [of "[7, 8, 9]"]) (simp add: BLOCK_NUM_value BLOCK_DATA_value)
  have "\<exists>d'. aofs_read_file env0 d ''/a'' [0, 0] 1 =
      Inr (int (length [0, 0 :: u8]), take (length [0, 0 :: u8]) (drop 1 (content d c)), d') \<and>
      fs_ok d' [''/a'' \<mapsto> c] \<and> abs_fs d' [''/a'' \<mapsto> c] = abs_fs d [''/a'' \<mapsto> c]"
    by (rule read_file_correct [OF d(1)]) (use d(4) in \<open>simp_all add: BLOCK_DATA_value\<close>)
  moreover have "take 3 (content d c) = [7, 8, 9]" using d(3,5) by (simp add: bytes_of_def)
  then have "drop 1 (take 3 (content d c)) = [8, 9]" by simp
  then have "take 2 (drop 1 (content d c)) = [8, 9]" by (simp add: drop_take)
  ultimately show ?thesis by (auto simp: numeral_2_eq_2)
qed

text \<open>
  Every read that starts inside a block and goes past its end copies beyond the end of the
  caller's buffer (\<open>aofs.c:443\<close> and \<open>:459\<close> add \<open>block_offset\<close> where it should be subtracted).
\<close>

theorem read_file_overflows:
  assumes "fs_ok d F" and "F f = Some c" and "length buf < 2 ^ 31 - BLOCK_DATA"
    and "0 < offset mod BLOCK_DATA" and "BLOCK_DATA < offset mod BLOCK_DATA + length buf"
    and "offset + length buf \<le> BLOCK_DATA * length c"
  shows "aofs_read_file e d f buf offset = Inl Overflow"
proof -
  have "0 < length buf" using assms(5) mod_less_divisor [OF BLOCK_DATA_pos, of offset] by linarith
  then have "(offset + length buf - 1) div BLOCK_DATA < length c"
    by (rule last_block_exists [OF _ assms(6)])
  then show ?thesis by (rule read_across_overflows [OF assms(1-5)])
qed

theorem read_file_overflows_witness:
  "\<exists>d. aofs_read_file env0 d ''/a'' (replicate BLOCK_DATA 0) 1 = Inl Overflow"
proof -
  obtain d c where d: "fs_ok d [''/a'' \<mapsto> c]"
      "length (replicate (2 * BLOCK_DATA) (7 :: u8)) \<le> BLOCK_DATA * length c"
    by (rule written_file [of "replicate (2 * BLOCK_DATA) 7"]) (simp_all add: BLOCK_NUM_value)
  have "1 + BLOCK_DATA \<le> BLOCK_DATA * length c"
    using d(2) unfolding length_replicate BLOCK_DATA_value by linarith
  then have "aofs_read_file env0 d ''/a'' (replicate BLOCK_DATA 0) 1 = Inl Overflow"
    by (intro read_file_overflows [OF d(1)]) (simp_all add: BLOCK_DATA_value)
  then show ?thesis by blast
qed

text \<open>
  An aligned read of three blocks returns the second block where the first belongs, and
  does not touch the second third of the buffer.
\<close>

theorem read_file_misplaces:
  assumes "fs_ok d F" and "F f = Some c" and "length buf = 3 * BLOCK_DATA"
    and "offset mod BLOCK_DATA = 0" and "offset + length buf \<le> BLOCK_DATA * length c"
  shows "\<exists>d'. aofs_read_file e d f buf offset =
    Inr (int (length buf), data (blk d (c ! (offset div BLOCK_DATA + 1))) @
      take BLOCK_DATA (drop BLOCK_DATA buf) @ data (blk d (c ! (offset div BLOCK_DATA + 2))), d')"
proof -
  have "offset div BLOCK_DATA * BLOCK_DATA = offset" using assms(4) by auto
  then have "(offset div BLOCK_DATA + 3) * BLOCK_DATA = offset + 3 * BLOCK_DATA"
    unfolding add_mult_distrib by simp
  then have "(offset div BLOCK_DATA + 3) * BLOCK_DATA \<le> length c * BLOCK_DATA"
    using assms(3,5) by (simp only: mult.commute)
  then have "offset div BLOCK_DATA + 3 \<le> length c" using BLOCK_DATA_pos by (metis mult_le_cancel2)
  then have "offset div BLOCK_DATA + 2 < length c" by linarith
  then show ?thesis using read_three_blocks [OF assms(1-4)] by blast
qed

theorem read_file_misplaces_witness:
  "\<exists>d c d'. aofs_read_file env0 d ''/a'' (replicate (3 * BLOCK_DATA) 0) 0 =
    Inr (int (3 * BLOCK_DATA), data (blk d (c ! 1)) @ replicate BLOCK_DATA 0 @ data (blk d (c ! 2)), d')"
proof -
  obtain d c where d: "fs_ok d [''/a'' \<mapsto> c]"
      "length (replicate (3 * BLOCK_DATA) (7 :: u8)) \<le> BLOCK_DATA * length c"
    by (rule written_file [of "replicate (3 * BLOCK_DATA) 7"]) (simp_all add: BLOCK_NUM_value)
  have "\<exists>d'. aofs_read_file env0 d ''/a'' (replicate (3 * BLOCK_DATA) 0) 0 =
      Inr (int (length (replicate (3 * BLOCK_DATA) (0 :: u8))), data (blk d (c ! (0 div BLOCK_DATA + 1))) @
        take BLOCK_DATA (drop BLOCK_DATA (replicate (3 * BLOCK_DATA) 0)) @
        data (blk d (c ! (0 div BLOCK_DATA + 2))), d')"
    by (rule read_file_misplaces [OF d(1)]) (use d(2) in simp_all)
  moreover have "min BLOCK_DATA (3 * BLOCK_DATA - BLOCK_DATA) = BLOCK_DATA" by simp
  ultimately show ?thesis by (simp add: numeral_2_eq_2) blast
qed

section \<open>Truncating\<close>

text \<open>
  \<open>aofs_truncate_file\<close> to a smaller size returns 0 and keeps exactly the first bytes of the
  file, leaves the other files alone and the image well formed.
\<close>

theorem truncate_shrink_refines:
  assumes "fs_ok d F" and "F f = Some c" and "0 \<le> s" and "s < size_field d c"
  shows "\<exists>d' F'. aofs_truncate_file e d f s = Inr (0, d') \<and> fs_ok d' F' \<and>
    abs_fs d' F' = (abs_fs d F)(f \<mapsto> take (nat s) (bytes_of d c))"
  using truncate_shrink [OF assms, of e] by blast

theorem truncate_shrink_refines_witness:
  "\<exists>d d' F'. aofs_truncate_file env0 d ''/a'' 2 = Inr (0, d') \<and> abs_fs d' F' = [''/a'' \<mapsto> [7, 8]]"
proof -
  obtain d c where d: "fs_ok d [''/a'' \<mapsto> c]" "abs_fs d [''/a'' \<mapsto> c] = [''/a'' \<mapsto> [7, 8, 9]]"
      "size_field d c = int (length [7, 8, 9 :: u8])" "length [7, 8, 9 :: u8] \<le> BLOCK_DATA * length c"
      "bytes_of d c = [7, 8, 9]"
    by (rule written_file [of "[7, 8, 9]"]) (simp add: BLOCK_NUM_value BLOCK_DATA_value)
  have "\<exists>d' F'. aofs_truncate_file env0 d ''/a'' 2 = Inr (0, d') \<and> fs_ok d' F' \<and>
      abs_fs d' F' = (abs_fs d [''/a'' \<mapsto> c])(''/a'' \<mapsto> take (nat 2) (bytes_of d c))"
    by (rule truncate_shrink_refines [OF d(1)]) (use d(3) in simp_all)
  then show ?thesis using d(2,5) by auto
qed

text \<open>
  Growing a file, with as many free blocks as the code asks for, returns 0 and keeps all its
  bytes in front, provided the blocks the code appends suffice for the new size.
\<close>

theorem truncate_grow_refines:
  assumes "fs_ok d F" and "F f = Some c" and "size_field d c < s" and "length f < 256"
    and "m = nat (s div int BLOCK_DATA - size_field d c div int BLOCK_DATA)"
    and "m \<le> card (free_blocks d)" and "s \<le> int (BLOCK_DATA * (length c + m))"
  shows "\<exists>d' F' pad. aofs_truncate_file e d f s = Inr (0, d') \<and> fs_ok d' F' \<and>
    abs_fs d' F' = (abs_fs d F)(f \<mapsto> bytes_of d c @ pad) \<and> int (length (bytes_of d c @ pad)) = s"
  using truncate_grow_ok [OF assms, of e] by blast

theorem truncate_grow_refines_witness:
  "\<exists>d d' F' bs. aofs_truncate_file env0 d ''/a'' 10000 = Inr (0, d') \<and> fs_ok d' F' \<and>
    abs_fs d' F' ''/a'' = Some bs \<and> length bs = 10000"
proof -
  obtain n d where d: "fs_ok d [''/a'' \<mapsto> [n]]" "abs_fs d [''/a'' \<mapsto> [n]] = [''/a'' \<mapsto> []]"
      "card (free_blocks d) = BLOCK_NUM - 1" "aofs_create_file env0 image0 ''/a'' = Inr (int n, d)"
      "size_field d [n] = 0"
    by (rule created_file)
  have "\<exists>d' F' pad. aofs_truncate_file env0 d ''/a'' 10000 = Inr (0, d') \<and> fs_ok d' F' \<and>
      abs_fs d' F' = (abs_fs d [''/a'' \<mapsto> [n]])(''/a'' \<mapsto> bytes_of d [n] @ pad) \<and>
      int (length (bytes_of d [n] @ pad)) = 10000"
    by (rule truncate_grow_refines [OF d(1), where m = 2])
      (use d(3,5) in \<open>simp_all add: BLOCK_DATA_value BLOCK_NUM_value\<close>)
  then obtain d' F' pad where r: "aofs_truncate_file env0 d ''/a'' 10000 = Inr (0, d')" "fs_ok d' F'"
      "abs_fs d' F' = (abs_fs d [''/a'' \<mapsto> [n]])(''/a'' \<mapsto> bytes_of d [n] @ pad)"
      "int (length (bytes_of d [n] @ pad)) = 10000" by blast
  have "length (bytes_of d [n] @ pad) = 10000" using r(4) by linarith
  moreover have "abs_fs d' F' ''/a'' = Some (bytes_of d [n] @ pad)" using r(3) by simp
  ultimately show ?thesis using r(1,2) by blast
qed

text \<open>
  growing a file that fills its blocks exactly to a size that is not a multiple of the block
  size returns 0 and leaves the size field larger than the blocks of the file (\<open>aofs.c:534\<close>
  counts whole blocks of the new and the old size).
\<close>

theorem truncate_grow_too_short:
  assumes "fs_ok d F" and "F f = Some c" and "length f < 256"
    and "size_field d c = int (BLOCK_DATA * length c)"
    and "size_field d c < s" and "s mod int BLOCK_DATA \<noteq> 0"
    and "nat (s div int BLOCK_DATA - size_field d c div int BLOCK_DATA) \<le> card (free_blocks d)"
  shows "\<exists>d' c'. aofs_truncate_file e d f s = Inr (0, d') \<and> file_ok d' f c' \<and> hd c' = hd c \<and>
    size_field d' c' = s \<and> int (BLOCK_DATA * length c') < s"
  by (rule truncate_grow_short [OF assms])

theorem truncate_grow_too_short_witness:
  "\<exists>d d' c'. aofs_truncate_file env0 d ''/a'' 3769 = Inr (0, d') \<and> file_ok d' ''/a'' c' \<and>
    size_field d' c' = 3769 \<and> int (BLOCK_DATA * length c') < 3769"
proof -
  obtain n d where d: "fs_ok d [''/a'' \<mapsto> [n]]" "abs_fs d [''/a'' \<mapsto> [n]] = [''/a'' \<mapsto> []]"
      "card (free_blocks d) = BLOCK_NUM - 1" "aofs_create_file env0 image0 ''/a'' = Inr (int n, d)"
      "size_field d [n] = 0"
    by (rule created_file)
  note rep = fs_okD(1) [OF d(1)]
  have f: "[''/a'' \<mapsto> [n]] ''/a'' = Some [n]" by simp
  note fok = rep_file [OF rep f]
  have ch: "chain_of [''/a'' \<mapsto> [n]] ''/a'' = {n}" by (simp add: chain_of_def)
  have used: "used d n" using rep_chain_used [OF rep, of n "''/a''"] ch by simp
  let ?d = "resize d n (int BLOCK_DATA)"
  have ok: "fs_ok ?d [''/a'' \<mapsto> [n]]"
    using resized_ok(1) [OF d(1) rep_shape [OF rep] fok, of "int BLOCK_DATA"] ch used by auto
  have size: "size_field ?d [n] = int BLOCK_DATA"
    using resize_file(2) [OF rep_shape [OF rep] fok, of "int BLOCK_DATA"] by simp
  have "\<exists>d' c'. aofs_truncate_file env0 ?d ''/a'' 3769 = Inr (0, d') \<and> file_ok d' ''/a'' c' \<and>
      hd c' = hd [n] \<and> size_field d' c' = 3769 \<and> int (BLOCK_DATA * length c') < 3769"
    by (rule truncate_grow_too_short [OF ok]) (use size in \<open>simp_all add: BLOCK_DATA_value\<close>)
  then show ?thesis by blast
qed

section \<open>Allocation and the bitmap\<close>

text \<open>
  \<open>allocate_block\<close> takes the lowest free block, marks exactly it as used and clears it, and
  returns -1 on a full image; \<open>deallocate_block\<close> of that block gives the bitmap back.
\<close>

theorem allocate_deallocate:
  assumes shape: "shape d"
  shows "if free_blocks d = {} then allocate_block e d = Inr (-1, d)
    else \<exists>n d'. allocate_block e d = Inr (int n, d') \<and> n = Min (free_blocks d) \<and> shape d' \<and>
      free_blocks d' = free_blocks d - {n} \<and> data (blk d' n) = replicate BLOCK_DATA 0 \<and>
      (\<exists>d''. deallocate_block e d' (int n) = Inr (-1, d'') \<and> free_blocks d'' = free_blocks d)"
proof (cases "free_blocks d = {}")
  case False
  obtain n d' where a: "allocate_block e d = Inr (int n, d')" "n \<in> free_blocks d"
      "\<forall>j\<in>free_blocks d. n \<le> j" "shape d'" "free_blocks d' = free_blocks d - {n}"
      "\<forall>j<BLOCK_NUM. used d' j \<longleftrightarrow> j = n \<or> used d j"
      "blk d' n = clear_block e (stack_block e)" "\<forall>j. j \<noteq> n \<longrightarrow> blk d' j = blk d j"
    by (rule allocate_block_free [OF shape False])
  have n: "n < BLOCK_NUM" using a(2) by (simp add: free_blocks_def)
  obtain d'' where dd: "deallocate_block e d' (int n) = Inr (next_block (dbm (blk d' n)), d'')" "shape d''"
      "\<forall>j<BLOCK_NUM. used d'' j \<longleftrightarrow> j \<noteq> n \<and> used d' j" "free_blocks d'' = insert n (free_blocks d')"
      "blk d'' n = clear_block e (blk d' n)" "\<forall>j. j \<noteq> n \<longrightarrow> blk d'' j = blk d' j"
    by (rule deallocate_block_ok [OF a(4) n])
  have "Min (free_blocks d) = n" using a(2,3) by (intro Min_eqI) simp_all
  moreover have "free_blocks d'' = free_blocks d" using dd(4) a(2,5) by auto
  ultimately show ?thesis using False a dd(1) by auto
qed (simp add: allocate_block_full [OF shape])

theorem allocate_deallocate_witness:
  "\<exists>n d'. allocate_block env0 image0 = Inr (int n, d') \<and> n = 0"
proof -
  have free: "free_blocks image0 \<noteq> {}" using image0_card by (auto simp: BLOCK_NUM_value)
  have "Min (free_blocks image0) = 0"
    by (rule Min_eqI) (simp_all add: image0_free BLOCK_NUM_value)
  then show ?thesis using allocate_deallocate [OF image0_shape, of env0] free by auto
qed

text \<open>
  \<open>utimens\<close> and \<open>chown\<close> on a file that does not exist write to block -1, outside the
  block array; on one that does they return 0.
\<close>

theorem utimens_chown_missing:
  assumes "rep d F" and "0 \<le> fd"
  shows "(aofs_utimens e fd d f atime mtime = Inl Bad_block \<longleftrightarrow> F f = None) \<and>
    (aofs_chown e fd d f uid gid = Inl Bad_block \<longleftrightarrow> F f = None)"
proof (cases "F f")
  case None
  then show ?thesis
    using assms(2) find_file_head_rep [OF assms(1), of f]
    by (simp add: aofs_utimens_def aofs_chown_def write_block_def)
next
  case (Some c)
  have "hd c < BLOCK_NUM" using rep_file [OF assms(1) Some] file_ok_hd file_ok_lt by blast
  then show ?thesis
    using Some assms(2) find_file_head_rep [OF assms(1), of f]
    by (simp add: aofs_utimens_def aofs_chown_def write_block_ok [OF rep_shape [OF assms(1)]])
qed

theorem utimens_chown_missing_witness:
  "aofs_utimens env0 3 image0 ''/nope'' 1 2 = Inl Bad_block"
  using utimens_chown_missing [OF fs_okD(1) [OF image0_ok], of 3 env0 "''/nope''" 1 2] by simp

end
