(* ===== verification/Vm_Busy.thy ===== *)
theory Vm_Busy
  imports Prelude "HOL-Library.Multiset"
begin

text \<open>
  The busy lock of a page (\<open>src/asgn3/vm/vm_page.h\<close>, \<open>vm_page.c\<close>): a word that counts the
  threads that share a page, or says that one thread has it alone, and whether threads wait. It is
  changed with atomic compare-and-set only, so each operation is given as a round: from the value
  loaded before and the value found by the compare-and-set, the new value and whether the loop goes
  on. The step relation interleaves the rounds of any number of threads on one page.
\<close>

section \<open>The word\<close>

definition VPB_BIT_SHARED :: u32 where "VPB_BIT_SHARED = 0x01"
definition VPB_BIT_EXCLUSIVE :: u32 where "VPB_BIT_EXCLUSIVE = 0x02"
definition VPB_BIT_WAITERS :: u32 where "VPB_BIT_WAITERS = 0x04"
definition VPB_BIT_FLAGMASK :: u32 where
  "VPB_BIT_FLAGMASK = VPB_BIT_SHARED OR VPB_BIT_EXCLUSIVE OR VPB_BIT_WAITERS"
definition VPB_SHARERS_SHIFT :: nat where "VPB_SHARERS_SHIFT = 3"
definition VPB_SHARERS :: "u32 \<Rightarrow> u32" where
  "VPB_SHARERS x = drop_bit VPB_SHARERS_SHIFT (x AND NOT VPB_BIT_FLAGMASK)"
definition VPB_SHARERS_WORD :: "u32 \<Rightarrow> u32" where
  "VPB_SHARERS_WORD x = push_bit VPB_SHARERS_SHIFT x OR VPB_BIT_SHARED"
definition VPB_ONE_SHARER :: u32 where "VPB_ONE_SHARER = push_bit VPB_SHARERS_SHIFT 1"
definition VPB_SINGLE_EXCLUSIVER :: u32 where "VPB_SINGLE_EXCLUSIVER = VPB_BIT_EXCLUSIVE"
definition VPB_UNBUSIED :: u32 where "VPB_UNBUSIED = VPB_SHARERS_WORD 0"

definition vm_page_busied :: "u32 \<Rightarrow> bool" where
  "vm_page_busied w \<longleftrightarrow> w \<noteq> VPB_UNBUSIED"

definition vm_page_xbusied :: "u32 \<Rightarrow> bool" where
  "vm_page_xbusied w \<longleftrightarrow> w AND VPB_SINGLE_EXCLUSIVER \<noteq> 0"

definition vm_page_sbusied :: "u32 \<Rightarrow> bool" where
  "vm_page_sbusied x \<longleftrightarrow> x AND VPB_BIT_SHARED \<noteq> 0 \<and> x \<noteq> VPB_UNBUSIED"

section \<open>One round of each operation\<close>

text \<open>
  The outcome of a round: try again, or return with a value (0 or 1; 0 where the function returns
  none), with or without waking the waiters; go on in the slow path; go to sleep.
\<close>

datatype outcome = Again | Done (result: bool) (wakes: bool) | Hard | Sleep

definition cmpset :: "u32 \<Rightarrow> u32 \<Rightarrow> u32 \<Rightarrow> u32 \<times> bool" where
  "cmpset found old new = (if found = old then (new, True) else (found, False))"

definition vm_page_tryxbusy :: "u32 \<Rightarrow> u32 \<times> outcome" where
  "vm_page_tryxbusy found =
    (case cmpset found VPB_UNBUSIED VPB_SINGLE_EXCLUSIVER of (w, ok) \<Rightarrow> (w, Done ok False))"

definition vm_page_trysbusy :: "u32 \<Rightarrow> u32 \<Rightarrow> u32 \<times> outcome" where
  "vm_page_trysbusy x found =
    (if x AND VPB_BIT_SHARED = 0 then (found, Done False False)
     else case cmpset found x (x + VPB_ONE_SHARER) of (w, ok) \<Rightarrow> (w, if ok then Done True False else Again))"

definition vm_page_xunbusy :: "u32 \<Rightarrow> u32 \<times> outcome" where
  "vm_page_xunbusy found =
    (case cmpset found VPB_SINGLE_EXCLUSIVER VPB_UNBUSIED of (w, ok) \<Rightarrow> (w, if ok then Done True False else Hard))"

definition vm_page_xunbusy_locked :: "u32 \<Rightarrow> u32 \<times> outcome" where
  "vm_page_xunbusy_locked found = (VPB_UNBUSIED, Done True True)"

definition vm_page_xunbusy_hard :: "u32 \<Rightarrow> u32 \<times> outcome" where
  "vm_page_xunbusy_hard found = vm_page_xunbusy_locked found"

definition vm_page_sunbusy :: "u32 \<Rightarrow> u32 \<Rightarrow> u32 \<times> outcome" where
  "vm_page_sunbusy x found =
    (if VPB_SHARERS x > 1
     then (case cmpset found x (x - VPB_ONE_SHARER) of (w, ok) \<Rightarrow> (w, if ok then Done True False else Again))
     else if x AND VPB_BIT_WAITERS = 0
     then (case cmpset found (VPB_SHARERS_WORD 1) VPB_UNBUSIED of (w, ok) \<Rightarrow>
            (w, if ok then Done True False else Again))
     else (case cmpset found x VPB_UNBUSIED of (w, ok) \<Rightarrow> (w, if ok then Done True True else Again)))"

text \<open>A caller of \<open>vm_page_busy_downgrade\<close> may own the page's mutex, which changes where it is taken but not the round.\<close>

definition vm_page_busy_downgrade :: "u32 \<Rightarrow> u32 \<Rightarrow> u32 \<times> outcome" where
  "vm_page_busy_downgrade loaded found =
    (let x = loaded AND VPB_BIT_WAITERS
     in case cmpset found (VPB_SINGLE_EXCLUSIVER OR x) (VPB_SHARERS_WORD 1) of
          (w, ok) \<Rightarrow> (w, if ok then Done True (x \<noteq> 0) else Again))"

definition vm_page_busy_sleep :: "bool \<Rightarrow> u32 \<Rightarrow> u32 \<Rightarrow> u32 \<times> outcome" where
  "vm_page_busy_sleep nonshared x found =
    (if x = VPB_UNBUSIED \<or> nonshared \<and> x AND VPB_BIT_SHARED \<noteq> 0 then (found, Done False False)
     else if x AND VPB_BIT_WAITERS = 0
     then (case cmpset found x (x OR VPB_BIT_WAITERS) of (w, ok) \<Rightarrow> (w, if ok then Sleep else Done False False))
     else (found, Sleep))"

definition vm_page_flash :: "u32 \<Rightarrow> u32 \<Rightarrow> u32 \<times> outcome" where
  "vm_page_flash x found =
    (if x AND VPB_BIT_WAITERS = 0 then (found, Done True False)
     else case cmpset found x (x AND NOT VPB_BIT_WAITERS) of (w, ok) \<Rightarrow> (w, if ok then Done True True else Again))"

section \<open>Many threads\<close>

datatype busy_op = Tryxbusy | Trysbusy | Xunbusy | Xunbusy_hard | Sunbusy | Downgrade bool | Busy_sleep bool | Flash

fun busy_round :: "busy_op \<Rightarrow> u32 \<Rightarrow> u32 \<Rightarrow> u32 \<times> outcome" where
  "busy_round Tryxbusy x w = vm_page_tryxbusy w"
| "busy_round Trysbusy x w = vm_page_trysbusy x w"
| "busy_round Xunbusy x w = vm_page_xunbusy w"
| "busy_round Xunbusy_hard x w = vm_page_xunbusy_hard w"
| "busy_round Sunbusy x w = vm_page_sunbusy x w"
| "busy_round (Downgrade locked) x w = vm_page_busy_downgrade x w"
| "busy_round (Busy_sleep nonshared) x w = vm_page_busy_sleep nonshared x w"
| "busy_round Flash x w = vm_page_flash x w"

datatype pc = Ready | Start busy_op | Loaded busy_op u32 | Sleeping

text \<open>
  \<open>plock\<close> is the owner of the page's mutex. \<open>owner\<close> and \<open>sharers\<close> say who has the page busy; no
  step looks at them but those that begin an operation its caller must have the page busy for.
\<close>

record busy_sys =
  word :: u32
  plock :: "nat option"
  pcs :: "nat \<Rightarrow> pc"
  owner :: "nat option"
  sharers :: "nat multiset"

definition may_start :: "busy_op \<Rightarrow> nat \<Rightarrow> busy_sys \<Rightarrow> bool" where
  "may_start op t s = (case op of Xunbusy \<Rightarrow> owner s = Some t | Downgrade _ \<Rightarrow> owner s = Some t
    | Sunbusy \<Rightarrow> t \<in># sharers s | Xunbusy_hard \<Rightarrow> False | _ \<Rightarrow> True)"

text \<open>
  Operations whose caller owns the page's mutex. It is taken with the call and let go when the
  operation returns, or by the operation itself.
\<close>

definition locked_op :: "busy_op \<Rightarrow> bool" where
  "locked_op op = (case op of Busy_sleep _ \<Rightarrow> True | Flash \<Rightarrow> True | Downgrade locked \<Rightarrow> locked | _ \<Rightarrow> False)"

text \<open>Rounds that take the page's mutex themselves, around the compare-and-set and the wakeup.\<close>

definition takes_lock :: "busy_op \<Rightarrow> u32 \<Rightarrow> bool" where
  "takes_lock op x = (case op of Xunbusy_hard \<Rightarrow> True | Downgrade locked \<Rightarrow> x AND VPB_BIT_WAITERS \<noteq> 0 \<and> \<not> locked
    | Sunbusy \<Rightarrow> \<not> VPB_SHARERS x > 1 \<and> x AND VPB_BIT_WAITERS \<noteq> 0 | _ \<Rightarrow> False)"

definition hand_over :: "busy_op \<Rightarrow> nat \<Rightarrow> bool \<Rightarrow> busy_sys \<Rightarrow> busy_sys" where
  "hand_over op t res s = (case op of
      Tryxbusy \<Rightarrow> if res then s\<lparr>owner := Some t\<rparr> else s
    | Trysbusy \<Rightarrow> if res then s\<lparr>sharers := add_mset t (sharers s)\<rparr> else s
    | Xunbusy \<Rightarrow> s\<lparr>owner := None\<rparr> | Xunbusy_hard \<Rightarrow> s\<lparr>owner := None\<rparr>
    | Sunbusy \<Rightarrow> s\<lparr>sharers := sharers s - {#t#}\<rparr>
    | Downgrade _ \<Rightarrow> s\<lparr>owner := None, sharers := {#t#}\<rparr>
    | _ \<Rightarrow> s)"

definition wakeup :: "(nat \<Rightarrow> pc) \<Rightarrow> nat \<Rightarrow> pc" where
  "wakeup p = (\<lambda>u. if p u = Sleeping then Ready else p u)"

definition after_round :: "busy_op \<Rightarrow> nat \<Rightarrow> u32 \<times> outcome \<Rightarrow> busy_sys \<Rightarrow> busy_sys" where
  "after_round op t r s = (case r of (w, out) \<Rightarrow>
    let s1 = s\<lparr>word := w\<rparr>;
        free = (if locked_op op then None else plock s)
    in case out of
         Again \<Rightarrow> s1\<lparr>pcs := (pcs s)(t := Start op)\<rparr>
       | Hard \<Rightarrow> s1\<lparr>pcs := (pcs s)(t := Start Xunbusy_hard)\<rparr>
       | Sleep \<Rightarrow> s1\<lparr>pcs := (pcs s)(t := Sleeping), plock := free\<rparr>
       | Done res wk \<Rightarrow> hand_over op t res
           (s1\<lparr>pcs := (if wk then wakeup else id) ((pcs s)(t := Ready)), plock := free\<rparr>))"

inductive busy_step :: "busy_sys \<Rightarrow> busy_sys \<Rightarrow> bool" where
  call: "pcs s t = Ready \<Longrightarrow> may_start op t s \<Longrightarrow> (locked_op op \<longrightarrow> plock s = None) \<Longrightarrow>
    busy_step s (s\<lparr>pcs := (pcs s)(t := Start op), plock := if locked_op op then Some t else plock s\<rparr>)"
| load: "pcs s t = Start op \<Longrightarrow> busy_step s (s\<lparr>pcs := (pcs s)(t := Loaded op (word s))\<rparr>)"
| round: "pcs s t = Loaded op x \<Longrightarrow> (takes_lock op x \<longrightarrow> plock s = None) \<Longrightarrow>
    busy_step s (after_round op t (busy_round op x (word s)) s)"

definition busy_init :: busy_sys where
  "busy_init = \<lparr>word = VPB_UNBUSIED, plock = None, pcs = \<lambda>_. Ready, owner = None, sharers = {#}\<rparr>"

text \<open>
  The states reached while there are fewer than \<open>2 ^ 29\<close> sharers, all that the word has bits for;
  the code does not look at this bound.
\<close>

inductive busy_reach :: "busy_sys \<Rightarrow> bool" where
  init: "busy_reach busy_init"
| step: "busy_reach s \<Longrightarrow> busy_step s s' \<Longrightarrow> size (sharers s') < 2 ^ 29 \<Longrightarrow> busy_reach s'"

section \<open>Words that are held\<close>

text \<open>The word of \<open>n\<close> sharers, and of an exclusive owner, with the waiters' bit.\<close>

definition shared_word :: "nat \<Rightarrow> bool \<Rightarrow> u32" where
  "shared_word n wt = of_nat (8 * n + (if wt then 5 else 1))"

definition excl_word :: "bool \<Rightarrow> u32" where
  "excl_word wt = (if wt then 6 else 2)"

lemma and_power_zero: "x AND 2 ^ k = 0 \<longleftrightarrow> \<not> bit x k" if "k < 32" for x :: u32 and k :: nat
  using that by (auto simp: bit_eq_iff [where 'a = "32 word"] bit_and_iff bit_single)

lemma flag_bits:
  "x AND VPB_BIT_SHARED = 0 \<longleftrightarrow> \<not> bit x 0" "x AND VPB_BIT_WAITERS = 0 \<longleftrightarrow> \<not> bit x 2"
  "x AND VPB_SINGLE_EXCLUSIVER = 0 \<longleftrightarrow> \<not> bit x 1"
  using and_power_zero [of 0 x] and_power_zero [of 1 x] and_power_zero [of 2 x]
  by (simp_all add: VPB_BIT_SHARED_def VPB_BIT_WAITERS_def VPB_SINGLE_EXCLUSIVER_def VPB_BIT_EXCLUSIVE_def)

lemma bit_of_nat_u32: "bit (of_nat m :: u32) k \<longleftrightarrow> k < 32 \<and> bit m k"
  by (simp add: bit_simps)

lemma bit_of_8n:
  assumes "k < 3" and "b < 8"
  shows "bit (of_nat (8 * n + b) :: u32) k \<longleftrightarrow> bit b k"
proof -
  have "bit (8 * n + b) k \<longleftrightarrow> bit (take_bit 3 (8 * n + b)) k" using assms(1) by (simp add: bit_take_bit_iff)
  also have "take_bit 3 (8 * n + b) = b" using assms(2) by (simp add: take_bit_eq_mod)
  finally show ?thesis unfolding bit_of_nat_u32 using assms(1) by simp
qed

lemma bits_1_5: "bit (1::nat) 0" "\<not> bit (1::nat) 1" "\<not> bit (1::nat) 2" "bit (5::nat) 0" "\<not> bit (5::nat) 1" "bit (5::nat) 2"
  by (simp_all add: bit_iff_odd)

lemma shared_bits [simp]: "bit (shared_word n wt) 0" "\<not> bit (shared_word n wt) 1" "bit (shared_word n wt) 2 = wt"
  "\<not> bit (shared_word n wt) (Suc 0)"
  unfolding shared_word_def using bits_1_5 by (cases wt; simp only: bit_of_8n if_True if_False One_nat_def; simp add: bit_of_8n)+

lemma excl_bits [simp]: "\<not> bit (excl_word wt) 0" "bit (excl_word wt) 1" "bit (excl_word wt) 2 = wt"
  "bit (excl_word wt) (Suc 0)"
  by (auto simp: excl_word_def bit_iff_odd)

lemma shared_neq_excl [simp]: "shared_word n a \<noteq> excl_word b" "excl_word b \<noteq> shared_word n a"
  using shared_bits(1) [of n a] excl_bits(1) [of b] by metis+

lemma either: "shared_word n wt = shared_word n False \<or> shared_word n wt = shared_word n True"
  by (cases wt) simp_all

lemma unat_shared: "n < 2 ^ 29 \<Longrightarrow> unat (shared_word n wt) = 8 * n + (if wt then 5 else 1)"
  unfolding shared_word_def unat_of_nat by (rule mod_less) auto

lemma shared_sharers:
  assumes "n < 2 ^ 29"
  shows "VPB_SHARERS (shared_word n wt) = of_nat n"
proof -
  have mask: "VPB_BIT_FLAGMASK = mask 3"
    by (simp add: VPB_BIT_FLAGMASK_def VPB_BIT_SHARED_def VPB_BIT_EXCLUSIVE_def VPB_BIT_WAITERS_def mask_eq_exp_minus_1)
  have "VPB_SHARERS x = drop_bit 3 x" for x
    unfolding VPB_SHARERS_def VPB_SHARERS_SHIFT_def mask by (rule bit_word_eqI) (auto simp: bit_and_iff bit_not_iff bit_mask_iff bit_drop_bit_eq dest: bit_imp_le_length)
  then have "unat (VPB_SHARERS (shared_word n wt)) = unat (shared_word n wt) div 2 ^ 3"
    by (simp add: drop_bit_eq_div unat_div)
  also have "\<dots> = n" by (simp add: unat_shared [OF assms])
  also have "n = unat (of_nat n :: u32)" unfolding unat_of_nat using assms by (intro mod_less [symmetric]) simp
  finally show ?thesis by (rule word_unat_eq_iff [THEN iffD2])
qed

lemma shared_word_inj:
  "n < 2 ^ 29 \<Longrightarrow> m < 2 ^ 29 \<Longrightarrow> shared_word n a = shared_word m b \<longleftrightarrow> n = m \<and> a = b"
  unfolding word_unat_eq_iff by (auto simp: unat_shared) presburger+

lemma words:
  "VPB_UNBUSIED = shared_word 0 False" "VPB_SHARERS_WORD 1 = shared_word 1 False"
  "VPB_SINGLE_EXCLUSIVER = excl_word False"
  by (simp_all add: VPB_UNBUSIED_def VPB_SHARERS_WORD_def VPB_SHARERS_SHIFT_def VPB_BIT_SHARED_def
      shared_word_def excl_word_def VPB_SINGLE_EXCLUSIVER_def VPB_BIT_EXCLUSIVE_def push_bit_eq_mult)

text \<open>The rounds on held words.\<close>

lemma one_sharer: "VPB_ONE_SHARER = 8"
  by (simp add: VPB_ONE_SHARER_def VPB_SHARERS_SHIFT_def push_bit_eq_mult)

lemma shared_add: "shared_word n wt + VPB_ONE_SHARER = shared_word (Suc n) wt"
  by (simp add: one_sharer shared_word_def)

lemma shared_sub: "0 < n \<Longrightarrow> shared_word n wt - VPB_ONE_SHARER = shared_word (n - 1) wt"
  using shared_add [of "n - 1" wt] by (metis Suc_diff_1 add_diff_cancel_right')

lemma and_power_bit: "x AND 2 ^ k = (if bit x k then 2 ^ k else 0)" for x :: u32
  by (auto simp: bit_eq_iff [where 'a = "32 word"] bit_and_iff bit_single)

lemma waiters_power: "VPB_BIT_WAITERS = 2 ^ 2"
  by (simp add: VPB_BIT_WAITERS_def)

lemma or_and_not: "a AND w = 0 \<Longrightarrow> (a OR w) AND NOT w = a" for a w :: u32
  by (auto simp: bit_eq_iff [where 'a = "32 word"] bit_and_iff bit_or_iff bit_not_iff dest: bit_imp_le_length)

lemma waiters_or: "shared_word n False OR VPB_BIT_WAITERS = shared_word n True"
  "excl_word False OR VPB_BIT_WAITERS = excl_word True"
  "shared_word n True AND NOT VPB_BIT_WAITERS = shared_word n False"
  "excl_word True AND NOT VPB_BIT_WAITERS = excl_word False"
proof -
  have disj: "shared_word n False AND VPB_BIT_WAITERS = 0" unfolding flag_bits by simp
  have "shared_word n False OR VPB_BIT_WAITERS = shared_word n False + VPB_BIT_WAITERS"
    using disj by (simp add: disjunctive_add_eq_or)
  also have "\<dots> = shared_word n True" by (simp add: shared_word_def VPB_BIT_WAITERS_def)
  finally show or: "shared_word n False OR VPB_BIT_WAITERS = shared_word n True" .
  show "shared_word n True AND NOT VPB_BIT_WAITERS = shared_word n False"
    unfolding or [symmetric] using disj by (rule or_and_not)
  show "excl_word False OR VPB_BIT_WAITERS = excl_word True" "excl_word True AND NOT VPB_BIT_WAITERS = excl_word False"
    by (simp_all add: excl_word_def VPB_BIT_WAITERS_def)
qed

section \<open>The invariant\<close>

text \<open>
  The word says who has the page: \<open>held\<close> relates it to the owner and the sharers. What a thread
  has loaded and what it has the page busy for agree, and as long as a thread sleeps or is about
  to sleep under the page's mutex the waiters' bit is set.
\<close>

definition held :: "busy_sys \<Rightarrow> bool" where
  "held s \<longleftrightarrow>
    (owner s \<noteq> None \<longrightarrow> sharers s = {#} \<and> (word s = excl_word False \<or> word s = excl_word True)) \<and>
    (owner s = None \<longrightarrow> size (sharers s) < 2 ^ 29 \<and> (word s = shared_word (size (sharers s)) False \<or>
      size (sharers s) > 0 \<and> word s = shared_word (size (sharers s)) True))"

fun holds_for :: "busy_op \<Rightarrow> nat \<Rightarrow> busy_sys \<Rightarrow> bool" where
  "holds_for Tryxbusy t s = True"
| "holds_for Trysbusy t s = True"
| "holds_for Xunbusy t s = (owner s = Some t)"
| "holds_for Xunbusy_hard t s = (owner s = Some t)"
| "holds_for (Downgrade locked) t s = (owner s = Some t \<and> (locked \<longrightarrow> plock s = Some t))"
| "holds_for Sunbusy t s = (t \<in># sharers s)"
| "holds_for (Busy_sleep ns) t s = (plock s = Some t)"
| "holds_for Flash t s = (plock s = Some t)"

definition waiting :: "busy_sys \<Rightarrow> nat \<Rightarrow> bool" where
  "waiting s t \<longleftrightarrow> pcs s t = Sleeping \<or> (\<exists>ns x. pcs s t = Loaded (Busy_sleep ns) x \<and> bit x 2)"

definition busy_ok :: "busy_sys \<Rightarrow> bool" where
  "busy_ok s \<longleftrightarrow> held s \<and>
    (\<forall>t op x. pcs s t = Start op \<or> pcs s t = Loaded op x \<longrightarrow> holds_for op t s) \<and>
    (\<forall>t. waiting s t \<longrightarrow> bit (word s) 2)"

lemma busy_okD:
  assumes "busy_ok s"
  shows "held s" and "pcs s t = Start op \<Longrightarrow> holds_for op t s" and "pcs s t = Loaded op x \<Longrightarrow> holds_for op t s"
    and "waiting s t \<Longrightarrow> bit (word s) 2"
  using assms by (auto simp: busy_ok_def)

lemma busy_init_ok: "busy_ok busy_init"
  by (simp add: busy_ok_def busy_init_def held_def words waiting_def)

lemma held_bits:
  assumes "held s"
  shows "bit (word s) 0 \<longleftrightarrow> owner s = None" and "bit (word s) 1 \<longleftrightarrow> owner s \<noteq> None"
    and "bit (word s) 2 \<Longrightarrow> owner s \<noteq> None \<or> sharers s \<noteq> {#}"
  using assms by (auto simp: held_def)

text \<open>The word of a held page determines its holders.\<close>

lemma held_shared:
  assumes "held s" and "word s = shared_word n wt" and "n < 2 ^ 29"
  shows "owner s = None" and "size (sharers s) = n"
proof -
  show o: "owner s = None" using held_bits(1) [OF assms(1)] assms(2) by simp
  show "size (sharers s) = n" using assms o by (auto simp: held_def shared_word_inj)
qed

lemma held_excl:
  assumes "held s" and "word s = excl_word wt"
  shows "owner s \<noteq> None" and "sharers s = {#}"
proof -
  show o: "owner s \<noteq> None" using held_bits(2) [OF assms(1)] assms(2) by simp
  then show "sharers s = {#}" using assms(1) by (auto simp: held_def)
qed

text \<open>A new state is well formed when the word changes with the holders, and whoever loses its hold
  or the mutex is not in the middle of an operation.\<close>

lemma busy_ok_local:
  assumes ok: "busy_ok s" and h: "held s'" and p: "\<forall>u. u \<noteq> t \<longrightarrow> pcs s' u = pcs s u \<or> pcs s u = Sleeping \<and> pcs s' u = Ready"
    and me: "\<forall>op x. pcs s' t = Start op \<or> pcs s' t = Loaded op x \<longrightarrow> holds_for op t s'"
    and others: "\<forall>u op. u \<noteq> t \<longrightarrow> holds_for op u s \<longrightarrow> holds_for op u s'"
    and w: "bit (word s') 2 \<or> (\<forall>u. \<not> waiting s' u)"
  shows "busy_ok s'"
proof -
  have "holds_for op u s'" if "pcs s' u = Start op \<or> pcs s' u = Loaded op x" for u op x
  proof (cases "u = t")
    case False
    then have "pcs s' u = pcs s u" using p that by auto
    then show ?thesis using that False others ok by (auto simp: busy_ok_def)
  qed (use me that in blast)
  then show ?thesis using h w by (auto simp: busy_ok_def)
qed

lemma busy_ok_quiet:
  assumes ok: "busy_ok s" and h: "held s'" and p: "pcs s' = (pcs s)(t := p)"
    and p': "p = Ready \<or> (\<exists>op. p = Start op \<and> holds_for op t s')"
    and others: "\<forall>u op. u \<noteq> t \<longrightarrow> holds_for op u s \<longrightarrow> holds_for op u s'"
    and w: "bit (word s) 2 \<longrightarrow> bit (word s') 2"
  shows "busy_ok s'"
proof (rule busy_ok_local [OF ok h _ _ others])
  show "bit (word s') 2 \<or> (\<forall>u. \<not> waiting s' u)"
  proof (rule disjCI)
    assume "\<not> (\<forall>u. \<not> waiting s' u)"
    then obtain u where u: "waiting s' u" by blast
    then have "u \<noteq> t" using p p' by (auto simp: waiting_def)
    then have "waiting s u" using u p by (auto simp: waiting_def)
    then show "bit (word s') 2" using busy_okD(4) [OF ok] w by blast
  qed
qed (use p p' in auto)

lemma busy_ok_waking:
  assumes ok: "busy_ok s" and h: "held s'" and p: "pcs s' = wakeup ((pcs s)(t := Ready))"
    and lock: "plock s = None \<or> plock s = Some t"
    and others: "\<forall>u op. u \<noteq> t \<longrightarrow> holds_for op u s \<longrightarrow> holds_for op u s'"
  shows "busy_ok s'"
proof (rule busy_ok_local [OF ok h _ _ others])
  have "\<not> waiting s' u" for u
  proof
    assume "waiting s' u"
    then obtain ns x where u: "u \<noteq> t" "pcs s u = Loaded (Busy_sleep ns) x"
      using p by (auto simp: waiting_def wakeup_def split: if_splits)
    then have "plock s = Some u" using busy_okD(3) [OF ok u(2)] by simp
    then show False using lock u(1) by simp
  qed
  then show "bit (word s') 2 \<or> (\<forall>u. \<not> waiting s' u)" by blast
qed (use p in \<open>auto simp: wakeup_def\<close>)

lemma hand_over_simps [simp]:
  "word (hand_over op t res s) = word s" "pcs (hand_over op t res s) = pcs s" "plock (hand_over op t res s) = plock s"
  by (cases op; simp add: hand_over_def)+

lemma holds_for_cong:
  "owner s' = owner s \<Longrightarrow> sharers s' = sharers s \<Longrightarrow> plock s' = plock s \<Longrightarrow> holds_for op u s' = holds_for op u s"
  by (cases op) simp_all

text \<open>A round that fails leaves the word and its holders as they are.\<close>

lemma round_fails:
  assumes ok: "busy_ok s" and pc: "pcs s t = Loaded op x" and "r = (word s, Again) \<or> r = (word s, Done False False)"
    and "r = (word s, Done False False) \<Longrightarrow> hand_over op t False = (\<lambda>s. s)"
  shows "busy_ok (after_round op t r s)"
proof -
  note hf = busy_okD(3) [OF ok pc]
  from assms(3) show ?thesis
  proof
    assume r: "r = (word s, Again)"
    then have eq: "after_round op t r s = s\<lparr>pcs := (pcs s)(t := Start op)\<rparr>"
      by (simp add: after_round_def Let_def)
    show ?thesis unfolding eq
      by (rule busy_ok_quiet [OF ok, where t = t and p = "Start op"])
        (use hf busy_okD(1) [OF ok] in \<open>simp_all add: held_def holds_for_cong [of "s\<lparr>pcs := _\<rparr>" s]\<close>)
  next
    assume r: "r = (word s, Done False False)"
    have lock: "locked_op op \<Longrightarrow> plock s = Some t"
      using hf by (cases op) (simp_all add: locked_op_def)
    have eq: "after_round op t r s = s\<lparr>pcs := (pcs s)(t := Ready), plock := if locked_op op then None else plock s\<rparr>"
      using r assms(4) [OF r] by (simp add: after_round_def Let_def)
    have others: "holds_for op' u (s\<lparr>pcs := p, plock := if locked_op op then None else plock s\<rparr>)"
      if "u \<noteq> t" "holds_for op' u s" for u op' p
      using that lock by (cases op') auto
    show ?thesis unfolding eq
      by (rule busy_ok_quiet [OF ok, where t = t and p = Ready])
        (use others busy_okD(1) [OF ok] in \<open>simp_all add: held_def\<close>)
  qed
qed

lemma round_tryx:
  assumes ok: "busy_ok s" and pc: "pcs s t = Loaded Tryxbusy x"
  shows "busy_ok (after_round Tryxbusy t (vm_page_tryxbusy (word s)) s)"
proof (cases "word s = VPB_UNBUSIED")
  case True
  have free: "owner s = None" "sharers s = {#}"
    using held_shared [OF busy_okD(1) [OF ok], of 0 False] True by (simp_all add: words)
  have eq: "after_round Tryxbusy t (vm_page_tryxbusy (word s)) s =
      s\<lparr>word := excl_word False, pcs := (pcs s)(t := Ready), owner := Some t\<rparr>"
    using True by (simp add: after_round_def Let_def vm_page_tryxbusy_def cmpset_def hand_over_def locked_op_def words)
  have others: "holds_for op u (s\<lparr>word := w, pcs := p, owner := Some t\<rparr>)"
    if "holds_for op u s" for u op w p
    using that free by (cases op) auto
  show ?thesis unfolding eq
    by (rule busy_ok_quiet [OF ok, where t = t and p = Ready])
      (use free True others in \<open>simp_all add: held_def words\<close>)
next
  case False
  show ?thesis
    by (rule round_fails [OF ok pc]) (use False in \<open>auto simp: vm_page_tryxbusy_def cmpset_def hand_over_def\<close>)
qed

lemma round_trys:
  assumes ok: "busy_ok s" and pc: "pcs s t = Loaded Trysbusy x" 
    and fits: "size (sharers (after_round Trysbusy t (vm_page_trysbusy x (word s)) s)) < 2 ^ 29"
  shows "busy_ok (after_round Trysbusy t (vm_page_trysbusy x (word s)) s)"
proof (cases "bit x 0 \<and> word s = x")
  case True
  have o: "owner s = None" using held_bits(1) [OF busy_okD(1) [OF ok]] True by simp
  define n where "n = size (sharers s)"
  obtain wt where w: "word s = shared_word n wt" "wt \<Longrightarrow> 0 < n"
    using busy_okD(1) [OF ok] o by (auto simp: held_def n_def)
  have sum: "x + VPB_ONE_SHARER = shared_word (Suc n) wt"
    using shared_add [of n wt] True w(1) by metis
  have eq: "after_round Trysbusy t (vm_page_trysbusy x (word s)) s =
      s\<lparr>word := shared_word (Suc n) wt, pcs := (pcs s)(t := Ready), sharers := add_mset t (sharers s)\<rparr>"
    using True sum by (simp add: after_round_def Let_def vm_page_trysbusy_def flag_bits cmpset_def hand_over_def locked_op_def)
  have others: "holds_for op u (s\<lparr>word := v, pcs := p, sharers := add_mset t (sharers s)\<rparr>)"
    if "holds_for op u s" for u op v p
    using that by (cases op) auto
  show ?thesis unfolding eq
    by (rule busy_ok_quiet [OF ok, where t = t and p = Ready])
      (use o w fits [unfolded eq] others either [of "Suc n" wt] in \<open>auto simp: held_def n_def\<close>)
next
  case False
  show ?thesis
    by (rule round_fails [OF ok pc])
      (use False in \<open>auto simp: vm_page_trysbusy_def flag_bits cmpset_def hand_over_def\<close>)
qed

lemma round_xun:
  assumes ok: "busy_ok s" and pc: "pcs s t = Loaded Xunbusy x"
  shows "busy_ok (after_round Xunbusy t (vm_page_xunbusy (word s)) s)"
proof -
  note own = busy_okD(3) [OF ok pc, simplified]
  have sh: "sharers s = {#}" using busy_okD(1) [OF ok] own by (simp add: held_def)
  have others: "holds_for op u (s\<lparr>word := v, pcs := p, owner := None\<rparr>)"
    if "holds_for op u s" "u \<noteq> t" for u op v p
    using that own by (cases op) auto
  show ?thesis
  proof (cases "word s = excl_word False")
    case True
    have eq: "after_round Xunbusy t (vm_page_xunbusy (word s)) s =
        s\<lparr>word := shared_word 0 False, pcs := (pcs s)(t := Ready), owner := None\<rparr>"
      using True by (simp add: after_round_def Let_def vm_page_xunbusy_def cmpset_def hand_over_def locked_op_def words)
    show ?thesis unfolding eq
      by (rule busy_ok_quiet [OF ok, where t = t and p = Ready])
        (use True sh others in \<open>simp_all add: held_def\<close>)
  next
    case False
    have eq: "after_round Xunbusy t (vm_page_xunbusy (word s)) s = s\<lparr>pcs := (pcs s)(t := Start Xunbusy_hard)\<rparr>"
      using False by (simp add: after_round_def Let_def vm_page_xunbusy_def cmpset_def words)
    show ?thesis unfolding eq
      by (rule busy_ok_quiet [OF ok, where t = t and p = "Start Xunbusy_hard"])
        (use own busy_okD(1) [OF ok] in \<open>simp_all add: held_def holds_for_cong [of "s\<lparr>pcs := _\<rparr>" s]\<close>)
  qed
qed

lemma round_hard:
  assumes ok: "busy_ok s" and pc: "pcs s t = Loaded Xunbusy_hard x" and lock: "plock s = None"
  shows "busy_ok (after_round Xunbusy_hard t (vm_page_xunbusy_hard (word s)) s)"
proof -
  note own = busy_okD(3) [OF ok pc, simplified]
  have sh: "sharers s = {#}" using busy_okD(1) [OF ok] own by (simp add: held_def)
  have eq: "after_round Xunbusy_hard t (vm_page_xunbusy_hard (word s)) s =
      s\<lparr>word := shared_word 0 False, pcs := wakeup ((pcs s)(t := Ready)), owner := None\<rparr>"
    by (simp add: after_round_def Let_def vm_page_xunbusy_hard_def vm_page_xunbusy_locked_def hand_over_def locked_op_def words)
  have others: "holds_for op u (s\<lparr>word := v, pcs := p, owner := None\<rparr>)"
    if "holds_for op u s" "u \<noteq> t" for u op v p
    using that own by (cases op) auto
  show ?thesis unfolding eq
    by (rule busy_ok_waking [OF ok, where t = t]) (use lock sh others in \<open>simp_all add: held_def\<close>)
qed

lemma round_sun:
  assumes ok: "busy_ok s" and pc: "pcs s t = Loaded Sunbusy x" and lock: "takes_lock Sunbusy x \<longrightarrow> plock s = None"
  shows "busy_ok (after_round Sunbusy t (vm_page_sunbusy x (word s)) s)"
proof -
  note mem = busy_okD(3) [OF ok pc, simplified]
  define n where "n = size (sharers s)"
  have o: "owner s = None" and n: "n < 2 ^ 29" "0 < n"
    using busy_okD(1) [OF ok] mem by (auto simp: held_def n_def nonempty_has_size)
  obtain wt where w: "word s = shared_word n wt"
    using busy_okD(1) [OF ok] o by (auto simp: held_def n_def)
  have size: "size (sharers s - {#t#}) = n - 1" using mem by (simp add: n_def size_Diff_singleton)
  have others: "holds_for op u (s\<lparr>word := v, pcs := p, sharers := sharers s - {#t#}\<rparr>)"
    if "holds_for op u s" "u \<noteq> t" for u op v p
    using that by (cases op) (auto simp: in_diff_count)
  have gt: "VPB_SHARERS (shared_word n wt) > 1 \<longleftrightarrow> 1 < n"
    using n(1) by (simp add: shared_sharers word_less_nat_alt unat_of_nat)
  let ?s = "\<lambda>v p. s\<lparr>word := v, pcs := p, sharers := sharers s - {#t#}\<rparr>"
  show ?thesis
  proof (cases "x = word s")
    case x: True
    consider (more) "1 < n" | (last) "n = 1" "\<not> wt" | (wake) "n = 1" wt using n(2) by linarith
    then show ?thesis
    proof cases
      case more
      have eq: "after_round Sunbusy t (vm_page_sunbusy x (word s)) s = ?s (shared_word (n - 1) wt) ((pcs s)(t := Ready))"
        using more gt n by (simp add: after_round_def Let_def vm_page_sunbusy_def cmpset_def hand_over_def
            locked_op_def x w shared_sub)
      show ?thesis unfolding eq
        by (rule busy_ok_quiet [OF ok, where t = t and p = Ready])
          (use more o w n others size either [of "n - 1" wt] in \<open>auto simp: held_def\<close>)
    next
      case last
      have eq: "after_round Sunbusy t (vm_page_sunbusy x (word s)) s = ?s (shared_word 0 False) ((pcs s)(t := Ready))"
        using last gt n by (simp add: after_round_def Let_def vm_page_sunbusy_def cmpset_def hand_over_def
            locked_op_def x w flag_bits words)
      show ?thesis unfolding eq
        by (rule busy_ok_quiet [OF ok, where t = t and p = Ready])
          (use last o w n others size in \<open>auto simp: held_def\<close>)
    next
      case wake
      have eq: "after_round Sunbusy t (vm_page_sunbusy x (word s)) s = ?s (shared_word 0 False) (wakeup ((pcs s)(t := Ready)))"
        using wake gt n by (simp add: after_round_def Let_def vm_page_sunbusy_def cmpset_def hand_over_def
            locked_op_def x w flag_bits words)
      have "plock s = None" using lock wake gt by (simp add: takes_lock_def x w flag_bits)
      then show ?thesis unfolding eq
        by (intro busy_ok_waking [OF ok, where t = t]) (use wake o w n others size in \<open>auto simp: held_def\<close>)
    qed
  next
    case False
    show ?thesis
    proof (cases "word s = VPB_SHARERS_WORD 1 \<and> \<not> VPB_SHARERS x > 1 \<and> x AND VPB_BIT_WAITERS = 0")
      case True
      then have n1: "n = 1" "\<not> wt" using w n shared_word_inj [of n 1 wt False] by (auto simp: words)
      have eq: "after_round Sunbusy t (vm_page_sunbusy x (word s)) s = ?s (shared_word 0 False) ((pcs s)(t := Ready))"
        using True by (simp add: after_round_def Let_def vm_page_sunbusy_def cmpset_def hand_over_def locked_op_def words)
      show ?thesis unfolding eq
        by (rule busy_ok_quiet [OF ok, where t = t and p = Ready])
          (use n1 o w others size in \<open>auto simp: held_def\<close>)
    next
      case no: False
      then have "vm_page_sunbusy x (word s) = (word s, Again)"
        using False by (auto simp: vm_page_sunbusy_def cmpset_def)
      then show ?thesis by (intro round_fails [OF ok pc]) simp_all
    qed
  qed
qed

lemma round_down:
  assumes ok: "busy_ok s" and pc: "pcs s t = Loaded (Downgrade l) x" and lock: "takes_lock (Downgrade l) x \<longrightarrow> plock s = None"
  shows "busy_ok (after_round (Downgrade l) t (vm_page_busy_downgrade x (word s)) s)"
proof -
  note own = busy_okD(3) [OF ok pc, simplified]
  have sh: "sharers s = {#}" using busy_okD(1) [OF ok] own by (simp add: held_def)
  obtain wt where w: "word s = excl_word wt" using busy_okD(1) [OF ok] own by (auto simp: held_def)
  have x: "x AND VPB_BIT_WAITERS = (if bit x 2 then VPB_BIT_WAITERS else 0)"
    unfolding waiters_power by (rule and_power_bit)
  have others: "holds_for op u (s\<lparr>word := v, pcs := p, plock := if l then None else plock s, owner := None, sharers := {#t#}\<rparr>)"
    if "holds_for op u s" "u \<noteq> t" for u op v p
    using that own sh by (cases op) auto
  let ?s = "\<lambda>p. s\<lparr>word := shared_word 1 False, pcs := p, plock := if l then None else plock s, owner := None, sharers := {#t#}\<rparr>"
  show ?thesis
  proof (cases "excl_word (bit x 2) = word s")
    case True
    have old: "VPB_SINGLE_EXCLUSIVER OR (x AND VPB_BIT_WAITERS) = excl_word (bit x 2)"
      unfolding x by (simp add: words waiters_or)
    have nz: "x AND VPB_BIT_WAITERS \<noteq> 0 \<longleftrightarrow> bit x 2" by (simp add: flag_bits)
    have eq: "after_round (Downgrade l) t (vm_page_busy_downgrade x (word s)) s =
        ?s (if bit x 2 then wakeup ((pcs s)(t := Ready)) else (pcs s)(t := Ready))"
      unfolding vm_page_busy_downgrade_def Let_def old nz using True
      by (simp add: after_round_def Let_def cmpset_def hand_over_def locked_op_def words)
    show ?thesis
    proof (cases "bit x 2")
      case True
      then have "plock s = None \<or> plock s = Some t" using lock own by (auto simp: takes_lock_def flag_bits)
      then show ?thesis unfolding eq
        by (intro busy_ok_waking [OF ok, where t = t]) (use True others in \<open>auto simp: held_def\<close>)
    next
      case False
      then have "\<not> bit (word s) 2" using \<open>excl_word (bit x 2) = word s\<close> by (metis excl_bits(3))
      then show ?thesis unfolding eq
        by (intro busy_ok_quiet [OF ok, where t = t and p = Ready]) (use False others in \<open>auto simp: held_def\<close>)
    qed
  next
    case False
    have "VPB_SINGLE_EXCLUSIVER OR (x AND VPB_BIT_WAITERS) \<noteq> word s"
      unfolding x using False by (auto simp: words waiters_or split: if_splits)
    then have "vm_page_busy_downgrade x (word s) = (word s, Again)"
      by (auto simp: vm_page_busy_downgrade_def cmpset_def Let_def)
    then show ?thesis by (intro round_fails [OF ok pc]) simp_all
  qed
qed

lemma round_sleep:
  assumes ok: "busy_ok s" and pc: "pcs s t = Loaded (Busy_sleep ns) x"
  shows "busy_ok (after_round (Busy_sleep ns) t (vm_page_busy_sleep ns x (word s)) s)"
proof -
  note own = busy_okD(3) [OF ok pc, simplified]
  note h = busy_okD(1) [OF ok]
  have others: "holds_for op u (s\<lparr>word := v, pcs := p, plock := None\<rparr>)"
    if "holds_for op u s" "u \<noteq> t" for u op v p
    using that own by (cases op) auto
  have sleeps: "busy_ok (s\<lparr>word := w, pcs := (pcs s)(t := Sleeping), plock := None\<rparr>)"
    if w: "bit w 2" and hw: "held (s\<lparr>word := w\<rparr>)" for w
    by (rule busy_ok_local [OF ok, where t = t]) (use w hw others in \<open>auto simp: held_def\<close>)
  consider (ret) "vm_page_busy_sleep ns x (word s) = (word s, Done False False)"
    | (cas) "vm_page_busy_sleep ns x (word s) = (x OR VPB_BIT_WAITERS, Sleep)" "word s = x" "x \<noteq> VPB_UNBUSIED" "\<not> bit x 2"
    | (set) "vm_page_busy_sleep ns x (word s) = (word s, Sleep)" "bit x 2"
    by (cases "x = VPB_UNBUSIED \<or> ns \<and> bit x 0"; cases "bit x 2"; cases "word s = x")
      (auto simp: vm_page_busy_sleep_def cmpset_def flag_bits)
  then show ?thesis
  proof cases
    case ret
    then show ?thesis by (intro round_fails [OF ok pc]) (auto simp: hand_over_def)
  next
    case cas
    have w: "word s = excl_word False \<or> word s = shared_word (size (sharers s)) False"
      using h cas by (auto simp: held_def)
    have "held (s\<lparr>word := x OR VPB_BIT_WAITERS\<rparr>) \<and> bit (x OR VPB_BIT_WAITERS) 2"
    proof (cases "owner s")
      case None
      then have "word s = shared_word (size (sharers s)) False" using w h by (auto simp: held_def)
      moreover have "sharers s \<noteq> {#}" using calculation cas by (auto simp: words)
      ultimately show ?thesis using cas(2) h None by (auto simp: held_def waiters_or nonempty_has_size)
    next
      case (Some u)
      then have "word s = excl_word False" using w h by (auto simp: held_def)
      then show ?thesis using cas(2) h Some by (auto simp: held_def waiters_or)
    qed
    then show ?thesis using sleeps cas(1) by (simp add: after_round_def Let_def locked_op_def)
  next
    case set
    have "waiting s t" using pc set(2) by (auto simp: waiting_def)
    then have "bit (word s) 2" by (rule busy_okD(4) [OF ok])
    then show ?thesis using sleeps [of "word s"] h set(1) by (simp add: after_round_def Let_def locked_op_def)
  qed
qed

lemma round_flash:
  assumes ok: "busy_ok s" and pc: "pcs s t = Loaded Flash x"
  shows "busy_ok (after_round Flash t (vm_page_flash x (word s)) s)"
proof -
  note own = busy_okD(3) [OF ok pc, simplified]
  note h = busy_okD(1) [OF ok]
  have others: "holds_for op u (s\<lparr>word := v, pcs := p, plock := None\<rparr>)"
    if "holds_for op u s" "u \<noteq> t" for u op v p
    using that own by (cases op) auto
  have others2: "holds_for op u (s\<lparr>pcs := p, plock := None\<rparr>)" if "holds_for op u s" "u \<noteq> t" for u op p
    using that own by (cases op) auto
  consider (ret) "\<not> bit x 2" | (cas) "word s = x" "bit x 2" | (again) "word s \<noteq> x" "bit x 2" by blast
  then show ?thesis
  proof cases
    case ret
    then have eq: "after_round Flash t (vm_page_flash x (word s)) s = s\<lparr>word := word s, pcs := (pcs s)(t := Ready), plock := None\<rparr>"
      by (simp add: after_round_def Let_def vm_page_flash_def flag_bits locked_op_def hand_over_def)
    show ?thesis unfolding eq
      by (rule busy_ok_quiet [OF ok, where t = t and p = Ready]) (use h others2 in \<open>auto simp: held_def\<close>)
  next
    case cas
    then have eq: "after_round Flash t (vm_page_flash x (word s)) s =
        s\<lparr>word := x AND NOT VPB_BIT_WAITERS, pcs := wakeup ((pcs s)(t := Ready)), plock := None\<rparr>"
      by (simp add: after_round_def Let_def vm_page_flash_def flag_bits cmpset_def locked_op_def hand_over_def)
    have "held (s\<lparr>word := x AND NOT VPB_BIT_WAITERS\<rparr>)"
      using h cas by (auto simp: held_def waiters_or)
    then show ?thesis unfolding eq
      by (intro busy_ok_waking [OF ok, where t = t]) (use own others in \<open>auto simp: held_def\<close>)
  next
    case again
    then have "vm_page_flash x (word s) = (word s, Again)"
      by (simp add: vm_page_flash_def flag_bits cmpset_def)
    then show ?thesis by (intro round_fails [OF ok pc]) simp_all
  qed
qed

lemma busy_step_ok:
  assumes "busy_step s s'" and ok: "busy_ok s" and fits: "size (sharers s') < 2 ^ 29"
  shows "busy_ok s'"
  using assms(1)
proof cases
  case (call t op)
  have others: "holds_for op' u (s\<lparr>pcs := p, plock := if locked_op op then Some t else plock s\<rparr>)"
    if "holds_for op' u s" for u op' p
    using that call(4) by (cases op') auto
  have me: "holds_for op t (s\<lparr>pcs := p, plock := if locked_op op then Some t else plock s\<rparr>)" for p
    using call(3) by (cases op) (simp_all add: may_start_def locked_op_def)
  show ?thesis unfolding call(1)
    by (rule busy_ok_quiet [OF ok, where t = t and p = "Start op"])
      (use me others busy_okD(1) [OF ok] in \<open>auto simp: held_def\<close>)
next
  case (load t op)
  have hf: "holds_for op t (s\<lparr>pcs := p\<rparr>)" for p
    using busy_okD(2) [OF ok load(2)] holds_for_cong [of "s\<lparr>pcs := p\<rparr>" s] by simp
  have w: "bit (word s) 2 \<or> (\<forall>u. \<not> waiting (s\<lparr>pcs := (pcs s)(t := Loaded op (word s))\<rparr>) u)"
  proof (rule disjCI)
    assume "\<not> (\<forall>u. \<not> waiting (s\<lparr>pcs := (pcs s)(t := Loaded op (word s))\<rparr>) u)"
    then obtain u where u: "waiting (s\<lparr>pcs := (pcs s)(t := Loaded op (word s))\<rparr>) u" by blast
    then show "bit (word s) 2"
      using busy_okD(4) [OF ok, of u] by (cases "u = t") (auto simp: waiting_def)
  qed
  show ?thesis unfolding load(1)
    by (rule busy_ok_local [OF ok, where t = t])
      (use hf w busy_okD(1) [OF ok] in \<open>auto simp: held_def holds_for_cong [of "s\<lparr>pcs := _\<rparr>" s]\<close>)
next
  case (round t op x)
  show ?thesis
    using round fits round_tryx [OF ok] round_trys [OF ok] round_xun [OF ok] round_hard [OF ok] round_sun [OF ok]
      round_down [OF ok] round_sleep [OF ok] round_flash [OF ok]
    by (cases op) (auto simp: takes_lock_def)
qed

lemma busy_reach_ok: "busy_reach s \<Longrightarrow> busy_ok s"
  by (induction rule: busy_reach.induct) (auto simp: busy_init_ok busy_step_ok)

lemma pred_bits: "vm_page_xbusied w \<longleftrightarrow> bit w 1" "vm_page_sbusied w \<longleftrightarrow> bit w 0 \<and> w \<noteq> shared_word 0 False"
  "vm_page_busied w \<longleftrightarrow> w \<noteq> shared_word 0 False"
  using words(1) by (simp_all add: vm_page_xbusied_def vm_page_sbusied_def vm_page_busied_def flag_bits)

section \<open>Properties\<close>

text \<open>
  C13: the busy lock excludes: in every state any number of threads can reach, as long as there are
  fewer than 2^29 sharers (the width of their count in the word, which nothing checks), a page that a
  thread has exclusively busy is not shared, the word tells exactly whether the page is busy,
  exclusively or shared, and counts the sharers.
\<close>

theorem busy_exclusion:
  assumes "busy_reach s"
  shows "(owner s \<noteq> None \<longrightarrow> sharers s = {#}) \<and>
    (vm_page_xbusied (word s) \<longleftrightarrow> owner s \<noteq> None) \<and>
    (vm_page_sbusied (word s) \<longleftrightarrow> sharers s \<noteq> {#}) \<and>
    (vm_page_busied (word s) \<longleftrightarrow> owner s \<noteq> None \<or> sharers s \<noteq> {#}) \<and>
    (owner s = None \<longrightarrow> unat (VPB_SHARERS (word s)) = size (sharers s))"
proof -
  note h = busy_okD(1) [OF busy_reach_ok [OF assms]]
  show ?thesis
  proof (cases "owner s")
    case None
    define n where "n = size (sharers s)"
    obtain wt where w: "word s = shared_word n wt" and n: "n < 2 ^ 29" "wt \<longrightarrow> 0 < n"
      using h None by (auto simp: held_def n_def)
    have "unat (of_nat n :: u32) = n" unfolding unat_of_nat using n(1) by (intro mod_less) simp
    then show ?thesis
      using None n shared_word_inj [of n 0 wt False]
      by (auto simp: w shared_sharers pred_bits n_def)
  next
    case (Some t)
    then show ?thesis
      using h by (auto simp: held_def pred_bits)
  qed
qed

lemma after_round_size: "size (sharers (after_round op t r s)) \<le> Suc (size (sharers s))"
  by (cases op) (auto simp: after_round_def hand_over_def Let_def le_SucI size_mset_mono split: prod.splits outcome.splits)

text \<open>One operation run without interference.\<close>

lemma reach_op:
  assumes "busy_reach s" and "pcs s t = Ready" and "may_start op t s" and "plock s = None"
    and "\<not> takes_lock op (word s)" and "size (sharers s) < 2 ^ 29 - 1"
    and s': "s' = s\<lparr>pcs := (pcs s)(t := Loaded op (word s)), plock := if locked_op op then Some t else None\<rparr>"
  shows "busy_reach (after_round op t (busy_round op (word s) (word s)) s')"
proof -
  define s1 where "s1 = s\<lparr>pcs := (pcs s)(t := Start op), plock := if locked_op op then Some t else plock s\<rparr>"
  have "busy_step s s1" unfolding s1_def using assms(2-4) by (intro busy_step.call) simp_all
  then have r1: "busy_reach s1" by (rule busy_reach.step [OF assms(1)]) (use assms(6) in \<open>simp add: s1_def\<close>)
  have "busy_step s1 (s1\<lparr>pcs := (pcs s1)(t := Loaded op (word s1))\<rparr>)" by (rule busy_step.load) (simp add: s1_def)
  moreover have "s1\<lparr>pcs := (pcs s1)(t := Loaded op (word s1))\<rparr> = s'"
    by (rule busy_sys.equality) (simp_all add: s1_def s' assms(4))
  moreover have "size (sharers s') < 2 ^ 29" using assms(6) by (simp add: s')
  ultimately have "busy_reach s'" using busy_reach.step [OF r1] by simp
  moreover have "busy_step s' (after_round op t (busy_round op (word s) (word s')) s')"
    by (rule busy_step.round) (use assms(5) in \<open>simp_all add: s'\<close>)
  moreover have "size (sharers (after_round op t (busy_round op (word s) (word s')) s')) < 2 ^ 29"
    using after_round_size [of op t "busy_round op (word s) (word s')" s'] assms(6) by (simp add: s')
  ultimately show ?thesis using busy_reach.step by (auto simp: s')
qed

text \<open>Thread 1 has the page exclusively, thread 2 sleeps on it.\<close>

lemma sleeping_state:
  "\<exists>s. busy_reach s \<and> owner s = Some 1 \<and> pcs s 2 = Sleeping"
proof -
  let ?s1 = "busy_init\<lparr>word := 2, pcs := (\<lambda>_. Ready)(1 := Ready), owner := Some 1\<rparr>"
  have "busy_reach ?s1"
    using reach_op [OF busy_reach.init, of 1 Tryxbusy, OF _ _ _ _ _ refl]
    by (simp add: busy_init_def may_start_def takes_lock_def locked_op_def vm_page_tryxbusy_def cmpset_def
        after_round_def Let_def hand_over_def VPB_SINGLE_EXCLUSIVER_def VPB_BIT_EXCLUSIVE_def)
  from reach_op [OF this, of 2 "Busy_sleep False", OF _ _ _ _ _ refl]
  have "busy_reach (?s1\<lparr>word := 6, pcs := ((\<lambda>_. Ready)(1 := Ready))(2 := Sleeping)\<rparr>)"
    by (simp add: busy_init_def may_start_def takes_lock_def locked_op_def vm_page_busy_sleep_def cmpset_def
        after_round_def Let_def hand_over_def VPB_UNBUSIED_def VPB_SHARERS_WORD_def VPB_BIT_SHARED_def VPB_BIT_WAITERS_def)
  then show ?thesis by (intro exI conjI) (assumption, simp_all add: busy_init_def)
qed

theorem busy_exclusion_witness:
  "\<exists>s :: busy_sys. pcs s 2 = Sleeping \<and> vm_page_xbusied (word s) \<and> \<not> vm_page_sbusied (word s)"
proof -
  obtain s where s: "busy_reach s" "owner s = Some 1" "pcs s 2 = Sleeping" using sleeping_state by blast
  then show ?thesis using busy_exclusion [OF s(1)] by (intro exI [of _ s]) auto
qed

text \<open>
  C31: no wakeup is lost, as long as there are fewer than 2^29 sharers: while a thread sleeps on a page, the page is busy and the waiters' bit is
  set, so the round in which the exclusive owner or the last sharer lets the page go wakes the
  sleepers.
\<close>

theorem busy_no_lost_wakeup:
  assumes "busy_reach s" and "pcs s t = Sleeping"
  shows "vm_page_busied (word s) \<and> word s AND VPB_BIT_WAITERS \<noteq> 0 \<and>
    (\<forall>u. owner s = Some u \<longrightarrow> vm_page_xunbusy (word s) = (word s, Hard) \<and>
      vm_page_xunbusy_hard (word s) = (VPB_UNBUSIED, Done True True)) \<and>
    (size (sharers s) = 1 \<longrightarrow> vm_page_sunbusy (word s) (word s) = (VPB_UNBUSIED, Done True True))"
proof -
  note ok = busy_reach_ok [OF assms(1)]
  note h = busy_okD(1) [OF ok]
  have "waiting s t" using assms(2) by (simp add: waiting_def)
  then have b: "bit (word s) 2" by (rule busy_okD(4) [OF ok])
  have "\<not> bit VPB_UNBUSIED 2" by (simp add: words)
  then have busy: "word s \<noteq> VPB_UNBUSIED" using b by metis
  have hard: "vm_page_xunbusy (word s) = (word s, Hard)" if "owner s = Some u" for u
  proof -
    have "word s \<noteq> excl_word False" using b by (metis excl_bits(3))
    then show ?thesis by (simp add: vm_page_xunbusy_def cmpset_def words)
  qed
  have last: "vm_page_sunbusy (word s) (word s) = (VPB_UNBUSIED, Done True True)" if "size (sharers s) = 1"
  proof -
    have "owner s = None" using h that by (auto simp: held_def)
    then have "word s = shared_word 1 True" using h b that by (auto simp: held_def)
    then show ?thesis
      using shared_sharers [of 1 True] by (simp add: vm_page_sunbusy_def cmpset_def flag_bits)
  qed
  show ?thesis
    using b busy hard last by (auto simp: vm_page_busied_def vm_page_xunbusy_hard_def vm_page_xunbusy_locked_def flag_bits)
qed

theorem busy_no_lost_wakeup_witness:
  "\<exists>s. busy_reach s \<and> pcs s 2 = Sleeping \<and> vm_page_xunbusy (word s) = (word s, Hard)"
proof -
  obtain s where s: "busy_reach s" "owner s = Some 1" "pcs s 2 = Sleeping" using sleeping_state by blast
  then show ?thesis using busy_no_lost_wakeup [OF s(1,3)] by blast
qed

end
