(* ===== verification/Vm_Types.thy ===== *)
theory Vm_Types
  imports Vm_Busy
begin

text \<open>
  The data of the page layer (\<open>src/asgn3/vm/vm_page.h\<close>): a page is a number, its fields are in a
  store \<open>pid \<Rightarrow> vm_page\<close>. The configuration is the one of 4096-byte pages, with 8 chunks of
  \<open>DEV_BSIZE\<close> bytes. Links of queues are lists kept beside the pages, the machine-dependent part and
  the physical allocator's fields stay with the code outside the repository.
\<close>

type_synonym pid = nat
type_synonym oid = nat

section \<open>Sizes\<close>

definition PAGE_SIZE :: nat where "PAGE_SIZE = 4096"
definition PAGE_MASK :: u64 where "PAGE_MASK = 4095"
definition trunc_page :: "u64 \<Rightarrow> u64" where "trunc_page x = x AND NOT PAGE_MASK"
definition round_page :: "u64 \<Rightarrow> u64" where "round_page x = (x + PAGE_MASK) AND NOT PAGE_MASK"
definition DEV_BSHIFT :: nat where "DEV_BSHIFT = 9"
definition DEV_BSIZE :: nat where "DEV_BSIZE = 2 ^ DEV_BSHIFT"

lemma and_not_mask_eq: "(x :: u64) AND NOT (2 ^ k - 1) = push_bit k (drop_bit k x)"
  by (rule bit_eqI) (auto simp: bit_simps mask_eq_exp_minus_1 [symmetric])

lemma unat_drop_bit_div: "unat (drop_bit k (x :: u64)) = unat x div 2 ^ k"
  by (simp only: unat_drop_bit_eq) (simp add: drop_bit_eq_div)

lemma u64_bound: "unat (x :: u64) < 2 ^ 64"
  using unsigned_less [where 'a = nat, of x] by simp

lemma unat_trunc: "unat (x AND NOT PAGE_MASK) = unat x div 4096 * 4096"
proof -
  have "PAGE_MASK = 2 ^ 12 - 1" by (simp add: PAGE_MASK_def)
  then have "x AND NOT PAGE_MASK = push_bit 12 (drop_bit 12 x)" using and_not_mask_eq [of x 12] by simp
  moreover have "unat (push_bit 12 (drop_bit 12 x)) = take_bit 64 (push_bit 12 (unat (drop_bit 12 x)))"
    by (simp add: unsigned_push_bit_eq)
  moreover have "push_bit 12 (unat (drop_bit 12 x)) = unat x div 4096 * 4096"
    using unat_drop_bit_div [of 12 x] by (simp add: push_bit_eq_mult)
  moreover have "unat x div 4096 * 4096 < 2 ^ 64" using u64_bound [of x] by simp
  ultimately show ?thesis by (simp add: take_bit_nat_eq_self)
qed

type_synonym vm_page_bits_t = u8

definition VM_PAGE_BITS_ALL :: vm_page_bits_t where "VM_PAGE_BITS_ALL = 0xff"

section \<open>Pages\<close>

datatype pq = PQ_INACTIVE | PQ_ACTIVE | PQ_LAUNDRY | PQ_FIFO | PQ_NONE
datatype vpo_flag = VPO_SWAPSLEEP | VPO_UNMANAGED | VPO_SWAPINPROG | VPO_NOSYNC
datatype pga_flag = PGA_WRITEABLE | PGA_REFERENCED | PGA_EXECUTABLE
datatype vm_memattr = VM_MEMATTR_DEFAULT | VM_MEMATTR nat
datatype pg_flag = PG_FICTITIOUS | PG_ZERO | PG_MARKER | PG_NODUMP | PG_UNHOLDFREE

text \<open>\<open>memattr\<close> is the memory attribute that \<open>pmap_page_get_memattr\<close> and \<open>pmap_page_set_memattr\<close> read and set.\<close>

record vm_page =
  object :: "oid option"
  pindex :: nat
  phys_addr :: nat
  wire_count :: u32
  busy_lock :: u32
  hold_count :: u16
  flags :: "pg_flag set"
  aflags :: "pga_flag set"
  oflags :: "vpo_flag set"
  queue :: pq
  psind :: nat
  segind :: int
  order :: nat
  pg_id :: u64
  pool :: nat
  act_count :: u8
  valid :: vm_page_bits_t
  dirty :: vm_page_bits_t
  memattr :: vm_memattr

type_synonym pages = "pid \<Rightarrow> vm_page"

definition upd_pg :: "pages \<Rightarrow> pid \<Rightarrow> (vm_page \<Rightarrow> vm_page) \<Rightarrow> pages" where
  "upd_pg P m f = P(m := f (P m))"

lemma upd_pg_same [simp]: "upd_pg P m f m = f (P m)"
  by (simp add: upd_pg_def)

lemma upd_pg_other [simp]: "n \<noteq> m \<Longrightarrow> upd_pg P m f n = P n"
  by (simp add: upd_pg_def)

definition ACT_DECLINE :: nat where "ACT_DECLINE = 1"
definition ACT_ADVANCE :: nat where "ACT_ADVANCE = 3"
definition ACT_INIT :: u8 where "ACT_INIT = 5"
definition ACT_MAX :: nat where "ACT_MAX = 64"

section \<open>Flags of a page\<close>

definition vm_page_aflag_clear :: "vm_page \<Rightarrow> pga_flag set \<Rightarrow> vm_page" where
  "vm_page_aflag_clear m bits = m\<lparr>aflags := aflags m - bits\<rparr>"

definition vm_page_aflag_set :: "vm_page \<Rightarrow> pga_flag set \<Rightarrow> vm_page" where
  "vm_page_aflag_set m bits = m\<lparr>aflags := aflags m \<union> bits\<rparr>"

definition vm_page_reference :: "vm_page \<Rightarrow> vm_page" where
  "vm_page_reference m = vm_page_aflag_set m {PGA_REFERENCED}"

definition vm_page_dirty :: "vm_page \<Rightarrow> vm_page" where
  "vm_page_dirty m = m\<lparr>dirty := VM_PAGE_BITS_ALL\<rparr>"

definition vm_page_undirty :: "vm_page \<Rightarrow> vm_page" where
  "vm_page_undirty m = m\<lparr>dirty := 0\<rparr>"

definition vm_page_active :: "vm_page \<Rightarrow> bool" where "vm_page_active m \<longleftrightarrow> queue m = PQ_ACTIVE"
definition vm_page_inactive :: "vm_page \<Rightarrow> bool" where "vm_page_inactive m \<longleftrightarrow> queue m = PQ_INACTIVE"
definition vm_page_in_laundry :: "vm_page \<Rightarrow> bool" where "vm_page_in_laundry m \<longleftrightarrow> queue m = PQ_LAUNDRY"

section \<open>Allocation flags\<close>

text \<open>The flags of \<open>malloc(9)\<close> as predicates on the flag word; the result is the \<open>VM_ALLOC\<close> word.\<close>

definition VM_ALLOC_NORMAL :: u32 where "VM_ALLOC_NORMAL = 0"
definition VM_ALLOC_INTERRUPT :: u32 where "VM_ALLOC_INTERRUPT = 1"
definition VM_ALLOC_SYSTEM :: u32 where "VM_ALLOC_SYSTEM = 2"
definition VM_ALLOC_CLASS_MASK :: u32 where "VM_ALLOC_CLASS_MASK = 3"
definition VM_ALLOC_WAITOK :: u32 where "VM_ALLOC_WAITOK = 0x0008"
definition VM_ALLOC_WAITFAIL :: u32 where "VM_ALLOC_WAITFAIL = 0x0010"
definition VM_ALLOC_WIRED :: u32 where "VM_ALLOC_WIRED = 0x0020"
definition VM_ALLOC_ZERO :: u32 where "VM_ALLOC_ZERO = 0x0040"
definition VM_ALLOC_NOOBJ :: u32 where "VM_ALLOC_NOOBJ = 0x0100"
definition VM_ALLOC_NOBUSY :: u32 where "VM_ALLOC_NOBUSY = 0x0200"
definition VM_ALLOC_IFCACHED :: u32 where "VM_ALLOC_IFCACHED = 0x0400"
definition VM_ALLOC_IFNOTCACHED :: u32 where "VM_ALLOC_IFNOTCACHED = 0x0800"
definition VM_ALLOC_IGN_SBUSY :: u32 where "VM_ALLOC_IGN_SBUSY = 0x1000"
definition VM_ALLOC_NODUMP :: u32 where "VM_ALLOC_NODUMP = 0x2000"
definition VM_ALLOC_SBUSY :: u32 where "VM_ALLOC_SBUSY = 0x4000"
definition VM_ALLOC_NOWAIT :: u32 where "VM_ALLOC_NOWAIT = 0x8000"
definition VM_ALLOC_COUNT_SHIFT :: nat where "VM_ALLOC_COUNT_SHIFT = 16"
definition VM_ALLOC_COUNT :: "u32 \<Rightarrow> u32" where "VM_ALLOC_COUNT n = push_bit VM_ALLOC_COUNT_SHIFT n"

datatype malloc_flag = M_NOWAIT | M_WAITOK | M_ZERO | M_NODUMP | M_USE_RESERVE

definition malloc2vm_flags :: "malloc_flag set \<Rightarrow> u32" where
  "malloc2vm_flags malloc_flags =
    (let pflags = (if M_USE_RESERVE \<in> malloc_flags then VM_ALLOC_INTERRUPT else VM_ALLOC_SYSTEM);
         pflags = (if M_ZERO \<in> malloc_flags then pflags OR VM_ALLOC_ZERO else pflags);
         pflags = (if M_NODUMP \<in> malloc_flags then pflags OR VM_ALLOC_NODUMP else pflags);
         pflags = (if M_NOWAIT \<in> malloc_flags then pflags OR VM_ALLOC_NOWAIT else pflags);
         pflags = (if M_WAITOK \<in> malloc_flags then pflags OR VM_ALLOC_WAITOK else pflags)
     in pflags)"

end
