(* ===== verification/Vm_Daemon.thy ===== *)
theory Vm_Daemon
  imports Vm_Types
begin

text \<open>
  The page daemon's decisions (\<open>src/asgn3/vm/vm_pageout.c\<close>): the integer square root behind the
  laundering threshold, the paging thresholds computed at start, one turn of the laundry thread and
  of the page daemon, the votes of the domains for killing a process, and the choice of the victim.
  The scans of the queues are in \<open>Vm_Scan\<close>.

  Signed and unsigned counts are \<open>int\<close> and \<open>nat\<close> where the lemmas show that they stay in range.
\<close>

section \<open>Integer square root\<close>

function isqrt_shift :: "u32 \<Rightarrow> u32 \<Rightarrow> u32" where
  "isqrt_shift num b = (if b > num then isqrt_shift num (drop_bit 2 b) else b)"
  by pat_completeness auto

lemma drop_bit_2_less: "0 < (w :: u32) \<Longrightarrow> unat (drop_bit 2 w) < unat w"
  by (subst unat_drop_bit_eq) (simp add: drop_bit_eq_div unat_gt_0)

termination isqrt_shift
  by (relation "measure (\<lambda>(num, b). unat b)") (auto intro!: drop_bit_2_less simp: word_gt_0)

function isqrt_loop :: "u32 \<Rightarrow> u32 \<Rightarrow> u32 \<Rightarrow> u32" where
  "isqrt_loop num b root =
    (if b \<noteq> 0
     then let tmp = root + b; root1 = drop_bit 1 root
          in if num \<ge> tmp then isqrt_loop (num - tmp) (drop_bit 2 b) (root1 + b)
             else isqrt_loop num (drop_bit 2 b) root1
     else root)"
  by pat_completeness auto

termination isqrt_loop
  by (relation "measure (\<lambda>(num, b, root). unat b)") (auto intro!: drop_bit_2_less simp: word_gt_0)

declare isqrt_shift.simps [simp del] isqrt_loop.simps [simp del]

definition isqrt :: "u32 \<Rightarrow> u32" where
  "isqrt num = isqrt_loop num (isqrt_shift num (push_bit (8 * 4 - 2) 1)) 0"

section \<open>Thresholds\<close>

record vm_thresholds =
  v_interrupt_free_min :: nat
  vm_pageout_page_count :: nat
  v_free_min :: nat
  v_pageout_free_min :: nat
  v_free_reserved :: nat
  v_free_severe :: nat
  v_free_target :: nat
  v_inactive_target :: nat
  vm_pageout_wakeup_thresh :: nat
  vm_pageout_update_period :: nat
  vm_page_max_wired :: nat
  vm_background_launder_target :: nat

text \<open>\<open>page_count\<close> and \<open>free_count\<close> are those of the machine, \<open>MAXBSIZE\<close> is a constant of the kernel; the last two arguments are tunables that may be preset.\<close>

definition vm_pageout_init :: "nat \<Rightarrow> nat \<Rightarrow> nat \<Rightarrow> nat \<Rightarrow> nat \<Rightarrow> vm_thresholds" where
  "vm_pageout_init MAXBSIZE page_count free_count update_period max_wired =
    (let interrupt_free_min = 2;
         pageout_page_count = (if page_count < 2000 then 8 else 32);
         free_min = (if page_count > 1024 then 4 + (page_count - 1024) div 200 else 4);
         pageout_free_min = 2 * MAXBSIZE div PAGE_SIZE + interrupt_free_min;
         free_reserved = pageout_page_count + pageout_free_min + page_count div 768;
         free_severe = free_min div 2;
         free_target = 4 * free_min + free_reserved;
         free_min' = free_min + free_reserved;
         free_severe' = free_severe + free_reserved;
         inactive_target = 3 * free_target div 2;
         inactive_target' = (if inactive_target > free_count div 3 then free_count div 3 else inactive_target)
     in \<lparr>v_interrupt_free_min = interrupt_free_min, vm_pageout_page_count = pageout_page_count,
         v_free_min = free_min', v_pageout_free_min = pageout_free_min, v_free_reserved = free_reserved,
         v_free_severe = free_severe', v_free_target = free_target, v_inactive_target = inactive_target',
         vm_pageout_wakeup_thresh = free_min' div 10 * 11,
         vm_pageout_update_period = (if update_period = 0 then 600 else update_period),
         vm_page_max_wired = (if max_wired = 0 then free_count div 3 else max_wired),
         vm_background_launder_target = (free_target - free_min') div 10\<rparr>)"

section \<open>The laundry thread\<close>

datatype laundry_request = VM_LAUNDRY_IDLE | VM_LAUNDRY_BACKGROUND | VM_LAUNDRY_SHORTFALL

definition VM_LAUNDER_RATE :: int where "VM_LAUNDER_RATE = 10"
definition VM_INACT_SCAN_RATE :: int where "VM_INACT_SCAN_RATE = 2"

text \<open>\<open>last_target\<close> has no value until the first background run.\<close>

record laundry =
  shortfall :: int
  in_shortfall :: bool
  shortfall_cycle :: int
  target :: int
  last_launder :: u32
  last_target :: "int option"

definition laundry0 :: laundry where
  "laundry0 = \<lparr>shortfall = 0, in_shortfall = False, shortfall_cycle = 0, target = 0, last_launder = 0,
    last_target = None\<rparr>"

text \<open>What one turn reads: the wakeup meter, the counts, the tunables, \<open>vm_laundry_target()\<close>.\<close>

record laundry_in =
  wakeups :: u32
  inactive_count :: nat
  free_count :: nat
  laundry_count :: nat
  background_target :: nat
  background_rate :: nat
  background_max :: nat
  laundry_target :: int

text \<open>
  The first half of a turn: how many pages to launder, or nothing yet. Dividing by a cycle of 0 and
  reading \<open>last_target\<close> before it has a value are faults.
\<close>

definition try_background :: "laundry_in \<Rightarrow> laundry \<Rightarrow> fault + (int \<times> laundry)" where
  "try_background i l =
    (let nclean = inactive_count i + free_count i;
         ndirty = laundry_count i;
         l1 = (if target l = 0 \<and> wakeups i \<noteq> last_launder l \<and>
                 ndirty * unat (isqrt (wakeups i - last_launder l)) \<ge> nclean
               then l\<lparr>target := int (background_target i)\<rparr> else l)
     in if target l1 > 0
        then and_then
          (if wakeups i \<noteq> last_launder l1
           then Inr (l1\<lparr>last_launder := wakeups i, last_target := Some (target l1)\<rparr>)
           else case last_target l1 of
                  None \<Rightarrow> Inl Uninitialised
                | Some t \<Rightarrow> Inr (if t - target l1 \<ge> int (background_max i * PAGE_SIZE div 1024)
                                 then l1\<lparr>target := 0\<rparr> else l1))
          (\<lambda>l2. let launder = int (background_rate i * PAGE_SIZE div 1024) div VM_LAUNDER_RATE
                in Inr (min launder (target l2), l2))
        else Inr (0, l1))"

definition laundry_amount :: "laundry_in \<Rightarrow> laundry \<Rightarrow> fault + (int \<times> laundry)" where
  "laundry_amount i l =
    (let run = (\<lambda>l. if shortfall_cycle l = 0 then Inl Div_by_zero
                   else Inr (target l div shortfall_cycle l,
                             l\<lparr>last_launder := wakeups i, shortfall_cycle := shortfall_cycle l - 1\<rparr>))
     in if shortfall l > 0
        then run (l\<lparr>in_shortfall := True, shortfall_cycle := VM_LAUNDER_RATE div VM_INACT_SCAN_RATE,
                   target := shortfall l\<rparr>)
        else if \<not> in_shortfall l then try_background i l
        else if shortfall_cycle l = 0 \<or> laundry_target i \<le> 0
        then try_background i (l\<lparr>in_shortfall := False, target := 0\<rparr>)
        else run l)"

text \<open>
  One turn. \<open>cleaned\<close> is the number of pages \<open>vm_pageout_launder\<close> reports for the amount asked for;
  \<open>req\<close> is the request read once the thread holds the queue lock again (after it slept, if it did),
  \<open>later_target\<close> and \<open>deficit\<close> what is read then.
\<close>

definition vm_pageout_laundry_worker ::
    "laundry_in \<Rightarrow> (int \<Rightarrow> bool \<Rightarrow> nat) \<Rightarrow> laundry_request \<Rightarrow> int \<Rightarrow> int \<Rightarrow> laundry
      \<Rightarrow> fault + (laundry_request \<times> laundry)" where
  "vm_pageout_laundry_worker i cleaned req later_target deficit l =
    and_then (laundry_amount i l) (\<lambda>(launder, l1).
      let l2 = (if launder > 0
                then l1\<lparr>target := target l1 - min (int (cleaned launder (in_shortfall l1))) (target l1)\<rparr> else l1);
          l3 = (if req = VM_LAUNDRY_SHORTFALL \<and> (\<not> in_shortfall l2 \<or> shortfall_cycle l2 = 0)
                then l2\<lparr>shortfall := later_target + deficit, target := 0\<rparr> else l2\<lparr>shortfall := 0\<rparr>)
      in Inr (if target l3 = 0 then VM_LAUNDRY_IDLE else req, l3))"

section \<open>The page daemon\<close>

record daemon =
  pageout_wanted :: bool
  pages_needed :: bool
  pass :: nat
  target_met :: bool

datatype daemon_pause = No_pause | Pause_scan_rate | Sleep_until_wakeup

text \<open>
  One turn of \<open>vm_pageout_worker\<close> up to the scan: \<open>count_min\<close> is \<open>vm_page_count_min()\<close>, \<open>woken\<close>
  tells whether a sleep ended by a wakeup or by its timeout. The result names the pause made.
\<close>

definition vm_pageout_worker :: "bool \<Rightarrow> bool \<Rightarrow> daemon \<Rightarrow> daemon_pause \<times> daemon" where
  "vm_pageout_worker count_min woken s =
    (let s1 = (if pages_needed s \<and> \<not> count_min then s\<lparr>pages_needed := False\<rparr> else s);
         s2 = (if pageout_wanted s1 \<and> target_met s1 then s1\<lparr>pageout_wanted := False\<rparr> else s1)
     in if pageout_wanted s2
        then (if pass s2 \<ge> 1 then Pause_scan_rate else No_pause, s2\<lparr>pass := pass s2 + 1\<rparr>)
        else if pages_needed s2
        then (No_pause, s2\<lparr>pass := (if pass s2 = 0 then pass s2 + 1 else pass s2)\<rparr>)
        else (Sleep_until_wakeup, s2\<lparr>pass := (if woken then 1 else 0)\<rparr>))"

definition pagedaemon_wakeup :: "bool \<Rightarrow> daemon \<Rightarrow> bool \<times> daemon" where
  "pagedaemon_wakeup is_pageproc s =
    (if \<not> pageout_wanted s \<and> \<not> is_pageproc then (True, s\<lparr>pageout_wanted := True\<rparr>) else (False, s))"

definition pagedaemon_wait :: "daemon \<Rightarrow> bool \<times> daemon" where
  "pagedaemon_wait s =
    (let wake = (\<not> pageout_wanted s \<or> \<not> pages_needed s);
         s1 = (if wake then s\<lparr>pageout_wanted := True\<rparr> else s)
     in (wake, s1\<lparr>pages_needed := True\<rparr>))"

section \<open>Out of memory\<close>

record oom_state =
  oom_seq :: "nat \<Rightarrow> int"
  oom :: "nat \<Rightarrow> bool"
  oom_vote :: int
  kills :: nat

text \<open>\<open>kills\<close> counts the calls of \<open>vm_pageout_oom\<close>; \<open>seqmax\<close> is the tunable \<open>vm_pageout_oom_seq\<close>.\<close>

definition vm_pageout_mightbe_oom :: "nat \<Rightarrow> int \<Rightarrow> nat \<Rightarrow> int \<Rightarrow> int \<Rightarrow> oom_state \<Rightarrow> oom_state" where
  "vm_pageout_mightbe_oom ndomains seqmax d page_shortage starting_page_shortage s =
    (let s1 = s\<lparr>oom_seq := (oom_seq s)(d :=
           if starting_page_shortage \<le> 0 \<or> starting_page_shortage \<noteq> page_shortage then 0 else oom_seq s d + 1)\<rparr>
     in if oom_seq s1 d < seqmax
        then (if oom s1 d then s1\<lparr>oom := (oom s1)(d := False), oom_vote := oom_vote s1 - 1\<rparr> else s1)
        else
          (let s2 = s1\<lparr>oom_seq := (oom_seq s1)(d := 0)\<rparr>
           in if oom s2 d then s2
              else
                (let old_vote = oom_vote s2;
                     s3 = s2\<lparr>oom := (oom s2)(d := True), oom_vote := old_vote + 1\<rparr>
                 in if old_vote \<noteq> int ndomains - 1 then s3
                    else s3\<lparr>kills := kills s3 + 1, oom := (oom s3)(d := False), oom_vote := oom_vote s3 - 1\<rparr>)))"

datatype map_obj_type = Map_default | Map_swap | Map_phys | Map_vnode | Map_device

record map_entry =
  is_sub_map :: bool
  needs_copy :: bool
  entry_object :: "(map_obj_type \<times> int \<times> int) option"   \<comment> \<open>type, \<open>ref_count\<close>, \<open>resident_page_count\<close>\<close>

fun vm_pageout_oom_pagecount :: "map_entry list \<Rightarrow> int" where
  "vm_pageout_oom_pagecount [] = 0"
| "vm_pageout_oom_pagecount (e # es) =
    (if is_sub_map e then 0
     else case entry_object e of
            None \<Rightarrow> 0
          | Some (ty, refs, resident) \<Rightarrow>
              if needs_copy e \<and> refs \<noteq> 1 then 0 else if ty = Map_device then 0 else resident) +
    vm_pageout_oom_pagecount es"

text \<open>
  A process as the choice of the victim sees it. \<open>vmspace\<close> is absent when its reference cannot be
  acquired; \<open>map_locked\<close> tells that its map cannot be read-locked at once.
\<close>

datatype thread_state = TS_runq | TS_running | TS_sleeping | TS_suspended | TS_swapped | TS_other

record oom_proc =
  p_pid :: nat
  p_normal :: bool
  p_excluded :: bool     \<comment> \<open>one of \<open>P_INEXEC\<close>, \<open>P_PROTECTED\<close>, \<open>P_SYSTEM\<close>, \<open>P_WEXIT\<close>\<close>
  p_killed :: bool
  p_threads :: "thread_state list"
  vmspace :: "(nat \<times> map_entry list) option"   \<comment> \<open>swap count and entries\<close>
  map_locked :: bool

definition oom_eligible :: "nat \<Rightarrow> oom_proc \<Rightarrow> bool" where
  "oom_eligible swap_pager_avail p \<longleftrightarrow>
    \<not> (\<not> p_normal p \<or> p_excluded p \<or> p_pid p = 1 \<or> p_killed p \<or> (p_pid p < 48 \<and> swap_pager_avail \<noteq> 0)) \<and>
    (\<forall>t\<in>set (p_threads p). t \<noteq> TS_other) \<and> vmspace p \<noteq> None \<and> \<not> map_locked p"

definition oom_size :: "bool \<Rightarrow> oom_proc \<Rightarrow> int" where
  "oom_size mem p =
    (case vmspace p of None \<Rightarrow> 0
     | Some (swap, es) \<Rightarrow> int swap + (if mem then vm_pageout_oom_pagecount es else 0))"

fun oom_scan :: "bool \<Rightarrow> nat \<Rightarrow> oom_proc list \<Rightarrow> oom_proc option \<Rightarrow> int \<Rightarrow> oom_proc option" where
  "oom_scan mem avail [] big bigsize = big"
| "oom_scan mem avail (p # ps) big bigsize =
    (if oom_eligible avail p
     then (if oom_size mem p > bigsize then oom_scan mem avail ps (Some p) (oom_size mem p)
           else oom_scan mem avail ps big bigsize)
     else oom_scan mem avail ps big bigsize)"

definition vm_pageout_oom :: "bool \<Rightarrow> bool \<Rightarrow> nat \<Rightarrow> oom_proc list \<Rightarrow> fault + nat option" where
  "vm_pageout_oom panic_on_oom mem avail procs =
    (case oom_scan mem avail procs None 0 of
       None \<Rightarrow> Inr None
     | Some p \<Rightarrow> if panic_on_oom then Inl Kernel_panic else Inr (Some (p_pid p)))"

end
