(* ===== verification/Vm_Daemon_Props.thy ===== *)
theory Vm_Daemon_Props
  imports Vm_Daemon
begin

text \<open>
  Properties of the page daemon's decisions: the root computed digit by digit is the integer square
  root, the thresholds are ordered and fit their 32 bits, the laundry thread never divides by zero
  and keeps its targets in range over any number of turns, the votes for killing a process are
  counted right in every reachable state, and the victim is a largest eligible process.
\<close>

section \<open>Square root\<close>

lemma unat_drop_bit_2: "unat (drop_bit 2 (w :: u32)) = unat w div 4"
  by (subst unat_drop_bit_eq) (simp add: drop_bit_eq_div)

lemma unat_drop_bit_1: "unat (drop_bit 1 (w :: u32)) = unat w div 2"
  by (subst unat_drop_bit_eq) (simp add: drop_bit_eq_div)

lemma u32_below: "unat (w :: u32) < 2 ^ 32"
  using unsigned_less [of w] by simp

text \<open>
  With the digits found so far as \<open>q\<close>, a multiple of \<open>2 ^ (k + 1)\<close>: the remainder is \<open>n - q\<^sup>2\<close>, the
  trial bit \<open>4 ^ k\<close> and the variable \<open>root\<close> holds \<open>2 * q * 2 ^ k\<close>.
\<close>

definition root_inv :: "nat \<Rightarrow> nat \<Rightarrow> nat \<Rightarrow> u32 \<Rightarrow> u32 \<Rightarrow> u32 \<Rightarrow> bool" where
  "root_inv n k q num b root \<longleftrightarrow>
    unat b = 4 ^ k \<and> unat num + q * q = n \<and> unat root = 2 * q * 2 ^ k \<and> 2 ^ (k + 1) dvd q \<and>
    n < (q + 2 ^ (k + 1)) * (q + 2 ^ (k + 1)) \<and> n < 2 ^ 32"

lemma root_inv_small: "root_inv n k q num b root \<Longrightarrow> k < 16 \<Longrightarrow> q + 2 ^ (k + 1) \<le> 2 ^ 16"
proof -
  assume i: "root_inv n k q num b root" and k: "k < 16"
  then obtain c where c: "q = 2 ^ (k + 1) * c" unfolding root_inv_def by blast
  have "q * q < 2 ^ 32" using i unfolding root_inv_def by linarith
  have "q < 2 ^ 16"
  proof (rule ccontr)
    assume "\<not> q < 2 ^ 16"
    then have "(2 ^ 16) * (2 ^ 16) \<le> q * q" by (intro mult_le_mono) simp_all
    then show False using \<open>q * q < 2 ^ 32\<close> by simp
  qed
  moreover have p: "(2 :: nat) ^ 16 = 2 ^ (k + 1) * 2 ^ (15 - k)"
    using k by (simp add: power_add [symmetric] del: power_Suc)
  ultimately have "c < 2 ^ (15 - k)" unfolding c p by simp
  then have "2 ^ (k + 1) * (c + 1) \<le> 2 ^ (k + 1) * 2 ^ (15 - k)" by (intro mult_le_mono2) simp
  then show ?thesis unfolding c p by (simp add: algebra_simps)
qed

lemma sq_step: "(q + p) * (q + p) = q * q + (2 * q * p + p * (p :: nat))"
  by (simp add: algebra_simps)

lemma isqrt_step:
  assumes I: "root_inv n k q num b root" and k: "k < 16"
  obtains q' num' root' where "isqrt_loop num b root = isqrt_loop num' (drop_bit 2 b) root'"
    and "unat num' + q' * q' = n" and "unat root' = q' * 2 ^ k" and "2 ^ k dvd q'"
    and "n < (q' + 2 ^ k) * (q' + 2 ^ k)" and "n < 2 ^ 32"
proof -
  have b: "unat b = 4 ^ k" and n: "unat num + q * q = n" and root: "unat root = 2 * q * 2 ^ k"
    and dv: "2 ^ (k + 1) dvd q" and up: "n < (q + 2 ^ (k + 1)) * (q + 2 ^ (k + 1))" and n32: "n < 2 ^ 32"
    using I by (simp_all only: root_inv_def)
  have four: "(4 :: nat) ^ k = 2 ^ k * 2 ^ k" by (simp flip: power_mult_distrib)
  have small: "q + 2 * 2 ^ k \<le> 2 ^ 16" using root_inv_small [OF I k] by simp
  have pk: "(2 :: nat) ^ k \<le> 2 ^ 15" by (rule power_increasing) (use k in simp_all)
  have pos: "0 < (2 :: nat) ^ k" by simp
  have tmp_val: "2 * q * 2 ^ k + 4 ^ k = 2 ^ k * (2 * q + 2 ^ k)"
    unfolding four by (simp only: distrib_left mult.commute mult.left_commute)
  have "2 ^ k * (2 * q + 2 ^ k) < 2 ^ 15 * (2 ^ 17 :: nat)"
  proof -
    have "q + 2 * 2 ^ k \<le> 65536" using small by simp
    then have "2 * q + 2 ^ k < (131072 :: nat)" using pos by linarith
    then have "2 * q + 2 ^ k < (2 ^ 17 :: nat)" by simp
    then have "2 ^ k * (2 * q + 2 ^ k) < 2 ^ k * (2 ^ 17 :: nat)" by simp
    also have "\<dots> \<le> 2 ^ 15 * 2 ^ 17" using pk by simp
    finally show ?thesis .
  qed
  then have fits: "unat root + unat b < 2 ^ 32" unfolding root b tmp_val by simp
  have tmp: "unat (root + b) = 2 * q * 2 ^ k + 4 ^ k"
    using fits unat_add_lem [of root b] root b by simp
  have half: "unat (drop_bit 1 root) = q * 2 ^ k" unfolding unat_drop_bit_1 root by simp
  have b0: "b \<noteq> 0" using b by auto
  show thesis
  proof (cases "num \<ge> root + b")
    case True
    have le: "2 * q * 2 ^ k + 4 ^ k \<le> unat num" using True tmp by (simp add: word_le_nat_alt)
    have sq: "(q + 2 ^ k) * (q + 2 ^ k) = q * q + (2 * q * 2 ^ k + 4 ^ k)"
      unfolding four by (rule sq_step)
    have fits2: "unat (drop_bit 1 root) + unat b < 2 ^ 32" using fits half root by simp
    have r: "unat (drop_bit 1 root + b) = (q + 2 ^ k) * 2 ^ k"
      using fits2 unat_add_lem [of "drop_bit 1 root" b] half b by (simp add: four distrib_right)
    have d: "2 ^ k dvd q + (2 :: nat) ^ k" using dv by (auto elim: dvd_trans [rotated])
    have e: "isqrt_loop num b root = isqrt_loop (num - (root + b)) (drop_bit 2 b) (drop_bit 1 root + b)"
      using True b0 by (simp add: isqrt_loop.simps [of num b root] Let_def)
    have m: "unat (num - (root + b)) + (q + 2 ^ k) * (q + 2 ^ k) = n"
      using True le n sq by (simp add: unat_sub tmp)
    have u: "n < (q + 2 ^ k + 2 ^ k) * (q + 2 ^ k + 2 ^ k)" using up by (simp add: algebra_simps)
    show ?thesis by (rule that [OF e m r d u n32])
  next
    case False
    have lt: "unat num < 2 * q * 2 ^ k + 4 ^ k" using False tmp by (simp add: word_le_nat_alt)
    have d: "2 ^ k dvd q" using dv by (auto elim: dvd_trans [rotated])
    have e: "isqrt_loop num b root = isqrt_loop num (drop_bit 2 b) (drop_bit 1 root)"
      using False b0 by (simp add: isqrt_loop.simps [of num b root] Let_def)
    have u: "n < (q + 2 ^ k) * (q + 2 ^ k)" using lt n unfolding sq_step four by linarith
    show ?thesis by (rule that [OF e n half d u n32])
  qed
qed

lemma isqrt_loop_ok:
  "root_inv n k q num b root \<Longrightarrow> k < 16 \<Longrightarrow>
    unat (isqrt_loop num b root) * unat (isqrt_loop num b root) \<le> n \<and>
    n < (unat (isqrt_loop num b root) + 1) * (unat (isqrt_loop num b root) + 1)"
proof (induction k arbitrary: q num b root)
  case 0
  obtain q' num' root' where s: "isqrt_loop num b root = isqrt_loop num' (drop_bit 2 b) root'"
      "unat num' + q' * q' = n" "unat root' = q' * 2 ^ 0" "n < (q' + 2 ^ 0) * (q' + 2 ^ 0)"
    using isqrt_step [OF 0] by metis
  have "unat b = 1" using 0 by (simp add: root_inv_def)
  then have "unat (drop_bit 2 b) = 0" unfolding unat_drop_bit_2 by simp
  then have "drop_bit 2 b = 0" by (simp only: unat_eq_zero)
  then have "isqrt_loop num b root = root'" unfolding s(1) by (simp add: isqrt_loop.simps)
  then show ?case using s(2-4) by simp
next
  case (Suc k)
  obtain q' num' root' where s: "isqrt_loop num b root = isqrt_loop num' (drop_bit 2 b) root'"
      "unat num' + q' * q' = n" "unat root' = q' * 2 ^ Suc k" "2 ^ Suc k dvd q'"
      "n < (q' + 2 ^ Suc k) * (q' + 2 ^ Suc k)" "n < 2 ^ 32"
    using isqrt_step [OF Suc.prems] by metis
  have "unat (drop_bit 2 b) = 4 ^ k" unfolding unat_drop_bit_2 using Suc.prems by (simp add: root_inv_def)
  then have "root_inv n k q' num' (drop_bit 2 b) root'" using s by (simp add: root_inv_def)
  then show ?case unfolding s(1) using Suc.prems(2) by (intro Suc.IH) simp_all
qed

lemma isqrt_shift_ok:
  "k < 16 \<Longrightarrow> unat b = 4 ^ k \<Longrightarrow> unat num < 4 ^ (k + 1) \<Longrightarrow> 0 < unat num \<Longrightarrow>
    \<exists>j<16. unat (isqrt_shift num b) = 4 ^ j \<and> unat num < 4 ^ (j + 1)"
proof (induction k arbitrary: b)
  case 0
  then have "isqrt_shift num b = b" by (subst isqrt_shift.simps) (simp add: word_less_nat_alt)
  then show ?case using 0 by (intro exI [of _ 0]) simp
next
  case (Suc k)
  show ?case
  proof (cases "b > num")
    case True
    have e: "isqrt_shift num b = isqrt_shift num (drop_bit 2 b)" using True by (subst isqrt_shift.simps) simp
    have "unat (drop_bit 2 b) = 4 ^ k" unfolding unat_drop_bit_2 using Suc.prems(2) by simp
    moreover have "unat num < 4 ^ (k + 1)" using True Suc.prems(2) by (simp add: word_less_nat_alt)
    ultimately show ?thesis unfolding e using Suc by simp
  next
    case False
    then have "isqrt_shift num b = b" by (subst isqrt_shift.simps) simp
    then show ?thesis using Suc.prems by (intro exI [of _ "Suc k"]) simp
  qed
qed

lemma isqrt_loop_0: "isqrt_loop num 0 root = root"
  by (simp add: isqrt_loop.simps)

lemma isqrt_shift_0: "isqrt_shift 0 b = 0"
proof (induction "unat b" arbitrary: b rule: less_induct)
  case less
  show ?case
  proof (cases "b = 0")
    case True
    then show ?thesis by (subst isqrt_shift.simps) simp
  next
    case False
    then have "isqrt_shift 0 b = isqrt_shift 0 (drop_bit 2 b)" by (subst isqrt_shift.simps) (simp add: word_gt_0)
    then show ?thesis using less [OF drop_bit_2_less] False by (simp only: word_gt_0)
  qed
qed

text \<open>
  C38: The bit-by-bit square root of the laundry thread ends on every 32-bit number and is the integer
  square root: its square does not exceed the number, the square of its successor does.
\<close>

theorem isqrt_correct:
  "unat (isqrt num) * unat (isqrt num) \<le> unat num \<and> unat num < (unat (isqrt num) + 1) * (unat (isqrt num) + 1)"
proof (cases "num = 0")
  case True
  then show ?thesis by (simp add: isqrt_def isqrt_shift_0 isqrt_loop_0)
next
  case False
  have "unat (push_bit (8 * 4 - 2) 1 :: u32) = 4 ^ 15" by simp
  moreover have "unat num < 4 ^ (15 + 1)" using u32_below [of num] by simp
  ultimately obtain j where j: "j < 16" "unat (isqrt_shift num (push_bit (8 * 4 - 2) 1)) = 4 ^ j" "unat num < 4 ^ (j + 1)"
    using isqrt_shift_ok [of 15 "push_bit (8 * 4 - 2) 1" num] False by (auto simp: unat_gt_0)
  have "(4 :: nat) ^ (j + 1) = (0 + 2 ^ (j + 1)) * (0 + 2 ^ (j + 1))" by (simp flip: power_mult_distrib)
  then have "root_inv (unat num) j 0 num (isqrt_shift num (push_bit (8 * 4 - 2) 1)) 0"
    using j(2,3) u32_below [of num] by (simp add: root_inv_def)
  then show ?thesis unfolding isqrt_def by (rule isqrt_loop_ok [OF _ j(1)])
qed

section \<open>Thresholds\<close>

text \<open>
  The paging thresholds are ordered as the daemon relies on, every intermediate value fits 32 bits
  for every machine of at most \<open>2 ^ 32\<close> pages, and on machines of at least 4096 pages the daemon is
  woken no later than the minimum of free pages is reached.
\<close>

theorem thresholds_ordered:
  assumes "page_count < 2 ^ 32" and mb: "65536 \<le> MAXBSIZE" "MAXBSIZE \<le> 2 ^ 20"
    and t: "t = vm_pageout_init MAXBSIZE page_count nfree up mw"
  shows "v_interrupt_free_min t \<le> v_pageout_free_min t \<and> v_pageout_free_min t \<le> v_free_reserved t \<and>
    v_free_reserved t \<le> v_free_severe t \<and> v_free_severe t \<le> v_free_min t \<and> v_free_min t \<le> v_free_target t \<and>
    3 * v_free_target t < 2 ^ 32 \<and> 3 * v_inactive_target t \<le> nfree \<and> vm_pageout_wakeup_thresh t < 2 ^ 32 \<and>
    (4096 \<le> page_count \<longrightarrow> v_free_min t \<le> vm_pageout_wakeup_thresh t)"
proof -
  define fm where "fm = (if page_count > 1024 then 4 + (page_count - 1024) div 200 else 4)"
  define fr where "fr = (if page_count < 2000 then 8 else 32) + (2 * MAXBSIZE div PAGE_SIZE + 2) + page_count div 768"
  have e: "v_interrupt_free_min t = 2" "v_pageout_free_min t = 2 * MAXBSIZE div PAGE_SIZE + 2" "v_free_reserved t = fr"
    "v_free_severe t = fm div 2 + fr" "v_free_min t = fm + fr" "v_free_target t = 4 * fm + fr"
    "v_inactive_target t = (if 3 * (4 * fm + fr) div 2 > nfree div 3 then nfree div 3 else 3 * (4 * fm + fr) div 2)"
    "vm_pageout_wakeup_thresh t = (fm + fr) div 10 * 11"
    by (simp_all add: t vm_pageout_init_def Let_def fm_def fr_def)
  have fm: "fm \<le> 4 + page_count div 200" by (auto simp: fm_def intro!: div_le_mono)
  have pc: "page_count div 200 \<le> 21474837" "page_count div 768 \<le> 5592406" using assms(1) by auto
  have mbs: "2 * MAXBSIZE div PAGE_SIZE \<le> 512" using mb(2) by (simp add: PAGE_SIZE_def)
  have fr: "fr \<le> 32 + (512 + 2) + 5592406" using pc mbs by (auto simp: fr_def)
  have "fm \<le> 21474841" using fm pc by linarith
  then have big: "4 * fm + fr \<le> 91492316" using fr by linarith
  have inact: "3 * v_inactive_target t \<le> nfree" unfolding e by auto
  have thr: "v_free_min t \<le> vm_pageout_wakeup_thresh t" if "4096 \<le> page_count"
  proof -
    have "19 \<le> fm" using that div_le_mono [of 3072 "page_count - 1024" 200] by (simp add: fm_def)
    moreover have "71 \<le> fr"
      using that div_le_mono [of 4096 page_count 768] div_le_mono [of "2 * 65536" "2 * MAXBSIZE" PAGE_SIZE] mb(1)
      by (simp add: fr_def PAGE_SIZE_def)
    ultimately have "9 \<le> (fm + fr) div 10" by simp
    moreover have "fm + fr = 10 * ((fm + fr) div 10) + (fm + fr) mod 10" by simp
    moreover have "(fm + fr) mod 10 < 10" by simp
    ultimately show ?thesis unfolding e by linarith
  qed
  show ?thesis
    using big inact thr by (auto simp: e fr_def)
qed

theorem thresholds_ordered_witness:
  "v_free_min (vm_pageout_init 65536 262144 260000 0 0) \<le> v_free_target (vm_pageout_init 65536 262144 260000 0 0)"
  using thresholds_ordered [OF _ _ _ refl, of 262144 65536 260000 0 0] by simp

section \<open>Laundry thread\<close>

definition laundry_ok :: "laundry \<Rightarrow> bool" where
  "laundry_ok l \<longleftrightarrow> 0 \<le> target l \<and> 0 \<le> shortfall_cycle l \<and>
    (\<not> in_shortfall l \<and> 0 < target l \<longrightarrow> (\<exists>t. last_target l = Some t \<and> target l \<le> t))"

lemma try_background_ok:
  assumes "laundry_ok l" "\<not> in_shortfall l"
  shows "\<exists>n l'. try_background i l = Inr (n, l') \<and> laundry_ok l' \<and> 0 \<le> n \<and> n \<le> target l' \<and> \<not> in_shortfall l'"
proof -
  let ?r = "int (background_rate i * PAGE_SIZE div 1024) div VM_LAUNDER_RATE"
  have r: "0 \<le> ?r" by (simp add: VM_LAUNDER_RATE_def)
  let ?c = "target l = 0 \<and> wakeups i \<noteq> last_launder l \<and>
    laundry_count i * unat (isqrt (wakeups i - last_launder l)) \<ge> inactive_count i + free_count i"
  define l1 where "l1 = (if ?c then l\<lparr>target := int (background_target i)\<rparr> else l)"
  have ns: "\<not> in_shortfall l1" "shortfall_cycle l1 = shortfall_cycle l" "last_launder l1 = last_launder l"
    "last_target l1 = last_target l" using assms(2) by (simp_all add: l1_def)
  have nn: "0 \<le> target l1" using assms(1) by (simp add: l1_def laundry_ok_def)
  have st: "0 < target l1 \<Longrightarrow> wakeups i = last_launder l1 \<Longrightarrow> \<exists>t. last_target l1 = Some t \<and> target l1 \<le> t"
  proof (cases ?c)
    case True
    assume "wakeups i = last_launder l1"
    then show ?thesis using True ns(3) by simp
  next
    case False
    assume "0 < target l1"
    then show ?thesis using False assms by (simp add: l1_def laundry_ok_def)
  qed
  have cy: "0 \<le> shortfall_cycle l" using assms(1) by (simp add: laundry_ok_def)
  have e: "try_background i l =
    (if target l1 > 0
     then and_then
          (if wakeups i \<noteq> last_launder l1
           then Inr (l1\<lparr>last_launder := wakeups i, last_target := Some (target l1)\<rparr>)
           else case last_target l1 of
                  None \<Rightarrow> Inl Uninitialised
                | Some t \<Rightarrow> Inr (if t - target l1 \<ge> int (background_max i * PAGE_SIZE div 1024)
                                 then l1\<lparr>target := 0\<rparr> else l1))
          (\<lambda>l2. Inr (min ?r (target l2), l2))
     else Inr (0, l1))"
    unfolding try_background_def Let_def l1_def by (rule refl)
  show ?thesis
  proof (cases "target l1 > 0")
    case False
    then show ?thesis using nn ns cy by (intro exI [of _ 0] exI [of _ l1]) (auto simp: e laundry_ok_def)
  next
    case pos: True
    show ?thesis
    proof (cases "wakeups i = last_launder l1")
      case False
      then show ?thesis using pos r ns cy by (auto simp: e laundry_ok_def)
    next
      case True
      then obtain t where t: "last_target l1 = Some t" "target l1 \<le> t" using st pos by blast
      show ?thesis using pos True t r ns cy by (auto simp: e laundry_ok_def)
    qed
  qed
qed

lemma laundry_amount_ok:
  assumes "laundry_ok l"
  shows "\<exists>n l'. laundry_amount i l = Inr (n, l') \<and> laundry_ok l' \<and> 0 \<le> n \<and> n \<le> target l'"
proof -
  have run: "\<exists>n l'. (if shortfall_cycle l = 0 then Inl Div_by_zero
        else Inr (target l div shortfall_cycle l, l\<lparr>last_launder := wakeups i, shortfall_cycle := shortfall_cycle l - 1\<rparr>)) =
      (Inr (n, l') :: fault + int \<times> laundry) \<and> laundry_ok l' \<and> 0 \<le> n \<and> n \<le> target l'"
    if "0 \<le> target l" "0 < shortfall_cycle l" "in_shortfall l" for l
  proof -
    have "0 \<le> target l div shortfall_cycle l" using that by (simp add: pos_imp_zdiv_nonneg_iff)
    moreover have "target l div shortfall_cycle l \<le> target l" using that
      by (metis div_by_1 less_eq_int_code(1) linorder_not_le zdiv_mono2 zero_less_one zless_imp_add1_zle add_0)
    ultimately show ?thesis using that by (simp add: laundry_ok_def)
  qed
  consider (a) "0 < shortfall l" | (b) "\<not> 0 < shortfall l" "\<not> in_shortfall l"
    | (c) "\<not> 0 < shortfall l" "in_shortfall l" "shortfall_cycle l = 0 \<or> laundry_target i \<le> 0"
    | (d) "\<not> 0 < shortfall l" "in_shortfall l" "shortfall_cycle l \<noteq> 0" "\<not> laundry_target i \<le> 0" by blast
  then show ?thesis
  proof cases
    case a
    then show ?thesis
      using run [of "l\<lparr>in_shortfall := True, shortfall_cycle := VM_LAUNDER_RATE div VM_INACT_SCAN_RATE, target := shortfall l\<rparr>"]
      by (simp add: laundry_amount_def Let_def VM_LAUNDER_RATE_def VM_INACT_SCAN_RATE_def)
  next
    case b
    then have "laundry_amount i l = try_background i l" by (simp add: laundry_amount_def)
    with try_background_ok [OF assms b(2), of i] show ?thesis by auto
  next
    case c
    then have e: "laundry_amount i l = try_background i (l\<lparr>in_shortfall := False, target := 0\<rparr>)"
      by (auto simp: laundry_amount_def)
    have "laundry_ok (l\<lparr>in_shortfall := False, target := 0\<rparr>)" using assms by (simp add: laundry_ok_def)
    from try_background_ok [OF this, of i] show ?thesis unfolding e by auto
  next
    case d
    then have "laundry_amount i l =
        (if shortfall_cycle l = 0 then Inl Div_by_zero
         else Inr (target l div shortfall_cycle l, l\<lparr>last_launder := wakeups i, shortfall_cycle := shortfall_cycle l - 1\<rparr>))"
      by (simp add: laundry_amount_def Let_def)
    then show ?thesis using run [of l] assms d by (simp add: laundry_ok_def)
  qed
qed

lemma laundry_turn_ok:
  assumes "laundry_ok l"
  shows "\<exists>req' l'. vm_pageout_laundry_worker i cleaned req later deficit l = Inr (req', l') \<and> laundry_ok l'"
proof -
  obtain n l1 where e: "laundry_amount i l = Inr (n, l1)" and ok: "laundry_ok l1" using laundry_amount_ok [OF assms] by blast
  define l2 where "l2 = (if n > 0 then l1\<lparr>target := target l1 - min (int (cleaned n (in_shortfall l1))) (target l1)\<rparr> else l1)"
  have "laundry_ok l2" using ok by (auto simp: l2_def laundry_ok_def)
  then show ?thesis
    unfolding vm_pageout_laundry_worker_def e by (auto simp: Let_def l2_def [symmetric] laundry_ok_def)
qed

type_synonym turn = "laundry_in \<times> (int \<Rightarrow> bool \<Rightarrow> nat) \<times> laundry_request \<times> int \<times> int"

fun laundry_turns :: "turn list \<Rightarrow> laundry \<Rightarrow> fault + laundry" where
  "laundry_turns [] l = Inr l"
| "laundry_turns ((i, cleaned, req, later, deficit) # ts) l =
    and_then (vm_pageout_laundry_worker i cleaned req later deficit l) (\<lambda>(req', l'). laundry_turns ts l')"

text \<open>
  The laundry thread never faults: over any number of turns, whatever counts, wakeups, requests and
  results it meets, it divides by no empty cycle, reads no target it has not set, and its target and
  its cycle never become negative.
\<close>

theorem laundry_worker_safe:
  "\<exists>l. laundry_turns ts laundry0 = Inr l \<and> 0 \<le> target l \<and> 0 \<le> shortfall_cycle l"
proof -
  have "laundry_ok l \<Longrightarrow> \<exists>l'. laundry_turns ts l = Inr l' \<and> laundry_ok l'" for l
  proof (induction ts arbitrary: l)
    case (Cons t ts)
    obtain i cleaned req later deficit where t: "t = (i, cleaned, req, later, deficit)" by (cases t)
    obtain req' l1 where "vm_pageout_laundry_worker i cleaned req later deficit l = Inr (req', l1)" "laundry_ok l1"
      using laundry_turn_ok [OF Cons.prems] by blast
    then show ?case using Cons.IH by (simp add: t)
  qed simp
  moreover have "laundry_ok laundry0" by (simp add: laundry_ok_def laundry0_def)
  ultimately show ?thesis unfolding laundry_ok_def by blast
qed

section \<open>Votes\<close>

definition oom0 :: oom_state where
  "oom0 = \<lparr>oom_seq = (\<lambda>d. 0), oom = (\<lambda>d. False), oom_vote = 0, kills = 0\<rparr>"

text \<open>The domains' daemons report in any order, with any shortages.\<close>

inductive oom_reach :: "nat \<Rightarrow> int \<Rightarrow> oom_state \<Rightarrow> bool" for n seqmax where
  Oom_start: "oom_reach n seqmax oom0"
| Oom_report: "oom_reach n seqmax s \<Longrightarrow> d < n \<Longrightarrow> oom_reach n seqmax (vm_pageout_mightbe_oom n seqmax d short start s)"

inductive_cases oom_reachE: "oom_reach n seqmax s"

definition voters :: "nat \<Rightarrow> oom_state \<Rightarrow> nat set" where
  "voters n s = {d. d < n \<and> oom s d}"

definition votes_ok :: "nat \<Rightarrow> oom_state \<Rightarrow> bool" where
  "votes_ok n s \<longleftrightarrow> oom_vote s = int (card (voters n s)) \<and> oom_vote s < int n"

lemma finite_voters [simp]: "finite (voters n s)"
  by (simp add: voters_def)

lemma card_voters_full: "votes_ok n s \<Longrightarrow> d < n \<Longrightarrow> \<not> oom s d \<Longrightarrow>
    oom_vote s = int n - 1 \<longleftrightarrow> (\<forall>e<n. e \<noteq> d \<longrightarrow> oom s e)"
proof -
  assume ok: "votes_ok n s" and d: "d < n" "\<not> oom s d"
  have sub: "voters n s \<subseteq> {..<n} - {d}" using d by (auto simp: voters_def)
  have c: "card ({..<n} - {d}) = n - 1" using d by simp
  have "card (voters n s) = n - 1 \<longleftrightarrow> voters n s = {..<n} - {d}"
  proof
    assume "card (voters n s) = n - 1"
    then show "voters n s = {..<n} - {d}" using card_subset_eq [OF _ sub] c by simp
  qed (simp add: c)
  moreover have "voters n s = {..<n} - {d} \<longleftrightarrow> (\<forall>e<n. e \<noteq> d \<longrightarrow> oom s e)" using d by (auto simp: voters_def)
  moreover have "oom_vote s = int n - 1 \<longleftrightarrow> card (voters n s) = n - 1" using ok d by (auto simp: votes_ok_def)
  ultimately show ?thesis by simp
qed

text \<open>The effect of one report, with \<open>again\<close> telling that the domain failed once more to free anything.\<close>

lemma mightbe_oom_cases:
  assumes again: "again \<longleftrightarrow> \<not> (start \<le> 0 \<or> start \<noteq> short) \<and> oom_seq s d + 1 \<ge> seqmax \<or>
      (start \<le> 0 \<or> start \<noteq> short) \<and> 0 \<ge> seqmax"
    and s': "s' = vm_pageout_mightbe_oom n seqmax d short start s"
  shows "\<not> again \<Longrightarrow> oom s' = (oom s)(d := False) \<and> oom_vote s' = oom_vote s - (if oom s d then 1 else 0) \<and> kills s' = kills s"
    and "again \<Longrightarrow> oom s d \<Longrightarrow> oom s' = oom s \<and> oom_vote s' = oom_vote s \<and> kills s' = kills s"
    and "again \<Longrightarrow> \<not> oom s d \<Longrightarrow> oom_vote s \<noteq> int n - 1 \<Longrightarrow>
      oom s' = (oom s)(d := True) \<and> oom_vote s' = oom_vote s + 1 \<and> kills s' = kills s"
    and "again \<Longrightarrow> \<not> oom s d \<Longrightarrow> oom_vote s = int n - 1 \<Longrightarrow>
      oom s' = oom s \<and> oom_vote s' = oom_vote s \<and> kills s' = kills s + 1"
  unfolding s' again by (auto simp: vm_pageout_mightbe_oom_def Let_def fun_upd_idem)

lemma votes_ok_step:
  assumes ok: "votes_ok n s" and d: "d < n"
  shows "votes_ok n (vm_pageout_mightbe_oom n seqmax d short start s)"
proof -
  define s' where "s' = vm_pageout_mightbe_oom n seqmax d short start s"
  define again where "again \<longleftrightarrow> \<not> (start \<le> 0 \<or> start \<noteq> short) \<and> oom_seq s d + 1 \<ge> seqmax \<or>
      (start \<le> 0 \<or> start \<noteq> short) \<and> 0 \<ge> seqmax"
  note C = mightbe_oom_cases [OF again_def s'_def]
  have v: "oom_vote s = int (card (voters n s))" "oom_vote s < int n" using ok by (simp_all add: votes_ok_def)
  have "votes_ok n s'"
  proof (cases again)
    case False
    have "voters n s' = voters n s - {d}" using C(1) [OF False] d by (auto simp: voters_def)
    then have vs: "voters n s' = voters n s - {d}" .
    show ?thesis
    proof (cases "oom s d")
      case True
      then have mem: "d \<in> voters n s" using d by (simp add: voters_def)
      have "int (card (voters n s - {d})) = int (card (voters n s)) - 1"
        using card_Suc_Diff1 [OF finite_voters mem] by linarith
      then show ?thesis using C(1) [OF False] v True by (simp add: votes_ok_def vs)
    next
      case o: False
      then have "voters n s - {d} = voters n s" by (auto simp: voters_def)
      then show ?thesis using C(1) [OF False] v o by (simp add: votes_ok_def vs)
    qed
  next
    case True
    show ?thesis
    proof (cases "oom s d")
      case o: True
      then have "voters n s' = voters n s" using C(2) [OF True o] by (simp add: voters_def)
      then show ?thesis using C(2) [OF True o] v by (simp add: votes_ok_def)
    next
      case o: False
      show ?thesis
      proof (cases "oom_vote s = int n - 1")
        case full: True
        have "voters n s' = voters n s" using C(4) [OF True o full] by (simp add: voters_def)
        then show ?thesis using C(4) [OF True o full] v by (simp add: votes_ok_def)
      next
        case False
        have "voters n s' = insert d (voters n s)" using C(3) [OF True o False] d by (auto simp: voters_def)
        moreover have "d \<notin> voters n s" using o by (simp add: voters_def)
        ultimately show ?thesis using C(3) [OF True o False] v False by (simp add: votes_ok_def)
      qed
    qed
  qed
  then show ?thesis by (simp add: s'_def)
qed

text \<open>
  C36: In every state the domains' daemons can reach by reporting in any order, the vote counts exactly
  the domains that stand by their vote and never reaches the number of domains; and a process is
  killed exactly when a domain that has not voted fails once more while all others stand by theirs.
\<close>

theorem oom_vote_quorum:
  assumes reach: "oom_reach n seqmax s" and d: "d < n"
    and s': "s' = vm_pageout_mightbe_oom n seqmax d short short s" and pos: "0 < short" "0 < seqmax"
  shows "oom_vote s = int (card {e. e < n \<and> oom s e}) \<and> oom_vote s < int n \<and>
    (kills s' = kills s + 1 \<longleftrightarrow> \<not> oom s d \<and> oom_seq s d + 1 \<ge> seqmax \<and> (\<forall>e<n. e \<noteq> d \<longrightarrow> oom s e))"
proof -
  have ok: "votes_ok n s"
    using reach
  proof (induction rule: oom_reach.induct)
    case Oom_start
    then show ?case using d by (simp add: votes_ok_def oom0_def voters_def)
  next
    case (Oom_report s d short start)
    then show ?case by (intro votes_ok_step)
  qed
  define again where "again \<longleftrightarrow> \<not> (short \<le> 0 \<or> short \<noteq> short) \<and> oom_seq s d + 1 \<ge> seqmax \<or>
      (short \<le> 0 \<or> short \<noteq> short) \<and> 0 \<ge> seqmax"
  note C = mightbe_oom_cases [OF again_def s']
  have a: "again \<longleftrightarrow> oom_seq s d + 1 \<ge> seqmax" using pos by (auto simp: again_def)
  have "kills s' = kills s + 1 \<longleftrightarrow> again \<and> \<not> oom s d \<and> oom_vote s = int n - 1"
  proof (cases again)
    case False
    then show ?thesis using C(1) [OF False] by simp
  next
    case ag: True
    show ?thesis
    proof (cases "oom s d")
      case True
      then show ?thesis using C(2) [OF ag True] by simp
    next
      case o: False
      show ?thesis using C(3) [OF ag o] C(4) [OF ag o] ag o by (cases "oom_vote s = int n - 1") simp_all
    qed
  qed
  then show ?thesis using ok card_voters_full [OF ok d] a by (auto simp: votes_ok_def voters_def)
qed

theorem oom_vote_quorum_witness:
  "kills (vm_pageout_mightbe_oom 1 1 0 5 5 oom0) = kills oom0 + 1"
  using oom_vote_quorum [OF Oom_start [of 1 1] _ refl, of 0 5] by (simp add: oom0_def)

section \<open>Victim\<close>

lemma oom_scan_ok:
  "oom_scan mem avail ps big bs = r \<Longrightarrow> (case big of None \<Rightarrow> bs = 0 | Some p \<Rightarrow> bs = oom_size mem p \<and> bs > 0) \<Longrightarrow>
    (case r of
       None \<Rightarrow> big = None \<and> (\<forall>q\<in>set ps. oom_eligible avail q \<longrightarrow> oom_size mem q \<le> 0)
     | Some p \<Rightarrow> oom_size mem p > 0 \<and> (big = Some p \<or> p \<in> set ps \<and> oom_eligible avail p) \<and> bs \<le> oom_size mem p \<and>
         (\<forall>q\<in>set ps. oom_eligible avail q \<longrightarrow> oom_size mem q \<le> oom_size mem p))"
proof (induction mem avail ps big bs rule: oom_scan.induct)
  case (1 mem avail big bs)
  then show ?case by (auto split: option.splits)
next
  case (2 mem avail p ps big bs)
  show ?case
  proof (cases "oom_eligible avail p \<and> oom_size mem p > bs")
    case True
    have nonneg: "0 \<le> bs" using "2.prems"(2) by (auto split: option.splits)
    have e: "oom_scan mem avail ps (Some p) (oom_size mem p) = r" using "2.prems"(1) True by simp
    have "case Some p of None \<Rightarrow> oom_size mem p = 0 | Some q \<Rightarrow> oom_size mem p = oom_size mem q \<and> oom_size mem p > 0"
      using True nonneg by simp
    from "2.IH"(1) [OF _ _ e this] show ?thesis using True by (cases r) auto
  next
    case False
    then have e: "oom_scan mem avail ps big bs = r" using "2.prems"(1) by auto
    have "case r of
       None \<Rightarrow> big = None \<and> (\<forall>q\<in>set ps. oom_eligible avail q \<longrightarrow> oom_size mem q \<le> 0)
     | Some p \<Rightarrow> oom_size mem p > 0 \<and> (big = Some p \<or> p \<in> set ps \<and> oom_eligible avail p) \<and> bs \<le> oom_size mem p \<and>
         (\<forall>q\<in>set ps. oom_eligible avail q \<longrightarrow> oom_size mem q \<le> oom_size mem p)"
      using "2.IH"(2) "2.IH"(3) e "2.prems"(2) False by blast
    then show ?thesis using False "2.prems"(2) by (cases r) auto
  qed
qed

text \<open>
  The process killed for lack of memory is an eligible one of the greatest size, and no process is
  killed only when no eligible one has any size; init, protected, killed and unschedulable processes
  are never chosen.
\<close>

theorem oom_victim_largest:
  "case vm_pageout_oom False mem avail procs of
     Inl e \<Rightarrow> False
   | Inr None \<Rightarrow> \<forall>q\<in>set procs. oom_eligible avail q \<longrightarrow> oom_size mem q \<le> 0
   | Inr (Some pid) \<Rightarrow> \<exists>p\<in>set procs. p_pid p = pid \<and> pid \<noteq> 1 \<and> \<not> p_excluded p \<and> \<not> p_killed p \<and> oom_size mem p > 0 \<and>
       (\<forall>q\<in>set procs. oom_eligible avail q \<longrightarrow> oom_size mem q \<le> oom_size mem p)"
proof (cases "oom_scan mem avail procs None 0")
  case None
  then show ?thesis using oom_scan_ok [OF None] by (simp add: vm_pageout_oom_def)
next
  case (Some p)
  have "oom_size mem p > 0 \<and> p \<in> set procs \<and> oom_eligible avail p \<and>
      (\<forall>q\<in>set procs. oom_eligible avail q \<longrightarrow> oom_size mem q \<le> oom_size mem p)"
    using oom_scan_ok [OF Some] by simp
  then show ?thesis using Some by (auto simp: vm_pageout_oom_def oom_eligible_def)
qed

definition oom_procs0 :: "oom_proc list" where
  "oom_procs0 =
    [\<lparr>p_pid = 1, p_normal = True, p_excluded = False, p_killed = False, p_threads = [TS_sleeping],
       vmspace = Some (90, []), map_locked = False\<rparr>,
     \<lparr>p_pid = 100, p_normal = True, p_excluded = False, p_killed = False, p_threads = [TS_running],
       vmspace = Some (3, [\<lparr>is_sub_map = False, needs_copy = False, entry_object = Some (Map_vnode, 1, 4)\<rparr>]),
       map_locked = False\<rparr>,
     \<lparr>p_pid = 101, p_normal = True, p_excluded = False, p_killed = False, p_threads = [TS_runq],
       vmspace = Some (6, []), map_locked = False\<rparr>]"

theorem oom_victim_largest_witness:
  "vm_pageout_oom False True 0 oom_procs0 = Inr (Some 100) \<and> (\<exists>p. p \<in> set oom_procs0 \<and> p_pid p = 100 \<and> oom_size True p > 0)"
proof -
  have e: "vm_pageout_oom False True 0 oom_procs0 = Inr (Some 100)" by code_simp
  then show ?thesis using oom_victim_largest [where mem = True and avail = 0 and procs = oom_procs0] by auto
qed

end
