(* ===== verification/Vm_Bits.thy ===== *)
theory Vm_Bits
  imports Vm_Types
begin

text \<open>
  The valid and dirty bits of a page (\<open>src/asgn3/vm/vm_page.c\<close>): one bit for each chunk of
  \<open>DEV_BSIZE\<close> bytes. Zeroing a part of a page is a call of the machine-dependent layer, recorded as
  the pair of its offset and size; what that layer answers (is the page mapped writable, was it
  modified) is an argument.
\<close>

section \<open>Operations\<close>

definition vm_page_bits :: "nat \<Rightarrow> nat \<Rightarrow> vm_page_bits_t" where
  "vm_page_bits base sz =
    (if sz = 0 then 0
     else let first_bit = drop_bit DEV_BSHIFT base;
              last_bit = drop_bit DEV_BSHIFT (base + sz - 1)
          in push_bit last_bit 2 - push_bit first_bit 1)"

definition rounddown2 :: "nat \<Rightarrow> nat \<Rightarrow> nat" where
  "rounddown2 x y = x - x mod y"

text \<open>The parts of the first and the last chunk that must be zeroed, shared by the two setters.\<close>

definition zero_ends :: "vm_page \<Rightarrow> nat \<Rightarrow> nat \<Rightarrow> (nat \<times> nat) list" where
  "zero_ends m base sz =
    (let frag = rounddown2 base DEV_BSIZE;
         endoff = base + sz;
         frag2 = rounddown2 endoff DEV_BSIZE
     in (if frag \<noteq> base \<and> \<not> bit (valid m) (drop_bit DEV_BSHIFT base) then [(frag, base - frag)] else []) @
        (if frag2 \<noteq> endoff \<and> \<not> bit (valid m) (drop_bit DEV_BSHIFT endoff)
         then [(endoff, DEV_BSIZE - endoff mod DEV_BSIZE)] else []))"

definition vm_page_set_valid_range :: "vm_page \<Rightarrow> nat \<Rightarrow> nat \<Rightarrow> vm_page \<times> (nat \<times> nat) list" where
  "vm_page_set_valid_range m base sz =
    (if sz = 0 then (m, [])
     else (m\<lparr>valid := valid m OR vm_page_bits base sz\<rparr>, zero_ends m base sz))"

text \<open>
  \<open>vm_page_clear_dirty_mask\<close>: when the page layer may race with the machine-dependent layer, the
  bits are cleared with an atomic operation on the aligned 32-bit word the field lies in. \<open>w\<close> is this
  word and \<open>off\<close> the offset of the field in it, on a little-endian machine.
\<close>

definition atomic_clear_32 :: "u32 \<Rightarrow> u32 \<Rightarrow> u32" where
  "atomic_clear_32 w v = w AND NOT v"

definition clear_in_word :: "nat \<Rightarrow> u32 \<Rightarrow> vm_page_bits_t \<Rightarrow> u32" where
  "clear_in_word off w pagebits = atomic_clear_32 w (push_bit (off * 8) (ucast pagebits))"

definition byte_of :: "nat \<Rightarrow> u32 \<Rightarrow> u8" where
  "byte_of off w = ucast (drop_bit (off * 8) w)"

definition vm_page_clear_dirty_mask :: "bool \<Rightarrow> nat \<Rightarrow> u32 \<Rightarrow> vm_page \<Rightarrow> vm_page_bits_t \<Rightarrow> vm_page" where
  "vm_page_clear_dirty_mask write_mapped off w m pagebits =
    (if \<not> vm_page_xbusied (busy_lock m) \<and> \<not> write_mapped
     then m\<lparr>dirty := dirty m AND NOT pagebits\<rparr>
     else m\<lparr>dirty := byte_of off (clear_in_word off w pagebits)\<rparr>)"

definition vm_page_set_validclean ::
    "bool \<Rightarrow> nat \<Rightarrow> u32 \<Rightarrow> vm_page \<Rightarrow> nat \<Rightarrow> nat \<Rightarrow> vm_page \<times> (nat \<times> nat) list" where
  "vm_page_set_validclean write_mapped off w m base sz =
    (if sz = 0 then (m, [])
     else let oldvalid = valid m;
              pagebits = vm_page_bits base sz;
              m1 = m\<lparr>valid := valid m OR pagebits\<rparr>
          in (if base = 0 \<and> sz = PAGE_SIZE
              then m1\<lparr>dirty := 0, oflags := oflags m1 - {VPO_NOSYNC}\<rparr>
              else if oldvalid \<noteq> VM_PAGE_BITS_ALL then m1\<lparr>dirty := dirty m1 AND NOT pagebits\<rparr>
              else vm_page_clear_dirty_mask write_mapped off w m1 pagebits, zero_ends m base sz))"

definition vm_page_clear_dirty :: "bool \<Rightarrow> nat \<Rightarrow> u32 \<Rightarrow> vm_page \<Rightarrow> nat \<Rightarrow> nat \<Rightarrow> vm_page" where
  "vm_page_clear_dirty write_mapped off w m base sz =
    vm_page_clear_dirty_mask write_mapped off w m (vm_page_bits base sz)"

text \<open>
  \<open>vnp_size\<close> is the size of the file when the page's object is a file. Unmapping the page
  (\<open>pmap_remove_all\<close>) may find it modified and dirty it first; \<open>unmap\<close> is that effect.
\<close>

definition vm_page_set_invalid ::
    "nat option \<Rightarrow> bool \<Rightarrow> (vm_page \<Rightarrow> vm_page) \<Rightarrow> vm_page \<Rightarrow> nat \<Rightarrow> nat \<Rightarrow> vm_page" where
  "vm_page_set_invalid vnp_size referenced unmap m base sz =
    (let bits = (case vnp_size of
           Some n \<Rightarrow> if base = 0 \<and> pindex m * PAGE_SIZE + sz \<ge> n then VM_PAGE_BITS_ALL else vm_page_bits base sz
         | None \<Rightarrow> vm_page_bits base sz);
         m1 = (if referenced \<and> valid m = VM_PAGE_BITS_ALL \<and> bits \<noteq> 0 then unmap m else m)
     in m1\<lparr>valid := valid m1 AND NOT bits, dirty := dirty m1 AND NOT bits\<rparr>)"

text \<open>The loop of \<open>vm_page_zero_invalid\<close>; \<open>b\<close> is the start of the invalid section before \<open>i\<close>.\<close>

function zero_sections :: "vm_page_bits_t \<Rightarrow> nat \<Rightarrow> nat \<Rightarrow> (nat \<times> nat) list" where
  "zero_sections v b i =
    (if i \<le> PAGE_SIZE div DEV_BSIZE
     then if i = PAGE_SIZE div DEV_BSIZE \<or> bit v i
          then (if i > b then [(push_bit DEV_BSHIFT b, push_bit DEV_BSHIFT (i - b))] else []) @
            zero_sections v (i + 1) (i + 1)
          else zero_sections v b (i + 1)
     else [])"
  by pat_completeness auto

termination
  by (relation "measure (\<lambda>(v, b, i). PAGE_SIZE div DEV_BSIZE + 1 - i)") auto

declare zero_sections.simps [simp del]

definition vm_page_zero_invalid :: "vm_page \<Rightarrow> bool \<Rightarrow> vm_page \<times> (nat \<times> nat) list" where
  "vm_page_zero_invalid m setvalid =
    (if setvalid then m\<lparr>valid := VM_PAGE_BITS_ALL\<rparr> else m, zero_sections (valid m) 0 0)"

definition vm_page_is_valid :: "vm_page \<Rightarrow> nat \<Rightarrow> nat \<Rightarrow> bool" where
  "vm_page_is_valid m base sz =
    (let bits = vm_page_bits base sz in valid m \<noteq> 0 \<and> valid m AND bits = bits)"

definition vm_page_test_dirty :: "bool \<Rightarrow> vm_page \<Rightarrow> vm_page" where
  "vm_page_test_dirty modified m =
    (if dirty m \<noteq> VM_PAGE_BITS_ALL \<and> modified then vm_page_dirty m else m)"

text \<open>\<open>vm_page_ps_test\<close> on the pages of a superpage, from page \<open>m\<close> on; \<open>npages\<close> of them.\<close>

datatype ps_flag = PS_ALL_DIRTY | PS_ALL_VALID | PS_NONE_BUSY

fun ps_test_from :: "pages \<Rightarrow> oid option \<Rightarrow> ps_flag set \<Rightarrow> pid option \<Rightarrow> pid list \<Rightarrow> bool" where
  "ps_test_from P obj fl skip_m [] = True"
| "ps_test_from P obj fl skip_m (p # ps) =
    (if object (P p) \<noteq> obj then False
     else if Some p = skip_m then ps_test_from P obj fl skip_m ps
     else if PS_NONE_BUSY \<in> fl \<and> vm_page_busied (busy_lock (P p)) then False
     else if PS_ALL_DIRTY \<in> fl \<and> dirty (P p) \<noteq> VM_PAGE_BITS_ALL then False
     else if PS_ALL_VALID \<in> fl \<and> valid (P p) \<noteq> VM_PAGE_BITS_ALL then False
     else ps_test_from P obj fl skip_m ps)"

definition vm_page_ps_test :: "nat list \<Rightarrow> pages \<Rightarrow> pid \<Rightarrow> ps_flag set \<Rightarrow> pid option \<Rightarrow> bool" where
  "vm_page_ps_test pagesizes P m fl skip_m =
    (let obj = object (P m)
     in if (case skip_m of Some s \<Rightarrow> object (P s) \<noteq> obj | None \<Rightarrow> False) then False
        else ps_test_from P obj fl skip_m [m..<m + pagesizes ! psind (P m) div PAGE_SIZE])"

text \<open>The end of a read: a page that was read in is activated unless it is invalid.\<close>

section \<open>The bits of a range\<close>

text \<open>Chunk \<open>i\<close> of a page, and the bytes that a list of zeroed parts covers.\<close>

definition chunk :: "nat \<Rightarrow> nat set" where
  "chunk i = {DEV_BSIZE * i..<DEV_BSIZE * (i + 1)}"

definition zeroed :: "(nat \<times> nat) list \<Rightarrow> nat set" where
  "zeroed zs = (\<Union>(off, len)\<in>set zs. {off..<off + len})"

lemma zeroed_simps [simp]:
  "zeroed [] = {}" "zeroed ((off, len) # zs) = {off..<off + len} \<union> zeroed zs" "zeroed (zs @ zs') = zeroed zs \<union> zeroed zs'"
  by (auto simp: zeroed_def)

lemma sizes: "DEV_BSIZE = 512" "PAGE_SIZE = 4096" "PAGE_SIZE div DEV_BSIZE = 8" "drop_bit DEV_BSHIFT x = x div 512"
  "push_bit DEV_BSHIFT x = 512 * x" for x :: nat
  by (simp_all add: DEV_BSIZE_def PAGE_SIZE_def DEV_BSHIFT_def drop_bit_eq_div push_bit_eq_mult)

lemma in_chunk: "b \<in> chunk i \<longleftrightarrow> b div DEV_BSIZE = i"
proof -
  have "b div 512 = i \<longleftrightarrow> 512 * i \<le> b \<and> b < 512 * (i + 1)" by auto
  then show ?thesis by (simp add: chunk_def sizes)
qed

lemma page_bits_bit:
  assumes "0 < sz" and "base + sz \<le> PAGE_SIZE" and "i < 8"
  shows "bit (vm_page_bits base sz) i \<longleftrightarrow> base div 512 \<le> i \<and> i \<le> (base + sz - 1) div 512"
proof -
  define f where "f = base div 512"
  define l where "l = (base + sz - 1) div 512"
  have fl: "f \<le> l" "l < 8" using assms by (auto simp: f_def l_def sizes div_le_mono)
  have "vm_page_bits base sz = (2 ^ (l + 1) - 2 ^ f :: u8)"
    using assms(1) by (simp add: vm_page_bits_def Let_def sizes f_def l_def push_bit_eq_mult)
  also have "\<dots> = push_bit f (2 ^ (l + 1 - f) - 1)"
    using fl(1) by (simp add: push_bit_eq_mult left_diff_distrib flip: power_add)
  also have "\<dots> = push_bit f (mask (l + 1 - f))" by (simp add: mask_eq_exp_minus_1)
  finally show ?thesis unfolding f_def [symmetric] l_def [symmetric]
    using fl assms(3) by (auto simp: bit_simps)
qed

lemma page_bits_chunk:
  assumes "base + sz \<le> PAGE_SIZE" and "i < 8"
  shows "bit (vm_page_bits base sz) i \<longleftrightarrow> chunk i \<inter> {base..<base + sz} \<noteq> {}"
proof (cases "sz = 0")
  case True
  then show ?thesis by (simp add: vm_page_bits_def)
next
  case False
  then have *: "bit (vm_page_bits base sz) i \<longleftrightarrow> base div 512 \<le> i \<and> i \<le> (base + sz - 1) div 512"
    using page_bits_bit assms by simp
  show ?thesis
  proof
    assume "bit (vm_page_bits base sz) i"
    then have i: "base div 512 \<le> i" "i \<le> (base + sz - 1) div 512" using * by simp_all
    have "max base (512 * i) \<in> chunk i \<inter> {base..<base + sz}"
      using i False by (auto simp: chunk_def sizes max_def)
    then show "chunk i \<inter> {base..<base + sz} \<noteq> {}" by blast
  next
    assume "chunk i \<inter> {base..<base + sz} \<noteq> {}"
    then obtain b where "b \<in> chunk i" "base \<le> b" "b < base + sz" by auto
    then have "b div 512 = i" "base \<le> b" "b \<le> base + sz - 1" by (auto simp: in_chunk sizes)
    then have "base div 512 \<le> i" "i \<le> (base + sz - 1) div 512" by (auto simp: div_le_mono)
    then show "bit (vm_page_bits base sz) i" using * by simp
  qed
qed

section \<open>Zeroing\<close>

lemma div_512: "512 * q \<le> b \<Longrightarrow> b < 512 * (q + 1) \<Longrightarrow> b div 512 = q" for b q :: nat
  by auto

lemma div_512_bounds: "512 * (x div 512) \<le> x" "x < 512 * (x div 512 + 1)" "x mod 512 < 512" for x :: nat
  by auto

lemma zero_ends_zeroed:
  "zeroed (zero_ends m base sz) =
    (if bit (valid m) (base div 512) then {} else {512 * (base div 512)..<base}) \<union>
    (if bit (valid m) ((base + sz) div 512) \<or> (base + sz) mod 512 = 0 then {}
     else {base + sz..<512 * ((base + sz) div 512 + 1)})"
proof -
  have rd: "rounddown2 x 512 = 512 * (x div 512)" for x
    by (simp add: rounddown2_def minus_mod_eq_mult_div)
  have up: "x + (512 - x mod 512) = 512 * (x div 512 + 1)" for x :: nat
  proof -
    have "x + (512 - r) = 512 * (q + 1)" if "512 * q + r = x" "r < 512" for q r
      using that by simp
    from this [OF mult_div_mod_eq div_512_bounds(3)] show ?thesis .
  qed
  have eq: "512 * (x div 512) = x \<longleftrightarrow> x mod 512 = 0" for x :: nat
    using mult_div_mod_eq [of 512 x] by linarith
  have le: "512 * (x div 512) + (x - 512 * (x div 512)) = x" for x :: nat
    by simp
  show ?thesis
    unfolding zero_ends_def Let_def sizes rd by (auto simp: eq up le)
qed

lemma chunk_mono:
  assumes "b \<in> chunk i" and "c \<in> chunk i" and "b \<le> x" and "x \<le> c"
  shows "x div 512 = i"
  using assms by (auto simp: in_chunk sizes dest!: div_le_mono [where k = 512])

text \<open>
  \<open>vm_page_set_valid_range\<close> makes valid exactly the chunks that the range touches, besides
  those that were, and zeroes exactly what the caller did not provide: every byte of a newly valid
  chunk is in the range or was zeroed, and no byte of the range or of a chunk valid before was.
\<close>

theorem set_valid_range_zeroes:
  assumes le: "base + sz \<le> PAGE_SIZE" and r: "vm_page_set_valid_range m base sz = (m', zs)"
  shows "(\<forall>i<8. bit (valid m') i \<longleftrightarrow> bit (valid m) i \<or> chunk i \<inter> {base..<base + sz} \<noteq> {}) \<and>
    (\<forall>i<8. bit (valid m') i \<and> \<not> bit (valid m) i \<longrightarrow> chunk i \<subseteq> {base..<base + sz} \<union> zeroed zs) \<and>
    zeroed zs \<inter> {base..<base + sz} = {} \<and> (\<forall>i<8. bit (valid m) i \<longrightarrow> chunk i \<inter> zeroed zs = {})"
proof (cases "sz = 0")
  case True
  then show ?thesis using r by (auto simp: vm_page_set_valid_range_def)
next
  case False
  then have m': "valid m' = valid m OR vm_page_bits base sz" and zs: "zs = zero_ends m base sz"
    using r by (auto simp: vm_page_set_valid_range_def)
  have bits: "bit (valid m') i \<longleftrightarrow> bit (valid m) i \<or> chunk i \<inter> {base..<base + sz} \<noteq> {}" if "i < 8" for i
    using page_bits_chunk [OF le that] by (simp add: m' bit_or_iff)
  have cover: "b \<in> {base..<base + sz} \<union> zeroed zs"
    if i: "i < 8" "bit (valid m') i" "\<not> bit (valid m) i" and b: "b \<in> chunk i" for i b
  proof -
    obtain c where c: "c \<in> chunk i" "base \<le> c" "c < base + sz" using bits [OF i(1)] i(2,3) by auto
    show ?thesis
    proof (cases "base \<le> b")
      case ge: True
      show ?thesis
      proof (cases "b < base + sz")
        case False
        then have e: "(base + sz) div 512 = i" using chunk_mono [OF c(1) b, of "base + sz"] c(3) by simp
        have "(base + sz) mod 512 \<noteq> 0"
        proof
          assume "(base + sz) mod 512 = 0"
          then have "base + sz = 512 * i" using e mult_div_mod_eq [of 512 "base + sz"] by linarith
          then show False using c by (simp add: chunk_def sizes)
        qed
        then show ?thesis using e i(3) b False by (auto simp: zs zero_ends_zeroed chunk_def sizes)
      qed (use ge in auto)
    next
      case False
      then have "base div 512 = i" using chunk_mono [OF b c(1), of base] c(2) by simp
      then show ?thesis using i(3) b False by (auto simp: zs zero_ends_zeroed chunk_def sizes)
    qed
  qed
  have "zeroed zs \<inter> {base..<base + sz} = {}" by (auto simp: zs zero_ends_zeroed)
  moreover have "chunk i \<inter> zeroed zs = {}" if "bit (valid m) i" for i
  proof -
    have lo: "b div 512 = base div 512" if "512 * (base div 512) \<le> b" "b < base" for b
      by (rule div_512) (use that div_512_bounds [of base] in linarith)+
    have hi: "b div 512 = (base + sz) div 512" if "base + sz \<le> b" "b < 512 * ((base + sz) div 512 + 1)" for b
      by (rule div_512) (use that div_512_bounds [of "base + sz"] in linarith)+
    have "b \<notin> zeroed zs" if "b \<in> chunk i" for b
    proof
      assume "b \<in> zeroed zs"
      then have "512 * (base div 512) \<le> b \<and> b < base \<and> \<not> bit (valid m) (base div 512) \<or>
          base + sz \<le> b \<and> b < 512 * ((base + sz) div 512 + 1) \<and> \<not> bit (valid m) ((base + sz) div 512)"
        unfolding zs zero_ends_zeroed by (auto split: if_splits)
      then have "\<not> bit (valid m) (b div 512)" using lo [of b] hi [of b] by metis
      then show False using \<open>bit (valid m) i\<close> that by (simp add: in_chunk sizes)
    qed
    then show ?thesis by blast
  qed
  ultimately show ?thesis using bits cover by blast
qed

definition page0 :: vm_page where
  "page0 = \<lparr>object = None, pindex = 0, phys_addr = 0, wire_count = 0, busy_lock = VPB_UNBUSIED, hold_count = 0,
    flags = {}, aflags = {}, oflags = {}, queue = PQ_NONE, psind = 0, segind = 0, order = 0, pg_id = 0,
    pool = 0, act_count = 0, valid = 0, dirty = 0, memattr = VM_MEMATTR_DEFAULT\<rparr>"

theorem set_valid_range_zeroes_witness:
  "bit (valid (fst (vm_page_set_valid_range page0 100 1000))) 2 \<and>
    chunk 2 \<subseteq> {100..<1100} \<union> zeroed (snd (vm_page_set_valid_range page0 100 1000))"
proof -
  have c: "1030 \<in> chunk 2 \<inter> {100..<1100}" by (simp add: in_chunk sizes)
  have le: "(100::nat) + 1000 \<le> PAGE_SIZE" by (simp add: sizes)
  have n: "\<not> bit (valid page0) 2" by (simp add: page0_def)
  note A = set_valid_range_zeroes [OF le surjective_pairing, of page0, simplified Let_def]
  have "bit (valid (fst (vm_page_set_valid_range page0 100 1000))) 2" using A c by auto
  then show ?thesis using A n by auto
qed

lemma chunks_interval: "{512 * b..<512 * i} = (\<Union>j\<in>{b..<i}. chunk j)"
proof -
  have "x \<in> {512 * b..<512 * i} \<longleftrightarrow> x div 512 \<in> {b..<i}" for x
    by (simp add: less_eq_div_iff_mult_less_eq div_less_iff_less_mult mult.commute)
  moreover have "x \<in> (\<Union>j\<in>{b..<i}. chunk j) \<longleftrightarrow> x div 512 \<in> {b..<i}" for x
    by (simp add: in_chunk sizes)
  ultimately show ?thesis by blast
qed

lemma zero_sections_zeroed:
  "b \<le> i \<Longrightarrow> i \<le> 8 \<or> b = 9 \<and> i = 9 \<Longrightarrow> (\<forall>j. b \<le> j \<and> j < i \<longrightarrow> \<not> bit v j) \<Longrightarrow>
    zeroed (zero_sections v b i) = (\<Union>j\<in>{j. b \<le> j \<and> j < 8 \<and> \<not> bit v j}. chunk j)"
proof (induction v b i rule: zero_sections.induct)
  case (1 v b i)
  show ?case
  proof (cases "i \<le> 8")
    case False
    moreover have "zero_sections v 9 9 = []" by (simp add: zero_sections.simps [of v 9 9] sizes)
    ultimately show ?thesis using "1.prems" by auto
  next
    case True
    show ?thesis
    proof (cases "i = 8 \<or> bit v i")
      case emit: True
      have IH: "zeroed (zero_sections v (i + 1) (i + 1)) = (\<Union>j\<in>{j. i + 1 \<le> j \<and> j < 8 \<and> \<not> bit v j}. chunk j)"
        by (rule "1.IH"(1)) (use True emit in \<open>auto simp: sizes\<close>)
      have "{j. b \<le> j \<and> j < 8 \<and> \<not> bit v j} = {b..<i} \<union> {j. i + 1 \<le> j \<and> j < 8 \<and> \<not> bit v j}"
      proof (intro set_eqI)
        fix j
        have "j = i \<longrightarrow> 8 \<le> j \<or> bit v j" using emit by auto
        then show "j \<in> {j. b \<le> j \<and> j < 8 \<and> \<not> bit v j} \<longleftrightarrow>
            j \<in> {b..<i} \<union> {j. i + 1 \<le> j \<and> j < 8 \<and> \<not> bit v j}"
          using True "1.prems"(1,3) by (cases j i rule: linorder_cases) auto
      qed
      moreover have "zeroed (zero_sections v b i) =
          {512 * b..<512 * i} \<union> zeroed (zero_sections v (i + 1) (i + 1))"
      proof -
        have "512 * b + 512 * (i - b) = 512 * i" using "1.prems"(1) by simp
        then show ?thesis
          using True emit "1.prems"(1) by (subst zero_sections.simps) (auto simp: sizes)
      qed
      ultimately show ?thesis using IH chunks_interval [of b i] by simp
    next
      case False
      then have "\<forall>j. b \<le> j \<and> j < i + 1 \<longrightarrow> \<not> bit v j"
        using "1.prems"(3) by (auto simp: less_Suc_eq)
      then have "zeroed (zero_sections v b (i + 1)) = (\<Union>j\<in>{j. b \<le> j \<and> j < 8 \<and> \<not> bit v j}. chunk j)"
        by (intro "1.IH"(2)) (use True False "1.prems"(1) in \<open>auto simp: sizes\<close>)
      then show ?thesis using True False by (simp add: zero_sections.simps [of v b i] sizes)
    qed
  qed
qed

text \<open>
  \<open>vm_page_zero_invalid\<close> zeroes exactly the bytes of the invalid chunks, each section of
  them in one call, and with \<open>setvalid\<close> leaves the page wholly valid.
\<close>

theorem zero_invalid_exact:
  shows "zeroed (snd (vm_page_zero_invalid m setvalid)) = (\<Union>i\<in>{i. i < 8 \<and> \<not> bit (valid m) i}. chunk i) \<and>
    valid (fst (vm_page_zero_invalid m setvalid)) = (if setvalid then VM_PAGE_BITS_ALL else valid m)"
  using zero_sections_zeroed [of 0 0 "valid m"] by (auto simp: vm_page_zero_invalid_def)

section \<open>Valid, clean and invalid ranges\<close>

lemma bits_all: "i < 8 \<Longrightarrow> bit VM_PAGE_BITS_ALL i"
proof -
  assume "i < 8"
  moreover have "VM_PAGE_BITS_ALL = mask 8" by (simp add: VM_PAGE_BITS_ALL_def mask_eq_exp_minus_1)
  ultimately show ?thesis unfolding \<open>VM_PAGE_BITS_ALL = mask 8\<close> bit_mask_iff by simp
qed

lemma byte_of_clear:
  assumes "off < 4" and "j < 4"
  shows "byte_of j (clear_in_word off w b) = (if j = off then byte_of j w AND NOT b else byte_of j w)"
proof (rule bit_word_eqI)
  fix n assume n: "n < LENGTH(8)"
  have "bit (byte_of j (clear_in_word off w b)) n \<longleftrightarrow>
      bit w (j * 8 + n) \<and> \<not> (off * 8 \<le> j * 8 + n \<and> bit (ucast b :: u32) (j * 8 + n - off * 8))"
    using n assms by (auto simp: byte_of_def clear_in_word_def atomic_clear_32_def bit_simps)
  moreover have "j < off \<Longrightarrow> \<not> off * 8 \<le> j * 8 + n" using n by simp
  moreover have "off < j \<Longrightarrow> \<not> bit (ucast b :: u32) (j * 8 + n - off * 8)"
    by (simp add: bit_ucast_iff) (auto dest: bit_imp_le_length)
  ultimately show "bit (byte_of j (clear_in_word off w b)) n =
      bit (if j = off then byte_of j w AND NOT b else byte_of j w) n"
    using n assms by (cases j off rule: linorder_cases) (auto simp: byte_of_def bit_simps)
qed

text \<open>
  Clearing dirty bits through the aligned 32-bit word around the field, as the code does when
  the machine-dependent layer may set bits at the same time, clears the same bits as the plain
  assignment and leaves the other three bytes of the word alone.
\<close>

theorem clear_dirty_word_equiv:
  assumes off: "off < 4" and w: "byte_of off w = dirty m"
  shows "vm_page_clear_dirty_mask write_mapped off w m bits = m\<lparr>dirty := dirty m AND NOT bits\<rparr> \<and>
    (\<forall>j<4. j \<noteq> off \<longrightarrow> byte_of j (clear_in_word off w bits) = byte_of j w)"
  using byte_of_clear [OF off] off w by (auto simp: vm_page_clear_dirty_mask_def)

theorem clear_dirty_word_equiv_witness:
  "vm_page_clear_dirty_mask True 1 0xAAFF12 (page0\<lparr>dirty := 0xFF\<rparr>) 0x0F = page0\<lparr>dirty := 0xF0\<rparr>"
proof -
  have "byte_of 1 0xAAFF12 = dirty (page0\<lparr>dirty := 0xFF\<rparr>)"
    by (simp add: byte_of_def drop_bit_eq_div page0_def)
  then show ?thesis
    using clear_dirty_word_equiv [of 1 "0xAAFF12" "page0\<lparr>dirty := 0xFF\<rparr>" True "0x0F"] by simp
qed

text \<open>The bits a range leaves in a mask.\<close>

lemma bit_and_not_page:
  assumes "base + sz \<le> PAGE_SIZE" and "i < 8"
  shows "bit (d AND NOT (vm_page_bits base sz)) i \<longleftrightarrow> bit d i \<and> chunk i \<inter> {base..<base + sz} = {}"
  using page_bits_chunk [OF assms] assms(2) by (simp add: bit_and_iff bit_not_iff)

lemma u8_eqI: "(\<And>i. i < 8 \<Longrightarrow> bit a i = bit b i) \<Longrightarrow> a = b" for a b :: u8
  by (rule bit_word_eqI) simp

text \<open>
  \<open>vm_page_set_validclean\<close> makes the chunks the range touches valid and clean and leaves the
  other chunks' bits, whichever way the dirty bits are cleared; the whole page also loses
  \<open>VPO_NOSYNC\<close>. \<open>vm_page_set_invalid\<close> of a page not part of a file takes both bits away again.
\<close>

theorem validclean_invalid:
  assumes le: "base + sz \<le> PAGE_SIZE" and w: "off < 4" "byte_of off w = dirty m"
    and m': "m' = fst (vm_page_set_validclean write_mapped off w m base sz)"
    and m'': "m'' = vm_page_set_invalid None False unmap m' base sz"
  shows "\<forall>i<8. (bit (valid m') i \<longleftrightarrow> bit (valid m) i \<or> chunk i \<inter> {base..<base + sz} \<noteq> {}) \<and>
    (bit (dirty m') i \<longleftrightarrow> bit (dirty m) i \<and> chunk i \<inter> {base..<base + sz} = {}) \<and>
    (bit (valid m'') i \<longleftrightarrow> bit (valid m) i \<and> chunk i \<inter> {base..<base + sz} = {}) \<and>
    (bit (dirty m'') i \<longleftrightarrow> bit (dirty m) i \<and> chunk i \<inter> {base..<base + sz} = {}) \<and>
    (VPO_NOSYNC \<in> oflags m' \<longleftrightarrow> VPO_NOSYNC \<in> oflags m \<and> \<not> (base = 0 \<and> sz = PAGE_SIZE))"
proof -
  let ?b = "vm_page_bits base sz"
  have whole: "d AND NOT ?b = 0" if "base = 0 \<and> sz = PAGE_SIZE" for d
  proof (rule u8_eqI)
    fix i :: nat assume i: "i < 8"
    have "512 * i \<in> chunk i \<inter> {base..<base + sz}" using i that by (auto simp: chunk_def sizes)
    then show "bit (d AND NOT ?b) i = bit 0 i" using bit_and_not_page [OF le i, of d] by auto
  qed
  have w': "byte_of off (clear_in_word off w ?b) = dirty m AND NOT ?b"
    using byte_of_clear [OF w(1) w(1), of w ?b] w(2) by simp
  have m'_eq: "valid m' = valid m OR ?b" "dirty m' = dirty m AND NOT ?b"
    "VPO_NOSYNC \<in> oflags m' \<longleftrightarrow> VPO_NOSYNC \<in> oflags m \<and> \<not> (base = 0 \<and> sz = PAGE_SIZE)"
    using w' whole by (auto simp: m' vm_page_set_validclean_def vm_page_clear_dirty_mask_def Let_def
        vm_page_bits_def [of _ 0] sizes)
  have m''_eq: "valid m'' = valid m' AND NOT ?b" "dirty m'' = dirty m' AND NOT ?b"
    by (simp_all add: m'' vm_page_set_invalid_def Let_def)
  show ?thesis
    using bit_and_not_page [OF le] page_bits_chunk [OF le] m'_eq(3)
    unfolding m''_eq m'_eq(1,2) by (auto simp: bit_or_iff)
qed

theorem validclean_invalid_witness:
  "bit (valid (fst (vm_page_set_validclean False 0 0xFF (page0\<lparr>dirty := 0xFF\<rparr>) 512 1024))) 2 \<and>
   \<not> bit (dirty (fst (vm_page_set_validclean False 0 0xFF (page0\<lparr>dirty := 0xFF\<rparr>) 512 1024))) 2"
proof -
  have "(1024::nat) \<in> chunk 2 \<inter> {512..<512 + 1024}" by (simp add: chunk_def sizes)
  then show ?thesis
    using validclean_invalid [of 512 1024 0 "0xFF" "page0\<lparr>dirty := 0xFF\<rparr>", OF _ _ _ refl refl, of False id]
    by (auto simp: sizes byte_of_def page0_def)
qed

text \<open>
  \<open>vm_page_is_valid\<close> tells whether every chunk the range touches is valid, on a page with some
  valid chunk; so it holds of the range right after \<open>vm_page_set_valid_range\<close>, and never after
  \<open>vm_page_set_invalid\<close> of an overlapping, nonempty range.
\<close>

theorem is_valid_after_set:
  assumes le: "base + sz \<le> PAGE_SIZE"
  shows "(vm_page_is_valid m base sz \<longleftrightarrow>
      valid m \<noteq> 0 \<and> (\<forall>i<8. chunk i \<inter> {base..<base + sz} \<noteq> {} \<longrightarrow> bit (valid m) i)) \<and>
    (0 < sz \<longrightarrow> vm_page_is_valid (fst (vm_page_set_valid_range m base sz)) base sz) \<and>
    (0 < sz \<longrightarrow> \<not> vm_page_is_valid (vm_page_set_invalid None referenced unmap m base sz) base sz)"
proof -
  let ?b = "vm_page_bits base sz"
  have all: "v AND ?b = ?b \<longleftrightarrow> (\<forall>i<8. chunk i \<inter> {base..<base + sz} \<noteq> {} \<longrightarrow> bit v i)" for v
  proof -
    have "v AND ?b = ?b \<longleftrightarrow> (\<forall>i<8. bit ?b i \<longrightarrow> bit v i)"
    proof
      assume "v AND ?b = ?b"
      then show "\<forall>i<8. bit ?b i \<longrightarrow> bit v i" by (metis bit_and_iff)
    next
      assume "\<forall>i<8. bit ?b i \<longrightarrow> bit v i"
      then show "v AND ?b = ?b" by (intro u8_eqI) (auto simp: bit_and_iff)
    qed
    then show ?thesis using page_bits_chunk [OF le] by simp
  qed
  have hit: "\<exists>i<8. chunk i \<inter> {base..<base + sz} \<noteq> {}" if "0 < sz"
  proof (intro exI conjI)
    show "base div 512 < 8" using le that by (simp add: sizes div_less_iff_less_mult)
    show "chunk (base div 512) \<inter> {base..<base + sz} \<noteq> {}" using that by (auto simp: in_chunk sizes)
  qed
  have nonzero: "?b \<noteq> 0" if "0 < sz" using hit [OF that] page_bits_chunk [OF le] by fastforce
  have "(valid m OR ?b) AND ?b = ?b" by (intro u8_eqI) (auto simp: bit_and_iff bit_or_iff)
  then have set: "vm_page_is_valid (fst (vm_page_set_valid_range m base sz)) base sz" if "0 < sz"
    using that nonzero by (simp add: vm_page_is_valid_def vm_page_set_valid_range_def Let_def or_eq_0_iff)
  have inval: "\<not> vm_page_is_valid (vm_page_set_invalid None referenced unmap m base sz) base sz" if sz: "0 < sz"
  proof -
    obtain v where "valid (vm_page_set_invalid None referenced unmap m base sz) = v AND NOT ?b"
      by (simp add: vm_page_set_invalid_def Let_def)
    moreover have "(v AND NOT ?b) AND ?b = 0" by (simp add: and.assoc)
    ultimately show ?thesis using nonzero sz by (simp add: vm_page_is_valid_def Let_def)
  qed
  show ?thesis using all set inval by (simp add: vm_page_is_valid_def Let_def)
qed

theorem is_valid_after_set_witness:
  "vm_page_is_valid (fst (vm_page_set_valid_range page0 100 1000)) 100 1000"
  using is_valid_after_set [of 100 1000 page0] by (simp add: sizes)

end
