(* ===== verification/Vm_Queue.thy ===== *)
theory Vm_Queue
  imports Vm_Bits
begin

text \<open>
  The page queues of \<open>src/asgn3/vm/vm_page.c\<close>: the state of the page layer, its queues per memory
  domain, and the operations that move a page between them. The modified kernel funnels every page
  that would be activated into the inactive queue and stamps it with a running number.

  Locks and assertions are left out; an explicit \<open>panic\<close> is a fault. What the layer calls outside
  the repository (physical allocator, radix trie of an object, machine-dependent maps) is the record
  \<open>vm_env\<close> of functions over states of types \<open>'p\<close> and \<open>'r\<close>.
\<close>

section \<open>State\<close>

datatype vm_counter = v_inactive_count | v_active_count | v_laundry_count | v_wire_count | v_tfree

record vm_pagequeue =
  pq_pl :: "pid list"
  pq_cnt :: int

datatype obj_type = OBJT_VNODE | OBJT_SWAP | OBJT_DEFAULT | OBJT_PHYS

text \<open>
  \<open>obj_dead\<close> is the flag \<open>OBJ_DEAD\<close>, \<open>obj_size\<close> the field \<open>size\<close>; \<open>vnode_holds\<close> counts the calls \<open>vhold\<close> minus \<open>vdrop\<close> on the object's vnode, \<open>writeable_dirty\<close> is
  set by \<open>vm_object_set_writeable_dirty\<close>.
\<close>

record 'r vm_object =
  rtree :: 'r
  memq :: "pid list"
  resident_page_count :: int
  otype :: obj_type
  ref_count :: int
  obj_dead :: bool
  obj_size :: nat
  vnode_holds :: int
  writeable_dirty :: bool

record ('r, 'p) vm_sys =
  pg :: pages
  objs :: "oid \<Rightarrow> 'r vm_object"
  vmd :: "nat \<Rightarrow> pq \<Rightarrow> vm_pagequeue"
  vm_cnt :: "vm_counter \<Rightarrow> u32"
  pg_cnt :: u64
  phys :: 'p
  vm_pageout_pages_needed :: bool
  vm_pages_needed :: bool
  vm_page_zero_count :: int

record ('r, 'p) vm_env =
  vm_ndomains :: nat
  vm_phys_domain :: "pid \<Rightarrow> nat"
  vm_radix_lookup :: "'r \<Rightarrow> nat \<Rightarrow> pid option"
  vm_radix_lookup_le :: "'r \<Rightarrow> nat \<Rightarrow> pid option"
  vm_radix_lookup_ge :: "'r \<Rightarrow> nat \<Rightarrow> pid option"
  vm_radix_insert :: "'r \<Rightarrow> nat \<Rightarrow> pid \<Rightarrow> 'r option"
  vm_radix_remove :: "'r \<Rightarrow> nat \<Rightarrow> 'r"
  vm_radix_replace :: "'r \<Rightarrow> nat \<Rightarrow> pid \<Rightarrow> 'r \<times> pid option"
  pmap_page_is_write_mapped :: "pid \<Rightarrow> bool"
  pmap_is_modified :: "pid \<Rightarrow> bool"
  pmap_remove_all :: "pid \<Rightarrow> vm_page \<Rightarrow> vm_page"
  vm_phys_freecnt_adj :: "pid \<Rightarrow> int \<Rightarrow> 'p \<Rightarrow> 'p"
  vm_reserv_free_page :: "pid \<Rightarrow> 'p \<Rightarrow> 'p \<times> bool"
  vm_phys_free_pages :: "pid \<Rightarrow> 'p \<Rightarrow> 'p"
  v_free_count :: "'p \<Rightarrow> nat"
  v_pageout_free_min :: nat
  vm_page_count_min :: "'p \<Rightarrow> bool"

definition upd_page :: "pid \<Rightarrow> (vm_page \<Rightarrow> vm_page) \<Rightarrow> ('r, 'p) vm_sys \<Rightarrow> ('r, 'p) vm_sys" where
  "upd_page m f s = s\<lparr>pg := upd_pg (pg s) m f\<rparr>"

definition upd_queue :: "nat \<Rightarrow> pq \<Rightarrow> (vm_pagequeue \<Rightarrow> vm_pagequeue) \<Rightarrow> ('r, 'p) vm_sys \<Rightarrow> ('r, 'p) vm_sys" where
  "upd_queue d q f s = s\<lparr>vmd := (vmd s)(d := (vmd s d)(q := f (vmd s d q)))\<rparr>"

definition cnt_add :: "vm_counter \<Rightarrow> int \<Rightarrow> ('r, 'p) vm_sys \<Rightarrow> ('r, 'p) vm_sys" where
  "cnt_add c n s = s\<lparr>vm_cnt := (vm_cnt s)(c := vm_cnt s c + word_of_int n)\<rparr>"

section \<open>Initial pages and queues\<close>

text \<open>The global counter of a queue, as \<open>vm_page_domain_init\<close> sets it; the FIFO queue shares that of the active one.
  No queue has the index \<open>PQ_NONE\<close>, its equation is never used.\<close>

fun pq_vcnt :: "pq \<Rightarrow> vm_counter" where
  "pq_vcnt PQ_INACTIVE = v_inactive_count"
| "pq_vcnt PQ_ACTIVE = v_active_count"
| "pq_vcnt PQ_FIFO = v_active_count"
| "pq_vcnt PQ_LAUNDRY = v_laundry_count"
| "pq_vcnt PQ_NONE = v_wire_count"

definition vm_page_domain_init :: "nat \<Rightarrow> ('r, 'p) vm_sys \<Rightarrow> ('r, 'p) vm_sys" where
  "vm_page_domain_init d s =
    s\<lparr>vmd := (vmd s)(d := (\<lambda>q. (vmd s d q)\<lparr>pq_pl := []\<rparr>))\<rparr>"

text \<open>\<open>pmap_page_init\<close> is machine-dependent; it sets up the page's part for the mappings, its memory attribute among them.\<close>

definition vm_page_init_page :: "(vm_page \<Rightarrow> vm_page) \<Rightarrow> nat \<Rightarrow> nat \<Rightarrow> nat \<Rightarrow> int \<Rightarrow> vm_page \<Rightarrow> vm_page" where
  "vm_page_init_page pmap_page_init VM_NFREEORDER VM_FREEPOOL_DEFAULT pa seg m = pmap_page_init
    (m\<lparr>object := None, wire_count := 0, busy_lock := VPB_UNBUSIED, hold_count := 0, flags := {},
      phys_addr := pa, queue := PQ_NONE, psind := 0, segind := seg, order := VM_NFREEORDER,
      pool := VM_FREEPOOL_DEFAULT, valid := 0, dirty := 0\<rparr>)"

section \<open>Counters and queues\<close>

definition vm_pagequeue_cnt_add :: "nat \<Rightarrow> pq \<Rightarrow> int \<Rightarrow> ('r, 'p) vm_sys \<Rightarrow> ('r, 'p) vm_sys" where
  "vm_pagequeue_cnt_add d q addend s =
    cnt_add (pq_vcnt q) addend (upd_queue d q (\<lambda>p. p\<lparr>pq_cnt := pq_cnt p + addend\<rparr>) s)"

definition vm_page_pagequeue :: "('r, 'p) vm_env \<Rightarrow> ('r, 'p) vm_sys \<Rightarrow> pid \<Rightarrow> nat \<times> pq" where
  "vm_page_pagequeue E s m =
    (if vm_page_in_laundry (pg s m) then (0, queue (pg s m)) else (vm_phys_domain E m, queue (pg s m)))"

definition vm_page_dequeue :: "('r, 'p) vm_env \<Rightarrow> pid \<Rightarrow> ('r, 'p) vm_sys \<Rightarrow> ('r, 'p) vm_sys" where
  "vm_page_dequeue E m s =
    (let (d, q) = vm_page_pagequeue E s m;
         s1 = upd_page m (\<lambda>x. x\<lparr>queue := PQ_NONE\<rparr>) s;
         s2 = upd_queue d q (\<lambda>p. p\<lparr>pq_pl := tailq_remove m (pq_pl p)\<rparr>) s1
     in vm_pagequeue_cnt_add d q (- 1) s2)"

definition vm_page_dequeue_locked :: "('r, 'p) vm_env \<Rightarrow> pid \<Rightarrow> ('r, 'p) vm_sys \<Rightarrow> ('r, 'p) vm_sys" where
  "vm_page_dequeue_locked E m s =
    (let (d, q) = vm_page_pagequeue E s m;
         s1 = upd_page m (\<lambda>x. x\<lparr>queue := PQ_NONE\<rparr>) s;
         s2 = upd_queue d q (\<lambda>p. p\<lparr>pq_pl := tailq_remove m (pq_pl p)\<rparr>) s1
     in vm_pagequeue_cnt_add d q (- 1) s2)"

definition vm_page_enqueue :: "('r, 'p) vm_env \<Rightarrow> pq \<Rightarrow> pid \<Rightarrow> ('r, 'p) vm_sys \<Rightarrow> ('r, 'p) vm_sys" where
  "vm_page_enqueue E q0 m s =
    (let q = (if q0 = PQ_ACTIVE then PQ_INACTIVE else q0);
         d = (if q = PQ_LAUNDRY then 0 else vm_phys_domain E m);
         s1 = (if q = PQ_INACTIVE
               then (upd_page m (\<lambda>x. x\<lparr>pg_id := pg_cnt s\<rparr>) s)\<lparr>pg_cnt := pg_cnt s + 1\<rparr> else s);
         s2 = upd_page m (\<lambda>x. x\<lparr>queue := q\<rparr>) s1;
         s3 = upd_queue d q (\<lambda>p. p\<lparr>pq_pl := tailq_insert_tail m (pq_pl p)\<rparr>) s2
     in vm_pagequeue_cnt_add d q 1 s3)"

definition vm_page_requeue :: "('r, 'p) vm_env \<Rightarrow> pid \<Rightarrow> ('r, 'p) vm_sys \<Rightarrow> ('r, 'p) vm_sys" where
  "vm_page_requeue E m s =
    (let (d, q) = vm_page_pagequeue E s m
     in upd_queue d q (\<lambda>p. p\<lparr>pq_pl := tailq_insert_tail m (tailq_remove m (pq_pl p))\<rparr>) s)"

definition vm_page_requeue_locked :: "('r, 'p) vm_env \<Rightarrow> pid \<Rightarrow> ('r, 'p) vm_sys \<Rightarrow> ('r, 'p) vm_sys" where
  "vm_page_requeue_locked E m s =
    (let (d, q) = vm_page_pagequeue E s m
     in upd_queue d q (\<lambda>p. p\<lparr>pq_pl := tailq_insert_tail m (tailq_remove m (pq_pl p))\<rparr>) s)"

definition vm_page_remque :: "('r, 'p) vm_env \<Rightarrow> pid \<Rightarrow> ('r, 'p) vm_sys \<Rightarrow> ('r, 'p) vm_sys" where
  "vm_page_remque E m s = (if queue (pg s m) \<noteq> PQ_NONE then vm_page_dequeue E m s else s)"

section \<open>Moving a page\<close>

definition vm_page_activate :: "('r, 'p) vm_env \<Rightarrow> pid \<Rightarrow> ('r, 'p) vm_sys \<Rightarrow> ('r, 'p) vm_sys" where
  "vm_page_activate E m s =
    (let x = pg s m;
         bump = upd_page m (\<lambda>x. x\<lparr>act_count := (if act_count x < ACT_INIT then ACT_INIT else act_count x)\<rparr>) s
     in if queue x \<noteq> PQ_ACTIVE
        then (if wire_count x = 0 \<and> VPO_UNMANAGED \<notin> oflags x
              then vm_page_enqueue E PQ_INACTIVE m
                (if queue x \<noteq> PQ_NONE then vm_page_dequeue E m bump else bump)
              else s)
        else bump)"

definition vm_page_deactivate_int ::
    "('r, 'p) vm_env \<Rightarrow> pid \<Rightarrow> bool \<Rightarrow> ('r, 'p) vm_sys \<Rightarrow> ('r, 'p) vm_sys" where
  "vm_page_deactivate_int E m noreuse s =
    (let x = pg s m; d = vm_phys_domain E m
     in if queue x = PQ_INACTIVE \<and> \<not> noreuse then s
        else if wire_count x = 0 \<and> VPO_UNMANAGED \<notin> oflags x
        then (let s1 = (if queue x = PQ_INACTIVE then vm_page_dequeue_locked E m s
                        else if queue x \<noteq> PQ_NONE then vm_page_dequeue E m s else s);
                  s2 = upd_page m (\<lambda>x. x\<lparr>queue := PQ_INACTIVE\<rparr>) s1;
                  s3 = (upd_page m (\<lambda>x. x\<lparr>pg_id := pg_cnt s2\<rparr>) s2)\<lparr>pg_cnt := pg_cnt s2 + 1\<rparr>;
                  s4 = upd_queue d PQ_INACTIVE (\<lambda>p. p\<lparr>pq_pl := tailq_insert_tail m (pq_pl p)\<rparr>) s3
              in vm_pagequeue_cnt_add d PQ_INACTIVE 1 s4)
        else s)"

definition vm_page_deactivate :: "('r, 'p) vm_env \<Rightarrow> pid \<Rightarrow> ('r, 'p) vm_sys \<Rightarrow> ('r, 'p) vm_sys" where
  "vm_page_deactivate E m s = vm_page_deactivate_int E m False s"

definition vm_page_deactivate_noreuse :: "('r, 'p) vm_env \<Rightarrow> pid \<Rightarrow> ('r, 'p) vm_sys \<Rightarrow> ('r, 'p) vm_sys" where
  "vm_page_deactivate_noreuse E m s = vm_page_deactivate_int E m True s"

definition vm_page_launder :: "('r, 'p) vm_env \<Rightarrow> pid \<Rightarrow> ('r, 'p) vm_sys \<Rightarrow> ('r, 'p) vm_sys" where
  "vm_page_launder E m s =
    (let x = pg s m
     in if queue x \<noteq> PQ_LAUNDRY \<and> wire_count x = 0 \<and> VPO_UNMANAGED \<notin> oflags x
        then vm_page_enqueue E PQ_LAUNDRY m (if queue x \<noteq> PQ_NONE then vm_page_dequeue E m s else s)
        else s)"

section \<open>Wiring\<close>

definition vm_page_wire :: "('r, 'p) vm_env \<Rightarrow> pid \<Rightarrow> ('r, 'p) vm_sys \<Rightarrow> ('r, 'p) vm_sys" where
  "vm_page_wire E m s =
    (if PG_FICTITIOUS \<in> flags (pg s m) then s
     else upd_page m (\<lambda>x. x\<lparr>wire_count := wire_count x + 1\<rparr>)
       (if wire_count (pg s m) = 0 then cnt_add v_wire_count 1 (vm_page_remque E m s) else s))"

definition vm_page_unwire ::
    "('r, 'p) vm_env \<Rightarrow> pid \<Rightarrow> pq \<Rightarrow> ('r, 'p) vm_sys \<Rightarrow> fault + (bool \<times> ('r, 'p) vm_sys)" where
  "vm_page_unwire E m q s =
    (if PG_FICTITIOUS \<in> flags (pg s m) then Inr (False, s)
     else if wire_count (pg s m) > 0
     then (let s1 = upd_page m (\<lambda>x. x\<lparr>wire_count := wire_count x - 1\<rparr>) s
           in if wire_count (pg s1 m) = 0
              then (let s2 = cnt_add v_wire_count (- 1) s1
                    in Inr (True, if VPO_UNMANAGED \<notin> oflags (pg s2 m) \<and> object (pg s2 m) \<noteq> None \<and> q \<noteq> PQ_NONE
                                  then vm_page_enqueue E q m s2 else s2))
              else Inr (False, s1))
     else Inl Kernel_panic)"

section \<open>Fields after an update\<close>

lemma upd_page_sel [simp]:
  "pg (upd_page m f s) = upd_pg (pg s) m f" "objs (upd_page m f s) = objs s"
  "vmd (upd_page m f s) = vmd s" "vm_cnt (upd_page m f s) = vm_cnt s" "pg_cnt (upd_page m f s) = pg_cnt s"
  "phys (upd_page m f s) = phys s"
  by (simp_all add: upd_page_def)

lemma upd_queue_sel [simp]:
  "pg (upd_queue d q g s) = pg s" "objs (upd_queue d q g s) = objs s"
  "vmd (upd_queue d q g s) = (vmd s)(d := (vmd s d)(q := g (vmd s d q)))"
  "vm_cnt (upd_queue d q g s) = vm_cnt s" "pg_cnt (upd_queue d q g s) = pg_cnt s"
  "phys (upd_queue d q g s) = phys s"
  by (simp_all add: upd_queue_def)

lemma cnt_add_sel [simp]:
  "pg (cnt_add c n s) = pg s" "objs (cnt_add c n s) = objs s" "vmd (cnt_add c n s) = vmd s"
  "vm_cnt (cnt_add c n s) = (vm_cnt s)(c := vm_cnt s c + word_of_int n)" "pg_cnt (cnt_add c n s) = pg_cnt s"
  "phys (cnt_add c n s) = phys s"
  by (simp_all add: cnt_add_def)

lemmas queue_op_defs = vm_page_dequeue_def vm_page_dequeue_locked_def vm_page_enqueue_def
  vm_page_requeue_def vm_page_requeue_locked_def vm_page_remque_def vm_pagequeue_cnt_add_def

text \<open>Where a page of queue \<open>q\<close> is linked.\<close>

definition qdom :: "('r, 'p) vm_env \<Rightarrow> pq \<Rightarrow> pid \<Rightarrow> nat" where
  "qdom E q m = (if q = PQ_LAUNDRY then 0 else vm_phys_domain E m)"

lemma pagequeue_qdom: "vm_page_pagequeue E s m = (qdom E (queue (pg s m)) m, queue (pg s m))"
  by (simp add: vm_page_pagequeue_def qdom_def vm_page_in_laundry_def)

lemma dequeue_locked [simp]: "vm_page_dequeue_locked = vm_page_dequeue"
  by (intro ext) (simp add: vm_page_dequeue_locked_def vm_page_dequeue_def)

lemma requeue_locked [simp]: "vm_page_requeue_locked = vm_page_requeue"
  by (intro ext) (simp add: vm_page_requeue_locked_def vm_page_requeue_def)

lemma dequeue_sel [simp]:
  "pg (vm_page_dequeue E m s) = upd_pg (pg s) m (\<lambda>x. x\<lparr>queue := PQ_NONE\<rparr>)"
  "objs (vm_page_dequeue E m s) = objs s" "pg_cnt (vm_page_dequeue E m s) = pg_cnt s"
  "phys (vm_page_dequeue E m s) = phys s"
  by (simp_all add: queue_op_defs pagequeue_qdom Let_def)

lemma dequeue_vmd: "vmd (vm_page_dequeue E m s) d q =
    (if q = queue (pg s m) \<and> d = qdom E q m
     then \<lparr>pq_pl = tailq_remove m (pq_pl (vmd s d q)), pq_cnt = pq_cnt (vmd s d q) - 1\<rparr> else vmd s d q)"
  by (simp add: queue_op_defs pagequeue_qdom Let_def)

lemma enqueue_sel:
  assumes "q \<noteq> PQ_ACTIVE"
  shows "pg (vm_page_enqueue E q m s) =
    upd_pg (pg s) m (\<lambda>x. x\<lparr>queue := q, pg_id := if q = PQ_INACTIVE then pg_cnt s else pg_id x\<rparr>)"
   "vmd (vm_page_enqueue E q m s) d r =
     (if r = q \<and> d = qdom E q m
      then \<lparr>pq_pl = pq_pl (vmd s d r) @ [m], pq_cnt = pq_cnt (vmd s d r) + 1\<rparr> else vmd s d r)"
   "pg_cnt (vm_page_enqueue E q m s) = (if q = PQ_INACTIVE then pg_cnt s + 1 else pg_cnt s)"
   "objs (vm_page_enqueue E q m s) = objs s" "phys (vm_page_enqueue E q m s) = phys s"
  using assms by (auto simp: queue_op_defs qdom_def Let_def upd_pg_def tailq_insert_tail_def)

lemma enqueue_active: "vm_page_enqueue E PQ_ACTIVE m s = vm_page_enqueue E PQ_INACTIVE m s"
  by (simp add: vm_page_enqueue_def)

definition movable :: "('r, 'p) vm_sys \<Rightarrow> pid \<Rightarrow> bool" where
  "movable s m \<longleftrightarrow> wire_count (pg s m) = 0 \<and> VPO_UNMANAGED \<notin> oflags (pg s m)"

lemma enqueue_inactive:
  "vm_page_enqueue E PQ_INACTIVE m s =
    vm_pagequeue_cnt_add (vm_phys_domain E m) PQ_INACTIVE 1
      (upd_queue (vm_phys_domain E m) PQ_INACTIVE (\<lambda>p. p\<lparr>pq_pl := tailq_insert_tail m (pq_pl p)\<rparr>)
        (upd_page m (\<lambda>x. x\<lparr>queue := PQ_INACTIVE\<rparr>)
          ((upd_page m (\<lambda>x. x\<lparr>pg_id := pg_cnt s\<rparr>) s)\<lparr>pg_cnt := pg_cnt s + 1\<rparr>)))"
  by (simp add: vm_page_enqueue_def Let_def)

lemma stamp_commute:
  "(upd_page m (\<lambda>x. x\<lparr>pg_id := pg_cnt (upd_page m (\<lambda>x. x\<lparr>queue := q\<rparr>) s)\<rparr>) (upd_page m (\<lambda>x. x\<lparr>queue := q\<rparr>) s))
      \<lparr>pg_cnt := pg_cnt (upd_page m (\<lambda>x. x\<lparr>queue := q\<rparr>) s) + 1\<rparr> =
    upd_page m (\<lambda>x. x\<lparr>queue := q\<rparr>) ((upd_page m (\<lambda>x. x\<lparr>pg_id := pg_cnt s\<rparr>) s)\<lparr>pg_cnt := pg_cnt s + 1\<rparr>)"
  by (intro vm_sys.equality) (auto simp: upd_page_def upd_pg_def fun_eq_iff)

text \<open>The hand-written insertion of \<open>_vm_page_deactivate\<close> is an enqueue of the page taken off its queue.\<close>

lemma deactivate_eq:
  "vm_page_deactivate_int E m noreuse s =
    (if queue (pg s m) = PQ_INACTIVE \<and> \<not> noreuse then s
     else if movable s m then vm_page_enqueue E PQ_INACTIVE m (vm_page_remque E m s) else s)"
proof -
  have r: "vm_page_remque E m s =
      (if queue (pg s m) = PQ_INACTIVE then vm_page_dequeue_locked E m s
       else if queue (pg s m) \<noteq> PQ_NONE then vm_page_dequeue E m s else s)"
    by (simp add: vm_page_remque_def)
  show ?thesis
    unfolding vm_page_deactivate_int_def Let_def enqueue_inactive stamp_commute r movable_def ..
qed

definition bump_act :: "pid \<Rightarrow> ('r, 'p) vm_sys \<Rightarrow> ('r, 'p) vm_sys" where
  "bump_act m s = upd_page m (\<lambda>x. x\<lparr>act_count := (if act_count x < ACT_INIT then ACT_INIT else act_count x)\<rparr>) s"

lemma activate_eq:
  "vm_page_activate E m s =
    (if queue (pg s m) \<noteq> PQ_ACTIVE
     then (if movable s m then vm_page_enqueue E PQ_INACTIVE m (vm_page_remque E m (bump_act m s)) else s)
     else bump_act m s)"
  by (simp add: vm_page_activate_def movable_def vm_page_remque_def bump_act_def Let_def)

lemma launder_eq:
  "vm_page_launder E m s =
    (if queue (pg s m) \<noteq> PQ_LAUNDRY \<and> movable s m
     then vm_page_enqueue E PQ_LAUNDRY m (vm_page_remque E m s) else s)"
  by (simp add: vm_page_launder_def movable_def vm_page_remque_def Let_def)

section \<open>Invariant\<close>

text \<open>
  The daemon's marker pages are linked into the queues too, but not counted, and the claims leave
  them out. A page is on exactly the queue its field names, in its memory domain (the laundry of
  all domains is that of domain 0); a wired or unmanaged page is on none; each count is the length
  of its queue and each global counter the sum over the domains.
\<close>

definition regular :: "('r, 'p) vm_sys \<Rightarrow> pid \<Rightarrow> bool" where
  "regular s m \<longleftrightarrow> PG_MARKER \<notin> flags (pg s m)"

definition queues_ok :: "('r, 'p) vm_env \<Rightarrow> ('r, 'p) vm_sys \<Rightarrow> bool" where
  "queues_ok E s \<longleftrightarrow>
    (\<forall>d q. distinct (pq_pl (vmd s d q))) \<and>
    (\<forall>m d q. regular s m \<longrightarrow>
      (m \<in> set (pq_pl (vmd s d q)) \<longleftrightarrow> queue (pg s m) = q \<and> q \<noteq> PQ_NONE \<and> d = qdom E q m)) \<and>
    (\<forall>m. regular s m \<and> queue (pg s m) \<noteq> PQ_NONE \<longrightarrow> movable s m) \<and>
    (\<forall>d q. pq_cnt (vmd s d q) = int (length (filter (regular s) (pq_pl (vmd s d q)))))"

lemma queues_okD:
  assumes "queues_ok E s"
  shows "distinct (pq_pl (vmd s d q))"
    and "regular s m \<Longrightarrow> m \<in> set (pq_pl (vmd s d q)) \<longleftrightarrow> queue (pg s m) = q \<and> q \<noteq> PQ_NONE \<and> d = qdom E q m"
    and "regular s m \<Longrightarrow> queue (pg s m) \<noteq> PQ_NONE \<Longrightarrow> movable s m"
    and "pq_cnt (vmd s d q) = int (length (filter (regular s) (pq_pl (vmd s d q))))"
  using assms unfolding queues_ok_def by auto

lemma queues_okI:
  assumes "\<forall>d q. distinct (pq_pl (vmd s d q))"
    and "\<forall>m d q. regular s m \<longrightarrow>
      (m \<in> set (pq_pl (vmd s d q)) \<longleftrightarrow> queue (pg s m) = q \<and> q \<noteq> PQ_NONE \<and> d = qdom E q m)"
    and "\<forall>m. regular s m \<and> queue (pg s m) \<noteq> PQ_NONE \<longrightarrow> movable s m"
    and "\<forall>d q. pq_cnt (vmd s d q) = int (length (filter (regular s) (pq_pl (vmd s d q))))"
  shows "queues_ok E s"
  using assms unfolding queues_ok_def by auto

lemma regular_upd: "\<forall>x. flags (f x) = flags x \<Longrightarrow> pg s' = upd_pg (pg s) m f \<Longrightarrow> regular s' = regular s"
  by (intro ext) (simp add: regular_def upd_pg_def)

lemma length_filter_remove1:
  "x \<in> set xs \<Longrightarrow> P x \<Longrightarrow> int (length (filter P (remove1 x xs))) = int (length (filter P xs)) - 1"
  by (induction xs) auto

lemma dequeue_ok:
  assumes ok: "queues_ok E s" and m: "regular s m" "queue (pg s m) \<noteq> PQ_NONE"
  shows "queues_ok E (vm_page_dequeue E m s)"
proof -
  let ?s = "vm_page_dequeue E m s"
  have reg: "regular ?s = regular s" by (rule regular_upd [where f = "\<lambda>x. x\<lparr>queue := PQ_NONE\<rparr>"]) simp_all
  have mem: "m \<in> set (pq_pl (vmd s (qdom E (queue (pg s m)) m) (queue (pg s m))))"
    using queues_okD(2) [OF ok m(1)] m(2) by simp
  show ?thesis
  proof (rule queues_okI)
    show "\<forall>d q. distinct (pq_pl (vmd ?s d q))"
      using queues_okD(1) [OF ok] by (simp add: dequeue_vmd)
    show "\<forall>n d q. regular ?s n \<longrightarrow>
      (n \<in> set (pq_pl (vmd ?s d q)) \<longleftrightarrow> queue (pg ?s n) = q \<and> q \<noteq> PQ_NONE \<and> d = qdom E q n)"
    proof (intro allI impI)
      fix n d q
      assume "regular ?s n"
      then have n: "regular s n" by (simp add: reg)
      show "n \<in> set (pq_pl (vmd ?s d q)) \<longleftrightarrow> queue (pg ?s n) = q \<and> q \<noteq> PQ_NONE \<and> d = qdom E q n"
        using queues_okD(1) [OF ok, of d q] queues_okD(2) [OF ok n, of d q]
        by (cases "n = m") (auto simp: dequeue_vmd)
    qed
    show "\<forall>n. regular ?s n \<and> queue (pg ?s n) \<noteq> PQ_NONE \<longrightarrow> movable ?s n"
      using queues_okD(3) [OF ok] by (auto simp: reg movable_def upd_pg_def)
    show "\<forall>d q. pq_cnt (vmd ?s d q) = int (length (filter (regular ?s) (pq_pl (vmd ?s d q))))"
      using queues_okD(4) [OF ok] mem m(1) by (simp add: dequeue_vmd reg tailq_remove_def length_filter_remove1)
  qed
qed

lemma enqueue_ok:
  assumes ok: "queues_ok E s" and m: "regular s m" "queue (pg s m) = PQ_NONE" "movable s m"
    and q: "q \<noteq> PQ_NONE" "q \<noteq> PQ_ACTIVE"
  shows "queues_ok E (vm_page_enqueue E q m s)"
proof -
  let ?s = "vm_page_enqueue E q m s"
  note sel = enqueue_sel [OF q(2)]
  have reg: "regular ?s = regular s"
    by (rule regular_upd [OF _ sel(1)]) simp
  have out: "m \<notin> set (pq_pl (vmd s d r))" for d r using queues_okD(2) [OF ok m(1)] m(2) by auto
  show ?thesis
  proof (rule queues_okI)
    show "\<forall>d r. distinct (pq_pl (vmd ?s d r))"
      using queues_okD(1) [OF ok] out by (simp add: sel)
    show "\<forall>n d r. regular ?s n \<longrightarrow>
      (n \<in> set (pq_pl (vmd ?s d r)) \<longleftrightarrow> queue (pg ?s n) = r \<and> r \<noteq> PQ_NONE \<and> d = qdom E r n)"
    proof (intro allI impI)
      fix n d r
      assume "regular ?s n"
      then have n: "regular s n" by (simp add: reg)
      show "n \<in> set (pq_pl (vmd ?s d r)) \<longleftrightarrow> queue (pg ?s n) = r \<and> r \<noteq> PQ_NONE \<and> d = qdom E r n"
        using queues_okD(2) [OF ok n, of d r] out [of d r] m(2) q by (cases "n = m") (auto simp: sel)
    qed
    show "\<forall>n. regular ?s n \<and> queue (pg ?s n) \<noteq> PQ_NONE \<longrightarrow> movable ?s n"
      using queues_okD(3) [OF ok] m(3) by (auto simp: reg movable_def upd_pg_def sel)
    show "\<forall>d r. pq_cnt (vmd ?s d r) = int (length (filter (regular ?s) (pq_pl (vmd ?s d r))))"
      using queues_okD(4) [OF ok] m(1) by (simp add: sel reg)
  qed
qed

end
