(* ===== verification/Vm_Queue_Props.thy ===== *)
theory Vm_Queue_Props
  imports Vm_Queue
begin

text \<open>
  Properties of the page queues: the invariant under every operation that moves a page, the first-in
  first-out order of the inactive queue by the numbers stamped on its pages, where each operation
  puts a page, and wiring.
\<close>

section \<open>The invariant under the remaining steps\<close>

lemma remque_ok:
  assumes "queues_ok E s" "regular s m"
  shows "queues_ok E (vm_page_remque E m s)"
  using assms by (simp add: vm_page_remque_def dequeue_ok)

lemma remque_sel [simp]:
  "pg (vm_page_remque E m s) = upd_pg (pg s) m (\<lambda>x. x\<lparr>queue := PQ_NONE\<rparr>)"
  "objs (vm_page_remque E m s) = objs s" "pg_cnt (vm_page_remque E m s) = pg_cnt s"
  "phys (vm_page_remque E m s) = phys s"
  by (auto simp: vm_page_remque_def upd_pg_def fun_eq_iff)

lemma remque_movable [simp]:
  "movable (vm_page_remque E m s) n \<longleftrightarrow> movable s n" "regular (vm_page_remque E m s) n \<longleftrightarrow> regular s n"
  by (simp_all add: movable_def regular_def upd_pg_def)

lemma cnt_add_regular [simp]: "regular (cnt_add c n s) = regular s" "movable (cnt_add c n s) = movable s"
  by (auto simp: regular_def movable_def fun_eq_iff)

lemma cnt_add_ok [simp]: "queues_ok E (cnt_add c n s) \<longleftrightarrow> queues_ok E s"
  by (simp add: queues_ok_def)

lemma upd_page_ok:
  assumes ok: "queues_ok E s"
    and f: "\<forall>x. flags (f x) = flags x \<and> queue (f x) = queue x \<and> oflags (f x) = oflags x"
    and w: "(\<forall>x. wire_count (f x) = wire_count x) \<or> queue (pg s m) = PQ_NONE \<or> \<not> regular s m"
  shows "queues_ok E (upd_page m f s)"
proof -
  have reg: "regular (upd_page m f s) = regular s" by (rule regular_upd [where f = f]) (use f in simp_all)
  have que: "queue (pg (upd_page m f s) n) = queue (pg s n)" for n using f by (simp add: upd_pg_def)
  have mov: "regular s n \<and> queue (pg s n) \<noteq> PQ_NONE \<Longrightarrow> movable s n \<Longrightarrow> movable (upd_page m f s) n" for n
    using f w by (cases "n = m") (auto simp: movable_def)
  show ?thesis
    using ok mov unfolding queues_ok_def reg que by auto
qed

lemma bump_ok: "queues_ok E s \<Longrightarrow> queues_ok E (bump_act m s)"
  unfolding bump_act_def by (rule upd_page_ok) auto

lemma bump_sel [simp]:
  "movable (bump_act m s) n \<longleftrightarrow> movable s n" "regular (bump_act m s) n \<longleftrightarrow> regular s n"
  "queue (pg (bump_act m s) n) = queue (pg s n)" "pg_id (pg (bump_act m s) n) = pg_id (pg s n)"
  "vmd (bump_act m s) = vmd s" "pg_cnt (bump_act m s) = pg_cnt s"
  by (auto simp: bump_act_def movable_def regular_def upd_pg_def)

lemma move_ok:
  assumes "queues_ok E s" "regular s m" "movable s m" "q \<noteq> PQ_NONE" "q \<noteq> PQ_ACTIVE"
  shows "queues_ok E (vm_page_enqueue E q m (vm_page_remque E m s))"
  using assms by (intro enqueue_ok remque_ok) auto

lemma requeue_ok:
  assumes ok: "queues_ok E s" and m: "regular s m" "queue (pg s m) \<noteq> PQ_NONE"
  shows "queues_ok E (vm_page_requeue E m s)"
proof -
  let ?s = "vm_page_requeue E m s" and ?q = "queue (pg s m)"
  have pgs: "pg ?s = pg s" by (simp add: vm_page_requeue_def pagequeue_qdom)
  have vm: "vmd ?s d r = (if r = ?q \<and> d = qdom E r m
      then (vmd s d r)\<lparr>pq_pl := tailq_remove m (pq_pl (vmd s d r)) @ [m]\<rparr> else vmd s d r)" for d r
    by (simp add: vm_page_requeue_def pagequeue_qdom tailq_insert_tail_def)
  have reg: "regular ?s = regular s" by (intro ext) (simp add: regular_def pgs)
  have mem: "m \<in> set (pq_pl (vmd s (qdom E ?q m) ?q))" using queues_okD(2) [OF ok m(1)] m(2) by simp
  show ?thesis
  proof (rule queues_okI)
    show "\<forall>d r. distinct (pq_pl (vmd ?s d r))" using queues_okD(1) [OF ok] by (simp add: vm)
    show "\<forall>n d r. regular ?s n \<longrightarrow>
      (n \<in> set (pq_pl (vmd ?s d r)) \<longleftrightarrow> queue (pg ?s n) = r \<and> r \<noteq> PQ_NONE \<and> d = qdom E r n)"
      using queues_okD(1) [OF ok] queues_okD(2) [OF ok] mem by (auto simp: vm reg pgs)
    show "\<forall>n. regular ?s n \<and> queue (pg ?s n) \<noteq> PQ_NONE \<longrightarrow> movable ?s n"
      using queues_okD(3) [OF ok] by (auto simp: reg movable_def pgs)
    show "\<forall>d r. pq_cnt (vmd ?s d r) = int (length (filter (regular ?s) (pq_pl (vmd ?s d r))))"
      using queues_okD(4) [OF ok] mem m(1) by (simp add: vm reg tailq_remove_def length_filter_remove1)
  qed
qed

lemma wire_ok:
  assumes "queues_ok E s" "regular s m"
  shows "queues_ok E (vm_page_wire E m s)"
proof -
  have q: "wire_count (pg s m) \<noteq> 0 \<Longrightarrow> queue (pg s m) = PQ_NONE"
    using queues_okD(3) [OF assms] by (auto simp: movable_def)
  show ?thesis
    unfolding vm_page_wire_def using assms remque_ok [OF assms] q
    by (auto intro!: upd_page_ok)
qed

lemma unwire_ok:
  assumes ok: "queues_ok E s" and m: "regular s m" and r: "vm_page_unwire E m q s = Inr (b, s')"
  shows "queues_ok E s'"
proof (cases "PG_FICTITIOUS \<in> flags (pg s m) \<or> wire_count (pg s m) = 0")
  case True
  then show ?thesis using r ok by (auto simp: vm_page_unwire_def split: if_splits)
next
  case False
  define s1 where "s1 = upd_page m (\<lambda>x. x\<lparr>wire_count := wire_count x - 1\<rparr>) s"
  have q: "queue (pg s m) = PQ_NONE" using queues_okD(3) [OF ok m] False by (auto simp: movable_def)
  have ok1: "queues_ok E s1" unfolding s1_def using q by (intro upd_page_ok [OF ok]) auto
  have s1: "regular s1 m" "queue (pg s1 m) = PQ_NONE" using m q by (simp_all add: s1_def regular_def)
  define s2 where "s2 = cnt_add v_wire_count (- 1) s1"
  have s': "s' = s1 \<or> s' = s2 \<or> (wire_count (pg s1 m) = 0 \<and> VPO_UNMANAGED \<notin> oflags (pg s1 m) \<and> q \<noteq> PQ_NONE \<and>
      s' = vm_page_enqueue E q m s2)"
    using r False by (auto simp: vm_page_unwire_def Let_def s1_def s2_def word_gt_0 split: if_splits)
  have ok2: "queues_ok E s2" using ok1 by (simp add: s2_def)
  have s2: "regular s2 m" "queue (pg s2 m) = PQ_NONE" "pg s2 = pg s1" using s1 by (simp_all add: s2_def regular_def)
  show ?thesis
  proof (cases "s' = s1 \<or> s' = s2")
    case True
    then show ?thesis using ok1 ok2 by auto
  next
    case False
    then have mv: "movable s2 m" and qn: "q \<noteq> PQ_NONE" and e: "s' = vm_page_enqueue E q m s2"
      using s' s2 by (auto simp: movable_def)
    show ?thesis
    proof (cases "q = PQ_ACTIVE")
      case True
      then show ?thesis unfolding e by (simp add: enqueue_active enqueue_ok [OF ok2 s2(1,2) mv])
    qed (simp add: e enqueue_ok [OF ok2 s2(1,2) mv qn])
  qed
qed

section \<open>First in, first out\<close>

definition in_line :: "('r, 'p) vm_sys \<Rightarrow> nat \<Rightarrow> pid list" where
  "in_line s d = filter (regular s) (pq_pl (vmd s d PQ_INACTIVE))"

definition fifo_ok :: "('r, 'p) vm_sys \<Rightarrow> bool" where
  "fifo_ok s \<longleftrightarrow> (\<forall>d. sorted_wrt (<) (map (\<lambda>m. pg_id (pg s m)) (in_line s d)) \<and>
    (\<forall>m\<in>set (in_line s d). pg_id (pg s m) < pg_cnt s) \<and> pq_pl (vmd s d PQ_ACTIVE) = [])"

lemma remove1_filter_distinct: "distinct xs \<Longrightarrow> remove1 x xs = filter (\<lambda>y. y \<noteq> x) xs"
  by (induction xs) (auto intro!: filter_True [symmetric])

lemma in_line_remque:
  assumes "queues_ok E s" "regular s m"
  shows "in_line (vm_page_remque E m s) d = filter (\<lambda>n. n \<noteq> m) (in_line s d)"
proof -
  have reg: "regular (vm_page_remque E m s) = regular s" by (intro ext) simp
  have out: "m \<notin> set (pq_pl (vmd s d PQ_INACTIVE))" if "\<not> (queue (pg s m) = PQ_INACTIVE \<and> d = qdom E PQ_INACTIVE m)"
    using queues_okD(2) [OF assms, of d PQ_INACTIVE] that by auto
  have v: "pq_pl (vmd (vm_page_remque E m s) d PQ_INACTIVE) = filter (\<lambda>n. n \<noteq> m) (pq_pl (vmd s d PQ_INACTIVE))"
  proof (cases "queue (pg s m) = PQ_INACTIVE \<and> d = qdom E PQ_INACTIVE m")
    case True
    then show ?thesis
      using queues_okD(1) [OF assms(1)] by (simp add: vm_page_remque_def dequeue_vmd tailq_remove_def remove1_filter_distinct)
  next
    case False
    then have "pq_pl (vmd (vm_page_remque E m s) d PQ_INACTIVE) = pq_pl (vmd s d PQ_INACTIVE)"
      by (auto simp: vm_page_remque_def dequeue_vmd)
    moreover have "filter (\<lambda>n. n \<noteq> m) (pq_pl (vmd s d PQ_INACTIVE)) = pq_pl (vmd s d PQ_INACTIVE)"
      using out [OF False] by (intro filter_True) auto
    ultimately show ?thesis by simp
  qed
  show ?thesis unfolding in_line_def reg v by (simp add: conj_commute)
qed

lemma active_remque: "pq_pl (vmd s d PQ_ACTIVE) = [] \<Longrightarrow> pq_pl (vmd (vm_page_remque E m s) d PQ_ACTIVE) = []"
  by (auto simp: vm_page_remque_def dequeue_vmd tailq_remove_def)

lemma fifo_remque:
  assumes "queues_ok E s" "regular s m" "fifo_ok s"
  shows "fifo_ok (vm_page_remque E m s)"
proof -
  have "pg_id (pg (vm_page_remque E m s) n) = pg_id (pg s n)" for n by (simp add: upd_pg_def)
  then show ?thesis
    using assms(3) unfolding fifo_ok_def
    by (auto simp: in_line_remque [OF assms(1,2)] active_remque sorted_wrt_map intro: sorted_wrt_filter)
qed

lemma in_line_enqueue:
  assumes "regular s m" "q \<noteq> PQ_ACTIVE"
  shows "in_line (vm_page_enqueue E q m s) d =
    (if q = PQ_INACTIVE \<and> d = vm_phys_domain E m then in_line s d @ [m] else in_line s d)"
proof -
  have reg: "regular (vm_page_enqueue E q m s) = regular s"
    by (rule regular_upd [OF _ enqueue_sel(1) [OF assms(2)]]) simp
  show ?thesis using assms by (auto simp: in_line_def reg enqueue_sel [OF assms(2)] qdom_def)
qed

lemma fifo_enqueue:
  assumes ok: "queues_ok E s" and m: "regular s m" "queue (pg s m) = PQ_NONE"
    and q: "q \<noteq> PQ_ACTIVE" and f: "fifo_ok s" and nw: "pg_cnt s < pg_cnt s + 1"
  shows "fifo_ok (vm_page_enqueue E q m s)"
proof -
  have out: "n \<in> set (in_line s d) \<Longrightarrow> n \<noteq> m" for n d
    using queues_okD(2) [OF ok m(1)] m(2) by (auto simp: in_line_def)
  have id: "n \<noteq> m \<Longrightarrow> pg_id (pg (vm_page_enqueue E q m s) n) = pg_id (pg s n)" for n
    by (simp add: enqueue_sel [OF q])
  have same: "map (\<lambda>n. pg_id (pg (vm_page_enqueue E q m s) n)) (in_line s d) = map (\<lambda>n. pg_id (pg s n)) (in_line s d)" for d
    using out id by (intro map_cong) auto
  have sorted: "sorted_wrt (<) (map (\<lambda>n. pg_id (pg s n)) (in_line s d))" for d
    using f by (simp add: fifo_ok_def)
  have lt: "n \<in> set (in_line s d) \<Longrightarrow> pg_id (pg s n) < pg_cnt s" for n d
    using f by (simp add: fifo_ok_def)
  have act: "pq_pl (vmd (vm_page_enqueue E q m s) d PQ_ACTIVE) = []" for d
    using f q by (auto simp: fifo_ok_def enqueue_sel [OF q])
  show ?thesis
  proof (cases "q = PQ_INACTIVE")
    case True
    have idm: "pg_id (pg (vm_page_enqueue E q m s) m) = pg_cnt s"
      using True enqueue_sel(1) [OF q, of E m s] by simp
    have cnt: "pg_cnt (vm_page_enqueue E q m s) = pg_cnt s + 1"
      using True enqueue_sel(3) [OF q, of E m s] by simp
    show ?thesis
      unfolding fifo_ok_def in_line_enqueue [OF m(1) q]
    proof (intro allI conjI ballI)
      fix d n
      show "sorted_wrt (<) (map (\<lambda>n. pg_id (pg (vm_page_enqueue E q m s) n))
          (if q = PQ_INACTIVE \<and> d = vm_phys_domain E m then in_line s d @ [m] else in_line s d))"
      proof (cases "q = PQ_INACTIVE \<and> d = vm_phys_domain E m")
        case True
        then have e: "(if q = PQ_INACTIVE \<and> d = vm_phys_domain E m then in_line s d @ [m] else in_line s d) =
          in_line s d @ [m]" by (rule if_P)
        show ?thesis unfolding e map_append same using sorted lt idm by (auto simp: sorted_wrt_append)
      next
        case False
        then have e: "(if q = PQ_INACTIVE \<and> d = vm_phys_domain E m then in_line s d @ [m] else in_line s d) =
          in_line s d" by (rule if_not_P)
        show ?thesis unfolding e same by (rule sorted)
      qed
      show "pq_pl (vmd (vm_page_enqueue E q m s) d PQ_ACTIVE) = []" by (rule act)
      assume n: "n \<in> set (if q = PQ_INACTIVE \<and> d = vm_phys_domain E m then in_line s d @ [m] else in_line s d)"
      show "pg_id (pg (vm_page_enqueue E q m s) n) < pg_cnt (vm_page_enqueue E q m s)"
      proof (cases "n = m")
        case True
        then show ?thesis using idm cnt nw by simp
      next
        case False
        then have "n \<in> set (in_line s d)" using n by (simp split: if_splits)
        then have "pg_id (pg s n) < pg_cnt s" by (rule lt)
        then show ?thesis using id [OF False] cnt nw by (auto intro: order_less_trans)
      qed
    qed
  next
    case False
    have cnt: "pg_cnt (vm_page_enqueue E q m s) = pg_cnt s" using False by (simp add: enqueue_sel [OF q])
    show ?thesis
      unfolding fifo_ok_def in_line_enqueue [OF m(1) q] using False sorted act lt out
      by (auto simp: same cnt id)
  qed
qed

lemma fifo_bump [simp]: "fifo_ok (bump_act m s) = fifo_ok s"
proof -
  have "regular (bump_act m s) = regular s" by (intro ext) simp
  then have "in_line (bump_act m s) = in_line s" by (intro ext) (simp add: in_line_def)
  then show ?thesis by (simp add: fifo_ok_def)
qed

lemma fifo_move:
  assumes "queues_ok E s" "regular s m" "fifo_ok s" "q \<noteq> PQ_ACTIVE" "pg_cnt s < pg_cnt s + 1"
  shows "fifo_ok (vm_page_enqueue E q m (vm_page_remque E m s))"
  using assms by (intro fifo_enqueue remque_ok fifo_remque) auto

section \<open>Properties\<close>

text \<open>
  C5: Every operation that moves a page keeps the queues consistent: each page stays on exactly the
  queue its field names, in the queue of its memory domain, wired and unmanaged pages on none, and
  the counts are the lengths of the queues.
\<close>

theorem queue_invariant:
  assumes ok: "queues_ok E s" and m: "regular s m"
  shows "queues_ok E (vm_page_activate E m s) \<and> queues_ok E (vm_page_deactivate E m s) \<and>
    queues_ok E (vm_page_deactivate_noreuse E m s) \<and> queues_ok E (vm_page_launder E m s) \<and>
    queues_ok E (vm_page_wire E m s) \<and>
    (\<forall>q b s'. vm_page_unwire E m q s = Inr (b, s') \<longrightarrow> queues_ok E s') \<and>
    (queue (pg s m) \<noteq> PQ_NONE \<longrightarrow> queues_ok E (vm_page_dequeue E m s) \<and> queues_ok E (vm_page_requeue E m s))"
proof -
  have "queues_ok E (vm_page_activate E m s)"
    unfolding activate_eq using bump_ok [OF ok] ok m by (auto intro: move_ok)
  moreover have "queues_ok E (vm_page_deactivate_int E m b s)" for b
    unfolding deactivate_eq using ok m by (auto intro: move_ok)
  moreover have "queues_ok E (vm_page_launder E m s)"
    unfolding launder_eq using ok m by (auto intro: move_ok)
  ultimately show ?thesis
    using wire_ok [OF ok m] unwire_ok [OF ok m] dequeue_ok [OF ok m] requeue_ok [OF ok m]
    by (simp add: vm_page_deactivate_def vm_page_deactivate_noreuse_def)
qed

text \<open>A machine with one domain; the trie of an object is an association list, the allocator a list of free pages.\<close>

definition env0 :: "((nat \<times> pid) list, pid list) vm_env" where
  "env0 = \<lparr>vm_ndomains = 1, vm_phys_domain = (\<lambda>m. 0),
    vm_radix_lookup = (\<lambda>r i. map_of r i),
    vm_radix_lookup_le = (\<lambda>r i. case filter (\<lambda>j. map_of r j \<noteq> None) (rev [0..<Suc i]) of
      [] \<Rightarrow> None | j # js \<Rightarrow> map_of r j),
    vm_radix_lookup_ge = (\<lambda>r i. case filter (\<lambda>j. i \<le> j) (sort (map fst r)) of [] \<Rightarrow> None | j # js \<Rightarrow> map_of r j),
    vm_radix_insert = (\<lambda>r i m. Some ((i, m) # r)),
    vm_radix_remove = (\<lambda>r i. filter (\<lambda>(j, n). j \<noteq> i) r),
    vm_radix_replace = (\<lambda>r i m. ((i, m) # r, map_of r i)),
    pmap_page_is_write_mapped = (\<lambda>m. False), pmap_is_modified = (\<lambda>m. False),
    pmap_remove_all = (\<lambda>m x. x), vm_phys_freecnt_adj = (\<lambda>m n p. p),
    vm_reserv_free_page = (\<lambda>m p. (p, False)), vm_phys_free_pages = (\<lambda>m p. m # p), v_free_count = length, v_pageout_free_min = 0,
    vm_page_count_min = (\<lambda>p. p = [])\<rparr>"

definition vm0 :: "((nat \<times> pid) list, pid list) vm_sys" where
  "vm0 = \<lparr>pg = (\<lambda>m. page0\<lparr>object := Some 0\<rparr>),
    objs = (\<lambda>ob. \<lparr>rtree = [], memq = [], resident_page_count = 0, otype = OBJT_DEFAULT, ref_count = 1,
      obj_dead = False, obj_size = 100, vnode_holds = 0, writeable_dirty = False\<rparr>),
    vmd = (\<lambda>d q. \<lparr>pq_pl = [], pq_cnt = 0\<rparr>), vm_cnt = (\<lambda>c. 0), pg_cnt = 0, phys = [],
    vm_pageout_pages_needed = False, vm_pages_needed = False, vm_page_zero_count = 0\<rparr>"

lemma vm0_ok: "queues_ok env0 vm0" "regular vm0 m" "fifo_ok vm0" "movable vm0 m"
  by (simp_all add: queues_ok_def fifo_ok_def in_line_def regular_def movable_def vm0_def page0_def)

definition vm1 :: "((nat \<times> pid) list, pid list) vm_sys" where
  "vm1 = vm_page_activate env0 2 (vm_page_deactivate env0 1 (vm_page_activate env0 1 vm0))"

theorem queue_invariant_witness:
  "queues_ok env0 (vm_page_launder env0 3 vm0) \<and> queues_ok env0 (vm_page_activate env0 3 vm0)"
  using queue_invariant [OF vm0_ok(1,2), of 3] by simp

text \<open>
  C11: The inactive queue is first in, first out and the active queue stays empty: in every domain
  the pages wait in the order of the numbers stamped on them when they were queued, and no operation
  of the layer puts a page on the active queue, not even a request to activate or to unwire to it.
\<close>

theorem inactive_fifo:
  assumes ok: "queues_ok E s" and m: "regular s m" and f: "fifo_ok s" and nw: "pg_cnt s < pg_cnt s + 1"
  shows "fifo_ok (vm_page_activate E m s) \<and> fifo_ok (vm_page_deactivate E m s) \<and>
    fifo_ok (vm_page_deactivate_noreuse E m s) \<and> fifo_ok (vm_page_launder E m s) \<and>
    (\<forall>q. queue (pg s m) = PQ_NONE \<longrightarrow> fifo_ok (vm_page_enqueue E q m s)) \<and>
    (queue (pg s m) \<noteq> PQ_NONE \<longrightarrow> fifo_ok (vm_page_dequeue E m s))"
proof -
  have "fifo_ok (vm_page_activate E m s)"
    unfolding activate_eq using bump_ok [OF ok] ok m f nw by (auto intro!: fifo_move)
  moreover have "fifo_ok (vm_page_deactivate_int E m b s)" for b
    unfolding deactivate_eq using ok m f nw by (auto intro!: fifo_move)
  moreover have "fifo_ok (vm_page_launder E m s)"
    unfolding launder_eq using ok m f nw by (auto intro!: fifo_move)
  moreover have "fifo_ok (vm_page_enqueue E q m s)" if "queue (pg s m) = PQ_NONE" for q
  proof (cases "q = PQ_ACTIVE")
    case True
    then show ?thesis using fifo_enqueue [OF ok m that _ f nw, of PQ_INACTIVE] by (simp add: enqueue_active)
  qed (simp add: fifo_enqueue [OF ok m that _ f nw])
  moreover have "queue (pg s m) \<noteq> PQ_NONE \<longrightarrow> fifo_ok (vm_page_dequeue E m s)"
    using fifo_remque [OF ok m f] by (auto simp: vm_page_remque_def)
  ultimately show ?thesis
    by (simp add: vm_page_deactivate_def vm_page_deactivate_noreuse_def)
qed

theorem inactive_fifo_witness: "fifo_ok (vm_page_activate env0 7 vm0)"
  using inactive_fifo [OF vm0_ok(1-3), of 7] by (simp add: vm0_def)

text \<open>
  Where a page goes: activating a page that is not on the active queue, and deactivating a page
  whether its reuse is expected or not, puts it behind all pages of its domain's inactive queue with
  the next number. The hint that the page will not be reused does not bring it near the head.
\<close>

theorem placement_at_tail:
  assumes ok: "queues_ok E s" and m: "regular s m" "movable s m" and na: "queue (pg s m) \<noteq> PQ_ACTIVE"
  shows "\<forall>s'\<in>{vm_page_activate E m s, vm_page_deactivate_noreuse E m s}.
    in_line s' (vm_phys_domain E m) = filter (\<lambda>n. n \<noteq> m) (in_line s (vm_phys_domain E m)) @ [m] \<and>
    queue (pg s' m) = PQ_INACTIVE \<and> pg_id (pg s' m) = pg_cnt s \<and> pg_cnt s' = pg_cnt s + 1"
proof -
  have step: "in_line (vm_page_enqueue E PQ_INACTIVE m (vm_page_remque E m t)) (vm_phys_domain E m) =
        filter (\<lambda>n. n \<noteq> m) (in_line t (vm_phys_domain E m)) @ [m] \<and>
      queue (pg (vm_page_enqueue E PQ_INACTIVE m (vm_page_remque E m t)) m) = PQ_INACTIVE \<and>
      pg_id (pg (vm_page_enqueue E PQ_INACTIVE m (vm_page_remque E m t)) m) = pg_cnt t \<and>
      pg_cnt (vm_page_enqueue E PQ_INACTIVE m (vm_page_remque E m t)) = pg_cnt t + 1"
    if "queues_ok E t" "regular t m" for t
    using that by (simp add: in_line_enqueue in_line_remque enqueue_sel)
  have reg: "regular (bump_act m s) = regular s" by (intro ext) simp
  have w: "in_line (bump_act m s) d = in_line s d" for d by (simp add: in_line_def reg)
  have "vm_page_activate E m s = vm_page_enqueue E PQ_INACTIVE m (vm_page_remque E m (bump_act m s))"
    using m na by (simp add: activate_eq)
  moreover have "vm_page_deactivate_noreuse E m s = vm_page_enqueue E PQ_INACTIVE m (vm_page_remque E m s)"
    using m na by (simp add: vm_page_deactivate_noreuse_def deactivate_eq)
  ultimately show ?thesis
    using step [OF ok m(1)] step [of "bump_act m s"] bump_ok [OF ok, of m] m(1) w by simp
qed

theorem placement_at_tail_witness: "in_line (vm_page_activate env0 5 vm0) 0 = [5]"
  using placement_at_tail [OF vm0_ok(1,2,4), of 5] by (simp add: vm0_def env0_def page0_def in_line_def)

text \<open>
  Wiring takes a page off its queue and unwiring gives it back: the wire count and the number of
  wired pages return to what they were, an already wired page is otherwise untouched, a page that was
  not wired goes to the queue the caller names, pages asked onto the active queue to the inactive one;
  unwiring a page that is not wired panics.
\<close>

theorem wire_unwire:
  assumes ok: "queues_ok E s" and m: "regular s m" "PG_FICTITIOUS \<notin> flags (pg s m)"
    and nw: "wire_count (pg s m) + 1 \<noteq> 0" and ob: "object (pg s m) \<noteq> None" "VPO_UNMANAGED \<notin> oflags (pg s m)"
    and q: "q \<noteq> PQ_NONE"
  shows "(\<exists>s'. vm_page_unwire E m q (vm_page_wire E m s) = Inr (wire_count (pg s m) = 0, s') \<and>
      wire_count (pg s' m) = wire_count (pg s m) \<and> vm_cnt s' v_wire_count = vm_cnt s v_wire_count \<and>
      queue (pg s' m) = (if wire_count (pg s m) \<noteq> 0 then PQ_NONE else if q = PQ_ACTIVE then PQ_INACTIVE else q)) \<and>
    (wire_count (pg s m) = 0 \<longrightarrow> vm_page_unwire E m q s = Inl Kernel_panic)"
proof -
  define w where "w = vm_page_wire E m s"
  have pgw: "pg w = upd_pg (pg s) m (\<lambda>x. x\<lparr>queue := PQ_NONE, wire_count := wire_count x + 1\<rparr>)"
  proof (cases "wire_count (pg s m) = 0")
    case True
    then show ?thesis using m(2) by (simp add: w_def vm_page_wire_def upd_pg_def)
  next
    case False
    then have "queue (pg s m) = PQ_NONE" using queues_okD(3) [OF ok m(1)] by (auto simp: movable_def)
    then have "(pg s m)\<lparr>queue := PQ_NONE\<rparr> = pg s m" by simp
    then show ?thesis using m(2) False by (simp add: w_def vm_page_wire_def upd_pg_def)
  qed
  have rem: "vm_cnt (vm_page_remque E m s) v_wire_count = vm_cnt s v_wire_count"
    by (cases "queue (pg s m)") (simp_all add: vm_page_remque_def vm_page_dequeue_def vm_page_pagequeue_def
      vm_page_in_laundry_def vm_pagequeue_cnt_add_def)
  have cnt: "vm_cnt w v_wire_count = vm_cnt s v_wire_count + (if wire_count (pg s m) = 0 then 1 else 0)"
    using m(2) rem by (simp add: w_def vm_page_wire_def)
  have enq: "vm_cnt (vm_page_enqueue E q m t) v_wire_count = vm_cnt t v_wire_count"
     "pg (vm_page_enqueue E q m t) m = (pg t m)\<lparr>queue := if q = PQ_ACTIVE then PQ_INACTIVE else q,
        pg_id := if q = PQ_INACTIVE \<or> q = PQ_ACTIVE then pg_cnt t else pg_id (pg t m)\<rparr>" for t :: "('a, 'b) vm_sys"
    using q by (cases q; simp add: vm_page_enqueue_def vm_pagequeue_cnt_add_def Let_def)+
  have gt: "0 < wire_count (pg s m) + 1" using nw by (simp add: word_gt_0)
  show ?thesis
    using m(2) pgw cnt enq gt ob q unfolding w_def [symmetric]
    by (cases "wire_count (pg s m) = 0") (auto simp: vm_page_unwire_def Let_def)
qed

theorem wire_unwire_witness:
  "\<exists>s'. vm_page_unwire env0 4 PQ_ACTIVE (vm_page_wire env0 4 vm0) = Inr (True, s') \<and> queue (pg s' 4) = PQ_INACTIVE"
  using wire_unwire [OF vm0_ok(1,2), of 4 PQ_ACTIVE] by (auto simp: vm0_def page0_def)

end
