(* ===== verification/Vm_Object.thy ===== *)
theory Vm_Object
  imports Vm_Queue_Props
begin

text \<open>
  Pages of an object (\<open>src/asgn3/vm/vm_page.c\<close>): insertion, removal, lookup, replacement and
  renaming, and the invariant that ties the sorted list of resident pages, the trie and the pages'
  own fields together. The trie is code outside the repository: its operations are those of
  \<open>vm_env\<close>, and \<open>radix_laws\<close> states what they promise.

  \<open>vhold\<close> and \<open>vdrop\<close> are counted in \<open>vnode_holds\<close>.
\<close>

section \<open>Operations\<close>

definition upd_obj :: "oid \<Rightarrow> ('r vm_object \<Rightarrow> 'r vm_object) \<Rightarrow> ('r, 'p) vm_sys \<Rightarrow> ('r, 'p) vm_sys" where
  "upd_obj ob f s = s\<lparr>objs := (objs s)(ob := f (objs s ob))\<rparr>"

lemma upd_obj_sel [simp]:
  "pg (upd_obj ob f s) = pg s" "objs (upd_obj ob f s) = (objs s)(ob := f (objs s ob))"
  "vmd (upd_obj ob f s) = vmd s" "vm_cnt (upd_obj ob f s) = vm_cnt s" "pg_cnt (upd_obj ob f s) = pg_cnt s"
  "phys (upd_obj ob f s) = phys s"
  by (simp_all add: upd_obj_def)

definition vm_page_insert_radixdone ::
    "('r, 'p) vm_env \<Rightarrow> pid \<Rightarrow> oid \<Rightarrow> pid option \<Rightarrow> ('r, 'p) vm_sys \<Rightarrow> ('r, 'p) vm_sys" where
  "vm_page_insert_radixdone E m ob mpred s =
    upd_obj ob (\<lambda>b. b\<lparr>
      memq := (case mpred of Some p \<Rightarrow> tailq_insert_after p m (memq b) | None \<Rightarrow> tailq_insert_head m (memq b)),
      resident_page_count := resident_page_count b + 1,
      vnode_holds := vnode_holds b + (if resident_page_count b + 1 = 1 \<and> otype b = OBJT_VNODE then 1 else 0),
      writeable_dirty := writeable_dirty b \<or> pmap_page_is_write_mapped E m\<rparr>) s"

definition vm_page_insert_after ::
    "('r, 'p) vm_env \<Rightarrow> pid \<Rightarrow> oid \<Rightarrow> nat \<Rightarrow> pid option \<Rightarrow> ('r, 'p) vm_sys \<Rightarrow> bool \<times> ('r, 'p) vm_sys" where
  "vm_page_insert_after E m ob i mpred s =
    (let s1 = upd_page m (\<lambda>x. x\<lparr>object := Some ob, pindex := i\<rparr>) s
     in case vm_radix_insert E (rtree (objs s1 ob)) i m of
          None \<Rightarrow> (True, upd_page m (\<lambda>x. x\<lparr>object := None, pindex := 0\<rparr>) s1)
        | Some r \<Rightarrow> (False, vm_page_insert_radixdone E m ob mpred (upd_obj ob (\<lambda>b. b\<lparr>rtree := r\<rparr>) s1)))"

definition vm_page_insert ::
    "('r, 'p) vm_env \<Rightarrow> pid \<Rightarrow> oid \<Rightarrow> nat \<Rightarrow> ('r, 'p) vm_sys \<Rightarrow> bool \<times> ('r, 'p) vm_sys" where
  "vm_page_insert E m ob i s =
    vm_page_insert_after E m ob i (vm_radix_lookup_le E (rtree (objs s ob)) i) s"

text \<open>Giving up the exclusive hold, in one step; the wakeup of the waiters is the subject of \<open>Vm_Busy\<close>.\<close>

definition vm_page_xunbusy_maybelocked :: "vm_page \<Rightarrow> vm_page" where
  "vm_page_xunbusy_maybelocked x =
    (case vm_page_xunbusy (busy_lock x) of
       (w, Done _ _) \<Rightarrow> x\<lparr>busy_lock := w\<rparr>
     | (w, _) \<Rightarrow> x\<lparr>busy_lock := fst (vm_page_xunbusy_locked w)\<rparr>)"

definition vm_page_remove :: "('r, 'p) vm_env \<Rightarrow> pid \<Rightarrow> ('r, 'p) vm_sys \<Rightarrow> ('r, 'p) vm_sys" where
  "vm_page_remove E m s =
    (case object (pg s m) of
       None \<Rightarrow> s
     | Some ob \<Rightarrow>
         (let s1 = (if vm_page_xbusied (busy_lock (pg s m)) then upd_page m vm_page_xunbusy_maybelocked s else s);
              s2 = upd_obj ob (\<lambda>b. b\<lparr>
                rtree := vm_radix_remove E (rtree b) (pindex (pg s1 m)),
                memq := tailq_remove m (memq b),
                resident_page_count := resident_page_count b - 1,
                vnode_holds := vnode_holds b -
                  (if resident_page_count b - 1 = 0 \<and> otype b = OBJT_VNODE then 1 else 0)\<rparr>) s1
          in upd_page m (\<lambda>x. x\<lparr>object := None\<rparr>) s2))"

definition vm_page_lookup :: "('r, 'p) vm_env \<Rightarrow> ('r, 'p) vm_sys \<Rightarrow> oid \<Rightarrow> nat \<Rightarrow> pid option" where
  "vm_page_lookup E s ob i = vm_radix_lookup E (rtree (objs s ob)) i"

definition vm_page_find_least :: "('r, 'p) vm_env \<Rightarrow> ('r, 'p) vm_sys \<Rightarrow> oid \<Rightarrow> nat \<Rightarrow> pid option" where
  "vm_page_find_least E s ob i =
    (case tailq_first (memq (objs s ob)) of
       None \<Rightarrow> None
     | Some m \<Rightarrow> if pindex (pg s m) < i then vm_radix_lookup_ge E (rtree (objs s ob)) i else Some m)"

definition vm_page_next :: "('r, 'p) vm_sys \<Rightarrow> pid \<Rightarrow> pid option" where
  "vm_page_next s m =
    (case object (pg s m) of
       None \<Rightarrow> None
     | Some ob \<Rightarrow> (case tailq_next m (memq (objs s ob)) of
         None \<Rightarrow> None
       | Some n \<Rightarrow> if pindex (pg s n) \<noteq> pindex (pg s m) + 1 then None else Some n))"

definition vm_page_prev :: "('r, 'p) vm_sys \<Rightarrow> pid \<Rightarrow> pid option" where
  "vm_page_prev s m =
    (case object (pg s m) of
       None \<Rightarrow> None
     | Some ob \<Rightarrow> (case tailq_prev m (memq (objs s ob)) of
         None \<Rightarrow> None
       | Some n \<Rightarrow> if pindex (pg s n) + 1 \<noteq> pindex (pg s m) then None else Some n))"

definition vm_page_replace ::
    "('r, 'p) vm_env \<Rightarrow> pid \<Rightarrow> oid \<Rightarrow> nat \<Rightarrow> ('r, 'p) vm_sys \<Rightarrow> fault + (pid \<times> ('r, 'p) vm_sys)" where
  "vm_page_replace E mnew ob i s =
    (let s1 = upd_page mnew (\<lambda>x. x\<lparr>object := Some ob, pindex := i\<rparr>) s
     in case vm_radix_replace E (rtree (objs s1 ob)) i mnew of
          (_, None) \<Rightarrow> Inl Kernel_panic
        | (r, Some mold) \<Rightarrow>
            (let s2 = upd_obj ob (\<lambda>b. b\<lparr>rtree := r,
                   memq := tailq_remove mold (tailq_insert_after mold mnew (memq b))\<rparr>) s1;
                 s3 = upd_page mold (\<lambda>x. vm_page_xunbusy_maybelocked (x\<lparr>object := None\<rparr>)) s2
             in Inr (mold, if pmap_page_is_write_mapped E mnew
                           then upd_obj ob (\<lambda>b. b\<lparr>writeable_dirty := True\<rparr>) s3 else s3)))"

definition vm_page_rename ::
    "('r, 'p) vm_env \<Rightarrow> pid \<Rightarrow> oid \<Rightarrow> nat \<Rightarrow> ('r, 'p) vm_sys \<Rightarrow> bool \<times> ('r, 'p) vm_sys" where
  "vm_page_rename E m ob i s =
    (let mpred = vm_radix_lookup_le E (rtree (objs s ob)) i;
         opidx = pindex (pg s m);
         s1 = upd_page m (\<lambda>x. x\<lparr>pindex := i\<rparr>) s
     in case vm_radix_insert E (rtree (objs s1 ob)) i m of
          None \<Rightarrow> (True, upd_page m (\<lambda>x. x\<lparr>pindex := opidx\<rparr>) s1)
        | Some r \<Rightarrow>
            (let s2 = upd_page m (\<lambda>x. x\<lparr>pindex := opidx\<rparr>) (upd_obj ob (\<lambda>b. b\<lparr>rtree := r\<rparr>) s1);
                 s3 = vm_page_remove E m s2;
                 s4 = upd_page m (\<lambda>x. x\<lparr>pindex := i, object := Some ob\<rparr>) s3;
                 s5 = vm_page_insert_radixdone E m ob mpred s4
             in (False, upd_page m vm_page_dirty s5)))"

section \<open>What the trie promises\<close>

definition radix_laws :: "('r, 'p) vm_env \<Rightarrow> ('r \<Rightarrow> nat \<Rightarrow> pid option) \<Rightarrow> bool" where
  "radix_laws E view \<longleftrightarrow>
    (\<forall>r i. vm_radix_lookup E r i = view r i) \<and>
    (\<forall>r i. case vm_radix_lookup_le E r i of
       None \<Rightarrow> \<forall>j\<le>i. view r j = None
     | Some m \<Rightarrow> \<exists>j\<le>i. view r j = Some m \<and> (\<forall>k. j < k \<and> k \<le> i \<longrightarrow> view r k = None)) \<and>
    (\<forall>r i. case vm_radix_lookup_ge E r i of
       None \<Rightarrow> \<forall>j\<ge>i. view r j = None
     | Some m \<Rightarrow> \<exists>j\<ge>i. view r j = Some m \<and> (\<forall>k. i \<le> k \<and> k < j \<longrightarrow> view r k = None)) \<and>
    (\<forall>r i m r'. view r i = None \<and> vm_radix_insert E r i m = Some r' \<longrightarrow> view r' = (view r)(i \<mapsto> m)) \<and>
    (\<forall>r i. view (vm_radix_remove E r i) = (view r)(i := None)) \<and>
    (\<forall>r i m. view r i \<noteq> None \<longrightarrow> view (fst (vm_radix_replace E r i m)) = (view r)(i \<mapsto> m)) \<and>
    (\<forall>r i m. snd (vm_radix_replace E r i m) = view r i)"

section \<open>Invariant\<close>

text \<open>
  The pages of an object are exactly those whose field names it; its list is sorted strictly by index,
  the trie maps each index to its page, and the count is the length of the list.
\<close>

definition object_ok :: "('r \<Rightarrow> nat \<Rightarrow> pid option) \<Rightarrow> pages \<Rightarrow> oid \<Rightarrow> 'r vm_object \<Rightarrow> bool" where
  "object_ok view P ob b \<longleftrightarrow>
    sorted_wrt (<) (map (\<lambda>m. pindex (P m)) (memq b)) \<and>
    (\<forall>m. m \<in> set (memq b) \<longleftrightarrow> object (P m) = Some ob) \<and>
    (\<forall>i m. view (rtree b) i = Some m \<longleftrightarrow> m \<in> set (memq b) \<and> pindex (P m) = i) \<and>
    resident_page_count b = int (length (memq b))"

definition objs_ok :: "('r \<Rightarrow> nat \<Rightarrow> pid option) \<Rightarrow> ('r, 'p) vm_sys \<Rightarrow> bool" where
  "objs_ok view s \<longleftrightarrow> (\<forall>ob. object_ok view (pg s) ob (objs s ob))"

lemma object_okI:
  assumes "sorted_wrt (<) (map (\<lambda>m. pindex (P m)) (memq b))"
    and "\<And>m. m \<in> set (memq b) \<longleftrightarrow> object (P m) = Some ob"
    and "\<And>i m. view (rtree b) i = Some m \<longleftrightarrow> m \<in> set (memq b) \<and> pindex (P m) = i"
    and "resident_page_count b = int (length (memq b))"
  shows "object_ok view P ob b"
  using assms unfolding object_ok_def by blast

lemma object_okD:
  assumes "object_ok view P ob b"
  shows "sorted_wrt (<) (map (\<lambda>m. pindex (P m)) (memq b))"
    and "m \<in> set (memq b) \<longleftrightarrow> object (P m) = Some ob"
    and "view (rtree b) i = Some m \<longleftrightarrow> m \<in> set (memq b) \<and> pindex (P m) = i"
    and "resident_page_count b = int (length (memq b))"
  using assms unfolding object_ok_def by blast+

lemma sorted_map_cong:
  assumes "\<And>x. x \<in> set q \<Longrightarrow> f x = g x" and "sorted_wrt (<) (map (g :: pid \<Rightarrow> nat) q)"
  shows "sorted_wrt (<) (map f q)"
proof -
  have "map f q = map g q" using assms(1) by (rule map_cong [OF refl])
  then show ?thesis by (simp only: assms(2))
qed

lemma object_ok_other:
  assumes ok: "object_ok view P ob b"
    and P: "\<And>n. n \<noteq> m \<Longrightarrow> object (P' n) = object (P n) \<and> pindex (P' n) = pindex (P n)"
    and m: "object (P m) \<noteq> Some ob" "object (P' m) \<noteq> Some ob"
    and b: "memq b' = memq b" "rtree b' = rtree b" "resident_page_count b' = resident_page_count b"
  shows "object_ok view P' ob b'"
proof -
  have out: "m \<notin> set (memq b)" using object_okD(2) [OF ok] m(1) by simp
  have pi: "n \<in> set (memq b) \<Longrightarrow> pindex (P' n) = pindex (P n)" for n using P out by metis
  show ?thesis
  proof (rule object_okI)
    show "sorted_wrt (<) (map (\<lambda>m. pindex (P' m)) (memq b'))"
      unfolding b by (rule sorted_map_cong [OF pi object_okD(1) [OF ok]])
    show "n \<in> set (memq b') \<longleftrightarrow> object (P' n) = Some ob" for n
      using object_okD(2) [OF ok, of n] P [of n] m out by (cases "n = m") (auto simp: b)
    show "view (rtree b') i = Some n \<longleftrightarrow> n \<in> set (memq b') \<and> pindex (P' n) = i" for i n
      using object_okD(3) [OF ok] pi by (auto simp: b)
    show "resident_page_count b' = int (length (memq b'))" using object_okD(4) [OF ok] by (simp add: b)
  qed
qed

lemma object_ok_same:
  assumes ok: "object_ok view P ob b"
    and P: "\<And>n. object (P' n) = object (P n) \<and> pindex (P' n) = pindex (P n)"
    and b: "memq b' = memq b" "rtree b' = rtree b" "resident_page_count b' = resident_page_count b"
  shows "object_ok view P' ob b'"
  using ok unfolding object_ok_def b P [THEN conjunct1] P [THEN conjunct2] .

lemma upd_page_objs_ok:
  assumes "objs_ok view s" and f: "\<And>x. object (f x) = object x \<and> pindex (f x) = pindex x"
  shows "objs_ok view (upd_page m f s)"
proof -
  have "object (pg (upd_page m f s) n) = object (pg s n) \<and> pindex (pg (upd_page m f s) n) = pindex (pg s n)" for n
    using f by (simp add: upd_pg_def)
  note same = object_ok_same [OF _ this refl refl refl]
  show ?thesis
    unfolding objs_ok_def
  proof
    fix ob
    show "object_ok view (pg (upd_page m f s)) ob (objs (upd_page m f s) ob)"
      unfolding upd_page_sel(2) by (rule same) (use assms(1) in \<open>simp add: objs_ok_def\<close>)
  qed
qed

section \<open>Sorted lists\<close>

lemma set_insert_after: "p \<in> set q \<Longrightarrow> set (tailq_insert_after p m q) = insert m (set q)"
  by (induction q) auto

lemma length_insert_after: "p \<in> set q \<Longrightarrow> length (tailq_insert_after p m q) = Suc (length q)"
  by (induction q) auto

lemma sorted_insert_after:
  fixes f :: "pid \<Rightarrow> nat"
  shows "sorted_wrt (<) (map f q) \<Longrightarrow> p \<in> set q \<Longrightarrow> f p < f m \<Longrightarrow> \<forall>x\<in>set q. f p < f x \<longrightarrow> f m < f x \<Longrightarrow>
    sorted_wrt (<) (map f (tailq_insert_after p m q))"
proof (induction q)
  case (Cons y q)
  show ?case
  proof (cases "y = p")
    case True
    then show ?thesis using Cons.prems by auto
  next
    case False
    then have p: "p \<in> set q" using Cons.prems(2) by simp
    have "sorted_wrt (<) (map f (tailq_insert_after p m q))" using Cons p by auto
    moreover have "f y < f p" using Cons.prems(1) p by simp
    ultimately show ?thesis using False Cons.prems(1,3) by (auto simp: set_insert_after [OF p])
  qed
qed simp

lemma sorted_distinct: "sorted_wrt (<) (map (f :: pid \<Rightarrow> nat) q) \<Longrightarrow> distinct q"
  by (induction q) auto

lemma sorted_remove1: "sorted_wrt (<) (map (f :: pid \<Rightarrow> nat) q) \<Longrightarrow> sorted_wrt (<) (map f (remove1 m q))"
proof (induction q)
  case (Cons a q)
  then show ?case using set_remove1_subset [of m q] by auto
qed simp

section \<open>Linking and unlinking a page\<close>

lemma link_ok:
  assumes laws: "radix_laws E view" and ok: "object_ok view P ob b"
    and m: "object (P m) = None" and free: "view (rtree b) i = None"
    and P: "\<And>n. n \<noteq> m \<Longrightarrow> object (P' n) = object (P n) \<and> pindex (P' n) = pindex (P n)"
    and P'm: "object (P' m) = Some ob" "pindex (P' m) = i"
    and r: "vm_radix_insert E (rtree b) i m = Some r"
    and b': "rtree b' = r" "memq b' = (case vm_radix_lookup_le E (rtree b) i of
        Some p \<Rightarrow> tailq_insert_after p m (memq b) | None \<Rightarrow> tailq_insert_head m (memq b))"
      "resident_page_count b' = resident_page_count b + 1"
  shows "object_ok view P' ob b'"
proof -
  note D = object_okD [OF ok]
  let ?f = "\<lambda>m. pindex (P' m)"
  have out: "m \<notin> set (memq b)" using D(2) m by simp
  have pi: "n \<in> set (memq b) \<Longrightarrow> pindex (P' n) = pindex (P n)" for n using P out by metis
  have sorted: "sorted_wrt (<) (map ?f (memq b))" by (rule sorted_map_cong [OF pi D(1)])
  have v: "view r = (view (rtree b))(i \<mapsto> m)" using laws free r unfolding radix_laws_def by blast
  have le: "case vm_radix_lookup_le E (rtree b) i of None \<Rightarrow> \<forall>j\<le>i. view (rtree b) j = None
     | Some m \<Rightarrow> \<exists>j\<le>i. view (rtree b) j = Some m \<and> (\<forall>k. j < k \<and> k \<le> i \<longrightarrow> view (rtree b) k = None)"
    using laws unfolding radix_laws_def by blast
  have shape: "sorted_wrt (<) (map ?f (memq b')) \<and> set (memq b') = insert m (set (memq b)) \<and>
      length (memq b') = Suc (length (memq b))"
  proof (cases "vm_radix_lookup_le E (rtree b) i")
    case None
    have gt: "i < pindex (P n)" if "n \<in> set (memq b)" for n
    proof (rule ccontr)
      assume "\<not> i < pindex (P n)"
      moreover have "view (rtree b) (pindex (P n)) = Some n" using D(3) that by simp
      ultimately show False using le None by simp
    qed
    then show ?thesis
      using None sorted pi by (auto simp: b' tailq_insert_head_def P'm(2))
  next
    case (Some p)
    then obtain j where j: "j \<le> i" "view (rtree b) j = Some p" and gap: "\<forall>k. j < k \<and> k \<le> i \<longrightarrow> view (rtree b) k = None"
      using le by auto
    have p: "p \<in> set (memq b)" "pindex (P p) = j" using D(3) j(2) by auto
    have "j \<noteq> i" using j free by auto
    then have lt: "?f p < ?f m" using j(1) p pi P'm(2) by simp
    have "?f m < ?f x" if x: "x \<in> set (memq b)" "?f p < ?f x" for x
    proof (rule ccontr)
      assume "\<not> ?f m < ?f x"
      then have "j < pindex (P x)" "pindex (P x) \<le> i" using x pi p P'm(2) by auto
      moreover have "view (rtree b) (pindex (P x)) = Some x" using D(3) x(1) by simp
      ultimately show False using gap by simp
    qed
    then show ?thesis
      using sorted_insert_after [OF sorted p(1) lt] set_insert_after [OF p(1)] length_insert_after [OF p(1)] Some
      by (simp add: b')
  qed
  show ?thesis
  proof (rule object_okI)
    show "sorted_wrt (<) (map (\<lambda>m. pindex (P' m)) (memq b'))" using shape by simp
    show "n \<in> set (memq b') \<longleftrightarrow> object (P' n) = Some ob" for n
      using shape D(2) [of n] P [of n] P'm by (cases "n = m") auto
    show "view (rtree b') k = Some n \<longleftrightarrow> n \<in> set (memq b') \<and> pindex (P' n) = k" for k n
      using shape D(3) [of k n] pi [of n] P'm out free D(3) [of i n] by (cases "n = m") (auto simp: b' v)
    show "resident_page_count b' = int (length (memq b'))" using shape D(4) by (simp add: b')
  qed
qed

lemma int_Suc_pred: "0 < n \<Longrightarrow> int (n - Suc 0) = int n - 1"
  by auto

lemma unlink_ok:
  assumes laws: "radix_laws E view" and ok: "object_ok view P ob b" and m: "object (P m) = Some ob"
    and P: "\<And>n. n \<noteq> m \<Longrightarrow> object (P' n) = object (P n) \<and> pindex (P' n) = pindex (P n)"
    and P'm: "object (P' m) \<noteq> Some ob"
    and b': "rtree b' = vm_radix_remove E (rtree b) (pindex (P m))" "memq b' = tailq_remove m (memq b)"
      "resident_page_count b' = resident_page_count b - 1"
  shows "object_ok view P' ob b'"
proof -
  note D = object_okD [OF ok]
  have mem: "m \<in> set (memq b)" using D(2) m by simp
  have dis: "distinct (memq b)" using sorted_distinct [OF D(1)] .
  have v: "view (rtree b') = (view (rtree b))(pindex (P m) := None)" using laws by (simp add: radix_laws_def b')
  have set': "set (memq b') = set (memq b) - {m}" using dis by (simp add: b')
  have pi: "n \<in> set (memq b') \<Longrightarrow> pindex (P' n) = pindex (P n)" for n using P set' by auto
  have inj: "view (rtree b) (pindex (P m)) = Some m" using D(3) mem by simp
  show ?thesis
  proof (rule object_okI)
    have "sorted_wrt (<) (map (\<lambda>m. pindex (P m)) (memq b'))"
      using sorted_remove1 [OF D(1)] by (simp add: b' tailq_remove_def)
    then show "sorted_wrt (<) (map (\<lambda>m. pindex (P' m)) (memq b'))"
      by (rule sorted_map_cong [rotated]) (rule pi)
    show "n \<in> set (memq b') \<longleftrightarrow> object (P' n) = Some ob" for n
      using D(2) [of n] P [of n] P'm by (cases "n = m") (auto simp: set')
    show "view (rtree b') k = Some n \<longleftrightarrow> n \<in> set (memq b') \<and> pindex (P' n) = k" for k n
    proof (cases "n = m")
      case True
      then show ?thesis using D(3) [of k m] by (auto simp: set' v)
    next
      case False
      then show ?thesis using D(3) [of k n] P [OF False] inj by (auto simp: set' v)
    qed
    show "resident_page_count b' = int (length (memq b'))"
      using D(4) mem int_Suc_pred [OF length_pos_if_in_set [OF mem]]
      by (simp add: b' tailq_remove_def length_remove1)
  qed
qed

lemma objs_okD: "objs_ok view s \<Longrightarrow> object_ok view (pg s) ob (objs s ob)"
  by (simp add: objs_ok_def)

lemma insert_state:
  assumes "vm_radix_insert E (rtree (objs s ob)) i m = Some r"
  shows "fst (vm_page_insert E m ob i s) = False"
    and "pg (snd (vm_page_insert E m ob i s)) = upd_pg (pg s) m (\<lambda>x. x\<lparr>object := Some ob, pindex := i\<rparr>)"
    and "a \<noteq> ob \<Longrightarrow> objs (snd (vm_page_insert E m ob i s)) a = objs s a"
    and "rtree (objs (snd (vm_page_insert E m ob i s)) ob) = r"
    and "memq (objs (snd (vm_page_insert E m ob i s)) ob) = (case vm_radix_lookup_le E (rtree (objs s ob)) i of
        Some p \<Rightarrow> tailq_insert_after p m (memq (objs s ob)) | None \<Rightarrow> tailq_insert_head m (memq (objs s ob)))"
    and "resident_page_count (objs (snd (vm_page_insert E m ob i s)) ob) = resident_page_count (objs s ob) + 1"
    and "vmd (snd (vm_page_insert E m ob i s)) = vmd s"
  using assms
  by (simp_all add: vm_page_insert_def vm_page_insert_after_def vm_page_insert_radixdone_def Let_def
      split: option.split)

lemma insert_ok:
  assumes laws: "radix_laws E view" and ok: "objs_ok view s"
    and m: "object (pg s m) = None" and free: "view (rtree (objs s ob)) i = None"
    and r: "vm_radix_insert E (rtree (objs s ob)) i m = Some r"
  shows "objs_ok view (snd (vm_page_insert E m ob i s))"
  unfolding objs_ok_def
proof
  fix a
  let ?s = "snd (vm_page_insert E m ob i s)"
  note st = insert_state [OF r]
  have P: "object (pg ?s n) = object (pg s n) \<and> pindex (pg ?s n) = pindex (pg s n)" if "n \<noteq> m" for n
    using that by (simp add: st)
  show "object_ok view (pg ?s) a (objs ?s a)"
  proof (cases "a = ob")
    case True
    then show ?thesis
      using link_ok [OF laws objs_okD [OF ok] m free P _ _ r st(4-6)] by (simp add: st(2))
  next
    case False
    then show ?thesis
      using object_ok_other [OF objs_okD [OF ok, of a] P] m by (simp add: st)
  qed
qed

lemma xunbusy_maybelocked_sel [simp]:
  "object (vm_page_xunbusy_maybelocked x) = object x" "pindex (vm_page_xunbusy_maybelocked x) = pindex x"
  "queue (vm_page_xunbusy_maybelocked x) = queue x" "flags (vm_page_xunbusy_maybelocked x) = flags x"
  "oflags (vm_page_xunbusy_maybelocked x) = oflags x" "wire_count (vm_page_xunbusy_maybelocked x) = wire_count x"
  "hold_count (vm_page_xunbusy_maybelocked x) = hold_count x" "valid (vm_page_xunbusy_maybelocked x) = valid x"
  "dirty (vm_page_xunbusy_maybelocked x) = dirty x"
  by (auto simp: vm_page_xunbusy_maybelocked_def split: prod.splits outcome.splits)

lemma xunbusy_maybelocked_free: "busy_lock (vm_page_xunbusy_maybelocked x) = VPB_UNBUSIED"
  by (simp add: vm_page_xunbusy_maybelocked_def vm_page_xunbusy_def vm_page_xunbusy_locked_def cmpset_def)

lemma remove_state:
  assumes "object (pg s m) = Some ob"
  shows "objs (vm_page_remove E m s) = (objs s)(ob := (objs s ob)\<lparr>
      rtree := vm_radix_remove E (rtree (objs s ob)) (pindex (pg s m)), memq := tailq_remove m (memq (objs s ob)),
      resident_page_count := resident_page_count (objs s ob) - 1,
      vnode_holds := vnode_holds (objs s ob) -
        (if resident_page_count (objs s ob) - 1 = 0 \<and> otype (objs s ob) = OBJT_VNODE then 1 else 0)\<rparr>)"
    and "n \<noteq> m \<Longrightarrow> pg (vm_page_remove E m s) n = pg s n"
  using assms by (simp_all add: vm_page_remove_def Let_def)

lemma remove_page [simp]:
  "object (pg (vm_page_remove E m s) m) = None" "pindex (pg (vm_page_remove E m s) n) = pindex (pg s n)"
  "queue (pg (vm_page_remove E m s) n) = queue (pg s n)" "flags (pg (vm_page_remove E m s) n) = flags (pg s n)"
  "oflags (pg (vm_page_remove E m s) n) = oflags (pg s n)"
  "wire_count (pg (vm_page_remove E m s) n) = wire_count (pg s n)"
  "hold_count (pg (vm_page_remove E m s) n) = hold_count (pg s n)"
  "vmd (vm_page_remove E m s) = vmd s" "vm_cnt (vm_page_remove E m s) = vm_cnt s" "phys (vm_page_remove E m s) = phys s"
  by (auto simp: vm_page_remove_def Let_def upd_pg_def split: option.splits)

lemma remove_ok:
  assumes laws: "radix_laws E view" and ok: "objs_ok view s"
  shows "objs_ok view (vm_page_remove E m s)"
proof (cases "object (pg s m)")
  case None
  then show ?thesis using ok by (simp add: vm_page_remove_def)
next
  case (Some ob)
  let ?s = "vm_page_remove E m s"
  have P: "object (pg ?s n) = object (pg s n) \<and> pindex (pg ?s n) = pindex (pg s n)" if "n \<noteq> m" for n
    using remove_state(2) [OF Some that] by simp
  show ?thesis
    unfolding objs_ok_def
  proof
    fix a
    show "object_ok view (pg ?s) a (objs ?s a)"
    proof (cases "a = ob")
      case True
      show ?thesis
        unfolding True by (rule unlink_ok [OF laws objs_okD [OF ok] Some P]) (simp_all add: remove_state(1) [OF Some])
    next
      case False
      show ?thesis
        by (rule object_ok_other [OF objs_okD [OF ok, of a] P]) (use False Some in \<open>auto simp: remove_state(1) [OF Some]\<close>)
    qed
  qed
qed

lemma rename_state:
  assumes r: "vm_radix_insert E (rtree (objs s ob)) i m = Some r" and m: "object (pg s m) = Some oa" and ne: "oa \<noteq> ob"
  shows "fst (vm_page_rename E m ob i s) = False"
    and "object (pg (snd (vm_page_rename E m ob i s)) m) = Some ob"
    and "pindex (pg (snd (vm_page_rename E m ob i s)) m) = i"
    and "dirty (pg (snd (vm_page_rename E m ob i s)) m) = VM_PAGE_BITS_ALL"
    and "n \<noteq> m \<Longrightarrow> pg (snd (vm_page_rename E m ob i s)) n = pg s n"
    and "objs (snd (vm_page_rename E m ob i s)) oa = objs (vm_page_remove E m s) oa"
    and "a \<noteq> oa \<Longrightarrow> a \<noteq> ob \<Longrightarrow> objs (snd (vm_page_rename E m ob i s)) a = objs s a"
    and "rtree (objs (snd (vm_page_rename E m ob i s)) ob) = r"
    and "memq (objs (snd (vm_page_rename E m ob i s)) ob) = (case vm_radix_lookup_le E (rtree (objs s ob)) i of
        Some p \<Rightarrow> tailq_insert_after p m (memq (objs s ob)) | None \<Rightarrow> tailq_insert_head m (memq (objs s ob)))"
    and "resident_page_count (objs (snd (vm_page_rename E m ob i s)) ob) = resident_page_count (objs s ob) + 1"
proof -
  define s2 where "s2 = upd_page m (\<lambda>x. x\<lparr>pindex := pindex (pg s m)\<rparr>)
    (upd_obj ob (\<lambda>b. b\<lparr>rtree := r\<rparr>) (upd_page m (\<lambda>x. x\<lparr>pindex := i\<rparr>) s))"
  have e: "vm_page_rename E m ob i s = (False, upd_page m vm_page_dirty
      (vm_page_insert_radixdone E m ob (vm_radix_lookup_le E (rtree (objs s ob)) i)
        (upd_page m (\<lambda>x. x\<lparr>pindex := i, object := Some ob\<rparr>) (vm_page_remove E m s2))))"
    using r by (simp add: vm_page_rename_def Let_def s2_def)
  have pg2: "pg s2 = pg s"
    unfolding s2_def by (simp add: upd_pg_def fun_eq_iff)
  have m2: "object (pg s2 m) = Some oa" using m by (simp add: pg2)
  note R = remove_state [OF m2]
  have o2: "objs s2 = (objs s)(ob := (objs s ob)\<lparr>rtree := r\<rparr>)" by (simp add: s2_def)
  show "fst (vm_page_rename E m ob i s) = False" by (simp add: e)
  show "object (pg (snd (vm_page_rename E m ob i s)) m) = Some ob"
    "pindex (pg (snd (vm_page_rename E m ob i s)) m) = i"
    "dirty (pg (snd (vm_page_rename E m ob i s)) m) = VM_PAGE_BITS_ALL"
    by (simp_all add: e vm_page_insert_radixdone_def vm_page_dirty_def)
  show "pg (snd (vm_page_rename E m ob i s)) n = pg s n" if "n \<noteq> m"
    using that by (simp add: e vm_page_insert_radixdone_def R(2) pg2)
  show "objs (snd (vm_page_rename E m ob i s)) oa = objs (vm_page_remove E m s) oa"
    using ne by (simp add: e vm_page_insert_radixdone_def R(1) pg2 o2 remove_state(1) [OF m])
  show "objs (snd (vm_page_rename E m ob i s)) a = objs s a" if "a \<noteq> oa" "a \<noteq> ob"
    using that by (simp add: e vm_page_insert_radixdone_def R(1) pg2 o2)
  show "rtree (objs (snd (vm_page_rename E m ob i s)) ob) = r"
    "memq (objs (snd (vm_page_rename E m ob i s)) ob) = (case vm_radix_lookup_le E (rtree (objs s ob)) i of
        Some p \<Rightarrow> tailq_insert_after p m (memq (objs s ob)) | None \<Rightarrow> tailq_insert_head m (memq (objs s ob)))"
    "resident_page_count (objs (snd (vm_page_rename E m ob i s)) ob) = resident_page_count (objs s ob) + 1"
    using ne by (simp_all add: e vm_page_insert_radixdone_def R(1) pg2 o2 split: option.split)
qed

lemma rename_ok:
  assumes laws: "radix_laws E view" and ok: "objs_ok view s"
    and m: "object (pg s m) = Some oa" and ne: "oa \<noteq> ob" and free: "view (rtree (objs s ob)) i = None"
    and r: "vm_radix_insert E (rtree (objs s ob)) i m = Some r"
  shows "objs_ok view (snd (vm_page_rename E m ob i s))"
  unfolding objs_ok_def
proof
  fix a
  let ?s = "snd (vm_page_rename E m ob i s)"
  note st = rename_state [OF r m ne]
  have P: "object (pg ?s n) = object (pg s n) \<and> pindex (pg ?s n) = pindex (pg s n)" if "n \<noteq> m" for n
    using st(5) [OF that] by simp
  show "object_ok view (pg ?s) a (objs ?s a)"
  proof (cases "a = ob")
    case True
    define Q where "Q = (pg s)(m := (pg s m)\<lparr>object := None\<rparr>)"
    have Q: "object_ok view Q ob (objs s ob)"
      by (rule object_ok_other [OF objs_okD [OF ok, of ob], of m]) (use m ne in \<open>auto simp: Q_def\<close>)
    have "object_ok view (pg ?s) ob (objs ?s ob)"
      by (rule link_ok [where P = Q and P' = "pg ?s" and m = m and i = i, OF laws Q _ free _ st(2,3) r st(8-10)])
        (use P in \<open>auto simp: Q_def\<close>)
    then show ?thesis by (simp add: True)
  next
    case False
    show ?thesis
    proof (cases "a = oa")
      case True
      have "object_ok view (pg ?s) oa (objs ?s oa)"
        by (rule unlink_ok [OF laws objs_okD [OF ok, of oa] m P])
          (use ne in \<open>simp_all add: st remove_state(1) [OF m]\<close>)
      then show ?thesis by (simp add: True)
    next
      case na: False
      show ?thesis
        by (rule object_ok_other [OF objs_okD [OF ok, of a] P]) (use na False m in \<open>auto simp: st\<close>)
    qed
  qed
qed

lemma replace_list:
  assumes "distinct q" "mold \<in> set q" "mnew \<notin> set q"
  shows "tailq_remove mold (tailq_insert_after mold mnew q) = map (\<lambda>x. if x = mold then mnew else x) q"
  using assms
proof (induction q)
  case (Cons y q)
  show ?case
  proof (cases "y = mold")
    case True
    then have "map (\<lambda>x. if x = mold then mnew else x) q = q" using Cons.prems(1) by (intro map_idI) auto
    then show ?thesis using True Cons.prems by (simp add: tailq_remove_def)
  next
    case False
    then show ?thesis using Cons by (auto simp: tailq_remove_def)
  qed
qed simp

lemma replace_ok:
  assumes laws: "radix_laws E view" and ok: "objs_ok view s" and m: "object (pg s mnew) = None"
    and old: "view (rtree (objs s ob)) i = Some mold"
  shows "\<exists>s'. vm_page_replace E mnew ob i s = Inr (mold, s') \<and> objs_ok view s' \<and> object (pg s' mold) = None \<and>
    view (rtree (objs s' ob)) = (view (rtree (objs s ob)))(i \<mapsto> mnew)"
proof -
  note D = object_okD [OF objs_okD [OF ok, of ob]]
  define r where "r = fst (vm_radix_replace E (rtree (objs s ob)) i mnew)"
  have rep: "vm_radix_replace E (rtree (objs s ob)) i mnew = (r, Some mold)"
    using laws old unfolding radix_laws_def r_def by (simp add: prod_eq_iff)
  have v: "view r = (view (rtree (objs s ob)))(i \<mapsto> mnew)"
    using laws old unfolding radix_laws_def r_def by blast
  have mold: "mold \<in> set (memq (objs s ob))" "pindex (pg s mold) = i" "object (pg s mold) = Some ob"
    using D(2,3) old by auto
  have ne: "mnew \<noteq> mold" using m mold by auto
  have out: "mnew \<notin> set (memq (objs s ob))" using D(2) m by simp
  have dis: "distinct (memq (objs s ob))" by (rule sorted_distinct [OF D(1)])
  define s' where "s' = snd (projr (vm_page_replace E mnew ob i s))"
  have e: "vm_page_replace E mnew ob i s = Inr (mold, s')"
    unfolding s'_def by (simp add: vm_page_replace_def Let_def rep)
  have o: "a \<noteq> ob \<Longrightarrow> objs s' a = objs s a" and rt: "rtree (objs s' ob) = r"
    and mq: "memq (objs s' ob) = map (\<lambda>x. if x = mold then mnew else x) (memq (objs s ob))"
    and rc: "resident_page_count (objs s' ob) = resident_page_count (objs s ob)" for a
    using replace_list [OF dis mold(1) out]
    by (simp_all add: s'_def vm_page_replace_def Let_def rep)
  have pn: "object (pg s' mnew) = Some ob" "pindex (pg s' mnew) = i"
    and pm: "object (pg s' mold) = None" "pindex (pg s' mold) = i"
    and po: "n \<noteq> mnew \<Longrightarrow> n \<noteq> mold \<Longrightarrow> pg s' n = pg s n" for n
    using ne mold(2) by (auto simp: s'_def vm_page_replace_def Let_def rep)
  let ?h = "\<lambda>x. if x = mold then mnew else x"
  have pi: "pindex (pg s' (?h x)) = pindex (pg s x)" if "x \<in> set (memq (objs s ob))" for x
  proof (cases "x = mold")
    case True
    then show ?thesis using pn mold(2) by simp
  next
    case False
    then have "pg s' x = pg s x" using that out po [of x] by auto
    then show ?thesis using False by simp
  qed
  have set': "set (memq (objs s' ob)) = insert mnew (set (memq (objs s ob)) - {mold})"
    using mold(1) by (auto simp: mq)
  have uniq: "view (rtree (objs s ob)) (pindex (pg s n)) = Some n" if "n \<in> set (memq (objs s ob))" for n
    using D(3) that by simp
  have "object_ok view (pg s') ob (objs s' ob)"
  proof (rule object_okI)
    have "map (\<lambda>m. pindex (pg s' m)) (memq (objs s' ob)) = map (\<lambda>m. pindex (pg s m)) (memq (objs s ob))"
      unfolding mq map_map by (rule map_cong [OF refl]) (use pi in simp)
    then show "sorted_wrt (<) (map (\<lambda>m. pindex (pg s' m)) (memq (objs s' ob)))" by (simp only: D(1))
    show "n \<in> set (memq (objs s' ob)) \<longleftrightarrow> object (pg s' n) = Some ob" for n
      using pn pm po [of n] D(2) [of n] ne by (cases "n = mnew"; cases "n = mold") (auto simp: set')
    show "view (rtree (objs s' ob)) k = Some n \<longleftrightarrow> n \<in> set (memq (objs s' ob)) \<and> pindex (pg s' n) = k" for k n
      using pn pm po [of n] D(3) [of k n] D(3) [of i n] out ne old mold uniq
      by (cases "n = mnew"; cases "n = mold") (auto simp: set' rt v)
    show "resident_page_count (objs s' ob) = int (length (memq (objs s' ob)))" using D(4) by (simp add: mq rc)
  qed
  moreover have "object_ok view (pg s') a (objs s' a)" if a: "a \<noteq> ob" for a
  proof -
    define Q where "Q = (pg s)(mold := pg s' mold)"
    have Q: "object_ok view Q a (objs s a)"
      by (rule object_ok_other [OF objs_okD [OF ok, of a], of mold]) (use mold pm a in \<open>auto simp: Q_def\<close>)
    show ?thesis
      by (rule object_ok_other [OF Q, of mnew]) (use a pn m po ne o in \<open>auto simp: Q_def\<close>)
  qed
  ultimately have "objs_ok view s'" unfolding objs_ok_def by metis
  then show ?thesis using e pm rt v by auto
qed

end
