(* ===== verification/Vm_Object_Props.thy ===== *)
theory Vm_Object_Props
  imports Vm_Object
begin

text \<open>
  Properties of the pages of an object: the invariant under insertion, removal, renaming and
  replacement, insertion and lookup, and the equivalence of the walks over the sorted list with
  lookups in the trie.
\<close>

section \<open>A concrete trie\<close>

lemma filter_first:
  assumes "filter P xs = j # js"
  obtains us vs where "xs = us @ j # vs" and "\<forall>u\<in>set us. \<not> P u" and "P j"
  using assms by (auto simp: filter_eq_Cons_iff)

lemma env0_le: "case vm_radix_lookup_le env0 r i of
       None \<Rightarrow> \<forall>j\<le>i. map_of r j = None
     | Some m \<Rightarrow> \<exists>j\<le>i. map_of r j = Some m \<and> (\<forall>k. j < k \<and> k \<le> i \<longrightarrow> map_of r k = None)"
proof -
  let ?l = "filter (\<lambda>j. map_of r j \<noteq> None) (rev [0..<Suc i])"
  show ?thesis
  proof (cases ?l)
    case Nil
    then have "\<forall>j\<in>set (rev [0..<Suc i]). map_of r j = None" by (simp only: filter_empty_conv) auto
    then have "\<forall>j\<le>i. map_of r j = None" by auto
    moreover have "vm_radix_lookup_le env0 r i = None" using Nil unfolding env0_def by simp
    ultimately show ?thesis by simp
  next
    case (Cons j js)
    obtain us vs where sp: "rev [0..<Suc i] = us @ j # vs" and u: "\<forall>u\<in>set us. \<not> map_of r u \<noteq> None"
      and j: "map_of r j \<noteq> None" by (rule filter_first [OF Cons])
    have "sorted_wrt (>) (rev [0..<Suc i])" unfolding sorted_wrt_rev using sorted_wrt_upt [of 0 "Suc i"] by simp
    then have low: "\<forall>v\<in>set vs. v < j" unfolding sp by (simp add: sorted_wrt_append)
    have mem: "k \<in> set (us @ j # vs) \<longleftrightarrow> k \<le> i" for k unfolding sp [symmetric] by auto
    have "map_of r k = None" if "j < k" "k \<le> i" for k
    proof -
      have "k \<in> set us" using mem [of k] that low by auto
      then show ?thesis using u by simp
    qed
    moreover have "j \<le> i" using mem [of j] by simp
    moreover have "vm_radix_lookup_le env0 r i = map_of r j" using Cons unfolding env0_def by simp
    ultimately show ?thesis using j by (cases "map_of r j") auto
  qed
qed

lemma env0_ge: "case vm_radix_lookup_ge env0 r i of
       None \<Rightarrow> \<forall>j\<ge>i. map_of r j = None
     | Some m \<Rightarrow> \<exists>j\<ge>i. map_of r j = Some m \<and> (\<forall>k. i \<le> k \<and> k < j \<longrightarrow> map_of r k = None)"
proof -
  let ?xs = "sort (map fst r)"
  have dom: "map_of r k \<noteq> None \<longleftrightarrow> k \<in> set ?xs" for k by (simp add: map_of_eq_None_iff)
  show ?thesis
  proof (cases "filter (\<lambda>j. i \<le> j) ?xs")
    case Nil
    then have "\<forall>j\<in>set ?xs. \<not> i \<le> j" by (simp only: filter_empty_conv)
    then have "\<forall>j\<ge>i. map_of r j = None" using dom by blast
    moreover have "vm_radix_lookup_ge env0 r i = None" using Nil by (simp add: env0_def)
    ultimately show ?thesis by simp
  next
    case (Cons j js)
    obtain us vs where sp: "?xs = us @ j # vs" and u: "\<forall>u\<in>set us. \<not> i \<le> u" and j: "i \<le> j"
      by (rule filter_first [OF Cons])
    have "sorted ?xs" by simp
    then have up: "\<forall>v\<in>set vs. j \<le> v" unfolding sp by (simp add: sorted_append)
    have "map_of r k = None" if "i \<le> k" "k < j" for k
    proof (rule ccontr)
      assume "map_of r k \<noteq> None"
      then have "k \<in> set us \<union> {j} \<union> set vs" using dom sp by simp
      then show False using u up that by auto
    qed
    moreover have "map_of r j \<noteq> None" using dom sp by simp
    moreover have "vm_radix_lookup_ge env0 r i = map_of r j" using Cons by (simp add: env0_def)
    ultimately show ?thesis using j by (cases "map_of r j") auto
  qed
qed

lemma map_of_filter_key: "map_of (filter (\<lambda>(j, n). j \<noteq> i) r) = (map_of r)(i := None)"
  by (induction r) (auto simp: fun_eq_iff)

lemma env0_laws: "radix_laws env0 map_of"
proof -
  have "vm_radix_lookup env0 r i = map_of r i" "vm_radix_insert env0 r i m = Some ((i, m) # r)"
    "vm_radix_remove env0 r i = filter (\<lambda>(j, n). j \<noteq> i) r" "vm_radix_replace env0 r i m = ((i, m) # r, map_of r i)" for r i m
    by (simp_all add: env0_def)
  then show ?thesis unfolding radix_laws_def using env0_le env0_ge by (auto simp: map_of_filter_key)
qed

definition fresh0 :: "((nat \<times> pid) list, pid list) vm_sys" where
  "fresh0 = vm0\<lparr>pg := (\<lambda>m. page0)\<rparr>"

lemma fresh0_ok: "objs_ok map_of fresh0" "object (pg fresh0 m) = None"
  by (simp_all add: objs_ok_def object_ok_def fresh0_def vm0_def page0_def)

section \<open>Properties\<close>

lemma insert_fail_ok:
  assumes "objs_ok view s" "object (pg s m) = None" "vm_radix_insert E (rtree (objs s ob)) i m = None"
  shows "fst (vm_page_insert E m ob i s)" "objs_ok view (snd (vm_page_insert E m ob i s))"
    "objs (snd (vm_page_insert E m ob i s)) = objs s"
proof -
  have e: "vm_page_insert E m ob i s = (True, upd_page m (\<lambda>x. x\<lparr>object := None, pindex := 0\<rparr>)
      (upd_page m (\<lambda>x. x\<lparr>object := Some ob, pindex := i\<rparr>) s))"
    using assms(3) by (simp add: vm_page_insert_def vm_page_insert_after_def Let_def)
  show "fst (vm_page_insert E m ob i s)" "objs (snd (vm_page_insert E m ob i s)) = objs s" by (simp_all add: e)
  show "objs_ok view (snd (vm_page_insert E m ob i s))"
    unfolding objs_ok_def
  proof
    fix a
    show "object_ok view (pg (snd (vm_page_insert E m ob i s))) a (objs (snd (vm_page_insert E m ob i s)) a)"
      by (rule object_ok_other [OF objs_okD [OF assms(1), of a], of m]) (use assms(2) in \<open>auto simp: e\<close>)
  qed
qed

lemma rename_fail_ok:
  assumes "objs_ok view s" "vm_radix_insert E (rtree (objs s ob)) i m = None"
  shows "objs_ok view (snd (vm_page_rename E m ob i s))"
proof -
  have "snd (vm_page_rename E m ob i s) = upd_page m (\<lambda>x. x\<lparr>pindex := pindex (pg s m)\<rparr>) (upd_page m (\<lambda>x. x\<lparr>pindex := i\<rparr>) s)"
    using assms(2) by (simp add: vm_page_rename_def Let_def)
  also have "\<dots> = s" by (simp add: upd_page_def upd_pg_def)
  finally show ?thesis using assms(1) by simp
qed

text \<open>
  C14: Insertion, removal, renaming and replacement keep every object consistent, whether the trie has
  memory for a new node or not: the resident pages are those that name the object, sorted strictly by
  index, the trie maps each index to its page and the resident count is their number.
\<close>

theorem object_invariant:
  assumes laws: "radix_laws E view" and ok: "objs_ok view s"
  shows "(\<forall>m ob i. object (pg s m) = None \<and> view (rtree (objs s ob)) i = None \<longrightarrow>
      objs_ok view (snd (vm_page_insert E m ob i s))) \<and>
    (\<forall>m. objs_ok view (vm_page_remove E m s)) \<and>
    (\<forall>m oa ob i. object (pg s m) = Some oa \<and> oa \<noteq> ob \<and> view (rtree (objs s ob)) i = None \<longrightarrow>
      objs_ok view (snd (vm_page_rename E m ob i s))) \<and>
    (\<forall>m ob i mold. object (pg s m) = None \<and> view (rtree (objs s ob)) i = Some mold \<longrightarrow>
      (\<exists>s'. vm_page_replace E m ob i s = Inr (mold, s') \<and> objs_ok view s' \<and> object (pg s' mold) = None))"
proof (intro conjI allI impI)
  fix m ob i
  assume m: "object (pg s m) = None \<and> view (rtree (objs s ob)) i = None"
  show "objs_ok view (snd (vm_page_insert E m ob i s))"
  proof (cases "vm_radix_insert E (rtree (objs s ob)) i m")
    case None
    then show ?thesis using insert_fail_ok(2) [OF ok] m by blast
  next
    case (Some r)
    then show ?thesis using insert_ok [OF laws ok] m by blast
  qed
next
  fix m
  show "objs_ok view (vm_page_remove E m s)" by (rule remove_ok [OF laws ok])
next
  fix m oa ob i
  assume m: "object (pg s m) = Some oa \<and> oa \<noteq> ob \<and> view (rtree (objs s ob)) i = None"
  show "objs_ok view (snd (vm_page_rename E m ob i s))"
  proof (cases "vm_radix_insert E (rtree (objs s ob)) i m")
    case None
    then show ?thesis by (rule rename_fail_ok [OF ok])
  next
    case (Some r)
    then show ?thesis using rename_ok [OF laws ok] m by blast
  qed
next
  fix m ob i mold
  assume "object (pg s m) = None \<and> view (rtree (objs s ob)) i = Some mold"
  then show "\<exists>s'. vm_page_replace E m ob i s = Inr (mold, s') \<and> objs_ok view s' \<and> object (pg s' mold) = None"
    using replace_ok [OF laws ok] by blast
qed

theorem object_invariant_witness:
  "objs_ok map_of (snd (vm_page_insert env0 7 0 5 fresh0)) \<and>
    objs_ok map_of (vm_page_remove env0 7 (snd (vm_page_insert env0 7 0 5 fresh0)))"
proof -
  have v: "map_of (rtree (objs fresh0 0)) 5 = None" by (simp add: fresh0_def vm0_def)
  have "objs_ok map_of (snd (vm_page_insert env0 7 0 5 fresh0))"
    using object_invariant [OF env0_laws fresh0_ok(1)] fresh0_ok(2) v by blast
  then show ?thesis using remove_ok [OF env0_laws] by blast
qed

text \<open>
  Insertion and lookup: a successful insertion makes the page the one found at its index and
  changes no other lookup; a failed one changes no lookup; removing the page again restores every
  lookup and the list of resident pages.
\<close>

theorem insert_lookup:
  assumes laws: "radix_laws E view" and ok: "objs_ok view s"
    and m: "object (pg s m) = None" and free: "view (rtree (objs s ob)) i = None"
    and ins: "vm_page_insert E m ob i s = (failed, s')"
  shows "(\<forall>oa j. vm_page_lookup E s' oa j =
      (if \<not> failed \<and> oa = ob \<and> j = i then Some m else vm_page_lookup E s oa j)) \<and>
    (\<forall>oa j. vm_page_lookup E (vm_page_remove E m s') oa j = vm_page_lookup E s oa j) \<and>
    (\<forall>oa. memq (objs (vm_page_remove E m s') oa) = memq (objs s oa))"
proof (cases "vm_radix_insert E (rtree (objs s ob)) i m")
  case None
  note F = insert_fail_ok [OF ok m None]
  have pg0: "object (pg s' m) = None"
    using ins None by (auto simp: vm_page_insert_def vm_page_insert_after_def Let_def)
  show ?thesis using F(1,3) ins pg0 by (simp add: vm_page_lookup_def vm_page_remove_def)
next
  case (Some r)
  note st = insert_state [OF Some]
  have s': "s' = snd (vm_page_insert E m ob i s)" and nf: "\<not> failed" using ins st(1) by simp_all
  have lk: "vm_radix_lookup E t j = view t j" for t j using laws by (simp add: radix_laws_def)
  have v: "view r = (view (rtree (objs s ob)))(i \<mapsto> m)" using laws free Some unfolding radix_laws_def by blast
  have rem: "view (vm_radix_remove E t j) = (view t)(j := None)" for t j using laws by (simp add: radix_laws_def)
  have m': "object (pg s' m) = Some ob" "pindex (pg s' m) = i" unfolding s' st(2) by simp_all
  note R = remove_state(1) [OF m'(1), of E]
  have out: "m \<notin> set (memq (objs s ob))" using object_okD(2) [OF objs_okD [OF ok]] m by simp
  have ins_rem: "tailq_remove m (tailq_insert_after p m q) = q" if "m \<notin> set q" for p q
    using that by (induction q) (auto simp: tailq_remove_def)
  have mq: "tailq_remove m (memq (objs s' ob)) = memq (objs s ob)"
  proof (cases "vm_radix_lookup_le E (rtree (objs s ob)) i")
    case None
    then show ?thesis unfolding s' st(5) by (simp add: tailq_remove_insert_head)
  next
    case (Some p)
    then show ?thesis unfolding s' st(5) by (simp add: ins_rem [OF out])
  qed
  have oth: "oa \<noteq> ob \<Longrightarrow> objs s' oa = objs s oa" for oa unfolding s' by (rule st(3))
  have rt: "rtree (objs s' ob) = r" unfolding s' by (rule st(4))
  have "vm_page_lookup E s' oa j = (if oa = ob \<and> j = i then Some m else vm_page_lookup E s oa j)" for oa j
    using oth by (cases "oa = ob") (simp_all add: vm_page_lookup_def lk rt v)
  moreover have "vm_page_lookup E (vm_page_remove E m s') oa j = vm_page_lookup E s oa j" for oa j
    using oth free by (cases "oa = ob") (simp_all add: vm_page_lookup_def lk R rem rt v m')
  moreover have "memq (objs (vm_page_remove E m s') oa) = memq (objs s oa)" for oa
    using oth mq by (cases "oa = ob") (simp_all add: R)
  ultimately show ?thesis using nf by simp
qed

theorem insert_lookup_witness:
  "vm_page_lookup env0 (snd (vm_page_insert env0 7 0 5 fresh0)) 0 5 = Some 7"
proof -
  have v: "map_of (rtree (objs fresh0 0)) 5 = None" by (simp add: fresh0_def vm0_def)
  have f: "fst (vm_page_insert env0 7 0 5 fresh0) = False"
    by (rule insert_state(1) [of _ _ _ _ _ "[(5, 7)]"]) (simp add: env0_def fresh0_def vm0_def)
  show ?thesis
    using insert_lookup [OF env0_laws fresh0_ok v surjective_pairing] f by simp
qed

section \<open>Walks\<close>

lemma tailq_next_split: "distinct (us @ m # vs) \<Longrightarrow> tailq_next m (us @ m # vs) = tailq_first vs"
  by (induction us) auto

lemma tailq_prev_out: "m \<notin> set q \<Longrightarrow> tailq_prev m q = None"
  by (induction m q rule: tailq_prev.induct) auto

lemma tailq_prev_split: "distinct (us @ m # vs) \<Longrightarrow> tailq_prev m (us @ m # vs) = (if us = [] then None else Some (last us))"
proof (induction us)
  case Nil
  then show ?case by (cases vs) (auto intro!: tailq_prev_out)
next
  case (Cons u us)
  then show ?case by (cases us) auto
qed

text \<open>
  Walking the list of resident pages agrees with the trie: the successor and the predecessor of a
  page are the pages found at the neighbouring indices, and the search for the least index from \<open>i\<close> on
  finds the first page at or after \<open>i\<close>.
\<close>

theorem walks_agree:
  assumes laws: "radix_laws E view" and ok: "objs_ok view s" and m: "object (pg s m) = Some ob"
  shows "vm_page_next s m = vm_page_lookup E s ob (pindex (pg s m) + 1) \<and>
    vm_page_prev s m = (if pindex (pg s m) = 0 then None else vm_page_lookup E s ob (pindex (pg s m) - 1)) \<and>
    (case vm_page_find_least E s ob i of
       None \<Rightarrow> \<forall>j\<ge>i. vm_page_lookup E s ob j = None
     | Some n \<Rightarrow> object (pg s n) = Some ob \<and> i \<le> pindex (pg s n) \<and>
         (\<forall>j. i \<le> j \<and> j < pindex (pg s n) \<longrightarrow> vm_page_lookup E s ob j = None))"
proof -
  note D = object_okD [OF objs_okD [OF ok, of ob]]
  let ?f = "\<lambda>n. pindex (pg s n)" and ?q = "memq (objs s ob)"
  have lk: "vm_page_lookup E s ob j = Some n \<longleftrightarrow> n \<in> set ?q \<and> ?f n = j" for j n
    using laws D(3) by (simp add: vm_page_lookup_def radix_laws_def)
  have none: "vm_page_lookup E s ob j = None" if "\<forall>n\<in>set ?q. ?f n \<noteq> j" for j
    using lk that by (cases "vm_page_lookup E s ob j") auto
  have mem: "m \<in> set ?q" using D(2) m by simp
  then obtain us vs where sp: "?q = us @ m # vs" by (meson split_list)
  have dis: "distinct (us @ m # vs)" using sorted_distinct [OF D(1)] sp by simp
  have srt: "sorted_wrt (<) (map ?f (us @ m # vs))" using D(1) unfolding sp .
  have low: "\<forall>u\<in>set us. ?f u < ?f m" and high: "\<forall>v\<in>set vs. ?f m < ?f v"
    using srt by (auto simp: sorted_wrt_append)
  have nq: "tailq_next m ?q = tailq_first vs" and pq: "tailq_prev m ?q = (if us = [] then None else Some (last us))"
    using tailq_next_split [OF dis] tailq_prev_split [OF dis] sp by simp_all
  have nx: "vm_page_next s m = vm_page_lookup E s ob (?f m + 1)"
  proof (cases vs)
    case Nil
    then have "vm_page_lookup E s ob (?f m + 1) = None" using low by (intro none) (auto simp: sp)
    then show ?thesis using m Nil by (simp add: vm_page_next_def nq tailq_first_def)
  next
    case (Cons v ws)
    have gt: "\<forall>w\<in>set ws. ?f v < ?f w" using srt by (simp add: sorted_wrt_append Cons)
    show ?thesis
    proof (cases "?f v = ?f m + 1")
      case True
      then have "vm_page_lookup E s ob (?f m + 1) = Some v" unfolding lk by (simp add: sp Cons)
      then show ?thesis using m True Cons by (simp add: vm_page_next_def nq tailq_first_def)
    next
      case False
      have "?f m < ?f v" using high Cons by simp
      then have "vm_page_lookup E s ob (?f m + 1) = None" using False low gt by (intro none) (auto simp: sp Cons)
      then show ?thesis using m False Cons by (simp add: vm_page_next_def nq tailq_first_def)
    qed
  qed
  have pv: "vm_page_prev s m = (if ?f m = 0 then None else vm_page_lookup E s ob (?f m - 1))"
  proof (cases us rule: rev_cases)
    case Nil
    have "vm_page_lookup E s ob (?f m - 1) = None" if "?f m \<noteq> 0" using that high by (intro none) (auto simp: sp Nil)
    then show ?thesis using m Nil by (simp add: vm_page_prev_def pq)
  next
    case (snoc ws u)
    have lt: "\<forall>w\<in>set ws. ?f w < ?f u" using srt by (simp add: sorted_wrt_append snoc)
    have um: "?f u < ?f m" using low snoc by simp
    show ?thesis
    proof (cases "?f u + 1 = ?f m")
      case True
      then have "vm_page_lookup E s ob (?f m - 1) = Some u" unfolding lk by (simp add: sp snoc)
      then show ?thesis using m True snoc by (simp add: vm_page_prev_def pq)
    next
      case False
      then have "vm_page_lookup E s ob (?f m - 1) = None" using um lt high by (intro none) (fastforce simp: sp snoc)
      then show ?thesis using m um False snoc by (simp add: vm_page_prev_def pq)
    qed
  qed
  have ge: "case vm_radix_lookup_ge E (rtree (objs s ob)) i of
       None \<Rightarrow> \<forall>j\<ge>i. vm_page_lookup E s ob j = None
     | Some n \<Rightarrow> \<exists>j\<ge>i. vm_page_lookup E s ob j = Some n \<and> (\<forall>k. i \<le> k \<and> k < j \<longrightarrow> vm_page_lookup E s ob k = None)"
  proof -
    have eq: "vm_radix_lookup E = view" using laws by (auto simp: radix_laws_def fun_eq_iff)
    show ?thesis unfolding vm_page_lookup_def eq using laws unfolding radix_laws_def by blast
  qed
  obtain h hs where q: "?q = h # hs" using mem by (cases ?q) auto
  have hd: "\<forall>n\<in>set hs. ?f h < ?f n" using D(1) by (simp add: q)
  have fl: "case vm_page_find_least E s ob i of
       None \<Rightarrow> \<forall>j\<ge>i. vm_page_lookup E s ob j = None
     | Some n \<Rightarrow> object (pg s n) = Some ob \<and> i \<le> ?f n \<and> (\<forall>j. i \<le> j \<and> j < ?f n \<longrightarrow> vm_page_lookup E s ob j = None)"
  proof (cases "?f h < i")
    case True
    then have "vm_page_find_least E s ob i = vm_radix_lookup_ge E (rtree (objs s ob)) i"
      by (simp add: vm_page_find_least_def q)
    then show ?thesis using ge lk D(2) by (auto split: option.splits)
  next
    case False
    have "vm_page_lookup E s ob j = None" if "j < ?f h" for j using that hd by (intro none) (auto simp: q)
    moreover have "object (pg s h) = Some ob" using D(2) [of h] q by simp
    ultimately show ?thesis using False by (simp add: vm_page_find_least_def q)
  qed
  show ?thesis using nx pv fl by (intro conjI)
qed

definition three0 :: "((nat \<times> pid) list, pid list) vm_sys" where
  "three0 = snd (vm_page_insert env0 9 0 6 (snd (vm_page_insert env0 7 0 5 fresh0)))"

theorem walks_agree_witness: "vm_page_next three0 7 = vm_page_lookup env0 three0 0 6 \<and> object (pg three0 7) = Some 0"
proof -
  let ?s1 = "snd (vm_page_insert env0 7 0 5 fresh0)"
  have r1: "vm_radix_insert env0 (rtree (objs fresh0 0)) 5 7 = Some [(5, 7)]" by (simp add: env0_def fresh0_def vm0_def)
  note S1 = insert_state [OF r1]
  have ok1: "objs_ok map_of ?s1" by (rule insert_ok [OF env0_laws fresh0_ok _ r1]) (simp add: fresh0_def vm0_def)
  have r2: "vm_radix_insert env0 (rtree (objs ?s1 0)) 6 9 = Some [(6, 9), (5, 7)]"
    unfolding S1(4) by (simp add: env0_def)
  have n9: "object (pg ?s1 9) = None" by (simp add: S1(2) fresh0_ok)
  have v2: "map_of (rtree (objs ?s1 0)) 6 = None" unfolding S1(4) by simp
  have ok: "objs_ok map_of three0" unfolding three0_def by (rule insert_ok [OF env0_laws ok1 n9 v2 r2])
  have p7: "object (pg three0 7) = Some 0" "pindex (pg three0 7) = 5"
    unfolding three0_def insert_state(2) [OF r2] by (simp_all add: S1(2))
  show ?thesis using walks_agree [OF env0_laws ok p7(1)] p7 by simp
qed

end
