(* ===== verification/Vm_Free.thy ===== *)
theory Vm_Free
  imports Vm_Object_Props
begin

text \<open>
  Freeing, holding and advising pages (\<open>src/asgn3/vm/vm_page.c\<close>), and fictitious pages. Handing a
  page to the physical allocator is an argument (\<open>vm_env\<close>). A wakeup of the page
  daemon or of threads waiting for memory is the clearing of the flag that asks for it.
\<close>

section \<open>Freeing\<close>

definition vm_page_free_wakeup :: "('r, 'p) vm_env \<Rightarrow> ('r, 'p) vm_sys \<Rightarrow> ('r, 'p) vm_sys" where
  "vm_page_free_wakeup E s =
    (let s1 = (if vm_pageout_pages_needed s \<and> v_free_count E (phys s) \<ge> v_pageout_free_min E
               then s\<lparr>vm_pageout_pages_needed := False\<rparr> else s)
     in if vm_pages_needed s1 \<and> \<not> vm_page_count_min E (phys s1) then s1\<lparr>vm_pages_needed := False\<rparr> else s1)"

definition vm_page_free_prep ::
    "('r, 'p) vm_env \<Rightarrow> pid \<Rightarrow> bool \<Rightarrow> ('r, 'p) vm_sys \<Rightarrow> fault + (bool \<times> ('r, 'p) vm_sys)" where
  "vm_page_free_prep E m pagequeue_locked s =
    (let s1 = cnt_add v_tfree 1 s
     in if vm_page_sbusied (busy_lock (pg s1 m)) then Inl Kernel_panic
        else
          (let s2 = (if queue (pg s1 m) \<noteq> PQ_NONE
                     then (if pagequeue_locked then vm_page_dequeue_locked E m s1 else vm_page_dequeue E m s1)
                     else s1);
               s3 = vm_page_remove E m s2
           in if PG_FICTITIOUS \<in> flags (pg s3 m) then Inr (False, s3)
              else
                (let s4 = upd_page m (\<lambda>x. vm_page_undirty (x\<lparr>valid := 0\<rparr>)) s3
                 in if wire_count (pg s4 m) \<noteq> 0 then Inl Kernel_panic
                    else if hold_count (pg s4 m) \<noteq> 0
                    then Inr (False, upd_page m (\<lambda>x. x\<lparr>flags := insert PG_UNHOLDFREE (flags x - {PG_ZERO})\<rparr>) s4)
                    else Inr (True, upd_page m (\<lambda>x. x\<lparr>memattr := VM_MEMATTR_DEFAULT\<rparr>) s4))))"

definition vm_page_free_phys :: "('r, 'p) vm_env \<Rightarrow> pid \<Rightarrow> ('r, 'p) vm_sys \<Rightarrow> ('r, 'p) vm_sys" where
  "vm_page_free_phys E m s =
    (let (p, taken) = vm_reserv_free_page E m (vm_phys_freecnt_adj E m 1 (phys s));
         p' = (if taken then p else vm_phys_free_pages E m p)
     in s\<lparr>phys := p',
          vm_page_zero_count := vm_page_zero_count s + (if PG_ZERO \<in> flags (pg s m) then 1 else 0)\<rparr>)"

definition vm_page_free_phys_pglist :: "('r, 'p) vm_env \<Rightarrow> pid list \<Rightarrow> ('r, 'p) vm_sys \<Rightarrow> ('r, 'p) vm_sys" where
  "vm_page_free_phys_pglist E tq s =
    (if tq = [] then s else vm_page_free_wakeup E (fold (vm_page_free_phys E) tq s))"

definition vm_page_free_toq :: "('r, 'p) vm_env \<Rightarrow> pid \<Rightarrow> ('r, 'p) vm_sys \<Rightarrow> fault + ('r, 'p) vm_sys" where
  "vm_page_free_toq E m s =
    and_then (vm_page_free_prep E m False s) (\<lambda>(ready, s1).
      Inr (if ready then vm_page_free_wakeup E (vm_page_free_phys E m s1) else s1))"

definition vm_page_free :: "('r, 'p) vm_env \<Rightarrow> pid \<Rightarrow> ('r, 'p) vm_sys \<Rightarrow> fault + ('r, 'p) vm_sys" where
  "vm_page_free E m s = vm_page_free_toq E m (upd_page m (\<lambda>x. x\<lparr>flags := flags x - {PG_ZERO}\<rparr>) s)"

definition vm_page_free_zero :: "('r, 'p) vm_env \<Rightarrow> pid \<Rightarrow> ('r, 'p) vm_sys \<Rightarrow> fault + ('r, 'p) vm_sys" where
  "vm_page_free_zero E m s = vm_page_free_toq E m (upd_page m (\<lambda>x. x\<lparr>flags := insert PG_ZERO (flags x)\<rparr>) s)"

section \<open>Holding\<close>

definition vm_page_hold :: "pid \<Rightarrow> ('r, 'p) vm_sys \<Rightarrow> ('r, 'p) vm_sys" where
  "vm_page_hold m s = upd_page m (\<lambda>x. x\<lparr>hold_count := hold_count x + 1\<rparr>) s"

definition vm_page_unhold :: "('r, 'p) vm_env \<Rightarrow> pid \<Rightarrow> ('r, 'p) vm_sys \<Rightarrow> fault + ('r, 'p) vm_sys" where
  "vm_page_unhold E m s =
    (let s1 = upd_page m (\<lambda>x. x\<lparr>hold_count := hold_count x - 1\<rparr>) s
     in if hold_count (pg s1 m) = 0 \<and> PG_UNHOLDFREE \<in> flags (pg s1 m) then vm_page_free_toq E m s1 else Inr s1)"

text \<open>The lock of a page is a number; \<open>vm_page_change_lock\<close> yields the lock held and the lock operations made.\<close>

datatype lock_op = Mtx_lock nat | Mtx_unlock nat

definition vm_page_change_lock :: "(pid \<Rightarrow> nat) \<Rightarrow> pid \<Rightarrow> nat option \<Rightarrow> nat option \<times> lock_op list" where
  "vm_page_change_lock lockptr m mtx =
    (let mtx1 = lockptr m
     in if mtx = Some mtx1 then (mtx, [])
        else (Some mtx1, (case mtx of Some l \<Rightarrow> [Mtx_unlock l] | None \<Rightarrow> []) @ [Mtx_lock mtx1]))"

fun unhold_loop ::
    "('r, 'p) vm_env \<Rightarrow> (pid \<Rightarrow> nat) \<Rightarrow> pid list \<Rightarrow> nat option \<Rightarrow> ('r, 'p) vm_sys
      \<Rightarrow> fault + (lock_op list \<times> ('r, 'p) vm_sys)" where
  "unhold_loop E lockptr [] mtx s = Inr (case mtx of Some l \<Rightarrow> [Mtx_unlock l] | None \<Rightarrow> [], s)"
| "unhold_loop E lockptr (m # ma) mtx s =
    (let (mtx1, ops) = vm_page_change_lock lockptr m mtx
     in and_then (vm_page_unhold E m s) (\<lambda>s1.
          and_then (unhold_loop E lockptr ma mtx1 s1) (\<lambda>(ops', s2). Inr (ops @ ops', s2))))"

definition vm_page_unhold_pages ::
    "('r, 'p) vm_env \<Rightarrow> (pid \<Rightarrow> nat) \<Rightarrow> pid list \<Rightarrow> ('r, 'p) vm_sys \<Rightarrow> fault + (lock_op list \<times> ('r, 'p) vm_sys)" where
  "vm_page_unhold_pages E lockptr ma s = unhold_loop E lockptr ma None s"

section \<open>Fictitious pages\<close>

definition vm_page_initfake :: "nat \<Rightarrow> vm_memattr \<Rightarrow> vm_page \<Rightarrow> vm_page" where
  "vm_page_initfake paddr attr m =
    (if PG_FICTITIOUS \<in> flags m then m\<lparr>memattr := attr\<rparr>
     else m\<lparr>phys_addr := paddr, queue := PQ_NONE, flags := {PG_FICTITIOUS}, oflags := {VPO_UNMANAGED},
            busy_lock := VPB_SINGLE_EXCLUSIVER, wire_count := 1, memattr := attr\<rparr>)"

text \<open>A zeroed structure; the queue number 0 is the inactive queue.\<close>

definition zeroed_page :: vm_page where
  "zeroed_page = \<lparr>object = None, pindex = 0, phys_addr = 0, wire_count = 0, busy_lock = 0, hold_count = 0,
    flags = {}, aflags = {}, oflags = {}, queue = PQ_INACTIVE, psind = 0, segind = 0, order = 0, pg_id = 0,
    pool = 0, act_count = 0, valid = 0, dirty = 0, memattr = VM_MEMATTR_DEFAULT\<rparr>"

definition vm_page_getfake :: "nat \<Rightarrow> vm_memattr \<Rightarrow> vm_page" where
  "vm_page_getfake paddr attr = vm_page_initfake paddr attr zeroed_page"

definition vm_page_updatefake :: "vm_page \<Rightarrow> nat \<Rightarrow> vm_memattr \<Rightarrow> vm_page" where
  "vm_page_updatefake m paddr attr = m\<lparr>phys_addr := paddr, memattr := attr\<rparr>"

section \<open>After a read, advice, attempts to free\<close>

definition vm_page_readahead_finish :: "('r, 'p) vm_env \<Rightarrow> pid \<Rightarrow> ('r, 'p) vm_sys \<Rightarrow> ('r, 'p) vm_sys" where
  "vm_page_readahead_finish E m s =
    upd_page m vm_page_xunbusy_maybelocked
      (if busy_lock (pg s m) AND VPB_BIT_WAITERS \<noteq> 0 then vm_page_activate E m s else vm_page_deactivate E m s)"

definition vm_page_try_to_free ::
    "('r, 'p) vm_env \<Rightarrow> pid \<Rightarrow> ('r, 'p) vm_sys \<Rightarrow> fault + (bool \<times> ('r, 'p) vm_sys)" where
  "vm_page_try_to_free E m s =
    (let x = pg s m
     in if dirty x \<noteq> 0 \<or> hold_count x \<noteq> 0 \<or> wire_count x \<noteq> 0 \<or> VPO_UNMANAGED \<in> oflags x \<or>
           vm_page_busied (busy_lock x) then Inr (False, s)
        else
          (let s1 = (case object x of
                 Some ob \<Rightarrow> if ref_count (objs s ob) \<noteq> 0 then upd_page m (pmap_remove_all E m) s else s
               | None \<Rightarrow> s)
           in if dirty (pg s1 m) \<noteq> 0 then Inr (False, s1)
              else and_then (vm_page_free E m s1) (\<lambda>s2. Inr (True, s2))))"

datatype advice = MADV_NORMAL | MADV_FREE | MADV_DONTNEED | MADV_WILLNEED

definition vm_page_advise :: "('r, 'p) vm_env \<Rightarrow> pid \<Rightarrow> advice \<Rightarrow> ('r, 'p) vm_sys \<Rightarrow> ('r, 'p) vm_sys" where
  "vm_page_advise E m advice s =
    (if advice \<noteq> MADV_FREE \<and> advice \<noteq> MADV_DONTNEED
     then (if advice = MADV_WILLNEED then vm_page_activate E m s else s)
     else
       (let s1 = (if advice = MADV_FREE then upd_page m vm_page_undirty s else s);
            s2 = upd_page m (\<lambda>x. vm_page_aflag_clear x {PGA_REFERENCED}) s1;
            s3 = (if advice \<noteq> MADV_FREE \<and> dirty (pg s2 m) = 0 \<and> pmap_is_modified E m
                  then upd_page m vm_page_dirty s2 else s2)
        in if dirty (pg s3 m) = 0 then vm_page_deactivate_noreuse E m s3 else vm_page_launder E m s3))"

section \<open>What the invariants depend on\<close>

lemma queues_ok_cong:
  assumes "vmd s' = vmd s"
    and "\<And>n. flags (pg s' n) \<inter> {PG_MARKER} = flags (pg s n) \<inter> {PG_MARKER} \<and> queue (pg s' n) = queue (pg s n) \<and>
      wire_count (pg s' n) = wire_count (pg s n) \<and> oflags (pg s' n) = oflags (pg s n)"
    and "queues_ok E s"
  shows "queues_ok E s'"
proof -
  have "regular s' n = regular s n" "movable s' n = movable s n" "queue (pg s' n) = queue (pg s n)" for n
    using assms(2) [of n] by (auto simp: regular_def movable_def)
  then have "regular s' = regular s" "movable s' = movable s" "\<And>n. queue (pg s' n) = queue (pg s n)" by auto
  then show ?thesis using assms(3) unfolding queues_ok_def assms(1) by simp
qed

lemma objs_ok_cong:
  assumes "objs s' = objs s"
    and "\<And>n. object (pg s' n) = object (pg s n) \<and> pindex (pg s' n) = pindex (pg s n)"
    and "objs_ok view s"
  shows "objs_ok view s'"
  unfolding objs_ok_def assms(1)
proof
  fix a
  show "object_ok view (pg s') a (objs s a)"
    by (rule object_ok_same [OF objs_okD [OF assms(3)] assms(2) refl refl refl])
qed

lemma remove_other: "n \<noteq> m \<Longrightarrow> pg (vm_page_remove E m s) n = pg s n"
  by (cases "object (pg s m)") (simp_all add: remove_state(2), simp add: vm_page_remove_def)

lemma free_prep_ok:
  assumes laws: "radix_laws E view" and ok: "queues_ok E s" and obs: "objs_ok view s" and m: "regular s m"
    and nb: "\<not> vm_page_sbusied (busy_lock (pg s m))"
    and w: "PG_FICTITIOUS \<in> flags (pg s m) \<or> wire_count (pg s m) = 0"
  shows "\<exists>s'. vm_page_free_prep E m l s =
        Inr (PG_FICTITIOUS \<notin> flags (pg s m) \<and> hold_count (pg s m) = 0, s') \<and>
      queues_ok E s' \<and> objs_ok view s' \<and> queue (pg s' m) = PQ_NONE \<and> object (pg s' m) = None \<and>
      phys s' = phys s \<and> (\<forall>n. n \<noteq> m \<longrightarrow> pg s' n = pg s n) \<and> hold_count (pg s' m) = hold_count (pg s m) \<and>
      (PG_FICTITIOUS \<notin> flags (pg s m) \<longrightarrow> valid (pg s' m) = 0 \<and> dirty (pg s' m) = 0 \<and>
        (PG_UNHOLDFREE \<in> flags (pg s' m) \<longleftrightarrow> hold_count (pg s m) \<noteq> 0 \<or> PG_UNHOLDFREE \<in> flags (pg s m))) \<and>
      (flags (pg s' m) \<inter> {PG_FICTITIOUS, PG_MARKER} = flags (pg s m) \<inter> {PG_FICTITIOUS, PG_MARKER}) \<and>
      wire_count (pg s' m) = wire_count (pg s m) \<and> busy_lock (pg s' m) \<in> {busy_lock (pg s m), VPB_UNBUSIED}"
proof -
  define s3 where "s3 = vm_page_remove E m (vm_page_remque E m (cnt_add v_tfree 1 s))"
  define s4 where "s4 = upd_page m (\<lambda>x. vm_page_undirty (x\<lparr>valid := 0\<rparr>)) s3"
  define s5 where "s5 = upd_page m (\<lambda>x. x\<lparr>flags := insert PG_UNHOLDFREE (flags x - {PG_ZERO})\<rparr>) s4"
  define s6 where "s6 = upd_page m (\<lambda>x. x\<lparr>memattr := VM_MEMATTR_DEFAULT\<rparr>) s4"
  have f3: "flags (pg s3 m) = flags (pg s m)" "wire_count (pg s3 m) = wire_count (pg s m)"
     "hold_count (pg s3 m) = hold_count (pg s m)" "queue (pg s3 m) = PQ_NONE" "object (pg s3 m) = None" "phys s3 = phys s"
     "busy_lock (pg s3 m) \<in> {busy_lock (pg s m), VPB_UNBUSIED}"
    by (auto simp: s3_def vm_page_remove_def Let_def xunbusy_maybelocked_free split: option.splits)
  have o3: "n \<noteq> m \<Longrightarrow> pg s3 n = pg s n" for n by (simp add: s3_def remove_other)
  have e: "vm_page_free_prep E m l s =
      (if PG_FICTITIOUS \<in> flags (pg s m) then Inr (False, s3)
       else if hold_count (pg s m) \<noteq> 0 then Inr (False, s5) else Inr (True, s6))"
  proof -
    have rq: "(if queue (pg (cnt_add v_tfree 1 s) m) \<noteq> PQ_NONE
        then (if l then vm_page_dequeue_locked E m (cnt_add v_tfree 1 s) else vm_page_dequeue E m (cnt_add v_tfree 1 s))
        else cnt_add v_tfree 1 s) = vm_page_remque E m (cnt_add v_tfree 1 s)"
      by (simp add: vm_page_remque_def)
    have w4: "wire_count (pg s4 m) = wire_count (pg s m)" "hold_count (pg s4 m) = hold_count (pg s m)"
      using f3 by (simp_all add: s4_def vm_page_undirty_def)
    show ?thesis
      unfolding vm_page_free_prep_def Let_def rq s3_def [symmetric] s4_def [symmetric] s5_def [symmetric] s6_def [symmetric] w4 f3(1)
      using nb w by auto
  qed
  have q3: "queues_ok E s3"
  proof -
    have "queues_ok E (vm_page_remque E m (cnt_add v_tfree 1 s))" by (rule remque_ok) (use ok m in simp_all)
    then show ?thesis by (rule queues_ok_cong [rotated 2]) (simp_all add: s3_def)
  qed
  have b3: "objs_ok view s3"
    unfolding s3_def by (rule remove_ok [OF laws], rule objs_ok_cong [OF _ _ obs]) (simp_all add: upd_pg_def)
  have q4: "queues_ok E s4" by (rule queues_ok_cong [OF _ _ q3]) (simp_all add: s4_def upd_pg_def vm_page_undirty_def)
  have b4: "objs_ok view s4" by (rule objs_ok_cong [OF _ _ b3]) (simp_all add: s4_def upd_pg_def vm_page_undirty_def)
  have q5: "queues_ok E s5" by (rule queues_ok_cong [OF _ _ q4]) (auto simp: s5_def upd_pg_def)
  have b5: "objs_ok view s5" by (rule objs_ok_cong [OF _ _ b4]) (simp_all add: s5_def upd_pg_def)
  have q6: "queues_ok E s6" by (rule queues_ok_cong [OF _ _ q4]) (auto simp: s6_def upd_pg_def)
  have b6: "objs_ok view s6" by (rule objs_ok_cong [OF _ _ b4]) (simp_all add: s6_def upd_pg_def)
  consider (f) "PG_FICTITIOUS \<in> flags (pg s m)" | (h) "PG_FICTITIOUS \<notin> flags (pg s m)" "hold_count (pg s m) \<noteq> 0"
    | (r) "PG_FICTITIOUS \<notin> flags (pg s m)" "hold_count (pg s m) = 0" by blast
  then show ?thesis
  proof cases
    case f
    then show ?thesis using e q3 b3 f3 o3 by (intro exI [of _ s3]) simp
  next
    case h
    then show ?thesis using e q5 b5 f3 o3
      by (intro exI [of _ s5]) (auto simp: s5_def s4_def vm_page_undirty_def)
  next
    case r
    then show ?thesis using e q6 b6 f3 o3
      by (intro exI [of _ s6]) (simp add: s6_def s4_def vm_page_undirty_def)
  qed
qed

end
