(* ===== verification/Vm_Free_Props.thy ===== *)
theory Vm_Free_Props
  imports Vm_Free
begin

text \<open>
  Properties of freeing: what freeing a page does to it, to the queues, to its object and to the
  allocator, the free deferred until the last hold is released, and which pages an attempt to free
  or an advice touches.
\<close>

definition handed :: "('r, 'p) vm_env \<Rightarrow> pid \<Rightarrow> 'p \<Rightarrow> 'p" where
  "handed E m p =
    (let (p', taken) = vm_reserv_free_page E m (vm_phys_freecnt_adj E m 1 p)
     in if taken then p' else vm_phys_free_pages E m p')"

definition freeable :: "('r, 'p) vm_env \<Rightarrow> ('r \<Rightarrow> nat \<Rightarrow> pid option) \<Rightarrow> pid \<Rightarrow> ('r, 'p) vm_sys \<Rightarrow> bool" where
  "freeable E view m s \<longleftrightarrow> queues_ok E s \<and> objs_ok view s \<and> regular s m \<and>
    \<not> vm_page_sbusied (busy_lock (pg s m)) \<and> (PG_FICTITIOUS \<in> flags (pg s m) \<or> wire_count (pg s m) = 0)"

lemma free_wakeup_sel [simp]:
  "pg (vm_page_free_wakeup E s) = pg s" "vmd (vm_page_free_wakeup E s) = vmd s" "objs (vm_page_free_wakeup E s) = objs s"
  "phys (vm_page_free_wakeup E s) = phys s"
  by (simp_all add: vm_page_free_wakeup_def Let_def)

lemma free_phys_sel [simp]:
  "pg (vm_page_free_phys E m s) = pg s" "vmd (vm_page_free_phys E m s) = vmd s" "objs (vm_page_free_phys E m s) = objs s"
  "phys (vm_page_free_phys E m s) = handed E m (phys s)"
  by (simp_all add: vm_page_free_phys_def handed_def split: prod.split)

lemma free_toq_ok:
  assumes laws: "radix_laws E view" and fr: "freeable E view m s"
  shows "\<exists>s'. vm_page_free_toq E m s = Inr s' \<and> queues_ok E s' \<and> objs_ok view s' \<and> queue (pg s' m) = PQ_NONE \<and>
      object (pg s' m) = None \<and> (\<forall>n. n \<noteq> m \<longrightarrow> pg s' n = pg s n) \<and> hold_count (pg s' m) = hold_count (pg s m) \<and>
      phys s' = (if PG_FICTITIOUS \<in> flags (pg s m) \<or> hold_count (pg s m) \<noteq> 0 then phys s else handed E m (phys s)) \<and>
      (PG_FICTITIOUS \<notin> flags (pg s m) \<longrightarrow> valid (pg s' m) = 0 \<and> dirty (pg s' m) = 0 \<and>
        (PG_UNHOLDFREE \<in> flags (pg s' m) \<longleftrightarrow> hold_count (pg s m) \<noteq> 0 \<or> PG_UNHOLDFREE \<in> flags (pg s m))) \<and>
      (flags (pg s' m) \<inter> {PG_FICTITIOUS, PG_MARKER} = flags (pg s m) \<inter> {PG_FICTITIOUS, PG_MARKER}) \<and>
      wire_count (pg s' m) = wire_count (pg s m) \<and> busy_lock (pg s' m) \<in> {busy_lock (pg s m), VPB_UNBUSIED}"
proof -
  have a: "queues_ok E s" "objs_ok view s" "regular s m" "\<not> vm_page_sbusied (busy_lock (pg s m))"
    "PG_FICTITIOUS \<in> flags (pg s m) \<or> wire_count (pg s m) = 0" using fr by (simp_all add: freeable_def)
  obtain s1 where e: "vm_page_free_prep E m False s =
        Inr (PG_FICTITIOUS \<notin> flags (pg s m) \<and> hold_count (pg s m) = 0, s1)"
    and ph: "phys s1 = phys s" and q: "queues_ok E s1" and b: "objs_ok view s1" and rest:
      "queue (pg s1 m) = PQ_NONE" "object (pg s1 m) = None" "\<forall>n. n \<noteq> m \<longrightarrow> pg s1 n = pg s n"
      "hold_count (pg s1 m) = hold_count (pg s m)"
      "PG_FICTITIOUS \<notin> flags (pg s m) \<longrightarrow> valid (pg s1 m) = 0 \<and> dirty (pg s1 m) = 0 \<and>
        (PG_UNHOLDFREE \<in> flags (pg s1 m) \<longleftrightarrow> hold_count (pg s m) \<noteq> 0 \<or> PG_UNHOLDFREE \<in> flags (pg s m))"
      "flags (pg s1 m) \<inter> {PG_FICTITIOUS, PG_MARKER} = flags (pg s m) \<inter> {PG_FICTITIOUS, PG_MARKER}"
      "wire_count (pg s1 m) = wire_count (pg s m)" "busy_lock (pg s1 m) \<in> {busy_lock (pg s m), VPB_UNBUSIED}"
    using free_prep_ok [OF laws a, of False] by (elim exE conjE)
  define s2 where "s2 = vm_page_free_wakeup E (vm_page_free_phys E m s1)"
  have q2: "queues_ok E s2" by (rule queues_ok_cong [OF _ _ q]) (simp_all add: s2_def)
  have b2: "objs_ok view s2" by (rule objs_ok_cong [OF _ _ b]) (simp_all add: s2_def)
  have pg2: "pg s2 = pg s1" and ph2: "phys s2 = handed E m (phys s)" by (simp_all add: s2_def ph)
  show ?thesis
  proof (cases "PG_FICTITIOUS \<in> flags (pg s m) \<or> hold_count (pg s m) \<noteq> 0")
    case True
    then have "vm_page_free_toq E m s = Inr s1" using e by (auto simp: vm_page_free_toq_def)
    then show ?thesis using True q b ph rest by (intro exI [of _ s1]) simp
  next
    case False
    then have "vm_page_free_toq E m s = Inr s2" using e by (simp add: vm_page_free_toq_def s2_def)
    then show ?thesis using False q2 b2 ph2 rest by (intro exI [of _ s2]) (simp add: pg2)
  qed
qed

lemma free_panics:
  "vm_page_sbusied (busy_lock (pg s m)) \<Longrightarrow> vm_page_free_toq E m s = Inl Kernel_panic"
  "\<not> vm_page_sbusied (busy_lock (pg s m)) \<Longrightarrow> PG_FICTITIOUS \<notin> flags (pg s m) \<Longrightarrow> wire_count (pg s m) \<noteq> 0 \<Longrightarrow>
    vm_page_free_toq E m s = Inl Kernel_panic"
  by (simp_all add: vm_page_free_toq_def vm_page_free_prep_def Let_def vm_page_undirty_def)

definition no_zero :: "pid \<Rightarrow> ('r, 'p) vm_sys \<Rightarrow> ('r, 'p) vm_sys" where
  "no_zero m s = upd_page m (\<lambda>x. x\<lparr>flags := flags x - {PG_ZERO}\<rparr>) s"

lemma no_zero_sel [simp]:
  "flags (pg (no_zero m s) m) = flags (pg s m) - {PG_ZERO}" "n \<noteq> m \<Longrightarrow> pg (no_zero m s) n = pg s n"
  "wire_count (pg (no_zero m s) n) = wire_count (pg s n)" "hold_count (pg (no_zero m s) n) = hold_count (pg s n)"
  "busy_lock (pg (no_zero m s) n) = busy_lock (pg s n)" "phys (no_zero m s) = phys s"
  by (simp_all add: no_zero_def upd_pg_def)

lemma no_zero_freeable: "freeable E view m s \<Longrightarrow> freeable E view m (no_zero m s)"
proof -
  assume f: "freeable E view m s"
  have "queues_ok E (no_zero m s)"
    by (rule queues_ok_cong [of _ s]) (use f in \<open>auto simp: no_zero_def upd_pg_def freeable_def\<close>)
  moreover have "objs_ok view (no_zero m s)"
    by (rule objs_ok_cong [of _ s]) (use f in \<open>auto simp: no_zero_def upd_pg_def freeable_def\<close>)
  ultimately show ?thesis using f by (auto simp: freeable_def regular_def)
qed

lemma free_ok:
  assumes laws: "radix_laws E view" and f: "freeable E view m s"
  shows "\<exists>s'. vm_page_free E m s = Inr s' \<and> queues_ok E s' \<and> objs_ok view s' \<and>
      queue (pg s' m) = PQ_NONE \<and> object (pg s' m) = None \<and> (\<forall>n. n \<noteq> m \<longrightarrow> pg s' n = pg s n) \<and>
      phys s' = (if PG_FICTITIOUS \<in> flags (pg s m) \<or> hold_count (pg s m) \<noteq> 0 then phys s else handed E m (phys s)) \<and>
      (PG_FICTITIOUS \<notin> flags (pg s m) \<longrightarrow> valid (pg s' m) = 0 \<and> dirty (pg s' m) = 0)"
proof -
  have fi: "PG_FICTITIOUS \<in> flags (pg (no_zero m s) m) \<longleftrightarrow> PG_FICTITIOUS \<in> flags (pg s m)" by simp
  obtain s' where r: "vm_page_free_toq E m (no_zero m s) = Inr s'" "queues_ok E s'" "objs_ok view s'"
      "queue (pg s' m) = PQ_NONE" "object (pg s' m) = None" "\<forall>n. n \<noteq> m \<longrightarrow> pg s' n = pg (no_zero m s) n"
      "phys s' = (if PG_FICTITIOUS \<in> flags (pg s m) \<or> hold_count (pg s m) \<noteq> 0 then phys s else handed E m (phys s))"
      "PG_FICTITIOUS \<notin> flags (pg s m) \<longrightarrow> valid (pg s' m) = 0 \<and> dirty (pg s' m) = 0"
    using free_toq_ok [OF laws no_zero_freeable [OF f]] unfolding fi no_zero_sel(4,6) by blast
  have "vm_page_free E m s = Inr s'" using r(1) by (simp add: vm_page_free_def no_zero_def)
  then show ?thesis using r(2-8) by (intro exI [of _ s']) simp
qed

section \<open>Properties\<close>

text \<open>
  C15: Freeing a page takes it off its queue and its object, keeps all queues and objects consistent,
  makes it invalid and clean, and hands it to the allocator exactly when it is neither fictitious nor
  held; freeing a page that threads share or that is wired panics.
\<close>

theorem free_page:
  assumes laws: "radix_laws E view"
  shows "(freeable E view m s \<longrightarrow> (\<exists>s'. vm_page_free E m s = Inr s' \<and> queues_ok E s' \<and> objs_ok view s' \<and>
      queue (pg s' m) = PQ_NONE \<and> object (pg s' m) = None \<and> (\<forall>n. n \<noteq> m \<longrightarrow> pg s' n = pg s n) \<and>
      phys s' = (if PG_FICTITIOUS \<in> flags (pg s m) \<or> hold_count (pg s m) \<noteq> 0 then phys s else handed E m (phys s)) \<and>
      (PG_FICTITIOUS \<notin> flags (pg s m) \<longrightarrow> valid (pg s' m) = 0 \<and> dirty (pg s' m) = 0))) \<and>
    (vm_page_sbusied (busy_lock (pg s m)) \<or> PG_FICTITIOUS \<notin> flags (pg s m) \<and> wire_count (pg s m) \<noteq> 0 \<longrightarrow>
      vm_page_free E m s = Inl Kernel_panic)"
proof (intro conjI impI)
  assume f: "freeable E view m s"
  show "\<exists>s'. vm_page_free E m s = Inr s' \<and> queues_ok E s' \<and> objs_ok view s' \<and>
      queue (pg s' m) = PQ_NONE \<and> object (pg s' m) = None \<and> (\<forall>n. n \<noteq> m \<longrightarrow> pg s' n = pg s n) \<and>
      phys s' = (if PG_FICTITIOUS \<in> flags (pg s m) \<or> hold_count (pg s m) \<noteq> 0 then phys s else handed E m (phys s)) \<and>
      (PG_FICTITIOUS \<notin> flags (pg s m) \<longrightarrow> valid (pg s' m) = 0 \<and> dirty (pg s' m) = 0)"
    by (rule free_ok [OF laws f])
next
  assume "vm_page_sbusied (busy_lock (pg s m)) \<or> PG_FICTITIOUS \<notin> flags (pg s m) \<and> wire_count (pg s m) \<noteq> 0"
  then show "vm_page_free E m s = Inl Kernel_panic"
    using free_panics [of "no_zero m s" m E] by (auto simp: vm_page_free_def no_zero_def)
qed

lemma fresh0_freeable: "freeable env0 map_of m fresh0"
proof -
  have "queues_ok env0 fresh0" by (rule queues_ok_cong [OF _ _ vm0_ok(1)]) (simp_all add: fresh0_def vm0_def page0_def)
  moreover have "regular fresh0 m" by (simp add: regular_def fresh0_def page0_def)
  moreover have "\<not> vm_page_sbusied VPB_UNBUSIED"
    by (simp add: vm_page_sbusied_def VPB_UNBUSIED_def VPB_SHARERS_WORD_def VPB_BIT_SHARED_def)
  ultimately show ?thesis by (simp add: freeable_def fresh0_ok, simp add: fresh0_def page0_def)
qed

theorem free_page_witness: "\<exists>s'. vm_page_free env0 3 fresh0 = Inr s' \<and> phys s' = [3]"
proof -
  have f: "flags (pg fresh0 3) = {}" "hold_count (pg fresh0 3) = 0" "phys fresh0 = []"
    by (simp_all add: fresh0_def vm0_def page0_def)
  have "handed env0 3 [] = [3]" by (simp add: handed_def env0_def)
  then show ?thesis
    using free_page [OF env0_laws, of 3 fresh0] fresh0_freeable [of 3] by (auto simp: f)
qed

text \<open>
  Holding a page defers its release: freeing a held page detaches and marks it but gives it to
  the allocator only when the last hold is released, and then exactly once.
\<close>

theorem hold_defers_free:
  assumes laws: "radix_laws E view" and f: "freeable E view m s" and nf: "PG_FICTITIOUS \<notin> flags (pg s m)"
    and h: "hold_count (pg s m) \<noteq> 0"
  shows "\<exists>s1 s2. vm_page_free E m s = Inr s1 \<and> phys s1 = phys s \<and> PG_UNHOLDFREE \<in> flags (pg s1 m) \<and>
    vm_page_unhold E m s1 = Inr s2 \<and>
    phys s2 = (if hold_count (pg s m) = 1 then handed E m (phys s) else phys s) \<and>
    queue (pg s2 m) = PQ_NONE \<and> object (pg s2 m) = None"
proof -
  have fi: "PG_FICTITIOUS \<in> flags (pg (no_zero m s) m) \<longleftrightarrow> PG_FICTITIOUS \<in> flags (pg s m)" by simp
  obtain s1 where r: "vm_page_free_toq E m (no_zero m s) = Inr s1" "queues_ok E s1" "objs_ok view s1"
      "queue (pg s1 m) = PQ_NONE" "object (pg s1 m) = None" "hold_count (pg s1 m) = hold_count (pg s m)"
      "phys s1 = phys s" "PG_UNHOLDFREE \<in> flags (pg s1 m)"
      "flags (pg s1 m) \<inter> {PG_FICTITIOUS, PG_MARKER} = flags (pg (no_zero m s) m) \<inter> {PG_FICTITIOUS, PG_MARKER}"
      "wire_count (pg s1 m) = wire_count (pg s m)" "busy_lock (pg s1 m) \<in> {busy_lock (pg s m), VPB_UNBUSIED}"
    using free_toq_ok [OF laws no_zero_freeable [OF f]] h nf unfolding fi no_zero_sel(3,4,5,6) by auto
  have free: "vm_page_free E m s = Inr s1" using r(1) by (simp add: vm_page_free_def no_zero_def)
  define t where "t = upd_page m (\<lambda>x. x\<lparr>hold_count := hold_count x - 1\<rparr>) s1"
  have fl: "PG_FICTITIOUS \<notin> flags (pg s1 m)" "PG_MARKER \<notin> flags (pg s1 m)"
    using r(9) nf f by (auto simp: freeable_def regular_def)
  have unb: "\<not> vm_page_sbusied VPB_UNBUSIED"
    by (simp add: vm_page_sbusied_def VPB_UNBUSIED_def VPB_SHARERS_WORD_def VPB_BIT_SHARED_def)
  have t: "freeable E view m t"
  proof -
    have "queues_ok E t" by (rule queues_ok_cong [OF _ _ r(2)]) (simp_all add: t_def upd_pg_def)
    moreover have "objs_ok view t" by (rule objs_ok_cong [OF _ _ r(3)]) (simp_all add: t_def upd_pg_def)
    moreover have "\<not> vm_page_sbusied (busy_lock (pg t m))" using r(11) f unb by (auto simp: t_def freeable_def)
    moreover have "wire_count (pg t m) = 0" using r(10) f nf by (auto simp: t_def freeable_def)
    ultimately show ?thesis using fl by (simp add: freeable_def regular_def t_def)
  qed
  have u: "vm_page_unhold E m s1 = (if hold_count (pg s m) = 1 then vm_page_free_toq E m t else Inr t)"
    using r(6,8) by (simp add: vm_page_unhold_def Let_def t_def)
  show ?thesis
  proof (cases "hold_count (pg s m) = 1")
    case True
    have "hold_count (pg t m) = 0" using True r(6) by (simp add: t_def)
    moreover have "PG_FICTITIOUS \<notin> flags (pg t m)" using fl by (simp add: t_def)
    ultimately obtain s2 where "vm_page_free_toq E m t = Inr s2" "queue (pg s2 m) = PQ_NONE" "object (pg s2 m) = None"
        "phys s2 = handed E m (phys t)"
      using free_toq_ok [OF laws t] by auto
    moreover have "phys t = phys s" by (simp add: t_def r(7))
    ultimately show ?thesis using free r u True by (intro exI [of _ s1] exI [of _ s2]) simp
  next
    case False
    then show ?thesis using free r u by (intro exI [of _ s1] exI [of _ t]) (simp add: t_def)
  qed
qed

definition held0 :: "((nat \<times> pid) list, pid list) vm_sys" where
  "held0 = vm_page_hold 3 fresh0"

theorem hold_defers_free_witness:
  "\<exists>s1 s2. vm_page_free env0 3 held0 = Inr s1 \<and> phys s1 = [] \<and> vm_page_unhold env0 3 s1 = Inr s2 \<and> phys s2 = [3]"
proof -
  have fr: "freeable env0 map_of 3 held0"
  proof -
    have "queues_ok env0 held0"
      by (rule queues_ok_cong [of _ fresh0]) (use fresh0_freeable in \<open>auto simp: held0_def vm_page_hold_def upd_pg_def freeable_def\<close>)
    moreover have "objs_ok map_of held0"
      by (rule objs_ok_cong [OF _ _ fresh0_ok(1)]) (simp_all add: held0_def vm_page_hold_def upd_pg_def)
    ultimately show ?thesis
      using fresh0_freeable [of 3] by (simp add: freeable_def regular_def held0_def vm_page_hold_def)
  qed
  have f: "flags (pg held0 3) = {}" "hold_count (pg held0 3) = 1" "phys held0 = []"
    by (simp_all add: held0_def vm_page_hold_def fresh0_def vm0_def page0_def)
  have "handed env0 3 [] = [3]" by (simp add: handed_def env0_def)
  then show ?thesis using hold_defers_free [OF env0_laws fr] by (auto simp: f)
qed

text \<open>
  An attempt to free succeeds only on a page that is clean, also after its mappings are gone, and
  that nobody holds, wires or has busy; a failed attempt hands nothing to the allocator and touches
  no queue and no other page.
\<close>

theorem try_to_free_safe:
  assumes r: "vm_page_try_to_free E m s = Inr (freed, s')"
  shows "(freed \<longrightarrow> dirty (pg s m) = 0 \<and> hold_count (pg s m) = 0 \<and> wire_count (pg s m) = 0 \<and>
      VPO_UNMANAGED \<notin> oflags (pg s m) \<and> busy_lock (pg s m) = VPB_UNBUSIED \<and>
      (\<forall>ob. object (pg s m) = Some ob \<and> ref_count (objs s ob) \<noteq> 0 \<longrightarrow>
        dirty (pmap_remove_all E m (pg s m)) = 0)) \<and>
    (\<not> freed \<longrightarrow> phys s' = phys s \<and> vmd s' = vmd s \<and> objs s' = objs s \<and> (\<forall>n. n \<noteq> m \<longrightarrow> pg s' n = pg s n))"
proof (cases "dirty (pg s m) \<noteq> 0 \<or> hold_count (pg s m) \<noteq> 0 \<or> wire_count (pg s m) \<noteq> 0 \<or>
    VPO_UNMANAGED \<in> oflags (pg s m) \<or> vm_page_busied (busy_lock (pg s m))")
  case True
  then have "vm_page_try_to_free E m s = Inr (False, s)"
    by (auto simp: vm_page_try_to_free_def Let_def)
  then show ?thesis using r by auto
next
  case False
  define s1 where "s1 = (case object (pg s m) of
      Some ob \<Rightarrow> if ref_count (objs s ob) \<noteq> 0 then upd_page m (pmap_remove_all E m) s else s | None \<Rightarrow> s)"
  have e: "vm_page_try_to_free E m s =
      (if dirty (pg s1 m) \<noteq> 0 then Inr (False, s1) else and_then (vm_page_free E m s1) (\<lambda>s2. Inr (True, s2)))"
    using False by (simp add: vm_page_try_to_free_def Let_def s1_def)
  have keep: "phys s1 = phys s" "vmd s1 = vmd s" "objs s1 = objs s" "n \<noteq> m \<Longrightarrow> pg s1 n = pg s n" for n
    by (auto simp: s1_def split: option.split)
  have rem: "object (pg s m) = Some ob \<Longrightarrow> ref_count (objs s ob) \<noteq> 0 \<Longrightarrow> pg s1 m = pmap_remove_all E m (pg s m)" for ob
    by (simp add: s1_def)
  show ?thesis
  proof (cases "dirty (pg s1 m) = 0")
    case True
    then have "freed" using r e by auto
    then show ?thesis using False True rem by (auto simp: vm_page_busied_def)
  next
    case False
    then have "\<not> freed" "s' = s1" using r e by auto
    then show ?thesis using keep by simp
  qed
qed

theorem try_to_free_safe_witness:
  "vm_page_try_to_free env0 3 held0 = Inr (False, held0) \<and> phys held0 = []"
proof -
  have r: "vm_page_try_to_free env0 3 held0 = Inr (False, held0)"
    by (simp add: vm_page_try_to_free_def held0_def vm_page_hold_def fresh0_def page0_def)
  have "phys held0 = phys held0" using try_to_free_safe [OF r] by simp
  moreover have "phys held0 = []" by (simp add: held0_def vm_page_hold_def fresh0_def vm0_def)
  ultimately show ?thesis using r try_to_free_safe [OF r] by simp
qed

text \<open>Where advice moves a page: pages that will be needed and clean pages to the inactive queue, dirty ones to the laundry.\<close>

lemma advise_moves:
  assumes "movable s m" "queue (pg s m) \<noteq> PQ_ACTIVE"
  shows "queue (pg (vm_page_advise E m a s) m) =
    (case a of MADV_NORMAL \<Rightarrow> queue (pg s m) | MADV_WILLNEED \<Rightarrow> PQ_INACTIVE | MADV_FREE \<Rightarrow> PQ_INACTIVE
     | MADV_DONTNEED \<Rightarrow> if dirty (pg s m) \<noteq> 0 \<or> pmap_is_modified E m then PQ_LAUNDRY else PQ_INACTIVE)"
  using assms
  by (cases a) (auto simp: vm_page_advise_def Let_def activate_eq vm_page_deactivate_noreuse_def deactivate_eq launder_eq
      enqueue_sel movable_def vm_page_undirty_def vm_page_dirty_def vm_page_aflag_clear_def VM_PAGE_BITS_ALL_def)

end
