(* ===== verification/Vm_Scan.thy ===== *)
theory Vm_Scan
  imports Vm_Free_Props Vm_Daemon
begin

text \<open>
  The scan of the inactive queue by the page daemon (\<open>vm_pageout_scan\<close> of
  \<open>src/asgn3/vm/vm_pageout.c\<close>) and the two functions that take a page's or an object's lock with a
  marker page standing in for the caller's place.

  While such a lock is awaited other threads may change the queue: \<open>others\<close> is what they do to the
  state. The scan itself is modelled as it runs when all locks are free at the first try.
\<close>

section \<open>Markers\<close>

definition vm_pageout_init_marker :: "pq \<Rightarrow> vm_page" where
  "vm_pageout_init_marker q =
    zeroed_page\<lparr>flags := {PG_MARKER}, busy_lock := VPB_SINGLE_EXCLUSIVER, queue := q, hold_count := 1\<rparr>"

definition insert_marker :: "nat \<Rightarrow> pq \<Rightarrow> pid \<Rightarrow> pid \<Rightarrow> ('r, 'p) vm_sys \<Rightarrow> ('r, 'p) vm_sys" where
  "insert_marker d q m mk s = upd_queue d q (\<lambda>p. p\<lparr>pq_pl := tailq_insert_after m mk (pq_pl p)\<rparr>) s"

definition remove_marker :: "nat \<Rightarrow> pq \<Rightarrow> pid \<Rightarrow> ('r, 'p) vm_sys \<Rightarrow> ('r, 'p) vm_sys" where
  "remove_marker d q mk s = upd_queue d q (\<lambda>p. p\<lparr>pq_pl := tailq_remove mk (pq_pl p)\<rparr>) s"

text \<open>\<open>mk\<close> is the marker on the caller's stack, a page no other thread uses. The result: unchanged, the next page, the state.\<close>

definition vm_pageout_fallback_object_lock ::
    "('r, 'p) vm_env \<Rightarrow> (('r, 'p) vm_sys \<Rightarrow> ('r, 'p) vm_sys) \<Rightarrow> pid \<Rightarrow> pid \<Rightarrow> ('r, 'p) vm_sys
      \<Rightarrow> bool \<times> pid option \<times> ('r, 'p) vm_sys" where
  "vm_pageout_fallback_object_lock E others mk m s =
    (let s1 = upd_page mk (\<lambda>_. vm_pageout_init_marker (queue (pg s m))) s;
         (d, q) = vm_page_pagequeue E s1 m;
         ob = object (pg s1 m);
         s2 = others (insert_marker d q m mk s1);
         pl = pq_pl (vmd s2 d q);
         unchanged = (object (pg s2 m) = ob \<and> tailq_prev mk pl = Some m)
     in (unchanged, tailq_next mk pl, remove_marker d q mk s2))"

definition vm_pageout_page_lock ::
    "('r, 'p) vm_env \<Rightarrow> bool \<Rightarrow> (('r, 'p) vm_sys \<Rightarrow> ('r, 'p) vm_sys) \<Rightarrow> pid \<Rightarrow> pid \<Rightarrow> pid option \<Rightarrow> ('r, 'p) vm_sys
      \<Rightarrow> bool \<times> pid option \<times> ('r, 'p) vm_sys" where
  "vm_pageout_page_lock E got others mk m nxt s =
    (if got then (True, nxt, s)
     else
       (let s1 = upd_page mk (\<lambda>_. vm_pageout_init_marker (queue (pg s m))) s;
            (d, q) = vm_page_pagequeue E s1 m;
            s2 = others (insert_marker d q m mk s1);
            pl = pq_pl (vmd s2 d q)
        in (tailq_prev mk pl = Some m, tailq_next mk pl, remove_marker d q mk s2)))"

section \<open>The line the scan prints\<close>

definition eligible :: "('r, 'p) vm_sys \<Rightarrow> pid \<Rightarrow> bool" where
  "eligible s m \<longleftrightarrow> PG_MARKER \<notin> flags (pg s m) \<and> hold_count (pg s m) = 0 \<and> \<not> vm_page_busied (busy_lock (pg s m))"

fun report_loop :: "('r, 'p) vm_sys \<Rightarrow> pid list \<Rightarrow> pid option \<Rightarrow> pid option \<Rightarrow> nat \<Rightarrow> pid option \<times> pid option \<times> nat" where
  "report_loop s [] front back num_pgs = (front, back, num_pgs)"
| "report_loop s (m # ms) front back num_pgs =
    (if \<not> eligible s m then report_loop s ms front back num_pgs
     else report_loop s ms (if front = None then Some m else front) (if ms = [] then Some m else back) (num_pgs + 1))"

text \<open>The variable \<open>back\<close> is not initialised, \<open>front\<close> is null at first; both are followed.\<close>

definition scan_report :: "('r, 'p) vm_sys \<Rightarrow> nat \<Rightarrow> fault + (nat \<times> u64 \<times> u64)" where
  "scan_report s d =
    (case report_loop s (pq_pl (vmd s d PQ_INACTIVE)) None None 0 of
       (None, _, _) \<Rightarrow> Inl Null_deref
     | (_, None, _) \<Rightarrow> Inl Uninitialised
     | (Some front, Some back, num_pgs) \<Rightarrow> Inr (num_pgs, pg_id (pg s front), pg_id (pg s back)))"

section \<open>The scan\<close>

text \<open>
  What happens to a page taken off the queue: an invalid page is freed at once, another is freed when
  it is clean once its mappings are gone, a dirty one goes to the laundry unless its object is dead.
  The result counts the page if it was freed.
\<close>

definition reclaim ::
    "('r, 'p) vm_env \<Rightarrow> pid \<Rightarrow> oid \<Rightarrow> ('r, 'p) vm_sys \<Rightarrow> fault + (int \<times> ('r, 'p) vm_sys)" where
  "reclaim E m ob s =
    (if valid (pg s m) = 0 then and_then (vm_page_free E m s) (\<lambda>s'. Inr (1, s'))
     else
       (let s1 = (if ref_count (objs s ob) \<noteq> 0
                  then (let s0 = upd_page m (vm_page_test_dirty (pmap_is_modified E m)) s
                        in if dirty (pg s0 m) = 0 then upd_page m (pmap_remove_all E m) s0 else s0)
                  else s)
        in if dirty (pg s1 m) = 0 then and_then (vm_page_free E m s1) (\<lambda>s'. Inr (1, s'))
           else Inr (0, if \<not> obj_dead (objs s1 ob) then vm_page_launder E m s1 else s1)))"

text \<open>One page; \<open>mk\<close> is the daemon's marker of the domain. The result: the next page, pages freed, pages stuck.\<close>

definition scan_page ::
    "('r, 'p) vm_env \<Rightarrow> pid \<Rightarrow> nat \<Rightarrow> pid \<Rightarrow> ('r, 'p) vm_sys \<Rightarrow> fault + (pid option \<times> int \<times> nat \<times> ('r, 'p) vm_sys)" where
  "scan_page E mk d m s =
    (let nxt = tailq_next m (pq_pl (vmd s d PQ_INACTIVE))
     in if PG_MARKER \<in> flags (pg s m) then Inr (nxt, 0, 0, s)
        else if hold_count (pg s m) \<noteq> 0 then Inr (nxt, 0, 1, s)
        else case object (pg s m) of
               None \<Rightarrow> Inl Null_deref
             | Some ob \<Rightarrow>
                 if vm_page_busied (busy_lock (pg s m)) then Inr (nxt, 0, 1, s)
                 else and_then (reclaim E m ob (vm_page_dequeue_locked E m (insert_marker d PQ_INACTIVE m mk s)))
                   (\<lambda>(freed, s1). Inr (tailq_next mk (pq_pl (vmd s1 d PQ_INACTIVE)), freed, 0,
                      remove_marker d PQ_INACTIVE mk s1)))"

fun scan_loop ::
    "('r, 'p) vm_env \<Rightarrow> pid \<Rightarrow> nat \<Rightarrow> nat \<Rightarrow> pid option \<Rightarrow> int \<Rightarrow> nat \<Rightarrow> ('r, 'p) vm_sys
      \<Rightarrow> fault + (int \<times> nat \<times> ('r, 'p) vm_sys)" where
  "scan_loop E mk d maxscan None page_shortage addl s = Inr (page_shortage, addl, s)"
| "scan_loop E mk d 0 (Some m) page_shortage addl s = Inr (page_shortage, addl, s)"
| "scan_loop E mk d (Suc n) (Some m) page_shortage addl s =
    (if page_shortage > 0
     then and_then (scan_page E mk d m s) (\<lambda>(nxt, freed, stuck, s1).
            scan_loop E mk d n nxt (page_shortage - freed) (addl + stuck) s1)
     else Inr (page_shortage, addl, s))"

text \<open>What the scan reads and writes besides the pages.\<close>

record scan_state =
  laundry_req :: laundry_request
  pageout_deficit :: int
  lowmem_uptime :: int
  lowmem_events :: nat
  swapouts :: nat
  votes :: oom_state

definition vm_pageout_scan ::
    "('r, 'p) vm_env \<Rightarrow> pid \<Rightarrow> nat \<Rightarrow> nat \<Rightarrow> int \<Rightarrow> int \<Rightarrow> int \<Rightarrow> int \<Rightarrow> scan_state \<times> ('r, 'p) vm_sys
      \<Rightarrow> fault + (bool \<times> scan_state \<times> ('r, 'p) vm_sys)" where
  "vm_pageout_scan E mk d level time_uptime lowmem_period paging_target seqmax = (\<lambda>(c, s).
    (let c1 = (if d = 0 \<and> level > 0 \<and> time_uptime - lowmem_uptime c \<ge> lowmem_period
               then c\<lparr>lowmem_events := lowmem_events c + 1, lowmem_uptime := time_uptime\<rparr> else c);
         deficit = (if level > 0 then pageout_deficit c1 else 0);
         c2 = (if level > 0 then c1\<lparr>pageout_deficit := 0\<rparr> else c1);
         start = (if level > 0 then paging_target + deficit else 0);
         maxscan = nat (pq_cnt (vmd s d PQ_INACTIVE))
     in and_then (scan_report s d) (\<lambda>_.
        and_then (scan_loop E mk d maxscan (tailq_first (pq_pl (vmd s d PQ_INACTIVE))) start 0 s) (\<lambda>(shortage, addl, s1).
          let c3 = (if laundry_req c2 = VM_LAUNDRY_IDLE \<and> start > 0
                    then c2\<lparr>laundry_req := if shortage > 0 then VM_LAUNDRY_SHORTFALL
                             else if laundry_req c2 \<noteq> VM_LAUNDRY_SHORTFALL then VM_LAUNDRY_BACKGROUND
                             else laundry_req c2\<rparr> else c2);
              c4 = (if shortage > 0 then c3\<lparr>swapouts := swapouts c3 + 1\<rparr> else c3);
              c5 = c4\<lparr>votes := vm_pageout_mightbe_oom (vm_ndomains E) seqmax d shortage start (votes c4)\<rparr>
          in Inr (shortage \<le> 0, c5, s1)))))"

end
