(* ===== verification/Vm_Scan_Props.thy ===== *)
theory Vm_Scan_Props
  imports Vm_Scan
begin

text \<open>
  Properties of the scan of the inactive queue: it refines a loop over the list that decides the fate
  of each page from the page alone, keeps the invariants of queues and objects, and faults when the
  line it prints finds no candidate.
\<close>

section \<open>Freeing a page that is on no queue\<close>

lemma remove_objs_same:
  "ref_count (objs (vm_page_remove E m s) a) = ref_count (objs s a)"
  "obj_dead (objs (vm_page_remove E m s) a) = obj_dead (objs s a)"
  by (auto simp: vm_page_remove_def Let_def split: option.split)

lemma free_prep_keeps:
  assumes "vm_page_free_prep E m l s = Inr (r, s')" and "queue (pg s m) = PQ_NONE"
  shows "vmd s' = vmd s \<and> ref_count (objs s' a) = ref_count (objs s a) \<and> obj_dead (objs s' a) = obj_dead (objs s a)"
proof -
  define s3 where "s3 = vm_page_remove E m (cnt_add v_tfree 1 s)"
  have s3: "vmd s3 = vmd s" "ref_count (objs s3 a) = ref_count (objs s a)" "obj_dead (objs s3 a) = obj_dead (objs s a)"
    by (simp_all add: s3_def remove_objs_same)
  show ?thesis
    using assms s3 by (auto simp: vm_page_free_prep_def Let_def s3_def [symmetric] split: if_splits)
qed

lemma free_keeps:
  assumes "vm_page_free E m s = Inr s'" and "queue (pg s m) = PQ_NONE"
  shows "vmd s' = vmd s \<and> ref_count (objs s' a) = ref_count (objs s a) \<and> obj_dead (objs s' a) = obj_dead (objs s a)"
proof -
  obtain r s1 where p: "vm_page_free_prep E m False (no_zero m s) = Inr (r, s1)"
    and s': "s' = (if r then vm_page_free_wakeup E (vm_page_free_phys E m s1) else s1)"
    using assms(1) by (auto simp: vm_page_free_def vm_page_free_toq_def no_zero_def [symmetric])
  have "queue (pg (no_zero m s) m) = PQ_NONE" using assms(2) by (simp add: no_zero_def)
  from free_prep_keeps [OF p this, of a] show ?thesis by (simp add: s' no_zero_def)
qed

section \<open>The fate of a page\<close>

datatype fate = Stay | Freed | Laundered | Dropped

text \<open>The page as it is once its mappings are gone, and what becomes of it.\<close>

definition unmapped :: "('r, 'p) vm_env \<Rightarrow> pid \<Rightarrow> int \<Rightarrow> vm_page \<Rightarrow> vm_page" where
  "unmapped E m refs x =
    (if refs \<noteq> 0
     then (let y = vm_page_test_dirty (pmap_is_modified E m) x in if dirty y = 0 then pmap_remove_all E m y else y)
     else x)"

definition fate_of :: "('r, 'p) vm_env \<Rightarrow> pid \<Rightarrow> int \<Rightarrow> bool \<Rightarrow> vm_page \<Rightarrow> fate" where
  "fate_of E m refs dead x =
    (if PG_MARKER \<in> flags x \<or> hold_count x \<noteq> 0 \<or> vm_page_busied (busy_lock x) then Stay
     else if valid x = 0 then Freed
     else if dirty (unmapped E m refs (x\<lparr>queue := PQ_NONE\<rparr>)) = 0 then Freed
     else if dead then Dropped else Laundered)"

definition fate :: "('r, 'p) vm_env \<Rightarrow> ('r, 'p) vm_sys \<Rightarrow> pid \<Rightarrow> fate" where
  "fate E s m = (case object (pg s m) of
     None \<Rightarrow> Stay
   | Some ob \<Rightarrow> fate_of E m (ref_count (objs s ob)) (obj_dead (objs s ob)) (pg s m))"

text \<open>Taking the mappings away changes nothing but may leave the page dirty.\<close>

definition pmap_fair :: "('r, 'p) vm_env \<Rightarrow> bool" where
  "pmap_fair E \<longleftrightarrow> (\<forall>m x. pmap_remove_all E m x = x \<or> pmap_remove_all E m x = vm_page_dirty x)"

lemma unmapped_cases: "pmap_fair E \<Longrightarrow> unmapped E m refs x = x \<or> unmapped E m refs x = vm_page_dirty x"
proof -
  assume p: "pmap_fair E"
  have "vm_page_test_dirty c x = x \<or> vm_page_test_dirty c x = vm_page_dirty x" for c
    by (simp add: vm_page_test_dirty_def)
  moreover have "vm_page_dirty (vm_page_dirty x) = vm_page_dirty x" by (simp add: vm_page_dirty_def)
  moreover have "pmap_remove_all E m y = y \<or> pmap_remove_all E m y = vm_page_dirty y" for y
    using p by (simp add: pmap_fair_def)
  ultimately show ?thesis unfolding unmapped_def Let_def by metis
qed

lemma page_dirty_sel [simp]:
  "object (vm_page_dirty x) = object x" "pindex (vm_page_dirty x) = pindex x" "queue (vm_page_dirty x) = queue x"
  "flags (vm_page_dirty x) = flags x" "oflags (vm_page_dirty x) = oflags x" "wire_count (vm_page_dirty x) = wire_count x"
  "hold_count (vm_page_dirty x) = hold_count x" "busy_lock (vm_page_dirty x) = busy_lock x" "valid (vm_page_dirty x) = valid x"
  by (simp_all add: vm_page_dirty_def)

lemma reclaim_eq:
  assumes "valid (pg s m) \<noteq> 0"
  shows "reclaim E m ob s =
    (let s1 = upd_page m (unmapped E m (ref_count (objs s ob))) s
     in if dirty (pg s1 m) = 0 then and_then (vm_page_free E m s1) (\<lambda>s'. Inr (1, s'))
        else Inr (0, if \<not> obj_dead (objs s1 ob) then vm_page_launder E m s1 else s1))"
proof -
  have same: "upd_page m (\<lambda>x. x) s = s" by (simp add: upd_page_def upd_pg_def)
  have comp: "upd_page m f (upd_page m g s) = upd_page m (\<lambda>x. f (g x)) s" for f g
    by (simp add: upd_page_def upd_pg_def)
  have point: "upd_page m f s = upd_page m g s" if "f (pg s m) = g (pg s m)" for f g
    using that by (simp add: upd_page_def upd_pg_def)
  have "(if ref_count (objs s ob) \<noteq> 0
         then (let s0 = upd_page m (vm_page_test_dirty (pmap_is_modified E m)) s
               in if dirty (pg s0 m) = 0 then upd_page m (pmap_remove_all E m) s0 else s0)
         else s) = upd_page m (unmapped E m (ref_count (objs s ob))) s"
  proof (cases "ref_count (objs s ob) \<noteq> 0")
    case False
    then have "upd_page m (unmapped E m (ref_count (objs s ob))) s = upd_page m (\<lambda>x. x) s"
      by (intro point) (simp add: unmapped_def)
    then show ?thesis using False same by simp
  next
    case True
    have "(let s0 = upd_page m (vm_page_test_dirty (pmap_is_modified E m)) s
        in if dirty (pg s0 m) = 0 then upd_page m (pmap_remove_all E m) s0 else s0) =
      upd_page m (unmapped E m (ref_count (objs s ob))) s"
    proof (cases "dirty (vm_page_test_dirty (pmap_is_modified E m) (pg s m)) = 0")
      case d: True
      have "upd_page m (unmapped E m (ref_count (objs s ob))) s =
          upd_page m (\<lambda>x. pmap_remove_all E m (vm_page_test_dirty (pmap_is_modified E m) x)) s"
        by (intro point) (simp add: unmapped_def True d)
      then show ?thesis using d by (simp add: comp)
    next
      case d: False
      have "upd_page m (unmapped E m (ref_count (objs s ob))) s =
          upd_page m (vm_page_test_dirty (pmap_is_modified E m)) s"
        by (intro point) (simp add: unmapped_def True d)
      then show ?thesis using d by simp
    qed
    then show ?thesis using True by simp
  qed
  then show ?thesis using assms unfolding reclaim_def by simp
qed

lemma unbusied_not_shared: "\<not> vm_page_busied w \<Longrightarrow> \<not> vm_page_sbusied w"
  by (simp add: vm_page_busied_def vm_page_sbusied_def VPB_UNBUSIED_def VPB_SHARERS_WORD_def VPB_BIT_SHARED_def)

lemma freeableI:
  assumes "queues_ok E s" "objs_ok view s" "regular s m" "movable s m" "\<not> vm_page_busied (busy_lock (pg s m))"
  shows "freeable E view m s"
  using assms unbusied_not_shared by (auto simp: freeable_def movable_def)

lemma reclaim_ok:
  assumes laws: "radix_laws E view" and pf: "pmap_fair E" and q: "queues_ok E s" and ob: "objs_ok view s"
    and m: "regular s m" "queue (pg s m) = PQ_NONE" "movable s m" "hold_count (pg s m) = 0"
      "PG_FICTITIOUS \<notin> flags (pg s m)" "\<not> vm_page_busied (busy_lock (pg s m))"
    and F: "F = fate_of E m (ref_count (objs s ob)) (obj_dead (objs s ob)) (pg s m)"
  shows "\<exists>s'. reclaim E m ob s = Inr (if F = Freed then 1 else 0, s') \<and> queues_ok E s' \<and> objs_ok view s' \<and>
    (\<forall>n. n \<noteq> m \<longrightarrow> pg s' n = pg s n) \<and>
    (\<forall>a. ref_count (objs s' a) = ref_count (objs s a) \<and> obj_dead (objs s' a) = obj_dead (objs s a)) \<and>
    phys s' = (if F = Freed then handed E m (phys s) else phys s) \<and>
    (\<forall>d r. vmd s' d r = (if F = Laundered \<and> d = 0 \<and> r = PQ_LAUNDRY
       then \<lparr>pq_pl = pq_pl (vmd s d r) @ [m], pq_cnt = pq_cnt (vmd s d r) + 1\<rparr> else vmd s d r))"
proof -
  have xq: "(pg s m)\<lparr>queue := PQ_NONE\<rparr> = pg s m" using m(2) by simp
  have fm: "PG_MARKER \<notin> flags (pg s m)" using m(1) by (simp add: regular_def)
  have freed: "\<exists>s'. vm_page_free E m t = Inr s' \<and> queues_ok E s' \<and> objs_ok view s' \<and>
      (\<forall>n. n \<noteq> m \<longrightarrow> pg s' n = pg t n) \<and>
      (\<forall>a. ref_count (objs s' a) = ref_count (objs t a) \<and> obj_dead (objs s' a) = obj_dead (objs t a)) \<and>
      phys s' = handed E m (phys t) \<and> vmd s' = vmd t"
    if t: "queues_ok E t" "objs_ok view t" "regular t m" "movable t m" "\<not> vm_page_busied (busy_lock (pg t m))"
      "queue (pg t m) = PQ_NONE" "hold_count (pg t m) = 0" "PG_FICTITIOUS \<notin> flags (pg t m)" for t
  proof -
    obtain s' where r: "vm_page_free E m t = Inr s'" "queues_ok E s'" "objs_ok view s'"
        "\<forall>n. n \<noteq> m \<longrightarrow> pg s' n = pg t n" "phys s' = handed E m (phys t)"
      using free_ok [OF laws freeableI [OF t(1-5)]] t(7,8) by auto
    show ?thesis using r free_keeps [OF r(1) t(6)] by auto
  qed
  show ?thesis
  proof (cases "valid (pg s m) = 0")
    case True
    have "F = Freed" using True m fm by (simp add: F fate_of_def)
    moreover obtain s' where r: "vm_page_free E m s = Inr s'" "queues_ok E s'" "objs_ok view s'"
        "\<forall>n. n \<noteq> m \<longrightarrow> pg s' n = pg s n"
        "\<forall>a. ref_count (objs s' a) = ref_count (objs s a) \<and> obj_dead (objs s' a) = obj_dead (objs s a)"
        "phys s' = handed E m (phys s)" "vmd s' = vmd s"
      using freed [OF q ob m(1,3,6,2,4,5)] by blast
    ultimately show ?thesis using True by (intro exI [of _ s']) (simp add: reclaim_def)
  next
    case False
    define t where "t = upd_page m (unmapped E m (ref_count (objs s ob))) s"
    have pgm: "pg t m = unmapped E m (ref_count (objs s ob)) (pg s m)" by (simp add: t_def)
    have sel: "flags (pg t n) = flags (pg s n)" "queue (pg t n) = queue (pg s n)" "wire_count (pg t n) = wire_count (pg s n)"
      "oflags (pg t n) = oflags (pg s n)" "object (pg t n) = object (pg s n)" "pindex (pg t n) = pindex (pg s n)"
      "hold_count (pg t n) = hold_count (pg s n)" "busy_lock (pg t n) = busy_lock (pg s n)" for n
      using unmapped_cases [OF pf, of m "ref_count (objs s ob)" "pg s m"] by (auto simp: t_def upd_pg_def)
    have oth: "n \<noteq> m \<Longrightarrow> pg t n = pg s n" and env: "vmd t = vmd s" "objs t = objs s" "phys t = phys s" for n
      by (simp_all add: t_def)
    have qt: "queues_ok E t" by (rule queues_ok_cong [OF _ _ q]) (simp_all add: sel env)
    have bt: "objs_ok view t" by (rule objs_ok_cong [OF _ _ ob]) (simp_all add: sel env)
    have mt: "regular t m" "movable t m" "\<not> vm_page_busied (busy_lock (pg t m))" "queue (pg t m) = PQ_NONE"
      "hold_count (pg t m) = 0" "PG_FICTITIOUS \<notin> flags (pg t m)"
      using m by (simp_all add: regular_def movable_def sel)
    have Fd: "F = (if dirty (pg t m) = 0 then Freed else if obj_dead (objs s ob) then Dropped else Laundered)"
      using False m fm by (simp add: F fate_of_def pgm xq)
    have e: "reclaim E m ob s = (if dirty (pg t m) = 0 then and_then (vm_page_free E m t) (\<lambda>s'. Inr (1, s'))
        else Inr (0, if \<not> obj_dead (objs t ob) then vm_page_launder E m t else t))"
      using reclaim_eq [OF False, of E ob] by (simp add: t_def Let_def)
    show ?thesis
    proof (cases "dirty (pg t m) = 0")
      case True
      obtain s' where r: "vm_page_free E m t = Inr s'" "queues_ok E s'" "objs_ok view s'"
          "\<forall>n. n \<noteq> m \<longrightarrow> pg s' n = pg t n"
          "\<forall>a. ref_count (objs s' a) = ref_count (objs t a) \<and> obj_dead (objs s' a) = obj_dead (objs t a)"
          "phys s' = handed E m (phys t)" "vmd s' = vmd t"
        using freed [OF qt bt mt] by blast
      then show ?thesis using True e Fd oth env by (intro exI [of _ s']) simp
    next
      case d: False
      show ?thesis
      proof (cases "obj_dead (objs s ob)")
        case True
        then show ?thesis using d e Fd oth env qt bt by (intro exI [of _ t]) simp
      next
        case False
        have l: "vm_page_launder E m t = vm_page_enqueue E PQ_LAUNDRY m t"
          using mt by (simp add: launder_eq vm_page_remque_def)
        define u where "u = vm_page_enqueue E PQ_LAUNDRY m t"
        have qu: "queues_ok E u" unfolding u_def by (rule enqueue_ok [OF qt mt(1,4,2)]) simp_all
        have bu: "objs_ok view u"
          by (rule objs_ok_cong [OF _ _ bt]) (simp_all add: u_def enqueue_sel upd_pg_def)
        have "F = Laundered" using Fd d False by simp
        moreover have "reclaim E m ob s = Inr (0, u)" using e d False by (simp add: env l u_def)
        moreover have "phys u = phys s" "\<forall>n. n \<noteq> m \<longrightarrow> pg u n = pg s n" "objs u = objs s"
          using oth by (simp_all add: u_def enqueue_sel env)
        moreover have "vmd u a r = (if a = 0 \<and> r = PQ_LAUNDRY
            then \<lparr>pq_pl = pq_pl (vmd s a r) @ [m], pq_cnt = pq_cnt (vmd s a r) + 1\<rparr> else vmd s a r)" for a r
          by (auto simp: u_def enqueue_sel env qdom_def)
        ultimately show ?thesis using qu bu by (intro exI [of _ u]) simp
      qed
    qed
  qed
qed

section \<open>Markers in a queue\<close>

definition scan_ready :: "('r, 'p) vm_env \<Rightarrow> ('r \<Rightarrow> nat \<Rightarrow> pid option) \<Rightarrow> pid \<Rightarrow> nat \<Rightarrow> ('r, 'p) vm_sys \<Rightarrow> bool" where
  "scan_ready E view mk d s \<longleftrightarrow> queues_ok E s \<and> objs_ok view s \<and> PG_MARKER \<in> flags (pg s mk) \<and>
    (\<forall>e q. mk \<notin> set (pq_pl (vmd s e q))) \<and>
    (\<forall>m\<in>set (pq_pl (vmd s d PQ_INACTIVE)). regular s m \<longrightarrow>
      object (pg s m) \<noteq> None \<and> PG_FICTITIOUS \<notin> flags (pg s m))"

lemma marker_sel [simp]:
  "pg (insert_marker d q m mk s) = pg s" "objs (insert_marker d q m mk s) = objs s" "phys (insert_marker d q m mk s) = phys s"
  "pg (remove_marker d q mk s) = pg s" "objs (remove_marker d q mk s) = objs s" "phys (remove_marker d q mk s) = phys s"
  by (simp_all add: insert_marker_def remove_marker_def)

lemma marker_regular: "regular (insert_marker d q m mk s) = regular s" "regular (remove_marker d q mk s) = regular s"
  by (auto simp: regular_def)

lemma insert_after_split: "m \<notin> set us \<Longrightarrow> tailq_insert_after m mk (us @ m # vs) = us @ m # mk # vs"
  by (induction us) auto

lemma insert_marker_ok:
  assumes ok: "queues_ok E s" and mk: "PG_MARKER \<in> flags (pg s mk)" "\<forall>e q. mk \<notin> set (pq_pl (vmd s e q))"
    and sp: "pq_pl (vmd s d q) = us @ m # vs"
  shows "queues_ok E (insert_marker d q m mk s)"
proof -
  let ?s = "insert_marker d q m mk s"
  have dis: "distinct (us @ m # vs)" using queues_okD(1) [OF ok, of d q] sp by simp
  have v: "vmd ?s e r = (if e = d \<and> r = q then (vmd s d q)\<lparr>pq_pl := us @ m # mk # vs\<rparr> else vmd s e r)" for e r
    using dis by (auto simp: insert_marker_def sp insert_after_split)
  have nr: "\<not> regular s mk" using mk(1) by (simp add: regular_def)
  have mo: "movable ?s n = movable s n" for n by (simp add: movable_def)
  show ?thesis
  proof (rule queues_okI)
    show "\<forall>e r. distinct (pq_pl (vmd ?s e r))"
      using queues_okD(1) [OF ok] dis mk(2) [rule_format, of d q] by (auto simp: v sp)
    show "\<forall>n e r. regular ?s n \<longrightarrow>
      (n \<in> set (pq_pl (vmd ?s e r)) \<longleftrightarrow> queue (pg ?s n) = r \<and> r \<noteq> PQ_NONE \<and> e = qdom E r n)"
    proof (intro allI impI)
      fix n e r
      assume "regular ?s n"
      then have n: "regular s n" "n \<noteq> mk" using nr by (auto simp: marker_regular)
      have "n \<in> set (pq_pl (vmd ?s e r)) \<longleftrightarrow> n \<in> set (pq_pl (vmd s e r))" using n(2) by (auto simp: v sp)
      then show "n \<in> set (pq_pl (vmd ?s e r)) \<longleftrightarrow> queue (pg ?s n) = r \<and> r \<noteq> PQ_NONE \<and> e = qdom E r n"
        using queues_okD(2) [OF ok n(1)] by simp
    qed
    show "\<forall>n. regular ?s n \<and> queue (pg ?s n) \<noteq> PQ_NONE \<longrightarrow> movable ?s n"
      using queues_okD(3) [OF ok] by (simp add: marker_regular mo)
    show "\<forall>e r. pq_cnt (vmd ?s e r) = int (length (filter (regular ?s) (pq_pl (vmd ?s e r))))"
      using queues_okD(4) [OF ok] nr by (simp add: v marker_regular sp)
  qed
qed

lemma remove_marker_ok:
  assumes ok: "queues_ok E s" and mk: "PG_MARKER \<in> flags (pg s mk)"
  shows "queues_ok E (remove_marker d q mk s)"
proof -
  let ?s = "remove_marker d q mk s"
  have v: "vmd ?s e r = (if e = d \<and> r = q then (vmd s d q)\<lparr>pq_pl := tailq_remove mk (pq_pl (vmd s d q))\<rparr> else vmd s e r)" for e r
    by (simp add: remove_marker_def)
  have nr: "\<not> regular s mk" using mk by (simp add: regular_def)
  have mo: "movable ?s n = movable s n" for n by (simp add: movable_def)
  have fl: "filter (regular s) (remove1 mk xs) = filter (regular s) xs" for xs using nr by (induction xs) auto
  show ?thesis
  proof (rule queues_okI)
    show "\<forall>e r. distinct (pq_pl (vmd ?s e r))" using queues_okD(1) [OF ok] by (simp add: v)
    show "\<forall>n e r. regular ?s n \<longrightarrow>
      (n \<in> set (pq_pl (vmd ?s e r)) \<longleftrightarrow> queue (pg ?s n) = r \<and> r \<noteq> PQ_NONE \<and> e = qdom E r n)"
    proof (intro allI impI)
      fix n e r
      assume "regular ?s n"
      then have n: "regular s n" "n \<noteq> mk" using nr by (auto simp: marker_regular)
      have "n \<in> set (pq_pl (vmd ?s e r)) \<longleftrightarrow> n \<in> set (pq_pl (vmd s e r))"
        using n(2) queues_okD(1) [OF ok] by (auto simp: v)
      then show "n \<in> set (pq_pl (vmd ?s e r)) \<longleftrightarrow> queue (pg ?s n) = r \<and> r \<noteq> PQ_NONE \<and> e = qdom E r n"
        using queues_okD(2) [OF ok n(1)] by simp
    qed
    show "\<forall>n. regular ?s n \<and> queue (pg ?s n) \<noteq> PQ_NONE \<longrightarrow> movable ?s n"
      using queues_okD(3) [OF ok] by (simp add: marker_regular mo)
    show "\<forall>e r. pq_cnt (vmd ?s e r) = int (length (filter (regular ?s) (pq_pl (vmd ?s e r))))"
      using queues_okD(4) [OF ok] by (simp add: v marker_regular tailq_remove_def fl)
  qed
qed

section \<open>One page\<close>

lemma scan_page_ok:
  assumes laws: "radix_laws E view" and pf: "pmap_fair E" and r: "scan_ready E view mk d s"
    and sp: "pq_pl (vmd s d PQ_INACTIVE) = us @ m # vs"
  shows "\<exists>stuck s'. scan_page E mk d m s = Inr (tailq_first vs, if fate E s m = Freed then 1 else 0, stuck, s') \<and>
    scan_ready E view mk d s' \<and> pq_pl (vmd s' d PQ_INACTIVE) = us @ (if fate E s m = Stay then m # vs else vs) \<and>
    (\<forall>n. n \<noteq> m \<longrightarrow> fate E s' n = fate E s n) \<and>
    phys s' = (if fate E s m = Freed then handed E m (phys s) else phys s) \<and>
    pq_pl (vmd s' 0 PQ_LAUNDRY) = pq_pl (vmd s 0 PQ_LAUNDRY) @ (if fate E s m = Laundered then [m] else [])"
proof -
  have ok: "queues_ok E s" and ob: "objs_ok view s" and mk: "PG_MARKER \<in> flags (pg s mk)" "\<forall>e q. mk \<notin> set (pq_pl (vmd s e q))"
    and pages: "\<forall>m\<in>set (us @ m # vs). regular s m \<longrightarrow> object (pg s m) \<noteq> None \<and> PG_FICTITIOUS \<notin> flags (pg s m)"
    using r sp by (auto simp: scan_ready_def)
  have dis: "distinct (us @ m # vs)" using queues_okD(1) [OF ok, of d PQ_INACTIVE] sp by simp
  have nx: "tailq_next m (pq_pl (vmd s d PQ_INACTIVE)) = tailq_first vs" unfolding sp by (rule tailq_next_split [OF dis])
  show ?thesis
  proof (cases "PG_MARKER \<in> flags (pg s m) \<or> hold_count (pg s m) \<noteq> 0 \<or> vm_page_busied (busy_lock (pg s m))")
    case True
    have f: "fate E s m = Stay" using True by (auto simp: fate_def fate_of_def split: option.split)
    have "\<exists>stuck. scan_page E mk d m s = Inr (tailq_first vs, 0, stuck, s)"
    proof (cases "PG_MARKER \<in> flags (pg s m) \<or> hold_count (pg s m) \<noteq> 0")
      case True
      then show ?thesis by (auto simp: scan_page_def nx Let_def)
    next
      case False
      then obtain o1 where "object (pg s m) = Some o1" using pages by (auto simp: regular_def)
      then show ?thesis using False True by (simp add: scan_page_def nx Let_def)
    qed
    then show ?thesis using f r sp by auto
  next
    case False
    then have m: "regular s m" "hold_count (pg s m) = 0" "\<not> vm_page_busied (busy_lock (pg s m))" by (auto simp: regular_def)
    obtain o1 where o1: "object (pg s m) = Some o1" and nf: "PG_FICTITIOUS \<notin> flags (pg s m)" using pages m(1) by auto
    have qm: "queue (pg s m) = PQ_INACTIVE" "d = qdom E PQ_INACTIVE m"
      using queues_okD(2) [OF ok m(1), of d PQ_INACTIVE] sp by auto
    have mv: "movable s m" using queues_okD(3) [OF ok m(1)] qm by simp
    have mn: "m \<noteq> mk" using m(1) mk(1) by (auto simp: regular_def)
    define s1 where "s1 = insert_marker d PQ_INACTIVE m mk s"
    define t where "t = vm_page_dequeue E m s1"
    have ok1: "queues_ok E s1" unfolding s1_def by (rule insert_marker_ok [OF ok mk sp])
    have pg1: "pg s1 = pg s" by (simp add: s1_def)
    have okt: "queues_ok E t"
      unfolding t_def by (rule dequeue_ok [OF ok1]) (use m qm in \<open>simp_all add: s1_def marker_regular\<close>)
    have obt: "objs_ok view t" by (rule objs_ok_cong [OF _ _ ob]) (simp_all add: t_def s1_def upd_pg_def)
    have pgt: "pg t = upd_pg (pg s) m (\<lambda>x. x\<lparr>queue := PQ_NONE\<rparr>)" "objs t = objs s" "phys t = phys s"
      by (simp_all add: t_def s1_def)
    have pl1: "pq_pl (vmd s1 d PQ_INACTIVE) = us @ m # mk # vs"
      using dis by (simp add: s1_def insert_marker_def sp insert_after_split)
    have "pq_pl (vmd t d PQ_INACTIVE) = tailq_remove m (pq_pl (vmd s1 d PQ_INACTIVE))"
      unfolding t_def dequeue_vmd pg1 qm(1) using qm(2) by simp
    then have plt: "pq_pl (vmd t d PQ_INACTIVE) = us @ mk # vs"
      unfolding pl1 using dis by (simp add: tailq_remove_def remove1_append)
    have vt: "vmd t e q = vmd s e q" if "\<not> (e = d \<and> q = PQ_INACTIVE)" for e q
      using that qm by (auto simp: t_def dequeue_vmd pg1 s1_def insert_marker_def)
    have mt: "regular t m" "queue (pg t m) = PQ_NONE" "movable t m" "hold_count (pg t m) = 0"
      "PG_FICTITIOUS \<notin> flags (pg t m)" "\<not> vm_page_busied (busy_lock (pg t m))"
      using m mv nf by (simp_all add: pgt regular_def movable_def)
    have same: "unmapped E m (ref_count (objs t o1)) ((pg t m)\<lparr>queue := PQ_NONE\<rparr>) =
        unmapped E m (ref_count (objs s o1)) ((pg s m)\<lparr>queue := PQ_NONE\<rparr>)" by (simp add: pgt)
    have F: "fate E s m = fate_of E m (ref_count (objs t o1)) (obj_dead (objs t o1)) (pg t m)"
      unfolding fate_def fate_of_def o1 option.case same by (simp add: pgt)
    obtain u where u: "reclaim E m o1 t = Inr (if fate E s m = Freed then 1 else 0, u)" "queues_ok E u" "objs_ok view u"
        "\<forall>n. n \<noteq> m \<longrightarrow> pg u n = pg t n"
        "\<forall>a. ref_count (objs u a) = ref_count (objs t a) \<and> obj_dead (objs u a) = obj_dead (objs t a)"
        "phys u = (if fate E s m = Freed then handed E m (phys t) else phys t)"
        "\<forall>e q. vmd u e q = (if fate E s m = Laundered \<and> e = 0 \<and> q = PQ_LAUNDRY
           then \<lparr>pq_pl = pq_pl (vmd t e q) @ [m], pq_cnt = pq_cnt (vmd t e q) + 1\<rparr> else vmd t e q)"
      using reclaim_ok [OF laws pf okt obt mt F] by blast
    define s' where "s' = remove_marker d PQ_INACTIVE mk u"
    have plu: "pq_pl (vmd u d PQ_INACTIVE) = us @ mk # vs" using u(7) plt by simp
    have disu: "distinct (us @ mk # vs)" using queues_okD(1) [OF u(2), of d PQ_INACTIVE] plu by simp
    have nu: "tailq_next mk (pq_pl (vmd u d PQ_INACTIVE)) = tailq_first vs" unfolding plu by (rule tailq_next_split [OF disu])
    have e: "scan_page E mk d m s = Inr (tailq_first vs, if fate E s m = Freed then 1 else 0, 0, s')"
      using False o1 u(1) nu by (simp add: scan_page_def Let_def t_def s1_def s'_def)
    have oth: "n \<noteq> m \<Longrightarrow> pg s' n = pg s n" for n using u(4) by (simp add: s'_def pgt)
    have pls: "pq_pl (vmd s' d PQ_INACTIVE) = us @ vs"
      using disu plu by (simp add: s'_def remove_marker_def tailq_remove_def remove1_append)
    have vs': "vmd s' e q = vmd u e q" if "\<not> (e = d \<and> q = PQ_INACTIVE)" for e q
      using that by (auto simp: s'_def remove_marker_def)
    have lau: "pq_pl (vmd s' 0 PQ_LAUNDRY) = pq_pl (vmd s 0 PQ_LAUNDRY) @ (if fate E s m = Laundered then [m] else [])"
      using u(7) vs' [of 0 PQ_LAUNDRY] vt [of 0 PQ_LAUNDRY] by simp
    have ns: "fate E s m \<noteq> Stay" using m by (simp add: F fate_of_def mt pgt regular_def)
    have mk': "PG_MARKER \<in> flags (pg u mk)" using u(4) mk(1) mn by (simp add: pgt)
    have ready: "scan_ready E view mk d s'"
    proof -
      have "queues_ok E s'" unfolding s'_def by (rule remove_marker_ok [OF u(2) mk'])
      moreover have "objs_ok view s'" by (rule objs_ok_cong [OF _ _ u(3)]) (simp_all add: s'_def)
      moreover have "PG_MARKER \<in> flags (pg s' mk)" using mk' by (simp add: s'_def)
      moreover have "mk \<notin> set (pq_pl (vmd s' e q))" for e q
      proof (cases "e = d \<and> q = PQ_INACTIVE")
        case True
        then show ?thesis using pls disu by auto
      next
        case False
        then show ?thesis using vs' [OF False] u(7) vt [OF False] mk(2) mn by auto
      qed
      moreover have "\<forall>n\<in>set (us @ vs). regular s' n \<longrightarrow> object (pg s' n) \<noteq> None \<and> PG_FICTITIOUS \<notin> flags (pg s' n)"
      proof (intro ballI impI)
        fix n
        assume n: "n \<in> set (us @ vs)" "regular s' n"
        have "n \<noteq> m" using n(1) dis by auto
        then show "object (pg s' n) \<noteq> None \<and> PG_FICTITIOUS \<notin> flags (pg s' n)"
          using n pages oth [of n] by (auto simp: regular_def)
      qed
      ultimately show ?thesis by (simp add: scan_ready_def pls)
    qed
    have fo: "fate E s' n = fate E s n" if "n \<noteq> m" for n
      using oth [OF that] u(5) by (simp add: fate_def s'_def pgt split: option.split)
    have "phys s' = (if fate E s m = Freed then handed E m (phys s) else phys s)" using u(6) by (simp add: s'_def pgt)
    then show ?thesis using e ready pls ns fo lau by (intro exI [of _ 0] exI [of _ s']) simp
  qed
qed

section \<open>The whole scan\<close>

text \<open>
  The specification: with the fate of each page given, walk the list until the shortage is met or the
  turns are used up; what stays, the shortage left, the pages freed and the pages for the laundry.
\<close>

fun scan_ref :: "(pid \<Rightarrow> fate) \<Rightarrow> nat \<Rightarrow> int \<Rightarrow> pid list \<Rightarrow> pid list \<times> int \<times> pid list \<times> pid list" where
  "scan_ref f n k [] = ([], k, [], [])"
| "scan_ref f 0 k (m # ms) = (m # ms, k, [], [])"
| "scan_ref f (Suc n) k (m # ms) =
    (if k > 0
     then let (kept, k', freed, washed) = scan_ref f n (if f m = Freed then k - 1 else k) ms
          in (if f m = Stay then m # kept else kept, k', if f m = Freed then m # freed else freed,
              if f m = Laundered then m # washed else washed)
     else (m # ms, k, [], []))"

lemma scan_ref_cong: "(\<And>m. m \<in> set ms \<Longrightarrow> f m = g m) \<Longrightarrow> scan_ref f n k ms = scan_ref g n k ms"
proof (induction f n k ms rule: scan_ref.induct)
  case (3 f n k m ms)
  have m: "f m = g m" by (rule "3.prems") simp
  show ?case
  proof (cases "k > 0")
    case True
    have "scan_ref f n (if f m = Freed then k - 1 else k) ms = scan_ref g n (if f m = Freed then k - 1 else k) ms"
      by (rule "3.IH" [OF True]) (rule "3.prems", simp)
    then show ?thesis unfolding scan_ref.simps m by simp
  qed simp
qed simp_all

lemma scan_loop_ok:
  assumes laws: "radix_laws E view" and pf: "pmap_fair E"
  shows "scan_ready E view mk d s \<Longrightarrow> pq_pl (vmd s d PQ_INACTIVE) = us @ vs \<Longrightarrow>
    scan_ref (fate E s) n k vs = (kept, k', freed, washed) \<Longrightarrow>
    \<exists>addl' s'. scan_loop E mk d n (tailq_first vs) k addl s = Inr (k', addl', s') \<and> scan_ready E view mk d s' \<and>
      pq_pl (vmd s' d PQ_INACTIVE) = us @ kept \<and> phys s' = fold (handed E) freed (phys s) \<and>
      pq_pl (vmd s' 0 PQ_LAUNDRY) = pq_pl (vmd s 0 PQ_LAUNDRY) @ washed"
proof (induction n arbitrary: s us vs k addl kept k' freed washed)
  case 0
  then show ?case by (cases vs) (auto simp: tailq_first_def)
next
  case (Suc n)
  show ?case
  proof (cases vs)
    case Nil
    then show ?thesis using Suc.prems by (auto simp: tailq_first_def)
  next
    case (Cons m ms)
    show ?thesis
    proof (cases "k > 0")
      case False
      then show ?thesis using Suc.prems Cons by auto
    next
      case True
      let ?k1 = "if fate E s m = Freed then k - 1 else k"
      obtain kept1 k1 freed1 washed1 where r: "scan_ref (fate E s) n ?k1 ms = (kept1, k1, freed1, washed1)"
        by (metis prod_cases4)
      have res: "kept = (if fate E s m = Stay then m # kept1 else kept1)" "k' = k1"
          "freed = (if fate E s m = Freed then m # freed1 else freed1)"
          "washed = (if fate E s m = Laundered then m # washed1 else washed1)"
        using Suc.prems(3) True by (auto simp: Cons r)
      obtain stuck s1 where st: "scan_page E mk d m s = Inr (tailq_first ms, if fate E s m = Freed then 1 else 0, stuck, s1)"
          "scan_ready E view mk d s1" "pq_pl (vmd s1 d PQ_INACTIVE) = us @ (if fate E s m = Stay then m # ms else ms)"
          "\<forall>n. n \<noteq> m \<longrightarrow> fate E s1 n = fate E s n"
          "phys s1 = (if fate E s m = Freed then handed E m (phys s) else phys s)"
          "pq_pl (vmd s1 0 PQ_LAUNDRY) = pq_pl (vmd s 0 PQ_LAUNDRY) @ (if fate E s m = Laundered then [m] else [])"
        using scan_page_ok [OF laws pf Suc.prems(1), of us m ms] Suc.prems(2) Cons by blast
      have "distinct (us @ m # ms)"
        using Suc.prems(1,2) Cons queues_okD(1) [of E s d PQ_INACTIVE] by (simp add: scan_ready_def)
      then have "scan_ref (fate E s1) n ?k1 ms = scan_ref (fate E s) n ?k1 ms"
        using st(4) by (intro scan_ref_cong) auto
      then have r1: "scan_ref (fate E s1) n ?k1 ms = (kept1, k1, freed1, washed1)" using r by simp
      have step: "scan_loop E mk d (Suc n) (tailq_first vs) k addl s =
          scan_loop E mk d n (tailq_first ms) ?k1 (addl + stuck) s1"
        using True st(1) by (simp add: Cons)
      show ?thesis
      proof (cases "fate E s m = Stay")
        case stay: True
        have "pq_pl (vmd s1 d PQ_INACTIVE) = (us @ [m]) @ ms" using st(3) stay by simp
        from Suc.IH [OF st(2) this r1, of "addl + stuck"] show ?thesis
          using step st(5,6) stay res by auto
      next
        case False
        then have "pq_pl (vmd s1 d PQ_INACTIVE) = us @ ms" using st(3) by simp
        from Suc.IH [OF st(2) this r1, of "addl + stuck"] show ?thesis
          using step st(5,6) False res by auto
      qed
    qed
  qed
qed

text \<open>
  C8: The scan of the inactive queue refines the loop over the list: it frees and launders exactly the
  pages whose fate says so, from the head on until the shortage is met, keeps held and busy pages in
  place and in order, hands each freed page to the allocator once, appends the dirty ones to the
  laundry in order, and leaves queues and objects consistent.
\<close>

theorem scan_refines:
  assumes laws: "radix_laws E view" and pf: "pmap_fair E" and ready: "scan_ready E view mk d s"
    and ref: "scan_ref (fate E s) n k (pq_pl (vmd s d PQ_INACTIVE)) = (kept, k', freed, washed)"
  shows "\<exists>addl s'. scan_loop E mk d n (tailq_first (pq_pl (vmd s d PQ_INACTIVE))) k 0 s = Inr (k', addl, s') \<and>
    pq_pl (vmd s' d PQ_INACTIVE) = kept \<and> pq_pl (vmd s' 0 PQ_LAUNDRY) = pq_pl (vmd s 0 PQ_LAUNDRY) @ washed \<and>
    phys s' = fold (handed E) freed (phys s) \<and> queues_ok E s' \<and> objs_ok view s'"
  using scan_loop_ok [OF laws pf ready _ ref, of "[]" 0] by (auto simp: scan_ready_def)

definition scan0 :: "((nat \<times> pid) list, pid list) vm_sys" where
  "scan0 = vm0\<lparr>
    pg := (\<lambda>m. if m = 7 then page0\<lparr>object := Some 0, pindex := 5, queue := PQ_INACTIVE\<rparr>
           else if m = 99 then vm_pageout_init_marker PQ_INACTIVE else page0),
    objs := (\<lambda>ob. if ob = 0 then (objs vm0 0)\<lparr>rtree := [(5, 7)], memq := [7], resident_page_count := 1\<rparr> else objs vm0 0),
    vmd := (\<lambda>d q. if d = 0 \<and> q = PQ_INACTIVE then \<lparr>pq_pl = [7], pq_cnt = 1\<rparr> else \<lparr>pq_pl = [], pq_cnt = 0\<rparr>)\<rparr>"

lemma scan0_ready: "scan_ready env0 map_of 99 0 scan0"
proof -
  have pg: "pg scan0 7 = page0\<lparr>object := Some 0, pindex := 5, queue := PQ_INACTIVE\<rparr>"
    "pg scan0 99 = vm_pageout_init_marker PQ_INACTIVE" "m \<noteq> 7 \<Longrightarrow> m \<noteq> 99 \<Longrightarrow> pg scan0 m = page0" for m
    by (simp_all add: scan0_def)
  have vmd: "vmd scan0 d q = (if d = 0 \<and> q = PQ_INACTIVE then \<lparr>pq_pl = [7], pq_cnt = 1\<rparr> else \<lparr>pq_pl = [], pq_cnt = 0\<rparr>)" for d q
    by (simp add: scan0_def)
  have dom: "qdom env0 q m = 0" for q m by (simp add: qdom_def env0_def)
  have reg: "regular scan0 m \<longleftrightarrow> m \<noteq> 99" for m
    using pg(3) [of m] by (cases "m = 7"; cases "m = 99") (simp_all add: regular_def pg page0_def vm_pageout_init_marker_def)
  have que: "m \<noteq> 99 \<Longrightarrow> queue (pg scan0 m) = (if m = 7 then PQ_INACTIVE else PQ_NONE)" for m
    using pg(3) [of m] by (simp add: pg page0_def)
  have obj: "object (pg scan0 m) = (if m = 7 then Some 0 else None)" for m
    using pg(3) [of m] by (cases "m = 99") (simp_all add: pg page0_def vm_pageout_init_marker_def zeroed_page_def)
  have "queues_ok env0 scan0"
  proof (rule queues_okI)
    show "\<forall>d q. distinct (pq_pl (vmd scan0 d q))" by (simp add: vmd)
    show "\<forall>m d q. regular scan0 m \<longrightarrow>
      (m \<in> set (pq_pl (vmd scan0 d q)) \<longleftrightarrow> queue (pg scan0 m) = q \<and> q \<noteq> PQ_NONE \<and> d = qdom env0 q m)"
      by (auto simp: reg que vmd dom)
    show "\<forall>m. regular scan0 m \<and> queue (pg scan0 m) \<noteq> PQ_NONE \<longrightarrow> movable scan0 m"
      by (auto simp: reg que movable_def pg page0_def split: if_splits)
    show "\<forall>d q. pq_cnt (vmd scan0 d q) = int (length (filter (regular scan0) (pq_pl (vmd scan0 d q))))"
      by (simp add: vmd reg)
  qed
  moreover have "objs_ok map_of scan0"
    unfolding objs_ok_def
  proof
    fix ob
    have z: "rtree (objs scan0 0) = [(5, 7)]" "memq (objs scan0 0) = [7]" "resident_page_count (objs scan0 0) = 1"
      by (simp_all add: scan0_def)
    have n: "ob \<noteq> 0 \<Longrightarrow> rtree (objs scan0 ob) = [] \<and> memq (objs scan0 ob) = [] \<and> resident_page_count (objs scan0 ob) = 0"
      by (simp add: scan0_def vm0_def)
    have p7: "pindex (pg scan0 7) = 5" by (simp add: pg)
    show "object_ok map_of (pg scan0) ob (objs scan0 ob)"
      using n by (cases "ob = 0") (auto simp: object_ok_def z obj p7)
  qed
  ultimately show ?thesis
    by (auto simp: scan_ready_def vmd obj pg page0_def vm_pageout_init_marker_def)
qed

theorem scan_refines_witness:
  "\<exists>addl s'. scan_loop env0 99 0 1 (Some 7) 1 0 scan0 = Inr (0, addl, s') \<and> phys s' = [7]"
proof -
  have pl: "pq_pl (vmd scan0 0 PQ_INACTIVE) = [7]" and ph: "phys scan0 = []" by (simp_all add: scan0_def vm0_def)
  have "fate env0 scan0 7 = Freed"
    by (simp add: fate_def fate_of_def scan0_def page0_def vm_page_busied_def)
  then have r: "scan_ref (fate env0 scan0) 1 1 (pq_pl (vmd scan0 0 PQ_INACTIVE)) = ([], 0, [7], [])" by (simp add: pl)
  have "pmap_fair env0" by (simp add: pmap_fair_def env0_def)
  moreover have "fold (handed env0) [7] [] = [7]" by (simp add: handed_def env0_def)
  ultimately show ?thesis
    using scan_refines [OF env0_laws _ scan0_ready r] by (auto simp: pl ph)
qed

section \<open>The printed line\<close>

lemma report_loop_front:
  "fst (report_loop s ms front back n) = (case front of Some f \<Rightarrow> Some f | None \<Rightarrow> find (eligible s) ms)"
  by (induction s ms front "back" n rule: report_loop.induct) (auto split: option.split)

lemma report_loop_back:
  "fst (snd (report_loop s ms front back n)) = (if ms \<noteq> [] \<and> eligible s (last ms) then Some (last ms) else back)"
  by (induction s ms front "back" n rule: report_loop.induct) auto

lemma report_loop_count: "snd (snd (report_loop s ms front back n)) = n + length (filter (eligible s) ms)"
  by (induction s ms front "back" n rule: report_loop.induct) auto

text \<open>
  The line the scan prints makes it fault: when no page of the inactive queue is free of holds and
  idle, as on an empty queue, it follows a null pointer; when such a page exists but the last page of
  the queue is a marker, held or busy, it follows a pointer that was never set; otherwise it prints the
  numbers of the first and the last page.
\<close>

theorem scan_report_faults:
  "scan_report s d =
    (let ms = pq_pl (vmd s d PQ_INACTIVE)
     in if \<not> (\<exists>m\<in>set ms. eligible s m) then Inl Null_deref
        else if \<not> eligible s (last ms) then Inl Uninitialised
        else Inr (length (filter (eligible s) ms), pg_id (pg s (hd (filter (eligible s) ms))), pg_id (pg s (last ms)))) \<and>
    (\<forall>e. scan_report s d = Inl e \<longrightarrow> vm_pageout_scan E mk d level up period goal seqmax (c, s) = Inl e)"
proof
  let ?ms = "pq_pl (vmd s d PQ_INACTIVE)"
  obtain f b k where r: "report_loop s ?ms None None 0 = (f, b, k)" by (metis prod_cases3)
  have f: "f = find (eligible s) ?ms" using report_loop_front [of s ?ms None None 0] by (simp add: r)
  have b: "b = (if ?ms \<noteq> [] \<and> eligible s (last ?ms) then Some (last ?ms) else None)"
    using report_loop_back [of s ?ms None None 0] by (simp add: r)
  have k: "k = length (filter (eligible s) ?ms)" using report_loop_count [of s ?ms None None 0] by (simp add: r)
  have fd: "find (eligible s) ms = (case filter (eligible s) ms of [] \<Rightarrow> None | x # xs \<Rightarrow> Some x)" for ms
    by (induction ms) auto
  show "scan_report s d =
    (let ms = ?ms
     in if \<not> (\<exists>m\<in>set ms. eligible s m) then Inl Null_deref
        else if \<not> eligible s (last ms) then Inl Uninitialised
        else Inr (length (filter (eligible s) ms), pg_id (pg s (hd (filter (eligible s) ms))), pg_id (pg s (last ms))))"
  proof (cases "filter (eligible s) ?ms")
    case Nil
    then have "\<not> (\<exists>m\<in>set ?ms. eligible s m)" by (simp add: filter_empty_conv)
    then show ?thesis using Nil f by (cases b) (simp_all add: scan_report_def r fd)
  next
    case (Cons x xs)
    then have "x \<in> set (filter (eligible s) ?ms)" by simp
    then have x: "\<exists>m\<in>set ?ms. eligible s m" by auto
    then have "?ms \<noteq> []" by auto
    then show ?thesis using Cons f b k x r by (simp add: scan_report_def fd Let_def)
  qed
  show "\<forall>e. scan_report s d = Inl e \<longrightarrow> vm_pageout_scan E mk d level up period goal seqmax (c, s) = Inl e"
    by (simp add: vm_pageout_scan_def Let_def)
qed

definition scan_state0 :: scan_state where
  "scan_state0 = \<lparr>laundry_req = VM_LAUNDRY_IDLE, pageout_deficit = 0, lowmem_uptime = 0, lowmem_events = 0,
    swapouts = 0, votes = \<lparr>oom_seq = (\<lambda>_. 0), oom = (\<lambda>_. False), oom_vote = 0, kills = 0\<rparr>\<rparr>"

theorem scan_report_faults_witness:
  "scan_report vm0 0 = Inl Null_deref \<and> vm_pageout_scan env0 99 0 1 0 10 5 12 (scan_state0, vm0) = Inl Null_deref"
proof -
  have e: "pq_pl (vmd vm0 0 PQ_INACTIVE) = []" by (simp add: vm0_def)
  show ?thesis
    using scan_report_faults [of vm0 0 env0 99 1 0 10 5 12 scan_state0] by (simp add: e Let_def)
qed

end
