(* ===== verification/Vm_Launder.thy ===== *)
theory Vm_Launder
  imports Vm_Scan_Props
begin

text \<open>
  Laundering (\<open>src/asgn3/vm/vm_pageout.c\<close>): the cluster of dirty neighbours around a page, writing a
  cluster out, the vnode locks taken for it, and the scan of the laundry queue. The pager, the file
  system's locks and the machine-dependent maps are arguments, collected in \<open>pager_env\<close>. The scan is
  modelled as it runs when page and object locks are free at the first try.
\<close>

datatype pager_status = VM_PAGER_OK | VM_PAGER_BAD | VM_PAGER_FAIL | VM_PAGER_PEND | VM_PAGER_ERROR | VM_PAGER_AGAIN
datatype errno = EDEADLK | ENOENT | ENXIO | EBUSY | EIO

record ('r, 'p) pager_env =
  pmap_remove_write :: "pid \<Rightarrow> vm_page \<Rightarrow> vm_page"
  pmap_ts_referenced :: "pid \<Rightarrow> nat"
  vm_pager_put_pages :: "pid list \<Rightarrow> pager_status list"
  vn_start_write_fails :: "pid \<Rightarrow> bool"
  vget_fails :: "pid \<Rightarrow> bool"
  vnode_changed :: "pid \<Rightarrow> bool"
  unlocked :: "pid \<Rightarrow> ('r, 'p) vm_sys \<Rightarrow> ('r, 'p) vm_sys"   \<comment> \<open>what others do while the vnode lock is awaited\<close>
  disable_swap_pageouts :: bool

section \<open>Clusters\<close>

text \<open>Whether a neighbour joins the cluster; testing it may mark it dirty, joining write-protects it.\<close>

definition cluster_try ::
    "('r, 'p) vm_env \<Rightarrow> ('r, 'p) pager_env \<Rightarrow> pid \<Rightarrow> ('r, 'p) vm_sys \<Rightarrow> bool \<times> ('r, 'p) vm_sys" where
  "cluster_try E X p s =
    (if vm_page_busied (busy_lock (pg s p)) then (False, s)
     else
       (let s1 = upd_page p (vm_page_test_dirty (pmap_is_modified E p)) s
        in if dirty (pg s1 p) = 0 then (False, s1)
           else if \<not> vm_page_in_laundry (pg s1 p) \<or> hold_count (pg s1 p) \<noteq> 0 then (False, s1)
           else (True, upd_page p (pmap_remove_write X p) s1)))"

text \<open>The pages collected are a list, the array from \<open>page_base\<close> on; \<open>n\<close> bounds the number of rounds.\<close>

fun cluster_back ::
    "('r, 'p) vm_env \<Rightarrow> ('r, 'p) pager_env \<Rightarrow> nat \<Rightarrow> nat \<Rightarrow> nat \<Rightarrow> nat \<Rightarrow> pid list \<Rightarrow> ('r, 'p) vm_sys
      \<Rightarrow> nat \<times> pid list \<times> ('r, 'p) vm_sys" where
  "cluster_back E X maxc i 0 ib mc s = (ib, mc, s)"
| "cluster_back E X maxc i (Suc n) ib mc s =
    (if ib \<noteq> 0 \<and> length mc < maxc
     then if ib > i then (0, mc, s)
          else case vm_page_prev s (hd mc) of
                 None \<Rightarrow> (0, mc, s)
               | Some p \<Rightarrow>
                   (case cluster_try E X p s of
                      (False, s1) \<Rightarrow> (0, mc, s1)
                    | (True, s1) \<Rightarrow>
                        if (i - (ib + 1 - 1)) mod maxc = 0 then (ib + 1, p # mc, s1)
                        else cluster_back E X maxc i n (ib + 1) (p # mc) s1)
     else (ib, mc, s))"

fun cluster_fwd ::
    "('r, 'p) vm_env \<Rightarrow> ('r, 'p) pager_env \<Rightarrow> nat \<Rightarrow> nat \<Rightarrow> nat \<Rightarrow> nat \<Rightarrow> nat \<Rightarrow> pid list \<Rightarrow> ('r, 'p) vm_sys
      \<Rightarrow> nat \<times> pid list \<times> ('r, 'p) vm_sys" where
  "cluster_fwd E X maxc i osize 0 is mc s = (is, mc, s)"
| "cluster_fwd E X maxc i osize (Suc n) is mc s =
    (if length mc < maxc \<and> i + is < osize
     then case vm_page_next s (last mc) of
            None \<Rightarrow> (is, mc, s)
          | Some p \<Rightarrow>
              (case cluster_try E X p s of
                 (False, s1) \<Rightarrow> (is, mc, s1)
               | (True, s1) \<Rightarrow> cluster_fwd E X maxc i osize n (is + 1) (mc @ [p]) s1)
     else (is, mc, s))"

fun cluster_more ::
    "('r, 'p) vm_env \<Rightarrow> ('r, 'p) pager_env \<Rightarrow> nat \<Rightarrow> nat \<Rightarrow> nat \<Rightarrow> nat \<Rightarrow> nat \<Rightarrow> nat \<Rightarrow> pid list \<Rightarrow> ('r, 'p) vm_sys
      \<Rightarrow> pid list \<times> ('r, 'p) vm_sys" where
  "cluster_more E X maxc i osize 0 ib is mc s = (mc, s)"
| "cluster_more E X maxc i osize (Suc n) ib is mc s =
    (let (ib1, mc1, s1) = cluster_back E X maxc i maxc ib mc s;
         (is1, mc2, s2) = cluster_fwd E X maxc i osize maxc is mc1 s1
     in if ib1 \<noteq> 0 \<and> length mc2 < maxc then cluster_more E X maxc i osize n ib1 is1 mc2 s2 else (mc2, s2))"

definition vm_pageout_cluster_pages ::
    "('r, 'p) vm_env \<Rightarrow> ('r, 'p) pager_env \<Rightarrow> nat \<Rightarrow> pid \<Rightarrow> ('r, 'p) vm_sys \<Rightarrow> fault + (pid list \<times> ('r, 'p) vm_sys)" where
  "vm_pageout_cluster_pages E X maxc m s =
    (case object (pg s m) of
       None \<Rightarrow> Inl Null_deref
     | Some ob \<Rightarrow> Inr (cluster_more E X maxc (pindex (pg s m)) (obj_size (objs s ob)) maxc 1 1 [m]
                        (upd_page m (pmap_remove_write X m) s)))"

section \<open>Writing a cluster\<close>

definition vm_page_sbusy :: "vm_page \<Rightarrow> fault + vm_page" where
  "vm_page_sbusy x =
    (case vm_page_trysbusy (busy_lock x) (busy_lock x) of
       (w, Done True _) \<Rightarrow> Inr (x\<lparr>busy_lock := w\<rparr>)
     | _ \<Rightarrow> Inl Kernel_panic)"

fun sbusy_all :: "pid list \<Rightarrow> ('r, 'p) vm_sys \<Rightarrow> fault + ('r, 'p) vm_sys" where
  "sbusy_all [] s = Inr s"
| "sbusy_all (m # ms) s =
    and_then (vm_page_sbusy (pg s m)) (\<lambda>x. sbusy_all ms (upd_page m (\<lambda>_. x) s))"

definition sunbusy_now :: "vm_page \<Rightarrow> vm_page" where
  "sunbusy_now x = x\<lparr>busy_lock := fst (vm_page_sunbusy (busy_lock x) (busy_lock x))\<rparr>"

definition out_of_laundry :: "('r, 'p) vm_env \<Rightarrow> pid \<Rightarrow> ('r, 'p) vm_sys \<Rightarrow> ('r, 'p) vm_sys" where
  "out_of_laundry E m s = (if vm_page_in_laundry (pg s m) then vm_page_deactivate_noreuse E m s else s)"

text \<open>One page after the pager has answered; the accumulated results are pages out, run length, error.\<close>

record flush_result =
  numpagedout :: nat
  runlen :: int
  eio :: bool
  pip :: int

definition flush_page ::
    "('r, 'p) vm_env \<Rightarrow> int \<Rightarrow> int \<Rightarrow> pid \<Rightarrow> pager_status \<Rightarrow> flush_result \<times> ('r, 'p) vm_sys \<Rightarrow> flush_result \<times> ('r, 'p) vm_sys" where
  "flush_page E mreq i mt status = (\<lambda>(f, s).
    (let in_run = (i \<ge> mreq \<and> i - mreq < runlen f);
         (f1, s1) =
           (case status of
              VM_PAGER_OK \<Rightarrow> (f\<lparr>numpagedout := numpagedout f + 1\<rparr>, out_of_laundry E mt s)
            | VM_PAGER_PEND \<Rightarrow> (f\<lparr>numpagedout := numpagedout f + 1\<rparr>, s)
            | VM_PAGER_BAD \<Rightarrow> (f, out_of_laundry E mt (upd_page mt vm_page_undirty s))
            | VM_PAGER_ERROR \<Rightarrow> (if in_run then f\<lparr>eio := True\<rparr> else f, vm_page_activate E mt s)
            | VM_PAGER_FAIL \<Rightarrow> (if in_run then f\<lparr>eio := True\<rparr> else f, vm_page_activate E mt s)
            | VM_PAGER_AGAIN \<Rightarrow> (if in_run then f\<lparr>runlen := i - mreq\<rparr> else f, s))
     in if status \<noteq> VM_PAGER_PEND then (f1\<lparr>pip := pip f1 - 1\<rparr>, upd_page mt sunbusy_now s1) else (f1, s1)))"

fun flush_loop ::
    "('r, 'p) vm_env \<Rightarrow> int \<Rightarrow> int \<Rightarrow> (pid \<times> pager_status) list \<Rightarrow> flush_result \<times> ('r, 'p) vm_sys
      \<Rightarrow> flush_result \<times> ('r, 'p) vm_sys" where
  "flush_loop E mreq i [] r = r"
| "flush_loop E mreq i ((m, st) # ps) r = flush_loop E mreq (i + 1) ps (flush_page E mreq i m st r)"

definition vm_pageout_flush ::
    "('r, 'p) vm_env \<Rightarrow> ('r, 'p) pager_env \<Rightarrow> pid list \<Rightarrow> int \<Rightarrow> ('r, 'p) vm_sys \<Rightarrow> fault + (flush_result \<times> ('r, 'p) vm_sys)" where
  "vm_pageout_flush E X mc mreq s =
    and_then (sbusy_all mc s) (\<lambda>s1.
      Inr (flush_loop E mreq 0 (zip mc (vm_pager_put_pages X mc))
        (\<lparr>numpagedout = 0, runlen = int (length mc) - mreq, eio = False, pip = int (length mc)\<rparr>, s1)))"

definition vm_pageout_cluster ::
    "('r, 'p) vm_env \<Rightarrow> ('r, 'p) pager_env \<Rightarrow> nat \<Rightarrow> pid \<Rightarrow> ('r, 'p) vm_sys \<Rightarrow> fault + (nat \<times> ('r, 'p) vm_sys)" where
  "vm_pageout_cluster E X maxc m s =
    and_then (vm_pageout_cluster_pages E X maxc m s) (\<lambda>(mc, s1).
    and_then (vm_pageout_flush E X mc 0 s1) (\<lambda>(f, s2). Inr (numpagedout f, s2)))"

section \<open>Cleaning one page\<close>

text \<open>\<open>is_vreg\<close> tells that the vnode of the object is a regular file. The result: the error, pages out, the state.\<close>

definition vm_pageout_clean ::
    "('r, 'p) vm_env \<Rightarrow> ('r, 'p) pager_env \<Rightarrow> nat \<Rightarrow> bool \<Rightarrow> pid \<Rightarrow> ('r, 'p) vm_sys
      \<Rightarrow> fault + (errno option \<times> nat \<times> ('r, 'p) vm_sys)" where
  "vm_pageout_clean E X maxc is_vreg m s =
    (case object (pg s m) of
       None \<Rightarrow> Inl Null_deref
     | Some ob \<Rightarrow>
         (let write = (\<lambda>s. and_then (vm_pageout_cluster E X maxc m s) (\<lambda>(n, s'). Inr (if n = 0 then Some EIO else None, n, s')))
          in if otype (objs s ob) = OBJT_VNODE
             then if is_vreg \<and> vn_start_write_fails X m then Inr (Some EDEADLK, 0, s)
                  else
                    (let i = pindex (pg s m);
                         s1 = unlocked X m s
                     in if vget_fails X m then Inr (Some EDEADLK, 0, s1)
                        else if vnode_changed X m then Inr (Some ENOENT, 0, s1)
                        else if \<not> vm_page_in_laundry (pg s1 m) \<or> object (pg s1 m) \<noteq> Some ob \<or>
                                pindex (pg s1 m) \<noteq> i \<or> dirty (pg s1 m) = 0 then Inr (Some ENXIO, 0, s1)
                        else if vm_page_busied (busy_lock (pg s1 m)) \<or> hold_count (pg s1 m) \<noteq> 0 then Inr (Some EBUSY, 0, s1)
                        else write s1)
             else write s))"

section \<open>The scan of the laundry\<close>

text \<open>What remains to launder, the turns left, vnodes skipped and lock misses.\<close>

record launder_state =
  to_launder :: int
  maxscan :: int
  vnodes_skipped :: nat
  lock_miss :: nat

definition launder_page ::
    "('r, 'p) vm_env \<Rightarrow> ('r, 'p) pager_env \<Rightarrow> nat \<Rightarrow> bool \<Rightarrow> bool \<Rightarrow> pid \<Rightarrow> oid \<Rightarrow> launder_state \<times> ('r, 'p) vm_sys
      \<Rightarrow> fault + (launder_state \<times> ('r, 'p) vm_sys)" where
  "launder_page E X maxc is_vreg sf m ob = (\<lambda>(l, s).
    (if valid (pg s m) = 0 then and_then (vm_page_free E m s) (\<lambda>s'. Inr (l, s'))
     else
       (let referenced = PGA_REFERENCED \<in> aflags (pg s m);
            s1 = (if referenced then upd_page m (\<lambda>x. vm_page_aflag_clear x {PGA_REFERENCED}) s else s);
            act_delta = (if referenced then 1 else 0) + (if ref_count (objs s1 ob) \<noteq> 0 then pmap_ts_referenced X m else 0)
        in if act_delta \<noteq> 0 \<and> ref_count (objs s1 ob) \<noteq> 0
           then Inr (if \<not> sf then l\<lparr>to_launder := to_launder l - 1\<rparr> else l,
                     upd_page m (\<lambda>x. x\<lparr>act_count := act_count x + of_nat (act_delta + ACT_ADVANCE)\<rparr>)
                       (vm_page_activate E m s1))
           else if act_delta \<noteq> 0 \<and> \<not> obj_dead (objs s1 ob) then Inr (l, vm_page_requeue_locked E m s1)
           else
             (let s2 = (if ref_count (objs s1 ob) \<noteq> 0
                        then (let s0 = upd_page m (vm_page_test_dirty (pmap_is_modified E m)) s1
                              in if dirty (pg s0 m) = 0 then upd_page m (pmap_remove_all E m) s0 else s0)
                        else s1)
              in if dirty (pg s2 m) = 0 then and_then (vm_page_free E m s2) (\<lambda>s'. Inr (l, s'))
                 else if obj_dead (objs s2 ob) then Inr (l, s2)
                 else if otype (objs s2 ob) \<in> {OBJT_SWAP, OBJT_DEFAULT} \<and> disable_swap_pageouts X
                 then Inr (l, vm_page_requeue_locked E m s2)
                 else and_then (vm_pageout_clean E X maxc is_vreg m s2) (\<lambda>(err, n, s3).
                   Inr (case err of
                          None \<Rightarrow> l\<lparr>to_launder := to_launder l - int n, maxscan := maxscan l - (int n - 1)\<rparr>
                        | Some EDEADLK \<Rightarrow> l\<lparr>lock_miss := lock_miss l + 1, vnodes_skipped := vnodes_skipped l + 1\<rparr>
                        | Some _ \<Rightarrow> l, s3))))))"

text \<open>\<open>mk\<close> is the laundry marker of the domain; \<open>n\<close> bounds the turns, \<open>maxscan\<close> at the start is enough.\<close>

fun launder_loop ::
    "('r, 'p) vm_env \<Rightarrow> ('r, 'p) pager_env \<Rightarrow> nat \<Rightarrow> (oid \<Rightarrow> bool) \<Rightarrow> bool \<Rightarrow> pid \<Rightarrow> nat \<Rightarrow> nat \<Rightarrow> pid option
      \<Rightarrow> launder_state \<times> ('r, 'p) vm_sys \<Rightarrow> fault + (launder_state \<times> ('r, 'p) vm_sys)" where
  "launder_loop E X maxc vreg sf mk d 0 mo r = Inr r"
| "launder_loop E X maxc vreg sf mk d (Suc n) None r = Inr r"
| "launder_loop E X maxc vreg sf mk d (Suc n) (Some m) (l, s) =
    (if maxscan l \<le> 0 then Inr (l\<lparr>maxscan := maxscan l - 1\<rparr>, s)
     else if to_launder l \<le> 0 then Inr (l\<lparr>maxscan := maxscan l - 1\<rparr>, s)
     else
       (let l1 = l\<lparr>maxscan := maxscan l - 1\<rparr>;
            nxt = tailq_next m (pq_pl (vmd s d PQ_LAUNDRY))
        in if PG_MARKER \<in> flags (pg s m) \<or> hold_count (pg s m) \<noteq> 0
           then launder_loop E X maxc vreg sf mk d n nxt (l1, s)
           else case object (pg s m) of
                  None \<Rightarrow> Inl Null_deref
                | Some ob \<Rightarrow>
                    if vm_page_busied (busy_lock (pg s m)) then launder_loop E X maxc vreg sf mk d n nxt (l1, s)
                    else and_then (launder_page E X maxc (vreg ob) sf m ob (l1, insert_marker d PQ_LAUNDRY m mk s)) (\<lambda>(l2, s2).
                      launder_loop E X maxc vreg sf mk d n (tailq_next mk (pq_pl (vmd s2 d PQ_LAUNDRY)))
                        (l2, remove_marker d PQ_LAUNDRY mk s2))))"

text \<open>The result: pages laundered, whether the sync daemon is hurried, lock misses, the state.\<close>

definition vm_pageout_launder ::
    "('r, 'p) vm_env \<Rightarrow> ('r, 'p) pager_env \<Rightarrow> nat \<Rightarrow> (oid \<Rightarrow> bool) \<Rightarrow> pid \<Rightarrow> nat \<Rightarrow> int \<Rightarrow> bool \<Rightarrow> ('r, 'p) vm_sys
      \<Rightarrow> fault + (int \<times> bool \<times> nat \<times> ('r, 'p) vm_sys)" where
  "vm_pageout_launder E X maxc vreg mk d launder sf s =
    (let cnt = pq_cnt (vmd s d PQ_LAUNDRY)
     in and_then (launder_loop E X maxc vreg sf mk d (nat cnt) (tailq_first (pq_pl (vmd s d PQ_LAUNDRY)))
          (\<lparr>to_launder = launder, maxscan = cnt, vnodes_skipped = 0, lock_miss = 0\<rparr>, s)) (\<lambda>(l, s').
        Inr (launder - to_launder l, vnodes_skipped l > 0 \<and> to_launder l > 0, lock_miss l, s')))"

end
