(* ===== verification/Vm_Launder_Props.thy ===== *)
theory Vm_Launder_Props
  imports Vm_Launder
begin

text \<open>
  Properties of laundering: the cluster written out around a page is a run of consecutive pages of
  its object, no longer than the bound, of dirty pages in the laundry that nobody holds; the bounds
  on the rounds are never what ends the search.
\<close>

section \<open>The bounds on the rounds\<close>

lemma cluster_back_grows:
  "cluster_back E X maxc i n ib mc s = (ib', mc', s') \<Longrightarrow> length mc \<le> length mc'"
proof (induction n arbitrary: ib mc s)
  case (Suc n)
  show ?case
  proof (cases "ib \<noteq> 0 \<and> length mc < maxc \<and> \<not> ib > i")
    case False
    then show ?thesis using Suc.prems by (auto split: if_splits)
  next
    case True
    show ?thesis
    proof (cases "vm_page_prev s (hd mc)")
      case None
      then show ?thesis using Suc.prems True by auto
    next
      case (Some p)
      obtain r s1 where t: "cluster_try E X p s = (r, s1)" by fastforce
      show ?thesis
      proof (cases "r \<and> (i - ib) mod maxc \<noteq> 0")
        case rec: True
        then have "cluster_back E X maxc i n (ib + 1) (p # mc) s1 = (ib', mc', s')"
          using Suc.prems True Some t by simp
        from Suc.IH [OF this] show ?thesis by simp
      next
        case False
        then show ?thesis using Suc.prems True Some t by (cases r) auto
      qed
    qed
  qed
qed simp

lemma cluster_back_progress:
  assumes "cluster_back E X maxc i (Suc n) ib mc s = (ib', mc', s')" and "ib \<noteq> 0" "length mc < maxc" "ib' \<noteq> 0"
  shows "length mc < length mc'"
proof -
  have ni: "\<not> ib > i" using assms by auto
  obtain p where p: "vm_page_prev s (hd mc) = Some p" using assms ni by (cases "vm_page_prev s (hd mc)") auto
  obtain r s1 where t: "cluster_try E X p s = (r, s1)" by fastforce
  have r: "r" using assms ni p t by (cases r) auto
  show ?thesis
  proof (cases "(i - ib) mod maxc = 0")
    case True
    then show ?thesis using assms ni p t r by auto
  next
    case False
    then have "cluster_back E X maxc i n (ib + 1) (p # mc) s1 = (ib', mc', s')" using assms ni p t r by simp
    from cluster_back_grows [OF this] show ?thesis by simp
  qed
qed

lemma cluster_fwd_grows: "cluster_fwd E X maxc i osize n is mc s = (is', mc', s') \<Longrightarrow> length mc \<le> length mc'"
proof (induction n arbitrary: "is" mc s)
  case (Suc n)
  show ?case
  proof (cases "length mc < maxc \<and> i + is < osize")
    case False
    then show ?thesis using Suc.prems by auto
  next
    case True
    show ?thesis
    proof (cases "vm_page_next s (last mc)")
      case None
      then show ?thesis using Suc.prems True by auto
    next
      case (Some p)
      obtain r s1 where t: "cluster_try E X p s = (r, s1)" by fastforce
      show ?thesis
      proof (cases r)
        case r: True
        then have "cluster_fwd E X maxc i osize n (is + 1) (mc @ [p]) s1 = (is', mc', s')"
          using Suc.prems True Some t by simp
        from Suc.IH [OF this] show ?thesis by simp
      next
        case False
        then show ?thesis using Suc.prems True Some t by auto
      qed
    qed
  qed
qed simp

text \<open>One more round than the bound makes no difference: every round but the last adds a page.\<close>

lemma cluster_more_enough:
  "maxc < n + length mc \<Longrightarrow> 0 < n \<Longrightarrow> ib \<noteq> 0 \<or> length mc \<ge> maxc \<Longrightarrow>
    cluster_more E X maxc i osize (Suc n) ib is mc s = cluster_more E X maxc i osize n ib is mc s"
proof (induction n arbitrary: ib "is" mc s)
  case (Suc n)
  obtain ib1 mc1 s1 where b: "cluster_back E X maxc i maxc ib mc s = (ib1, mc1, s1)" by (metis prod_cases3)
  obtain is1 mc2 s2 where f: "cluster_fwd E X maxc i osize maxc is mc1 s1 = (is1, mc2, s2)" by (metis prod_cases3)
  have st: "cluster_more E X maxc i osize (Suc k) ib is mc s =
      (if ib1 \<noteq> 0 \<and> length mc2 < maxc then cluster_more E X maxc i osize k ib1 is1 mc2 s2 else (mc2, s2))" for k
    by (simp add: b f)
  show ?case
  proof (cases "ib1 \<noteq> 0 \<and> length mc2 < maxc")
    case False
    then show ?thesis unfolding st by (simp only: if_False)
  next
    case True
    have g: "length mc1 \<le> length mc2" by (rule cluster_fwd_grows [OF f])
    have "length mc < maxc" using cluster_back_grows [OF b] g True by linarith
    then have lt: "length mc < length mc1"
      using cluster_back_progress [of E X maxc i "maxc - 1" ib mc s ib1 mc1 s1] b True Suc.prems(3) by simp
    have n: "0 < n" using Suc.prems(1) \<open>length mc < maxc\<close> by (cases n) auto
    have "maxc < n + length mc2" using Suc.prems(1) lt g by linarith
    from Suc.IH [OF this n, of ib1 is1 s2] True show ?thesis unfolding st [of "Suc n"] st [of n] by simp
  qed
qed simp

section \<open>The pages of a cluster\<close>

definition write_fair :: "('r, 'p) pager_env \<Rightarrow> bool" where
  "write_fair X \<longleftrightarrow> (\<forall>p x. pmap_remove_write X p x = x \<or> pmap_remove_write X p x = vm_page_dirty x)"

text \<open>The state \<open>t\<close> differs from \<open>s\<close> only in pages that became dirty.\<close>

definition only_dirtied :: "('r, 'p) vm_sys \<Rightarrow> ('r, 'p) vm_sys \<Rightarrow> bool" where
  "only_dirtied s t \<longleftrightarrow> objs t = objs s \<and> (\<forall>p. pg t p = pg s p \<or> pg t p = vm_page_dirty (pg s p))"

lemma only_dirtied_sel:
  assumes "only_dirtied s t"
  shows "object (pg t p) = object (pg s p)" "pindex (pg t p) = pindex (pg s p)" "queue (pg t p) = queue (pg s p)"
    "hold_count (pg t p) = hold_count (pg s p)" "busy_lock (pg t p) = busy_lock (pg s p)" "objs t = objs s"
    "dirty (pg s p) \<noteq> 0 \<Longrightarrow> dirty (pg t p) \<noteq> 0"
proof -
  have "pg t p = pg s p \<or> pg t p = vm_page_dirty (pg s p)" and o: "objs t = objs s"
    using assms by (simp_all add: only_dirtied_def)
  then show "object (pg t p) = object (pg s p)" "pindex (pg t p) = pindex (pg s p)" "queue (pg t p) = queue (pg s p)"
    "hold_count (pg t p) = hold_count (pg s p)" "busy_lock (pg t p) = busy_lock (pg s p)" "objs t = objs s"
    "dirty (pg s p) \<noteq> 0 \<Longrightarrow> dirty (pg t p) \<noteq> 0"
    by (auto simp: vm_page_dirty_def VM_PAGE_BITS_ALL_def)
qed

lemma dirty_dirty [simp]: "vm_page_dirty (vm_page_dirty x) = vm_page_dirty x"
  by (simp add: vm_page_dirty_def)

lemma only_dirtied_refl: "only_dirtied s s"
  by (simp add: only_dirtied_def)

lemma only_dirtied_trans:
  assumes "only_dirtied s t" "only_dirtied t u"
  shows "only_dirtied s u"
proof -
  have "pg u p = pg s p \<or> pg u p = vm_page_dirty (pg s p)" for p
    using assms unfolding only_dirtied_def by (metis dirty_dirty)
  then show ?thesis using assms by (simp add: only_dirtied_def)
qed

lemma upd_only_dirtied: "(\<And>x. f x = x \<or> f x = vm_page_dirty x) \<Longrightarrow> only_dirtied s (upd_page p f s)"
  by (auto simp: only_dirtied_def upd_pg_def)

definition joins :: "('r, 'p) vm_sys \<Rightarrow> pid \<Rightarrow> bool" where
  "joins s p \<longleftrightarrow> queue (pg s p) = PQ_LAUNDRY \<and> hold_count (pg s p) = 0 \<and> \<not> vm_page_busied (busy_lock (pg s p))"

lemma cluster_try_ok:
  assumes wf: "write_fair X" and t: "cluster_try E X p t = (r, u)"
  shows "only_dirtied t u" and "r \<Longrightarrow> joins t p \<and> dirty (pg u p) \<noteq> 0"
proof -
  define t1 where "t1 = upd_page p (vm_page_test_dirty (pmap_is_modified E p)) t"
  have d1: "only_dirtied t t1" unfolding t1_def by (rule upd_only_dirtied) (simp add: vm_page_test_dirty_def)
  have d2: "only_dirtied t1 (upd_page p (pmap_remove_write X p) t1)"
    by (rule upd_only_dirtied) (use wf in \<open>simp add: write_fair_def\<close>)
  have u: "u = t \<or> u = t1 \<or> u = upd_page p (pmap_remove_write X p) t1"
    using t by (auto simp: cluster_try_def Let_def t1_def split: if_splits)
  then show "only_dirtied t u" using only_dirtied_refl d1 only_dirtied_trans [OF d1 d2] by metis
  assume r: "r"
  then have c: "\<not> vm_page_busied (busy_lock (pg t p))" "dirty (pg t1 p) \<noteq> 0" "vm_page_in_laundry (pg t1 p)"
      "hold_count (pg t1 p) = 0" "u = upd_page p (pmap_remove_write X p) t1"
    using t by (auto simp: cluster_try_def Let_def t1_def [symmetric] split: if_splits)
  have "dirty (pg u p) \<noteq> 0" using only_dirtied_sel(7) [OF d2 c(2)] c(5) by simp
  moreover have "queue (pg t p) = PQ_LAUNDRY" using c(3) only_dirtied_sel(3) [OF d1] by (simp add: vm_page_in_laundry_def)
  moreover have "hold_count (pg t p) = 0" using c(4) only_dirtied_sel(4) [OF d1] by simp
  ultimately show "joins t p \<and> dirty (pg u p) \<noteq> 0" using c(1) by (simp add: joins_def)
qed

definition cluster_inv :: "('r, 'p) vm_sys \<Rightarrow> oid \<Rightarrow> pid \<Rightarrow> nat \<Rightarrow> pid list \<Rightarrow> ('r, 'p) vm_sys \<Rightarrow> bool" where
  "cluster_inv s ob m maxc mc t \<longleftrightarrow> only_dirtied s t \<and> m \<in> set mc \<and> length mc \<le> maxc \<and>
    successively (\<lambda>a b. pindex (pg s b) = pindex (pg s a) + 1) mc \<and> (\<forall>p\<in>set mc. object (pg s p) = Some ob) \<and>
    (\<forall>p\<in>set mc. p \<noteq> m \<longrightarrow> joins s p \<and> dirty (pg t p) \<noteq> 0)"

lemma cluster_inv_state:
  assumes i: "cluster_inv s ob m maxc mc t" and d: "only_dirtied t u"
  shows "cluster_inv s ob m maxc mc u"
proof -
  have "only_dirtied s u" using i d only_dirtied_trans by (auto simp: cluster_inv_def)
  moreover have "dirty (pg t p) \<noteq> 0 \<Longrightarrow> dirty (pg u p) \<noteq> 0" for p by (rule only_dirtied_sel(7) [OF d])
  ultimately show ?thesis using i by (auto simp: cluster_inv_def)
qed

lemma cluster_inv_cons:
  assumes i: "cluster_inv s ob m maxc mc t" and wf: "write_fair X" and t: "cluster_try E X p t = (True, u)"
    and len: "length mc < maxc" and p: "object (pg s p) = Some ob" "pindex (pg s p) + 1 = pindex (pg s (hd mc))"
  shows "cluster_inv s ob m maxc (p # mc) u"
proof -
  note T = cluster_try_ok [OF wf t]
  have i': "cluster_inv s ob m maxc mc u" by (rule cluster_inv_state [OF i T(1)])
  have od: "only_dirtied s t" using i by (simp add: cluster_inv_def)
  have "joins s p" using T(2) only_dirtied_sel [OF od] by (simp add: joins_def)
  then show ?thesis
    using i' T(2) len p by (cases mc) (auto simp: cluster_inv_def)
qed

lemma cluster_inv_snoc:
  assumes i: "cluster_inv s ob m maxc mc t" and wf: "write_fair X" and t: "cluster_try E X p t = (True, u)"
    and len: "length mc < maxc" and p: "object (pg s p) = Some ob" "pindex (pg s p) = pindex (pg s (last mc)) + 1"
  shows "cluster_inv s ob m maxc (mc @ [p]) u"
proof -
  note T = cluster_try_ok [OF wf t]
  have i': "cluster_inv s ob m maxc mc u" by (rule cluster_inv_state [OF i T(1)])
  have od: "only_dirtied s t" using i by (simp add: cluster_inv_def)
  have "joins s p" using T(2) only_dirtied_sel [OF od] by (simp add: joins_def)
  then show ?thesis
    using i' T(2) len p by (auto simp: cluster_inv_def successively_append_iff)
qed

lemma tailq_prev_mem: "tailq_prev m q = Some p \<Longrightarrow> p \<in> set q"
  by (induction m q rule: tailq_prev.induct) (auto split: if_splits)

lemma tailq_next_mem: "tailq_next m q = Some p \<Longrightarrow> p \<in> set q"
  by (induction m q rule: tailq_next.induct) (auto dest: tailq_first_in_set split: if_splits)

lemma neighbour_prev:
  assumes ok: "objs_ok view s" and od: "only_dirtied s t" and m: "object (pg s m) = Some ob" and p: "vm_page_prev t m = Some p"
  shows "object (pg s p) = Some ob" "pindex (pg s p) + 1 = pindex (pg s m)"
proof -
  note S = only_dirtied_sel [OF od]
  have c: "tailq_prev m (memq (objs s ob)) = Some p \<and> pindex (pg s p) + 1 = pindex (pg s m)"
    using p by (simp add: vm_page_prev_def S m split: option.splits if_splits)
  show "pindex (pg s p) + 1 = pindex (pg s m)" using c by simp
  show "object (pg s p) = Some ob" using c tailq_prev_mem object_okD(2) [OF objs_okD [OF ok]] by metis
qed

lemma neighbour_next:
  assumes ok: "objs_ok view s" and od: "only_dirtied s t" and m: "object (pg s m) = Some ob" and p: "vm_page_next t m = Some p"
  shows "object (pg s p) = Some ob" "pindex (pg s p) = pindex (pg s m) + 1"
proof -
  note S = only_dirtied_sel [OF od]
  have c: "tailq_next m (memq (objs s ob)) = Some p \<and> pindex (pg s p) = pindex (pg s m) + 1"
    using p by (simp add: vm_page_next_def S m split: option.splits if_splits)
  show "pindex (pg s p) = pindex (pg s m) + 1" using c by simp
  show "object (pg s p) = Some ob" using c tailq_next_mem object_okD(2) [OF objs_okD [OF ok]] by metis
qed

lemma cluster_back_inv:
  assumes ok: "objs_ok view s" and wf: "write_fair X"
  shows "cluster_inv s ob m maxc mc t \<Longrightarrow> cluster_back E X maxc i n ib mc t = (ib', mc', u) \<Longrightarrow>
    cluster_inv s ob m maxc mc' u"
proof (induction n arbitrary: ib mc t)
  case (Suc n)
  note I = Suc.prems(1)
  show ?case
  proof (cases "ib \<noteq> 0 \<and> length mc < maxc \<and> \<not> ib > i")
    case False
    then show ?thesis using Suc.prems by (auto split: if_splits)
  next
    case True
    show ?thesis
    proof (cases "vm_page_prev t (hd mc)")
      case None
      then show ?thesis using Suc.prems True by auto
    next
      case (Some p)
      have h: "object (pg s (hd mc)) = Some ob" using I by (cases mc) (auto simp: cluster_inv_def)
      have od: "only_dirtied s t" using I by (simp add: cluster_inv_def)
      note N = neighbour_prev [OF ok od h Some]
      obtain r v where t: "cluster_try E X p t = (r, v)" by fastforce
      show ?thesis
      proof (cases r)
        case False
        then have "mc' = mc" "u = v" using Suc.prems(2) True Some t by auto
        then show ?thesis using cluster_inv_state [OF I cluster_try_ok(1) [OF wf t]] by simp
      next
        case r: True
        have I': "cluster_inv s ob m maxc (p # mc) v"
          using cluster_inv_cons [OF I wf _ _ N] t r True by simp
        show ?thesis
        proof (cases "(i - ib) mod maxc = 0")
          case stop: True
          then have "mc' = p # mc" "u = v" using Suc.prems(2) True Some t r by auto
          then show ?thesis using I' by simp
        next
          case False
          then have "cluster_back E X maxc i n (ib + 1) (p # mc) v = (ib', mc', u)"
            using Suc.prems(2) True Some t r by simp
          then show ?thesis by (rule Suc.IH [OF I'])
        qed
      qed
    qed
  qed
qed simp

lemma cluster_fwd_inv:
  assumes ok: "objs_ok view s" and wf: "write_fair X"
  shows "cluster_inv s ob m maxc mc t \<Longrightarrow> cluster_fwd E X maxc i osize n is mc t = (is', mc', u) \<Longrightarrow>
    cluster_inv s ob m maxc mc' u"
proof (induction n arbitrary: "is" mc t)
  case (Suc n)
  note I = Suc.prems(1)
  show ?case
  proof (cases "length mc < maxc \<and> i + is < osize")
    case False
    then show ?thesis using Suc.prems by auto
  next
    case True
    show ?thesis
    proof (cases "vm_page_next t (last mc)")
      case None
      then show ?thesis using Suc.prems True by auto
    next
      case (Some p)
      have ne: "mc \<noteq> []" using I by (auto simp: cluster_inv_def)
      then have h: "object (pg s (last mc)) = Some ob" using I last_in_set [OF ne] by (simp add: cluster_inv_def)
      have od: "only_dirtied s t" using I by (simp add: cluster_inv_def)
      note N = neighbour_next [OF ok od h Some]
      obtain r v where t: "cluster_try E X p t = (r, v)" by fastforce
      show ?thesis
      proof (cases r)
        case False
        then have "mc' = mc" "u = v" using Suc.prems(2) True Some t by auto
        then show ?thesis using cluster_inv_state [OF I cluster_try_ok(1) [OF wf t]] by simp
      next
        case r: True
        have I': "cluster_inv s ob m maxc (mc @ [p]) v"
          using cluster_inv_snoc [OF I wf _ _ N] t r True by simp
        have "cluster_fwd E X maxc i osize n (is + 1) (mc @ [p]) v = (is', mc', u)"
          using Suc.prems(2) True Some t r by simp
        then show ?thesis by (rule Suc.IH [OF I'])
      qed
    qed
  qed
qed simp

lemma cluster_more_inv:
  assumes ok: "objs_ok view s" and wf: "write_fair X"
  shows "cluster_inv s ob m maxc mc t \<Longrightarrow> cluster_more E X maxc i osize n ib is mc t = (mc', u) \<Longrightarrow>
    cluster_inv s ob m maxc mc' u"
proof (induction n arbitrary: ib "is" mc t)
  case (Suc n)
  obtain ib1 mc1 s1 where b: "cluster_back E X maxc i maxc ib mc t = (ib1, mc1, s1)" by (metis prod_cases3)
  obtain is1 mc2 s2 where f: "cluster_fwd E X maxc i osize maxc is mc1 s1 = (is1, mc2, s2)" by (metis prod_cases3)
  have I: "cluster_inv s ob m maxc mc2 s2"
    by (rule cluster_fwd_inv [OF ok wf cluster_back_inv [OF ok wf Suc.prems(1) b] f])
  show ?case
  proof (cases "ib1 \<noteq> 0 \<and> length mc2 < maxc")
    case True
    then have "cluster_more E X maxc i osize n ib1 is1 mc2 s2 = (mc', u)" using Suc.prems(2) by (simp add: b f)
    then show ?thesis by (rule Suc.IH [OF I])
  next
    case False
    then have "mc' = mc2" "u = s2" using Suc.prems(2) by (auto simp: b f split: if_splits)
    then show ?thesis using I by simp
  qed
qed simp

text \<open>
  The cluster written out with a page is a run of pages of its object at consecutive indices that
  contains the page, is no longer than the bound, and whose other pages are all dirty, in the laundry,
  idle and not held; collecting it changes no page but by making it dirty.
\<close>

theorem cluster_contiguous:
  assumes ok: "objs_ok view s" and wf: "write_fair X" and m: "object (pg s m) = Some ob" and mx: "0 < maxc"
  shows "\<exists>mc u. vm_pageout_cluster_pages E X maxc m s = Inr (mc, u) \<and> m \<in> set mc \<and> length mc \<le> maxc \<and>
    successively (\<lambda>a b. pindex (pg s b) = pindex (pg s a) + 1) mc \<and> (\<forall>p\<in>set mc. object (pg s p) = Some ob) \<and>
    (\<forall>p\<in>set mc. p \<noteq> m \<longrightarrow> queue (pg s p) = PQ_LAUNDRY \<and> hold_count (pg s p) = 0 \<and>
      busy_lock (pg s p) = VPB_UNBUSIED \<and> dirty (pg u p) \<noteq> 0) \<and>
    (\<forall>p. pg u p = pg s p \<or> pg u p = vm_page_dirty (pg s p))"
proof -
  obtain mc u where e: "cluster_more E X maxc (pindex (pg s m)) (obj_size (objs s ob)) maxc 1 1 [m]
      (upd_page m (pmap_remove_write X m) s) = (mc, u)" by fastforce
  have "only_dirtied s (upd_page m (pmap_remove_write X m) s)"
    by (rule upd_only_dirtied) (use wf in \<open>simp add: write_fair_def\<close>)
  then have "cluster_inv s ob m maxc [m] (upd_page m (pmap_remove_write X m) s)"
    using m mx by (simp add: cluster_inv_def)
  from cluster_more_inv [OF ok wf this e] have "cluster_inv s ob m maxc mc u" .
  then show ?thesis
    using m e by (intro exI [of _ mc] exI [of _ u])
      (simp add: vm_pageout_cluster_pages_def cluster_inv_def only_dirtied_def joins_def vm_page_busied_def)
qed

definition pager0 :: "((nat \<times> pid) list, pid list) pager_env" where
  "pager0 = \<lparr>pmap_remove_write = (\<lambda>p x. x), pmap_ts_referenced = (\<lambda>p. 0), vm_pager_put_pages = map (\<lambda>p. VM_PAGER_OK),
    vn_start_write_fails = (\<lambda>p. False), vget_fails = (\<lambda>p. False), vnode_changed = (\<lambda>p. False),
    unlocked = (\<lambda>p s. s), disable_swap_pageouts = False\<rparr>"

theorem cluster_contiguous_witness:
  "\<exists>mc u. vm_pageout_cluster_pages env0 pager0 32 7 scan0 = Inr (mc, u) \<and> 7 \<in> set mc \<and> length mc \<le> 32"
proof -
  have ok: "objs_ok map_of scan0" using scan0_ready by (simp add: scan_ready_def)
  have wf: "write_fair pager0" by (simp add: write_fair_def pager0_def)
  have m: "object (pg scan0 7) = Some 0" by (simp add: scan0_def)
  show ?thesis using cluster_contiguous [OF ok wf m, of 32 env0] by auto
qed

end
