(* ===== verification/Vm_Alloc.thy ===== *)
theory Vm_Alloc
  imports Vm_Free_Props Vm_Daemon
begin

text \<open>
  Page allocation (\<open>src/asgn3/vm/vm_page.c\<close>): one page with its object and index, a run of
  contiguous pages, a page of one free list, and the waits of an allocation that finds too few free
  pages. In this theory the kernel's assertions are checked, a failed one is a panic.

  The physical allocator and the reservations are code outside the repository, arguments in the
  record \<open>alloc_env\<close>; so are the paging thresholds and \<open>asleep\<close>, all that other threads do to the
  state while the thread sleeps. The run of pages \<open>&m_ret[0] .. &m_ret[npages - 1]\<close> of the page array
  is the interval of page numbers. A loop that a sleep or a reclaimed reservation starts again has
  fuel; with none left the result is \<open>Diverges\<close>.
\<close>

unbundle bit_operations_syntax

section \<open>State and environment\<close>

datatype obj_flag = OBJ_COLORED | OBJ_FICTITIOUS | OBJ_UNMANAGED
datatype freepool = VM_FREEPOOL_DEFAULT | VM_FREEPOOL_DIRECT

text \<open>The flag \<open>pages_needed\<close> of the daemon's record is that of \<open>sys\<close>, see \<open>on_daemon\<close>.\<close>

record ('r, 'p) alloc_sys =
  sys :: "('r, 'p) vm_sys"
  pdaemon :: daemon
  vm_pageout_deficit :: u32

record ('r, 'p) alloc_env =
  venv :: "('r, 'p) vm_env"
  obj_flags :: "oid \<Rightarrow> obj_flag set"
  obj_memattr :: "oid \<Rightarrow> vm_memattr"
  curproc_is_pageproc :: bool
  pageproc_started :: bool
  v_free_reserved :: nat
  v_interrupt_free_min :: nat
  vm_paging_needed :: "nat \<Rightarrow> bool"
  vm_phys_alloc_pages :: "freepool \<Rightarrow> nat \<Rightarrow> 'p \<Rightarrow> pid option \<times> 'p"
  vm_phys_alloc_contig :: "nat \<Rightarrow> nat \<Rightarrow> nat \<Rightarrow> nat \<Rightarrow> nat \<Rightarrow> 'p \<Rightarrow> pid option \<times> 'p"
  vm_phys_alloc_freelist_pages :: "nat \<Rightarrow> freepool \<Rightarrow> nat \<Rightarrow> 'p \<Rightarrow> pid option \<times> 'p"
  vm_reserv_alloc_page :: "oid \<Rightarrow> nat \<Rightarrow> pid option \<Rightarrow> 'p \<Rightarrow> pid option \<times> 'p"
  vm_reserv_alloc_contig ::
    "oid \<Rightarrow> nat \<Rightarrow> nat \<Rightarrow> nat \<Rightarrow> nat \<Rightarrow> nat \<Rightarrow> nat \<Rightarrow> pid option \<Rightarrow> 'p \<Rightarrow> pid option \<times> 'p"
  vm_reserv_reclaim_inactive :: "'p \<Rightarrow> bool \<times> 'p"
  vm_reserv_reclaim_contig :: "nat \<Rightarrow> nat \<Rightarrow> nat \<Rightarrow> nat \<Rightarrow> nat \<Rightarrow> 'p \<Rightarrow> bool \<times> 'p"
  asleep :: "('r, 'p) alloc_sys \<Rightarrow> ('r, 'p) alloc_sys"

definition upd_sys :: "(('r, 'p) vm_sys \<Rightarrow> ('r, 'p) vm_sys) \<Rightarrow> ('r, 'p) alloc_sys \<Rightarrow> ('r, 'p) alloc_sys" where
  "upd_sys f a = a\<lparr>sys := f (sys a)\<rparr>"

definition on_daemon :: "(daemon \<Rightarrow> bool \<times> daemon) \<Rightarrow> ('r, 'p) alloc_sys \<Rightarrow> ('r, 'p) alloc_sys" where
  "on_daemon f a =
    (let (woken, d) = f ((pdaemon a)\<lparr>pages_needed := vm_pages_needed (sys a)\<rparr>)
     in a\<lparr>pdaemon := d, sys := (sys a)\<lparr>vm_pages_needed := pages_needed d\<rparr>\<rparr>)"

definition daemon_wakeup :: "('r, 'p) alloc_env \<Rightarrow> ('r, 'p) alloc_sys \<Rightarrow> ('r, 'p) alloc_sys" where
  "daemon_wakeup A = on_daemon (pagedaemon_wakeup (curproc_is_pageproc A))"

definition free_pages_left :: "('r, 'p) alloc_env \<Rightarrow> ('r, 'p) alloc_sys \<Rightarrow> nat" where
  "free_pages_left A a = v_free_count (venv A) (phys (sys a))"

section \<open>Waiting\<close>

definition vm_wait :: "('r, 'p) alloc_env \<Rightarrow> ('r, 'p) alloc_sys \<Rightarrow> fault + ('r, 'p) alloc_sys" where
  "vm_wait A a =
    (if curproc_is_pageproc A
     then Inr (asleep A (upd_sys (\<lambda>s. s\<lparr>vm_pageout_pages_needed := True\<rparr>) a))
     else if \<not> pageproc_started A then Inl Kernel_panic
     else Inr (asleep A (on_daemon pagedaemon_wait a)))"

definition vm_waitpfault :: "('r, 'p) alloc_env \<Rightarrow> ('r, 'p) alloc_sys \<Rightarrow> ('r, 'p) alloc_sys" where
  "vm_waitpfault A a = asleep A (on_daemon pagedaemon_wait a)"

definition vm_page_alloc_fail ::
    "('r, 'p) alloc_env \<Rightarrow> u32 \<Rightarrow> ('r, 'p) alloc_sys \<Rightarrow> fault + (bool \<times> ('r, 'p) alloc_sys)" where
  "vm_page_alloc_fail A req a =
    (let a1 = a\<lparr>vm_pageout_deficit := vm_pageout_deficit a + max (drop_bit VM_ALLOC_COUNT_SHIFT req) 1\<rparr>
     in if req AND (VM_ALLOC_WAITOK OR VM_ALLOC_WAITFAIL) \<noteq> 0
        then and_then (vm_wait A a1) (\<lambda>a2. Inr (req AND VM_ALLOC_WAITOK \<noteq> 0, a2))
        else Inr (False, daemon_wakeup A a1))"

section \<open>One page\<close>

definition alloc_class :: "('r, 'p) alloc_env \<Rightarrow> u32 \<Rightarrow> u32" where
  "alloc_class A req =
    (let req_class = req AND VM_ALLOC_CLASS_MASK
     in if curproc_is_pageproc A \<and> req_class \<noteq> VM_ALLOC_INTERRUPT then VM_ALLOC_SYSTEM else req_class)"

definition req_consistent :: "oid option \<Rightarrow> u32 \<Rightarrow> bool" where
  "req_consistent ob req \<longleftrightarrow>
    ((ob \<noteq> None) = (req AND VM_ALLOC_NOOBJ = 0)) \<and> (ob \<noteq> None \<or> req AND VM_ALLOC_SBUSY = 0) \<and>
    req AND (VM_ALLOC_NOBUSY OR VM_ALLOC_SBUSY) \<noteq> VM_ALLOC_NOBUSY OR VM_ALLOC_SBUSY \<and>
    (ob = None \<or> req AND VM_ALLOC_WAITOK = 0)"

definition may_alloc :: "('r, 'p) alloc_env \<Rightarrow> u32 \<Rightarrow> ('r, 'p) alloc_sys \<Rightarrow> bool" where
  "may_alloc A req_class a \<longleftrightarrow>
    free_pages_left A a > v_free_reserved A \<or>
    req_class = VM_ALLOC_SYSTEM \<and> free_pages_left A a > v_interrupt_free_min A \<or>
    req_class = VM_ALLOC_INTERRUPT \<and> free_pages_left A a > 0"

definition pick_page ::
    "('r, 'p) alloc_env \<Rightarrow> oid option \<Rightarrow> nat \<Rightarrow> pid option \<Rightarrow> 'p \<Rightarrow> pid option \<times> 'p" where
  "pick_page A ob i mpred p =
    (let pool = (if ob \<noteq> None then VM_FREEPOOL_DEFAULT else VM_FREEPOOL_DIRECT);
         (r, p1) = (case ob of
             Some b \<Rightarrow> if obj_flags A b \<inter> {OBJ_COLORED, OBJ_FICTITIOUS} = {OBJ_COLORED}
                       then vm_reserv_alloc_page A b i mpred p else (None, p)
           | None \<Rightarrow> (None, p))
     in case r of
          Some m \<Rightarrow> (Some m, p1)
        | None \<Rightarrow> (case vm_phys_alloc_pages A pool 0 p1 of
              (Some m, p2) \<Rightarrow> (Some m, p2)
            | (None, p2) \<Rightarrow> (case vm_reserv_reclaim_inactive A p2 of
                  (True, p3) \<Rightarrow> vm_phys_alloc_pages A pool 0 p3
                | (False, p3) \<Rightarrow> (None, p3))))"

fun find_page ::
    "nat \<Rightarrow> ('r, 'p) alloc_env \<Rightarrow> oid option \<Rightarrow> nat \<Rightarrow> u32 \<Rightarrow> pid option \<Rightarrow> ('r, 'p) alloc_sys
      \<Rightarrow> fault + (pid option \<times> ('r, 'p) alloc_sys)" where
  "find_page 0 A ob i req mpred a = Inl Diverges"
| "find_page (Suc n) A ob i req mpred a =
    (if may_alloc A (alloc_class A req) a
     then (case pick_page A ob i mpred (phys (sys a)) of
         (None, p) \<Rightarrow> Inl Kernel_panic
       | (Some m, p) \<Rightarrow> Inr (Some m, upd_sys (\<lambda>s. s\<lparr>phys := p\<rparr>) a))
     else and_then (vm_page_alloc_fail A req a) (\<lambda>(again, a1).
       if again then find_page n A ob i req mpred a1 else Inr (None, a1)))"

definition vm_page_alloc_check :: "vm_page \<Rightarrow> bool" where
  "vm_page_alloc_check x \<longleftrightarrow> object x = None \<and> queue x = PQ_NONE \<and> wire_count x = 0 \<and> hold_count x = 0 \<and>
    \<not> vm_page_busied (busy_lock x) \<and> dirty x = 0 \<and> memattr x = VM_MEMATTR_DEFAULT \<and> valid x = 0"

definition take_off :: "('r, 'p) alloc_env \<Rightarrow> pid \<Rightarrow> ('r, 'p) vm_sys \<Rightarrow> ('r, 'p) vm_sys" where
  "take_off A m s =
    s\<lparr>phys := vm_phys_freecnt_adj (venv A) m (- 1) (phys s),
      vm_page_zero_count := vm_page_zero_count s - (if PG_ZERO \<in> flags (pg s m) then 1 else 0)\<rparr>"

definition req_oflags :: "('r, 'p) alloc_env \<Rightarrow> oid option \<Rightarrow> vpo_flag set" where
  "req_oflags A ob = (case ob of None \<Rightarrow> {VPO_UNMANAGED}
    | Some b \<Rightarrow> if OBJ_UNMANAGED \<in> obj_flags A b then {VPO_UNMANAGED} else {})"

definition req_busy :: "u32 \<Rightarrow> u32" where
  "req_busy req =
    (let b = (if req AND (VM_ALLOC_NOBUSY OR VM_ALLOC_NOOBJ OR VM_ALLOC_SBUSY) = 0
              then VPB_SINGLE_EXCLUSIVER else VPB_UNBUSIED)
     in if req AND VM_ALLOC_SBUSY \<noteq> 0 then VPB_SHARERS_WORD 1 else b)"

definition init_page :: "('r, 'p) alloc_env \<Rightarrow> oid option \<Rightarrow> u32 \<Rightarrow> vm_page \<Rightarrow> vm_page" where
  "init_page A ob req x =
    (let fl = (if req AND VM_ALLOC_ZERO \<noteq> 0 then {PG_ZERO} else {}) \<inter> flags x;
         fl = (if req AND VM_ALLOC_NODUMP \<noteq> 0 then insert PG_NODUMP fl else fl)
     in x\<lparr>flags := fl, aflags := {}, oflags := req_oflags A ob, busy_lock := req_busy req,
          wire_count := (if req AND VM_ALLOC_WIRED \<noteq> 0 then 1 else wire_count x), act_count := 0\<rparr>)"

definition wire_cnt :: "u32 \<Rightarrow> int \<Rightarrow> ('r, 'p) vm_sys \<Rightarrow> ('r, 'p) vm_sys" where
  "wire_cnt req n s = (if req AND VM_ALLOC_WIRED \<noteq> 0 then cnt_add v_wire_count n s else s)"

text \<open>What both allocation routines do with a page before they give it back.\<close>

definition uninit_page :: "bool \<Rightarrow> vm_page \<Rightarrow> vm_page" where
  "uninit_page wired x =
    x\<lparr>wire_count := (if wired then 0 else wire_count x), oflags := {VPO_UNMANAGED}, busy_lock := VPB_UNBUSIED\<rparr>"

definition alloc_undo ::
    "('r, 'p) alloc_env \<Rightarrow> u32 \<Rightarrow> pid \<Rightarrow> ('r, 'p) alloc_sys \<Rightarrow> fault + ('r, 'p) alloc_sys" where
  "alloc_undo A req m a =
    (let a1 = upd_sys (wire_cnt req (- 1)) (daemon_wakeup A a)
     in if object (pg (sys a1) m) \<noteq> None then Inl Kernel_panic
        else and_then (vm_page_free_toq (venv A) m (upd_page m (uninit_page (req AND VM_ALLOC_WIRED \<noteq> 0)) (sys a1)))
          (\<lambda>s. Inr (if req AND VM_ALLOC_WAITFAIL \<noteq> 0 then asleep A (a1\<lparr>sys := s\<rparr>) else a1\<lparr>sys := s\<rparr>)))"

definition wake_if_needed :: "('r, 'p) alloc_env \<Rightarrow> nat \<Rightarrow> ('r, 'p) alloc_sys \<Rightarrow> ('r, 'p) alloc_sys" where
  "wake_if_needed A fc a = (if vm_paging_needed A fc then daemon_wakeup A a else a)"

definition vm_page_alloc_after ::
    "nat \<Rightarrow> ('r, 'p) alloc_env \<Rightarrow> oid option \<Rightarrow> nat \<Rightarrow> u32 \<Rightarrow> pid option \<Rightarrow> ('r, 'p) alloc_sys
      \<Rightarrow> fault + (pid option \<times> ('r, 'p) alloc_sys)" where
  "vm_page_alloc_after n A ob i req mpred a =
    (if \<not> req_consistent ob req \<or> (\<exists>p\<in>set_option mpred. \<not> pindex (pg (sys a) p) < i) then Inl Kernel_panic
     else if req AND VM_ALLOC_IFCACHED \<noteq> 0 then Inr (None, a)
     else and_then (find_page n A ob i req mpred a) (\<lambda>(r, a1).
       case r of
         None \<Rightarrow> Inr (None, a1)
       | Some m \<Rightarrow>
         (let a2 = upd_sys (take_off A m) a1;
              fc = free_pages_left A a2
          in if \<not> vm_page_alloc_check (pg (sys a2) m) then Inl Kernel_panic
             else
              (let a3 = upd_sys (\<lambda>s. wire_cnt req 1 (upd_page m (init_page A ob req) s)) a2
               in case ob of
                    None \<Rightarrow> Inr (Some m, wake_if_needed A fc (upd_sys (upd_page m (\<lambda>x. x\<lparr>pindex := i\<rparr>)) a3))
                  | Some b \<Rightarrow>
                      (case vm_page_insert_after (venv A) m b i mpred (sys a3) of
                         (True, s) \<Rightarrow> and_then (alloc_undo A req m (a3\<lparr>sys := s\<rparr>)) (\<lambda>a4. Inr (None, a4))
                       | (False, s) \<Rightarrow>
                          (let s1 = (if obj_memattr A b \<noteq> VM_MEMATTR_DEFAULT \<and> OBJ_FICTITIOUS \<notin> obj_flags A b
                                     then upd_page m (\<lambda>x. x\<lparr>memattr := obj_memattr A b\<rparr>) s else s)
                           in Inr (Some m, wake_if_needed A fc (a3\<lparr>sys := s1\<rparr>))))))))"

definition vm_page_alloc ::
    "nat \<Rightarrow> ('r, 'p) alloc_env \<Rightarrow> oid option \<Rightarrow> nat \<Rightarrow> u32 \<Rightarrow> ('r, 'p) alloc_sys
      \<Rightarrow> fault + (pid option \<times> ('r, 'p) alloc_sys)" where
  "vm_page_alloc n A ob i req a =
    vm_page_alloc_after n A ob i req
      (case ob of Some b \<Rightarrow> vm_radix_lookup_le (venv A) (rtree (objs (sys a) b)) i | None \<Rightarrow> None) a"

section \<open>A page of one free list\<close>

fun find_freelist_page ::
    "nat \<Rightarrow> ('r, 'p) alloc_env \<Rightarrow> nat \<Rightarrow> u32 \<Rightarrow> ('r, 'p) alloc_sys \<Rightarrow> fault + (pid option \<times> ('r, 'p) alloc_sys)" where
  "find_freelist_page 0 A flind req a = Inl Diverges"
| "find_freelist_page (Suc n) A flind req a =
    (if may_alloc A (alloc_class A req) a
     then (case vm_phys_alloc_freelist_pages A flind VM_FREEPOOL_DIRECT 0 (phys (sys a)) of
         (r, p) \<Rightarrow> Inr (r, upd_sys (\<lambda>s. s\<lparr>phys := p\<rparr>) a))
     else and_then (vm_page_alloc_fail A req a) (\<lambda>(again, a1).
       if again then find_freelist_page n A flind req a1 else Inr (None, a1)))"

definition vm_page_alloc_freelist ::
    "nat \<Rightarrow> ('r, 'p) alloc_env \<Rightarrow> nat \<Rightarrow> u32 \<Rightarrow> ('r, 'p) alloc_sys \<Rightarrow> fault + (pid option \<times> ('r, 'p) alloc_sys)" where
  "vm_page_alloc_freelist n A flind req a =
    and_then (find_freelist_page n A flind req a) (\<lambda>(r, a1).
      case r of
        None \<Rightarrow> Inr (None, a1)
      | Some m \<Rightarrow>
        (let a2 = upd_sys (take_off A m) a1
         in if \<not> vm_page_alloc_check (pg (sys a2) m) then Inl Kernel_panic
            else
             (let wired = req AND VM_ALLOC_WIRED \<noteq> 0;
                  a3 = upd_sys (\<lambda>s. wire_cnt req 1 (upd_page m (\<lambda>x. x\<lparr>aflags := {},
                    flags := flags x \<inter> (if req AND VM_ALLOC_ZERO \<noteq> 0 then {PG_ZERO} else {}),
                    wire_count := (if wired then 1 else wire_count x), oflags := {VPO_UNMANAGED}\<rparr>) s)) a2
              in Inr (Some m, wake_if_needed A (free_pages_left A a2) a3))))"

section \<open>Contiguous pages\<close>

definition may_alloc_contig :: "('r, 'p) alloc_env \<Rightarrow> u32 \<Rightarrow> nat \<Rightarrow> ('r, 'p) alloc_sys \<Rightarrow> bool" where
  "may_alloc_contig A req_class npages a \<longleftrightarrow>
    free_pages_left A a \<ge> npages + v_free_reserved A \<or>
    req_class = VM_ALLOC_SYSTEM \<and> free_pages_left A a \<ge> npages + v_interrupt_free_min A \<or>
    req_class = VM_ALLOC_INTERRUPT \<and> free_pages_left A a \<ge> npages"

record contig_req =
  cr_npages :: nat
  cr_low :: nat
  cr_high :: nat
  cr_alignment :: nat
  cr_boundary :: nat

fun contig_pages ::
    "nat \<Rightarrow> ('r, 'p) alloc_env \<Rightarrow> oid option \<Rightarrow> nat \<Rightarrow> pid option \<Rightarrow> contig_req \<Rightarrow> 'p \<Rightarrow> fault + (pid option \<times> 'p)" where
  "contig_pages 0 A ob i mpred c p = Inl Diverges"
| "contig_pages (Suc n) A ob i mpred c p =
    (let (r, p1) = (case ob of
           Some b \<Rightarrow> if OBJ_COLORED \<in> obj_flags A b
             then vm_reserv_alloc_contig A b i (cr_npages c) (cr_low c) (cr_high c) (cr_alignment c) (cr_boundary c) mpred p
             else (None, p)
         | None \<Rightarrow> (None, p));
         (r2, p2) = (case r of Some m \<Rightarrow> (r, p1)
           | None \<Rightarrow> vm_phys_alloc_contig A (cr_npages c) (cr_low c) (cr_high c) (cr_alignment c) (cr_boundary c) p1)
     in case r2 of
          Some m \<Rightarrow> Inr (Some m, p2)
        | None \<Rightarrow>
            (case vm_reserv_reclaim_contig A (cr_npages c) (cr_low c) (cr_high c) (cr_alignment c) (cr_boundary c) p2 of
               (True, p3) \<Rightarrow> contig_pages n A ob i mpred c p3
             | (False, p3) \<Rightarrow> Inr (None, p3)))"

fun find_contig ::
    "nat \<Rightarrow> ('r, 'p) alloc_env \<Rightarrow> oid option \<Rightarrow> nat \<Rightarrow> u32 \<Rightarrow> pid option \<Rightarrow> contig_req \<Rightarrow> ('r, 'p) alloc_sys
      \<Rightarrow> fault + (pid option \<times> ('r, 'p) alloc_sys)" where
  "find_contig 0 A ob i req mpred c a = Inl Diverges"
| "find_contig (Suc n) A ob i req mpred c a =
    (if may_alloc_contig A (alloc_class A req) (cr_npages c) a
     then and_then (contig_pages (Suc n) A ob i mpred c (phys (sys a)))
       (\<lambda>(r, p). Inr (r, upd_sys (\<lambda>s. s\<lparr>phys := p\<rparr>) a))
     else and_then (vm_page_alloc_fail A req a) (\<lambda>(again, a1).
       if again then find_contig n A ob i req mpred c a1 else Inr (None, a1)))"

definition take_off_run :: "('r, 'p) alloc_env \<Rightarrow> pid \<Rightarrow> nat \<Rightarrow> ('r, 'p) vm_sys \<Rightarrow> ('r, 'p) vm_sys" where
  "take_off_run A m npages s =
    s\<lparr>phys := vm_phys_freecnt_adj (venv A) m (- int npages) (phys s),
      vm_page_zero_count := vm_page_zero_count s - int (length (filter (\<lambda>k. PG_ZERO \<in> flags (pg s k)) [m..<m + npages]))\<rparr>"

definition init_contig_page :: "('r, 'p) alloc_env \<Rightarrow> oid option \<Rightarrow> u32 \<Rightarrow> vm_page \<Rightarrow> vm_page" where
  "init_contig_page A ob req x =
    (let fl = (if req AND VM_ALLOC_ZERO \<noteq> 0 then {PG_ZERO} else {});
         fl = (if req AND VM_ALLOC_NODUMP \<noteq> 0 then insert PG_NODUMP fl else fl)
     in x\<lparr>aflags := {}, flags := insert PG_NODUMP (flags x) \<inter> fl, busy_lock := req_busy req,
          wire_count := (if req AND VM_ALLOC_WIRED \<noteq> 0 then 1 else wire_count x), act_count := 0,
          oflags := req_oflags A ob\<rparr>)"

text \<open>Giving the run back after the insertion of its page \<open>mlast\<close> failed.\<close>

fun free_run :: "('r, 'p) alloc_env \<Rightarrow> u32 \<Rightarrow> pid \<Rightarrow> pid list \<Rightarrow> ('r, 'p) vm_sys \<Rightarrow> fault + ('r, 'p) vm_sys" where
  "free_run A req mlast [] s = Inr s"
| "free_run A req mlast (m # ms) s =
    and_then (vm_page_free_toq (venv A) m
        (upd_page m (uninit_page (m \<le> mlast \<and> req AND VM_ALLOC_WIRED \<noteq> 0)) s))
      (free_run A req mlast ms)"

fun insert_run ::
    "('r, 'p) alloc_env \<Rightarrow> oid option \<Rightarrow> u32 \<Rightarrow> vm_memattr \<Rightarrow> pid list \<Rightarrow> nat \<Rightarrow> pid option \<Rightarrow> ('r, 'p) vm_sys
      \<Rightarrow> pid option \<times> ('r, 'p) vm_sys" where
  "insert_run A ob req attr [] i mpred s = (None, s)"
| "insert_run A ob req attr (m # ms) i mpred s =
    (let s1 = upd_page m (init_contig_page A ob req) s;
         set_attr = (\<lambda>s. if attr \<noteq> VM_MEMATTR_DEFAULT then upd_page m (\<lambda>x. x\<lparr>memattr := attr\<rparr>) s else s)
     in case ob of
          None \<Rightarrow> insert_run A ob req attr ms (i + 1) mpred (set_attr (upd_page m (\<lambda>x. x\<lparr>pindex := i\<rparr>) s1))
        | Some b \<Rightarrow>
            (case vm_page_insert_after (venv A) m b i mpred s1 of
               (True, s2) \<Rightarrow> (Some m, s2)
             | (False, s2) \<Rightarrow> insert_run A ob req attr ms (i + 1) (Some m) (set_attr s2)))"

definition vm_page_alloc_contig ::
    "nat \<Rightarrow> ('r, 'p) alloc_env \<Rightarrow> oid option \<Rightarrow> nat \<Rightarrow> u32 \<Rightarrow> contig_req \<Rightarrow> vm_memattr \<Rightarrow> ('r, 'p) alloc_sys
      \<Rightarrow> fault + (pid option \<times> ('r, 'p) alloc_sys)" where
  "vm_page_alloc_contig n A ob i req c attr a =
    (let mpred = (case ob of Some b \<Rightarrow> vm_radix_lookup_le (venv A) (rtree (objs (sys a) b)) i | None \<Rightarrow> None);
         npages = cr_npages c
     in if \<not> req_consistent ob req \<or> (\<exists>b\<in>set_option ob. OBJ_FICTITIOUS \<in> obj_flags A b) \<or> npages = 0 \<or>
           (\<exists>p\<in>set_option mpred. pindex (pg (sys a) p) = i) then Inl Kernel_panic
        else and_then (find_contig n A ob i req mpred c a) (\<lambda>(r, a1).
          case r of
            None \<Rightarrow> Inr (None, a1)
          | Some m \<Rightarrow>
            (let a2 = upd_sys (take_off_run A m npages) a1;
                 attr1 = (case ob of Some b \<Rightarrow> if obj_memattr A b \<noteq> VM_MEMATTR_DEFAULT \<and> attr = VM_MEMATTR_DEFAULT
                                               then obj_memattr A b else attr | None \<Rightarrow> attr)
             in if \<not> (\<forall>k\<in>set [m..<m + npages]. vm_page_alloc_check (pg (sys a2) k)) then Inl Kernel_panic
                else
                 (case insert_run A ob req attr1 [m..<m + npages] i mpred (wire_cnt req (int npages) (sys a2)) of
                    (None, s) \<Rightarrow>
                      (let a3 = a2\<lparr>sys := s\<rparr> in Inr (Some m, wake_if_needed A (free_pages_left A a3) a3))
                  | (Some mlast, s) \<Rightarrow>
                      (let a3 = upd_sys (wire_cnt req (- int npages)) (daemon_wakeup A (a2\<lparr>sys := s\<rparr>))
                       in if object (pg (sys a3) mlast) \<noteq> None then Inl Kernel_panic
                          else and_then (free_run A req mlast [m..<m + npages] (sys a3)) (\<lambda>s1.
                            Inr (None, if req AND VM_ALLOC_WAITFAIL \<noteq> 0 then asleep A (a3\<lparr>sys := s1\<rparr>)
                                       else a3\<lparr>sys := s1\<rparr>))))))) "

end
