(* ===== verification/Vm_Alloc_Laws.thy ===== *)
theory Vm_Alloc_Laws
  imports Vm_Alloc
begin

text \<open>
  What the proofs about page allocation share. \<open>alloc_laws\<close> states what the physical allocator
  and the reservations promise, with \<open>avail\<close> the free pages of an allocator state;
  \<open>mem_ok\<close> is the invariant of memory as a whole, and the lemmas follow a page out of the
  allocator, into an object and back.
\<close>

section \<open>What the allocator promises\<close>

definition fresh :: "vm_page \<Rightarrow> bool" where
  "fresh x \<longleftrightarrow> vm_page_alloc_check x \<and> flags x \<inter> {PG_FICTITIOUS, PG_MARKER, PG_UNHOLDFREE} = {}"

definition gives :: "('p \<Rightarrow> pid set) \<Rightarrow> ('p \<Rightarrow> nat) \<Rightarrow> nat \<Rightarrow> 'p \<Rightarrow> pid option \<times> 'p \<Rightarrow> bool" where
  "gives avail cnt n p r \<longleftrightarrow> cnt (snd r) = cnt p \<and>
    (case fst r of None \<Rightarrow> avail (snd r) = avail p
     | Some m \<Rightarrow> {m..<m + n} \<subseteq> avail p \<and> avail (snd r) = avail p - {m..<m + n})"

definition alloc_laws :: "('r, 'p) alloc_env \<Rightarrow> ('p \<Rightarrow> pid set) \<Rightarrow> bool" where
  "alloc_laws A avail \<longleftrightarrow> (let E = venv A; cnt = v_free_count E in
    (\<forall>k p. gives avail cnt 1 p (vm_phys_alloc_pages A k 0 p)) \<and>
    (\<forall>l k p. gives avail cnt 1 p (vm_phys_alloc_freelist_pages A l k 0 p)) \<and>
    (\<forall>b i mp p. gives avail cnt 1 p (vm_reserv_alloc_page A b i mp p)) \<and>
    (\<forall>n lo hi al bo p. gives avail cnt n p (vm_phys_alloc_contig A n lo hi al bo p)) \<and>
    (\<forall>b i n lo hi al bo mp p. gives avail cnt n p (vm_reserv_alloc_contig A b i n lo hi al bo mp p)) \<and>
    (\<forall>p. avail (snd (vm_reserv_reclaim_inactive A p)) = avail p \<and> cnt (snd (vm_reserv_reclaim_inactive A p)) = cnt p) \<and>
    (\<forall>n lo hi al bo p. avail (snd (vm_reserv_reclaim_contig A n lo hi al bo p)) = avail p \<and>
      cnt (snd (vm_reserv_reclaim_contig A n lo hi al bo p)) = cnt p) \<and>
    (\<forall>m n p. avail (vm_phys_freecnt_adj E m n p) = avail p \<and> cnt (vm_phys_freecnt_adj E m n p) = nat (int (cnt p) + n)) \<and>
    (\<forall>m p. m \<notin> avail p \<longrightarrow> cnt (fst (vm_reserv_free_page E m p)) = cnt p \<and>
      avail (fst (vm_reserv_free_page E m p)) = (if snd (vm_reserv_free_page E m p) then insert m (avail p) else avail p)) \<and>
    (\<forall>m p. m \<notin> avail p \<longrightarrow> avail (vm_phys_free_pages E m p) = insert m (avail p) \<and> cnt (vm_phys_free_pages E m p) = cnt p) \<and>
    (\<forall>k p. avail p \<noteq> {} \<and> fst (vm_phys_alloc_pages A k 0 p) = None \<longrightarrow>
      fst (vm_reserv_reclaim_inactive A (snd (vm_phys_alloc_pages A k 0 p))) \<and>
      fst (vm_phys_alloc_pages A k 0 (snd (vm_reserv_reclaim_inactive A (snd (vm_phys_alloc_pages A k 0 p))))) \<noteq> None))"

lemma alloc_lawsD:
  assumes "alloc_laws A avail"
  shows "gives avail (v_free_count (venv A)) 1 p (vm_phys_alloc_pages A k 0 p)"
    and "gives avail (v_free_count (venv A)) 1 p (vm_phys_alloc_freelist_pages A l k 0 p)"
    and "gives avail (v_free_count (venv A)) 1 p (vm_reserv_alloc_page A b i mp p)"
    and "gives avail (v_free_count (venv A)) n p (vm_phys_alloc_contig A n lo hi al bo p)"
    and "gives avail (v_free_count (venv A)) n p (vm_reserv_alloc_contig A b i n lo hi al bo mp p)"
    and "avail (snd (vm_reserv_reclaim_inactive A p)) = avail p"
    and "v_free_count (venv A) (snd (vm_reserv_reclaim_inactive A p)) = v_free_count (venv A) p"
    and "avail (snd (vm_reserv_reclaim_contig A n lo hi al bo p)) = avail p"
    and "v_free_count (venv A) (snd (vm_reserv_reclaim_contig A n lo hi al bo p)) = v_free_count (venv A) p"
    and "avail (vm_phys_freecnt_adj (venv A) m z p) = avail p"
    and "v_free_count (venv A) (vm_phys_freecnt_adj (venv A) m z p) = nat (int (v_free_count (venv A) p) + z)"
    and "avail p \<noteq> {} \<Longrightarrow> fst (vm_phys_alloc_pages A k 0 p) = None \<Longrightarrow>
      fst (vm_reserv_reclaim_inactive A (snd (vm_phys_alloc_pages A k 0 p))) \<and>
      fst (vm_phys_alloc_pages A k 0 (snd (vm_reserv_reclaim_inactive A (snd (vm_phys_alloc_pages A k 0 p))))) \<noteq> None"
  using assms unfolding alloc_laws_def Let_def by simp_all

lemma alloc_laws_free:
  assumes "alloc_laws A avail" and m: "m \<notin> avail p"
  shows "avail (handed (venv A) m p) = insert m (avail p)"
    and "v_free_count (venv A) (handed (venv A) m p) = v_free_count (venv A) p + 1"
proof -
  define q where "q = vm_phys_freecnt_adj (venv A) m 1 p"
  define r where "r = vm_reserv_free_page (venv A) m q"
  have q: "avail q = avail p" "v_free_count (venv A) q = v_free_count (venv A) p + 1"
    using alloc_lawsD(10,11) [OF assms(1), of m 1 p] by (simp_all add: q_def)
  have "\<forall>m p. m \<notin> avail p \<longrightarrow> v_free_count (venv A) (fst (vm_reserv_free_page (venv A) m p)) = v_free_count (venv A) p \<and>
      avail (fst (vm_reserv_free_page (venv A) m p)) =
        (if snd (vm_reserv_free_page (venv A) m p) then insert m (avail p) else avail p)"
    using assms(1) unfolding alloc_laws_def Let_def by blast
  then have r: "v_free_count (venv A) (fst r) = v_free_count (venv A) p + 1"
     "avail (fst r) = (if snd r then insert m (avail p) else avail p)" using m q by (simp_all add: r_def)
  have "\<forall>m p. m \<notin> avail p \<longrightarrow> avail (vm_phys_free_pages (venv A) m p) = insert m (avail p) \<and>
      v_free_count (venv A) (vm_phys_free_pages (venv A) m p) = v_free_count (venv A) p"
    using assms(1) unfolding alloc_laws_def Let_def by blast
  then have f: "\<not> snd r \<Longrightarrow> avail (vm_phys_free_pages (venv A) m (fst r)) = insert m (avail p)"
     "\<not> snd r \<Longrightarrow> v_free_count (venv A) (vm_phys_free_pages (venv A) m (fst r)) = v_free_count (venv A) p + 1"
    using m r by simp_all
  have h: "handed (venv A) m p = (if snd r then fst r else vm_phys_free_pages (venv A) m (fst r))"
    by (simp add: handed_def r_def q_def split: prod.split)
  show "avail (handed (venv A) m p) = insert m (avail p)" using r(2) f(1) by (simp add: h)
  show "v_free_count (venv A) (handed (venv A) m p) = v_free_count (venv A) p + 1" using r(1) f(2) by (simp add: h)
qed

text \<open>
  Memory is in order: queues and objects are, every free page is as allocation expects it, and the
  free count is their number.
\<close>

definition mem_ok ::
    "('r, 'p) vm_env \<Rightarrow> ('r \<Rightarrow> nat \<Rightarrow> pid option) \<Rightarrow> ('p \<Rightarrow> pid set) \<Rightarrow> ('r, 'p) vm_sys \<Rightarrow> bool" where
  "mem_ok E view avail s \<longleftrightarrow> queues_ok E s \<and> objs_ok view s \<and> (\<forall>m\<in>avail (phys s). fresh (pg s m)) \<and>
    finite (avail (phys s)) \<and> v_free_count E (phys s) = card (avail (phys s))"

lemma mem_okD:
  assumes "mem_ok E view avail s"
  shows "queues_ok E s" "objs_ok view s" "m \<in> avail (phys s) \<Longrightarrow> fresh (pg s m)" "finite (avail (phys s))"
    "v_free_count E (phys s) = card (avail (phys s))"
  using assms unfolding mem_ok_def by blast+

lemma mem_okI:
  assumes "queues_ok E s" "objs_ok view s" "\<And>m. m \<in> avail (phys s) \<Longrightarrow> fresh (pg s m)" "finite (avail (phys s))"
    "v_free_count E (phys s) = card (avail (phys s))"
  shows "mem_ok E view avail s"
  using assms unfolding mem_ok_def by blast

lemma freshD:
  assumes "fresh x"
  shows "object x = None" "queue x = PQ_NONE" "wire_count x = 0" "hold_count x = 0" "busy_lock x = VPB_UNBUSIED"
    "dirty x = 0" "valid x = 0" "memattr x = VM_MEMATTR_DEFAULT"
    "PG_FICTITIOUS \<notin> flags x" "PG_MARKER \<notin> flags x" "PG_UNHOLDFREE \<notin> flags x"
  using assms by (auto simp: fresh_def vm_page_alloc_check_def vm_page_busied_def)

text \<open>A change of state that touches neither pages, queues, objects nor the allocator.\<close>

lemma mem_ok_same:
  assumes "mem_ok E view avail s" "pg s' = pg s" "vmd s' = vmd s" "objs s' = objs s" "phys s' = phys s"
  shows "mem_ok E view avail s'"
proof (rule mem_okI)
  show "queues_ok E s'" by (rule queues_ok_cong [OF _ _ mem_okD(1) [OF assms(1)]]) (simp_all add: assms)
  show "objs_ok view s'" by (rule objs_ok_cong [OF _ _ mem_okD(2) [OF assms(1)]]) (simp_all add: assms)
qed (use mem_okD(3-5) [OF assms(1)] assms(5) in \<open>simp_all add: assms(2)\<close>)

lemma cnt_add_mem_ok [simp]: "mem_ok E view avail (cnt_add c n s) \<longleftrightarrow> mem_ok E view avail s"
  using mem_ok_same [of E view avail "cnt_add c n s" s] mem_ok_same [of E view avail s "cnt_add c n s"] by auto

section \<open>Pages taken from the allocator\<close>

lemma take_ok:
  assumes al: "alloc_laws A avail" and ok: "mem_ok (venv A) view avail s"
    and g: "gives avail (v_free_count (venv A)) n (phys s) (Some m, p)"
    and s': "pg s' = pg s" "vmd s' = vmd s" "objs s' = objs s"
      "phys s' = vm_phys_freecnt_adj (venv A) m (- int n) p"
  shows "mem_ok (venv A) view avail s'" "{m..<m + n} \<subseteq> avail (phys s)" "avail (phys s') = avail (phys s) - {m..<m + n}"
proof -
  have run: "{m..<m + n} \<subseteq> avail (phys s)" "avail p = avail (phys s) - {m..<m + n}"
    and c: "v_free_count (venv A) p = v_free_count (venv A) (phys s)"
    using g by (simp_all add: gives_def)
  show av: "avail (phys s') = avail (phys s) - {m..<m + n}"
    using alloc_lawsD(10) [OF al] run(2) by (simp add: s'(4))
  show "{m..<m + n} \<subseteq> avail (phys s)" by (rule run(1))
  have fin: "finite (avail (phys s))" by (rule mem_okD(4) [OF ok])
  have "card (avail (phys s) - {m..<m + n}) = card (avail (phys s)) - n"
    using card_Diff_subset [OF _ run(1)] by simp
  moreover have "v_free_count (venv A) (phys s') = card (avail (phys s)) - n"
    using alloc_lawsD(11) [OF al, of m "- int n" p] c mem_okD(5) [OF ok] by (simp add: s'(4) nat_diff_distrib')
  ultimately have cnt: "v_free_count (venv A) (phys s') = card (avail (phys s'))" by (simp add: av)
  show "mem_ok (venv A) view avail s'"
  proof (rule mem_okI)
    show "queues_ok (venv A) s'" by (rule queues_ok_cong [OF _ _ mem_okD(1) [OF ok]]) (simp_all add: s')
    show "objs_ok view s'" by (rule objs_ok_cong [OF _ _ mem_okD(2) [OF ok]]) (simp_all add: s')
    show "fresh (pg s' k)" if "k \<in> avail (phys s')" for k using that mem_okD(3) [OF ok, of k] by (simp add: av s'(1))
    show "finite (avail (phys s'))" using fin by (simp add: av)
  qed (rule cnt)
qed

lemma may_alloc_avail:
  assumes "mem_ok (venv A) view avail (sys a)" "may_alloc A c a"
  shows "avail (phys (sys a)) \<noteq> {}"
  using assms mem_okD(5) [OF assms(1)] by (auto simp: may_alloc_def free_pages_left_def)

lemma pick_page_ok:
  assumes al: "alloc_laws A avail" and ne: "avail p \<noteq> {}"
  shows "\<exists>m p'. pick_page A ob i mpred p = (Some m, p') \<and> gives avail (v_free_count (venv A)) 1 p (Some m, p')"
proof -
  define pool where "pool = (if ob \<noteq> None then VM_FREEPOOL_DEFAULT else VM_FREEPOOL_DIRECT)"
  let ?g = "gives avail (v_free_count (venv A)) 1"
  define first where "first = (case ob of
      Some b \<Rightarrow> if obj_flags A b \<inter> {OBJ_COLORED, OBJ_FICTITIOUS} = {OBJ_COLORED}
                then vm_reserv_alloc_page A b i mpred p else (None, p)
    | None \<Rightarrow> (None, p))"
  have pp: "pick_page A ob i mpred p = (case first of (Some m, p1) \<Rightarrow> (Some m, p1)
     | (None, p1) \<Rightarrow> (case vm_phys_alloc_pages A pool 0 p1 of (Some m, p2) \<Rightarrow> (Some m, p2)
       | (None, p2) \<Rightarrow> (case vm_reserv_reclaim_inactive A p2 of
             (True, p3) \<Rightarrow> vm_phys_alloc_pages A pool 0 p3 | (False, p3) \<Rightarrow> (None, p3))))"
    unfolding pick_page_def Let_def first_def [symmetric] pool_def [symmetric] by (simp split: prod.split option.split)
  have "?g p (None, p)" by (simp add: gives_def)
  then have g1: "?g p first"
    unfolding first_def using alloc_lawsD(3) [OF al] by (simp split: option.split)
  obtain r p1 where f: "first = (r, p1)" by (cases first)
  show ?thesis
  proof (cases r)
    case (Some m)
    then show ?thesis using g1 by (auto simp: pp f)
  next
    case None
    have p1: "avail p1 = avail p" "v_free_count (venv A) p1 = v_free_count (venv A) p"
      using g1 by (simp_all add: f None gives_def)
    have same: "?g q x = ?g p x" if "avail q = avail p" "v_free_count (venv A) q = v_free_count (venv A) p" for q x
      unfolding gives_def that ..
    obtain r2 p2 where f2: "vm_phys_alloc_pages A pool 0 p1 = (r2, p2)" by (cases "vm_phys_alloc_pages A pool 0 p1")
    have g2: "?g p (r2, p2)" using alloc_lawsD(1) [OF al, of p1 pool] same [OF p1] by (simp only: f2)
    show ?thesis
    proof (cases r2)
      case (Some m)
      then show ?thesis using g2 by (auto simp: pp f None f2)
    next
      case N2: None
      have p2: "avail p2 = avail p" "v_free_count (venv A) p2 = v_free_count (venv A) p"
        using g2 by (simp_all add: N2 gives_def)
      obtain ok p3 where f3: "vm_reserv_reclaim_inactive A p2 = (ok, p3)" by (cases "vm_reserv_reclaim_inactive A p2")
      have three: "ok \<and> fst (vm_phys_alloc_pages A pool 0 p3) \<noteq> None"
        using alloc_lawsD(12) [OF al, of p1 pool] ne p1(1) by (simp add: f2 f3 N2)
      then obtain m p4 where f4: "vm_phys_alloc_pages A pool 0 p3 = (Some m, p4)"
        by (cases "vm_phys_alloc_pages A pool 0 p3") auto
      have p3: "avail p3 = avail p" "v_free_count (venv A) p3 = v_free_count (venv A) p"
        using alloc_lawsD(6,7) [OF al, of p2] p2 by (simp_all add: f3)
      have "?g p (Some m, p4)" using alloc_lawsD(1) [OF al, of p3 pool] same [OF p3] by (simp only: f4)
      then show ?thesis using three by (auto simp: pp f None f2 N2 f3 f4)
    qed
  qed
qed

text \<open>Changing a page that is neither free, nor queued, nor in an object.\<close>

lemma off_queue_ok:
  assumes ok: "queues_ok E s" and v: "vmd s' = vmd s" and oth: "\<And>n. n \<noteq> m \<Longrightarrow> pg s' n = pg s n"
    and m: "queue (pg s m) = PQ_NONE" "queue (pg s' m) = PQ_NONE" "regular s' m = regular s m"
  shows "queues_ok E s'"
proof -
  have reg: "regular s' = regular s"
  proof
    fix n show "regular s' n = regular s n" using oth [of n] m(3) by (cases "n = m") (simp_all add: regular_def)
  qed
  have q: "queue (pg s' n) = queue (pg s n)" for n using oth [of n] m by (cases "n = m") simp_all
  have mov: "queue (pg s n) \<noteq> PQ_NONE \<Longrightarrow> movable s' n = movable s n" for n
    using oth [of n] m by (cases "n = m") (simp_all add: movable_def)
  show ?thesis using ok mov unfolding queues_ok_def v reg q by auto
qed

lemma private_upd_ok:
  assumes ok: "mem_ok E view avail s" and m: "m \<notin> avail (phys s)" "queue (pg s m) = PQ_NONE" "object (pg s m) = None"
    and s': "vmd s' = vmd s" "objs s' = objs s" "phys s' = phys s" and oth: "\<And>n. n \<noteq> m \<Longrightarrow> pg s' n = pg s n"
    and m': "queue (pg s' m) = PQ_NONE" "object (pg s' m) = None" "regular s' m = regular s m"
  shows "mem_ok E view avail s'"
proof (rule mem_okI)
  show "queues_ok E s'" by (rule off_queue_ok [OF mem_okD(1) [OF ok] s'(1) oth m(2) m'(1,3)])
  show "objs_ok view s'"
    unfolding objs_ok_def
  proof
    fix ob
    show "object_ok view (pg s') ob (objs s' ob)"
      by (rule object_ok_other [OF objs_okD [OF mem_okD(2) [OF ok]], of m]) (use oth m m' in \<open>simp_all add: s'(2)\<close>)
  qed
  show "fresh (pg s' n)" if "n \<in> avail (phys s')" for n
    using that m(1) mem_okD(3) [OF ok, of n] oth [of n] by (cases "n = m") (simp_all add: s'(3))
qed (use mem_okD(4,5) [OF ok] s'(3) in simp_all)

lemma upd_page_mem_ok:
  assumes ok: "mem_ok E view avail s" and m: "m \<notin> avail (phys s)"
    and f: "\<And>x. flags (f x) = flags x \<and> queue (f x) = queue x \<and> wire_count (f x) = wire_count x \<and>
      oflags (f x) = oflags x \<and> object (f x) = object x \<and> pindex (f x) = pindex x"
  shows "mem_ok E view avail (upd_page m f s)"
proof (rule mem_okI)
  show "queues_ok E (upd_page m f s)"
    by (rule queues_ok_cong [OF _ _ mem_okD(1) [OF ok]]) (use f in \<open>simp_all add: upd_pg_def\<close>)
  show "objs_ok view (upd_page m f s)"
    by (rule objs_ok_cong [OF _ _ mem_okD(2) [OF ok]]) (use f in \<open>simp_all add: upd_pg_def\<close>)
  show "fresh (pg (upd_page m f s) n)" if "n \<in> avail (phys (upd_page m f s))" for n
    using that m mem_okD(3) [OF ok, of n] by (cases "n = m") simp_all
qed (use mem_okD(4,5) [OF ok] in simp_all)

lemma insert_phys [simp]: "phys (snd (vm_page_insert E m b i s)) = phys s" "vm_cnt (snd (vm_page_insert E m b i s)) = vm_cnt s"
  "vmd (snd (vm_page_insert E m b i s)) = vmd s"
  by (simp_all add: vm_page_insert_def vm_page_insert_after_def vm_page_insert_radixdone_def Let_def split: option.split)

lemma insert_mem_ok:
  assumes laws: "radix_laws E view" and ok: "mem_ok E view avail s" and m: "m \<notin> avail (phys s)" "object (pg s m) = None"
    and free: "view (rtree (objs s b)) i = None" and r: "vm_radix_insert E (rtree (objs s b)) i m = Some r"
  shows "mem_ok E view avail (snd (vm_page_insert E m b i s))"
proof (rule mem_okI)
  note st = insert_state [OF r]
  show "queues_ok E (snd (vm_page_insert E m b i s))"
    by (rule queues_ok_cong [OF _ _ mem_okD(1) [OF ok]]) (simp_all add: st(2) upd_pg_def)
  show "objs_ok view (snd (vm_page_insert E m b i s))" by (rule insert_ok [OF laws mem_okD(2) [OF ok] m(2) free r])
  show "fresh (pg (snd (vm_page_insert E m b i s)) n)" if "n \<in> avail (phys (snd (vm_page_insert E m b i s)))" for n
    using that m(1) mem_okD(3) [OF ok, of n] by (cases "n = m") (simp_all add: st(2))
qed (use mem_okD(4,5) [OF ok] in simp_all)

text \<open>The page that \<open>vm_radix_lookup_le\<close> finds below a free index.\<close>

lemma le_below:
  assumes laws: "radix_laws E view" and ok: "objs_ok view s" and free: "view (rtree (objs s b)) i = None"
    and p: "vm_radix_lookup_le E (rtree (objs s b)) i = Some p"
  shows "pindex (pg s p) < i"
proof -
  have "case vm_radix_lookup_le E (rtree (objs s b)) i of None \<Rightarrow> \<forall>j\<le>i. view (rtree (objs s b)) j = None
     | Some m \<Rightarrow> \<exists>j\<le>i. view (rtree (objs s b)) j = Some m \<and> (\<forall>k. j < k \<and> k \<le> i \<longrightarrow> view (rtree (objs s b)) k = None)"
    using laws unfolding radix_laws_def by blast
  then obtain j where j: "j \<le> i" "view (rtree (objs s b)) j = Some p" using p by auto
  then have "j \<noteq> i" using free by auto
  moreover have "pindex (pg s p) = j" using object_okD(3) [OF objs_okD [OF ok]] j(2) by blast
  ultimately show ?thesis using j(1) by simp
qed

section \<open>Pages given back\<close>

lemma remque_wired [simp]: "vm_cnt (vm_page_remque E m s) v_wire_count = vm_cnt s v_wire_count"
  by (cases "queue (pg s m)") (simp_all add: vm_page_remque_def vm_page_dequeue_def vm_page_pagequeue_def
    vm_page_in_laundry_def vm_pagequeue_cnt_add_def)

lemma remove_objs: "objs (vm_page_remove E m s') = objs (vm_page_remove E m s)"
  if "objs s' = objs s" "object (pg s' m) = object (pg s m)" "pindex (pg s' m) = pindex (pg s m)"
  using that by (cases "object (pg s m)") (simp_all add: remove_state(1), simp add: vm_page_remove_def)

lemma free_prep_page:
  assumes e: "vm_page_free_prep E m l s = Inr (r, s')"
    and m: "PG_FICTITIOUS \<notin> flags (pg s m)" "hold_count (pg s m) = 0"
  shows "memattr (pg s' m) = VM_MEMATTR_DEFAULT" "flags (pg s' m) = flags (pg s m)"
    "busy_lock (pg s' m) = (if object (pg s m) \<noteq> None \<and> vm_page_xbusied (busy_lock (pg s m)) then VPB_UNBUSIED
       else busy_lock (pg s m))"
    "objs s' = objs (vm_page_remove E m s)" "vm_cnt s' v_wire_count = vm_cnt s v_wire_count"
proof -
  have rq: "(if queue (pg (cnt_add v_tfree 1 s) m) \<noteq> PQ_NONE
      then (if l then vm_page_dequeue_locked E m (cnt_add v_tfree 1 s) else vm_page_dequeue E m (cnt_add v_tfree 1 s))
      else cnt_add v_tfree 1 s) = vm_page_remque E m (cnt_add v_tfree 1 s)"
    by (simp add: vm_page_remque_def)
  define s3 where "s3 = vm_page_remove E m (vm_page_remque E m (cnt_add v_tfree 1 s))"
  have e': "s' = upd_page m (\<lambda>x. x\<lparr>memattr := VM_MEMATTR_DEFAULT\<rparr>) (upd_page m (\<lambda>x. vm_page_undirty (x\<lparr>valid := 0\<rparr>)) s3)"
    using e m unfolding vm_page_free_prep_def Let_def rq s3_def [symmetric]
    by (auto simp: s3_def vm_page_undirty_def split: if_splits)
  have o3: "objs s3 = objs (vm_page_remove E m s)"
    unfolding s3_def by (rule remove_objs) simp_all
  have b3: "busy_lock (pg s3 m) = (if object (pg s m) \<noteq> None \<and> vm_page_xbusied (busy_lock (pg s m)) then VPB_UNBUSIED
       else busy_lock (pg s m))"
    by (auto simp: s3_def vm_page_remove_def Let_def xunbusy_maybelocked_free split: option.splits)
  show "memattr (pg s' m) = VM_MEMATTR_DEFAULT" "flags (pg s' m) = flags (pg s m)"
    "vm_cnt s' v_wire_count = vm_cnt s v_wire_count"
    by (simp_all add: e' vm_page_undirty_def s3_def)
  show "objs s' = objs (vm_page_remove E m s)" by (simp add: e' o3)
  show "busy_lock (pg s' m) = (if object (pg s m) \<noteq> None \<and> vm_page_xbusied (busy_lock (pg s m)) then VPB_UNBUSIED
       else busy_lock (pg s m))" using b3 by (simp add: e' vm_page_undirty_def)
qed

text \<open>A page that may be freed for good: in no way used, whether it is in an object or not.\<close>

definition idle_page :: "('r, 'p) vm_sys \<Rightarrow> pid \<Rightarrow> bool" where
  "idle_page s m \<longleftrightarrow> wire_count (pg s m) = 0 \<and> hold_count (pg s m) = 0 \<and>
    flags (pg s m) \<inter> {PG_FICTITIOUS, PG_MARKER, PG_UNHOLDFREE} = {} \<and>
    (busy_lock (pg s m) = VPB_UNBUSIED \<or>
     object (pg s m) \<noteq> None \<and> vm_page_xbusied (busy_lock (pg s m)) \<and> \<not> vm_page_sbusied (busy_lock (pg s m)))"

lemma give_back_ok:
  assumes laws: "radix_laws (venv A) view" and al: "alloc_laws A avail" and ok: "mem_ok (venv A) view avail s"
    and m: "m \<notin> avail (phys s)" "idle_page s m"
  shows "\<exists>s'. vm_page_free_toq (venv A) m s = Inr s' \<and> mem_ok (venv A) view avail s' \<and>
    avail (phys s') = insert m (avail (phys s)) \<and> (\<forall>n. n \<noteq> m \<longrightarrow> pg s' n = pg s n) \<and>
    objs s' = objs (vm_page_remove (venv A) m s) \<and> vm_cnt s' v_wire_count = vm_cnt s v_wire_count \<and>
    flags (pg s' m) = flags (pg s m)"
proof -
  let ?E = "venv A"
  have i: "wire_count (pg s m) = 0" "hold_count (pg s m) = 0" "PG_FICTITIOUS \<notin> flags (pg s m)" "PG_MARKER \<notin> flags (pg s m)"
    "PG_UNHOLDFREE \<notin> flags (pg s m)" and b: "busy_lock (pg s m) = VPB_UNBUSIED \<or>
     object (pg s m) \<noteq> None \<and> vm_page_xbusied (busy_lock (pg s m)) \<and> \<not> vm_page_sbusied (busy_lock (pg s m))"
    using m(2) by (auto simp: idle_page_def)
  have nb: "\<not> vm_page_sbusied (busy_lock (pg s m))"
    using b by (auto simp: vm_page_sbusied_def)
  have fr: "freeable ?E view m s"
    using i nb mem_okD(1,2) [OF ok] by (simp add: freeable_def regular_def)
  obtain s1 where p: "vm_page_free_prep ?E m False s = Inr (True, s1)"
    using free_prep_ok [OF laws mem_okD(1,2) [OF ok], of m False] i nb by (auto simp: regular_def)
  obtain s' where e: "vm_page_free_toq ?E m s = Inr s'" and q: "queues_ok ?E s'" and o: "objs_ok view s'"
    and x: "queue (pg s' m) = PQ_NONE" "object (pg s' m) = None" "\<forall>n. n \<noteq> m \<longrightarrow> pg s' n = pg s n"
      "hold_count (pg s' m) = hold_count (pg s m)" and ph: "phys s' = handed ?E m (phys s)"
      and c: "valid (pg s' m) = 0" "dirty (pg s' m) = 0" "wire_count (pg s' m) = wire_count (pg s m)"
    using free_toq_ok [OF laws fr] i by auto
  have s': "s' = vm_page_free_wakeup ?E (vm_page_free_phys ?E m s1)" using e p by (simp add: vm_page_free_toq_def)
  have same: "pg s' = pg s1" "objs s' = objs s1" "vm_cnt s' = vm_cnt s1"
    by (simp_all add: s' vm_page_free_wakeup_def vm_page_free_phys_def Let_def split: prod.split)
  note P = free_prep_page [OF p i(3,2)]
  have av: "avail (phys s') = insert m (avail (phys s))" using alloc_laws_free(1) [OF al m(1)] by (simp add: ph)
  have "fresh (pg s' m)"
    using x c i b P(1-3) same unfolding fresh_def vm_page_alloc_check_def vm_page_busied_def by auto
  then have fre: "fresh (pg s' n)" if "n \<in> avail (phys s')" for n
    using that mem_okD(3) [OF ok, of n] x(3) av by (cases "n = m") simp_all
  have "mem_ok ?E view avail s'"
    by (rule mem_okI [OF q o fre]) (use av mem_okD(4,5) [OF ok] m(1) alloc_laws_free(2) [OF al m(1)] in \<open>simp_all add: ph\<close>)
  then show ?thesis using e av x(3) P(2,4,5) same by (intro exI [of _ s']) simp
qed

section \<open>One page\<close>

lemma daemon_sys [simp]:
  "pg (sys (on_daemon f a)) = pg (sys a)" "vmd (sys (on_daemon f a)) = vmd (sys a)" "objs (sys (on_daemon f a)) = objs (sys a)"
  "phys (sys (on_daemon f a)) = phys (sys a)" "vm_cnt (sys (on_daemon f a)) = vm_cnt (sys a)"
  by (simp_all add: on_daemon_def split: prod.split)

lemma wakeup_sys [simp]:
  "pg (sys (daemon_wakeup A a)) = pg (sys a)" "vmd (sys (daemon_wakeup A a)) = vmd (sys a)"
  "objs (sys (daemon_wakeup A a)) = objs (sys a)" "phys (sys (daemon_wakeup A a)) = phys (sys a)"
  "vm_cnt (sys (daemon_wakeup A a)) = vm_cnt (sys a)"
  by (simp_all add: daemon_wakeup_def)

lemma wake_if_sys [simp]:
  "pg (sys (wake_if_needed A k a)) = pg (sys a)" "vmd (sys (wake_if_needed A k a)) = vmd (sys a)"
  "objs (sys (wake_if_needed A k a)) = objs (sys a)" "phys (sys (wake_if_needed A k a)) = phys (sys a)"
  "vm_cnt (sys (wake_if_needed A k a)) = vm_cnt (sys a)"
  by (simp_all add: wake_if_needed_def)

lemma wake_if_ok [simp]: "mem_ok E view avail (sys (wake_if_needed A k a)) \<longleftrightarrow> mem_ok E view avail (sys a)"
  using mem_ok_same [of E view avail "sys a" "sys (wake_if_needed A k a)"]
    mem_ok_same [of E view avail "sys (wake_if_needed A k a)" "sys a"] by auto

lemma upd_sys_sel [simp]: "sys (upd_sys f a) = f (sys a)"
  by (simp add: upd_sys_def)

lemma take_off_sel [simp]:
  "pg (take_off A m s) = pg s" "vmd (take_off A m s) = vmd s" "objs (take_off A m s) = objs s"
  "vm_cnt (take_off A m s) = vm_cnt s" "phys (take_off A m s) = vm_phys_freecnt_adj (venv A) m (- 1) (phys s)"
  by (simp_all add: take_off_def)

lemma wire_cnt_sel [simp]:
  "pg (wire_cnt req n s) = pg s" "vmd (wire_cnt req n s) = vmd s" "objs (wire_cnt req n s) = objs s"
  "phys (wire_cnt req n s) = phys s"
  "vm_cnt (wire_cnt req n s) v_wire_count = vm_cnt s v_wire_count + (if req AND VM_ALLOC_WIRED \<noteq> 0 then word_of_int n else 0)"
  by (simp_all add: wire_cnt_def)

lemma wire_cnt_ok [simp]: "mem_ok E view avail (wire_cnt req n s) \<longleftrightarrow> mem_ok E view avail s"
  by (simp add: wire_cnt_def)

lemma find_page_ok:
  assumes al: "alloc_laws A avail" and ok: "mem_ok (venv A) view avail (sys a)" and may: "may_alloc A (alloc_class A req) a"
  shows "\<exists>m a1 a2. find_page (Suc n) A ob i req mpred a = Inr (Some m, a1) \<and> a2 = upd_sys (take_off A m) a1 \<and>
    mem_ok (venv A) view avail (sys a2) \<and> m \<in> avail (phys (sys a)) \<and> avail (phys (sys a2)) = avail (phys (sys a)) - {m} \<and>
    pg (sys a2) = pg (sys a) \<and> objs (sys a2) = objs (sys a) \<and> vm_cnt (sys a2) = vm_cnt (sys a) \<and>
    vmd (sys a2) = vmd (sys a)"
proof -
  obtain m p where p: "pick_page A ob i mpred (phys (sys a)) = (Some m, p)"
    and g: "gives avail (v_free_count (venv A)) 1 (phys (sys a)) (Some m, p)"
    using pick_page_ok [OF al may_alloc_avail [OF ok may]] by blast
  define a1 where "a1 = upd_sys (\<lambda>s. s\<lparr>phys := p\<rparr>) a"
  define a2 where "a2 = upd_sys (take_off A m) a1"
  have e: "find_page (Suc n) A ob i req mpred a = Inr (Some m, a1)" using may by (simp add: p a1_def)
  have T: "mem_ok (venv A) view avail (sys a2)" "{m..<m + 1} \<subseteq> avail (phys (sys a))"
     "avail (phys (sys a2)) = avail (phys (sys a)) - {m..<m + 1}"
    using take_ok [OF al ok g, of "sys a2"] by (simp_all add: a2_def a1_def)
  have "m \<in> avail (phys (sys a))" "avail (phys (sys a2)) = avail (phys (sys a)) - {m}" using T(2,3) by auto
  moreover have "pg (sys a2) = pg (sys a)" "objs (sys a2) = objs (sys a)" "vm_cnt (sys a2) = vm_cnt (sys a)"
    "vmd (sys a2) = vmd (sys a)" by (simp_all add: a2_def a1_def)
  ultimately show ?thesis using e T(1) a2_def by blast
qed

definition set_up :: "('r, 'p) alloc_env \<Rightarrow> oid option \<Rightarrow> u32 \<Rightarrow> pid \<Rightarrow> ('r, 'p) vm_sys \<Rightarrow> ('r, 'p) vm_sys" where
  "set_up A ob req m s = wire_cnt req 1 (upd_page m (init_page A ob req) s)"

lemma set_up_ok:
  assumes ok: "mem_ok (venv A) view avail s" and m: "m \<notin> avail (phys s)" "fresh (pg s m)"
  shows "mem_ok (venv A) view avail (set_up A ob req m s)"
proof -
  have "mem_ok (venv A) view avail (upd_page m (init_page A ob req) s)"
    by (rule private_upd_ok [OF ok m(1)]) (use freshD [OF m(2)] in \<open>auto simp: init_page_def Let_def regular_def\<close>)
  then show ?thesis by (simp add: set_up_def)
qed

lemma set_up_sel [simp]:
  "pg (set_up A ob req m s) = upd_pg (pg s) m (init_page A ob req)" "objs (set_up A ob req m s) = objs s"
  "phys (set_up A ob req m s) = phys s" "vmd (set_up A ob req m s) = vmd s"
  "vm_cnt (set_up A ob req m s) v_wire_count = vm_cnt s v_wire_count + (if req AND VM_ALLOC_WIRED \<noteq> 0 then 1 else 0)"
  by (simp_all add: set_up_def)

text \<open>What the allocation is, once a page is found.\<close>

lemma alloc_eq:
  assumes req: "req_consistent ob req" "req AND VM_ALLOC_IFCACHED = 0"
    and mp: "\<forall>p\<in>set_option mpred. pindex (pg (sys a) p) < i"
    and f: "find_page n A ob i req mpred a = Inr (Some m, a1)" and a2: "a2 = upd_sys (take_off A m) a1"
    and m: "fresh (pg (sys a2) m)"
  shows "vm_page_alloc_after n A ob i req mpred a =
    (case ob of
       None \<Rightarrow> Inr (Some m, wake_if_needed A (free_pages_left A a2)
         (upd_sys (upd_page m (\<lambda>x. x\<lparr>pindex := i\<rparr>)) (upd_sys (set_up A ob req m) a2)))
     | Some b \<Rightarrow> (case vm_page_insert_after (venv A) m b i mpred (set_up A ob req m (sys a2)) of
         (True, s) \<Rightarrow> and_then (alloc_undo A req m ((upd_sys (set_up A ob req m) a2)\<lparr>sys := s\<rparr>)) (\<lambda>a4. Inr (None, a4))
       | (False, s) \<Rightarrow> Inr (Some m, wake_if_needed A (free_pages_left A a2) ((upd_sys (set_up A ob req m) a2)\<lparr>sys :=
           (if obj_memattr A b \<noteq> VM_MEMATTR_DEFAULT \<and> OBJ_FICTITIOUS \<notin> obj_flags A b
            then upd_page m (\<lambda>x. x\<lparr>memattr := obj_memattr A b\<rparr>) s else s)\<rparr>))))"
proof -
  have su: "(\<lambda>s. wire_cnt req 1 (upd_page m (init_page A ob req) s)) = set_up A ob req m"
    by (simp add: set_up_def fun_eq_iff)
  have e2: "sys (upd_sys (set_up A ob req m) a2) = set_up A ob req m (sys a2)" by simp
  have c: "vm_page_alloc_check (pg (sys a2) m)" using m by (simp add: fresh_def)
  have no: "\<not> (\<not> req_consistent ob req \<or> (\<exists>p\<in>set_option mpred. \<not> pindex (pg (sys a) p) < i))" using req(1) mp by blast
  show ?thesis
    unfolding vm_page_alloc_after_def if_not_P [OF no] f and_then_Inr prod.case option.case a2 [symmetric] Let_def su e2
    using c req(2) by simp
qed

definition found_pred :: "('r, 'p) alloc_env \<Rightarrow> oid option \<Rightarrow> nat \<Rightarrow> ('r, 'p) vm_sys \<Rightarrow> pid option" where
  "found_pred A ob i s = (case ob of Some b \<Rightarrow> vm_radix_lookup_le (venv A) (rtree (objs s b)) i | None \<Rightarrow> None)"

lemma found_pred_below:
  assumes "radix_laws (venv A) view" "objs_ok view s" "\<forall>b\<in>set_option ob. view (rtree (objs s b)) i = None"
  shows "\<forall>p\<in>set_option (found_pred A ob i s). pindex (pg s p) < i"
  using assms le_below [OF assms(1,2)] by (cases ob) (auto simp: found_pred_def)

lemma alloc_after_found: "vm_page_alloc n A ob i req a = vm_page_alloc_after n A ob i req (found_pred A ob i (sys a)) a"
  by (simp add: vm_page_alloc_def found_pred_def)

text \<open>What a request makes of a page, whose index and object it gets.\<close>

definition granted ::
    "('r, 'p) alloc_env \<Rightarrow> oid option \<Rightarrow> nat \<Rightarrow> u32 \<Rightarrow> vm_memattr \<Rightarrow> vm_page \<Rightarrow> vm_page \<Rightarrow> bool" where
  "granted A ob i req attr x y \<longleftrightarrow> object y = ob \<and> pindex y = i \<and> queue y = PQ_NONE \<and> hold_count y = 0 \<and> valid y = 0 \<and>
    dirty y = 0 \<and> aflags y = {} \<and> oflags y = req_oflags A ob \<and> phys_addr y = phys_addr x \<and> memattr y = attr \<and>
    flags y = (if req AND VM_ALLOC_ZERO \<noteq> 0 then {PG_ZERO} \<inter> flags x else {}) \<union>
      (if req AND VM_ALLOC_NODUMP \<noteq> 0 then {PG_NODUMP} else {}) \<and>
    wire_count y = (if req AND VM_ALLOC_WIRED \<noteq> 0 then 1 else 0) \<and>
    busy_lock y = (if req AND VM_ALLOC_SBUSY \<noteq> 0 then VPB_SHARERS_WORD 1
      else if req AND (VM_ALLOC_NOBUSY OR VM_ALLOC_NOOBJ) = 0 then VPB_SINGLE_EXCLUSIVER else VPB_UNBUSIED)"

definition page_attr :: "('r, 'p) alloc_env \<Rightarrow> oid option \<Rightarrow> vm_memattr" where
  "page_attr A ob = (case ob of Some b \<Rightarrow> if OBJ_FICTITIOUS \<in> obj_flags A b then VM_MEMATTR_DEFAULT else obj_memattr A b
    | None \<Rightarrow> VM_MEMATTR_DEFAULT)"

lemma req_busy_eq: "req_busy req = (if req AND VM_ALLOC_SBUSY \<noteq> 0 then VPB_SHARERS_WORD 1
    else if req AND (VM_ALLOC_NOBUSY OR VM_ALLOC_NOOBJ) = 0 then VPB_SINGLE_EXCLUSIVER else VPB_UNBUSIED)"
proof -
  have "req AND VM_ALLOC_SBUSY = 0 \<Longrightarrow> req AND (VM_ALLOC_NOBUSY OR VM_ALLOC_NOOBJ OR VM_ALLOC_SBUSY) =
      req AND (VM_ALLOC_NOBUSY OR VM_ALLOC_NOOBJ)"
    by (simp add: bit.conj_disj_distrib)
  then show ?thesis by (simp add: req_busy_def Let_def)
qed

lemma init_granted:
  assumes "fresh x"
  shows "granted A ob i req attr x ((init_page A ob req x)\<lparr>object := ob, pindex := i, memattr := attr\<rparr>)"
  using freshD [OF assms] by (simp add: granted_def init_page_def Let_def req_busy_eq)

lemma init_contig_page_eq: "init_contig_page A ob req x = init_page A ob req x"
proof -
  have "insert PG_NODUMP (flags x) \<inter> (if req AND VM_ALLOC_NODUMP \<noteq> 0
        then insert PG_NODUMP (if req AND VM_ALLOC_ZERO \<noteq> 0 then {PG_ZERO} else {})
        else if req AND VM_ALLOC_ZERO \<noteq> 0 then {PG_ZERO} else {}) =
      (if req AND VM_ALLOC_NODUMP \<noteq> 0
        then insert PG_NODUMP ((if req AND VM_ALLOC_ZERO \<noteq> 0 then {PG_ZERO} else {}) \<inter> flags x)
        else (if req AND VM_ALLOC_ZERO \<noteq> 0 then {PG_ZERO} else {}) \<inter> flags x)"
    by auto
  then show ?thesis by (simp add: init_contig_page_def init_page_def Let_def)
qed

text \<open>What is found at an index is what the pages say.\<close>

lemma view_pages:
  assumes "objs_ok view s"
  shows "view (rtree (objs s b)) j = Some k \<longleftrightarrow> object (pg s k) = Some b \<and> pindex (pg s k) = j"
  using object_okD(2,3) [OF objs_okD [OF assms, of b]] by simp

lemma view_same:
  assumes "objs_ok view s" "objs_ok view s'"
    and "\<And>k. object (pg s' k) = object (pg s k)" "\<And>k. object (pg s k) \<noteq> None \<Longrightarrow> pindex (pg s' k) = pindex (pg s k)"
  shows "view (rtree (objs s' b)) = view (rtree (objs s b))"
proof
  fix j
  have "view (rtree (objs s' b)) j = Some k \<longleftrightarrow> view (rtree (objs s b)) j = Some k" for k
    unfolding view_pages [OF assms(1)] view_pages [OF assms(2)] using assms(3,4) [of k] by auto
  then show "view (rtree (objs s' b)) j = view (rtree (objs s b)) j" by (cases "view (rtree (objs s b)) j") auto
qed

section \<open>An instance\<close>

text \<open>An allocator that is a list of free pages with its count; nothing else runs while a thread sleeps.\<close>

definition env1 :: "((nat \<times> pid) list, pid list \<times> nat) vm_env" where
  "env1 = \<lparr>vm_ndomains = 1, vm_phys_domain = (\<lambda>m. 0),
    vm_radix_lookup = vm_radix_lookup env0, vm_radix_lookup_le = vm_radix_lookup_le env0,
    vm_radix_lookup_ge = vm_radix_lookup_ge env0, vm_radix_insert = vm_radix_insert env0,
    vm_radix_remove = vm_radix_remove env0, vm_radix_replace = vm_radix_replace env0,
    pmap_page_is_write_mapped = (\<lambda>m. False), pmap_is_modified = (\<lambda>m. False), pmap_remove_all = (\<lambda>m x. x),
    vm_phys_freecnt_adj = (\<lambda>m n (l, c). (l, nat (int c + n))), vm_reserv_free_page = (\<lambda>m p. (p, False)),
    vm_phys_free_pages = (\<lambda>m (l, c). (m # l, c)), v_free_count = snd, v_pageout_free_min = 0,
    vm_page_count_min = (\<lambda>p. snd p < 2)\<rparr>"

definition take_first :: "pid list \<times> nat \<Rightarrow> pid option \<times> pid list \<times> nat" where
  "take_first p = (case fst p of [] \<Rightarrow> (None, p) | m # ms \<Rightarrow> (Some m, filter (\<lambda>k. k \<noteq> m) ms, snd p))"

definition take_run :: "nat \<Rightarrow> pid list \<times> nat \<Rightarrow> pid option \<times> pid list \<times> nat" where
  "take_run n p = (case filter (\<lambda>m. \<forall>k\<in>set [m..<m + n]. k \<in> set (fst p)) (fst p) of [] \<Rightarrow> (None, p)
     | m # ms \<Rightarrow> (Some m, filter (\<lambda>k. \<not> (m \<le> k \<and> k < m + n)) (fst p), snd p))"

definition alloc_env1 :: "((nat \<times> pid) list, pid list \<times> nat) alloc_env" where
  "alloc_env1 = \<lparr>venv = env1, obj_flags = (\<lambda>b. {}), obj_memattr = (\<lambda>b. VM_MEMATTR_DEFAULT),
    curproc_is_pageproc = False, pageproc_started = True, v_free_reserved = 1, v_interrupt_free_min = 0,
    vm_paging_needed = (\<lambda>n. n < 2), vm_phys_alloc_pages = (\<lambda>k n. take_first),
    vm_phys_alloc_contig = (\<lambda>n lo hi al bo. take_run n), vm_phys_alloc_freelist_pages = (\<lambda>l k n. take_first),
    vm_reserv_alloc_page = (\<lambda>b i mp p. (None, p)), vm_reserv_alloc_contig = (\<lambda>b i n lo hi al bo mp p. (None, p)),
    vm_reserv_reclaim_inactive = (\<lambda>p. (False, p)), vm_reserv_reclaim_contig = (\<lambda>n lo hi al bo p. (False, p)),
    asleep = (\<lambda>a. a)\<rparr>"

definition avail1 :: "pid list \<times> nat \<Rightarrow> pid set" where "avail1 p = set (fst p)"

lemma env1_laws: "radix_laws (venv alloc_env1) map_of"
  using env0_laws unfolding radix_laws_def alloc_env1_def env1_def by simp

lemma take_first_gives: "gives avail1 snd 1 p (take_first p)"
  by (cases p; cases "fst p") (auto simp: gives_def take_first_def avail1_def)

lemma take_run_gives: "gives avail1 snd n p (take_run n p)"
proof (cases "filter (\<lambda>m. \<forall>k\<in>set [m..<m + n]. k \<in> set (fst p)) (fst p)")
  case (Cons m ms)
  then have "m \<in> set (filter (\<lambda>m. \<forall>k\<in>set [m..<m + n]. k \<in> set (fst p)) (fst p))" by simp
  then show ?thesis using Cons by (auto simp: gives_def take_run_def avail1_def)
qed (simp add: gives_def take_run_def)

lemma alloc_env1_laws: "alloc_laws alloc_env1 avail1"
proof -
  have f: "vm_phys_alloc_pages alloc_env1 k n = take_first" "vm_phys_alloc_freelist_pages alloc_env1 l k n = take_first"
    "vm_reserv_alloc_page alloc_env1 b i mp p = (None, p)" "vm_phys_alloc_contig alloc_env1 n lo hi al bo = take_run n"
    "vm_reserv_alloc_contig alloc_env1 b i n lo hi al bo mp p = (None, p)"
    "vm_reserv_reclaim_inactive alloc_env1 p = (False, p)" "vm_reserv_reclaim_contig alloc_env1 n lo hi al bo p = (False, p)"
    "venv alloc_env1 = env1" "v_free_count env1 = snd"
    "vm_phys_freecnt_adj env1 m z p = (fst p, nat (int (snd p) + z))" "vm_reserv_free_page env1 m p = (p, False)"
    "vm_phys_free_pages env1 m p = (m # fst p, snd p)" for k n l b i mp lo hi al bo m z p
    by (simp_all add: alloc_env1_def env1_def split: prod.split)
  have none: "gives avail1 snd n p (None, p)" for n p by (simp add: gives_def)
  have ne: "avail1 p \<noteq> {} \<Longrightarrow> fst (take_first p) \<noteq> None" for p
    by (cases "fst p") (simp_all add: avail1_def take_first_def)
  have av: "avail1 (m # fst p, z) = insert m (avail1 p)" "avail1 (fst p, z) = avail1 p" for m p z
    by (simp_all add: avail1_def)
  show ?thesis
    unfolding alloc_laws_def Let_def f
    using take_first_gives take_run_gives none ne by (simp add: av split_paired_all) fastforce
qed

definition mem1 :: "((nat \<times> pid) list, pid list \<times> nat) alloc_sys" where
  "mem1 = \<lparr>sys = \<lparr>pg = (\<lambda>m. page0), objs = (\<lambda>b. \<lparr>rtree = [], memq = [], resident_page_count = 0, otype = OBJT_DEFAULT,
      ref_count = 1, obj_dead = False, obj_size = 100, vnode_holds = 0, writeable_dirty = False\<rparr>),
      vmd = (\<lambda>d q. \<lparr>pq_pl = [], pq_cnt = 0\<rparr>), vm_cnt = (\<lambda>c. 0), pg_cnt = 0, phys = ([5, 6, 7], 3),
      vm_pageout_pages_needed = False, vm_pages_needed = False, vm_page_zero_count = 0\<rparr>,
    pdaemon = \<lparr>pageout_wanted = False, pages_needed = False, pass = 0, target_met = True\<rparr>, vm_pageout_deficit = 0\<rparr>"

lemma mem1_ok: "mem_ok (venv alloc_env1) map_of avail1 (sys mem1)"
proof (rule mem_okI)
  show "queues_ok (venv alloc_env1) (sys mem1)"
    by (simp add: queues_ok_def regular_def movable_def mem1_def page0_def)
  show "objs_ok map_of (sys mem1)" by (simp add: objs_ok_def object_ok_def mem1_def page0_def)
  show "fresh (pg (sys mem1) m)" for m
    by (simp add: mem1_def page0_def fresh_def vm_page_alloc_check_def vm_page_busied_def)
qed (simp_all add: mem1_def avail1_def alloc_env1_def env1_def)

end
