(* ===== verification/Vm_Alloc_Props.thy ===== *)
theory Vm_Alloc_Props
  imports Vm_Alloc_Laws
begin

text \<open>
  Properties of page allocation: what a page comes with and where it is, what is undone when the
  trie has no memory, the reserves, and the waits.
\<close>

section \<open>A page for an object, or for none\<close>

lemma alloc_page_ok:
  assumes laws: "radix_laws (venv A) view" and al: "alloc_laws A avail" and ok: "mem_ok (venv A) view avail (sys a)"
    and req: "req_consistent ob req" "req AND VM_ALLOC_IFCACHED = 0" and may: "may_alloc A (alloc_class A req) a"
    and free: "\<forall>b\<in>set_option ob. view (rtree (objs (sys a) b)) i = None"
    and room: "\<forall>b\<in>set_option ob. \<forall>m. vm_radix_insert (venv A) (rtree (objs (sys a) b)) i m \<noteq> None"
  shows "\<exists>m a'. vm_page_alloc (Suc n) A ob i req a = Inr (Some m, a') \<and> m \<in> avail (phys (sys a)) \<and>
    mem_ok (venv A) view avail (sys a') \<and> avail (phys (sys a')) = avail (phys (sys a)) - {m} \<and>
    granted A ob i req (page_attr A ob) (pg (sys a) m) (pg (sys a') m) \<and> (\<forall>k. k \<noteq> m \<longrightarrow> pg (sys a') k = pg (sys a) k) \<and>
    vm_cnt (sys a') v_wire_count = vm_cnt (sys a) v_wire_count + (if req AND VM_ALLOC_WIRED \<noteq> 0 then 1 else 0) \<and>
    (\<forall>b\<in>set_option ob. vm_page_lookup (venv A) (sys a') b i = Some m)"
proof -
  let ?E = "venv A"
  obtain m a1 a2 where f: "find_page (Suc n) A ob i req (found_pred A ob i (sys a)) a = Inr (Some m, a1)"
    and a2: "a2 = upd_sys (take_off A m) a1" and ok2: "mem_ok ?E view avail (sys a2)"
    and m: "m \<in> avail (phys (sys a))" and av: "avail (phys (sys a2)) = avail (phys (sys a)) - {m}"
    and s2: "pg (sys a2) = pg (sys a)" "objs (sys a2) = objs (sys a)" "vm_cnt (sys a2) = vm_cnt (sys a)"
    using find_page_ok [OF al ok may] by blast
  have fr: "fresh (pg (sys a2) m)" using mem_okD(3) [OF ok m] by (simp add: s2)
  have out: "m \<notin> avail (phys (sys a2))" by (simp add: av)
  note e = alloc_eq [OF req found_pred_below [OF laws mem_okD(2) [OF ok] free] f a2 fr, folded alloc_after_found]
  define s3 where "s3 = set_up A ob req m (sys a2)"
  have ok3: "mem_ok ?E view avail s3" unfolding s3_def by (rule set_up_ok [OF ok2 out fr])
  have p3: "pg s3 = upd_pg (pg (sys a)) m (init_page A ob req)" "objs s3 = objs (sys a)" "phys s3 = phys (sys a2)"
    "vm_cnt s3 v_wire_count = vm_cnt (sys a) v_wire_count + (if req AND VM_ALLOC_WIRED \<noteq> 0 then 1 else 0)"
    by (simp_all add: s3_def s2)
  have out3: "m \<notin> avail (phys s3)" unfolding p3(3) by (rule out)
  have x: "object (init_page A ob req (pg (sys a) m)) = None" "memattr (init_page A ob req (pg (sys a) m)) = VM_MEMATTR_DEFAULT"
    "queue (init_page A ob req (pg (sys a) m)) = PQ_NONE"
    using freshD [OF fr] by (simp_all add: s2 init_page_def Let_def)
  note gr = init_granted [OF fr [unfolded s2(1)], of A ob i req "page_attr A ob"]
  show ?thesis
  proof (cases ob)
    case None
    define a' where "a' = wake_if_needed A (free_pages_left A a2)
      (upd_sys (upd_page m (\<lambda>x. x\<lparr>pindex := i\<rparr>)) (upd_sys (set_up A ob req m) a2))"
    have "mem_ok ?E view avail (upd_page m (\<lambda>x. x\<lparr>pindex := i\<rparr>) s3)"
      by (rule private_upd_ok [OF ok3 out3]) (use x in \<open>simp_all add: p3 regular_def\<close>)
    then have ok': "mem_ok ?E view avail (sys a')" by (simp add: a'_def s3_def)
    have pm: "pg (sys a') m = (init_page A ob req (pg (sys a) m))\<lparr>object := ob, pindex := i, memattr := VM_MEMATTR_DEFAULT\<rparr>"
      using x None by (simp add: a'_def s2)
    have "granted A ob i req (page_attr A ob) (pg (sys a) m) (pg (sys a') m)" using gr None by (simp add: pm page_attr_def)
    moreover have "\<forall>k. k \<noteq> m \<longrightarrow> pg (sys a') k = pg (sys a) k" by (simp add: a'_def s2)
    moreover have "vm_page_alloc (Suc n) A ob i req a = Inr (Some m, a')" using e None by (simp add: a'_def)
    moreover have "avail (phys (sys a')) = avail (phys (sys a)) - {m}" by (simp add: a'_def av)
    moreover have "vm_cnt (sys a') v_wire_count =
        vm_cnt (sys a) v_wire_count + (if req AND VM_ALLOC_WIRED \<noteq> 0 then 1 else 0)" by (simp add: a'_def s2)
    ultimately show ?thesis using m ok' None by (intro exI [of _ m] exI [of _ a']) simp
  next
    case (Some b)
    obtain r where r: "vm_radix_insert ?E (rtree (objs s3 b)) i m = Some r"
      using room Some by (auto simp: p3)
    have fr3: "view (rtree (objs s3 b)) i = None" using free Some by (simp add: p3)
    define s4 where "s4 = snd (vm_page_insert ?E m b i s3)"
    have ins: "vm_page_insert_after ?E m b i (found_pred A ob i (sys a)) (set_up A ob req m (sys a2)) = (False, s4)"
    proof -
      have "vm_page_insert ?E m b i s3 = (False, s4)"
        using insert_state(1) [OF r] by (cases "vm_page_insert ?E m b i s3") (simp add: s4_def)
      then show ?thesis
        unfolding s3_def [symmetric] by (simp add: vm_page_insert_def found_pred_def Some p3)
    qed
    note st = insert_state [OF r, folded s4_def]
    have "object (pg s3 m) = None" using x by (simp add: p3)
    then have ok4: "mem_ok ?E view avail s4"
      unfolding s4_def by (rule insert_mem_ok [OF laws ok3 out3 _ fr3 r])
    have p4: "phys s4 = phys s3" "vm_cnt s4 = vm_cnt s3" by (simp_all add: s4_def)
    define s5 where "s5 = (if obj_memattr A b \<noteq> VM_MEMATTR_DEFAULT \<and> OBJ_FICTITIOUS \<notin> obj_flags A b
      then upd_page m (\<lambda>x. x\<lparr>memattr := obj_memattr A b\<rparr>) s4 else s4)"
    have ok5: "mem_ok ?E view avail s5"
      unfolding s5_def using ok4 upd_page_mem_ok [OF ok4] out3 by (simp add: p4)
    have p5: "phys s5 = phys s3" "vm_cnt s5 = vm_cnt s3" "objs s5 = objs s4" by (simp_all add: s5_def p4)
    define a' where "a' = wake_if_needed A (free_pages_left A a2) ((upd_sys (set_up A ob req m) a2)\<lparr>sys := s5\<rparr>)"
    have pm: "pg (sys a') m = (init_page A ob req (pg (sys a) m))\<lparr>object := ob, pindex := i, memattr :=
        (if OBJ_FICTITIOUS \<in> obj_flags A b then VM_MEMATTR_DEFAULT else obj_memattr A b)\<rparr>"
      using x Some by (auto simp: a'_def s5_def st(2) p3)
    have "granted A ob i req (page_attr A ob) (pg (sys a) m) (pg (sys a') m)" using gr Some by (simp add: pm page_attr_def)
    moreover have "\<forall>k. k \<noteq> m \<longrightarrow> pg (sys a') k = pg (sys a) k" by (simp add: a'_def s5_def st(2) p3)
    moreover have "vm_page_alloc (Suc n) A ob i req a = Inr (Some m, a')"
      using e ins Some by (simp add: a'_def s5_def)
    moreover have "avail (phys (sys a')) = avail (phys (sys a)) - {m}" by (simp add: a'_def p5 p3 av)
    moreover have "vm_cnt (sys a') v_wire_count =
        vm_cnt (sys a) v_wire_count + (if req AND VM_ALLOC_WIRED \<noteq> 0 then 1 else 0)" by (simp add: a'_def p5 p3)
    moreover have "vm_page_lookup ?E (sys a') b i = Some m"
    proof -
      have "view r i = Some m" using laws fr3 r unfolding radix_laws_def by simp
      then show ?thesis using laws by (simp add: vm_page_lookup_def a'_def p5 st(4) radix_laws_def)
    qed
    moreover have "mem_ok ?E view avail (sys a')" using ok5 by (simp add: a'_def)
    ultimately show ?thesis using m Some by (intro exI [of _ m] exI [of _ a']) simp
  qed
qed

lemma alloc_undone_ok:
  assumes laws: "radix_laws (venv A) view" and al: "alloc_laws A avail" and ok: "mem_ok (venv A) view avail (sys a)"
    and req: "req_consistent (Some b) req" "req AND VM_ALLOC_IFCACHED = 0" and may: "may_alloc A (alloc_class A req) a"
    and free: "view (rtree (objs (sys a) b)) i = None"
    and full: "\<forall>m. vm_radix_insert (venv A) (rtree (objs (sys a) b)) i m = None"
  shows "\<exists>a'. vm_page_alloc (Suc n) A (Some b) i req a =
      Inr (None, if req AND VM_ALLOC_WAITFAIL \<noteq> 0 then asleep A a' else a') \<and>
    mem_ok (venv A) view avail (sys a') \<and> avail (phys (sys a')) = avail (phys (sys a)) \<and> objs (sys a') = objs (sys a) \<and>
    vm_cnt (sys a') v_wire_count = vm_cnt (sys a) v_wire_count \<and>
    (\<forall>k. k \<notin> avail (phys (sys a)) \<longrightarrow> pg (sys a') k = pg (sys a) k)"
proof -
  let ?E = "venv A" and ?ob = "Some b"
  have free': "\<forall>c\<in>set_option ?ob. view (rtree (objs (sys a) c)) i = None" using free by simp
  obtain m a1 a2 where f: "find_page (Suc n) A ?ob i req (found_pred A ?ob i (sys a)) a = Inr (Some m, a1)"
    and a2: "a2 = upd_sys (take_off A m) a1" and ok2: "mem_ok ?E view avail (sys a2)"
    and m: "m \<in> avail (phys (sys a))" and av: "avail (phys (sys a2)) = avail (phys (sys a)) - {m}"
    and s2: "pg (sys a2) = pg (sys a)" "objs (sys a2) = objs (sys a)" "vm_cnt (sys a2) = vm_cnt (sys a)"
    using find_page_ok [OF al ok may] by blast
  have fr: "fresh (pg (sys a2) m)" using mem_okD(3) [OF ok m] by (simp add: s2)
  have out: "m \<notin> avail (phys (sys a2))" by (simp add: av)
  note e = alloc_eq [OF req found_pred_below [OF laws mem_okD(2) [OF ok] free'] f a2 fr, folded alloc_after_found]
  define s3 where "s3 = set_up A ?ob req m (sys a2)"
  have ok3: "mem_ok ?E view avail s3" unfolding s3_def by (rule set_up_ok [OF ok2 out fr])
  have p3: "pg s3 = upd_pg (pg (sys a)) m (init_page A ?ob req)" "objs s3 = objs (sys a)" "phys s3 = phys (sys a2)"
    "vm_cnt s3 v_wire_count = vm_cnt (sys a) v_wire_count + (if req AND VM_ALLOC_WIRED \<noteq> 0 then 1 else 0)"
    by (simp_all add: s3_def s2)
  define s4 where "s4 = upd_page m (\<lambda>x. x\<lparr>object := None, pindex := 0\<rparr>) (upd_page m (\<lambda>x. x\<lparr>object := ?ob, pindex := i\<rparr>) s3)"
  have ins: "vm_page_insert_after ?E m b i (found_pred A ?ob i (sys a)) (set_up A ?ob req m (sys a2)) = (True, s4)"
    using full by (simp add: vm_page_insert_after_def Let_def s4_def s3_def s2)
  define a4 where "a4 = (upd_sys (set_up A ?ob req m) a2)\<lparr>sys := s4\<rparr>"
  define a5 where "a5 = upd_sys (wire_cnt req (- 1)) (daemon_wakeup A a4)"
  define s6 where "s6 = upd_page m (uninit_page (req AND VM_ALLOC_WIRED \<noteq> 0)) (sys a5)"
  have x: "object (init_page A ?ob req (pg (sys a) m)) = None" "queue (init_page A ?ob req (pg (sys a) m)) = PQ_NONE"
    using freshD [OF fr] by (simp_all add: s2 init_page_def Let_def)
  have p5: "pg (sys a5) = pg s4" "objs (sys a5) = objs (sys a)" "phys (sys a5) = phys (sys a2)" "vmd (sys a5) = vmd s3"
    "vm_cnt (sys a5) v_wire_count = vm_cnt (sys a) v_wire_count"
    using s2 by (simp_all add: a5_def a4_def s4_def p3)
  have ok6: "mem_ok ?E view avail s6"
    by (rule private_upd_ok [OF ok3, of m])
      (use out x in \<open>simp_all add: p3 s6_def p5 s4_def uninit_page_def regular_def\<close>)
  have idle: "idle_page s6 m"
    using freshD [OF fr] by (auto simp: idle_page_def s6_def p5 s4_def p3 s2 uninit_page_def init_page_def Let_def)
  have out6: "m \<notin> avail (phys s6)" using out by (simp add: s6_def p5)
  have o6: "object (pg s6 m) = None" using x by (simp add: s6_def p5 s4_def uninit_page_def)
  obtain s7 where s7: "vm_page_free_toq ?E m s6 = Inr s7" "mem_ok ?E view avail s7"
     "avail (phys s7) = insert m (avail (phys s6))" "\<forall>k. k \<noteq> m \<longrightarrow> pg s7 k = pg s6 k"
     "objs s7 = objs (vm_page_remove ?E m s6)" "vm_cnt s7 v_wire_count = vm_cnt s6 v_wire_count"
    using give_back_ok [OF laws al ok6 out6 idle] by blast
  have o7: "objs s7 = objs (sys a)" using s7(5) o6 by (simp add: vm_page_remove_def s6_def p5)
  have un: "alloc_undo A req m a4 =
      Inr (if req AND VM_ALLOC_WAITFAIL \<noteq> 0 then asleep A (a5\<lparr>sys := s7\<rparr>) else a5\<lparr>sys := s7\<rparr>)"
  proof -
    have "object (pg (sys a5) m) = None" by (simp add: p5 s4_def)
    then show ?thesis
      unfolding alloc_undo_def Let_def a5_def [symmetric] s6_def [symmetric] s7(1) and_then_Inr by simp
  qed
  have "vm_page_alloc (Suc n) A ?ob i req a = Inr (None, if req AND VM_ALLOC_WAITFAIL \<noteq> 0 then asleep A (a5\<lparr>sys := s7\<rparr>) else a5\<lparr>sys := s7\<rparr>)"
    using e ins un by (simp add: a4_def)
  moreover have "avail (phys s7) = avail (phys (sys a))" using s7(3) m by (auto simp: s6_def p5 av)
  moreover have "vm_cnt s7 v_wire_count = vm_cnt (sys a) v_wire_count" using s7(6) by (simp add: s6_def p5)
  moreover have "pg s7 k = pg (sys a) k" if "k \<notin> avail (phys (sys a))" for k
  proof -
    have "k \<noteq> m" using that m by blast
    then show ?thesis using s7(4) by (simp add: s6_def p5 s4_def p3)
  qed
  ultimately show ?thesis using s7(2) o7 by (intro exI [of _ "a5\<lparr>sys := s7\<rparr>"]) simp
qed

section \<open>Waiting\<close>

definition slept :: "('r, 'p) alloc_env \<Rightarrow> u32 \<Rightarrow> ('r, 'p) alloc_sys \<Rightarrow> ('r, 'p) alloc_sys" where
  "slept A req a = (case vm_page_alloc_fail A req a of Inr (again, a') \<Rightarrow> a' | Inl e \<Rightarrow> a)"

lemma alloc_fail_waits:
  assumes "req AND VM_ALLOC_WAITOK \<noteq> 0" "curproc_is_pageproc A \<or> pageproc_started A"
  shows "vm_page_alloc_fail A req a = Inr (True, slept A req a)"
proof -
  have "req AND (VM_ALLOC_WAITOK OR VM_ALLOC_WAITFAIL) \<noteq> 0"
    using assms(1) by (simp add: bit.conj_disj_distrib or_eq_0_iff)
  then show ?thesis using assms by (auto simp: slept_def vm_page_alloc_fail_def Let_def vm_wait_def)
qed

lemma find_page_waits:
  assumes w: "req AND VM_ALLOC_WAITOK \<noteq> 0" "curproc_is_pageproc A \<or> pageproc_started A"
  shows "\<forall>j<k. \<not> may_alloc A (alloc_class A req) ((slept A req ^^ j) a) \<Longrightarrow>
    find_page (k + n) A ob i req mpred a = find_page n A ob i req mpred ((slept A req ^^ k) a)"
proof (induction k arbitrary: a)
  case (Suc k)
  have 0: "\<not> may_alloc A (alloc_class A req) a" using Suc.prems by force
  have "\<forall>j<k. \<not> may_alloc A (alloc_class A req) ((slept A req ^^ j) (slept A req a))"
  proof (intro allI impI)
    fix j
    assume "j < k"
    then have "\<not> may_alloc A (alloc_class A req) ((slept A req ^^ Suc j) a)" by (intro Suc.prems [rule_format]) simp
    then show "\<not> may_alloc A (alloc_class A req) ((slept A req ^^ j) (slept A req a))" by (simp add: funpow_swap1)
  qed
  then show ?case
    using 0 Suc.IH [of "slept A req a"] by (simp add: alloc_fail_waits [OF w] funpow_swap1)
qed simp

lemma alloc_none_cong:
  assumes "find_page n A None i req None a = find_page n' A None i req None b"
  shows "req AND VM_ALLOC_IFCACHED = 0 \<Longrightarrow> vm_page_alloc n A None i req a = vm_page_alloc n' A None i req b"
  using assms by (simp add: vm_page_alloc_def vm_page_alloc_after_def)

section \<open>Reserves\<close>

text \<open>The number of free pages a request of a class must leave.\<close>

definition reserve :: "('r, 'p) alloc_env \<Rightarrow> u32 \<Rightarrow> nat" where
  "reserve A req_class = (if req_class = VM_ALLOC_INTERRUPT then 0
     else if req_class = VM_ALLOC_SYSTEM then min (v_free_reserved A) (v_interrupt_free_min A)
     else v_free_reserved A)"

lemma may_alloc_reserve: "may_alloc A c a \<Longrightarrow> reserve A c < free_pages_left A a"
  by (auto simp: may_alloc_def reserve_def)

lemma may_alloc_contig_reserve: "may_alloc_contig A c n a \<Longrightarrow> reserve A c + n \<le> free_pages_left A a"
  by (auto simp: may_alloc_contig_def reserve_def)

lemma gives_count:
  assumes "alloc_laws A avail" "gives avail (v_free_count (venv A)) n p (Some m, p')" "c + n \<le> v_free_count (venv A) p"
  shows "c \<le> v_free_count (venv A) (vm_phys_freecnt_adj (venv A) m (- int n) p')"
  using alloc_lawsD(11) [OF assms(1), of m "- int n" p'] assms(2,3) by (simp add: gives_def)

lemma gives_trans: "gives avail cnt n p (None, p1) \<Longrightarrow> gives avail cnt n p1 r \<Longrightarrow> gives avail cnt n p r"
  by (cases r; cases "fst r") (simp_all add: gives_def)

lemma gives_none: "avail p1 = avail p \<Longrightarrow> cnt p1 = cnt p \<Longrightarrow> gives avail cnt n p (None, p1)"
  by (simp add: gives_def)

lemma pick_page_gives:
  assumes al: "alloc_laws A avail"
  shows "gives avail (v_free_count (venv A)) 1 p (pick_page A ob i mpred p)"
proof -
  let ?g = "gives avail (v_free_count (venv A)) 1"
  have recl: "?g p2 (case vm_reserv_reclaim_inactive A p2 of (True, p3) \<Rightarrow> vm_phys_alloc_pages A k 0 p3 | (False, p3) \<Rightarrow> (None, p3))"
    for p2 k
  proof -
    have "?g p2 (None, snd (vm_reserv_reclaim_inactive A p2))" by (rule gives_none) (rule alloc_lawsD [OF al])+
    then show ?thesis using gives_trans [OF _ alloc_lawsD(1) [OF al]] by (auto split: prod.split bool.split)
  qed
  have free: "?g p1 (case vm_phys_alloc_pages A k 0 p1 of (Some m, p2) \<Rightarrow> (Some m, p2)
     | (None, p2) \<Rightarrow> (case vm_reserv_reclaim_inactive A p2 of (True, p3) \<Rightarrow> vm_phys_alloc_pages A k 0 p3 | (False, p3) \<Rightarrow> (None, p3)))"
    for p1 k
  proof (cases "vm_phys_alloc_pages A k 0 p1")
    case (Pair r p2)
    then show ?thesis
      using alloc_lawsD(1) [OF al, of p1 k] gives_trans [OF _ recl, of p1 p2 k] by (cases r) simp_all
  qed
  define first where "first = (case ob of Some b \<Rightarrow> if obj_flags A b \<inter> {OBJ_COLORED, OBJ_FICTITIOUS} = {OBJ_COLORED}
      then vm_reserv_alloc_page A b i mpred p else (None, p) | None \<Rightarrow> (None, p))"
  have g: "?g p first"
    unfolding first_def
    using alloc_lawsD(3) [OF al] gives_none [of avail p p "v_free_count (venv A)" 1] by (simp split: option.split)
  obtain r p1 where f: "first = (r, p1)" by (cases first)
  show ?thesis
    unfolding pick_page_def Let_def first_def [symmetric] f prod.case
    using g gives_trans [OF _ free, of p p1] by (cases r; cases ob) (simp_all add: f)
qed

lemma find_page_reserve:
  assumes al: "alloc_laws A avail"
  shows "find_page n A ob i req mpred a = Inr (Some m, a1) \<Longrightarrow>
    reserve A (alloc_class A req) \<le> free_pages_left A (upd_sys (take_off A m) a1)"
proof (induction n arbitrary: a)
  case (Suc n)
  show ?case
  proof (cases "may_alloc A (alloc_class A req) a")
    case True
    then obtain p where p: "pick_page A ob i mpred (phys (sys a)) = (Some m, p)" "a1 = upd_sys (\<lambda>s. s\<lparr>phys := p\<rparr>) a"
      using Suc.prems by (auto split: prod.splits option.splits)
    have "reserve A (alloc_class A req) + 1 \<le> v_free_count (venv A) (phys (sys a))"
      using may_alloc_reserve [OF True] by (simp add: free_pages_left_def)
    then show ?thesis
      using gives_count [OF al pick_page_gives [OF al, of _ ob i mpred, of "phys (sys a)", unfolded p(1)]]
      by (simp add: free_pages_left_def p(2))
  next
    case False
    then show ?thesis using Suc by (auto split: if_splits)
  qed
qed simp

section \<open>Properties\<close>

text \<open>
  C6: A request that the free count allows gets a page: one that was free and is no longer, with
  the object, index, busy state, wiring, flags and memory attribute that were asked for, found under
  its index in the object; memory stays in order, the wired pages are counted, no other page changes.
\<close>

theorem alloc_page:
  assumes laws: "radix_laws (venv A) view" and al: "alloc_laws A avail" and ok: "mem_ok (venv A) view avail (sys a)"
    and req: "req_consistent ob req" "req AND VM_ALLOC_IFCACHED = 0" and may: "may_alloc A (alloc_class A req) a"
    and free: "\<forall>b\<in>set_option ob. view (rtree (objs (sys a) b)) i = None"
    and room: "\<forall>b\<in>set_option ob. \<forall>m. vm_radix_insert (venv A) (rtree (objs (sys a) b)) i m \<noteq> None"
  shows "\<exists>m a'. vm_page_alloc (Suc n) A ob i req a = Inr (Some m, a') \<and> m \<in> avail (phys (sys a)) \<and>
    mem_ok (venv A) view avail (sys a') \<and> avail (phys (sys a')) = avail (phys (sys a)) - {m} \<and>
    granted A ob i req (page_attr A ob) (pg (sys a) m) (pg (sys a') m) \<and> (\<forall>k. k \<noteq> m \<longrightarrow> pg (sys a') k = pg (sys a) k) \<and>
    vm_cnt (sys a') v_wire_count = vm_cnt (sys a) v_wire_count + (if req AND VM_ALLOC_WIRED \<noteq> 0 then 1 else 0) \<and>
    (\<forall>b\<in>set_option ob. vm_page_lookup (venv A) (sys a') b i = Some m)"
  by (rule alloc_page_ok [OF assms])

lemma mem1_requests:
  "req_consistent (Some b) VM_ALLOC_WIRED" "req_consistent None (VM_ALLOC_NOOBJ OR VM_ALLOC_WAITOK)"
  "VM_ALLOC_WIRED AND VM_ALLOC_IFCACHED = 0" "(VM_ALLOC_NOOBJ OR VM_ALLOC_WAITOK) AND VM_ALLOC_IFCACHED = 0"
  "may_alloc alloc_env1 (alloc_class alloc_env1 VM_ALLOC_WIRED) mem1"
  "map_of (rtree (objs (sys mem1) b)) i = None"
  by (simp_all add: req_consistent_def VM_ALLOC_NOOBJ_def VM_ALLOC_SBUSY_def VM_ALLOC_NOBUSY_def VM_ALLOC_WAITOK_def
    VM_ALLOC_WIRED_def VM_ALLOC_IFCACHED_def may_alloc_def free_pages_left_def mem1_def alloc_env1_def env1_def)

theorem alloc_page_witness:
  "\<exists>m a'. vm_page_alloc 1 alloc_env1 (Some 0) 9 VM_ALLOC_WIRED mem1 = Inr (Some m, a') \<and>
    vm_page_lookup (venv alloc_env1) (sys a') 0 9 = Some m \<and> wire_count (pg (sys a') m) = 1"
proof -
  have room: "\<forall>b\<in>set_option (Some 0). \<forall>m. vm_radix_insert (venv alloc_env1) (rtree (objs (sys mem1) b)) 9 m \<noteq> None"
    by (simp add: alloc_env1_def env1_def env0_def)
  have free: "\<forall>b\<in>set_option (Some 0). map_of (rtree (objs (sys mem1) b)) 9 = None" by (simp add: mem1_requests)
  have w: "VM_ALLOC_WIRED AND VM_ALLOC_WIRED \<noteq> 0" by (simp add: VM_ALLOC_WIRED_def)
  show ?thesis
    using alloc_page [OF env1_laws alloc_env1_laws mem1_ok mem1_requests(1,3,5) free room, of 0] w
    by (auto simp: granted_def)
qed

text \<open>
  When the trie has no memory for the new page, the allocation is undone: it returns no page,
  every page that was in use, every object, the set of free pages, their count and the count of wired pages are as before,
  and memory is in order; only then does the caller that asked for it sleep.
\<close>

theorem alloc_undone:
  assumes laws: "radix_laws (venv A) view" and al: "alloc_laws A avail" and ok: "mem_ok (venv A) view avail (sys a)"
    and req: "req_consistent (Some b) req" "req AND VM_ALLOC_IFCACHED = 0" and may: "may_alloc A (alloc_class A req) a"
    and free: "view (rtree (objs (sys a) b)) i = None"
    and full: "\<forall>m. vm_radix_insert (venv A) (rtree (objs (sys a) b)) i m = None"
  shows "\<exists>a'. vm_page_alloc (Suc n) A (Some b) i req a =
      Inr (None, if req AND VM_ALLOC_WAITFAIL \<noteq> 0 then asleep A a' else a') \<and>
    mem_ok (venv A) view avail (sys a') \<and> avail (phys (sys a')) = avail (phys (sys a)) \<and> objs (sys a') = objs (sys a) \<and>
    vm_cnt (sys a') v_wire_count = vm_cnt (sys a) v_wire_count \<and>
    (\<forall>k. k \<notin> avail (phys (sys a)) \<longrightarrow> pg (sys a') k = pg (sys a) k)"
  by (rule alloc_undone_ok [OF assms])

text \<open>The same with a trie that never has memory.\<close>

definition env1_full :: "((nat \<times> pid) list, pid list \<times> nat) alloc_env" where
  "env1_full = alloc_env1\<lparr>venv := env1\<lparr>vm_radix_insert := (\<lambda>r i m. None)\<rparr>\<rparr>"

lemma env1_full_laws: "radix_laws (venv env1_full) map_of" "alloc_laws env1_full avail1"
  "mem_ok (venv env1_full) map_of avail1 (sys mem1)"
proof -
  show "radix_laws (venv env1_full) map_of"
    using env1_laws unfolding radix_laws_def env1_full_def alloc_env1_def by simp
  show "alloc_laws env1_full avail1"
    using alloc_env1_laws unfolding alloc_laws_def env1_full_def by (simp add: alloc_env1_def)
  have "qdom (venv env1_full) q m = qdom (venv alloc_env1) q m" for q m
    by (simp add: qdom_def env1_full_def alloc_env1_def)
  then show "mem_ok (venv env1_full) map_of avail1 (sys mem1)"
    using mem1_ok unfolding mem_ok_def queues_ok_def by (simp add: env1_full_def alloc_env1_def)
qed

theorem alloc_undone_witness:
  "\<exists>a'. vm_page_alloc 1 env1_full (Some 0) 9 VM_ALLOC_WIRED mem1 = Inr (None, a') \<and>
    avail1 (phys (sys a')) = {5, 6, 7} \<and> vm_cnt (sys a') v_wire_count = 0"
proof -
  have may: "may_alloc env1_full (alloc_class env1_full VM_ALLOC_WIRED) mem1"
    using mem1_requests(5) by (simp add: may_alloc_def free_pages_left_def alloc_class_def env1_full_def alloc_env1_def)
  have full: "\<forall>m. vm_radix_insert (venv env1_full) (rtree (objs (sys mem1) 0)) 9 m = None" by (simp add: env1_full_def)
  have nw: "VM_ALLOC_WIRED AND VM_ALLOC_WAITFAIL = 0" by (simp add: VM_ALLOC_WIRED_def VM_ALLOC_WAITFAIL_def)
  have s: "avail1 (phys (sys mem1)) = {5, 6, 7}" "vm_cnt (sys mem1) v_wire_count = 0" by (simp_all add: avail1_def mem1_def)
  show ?thesis
    using alloc_undone [OF env1_full_laws mem1_requests(1,3) may mem1_requests(6) full, of 0] nw s by auto
qed

text \<open>
  An allocation that may sleep returns exactly when its request can be met some time: with the
  free count too low before the \<open>k\<close>-th wakeup and high enough at it, it returns a page after \<open>k\<close>
  sleeps; while the count stays too low, it does not return.
\<close>

theorem alloc_waits:
  assumes laws: "radix_laws (venv A) view" and al: "alloc_laws A avail"
    and req: "req_consistent None req" "req AND VM_ALLOC_IFCACHED = 0" "req AND VM_ALLOC_WAITOK \<noteq> 0"
      "curproc_is_pageproc A \<or> pageproc_started A"
    and low: "\<forall>j<k. \<not> may_alloc A (alloc_class A req) ((slept A req ^^ j) a)"
  shows "(may_alloc A (alloc_class A req) ((slept A req ^^ k) a) \<and> mem_ok (venv A) view avail (sys ((slept A req ^^ k) a)) \<longrightarrow>
      (\<exists>m a'. vm_page_alloc (k + Suc n) A None i req a = Inr (Some m, a') \<and> mem_ok (venv A) view avail (sys a') \<and>
        m \<in> avail (phys (sys ((slept A req ^^ k) a))))) \<and>
    vm_page_alloc k A None i req a = Inl Diverges"
proof -
  have no: "\<forall>b\<in>set_option None. view (rtree (objs (sys ((slept A req ^^ k) a)) b)) i = None"
    "\<forall>b\<in>set_option None. \<forall>m. vm_radix_insert (venv A) (rtree (objs (sys ((slept A req ^^ k) a)) b)) i m \<noteq> None" by simp_all
  have "vm_page_alloc (k + n') A None i req a = vm_page_alloc n' A None i req ((slept A req ^^ k) a)" for n'
    by (rule alloc_none_cong [OF find_page_waits [OF req(3,4) low] req(2)])
  note e = this
  have "vm_page_alloc k A None i req a = Inl Diverges"
    using e [of 0] req(1,2) by (simp add: vm_page_alloc_def vm_page_alloc_after_def)
  moreover have "\<exists>m a'. vm_page_alloc (k + Suc n) A None i req a = Inr (Some m, a') \<and> mem_ok (venv A) view avail (sys a') \<and>
      m \<in> avail (phys (sys ((slept A req ^^ k) a)))"
    if "may_alloc A (alloc_class A req) ((slept A req ^^ k) a)" "mem_ok (venv A) view avail (sys ((slept A req ^^ k) a))"
    unfolding e using alloc_page_ok [OF laws al that(2) req(1,2) that(1) no, of n] by blast
  ultimately show ?thesis by blast
qed

theorem alloc_waits_witness:
  "(\<exists>m a'. vm_page_alloc 1 alloc_env1 None 0 (VM_ALLOC_NOOBJ OR VM_ALLOC_WAITOK) mem1 = Inr (Some m, a')) \<and>
    vm_page_alloc 0 alloc_env1 None 0 (VM_ALLOC_NOOBJ OR VM_ALLOC_WAITOK) mem1 = Inl Diverges"
proof -
  let ?req = "VM_ALLOC_NOOBJ OR VM_ALLOC_WAITOK"
  have r: "?req AND VM_ALLOC_WAITOK \<noteq> 0" "curproc_is_pageproc alloc_env1 \<or> pageproc_started alloc_env1"
     "may_alloc alloc_env1 (alloc_class alloc_env1 ?req) mem1"
    by (simp_all add: VM_ALLOC_NOOBJ_def VM_ALLOC_WAITOK_def may_alloc_def free_pages_left_def mem1_def alloc_env1_def env1_def)
  show ?thesis
    using alloc_waits [OF env1_laws alloc_env1_laws mem1_requests(2,4) r(1,2), of 0 mem1 0 0] r(3) mem1_ok by auto
qed

end
