(* ===== verification/Vm_Contig_Props.thy ===== *)
theory Vm_Contig_Props
  imports Vm_Alloc_Props
begin

text \<open>
  Properties of the allocation of contiguous pages: all pages of the run are set up and inserted
  under consecutive indices, or all are given back; and the reserves that the three allocation
  routines respect.
\<close>

section \<open>Inserting the run\<close>

lemma insert_after_phys [simp]:
  "phys (snd (vm_page_insert_after E m b i mp s)) = phys s" "vm_cnt (snd (vm_page_insert_after E m b i mp s)) = vm_cnt s"
  by (simp_all add: vm_page_insert_after_def vm_page_insert_radixdone_def Let_def split: option.split)

lemma insert_after_phys': "vm_page_insert_after E m b i mp s = (f, s') \<Longrightarrow> phys s' = phys s"
  using insert_after_phys(1) [of E m b i mp s] by simp

lemma le_after_insert:
  assumes laws: "radix_laws E view" and r: "view r i = Some m" "view r (i + 1) = None"
  shows "vm_radix_lookup_le E r (i + 1) = Some m"
proof -
  have le: "case vm_radix_lookup_le E r (i + 1) of None \<Rightarrow> \<forall>j\<le>i + 1. view r j = None
     | Some m \<Rightarrow> \<exists>j\<le>i + 1. view r j = Some m \<and> (\<forall>k. j < k \<and> k \<le> i + 1 \<longrightarrow> view r k = None)"
    using laws unfolding radix_laws_def by blast
  show ?thesis
  proof (cases "vm_radix_lookup_le E r (i + 1)")
    case None
    then show ?thesis using le r(1) by auto
  next
    case (Some n)
    then obtain j where j: "j \<le> i + 1" "view r j = Some n" "\<forall>k. j < k \<and> k \<le> i + 1 \<longrightarrow> view r k = None" using le by auto
    have "j \<noteq> i + 1" using j(2) r(2) by auto
    moreover have "\<not> j < i" using j(3) r(1) by auto
    ultimately have "j = i" using j(1) by simp
    then show ?thesis using Some j(2) r(1) by simp
  qed
qed

definition set_attr :: "vm_memattr \<Rightarrow> pid \<Rightarrow> ('r, 'p) vm_sys \<Rightarrow> ('r, 'p) vm_sys" where
  "set_attr attr m s = (if attr \<noteq> VM_MEMATTR_DEFAULT then upd_page m (\<lambda>x. x\<lparr>memattr := attr\<rparr>) s else s)"

lemma set_attr_sel [simp]:
  "objs (set_attr attr m s) = objs s" "phys (set_attr attr m s) = phys s" "vm_cnt (set_attr attr m s) = vm_cnt s"
  "vmd (set_attr attr m s) = vmd s" "n \<noteq> m \<Longrightarrow> pg (set_attr attr m s) n = pg s n"
  by (simp_all add: set_attr_def)

lemma set_attr_page: "memattr (pg s m) = VM_MEMATTR_DEFAULT \<Longrightarrow> pg (set_attr attr m s) m = (pg s m)\<lparr>memattr := attr\<rparr>"
  by (cases "pg s m") (simp add: set_attr_def)

lemma set_attr_mem_ok: "mem_ok E view avail s \<Longrightarrow> m \<notin> avail (phys s) \<Longrightarrow> mem_ok E view avail (set_attr attr m s)"
  by (simp add: set_attr_def upd_page_mem_ok)

text \<open>
  The state in the middle of the run: the pages \<open>ms\<close> are still to come, \<open>mpred\<close> is the page before
  index \<open>i\<close>, and the indices of the pages to come are free.
\<close>

definition run_ok ::
    "('r, 'p) alloc_env \<Rightarrow> ('r \<Rightarrow> nat \<Rightarrow> pid option) \<Rightarrow> ('p \<Rightarrow> pid set) \<Rightarrow> oid option \<Rightarrow> pid list \<Rightarrow> nat \<Rightarrow> pid option
      \<Rightarrow> ('r, 'p) vm_sys \<Rightarrow> bool" where
  "run_ok A view avail ob ms i mpred s \<longleftrightarrow> mem_ok (venv A) view avail s \<and> set ms \<inter> avail (phys s) = {} \<and>
    (\<forall>k\<in>set ms. fresh (pg s k)) \<and>
    (\<forall>b\<in>set_option ob. (\<forall>j<length ms. view (rtree (objs s b)) (i + j) = None) \<and>
      (ms \<noteq> [] \<longrightarrow> mpred = vm_radix_lookup_le (venv A) (rtree (objs s b)) i))"

lemma run_step:
  assumes laws: "radix_laws (venv A) view" and ok: "run_ok A view avail ob (m # ms) i mpred s" and d: "m \<notin> set ms"
  shows "case ob of
      None \<Rightarrow> (\<exists>s'. insert_run A ob req attr (m # ms) i mpred s = insert_run A ob req attr ms (i + 1) mpred s' \<and>
        run_ok A view avail ob ms (i + 1) mpred s' \<and> granted A ob i req attr (pg s m) (pg s' m) \<and>
        (\<forall>k. k \<noteq> m \<longrightarrow> pg s' k = pg s k) \<and> phys s' = phys s \<and> vm_cnt s' = vm_cnt s)
    | Some b \<Rightarrow> (if vm_radix_insert (venv A) (rtree (objs s b)) i m = None
      then (\<exists>s'. insert_run A ob req attr (m # ms) i mpred s = (Some m, s') \<and> mem_ok (venv A) view avail s' \<and>
        pg s' m = (init_page A ob req (pg s m))\<lparr>object := None, pindex := 0\<rparr> \<and>
        (\<forall>k. k \<noteq> m \<longrightarrow> pg s' k = pg s k) \<and> phys s' = phys s \<and> vm_cnt s' = vm_cnt s)
      else (\<exists>s'. insert_run A ob req attr (m # ms) i mpred s = insert_run A ob req attr ms (i + 1) (Some m) s' \<and>
        run_ok A view avail ob ms (i + 1) (Some m) s' \<and> granted A ob i req attr (pg s m) (pg s' m) \<and>
        (\<forall>k. k \<noteq> m \<longrightarrow> pg s' k = pg s k) \<and> phys s' = phys s \<and> vm_cnt s' = vm_cnt s))"
proof -
  let ?E = "venv A"
  have mok: "mem_ok ?E view avail s" and out: "m \<notin> avail (phys s)" and fr: "fresh (pg s m)"
    and rest: "set ms \<inter> avail (phys s) = {}" "\<forall>k\<in>set ms. fresh (pg s k)"
    using ok by (auto simp: run_ok_def)
  define s1 where "s1 = upd_page m (init_page A ob req) s"
  have s1: "objs s1 = objs s" "phys s1 = phys s" "vm_cnt s1 = vm_cnt s" "pg s1 m = init_page A ob req (pg s m)"
    "\<And>k. k \<noteq> m \<Longrightarrow> pg s1 k = pg s k" by (simp_all add: s1_def)
  have ini: "upd_page m (init_contig_page A ob req) s = s1"
    unfolding s1_def upd_page_def upd_pg_def init_contig_page_eq ..
  have x: "object (pg s1 m) = None" "queue (pg s1 m) = PQ_NONE" "memattr (pg s1 m) = VM_MEMATTR_DEFAULT"
    using freshD [OF fr] by (simp_all add: s1 init_page_def Let_def)
  have ok1: "mem_ok ?E view avail s1"
    unfolding s1_def by (rule private_upd_ok [OF mok out]) (use freshD [OF fr] in \<open>auto simp: init_page_def Let_def regular_def\<close>)
  note gr = init_granted [OF fr, of A ob i req attr]
  have att: "(if attr \<noteq> VM_MEMATTR_DEFAULT then upd_page k (\<lambda>x. x\<lparr>memattr := attr\<rparr>) t else t) = set_attr attr k t" for k t
    by (simp add: set_attr_def)
  show ?thesis
  proof (cases ob)
    case None
    define s' where "s' = set_attr attr m (upd_page m (\<lambda>x. x\<lparr>pindex := i\<rparr>) s1)"
    have e: "insert_run A ob req attr (m # ms) i mpred s = insert_run A ob req attr ms (i + 1) mpred s'"
      unfolding insert_run.simps Let_def ini att s'_def unfolding None by simp
    have "mem_ok ?E view avail (upd_page m (\<lambda>x. x\<lparr>pindex := i\<rparr>) s1)"
      by (rule private_upd_ok [OF ok1, of m]) (use out x in \<open>simp_all add: s1 regular_def\<close>)
    then have "mem_ok ?E view avail s'" unfolding s'_def by (rule set_attr_mem_ok) (use out in \<open>simp add: s1\<close>)
    moreover have oth: "pg s' k = pg s k" if "k \<noteq> m" for k using that by (simp add: s'_def s1)
    moreover have ph: "phys s' = phys s" "vm_cnt s' = vm_cnt s" by (simp_all add: s'_def s1)
    ultimately have "run_ok A view avail ob ms (i + 1) mpred s'"
      using rest d by (auto simp: run_ok_def None) (metis oth)
    moreover have "pg s' m = (init_page A ob req (pg s m))\<lparr>object := ob, pindex := i, memattr := attr\<rparr>"
    proof -
      have "pg s' m = (pg (upd_page m (\<lambda>x. x\<lparr>pindex := i\<rparr>) s1) m)\<lparr>memattr := attr\<rparr>"
        unfolding s'_def by (rule set_attr_page) (use x in simp)
      then show ?thesis using x(1) None by (simp add: s1)
    qed
    then have "granted A ob i req attr (pg s m) (pg s' m)" using gr by simp
    ultimately show ?thesis using e oth ph by (auto simp: None)
  next
    case (Some b)
    have mp: "mpred = vm_radix_lookup_le ?E (rtree (objs s1 b)) i" and fi: "view (rtree (objs s1 b)) i = None"
      and later: "\<And>j. j < length ms \<Longrightarrow> view (rtree (objs s1 b)) (i + Suc j) = None"
      using ok by (auto simp: run_ok_def Some s1 dest: spec [of _ 0])
    have ins: "vm_page_insert_after ?E m b i mpred s1 = vm_page_insert ?E m b i s1"
      by (simp add: vm_page_insert_def mp)
    show ?thesis
    proof (cases "vm_radix_insert ?E (rtree (objs s b)) i m")
      case None
      define s' where "s' = upd_page m (\<lambda>x. x\<lparr>object := None, pindex := 0\<rparr>)
        (upd_page m (\<lambda>x. x\<lparr>object := Some b, pindex := i\<rparr>) s1)"
      have e: "insert_run A ob req attr (m # ms) i mpred s = (Some m, s')"
        unfolding insert_run.simps Let_def ini unfolding Some option.case
        using None by (simp add: vm_page_insert_after_def Let_def s'_def s1)
      have "mem_ok ?E view avail s'"
        by (rule private_upd_ok [OF ok1, of m]) (use out x in \<open>simp_all add: s'_def s1 regular_def\<close>)
      moreover have "pg s' m = (init_page A ob req (pg s m))\<lparr>object := None, pindex := 0\<rparr>" by (simp add: s'_def s1)
      ultimately show ?thesis using e None Some by (auto simp: s'_def s1)
    next
      case (Some r)
      have r: "vm_radix_insert ?E (rtree (objs s1 b)) i m = Some r" using Some by (simp add: s1)
      define s2 where "s2 = snd (vm_page_insert ?E m b i s1)"
      define s' where "s' = set_attr attr m s2"
      note st = insert_state [OF r, folded s2_def]
      have two: "vm_page_insert_after ?E m b i mpred s1 = (False, s2)"
        unfolding ins using insert_state(1) [OF r] by (cases "vm_page_insert ?E m b i s1") (simp add: s2_def)
      have e: "insert_run A ob req attr (m # ms) i mpred s = insert_run A ob req attr ms (i + 1) (Some m) s'"
        unfolding insert_run.simps Let_def ini att s'_def unfolding \<open>ob = Some b\<close> option.case two prod.case by simp
      have ok2: "mem_ok ?E view avail s2"
        unfolding s2_def by (rule insert_mem_ok [OF laws ok1 _ x(1) fi r]) (use out in \<open>simp add: s1\<close>)
      have ph2: "phys s2 = phys s" "vm_cnt s2 = vm_cnt s" by (simp_all add: s2_def s1)
      have "mem_ok ?E view avail s'" unfolding s'_def by (rule set_attr_mem_ok [OF ok2]) (use out in \<open>simp add: ph2\<close>)
      moreover have oth: "pg s' k = pg s k" if "k \<noteq> m" for k using that by (simp add: s'_def st(2) s1)
      moreover have ph: "phys s' = phys s" "vm_cnt s' = vm_cnt s" by (simp_all add: s'_def ph2)
      moreover have v: "view r = (view (rtree (objs s1 b)))(i \<mapsto> m)"
        using laws fi r unfolding radix_laws_def by simp
      moreover have "rtree (objs s' b) = r" by (simp add: s'_def st(4))
      moreover have "ms \<noteq> [] \<Longrightarrow> vm_radix_lookup_le ?E r (i + 1) = Some m"
        by (rule le_after_insert [OF laws]) (use v later [of 0] in simp_all)
      ultimately have "run_ok A view avail ob ms (i + 1) (Some m) s'"
        using rest d later by (auto simp: run_ok_def \<open>ob = Some b\<close>) (metis oth)
      moreover have "pg s' m = (init_page A ob req (pg s m))\<lparr>object := ob, pindex := i, memattr := attr\<rparr>"
      proof -
        have "pg s' m = (pg s2 m)\<lparr>memattr := attr\<rparr>" unfolding s'_def by (rule set_attr_page) (use x in \<open>simp add: st(2)\<close>)
        then show ?thesis using \<open>ob = Some b\<close> by (simp add: st(2) s1)
      qed
      then have "granted A ob i req attr (pg s m) (pg s' m)" using gr by simp
      ultimately show ?thesis using e oth ph Some \<open>ob = Some b\<close> by auto
    qed
  qed
qed

text \<open>A page the run has set up, inserted or not.\<close>

definition begun :: "('r, 'p) alloc_env \<Rightarrow> oid option \<Rightarrow> u32 \<Rightarrow> vm_memattr \<Rightarrow> vm_page \<Rightarrow> vm_page \<Rightarrow> bool" where
  "begun A ob req attr x y \<longleftrightarrow> (\<exists>j. granted A ob j req attr x y) \<or>
    y = (init_page A ob req x)\<lparr>object := None, pindex := 0\<rparr>"

lemma begun_page:
  assumes "begun A ob req attr x y" "fresh x"
  shows "queue y = PQ_NONE" "hold_count y = 0" "flags y \<inter> {PG_FICTITIOUS, PG_MARKER, PG_UNHOLDFREE} = {}"
    "req AND VM_ALLOC_WIRED = 0 \<Longrightarrow> wire_count y = 0"
proof -
  have "queue y = PQ_NONE \<and> hold_count y = 0 \<and> flags y \<inter> {PG_FICTITIOUS, PG_MARKER, PG_UNHOLDFREE} = {} \<and>
      (req AND VM_ALLOC_WIRED = 0 \<longrightarrow> wire_count y = 0)"
    using assms(1) unfolding begun_def
  proof
    assume "\<exists>j. granted A ob j req attr x y"
    then show ?thesis using freshD [OF assms(2)] by (auto simp: granted_def)
  next
    assume "y = (init_page A ob req x)\<lparr>object := None, pindex := 0\<rparr>"
    then show ?thesis using freshD [OF assms(2)] by (auto simp: init_page_def Let_def)
  qed
  then show "queue y = PQ_NONE" "hold_count y = 0" "flags y \<inter> {PG_FICTITIOUS, PG_MARKER, PG_UNHOLDFREE} = {}"
    "req AND VM_ALLOC_WIRED = 0 \<Longrightarrow> wire_count y = 0" by simp_all
qed

definition run_result ::
    "('r, 'p) alloc_env \<Rightarrow> oid option \<Rightarrow> u32 \<Rightarrow> vm_memattr \<Rightarrow> pid list \<Rightarrow> nat \<Rightarrow> ('r, 'p) vm_sys \<Rightarrow> pid option \<Rightarrow> ('r, 'p) vm_sys \<Rightarrow> bool" where
  "run_result A ob req attr ms i s r s' \<longleftrightarrow>
    phys s' = phys s \<and> vm_cnt s' = vm_cnt s \<and> (\<forall>k. k \<notin> set ms \<longrightarrow> pg s' k = pg s k) \<and>
    (case r of
       None \<Rightarrow> \<forall>j<length ms. granted A ob (i + j) req attr (pg s (ms ! j)) (pg s' (ms ! j))
     | Some l \<Rightarrow> object (pg s' l) = None \<and> (\<exists>us vs. ms = us @ l # vs \<and>
         (\<forall>k\<in>insert l (set us). begun A ob req attr (pg s k) (pg s' k)) \<and> (\<forall>k\<in>set vs. pg s' k = pg s k)))"

lemma run_result_step:
  assumes r: "run_result A ob req attr ms (i + 1) s1 r s'" and d: "m \<notin> set ms" "distinct ms"
    and s1: "granted A ob i req attr (pg s m) (pg s1 m)" "\<forall>k. k \<noteq> m \<longrightarrow> pg s1 k = pg s k" "phys s1 = phys s" "vm_cnt s1 = vm_cnt s"
  shows "run_result A ob req attr (m # ms) i s r s'"
proof -
  have m: "pg s' m = pg s1 m" using r d(1) by (simp add: run_result_def)
  have ks: "k \<in> set ms \<Longrightarrow> pg s1 k = pg s k" for k using s1(2) d(1) by auto
  have base: "phys s' = phys s \<and> vm_cnt s' = vm_cnt s \<and> (\<forall>k. k \<notin> set (m # ms) \<longrightarrow> pg s' k = pg s k)"
    using r s1 by (simp add: run_result_def)
  show ?thesis
  proof (cases r)
    case None
    have "granted A ob (i + j) req attr (pg s ((m # ms) ! j)) (pg s' ((m # ms) ! j))" if j: "j < length (m # ms)" for j
    proof (cases j)
      case 0
      then show ?thesis using s1(1) m by simp
    next
      case (Suc j')
      then show ?thesis using r None j ks [of "ms ! j'"] by (auto simp: run_result_def)
    qed
    then show ?thesis using base None by (simp add: run_result_def)
  next
    case (Some l)
    then obtain us vs where o: "object (pg s' l) = None" and ms: "ms = us @ l # vs"
      and u: "\<forall>k\<in>insert l (set us). begun A ob req attr (pg s1 k) (pg s' k)" and v: "\<forall>k\<in>set vs. pg s' k = pg s1 k"
      using r by (auto simp: run_result_def)
    have "\<forall>k\<in>insert l (set (m # us)). begun A ob req attr (pg s k) (pg s' k)"
      using u s1(1) m ks by (auto simp: ms begun_def)
    moreover have "\<forall>k\<in>set vs. pg s' k = pg s k" using v ks by (simp add: ms)
    moreover have "m # ms = (m # us) @ l # vs" by (simp add: ms)
    ultimately show ?thesis using base o unfolding run_result_def Some option.case by blast
  qed
qed

lemma insert_run_ok:
  assumes laws: "radix_laws (venv A) view"
  shows "run_ok A view avail ob ms i mpred s \<Longrightarrow> distinct ms \<Longrightarrow>
    \<exists>r s'. insert_run A ob req attr ms i mpred s = (r, s') \<and> mem_ok (venv A) view avail s' \<and>
      run_result A ob req attr ms i s r s' \<and> (ob = None \<longrightarrow> r = None)"
proof (induction ms arbitrary: i mpred s)
  case Nil
  then show ?case by (simp add: run_result_def run_ok_def)
next
  case (Cons m ms)
  have d: "m \<notin> set ms" "distinct ms" using Cons.prems(2) by simp_all
  note step = run_step [OF laws Cons.prems(1) d(1), of req attr]
  have go_on: "\<exists>r s'. insert_run A ob req attr (m # ms) i mpred s = (r, s') \<and> mem_ok (venv A) view avail s' \<and>
      run_result A ob req attr (m # ms) i s r s' \<and> (ob = None \<longrightarrow> r = None)"
    if "insert_run A ob req attr (m # ms) i mpred s = insert_run A ob req attr ms (i + 1) mp s1"
      "run_ok A view avail ob ms (i + 1) mp s1" "granted A ob i req attr (pg s m) (pg s1 m)"
      "\<forall>k. k \<noteq> m \<longrightarrow> pg s1 k = pg s k" "phys s1 = phys s" "vm_cnt s1 = vm_cnt s" for mp s1
    using Cons.IH [OF that(2) d(2)] run_result_step [OF _ d that(3-6)] unfolding that(1) by blast
  show ?case
  proof (cases ob)
    case None
    then show ?thesis using step go_on by auto
  next
    case (Some b)
    show ?thesis
    proof (cases "vm_radix_insert (venv A) (rtree (objs s b)) i m")
      case None
      then obtain s' where e: "insert_run A ob req attr (m # ms) i mpred s = (Some m, s')"
        and s': "mem_ok (venv A) view avail s'" "pg s' m = (init_page A ob req (pg s m))\<lparr>object := None, pindex := 0\<rparr>"
          "\<forall>k. k \<noteq> m \<longrightarrow> pg s' k = pg s k" "phys s' = phys s" "vm_cnt s' = vm_cnt s"
        using step Some by auto
      have "m # ms = [] @ m # ms" by simp
      moreover have "\<forall>k\<in>insert m (set []). begun A ob req attr (pg s k) (pg s' k)" using s'(2) by (simp add: begun_def)
      moreover have "\<forall>k\<in>set ms. pg s' k = pg s k" using s'(3) d by auto
      moreover have "object (pg s' m) = None" using s'(2) by simp
      ultimately have "run_result A ob req attr (m # ms) i s (Some m) s'"
        using s'(3-5) unfolding run_result_def option.case by (metis list.set_intros(1))
      then show ?thesis using e s'(1) Some by blast
    next
      case (Some r)
      then show ?thesis using step go_on \<open>ob = Some b\<close> by auto
    qed
  qed
qed

section \<open>Giving the run back\<close>

lemma off_queue_mem_ok:
  assumes ok: "mem_ok E view avail s" and m: "m \<notin> avail (phys s)" "queue (pg s m) = PQ_NONE"
    and f: "\<And>x. queue (f x) = queue x \<and> flags (f x) = flags x \<and> object (f x) = object x \<and> pindex (f x) = pindex x"
  shows "mem_ok E view avail (upd_page m f s)"
proof (rule mem_okI)
  show "queues_ok E (upd_page m f s)"
    by (rule off_queue_ok [OF mem_okD(1) [OF ok], of _ m]) (use f m in \<open>simp_all add: regular_def\<close>)
  show "objs_ok view (upd_page m f s)"
    by (rule objs_ok_cong [OF _ _ mem_okD(2) [OF ok]]) (use f in \<open>simp_all add: upd_pg_def\<close>)
  show "fresh (pg (upd_page m f s) n)" if "n \<in> avail (phys (upd_page m f s))" for n
    using that m mem_okD(3) [OF ok, of n] by (cases "n = m") simp_all
qed (use mem_okD(4,5) [OF ok] in simp_all)

lemma free_run_ok:
  assumes laws: "radix_laws (venv A) view" and al: "alloc_laws A avail"
  shows "mem_ok (venv A) view avail s \<Longrightarrow> distinct ms \<Longrightarrow> set ms \<inter> avail (phys s) = {} \<Longrightarrow>
    (\<forall>k\<in>set ms. queue (pg s k) = PQ_NONE \<and> hold_count (pg s k) = 0 \<and>
      flags (pg s k) \<inter> {PG_FICTITIOUS, PG_MARKER, PG_UNHOLDFREE} = {} \<and>
      (k \<le> l \<and> req AND VM_ALLOC_WIRED \<noteq> 0 \<or> wire_count (pg s k) = 0)) \<Longrightarrow>
    \<exists>s'. free_run A req l ms s = Inr s' \<and> mem_ok (venv A) view avail s' \<and>
      avail (phys s') = avail (phys s) \<union> set ms \<and> (\<forall>k. k \<notin> set ms \<longrightarrow> pg s' k = pg s k) \<and>
      vm_cnt s' v_wire_count = vm_cnt s v_wire_count"
proof (induction ms arbitrary: s)
  case (Cons m ms)
  define s1 where "s1 = upd_page m (uninit_page (m \<le> l \<and> req AND VM_ALLOC_WIRED \<noteq> 0)) s"
  have m: "m \<notin> avail (phys s)" "m \<notin> set ms" "queue (pg s m) = PQ_NONE" using Cons.prems by auto
  have ok1: "mem_ok (venv A) view avail s1"
    unfolding s1_def by (rule off_queue_mem_ok [OF Cons.prems(1) m(1,3)]) (simp add: uninit_page_def)
  have "idle_page s1 m" using Cons.prems(4) by (auto simp: idle_page_def s1_def uninit_page_def)
  then obtain s2 where s2: "vm_page_free_toq (venv A) m s1 = Inr s2" "mem_ok (venv A) view avail s2"
     "avail (phys s2) = insert m (avail (phys s1))" "\<forall>n. n \<noteq> m \<longrightarrow> pg s2 n = pg s1 n"
     "vm_cnt s2 v_wire_count = vm_cnt s1 v_wire_count"
    using give_back_ok [OF laws al ok1, of m] m(1) by (auto simp: s1_def)
  have oth: "k \<noteq> m \<Longrightarrow> pg s2 k = pg s k" for k using s2(4) by (simp add: s1_def)
  have p2: "avail (phys s2) = insert m (avail (phys s))" using s2(3) by (simp add: s1_def)
  have rest: "k \<in> set ms \<Longrightarrow> pg s2 k = pg s k" for k by (rule oth) (use m(2) in blast)
  have "\<exists>s'. free_run A req l ms s2 = Inr s' \<and> mem_ok (venv A) view avail s' \<and>
      avail (phys s') = avail (phys s2) \<union> set ms \<and> (\<forall>k. k \<notin> set ms \<longrightarrow> pg s' k = pg s2 k) \<and>
      vm_cnt s' v_wire_count = vm_cnt s2 v_wire_count"
  proof (rule Cons.IH [OF s2(2)])
    show "distinct ms" "set ms \<inter> avail (phys s2) = {}" using Cons.prems(2,3) by (auto simp: p2)
  qed (use Cons.prems(4) rest in simp)
  then show ?case using s2(1,5) oth p2 by (auto simp: s1_def [symmetric]) (auto simp: s1_def)
qed auto

section \<open>Finding the run\<close>

text \<open>Each reservation can be broken once only: a measure of them that no allocation raises.\<close>

definition resv_law :: "('r, 'p) alloc_env \<Rightarrow> ('p \<Rightarrow> nat) \<Rightarrow> bool" where
  "resv_law A resv \<longleftrightarrow>
    (\<forall>n lo hi al bo p. fst (vm_reserv_reclaim_contig A n lo hi al bo p) \<longrightarrow>
      resv (snd (vm_reserv_reclaim_contig A n lo hi al bo p)) < resv p) \<and>
    (\<forall>n lo hi al bo p. fst (vm_phys_alloc_contig A n lo hi al bo p) = None \<longrightarrow>
      resv (snd (vm_phys_alloc_contig A n lo hi al bo p)) \<le> resv p) \<and>
    (\<forall>b i n lo hi al bo mp p. fst (vm_reserv_alloc_contig A b i n lo hi al bo mp p) = None \<longrightarrow>
      resv (snd (vm_reserv_alloc_contig A b i n lo hi al bo mp p)) \<le> resv p)"

lemma resv_lawD:
  assumes "resv_law A resv"
  shows "vm_reserv_reclaim_contig A n lo hi al bo p = (True, p') \<Longrightarrow> resv p' < resv p"
    and "vm_phys_alloc_contig A n lo hi al bo p = (None, p') \<Longrightarrow> resv p' \<le> resv p"
    and "vm_reserv_alloc_contig A b i n lo hi al bo mp p = (None, p') \<Longrightarrow> resv p' \<le> resv p"
proof -
  note L = assms [unfolded resv_law_def]
  show "vm_reserv_reclaim_contig A n lo hi al bo p = (True, p') \<Longrightarrow> resv p' < resv p"
    using L [THEN conjunct1, rule_format, of n lo hi al bo p] by simp
  show "vm_phys_alloc_contig A n lo hi al bo p = (None, p') \<Longrightarrow> resv p' \<le> resv p"
    using L [THEN conjunct2, THEN conjunct1, rule_format, of n lo hi al bo p] by simp
  show "vm_reserv_alloc_contig A b i n lo hi al bo mp p = (None, p') \<Longrightarrow> resv p' \<le> resv p"
    using L [THEN conjunct2, THEN conjunct2, rule_format, of b i n lo hi al bo mp p] by simp
qed

lemma contig_pages_gives:
  assumes al: "alloc_laws A avail"
  shows "contig_pages n A ob i mp c p = Inr r \<Longrightarrow> gives avail (v_free_count (venv A)) (cr_npages c) p r"
proof (induction n arbitrary: p)
  case (Suc n)
  let ?g = "gives avail (v_free_count (venv A)) (cr_npages c)"
  define first where "first p = (case ob of
      Some b \<Rightarrow> if OBJ_COLORED \<in> obj_flags A b
        then vm_reserv_alloc_contig A b i (cr_npages c) (cr_low c) (cr_high c) (cr_alignment c) (cr_boundary c) mp p
        else (None, p)
    | None \<Rightarrow> (None, p))" for p
  have g1: "?g p (first p)"
    using alloc_lawsD(5) [OF al] gives_none [of avail p p "v_free_count (venv A)"] by (simp add: first_def split: option.split)
  obtain r1 p1 where 1: "first p = (r1, p1)" by (cases "first p")
  obtain r2 p2 where 2: "(case r1 of Some m \<Rightarrow> (r1, p1)
      | None \<Rightarrow> vm_phys_alloc_contig A (cr_npages c) (cr_low c) (cr_high c) (cr_alignment c) (cr_boundary c) p1) = (r2, p2)"
    by fastforce
  have g2: "?g p (r2, p2)"
  proof (cases r1)
    case None
    then show ?thesis using g1 1 2 gives_trans [OF _ alloc_lawsD(4) [OF al]] by auto metis
  qed (use g1 1 2 in auto)
  obtain ok p3 where 3: "vm_reserv_reclaim_contig A (cr_npages c) (cr_low c) (cr_high c) (cr_alignment c) (cr_boundary c) p2 = (ok, p3)"
    by fastforce
  have e: "contig_pages (Suc n) A ob i mp c p = (case r2 of Some m \<Rightarrow> Inr (Some m, p2)
      | None \<Rightarrow> if ok then contig_pages n A ob i mp c p3 else Inr (None, p3))"
    unfolding contig_pages.simps first_def [symmetric] 1 Let_def prod.case 2 3 by (simp split: bool.split option.split)
  show ?case
  proof (cases r2)
    case None
    have "?g p2 (None, p3)" using alloc_lawsD(8,9) [OF al, of "cr_npages c" "cr_low c" "cr_high c" "cr_alignment c" "cr_boundary c" p2]
      by (intro gives_none) (simp_all add: 3)
    from gives_trans [OF g2 [unfolded None] this] have g3: "?g p (None, p3)" .
    then show ?thesis using Suc e None gives_trans [OF g3] by (cases ok) auto
  qed (use Suc.prems e g2 in auto)
qed simp

lemma contig_pages_ends:
  assumes rl: "resv_law A resv"
  shows "resv p < n \<Longrightarrow> \<exists>r. contig_pages n A ob i mp c p = Inr r"
proof (induction n arbitrary: p)
  case (Suc n)
  define first where "first p = (case ob of
      Some b \<Rightarrow> if OBJ_COLORED \<in> obj_flags A b
        then vm_reserv_alloc_contig A b i (cr_npages c) (cr_low c) (cr_high c) (cr_alignment c) (cr_boundary c) mp p
        else (None, p)
    | None \<Rightarrow> (None, p))" for p
  obtain r1 p1 where 1: "first p = (r1, p1)" by (cases "first p")
  have le1: "r1 = None \<Longrightarrow> resv p1 \<le> resv p"
    using 1 resv_lawD(3) [OF rl] by (auto simp: first_def split: option.splits if_splits)
  obtain r2 p2 where 2: "(case r1 of Some m \<Rightarrow> (r1, p1)
      | None \<Rightarrow> vm_phys_alloc_contig A (cr_npages c) (cr_low c) (cr_high c) (cr_alignment c) (cr_boundary c) p1) = (r2, p2)"
    by fastforce
  have r1: "r2 = None \<Longrightarrow> r1 = None" using 2 by (cases r1) auto
  have le2: "resv p2 \<le> resv p1" if "r2 = None"
  proof -
    have "vm_phys_alloc_contig A (cr_npages c) (cr_low c) (cr_high c) (cr_alignment c) (cr_boundary c) p1 = (None, p2)"
      using 2 r1 [OF that] that by simp
    then show ?thesis by (rule resv_lawD(2) [OF rl])
  qed
  obtain ok p3 where 3: "vm_reserv_reclaim_contig A (cr_npages c) (cr_low c) (cr_high c) (cr_alignment c) (cr_boundary c) p2 = (ok, p3)"
    by fastforce
  have lt: "ok \<Longrightarrow> resv p3 < resv p2" using 3 by (intro resv_lawD(1) [OF rl]) simp
  have e: "contig_pages (Suc n) A ob i mp c p = (case r2 of Some m \<Rightarrow> Inr (Some m, p2)
      | None \<Rightarrow> if ok then contig_pages n A ob i mp c p3 else Inr (None, p3))"
    unfolding contig_pages.simps first_def [symmetric] 1 Let_def prod.case 2 3 by (simp split: bool.split option.split)
  show ?case
  proof (cases "r2 = None \<and> ok")
    case True
    then have "resv p3 < n" using lt le1 le2 r1 Suc.prems by simp
    then show ?thesis unfolding e using Suc.IH True by auto
  next
    case False
    then show ?thesis unfolding e by (auto split: option.split)
  qed
qed simp

section \<open>Properties\<close>

definition contig_attr :: "('r, 'p) alloc_env \<Rightarrow> oid option \<Rightarrow> vm_memattr \<Rightarrow> vm_memattr" where
  "contig_attr A ob attr = (case ob of Some b \<Rightarrow> if obj_memattr A b \<noteq> VM_MEMATTR_DEFAULT \<and> attr = VM_MEMATTR_DEFAULT
     then obj_memattr A b else attr | None \<Rightarrow> attr)"

text \<open>The outcome: all pages of a run of free pages, in order, or none and everything as before.\<close>

definition all_or_nothing ::
    "('r, 'p) alloc_env \<Rightarrow> ('r \<Rightarrow> nat \<Rightarrow> pid option) \<Rightarrow> ('p \<Rightarrow> pid set) \<Rightarrow> oid option \<Rightarrow> nat \<Rightarrow> u32 \<Rightarrow> contig_req \<Rightarrow> vm_memattr
      \<Rightarrow> ('r, 'p) vm_sys \<Rightarrow> pid option \<Rightarrow> ('r, 'p) vm_sys \<Rightarrow> bool" where
  "all_or_nothing A view avail ob i req c attr s r s' \<longleftrightarrow>
    (case r of
       Some m \<Rightarrow> {m..<m + cr_npages c} \<subseteq> avail (phys s) \<and> avail (phys s') = avail (phys s) - {m..<m + cr_npages c} \<and>
         (\<forall>j<cr_npages c. granted A ob (i + j) req (contig_attr A ob attr) (pg s (m + j)) (pg s' (m + j)) \<and>
           (\<forall>b\<in>set_option ob. vm_page_lookup (venv A) s' b (i + j) = Some (m + j))) \<and>
         (\<forall>k. k \<notin> {m..<m + cr_npages c} \<longrightarrow> pg s' k = pg s k) \<and>
         vm_cnt s' v_wire_count = vm_cnt s v_wire_count + (if req AND VM_ALLOC_WIRED \<noteq> 0 then of_nat (cr_npages c) else 0)
     | None \<Rightarrow> avail (phys s') = avail (phys s) \<and> (\<forall>k. k \<notin> avail (phys s) \<longrightarrow> pg s' k = pg s k) \<and>
         (\<forall>b j. vm_page_lookup (venv A) s' b j = vm_page_lookup (venv A) s b j) \<and>
         vm_cnt s' v_wire_count = vm_cnt s v_wire_count)"

lemma contig_found:
  assumes laws: "radix_laws (venv A) view" and al: "alloc_laws A avail" and ok: "mem_ok (venv A) view avail s"
    and free: "\<forall>b\<in>set_option ob. \<forall>j<cr_npages c. view (rtree (objs s b)) (i + j) = None"
    and g: "gives avail (v_free_count (venv A)) (cr_npages c) (phys s) (Some m, p)"
    and s2: "s2 = take_off_run A m (cr_npages c) (s\<lparr>phys := p\<rparr>)"
  shows "{m..<m + cr_npages c} \<subseteq> avail (phys s)" "avail (phys s2) = avail (phys s) - {m..<m + cr_npages c}"
    "pg s2 = pg s" "objs s2 = objs s" "vm_cnt s2 = vm_cnt s" "\<forall>k\<in>set [m..<m + cr_npages c]. vm_page_alloc_check (pg s2 k)"
    "run_ok A view avail ob [m..<m + cr_npages c] i (found_pred A ob i s) (wire_cnt req (int (cr_npages c)) s2)"
proof -
  have sel: "pg s2 = pg s" "vmd s2 = vmd s" "objs s2 = objs s" "vm_cnt s2 = vm_cnt s"
    "phys s2 = vm_phys_freecnt_adj (venv A) m (- int (cr_npages c)) p"
    by (simp_all add: s2 take_off_run_def)
  note T = take_ok [OF al ok g sel(1-3,5)]
  have fr: "\<forall>k\<in>set [m..<m + cr_npages c]. fresh (pg s k)" using T(2) mem_okD(3) [OF ok] by auto
  show "{m..<m + cr_npages c} \<subseteq> avail (phys s)" "avail (phys s2) = avail (phys s) - {m..<m + cr_npages c}"
    "pg s2 = pg s" "objs s2 = objs s" "vm_cnt s2 = vm_cnt s" using T sel by simp_all
  show "\<forall>k\<in>set [m..<m + cr_npages c]. vm_page_alloc_check (pg s2 k)" using fr by (simp add: sel fresh_def)
  show "run_ok A view avail ob [m..<m + cr_npages c] i (found_pred A ob i s) (wire_cnt req (int (cr_npages c)) s2)"
    unfolding run_ok_def using T fr free by (auto simp: sel found_pred_def)
qed

lemma contig_run_ok:
  assumes laws: "radix_laws (venv A) view" and al: "alloc_laws A avail" and ok: "mem_ok (venv A) view avail s"
    and free: "\<forall>b\<in>set_option ob. \<forall>j<cr_npages c. view (rtree (objs s b)) (i + j) = None"
    and g: "gives avail (v_free_count (venv A)) (cr_npages c) (phys s) (Some m, p)"
    and s2: "s2 = take_off_run A m (cr_npages c) (s\<lparr>phys := p\<rparr>)"
    and ir: "insert_run A ob req (contig_attr A ob attr) [m..<m + cr_npages c] i (found_pred A ob i s)
      (wire_cnt req (int (cr_npages c)) s2) = (r, s3)"
  shows "case r of
      None \<Rightarrow> mem_ok (venv A) view avail s3 \<and> all_or_nothing A view avail ob i req c attr s (Some m) s3
    | Some l \<Rightarrow> object (pg s3 l) = None \<and> (\<forall>s4. pg s4 = pg s3 \<and> vmd s4 = vmd s3 \<and> objs s4 = objs s3 \<and> phys s4 = phys s3 \<and>
        vm_cnt s4 v_wire_count = vm_cnt s v_wire_count \<longrightarrow>
        (\<exists>s5. free_run A req l [m..<m + cr_npages c] s4 = Inr s5 \<and> mem_ok (venv A) view avail s5 \<and>
          all_or_nothing A view avail ob i req c attr s None s5))"
proof -
  let ?ms = "[m..<m + cr_npages c]"
  note F = contig_found [OF laws al ok free g s2]
  obtain ok3: "mem_ok (venv A) view avail s3"
    and R: "run_result A ob req (contig_attr A ob attr) ?ms i (wire_cnt req (int (cr_npages c)) s2) r s3"
    using insert_run_ok [OF laws F(7) [of req] distinct_upt, of req "contig_attr A ob attr"] ir by auto
  have sel: "phys s3 = phys s2" "\<And>k. k \<notin> set ?ms \<Longrightarrow> pg s3 k = pg s k"
    "vm_cnt s3 v_wire_count = vm_cnt s v_wire_count + (if req AND VM_ALLOC_WIRED \<noteq> 0 then of_nat (cr_npages c) else 0)"
    using R F(3,5) by (simp_all add: run_result_def)
  have fr: "k \<in> set ?ms \<Longrightarrow> fresh (pg s k)" for k using F(1) mem_okD(3) [OF ok] by auto
  have lk: "vm_page_lookup (venv A) t b j = view (rtree (objs t b)) j" for t b j
    using laws by (simp add: vm_page_lookup_def radix_laws_def)
  show ?thesis
  proof (cases r)
    case None
    have gr: "granted A ob (i + j) req (contig_attr A ob attr) (pg s (m + j)) (pg s3 (m + j))" if "j < cr_npages c" for j
      using R that by (auto simp: run_result_def None F(3) simp del: upt_Suc)
    have "vm_page_lookup (venv A) s3 b (i + j) = Some (m + j)" if "j < cr_npages c" "ob = Some b" for b j
      using gr [OF that(1)] that(2) by (simp add: lk view_pages [OF mem_okD(2) [OF ok3]] granted_def)
    then have "all_or_nothing A view avail ob i req c attr s (Some m) s3"
      using F(1,2) sel gr by (simp add: all_or_nothing_def)
    then show ?thesis using ok3 None by simp
  next
    case (Some l)
    obtain us vs where ms: "?ms = us @ l # vs" and u: "\<forall>k\<in>insert l (set us). begun A ob req (contig_attr A ob attr) (pg s k) (pg s3 k)"
      and v: "\<forall>k\<in>set vs. pg s3 k = pg s k" and ol: "object (pg s3 l) = None"
      using R F(3) by (auto simp: run_result_def Some)
    have "sorted (us @ l # vs)" using ms by (metis sorted_upt)
    then have le: "\<forall>k\<in>insert l (set us). k \<le> l" by (auto simp: sorted_append)
    have pages: "queue (pg s3 k) = PQ_NONE \<and> hold_count (pg s3 k) = 0 \<and>
        flags (pg s3 k) \<inter> {PG_FICTITIOUS, PG_MARKER, PG_UNHOLDFREE} = {} \<and>
        (k \<le> l \<and> req AND VM_ALLOC_WIRED \<noteq> 0 \<or> wire_count (pg s3 k) = 0)" if k: "k \<in> set ?ms" for k
    proof (cases "k \<in> insert l (set us)")
      case True
      then show ?thesis using begun_page [OF bspec [OF u True] fr [OF k]] le by blast
    next
      case False
      then have "pg s3 k = pg s k" using v k ms by auto
      then show ?thesis using freshD [OF fr [OF k]] by auto
    qed
    have "\<exists>s5. free_run A req l ?ms s4 = Inr s5 \<and> mem_ok (venv A) view avail s5 \<and>
          all_or_nothing A view avail ob i req c attr s None s5"
      if s4: "pg s4 = pg s3" "vmd s4 = vmd s3" "objs s4 = objs s3" "phys s4 = phys s3"
        "vm_cnt s4 v_wire_count = vm_cnt s v_wire_count" for s4
    proof -
      have ok4: "mem_ok (venv A) view avail s4" by (rule mem_ok_same [OF ok3 s4(1-4)])
      have "set ?ms \<inter> avail (phys s4) = {}" using F(2) by (auto simp: s4 sel)
      then obtain s5 where s5: "free_run A req l ?ms s4 = Inr s5" "mem_ok (venv A) view avail s5"
          "avail (phys s5) = avail (phys s4) \<union> set ?ms" "\<forall>k. k \<notin> set ?ms \<longrightarrow> pg s5 k = pg s4 k"
          "vm_cnt s5 v_wire_count = vm_cnt s4 v_wire_count"
        using free_run_ok [OF laws al ok4 distinct_upt, of m "m + cr_npages c" l req] pages unfolding s4(1) by blast
      have av: "avail (phys s5) = avail (phys s)" using s5(3) F(1,2) by (auto simp: s4 sel)
      have oth: "pg s5 k = pg s k" if "k \<notin> set ?ms" for k using s5(4) that sel(2) by (simp add: s4)
      have "object (pg s5 k) = object (pg s k)" for k
      proof (cases "k \<in> set ?ms")
        case True
        then have "k \<in> avail (phys s)" using F(1) by auto
        then show ?thesis using freshD(1) [OF mem_okD(3) [OF ok]] freshD(1) [OF mem_okD(3) [OF s5(2)]] av by simp
      qed (use oth in simp)
      moreover have "object (pg s k) \<noteq> None \<Longrightarrow> pindex (pg s5 k) = pindex (pg s k)" for k
        using oth [of k] freshD(1) [OF fr [of k]] by metis
      ultimately have "view (rtree (objs s5 b)) = view (rtree (objs s b))" for b
        by (rule view_same [OF mem_okD(2) [OF ok] mem_okD(2) [OF s5(2)]])
      moreover have "pg s5 k = pg s k" if "k \<notin> avail (phys s)" for k
        by (rule oth) (use that F(1) in auto)
      ultimately have "all_or_nothing A view avail ob i req c attr s None s5"
        using av s5(5) s4(5) by (simp add: all_or_nothing_def lk)
      then show ?thesis using s5(1,2) by blast
    qed
    then show ?thesis using ol by (simp add: Some)
  qed
qed

text \<open>
  C7: A request for contiguous pages that the free count allows is met as a whole or not at all:
  it gets a run of free pages, each with what was asked for and found at its own, consecutive index,
  or, when there is no run or the trie runs out of memory at any page of it, every page goes back,
  every lookup is as before and the count of wired pages too. Memory stays in order either way.
\<close>

theorem contig_all_or_nothing:
  assumes laws: "radix_laws (venv A) view" and al: "alloc_laws A avail" and ok: "mem_ok (venv A) view avail (sys a)"
    and rl: "resv_law A resv" "resv (phys (sys a)) \<le> n"
    and req: "req_consistent ob req" "\<forall>b\<in>set_option ob. OBJ_FICTITIOUS \<notin> obj_flags A b" "0 < cr_npages c"
    and may: "may_alloc_contig A (alloc_class A req) (cr_npages c) a"
    and free: "\<forall>b\<in>set_option ob. \<forall>j<cr_npages c. view (rtree (objs (sys a) b)) (i + j) = None"
  shows "\<exists>r a' slept. vm_page_alloc_contig (Suc n) A ob i req c attr a = Inr (r, if slept then asleep A a' else a') \<and>
    (slept \<longrightarrow> r = None \<and> req AND VM_ALLOC_WAITFAIL \<noteq> 0) \<and> mem_ok (venv A) view avail (sys a') \<and>
    all_or_nothing A view avail ob i req c attr (sys a) r (sys a')"
proof -
  let ?ms = "\<lambda>m. [m..<m + cr_npages c]"
  have "\<forall>b\<in>set_option ob. view (rtree (objs (sys a) b)) i = None" using free req(3) by fastforce
  then have below: "\<forall>p\<in>set_option (found_pred A ob i (sys a)). pindex (pg (sys a) p) < i"
    by (rule found_pred_below [OF laws mem_okD(2) [OF ok]])
  have mp: "(case ob of Some b \<Rightarrow> vm_radix_lookup_le (venv A) (rtree (objs (sys a) b)) i | None \<Rightarrow> None) = found_pred A ob i (sys a)"
    by (simp add: found_pred_def)
  have np: "\<not> (\<not> req_consistent ob req \<or> (\<exists>b\<in>set_option ob. OBJ_FICTITIOUS \<in> obj_flags A b) \<or> cr_npages c = 0 \<or>
      (\<exists>p\<in>set_option (found_pred A ob i (sys a)). pindex (pg (sys a) p) = i))"
    using req below by auto
  obtain r0 p where cp: "contig_pages (Suc n) A ob i (found_pred A ob i (sys a)) c (phys (sys a)) = Inr (r0, p)"
    using contig_pages_ends [OF rl(1), of "phys (sys a)" "Suc n"] rl(2) by fastforce
  note g = contig_pages_gives [OF al cp]
  define a1 where "a1 = upd_sys (\<lambda>s. s\<lparr>phys := p\<rparr>) a"
  have f: "find_contig (Suc n) A ob i req (found_pred A ob i (sys a)) c a = Inr (r0, a1)"
    unfolding find_contig.simps using may cp by (simp add: a1_def del: contig_pages.simps)
  note e = vm_page_alloc_contig_def [of "Suc n" A ob i req c attr a, unfolded mp Let_def if_not_P [OF np] f and_then_Inr prod.case]
  show ?thesis
  proof (cases r0)
    case None
    have av: "avail (phys (sys a1)) = avail (phys (sys a))" "v_free_count (venv A) (phys (sys a1)) = v_free_count (venv A) (phys (sys a))"
      using g None by (simp_all add: gives_def a1_def)
    have s1: "pg (sys a1) = pg (sys a)" "vmd (sys a1) = vmd (sys a)" "objs (sys a1) = objs (sys a)" "vm_cnt (sys a1) = vm_cnt (sys a)"
      by (simp_all add: a1_def)
    have "mem_ok (venv A) view avail (sys a1)"
    proof (rule mem_okI)
      show "queues_ok (venv A) (sys a1)" by (rule queues_ok_cong [OF _ _ mem_okD(1) [OF ok]]) (simp_all add: s1)
      show "objs_ok view (sys a1)" by (rule objs_ok_cong [OF _ _ mem_okD(2) [OF ok]]) (simp_all add: s1)
    qed (use mem_okD(3-5) [OF ok] in \<open>simp_all add: av s1\<close>)
    moreover have "all_or_nothing A view avail ob i req c attr (sys a) None (sys a1)"
      by (simp add: all_or_nothing_def av s1 vm_page_lookup_def)
    moreover have "vm_page_alloc_contig (Suc n) A ob i req c attr a = Inr (None, a1)" using e None by simp
    ultimately show ?thesis by (intro exI [of _ None] exI [of _ a1] exI [of _ False]) simp
  next
    case (Some m)
    define s2 where "s2 = take_off_run A m (cr_npages c) ((sys a)\<lparr>phys := p\<rparr>)"
    define a2 where "a2 = upd_sys (take_off_run A m (cr_npages c)) a1"
    have a2: "sys a2 = s2" by (simp add: a2_def s2_def a1_def)
    have g': "gives avail (v_free_count (venv A)) (cr_npages c) (phys (sys a)) (Some m, p)" using g Some by simp
    note F = contig_found [OF laws al ok free g' s2_def]
    obtain r s3 where ir: "insert_run A ob req (contig_attr A ob attr) (?ms m) i (found_pred A ob i (sys a))
        (wire_cnt req (int (cr_npages c)) s2) = (r, s3)" by fastforce
    note R = contig_run_ok [OF laws al ok free g' s2_def ir]
    have chk: "\<not> \<not> (\<forall>k\<in>set (?ms m). vm_page_alloc_check (pg s2 k))" using F(6) by simp
    note e2 = e [unfolded Some option.case contig_attr_def [symmetric] a2_def [symmetric] a2 ir prod.case, unfolded if_not_P [OF chk]]
    show ?thesis
    proof (cases r)
      case None
      define a' where "a' = wake_if_needed A (free_pages_left A (a2\<lparr>sys := s3\<rparr>)) (a2\<lparr>sys := s3\<rparr>)"
      have s': "pg (sys a') = pg s3" "objs (sys a') = objs s3" "phys (sys a') = phys s3" "vm_cnt (sys a') = vm_cnt s3"
        by (simp_all add: a'_def)
      have "vm_page_alloc_contig (Suc n) A ob i req c attr a = Inr (Some m, a')" using e2 None by (simp add: a'_def)
      moreover have "mem_ok (venv A) view avail (sys a')" using R None by (simp add: a'_def)
      moreover have "all_or_nothing A view avail ob i req c attr (sys a) (Some m) (sys a')"
        using R None by (simp add: all_or_nothing_def s' vm_page_lookup_def)
      ultimately show ?thesis by (intro exI [of _ "Some m"] exI [of _ a'] exI [of _ False]) simp
    next
      case (Some l)
      define a3 where "a3 = upd_sys (wire_cnt req (- int (cr_npages c))) (daemon_wakeup A (a2\<lparr>sys := s3\<rparr>))"
      have c3: "vm_cnt s3 v_wire_count = vm_cnt (sys a) v_wire_count +
          (if req AND VM_ALLOC_WIRED \<noteq> 0 then word_of_int (int (cr_npages c)) else 0)"
      proof -
        have "vm_cnt s3 = vm_cnt (wire_cnt req (int (cr_npages c)) s2)"
          using insert_run_ok [OF laws F(7) [of req] distinct_upt, of req "contig_attr A ob attr"] ir by (auto simp: run_result_def)
        then show ?thesis using F(5) by simp
      qed
      have s3': "pg (sys a3) = pg s3" "vmd (sys a3) = vmd s3" "objs (sys a3) = objs s3" "phys (sys a3) = phys s3"
        "vm_cnt (sys a3) v_wire_count = vm_cnt (sys a) v_wire_count"
        using c3 by (simp_all add: a3_def)
      obtain s5 where s5: "free_run A req l (?ms m) (sys a3) = Inr s5" "mem_ok (venv A) view avail s5"
          "all_or_nothing A view avail ob i req c attr (sys a) None s5"
        using R s3' by (auto simp: Some)
      have "object (pg (sys a3) l) = None" using R by (simp add: Some s3')
      then have "vm_page_alloc_contig (Suc n) A ob i req c attr a =
          Inr (None, if req AND VM_ALLOC_WAITFAIL \<noteq> 0 then asleep A (a3\<lparr>sys := s5\<rparr>) else a3\<lparr>sys := s5\<rparr>)"
        using e2 unfolding Some option.case a3_def [symmetric] s5(1) and_then_Inr by simp
      then show ?thesis
        using s5(2,3) by (intro exI [of _ None] exI [of _ "a3\<lparr>sys := s5\<rparr>"] exI [of _ "req AND VM_ALLOC_WAITFAIL \<noteq> 0"]) simp
    qed
  qed
qed

definition contig1 :: contig_req where
  "contig1 = \<lparr>cr_npages = 2, cr_low = 0, cr_high = 100, cr_alignment = 1, cr_boundary = 0\<rparr>"

lemma alloc_env1_resv: "resv_law alloc_env1 (\<lambda>p. 0)"
  by (simp add: resv_law_def alloc_env1_def)

theorem contig_all_or_nothing_witness:
  "\<exists>r a'. vm_page_alloc_contig 1 alloc_env1 (Some 0) 9 VM_ALLOC_WIRED contig1 VM_MEMATTR_DEFAULT mem1 = Inr (r, a') \<and>
    mem_ok (venv alloc_env1) map_of avail1 (sys a')"
proof -
  have may: "may_alloc_contig alloc_env1 (alloc_class alloc_env1 VM_ALLOC_WIRED) (cr_npages contig1) mem1"
    by (simp add: may_alloc_contig_def free_pages_left_def mem1_def alloc_env1_def env1_def contig1_def)
  have c: "\<forall>b\<in>set_option (Some 0). OBJ_FICTITIOUS \<notin> obj_flags alloc_env1 b" "0 < cr_npages contig1"
    "\<forall>b\<in>set_option (Some 0). \<forall>j<cr_npages contig1. map_of (rtree (objs (sys mem1) b)) (9 + j) = None"
    by (simp_all add: alloc_env1_def contig1_def mem1_def)
  have s: "(if b then asleep alloc_env1 x else x) = x" for b x by (simp add: alloc_env1_def)
  show ?thesis
    using contig_all_or_nothing [where attr = VM_MEMATTR_DEFAULT and i = 9 and n = 0, OF env1_laws alloc_env1_laws mem1_ok
        alloc_env1_resv le0 mem1_requests(1) c(1,2) may c(3), unfolded s] by (metis One_nat_def)
qed

section \<open>The reserves\<close>

lemma find_freelist_reserve:
  assumes al: "alloc_laws A avail"
  shows "find_freelist_page n A l req a = Inr (Some m, a1) \<Longrightarrow>
    reserve A (alloc_class A req) \<le> free_pages_left A (upd_sys (take_off A m) a1)"
proof (induction n arbitrary: a)
  case (Suc n)
  show ?case
  proof (cases "may_alloc A (alloc_class A req) a")
    case True
    then obtain p where p: "vm_phys_alloc_freelist_pages A l VM_FREEPOOL_DIRECT 0 (phys (sys a)) = (Some m, p)"
        "a1 = upd_sys (\<lambda>s. s\<lparr>phys := p\<rparr>) a"
      using Suc.prems by (auto split: prod.splits)
    have "reserve A (alloc_class A req) + 1 \<le> v_free_count (venv A) (phys (sys a))"
      using may_alloc_reserve [OF True] by (simp add: free_pages_left_def)
    then show ?thesis
      using gives_count [OF al alloc_lawsD(2) [OF al, of "phys (sys a)" l VM_FREEPOOL_DIRECT, unfolded p(1)]]
      by (simp add: free_pages_left_def p(2))
  next
    case False
    then show ?thesis using Suc by (auto split: if_splits)
  qed
qed simp

lemma find_contig_reserve:
  assumes al: "alloc_laws A avail"
  shows "find_contig n A ob i req mp c a = Inr (Some m, a1) \<Longrightarrow>
    reserve A (alloc_class A req) \<le> free_pages_left A (upd_sys (take_off_run A m (cr_npages c)) a1)"
proof (induction n arbitrary: a)
  case (Suc n)
  show ?case
  proof (cases "may_alloc_contig A (alloc_class A req) (cr_npages c) a")
    case True
    then obtain p where p: "contig_pages (Suc n) A ob i mp c (phys (sys a)) = Inr (Some m, p)"
        "a1 = upd_sys (\<lambda>s. s\<lparr>phys := p\<rparr>) a"
      using Suc.prems by (auto simp del: contig_pages.simps)
    have "reserve A (alloc_class A req) + cr_npages c \<le> v_free_count (venv A) (phys (sys a))"
      using may_alloc_contig_reserve [OF True] by (simp add: free_pages_left_def)
    then show ?thesis
      using gives_count [OF al contig_pages_gives [OF al p(1)]] by (simp add: free_pages_left_def p(2) take_off_run_def)
  next
    case False
    then show ?thesis using Suc by (auto split: if_splits)
  qed
qed simp

lemma insert_run_phys: "insert_run A ob req attr ms i mp s = (r, s') \<Longrightarrow> phys s' = phys s"
proof (induction ms arbitrary: i mp s ob attr)
  case (Cons m ms)
  show ?case
  proof (cases ob)
    case None
    then show ?thesis using Cons.prems by (auto simp: Let_def dest!: Cons.IH split: if_splits)
  next
    case (Some b)
    obtain f s2 where i: "vm_page_insert_after (venv A) m b i mp (upd_page m (init_contig_page A ob req) s) = (f, s2)" by fastforce
    have "phys s2 = phys s" using insert_after_phys(1) [of "venv A" m b i mp "upd_page m (init_contig_page A ob req) s"] i by simp
    then show ?thesis using Cons.prems i Some by (cases f) (auto simp: Let_def dest!: Cons.IH split: if_splits)
  qed
qed simp

text \<open>
  C26: No allocation digs into the reserve of the classes above its own: whatever routine found the
  page or the run, and however often it slept before, an ordinary request leaves \<open>v_free_reserved\<close>
  pages, a system request or one of the page daemon \<open>v_interrupt_free_min\<close>, if that is less.
\<close>

theorem alloc_leaves_reserve:
  assumes al: "alloc_laws A avail"
  shows "(vm_page_alloc n A ob i req a = Inr (Some m, a') \<longrightarrow> reserve A (alloc_class A req) \<le> free_pages_left A a') \<and>
    (vm_page_alloc_freelist n A l req a = Inr (Some m, a') \<longrightarrow> reserve A (alloc_class A req) \<le> free_pages_left A a') \<and>
    (vm_page_alloc_contig n A ob i req c attr a = Inr (Some m, a') \<longrightarrow> reserve A (alloc_class A req) \<le> free_pages_left A a')"
proof (intro conjI impI)
  let ?r = "reserve A (alloc_class A req)"
  have left: "phys (sys x) = phys (sys y) \<Longrightarrow> free_pages_left A x = free_pages_left A y" for x y
    by (simp add: free_pages_left_def)
  show "?r \<le> free_pages_left A a'" if e: "vm_page_alloc n A ob i req a = Inr (Some m, a')"
  proof -
    obtain a1 where f: "find_page n A ob i req (found_pred A ob i (sys a)) a = Inr (Some m, a1)"
      and "phys (sys a') = phys (sys (upd_sys (take_off A m) a1))"
      using e unfolding alloc_after_found vm_page_alloc_after_def Let_def
      by (auto split: if_splits option.splits prod.splits bool.splits dest!: insert_after_phys')
    then show ?thesis using find_page_reserve [OF al f] left by metis
  qed
  show "?r \<le> free_pages_left A a'" if e: "vm_page_alloc_freelist n A l req a = Inr (Some m, a')"
  proof -
    obtain a1 where f: "find_freelist_page n A l req a = Inr (Some m, a1)"
      and "phys (sys a') = phys (sys (upd_sys (take_off A m) a1))"
      using e unfolding vm_page_alloc_freelist_def Let_def by (auto split: if_splits option.splits)
    then show ?thesis using find_freelist_reserve [OF al f] left by metis
  qed
  show "?r \<le> free_pages_left A a'" if e: "vm_page_alloc_contig n A ob i req c attr a = Inr (Some m, a')"
  proof -
    obtain mp a1 where f: "find_contig n A ob i req mp c a = Inr (Some m, a1)"
      and "phys (sys a') = phys (sys (upd_sys (take_off_run A m (cr_npages c)) a1))"
      using e unfolding vm_page_alloc_contig_def Let_def
      by (auto split: if_splits option.splits prod.splits dest!: insert_run_phys)
    then show ?thesis using find_contig_reserve [OF al f] left by metis
  qed
qed

theorem alloc_leaves_reserve_witness:
  "\<exists>m a'. vm_page_alloc 1 alloc_env1 None 0 (VM_ALLOC_NOOBJ OR VM_ALLOC_WAITOK) mem1 = Inr (Some m, a') \<and>
    1 \<le> free_pages_left alloc_env1 a'"
proof -
  let ?req = "VM_ALLOC_NOOBJ OR VM_ALLOC_WAITOK"
  have may: "may_alloc alloc_env1 (alloc_class alloc_env1 ?req) mem1"
    by (simp add: may_alloc_def free_pages_left_def mem1_def alloc_env1_def env1_def)
  have r: "reserve alloc_env1 (alloc_class alloc_env1 ?req) = 1"
    by (simp add: reserve_def alloc_class_def alloc_env1_def VM_ALLOC_CLASS_MASK_def VM_ALLOC_INTERRUPT_def
      VM_ALLOC_SYSTEM_def VM_ALLOC_NOOBJ_def VM_ALLOC_WAITOK_def)
  obtain m a' where e: "vm_page_alloc 1 alloc_env1 None 0 ?req mem1 = Inr (Some m, a')"
    using alloc_page_ok [OF env1_laws alloc_env1_laws mem1_ok mem1_requests(2,4) may, of 0 0] by auto
  then show ?thesis using alloc_leaves_reserve [OF alloc_env1_laws, of 1 None 0 ?req mem1 m a' 0 contig1 VM_MEMATTR_DEFAULT] r
    by auto
qed

end
