(* ===== verification/Vm_Contig_Scan.thy ===== *)
theory Vm_Contig_Scan
  imports Vm_Alloc
begin

text \<open>
  The search for a run of physical pages that are free or can be relocated
  (\<open>vm_page_scan_contig\<close> in \<open>src/asgn3/vm/vm_page.c\<close>). Addresses are 64-bit words; a page's place in
  the page array is its number. \<open>tryrlock\<close> says whether an object's lock is got at once, otherwise the
  page lock is dropped and \<open>meanwhile\<close> is what other threads do until the object is locked. One unit
  of fuel is one turn of a loop.
\<close>

unbundle bit_operations_syntax

datatype vpsc = VPSC_ANY | VPSC_NORESERV | VPSC_NOSUPER

record ('r, 'p) scan_env =
  VM_NFREEORDER :: nat
  obj_attr :: "oid \<Rightarrow> vm_memattr"
  vm_reserv_level :: "pid \<Rightarrow> 'p \<Rightarrow> int"
  vm_reserv_level_iffullpop :: "pid \<Rightarrow> 'p \<Rightarrow> int"
  vm_reserv_size :: "int \<Rightarrow> u64"
  tryrlock :: "oid \<Rightarrow> ('r, 'p) vm_sys \<Rightarrow> bool"
  meanwhile :: "oid \<Rightarrow> ('r, 'p) vm_sys \<Rightarrow> ('r, 'p) vm_sys"

section \<open>Address arithmetic of \<open>sys/param.h\<close>\<close>

definition powerof2 :: "u64 \<Rightarrow> bool" where "powerof2 x \<longleftrightarrow> (x - 1) AND x = 0"
definition roundup2 :: "u64 \<Rightarrow> u64 \<Rightarrow> u64" where "roundup2 x y = (x + (y - 1)) AND NOT (y - 1)"
definition rounddown2_pa :: "u64 \<Rightarrow> u64 \<Rightarrow> u64" where "rounddown2_pa x y = x AND NOT (y - 1)"
definition PAGE_SHIFT :: nat where "PAGE_SHIFT = 12"
definition atop :: "u64 \<Rightarrow> nat" where "atop x = unat (drop_bit PAGE_SHIFT x)"
definition ptoa :: "nat \<Rightarrow> u64" where "ptoa n = push_bit PAGE_SHIFT (of_nat n)"

definition VM_PAGE_TO_PHYS :: "('r, 'p) vm_sys \<Rightarrow> pid \<Rightarrow> u64" where
  "VM_PAGE_TO_PHYS s m = of_nat (phys_addr (pg s m))"

section \<open>By how much a page extends the run\<close>

text \<open>The extension and the advance to the next page.\<close>

definition to_end_of :: "('r, 'p) scan_env \<Rightarrow> ('r, 'p) vm_sys \<Rightarrow> pid \<Rightarrow> int \<Rightarrow> nat" where
  "to_end_of C s m level =
    (let pa = VM_PAGE_TO_PHYS s m in atop (roundup2 (pa + 1) (vm_reserv_size C level) - pa))"

definition object_ext :: "('r, 'p) scan_env \<Rightarrow> vpsc \<Rightarrow> pid \<Rightarrow> oid \<Rightarrow> ('r, 'p) vm_sys \<Rightarrow> nat \<times> nat" where
  "object_ext C options m ob s =
    (if otype (objs s ob) \<noteq> OBJT_DEFAULT \<and> otype (objs s ob) \<noteq> OBJT_SWAP \<and> otype (objs s ob) \<noteq> OBJT_VNODE then (0, 1)
     else if options = VPSC_NOSUPER \<and> vm_reserv_level_iffullpop C m (phys s) \<ge> 0
     then (0, to_end_of C s m (vm_reserv_level_iffullpop C m (phys s)))
     else if obj_attr C ob = VM_MEMATTR_DEFAULT \<and> queue (pg s m) \<noteq> PQ_NONE \<and> \<not> vm_page_busied (busy_lock (pg s m))
     then (1, 1) else (0, 1))"

fun page_ext ::
    "nat \<Rightarrow> ('r, 'p) scan_env \<Rightarrow> vpsc \<Rightarrow> pid \<Rightarrow> ('r, 'p) vm_sys \<Rightarrow> fault + ((nat \<times> nat) \<times> ('r, 'p) vm_sys)" where
  "page_ext 0 C options m s = Inl Diverges"
| "page_ext (Suc n) C options m s =
    (if wire_count (pg s m) \<noteq> 0 \<or> hold_count (pg s m) \<noteq> 0 then Inr ((0, 1), s)
     else (let level = vm_reserv_level C m (phys s) in
       if level \<ge> 0 \<and> options = VPSC_NORESERV then Inr ((0, to_end_of C s m level), s)
       else (case object (pg s m) of
           Some ob \<Rightarrow>
             if tryrlock C ob s then Inr (object_ext C options m ob s, s)
             else (let s1 = meanwhile C ob s in
               if object (pg s1 m) \<noteq> Some ob then page_ext n C options m s1
               else if wire_count (pg s1 m) \<noteq> 0 \<or> hold_count (pg s1 m) \<noteq> 0 then Inr ((0, 1), s1)
               else Inr (object_ext C options m ob s1, s1))
         | None \<Rightarrow>
             if level \<ge> 0 then Inr ((1, 1), s)
             else if order (pg s m) < VM_NFREEORDER C then Inr ((2 ^ order (pg s m), 2 ^ order (pg s m)), s)
             else Inr ((0, 1), s))))"

section \<open>The scan\<close>

record run_req =
  rr_npages :: nat
  rr_alignment :: u64
  rr_boundary :: u64

fun contig_loop ::
    "nat \<Rightarrow> ('r, 'p) scan_env \<Rightarrow> vpsc \<Rightarrow> run_req \<Rightarrow> pid \<Rightarrow> pid option \<Rightarrow> nat \<Rightarrow> pid \<Rightarrow> ('r, 'p) vm_sys
      \<Rightarrow> fault + (pid option \<times> nat \<times> ('r, 'p) vm_sys)" where
  "contig_loop 0 C options q m_end run run_len m s = Inl Diverges"
| "contig_loop (Suc n) C options q m_end run run_len m s =
    (if \<not> (m < m_end \<and> run_len < rr_npages q) then Inr (run, run_len, s)
     else (let pa = VM_PAGE_TO_PHYS s m in
       if run_len = 0 \<and> m + rr_npages q > m_end then Inr (run, run_len, s)
       else if run_len = 0 \<and> pa AND (rr_alignment q - 1) \<noteq> 0
       then contig_loop n C options q m_end run run_len (m + atop (roundup2 pa (rr_alignment q) - pa)) s
       else if run_len = 0 \<and> rounddown2_pa (pa XOR (pa + ptoa (rr_npages q) - 1)) (rr_boundary q) \<noteq> 0
       then contig_loop n C options q m_end run run_len (m + atop (roundup2 pa (rr_boundary q) - pa)) s
       else and_then (page_ext (Suc n) C options m s) (\<lambda>((run_ext, m_inc), s1).
         if run_ext > 0
         then contig_loop n C options q m_end (if run_len = 0 then Some m else run) (run_len + run_ext) (m + m_inc) s1
         else contig_loop n C options q m_end None 0 (m + m_inc) s1)))"

definition vm_page_scan_contig ::
    "nat \<Rightarrow> ('r, 'p) scan_env \<Rightarrow> run_req \<Rightarrow> pid \<Rightarrow> pid \<Rightarrow> vpsc \<Rightarrow> ('r, 'p) vm_sys
      \<Rightarrow> fault + (pid option \<times> ('r, 'p) vm_sys)" where
  "vm_page_scan_contig n C q m_start m_end options s =
    (if rr_npages q = 0 \<or> \<not> powerof2 (rr_alignment q) \<or> \<not> powerof2 (rr_boundary q) then Inl Kernel_panic
     else and_then (contig_loop n C options q m_end None 0 m_start s) (\<lambda>(run, run_len, s1).
       Inr (if run_len \<ge> rr_npages q then run else None, s1)))"

section \<open>Lemmas on addresses\<close>

lemma and_not_mask_0: "(x :: u64) AND NOT (2 ^ k - 1) = 0 \<longleftrightarrow> drop_bit k x = 0"
proof -
  have "drop_bit k (push_bit k (drop_bit k x)) = drop_bit k x"
    by (rule bit_eqI) (auto simp: bit_simps dest: bit_imp_le_length)
  then show ?thesis unfolding and_not_mask_eq by (metis drop_bit_of_0 push_bit_of_0)
qed

lemma xor_eq_0: "(x :: u64) XOR y = 0 \<longleftrightarrow> x = y"
proof
  assume "x XOR y = 0"
  then have "x XOR (x XOR y) = x" by simp
  then show "x = y" by (simp add: xor.assoc [symmetric])
qed simp

lemma crosses:
  fixes x y :: u64
  shows "rounddown2_pa (x XOR y) (2 ^ k) \<noteq> 0 \<longleftrightarrow> unat x div 2 ^ k \<noteq> unat y div 2 ^ k"
proof -
  have "drop_bit k (x XOR y) = drop_bit k x XOR drop_bit k y" by (rule bit_eqI) (simp add: bit_simps)
  then have "rounddown2_pa (x XOR y) (2 ^ k) = 0 \<longleftrightarrow> drop_bit k x = drop_bit k y"
    unfolding rounddown2_pa_def and_not_mask_0 by (simp add: xor_eq_0)
  also have "\<dots> \<longleftrightarrow> unat (drop_bit k x) = unat (drop_bit k y)" by (simp add: word_unat_eq_iff)
  finally show ?thesis by (simp add: unat_drop_bit_div)
qed

end
