(* ===== verification/Vm_Contig_Scan_Props.thy ===== *)
theory Vm_Contig_Scan_Props
  imports Vm_Contig_Scan Vm_Object_Props
begin

text \<open>
  Properties of the search for contiguous pages: the run it finds meets every constraint and holds
  only pages that are free or can be relocated, and when the search ends.
\<close>

section \<open>Rounding\<close>

lemma unat_2_pow: "k < 64 \<Longrightarrow> unat (2 ^ k :: u64) = 2 ^ k"
proof -
  assume k: "k < 64"
  then have "(2 :: nat) ^ k < 2 ^ LENGTH(64)" by (intro power_strict_increasing) auto
  then show ?thesis using unat_of_nat [of "2 ^ k", where 'a = 64] mod_less [of "2 ^ k"] by simp
qed

lemma u64_below: "unat (x :: u64) < 2 ^ 64"
  using unsigned_less [of x] by simp

lemma round_up_le: "0 < d \<Longrightarrow> x \<le> (x + (d - 1)) div d * (d :: nat)"
  using div_mult_mod_eq [of "x + (d - 1)" d] mod_less_divisor [of d "x + (d - 1)"] by linarith

lemma unat_clear_low: "unat ((x :: u64) AND NOT (2 ^ k - 1)) = unat x div 2 ^ k * 2 ^ k"
proof (cases "k < 64")
  case True
  have "unat x div 2 ^ k * 2 ^ k \<le> unat x" by simp
  also have "unat x < 2 ^ 64" by (rule u64_below)
  finally have lt: "unat (drop_bit k x) * unat (2 ^ k :: u64) < 2 ^ LENGTH(64)"
    by (simp add: unat_drop_bit_div unat_2_pow [OF True])
  have "x AND NOT (2 ^ k - 1) = drop_bit k x * 2 ^ k" by (simp add: and_not_mask_eq push_bit_eq_mult)
  then show ?thesis using iffD1 [OF unat_mult_lem lt] by (simp add: unat_drop_bit_div unat_2_pow [OF True])
next
  case False
  have "unat x < 2 ^ 64" by (rule u64_below)
  also have "(2 :: nat) ^ 64 \<le> 2 ^ k" using False by (intro power_increasing) auto
  finally have lt: "unat x < 2 ^ k" .
  then have "unat (drop_bit k x) = 0" by (simp add: unat_drop_bit_div)
  then have "x AND NOT (2 ^ k - 1) = 0" by (simp add: and_not_mask_eq unat_eq_0)
  then show ?thesis using lt by simp
qed

lemma unat_roundup2:
  assumes "k < 64" "unat x + 2 ^ k \<le> 2 ^ 64"
  shows "unat (roundup2 x (2 ^ k)) = (unat x + (2 ^ k - 1)) div 2 ^ k * 2 ^ k"
proof -
  have one: "unat (2 ^ k - 1 :: u64) = 2 ^ k - 1"
    using unat_minus_one [of "2 ^ k :: u64"] unat_2_pow [OF assms(1)] by fastforce
  have "unat x + unat (2 ^ k - 1 :: u64) < 2 ^ LENGTH(64)" unfolding one using assms(2) by simp
  then have "unat (x + (2 ^ k - 1)) = unat x + (2 ^ k - 1)" using iffD1 [OF unat_add_lem] one by metis
  then show ?thesis by (simp add: roundup2_def unat_clear_low)
qed

lemma low_bits_0: "(x :: u64) AND (2 ^ k - 1) = 0 \<longleftrightarrow> 2 ^ k dvd unat x"
proof -
  have "x AND (2 ^ k - 1) = take_bit k x" by (simp add: take_bit_eq_mask mask_eq_exp_minus_1)
  then have "x AND (2 ^ k - 1) = 0 \<longleftrightarrow> unat (take_bit k x) = 0" by (simp add: unat_eq_0)
  also have "unat (take_bit k x) = take_bit k (unat x)" by (simp add: unsigned_take_bit_eq)
  finally show ?thesis by (simp add: take_bit_eq_mod dvd_eq_mod_eq_0)
qed

text \<open>The advance to the next multiple is at least a page, unless the page is at one already.\<close>

lemma advance:
  assumes p: "4096 dvd unat x" "unat x < 2 ^ 62" and k: "k \<le> 61"
  shows "\<not> 2 ^ k dvd unat x \<Longrightarrow> 1 \<le> atop (roundup2 x (2 ^ k) - x)"
    and "2 ^ k dvd unat x \<Longrightarrow> atop (roundup2 x (2 ^ k) - x) = 0"
    and "12 \<le> k \<Longrightarrow> 1 \<le> atop (roundup2 (x + 1) (2 ^ k) - x)"
proof -
  have pk: "(2 :: nat) ^ k \<le> 2 ^ 61" using k by (intro power_increasing) auto
  have r: "unat (roundup2 x (2 ^ k)) = (unat x + (2 ^ k - 1)) div 2 ^ k * 2 ^ k"
    by (rule unat_roundup2) (use k pk p in simp_all)
  have at: "atop (y - x) = (unat y - unat x) div 4096" if "unat x \<le> unat y" for y
    using that by (simp add: atop_def PAGE_SHIFT_def unat_drop_bit_div unat_sub word_le_nat_alt)
  have up: "unat x \<le> (unat x + (2 ^ k - 1)) div 2 ^ k * 2 ^ k"
    by (rule round_up_le) simp
  have d12: "12 \<le> j \<Longrightarrow> (4096 :: nat) dvd n * 2 ^ j" for n j
    using le_imp_power_dvd [of 12 j "2 :: nat"] by (simp add: dvd_mult)
  show "1 \<le> atop (roundup2 x (2 ^ k) - x)" if nd: "\<not> 2 ^ k dvd unat x"
  proof -
    have "12 \<le> k"
    proof (rule ccontr)
      assume "\<not> 12 \<le> k"
      then have "(2 :: nat) ^ k dvd 2 ^ 12" by (intro le_imp_power_dvd) simp
      then show False using p(1) nd dvd_trans [of "2 ^ k" 4096 "unat x"] by simp
    qed
    then have "4096 dvd (unat x + (2 ^ k - 1)) div 2 ^ k * 2 ^ k - unat x"
      using d12 p(1) by (intro dvd_diff_nat) auto
    moreover have "(unat x + (2 ^ k - 1)) div 2 ^ k * 2 ^ k \<noteq> unat x" using nd by (metis dvd_triv_right)
    then have "0 < (unat x + (2 ^ k - 1)) div 2 ^ k * 2 ^ k - unat x" using up by linarith
    ultimately have "4096 \<le> (unat x + (2 ^ k - 1)) div 2 ^ k * 2 ^ k - unat x" by (intro dvd_imp_le)
    then show ?thesis using up at [of "roundup2 x (2 ^ k)"] unfolding r by simp
  qed
  show "atop (roundup2 x (2 ^ k) - x) = 0" if d: "2 ^ k dvd unat x"
  proof -
    obtain c where c: "unat x = c * 2 ^ k" using d by (metis dvd_def mult.commute)
    have "(c * d + (d - 1)) div d = c" if "0 < d" for d :: nat
      using that by (subst div_mult_self3) simp_all
    from this [of "2 ^ k"] have "(c * 2 ^ k + (2 ^ k - 1)) div 2 ^ k = c" by (simp only: zero_less_power zero_less_numeral)
    then have "unat (roundup2 x (2 ^ k)) = unat x" using r by (simp add: c)
    then show ?thesis using at [of "roundup2 x (2 ^ k)"] by simp
  qed
  show "1 \<le> atop (roundup2 (x + 1) (2 ^ k) - x)" if "12 \<le> k"
  proof -
    have x1: "unat (x + 1) = unat x + 1" using p(2) by (simp add: unat_add_lem [THEN iffD1])
    have r1: "unat (roundup2 (x + 1) (2 ^ k)) = (unat x + 1 + (2 ^ k - 1)) div 2 ^ k * 2 ^ k"
      using unat_roundup2 [of k "x + 1"] k pk p(2) by (simp add: x1)
    have "unat x + 1 \<le> (unat x + 1 + (2 ^ k - 1)) div 2 ^ k * 2 ^ k"
      by (rule round_up_le) simp
    moreover have "4096 dvd (unat x + 1 + (2 ^ k - 1)) div 2 ^ k * 2 ^ k - unat x"
      using d12 [OF that] p(1) by (intro dvd_diff_nat) auto
    ultimately have "4096 \<le> (unat x + 1 + (2 ^ k - 1)) div 2 ^ k * 2 ^ k - unat x"
      by (intro dvd_imp_le) auto
    then show ?thesis using at [of "roundup2 (x + 1) (2 ^ k)"] unfolding r1 by simp
  qed
qed

section \<open>What the scan relies on\<close>

text \<open>
  Powers of two for alignment, boundary and sizes of reservations, pages without a hole between
  them, addresses below \<open>2 ^ 62\<close>; \<open>undisturbed\<close> says that every lock is got at once.
\<close>

definition geometry ::
    "('r, 'p) scan_env \<Rightarrow> run_req \<Rightarrow> pid \<Rightarrow> pid \<Rightarrow> ('r, 'p) vm_sys \<Rightarrow> nat \<Rightarrow> nat \<Rightarrow> bool" where
  "geometry C q m_start m_end s al bo \<longleftrightarrow>
    0 < rr_npages q \<and> rr_alignment q = 2 ^ al \<and> al \<le> 61 \<and> (rr_boundary q = 0 \<or> rr_boundary q = 2 ^ bo) \<and> bo \<le> 61 \<and>
    (\<forall>k. m_start \<le> k \<and> k < m_end \<longrightarrow> phys_addr (pg s k) = phys_addr (pg s m_start) + 4096 * (k - m_start)) \<and>
    4096 dvd phys_addr (pg s m_start) \<and> phys_addr (pg s m_start) + 4096 * (m_end - m_start) < 2 ^ 62 \<and>
    (\<forall>level. \<exists>r. 12 \<le> r \<and> r \<le> 61 \<and> vm_reserv_size C level = 2 ^ r)"

definition undisturbed :: "('r, 'p) scan_env \<Rightarrow> bool" where
  "undisturbed C \<longleftrightarrow> (\<forall>ob s. tryrlock C ob s)"

lemma geometryD:
  assumes "geometry C q m_start m_end s al bo"
  shows "0 < rr_npages q" "rr_alignment q = 2 ^ al" "al \<le> 61" "rr_boundary q = 0 \<or> rr_boundary q = 2 ^ bo" "bo \<le> 61"
    "m_start \<le> k \<Longrightarrow> k < m_end \<Longrightarrow> phys_addr (pg s k) = phys_addr (pg s m_start) + 4096 * (k - m_start)"
    "4096 dvd phys_addr (pg s m_start)" "phys_addr (pg s m_start) + 4096 * (m_end - m_start) < 2 ^ 62"
    "\<exists>r. 12 \<le> r \<and> r \<le> 61 \<and> vm_reserv_size C level = 2 ^ r"
  using assms unfolding geometry_def by blast+

lemma page_address:
  assumes g: "geometry C q m_start m_end s al bo" and m: "m_start \<le> m" "m < m_end"
  shows "unat (VM_PAGE_TO_PHYS s m) = phys_addr (pg s m)" "4096 dvd phys_addr (pg s m)" "phys_addr (pg s m) < 2 ^ 62"
    "phys_addr (pg s m) + 4096 * (m_end - m) < 2 ^ 62"
proof -
  have e: "phys_addr (pg s m) = phys_addr (pg s m_start) + 4096 * (m - m_start)" by (rule geometryD(6) [OF g m])
  have top: "phys_addr (pg s m_start) + 4096 * (m_end - m_start) < 2 ^ 62" by (rule geometryD(8) [OF g])
  have "4096 * (m_end - m_start) = 4096 * (m - m_start) + 4096 * (m_end - m)" using m by simp
  then show b: "phys_addr (pg s m) + 4096 * (m_end - m) < 2 ^ 62" using top e by simp
  then show lt: "phys_addr (pg s m) < 2 ^ 62" by simp
  show "4096 dvd phys_addr (pg s m)" using geometryD(7) [OF g] e by simp
  have "phys_addr (pg s m) < 2 ^ LENGTH(64)" using lt by (rule less_trans) simp
  then show "unat (VM_PAGE_TO_PHYS s m) = phys_addr (pg s m)"
    unfolding VM_PAGE_TO_PHYS_def unat_of_nat by (rule mod_less)
qed

section \<open>One page\<close>

text \<open>A page the run may hold, by itself or as part of a block of free pages.\<close>

definition takeable :: "('r, 'p) scan_env \<Rightarrow> vpsc \<Rightarrow> ('r, 'p) vm_sys \<Rightarrow> pid \<Rightarrow> bool" where
  "takeable C options s k \<longleftrightarrow> wire_count (pg s k) = 0 \<and> hold_count (pg s k) = 0 \<and>
    (options = VPSC_NORESERV \<longrightarrow> vm_reserv_level C k (phys s) < 0) \<and>
    (case object (pg s k) of
       Some ob \<Rightarrow> otype (objs s ob) \<in> {OBJT_DEFAULT, OBJT_SWAP, OBJT_VNODE} \<and> obj_attr C ob = VM_MEMATTR_DEFAULT \<and>
         queue (pg s k) \<noteq> PQ_NONE \<and> \<not> vm_page_busied (busy_lock (pg s k)) \<and>
         (options = VPSC_NOSUPER \<longrightarrow> vm_reserv_level_iffullpop C k (phys s) < 0)
     | None \<Rightarrow> vm_reserv_level C k (phys s) \<ge> 0)"

definition in_free_block :: "('r, 'p) scan_env \<Rightarrow> ('r, 'p) vm_sys \<Rightarrow> pid \<Rightarrow> bool" where
  "in_free_block C s k \<longleftrightarrow> (\<exists>j\<le>k. k < j + 2 ^ order (pg s j) \<and> object (pg s j) = None \<and> order (pg s j) < VM_NFREEORDER C \<and>
    wire_count (pg s j) = 0 \<and> hold_count (pg s j) = 0)"

definition ext :: "('r, 'p) scan_env \<Rightarrow> vpsc \<Rightarrow> pid \<Rightarrow> ('r, 'p) vm_sys \<Rightarrow> nat \<times> nat" where
  "ext C options m s =
    (if wire_count (pg s m) \<noteq> 0 \<or> hold_count (pg s m) \<noteq> 0 then (0, 1)
     else if vm_reserv_level C m (phys s) \<ge> 0 \<and> options = VPSC_NORESERV
     then (0, to_end_of C s m (vm_reserv_level C m (phys s)))
     else (case object (pg s m) of
         Some ob \<Rightarrow> object_ext C options m ob s
       | None \<Rightarrow> if vm_reserv_level C m (phys s) \<ge> 0 then (1, 1)
           else if order (pg s m) < VM_NFREEORDER C then (2 ^ order (pg s m), 2 ^ order (pg s m)) else (0, 1)))"

lemma page_ext_undisturbed: "undisturbed C \<Longrightarrow> page_ext (Suc n) C options m s = Inr (ext C options m s, s)"
  by (simp add: undisturbed_def ext_def Let_def split: option.split)

lemma ext_usable:
  assumes "0 < fst (ext C options m s)"
  shows "snd (ext C options m s) = fst (ext C options m s)"
    and "m \<le> k \<Longrightarrow> k < m + fst (ext C options m s) \<Longrightarrow> takeable C options s k \<or> in_free_block C s k"
proof -
  show "snd (ext C options m s) = fst (ext C options m s)"
    using assms by (auto simp: ext_def object_ext_def split: if_splits option.splits)
  assume k: "m \<le> k" "k < m + fst (ext C options m s)"
  show "takeable C options s k \<or> in_free_block C s k"
  proof (cases "object (pg s m)")
    case (Some ob)
    then have "k = m" using k by (auto simp: ext_def object_ext_def split: if_splits)
    then show ?thesis
      using assms Some by (auto simp: ext_def object_ext_def takeable_def split: if_splits)
  next
    case None
    show ?thesis
    proof (cases "vm_reserv_level C m (phys s) \<ge> 0")
      case True
      then have "k = m" using k None assms by (auto simp: ext_def split: if_splits)
      then show ?thesis using assms None True by (auto simp: ext_def takeable_def split: if_splits)
    next
      case False
      then have "in_free_block C s k"
        using k None assms unfolding in_free_block_def by (intro exI [of _ m]) (auto simp: ext_def split: if_splits)
      then show ?thesis ..
    qed
  qed
qed

lemma ext_advance:
  assumes g: "geometry C q m_start m_end s al bo" and m: "m_start \<le> m" "m < m_end"
  shows "1 \<le> snd (ext C options m s)"
proof -
  have "1 \<le> to_end_of C s m level" for level
  proof -
    obtain r where r: "12 \<le> r" "r \<le> 61" "vm_reserv_size C level = 2 ^ r" using geometryD(9) [OF g] by blast
    show ?thesis
      using advance(3) [of "VM_PAGE_TO_PHYS s m" r] page_address [OF g m] r by (simp add: to_end_of_def Let_def)
  qed
  then show ?thesis by (auto simp: ext_def object_ext_def split: option.split)
qed

section \<open>The run\<close>

definition start_ok :: "run_req \<Rightarrow> pid \<Rightarrow> pid \<Rightarrow> ('r, 'p) vm_sys \<Rightarrow> nat \<Rightarrow> nat \<Rightarrow> pid \<Rightarrow> bool" where
  "start_ok q m_start m_end s al bo r \<longleftrightarrow> m_start \<le> r \<and> r + rr_npages q \<le> m_end \<and> 2 ^ al dvd phys_addr (pg s r) \<and>
    (rr_boundary q = 0 \<or>
     phys_addr (pg s r) div 2 ^ bo = (phys_addr (pg s r) + 4096 * rr_npages q - 1) div 2 ^ bo)"

lemma last_byte:
  assumes g: "geometry C q m_start m_end s al bo" and m: "m_start \<le> m" "m + rr_npages q \<le> m_end"
  shows "unat (VM_PAGE_TO_PHYS s m + ptoa (rr_npages q) - 1) = phys_addr (pg s m) + 4096 * rr_npages q - 1"
proof -
  have n: "0 < rr_npages q" by (rule geometryD(1) [OF g])
  then have lt: "m < m_end" using m by simp
  note A = page_address [OF g m(1) lt]
  have "4096 * rr_npages q \<le> 4096 * (m_end - m)" using m(2) by simp
  then have b: "phys_addr (pg s m) + 4096 * rr_npages q < 2 ^ 62" using A(4) by linarith
  have "ptoa (rr_npages q) = of_nat (4096 * rr_npages q)" by (simp add: ptoa_def PAGE_SHIFT_def push_bit_eq_mult)
  then have "VM_PAGE_TO_PHYS s m + ptoa (rr_npages q) - 1 = of_nat (phys_addr (pg s m) + 4096 * rr_npages q - 1)"
    using n by (simp add: VM_PAGE_TO_PHYS_def of_nat_diff)
  moreover have "phys_addr (pg s m) + 4096 * rr_npages q - 1 < 2 ^ LENGTH(64)" using b by simp
  ultimately show ?thesis unfolding unat_of_nat by (metis mod_less unat_of_nat)
qed

lemma start_checks:
  assumes g: "geometry C q m_start m_end s al bo" and m: "m_start \<le> m" "m + rr_npages q \<le> m_end"
  shows "VM_PAGE_TO_PHYS s m AND (rr_alignment q - 1) \<noteq> 0 \<longleftrightarrow> \<not> 2 ^ al dvd phys_addr (pg s m)"
    and "rounddown2_pa (VM_PAGE_TO_PHYS s m XOR (VM_PAGE_TO_PHYS s m + ptoa (rr_npages q) - 1)) (rr_boundary q) \<noteq> 0 \<longleftrightarrow>
      rr_boundary q \<noteq> 0 \<and> phys_addr (pg s m) div 2 ^ bo \<noteq> (phys_addr (pg s m) + 4096 * rr_npages q - 1) div 2 ^ bo"
proof -
  have lt: "m < m_end" using geometryD(1) [OF g] m by simp
  note A = page_address [OF g m(1) lt]
  show "VM_PAGE_TO_PHYS s m AND (rr_alignment q - 1) \<noteq> 0 \<longleftrightarrow> \<not> 2 ^ al dvd phys_addr (pg s m)"
    using geometryD(2) [OF g] A(1) by (simp add: low_bits_0)
  have z: "rounddown2_pa x 0 = 0" for x by (simp add: rounddown2_pa_def)
  show "rounddown2_pa (VM_PAGE_TO_PHYS s m XOR (VM_PAGE_TO_PHYS s m + ptoa (rr_npages q) - 1)) (rr_boundary q) \<noteq> 0 \<longleftrightarrow>
      rr_boundary q \<noteq> 0 \<and> phys_addr (pg s m) div 2 ^ bo \<noteq> (phys_addr (pg s m) + 4096 * rr_npages q - 1) div 2 ^ bo"
  proof (cases "rr_boundary q = 0")
    case False
    then have b: "rr_boundary q = 2 ^ bo" using geometryD(4) [OF g] by simp
    show ?thesis using False unfolding b crosses A(1) last_byte [OF g m] by simp
  qed (simp add: z)
qed

definition run_at ::
    "('r, 'p) scan_env \<Rightarrow> vpsc \<Rightarrow> run_req \<Rightarrow> pid \<Rightarrow> pid \<Rightarrow> ('r, 'p) vm_sys \<Rightarrow> nat \<Rightarrow> nat \<Rightarrow> pid option \<Rightarrow> nat \<Rightarrow> bool" where
  "run_at C options q m_start m_end s al bo run len \<longleftrightarrow>
    (if len = 0 then run = None
     else \<exists>r. run = Some r \<and> start_ok q m_start m_end s al bo r \<and>
       (\<forall>k. r \<le> k \<and> k < r + len \<longrightarrow> takeable C options s k \<or> in_free_block C s k))"

text \<open>One turn: the loop stops, or goes on at a later page with a run that is still good.\<close>

lemma contig_turn:
  assumes g: "geometry C q m_start m_end s al bo" and u: "undisturbed C" and m: "m_start \<le> m"
    and R: "run_at C options q m_start m_end s al bo run len" "len \<noteq> 0 \<longrightarrow> run = Some (m - len) \<and> m_start + len \<le> m"
  shows "contig_loop (Suc n) C options q m_end run len m s = Inr (run, len, s) \<or>
    (m < m_end \<and> (\<exists>run' len' m'. contig_loop (Suc n) C options q m_end run len m s = contig_loop n C options q m_end run' len' m' s \<and>
      m_start \<le> m' \<and> run_at C options q m_start m_end s al bo run' len' \<and>
      (len' \<noteq> 0 \<longrightarrow> run' = Some (m' - len') \<and> m_start + len' \<le> m') \<and>
      (rr_boundary q = 0 \<or> 4096 * rr_npages q \<le> 2 ^ bo \<longrightarrow> m < m')))"
proof (cases "m < m_end \<and> len < rr_npages q \<and> \<not> (len = 0 \<and> m_end < m + rr_npages q)")
  case False
  then show ?thesis by (auto simp: Let_def)
next
  case True
  then have lt: "m < m_end" "len < rr_npages q" and fits: "len = 0 \<Longrightarrow> m + rr_npages q \<le> m_end" by auto
  note A = page_address [OF g m lt(1)]
  let ?pa = "VM_PAGE_TO_PHYS s m"
  let ?ma = "m + atop (roundup2 ?pa (rr_alignment q) - ?pa)" and ?mb = "m + atop (roundup2 ?pa (rr_boundary q) - ?pa)"
  have p62: "4096 dvd unat ?pa" "unat ?pa < 2 ^ 62" using A by simp_all
  show ?thesis
  proof (cases "len = 0 \<and> ?pa AND (rr_alignment q - 1) \<noteq> 0")
    case a: True
    have "\<not> 2 ^ al dvd unat ?pa" using start_checks(1) [OF g m fits] a A(1) by simp
    then have "m < ?ma" using advance(1) [OF p62 geometryD(3) [OF g]] geometryD(2) [OF g] by simp
    moreover have "contig_loop (Suc n) C options q m_end run len m s = contig_loop n C options q m_end run len ?ma s"
      using a lt fits by (simp add: Let_def)
    ultimately show ?thesis using lt(1) m R a by (intro disjI2 conjI exI [of _ run] exI [of _ len] exI [of _ ?ma]) auto
  next
    case na: False
    show ?thesis
    proof (cases "len = 0 \<and> rounddown2_pa (?pa XOR (?pa + ptoa (rr_npages q) - 1)) (rr_boundary q) \<noteq> 0")
      case b: True
      have cr: "rr_boundary q \<noteq> 0" "phys_addr (pg s m) div 2 ^ bo \<noteq> (phys_addr (pg s m) + 4096 * rr_npages q - 1) div 2 ^ bo"
        using start_checks(2) [OF g m fits] b by simp_all
      have bo: "rr_boundary q = 2 ^ bo" using geometryD(4) [OF g] cr(1) by simp
      have "m < ?mb" if small: "4096 * rr_npages q \<le> 2 ^ bo"
      proof -
        have "\<not> 2 ^ bo dvd unat ?pa"
        proof
          assume "2 ^ bo dvd unat ?pa"
          then obtain c where c: "phys_addr (pg s m) = 2 ^ bo * c" using A(1) by (auto elim: dvdE)
          have "(2 ^ bo * c + e) div 2 ^ bo = c" if "e < 2 ^ bo" for e :: nat using that by simp
          from this [of "4096 * rr_npages q - 1"] this [of 0] show False
            using cr(2) small geometryD(1) [OF g] by (simp add: c)
        qed
        then show ?thesis using advance(1) [OF p62 geometryD(5) [OF g]] bo by simp
      qed
      moreover have "contig_loop (Suc n) C options q m_end run len m s = contig_loop n C options q m_end run len ?mb s"
        using na b lt fits by (simp add: Let_def)
      ultimately show ?thesis using lt(1) m R b cr(1)
        by (intro disjI2 conjI exI [of _ run] exI [of _ len] exI [of _ ?mb]) auto
    next
      case nb: False
      obtain e i where ei: "ext C options m s = (e, i)" by fastforce
      have adv: "1 \<le> i" using ext_advance [OF g m lt(1), of options] ei by simp
      have st: "contig_loop (Suc n) C options q m_end run len m s =
          (if e > 0 then contig_loop n C options q m_end (if len = 0 then Some m else run) (len + e) (m + i) s
           else contig_loop n C options q m_end None 0 (m + i) s)"
      proof -
        have pe: "page_ext (Suc n) C options m s = Inr ((e, i), s)" using page_ext_undisturbed [OF u] ei by metis
        have n0: "\<not> \<not> (m < m_end \<and> len < rr_npages q)" and n1: "\<not> (len = 0 \<and> m_end < m + rr_npages q)" using lt fits by auto
        show ?thesis
          unfolding contig_loop.simps(2) Let_def if_not_P [OF n0] if_not_P [OF n1] if_not_P [OF na] if_not_P [OF nb] pe
            and_then_Inr prod.case ..
      qed
      show ?thesis
      proof (cases "e > 0")
        case True
        then have ie: "i = e" using ext_usable(1) [of C options m s] ei by simp
        have us: "m \<le> k \<Longrightarrow> k < m + e \<Longrightarrow> takeable C options s k \<or> in_free_block C s k" for k
          using ext_usable(2) [of C options m s k] ei True by simp
        have start: "start_ok q m_start m_end s al bo m" if "len = 0"
          using start_checks [OF g m fits [OF that]] na nb that m fits [OF that] by (auto simp: start_ok_def)
        have "run_at C options q m_start m_end s al bo (if len = 0 then Some m else run) (len + e)"
        proof (cases "len = 0")
          case True
          then show ?thesis using start us \<open>e > 0\<close> by (simp add: run_at_def)
        next
          case False
          then have r: "run = Some (m - len)" "m_start + len \<le> m" using R(2) by simp_all
          have "takeable C options s k \<or> in_free_block C s k" if "m - len \<le> k" "k < m - len + (len + e)" for k
            using R(1) us [of k] that r False by (cases "k < m") (auto simp: run_at_def)
          then show ?thesis using R(1) r(1) False by (simp add: run_at_def)
        qed
        moreover have "(if len = 0 then Some m else run) = Some (m + i - (len + e)) \<and> m_start + (len + e) \<le> m + i"
          using R(2) m ie by auto
        ultimately show ?thesis using st True lt(1) m adv
          by (intro disjI2 conjI exI [of _ "if len = 0 then Some m else run"] exI [of _ "len + e"] exI [of _ "m + i"]) auto
      next
        case False
        then show ?thesis using st lt(1) m adv
          by (intro disjI2 conjI exI [of _ None] exI [of _ 0] exI [of _ "m + i"]) (auto simp: run_at_def)
      qed
    qed
  qed
qed

lemma contig_loop_ok:
  assumes g: "geometry C q m_start m_end s al bo" and u: "undisturbed C"
  shows "m_start \<le> m \<Longrightarrow> run_at C options q m_start m_end s al bo run len \<Longrightarrow>
    (len \<noteq> 0 \<longrightarrow> run = Some (m - len) \<and> m_start + len \<le> m) \<Longrightarrow>
    (contig_loop n C options q m_end run len m s = Inr (run', len', s') \<longrightarrow>
      s' = s \<and> run_at C options q m_start m_end s al bo run' len') \<and>
    ((rr_boundary q = 0 \<or> 4096 * rr_npages q \<le> 2 ^ bo) \<and> m_end - m < n \<longrightarrow>
      (\<exists>x. contig_loop n C options q m_end run len m s = Inr x))"
proof (induction n arbitrary: m run len)
  case (Suc n)
  from contig_turn [OF g u Suc.prems, of n]
  show ?case
  proof
    assume "contig_loop (Suc n) C options q m_end run len m s = Inr (run, len, s)"
    then show ?thesis using Suc.prems(2) by (auto simp del: contig_loop.simps)
  next
    assume "m < m_end \<and> (\<exists>run' len' m'. contig_loop (Suc n) C options q m_end run len m s = contig_loop n C options q m_end run' len' m' s \<and>
      m_start \<le> m' \<and> run_at C options q m_start m_end s al bo run' len' \<and>
      (len' \<noteq> 0 \<longrightarrow> run' = Some (m' - len') \<and> m_start + len' \<le> m') \<and>
      (rr_boundary q = 0 \<or> 4096 * rr_npages q \<le> 2 ^ bo \<longrightarrow> m < m'))"
    then obtain run1 len1 m1 where e: "contig_loop (Suc n) C options q m_end run len m s = contig_loop n C options q m_end run1 len1 m1 s"
      and r: "m_start \<le> m1" "run_at C options q m_start m_end s al bo run1 len1"
        "len1 \<noteq> 0 \<longrightarrow> run1 = Some (m1 - len1) \<and> m_start + len1 \<le> m1"
      and lt: "m < m_end" "rr_boundary q = 0 \<or> 4096 * rr_npages q \<le> 2 ^ bo \<longrightarrow> m < m1" by blast
    have "(rr_boundary q = 0 \<or> 4096 * rr_npages q \<le> 2 ^ bo) \<and> m_end - m < Suc n \<Longrightarrow> m_end - m1 < n" using lt by auto
    then show ?thesis unfolding e using Suc.IH [OF r] by blast
  qed
qed simp

text \<open>A request that is longer than its boundary keeps the scan at a page on a boundary for ever.\<close>

lemma contig_loop_stuck:
  assumes g: "geometry C q m_start m_end s al bo" and f: "m_start + rr_npages q \<le> m_end"
    and b: "rr_boundary q = 2 ^ bo" "2 ^ bo < 4096 * rr_npages q"
    and p: "2 ^ bo dvd phys_addr (pg s m_start)" "2 ^ al dvd phys_addr (pg s m_start)"
  shows "contig_loop n C options q m_end None 0 m_start s = Inl Diverges"
proof (induction n)
  case (Suc n)
  have lt: "m_start < m_end" using geometryD(1) [OF g] f by simp
  note A = page_address [OF g order_refl lt]
  obtain c where c: "phys_addr (pg s m_start) = 2 ^ bo * c" using p(1) by (elim dvdE)
  have "phys_addr (pg s m_start) div 2 ^ bo = c" by (simp add: c)
  moreover have "c + 1 \<le> (phys_addr (pg s m_start) + 4096 * rr_npages q - 1) div 2 ^ bo"
  proof -
    have "(c + 1) * 2 ^ bo \<le> phys_addr (pg s m_start) + 4096 * rr_npages q - 1" using b(2) by (simp add: c algebra_simps)
    then show ?thesis by (simp add: less_eq_div_iff_mult_less_eq)
  qed
  ultimately have cr: "rounddown2_pa (VM_PAGE_TO_PHYS s m_start XOR (VM_PAGE_TO_PHYS s m_start + ptoa (rr_npages q) - 1)) (rr_boundary q) \<noteq> 0"
    using start_checks(2) [OF g order_refl f] b(1) geometryD(5) [OF g] by simp
  have al: "VM_PAGE_TO_PHYS s m_start AND (rr_alignment q - 1) = 0" using start_checks(1) [OF g order_refl f] p(2) by simp
  have "atop (roundup2 (VM_PAGE_TO_PHYS s m_start) (rr_boundary q) - VM_PAGE_TO_PHYS s m_start) = 0"
    unfolding b(1) by (rule advance(2)) (use A geometryD(5) [OF g] p(1) in simp_all)
  then show ?case using lt f cr al geometryD(1) [OF g] Suc.IH by (simp add: Let_def)
qed simp

section \<open>Properties\<close>

lemma powerof2_0: "powerof2 0"
  by (simp add: powerof2_def)

lemma powerof2_pow: "k < 64 \<Longrightarrow> powerof2 (2 ^ k)"
proof -
  assume "k < 64"
  have "(2 ^ k - 1) AND (2 ^ k :: u64) = 0"
    by (rule bit_eqI) (auto simp: bit_simps mask_eq_exp_minus_1 [symmetric])
  then show ?thesis by (simp add: powerof2_def)
qed

lemma scan_no_panic:
  assumes g: "geometry C q m_start m_end s al bo"
  shows "vm_page_scan_contig n C q m_start m_end options s =
    and_then (contig_loop n C options q m_end None 0 m_start s)
      (\<lambda>(run, run_len, s1). Inr (if run_len \<ge> rr_npages q then run else None, s1))"
proof -
  have "powerof2 (rr_boundary q)" "powerof2 (rr_alignment q)"
    using geometryD(2-5) [OF g] powerof2_0 powerof2_pow [of bo] powerof2_pow [of al] by auto
  then show ?thesis using geometryD(1) [OF g] by (simp add: vm_page_scan_contig_def)
qed


text \<open>An array of free pages, none in a reservation.\<close>

definition scan_env1 :: "((nat \<times> pid) list, pid list) scan_env" where
  "scan_env1 = \<lparr>VM_NFREEORDER = 3, obj_attr = (\<lambda>b. VM_MEMATTR_DEFAULT), vm_reserv_level = (\<lambda>m p. -1),
    vm_reserv_level_iffullpop = (\<lambda>m p. -1), vm_reserv_size = (\<lambda>l. 4096), tryrlock = (\<lambda>b s. True), meanwhile = (\<lambda>b s. s)\<rparr>"

definition array1 :: "((nat \<times> pid) list, pid list) vm_sys" where
  "array1 = fresh0\<lparr>pg := (\<lambda>m. page0\<lparr>phys_addr := 4096 * m\<rparr>)\<rparr>"

definition run_req1 :: "nat \<Rightarrow> run_req" where
  "run_req1 n = \<lparr>rr_npages = n, rr_alignment = 8192, rr_boundary = 16384\<rparr>"

lemma array1_geometry: "0 < n \<Longrightarrow> a \<le> 8 \<Longrightarrow> geometry scan_env1 (run_req1 n) a 8 array1 13 14"
  unfolding geometry_def by (auto simp: scan_env1_def run_req1_def array1_def intro!: exI [of _ 12])

lemma scan_env1_undisturbed: "undisturbed scan_env1"
  by (simp add: undisturbed_def scan_env1_def)




end
