(* ===== verification/Vm_Reclaim.thy ===== *)
theory Vm_Reclaim
  imports Vm_Contig_Scan Vm_Alloc
begin

text \<open>
  Reclaiming contiguous memory (\<open>vm_page_reclaim_run\<close> and \<open>vm_page_reclaim_contig\<close> in
  \<open>src/asgn3/vm/vm_page.c\<close>): the pages of a run are moved to new pages, which take their place in
  their objects, or are dropped if invalid, and the old pages are freed together at the end.
  Assertions are checked, a failed one is a panic. The contents copied from page to page are kept as
  a list of the copies made. \<open>phys_scan\<close> stands for \<open>vm_phys_scan_contig\<close>, which calls
  \<open>vm_page_scan_contig\<close> on each memory segment.
\<close>

unbundle bit_operations_syntax

section \<open>One page of the run\<close>

datatype reclaim_errno = EBUSY | EINVAL | ENOMEM

record ('r, 'p) reclaim_env =
  ra :: "('r, 'p) alloc_env"
  rc :: "('r, 'p) scan_env"
  vm_reserv_is_page_free :: "pid \<Rightarrow> 'p \<Rightarrow> bool"
  phys_scan :: "nat \<Rightarrow> u64 \<Rightarrow> u64 \<Rightarrow> u64 \<Rightarrow> u64 \<Rightarrow> vpsc \<Rightarrow> ('r, 'p) alloc_sys \<Rightarrow> pid option"

text \<open>The state in the loop: the copies made, the pages to be freed (last one first), the system.\<close>

record ('r, 'p) reclaim_state =
  copies :: "(pid \<times> pid) list"
  to_free :: "pid list"
  asys :: "('r, 'p) alloc_sys"

definition upd_asys :: "(('r, 'p) vm_sys \<Rightarrow> ('r, 'p) vm_sys) \<Rightarrow> ('r, 'p) reclaim_state \<Rightarrow> ('r, 'p) reclaim_state" where
  "upd_asys f t = t\<lparr>asys := upd_sys f (asys t)\<rparr>"

definition alloc_one ::
    "nat \<Rightarrow> ('r, 'p) reclaim_env \<Rightarrow> u32 \<Rightarrow> nat \<Rightarrow> nat \<Rightarrow> ('r, 'p) alloc_sys \<Rightarrow> fault + (pid option \<times> ('r, 'p) alloc_sys)" where
  "alloc_one n R req low high a =
    vm_page_alloc_contig n (ra R) None 0 req
      \<lparr>cr_npages = 1, cr_low = low, cr_high = high, cr_alignment = PAGE_SIZE, cr_boundary = 0\<rparr> VM_MEMATTR_DEFAULT a"

definition alloc_new ::
    "nat \<Rightarrow> ('r, 'p) reclaim_env \<Rightarrow> u32 \<Rightarrow> nat \<Rightarrow> u64 \<Rightarrow> u64 \<Rightarrow> ('r, 'p) alloc_sys \<Rightarrow> fault + (pid option \<times> ('r, 'p) alloc_sys)" where
  "alloc_new n R req npages pa high a =
    and_then (if trunc_page high \<noteq> NOT PAGE_MASK
              then alloc_one n R req (unat (round_page high)) (unat (- 1 :: u64)) a else Inr (None, a)) (\<lambda>(r1, a1).
    and_then (if r1 = None then alloc_one n R req 0 (unat (pa - 1)) a1 else Inr (r1, a1)) (\<lambda>(r2, a2).
      if r2 = None then alloc_one n R req (unat (pa + ptoa npages)) (unat high) a2 else Inr (r2, a2)))"

definition vm_page_xbusy :: "pid \<Rightarrow> ('r, 'p) vm_sys \<Rightarrow> fault + ('r, 'p) vm_sys" where
  "vm_page_xbusy m s =
    (case vm_page_tryxbusy (busy_lock (pg s m)) of
       (w, Done True _) \<Rightarrow> Inr (upd_page m (\<lambda>x. x\<lparr>busy_lock := w\<rparr>) s)
     | _ \<Rightarrow> Inl Kernel_panic)"

definition vm_page_replace_checked ::
    "('r, 'p) vm_env \<Rightarrow> pid \<Rightarrow> oid \<Rightarrow> nat \<Rightarrow> pid \<Rightarrow> ('r, 'p) vm_sys \<Rightarrow> fault + ('r, 'p) vm_sys" where
  "vm_page_replace_checked E mnew ob i mold s =
    and_then (vm_page_replace E mnew ob i s) (\<lambda>(mret, s'). if mret = mold then Inr s' else Inl Kernel_panic)"

text \<open>Put the new page in the place of \<open>m\<close>; \<open>m\<close> is left as a freed page is.\<close>

definition relocate :: "('r, 'p) vm_env \<Rightarrow> pid \<Rightarrow> oid \<Rightarrow> pid \<Rightarrow> ('r, 'p) vm_sys \<Rightarrow> fault + ('r, 'p) vm_sys" where
  "relocate E m ob m_new s =
    (let s1 = (if ref_count (objs s ob) \<noteq> 0 then upd_page m (pmap_remove_all E m) s else s);
         x = pg s1 m;
         s2 = upd_page m_new (\<lambda>y. y\<lparr>aflags := aflags x, oflags := oflags x \<inter> {VPO_NOSYNC}, valid := valid x, dirty := dirty x\<rparr>) s1;
         s3 = upd_page m (\<lambda>x. x\<lparr>flags := flags x - {PG_ZERO}\<rparr>) s2
     in and_then (vm_page_xbusy m s3) (\<lambda>s4.
        and_then (vm_page_replace_checked E m_new ob (pindex (pg s4 m)) m (vm_page_remque E m s4)) (\<lambda>s5.
          Inr (vm_page_deactivate E m_new (upd_page m (\<lambda>x. vm_page_undirty (x\<lparr>valid := 0\<rparr>)) s5)))))"

definition reclaim_object ::
    "nat \<Rightarrow> ('r, 'p) reclaim_env \<Rightarrow> u32 \<Rightarrow> nat \<Rightarrow> pid \<Rightarrow> u64 \<Rightarrow> pid \<Rightarrow> oid \<Rightarrow> ('r, 'p) reclaim_state
      \<Rightarrow> fault + (reclaim_errno option \<times> ('r, 'p) reclaim_state)" where
  "reclaim_object n R req_class npages m_run high m ob t =
    (let s = sys (asys t); x = pg s m; E = venv (ra R)
     in if PG_UNHOLDFREE \<in> flags x then Inl Kernel_panic
        else if otype (objs s ob) \<noteq> OBJT_DEFAULT \<and> otype (objs s ob) \<noteq> OBJT_SWAP \<and> otype (objs s ob) \<noteq> OBJT_VNODE
        then Inr (Some EINVAL, t)
        else if obj_memattr (ra R) ob \<noteq> VM_MEMATTR_DEFAULT then Inr (Some EINVAL, t)
        else if queue x \<noteq> PQ_NONE \<and> \<not> vm_page_busied (busy_lock x)
        then
         (if memattr x \<noteq> VM_MEMATTR_DEFAULT \<or> oflags x \<inter> {VPO_SWAPINPROG, VPO_SWAPSLEEP, VPO_UNMANAGED} \<noteq> {} then Inl Kernel_panic
          else if valid x \<noteq> 0
          then
           (let req = req_class OR VM_ALLOC_NOOBJ;
                req = (if PG_NODUMP \<in> flags x then req OR VM_ALLOC_NODUMP else req)
            in and_then (alloc_new n R req npages (VM_PAGE_TO_PHYS s m_run) high (asys t)) (\<lambda>(r, a).
                 case r of
                   None \<Rightarrow> Inr (Some ENOMEM, t\<lparr>asys := a\<rparr>)
                 | Some m_new \<Rightarrow>
                     if wire_count (pg (sys a) m_new) \<noteq> 0 \<or> oflags (pg (sys a) m_new) \<noteq> {VPO_UNMANAGED} then Inl Kernel_panic
                     else and_then (relocate E m ob m_new (sys a)) (\<lambda>s'.
                       Inr (None, \<lparr>copies = (m, m_new) # copies t, to_free = m # to_free t, asys = a\<lparr>sys := s'\<rparr>\<rparr>))))
          else
           (let s1 = vm_page_remove E m (vm_page_remque E m (upd_page m (\<lambda>x. x\<lparr>flags := flags x - {PG_ZERO}\<rparr>) s))
            in if dirty (pg s1 m) \<noteq> 0 then Inl Kernel_panic
               else Inr (None, t\<lparr>to_free := m # to_free t, asys := (asys t)\<lparr>sys := s1\<rparr>\<rparr>)))
        else Inr (Some EBUSY, t))"

text \<open>The number is the last page dealt with: a block of free pages is passed over as a whole.\<close>

fun reclaim_page ::
    "nat \<Rightarrow> ('r, 'p) reclaim_env \<Rightarrow> u32 \<Rightarrow> nat \<Rightarrow> pid \<Rightarrow> u64 \<Rightarrow> pid \<Rightarrow> ('r, 'p) reclaim_state
      \<Rightarrow> fault + (reclaim_errno option \<times> pid \<times> ('r, 'p) reclaim_state)" where
  "reclaim_page 0 R req_class npages m_run high m t = Inl Diverges"
| "reclaim_page (Suc n) R req_class npages m_run high m t =
    (let s = sys (asys t); C = rc R
     in if wire_count (pg s m) \<noteq> 0 \<or> hold_count (pg s m) \<noteq> 0 then Inr (Some EBUSY, m, t)
        else (case object (pg s m) of
            Some ob \<Rightarrow>
              if tryrlock C ob s
              then and_then (reclaim_object (Suc n) R req_class npages m_run high m ob t) (\<lambda>(e, t'). Inr (e, m, t'))
              else
               (let t1 = upd_asys (meanwhile C ob) t; s1 = sys (asys t1)
                in if object (pg s1 m) \<noteq> Some ob then reclaim_page n R req_class npages m_run high m t1
                   else if wire_count (pg s1 m) \<noteq> 0 \<or> hold_count (pg s1 m) \<noteq> 0 then Inr (Some EBUSY, m, t1)
                   else and_then (reclaim_object (Suc n) R req_class npages m_run high m ob t1) (\<lambda>(e, t'). Inr (e, m, t')))
          | None \<Rightarrow>
              if order (pg s m) < VM_NFREEORDER C then Inr (None, m + 2 ^ order (pg s m) - 1, t)
              else if vm_reserv_is_page_free R m (phys s) then Inr (None, m, t)
              else Inr (if order (pg s m) = VM_NFREEORDER C then Some EINVAL else None, m, t)))"

section \<open>The run\<close>

fun reclaim_loop ::
    "nat \<Rightarrow> ('r, 'p) reclaim_env \<Rightarrow> u32 \<Rightarrow> nat \<Rightarrow> pid \<Rightarrow> u64 \<Rightarrow> pid \<Rightarrow> ('r, 'p) reclaim_state
      \<Rightarrow> fault + (reclaim_errno option \<times> ('r, 'p) reclaim_state)" where
  "reclaim_loop 0 R req_class npages m_run high m t = Inl Diverges"
| "reclaim_loop (Suc n) R req_class npages m_run high m t =
    (if \<not> m < m_run + npages then Inr (None, t)
     else if flags (pg (sys (asys t)) m) \<inter> {PG_FICTITIOUS, PG_MARKER} \<noteq> {} then Inl Kernel_panic
     else and_then (reclaim_page (Suc n) R req_class npages m_run high m t) (\<lambda>(e, m', t').
       if e \<noteq> None then Inr (e, t') else reclaim_loop n R req_class npages m_run high (m' + 1) t'))"

definition free_all :: "('r, 'p) vm_env \<Rightarrow> pid list \<Rightarrow> ('r, 'p) vm_sys \<Rightarrow> ('r, 'p) vm_sys" where
  "free_all E ms s = (if ms = [] then s else vm_page_free_wakeup E (fold (vm_page_free_phys E) ms s))"

definition vm_page_reclaim_run ::
    "nat \<Rightarrow> ('r, 'p) reclaim_env \<Rightarrow> u32 \<Rightarrow> nat \<Rightarrow> pid \<Rightarrow> u64 \<Rightarrow> ('r, 'p) alloc_sys
      \<Rightarrow> fault + (reclaim_errno option \<times> (pid \<times> pid) list \<times> ('r, 'p) alloc_sys)" where
  "vm_page_reclaim_run n R req_class npages m_run high a =
    (if req_class AND VM_ALLOC_CLASS_MASK \<noteq> req_class then Inl Kernel_panic
     else and_then (reclaim_loop n R req_class npages m_run high m_run \<lparr>copies = [], to_free = [], asys = a\<rparr>) (\<lambda>(e, t).
       Inr (e, copies t, upd_sys (free_all (venv (ra R)) (to_free t)) (asys t))))"

section \<open>Any run that fits\<close>

definition NRUNS :: nat where "NRUNS = 16"
definition RUN_INDEX :: "nat \<Rightarrow> nat" where "RUN_INDEX k = k AND (NRUNS - 1)"
definition MIN_RECLAIM :: nat where "MIN_RECLAIM = 8"

record contig_want =
  w_npages :: nat
  w_low :: u64
  w_high :: u64
  w_alignment :: u64
  w_boundary :: u64

fun collect_runs ::
    "nat \<Rightarrow> ('r, 'p) reclaim_env \<Rightarrow> contig_want \<Rightarrow> vpsc \<Rightarrow> u64 \<Rightarrow> nat \<Rightarrow> (nat \<Rightarrow> pid) \<Rightarrow> ('r, 'p) alloc_sys
      \<Rightarrow> fault + (nat \<times> (nat \<Rightarrow> pid))" where
  "collect_runs 0 R w options curr_low cnt m_runs a = Inl Diverges"
| "collect_runs (Suc n) R w options curr_low cnt m_runs a =
    (case phys_scan R (w_npages w) curr_low (w_high w) (w_alignment w) (w_boundary w) options a of
       None \<Rightarrow> Inr (cnt, m_runs)
     | Some m_run \<Rightarrow> collect_runs n R w options (VM_PAGE_TO_PHYS (sys a) m_run + ptoa (w_npages w)) (cnt + 1)
         (m_runs(RUN_INDEX cnt := m_run)) a)"

text \<open>The result says whether enough was reclaimed; the count of turns left takes the place of \<open>i\<close>.\<close>

fun reclaim_runs ::
    "nat \<Rightarrow> ('r, 'p) reclaim_env \<Rightarrow> contig_want \<Rightarrow> u32 \<Rightarrow> nat \<Rightarrow> nat \<Rightarrow> (nat \<Rightarrow> pid) \<Rightarrow> nat \<Rightarrow> ('r, 'p) alloc_sys
      \<Rightarrow> fault + (bool \<times> nat \<times> ('r, 'p) alloc_sys)" where
  "reclaim_runs fuel R w req_class 0 cnt m_runs reclaimed a = Inr (False, reclaimed, a)"
| "reclaim_runs fuel R w req_class (Suc i) cnt m_runs reclaimed a =
    (if cnt = 0 then Inr (False, reclaimed, a)
     else and_then (vm_page_reclaim_run fuel R req_class (w_npages w) (m_runs (RUN_INDEX (cnt - 1))) (w_high w) a)
       (\<lambda>(e, cs, a1).
         if e = None
         then (if reclaimed + w_npages w \<ge> MIN_RECLAIM then Inr (True, reclaimed + w_npages w, a1)
               else reclaim_runs fuel R w req_class i (cnt - 1) m_runs (reclaimed + w_npages w) a1)
         else reclaim_runs fuel R w req_class i (cnt - 1) m_runs reclaimed a1))"

fun reclaim_passes ::
    "nat \<Rightarrow> ('r, 'p) reclaim_env \<Rightarrow> contig_want \<Rightarrow> u32 \<Rightarrow> vpsc list \<Rightarrow> nat \<Rightarrow> (nat \<Rightarrow> pid) \<Rightarrow> ('r, 'p) alloc_sys
      \<Rightarrow> fault + (bool \<times> ('r, 'p) alloc_sys)" where
  "reclaim_passes fuel R w req_class [] reclaimed m_runs a = Inr (reclaimed \<noteq> 0, a)"
| "reclaim_passes fuel R w req_class (options # rest) reclaimed m_runs a =
    and_then (collect_runs fuel R w options (w_low w) 0 m_runs a) (\<lambda>(cnt, m_runs1).
    and_then (reclaim_runs fuel R w req_class NRUNS cnt m_runs1 0 a) (\<lambda>(enough, reclaimed1, a1).
      if enough then Inr (True, a1) else reclaim_passes fuel R w req_class rest reclaimed1 m_runs1 a1))"

definition too_few :: "('r, 'p) alloc_env \<Rightarrow> u32 \<Rightarrow> nat \<Rightarrow> ('r, 'p) alloc_sys \<Rightarrow> bool" where
  "too_few A req_class npages a \<longleftrightarrow>
    free_pages_left A a < npages + v_free_reserved A \<or>
    free_pages_left A a < npages + v_interrupt_free_min A \<and> req_class = VM_ALLOC_SYSTEM \<or>
    free_pages_left A a < npages \<and> req_class = VM_ALLOC_INTERRUPT"

text \<open>\<open>m_runs0\<close> is the content of the array on the stack.\<close>

definition vm_page_reclaim_contig ::
    "nat \<Rightarrow> ('r, 'p) reclaim_env \<Rightarrow> u32 \<Rightarrow> contig_want \<Rightarrow> (nat \<Rightarrow> pid) \<Rightarrow> ('r, 'p) alloc_sys
      \<Rightarrow> fault + (bool \<times> ('r, 'p) alloc_sys)" where
  "vm_page_reclaim_contig fuel R req w m_runs0 a =
    (if w_npages w = 0 \<or> \<not> powerof2 (w_alignment w) \<or> \<not> powerof2 (w_boundary w) then Inl Kernel_panic
     else
      (let req_class = alloc_class (ra R) req
       in if too_few (ra R) req_class (w_npages w) a then Inr (False, a)
          else reclaim_passes fuel R w req_class [VPSC_NORESERV, VPSC_NOSUPER, VPSC_ANY] 0 m_runs0 a))"

end
