(* ===== verification/Vm_Reclaim_Props.thy ===== *)
theory Vm_Reclaim_Props
  imports Vm_Reclaim Vm_Contig_Props
begin

text \<open>
  Properties of reclaiming contiguous memory: what moving a page to a new one does, the state that
  the loop over a run keeps, and what a reclaimed run and a refused request mean.
\<close>

section \<open>Moving one page\<close>

lemma replace_state:
  assumes e: "vm_page_replace E mnew ob i s = Inr (mold, s')" and ne: "mnew \<noteq> mold"
  shows "pg s' = (pg s)(mnew := (pg s mnew)\<lparr>object := Some ob, pindex := i\<rparr>,
      mold := vm_page_xunbusy_maybelocked ((pg s mold)\<lparr>object := None\<rparr>))"
    and "vmd s' = vmd s" "phys s' = phys s" "vm_cnt s' = vm_cnt s" "b \<noteq> ob \<Longrightarrow> objs s' b = objs s b"
  using e ne by (auto simp: vm_page_replace_def Let_def upd_pg_def fun_eq_iff split: prod.splits option.splits if_splits)

lemma xunbusy_maybelocked_more [simp]:
  "memattr (vm_page_xunbusy_maybelocked x) = memattr x" "phys_addr (vm_page_xunbusy_maybelocked x) = phys_addr x"
  by (auto simp: vm_page_xunbusy_maybelocked_def split: prod.splits outcome.splits)

text \<open>A page that may be moved, and the page it is moved to.\<close>

definition movable_page :: "vm_page \<Rightarrow> bool" where
  "movable_page x \<longleftrightarrow> wire_count x = 0 \<and> hold_count x = 0 \<and> busy_lock x = VPB_UNBUSIED \<and> memattr x = VM_MEMATTR_DEFAULT \<and>
    flags x \<inter> {PG_FICTITIOUS, PG_MARKER, PG_UNHOLDFREE} = {}"

definition blank_page :: "vm_page \<Rightarrow> bool" where
  "blank_page y \<longleftrightarrow> object y = None \<and> queue y = PQ_NONE \<and> wire_count y = 0 \<and> hold_count y = 0 \<and>
    flags y \<inter> {PG_FICTITIOUS, PG_MARKER, PG_UNHOLDFREE} = {}"

definition keeps_page :: "('r, 'p) vm_env \<Rightarrow> bool" where
  "keeps_page E \<longleftrightarrow> (\<forall>m x. \<exists>d a. pmap_remove_all E m x = x\<lparr>dirty := d, aflags := a\<rparr>)"

lemma keeps_pageD:
  assumes "keeps_page E"
  shows "wire_count (pmap_remove_all E m x) = wire_count x" "hold_count (pmap_remove_all E m x) = hold_count x"
    "busy_lock (pmap_remove_all E m x) = busy_lock x" "memattr (pmap_remove_all E m x) = memattr x"
    "flags (pmap_remove_all E m x) = flags x" "object (pmap_remove_all E m x) = object x"
    "pindex (pmap_remove_all E m x) = pindex x" "queue (pmap_remove_all E m x) = queue x"
    "oflags (pmap_remove_all E m x) = oflags x" "valid (pmap_remove_all E m x) = valid x"
    "phys_addr (pmap_remove_all E m x) = phys_addr x"
proof -
  obtain d a where e: "pmap_remove_all E m x = x\<lparr>dirty := d, aflags := a\<rparr>" using assms unfolding keeps_page_def by blast
  show "wire_count (pmap_remove_all E m x) = wire_count x" "hold_count (pmap_remove_all E m x) = hold_count x"
    "busy_lock (pmap_remove_all E m x) = busy_lock x" "memattr (pmap_remove_all E m x) = memattr x"
    "flags (pmap_remove_all E m x) = flags x" "object (pmap_remove_all E m x) = object x"
    "pindex (pmap_remove_all E m x) = pindex x" "queue (pmap_remove_all E m x) = queue x"
    "oflags (pmap_remove_all E m x) = oflags x" "valid (pmap_remove_all E m x) = valid x"
    "phys_addr (pmap_remove_all E m x) = phys_addr x" by (simp_all add: e)
qed

lemma in_object_not_free: "mem_ok E view avail s \<Longrightarrow> object (pg s m) \<noteq> None \<Longrightarrow> m \<notin> avail (phys s)"
  using mem_okD(3) [of E view avail s m] freshD(1) [of "pg s m"] by auto

lemma mem_ok_pages:
  assumes ok: "mem_ok E view avail s" and q: "queues_ok E s'" and o: "objs_ok view s'" and p: "phys s' = phys s"
    and same: "\<And>k. k \<in> avail (phys s) \<Longrightarrow> pg s' k = pg s k"
  shows "mem_ok E view avail s'"
  by (rule mem_okI [OF q o]) (use mem_okD(3-5) [OF ok] same in \<open>auto simp: p\<close>)

lemma relocate_ok:
  assumes laws: "radix_laws E view" and kp: "keeps_page E" and ok: "mem_ok E view avail s"
    and m: "object (pg s m) = Some ob" "movable_page (pg s m)"
    and n: "n \<notin> avail (phys s)" "blank_page (pg s n)" and ne: "n \<noteq> m"
  shows "\<exists>s'. relocate E m ob n s = Inr s' \<and> mem_ok E view avail s' \<and> phys s' = phys s \<and> fresh (pg s' m) \<and>
    (\<forall>k. k \<noteq> m \<and> k \<noteq> n \<longrightarrow> pg s' k = pg s k) \<and> object (pg s' n) = Some ob \<and> pindex (pg s' n) = pindex (pg s m) \<and>
    valid (pg s' n) = valid (pg s m) \<and> (\<forall>k. phys_addr (pg s' k) = phys_addr (pg s k))"
proof -
  have free: "m \<notin> avail (phys s)" using in_object_not_free [OF ok] m(1) by simp
  define x where "x = (if ref_count (objs s ob) \<noteq> 0 then pmap_remove_all E m (pg s m) else pg s m)"
  have x: "wire_count x = 0" "hold_count x = 0" "busy_lock x = VPB_UNBUSIED" "memattr x = VM_MEMATTR_DEFAULT"
    "flags x = flags (pg s m)" "object x = Some ob" "pindex x = pindex (pg s m)" "queue x = queue (pg s m)"
    "oflags x = oflags (pg s m)" "valid x = valid (pg s m)" "phys_addr x = phys_addr (pg s m)"
    using m keeps_pageD [OF kp] by (simp_all add: x_def movable_page_def)
  define s1 where "s1 = (if ref_count (objs s ob) \<noteq> 0 then upd_page m (pmap_remove_all E m) s else s)"
  have s1: "pg s1 = (pg s)(m := x)" "vmd s1 = vmd s" "objs s1 = objs s" "phys s1 = phys s"
    by (simp_all add: s1_def x_def upd_pg_def)
  define y where "y = (pg s n)\<lparr>aflags := aflags x, oflags := oflags x \<inter> {VPO_NOSYNC}, valid := valid x, dirty := dirty x\<rparr>"
  define s4 where "s4 = s1\<lparr>pg := (pg s)(n := y, m := x\<lparr>flags := flags x - {PG_ZERO}, busy_lock := VPB_SINGLE_EXCLUSIVER\<rparr>)\<rparr>"
  have xb: "vm_page_xbusy m (upd_page m (\<lambda>x. x\<lparr>flags := flags x - {PG_ZERO}\<rparr>)
      (upd_page n (\<lambda>y. y\<lparr>aflags := aflags x, oflags := oflags x \<inter> {VPO_NOSYNC}, valid := valid x, dirty := dirty x\<rparr>) s1)) = Inr s4"
    using ne x(3) by (simp add: vm_page_xbusy_def vm_page_tryxbusy_def cmpset_def upd_page_def upd_pg_def s1 s4_def y_def fun_upd_twist)
  have p4: "pg s4 m = x\<lparr>flags := flags x - {PG_ZERO}, busy_lock := VPB_SINGLE_EXCLUSIVER\<rparr>" "pg s4 n = y"
    "\<And>k. k \<noteq> m \<Longrightarrow> k \<noteq> n \<Longrightarrow> pg s4 k = pg s k" "vmd s4 = vmd s" "objs s4 = objs s" "phys s4 = phys s"
    using ne by (simp_all add: s4_def s1)
  have y: "object y = None" "queue y = PQ_NONE" "wire_count y = 0" "hold_count y = 0" "flags y = flags (pg s n)"
    "phys_addr y = phys_addr (pg s n)" "oflags y \<subseteq> {VPO_NOSYNC}" "valid y = valid x"
    "PG_MARKER \<notin> flags y"
    using n(2) by (auto simp: y_def blank_page_def)
  have q4: "queues_ok E s4"
  proof -
    define t where "t = s\<lparr>pg := (pg s)(n := y)\<rparr>"
    have "queues_ok E t"
      by (rule off_queue_ok [OF mem_okD(1) [OF ok], of t n])
        (use y n(2) in \<open>auto simp: t_def blank_page_def regular_def\<close>)
    then show ?thesis
    proof (rule queues_ok_cong [rotated 2])
      show "vmd s4 = vmd t" by (simp add: p4 t_def)
      show "flags (pg s4 k) \<inter> {PG_MARKER} = flags (pg t k) \<inter> {PG_MARKER} \<and> queue (pg s4 k) = queue (pg t k) \<and>
          wire_count (pg s4 k) = wire_count (pg t k) \<and> oflags (pg s4 k) = oflags (pg t k)" for k
        using ne m(2) by (cases "k = m"; cases "k = n") (auto simp: p4 t_def x movable_page_def)
    qed
  qed
  have o4: "objs_ok view s4"
    by (rule objs_ok_cong [OF _ _ mem_okD(2) [OF ok]]) (use ne p4 x y n(2) m(1) in \<open>auto simp: s4_def y_def\<close>)
  define s5 where "s5 = vm_page_remque E m s4"
  have m4: "regular s4 m" using m(2) by (auto simp: regular_def p4 x movable_page_def)
  have q5: "queues_ok E s5" unfolding s5_def by (rule remque_ok [OF q4 m4])
  have p5: "pg s5 = upd_pg (pg s4) m (\<lambda>x. x\<lparr>queue := PQ_NONE\<rparr>)" "objs s5 = objs s" "phys s5 = phys s"
    by (simp_all add: s5_def p4)
  have o5: "objs_ok view s5" by (rule objs_ok_cong [OF _ _ o4]) (simp_all add: p5 p4 upd_pg_def)
  have old: "view (rtree (objs s5 ob)) (pindex x) = Some m"
    using m(1) x(7) by (simp add: view_pages [OF mem_okD(2) [OF ok]] p5)
  have n5: "object (pg s5 n) = None" using ne y by (simp add: p5 p4)
  obtain s6 where rep: "vm_page_replace E n ob (pindex x) s5 = Inr (m, s6)" and o6: "objs_ok view s6"
    using replace_ok [OF laws o5 n5 old] by blast
  note R = replace_state [OF rep ne]
  define s7 where "s7 = upd_page m (\<lambda>x. vm_page_undirty (x\<lparr>valid := 0\<rparr>)) s6"
  have p7: "pg s7 n = y\<lparr>object := Some ob, pindex := pindex x\<rparr>" "\<And>k. k \<noteq> m \<Longrightarrow> k \<noteq> n \<Longrightarrow> pg s7 k = pg s k"
    "vmd s7 = vmd s5" "phys s7 = phys s" "fresh (pg s7 m)" "phys_addr (pg s7 m) = phys_addr (pg s m)"
    using ne m(2) by (simp_all add: s7_def R p5 p4 vm_page_undirty_def)
      (auto simp: fresh_def vm_page_alloc_check_def vm_page_busied_def xunbusy_maybelocked_free x movable_page_def)
  have q7: "queues_ok E s7"
  proof (rule queues_ok_cong [OF p7(3) _ q5])
    show "flags (pg s7 k) \<inter> {PG_MARKER} = flags (pg s5 k) \<inter> {PG_MARKER} \<and> queue (pg s7 k) = queue (pg s5 k) \<and>
        wire_count (pg s7 k) = wire_count (pg s5 k) \<and> oflags (pg s7 k) = oflags (pg s5 k)" for k
      using ne by (cases "k = m"; cases "k = n") (simp_all add: s7_def R p5 p4 vm_page_undirty_def)
  qed
  have o7: "objs_ok view s7" by (rule objs_ok_cong [OF _ _ o6]) (simp_all add: s7_def upd_pg_def vm_page_undirty_def)
  define s8 where "s8 = vm_page_deactivate E n s7"
  have n7: "regular s7 n" "movable s7 n" "queue (pg s7 n) = PQ_NONE"
    using y n(2) by (auto simp: regular_def movable_def p7 blank_page_def)
  have s8: "s8 = vm_page_enqueue E PQ_INACTIVE n (vm_page_remque E n s7)"
    using n7 by (simp add: s8_def vm_page_deactivate_def deactivate_eq)
  have q8: "queues_ok E s8" unfolding s8 by (rule move_ok [OF q7 n7(1,2)]) simp_all
  have p8: "pg s8 = upd_pg (pg s7) n (\<lambda>x. x\<lparr>queue := PQ_INACTIVE, pg_id := pg_cnt s7\<rparr>)" "objs s8 = objs s7" "phys s8 = phys s"
    using p7(4) n7(3) by (simp_all add: s8 enqueue_sel fun_eq_iff upd_pg_def)
  have o8: "objs_ok view s8" by (rule objs_ok_cong [OF p8(2) _ o7]) (simp add: p8 upd_pg_def)
  have oth: "pg s8 k = pg s k" if "k \<noteq> m" "k \<noteq> n" for k using that by (simp add: p8 p7)
  have "mem_ok E view avail s8"
    by (rule mem_ok_pages [OF ok q8 o8 p8(3)]) (use oth free n(1) in metis)
  moreover have "relocate E m ob n s = Inr s8"
  proof -
    have pm: "pg s1 m = x" "pindex (pg s4 m) = pindex x" by (simp_all add: s1 p4)
    show ?thesis
      unfolding relocate_def Let_def s1_def [symmetric] pm xb and_then_Inr s5_def [symmetric]
        vm_page_replace_checked_def rep prod.case if_P [OF refl] s7_def [symmetric] s8_def [symmetric] ..
  qed
  moreover have "fresh (pg s8 m)" using p7(5) ne by (simp add: p8)
  moreover have "phys_addr (pg s8 k) = phys_addr (pg s k)" for k
    using oth [of k] p7(1,6) y(6) ne by (cases "k = m"; cases "k = n") (simp_all add: p8)
  moreover have "object (pg s8 n) = Some ob" "pindex (pg s8 n) = pindex (pg s m)" "valid (pg s8 n) = valid (pg s m)"
    using p7(1) x y by (simp_all add: p8)
  ultimately show ?thesis using oth p8(3) by blast
qed

section \<open>Getting a new page\<close>

lemma class_cases:
  assumes "(c :: u32) AND VM_ALLOC_CLASS_MASK = c"
  shows "c = 0 \<or> c = 1 \<or> c = 2 \<or> c = 3"
proof -
  have c: "c = take_bit 2 c" using assms by (simp add: VM_ALLOC_CLASS_MASK_def take_bit_eq_mask mask_eq_exp_minus_1)
  have "unat (take_bit 2 c) = take_bit 2 (unat c)" by (simp add: unsigned_take_bit_eq)
  then have "unat c = take_bit 2 (unat c)" using c by metis
  then have "unat c < 4" using take_bit_nat_less_exp [of 2 "unat c"] by simp
  then have "unat c = 0 \<or> unat c = 1 \<or> unat c = 2 \<or> unat c = 3" by linarith
  then show ?thesis by (simp add: word_unat_eq_iff)
qed

definition move_req :: "u32 \<Rightarrow> bool \<Rightarrow> u32" where
  "move_req c nodump = (if nodump then c OR VM_ALLOC_NOOBJ OR VM_ALLOC_NODUMP else c OR VM_ALLOC_NOOBJ)"

lemma move_req_flags:
  assumes "c AND VM_ALLOC_CLASS_MASK = c"
  shows "req_consistent None (move_req c b)" "move_req c b AND VM_ALLOC_WIRED = 0" "move_req c b AND VM_ALLOC_SBUSY = 0"
    "move_req c b AND (VM_ALLOC_NOBUSY OR VM_ALLOC_NOOBJ) \<noteq> 0" "move_req c b AND VM_ALLOC_ZERO = 0"
    "move_req c b AND (VM_ALLOC_WAITOK OR VM_ALLOC_WAITFAIL) = 0"
  using class_cases [OF assms]
  by (auto simp: move_req_def req_consistent_def VM_ALLOC_NOOBJ_def VM_ALLOC_NODUMP_def VM_ALLOC_WIRED_def VM_ALLOC_SBUSY_def
    VM_ALLOC_NOBUSY_def VM_ALLOC_ZERO_def VM_ALLOC_WAITOK_def VM_ALLOC_WAITFAIL_def)

text \<open>Addresses: \<open>addr\<close> is that of every page, and the allocator keeps to the range it is given.\<close>

definition addr_law :: "('r, 'p) alloc_env \<Rightarrow> (pid \<Rightarrow> nat) \<Rightarrow> bool" where
  "addr_law A addr \<longleftrightarrow> (\<forall>n lo hi al bo p m p'. vm_phys_alloc_contig A n lo hi al bo p = (Some m, p') \<longrightarrow>
    lo \<le> addr m \<and> addr m < hi)"

lemma contig_pages_addr:
  assumes "addr_law A addr"
  shows "contig_pages n A None i mp c p = Inr (Some m, p') \<Longrightarrow> cr_low c \<le> addr m \<and> addr m < cr_high c"
proof (induction n arbitrary: p)
  case (Suc n)
  obtain r q where v: "vm_phys_alloc_contig A (cr_npages c) (cr_low c) (cr_high c) (cr_alignment c) (cr_boundary c) p = (r, q)"
    by fastforce
  show ?case
  proof (cases r)
    case None
    then show ?thesis using Suc v by (auto split: prod.splits bool.splits)
  next
    case (Some k)
    then have "k = m" using Suc.prems v by simp
    then show ?thesis using assms v Some unfolding addr_law_def by blast
  qed
qed simp

lemma insert_run_none_objs: "insert_run A None req attr ms i mp s = (r, s') \<Longrightarrow> objs s' = objs s"
proof (induction ms arbitrary: i mp s)
  case (Cons m ms)
  then show ?case by (auto simp: Let_def split: if_splits)
qed simp

definition got ::
    "('r, 'p) alloc_env \<Rightarrow> ('p \<Rightarrow> pid set) \<Rightarrow> (pid \<Rightarrow> nat) \<Rightarrow> u32 \<Rightarrow> nat \<Rightarrow> nat \<Rightarrow> ('r, 'p) vm_sys \<Rightarrow> pid option \<Rightarrow> ('r, 'p) vm_sys \<Rightarrow> bool" where
  "got A avail addr req low high s r s' \<longleftrightarrow> objs s' = objs s \<and>
    (case r of
       None \<Rightarrow> pg s' = pg s \<and> avail (phys s') = avail (phys s)
     | Some m \<Rightarrow> m \<in> avail (phys s) \<and> avail (phys s') = avail (phys s) - {m} \<and> low \<le> addr m \<and> addr m < high \<and>
         granted A None 0 req VM_MEMATTR_DEFAULT (pg s m) (pg s' m) \<and> (\<forall>k. k \<noteq> m \<longrightarrow> pg s' k = pg s k))"

lemma alloc_one_ok:
  assumes laws: "radix_laws (venv (ra R)) view" and al: "alloc_laws (ra R) avail" and ok: "mem_ok (venv (ra R)) view avail (sys a)"
    and rl: "resv_law (ra R) resv" "resv (phys (sys a)) \<le> n" and ad: "addr_law (ra R) addr"
    and req: "req_consistent None req" "req AND (VM_ALLOC_WAITOK OR VM_ALLOC_WAITFAIL) = 0"
  shows "\<exists>r a'. alloc_one (Suc n) R req low high a = Inr (r, a') \<and> mem_ok (venv (ra R)) view avail (sys a') \<and>
    got (ra R) avail addr req low high (sys a) r (sys a')"
proof -
  let ?A = "ra R"
  define c where "c = \<lparr>cr_npages = 1, cr_low = low, cr_high = high, cr_alignment = PAGE_SIZE, cr_boundary = 0\<rparr>"
  have c: "cr_npages c = 1" "cr_low c = low" "cr_high c = high" by (simp_all add: c_def)
  have np: "\<not> (\<not> req_consistent None req \<or> (\<exists>b\<in>set_option None. OBJ_FICTITIOUS \<in> obj_flags ?A b) \<or> cr_npages c = 0 \<or>
      (\<exists>p\<in>set_option None. pindex (pg (sys a) p) = 0))"
    using req c by simp
  show ?thesis
  proof (cases "may_alloc_contig ?A (alloc_class ?A req) 1 a")
    case False
    define a1 where "a1 = daemon_wakeup ?A (a\<lparr>vm_pageout_deficit := vm_pageout_deficit a + max (drop_bit VM_ALLOC_COUNT_SHIFT req) 1\<rparr>)"
    have s1: "pg (sys a1) = pg (sys a)" "vmd (sys a1) = vmd (sys a)" "objs (sys a1) = objs (sys a)" "phys (sys a1) = phys (sys a)"
      by (simp_all add: a1_def)
    have "find_contig (Suc n) ?A None 0 req None c a = Inr (None, a1)"
      using False c req(2) by (simp add: vm_page_alloc_fail_def Let_def a1_def)
    then have "alloc_one (Suc n) R req low high a = Inr (None, a1)"
      unfolding alloc_one_def c_def [symmetric] vm_page_alloc_contig_def Let_def option.case if_not_P [OF np] by simp
    moreover have "mem_ok (venv ?A) view avail (sys a1)" by (rule mem_ok_same [OF ok s1])
    ultimately show ?thesis using s1 by (intro exI [of _ None] exI [of _ a1]) (simp add: got_def)
  next
    case True
    obtain r p where cp: "contig_pages (Suc n) ?A None 0 None c (phys (sys a)) = Inr (r, p)"
      using contig_pages_ends [OF rl(1), of "phys (sys a)" "Suc n"] rl(2) by fastforce
    note g = contig_pages_gives [OF al cp]
    define a1 where "a1 = upd_sys (\<lambda>s. s\<lparr>phys := p\<rparr>) a"
    have f: "find_contig (Suc n) ?A None 0 req None c a = Inr (r, a1)"
      unfolding find_contig.simps using True cp c by (simp add: a1_def del: contig_pages.simps)
    note e = vm_page_alloc_contig_def [of "Suc n" ?A None 0 req c VM_MEMATTR_DEFAULT a,
        unfolded option.case Let_def if_not_P [OF np] f and_then_Inr prod.case]
    show ?thesis
    proof (cases r)
      case None
      have av: "avail (phys (sys a1)) = avail (phys (sys a))" "v_free_count (venv ?A) (phys (sys a1)) = v_free_count (venv ?A) (phys (sys a))"
        using g None by (simp_all add: gives_def a1_def)
      have s1: "pg (sys a1) = pg (sys a)" "vmd (sys a1) = vmd (sys a)" "objs (sys a1) = objs (sys a)" by (simp_all add: a1_def)
      have "mem_ok (venv ?A) view avail (sys a1)"
      proof (rule mem_okI)
        show "queues_ok (venv ?A) (sys a1)" by (rule queues_ok_cong [OF _ _ mem_okD(1) [OF ok]]) (simp_all add: s1)
        show "objs_ok view (sys a1)" by (rule objs_ok_cong [OF _ _ mem_okD(2) [OF ok]]) (simp_all add: s1)
      qed (use mem_okD(3-5) [OF ok] in \<open>simp_all add: av s1\<close>)
      moreover have "alloc_one (Suc n) R req low high a = Inr (None, a1)"
        unfolding alloc_one_def c_def [symmetric] e using None by simp
      ultimately show ?thesis using av(1) s1 by (intro exI [of _ None] exI [of _ a1]) (simp add: got_def)
    next
      case (Some m)
      define s2 where "s2 = take_off_run ?A m (cr_npages c) ((sys a)\<lparr>phys := p\<rparr>)"
      define a2 where "a2 = upd_sys (take_off_run ?A m (cr_npages c)) a1"
      have a2: "sys a2 = s2" by (simp add: a2_def s2_def a1_def)
      have g': "gives avail (v_free_count (venv ?A)) (cr_npages c) (phys (sys a)) (Some m, p)" using g Some by simp
      have nf: "\<forall>b\<in>set_option None. \<forall>j<cr_npages c. view (rtree (objs (sys a) b)) (0 + j) = None" by simp
      note F = contig_found [OF laws al ok nf g' s2_def]
      have fp: "found_pred ?A None 0 (sys a) = None" by (simp add: found_pred_def)
      obtain s3 where ir: "insert_run ?A None req (contig_attr ?A None VM_MEMATTR_DEFAULT) [m..<m + cr_npages c] 0 None
          (wire_cnt req (int (cr_npages c)) s2) = (None, s3)"
        using insert_run_ok [OF laws F(7) [of req] distinct_upt, of req "contig_attr ?A None VM_MEMATTR_DEFAULT", unfolded fp] by auto
      have ca: "contig_attr ?A None VM_MEMATTR_DEFAULT = VM_MEMATTR_DEFAULT" by (simp add: contig_attr_def)
      have R: "mem_ok (venv ?A) view avail s3" "all_or_nothing ?A view avail None 0 req c VM_MEMATTR_DEFAULT (sys a) (Some m) s3"
        using contig_run_ok [OF laws al ok nf g' s2_def, unfolded fp, OF ir] by simp_all
      have o3: "objs s3 = objs (sys a)" using insert_run_none_objs [OF ir] F(4) by simp
      define a' where "a' = wake_if_needed ?A (free_pages_left ?A (a2\<lparr>sys := s3\<rparr>)) (a2\<lparr>sys := s3\<rparr>)"
      have s': "pg (sys a') = pg s3" "objs (sys a') = objs s3" "phys (sys a') = phys s3" by (simp_all add: a'_def)
      have chk: "\<not> \<not> (\<forall>k\<in>set [m..<m + cr_npages c]. vm_page_alloc_check (pg s2 k))" using F(6) by simp
      have "alloc_one (Suc n) R req low high a = Inr (Some m, a')"
        unfolding alloc_one_def c_def [symmetric] e Some option.case a2_def [symmetric] a2 if_not_P [OF chk]
          ir [unfolded ca] prod.case a'_def ..
      moreover have "mem_ok (venv ?A) view avail (sys a')" using R(1) by (simp add: a'_def)
      moreover have "low \<le> addr m \<and> addr m < high" using contig_pages_addr [OF ad cp [unfolded Some]] c by simp
      moreover have one: "{m..<m + cr_npages c} = {m}" using c by auto
      ultimately show ?thesis
        using R(2) o3 c(1) unfolding all_or_nothing_def one
        by (intro exI [of _ "Some m"] exI [of _ a']) (simp add: got_def s' ca)
    qed
  qed
qed

lemma got_none_trans: "got A avail addr req l h s None s1 \<Longrightarrow> got A avail addr req l' h' s1 r s2 \<Longrightarrow> got A avail addr req l' h' s r s2"
  by (simp add: got_def split: option.splits)

lemma round_page_ge:
  assumes "trunc_page high \<noteq> NOT PAGE_MASK"
  shows "unat high \<le> unat (round_page high)"
proof -
  have m: "NOT PAGE_MASK = (0xFFFFFFFFFFFFF000 :: u64)" by (simp add: PAGE_MASK_def)
  have lt: "unat high < 2 ^ 64 - 4096"
  proof (rule ccontr)
    assume "\<not> unat high < 2 ^ 64 - 4096"
    then have "unat high div 4096 = (2 ^ 64 - 4096) div 4096" using u64_bound [of high] by simp
    then have "unat (trunc_page high) = 18446744073709547520" by (simp only: trunc_page_def unat_trunc) simp
    then have "unat (trunc_page high) = unat (NOT PAGE_MASK)" by (simp add: m)
    then show False using assms by (simp add: word_unat_eq_iff)
  qed
  have "unat (high + PAGE_MASK) = unat high + 4095"
    using lt by (simp add: unat_word_ariths PAGE_MASK_def)
  then show ?thesis unfolding round_page_def unat_trunc by simp
qed

definition outside :: "(pid \<Rightarrow> nat) \<Rightarrow> nat \<Rightarrow> nat \<Rightarrow> pid option \<Rightarrow> bool" where
  "outside addr a b r \<longleftrightarrow> (\<forall>n. r = Some n \<longrightarrow> addr n < a \<or> b \<le> addr n)"

lemma alloc_new_ok:
  assumes laws: "radix_laws (venv (ra R)) view" and al: "alloc_laws (ra R) avail" and ok: "mem_ok (venv (ra R)) view avail (sys a)"
    and rl: "resv_law (ra R) resv" "\<forall>p. resv p \<le> n" and ad: "addr_law (ra R) addr"
    and req: "req_consistent None req" "req AND (VM_ALLOC_WAITOK OR VM_ALLOC_WAITFAIL) = 0"
    and pa: "0 < unat pa" "unat pa + 4096 * npages \<le> unat high"
  shows "\<exists>r a' l h. alloc_new (Suc n) R req npages pa high a = Inr (r, a') \<and> mem_ok (venv (ra R)) view avail (sys a') \<and>
    got (ra R) avail addr req l h (sys a) r (sys a') \<and> outside addr (unat pa) (unat pa + 4096 * npages) r"
proof -
  let ?E = "venv (ra R)"
  let ?b = "unat pa + 4096 * npages"
  have one: "\<exists>r a'. alloc_one (Suc n) R req low h a = Inr (r, a') \<and> mem_ok ?E view avail (sys a') \<and>
      got (ra R) avail addr req low h (sys a) r (sys a')" if "mem_ok ?E view avail (sys a)" for low h a
    using alloc_one_ok [OF laws al that rl(1) _ ad req] rl(2) by blast
  have out: "outside addr (unat pa) ?b r" if "got (ra R) avail addr req low h s r s'" "h \<le> unat pa \<or> ?b \<le> low" for low h s r s'
    using that by (auto simp: got_def outside_def)
  have pam: "unat (pa - 1) \<le> unat pa" using pa(1) unat_minus_one [of pa] by (cases "pa = 0") simp_all
  have pap: "unat (pa + ptoa npages) = ?b"
  proof -
    have l: "?b < 2 ^ 64" using pa(2) u64_bound [of high] by linarith
    then have "unat (ptoa npages) = 4096 * npages" by (simp add: ptoa_def PAGE_SHIFT_def push_bit_eq_mult unat_word_ariths unat_of_nat)
    then show ?thesis using l by (simp add: unat_word_ariths)
  qed
  have new: "alloc_new (Suc n) R req npages pa high a =
      and_then (if trunc_page high \<noteq> NOT PAGE_MASK then alloc_one (Suc n) R req (unat (round_page high)) (unat (- 1 :: u64)) a else Inr (None, a)) (\<lambda>(r1, a1).
      and_then (if r1 = None then alloc_one (Suc n) R req 0 (unat (pa - 1)) a1 else Inr (r1, a1)) (\<lambda>(r2, a2).
        if r2 = None then alloc_one (Suc n) R req ?b (unat high) a2 else Inr (r2, a2)))"
    unfolding alloc_new_def pap ..
  define tried where "tried s r s' \<longleftrightarrow> (\<exists>l h. got (ra R) avail addr req l h s r s') \<and> outside addr (unat pa) ?b r" for s r s'
  have attempt: "\<exists>r a'. alloc_one (Suc n) R req low h a = Inr (r, a') \<and> mem_ok ?E view avail (sys a') \<and> tried (sys a) r (sys a')"
    if "mem_ok ?E view avail (sys a)" "h \<le> unat pa \<or> ?b \<le> low" for low h a
    using one [OF that(1), of low h] out [OF _ that(2)] unfolding tried_def by blast
  have trans: "tried s r s2" if "tried s None s1" "tried s1 r s2" for s s1 r s2
    using that got_none_trans unfolding tried_def by blast
  have self: "tried s None s" for s by (auto simp: tried_def got_def outside_def)
  obtain r1 a1 where 1: "(if trunc_page high \<noteq> NOT PAGE_MASK then alloc_one (Suc n) R req (unat (round_page high)) (unat (- 1 :: u64)) a else Inr (None, a)) = Inr (r1, a1)"
      "mem_ok ?E view avail (sys a1)" "tried (sys a) r1 (sys a1)"
  proof (cases "trunc_page high \<noteq> NOT PAGE_MASK")
    case True
    have "?b \<le> unat (round_page high)" using round_page_ge [OF True] pa(2) by linarith
    then show ?thesis using that attempt [OF ok, of "unat (- 1 :: u64)" "unat (round_page high)"] True by auto
  qed (use that ok self in auto)
  obtain r2 a2 where 2: "(if r1 = None then alloc_one (Suc n) R req 0 (unat (pa - 1)) a1 else Inr (r1, a1)) = Inr (r2, a2)"
      "mem_ok ?E view avail (sys a2)" "tried (sys a) r2 (sys a2)"
  proof (cases "r1 = None")
    case True
    then show ?thesis using that attempt [OF 1(2), of "unat (pa - 1)" 0] pam trans [of "sys a" "sys a1"] 1(3) by auto
  qed (use that 1 in auto)
  obtain r3 a3 where 3: "(if r2 = None then alloc_one (Suc n) R req ?b (unat high) a2 else Inr (r2, a2)) = Inr (r3, a3)"
      "mem_ok ?E view avail (sys a3)" "tried (sys a) r3 (sys a3)"
  proof (cases "r2 = None")
    case True
    then show ?thesis using that attempt [OF 2(2), of "unat high" ?b] trans [of "sys a" "sys a2"] 2(3) by auto
  qed (use that 2 in auto)
  have "alloc_new (Suc n) R req npages pa high a = Inr (r3, a3)"
    unfolding new 1(1) and_then_Inr prod.case 2(1) 3(1) ..
  then show ?thesis using 3(2,3) unfolding tried_def by blast
qed

section \<open>Freeing the pages\<close>

lemma free_phys_ok:
  assumes al: "alloc_laws A avail" and ok: "mem_ok (venv A) view avail s" and m: "m \<notin> avail (phys s)" "fresh (pg s m)"
  shows "mem_ok (venv A) view avail (vm_page_free_phys (venv A) m s)"
    "avail (phys (vm_page_free_phys (venv A) m s)) = insert m (avail (phys s))"
    "pg (vm_page_free_phys (venv A) m s) = pg s"
proof -
  let ?s = "vm_page_free_phys (venv A) m s"
  have ph: "phys ?s = handed (venv A) m (phys s)" and st: "pg ?s = pg s" "vmd ?s = vmd s" "objs ?s = objs s"
    by (simp_all add: vm_page_free_phys_def handed_def Let_def split: prod.split)
  show av: "avail (phys ?s) = insert m (avail (phys s))" using alloc_laws_free(1) [OF al m(1)] by (simp add: ph)
  show "pg ?s = pg s" by (rule st(1))
  show "mem_ok (venv A) view avail ?s"
  proof (rule mem_okI)
    show "queues_ok (venv A) ?s" by (rule queues_ok_cong [OF _ _ mem_okD(1) [OF ok]]) (simp_all add: st)
    show "objs_ok view ?s" by (rule objs_ok_cong [OF _ _ mem_okD(2) [OF ok]]) (simp_all add: st)
    show "fresh (pg ?s k)" if "k \<in> avail (phys ?s)" for k
      using that [unfolded av] m(2) mem_okD(3) [OF ok, of k] by (auto simp: st)
  qed (use av mem_okD(4,5) [OF ok] m(1) alloc_laws_free(2) [OF al m(1)] in \<open>simp_all add: ph\<close>)
qed

lemma free_all_ok:
  assumes al: "alloc_laws A avail"
  shows "mem_ok (venv A) view avail s \<Longrightarrow> distinct ms \<Longrightarrow> \<forall>k\<in>set ms. k \<notin> avail (phys s) \<and> fresh (pg s k) \<Longrightarrow>
    mem_ok (venv A) view avail (free_all (venv A) ms s) \<and> pg (free_all (venv A) ms s) = pg s \<and>
    avail (phys (free_all (venv A) ms s)) = avail (phys s) \<union> set ms"
proof -
  have wk: "mem_ok (venv A) view avail (vm_page_free_wakeup (venv A) s) = mem_ok (venv A) view avail s"
    "pg (vm_page_free_wakeup (venv A) s) = pg s" "phys (vm_page_free_wakeup (venv A) s) = phys s" for s
  proof -
    have e: "pg (vm_page_free_wakeup (venv A) s) = pg s" "vmd (vm_page_free_wakeup (venv A) s) = vmd s"
      "objs (vm_page_free_wakeup (venv A) s) = objs s" "phys (vm_page_free_wakeup (venv A) s) = phys s"
      by (simp_all add: vm_page_free_wakeup_def Let_def)
    show "mem_ok (venv A) view avail (vm_page_free_wakeup (venv A) s) = mem_ok (venv A) view avail s"
      using mem_ok_same [OF _ e] mem_ok_same [of "venv A" view avail "vm_page_free_wakeup (venv A) s" s] e by auto
    show "pg (vm_page_free_wakeup (venv A) s) = pg s" "phys (vm_page_free_wakeup (venv A) s) = phys s" by (rule e)+
  qed
  have f: "mem_ok (venv A) view avail s \<Longrightarrow> distinct ms \<Longrightarrow> \<forall>k\<in>set ms. k \<notin> avail (phys s) \<and> fresh (pg s k) \<Longrightarrow>
      mem_ok (venv A) view avail (fold (vm_page_free_phys (venv A)) ms s) \<and> pg (fold (vm_page_free_phys (venv A)) ms s) = pg s \<and>
      avail (phys (fold (vm_page_free_phys (venv A)) ms s)) = avail (phys s) \<union> set ms" for s
  proof (induction ms arbitrary: s)
    case (Cons m ms)
    note F = free_phys_ok [OF al Cons.prems(1), of m]
    show ?case using Cons.IH [of "vm_page_free_phys (venv A) m s"] F Cons.prems by auto
  qed simp
  assume "mem_ok (venv A) view avail s" "distinct ms" "\<forall>k\<in>set ms. k \<notin> avail (phys s) \<and> fresh (pg s k)"
  then show ?thesis using f by (simp add: free_all_def wk)
qed

end
