(* ===== verification/Vm_Reclaim_Run_Props.thy ===== *)
theory Vm_Reclaim_Run_Props
  imports Vm_Reclaim_Props Vm_Contig_Scan_Props
begin

text \<open>
  Reclaiming a run of pages: the state that the loop over the run keeps, and what the run and the
  memory outside it look like in the end.
\<close>

section \<open>Dropping an invalid page\<close>

lemma drop_ok:
  assumes laws: "radix_laws E view" and ok: "mem_ok E view avail s" and m: "object (pg s m) = Some ob" "movable_page (pg s m)"
    "valid (pg s m) = 0" "dirty (pg s m) = 0"
  defines "s' \<equiv> vm_page_remove E m (vm_page_remque E m (upd_page m (\<lambda>x. x\<lparr>flags := flags x - {PG_ZERO}\<rparr>) s))"
  shows "mem_ok E view avail s' \<and> phys s' = phys s \<and> fresh (pg s' m) \<and> (\<forall>k. k \<noteq> m \<longrightarrow> pg s' k = pg s k) \<and>
    phys_addr (pg s' m) = phys_addr (pg s m) \<and> dirty (pg s' m) = 0"
proof -
  have free: "m \<notin> avail (phys s)" using in_object_not_free [OF ok] m(1) by simp
  define s1 where "s1 = upd_page m (\<lambda>x. x\<lparr>flags := flags x - {PG_ZERO}\<rparr>) s"
  define s2 where "s2 = vm_page_remque E m s1"
  have e: "s' = vm_page_remove E m s2" by (simp add: s'_def s2_def s1_def)
  have q1: "queues_ok E s1"
    by (rule queues_ok_cong [OF _ _ mem_okD(1) [OF ok]]) (auto simp: s1_def upd_pg_def)
  have "regular s1 m" using m(2) by (auto simp: regular_def s1_def movable_page_def)
  then have q2: "queues_ok E s2" unfolding s2_def by (rule remque_ok [OF q1])
  have o2: "objs_ok view s2"
    by (rule objs_ok_cong [OF _ _ mem_okD(2) [OF ok]]) (auto simp: s2_def s1_def upd_pg_def)
  have p2: "pg s2 m = (pg s m)\<lparr>flags := flags (pg s m) - {PG_ZERO}, queue := PQ_NONE\<rparr>" "\<And>k. k \<noteq> m \<Longrightarrow> pg s2 k = pg s k"
    "phys s2 = phys s"
    by (simp_all add: s2_def s1_def)
  have b: "busy_lock (pg s m) = VPB_UNBUSIED" using m(2) by (simp add: movable_page_def)
  have p': "pg s' m = (pg s2 m)\<lparr>object := None\<rparr>"
    using m(1) b by (simp add: e vm_page_remove_def p2 Let_def vm_page_xbusied_def VPB_UNBUSIED_def VPB_SHARERS_WORD_def VPB_SINGLE_EXCLUSIVER_def VPB_BIT_SHARED_def VPB_BIT_EXCLUSIVE_def)
  have oth: "\<And>k. k \<noteq> m \<Longrightarrow> pg s' k = pg s k"
    using remove_state(2) [of s2 m ob] m(1) by (simp add: e p2)
  have "fresh (pg s' m)"
    using m(2-4) by (auto simp: p' p2(1) fresh_def vm_page_alloc_check_def vm_page_busied_def movable_page_def)
  moreover have "mem_ok E view avail s'"
  proof (rule mem_ok_pages [OF ok])
    show "queues_ok E s'" unfolding e by (rule queues_ok_cong [OF _ _ q2]) simp_all
    show "objs_ok view s'" unfolding e by (rule remove_ok [OF laws o2])
    show "phys s' = phys s" by (simp add: e p2)
    show "pg s' k = pg s k" if "k \<in> avail (phys s)" for k using oth free that by metis
  qed
  ultimately show ?thesis using oth m(4) by (simp add: e p2) (simp add: p' [unfolded e] p2)
qed

section \<open>The run and the state of the loop\<close>

text \<open>
  The run lies below \<open>high\<close> and its pages have consecutive addresses; the pages in objects are as
  the kernel's assertions want them; the first page of a free block stands for the whole block.
\<close>

definition run_ready ::
    "('r, 'p) reclaim_env \<Rightarrow> (pid \<Rightarrow> nat) \<Rightarrow> pid \<Rightarrow> nat \<Rightarrow> u64 \<Rightarrow> ('r, 'p) vm_sys \<Rightarrow> bool" where
  "run_ready R addr lo np high s \<longleftrightarrow>
    0 < addr lo \<and> addr lo + 4096 * np \<le> unat high \<and> phys_addr (pg s lo) = addr lo \<and>
    (\<forall>k\<in>{lo..<lo + np}. addr k = addr lo + 4096 * (k - lo) \<and> flags (pg s k) \<inter> {PG_FICTITIOUS, PG_MARKER} = {} \<and>
      (object (pg s k) \<noteq> None \<and> wire_count (pg s k) = 0 \<and> hold_count (pg s k) = 0 \<longrightarrow>
        PG_UNHOLDFREE \<notin> flags (pg s k) \<and> memattr (pg s k) = VM_MEMATTR_DEFAULT \<and>
        oflags (pg s k) \<inter> {VPO_SWAPINPROG, VPO_SWAPSLEEP, VPO_UNMANAGED} = {} \<and> (valid (pg s k) = 0 \<longrightarrow> dirty (pg s k) = 0)) \<and>
      (object (pg s k) = None \<and> order (pg s k) < VM_NFREEORDER (rc R) \<longrightarrow>
        (\<forall>j. k \<le> j \<and> j < k + 2 ^ order (pg s k) \<longrightarrow> object (pg s j) = None)))"

definition moved :: "('r, 'p) vm_sys \<Rightarrow> pid set \<Rightarrow> (pid \<times> pid) list \<Rightarrow> ('r, 'p) vm_sys \<Rightarrow> pid \<Rightarrow> bool" where
  "moved s0 run cs s k \<longleftrightarrow> (\<exists>k'. (k, k') \<in> set cs \<and> k' \<notin> run \<and> object (pg s k') = object (pg s0 k) \<and>
    pindex (pg s k') = pindex (pg s0 k) \<and> valid (pg s k') = valid (pg s0 k))"

definition run_state ::
    "('r, 'p) reclaim_env \<Rightarrow> ('r \<Rightarrow> nat \<Rightarrow> pid option) \<Rightarrow> ('p \<Rightarrow> pid set) \<Rightarrow> pid \<Rightarrow> nat \<Rightarrow> ('r, 'p) vm_sys \<Rightarrow> pid
      \<Rightarrow> ('r, 'p) reclaim_state \<Rightarrow> bool" where
  "run_state R view avail lo np s0 m t \<longleftrightarrow> (let s = sys (asys t); run = {lo..<lo + np} in
    mem_ok (venv (ra R)) view avail s \<and> avail (phys s) \<subseteq> avail (phys s0) \<and> phys_addr (pg s lo) = phys_addr (pg s0 lo) \<and>
    (\<forall>k\<in>run. m \<le> k \<longrightarrow> pg s k = pg s0 k) \<and> (\<forall>k. k \<notin> run \<and> k \<notin> avail (phys s0) \<longrightarrow> pg s k = pg s0 k) \<and>
    distinct (to_free t) \<and> (\<forall>k\<in>set (to_free t). k \<in> run \<and> k < m \<and> fresh (pg s k) \<and> k \<notin> avail (phys s)) \<and>
    (\<forall>k\<in>run. k < m \<and> object (pg s0 k) \<noteq> None \<longrightarrow>
      k \<in> set (to_free t) \<and> (valid (pg s0 k) \<noteq> 0 \<longrightarrow> moved s0 run (copies t) s k)))"

lemma run_stateD:
  assumes "run_state R view avail lo np s0 m t"
  shows "mem_ok (venv (ra R)) view avail (sys (asys t))" "avail (phys (sys (asys t))) \<subseteq> avail (phys s0)"
    "phys_addr (pg (sys (asys t)) lo) = phys_addr (pg s0 lo)"
    "k \<in> {lo..<lo + np} \<Longrightarrow> m \<le> k \<Longrightarrow> pg (sys (asys t)) k = pg s0 k"
    "k \<notin> {lo..<lo + np} \<Longrightarrow> k \<notin> avail (phys s0) \<Longrightarrow> pg (sys (asys t)) k = pg s0 k"
    "distinct (to_free t)"
    "k \<in> set (to_free t) \<Longrightarrow> k \<in> {lo..<lo + np} \<and> k < m \<and> fresh (pg (sys (asys t)) k) \<and> k \<notin> avail (phys (sys (asys t)))"
    "k \<in> {lo..<lo + np} \<Longrightarrow> k < m \<Longrightarrow> object (pg s0 k) \<noteq> None \<Longrightarrow> k \<in> set (to_free t)"
    "k \<in> {lo..<lo + np} \<Longrightarrow> k < m \<Longrightarrow> object (pg s0 k) \<noteq> None \<Longrightarrow> valid (pg s0 k) \<noteq> 0 \<Longrightarrow>
      moved s0 {lo..<lo + np} (copies t) (sys (asys t)) k"
proof -
  let ?s = "sys (asys t)" and ?run = "{lo..<lo + np}"
  note N = assms [unfolded run_state_def Let_def]
  note L = N [THEN conjunct1]
    N [THEN conjunct2, THEN conjunct1]
    N [THEN conjunct2, THEN conjunct2, THEN conjunct1]
    N [THEN conjunct2, THEN conjunct2, THEN conjunct2, THEN conjunct1]
    N [THEN conjunct2, THEN conjunct2, THEN conjunct2, THEN conjunct2, THEN conjunct1]
    N [THEN conjunct2, THEN conjunct2, THEN conjunct2, THEN conjunct2, THEN conjunct2, THEN conjunct1]
    N [THEN conjunct2, THEN conjunct2, THEN conjunct2, THEN conjunct2, THEN conjunct2, THEN conjunct2, THEN conjunct1]
    N [THEN conjunct2, THEN conjunct2, THEN conjunct2, THEN conjunct2, THEN conjunct2, THEN conjunct2, THEN conjunct2]
  show "mem_ok (venv (ra R)) view avail ?s" "avail (phys ?s) \<subseteq> avail (phys s0)" "phys_addr (pg ?s lo) = phys_addr (pg s0 lo)"
    "distinct (to_free t)" by (rule L)+
  show "k \<in> ?run \<Longrightarrow> m \<le> k \<Longrightarrow> pg ?s k = pg s0 k" using L(4) by blast
  show "k \<notin> ?run \<Longrightarrow> k \<notin> avail (phys s0) \<Longrightarrow> pg ?s k = pg s0 k" using L(5) by blast
  show "k \<in> set (to_free t) \<Longrightarrow> k \<in> ?run \<and> k < m \<and> fresh (pg ?s k) \<and> k \<notin> avail (phys ?s)" using L(7) by (rule bspec)
  show "k \<in> ?run \<Longrightarrow> k < m \<Longrightarrow> object (pg s0 k) \<noteq> None \<Longrightarrow> k \<in> set (to_free t)"
    "k \<in> ?run \<Longrightarrow> k < m \<Longrightarrow> object (pg s0 k) \<noteq> None \<Longrightarrow> valid (pg s0 k) \<noteq> 0 \<Longrightarrow> moved s0 ?run (copies t) ?s k"
    using bspec [OF L(8), of k] by simp_all
qed

text \<open>A state in which the pages and the free pages are the same.\<close>

lemma run_state_same:
  assumes r: "run_state R view avail lo np s0 m t" and ok: "mem_ok (venv (ra R)) view avail (sys a)"
    and e: "pg (sys a) = pg (sys (asys t))" "avail (phys (sys a)) = avail (phys (sys (asys t)))"
  shows "run_state R view avail lo np s0 m (t\<lparr>asys := a\<rparr>)"
proof -
  have s: "sys (asys (t\<lparr>asys := a\<rparr>)) = sys a" "to_free (t\<lparr>asys := a\<rparr>) = to_free t" "copies (t\<lparr>asys := a\<rparr>) = copies t"
    by simp_all
  show ?thesis
    unfolding run_state_def Let_def moved_def s e
    by (rule conjI [OF ok r [unfolded run_state_def Let_def moved_def, THEN conjunct2]])
qed

text \<open>Dealing with page \<open>m\<close>: what it has to be like afterwards.\<close>

lemma run_state_step:
  assumes r: "run_state R view avail lo np s0 m t" and m: "m \<in> {lo..<lo + np}" "object (pg s0 m) \<noteq> None"
    and ok: "mem_ok (venv (ra R)) view avail s'" and av: "avail (phys s') \<subseteq> avail (phys (sys (asys t)))"
    and oth: "\<And>k. k \<noteq> m \<Longrightarrow> k \<notin> avail (phys (sys (asys t))) \<or> k \<in> {lo..<lo + np} \<Longrightarrow> pg s' k = pg (sys (asys t)) k"
    and pm: "fresh (pg s' m)" "phys_addr (pg s' m) = phys_addr (pg (sys (asys t)) m)"
    and mv: "valid (pg s0 m) \<noteq> 0 \<Longrightarrow> moved s0 {lo..<lo + np} cs s' m" and cs: "set (copies t) \<subseteq> set cs"
  shows "run_state R view avail lo np s0 (m + 1) \<lparr>copies = cs, to_free = m # to_free t, asys = a\<lparr>sys := s'\<rparr>\<rparr>"
proof -
  let ?s = "sys (asys t)" and ?run = "{lo..<lo + np}"
  note D = run_stateD [OF r]
  have pgm: "pg ?s m = pg s0 m" using D(4) [of m] m(1) by simp
  have nm: "m \<notin> avail (phys ?s)" using in_object_not_free [OF D(1)] m(2) pgm by simp
  have mvo: "moved s0 ?run cs s' k" if kk: "k \<in> ?run" "k < m" "object (pg s0 k) \<noteq> None" "valid (pg s0 k) \<noteq> 0" for k
  proof -
    obtain k' where k': "(k, k') \<in> set (copies t)" "k' \<notin> ?run" "object (pg ?s k') = object (pg s0 k)"
      "pindex (pg ?s k') = pindex (pg s0 k)" "valid (pg ?s k') = valid (pg s0 k)"
      using D(9) [OF kk] unfolding moved_def by blast
    have "k' \<notin> avail (phys ?s)" using in_object_not_free [OF D(1), of k'] k'(3) kk(3) by simp
    then have "pg s' k' = pg ?s k'" using oth [of k'] k'(2) m(1) by blast
    then show ?thesis using k' cs unfolding moved_def by (intro exI [of _ k']) auto
  qed
  have fr: "fresh (pg s' k)" "k \<notin> avail (phys s')" "k < m" "k \<in> ?run" if "k \<in> set (to_free t)" for k
    using D(7) [OF that] oth [of k] av by auto
  show ?thesis
    unfolding run_state_def Let_def
  proof (intro conjI)
    show "mem_ok (venv (ra R)) view avail (sys (asys \<lparr>copies = cs, to_free = m # to_free t, asys = a\<lparr>sys := s'\<rparr>\<rparr>))" using ok by simp
    show "avail (phys (sys (asys \<lparr>copies = cs, to_free = m # to_free t, asys = a\<lparr>sys := s'\<rparr>\<rparr>))) \<subseteq> avail (phys s0)"
      using av D(2) by auto
    show "phys_addr (pg (sys (asys \<lparr>copies = cs, to_free = m # to_free t, asys = a\<lparr>sys := s'\<rparr>\<rparr>)) lo) = phys_addr (pg s0 lo)"
      using oth [of lo] pm(2) D(3) m(1) by (cases "lo = m") auto
    show "\<forall>k\<in>?run. m + 1 \<le> k \<longrightarrow> pg (sys (asys \<lparr>copies = cs, to_free = m # to_free t, asys = a\<lparr>sys := s'\<rparr>\<rparr>)) k = pg s0 k"
      using oth D(4) by auto
    show "\<forall>k. k \<notin> ?run \<and> k \<notin> avail (phys s0) \<longrightarrow> pg (sys (asys \<lparr>copies = cs, to_free = m # to_free t, asys = a\<lparr>sys := s'\<rparr>\<rparr>)) k = pg s0 k"
    proof (intro allI impI)
      fix k assume k: "k \<notin> ?run \<and> k \<notin> avail (phys s0)"
      then have "pg s' k = pg ?s k" using oth [of k] m(1) D(2) by blast
      then show "pg (sys (asys \<lparr>copies = cs, to_free = m # to_free t, asys = a\<lparr>sys := s'\<rparr>\<rparr>)) k = pg s0 k" using D(5) [of k] k by simp
    qed
    show "distinct (to_free \<lparr>copies = cs, to_free = m # to_free t, asys = a\<lparr>sys := s'\<rparr>\<rparr>)" using D(6) fr(3) by auto
    show "\<forall>k\<in>set (to_free \<lparr>copies = cs, to_free = m # to_free t, asys = a\<lparr>sys := s'\<rparr>\<rparr>). k \<in> ?run \<and> k < m + 1 \<and>
        fresh (pg (sys (asys \<lparr>copies = cs, to_free = m # to_free t, asys = a\<lparr>sys := s'\<rparr>\<rparr>)) k) \<and>
        k \<notin> avail (phys (sys (asys \<lparr>copies = cs, to_free = m # to_free t, asys = a\<lparr>sys := s'\<rparr>\<rparr>)))"
      using fr pm(1) m(1) av nm by (auto simp: less_Suc_eq)
    show "\<forall>k\<in>?run. k < m + 1 \<and> object (pg s0 k) \<noteq> None \<longrightarrow>
        k \<in> set (to_free \<lparr>copies = cs, to_free = m # to_free t, asys = a\<lparr>sys := s'\<rparr>\<rparr>) \<and> (valid (pg s0 k) \<noteq> 0 \<longrightarrow>
          moved s0 ?run (copies \<lparr>copies = cs, to_free = m # to_free t, asys = a\<lparr>sys := s'\<rparr>\<rparr>) (sys (asys \<lparr>copies = cs, to_free = m # to_free t, asys = a\<lparr>sys := s'\<rparr>\<rparr>)) k)"
      using D(8) mvo mv by (auto simp: less_Suc_eq)
  qed
qed

section \<open>One page in an object\<close>

definition reclaim_laws ::
    "('r, 'p) reclaim_env \<Rightarrow> ('r \<Rightarrow> nat \<Rightarrow> pid option) \<Rightarrow> ('p \<Rightarrow> pid set) \<Rightarrow> ('p \<Rightarrow> nat) \<Rightarrow> nat \<Rightarrow> (pid \<Rightarrow> nat) \<Rightarrow> bool" where
  "reclaim_laws R view avail resv B addr \<longleftrightarrow>
    radix_laws (venv (ra R)) view \<and> keeps_page (venv (ra R)) \<and> alloc_laws (ra R) avail \<and> resv_law (ra R) resv \<and>
    (\<forall>p. resv p \<le> B) \<and> addr_law (ra R) addr \<and> undisturbed (rc R)"

lemma reclaim_lawsD:
  assumes "reclaim_laws R view avail resv B addr"
  shows "radix_laws (venv (ra R)) view" "keeps_page (venv (ra R))" "alloc_laws (ra R) avail" "resv_law (ra R) resv"
    "B \<le> n \<Longrightarrow> \<forall>p. resv p \<le> n" "addr_law (ra R) addr" "tryrlock (rc R) ob s"
  using assms by (auto simp: reclaim_laws_def undisturbed_def intro: le_trans)

lemma run_readyD:
  assumes "run_ready R addr lo np high s" "k \<in> {lo..<lo + np}"
  shows "addr k = addr lo + 4096 * (k - lo)" "flags (pg s k) \<inter> {PG_FICTITIOUS, PG_MARKER} = {}"
    "object (pg s k) = Some ob \<Longrightarrow> wire_count (pg s k) = 0 \<Longrightarrow> hold_count (pg s k) = 0 \<Longrightarrow>
      PG_UNHOLDFREE \<notin> flags (pg s k) \<and> memattr (pg s k) = VM_MEMATTR_DEFAULT \<and>
        oflags (pg s k) \<inter> {VPO_SWAPINPROG, VPO_SWAPSLEEP, VPO_UNMANAGED} = {} \<and> (valid (pg s k) = 0 \<longrightarrow> dirty (pg s k) = 0)"
    "object (pg s k) = None \<Longrightarrow> order (pg s k) < VM_NFREEORDER (rc R) \<Longrightarrow>
      \<forall>j. k \<le> j \<and> j < k + 2 ^ order (pg s k) \<longrightarrow> object (pg s j) = None"
  using assms(1) [unfolded run_ready_def, THEN conjunct2, THEN conjunct2, THEN conjunct2, rule_format, OF assms(2)] by simp_all

lemma run_phys:
  assumes rd: "run_ready R addr lo np high s0" and r: "run_state R view avail lo np s0 m t"
  shows "unat (VM_PAGE_TO_PHYS (sys (asys t)) lo) = addr lo"
proof -
  have "addr lo \<le> unat high" using rd by (simp add: run_ready_def)
  then have "addr lo < 2 ^ 64" using u64_bound [of high] by linarith
  then show ?thesis using rd run_stateD(3) [OF r] by (simp add: VM_PAGE_TO_PHYS_def run_ready_def unat_of_nat)
qed

lemma outside_run:
  assumes rd: "run_ready R addr lo np high s0" and o: "outside addr (addr lo) (addr lo + 4096 * np) (Some n)"
  shows "n \<notin> {lo..<lo + np}"
proof
  assume n: "n \<in> {lo..<lo + np}"
  then have "addr n = addr lo + 4096 * (n - lo)" by (rule run_readyD(1) [OF rd])
  moreover have "n - lo < np" using n by auto
  ultimately show False using o by (simp add: outside_def)
qed

lemma granted_blank:
  assumes c: "c AND VM_ALLOC_CLASS_MASK = c" and g: "granted A None 0 (move_req c b) VM_MEMATTR_DEFAULT x y"
  shows "blank_page y" "wire_count y = 0" "oflags y = {VPO_UNMANAGED}"
  using move_req_flags [OF c, of b] g by (auto simp: granted_def blank_page_def req_oflags_def)

lemma relocate_step:
  assumes L: "reclaim_laws R view avail resv B addr" and rd: "run_ready R addr lo np high s0"
    and r: "run_state R view avail lo np s0 m t" and m: "m \<in> {lo..<lo + np}" "object (pg s0 m) = Some ob" "movable_page (pg s0 m)"
    and ok: "mem_ok (venv (ra R)) view avail (sys a)" and g: "got (ra R) avail addr (move_req c b) l h (sys (asys t)) (Some n) (sys a)"
    and c: "c AND VM_ALLOC_CLASS_MASK = c" and o: "n \<notin> {lo..<lo + np}"
  shows "\<exists>s'. relocate (venv (ra R)) m ob n (sys a) = Inr s' \<and>
    run_state R view avail lo np s0 (m + 1) \<lparr>copies = (m, n) # copies t, to_free = m # to_free t, asys = a\<lparr>sys := s'\<rparr>\<rparr>"
proof -
  let ?E = "venv (ra R)" and ?s = "sys (asys t)"
  note D = run_stateD [OF r]
  have n: "n \<in> avail (phys ?s)" "avail (phys (sys a)) = avail (phys ?s) - {n}" "objs (sys a) = objs ?s"
    "\<And>k. k \<noteq> n \<Longrightarrow> pg (sys a) k = pg ?s k"
    "granted (ra R) None 0 (move_req c b) VM_MEMATTR_DEFAULT (pg ?s n) (pg (sys a) n)"
    using g by (simp_all add: got_def)
  have nm: "n \<noteq> m" using o m(1) by blast
  have pgm: "pg (sys a) m = pg s0 m" using n(4) [OF nm [symmetric]] D(4) [OF m(1)] by simp
  obtain s' where s': "relocate ?E m ob n (sys a) = Inr s'" "mem_ok ?E view avail s'" "phys s' = phys (sys a)" "fresh (pg s' m)"
      "\<forall>k. k \<noteq> m \<and> k \<noteq> n \<longrightarrow> pg s' k = pg (sys a) k" "object (pg s' n) = Some ob" "pindex (pg s' n) = pindex (pg s0 m)"
      "valid (pg s' n) = valid (pg s0 m)" "\<forall>k. phys_addr (pg s' k) = phys_addr (pg (sys a) k)"
    using relocate_ok [OF reclaim_lawsD(1,2) [OF L] ok, of m ob n] pgm m(2,3) n(2) granted_blank(1) [OF c n(5)] nm by auto
  have "run_state R view avail lo np s0 (m + 1) \<lparr>copies = (m, n) # copies t, to_free = m # to_free t, asys = a\<lparr>sys := s'\<rparr>\<rparr>"
  proof (rule run_state_step [OF r m(1) _ s'(2)])
    show "object (pg s0 m) \<noteq> None" using m(2) by simp
    show "avail (phys s') \<subseteq> avail (phys ?s)" using s'(3) n(2) by auto
    show "pg s' k = pg ?s k" if "k \<noteq> m" "k \<notin> avail (phys ?s) \<or> k \<in> {lo..<lo + np}" for k
    proof -
      have "k \<noteq> n" using that(2) n(1) o by blast
      then show ?thesis using s'(5) n(4) that(1) by simp
    qed
    show "fresh (pg s' m)" by (rule s'(4))
    show "phys_addr (pg s' m) = phys_addr (pg ?s m)" using s'(9) n(4) [OF nm [symmetric]] by simp
    show "moved s0 {lo..<lo + np} ((m, n) # copies t) s' m"
      unfolding moved_def using s'(6-8) o m(2) by (intro exI [of _ n]) simp
  qed auto
  then show ?thesis using s'(1) by blast
qed

lemma reclaim_object_ok:
  assumes L: "reclaim_laws R view avail resv B addr" "B \<le> n" and rd: "run_ready R addr lo np high s0"
    and r: "run_state R view avail lo np s0 m t" and c: "c AND VM_ALLOC_CLASS_MASK = c"
    and m: "m \<in> {lo..<lo + np}" "object (pg s0 m) = Some ob" "wire_count (pg s0 m) = 0" "hold_count (pg s0 m) = 0"
  shows "\<exists>e t'. reclaim_object (Suc n) R c np lo high m ob t = Inr (e, t') \<and>
    run_state R view avail lo np s0 (if e = None then m + 1 else m) t'"
proof -
  let ?E = "venv (ra R)"
  define s where "s = sys (asys t)"
  note D = run_stateD [OF r, folded s_def] and K = run_readyD [OF rd m(1)]
  have x: "pg s m = pg s0 m" using D(4) [OF m(1)] by simp
  note K3 = K(3) [OF m(2-4)]
  have hold: "PG_UNHOLDFREE \<notin> flags (pg s0 m)" using K3 by simp
  let ?type = "otype (objs s ob) \<noteq> OBJT_DEFAULT \<and> otype (objs s ob) \<noteq> OBJT_SWAP \<and> otype (objs s ob) \<noteq> OBJT_VNODE"
  let ?attr = "obj_memattr (ra R) ob \<noteq> VM_MEMATTR_DEFAULT"
  let ?idle = "queue (pg s0 m) \<noteq> PQ_NONE \<and> \<not> vm_page_busied (busy_lock (pg s0 m))"
  note RO = reclaim_object_def [of "Suc n" R c np lo high m ob t, unfolded Let_def, folded s_def, unfolded x]
  show ?thesis
  proof (cases "?type \<or> ?attr \<or> \<not> ?idle")
    case True
    then have "\<exists>e. reclaim_object (Suc n) R c np lo high m ob t = Inr (Some e, t)" using hold by (auto simp: RO)
    then show ?thesis using r by force
  next
    case False
    then have able: "\<not> ?type" "\<not> ?attr" ?idle by blast+
    then have mv: "movable_page (pg s0 m)"
      using m K(2) K3 by (auto simp: movable_page_def vm_page_busied_def)
    show ?thesis
    proof (cases "valid (pg s0 m) = 0")
      case True
      define s1 where "s1 = vm_page_remove ?E m (vm_page_remque ?E m (upd_page m (\<lambda>x. x\<lparr>flags := flags x - {PG_ZERO}\<rparr>) s))"
      have d: "dirty (pg s0 m) = 0" using K3 True by simp
      have P: "mem_ok ?E view avail s1 \<and> phys s1 = phys s \<and> fresh (pg s1 m) \<and> (\<forall>k. k \<noteq> m \<longrightarrow> pg s1 k = pg s k) \<and>
          phys_addr (pg s1 m) = phys_addr (pg s m) \<and> dirty (pg s1 m) = 0"
        unfolding s1_def by (rule drop_ok [OF reclaim_lawsD(1) [OF L(1)] D(1)]) (use x m(2) mv True d in simp_all)
      have t: "t\<lparr>to_free := m # to_free t, asys := (asys t)\<lparr>sys := s1\<rparr>\<rparr> =
          \<lparr>copies = copies t, to_free = m # to_free t, asys = (asys t)\<lparr>sys := s1\<rparr>\<rparr>" by (cases t) simp
      have "reclaim_object (Suc n) R c np lo high m ob t = Inr (None, t\<lparr>to_free := m # to_free t, asys := (asys t)\<lparr>sys := s1\<rparr>\<rparr>)"
        using False hold K3 True P by (simp add: RO s1_def [symmetric])
      moreover have "run_state R view avail lo np s0 (m + 1) \<lparr>copies = copies t, to_free = m # to_free t, asys = (asys t)\<lparr>sys := s1\<rparr>\<rparr>"
        by (rule run_state_step [OF r m(1)]) (use P m(2) True in \<open>simp_all add: s_def\<close>)
      ultimately show ?thesis unfolding t by force
    next
      case valid: False
      define req where "req = move_req c (PG_NODUMP \<in> flags (pg s0 m))"
      have rq: "(if PG_NODUMP \<in> flags (pg s0 m) then (c OR VM_ALLOC_NOOBJ) OR VM_ALLOC_NODUMP else c OR VM_ALLOC_NOOBJ) = req"
        by (simp add: req_def move_req_def or.assoc)
      note F = move_req_flags [OF c, of "PG_NODUMP \<in> flags (pg s0 m)", folded req_def]
      have pa: "unat (VM_PAGE_TO_PHYS s lo) = addr lo" unfolding s_def by (rule run_phys [OF rd r])
      obtain q a l h where q: "alloc_new (Suc n) R req np (VM_PAGE_TO_PHYS s lo) high (asys t) = Inr (q, a)"
          "mem_ok ?E view avail (sys a)" "got (ra R) avail addr req l h s q (sys a)" "outside addr (addr lo) (addr lo + 4096 * np) q"
        using alloc_new_ok [OF reclaim_lawsD(1,3) [OF L(1)] D(1) [unfolded s_def] reclaim_lawsD(4) [OF L(1)] reclaim_lawsD(5) [OF L]
            reclaim_lawsD(6) [OF L(1)] F(1,6), of "VM_PAGE_TO_PHYS s lo" np high] rd pa
        unfolding s_def by (auto simp: run_ready_def)
      have e: "reclaim_object (Suc n) R c np lo high m ob t =
          and_then (alloc_new (Suc n) R req np (VM_PAGE_TO_PHYS s lo) high (asys t)) (\<lambda>(r, a).
            case r of
              None \<Rightarrow> Inr (Some ENOMEM, t\<lparr>asys := a\<rparr>)
            | Some m_new \<Rightarrow>
                if wire_count (pg (sys a) m_new) \<noteq> 0 \<or> oflags (pg (sys a) m_new) \<noteq> {VPO_UNMANAGED} then Inl Kernel_panic
                else and_then (relocate ?E m ob m_new (sys a)) (\<lambda>s'.
                  Inr (None, \<lparr>copies = (m, m_new) # copies t, to_free = m # to_free t, asys = a\<lparr>sys := s'\<rparr>\<rparr>)))"
        using K3 valid unfolding RO rq if_not_P [OF hold] if_not_P [OF able(1)] if_not_P [OF able(2)] if_P [OF able(3)] by simp
      show ?thesis
      proof (cases q)
        case None
        have "run_state R view avail lo np s0 m (t\<lparr>asys := a\<rparr>)"
          by (rule run_state_same [OF r q(2)]) (use q(3) None in \<open>simp_all add: got_def s_def\<close>)
        then show ?thesis unfolding e q(1) and_then_Inr prod.case None option.case by force
      next
        case (Some k)
        have gr: "granted (ra R) None 0 req VM_MEMATTR_DEFAULT (pg s k) (pg (sys a) k)" using q(3) Some by (simp add: got_def)
        note B = granted_blank [OF c gr [unfolded req_def]]
        have out: "k \<notin> {lo..<lo + np}" using outside_run [OF rd] q(4) Some by simp
        obtain s' where s': "relocate ?E m ob k (sys a) = Inr s'"
          "run_state R view avail lo np s0 (m + 1) \<lparr>copies = (m, k) # copies t, to_free = m # to_free t, asys = a\<lparr>sys := s'\<rparr>\<rparr>"
          using relocate_step [OF L(1) rd r m(1,2) mv q(2) _ c out] q(3) Some unfolding req_def s_def by blast
        then show ?thesis unfolding e q(1) and_then_Inr prod.case Some option.case using B(2,3) by force
      qed
    qed
  qed
qed

section \<open>The loop\<close>

lemma run_state_skip:
  assumes r: "run_state R view avail lo np s0 m t" and le: "m \<le> m2"
    and none: "\<forall>k. m \<le> k \<and> k < m2 \<longrightarrow> object (pg s0 k) = None"
  shows "run_state R view avail lo np s0 m2 t"
proof -
  note D = run_stateD [OF r]
  have old: "k < m" if "k < m2" "object (pg s0 k) \<noteq> None" for k using none that by (meson not_less)
  have same: "\<forall>k\<in>{lo..<lo + np}. m2 \<le> k \<longrightarrow> pg (sys (asys t)) k = pg s0 k" using D(4) le by auto
  have free: "\<forall>k\<in>set (to_free t). k \<in> {lo..<lo + np} \<and> k < m2 \<and> fresh (pg (sys (asys t)) k) \<and> k \<notin> avail (phys (sys (asys t)))"
    using D(7) le by fastforce
  have gone: "\<forall>k\<in>{lo..<lo + np}. k < m2 \<and> object (pg s0 k) \<noteq> None \<longrightarrow>
      k \<in> set (to_free t) \<and> (valid (pg s0 k) \<noteq> 0 \<longrightarrow> moved s0 {lo..<lo + np} (copies t) (sys (asys t)) k)"
    using D(8,9) old by blast
  show ?thesis
    unfolding run_state_def Let_def
    by (intro conjI D(1-3,6) same free gone) (use D(5) in blast)
qed

lemma reclaim_page_ok:
  assumes L: "reclaim_laws R view avail resv B addr" "B \<le> n" and rd: "run_ready R addr lo np high s0"
    and r: "run_state R view avail lo np s0 m t" and c: "c AND VM_ALLOC_CLASS_MASK = c" and m: "m \<in> {lo..<lo + np}"
  shows "\<exists>e m' t'. reclaim_page (Suc n) R c np lo high m t = Inr (e, m', t') \<and> m \<le> m' \<and>
    run_state R view avail lo np s0 (if e = None then m' + 1 else m) t'"
proof -
  have x: "pg (sys (asys t)) m = pg s0 m" using run_stateD(4) [OF r m] by simp
  note P = reclaim_page.simps(2) [of n R c np lo high m t, unfolded Let_def x]
  show ?thesis
  proof (cases "wire_count (pg s0 m) \<noteq> 0 \<or> hold_count (pg s0 m) \<noteq> 0")
    case True
    then have "reclaim_page (Suc n) R c np lo high m t = Inr (Some EBUSY, m, t)" unfolding P by (rule if_P)
    then show ?thesis using r by force
  next
    case idle: False
    show ?thesis
    proof (cases "object (pg s0 m)")
      case (Some ob)
      obtain e t' where o: "reclaim_object (Suc n) R c np lo high m ob t = Inr (e, t')"
          "run_state R view avail lo np s0 (if e = None then m + 1 else m) t'"
        using reclaim_object_ok [OF L rd r c m Some] idle by auto
      have "reclaim_page (Suc n) R c np lo high m t = Inr (e, m, t')"
        unfolding P if_not_P [OF idle] Some option.case if_P [OF reclaim_lawsD(7) [OF L(1)]] o(1) and_then_Inr prod.case ..
      then show ?thesis using o(2) by blast
    next
      case None
      have here: "run_state R view avail lo np s0 (m + 1) t"
        by (rule run_state_skip [OF r]) (use None in \<open>auto simp: less_Suc_eq\<close>)
      show ?thesis
      proof (cases "order (pg s0 m) < VM_NFREEORDER (rc R)")
        case True
        have "reclaim_page (Suc n) R c np lo high m t = Inr (None, m + 2 ^ order (pg s0 m) - 1, t)"
          unfolding P if_not_P [OF idle] None option.case if_P [OF True] ..
        moreover have "run_state R view avail lo np s0 (m + 2 ^ order (pg s0 m)) t"
          by (rule run_state_skip [OF r]) (use run_readyD(4) [OF rd m None True] in auto)
        moreover have "m \<le> m + 2 ^ order (pg s0 m) - 1" "m + 2 ^ order (pg s0 m) - 1 + 1 = m + 2 ^ order (pg s0 m)"
          using one_le_power [of "2 :: nat" "order (pg s0 m)"] by linarith+
        ultimately show ?thesis
          by (intro exI [of _ None] exI [of _ "m + 2 ^ order (pg s0 m) - 1"] exI [of _ t]) (simp only: if_P simp_thms)
      next
        case False
        define e where "e = (if vm_reserv_is_page_free R m (phys (sys (asys t))) then None
          else if order (pg s0 m) = VM_NFREEORDER (rc R) then Some EINVAL else None)"
        have "reclaim_page (Suc n) R c np lo high m t = Inr (e, m, t)"
          unfolding P if_not_P [OF idle] None option.case if_not_P [OF False] by (simp add: e_def)
        moreover have "run_state R view avail lo np s0 (if e = None then m + 1 else m) t" using here r by simp
        ultimately show ?thesis by blast
      qed
    qed
  qed
qed

lemma reclaim_loop_ok:
  assumes L: "reclaim_laws R view avail resv B addr" and rd: "run_ready R addr lo np high s0" and c: "c AND VM_ALLOC_CLASS_MASK = c"
  shows "run_state R view avail lo np s0 m t \<Longrightarrow> lo \<le> m \<Longrightarrow> B + (lo + np - m) < n \<Longrightarrow>
    \<exists>e t' m'. reclaim_loop n R c np lo high m t = Inr (e, t') \<and> run_state R view avail lo np s0 m' t' \<and>
      (e = None \<longrightarrow> lo + np \<le> m')"
proof (induction n arbitrary: m t)
  case (Suc n)
  show ?case
  proof (cases "m < lo + np")
    case False
    then show ?thesis using Suc.prems(1) by (intro exI [of _ None] exI [of _ t] exI [of _ m]) simp
  next
    case True
    then have m: "m \<in> {lo..<lo + np}" using Suc.prems(2) by simp
    have x: "pg (sys (asys t)) m = pg s0 m" using run_stateD(4) [OF Suc.prems(1) m] by simp
    have B: "B \<le> n" using Suc.prems(3) True by simp
    obtain e m' t' where p: "reclaim_page (Suc n) R c np lo high m t = Inr (e, m', t')" "m \<le> m'"
        "run_state R view avail lo np s0 (if e = None then m' + 1 else m) t'"
      using reclaim_page_ok [OF L B rd Suc.prems(1) c m] by blast
    have f: "\<not> flags (pg (sys (asys t)) m) \<inter> {PG_FICTITIOUS, PG_MARKER} \<noteq> {}" using run_readyD(2) [OF rd m] x by simp
    have l: "reclaim_loop (Suc n) R c np lo high m t =
        (if e \<noteq> None then Inr (e, t') else reclaim_loop n R c np lo high (m' + 1) t')"
      using True f p(1) by simp
    show ?thesis
    proof (cases e)
      case (Some err)
      then show ?thesis using p(3) unfolding l by force
    next
      case None
      have "\<exists>e t'' m''. reclaim_loop n R c np lo high (m' + 1) t' = Inr (e, t'') \<and> run_state R view avail lo np s0 m'' t'' \<and>
          (e = None \<longrightarrow> lo + np \<le> m'')"
        by (rule Suc.IH) (use p None Suc.prems(2,3) True in auto)
      then show ?thesis unfolding l None by simp
    qed
  qed
qed simp

text \<open>What has become of a page of the run that was in an object: it is free, its contents elsewhere.\<close>

definition freed :: "('p \<Rightarrow> pid set) \<Rightarrow> ('r, 'p) vm_sys \<Rightarrow> pid set \<Rightarrow> (pid \<times> pid) list \<Rightarrow> ('r, 'p) vm_sys \<Rightarrow> pid \<Rightarrow> bool" where
  "freed avail s run cs s' k \<longleftrightarrow> k \<in> avail (phys s') \<and> (valid (pg s k) \<noteq> 0 \<longrightarrow> moved s run cs s' k)"

lemma reclaim_run_ok:
  assumes L: "reclaim_laws R view avail resv B addr" and rd: "run_ready R addr lo np high (sys a)"
    and c: "c AND VM_ALLOC_CLASS_MASK = c" and ok: "mem_ok (venv (ra R)) view avail (sys a)" and n: "B + np < n"
  shows "\<exists>e cs a'. vm_page_reclaim_run n R c np lo high a = Inr (e, cs, a') \<and> mem_ok (venv (ra R)) view avail (sys a') \<and>
    (\<forall>k. k \<notin> {lo..<lo + np} \<and> k \<notin> avail (phys (sys a)) \<longrightarrow> pg (sys a') k = pg (sys a) k) \<and>
    (\<forall>k\<in>{lo..<lo + np}. object (pg (sys a) k) \<noteq> None \<longrightarrow>
      freed avail (sys a) {lo..<lo + np} cs (sys a') k \<or> e \<noteq> None \<and> pg (sys a') k = pg (sys a) k)"
proof -
  let ?run = "{lo..<lo + np}" and ?E = "venv (ra R)"
  define t0 where "t0 = \<lparr>copies = [], to_free = [], asys = a\<rparr>"
  have "run_state R view avail lo np (sys a) lo t0" using ok by (auto simp: run_state_def t0_def)
  then obtain e t m where r: "reclaim_loop n R c np lo high lo t0 = Inr (e, t)" "run_state R view avail lo np (sys a) m t"
      "e = None \<longrightarrow> lo + np \<le> m"
    using reclaim_loop_ok [OF L rd c, of lo t0 n] n by fastforce
  note D = run_stateD [OF r(2)]
  define a' where "a' = upd_sys (free_all ?E (to_free t)) (asys t)"
  have F: "mem_ok ?E view avail (sys a')" "pg (sys a') = pg (sys (asys t))"
    "avail (phys (sys a')) = avail (phys (sys (asys t))) \<union> set (to_free t)"
    using free_all_ok [OF reclaim_lawsD(3) [OF L] D(1) D(6)] D(7) by (simp_all add: a'_def)
  have e: "vm_page_reclaim_run n R c np lo high a = Inr (e, copies t, a')"
    using c r(1) by (simp add: vm_page_reclaim_run_def t0_def [symmetric] a'_def)
  have pages: "freed avail (sys a) ?run (copies t) (sys a') k \<or> e \<noteq> None \<and> pg (sys a') k = pg (sys a) k"
    if k: "k \<in> ?run" "object (pg (sys a) k) \<noteq> None" for k
  proof (cases "k < m")
    case True
    have "moved (sys a) ?run (copies t) (sys a') k" if "valid (pg (sys a) k) \<noteq> 0"
      using D(9) [OF k(1) True k(2) that] by (simp add: moved_def F(2))
    then show ?thesis using D(8) [OF k(1) True k(2)] by (simp add: freed_def F(3))
  next
    case False
    then show ?thesis using D(4) [OF k(1)] r(3) k(1) F(2) by auto
  qed
  show ?thesis
    by (rule exI [of _ e], rule exI [of _ "copies t"], rule exI [of _ a']) (use e F(1,2) D(5) pages in auto)
qed

text \<open>
  C17: Reclaiming a run of pages always comes to an end without a panic and keeps memory in order.
  A page of the run that was in an object is either free afterwards, with a page outside the run in
  its place in the object that has its contents if there were any, or, only when the run
  reports an error, as it was. No other page in use is touched.
\<close>

theorem reclaim_run_moves:
  assumes "reclaim_laws R view avail resv B addr" "run_ready R addr lo np high (sys a)"
    "c AND VM_ALLOC_CLASS_MASK = c" "mem_ok (venv (ra R)) view avail (sys a)" "B + np < n"
  shows "\<exists>e cs a'. vm_page_reclaim_run n R c np lo high a = Inr (e, cs, a') \<and> mem_ok (venv (ra R)) view avail (sys a') \<and>
    (\<forall>k. k \<notin> {lo..<lo + np} \<and> k \<notin> avail (phys (sys a)) \<longrightarrow> pg (sys a') k = pg (sys a) k) \<and>
    (\<forall>k\<in>{lo..<lo + np}. object (pg (sys a) k) \<noteq> None \<longrightarrow>
      freed avail (sys a) {lo..<lo + np} cs (sys a') k \<or> e \<noteq> None \<and> pg (sys a') k = pg (sys a) k)"
  by (rule reclaim_run_ok [OF assms])

text \<open>A memory with page 3 in an object and on the inactive queue, pages 5, 6 and 7 free.\<close>

definition reclaim_env1 :: "((nat \<times> pid) list, pid list \<times> nat) reclaim_env" where
  "reclaim_env1 = \<lparr>ra = alloc_env1\<lparr>vm_phys_alloc_contig := (\<lambda>n lo hi al bo p.
        case take_run n p of (Some m, p') \<Rightarrow> if lo \<le> 4096 * m \<and> 4096 * m < hi then (Some m, p') else (None, p) | (None, p') \<Rightarrow> (None, p))\<rparr>,
    rc = \<lparr>VM_NFREEORDER = 13, obj_attr = (\<lambda>b. VM_MEMATTR_DEFAULT), vm_reserv_level = (\<lambda>m p. -1),
      vm_reserv_level_iffullpop = (\<lambda>m p. -1), vm_reserv_size = (\<lambda>l. 0), tryrlock = (\<lambda>b s. True), meanwhile = (\<lambda>b s. s)\<rparr>,
    vm_reserv_is_page_free = (\<lambda>m p. m \<in> set (fst p)), phys_scan = (\<lambda>n lo hi al bo op a. None)\<rparr>"

definition reclaim_mem1 :: "((nat \<times> pid) list, pid list \<times> nat) alloc_sys" where
  "reclaim_mem1 = mem1\<lparr>sys := (sys mem1)\<lparr>
    pg := (\<lambda>m. page0\<lparr>phys_addr := 4096 * m\<rparr>)(3 := page0\<lparr>phys_addr := 12288, object := Some 0, pindex := 4, valid := 255, queue := PQ_INACTIVE\<rparr>),
    objs := (objs (sys mem1))(0 := (objs (sys mem1) 0)\<lparr>rtree := [(4, 3)], memq := [3], resident_page_count := 1\<rparr>),
    vmd := (\<lambda>d q. if d = 0 \<and> q = PQ_INACTIVE then \<lparr>pq_pl = [3], pq_cnt = 1\<rparr> else \<lparr>pq_pl = [], pq_cnt = 0\<rparr>)\<rparr>\<rparr>"

lemma reclaim_env1_laws: "reclaim_laws reclaim_env1 map_of avail1 (\<lambda>p. 0) 0 (\<lambda>m. 4096 * m)"
proof -
  let ?A = "ra reclaim_env1"
  have v: "venv ?A = venv alloc_env1" by (simp add: reclaim_env1_def)
  have run: "gives avail1 (v_free_count (venv alloc_env1)) n p (vm_phys_alloc_contig ?A n lo hi al bo p)" for n lo hi al bo p
  proof -
    obtain q p' where q: "take_run n p = (q, p')" by (cases "take_run n p") auto
    have c: "v_free_count (venv alloc_env1) = snd" by (simp add: alloc_env1_def env1_def)
    have va: "vm_phys_alloc_contig ?A n lo hi al bo p =
        (case q of None \<Rightarrow> (None, p) | Some m \<Rightarrow> if lo \<le> 4096 * m \<and> 4096 * m < hi then (Some m, p') else (None, p))"
      by (simp add: reclaim_env1_def q)
    have none: "gives avail1 snd n p (None, p)" by (simp add: gives_def)
    show ?thesis
      using take_run_gives [of n p] none unfolding c va q by (cases q) simp_all
  qed
  have "alloc_laws ?A avail1"
    using alloc_env1_laws run unfolding alloc_laws_def Let_def v by (simp add: reclaim_env1_def)
  moreover have "resv_law ?A (\<lambda>p. 0)" by (simp add: resv_law_def reclaim_env1_def alloc_env1_def)
  moreover have "addr_law ?A (\<lambda>m. 4096 * m)"
    by (auto simp: addr_law_def reclaim_env1_def alloc_env1_def split: prod.splits option.splits if_splits)
  moreover have "keeps_page (venv ?A)"
    unfolding keeps_page_def v
  proof (intro allI)
    fix m x
    have "pmap_remove_all (venv alloc_env1) m x = x\<lparr>dirty := dirty x, aflags := aflags x\<rparr>" by (simp add: alloc_env1_def env1_def)
    then show "\<exists>d a. pmap_remove_all (venv alloc_env1) m x = x\<lparr>dirty := d, aflags := a\<rparr>" by blast
  qed
  ultimately show ?thesis
    using env1_laws by (simp add: reclaim_laws_def v) (simp add: undisturbed_def reclaim_env1_def)
qed

lemma reclaim_mem1_ok: "mem_ok (venv (ra reclaim_env1)) map_of avail1 (sys reclaim_mem1)"
proof (rule mem_okI)
  show "queues_ok (venv (ra reclaim_env1)) (sys reclaim_mem1)"
    by (auto simp: queues_ok_def regular_def movable_def reclaim_mem1_def mem1_def page0_def qdom_def reclaim_env1_def
      alloc_env1_def env1_def)
  show "objs_ok map_of (sys reclaim_mem1)"
    by (auto simp: objs_ok_def object_ok_def reclaim_mem1_def mem1_def page0_def)
  show "fresh (pg (sys reclaim_mem1) m)" if "m \<in> avail1 (phys (sys reclaim_mem1))" for m
    using that by (auto simp: reclaim_mem1_def mem1_def page0_def fresh_def vm_page_alloc_check_def vm_page_busied_def avail1_def)
qed (simp_all add: reclaim_mem1_def mem1_def avail1_def reclaim_env1_def alloc_env1_def env1_def)

theorem reclaim_run_moves_witness:
  "\<exists>e cs a'. vm_page_reclaim_run 2 reclaim_env1 VM_ALLOC_NORMAL 1 3 16384 reclaim_mem1 = Inr (e, cs, a') \<and>
    mem_ok (venv alloc_env1) map_of avail1 (sys a') \<and>
    (freed avail1 (sys reclaim_mem1) {3..<4} cs (sys a') 3 \<or> e \<noteq> None \<and> pg (sys a') 3 = pg (sys reclaim_mem1) 3)"
proof -
  have rd: "run_ready reclaim_env1 (\<lambda>m. 4096 * m) 3 1 16384 (sys reclaim_mem1)"
    by (auto simp: run_ready_def reclaim_mem1_def page0_def less_Suc_eq)
  have c: "VM_ALLOC_NORMAL AND VM_ALLOC_CLASS_MASK = VM_ALLOC_NORMAL" by (simp add: VM_ALLOC_NORMAL_def)
  have "object (pg (sys reclaim_mem1) 3) \<noteq> None" by (simp add: reclaim_mem1_def)
  then show ?thesis
    using reclaim_run_moves [OF reclaim_env1_laws rd c reclaim_mem1_ok, of 2] by (auto simp: reclaim_env1_def)
qed

section \<open>When a request is refused\<close>

text \<open>
  Whether contiguous memory is reclaimed at all does not depend on the class of the request, as
  long as the reserve for interrupts is part of the reserve: it is refused, and nothing changed,
  when \<open>v_free_reserved\<close> pages would not be left. So for an ordinary request what is refused is
  just what could not be allocated either, but a request of the system or of an interrupt that the
  allocation would serve is refused all the same.
\<close>

theorem reclaim_refuses:
  assumes w: "w_npages w \<noteq> 0" "powerof2 (w_alignment w)" "powerof2 (w_boundary w)"
    and res: "v_interrupt_free_min (ra R) \<le> v_free_reserved (ra R)"
  shows "(free_pages_left (ra R) a < w_npages w + v_free_reserved (ra R) \<longrightarrow>
      vm_page_reclaim_contig fuel R req w m_runs a = Inr (False, a)) \<and>
    (too_few (ra R) c (w_npages w) a \<longleftrightarrow> free_pages_left (ra R) a < w_npages w + v_free_reserved (ra R)) \<and>
    (\<not> too_few (ra R) c (w_npages w) a \<longrightarrow> may_alloc_contig (ra R) c (w_npages w) a) \<and>
    (c = VM_ALLOC_NORMAL \<and> may_alloc_contig (ra R) c (w_npages w) a \<longrightarrow> \<not> too_few (ra R) c (w_npages w) a) \<and>
    (c = VM_ALLOC_SYSTEM \<and> w_npages w + v_interrupt_free_min (ra R) \<le> free_pages_left (ra R) a \<and>
      free_pages_left (ra R) a < w_npages w + v_free_reserved (ra R) \<longrightarrow>
      may_alloc_contig (ra R) c (w_npages w) a \<and> too_few (ra R) c (w_npages w) a)"
proof -
  have few: "too_few (ra R) c (w_npages w) a \<longleftrightarrow> free_pages_left (ra R) a < w_npages w + v_free_reserved (ra R)" for c
    using res by (auto simp: too_few_def)
  have "vm_page_reclaim_contig fuel R req w m_runs a = Inr (False, a)"
    if "free_pages_left (ra R) a < w_npages w + v_free_reserved (ra R)"
    using w that few by (simp add: vm_page_reclaim_contig_def)
  moreover have "VM_ALLOC_NORMAL \<noteq> VM_ALLOC_SYSTEM" "VM_ALLOC_NORMAL \<noteq> VM_ALLOC_INTERRUPT"
    by (simp_all add: VM_ALLOC_NORMAL_def VM_ALLOC_SYSTEM_def VM_ALLOC_INTERRUPT_def)
  ultimately show ?thesis unfolding few by (auto simp: may_alloc_contig_def)
qed

theorem reclaim_refuses_witness:
  "vm_page_reclaim_contig 0 reclaim_env1 VM_ALLOC_SYSTEM \<lparr>w_npages = 3, w_low = 0, w_high = 16384, w_alignment = 4096, w_boundary = 0\<rparr>
      (\<lambda>k. 0) reclaim_mem1 = Inr (False, reclaim_mem1) \<and>
    may_alloc_contig (ra reclaim_env1) VM_ALLOC_SYSTEM 3 reclaim_mem1"
  using reclaim_refuses [of "\<lparr>w_npages = 3, w_low = 0, w_high = 16384, w_alignment = 4096, w_boundary = 0\<rparr>" reclaim_env1
      reclaim_mem1 0 VM_ALLOC_SYSTEM "\<lambda>k. 0" VM_ALLOC_SYSTEM]
  by (simp add: powerof2_def reclaim_env1_def alloc_env1_def env1_def free_pages_left_def reclaim_mem1_def mem1_def)

end
