(* ===== verification/Vm_Grab.thy ===== *)
theory Vm_Grab
  imports Vm_Reclaim
begin

text \<open>
  Getting a page of an object, resident or not (\<open>vm_page_grab\<close>, \<open>vm_page_grab_pages\<close> and
  \<open>vm_page_sleep_if_busy\<close> in \<open>src/asgn3/vm/vm_page.c\<close>).

  A page that is busy is waited for with the object unlocked; then, and in the waits of an
  allocation, the other threads run. What they do to the state is the argument \<open>others\<close>, given the
  pages that the calling thread has claimed so far. The pages that were filled with zeros are kept as
  a list, as page contents are not part of the state. Each look-up has a unit of fuel, and in a range
  each page too.
\<close>

unbundle bit_operations_syntax

record ('r, 'p) grab_env =
  ga :: "('r, 'p) alloc_env"
  others :: "pid list \<Rightarrow> ('r, 'p) alloc_sys \<Rightarrow> ('r, 'p) alloc_sys"

definition alloc_env_of :: "('r, 'p) grab_env \<Rightarrow> pid list \<Rightarrow> ('r, 'p) alloc_env" where
  "alloc_env_of G mine = (ga G)\<lparr>asleep := others G mine\<rparr>"

section \<open>Waiting for a busy page\<close>

text \<open>
  Others run once the object is unlocked, between the load and the compare-and-set, in the sleep and
  until the object is locked again.
\<close>

definition busy_wait ::
    "('r, 'p) grab_env \<Rightarrow> pid list \<Rightarrow> pid \<Rightarrow> bool \<Rightarrow> ('r, 'p) alloc_sys \<Rightarrow> ('r, 'p) alloc_sys" where
  "busy_wait G mine m nonshared a =
    (let a1 = others G mine a;
         a2 = others G mine a1;
         (w, out) = vm_page_busy_sleep nonshared (busy_lock (pg (sys a1) m)) (busy_lock (pg (sys a2) m));
         a3 = upd_sys (upd_page m (\<lambda>x. x\<lparr>busy_lock := w\<rparr>)) a2
     in others G mine (if out = Sleep then others G mine a3 else a3))"

definition vm_page_sleep_if_busy ::
    "('r, 'p) grab_env \<Rightarrow> pid list \<Rightarrow> pid \<Rightarrow> ('r, 'p) alloc_sys \<Rightarrow> bool \<times> ('r, 'p) alloc_sys" where
  "vm_page_sleep_if_busy G mine m a =
    (if vm_page_busied (busy_lock (pg (sys a) m)) then (True, busy_wait G mine m False a) else (False, a))"

definition must_sleep :: "u32 \<Rightarrow> vm_page \<Rightarrow> bool" where
  "must_sleep allocflags x =
    (if allocflags AND VM_ALLOC_IGN_SBUSY \<noteq> 0 then vm_page_xbusied (busy_lock x) else vm_page_busied (busy_lock x))"

definition grab_sleep ::
    "('r, 'p) grab_env \<Rightarrow> pid list \<Rightarrow> u32 \<Rightarrow> pid \<Rightarrow> ('r, 'p) alloc_sys \<Rightarrow> ('r, 'p) alloc_sys" where
  "grab_sleep G mine allocflags m a =
    busy_wait G mine m (allocflags AND VM_ALLOC_IGN_SBUSY \<noteq> 0)
      (upd_sys (upd_page m (\<lambda>x. vm_page_aflag_set x {PGA_REFERENCED})) a)"

section \<open>Claiming a page\<close>

definition vm_page_sbusy :: "pid \<Rightarrow> ('r, 'p) vm_sys \<Rightarrow> fault + ('r, 'p) vm_sys" where
  "vm_page_sbusy m s =
    (case vm_page_trysbusy (busy_lock (pg s m)) (busy_lock (pg s m)) of
       (w, Done True _) \<Rightarrow> Inr (upd_page m (\<lambda>x. x\<lparr>busy_lock := w\<rparr>) s)
     | _ \<Rightarrow> Inl Kernel_panic)"

definition claim_page :: "('r, 'p) vm_env \<Rightarrow> u32 \<Rightarrow> pid \<Rightarrow> ('r, 'p) vm_sys \<Rightarrow> fault + ('r, 'p) vm_sys" where
  "claim_page E allocflags m s =
    (let s1 = (if allocflags AND VM_ALLOC_WIRED \<noteq> 0 then vm_page_wire E m s else s)
     in and_then (if allocflags AND (VM_ALLOC_NOBUSY OR VM_ALLOC_SBUSY) = 0 then vm_page_xbusy m s1 else Inr s1)
       (\<lambda>s2. if allocflags AND VM_ALLOC_SBUSY \<noteq> 0 then vm_page_sbusy m s2 else Inr s2))"

section \<open>One page\<close>

definition grab_pflags :: "u32 \<Rightarrow> u32" where
  "grab_pflags allocflags =
    (let pflags = allocflags AND NOT (VM_ALLOC_NOWAIT OR VM_ALLOC_WAITOK OR VM_ALLOC_WAITFAIL)
     in if allocflags AND VM_ALLOC_NOWAIT = 0 then pflags OR VM_ALLOC_WAITFAIL else pflags)"

fun grab_lookup ::
    "nat \<Rightarrow> ('r, 'p) grab_env \<Rightarrow> oid \<Rightarrow> nat \<Rightarrow> u32 \<Rightarrow> ('r, 'p) alloc_sys
      \<Rightarrow> fault + (pid option \<times> pid list \<times> ('r, 'p) alloc_sys)" where
  "grab_lookup 0 G ob i allocflags a = Inl Diverges"
| "grab_lookup (Suc n) G ob i allocflags a =
    (let A = alloc_env_of G [] in
     case vm_page_lookup (venv A) (sys a) ob i of
       Some m \<Rightarrow>
         if must_sleep allocflags (pg (sys a) m)
         then (if allocflags AND VM_ALLOC_NOWAIT \<noteq> 0 then Inr (None, [], a)
               else grab_lookup n G ob i allocflags (grab_sleep G [] allocflags m a))
         else and_then (claim_page (venv A) allocflags m (sys a)) (\<lambda>s. Inr (Some m, [], a\<lparr>sys := s\<rparr>))
     | None \<Rightarrow>
         and_then (vm_page_alloc (Suc n) A (Some ob) i (grab_pflags allocflags) a) (\<lambda>(r, a1).
           case r of
             None \<Rightarrow> if allocflags AND VM_ALLOC_NOWAIT \<noteq> 0 then Inr (None, [], a1)
               else grab_lookup n G ob i allocflags a1
           | Some m \<Rightarrow> Inr (Some m,
               (if allocflags AND VM_ALLOC_ZERO \<noteq> 0 \<and> PG_ZERO \<notin> flags (pg (sys a1) m) then [m] else []), a1)))"

definition vm_page_grab ::
    "nat \<Rightarrow> ('r, 'p) grab_env \<Rightarrow> oid \<Rightarrow> nat \<Rightarrow> u32 \<Rightarrow> ('r, 'p) alloc_sys
      \<Rightarrow> fault + (pid option \<times> pid list \<times> ('r, 'p) alloc_sys)" where
  "vm_page_grab n G ob i allocflags a =
    (if allocflags AND VM_ALLOC_SBUSY \<noteq> 0 \<and> allocflags AND VM_ALLOC_IGN_SBUSY = 0 then Inl Kernel_panic
     else grab_lookup n G ob i allocflags a)"

section \<open>A range of pages\<close>

text \<open>The page at the index, and the one before it in the object's list.\<close>

definition range_lookup :: "('r, 'p) vm_env \<Rightarrow> oid \<Rightarrow> nat \<Rightarrow> ('r, 'p) vm_sys \<Rightarrow> pid option \<times> pid option" where
  "range_lookup E ob j s =
    (case vm_radix_lookup_le E (rtree (objs s ob)) j of
       None \<Rightarrow> (None, None)
     | Some m \<Rightarrow> if pindex (pg s m) \<noteq> j then (None, Some m) else (Some m, tailq_prev m (memq (objs s ob))))"

definition range_pflags :: "u32 \<Rightarrow> u32" where
  "range_pflags allocflags =
    (let pflags = allocflags AND NOT (VM_ALLOC_NOWAIT OR VM_ALLOC_WAITOK OR VM_ALLOC_WAITFAIL OR VM_ALLOC_IGN_SBUSY)
     in if allocflags AND VM_ALLOC_NOWAIT = 0 then pflags OR VM_ALLOC_WAITFAIL else pflags)"

definition zero_valid ::
    "u32 \<Rightarrow> pid \<Rightarrow> pid list \<times> ('r, 'p) alloc_sys \<Rightarrow> pid list \<times> ('r, 'p) alloc_sys" where
  "zero_valid allocflags m = (\<lambda>(zs, a).
    if valid (pg (sys a) m) = 0 \<and> allocflags AND VM_ALLOC_ZERO \<noteq> 0
    then (if PG_ZERO \<in> flags (pg (sys a) m) then zs else zs @ [m],
          upd_sys (upd_page m (\<lambda>x. x\<lparr>valid := VM_PAGE_BITS_ALL\<rparr>)) a)
    else (zs, a))"

text \<open>\<open>ma\<close> holds the pages so far, its length is the \<open>i\<close> of the loop.\<close>

fun grab_range ::
    "nat \<Rightarrow> ('r, 'p) grab_env \<Rightarrow> oid \<Rightarrow> nat \<Rightarrow> u32 \<Rightarrow> nat \<Rightarrow> pid list \<Rightarrow> pid option \<times> pid option
      \<Rightarrow> pid list \<times> ('r, 'p) alloc_sys \<Rightarrow> fault + (pid list \<times> pid list \<times> ('r, 'p) alloc_sys)" where
  "grab_range 0 G ob ix allocflags cnt ma mp za = Inl Diverges"
| "grab_range (Suc n) G ob ix allocflags cnt ma (r, mpred) (zs, a) =
    (let A = alloc_env_of G ma;
         i = length ma;
         retry = (\<lambda>a. grab_range n G ob ix allocflags cnt ma (range_lookup (venv A) ob (ix + i) (sys a)) (zs, a));
         got = (\<lambda>m a. let (zs', a') = zero_valid allocflags m (zs, a)
           in grab_range n G ob ix allocflags cnt (ma @ [m]) (vm_page_next (sys a') m, Some m) (zs', a'))
     in if \<not> i < cnt then Inr (ma, zs, a)
        else (case r of
            Some m \<Rightarrow>
              if must_sleep allocflags (pg (sys a) m)
              then (if allocflags AND VM_ALLOC_NOWAIT \<noteq> 0 then Inr (ma, zs, a) else retry (grab_sleep G ma allocflags m a))
              else and_then (claim_page (venv A) allocflags m (sys a)) (\<lambda>s. got m (a\<lparr>sys := s\<rparr>))
          | None \<Rightarrow>
              and_then (vm_page_alloc_after (Suc n) A (Some ob) (ix + i)
                  (range_pflags allocflags OR VM_ALLOC_COUNT (of_nat (cnt - i))) mpred a) (\<lambda>(r', a1).
                case r' of
                  None \<Rightarrow> if allocflags AND VM_ALLOC_NOWAIT \<noteq> 0 then Inr (ma, zs, a1) else retry a1
                | Some m \<Rightarrow> got m a1)))"

definition vm_page_grab_pages ::
    "nat \<Rightarrow> ('r, 'p) grab_env \<Rightarrow> oid \<Rightarrow> nat \<Rightarrow> u32 \<Rightarrow> nat \<Rightarrow> ('r, 'p) alloc_sys
      \<Rightarrow> fault + (pid list \<times> pid list \<times> ('r, 'p) alloc_sys)" where
  "vm_page_grab_pages n G ob ix allocflags cnt a =
    (if drop_bit VM_ALLOC_COUNT_SHIFT allocflags \<noteq> 0 \<or>
        allocflags AND VM_ALLOC_NOBUSY \<noteq> 0 \<and> allocflags AND VM_ALLOC_WIRED = 0 \<or>
        allocflags AND VM_ALLOC_SBUSY \<noteq> 0 \<and> allocflags AND VM_ALLOC_IGN_SBUSY = 0 then Inl Kernel_panic
     else if cnt = 0 then Inr ([], [], a)
     else grab_range n G ob ix allocflags cnt [] (range_lookup (venv (ga G)) ob ix (sys a)) ([], a))"

end
