(* ===== verification/Vm_Grab_Props.thy ===== *)
theory Vm_Grab_Props
  imports Vm_Grab Vm_Alloc_Props
begin

text \<open>
  Properties of getting pages of an object: what state a page is in that was got, when the routine
  comes back, and that a range of pages is got in order and without a gap.
\<close>

unbundle bit_operations_syntax

section \<open>Flags\<close>

text \<open>
  A request that means something: the page is asked for shared only together with the flag to
  overlook sharers, which is of no use for an exclusive hold.
\<close>

definition grab_flags_ok :: "u32 \<Rightarrow> bool" where
  "grab_flags_ok fl \<longleftrightarrow> (fl AND VM_ALLOC_IGN_SBUSY = 0 \<longrightarrow> fl AND VM_ALLOC_SBUSY = 0) \<and>
    (fl AND VM_ALLOC_IGN_SBUSY \<noteq> 0 \<longrightarrow> fl AND (VM_ALLOC_NOBUSY OR VM_ALLOC_SBUSY) \<noteq> 0) \<and>
    fl AND (VM_ALLOC_NOBUSY OR VM_ALLOC_SBUSY) \<noteq> VM_ALLOC_NOBUSY OR VM_ALLOC_SBUSY \<and>
    fl AND VM_ALLOC_NOOBJ = 0 \<and> fl AND VM_ALLOC_IFCACHED = 0"

lemmas alloc_flag_defs = VM_ALLOC_WAITOK_def VM_ALLOC_WAITFAIL_def VM_ALLOC_WIRED_def VM_ALLOC_ZERO_def
  VM_ALLOC_NOOBJ_def VM_ALLOC_NOBUSY_def VM_ALLOC_IFCACHED_def VM_ALLOC_IGN_SBUSY_def VM_ALLOC_NODUMP_def
  VM_ALLOC_SBUSY_def VM_ALLOC_NOWAIT_def

lemma masked_and: "(fl AND NOT M OR W) AND X = fl AND X" if "M AND X = 0" "W AND X = 0" for fl M W X :: u32
  using that by (auto simp: bit_eq_iff [where 'a = "32 word"] bit_simps)

lemma masked_and0: "(fl AND NOT M) AND X = fl AND X" if "M AND X = 0" for fl M X :: u32
  using masked_and [of M X 0] that by simp

lemma grab_pflags_and:
  "X AND 0x8018 = 0 \<Longrightarrow> grab_pflags fl AND X = fl AND X"
  "X AND 0x9018 = 0 \<Longrightarrow> range_pflags fl AND X = fl AND X"
  "grab_pflags fl AND VM_ALLOC_WAITOK = 0" "range_pflags fl AND VM_ALLOC_WAITOK = 0"
  "grab_pflags fl AND VM_ALLOC_WAITFAIL \<noteq> 0 \<longleftrightarrow> fl AND VM_ALLOC_NOWAIT = 0"
  "range_pflags fl AND VM_ALLOC_WAITFAIL \<noteq> 0 \<longleftrightarrow> fl AND VM_ALLOC_NOWAIT = 0"
proof -
  have M: "VM_ALLOC_NOWAIT OR VM_ALLOC_WAITOK OR VM_ALLOC_WAITFAIL = 0x8018"
    "VM_ALLOC_NOWAIT OR VM_ALLOC_WAITOK OR VM_ALLOC_WAITFAIL OR VM_ALLOC_IGN_SBUSY = 0x9018"
    by (simp_all add: alloc_flag_defs)
  have g: "grab_pflags fl = fl AND NOT 0x8018 OR (if fl AND VM_ALLOC_NOWAIT = 0 then VM_ALLOC_WAITFAIL else 0)"
    by (simp add: grab_pflags_def M)
  have r: "range_pflags fl = fl AND NOT 0x9018 OR (if fl AND VM_ALLOC_NOWAIT = 0 then VM_ALLOC_WAITFAIL else 0)"
    by (simp add: range_pflags_def M)
  have w: "X AND VM_ALLOC_WAITFAIL = 0" if "X AND M = 0" "M AND VM_ALLOC_WAITFAIL = VM_ALLOC_WAITFAIL" for X M
  proof -
    have "(X AND M) AND VM_ALLOC_WAITFAIL = 0" using that(1) by simp
    then show ?thesis by (simp only: and.assoc that(2))
  qed
  have W: "0x8018 AND VM_ALLOC_WAITFAIL = VM_ALLOC_WAITFAIL" "0x9018 AND VM_ALLOC_WAITFAIL = VM_ALLOC_WAITFAIL"
    by (simp_all add: VM_ALLOC_WAITFAIL_def)
  show "X AND 0x8018 = 0 \<Longrightarrow> grab_pflags fl AND X = fl AND X" unfolding g
    by (rule masked_and) (simp_all add: w [OF _ W(1)] w [OF _ W(2)] and.commute [of _ X])
  show "X AND 0x9018 = 0 \<Longrightarrow> range_pflags fl AND X = fl AND X" unfolding r
    by (rule masked_and) (simp_all add: w [OF _ W(1)] w [OF _ W(2)] and.commute [of _ X])
  have d: "(fl AND NOT M OR W) AND X = W AND X" if "M AND X = X" for M W X
    using that by (auto simp: bit_eq_iff [where 'a = "32 word"] bit_simps)
  show "grab_pflags fl AND VM_ALLOC_WAITOK = 0" "range_pflags fl AND VM_ALLOC_WAITOK = 0"
    "grab_pflags fl AND VM_ALLOC_WAITFAIL \<noteq> 0 \<longleftrightarrow> fl AND VM_ALLOC_NOWAIT = 0"
    "range_pflags fl AND VM_ALLOC_WAITFAIL \<noteq> 0 \<longleftrightarrow> fl AND VM_ALLOC_NOWAIT = 0"
    unfolding g r by (subst d; simp add: VM_ALLOC_WAITOK_def VM_ALLOC_WAITFAIL_def)+
qed

lemma count_and: "(fl OR VM_ALLOC_COUNT c) AND X = fl AND X" if "drop_bit 16 X = 0" for fl c X :: u32
proof -
  have "\<not> bit X (16 + k)" for k
    using that by (metis bit_drop_bit_eq bit_0_eq comp_apply bot_apply bot_bool_def add.commute)
  then have "\<not> bit X k" if "16 \<le> k" for k using that by (metis le_add_diff_inverse)
  then show ?thesis
    by (auto simp: VM_ALLOC_COUNT_def VM_ALLOC_COUNT_SHIFT_def bit_eq_iff [where 'a = "32 word"] bit_simps)
qed

lemma grab_req_ok:
  assumes "grab_flags_ok fl"
  shows "req_consistent (Some b) (grab_pflags fl)" "grab_pflags fl AND VM_ALLOC_IFCACHED = 0"
proof -
  have a: "grab_pflags fl AND VM_ALLOC_NOOBJ = fl AND VM_ALLOC_NOOBJ"
    "grab_pflags fl AND (VM_ALLOC_NOBUSY OR VM_ALLOC_SBUSY) = fl AND (VM_ALLOC_NOBUSY OR VM_ALLOC_SBUSY)"
    "grab_pflags fl AND VM_ALLOC_IFCACHED = fl AND VM_ALLOC_IFCACHED"
    by (rule grab_pflags_and(1); simp add: alloc_flag_defs)+
  show "req_consistent (Some b) (grab_pflags fl)" "grab_pflags fl AND VM_ALLOC_IFCACHED = 0"
    using assms by (simp_all add: req_consistent_def a grab_pflags_and(3) grab_flags_ok_def)
qed

section \<open>Words\<close>

text \<open>A busy word of an exclusive owner or of less than \<open>b\<close> sharers.\<close>

definition busy_word :: "nat \<Rightarrow> u32 \<Rightarrow> bool" where
  "busy_word b w \<longleftrightarrow> (\<exists>wt. w = excl_word wt) \<or> (\<exists>n wt. n < b \<and> w = shared_word n wt)"

lemma xbusied_words [simp]: "vm_page_xbusied (excl_word wt)" "\<not> vm_page_xbusied (shared_word n wt)"
  using flag_bits(3) by (auto simp: vm_page_xbusied_def)

lemma busied_words: "vm_page_busied (excl_word wt)"
  by (simp add: vm_page_busied_def words)

lemma sbusied_word: "vm_page_sbusied (shared_word (Suc n) wt)" if "Suc n < 2 ^ 29"
  using that shared_word_inj [of "Suc n" 0 wt False] flag_bits(1) by (auto simp: vm_page_sbusied_def words)

lemma busy_sleep_word:
  assumes "busy_word b w"
  shows "busy_word b (fst (vm_page_busy_sleep ns x w))"
proof -
  have "busy_word b (w OR VPB_BIT_WAITERS)" if "w AND VPB_BIT_WAITERS = 0"
    using assms that flag_bits(2) waiters_or(1,2) unfolding busy_word_def
    by (metis (full_types) excl_bits(3) shared_bits(3))
  then show ?thesis using assms by (auto simp: vm_page_busy_sleep_def cmpset_def)
qed

section \<open>Claiming\<close>

definition claimed :: "u32 \<Rightarrow> vm_page \<Rightarrow> vm_page" where
  "claimed fl x = x\<lparr>
    busy_lock := (if fl AND (VM_ALLOC_NOBUSY OR VM_ALLOC_SBUSY) = 0 then VPB_SINGLE_EXCLUSIVER
      else if fl AND VM_ALLOC_SBUSY \<noteq> 0 then busy_lock x + VPB_ONE_SHARER else busy_lock x),
    wire_count := (if fl AND VM_ALLOC_WIRED \<noteq> 0 then wire_count x + 1 else wire_count x),
    queue := (if fl AND VM_ALLOC_WIRED \<noteq> 0 \<and> wire_count x = 0 then PQ_NONE else queue x)\<rparr>"

lemma wire_mem_ok:
  assumes ok: "mem_ok E view avail s" and m: "regular s m" "object (pg s m) \<noteq> None" "PG_FICTITIOUS \<notin> flags (pg s m)"
  shows "mem_ok E view avail (vm_page_wire E m s)"
    "pg (vm_page_wire E m s) = upd_pg (pg s) m (\<lambda>x. x\<lparr>wire_count := wire_count x + 1,
      queue := (if wire_count x = 0 then PQ_NONE else queue x)\<rparr>)"
    "phys (vm_page_wire E m s) = phys s" "objs (vm_page_wire E m s) = objs s"
proof -
  let ?s = "vm_page_wire E m s"
  show pgs: "pg ?s = upd_pg (pg s) m (\<lambda>x. x\<lparr>wire_count := wire_count x + 1,
      queue := (if wire_count x = 0 then PQ_NONE else queue x)\<rparr>)"
    using m(3) by (auto simp: vm_page_wire_def fun_eq_iff upd_pg_def)
  show ph: "phys ?s = phys s" and ob: "objs ?s = objs s" by (simp_all add: vm_page_wire_def)
  have out: "m \<notin> avail (phys s)" using mem_okD(3) [OF ok, of m] m(2) freshD(1) by auto
  show "mem_ok E view avail ?s"
  proof (rule mem_okI)
    show "queues_ok E ?s" by (rule wire_ok [OF mem_okD(1) [OF ok] m(1)])
    show "objs_ok view ?s"
      by (rule objs_ok_cong [OF _ _ mem_okD(2) [OF ok]]) (simp_all add: pgs ob upd_pg_def)
    show "fresh (pg ?s k)" if "k \<in> avail (phys ?s)" for k
      using that out mem_okD(3) [OF ok, of k] by (cases "k = m") (simp_all add: pgs ph)
  qed (use mem_okD(4,5) [OF ok] in \<open>simp_all add: ph\<close>)
qed

lemma claim_page_ok:
  assumes ok: "mem_ok E view avail s" and m: "regular s m" "object (pg s m) \<noteq> None" "PG_FICTITIOUS \<notin> flags (pg s m)"
    and fl: "grab_flags_ok fl" "\<not> must_sleep fl (pg s m)" and w: "busy_word b (busy_lock (pg s m))"
  shows "\<exists>s'. claim_page E fl m s = Inr s' \<and> mem_ok E view avail s' \<and> pg s' = upd_pg (pg s) m (claimed fl) \<and>
    phys s' = phys s \<and> objs s' = objs s"
proof -
  let ?w = "fl AND VM_ALLOC_WIRED \<noteq> 0" and ?x = "fl AND (VM_ALLOC_NOBUSY OR VM_ALLOC_SBUSY) = 0" and ?s = "fl AND VM_ALLOC_SBUSY \<noteq> 0"
  define s1 where "s1 = (if ?w then vm_page_wire E m s else s)"
  have ok1: "mem_ok E view avail s1" using wire_mem_ok(1) [OF ok m] ok by (simp add: s1_def)
  have p1: "pg s1 = upd_pg (pg s) m (\<lambda>x. x\<lparr>wire_count := (if ?w then wire_count x + 1 else wire_count x),
      queue := (if ?w \<and> wire_count x = 0 then PQ_NONE else queue x)\<rparr>)"
    using wire_mem_ok(2) [OF ok m] by (auto simp: s1_def upd_pg_def fun_eq_iff)
  have o1: "phys s1 = phys s" "objs s1 = objs s" using wire_mem_ok(3,4) [OF ok m] by (simp_all add: s1_def)
  have out: "m \<notin> avail (phys s1)" using mem_okD(3) [OF ok, of m] m(2) freshD(1) by (auto simp: o1)
  define w' where "w' = busy_lock (claimed fl (pg s m))"
  define s' where "s' = upd_page m (\<lambda>x. x\<lparr>busy_lock := w'\<rparr>) s1"
  have ok': "mem_ok E view avail s'" unfolding s'_def by (rule upd_page_mem_ok [OF ok1 out]) simp
  have p': "pg s' = upd_pg (pg s) m (claimed fl)" by (auto simp: s'_def p1 w'_def claimed_def upd_pg_def fun_eq_iff)
  have same: "upd_page m (\<lambda>x. x\<lparr>busy_lock := busy_lock (pg s1 m)\<rparr>) s1 = s1" by (simp add: upd_page_def upd_pg_def fun_upd_idem)
  have sx: "?x \<Longrightarrow> \<not> ?s" by (simp add: bit.conj_disj_distrib or_eq_0_iff)
  have b1: "busy_lock (pg s1 m) = busy_lock (pg s m)" by (simp add: p1)
  have "claim_page E fl m s = Inr s'"
  proof (cases ?x)
    case True
    then have "\<not> vm_page_busied (busy_lock (pg s m))"
      using fl by (auto simp: grab_flags_ok_def must_sleep_def split: if_splits)
    then have "vm_page_xbusy m s1 = Inr s'"
      using True by (simp add: vm_page_xbusy_def vm_page_tryxbusy_def cmpset_def b1 vm_page_busied_def s'_def w'_def claimed_def)
    then show ?thesis using True sx by (simp add: claim_page_def s1_def Let_def)
  next
    case False
    show ?thesis
    proof (cases ?s)
      case True
      then have "fl AND VM_ALLOC_IGN_SBUSY \<noteq> 0" using fl(1) by (auto simp: grab_flags_ok_def)
      then have "\<not> vm_page_xbusied (busy_lock (pg s m))" using fl(2) by (simp add: must_sleep_def)
      then have "busy_lock (pg s m) AND VPB_BIT_SHARED \<noteq> 0" using w flag_bits(1) by (auto simp: busy_word_def)
      then have "vm_page_sbusy m s1 = Inr s'"
        using True False by (simp add: vm_page_sbusy_def vm_page_trysbusy_def cmpset_def b1 s'_def w'_def claimed_def)
      then show ?thesis using True False by (simp add: claim_page_def s1_def Let_def)
    next
      case F: False
      have "s' = s1" using same False F by (simp add: s'_def w'_def claimed_def b1)
      then show ?thesis using False F by (simp add: claim_page_def s1_def Let_def)
    qed
  qed
  then show ?thesis using ok' p' o1 by (intro exI [of _ s']) (simp add: s'_def)
qed

section \<open>Allocating\<close>

text \<open>Whether the trie has memory for one more page does not depend on the page.\<close>

definition room_law :: "('r, 'p) vm_env \<Rightarrow> bool" where
  "room_law E \<longleftrightarrow> (\<forall>r i. (\<forall>m. vm_radix_insert E r i m \<noteq> None) \<or> (\<forall>m. vm_radix_insert E r i m = None))"

lemma alloc_fuel:
  assumes "req AND VM_ALLOC_WAITOK = 0"
  shows "vm_page_alloc_after (Suc n) A ob i req mp a = vm_page_alloc_after 1 A ob i req mp a"
    "vm_page_alloc (Suc n) A ob i req a = vm_page_alloc 1 A ob i req a"
proof -
  have "vm_page_alloc_fail A req a = Inr (again, a1) \<Longrightarrow> \<not> again" for again a1
    using assms by (auto simp: vm_page_alloc_fail_def Let_def and_then_eq_Inr split: if_splits)
  then have f: "find_page (Suc n) A ob i req mp a = find_page 1 A ob i req mp a" for mp
    by (cases "vm_page_alloc_fail A req a") auto
  show "vm_page_alloc_after (Suc n) A ob i req mp a = vm_page_alloc_after 1 A ob i req mp a"
    "vm_page_alloc (Suc n) A ob i req a = vm_page_alloc 1 A ob i req a"
    by (simp_all only: vm_page_alloc_def vm_page_alloc_after_def f)
qed

lemma alloc_any_ok:
  assumes laws: "radix_laws (venv A) view" and al: "alloc_laws A avail" and rl: "room_law (venv A)"
    and ok: "mem_ok (venv A) view avail (sys a)"
    and req: "req_consistent (Some b) req" "req AND VM_ALLOC_IFCACHED = 0" "req AND VM_ALLOC_WAITOK = 0"
    and pp: "curproc_is_pageproc A \<or> pageproc_started A" and free: "view (rtree (objs (sys a) b)) i = None"
  shows "(\<exists>a1. vm_page_alloc 1 A (Some b) i req a = Inr (None, if req AND VM_ALLOC_WAITFAIL \<noteq> 0 then asleep A a1 else a1) \<and>
      mem_ok (venv A) view avail (sys a1) \<and> avail (phys (sys a1)) = avail (phys (sys a)) \<and>
      (\<forall>k. k \<notin> avail (phys (sys a)) \<longrightarrow> pg (sys a1) k = pg (sys a) k)) \<or>
    (\<exists>m a1. vm_page_alloc 1 A (Some b) i req a = Inr (Some m, a1) \<and> m \<in> avail (phys (sys a)) \<and>
      mem_ok (venv A) view avail (sys a1) \<and> avail (phys (sys a1)) = avail (phys (sys a)) - {m} \<and>
      granted A (Some b) i req (page_attr A (Some b)) (pg (sys a) m) (pg (sys a1) m) \<and>
      (\<forall>k. k \<noteq> m \<longrightarrow> pg (sys a1) k = pg (sys a) k))"
proof (cases "may_alloc A (alloc_class A req) a")
  case True
  show ?thesis
  proof (cases "\<forall>m. vm_radix_insert (venv A) (rtree (objs (sys a) b)) i m = None")
    case full: True
    show ?thesis using alloc_undone_ok [OF laws al ok req(1,2) True free full, of 0] by auto
  next
    case False
    then have room: "\<forall>c\<in>set_option (Some b). \<forall>m. vm_radix_insert (venv A) (rtree (objs (sys a) c)) i m \<noteq> None"
      using rl unfolding room_law_def by (metis elem_set option.inject)
    show ?thesis using alloc_page_ok [OF laws al ok req(1,2) True _ room, of 0] free by auto
  qed
next
  case False
  define a0 where "a0 = a\<lparr>vm_pageout_deficit := vm_pageout_deficit a + max (drop_bit VM_ALLOC_COUNT_SHIFT req) 1\<rparr>"
  define a1 where "a1 = (if req AND VM_ALLOC_WAITFAIL \<noteq> 0
    then if curproc_is_pageproc A then upd_sys (\<lambda>s. s\<lparr>vm_pageout_pages_needed := True\<rparr>) a0 else on_daemon pagedaemon_wait a0
    else daemon_wakeup A a0)"
  have wf: "req AND (VM_ALLOC_WAITOK OR VM_ALLOC_WAITFAIL) = req AND VM_ALLOC_WAITFAIL"
    using req(3) by (simp add: bit.conj_disj_distrib)
  have "vm_page_alloc_fail A req a = Inr (False, if req AND VM_ALLOC_WAITFAIL \<noteq> 0 then asleep A a1 else a1)"
    using pp req(3) by (auto simp: vm_page_alloc_fail_def wf Let_def a0_def [symmetric] a1_def vm_wait_def)
  then have f: "find_page 1 A (Some b) i req (found_pred A (Some b) i (sys a)) a =
      Inr (None, if req AND VM_ALLOC_WAITFAIL \<noteq> 0 then asleep A a1 else a1)"
    using False by simp
  have free': "\<forall>c\<in>set_option (Some b). view (rtree (objs (sys a) c)) i = None" using free by simp
  have mp: "\<not> (\<exists>p\<in>set_option (found_pred A (Some b) i (sys a)). \<not> pindex (pg (sys a) p) < i)"
    using found_pred_below [OF laws mem_okD(2) [OF ok] free'] by blast
  have e: "vm_page_alloc 1 A (Some b) i req a = Inr (None, if req AND VM_ALLOC_WAITFAIL \<noteq> 0 then asleep A a1 else a1)"
    unfolding alloc_after_found vm_page_alloc_after_def f using req mp by simp
  have s: "pg (sys a1) = pg (sys a)" "vmd (sys a1) = vmd (sys a)" "objs (sys a1) = objs (sys a)" "phys (sys a1) = phys (sys a)"
    by (simp_all add: a1_def a0_def)
  show ?thesis using e mem_ok_same [OF ok s] s by (intro disjI1 exI [of _ a1]) simp
qed

section \<open>One page\<close>

lemma env_of_sel [simp]:
  "venv (alloc_env_of G ms) = venv (ga G)" "asleep (alloc_env_of G ms) = others G ms"
  "curproc_is_pageproc (alloc_env_of G ms) = curproc_is_pageproc (ga G)"
  "pageproc_started (alloc_env_of G ms) = pageproc_started (ga G)"
  "alloc_laws (alloc_env_of G ms) avail = alloc_laws (ga G) avail"
  "page_attr (alloc_env_of G ms) ob = page_attr (ga G) ob"
  "granted (alloc_env_of G ms) ob i req = granted (ga G) ob i req"
  by (simp_all add: alloc_env_of_def alloc_laws_def page_attr_def granted_def req_oflags_def fun_eq_iff split: option.split)

lemma granted_pflags: "granted A ob i (grab_pflags fl) = granted A ob i fl"
proof -
  have "grab_pflags fl AND VM_ALLOC_ZERO = fl AND VM_ALLOC_ZERO" "grab_pflags fl AND VM_ALLOC_NODUMP = fl AND VM_ALLOC_NODUMP"
    "grab_pflags fl AND VM_ALLOC_WIRED = fl AND VM_ALLOC_WIRED" "grab_pflags fl AND VM_ALLOC_SBUSY = fl AND VM_ALLOC_SBUSY"
    "grab_pflags fl AND (VM_ALLOC_NOBUSY OR VM_ALLOC_NOOBJ) = fl AND (VM_ALLOC_NOBUSY OR VM_ALLOC_NOOBJ)"
    by (rule grab_pflags_and(1); simp add: alloc_flag_defs)+
  then show ?thesis by (simp add: granted_def fun_eq_iff)
qed

text \<open>The laws of the code the routines call, and the pages of objects as the page layer keeps them.\<close>

definition grab_laws ::
    "('r, 'p) grab_env \<Rightarrow> ('r \<Rightarrow> nat \<Rightarrow> pid option) \<Rightarrow> ('p \<Rightarrow> pid set) \<Rightarrow> bool" where
  "grab_laws G view avail \<longleftrightarrow> radix_laws (venv (ga G)) view \<and> alloc_laws (ga G) avail \<and> room_law (venv (ga G)) \<and>
    (curproc_is_pageproc (ga G) \<or> pageproc_started (ga G))"

definition obj_pages_ok :: "('r, 'p) vm_sys \<Rightarrow> bool" where
  "obj_pages_ok s \<longleftrightarrow> (\<forall>m. object (pg s m) \<noteq> None \<longrightarrow>
    flags (pg s m) \<inter> {PG_FICTITIOUS, PG_MARKER} = {} \<and> busy_word (2 ^ 29) (busy_lock (pg s m)))"

lemma obj_pages_okD:
  assumes "obj_pages_ok s" "object (pg s m) \<noteq> None"
  shows "PG_FICTITIOUS \<notin> flags (pg s m)" "regular s m" "busy_word (2 ^ 29) (busy_lock (pg s m))"
  using assms by (auto simp: obj_pages_ok_def regular_def)

text \<open>A look-up has to be repeated when the page is busy, or absent and cannot be allocated now.\<close>

definition grab_blocked :: "('r, 'p) grab_env \<Rightarrow> oid \<Rightarrow> nat \<Rightarrow> u32 \<Rightarrow> ('r, 'p) alloc_sys \<Rightarrow> bool" where
  "grab_blocked G ob i fl a \<longleftrightarrow> (case vm_page_lookup (venv (ga G)) (sys a) ob i of
      Some m \<Rightarrow> must_sleep fl (pg (sys a) m)
    | None \<Rightarrow> (case vm_page_alloc 1 (alloc_env_of G []) (Some ob) i (grab_pflags fl) a of
        Inr (None, _) \<Rightarrow> True | _ \<Rightarrow> False))"

definition grab_again :: "('r, 'p) grab_env \<Rightarrow> oid \<Rightarrow> nat \<Rightarrow> u32 \<Rightarrow> ('r, 'p) alloc_sys \<Rightarrow> ('r, 'p) alloc_sys" where
  "grab_again G ob i fl a = (case vm_page_lookup (venv (ga G)) (sys a) ob i of
      Some m \<Rightarrow> grab_sleep G [] fl m a
    | None \<Rightarrow> (case vm_page_alloc 1 (alloc_env_of G []) (Some ob) i (grab_pflags fl) a of Inr (_, a1) \<Rightarrow> a1 | _ \<Rightarrow> a))"

definition got_page ::
    "('r, 'p) grab_env \<Rightarrow> ('r \<Rightarrow> nat \<Rightarrow> pid option) \<Rightarrow> ('p \<Rightarrow> pid set) \<Rightarrow> oid \<Rightarrow> nat \<Rightarrow> u32 \<Rightarrow> ('r, 'p) alloc_sys
      \<Rightarrow> pid \<Rightarrow> pid list \<Rightarrow> ('r, 'p) alloc_sys \<Rightarrow> bool" where
  "got_page G view avail ob i fl b m zs a \<longleftrightarrow> mem_ok (venv (ga G)) view avail (sys a) \<and>
    vm_page_lookup (venv (ga G)) (sys a) ob i = Some m \<and> (\<forall>k. k \<noteq> m \<longrightarrow> pg (sys a) k = pg (sys b) k) \<and>
    (case vm_page_lookup (venv (ga G)) (sys b) ob i of
       Some m0 \<Rightarrow> m = m0 \<and> zs = [] \<and> pg (sys a) m = claimed fl (pg (sys b) m)
     | None \<Rightarrow> m \<in> avail (phys (sys b)) \<and>
         granted (ga G) (Some ob) i fl (page_attr (ga G) (Some ob)) (pg (sys b) m) (pg (sys a) m) \<and>
         zs = (if fl AND VM_ALLOC_ZERO \<noteq> 0 \<and> PG_ZERO \<notin> flags (pg (sys b) m) then [m] else []))"

lemma lookup_pages:
  assumes "radix_laws E view" "objs_ok view s"
  shows "vm_page_lookup E s ob i = Some m \<longleftrightarrow> object (pg s m) = Some ob \<and> pindex (pg s m) = i"
    "vm_page_lookup E s ob i = view (rtree (objs s ob)) i"
proof -
  show "vm_page_lookup E s ob i = view (rtree (objs s ob)) i"
    using assms(1) by (simp add: vm_page_lookup_def radix_laws_def)
  then show "vm_page_lookup E s ob i = Some m \<longleftrightarrow> object (pg s m) = Some ob \<and> pindex (pg s m) = i"
    using view_pages [OF assms(2)] by simp
qed

lemma grab_round:
  assumes laws: "grab_laws G view avail" and fl: "grab_flags_ok fl" and ok: "mem_ok (venv (ga G)) view avail (sys b)"
    and op: "obj_pages_ok (sys b)" and nb: "\<not> grab_blocked G ob i fl b"
  shows "\<exists>m zs a'. grab_lookup (Suc n) G ob i fl b = Inr (Some m, zs, a') \<and> got_page G view avail ob i fl b m zs a'"
proof -
  let ?E = "venv (ga G)" and ?A = "alloc_env_of G []"
  have L: "radix_laws ?E view" "alloc_laws ?A avail" "room_law (venv ?A)" "curproc_is_pageproc ?A \<or> pageproc_started ?A"
    using laws by (simp_all add: grab_laws_def)
  have okA: "mem_ok (venv ?A) view avail (sys b)" "radix_laws (venv ?A) view" using ok L(1) by simp_all
  note oo = mem_okD(2) [OF ok]
  show ?thesis
  proof (cases "vm_page_lookup ?E (sys b) ob i")
    case (Some m)
    have p: "object (pg (sys b) m) = Some ob" "pindex (pg (sys b) m) = i" using lookup_pages(1) [OF L(1) oo] Some by simp_all
    then have in_ob: "object (pg (sys b) m) \<noteq> None" by simp
    note O = obj_pages_okD [OF op in_ob]
    have ms: "\<not> must_sleep fl (pg (sys b) m)" using nb by (simp add: grab_blocked_def Some)
    obtain s' where s': "claim_page ?E fl m (sys b) = Inr s'" "mem_ok ?E view avail s'" "pg s' = upd_pg (pg (sys b)) m (claimed fl)"
        "phys s' = phys (sys b)"
      using claim_page_ok [OF ok O(2) in_ob O(1) fl ms O(3)] by blast
    have "vm_page_lookup ?E s' ob i = Some m"
      using lookup_pages(1) [OF L(1) mem_okD(2) [OF s'(2)]] p by (simp add: s'(3) claimed_def)
    then have "got_page G view avail ob i fl b m [] (b\<lparr>sys := s'\<rparr>)"
      using s' Some by (simp add: got_page_def)
    then show ?thesis using s'(1) Some ms by (intro exI [of _ m] exI [of _ "[]"] exI [of _ "b\<lparr>sys := s'\<rparr>"]) simp
  next
    case None
    have free: "view (rtree (objs (sys b) ob)) i = None" using None lookup_pages(2) [OF L(1) oo] by simp
    note A = alloc_any_ok [OF okA(2) L(2,3) okA(1) grab_req_ok [OF fl] grab_pflags_and(3) L(4) free]
    have "vm_page_alloc 1 ?A (Some ob) i (grab_pflags fl) b \<noteq> Inr (None, x)" for x
      using nb None by (auto simp: grab_blocked_def)
    then obtain m a1 where a1: "vm_page_alloc 1 ?A (Some ob) i (grab_pflags fl) b = Inr (Some m, a1)" "m \<in> avail (phys (sys b))"
      "mem_ok ?E view avail (sys a1)"
      "granted (ga G) (Some ob) i fl (page_attr (ga G) (Some ob)) (pg (sys b) m) (pg (sys a1) m)"
      "\<forall>k. k \<noteq> m \<longrightarrow> pg (sys a1) k = pg (sys b) k"
      using A by (auto simp: granted_pflags)
    define zs where "zs = (if fl AND VM_ALLOC_ZERO \<noteq> 0 \<and> PG_ZERO \<notin> flags (pg (sys b) m) then [m] else [])"
    have z: "(if fl AND VM_ALLOC_ZERO \<noteq> 0 \<and> PG_ZERO \<notin> flags (pg (sys a1) m) then [m] else []) = zs"
      using a1(4) by (auto simp: zs_def granted_def)
    have "vm_page_lookup ?E (sys a1) ob i = Some m"
      using lookup_pages(1) [OF L(1) mem_okD(2) [OF a1(3)]] a1(4) by (simp add: granted_def)
    then have "got_page G view avail ob i fl b m zs a1" using a1 None by (simp add: got_page_def zs_def)
    moreover have "vm_page_alloc (Suc n) ?A (Some ob) i (grab_pflags fl) b = Inr (Some m, a1)"
      unfolding alloc_fuel(2) [OF grab_pflags_and(3)] by (rule a1(1))
    then have "grab_lookup (Suc n) G ob i fl b = Inr (Some m, zs, a1)" using None z by simp
    ultimately show ?thesis by blast
  qed
qed

lemma grab_skip:
  assumes "grab_blocked G ob i fl a"
  shows "fl AND VM_ALLOC_NOWAIT = 0 \<Longrightarrow> grab_lookup (Suc n) G ob i fl a = grab_lookup n G ob i fl (grab_again G ob i fl a)"
    "fl AND VM_ALLOC_NOWAIT \<noteq> 0 \<Longrightarrow> grab_lookup (Suc n) G ob i fl a =
      Inr (None, [], if vm_page_lookup (venv (ga G)) (sys a) ob i = None then grab_again G ob i fl a else a)"
  using assms alloc_fuel(2) [OF grab_pflags_and(3), of n "alloc_env_of G []" "Some ob" i fl a]
  by (auto simp: grab_blocked_def grab_again_def split: option.splits sum.splits)

lemma grab_skips:
  assumes nw: "fl AND VM_ALLOC_NOWAIT = 0"
  shows "\<forall>j<k. grab_blocked G ob i fl ((grab_again G ob i fl ^^ j) a) \<Longrightarrow>
    grab_lookup (k + n) G ob i fl a = grab_lookup n G ob i fl ((grab_again G ob i fl ^^ k) a)"
proof (induction k arbitrary: a)
  case (Suc k)
  have 0: "grab_blocked G ob i fl a" using Suc.prems by force
  have "\<forall>j<k. grab_blocked G ob i fl ((grab_again G ob i fl ^^ j) (grab_again G ob i fl a))"
    using Suc.prems by (metis Suc_less_eq comp_apply funpow_Suc_right)
  then have "grab_lookup (k + n) G ob i fl (grab_again G ob i fl a) =
      grab_lookup n G ob i fl ((grab_again G ob i fl ^^ Suc k) a)"
    using Suc.IH by (simp add: funpow_swap1)
  then show ?case using grab_skip(1) [OF 0 nw, of "k + n"] by simp
qed simp

text \<open>A request that may not wait comes back at once, with the pages in use as they were.\<close>

lemma grab_refused:
  assumes laws: "grab_laws G view avail" and fl: "grab_flags_ok fl" and ok: "mem_ok (venv (ga G)) view avail (sys a)"
    and b: "grab_blocked G ob i fl a" and nw: "fl AND VM_ALLOC_NOWAIT \<noteq> 0"
  shows "\<exists>a'. grab_lookup (Suc n) G ob i fl a = Inr (None, [], a') \<and> mem_ok (venv (ga G)) view avail (sys a') \<and>
    (\<forall>k. k \<notin> avail (phys (sys a)) \<longrightarrow> pg (sys a') k = pg (sys a) k)"
proof (cases "vm_page_lookup (venv (ga G)) (sys a) ob i")
  case None
  let ?A = "alloc_env_of G []"
  have L: "radix_laws (venv ?A) view" "alloc_laws ?A avail" "room_law (venv ?A)" "curproc_is_pageproc ?A \<or> pageproc_started ?A"
    "mem_ok (venv ?A) view avail (sys a)"
    using laws ok by (simp_all add: grab_laws_def)
  have free: "view (rtree (objs (sys a) ob)) i = None"
    using None lookup_pages(2) [OF L(1) mem_okD(2) [OF L(5)]] by simp
  note A = alloc_any_ok [OF L(1-3,5) grab_req_ok [OF fl] grab_pflags_and(3) L(4) free]
  have wf: "grab_pflags fl AND VM_ALLOC_WAITFAIL = 0" using grab_pflags_and(5) [of fl] nw by simp
  have "\<nexists>m a1. vm_page_alloc 1 ?A (Some ob) i (grab_pflags fl) a = Inr (Some m, a1)"
    using b None by (auto simp: grab_blocked_def)
  then obtain a1 where a1: "vm_page_alloc 1 ?A (Some ob) i (grab_pflags fl) a = Inr (None, a1)"
    "mem_ok (venv (ga G)) view avail (sys a1)" "\<forall>k. k \<notin> avail (phys (sys a)) \<longrightarrow> pg (sys a1) k = pg (sys a) k"
    using A wf by auto
  then show ?thesis using grab_skip(2) [OF b nw] None by (auto simp: grab_again_def)
qed (use grab_skip(2) [OF b nw] ok in simp)

section \<open>A range of pages\<close>

text \<open>What the routine has made sure of, for each page it got.\<close>

definition held_for :: "u32 \<Rightarrow> vm_page \<Rightarrow> bool" where
  "held_for fl x \<longleftrightarrow> (fl AND (VM_ALLOC_NOBUSY OR VM_ALLOC_SBUSY) = 0 \<longrightarrow> vm_page_xbusied (busy_lock x)) \<and>
    (fl AND VM_ALLOC_SBUSY \<noteq> 0 \<longrightarrow> vm_page_sbusied (busy_lock x)) \<and>
    (fl AND VM_ALLOC_WIRED \<noteq> 0 \<longrightarrow> wire_count x \<noteq> 0)"

definition ours :: "u32 \<Rightarrow> vm_page \<Rightarrow> bool" where
  "ours fl x \<longleftrightarrow> held_for fl x \<and> (fl AND VM_ALLOC_NOBUSY = 0 \<and> fl AND VM_ALLOC_ZERO \<noteq> 0 \<longrightarrow> valid x \<noteq> 0)"

text \<open>No counter of a page that is not claimed yet is at its limit.\<close>

definition roomy :: "vm_page \<Rightarrow> bool" where
  "roomy x \<longleftrightarrow> busy_word (2 ^ 29 - 1) (busy_lock x) \<and> wire_count x \<noteq> - 1"

definition mem_good ::
    "('r, 'p) grab_env \<Rightarrow> ('r \<Rightarrow> nat \<Rightarrow> pid option) \<Rightarrow> ('p \<Rightarrow> pid set) \<Rightarrow> pid list \<Rightarrow> ('r, 'p) alloc_sys \<Rightarrow> bool" where
  "mem_good G view avail mine a \<longleftrightarrow> mem_ok (venv (ga G)) view avail (sys a) \<and> obj_pages_ok (sys a) \<and>
    (\<forall>m. object (pg (sys a) m) \<noteq> None \<and> m \<notin> set mine \<longrightarrow> roomy (pg (sys a) m))"

definition in_place :: "oid \<Rightarrow> nat \<Rightarrow> u32 \<Rightarrow> pid list \<Rightarrow> ('r, 'p) vm_sys \<Rightarrow> bool" where
  "in_place ob ix fl ma s \<longleftrightarrow> (\<forall>j<length ma. object (pg s (ma ! j)) = Some ob \<and> pindex (pg s (ma ! j)) = ix + j \<and>
    ours fl (pg s (ma ! j)))"

text \<open>
  What is asked of the other threads: they keep memory in order and leave the pages that are claimed
  in their place and claimed.
\<close>

definition polite ::
    "('r, 'p) grab_env \<Rightarrow> ('r \<Rightarrow> nat \<Rightarrow> pid option) \<Rightarrow> ('p \<Rightarrow> pid set) \<Rightarrow> u32 \<Rightarrow> bool" where
  "polite G view avail fl \<longleftrightarrow> (\<forall>mine a. mem_good G view avail mine a \<longrightarrow> mem_good G view avail mine (others G mine a) \<and>
    (\<forall>m\<in>set mine. object (pg (sys (others G mine a)) m) = object (pg (sys a) m) \<and>
      pindex (pg (sys (others G mine a)) m) = pindex (pg (sys a) m) \<and>
      (ours fl (pg (sys a) m) \<longrightarrow> ours fl (pg (sys (others G mine a)) m))))"

lemma mem_goodD:
  assumes "mem_good G view avail mine a"
  shows "mem_ok (venv (ga G)) view avail (sys a)" "obj_pages_ok (sys a)"
    "object (pg (sys a) m) \<noteq> None \<Longrightarrow> m \<notin> set mine \<Longrightarrow> roomy (pg (sys a) m)"
  using assms by (auto simp: mem_good_def)

lemma polite_keeps:
  assumes "polite G view avail fl" "mem_good G view avail mine a" "in_place ob ix fl mine (sys a)"
  shows "mem_good G view avail mine (others G mine a)" "in_place ob ix fl mine (sys (others G mine a))"
  using assms unfolding polite_def in_place_def by (metis nth_mem)+

text \<open>A change of one page that leaves its place, its queue and its claim alone.\<close>

lemma good_upd:
  assumes g: "mem_good G view avail mine a" and out: "m \<notin> avail (phys (sys a))"
    and f: "\<And>x. flags (f x) = flags x \<and> queue (f x) = queue x \<and> wire_count (f x) = wire_count x \<and>
      oflags (f x) = oflags x \<and> object (f x) = object x \<and> pindex (f x) = pindex x"
    and w: "\<And>b. busy_word b (busy_lock (pg (sys a) m)) \<Longrightarrow> busy_word b (busy_lock (f (pg (sys a) m)))"
  shows "mem_good G view avail mine (upd_sys (upd_page m f) a)"
proof -
  have p: "pg (sys (upd_sys (upd_page m f) a)) = upd_pg (pg (sys a)) m f" by simp
  have "mem_ok (venv (ga G)) view avail (sys (upd_sys (upd_page m f) a))"
    using upd_page_mem_ok [OF mem_goodD(1) [OF g] out f] by simp
  moreover have "obj_pages_ok (sys (upd_sys (upd_page m f) a))"
    unfolding obj_pages_ok_def p
  proof (intro allI impI)
    fix n
    assume "object (upd_pg (pg (sys a)) m f n) \<noteq> None"
    then have n: "object (pg (sys a) n) \<noteq> None" using f by (cases "n = m") auto
    note O = obj_pages_okD [OF mem_goodD(2) [OF g] n]
    show "flags (upd_pg (pg (sys a)) m f n) \<inter> {PG_FICTITIOUS, PG_MARKER} = {} \<and>
        busy_word (2 ^ 29) (busy_lock (upd_pg (pg (sys a)) m f n))"
      using O w f by (cases "n = m") (auto simp: regular_def)
  qed
  moreover have "roomy (pg (sys (upd_sys (upd_page m f) a)) n)"
    if n: "object (pg (sys (upd_sys (upd_page m f) a)) n) \<noteq> None" "n \<notin> set mine" for n
  proof -
    have "object (pg (sys a) n) \<noteq> None" using n(1) f by (cases "n = m") auto
    then have "roomy (pg (sys a) n)" by (rule mem_goodD(3) [OF g _ n(2)])
    then show ?thesis using w f by (cases "n = m") (auto simp: roomy_def p)
  qed
  ultimately show ?thesis by (simp add: mem_good_def)
qed

lemma sleep_keeps:
  assumes pol: "polite G view avail fl" and g: "mem_good G view avail ma a" and pl: "in_place ob ix fl ma (sys a)"
    and m: "object (pg (sys a) m) \<noteq> None" "m \<notin> set ma"
  shows "mem_good G view avail ma (grab_sleep G ma fl' m a) \<and> in_place ob ix fl ma (sys (grab_sleep G ma fl' m a))"
proof -
  define a0 where "a0 = upd_sys (upd_page m (\<lambda>x. vm_page_aflag_set x {PGA_REFERENCED})) a"
  have out: "m \<notin> avail (phys (sys a))" using mem_okD(3) [OF mem_goodD(1) [OF g], of m] m(1) freshD(1) by auto
  have g0: "mem_good G view avail ma a0" unfolding a0_def by (rule good_upd [OF g out]) (simp_all add: vm_page_aflag_set_def)
  have keep: "in_place ob ix fl ma (upd_page m f s)" if "in_place ob ix fl ma s" for f s
  proof -
    have "ma ! j \<noteq> m" if "j < length ma" for j using m(2) nth_mem [OF that] by blast
    then show ?thesis using that by (simp add: in_place_def)
  qed
  have p0: "in_place ob ix fl ma (sys a0)" using keep pl by (simp add: a0_def)
  define a1 where "a1 = others G ma a0"
  define a2 where "a2 = others G ma a1"
  note P1 = polite_keeps [OF pol g0 p0, folded a1_def]
  note P2 = polite_keeps [OF pol P1, folded a2_def]
  obtain w out where w: "vm_page_busy_sleep (fl' AND VM_ALLOC_IGN_SBUSY \<noteq> 0) (busy_lock (pg (sys a1) m)) (busy_lock (pg (sys a2) m)) = (w, out)"
    by (cases "vm_page_busy_sleep (fl' AND VM_ALLOC_IGN_SBUSY \<noteq> 0) (busy_lock (pg (sys a1) m)) (busy_lock (pg (sys a2) m))")
  define a3 where "a3 = upd_sys (upd_page m (\<lambda>x. x\<lparr>busy_lock := w\<rparr>)) a2"
  have p3: "in_place ob ix fl ma (sys a3)" using keep [OF P2(2)] by (simp add: a3_def)
  have g3: "mem_good G view avail ma a3"
  proof (cases "w = busy_lock (pg (sys a2) m)")
    case True
    then have "a3 = a2" by (simp add: a3_def upd_sys_def upd_page_def upd_pg_def fun_upd_idem)
    then show ?thesis using P2(1) by simp
  next
    case False
    then have "busy_lock (pg (sys a2) m) \<noteq> VPB_UNBUSIED"
      using w by (auto simp: vm_page_busy_sleep_def cmpset_def split: if_splits)
    then have out2: "m \<notin> avail (phys (sys a2))" using mem_okD(3) [OF mem_goodD(1) [OF P2(1)], of m] freshD(5) by auto
    have "busy_word b (busy_lock (pg (sys a2) m)) \<Longrightarrow> busy_word b w" for b
      using busy_sleep_word [of b "busy_lock (pg (sys a2) m)"] w by (metis fst_conv)
    then show ?thesis unfolding a3_def by (intro good_upd [OF P2(1) out2]) simp_all
  qed
  define a4 where "a4 = (if out = Sleep then others G ma a3 else a3)"
  have P4: "mem_good G view avail ma a4" "in_place ob ix fl ma (sys a4)"
    using polite_keeps [OF pol g3 p3] g3 p3 by (simp_all add: a4_def)
  have e: "grab_sleep G ma fl' m a = others G ma a4"
    by (simp add: grab_sleep_def busy_wait_def Let_def a0_def [symmetric] a1_def [symmetric] a2_def [symmetric] w a3_def a4_def)
  show ?thesis unfolding e by (rule conjI [OF polite_keeps [OF pol P4]])
qed

lemma in_object_out: "mem_ok E view avail s \<Longrightarrow> object (pg s m) \<noteq> None \<Longrightarrow> m \<notin> avail (phys s)"
  using mem_okD(3) [of E view avail s m] freshD(1) by auto

lemma in_place_new:
  assumes "in_place ob ix fl ma s" "pindex (pg s m) = ix + length ma"
  shows "m \<notin> set ma"
  using assms by (auto simp: in_place_def in_set_conv_nth)

text \<open>One more page is ours.\<close>

lemma got_step:
  assumes g: "mem_good G view avail ma a" and pl: "in_place ob ix fl ma (sys a)" and ok1: "mem_ok (venv (ga G)) view avail (sys a1)"
    and oth: "\<forall>k. k \<noteq> m \<longrightarrow> pg (sys a1) k = pg (sys a) k" and new: "m \<notin> set ma"
    and m: "object (pg (sys a1) m) = Some ob" "pindex (pg (sys a1) m) = ix + length ma"
      "flags (pg (sys a1) m) \<inter> {PG_FICTITIOUS, PG_MARKER} = {}" "busy_word (2 ^ 29) (busy_lock (pg (sys a1) m))"
      "held_for fl (pg (sys a1) m)"
    and z: "zero_valid fl m (zs, a1) = (zs', a')"
  shows "mem_good G view avail (ma @ [m]) a'" "in_place ob ix fl (ma @ [m]) (sys a')"
proof -
  have op1: "obj_pages_ok (sys a1)"
    unfolding obj_pages_ok_def
  proof (intro allI impI)
    fix n
    assume n: "object (pg (sys a1) n) \<noteq> None"
    show "flags (pg (sys a1) n) \<inter> {PG_FICTITIOUS, PG_MARKER} = {} \<and> busy_word (2 ^ 29) (busy_lock (pg (sys a1) n))"
    proof (cases "n = m")
      case False
      then show ?thesis using n oth mem_goodD(2) [OF g] by (simp add: obj_pages_ok_def)
    qed (use m in simp)
  qed
  have ro: "roomy (pg (sys a1) n)" if "object (pg (sys a1) n) \<noteq> None" "n \<notin> set (ma @ [m])" for n
    using that oth mem_goodD(3) [OF g, of n] by simp
  have g1: "mem_good G view avail (ma @ [m]) a1" using ok1 op1 ro by (simp add: mem_good_def)
  have out: "m \<notin> avail (phys (sys a1))" using in_object_out [OF ok1] m(1) by simp
  have a': "a' = (if valid (pg (sys a1) m) = 0 \<and> fl AND VM_ALLOC_ZERO \<noteq> 0
      then upd_sys (upd_page m (\<lambda>x. x\<lparr>valid := VM_PAGE_BITS_ALL\<rparr>)) a1 else a1)"
    using z by (auto simp: zero_valid_def split: if_splits)
  have "mem_good G view avail (ma @ [m]) (upd_sys (upd_page m (\<lambda>x. x\<lparr>valid := VM_PAGE_BITS_ALL\<rparr>)) a1)"
    by (rule good_upd [OF g1 out]) simp_all
  then show "mem_good G view avail (ma @ [m]) a'" using g1 by (simp add: a')
  have old: "pg (sys a') (ma ! j) = pg (sys a) (ma ! j)" if "j < length ma" for j
  proof -
    have "ma ! j \<noteq> m" using new nth_mem [OF that] by blast
    then show ?thesis using oth by (simp add: a')
  qed
  have "object (pg (sys a') m) = Some ob" "pindex (pg (sys a') m) = ix + length ma" "ours fl (pg (sys a') m)"
    using m(1,2,5) by (auto simp: a' ours_def held_for_def VM_PAGE_BITS_ALL_def)
  then show "in_place ob ix fl (ma @ [m]) (sys a')"
    using pl old unfolding in_place_def by (auto simp: nth_append less_Suc_eq)
qed

lemma claim_step:
  assumes g: "mem_good G view avail ma a" and pl: "in_place ob ix fl ma (sys a)" and fl: "grab_flags_ok fl"
    and m: "object (pg (sys a) m) = Some ob" "pindex (pg (sys a) m) = ix + length ma" and ms: "\<not> must_sleep fl (pg (sys a) m)"
  shows "\<exists>s'. claim_page (venv (ga G)) fl m (sys a) = Inr s' \<and> (\<forall>zs zs' a'. zero_valid fl m (zs, a\<lparr>sys := s'\<rparr>) = (zs', a') \<longrightarrow>
    mem_good G view avail (ma @ [m]) a' \<and> in_place ob ix fl (ma @ [m]) (sys a'))"
proof -
  have in_ob: "object (pg (sys a) m) \<noteq> None" using m(1) by simp
  note O = obj_pages_okD [OF mem_goodD(2) [OF g] in_ob]
  have new: "m \<notin> set ma" by (rule in_place_new [OF pl m(2)])
  have ro: "roomy (pg (sys a) m)" by (rule mem_goodD(3) [OF g in_ob new])
  obtain s' where s': "claim_page (venv (ga G)) fl m (sys a) = Inr s'" "mem_ok (venv (ga G)) view avail s'"
      "pg s' = upd_pg (pg (sys a)) m (claimed fl)"
    using claim_page_ok [OF mem_goodD(1) [OF g] O(2) in_ob O(1) fl ms O(3)] by blast
  let ?x = "pg (sys a) m"
  have sh: "\<exists>n wt. busy_lock ?x = shared_word n wt \<and> Suc n < 2 ^ 29" if "fl AND VM_ALLOC_SBUSY \<noteq> 0"
  proof -
    have "\<not> vm_page_xbusied (busy_lock ?x)"
      using that fl ms by (auto simp: grab_flags_ok_def must_sleep_def split: if_splits)
    then show ?thesis using ro by (force simp: roomy_def busy_word_def)
  qed
  have sx: "fl AND (VM_ALLOC_NOBUSY OR VM_ALLOC_SBUSY) = 0 \<Longrightarrow> fl AND VM_ALLOC_SBUSY = 0"
    by (simp add: bit.conj_disj_distrib or_eq_0_iff)
  have word: "busy_word (2 ^ 29) (busy_lock (claimed fl ?x))"
  proof (cases "fl AND VM_ALLOC_SBUSY \<noteq> 0")
    case True
    then obtain n wt where n: "busy_lock ?x = shared_word n wt" "Suc n < 2 ^ 29" using sh by blast
    have "busy_lock (claimed fl ?x) = shared_word (Suc n) wt" using True sx n(1) by (auto simp: claimed_def shared_add)
    then show ?thesis using n(2) unfolding busy_word_def by blast
  next
    case False
    then have "busy_lock (claimed fl ?x) = excl_word False \<or> busy_lock (claimed fl ?x) = busy_lock ?x"
      by (simp add: claimed_def words(3))
    then show ?thesis using O(3) unfolding busy_word_def by metis
  qed
  have held: "held_for fl (claimed fl ?x)"
    using sh sx ro by (auto simp: held_for_def claimed_def words(3) shared_add sbusied_word roomy_def eq_neg_iff_add_eq_0)
  have "mem_good G view avail (ma @ [m]) a' \<and> in_place ob ix fl (ma @ [m]) (sys a')"
    if "zero_valid fl m (zs, a\<lparr>sys := s'\<rparr>) = (zs', a')" for zs zs' a'
  proof -
    have fl': "flags (claimed fl ?x) \<inter> {PG_FICTITIOUS, PG_MARKER} = {}" using O(1,2) by (simp add: claimed_def regular_def)
    have "object (claimed fl ?x) = Some ob" "pindex (claimed fl ?x) = ix + length ma" using m by (simp_all add: claimed_def)
    note got_step [OF g pl _ _ new _ _ _ _ _ that]
    then show ?thesis using s'(2) \<open>object (claimed fl ?x) = Some ob\<close> \<open>pindex (claimed fl ?x) = ix + length ma\<close> fl' word held
      by (simp add: s'(3))
  qed
  then show ?thesis using s'(1) by blast
qed

lemma range_req_ok:
  fixes fl c
  assumes "grab_flags_ok fl"
  defines "req \<equiv> range_pflags fl OR VM_ALLOC_COUNT c"
  shows "req_consistent (Some b) req" "req AND VM_ALLOC_IFCACHED = 0" "req AND VM_ALLOC_WAITOK = 0"
    "req AND VM_ALLOC_WAITFAIL \<noteq> 0 \<longleftrightarrow> fl AND VM_ALLOC_NOWAIT = 0" "granted A (Some b) i req = granted A (Some b) i fl"
proof -
  have r: "req AND X = range_pflags fl AND X" if "drop_bit 16 X = 0" for X
    unfolding req_def by (rule count_and [OF that])
  have a: "req AND X = fl AND X" if "X AND 0x9018 = 0" "drop_bit 16 X = 0" for X
    unfolding r [OF that(2)] by (rule grab_pflags_and(2) [OF that(1)])
  have b: "req AND VM_ALLOC_NOOBJ = fl AND VM_ALLOC_NOOBJ" "req AND VM_ALLOC_ZERO = fl AND VM_ALLOC_ZERO"
    "req AND (VM_ALLOC_NOBUSY OR VM_ALLOC_SBUSY) = fl AND (VM_ALLOC_NOBUSY OR VM_ALLOC_SBUSY)"
    "req AND VM_ALLOC_IFCACHED = fl AND VM_ALLOC_IFCACHED" "req AND VM_ALLOC_NODUMP = fl AND VM_ALLOC_NODUMP"
    "req AND VM_ALLOC_WIRED = fl AND VM_ALLOC_WIRED" "req AND VM_ALLOC_SBUSY = fl AND VM_ALLOC_SBUSY"
    "req AND (VM_ALLOC_NOBUSY OR VM_ALLOC_NOOBJ) = fl AND (VM_ALLOC_NOBUSY OR VM_ALLOC_NOOBJ)"
    by (rule a; simp add: alloc_flag_defs)+
  have c: "req AND VM_ALLOC_WAITOK = range_pflags fl AND VM_ALLOC_WAITOK"
    "req AND VM_ALLOC_WAITFAIL = range_pflags fl AND VM_ALLOC_WAITFAIL"
    by (rule r; simp add: alloc_flag_defs)+
  show "req AND VM_ALLOC_WAITOK = 0" "req AND VM_ALLOC_WAITFAIL \<noteq> 0 \<longleftrightarrow> fl AND VM_ALLOC_NOWAIT = 0"
    unfolding c by (rule grab_pflags_and(4), rule grab_pflags_and(6))
  then show "req_consistent (Some b) req" "req AND VM_ALLOC_IFCACHED = 0" "granted A (Some b) i req = granted A (Some b) i fl"
    using assms(1) by (simp_all add: req_consistent_def b grab_flags_ok_def granted_def fun_eq_iff)
qed

text \<open>What the loop knows of the next index: its page, and if there is none the page to insert after.\<close>

definition positioned :: "('r, 'p) vm_env \<Rightarrow> oid \<Rightarrow> nat \<Rightarrow> ('r, 'p) vm_sys \<Rightarrow> pid option \<times> pid option \<Rightarrow> bool" where
  "positioned E ob j s mp \<longleftrightarrow> fst mp = vm_page_lookup E s ob j \<and>
    (fst mp = None \<longrightarrow> snd mp = vm_radix_lookup_le E (rtree (objs s ob)) j)"

lemma le_cases:
  assumes "radix_laws E view"
  shows "case vm_radix_lookup_le E r i of
       None \<Rightarrow> \<forall>j\<le>i. view r j = None
     | Some m \<Rightarrow> \<exists>j\<le>i. view r j = Some m \<and> (\<forall>k. j < k \<and> k \<le> i \<longrightarrow> view r k = None)"
  using assms unfolding radix_laws_def by blast

lemma range_lookup_positioned:
  assumes laws: "radix_laws E view" and ok: "objs_ok view s"
  shows "positioned E ob j s (range_lookup E ob j s)"
proof (cases "vm_radix_lookup_le E (rtree (objs s ob)) j")
  case None
  then have "view (rtree (objs s ob)) j = None" using le_cases [OF laws, where r = "rtree (objs s ob)" and i = j] by simp
  then show ?thesis using None by (simp add: positioned_def range_lookup_def lookup_pages(2) [OF laws ok])
next
  case (Some m)
  then obtain k where k: "k \<le> j" "view (rtree (objs s ob)) k = Some m"
      "\<forall>l. k < l \<and> l \<le> j \<longrightarrow> view (rtree (objs s ob)) l = None"
    using le_cases [OF laws, where r = "rtree (objs s ob)" and i = j] by auto
  have p: "pindex (pg s m) = k" using view_pages [OF ok] k(2) by simp
  show ?thesis
  proof (cases "k = j")
    case True
    then show ?thesis using Some k(2) p by (simp add: positioned_def range_lookup_def lookup_pages(2) [OF laws ok])
  next
    case False
    then have "view (rtree (objs s ob)) j = None" using k by auto
    then show ?thesis using Some p False by (simp add: positioned_def range_lookup_def lookup_pages(2) [OF laws ok])
  qed
qed

lemma next_positioned:
  assumes laws: "radix_laws E view" and ok: "objs_ok view s" and m: "object (pg s m) = Some ob" "pindex (pg s m) = j"
  shows "positioned E ob (j + 1) s (vm_page_next s m, Some m)"
proof -
  let ?r = "rtree (objs s ob)"
  have n: "vm_page_next s m = vm_page_lookup E s ob (j + 1)" using walks_agree [OF laws ok m(1)] m(2) by simp
  have v: "view ?r j = Some m" using view_pages [OF ok] m by simp
  have "vm_radix_lookup_le E ?r (j + 1) = Some m" if none: "view ?r (j + 1) = None"
  proof (cases "vm_radix_lookup_le E ?r (j + 1)")
    case None
    then show ?thesis using le_cases [OF laws, where r = ?r and i = "j + 1"] v by auto
  next
    case (Some p)
    then obtain k where k: "k \<le> j + 1" "view ?r k = Some p" "\<forall>l. k < l \<and> l \<le> j + 1 \<longrightarrow> view ?r l = None"
      using le_cases [OF laws, where r = ?r and i = "j + 1"] by auto
    have "k \<noteq> j + 1" using k(2) none by auto
    moreover have "\<not> k < j" using k(3) v by auto
    ultimately have "k = j" using k(1) by simp
    then show ?thesis using Some k(2) v by simp
  qed
  then show ?thesis by (simp add: positioned_def n lookup_pages(2) [OF laws ok])
qed

definition range_result ::
    "('r, 'p) grab_env \<Rightarrow> ('r \<Rightarrow> nat \<Rightarrow> pid option) \<Rightarrow> ('p \<Rightarrow> pid set) \<Rightarrow> oid \<Rightarrow> nat \<Rightarrow> u32 \<Rightarrow> nat
      \<Rightarrow> fault + (pid list \<times> pid list \<times> ('r, 'p) alloc_sys) \<Rightarrow> bool" where
  "range_result G view avail ob ix fl cnt r \<longleftrightarrow> (\<exists>ma zs a. r = Inr (ma, zs, a) \<and> length ma \<le> cnt \<and>
    (fl AND VM_ALLOC_NOWAIT = 0 \<longrightarrow> length ma = cnt) \<and> mem_good G view avail ma a \<and> in_place ob ix fl ma (sys a))"

lemma range_resultI:
  "length ma \<le> cnt \<Longrightarrow> (fl AND VM_ALLOC_NOWAIT = 0 \<Longrightarrow> length ma = cnt) \<Longrightarrow> mem_good G view avail ma a \<Longrightarrow>
    in_place ob ix fl ma (sys a) \<Longrightarrow> range_result G view avail ob ix fl cnt (Inr (ma, zs, a))"
  by (simp add: range_result_def)

text \<open>The allocation of the page at the next index.\<close>

lemma alloc_step:
  fixes c n
  assumes laws: "grab_laws G view avail" and pol: "polite G view avail fl" and fl: "grab_flags_ok fl"
    and g: "mem_good G view avail ma a" and pl: "in_place ob ix fl ma (sys a)"
    and pos: "positioned (venv (ga G)) ob (ix + length ma) (sys a) (None, mpred)"
  defines "res \<equiv> vm_page_alloc_after (Suc n) (alloc_env_of G ma) (Some ob) (ix + length ma)
      (range_pflags fl OR VM_ALLOC_COUNT c) mpred a"
  shows "(\<exists>a1. res = Inr (None, a1) \<and> mem_good G view avail ma a1 \<and> in_place ob ix fl ma (sys a1)) \<or>
    (\<exists>m a1. res = Inr (Some m, a1) \<and> (\<forall>zs zs' a'. zero_valid fl m (zs, a1) = (zs', a') \<longrightarrow>
      mem_good G view avail (ma @ [m]) a' \<and> in_place ob ix fl (ma @ [m]) (sys a')))"
proof -
  let ?A = "alloc_env_of G ma" and ?E = "venv (ga G)" and ?req = "range_pflags fl OR VM_ALLOC_COUNT c" and ?i = "ix + length ma"
  have L: "radix_laws (venv ?A) view" "alloc_laws ?A avail" "room_law (venv ?A)" "curproc_is_pageproc ?A \<or> pageproc_started ?A"
    and Le: "radix_laws ?E view" using laws by (simp_all add: grab_laws_def)
  have okA: "mem_ok (venv ?A) view avail (sys a)" using mem_goodD(1) [OF g] by simp
  note R = range_req_ok [OF fl, where c = c]
  have none: "vm_page_lookup ?E (sys a) ob ?i = None" "mpred = vm_radix_lookup_le ?E (rtree (objs (sys a) ob)) ?i"
    using pos by (simp_all add: positioned_def)
  have free: "view (rtree (objs (sys a) ob)) ?i = None"
    using none(1) lookup_pages(2) [OF Le mem_okD(2) [OF mem_goodD(1) [OF g]]] by simp
  have e: "res = vm_page_alloc 1 ?A (Some ob) ?i ?req a"
    unfolding res_def alloc_fuel(1) [OF R(3)] by (simp add: vm_page_alloc_def none(2))
  have used: "k \<notin> avail (phys (sys a))" if "object (pg (sys a) k) \<noteq> None" for k
    by (rule in_object_out [OF mem_goodD(1) [OF g] that])
  have mine: "object (pg (sys a) (ma ! j)) \<noteq> None" if "j < length ma" for j using pl that by (simp add: in_place_def)
  consider (no) a1 where "res = Inr (None, if ?req AND VM_ALLOC_WAITFAIL \<noteq> 0 then others G ma a1 else a1)"
      "mem_ok ?E view avail (sys a1)" "avail (phys (sys a1)) = avail (phys (sys a))"
      "\<forall>k. k \<notin> avail (phys (sys a)) \<longrightarrow> pg (sys a1) k = pg (sys a) k"
    | (got) m a1 where "res = Inr (Some m, a1)" "m \<in> avail (phys (sys a))" "mem_ok ?E view avail (sys a1)"
      "granted (ga G) (Some ob) ?i fl (page_attr (ga G) (Some ob)) (pg (sys a) m) (pg (sys a1) m)"
      "\<forall>k. k \<noteq> m \<longrightarrow> pg (sys a1) k = pg (sys a) k"
    using alloc_any_ok [OF L(1-3) okA R(1-3) L(4) free] unfolding e env_of_sel R(5) by blast
  then show ?thesis
  proof cases
    case no
    have same: "pg (sys a1) k = pg (sys a) k" if "object (pg (sys a1) k) \<noteq> None" for k
      using in_object_out [OF no(2) that] no(3,4) by simp
    have g1: "mem_good G view avail ma a1"
      unfolding mem_good_def obj_pages_ok_def
    proof (intro conjI allI impI)
      fix k
      assume k: "object (pg (sys a1) k) \<noteq> None"
      then have k': "object (pg (sys a) k) \<noteq> None" using same [OF k] by simp
      show "flags (pg (sys a1) k) \<inter> {PG_FICTITIOUS, PG_MARKER} = {}" "busy_word (2 ^ 29) (busy_lock (pg (sys a1) k))"
        using same [OF k] mem_goodD(2) [OF g] k' by (simp_all add: obj_pages_ok_def)
    next
      fix k
      assume k: "object (pg (sys a1) k) \<noteq> None \<and> k \<notin> set ma"
      then show "roomy (pg (sys a1) k)" using same [of k] mem_goodD(3) [OF g, of k] by simp
    qed (rule no(2))
    have p1: "in_place ob ix fl ma (sys a1)"
      using pl used [OF mine] no(4) by (simp add: in_place_def)
    define a2 where "a2 = (if ?req AND VM_ALLOC_WAITFAIL \<noteq> 0 then others G ma a1 else a1)"
    have "mem_good G view avail ma a2 \<and> in_place ob ix fl ma (sys a2)"
      using polite_keeps [OF pol g1 p1] g1 p1 by (simp add: a2_def)
    then show ?thesis using no(1) unfolding a2_def [symmetric] by blast
  next
    case got
    let ?y = "pg (sys a1) m"
    have sx: "fl AND (VM_ALLOC_NOBUSY OR VM_ALLOC_SBUSY) = 0 \<Longrightarrow> fl AND VM_ALLOC_SBUSY = 0 \<and> fl AND VM_ALLOC_NOBUSY = 0"
      by (simp add: bit.conj_disj_distrib or_eq_0_iff)
    have no: "fl AND VM_ALLOC_NOOBJ = 0" using fl by (simp add: grab_flags_ok_def)
    have bl: "busy_lock ?y = (if fl AND VM_ALLOC_SBUSY \<noteq> 0 then shared_word 1 False
        else if fl AND VM_ALLOC_NOBUSY = 0 then excl_word False else shared_word 0 False)"
      using got(4) no by (simp add: granted_def words bit.conj_disj_distrib)
    have word: "busy_word (2 ^ 29) (busy_lock ?y)"
    proof -
      have "\<exists>n<2 ^ 29. \<exists>wt. shared_word 0 False = shared_word n wt" by (intro exI [of _ 0]) auto
      moreover have "\<exists>n<2 ^ 29. \<exists>wt. shared_word 1 False = shared_word n wt" by (intro exI [of _ 1]) auto
      ultimately show ?thesis unfolding bl busy_word_def by auto
    qed
    have held: "held_for fl ?y"
      using got(4) sx sbusied_word [of 0 False] by (auto simp: held_for_def bl granted_def)
    have new: "m \<notin> set ma"
    proof
      assume "m \<in> set ma"
      then obtain j where "j < length ma" "m = ma ! j" by (auto simp: in_set_conv_nth)
      then show False using used [OF mine] got(2) by blast
    qed
    have m: "object ?y = Some ob" "pindex ?y = ?i" "flags ?y \<inter> {PG_FICTITIOUS, PG_MARKER} = {}"
      using got(4) by (auto simp: granted_def)
    note got_step [OF g pl got(3,5) new m word held]
    then show ?thesis using got(1) by blast
  qed
qed

lemma range_got:
  assumes laws: "grab_laws G view avail"
    and IH: "\<And>ma mp zs a. mem_good G view avail ma a \<Longrightarrow> in_place ob ix fl ma (sys a) \<Longrightarrow>
      positioned (venv (ga G)) ob (ix + length ma) (sys a) mp \<Longrightarrow> length ma \<le> cnt \<Longrightarrow> Q (Suc (length ma)) (grab_range n G ob ix fl cnt ma mp (zs, a))"
    and i: "length ma < cnt"
    and m: "\<forall>zs zs' a'. zero_valid fl m (zs, a1) = (zs', a') \<longrightarrow>
      mem_good G view avail (ma @ [m]) a' \<and> in_place ob ix fl (ma @ [m]) (sys a')"
  shows "Q (length ma + 2) (let (zs', a') = zero_valid fl m (zs, a1)
    in grab_range n G ob ix fl cnt (ma @ [m]) (vm_page_next (sys a') m, Some m) (zs', a'))"
proof -
  obtain zs' a' where z: "zero_valid fl m (zs, a1) = (zs', a')" by (cases "zero_valid fl m (zs, a1)")
  then have g: "mem_good G view avail (ma @ [m]) a'" and p: "in_place ob ix fl (ma @ [m]) (sys a')" using m by blast+
  have "object (pg (sys a') m) = Some ob" "pindex (pg (sys a') m) = ix + length ma"
    using p by (simp_all add: in_place_def less_Suc_eq all_conj_distrib)
  then have "positioned (venv (ga G)) ob (ix + length ma + 1) (sys a') (vm_page_next (sys a') m, Some m)"
    by (intro next_positioned [OF _ mem_okD(2) [OF mem_goodD(1) [OF g]]]) (use laws in \<open>simp_all add: grab_laws_def\<close>)
  then show ?thesis using IH [OF g p] i by (simp add: z)
qed

lemma grab_range_ok:
  assumes laws: "grab_laws G view avail" and pol: "polite G view avail fl" and fl: "grab_flags_ok fl"
  shows "mem_good G view avail ma a \<Longrightarrow> in_place ob ix fl ma (sys a) \<Longrightarrow>
    positioned (venv (ga G)) ob (ix + length ma) (sys a) mp \<Longrightarrow> length ma \<le> cnt \<Longrightarrow>
    (grab_range n G ob ix fl cnt ma mp (zs, a) = Inl Diverges \<and> (fl AND VM_ALLOC_NOWAIT \<noteq> 0 \<longrightarrow> n < cnt + 1 - length ma)) \<or>
      range_result G view avail ob ix fl cnt (grab_range n G ob ix fl cnt ma mp (zs, a))"
proof (induction n arbitrary: ma mp zs a)
  case 0
  then show ?case by simp
next
  case (Suc n)
  let ?E = "venv (ga G)" and ?nw = "fl AND VM_ALLOC_NOWAIT \<noteq> 0"
  let ?Q = "\<lambda>l r. (r = Inl Diverges \<and> (?nw \<longrightarrow> n < cnt + 2 - l)) \<or> range_result G view avail ob ix fl cnt r"
  have IH: "?Q (Suc (length ma)) (grab_range n G ob ix fl cnt ma mp (zs, a))"
    if "mem_good G view avail ma a" "in_place ob ix fl ma (sys a)"
      "positioned ?E ob (ix + length ma) (sys a) mp" "length ma \<le> cnt" for ma mp zs a
    using Suc.IH [OF that, of zs] by simp
  note g = Suc.prems(1) and p = Suc.prems(2)
  obtain r mpred where mp: "mp = (r, mpred)" by (cases mp)
  have r: "r = vm_page_lookup ?E (sys a) ob (ix + length ma)" using Suc.prems(3) by (simp add: positioned_def mp)
  have L: "radix_laws ?E view" using laws by (simp add: grab_laws_def)
  have again: "?Q (Suc (length ma)) (grab_range n G ob ix fl cnt ma (range_lookup ?E ob (ix + length ma) (sys a')) (zs, a'))"
    if "mem_good G view avail ma a'" "in_place ob ix fl ma (sys a')" for a'
    by (rule IH [OF that range_lookup_positioned [OF L mem_okD(2) [OF mem_goodD(1) [OF that(1)]]] Suc.prems(4)])
  have wk: "(r' = Inl Diverges \<and> (?nw \<longrightarrow> Suc n < cnt + 1 - length ma)) \<or> range_result G view avail ob ix fl cnt r'"
    if "?Q (length ma + 2) r'" for r' using that by auto
  have res: "range_result G view avail ob ix fl cnt (Inr (ma, zs, a'))"
    if "?nw" "mem_good G view avail ma a'" "in_place ob ix fl ma (sys a')" for a'
    by (rule range_resultI) (use that Suc.prems(4) in auto)
  show ?case
  proof (cases "length ma < cnt")
    case False
    then have "range_result G view avail ob ix fl cnt (Inr (ma, zs, a))"
      by (intro range_resultI) (use Suc.prems in auto)
    then show ?thesis using False by (simp add: mp)
  next
    case i: True
    show ?thesis
    proof (cases r)
      case (Some m)
      have m: "object (pg (sys a) m) = Some ob" "pindex (pg (sys a) m) = ix + length ma"
        using lookup_pages(1) [OF L mem_okD(2) [OF mem_goodD(1) [OF g]], THEN iffD1, OF r [unfolded Some, symmetric]] by simp_all
      show ?thesis
      proof (cases "must_sleep fl (pg (sys a) m)")
        case True
        have "object (pg (sys a) m) \<noteq> None" using m(1) by simp
        note S = sleep_keeps [OF pol g p this in_place_new [OF p m(2)], of fl]
        show ?thesis
        proof (cases "?nw")
          case nw: True
          then show ?thesis using res [OF nw g p] i Some True by (simp add: mp)
        next
          case False
          then show ?thesis using again [of "grab_sleep G ma fl m a"] S i Some True by (simp add: mp)
        qed
      next
        case False
        obtain s' where s': "claim_page ?E fl m (sys a) = Inr s'" "\<forall>zs zs' a'. zero_valid fl m (zs, a\<lparr>sys := s'\<rparr>) = (zs', a') \<longrightarrow>
            mem_good G view avail (ma @ [m]) a' \<and> in_place ob ix fl (ma @ [m]) (sys a')"
          using claim_step [OF g p fl m False] by blast
        have e: "grab_range (Suc n) G ob ix fl cnt ma mp (zs, a) = (let (zs', a') = zero_valid fl m (zs, a\<lparr>sys := s'\<rparr>)
            in grab_range n G ob ix fl cnt (ma @ [m]) (vm_page_next (sys a') m, Some m) (zs', a'))"
          using i Some False s'(1) by (simp add: mp Let_def)
        show ?thesis unfolding e by (rule wk, rule range_got [where Q = ?Q, OF laws IH i s'(2)])
      qed
    next
      case None
      define al where "al = vm_page_alloc_after (Suc n) (alloc_env_of G ma) (Some ob) (ix + length ma)
        (range_pflags fl OR VM_ALLOC_COUNT (of_nat (cnt - length ma))) mpred a"
      have pos: "positioned ?E ob (ix + length ma) (sys a) (None, mpred)" using Suc.prems(3) by (simp add: mp None)
      consider (no) a1 where "al = Inr (None, a1)" "mem_good G view avail ma a1" "in_place ob ix fl ma (sys a1)"
        | (got) m a1 where "al = Inr (Some m, a1)" "\<forall>zs zs' a'. zero_valid fl m (zs, a1) = (zs', a') \<longrightarrow>
            mem_good G view avail (ma @ [m]) a' \<and> in_place ob ix fl (ma @ [m]) (sys a')"
        using alloc_step [OF laws pol fl g p pos] unfolding al_def by blast
      then show ?thesis
      proof cases
        case no
        show ?thesis
        proof (cases "?nw")
          case nw: True
          have "grab_range (Suc n) G ob ix fl cnt ma mp (zs, a) = Inr (ma, zs, a1)"
            using nw no(1) i None by (simp add: mp Let_def al_def)
          then show ?thesis using res [OF nw no(2,3)] by simp
        next
          case False
          have "grab_range (Suc n) G ob ix fl cnt ma mp (zs, a) =
              grab_range n G ob ix fl cnt ma (range_lookup ?E ob (ix + length ma) (sys a1)) (zs, a1)"
            using False no(1) i None by (simp add: mp Let_def al_def)
          then show ?thesis using again [OF no(2,3)] False by simp
        qed
      next
        case got
        have e: "grab_range (Suc n) G ob ix fl cnt ma mp (zs, a) = (let (zs', a') = zero_valid fl m (zs, a1)
            in grab_range n G ob ix fl cnt (ma @ [m]) (vm_page_next (sys a') m, Some m) (zs', a'))"
          using i None got(1) by (simp add: mp Let_def al_def)
        show ?thesis unfolding e by (rule wk, rule range_got [where Q = ?Q, OF laws IH i got(2)])
      qed
    qed
  qed
qed

section \<open>Properties\<close>

lemma grab_page_ok:
  assumes laws: "grab_laws G view avail" and fl: "grab_flags_ok fl"
    and wait: "\<forall>j<k. grab_blocked G ob i fl ((grab_again G ob i fl ^^ j) a)" "k = 0 \<or> fl AND VM_ALLOC_NOWAIT = 0"
    and b: "b = (grab_again G ob i fl ^^ k) a" "mem_ok (venv (ga G)) view avail (sys b)" "obj_pages_ok (sys b)"
  shows "(\<not> grab_blocked G ob i fl b \<longrightarrow> (\<exists>m zs a'. vm_page_grab (k + Suc n) G ob i fl a = Inr (Some m, zs, a') \<and>
      got_page G view avail ob i fl b m zs a')) \<and>
    (grab_blocked G ob i fl b \<and> fl AND VM_ALLOC_NOWAIT = 0 \<longrightarrow>
      vm_page_grab (k + Suc n) G ob i fl a = vm_page_grab n G ob i fl (grab_again G ob i fl b)) \<and>
    (grab_blocked G ob i fl b \<and> fl AND VM_ALLOC_NOWAIT \<noteq> 0 \<longrightarrow> (\<exists>a'. vm_page_grab (k + Suc n) G ob i fl a = Inr (None, [], a') \<and>
      mem_ok (venv (ga G)) view avail (sys a') \<and> (\<forall>m. m \<notin> avail (phys (sys a)) \<longrightarrow> pg (sys a') m = pg (sys a) m)))"
proof -
  have g: "vm_page_grab N G ob i fl a = grab_lookup N G ob i fl a" for N a
    using fl by (auto simp: vm_page_grab_def grab_flags_ok_def)
  have s: "grab_lookup (k + N) G ob i fl a = grab_lookup N G ob i fl b" for N
    using wait grab_skips [of fl k G ob i a N] by (auto simp: b(1))
  have k: "fl AND VM_ALLOC_NOWAIT \<noteq> 0 \<Longrightarrow> b = a" using wait(2) by (auto simp: b(1))
  show ?thesis
    unfolding g s using grab_round [OF laws fl b(2,3)] grab_skip(1) [of G ob i fl b n] grab_refused [OF laws fl b(2)] k by auto
qed

text \<open>
  C9: \<open>vm_page_grab\<close> comes back with the page of the object at the index, resident or newly
  allocated, claimed as asked, and zeroed or known to be zero if that was asked of a new page, with
  every other page as it was. It does so after
  the first \<open>k\<close> look-ups that found the page busy or no page to allocate, each followed by a wait,
  and goes on as long as the look-up fails. With \<open>VM_ALLOC_NOWAIT\<close> it does not wait but returns
  nothing, with all pages in use as they were.
\<close>

theorem grab_page:
  assumes laws: "grab_laws G view avail" and fl: "grab_flags_ok fl"
    and wait: "\<forall>j<k. grab_blocked G ob i fl ((grab_again G ob i fl ^^ j) a)" "k = 0 \<or> fl AND VM_ALLOC_NOWAIT = 0"
    and b: "b = (grab_again G ob i fl ^^ k) a" "mem_ok (venv (ga G)) view avail (sys b)" "obj_pages_ok (sys b)"
  shows "(\<not> grab_blocked G ob i fl b \<longrightarrow> (\<exists>m zs a'. vm_page_grab (k + Suc n) G ob i fl a = Inr (Some m, zs, a') \<and>
      got_page G view avail ob i fl b m zs a')) \<and>
    (grab_blocked G ob i fl b \<and> fl AND VM_ALLOC_NOWAIT = 0 \<longrightarrow>
      vm_page_grab (k + Suc n) G ob i fl a = vm_page_grab n G ob i fl (grab_again G ob i fl b)) \<and>
    (grab_blocked G ob i fl b \<and> fl AND VM_ALLOC_NOWAIT \<noteq> 0 \<longrightarrow> (\<exists>a'. vm_page_grab (k + Suc n) G ob i fl a = Inr (None, [], a') \<and>
      mem_ok (venv (ga G)) view avail (sys a') \<and> (\<forall>m. m \<notin> avail (phys (sys a)) \<longrightarrow> pg (sys a') m = pg (sys a) m)))"
  by (rule grab_page_ok [OF assms])

definition grab_env1 :: "((nat \<times> pid) list, pid list \<times> nat) grab_env" where
  "grab_env1 = \<lparr>ga = alloc_env1, others = (\<lambda>ms a. a)\<rparr>"

lemma grab_env1_laws: "grab_laws grab_env1 map_of avail1"
  using env1_laws alloc_env1_laws
  by (simp add: grab_laws_def grab_env1_def room_law_def) (simp add: alloc_env1_def env1_def env0_def)

lemma mem1_good: "mem_good grab_env1 map_of avail1 [] mem1"
  using mem1_ok by (simp add: mem_good_def grab_env1_def obj_pages_ok_def) (simp add: mem1_def page0_def)

theorem grab_page_witness:
  "\<exists>m zs a'. vm_page_grab 1 grab_env1 0 9 VM_ALLOC_WIRED mem1 = Inr (Some m, zs, a') \<and>
    vm_page_lookup (venv alloc_env1) (sys a') 0 9 = Some m"
proof -
  have fl: "grab_flags_ok VM_ALLOC_WIRED" by (simp add: grab_flags_ok_def alloc_flag_defs)
  have L: "radix_laws (venv (alloc_env_of grab_env1 [])) map_of" "alloc_laws (alloc_env_of grab_env1 []) avail1"
    "mem_ok (venv (alloc_env_of grab_env1 [])) map_of avail1 (sys mem1)"
    using grab_env1_laws mem_goodD(1) [OF mem1_good] by (simp_all add: grab_laws_def)
  have may: "may_alloc (alloc_env_of grab_env1 []) c mem1" for c
    by (simp add: may_alloc_def free_pages_left_def alloc_env_of_def grab_env1_def alloc_env1_def env1_def mem1_def)
  have tree: "rtree (objs (sys mem1) 0) = []" by (simp add: mem1_def)
  have room: "vm_radix_insert (venv (alloc_env_of grab_env1 [])) r i m \<noteq> None" for r i m
    by (simp add: grab_env1_def alloc_env1_def env1_def env0_def)
  have "\<exists>m a'. vm_page_alloc 1 (alloc_env_of grab_env1 []) (Some 0) 9 (grab_pflags VM_ALLOC_WIRED) mem1 = Inr (Some m, a')"
    using alloc_page_ok [OF L grab_req_ok [OF fl] may, of 0 9 0] room by (auto simp: tree)
  moreover have "vm_page_lookup (venv alloc_env1) (sys mem1) 0 9 = None"
    using env1_laws by (simp add: vm_page_lookup_def radix_laws_def tree)
  ultimately have "\<not> grab_blocked grab_env1 0 9 VM_ALLOC_WIRED mem1"
    by (auto simp: grab_blocked_def) (auto simp: grab_env1_def)
  then show ?thesis
    using grab_page [OF grab_env1_laws fl, of 0 0 9 mem1 mem1 0] mem_goodD(1,2) [OF mem1_good]
    by (auto simp: got_page_def) (auto simp: grab_env1_def)
qed

text \<open>
  Flags that overlook sharers for an exclusive hold pass the routine's assertion, and it panics on a
  page that is shared.
\<close>

lemma exclusive_over_sharers:
  assumes "fl AND VM_ALLOC_IGN_SBUSY \<noteq> 0" "fl AND (VM_ALLOC_NOBUSY OR VM_ALLOC_SBUSY) = 0"
    and "vm_page_lookup (venv (ga G)) (sys a) ob i = Some m" "busy_lock (pg (sys a) m) = shared_word (Suc n) wt" "Suc n < 2 ^ 29"
    and "PG_FICTITIOUS \<notin> flags (pg (sys a) m)"
  shows "vm_page_grab (Suc k) G ob i fl a = Inl Kernel_panic"
proof -
  have n0: "shared_word (Suc n) wt \<noteq> VPB_UNBUSIED" unfolding words using shared_word_inj [of "Suc n" 0 wt False] assms(5) by simp
  have "fl AND VM_ALLOC_SBUSY = 0" using assms(2) by (simp add: bit.conj_disj_distrib or_eq_0_iff)
  moreover have "busy_lock (pg (vm_page_wire (venv (ga G)) m (sys a)) m) = shared_word (Suc n) wt"
    using assms(4) by (simp add: vm_page_wire_def)
  ultimately show ?thesis
    using assms n0 by (simp add: vm_page_grab_def must_sleep_def claim_page_def Let_def vm_page_xbusy_def vm_page_tryxbusy_def cmpset_def)
qed

lemma grab_pages_ok:
  assumes laws: "grab_laws G view avail" and pol: "polite G view avail fl" and fl: "grab_flags_ok fl" "drop_bit VM_ALLOC_COUNT_SHIFT fl = 0"
    "fl AND VM_ALLOC_NOBUSY = 0 \<or> fl AND VM_ALLOC_WIRED \<noteq> 0" and g: "mem_good G view avail [] a"
  shows "(vm_page_grab_pages n G ob ix fl cnt a = Inl Diverges \<and> (fl AND VM_ALLOC_NOWAIT \<noteq> 0 \<longrightarrow> n \<le> cnt)) \<or>
    (\<exists>ma zs a'. vm_page_grab_pages n G ob ix fl cnt a = Inr (ma, zs, a') \<and> length ma \<le> cnt \<and>
      (fl AND VM_ALLOC_NOWAIT = 0 \<longrightarrow> length ma = cnt) \<and> mem_ok (venv (ga G)) view avail (sys a') \<and>
      (\<forall>j<length ma. vm_page_lookup (venv (ga G)) (sys a') ob (ix + j) = Some (ma ! j) \<and> ours fl (pg (sys a') (ma ! j))))"
proof -
  let ?E = "venv (ga G)"
  have L: "radix_laws ?E view" using laws by (simp add: grab_laws_def)
  have ok: "\<not> (drop_bit VM_ALLOC_COUNT_SHIFT fl \<noteq> 0 \<or> fl AND VM_ALLOC_NOBUSY \<noteq> 0 \<and> fl AND VM_ALLOC_WIRED = 0 \<or>
      fl AND VM_ALLOC_SBUSY \<noteq> 0 \<and> fl AND VM_ALLOC_IGN_SBUSY = 0)"
    using fl by (auto simp: grab_flags_ok_def)
  show ?thesis
  proof (cases "cnt = 0")
    case True
    then show ?thesis using ok mem_goodD(1) [OF g] by (simp add: vm_page_grab_pages_def)
  next
    case False
    have e: "vm_page_grab_pages n G ob ix fl cnt a = grab_range n G ob ix fl cnt [] (range_lookup ?E ob ix (sys a)) ([], a)"
      unfolding vm_page_grab_pages_def if_not_P [OF ok] if_not_P [OF False] ..
    have pos: "positioned ?E ob (ix + length ([] :: pid list)) (sys a) (range_lookup ?E ob ix (sys a))"
      using range_lookup_positioned [OF L mem_okD(2) [OF mem_goodD(1) [OF g]], of ob ix] by simp
    have "in_place ob ix fl [] (sys a)" by (simp add: in_place_def)
    then have "(vm_page_grab_pages n G ob ix fl cnt a = Inl Diverges \<and> (fl AND VM_ALLOC_NOWAIT \<noteq> 0 \<longrightarrow> n < cnt + 1)) \<or>
        range_result G view avail ob ix fl cnt (vm_page_grab_pages n G ob ix fl cnt a)"
      using grab_range_ok [OF laws pol fl(1) g _ pos, of cnt n "[]"] by (simp add: e)
    then show ?thesis
    proof (elim disjE)
      assume r: "range_result G view avail ob ix fl cnt (vm_page_grab_pages n G ob ix fl cnt a)"
      then obtain ma zs a' where m: "vm_page_grab_pages n G ob ix fl cnt a = Inr (ma, zs, a')" "length ma \<le> cnt"
        "fl AND VM_ALLOC_NOWAIT = 0 \<longrightarrow> length ma = cnt" "mem_good G view avail ma a'" "in_place ob ix fl ma (sys a')"
        by (auto simp: range_result_def)
      have "vm_page_lookup ?E (sys a') ob (ix + j) = Some (ma ! j) \<and> ours fl (pg (sys a') (ma ! j))" if "j < length ma" for j
        using m(5) that lookup_pages(1) [OF L mem_okD(2) [OF mem_goodD(1) [OF m(4)]]] by (simp add: in_place_def)
      then show ?thesis using m mem_goodD(1) [OF m(4)] by blast
    qed auto
  qed
qed

text \<open>
  C10: \<open>vm_page_grab_pages\<close> gets the pages of the range in order and without a gap: page \<open>j\<close> of the
  result is the object's page at index \<open>j\<close> of the range, busy, wired and valid as asked. There are as
  many as asked for, unless the caller may not wait; then it comes back within a step for each page.
  It holds whatever other threads do while it waits, as long as they leave the pages already claimed
  alone.
\<close>

theorem grab_pages_in_place:
  assumes laws: "grab_laws G view avail" and pol: "polite G view avail fl" and fl: "grab_flags_ok fl" "drop_bit VM_ALLOC_COUNT_SHIFT fl = 0"
    "fl AND VM_ALLOC_NOBUSY = 0 \<or> fl AND VM_ALLOC_WIRED \<noteq> 0" and g: "mem_good G view avail [] a"
  shows "(vm_page_grab_pages n G ob ix fl cnt a = Inl Diverges \<and> (fl AND VM_ALLOC_NOWAIT \<noteq> 0 \<longrightarrow> n \<le> cnt)) \<or>
    (\<exists>ma zs a'. vm_page_grab_pages n G ob ix fl cnt a = Inr (ma, zs, a') \<and> length ma \<le> cnt \<and>
      (fl AND VM_ALLOC_NOWAIT = 0 \<longrightarrow> length ma = cnt) \<and> mem_ok (venv (ga G)) view avail (sys a') \<and>
      (\<forall>j<length ma. vm_page_lookup (venv (ga G)) (sys a') ob (ix + j) = Some (ma ! j) \<and> ours fl (pg (sys a') (ma ! j))))"
  by (rule grab_pages_ok [OF assms])

theorem grab_pages_in_place_witness:
  "\<exists>ma zs a'. vm_page_grab_pages 4 grab_env1 0 9 (VM_ALLOC_WIRED OR VM_ALLOC_NOWAIT) 2 mem1 = Inr (ma, zs, a') \<and> length ma \<le> 2 \<and>
    mem_ok (venv alloc_env1) map_of avail1 (sys a')"
proof -
  let ?fl = "VM_ALLOC_WIRED OR VM_ALLOC_NOWAIT"
  have fl: "grab_flags_ok ?fl" "drop_bit VM_ALLOC_COUNT_SHIFT ?fl = 0" "?fl AND VM_ALLOC_NOBUSY = 0 \<or> ?fl AND VM_ALLOC_WIRED \<noteq> 0"
    by (simp_all add: grab_flags_ok_def alloc_flag_defs VM_ALLOC_COUNT_SHIFT_def)
  have pol: "polite grab_env1 map_of avail1 ?fl" by (simp add: polite_def grab_env1_def)
  have nw: "?fl AND VM_ALLOC_NOWAIT \<noteq> 0" by (simp add: alloc_flag_defs)
  have "venv (ga grab_env1) = venv alloc_env1" by (simp add: grab_env1_def)
  then show ?thesis using grab_pages_in_place [OF grab_env1_laws pol fl mem1_good, of 4 0 9 2] nw by auto
qed

end
