(* ===== verification/Vm_Blacklist.thy ===== *)
theory Vm_Blacklist
  imports Vm_Types
begin

text \<open>
  The list of bad memory pages (\<open>vm_page_blacklist_next\<close>, \<open>_add\<close>, \<open>_check\<close>, \<open>_load\<close> and the
  handler \<open>sysctl_vm_page_blacklist\<close> in \<open>src/asgn3/vm/vm_page.c\<close>).

  A pointer into the text is the list of characters from there up to the end, the character at the
  end not included; NULL is \<open>None\<close>. The character at the end is kept beside it, where an end pointer is
  given. \<open>strtoq\<close> is the C library's, with base 0. The two functions of the physical allocator are
  arguments.
\<close>

section \<open>Numbers\<close>

definition NUL :: char where "NUL = CHR 0x00"

definition deref :: "string \<Rightarrow> char" where
  "deref p = (case p of [] \<Rightarrow> NUL | c # cs \<Rightarrow> c)"

definition isspace :: "char \<Rightarrow> bool" where
  "isspace c \<longleftrightarrow> c \<in> {CHR '' '', CHR 0x09, CHR 0x0A, CHR 0x0B, CHR 0x0C, CHR 0x0D}"

definition digit_val :: "char \<Rightarrow> nat option" where
  "digit_val c = (let k = of_char c :: nat in
    if 48 \<le> k \<and> k \<le> 57 then Some (k - 48) else if 65 \<le> k \<and> k \<le> 90 then Some (k - 55)
    else if 97 \<le> k \<and> k \<le> 122 then Some (k - 87) else None)"

definition is_digit :: "nat \<Rightarrow> char \<Rightarrow> bool" where
  "is_digit base c = (case digit_val c of None \<Rightarrow> False | Some d \<Rightarrow> d < base)"

definition num_val :: "nat \<Rightarrow> string \<Rightarrow> nat" where
  "num_val base ds = fold (\<lambda>c v. v * base + the (digit_val c)) ds 0"

text \<open>The sign, the base and the text from the first digit on.\<close>

definition num_prefix :: "string \<Rightarrow> bool \<times> nat \<times> string" where
  "num_prefix nptr =
    (let s = dropWhile isspace nptr;
         neg = (deref s = CHR ''-'');
         s1 = (if deref s \<in> {CHR ''-'', CHR ''+''} then tl s else s)
     in if deref s1 = CHR ''0'' \<and> deref (tl s1) \<in> {CHR ''x'', CHR ''X''} then (neg, 16, drop 2 s1)
        else (neg, if deref s1 = CHR ''0'' then 8 else 10, s1))"

text \<open>The value, out of range the nearest one in it, and the rest; no digit at all leaves the whole text.\<close>

definition strtoq :: "string \<Rightarrow> u64 \<times> string" where
  "strtoq nptr =
    (case num_prefix nptr of (neg, base, s) \<Rightarrow>
      let ds = takeWhile (is_digit base) s
      in if ds = [] then (0, nptr)
         else (word_of_int (if neg then - int (min (num_val base ds) (2 ^ 63)) else int (min (num_val base ds) (2 ^ 63 - 1))),
               drop (length ds) s))"

section \<open>The list\<close>

definition is_sep :: "char \<Rightarrow> bool" where
  "is_sep c \<longleftrightarrow> c \<in> {CHR '' '', CHR '','', CHR 0x0A}"

lemma prefix_shorter: "length (snd (snd (num_prefix s))) \<le> length s"
proof -
  have d: "length (dropWhile isspace s) \<le> length s" by (rule length_dropWhile_le)
  define s1 where "s1 = (if deref (dropWhile isspace s) \<in> {CHR ''-'', CHR ''+''} then tl (dropWhile isspace s) else dropWhile isspace s)"
  have "length s1 \<le> length s" using d by (auto simp: s1_def)
  moreover have "snd (snd (num_prefix s)) \<in> {drop 2 s1, s1}"
    unfolding num_prefix_def Let_def s1_def [symmetric] by (auto split: if_split)
  ultimately show ?thesis by auto
qed

lemma strtoq_shorter:
  assumes "strtoq s = (v, cp)"
  shows "length cp \<le> length s"
  using assms prefix_shorter [of s] by (auto simp: strtoq_def Let_def split: prod.splits if_splits)

text \<open>The loop over the entries, from \<open>pos\<close> on; an entry of value 0 is passed over.\<close>

function blacklist_scan :: "string \<Rightarrow> u64 \<times> string option" where
  "blacklist_scan pos =
    (if deref pos = NUL then (0, None)
     else
      (let (bad, cp) = strtoq pos
       in if deref cp = NUL \<or> is_sep (deref cp)
          then if bad = 0 then (if 1 < length cp then blacklist_scan (tl cp) else (0, None))
               else (trunc_page bad, if deref cp = NUL \<or> length cp \<le> 1 then None else Some (tl cp))
          else (0, None)))"
  by pat_completeness auto
termination
proof (relation "measure length", goal_cases)
  case (2 pos x bad cp)
  then show ?case using strtoq_shorter [of pos bad cp] by simp
qed simp

declare blacklist_scan.simps [simp del]

definition vm_page_blacklist_next :: "string option \<Rightarrow> char option \<Rightarrow> u64 \<times> string option \<times> char option" where
  "vm_page_blacklist_next list end =
    (case list of
       None \<Rightarrow> (0, None, end)
     | Some s \<Rightarrow>
         if (if s = [] then case end of None \<Rightarrow> NUL | Some c \<Rightarrow> c else deref s) = NUL then (0, None, end)
         else (case end of
             None \<Rightarrow> (let (bad, rest) = blacklist_scan (takeWhile (\<lambda>c. c \<noteq> NUL) s) in (bad, rest, None))
           | Some c \<Rightarrow>
               if c = NUL \<or> is_sep c then (let (bad, rest) = blacklist_scan s in (bad, rest, Some NUL))
               else (0, None, end)))"

record 'p bad_pages =
  bl_phys :: 'p
  blacklist_head :: "pid list"

record 'p bl_env =
  vm_phys_paddr_to_vm_page :: "u64 \<Rightarrow> pid option"
  vm_phys_unfree_page :: "pid \<Rightarrow> 'p \<Rightarrow> bool \<times> 'p"

definition vm_page_blacklist_add :: "'p bl_env \<Rightarrow> u64 \<Rightarrow> 'p bad_pages \<Rightarrow> bool \<times> 'p bad_pages" where
  "vm_page_blacklist_add E pa b =
    (case vm_phys_paddr_to_vm_page E pa of
       None \<Rightarrow> (True, b)
     | Some m \<Rightarrow>
         (let (ret, p) = vm_phys_unfree_page E m (bl_phys b)
          in (ret, \<lparr>bl_phys = p, blacklist_head = (if ret then blacklist_head b @ [m] else blacklist_head b)\<rparr>)))"

lemma scan_shorter:
  "blacklist_scan pos = (pa, Some rest) \<Longrightarrow> length rest < length pos"
proof (induction pos rule: blacklist_scan.induct)
  case (1 pos)
  obtain bad cp where q: "strtoq pos = (bad, cp)" by (cases "strtoq pos")
  show ?case
    using "1.IH" [OF _ q [symmetric] refl] "1.prems" strtoq_shorter [OF q] unfolding blacklist_scan.simps [of pos]
    by (fastforce simp: q split: if_splits)
qed

lemma next_shorter:
  "vm_page_blacklist_next (Some s) end = (pa, Some rest, end') \<Longrightarrow> length rest < length s"
  using length_takeWhile_le [of "\<lambda>c. c \<noteq> NUL" s]
  by (auto simp: vm_page_blacklist_next_def split: if_splits option.splits prod.splits dest!: scan_shorter)

function vm_page_blacklist_check :: "'p bl_env \<Rightarrow> string option \<Rightarrow> char option \<Rightarrow> 'p bad_pages \<Rightarrow> 'p bad_pages" where
  "vm_page_blacklist_check E None end b = b"
| "vm_page_blacklist_check E (Some s) end b =
    (let (pa, next, end') = vm_page_blacklist_next (Some s) end
     in if pa = 0 then vm_page_blacklist_check E next end' b
        else vm_page_blacklist_check E next end' (snd (vm_page_blacklist_add E pa b)))"
  by pat_completeness auto
termination
proof (relation "measure (\<lambda>(E, l, e, b). case l of None \<Rightarrow> 0 | Some s \<Rightarrow> Suc (length s))", goal_cases)
  case (2 E s e b x pa y nx e')
  then show ?case using next_shorter [of s e pa _ e'] by (cases nx) simp_all
next
  case (3 E s e b x pa y nx e')
  then show ?case using next_shorter [of s e pa _ e'] by (cases nx) simp_all
qed simp

text \<open>What the loader has left: the text of the module and the byte after it.\<close>

definition vm_page_blacklist_load :: "(string option \<times> char) option \<Rightarrow> string option \<times> char option" where
  "vm_page_blacklist_load module =
    (case module of None \<Rightarrow> (None, None)
     | Some (None, after) \<Rightarrow> (None, None)
     | Some (Some text, after) \<Rightarrow> (Some text, Some after))"

text \<open>What \<open>vm_page_startup\<close> does with the module and the variable \<open>vm.blacklist\<close>.\<close>

definition startup_blacklist :: "'p bl_env \<Rightarrow> (string option \<times> char) option \<Rightarrow> string option \<Rightarrow> 'p \<Rightarrow> 'p bad_pages" where
  "startup_blacklist E module kenv p =
    (let b = \<lparr>bl_phys = p, blacklist_head = []\<rparr>;
         (list, listend) = vm_page_blacklist_load module
     in vm_page_blacklist_check E kenv None (vm_page_blacklist_check E list listend b))"

section \<open>The report\<close>

definition hex_digit :: "nat \<Rightarrow> char" where
  "hex_digit n = ''0123456789abcdef'' ! n"

fun hex_str :: "nat \<Rightarrow> string" where
  "hex_str n = (if n < 16 then [hex_digit n] else hex_str (n div 16) @ [hex_digit (n mod 16)])"

declare hex_str.simps [simp del]

text \<open>The conversion \<open>%#jx\<close>.\<close>

definition alt_hex :: "nat \<Rightarrow> string" where
  "alt_hex n = (if n = 0 then ''0'' else ''0x'' @ hex_str n)"

primrec blacklist_text :: "bool \<Rightarrow> pages \<Rightarrow> pid list \<Rightarrow> string" where
  "blacklist_text first P [] = []"
| "blacklist_text first P (m # ms) =
    (if first then [] else '','') @ alt_hex (phys_addr (P m)) @ blacklist_text False P ms"

text \<open>The errors are those of the buffer's two calls, 0 for none.\<close>

definition sysctl_vm_page_blacklist :: "int \<Rightarrow> int \<Rightarrow> pages \<Rightarrow> 'p bad_pages \<Rightarrow> int \<times> string option" where
  "sysctl_vm_page_blacklist wire_error finish_error P b =
    (if wire_error \<noteq> 0 then (wire_error, None) else (finish_error, Some (blacklist_text True P (blacklist_head b))))"

end
