(* ===== verification/Vm_Blacklist_Props.thy ===== *)
theory Vm_Blacklist_Props
  imports Vm_Blacklist
begin

text \<open>
  Properties of the list of bad memory pages: the report of the pages taken out of use is a text
  that the parser reads back, so that it can be given to the next boot.
\<close>

section \<open>Reading the report back\<close>

lemma hex_digit_val: "n < 16 \<Longrightarrow> digit_val (hex_digit n) = Some n"
proof -
  assume "n < 16"
  then have "n \<in> {0,1,2,3,4,5,6,7,8,9,10,11,12,13,14,15}" by (simp only: insert_iff empty_iff, presburger)
  then show ?thesis by (elim insertE; simp add: hex_digit_def digit_val_def)
qed

lemma hex_chars: "c \<in> set (hex_str n) \<Longrightarrow> is_digit 16 c"
proof (induction n rule: hex_str.induct)
  case (1 n)
  show ?case
  proof (cases "n < 16")
    case True
    then show ?thesis using "1.prems" by (simp add: hex_str.simps [of n] is_digit_def hex_digit_val)
  next
    case False
    then show ?thesis using 1 by (auto simp: hex_str.simps [of n] is_digit_def hex_digit_val)
  qed
qed

lemma hex_num: "num_val 16 (hex_str n) = n"
proof (induction n rule: hex_str.induct)
  case (1 n)
  then show ?case by (cases "n < 16") (auto simp: hex_str.simps [of n] num_val_def hex_digit_val)
qed

lemma hex_nonempty: "hex_str n \<noteq> []"
  by (simp add: hex_str.simps [of n])

lemma no_digit: "\<not> is_digit 16 (CHR '','')" "\<not> is_digit 16 NUL"
  by (simp_all add: is_digit_def digit_val_def NUL_def)

lemma strtoq_alt_hex:
  assumes "0 < n" "n < 2 ^ 63" and rest: "rest = [] \<or> deref rest = CHR '',''"
  shows "strtoq (alt_hex n @ rest) = (of_nat n, rest)"
proof -
  have t: "takeWhile (is_digit 16) (hex_str n @ rest) = hex_str n"
    using rest no_digit(1) hex_chars by (cases rest) (simp_all add: takeWhile_append deref_def)
  have "num_prefix (alt_hex n @ rest) = (False, 16, hex_str n @ rest)"
    using assms(1) by (simp add: num_prefix_def alt_hex_def isspace_def deref_def Let_def)
  moreover have "min n (2 ^ 63 - 1) = n" using assms(2) by simp
  ultimately show ?thesis by (simp add: strtoq_def t hex_nonempty hex_num)
qed

lemma scan_entry:
  assumes n: "0 < n" "n < 2 ^ 63" "4096 dvd n" and rest: "rest = [] \<or> deref rest = CHR '',''"
  shows "blacklist_scan (alt_hex n @ rest) = (of_nat n, if length rest \<le> 1 then None else Some (tl rest))"
proof -
  have z: "deref (alt_hex n @ rest) \<noteq> NUL" using n(1) by (simp add: alt_hex_def deref_def NUL_def)
  have nz: "(of_nat n :: u64) \<noteq> 0"
  proof
    assume "(of_nat n :: u64) = 0"
    then have "2 ^ 64 dvd n" using word_of_nat_eq_0_iff [where 'a = 64] by simp
    then show False using n(1,2) by (auto dest: dvd_imp_le)
  qed
  have tr: "trunc_page (of_nat n) = of_nat n"
  proof -
    obtain k where k: "n = 4096 * k" using n(3) by (elim dvdE)
    have "(of_nat n :: u64) = push_bit 12 (of_nat k)" by (simp add: k push_bit_eq_mult)
    moreover have "PAGE_MASK = mask 12" by (simp add: PAGE_MASK_def mask_eq_exp_minus_1)
    ultimately show ?thesis unfolding trunc_page_def
      by (auto simp: bit_eq_iff [where 'a = "64 word"] bit_simps)
  qed
  have sep: "is_sep (CHR '','')" "deref [] = NUL" by (simp_all add: is_sep_def deref_def)
  show ?thesis
    unfolding blacklist_scan.simps [of "alt_hex n @ rest"] if_not_P [OF z] strtoq_alt_hex [OF n(1,2) rest]
    using rest nz tr sep by (cases rest) (auto simp: Let_def deref_def NUL_def)
qed

definition bad_addr :: "nat \<Rightarrow> bool" where
  "bad_addr n \<longleftrightarrow> 0 < n \<and> n < 2 ^ 63 \<and> 4096 dvd n"

lemma text_chars: "c \<in> set (blacklist_text f P ms) \<Longrightarrow> c \<noteq> NUL"
proof (induction ms arbitrary: f)
  case (Cons m ms)
  have "c \<in> set (hex_str n) \<Longrightarrow> c \<noteq> NUL" for n using hex_chars [of c n] no_digit(2) by auto
  then have "c \<in> set (alt_hex n) \<Longrightarrow> c \<noteq> NUL" for n by (auto simp: alt_hex_def NUL_def split: if_splits)
  then show ?case using Cons by (auto simp: NUL_def split: if_splits)
qed simp

lemma text_rest: "ms = [] \<and> blacklist_text False P ms = [] \<or>
    ms \<noteq> [] \<and> deref (blacklist_text False P ms) = CHR '','' \<and> 1 < length (blacklist_text False P ms) \<and>
      tl (blacklist_text False P ms) = blacklist_text True P ms"
  by (cases ms) (simp_all add: deref_def alt_hex_def)

lemma next_scan:
  assumes "s \<noteq> []" "\<forall>c\<in>set s. c \<noteq> NUL" "end = None \<or> end = Some NUL \<or> (\<exists>c. end = Some c \<and> is_sep c)"
    and scan: "blacklist_scan s = (pa, next)"
  shows "vm_page_blacklist_next (Some s) end = (pa, next, if end = None then None else Some NUL)"
proof -
  have "deref s \<noteq> NUL" using assms(1,2) by (cases s) (simp_all add: deref_def)
  moreover have t: "takeWhile (\<lambda>c. c \<noteq> NUL) s = s" using assms(2) by (intro takeWhile_eq_all_conv [THEN iffD2])
  ultimately show ?thesis using assms(1,3) by (auto simp: vm_page_blacklist_next_def t scan)
qed

lemma next_entry:
  assumes n: "bad_addr (phys_addr (P m))" and e: "end = None \<or> end = Some NUL \<or> (\<exists>c. end = Some c \<and> is_sep c)"
  shows "vm_page_blacklist_next (Some (blacklist_text True P (m # ms))) end =
    (of_nat (phys_addr (P m)), if ms = [] then None else Some (blacklist_text True P ms), if end = None then None else Some NUL)"
proof (rule next_scan [OF _ _ e])
  have n': "0 < phys_addr (P m)" "phys_addr (P m) < 2 ^ 63" "4096 dvd phys_addr (P m)" using n by (simp_all add: bad_addr_def)
  show "blacklist_text True P (m # ms) \<noteq> []" by (simp add: alt_hex_def)
  show "\<forall>c\<in>set (blacklist_text True P (m # ms)). c \<noteq> NUL" by (intro ballI text_chars)
  have "blacklist_text False P ms = [] \<or> deref (blacklist_text False P ms) = CHR '',''" using text_rest [of ms P] by blast
  note S = scan_entry [OF n' this]
  have "(if length (blacklist_text False P ms) \<le> 1 then None else Some (tl (blacklist_text False P ms))) =
      (if ms = [] then None else Some (blacklist_text True P ms))"
    using text_rest [of ms P] by auto
  then show "blacklist_scan (blacklist_text True P (m # ms)) =
      (of_nat (phys_addr (P m)), if ms = [] then None else Some (blacklist_text True P ms))"
    using S by simp
qed

lemma check_text:
  assumes "\<forall>m\<in>set ms. bad_addr (phys_addr (P m))" and "end = None \<or> end = Some NUL \<or> (\<exists>c. end = Some c \<and> is_sep c)"
    and "ms \<noteq> []"
  shows "vm_page_blacklist_check E (Some (blacklist_text True P ms)) end b =
    fold (\<lambda>m b. snd (vm_page_blacklist_add E (of_nat (phys_addr (P m))) b)) ms b"
  using assms
proof (induction ms arbitrary: "end" b)
  case (Cons m ms)
  have a: "bad_addr (phys_addr (P m))" using Cons.prems(1) by simp
  have nz: "(of_nat (phys_addr (P m)) :: u64) \<noteq> 0"
  proof
    assume "(of_nat (phys_addr (P m)) :: u64) = 0"
    then have "2 ^ 64 dvd phys_addr (P m)" using word_of_nat_eq_0_iff [where 'a = 64] by simp
    then show False using a by (auto simp: bad_addr_def dest: dvd_imp_le)
  qed
  note N = next_entry [where P = P and m = m and ms = ms, OF a Cons.prems(2)]
  show ?case
  proof (cases "ms = []")
    case True
    then show ?thesis using N nz by simp
  next
    case False
    have "vm_page_blacklist_check E (Some (blacklist_text True P ms)) (if end = None then None else Some NUL) b' =
        fold (\<lambda>m b. snd (vm_page_blacklist_add E (of_nat (phys_addr (P m))) b)) ms b'" for b'
      by (rule Cons.IH) (use Cons.prems(1) False in auto)
    then show ?thesis unfolding vm_page_blacklist_check.simps N using False nz by simp
  qed
qed simp

lemma check_empty: "end \<noteq> None \<longrightarrow> end = Some NUL \<Longrightarrow> vm_page_blacklist_check E (Some []) end b = b"
  by (cases "end") (simp_all add: vm_page_blacklist_next_def deref_def)

lemma adds_head:
  assumes "\<forall>m\<in>set ms. vm_phys_paddr_to_vm_page E (of_nat (phys_addr (P m))) = Some m" and "\<forall>m p. fst (vm_phys_unfree_page E m p)"
  shows "blacklist_head (fold (\<lambda>m b. snd (vm_page_blacklist_add E (of_nat (phys_addr (P m))) b)) ms b) = blacklist_head b @ ms"
  using assms
proof (induction ms arbitrary: b)
  case (Cons m ms)
  have "blacklist_head (snd (vm_page_blacklist_add E (of_nat (phys_addr (P m))) b)) = blacklist_head b @ [m]"
    using Cons.prems by (simp add: vm_page_blacklist_add_def split: prod.split) (metis fst_conv)
  then show ?case using Cons by simp
qed simp

section \<open>Properties\<close>

text \<open>
  C23: The report of the blacklisted pages is read back: given to \<open>vm_page_blacklist_check\<close>, as a
  string or as a module that a separator or a NUL follows, it has each of its addresses taken out of
  the allocator once, in order. If the allocator can take them all out, exactly these pages are
  added to the list, so that the next boot reports the same text.
\<close>

theorem blacklist_read_back:
  assumes addr: "\<forall>m\<in>set ms. bad_addr (phys_addr (P m))"
    and e: "end = None \<or> end = Some NUL \<or> (ms \<noteq> [] \<and> (\<exists>c. end = Some c \<and> is_sep c))"
    and report: "snd (sysctl_vm_page_blacklist 0 0 P \<lparr>bl_phys = p, blacklist_head = ms\<rparr>) = Some s"
  shows "vm_page_blacklist_check E (Some s) end b =
      fold (\<lambda>m b. snd (vm_page_blacklist_add E (of_nat (phys_addr (P m))) b)) ms b \<and>
    ((\<forall>m\<in>set ms. vm_phys_paddr_to_vm_page E (of_nat (phys_addr (P m))) = Some m) \<and> (\<forall>m p. fst (vm_phys_unfree_page E m p)) \<longrightarrow>
      blacklist_head (vm_page_blacklist_check E (Some s) end b) = blacklist_head b @ ms \<and>
      sysctl_vm_page_blacklist 0 0 P (startup_blacklist E (Some (Some s, NUL)) None p) = (0, Some s))"
proof -
  have s: "s = blacklist_text True P ms" using report by (simp add: sysctl_vm_page_blacklist_def)
  have c: "vm_page_blacklist_check E (Some s) e b =
      fold (\<lambda>m b. snd (vm_page_blacklist_add E (of_nat (phys_addr (P m))) b)) ms b"
    if "e = None \<or> e = Some NUL \<or> (ms \<noteq> [] \<and> (\<exists>c. e = Some c \<and> is_sep c))" for e b
  proof (cases "ms = []")
    case True
    then show ?thesis using that check_empty [of e] by (auto simp: s)
  next
    case False
    then show ?thesis unfolding s using that by (intro check_text addr) auto
  qed
  show ?thesis
    using c [OF e, of b] c [of "Some NUL"] adds_head [of ms E P]
    by (auto simp: startup_blacklist_def vm_page_blacklist_load_def sysctl_vm_page_blacklist_def s)
qed

definition bl_env1 :: "unit bl_env" where
  "bl_env1 = \<lparr>vm_phys_paddr_to_vm_page = (\<lambda>a. Some (unat a div 4096)), vm_phys_unfree_page = (\<lambda>m p. (True, p))\<rparr>"

definition bl_pages1 :: pages where
  "bl_pages1 m = undefined\<lparr>phys_addr := 4096 * m\<rparr>"

theorem blacklist_read_back_witness:
  "blacklist_head (vm_page_blacklist_check bl_env1 (Some ''0x3000,0x1f000'') None \<lparr>bl_phys = (), blacklist_head = []\<rparr>) = [3, 31]"
proof -
  have h: "alt_hex 12288 = ''0x3000''" "alt_hex 126976 = ''0x1f000''" by (simp_all add: alt_hex_def hex_str.simps hex_digit_def)
  have a: "\<forall>m\<in>set [3, 31]. bad_addr (phys_addr (bl_pages1 m))" by (simp add: bad_addr_def bl_pages1_def)
  have t: "snd (sysctl_vm_page_blacklist 0 0 bl_pages1 \<lparr>bl_phys = (), blacklist_head = [3, 31]\<rparr>) = Some ''0x3000,0x1f000''"
    by (simp add: sysctl_vm_page_blacklist_def bl_pages1_def h)
  have l: "\<forall>m\<in>set [3, 31]. vm_phys_paddr_to_vm_page bl_env1 (of_nat (phys_addr (bl_pages1 m))) = Some m"
    "\<forall>m p. fst (vm_phys_unfree_page bl_env1 m p)"
    by (simp_all add: bl_env1_def bl_pages1_def)
  have "None = (None :: char option)" ..
  note R = blacklist_read_back [OF a disjI1 [OF this] t, where E = bl_env1 and b = "\<lparr>bl_phys = (), blacklist_head = []\<rparr>"]
  show ?thesis using conjunct1 [OF mp [OF conjunct2 [OF R] conjI [OF l]]] by (simp del: vm_page_blacklist_check.simps)
qed

text \<open>An entry below the first page boundary, page 0 that is, is passed over in silence.\<close>

lemma page_zero_ignored: "vm_page_blacklist_check E (Some ''100'') None b = b"
  by (simp add: vm_page_blacklist_next_def deref_def NUL_def blacklist_scan.simps strtoq_def num_prefix_def isspace_def
      is_digit_def digit_val_def num_val_def is_sep_def trunc_page_def PAGE_MASK_def)

end
