(* ===== verification/Vm_Startup.thy ===== *)
theory Vm_Startup
  imports Vm_Queue Vm_Blacklist
begin

text \<open>
  Setting up the page layer at boot (\<open>vm_page_startup\<close> and \<open>vm_set_page_size\<close> of
  \<open>src/asgn3/vm/vm_page.c\<close>), as it is compiled for amd64: from the chunks of physical memory that
  the machine-dependent code has found, the top of the biggest is taken for the first pages of the
  kernel's allocator, for a bitmap of the pages to dump, for the array of page structures and for the
  reservations; then the pages of every segment are set up and those available handed to the
  physical allocator.

  \<open>phys_avail\<close> is the list of the chunks, each with its two ends; the array ends at the first end that
  is 0, and so does every walk over it. Sizes of structures of other files, the physical allocator, the
  reservations and the mapping of memory are arguments, in \<open>boot_env\<close>. What is mapped is zeroed,
  which the model leaves out. \<open>dense\<close> tells the two layouts of the page array apart.
\<close>

unbundle bit_operations_syntax

type_synonym chunk = "u64 \<times> u64"

definition PAGE :: u64 where "PAGE = of_nat PAGE_SIZE"

record phys_seg =
  seg_start :: u64
  seg_end :: u64
  first_page :: pid
  seg_domain :: nat

record 'p boot_env =
  dense :: bool
  sizeof_vm_page :: u64
  sizeof_uma_zone :: nat
  sizeof_uma_cache :: nat
  sizeof_uma_slab :: nat
  UMA_SLAB_SIZE :: int
  UMA_BOOT_PAGES_ZONES :: int
  mp_maxid :: nat
  tunable_boot_pages :: "int option"
  dump_avail :: "chunk list"
  msgbuf :: chunk
  boot_segs :: "phys_seg list"
  pmap_map :: "u64 \<Rightarrow> u64 \<Rightarrow> u64 \<Rightarrow> u64 \<times> u64"
  vm_reserv_startup :: "u64 \<Rightarrow> u64 \<Rightarrow> u64 \<Rightarrow> u64 \<times> u64"
  vm_phys_setup :: "chunk list \<Rightarrow> 'p \<Rightarrow> phys_seg list \<times> 'p"
  reset_free_count :: "'p \<Rightarrow> 'p"
  vm_phys_free_contig :: "pid \<Rightarrow> u64 \<Rightarrow> 'p \<Rightarrow> 'p"
  vm_reserv_init :: "'p \<Rightarrow> 'p"
  pmap_page_init :: "vm_page \<Rightarrow> vm_page"
  NFREEORDER :: nat
  FREEPOOL :: nat

definition vm_set_page_size :: "u32 \<Rightarrow> fault + u32" where
  "vm_set_page_size v_page_size =
    (let size = (if v_page_size = 0 then of_nat PAGE_SIZE else v_page_size)
     in if (size - 1) AND size \<noteq> 0 then Inl Kernel_panic else Inr size)"

section \<open>Chunks of memory\<close>

definition chunks :: "chunk list \<Rightarrow> chunk list" where
  "chunks pa = takeWhile (\<lambda>(s, e). e \<noteq> 0) pa"

definition round_chunks :: "chunk list \<Rightarrow> chunk list" where
  "round_chunks pa = chunks (map (\<lambda>(s, e). (round_page s, trunc_page e)) (chunks pa))"

fun biggest :: "chunk list \<Rightarrow> nat \<Rightarrow> nat \<Rightarrow> u64 \<Rightarrow> nat" where
  "biggest [] i biggestone biggestsize = biggestone"
| "biggest ((s, e) # cs) i biggestone biggestsize =
    (if e - s > biggestsize then biggest cs (i + 1) i (e - s) else biggest cs (i + 1) biggestone biggestsize)"

definition set_end :: "nat \<Rightarrow> u64 \<Rightarrow> chunk list \<Rightarrow> chunk list" where
  "set_end k e cs = cs[k := (fst (cs ! k), e)]"

section \<open>The top of the biggest chunk\<close>

text \<open>The numbers of boot pages are \<open>int\<close>: the products are too, and the kernel is compiled so that they wrap around.\<close>

definition pages_per_zone :: "'p boot_env \<Rightarrow> int" where
  "pages_per_zone B =
    (let n = int (sizeof_uma_zone B + sizeof_uma_cache B * (mp_maxid B + 1) + (sizeof_uma_slab B + 7) div 8 * 8)
     in signed_take_bit 31 ((n + UMA_SLAB_SIZE B - 1) div UMA_SLAB_SIZE B))"

definition boot_pages_of :: "'p boot_env \<Rightarrow> int \<Rightarrow> int" where
  "boot_pages_of B boot_pages =
    (case tunable_boot_pages B of
       Some n \<Rightarrow> n
     | None \<Rightarrow> if pages_per_zone B > 1 then signed_take_bit 31 (UMA_BOOT_PAGES_ZONES B * pages_per_zone B) else boot_pages)"

definition uma_end :: "'p boot_env \<Rightarrow> int \<Rightarrow> u64 \<Rightarrow> u64" where
  "uma_end B boot_pages e = trunc_page (e - word_of_int (signed_take_bit 31 (boot_pages * UMA_SLAB_SIZE B)))"

definition dump_bitmap_size :: "'p boot_env \<Rightarrow> u64" where
  "dump_bitmap_size B =
    (let last_pa = fold (\<lambda>(s, e) l. if e > l then e else l) (chunks (dump_avail B)) 0;
         page_range = last_pa div PAGE
     in round_page (((page_range + 7) AND NOT 7) div 8))"

text \<open>The pages from \<open>pa\<close> up to \<open>e\<close> that a loop over \<open>pa += PAGE_SIZE\<close> visits.\<close>

definition pages_between :: "u64 \<Rightarrow> u64 \<Rightarrow> u64 list" where
  "pages_between pa e = map (\<lambda>k. pa + of_nat k * PAGE) [0..<(unat e - unat pa + (PAGE_SIZE - 1)) div PAGE_SIZE]"

section \<open>The page array\<close>

definition lowest :: "phys_seg list \<Rightarrow> chunk list \<Rightarrow> u64" where
  "lowest segs cs =
    fold (\<lambda>(s, e) l. if s < l then s else l) (chunks (tl cs))
      (fold (\<lambda>g l. if seg_start g < l then seg_start g else l) segs (fst (hd cs)))"

definition highest :: "phys_seg list \<Rightarrow> chunk list \<Rightarrow> u64" where
  "highest segs cs =
    fold (\<lambda>(s, e) h. if e > h then e else h) (chunks (tl cs))
      (fold (\<lambda>g h. if seg_end g > h then seg_end g else h) segs (snd (hd cs)))"

definition avail_size :: "'p boot_env \<Rightarrow> chunk list \<Rightarrow> u64" where
  "avail_size B cs =
    (if dense B then highest (boot_segs B) cs - lowest (boot_segs B) cs
     else fold (\<lambda>(s, e) n. n + (e - s)) (chunks cs) (fold (\<lambda>g n. n + (seg_end g - seg_start g)) (boot_segs B) 0))"

text \<open>The number of page structures, and the two ends after the page that is left over is given up.\<close>

definition page_range :: "'p boot_env \<Rightarrow> u64 \<Rightarrow> u64 \<Rightarrow> u64 \<Rightarrow> u64 \<times> u64 \<times> u64" where
  "page_range B nbytes new_end high_avail =
    (if dense B \<and> new_end \<noteq> high_avail then (nbytes div PAGE, new_end, high_avail)
     else
      (let n = nbytes div (PAGE + sizeof_vm_page B)
       in if nbytes mod (PAGE + sizeof_vm_page B) \<ge> PAGE
          then (n, new_end - PAGE, if new_end = high_avail then high_avail - PAGE else high_avail)
          else (n, new_end, high_avail)))"

record layout =
  lay_avail :: "chunk list"
  first_pfn :: u64
  array_size :: u64
  array_start :: u64
  array_end :: u64
  vm_page_array :: u64
  vm_page_dump :: u64
  vm_page_dump_size :: u64
  dumped :: "u64 list"
  lay_vaddr :: u64

text \<open>Everything up to the segments: \<open>vaddr\<close> is the next free virtual address.\<close>

definition startup_layout :: "'p boot_env \<Rightarrow> int \<Rightarrow> u64 \<Rightarrow> chunk list \<Rightarrow> layout" where
  "startup_layout B boot_pages vaddr pa =
    (let cs = round_chunks pa;
         k = biggest cs 0 0 0;
         e = snd (cs ! k);
         ne1 = uma_end B (boot_pages_of B boot_pages) e;
         (uma, va1) = pmap_map B (round_page vaddr) ne1 e;
         dsize = dump_bitmap_size B;
         ne2 = ne1 - dsize;
         (dump, va2) = pmap_map B va1 ne2 (ne2 + dsize);
         msg = pages_between (fst (msgbuf B)) (fst (msgbuf B) + round_page (snd (msgbuf B)));
         cs2 = set_end k ne2 cs;
         low = lowest (boot_segs B) cs2;
         high = highest (boot_segs B) cs2;
         (n, ne3, high3) = page_range B (avail_size B cs2) ne2 high;
         ne4 = trunc_page (ne3 - n * sizeof_vm_page B);
         (arr, va3) = pmap_map B (va2 + PAGE) ne4 ne3;
         (ne5, va4) = vm_reserv_startup B va3 ne4 (if high3 = ne3 then ne4 else high3)
     in \<lparr>lay_avail = set_end k ne5 cs2, first_pfn = low div PAGE, array_size = n, array_start = ne4, array_end = ne3,
         vm_page_array = arr, vm_page_dump = dump, vm_page_dump_size = dsize,
         dumped = pages_between ne2 e @ msg @ pages_between ne5 ne3, lay_vaddr = va4\<rparr>)"

section \<open>The segments\<close>

text \<open>
  The pages, the queues, the allocator and the counters of a memory domain. Each segment's pages are
  consecutive elements of the page array.
\<close>

record ('r, 'p) boot_state =
  bt_sys :: "('r, 'p) vm_sys"
  bt_page_count :: u32
  vmd_page_count :: "nat \<Rightarrow> u32"
  vmd_segs :: "nat \<Rightarrow> u64"

definition init_seg_pages :: "'p boot_env \<Rightarrow> nat \<Rightarrow> phys_seg \<Rightarrow> pages \<Rightarrow> pages" where
  "init_seg_pages B ind g P =
    (let pas = pages_between (seg_start g) (seg_end g)
     in fold (\<lambda>(m, pa) P. upd_pg P m (vm_page_init_page (pmap_page_init B) (NFREEORDER B) (FREEPOOL B) (unat pa) (int ind)))
          (zip [first_page g..<first_page g + length pas] pas) P)"

definition atop :: "u64 \<Rightarrow> u64" where "atop x = drop_bit 12 x"

text \<open>Handing a segment to the allocator, if a chunk covers it.\<close>

definition free_seg :: "('r, 'p) vm_env \<Rightarrow> 'p boot_env \<Rightarrow> chunk list \<Rightarrow> phys_seg \<Rightarrow> ('r, 'p) boot_state \<Rightarrow> ('r, 'p) boot_state" where
  "free_seg E B avail g b =
    (if \<exists>c\<in>set (chunks avail). \<not> (seg_start g < fst c \<or> seg_end g > snd c)
     then
      (let m = first_page g;
           pagecount = atop (seg_end g - seg_start g);
           p = vm_phys_freecnt_adj E m (sint (ucast pagecount :: u32)) (vm_phys_free_contig B m pagecount (phys (bt_sys b)));
           d = seg_domain g
       in b\<lparr>bt_sys := (bt_sys b)\<lparr>phys := p\<rparr>,
            bt_page_count := bt_page_count b + ucast pagecount,
            vmd_page_count := (vmd_page_count b)(d := vmd_page_count b d + ucast pagecount),
            vmd_segs := (vmd_segs b)(d := vmd_segs b d OR push_bit (nat (segind (pg (bt_sys b) m))) 1)\<rparr>)
     else b)"

definition startup_seg ::
    "('r, 'p) vm_env \<Rightarrow> 'p boot_env \<Rightarrow> chunk list \<Rightarrow> nat \<times> phys_seg \<Rightarrow> ('r, 'p) boot_state \<Rightarrow> ('r, 'p) boot_state" where
  "startup_seg E B avail = (\<lambda>(ind, g) b.
    free_seg E B avail g (b\<lparr>bt_sys := (bt_sys b)\<lparr>pg := init_seg_pages B ind g (pg (bt_sys b))\<rparr>\<rparr>))"

definition startup_segs ::
    "('r, 'p) vm_env \<Rightarrow> 'p boot_env \<Rightarrow> chunk list \<Rightarrow> phys_seg list \<Rightarrow> ('r, 'p) boot_state \<Rightarrow> ('r, 'p) boot_state" where
  "startup_segs E B avail segs b =
    fold (startup_seg E B avail) (List.enumerate 0 segs)
      (b\<lparr>bt_page_count := 0, bt_sys := (bt_sys b)\<lparr>phys := reset_free_count B (phys (bt_sys b))\<rparr>\<rparr>)"

definition vm_page_startup ::
    "('r, 'p) vm_env \<Rightarrow> 'p boot_env \<Rightarrow> 'p bl_env \<Rightarrow> (string option \<times> char) option \<Rightarrow> string option \<Rightarrow> int \<Rightarrow> u64
      \<Rightarrow> chunk list \<Rightarrow> ('r, 'p) vm_sys \<Rightarrow> layout \<times> ('r, 'p) boot_state \<times> pid list" where
  "vm_page_startup E B L module kenv boot_pages vaddr pa s =
    (let s0 = fold vm_page_domain_init [0..<vm_ndomains E] s;
         l = startup_layout B boot_pages vaddr pa;
         (segs, p) = vm_phys_setup B (lay_avail l) (phys s0);
         b = startup_segs E B (lay_avail l) segs
           \<lparr>bt_sys = s0\<lparr>phys := p\<rparr>, bt_page_count = 0, vmd_page_count = (\<lambda>d. 0), vmd_segs = (\<lambda>d. 0)\<rparr>;
         bad = startup_blacklist L module kenv (phys (bt_sys b))
     in (l, b\<lparr>bt_sys := (bt_sys b)\<lparr>phys := vm_reserv_init B (bl_phys bad)\<rparr>\<rparr>, blacklist_head bad))"

end
