(* ===== verification/Vm_Startup_Props.thy ===== *)
theory Vm_Startup_Props
  imports Vm_Startup Vm_Alloc_Laws
begin

text \<open>
  Properties of the layout of memory at boot (\<open>startup_layout\<close>): the array of page structures lies
  below the top of the biggest chunk and has an element for every page that is left.
\<close>

section \<open>Sizes\<close>

definition bytes :: "chunk list \<Rightarrow> nat" where
  "bytes cs = (\<Sum>(s, e)\<leftarrow>cs. unat e - unat s)"

definition seg_bytes :: "phys_seg list \<Rightarrow> nat" where
  "seg_bytes segs = (\<Sum>g\<leftarrow>segs. unat (seg_end g) - unat (seg_start g))"

lemma bytes_Cons [simp]: "bytes [] = 0" "bytes ((s, e) # cs) = unat e - unat s + bytes cs"
  by (simp_all add: bytes_def)

lemma bytes_update:
  "k < length cs \<Longrightarrow> bytes (cs[k := (s, e)]) + (unat (snd (cs ! k)) - unat (fst (cs ! k))) = bytes cs + (unat e - unat s)"
proof (induction cs arbitrary: k)
  case (Cons c cs)
  then show ?case by (cases c; cases k) auto
qed simp

lemma unat_minus: "unat (e - s) = unat e - unat s" if "s \<le> e" for s e :: u64
  using that by (simp add: unat_sub)

lemma fold_bytes:
  "\<forall>(s, e)\<in>set cs. s \<le> e \<Longrightarrow> unat n + bytes cs < 2 ^ 64 \<Longrightarrow> unat (fold (\<lambda>(s, e) n. n + (e - s)) cs n) = unat n + bytes cs"
proof (induction cs arbitrary: n)
  case (Cons c cs)
  obtain s e where c: "c = (s, e)" by (cases c)
  have "unat (n + (e - s)) = unat n + (unat e - unat s)"
    using Cons.prems by (simp add: c unat_word_ariths unat_minus)
  then show ?case using Cons by (simp add: c)
qed simp

lemma fold_seg_bytes:
  "\<forall>g\<in>set segs. seg_start g \<le> seg_end g \<Longrightarrow> unat n + seg_bytes segs < 2 ^ 64 \<Longrightarrow>
    unat (fold (\<lambda>g n. n + (seg_end g - seg_start g)) segs n) = unat n + seg_bytes segs"
proof (induction segs arbitrary: n)
  case (Cons g segs)
  have "unat (n + (seg_end g - seg_start g)) = unat n + (unat (seg_end g) - unat (seg_start g))"
    using Cons.prems by (simp add: seg_bytes_def unat_word_ariths unat_minus)
  then show ?case using Cons by (simp add: seg_bytes_def)
qed (simp add: seg_bytes_def)

lemma chunks_all: "\<forall>(s, e)\<in>set cs. e \<noteq> 0 \<Longrightarrow> chunks cs = cs"
  by (auto simp: chunks_def takeWhile_eq_all_conv)

lemma avail_size_sparse:
  assumes "\<not> dense B" "\<forall>(s, e)\<in>set cs. s \<le> e \<and> e \<noteq> 0" "\<forall>g\<in>set (boot_segs B). seg_start g \<le> seg_end g"
    and "bytes cs + seg_bytes (boot_segs B) < 2 ^ 64"
  shows "unat (avail_size B cs) = bytes cs + seg_bytes (boot_segs B)"
proof -
  have a: "\<forall>(s, e)\<in>set cs. s \<le> e" "\<forall>(s, e)\<in>set cs. e \<noteq> 0" using assms(2) by auto
  define n where "n = fold (\<lambda>g n. n + (seg_end g - seg_start g)) (boot_segs B) (0 :: u64)"
  have n: "unat n = seg_bytes (boot_segs B)" unfolding n_def using fold_seg_bytes [OF assms(3), of 0] assms(4) by simp
  have "unat (fold (\<lambda>(s, e) n. n + (e - s)) cs n) = unat n + bytes cs"
    by (rule fold_bytes [OF a(1)]) (use assms(4) n in simp)
  then show ?thesis using assms(1) by (simp add: avail_size_def chunks_all [OF a(2)] n_def [symmetric] n)
qed

section \<open>The array\<close>

lemma biggest_range: "biggest cs i b z = b \<or> i \<le> biggest cs i b z \<and> biggest cs i b z < i + length cs"
proof (induction cs arbitrary: i b z)
  case (Cons c cs)
  obtain s e where c: "c = (s, e)" by (cases c)
  show ?case
    using Cons.IH [of "i + 1" i "e - s"] Cons.IH [of "i + 1" b z] by (auto simp: c)
qed simp

lemma biggest_less: "cs \<noteq> [] \<Longrightarrow> biggest cs 0 0 0 < length cs"
  using biggest_range [of cs 0 0 0] by auto

text \<open>
  With one structure for as many pages as fit together with their structures, what is left over is
  less than a page once the spare page is given up.
\<close>

lemma pages_left:
  fixes t q r s d x :: nat
  assumes "t = q * (4096 + s) + r" "r < 4096 + s" "s \<le> 4096" "x + q * s + (if 4096 \<le> r then 4096 else 0) \<le> t"
  shows "x div 4096 \<le> q"
proof -
  have t: "t = q * 4096 + q * s + r" using assms(1) by (simp add: algebra_simps)
  have "x < (q + 1) * 4096"
  proof (cases "4096 \<le> r")
    case True
    then show ?thesis using assms(2-4) t by simp
  next
    case False
    then show ?thesis using assms(4) t by simp
  qed
  then show ?thesis by (simp add: less_mult_imp_div_less)
qed

lemma unat_trunc_page: "unat (trunc_page x) = unat x div 4096 * 4096"
  by (simp add: trunc_page_def unat_trunc)

lemma trunc_below: "unat (trunc_page x) \<le> unat x" "unat x < unat (trunc_page x) + 4096"
  unfolding unat_trunc_page by simp_all

lemma page_unat: "unat PAGE = 4096"
  by (simp add: PAGE_def PAGE_SIZE_def)

lemma uma_end_bounds:
  assumes "0 \<le> b" "b < 2 ^ 31" "nat b + 4096 \<le> unat e" "b = boot_pages * UMA_SLAB_SIZE B"
  shows "unat (uma_end B boot_pages e) \<le> unat e" "unat e < unat (uma_end B boot_pages e) + nat b + 4096"
proof -
  have b: "signed_take_bit 31 b = b" using assms(1,2) by (intro signed_take_bit_int_eq_self) simp_all
  have l: "nat b < 2 ^ 64" using assms(3) u64_bound [of e] by linarith
  then have w: "unat (of_nat (nat b) :: u64) = nat b" by (simp only: unat_of_nat) simp
  obtain m where "b = int m" using assms(1) zero_le_imp_eq_int by blast
  then have wi: "word_of_int b = (of_nat (nat b) :: u64)" by simp
  have "(of_nat (nat b) :: u64) \<le> e" unfolding word_le_nat_alt w using assms(3) by simp
  then have m: "unat (e - word_of_int b) = unat e - nat b" unfolding wi by (simp add: unat_minus w)
  have u: "uma_end B boot_pages e = trunc_page (e - word_of_int b)" by (simp add: uma_end_def assms(4) [symmetric] b)
  show "unat (uma_end B boot_pages e) \<le> unat e" "unat e < unat (uma_end B boot_pages e) + nat b + 4096"
    using trunc_below [of "e - word_of_int b"] m assms(3) unfolding u by linarith+
qed

lemma page_range_sparse:
  assumes "\<not> dense B" and n: "(n, e3, h3) = page_range B t e2 h" and s: "sizeof_vm_page B \<le> PAGE"
    and e2: "4096 \<le> unat e2"
  shows "h3 \<le> h" and "unat t = unat n * (4096 + unat (sizeof_vm_page B)) + unat t mod (4096 + unat (sizeof_vm_page B))"
    and "unat e3 + (if 4096 \<le> unat t mod (4096 + unat (sizeof_vm_page B)) then 4096 else 0) = unat e2"
proof -
  let ?s = "sizeof_vm_page B"
  have "unat ?s \<le> 4096" using s page_unat by (simp add: word_le_nat_alt)
  then have ps: "unat (PAGE + ?s) = 4096 + unat ?s" by (simp add: unat_word_ariths page_unat)
  have ne: "n = t div (PAGE + ?s)" and e3: "e3 = (if t mod (PAGE + ?s) \<ge> PAGE then e2 - PAGE else e2)"
    using n assms(1) by (auto simp: page_range_def Let_def split: if_splits)
  have "h3 = h \<or> e2 = h \<and> h3 = e2 - PAGE" using n assms(1) by (auto simp: page_range_def Let_def split: if_splits)
  moreover have "e2 - PAGE \<le> e2" using e2 by (simp add: word_le_nat_alt unat_minus page_unat)
  ultimately show "h3 \<le> h" by auto
  have "unat n = unat t div (4096 + unat ?s)" by (simp add: ne unat_div ps)
  then show "unat t = unat n * (4096 + unat ?s) + unat t mod (4096 + unat ?s)" by (simp only: div_mult_mod_eq)
  have "t mod (PAGE + ?s) \<ge> PAGE \<longleftrightarrow> 4096 \<le> unat t mod (4096 + unat ?s)"
    by (simp add: word_le_nat_alt unat_mod ps page_unat)
  moreover have "unat (e2 - PAGE) = unat e2 - 4096"
    using e2 by (simp add: unat_minus word_le_nat_alt page_unat)
  ultimately show "unat e3 + (if 4096 \<le> unat t mod (4096 + unat ?s) then 4096 else 0) = unat e2"
    using e2 by (simp add: e3)
qed

lemma nat_div_of: "t = n * d + r \<Longrightarrow> r < d \<Longrightarrow> n = t div d" for t n d r :: nat
  by simp

text \<open>What the layout is, once the chunks are rounded.\<close>

lemma layout_eq:
  assumes cs: "cs = round_chunks pa" "k = biggest cs 0 0 0"
    and e2: "e2 = uma_end B (boot_pages_of B boot_pages) (snd (cs ! k)) - dump_bitmap_size B"
    and l: "l = startup_layout B boot_pages vaddr pa"
  obtains h h3 va h4 where "page_range B (avail_size B (set_end k e2 cs)) e2 h = (array_size l, array_end l, h3)"
    "h = highest (boot_segs B) (set_end k e2 cs)" "h4 = (if h3 = array_end l then array_start l else h3)"
    "array_start l = trunc_page (array_end l - array_size l * sizeof_vm_page B)"
    "lay_avail l = set_end k (fst (vm_reserv_startup B va (array_start l) h4)) (set_end k e2 cs)"
proof -
  let ?e = "snd (cs ! k)" and ?ne1 = "uma_end B (boot_pages_of B boot_pages) (snd (cs ! k))"
  obtain uma va1 where 1: "pmap_map B (round_page vaddr) ?ne1 ?e = (uma, va1)" by fastforce
  obtain dump va2 where 2: "pmap_map B va1 e2 (e2 + dump_bitmap_size B) = (dump, va2)" by fastforce
  let ?h = "highest (boot_segs B) (set_end k e2 cs)"
  obtain n e3 h3 where 3: "page_range B (avail_size B (set_end k e2 cs)) e2 ?h = (n, e3, h3)"
    by (cases "page_range B (avail_size B (set_end k e2 cs)) e2 ?h") auto
  let ?e4 = "trunc_page (e3 - n * sizeof_vm_page B)"
  obtain arr va3 where 4: "pmap_map B (va2 + PAGE) ?e4 e3 = (arr, va3)" by fastforce
  obtain e5 va4 where 5: "vm_reserv_startup B va3 ?e4 (if h3 = e3 then ?e4 else h3) = (e5, va4)" by fastforce
  have L: "array_size l = n" "array_end l = e3" "array_start l = ?e4" "lay_avail l = set_end k e5 (set_end k e2 cs)"
    unfolding l startup_layout_def Let_def cs(1) [symmetric] cs(2) [symmetric] 1 prod.case e2 [symmetric] 2 3 4 5 by simp_all
  show ?thesis
    by (rule that [of ?h h3 "if h3 = e3 then ?e4 else h3" va3]) (unfold L 3 5 fst_conv, (rule refl)+)
qed

text \<open>The highest address.\<close>

lemma max_if_le: "(if a < e then e else a) \<le> x \<longleftrightarrow> a \<le> x \<and> e \<le> x" for x :: u64
  by auto

lemma fold_chunk_max: "fold (\<lambda>(s, e) h. if e > h then e else h) cs a \<le> x \<longleftrightarrow> a \<le> x \<and> (\<forall>(s, e)\<in>set cs. e \<le> x)" for x :: u64
  by (induction cs arbitrary: a) (auto simp: max_if_le)

lemma fold_seg_max: "fold (\<lambda>g h. if seg_end g > h then seg_end g else h) segs a \<le> x \<longleftrightarrow> a \<le> x \<and> (\<forall>g\<in>set segs. seg_end g \<le> x)" for x :: u64
  by (induction segs arbitrary: a) auto

lemma highest_le:
  assumes "cs \<noteq> []" "\<forall>(s, e)\<in>set cs. e \<noteq> 0"
  shows "highest segs cs \<le> x \<longleftrightarrow> (\<forall>(s, e)\<in>set cs. e \<le> x) \<and> (\<forall>g\<in>set segs. seg_end g \<le> x)"
proof -
  obtain c cs' where c: "cs = c # cs'" using assms(1) by (cases cs) auto
  have "chunks cs' = cs'" using assms(2) c by (intro chunks_all) auto
  then show ?thesis unfolding highest_def by (cases c) (auto simp: c fold_chunk_max fold_seg_max)
qed

lemma highest_set_end:
  assumes cs: "cs \<noteq> []" "\<forall>(s, e)\<in>set cs. e \<noteq> 0" and k: "k < length cs" and e: "e \<le> snd (cs ! k)" "e \<noteq> 0"
  shows "highest segs (set_end k e cs) \<le> highest segs cs" "snd (cs ! k) \<le> highest segs cs"
proof -
  have top: "\<forall>(s, e)\<in>set cs. e \<le> highest segs cs" "\<forall>g\<in>set segs. seg_end g \<le> highest segs cs"
    using highest_le [OF cs, of segs "highest segs cs"] by simp_all
  show k_top: "snd (cs ! k) \<le> highest segs cs" using top(1) nth_mem [OF k] by fastforce
  have sub: "set (set_end k e cs) \<subseteq> insert (fst (cs ! k), e) (set cs)" unfolding set_end_def by (rule set_update_subset_insert)
  have nz: "\<forall>(s, e)\<in>set (set_end k e cs). e \<noteq> 0" and le: "\<forall>(s, e)\<in>set (set_end k e cs). e \<le> highest segs cs"
    using sub cs(2) top(1) e k_top by fastforce+
  show "highest segs (set_end k e cs) \<le> highest segs cs"
    using highest_le [of "set_end k e cs" segs] cs(1) nz le top(2) by (simp add: set_end_def)
qed

definition plain_chunks :: "chunk list \<Rightarrow> bool" where
  "plain_chunks cs \<longleftrightarrow> cs \<noteq> [] \<and> (\<forall>(s, e)\<in>set cs. s \<le> e)"

lemma array_fits_ok:
  fixes B :: "'p boot_env"
  assumes cs: "cs = round_chunks pa" "k = biggest cs 0 0 0" "plain_chunks cs" and l: "l = startup_layout B boot_pages vaddr pa"
    and lay: "\<not> dense B" "sizeof_vm_page B \<le> PAGE" "\<forall>g\<in>set (boot_segs B). seg_start g \<le> seg_end g"
      "bytes cs + seg_bytes (boot_segs B) < 2 ^ 64"
    and b: "b = boot_pages_of B boot_pages * UMA_SLAB_SIZE B" "0 \<le> b" "b < 2 ^ 31"
    and room: "unat (fst (cs ! k)) + nat b + unat (dump_bitmap_size B) +
      (bytes cs + seg_bytes (boot_segs B)) div (4096 + unat (sizeof_vm_page B)) * unat (sizeof_vm_page B) + R + 4 * 4096 \<le> unat (snd (cs ! k))"
    and res: "\<forall>va e h. h \<le> highest (boot_segs B) cs \<and> R \<le> unat e \<longrightarrow>
      unat e \<le> unat (fst (vm_reserv_startup B va e h)) + R \<and> fst (vm_reserv_startup B va e h) \<le> e"
  shows "(bytes (lay_avail l) + seg_bytes (boot_segs B)) div 4096 \<le> unat (array_size l)"
    "snd (lay_avail l ! k) \<le> array_start l"
    "unat (array_start l) + unat (array_size l) * unat (sizeof_vm_page B) \<le> unat (array_end l)"
    "unat (array_end l) + unat (dump_bitmap_size B) \<le> unat (snd (cs ! k))"
    "\<forall>j<length cs. fst (lay_avail l ! j) = fst (cs ! j) \<and> (j \<noteq> k \<longrightarrow> lay_avail l ! j = cs ! j)"
proof -
  let ?s = "fst (cs ! k)" and ?e = "snd (cs ! k)" and ?S = "unat (sizeof_vm_page B)" and ?n = "unat (array_size l)"
  define N where "N = (bytes cs + seg_bytes (boot_segs B)) div (4096 + ?S)"
  define e2 where "e2 = uma_end B (boot_pages_of B boot_pages) ?e - dump_bitmap_size B"
  obtain h h3 va h4 where L: "page_range B (avail_size B (set_end k e2 cs)) e2 h = (array_size l, array_end l, h3)"
    "h = highest (boot_segs B) (set_end k e2 cs)" "h4 = (if h3 = array_end l then array_start l else h3)"
    "array_start l = trunc_page (array_end l - array_size l * sizeof_vm_page B)"
    "lay_avail l = set_end k (fst (vm_reserv_startup B va (array_start l) h4)) (set_end k e2 cs)"
    by (rule layout_eq [OF cs(1,2) e2_def l])
  have k: "k < length cs" using cs(3) biggest_less by (simp add: cs(2) plain_chunks_def)
  have ck: "cs ! k = (?s, ?e)" by simp
  have "nat b + 4096 \<le> unat ?e" using room by linarith
  note U = uma_end_bounds [OF b(2,3) this b(1)]
  have "dump_bitmap_size B \<le> uma_end B (boot_pages_of B boot_pages) ?e"
    unfolding word_le_nat_alt using U(2) room by linarith
  then have e2: "unat e2 + unat (dump_bitmap_size B) = unat (uma_end B (boot_pages_of B boot_pages) ?e)"
    unfolding e2_def by (simp add: unat_minus word_le_nat_alt)
  have e2lo: "unat ?s + N * ?S + R + 3 * 4096 \<le> unat e2" using U(2) room e2 unfolding N_def by linarith
  have e2hi: "unat e2 \<le> unat ?e" using U(1) e2 by linarith
  define cs2 where "cs2 = set_end k e2 cs"
  have cs2: "cs2 = cs[k := (?s, e2)]" by (simp add: cs2_def set_end_def)
  have nz: "\<forall>(s, e)\<in>set cs2. s \<le> e \<and> e \<noteq> 0"
  proof -
    have "\<forall>(s, e)\<in>set cs. s \<le> e" using cs(3) by (simp add: plain_chunks_def)
    moreover have "\<forall>(s, e)\<in>set cs. e \<noteq> 0"
      unfolding cs(1) round_chunks_def chunks_def by (auto dest!: set_takeWhileD)
    moreover have "?s \<le> e2 \<and> e2 \<noteq> 0" using e2lo by (auto simp: word_le_nat_alt)
    ultimately show ?thesis unfolding cs2 by (auto dest!: set_update_subset_insert [THEN subsetD])
  qed
  have by2: "bytes cs2 + (unat ?e - unat ?s) = bytes cs + (unat e2 - unat ?s)"
    using bytes_update [OF k, of ?s e2] by (simp add: cs2)
  then have lt: "bytes cs2 + seg_bytes (boot_segs B) < 2 ^ 64" using lay(4) e2hi by linarith
  have t: "unat (avail_size B cs2) = bytes cs2 + seg_bytes (boot_segs B)" by (rule avail_size_sparse [OF lay(1) nz lay(3) lt])
  have e24: "4096 \<le> unat e2" using e2lo by linarith
  define r where "r = unat (avail_size B cs2) mod (4096 + ?S)"
  note P = page_range_sparse [OF lay(1) L(1) [symmetric] lay(2) e24, folded cs2_def, folded r_def]
  have "?n = unat (avail_size B cs2) div (4096 + ?S)"
    using P(2) by (intro nat_div_of [of _ _ _ r]) (simp_all add: r_def)
  also have "\<dots> \<le> N" unfolding N_def t using by2 e2hi by (intro div_le_mono) linarith
  finally have nN: "?n * ?S \<le> N * ?S" by (rule mult_le_mono1)
  have e3lo: "unat ?s + ?n * ?S + R + 2 * 4096 \<le> unat (array_end l)"
  proof -
    have "unat e2 \<le> unat (array_end l) + 4096" using P(3) by (simp split: if_splits)
    then show ?thesis using e2lo nN by linarith
  qed
  have "?n * ?S < 2 ^ 64" using e3lo u64_bound [of "array_end l"] by linarith
  then have ns: "unat (array_size l * sizeof_vm_page B) = ?n * ?S" by (simp add: unat_word_ariths)
  then have "array_size l * sizeof_vm_page B \<le> array_end l" unfolding word_le_nat_alt using e3lo by linarith
  then have d: "unat (array_end l - array_size l * sizeof_vm_page B) = unat (array_end l) - ?n * ?S"
    by (simp add: unat_minus ns)
  have a: "unat (array_start l) + ?n * ?S \<le> unat (array_end l)" "unat ?s + R \<le> unat (array_start l)"
    using trunc_below [of "array_end l - array_size l * sizeof_vm_page B"] d e3lo unfolding L(4) by linarith+
  show "unat (array_start l) + ?n * ?S \<le> unat (array_end l)" by (rule a(1))
  show "unat (array_end l) + unat (dump_bitmap_size B) \<le> unat ?e"
    using P(3) e2 U(1) by (simp split: if_splits)
  define e5 where "e5 = fst (vm_reserv_startup B va (array_start l) h4)"
  have cs_nz: "cs \<noteq> []" "\<forall>(s, e)\<in>set cs. e \<noteq> 0"
    using cs(3) unfolding plain_chunks_def cs(1) round_chunks_def chunks_def by (auto dest!: set_takeWhileD)
  have "e2 \<le> ?e" "e2 \<noteq> 0" using e2hi e24 by (auto simp: word_le_nat_alt)
  note H = highest_set_end [OF cs_nz k this, of "boot_segs B"]
  have "unat (array_start l) \<le> unat ?e" using a(1) P(3) e2hi by (simp split: if_splits)
  then have "h4 \<le> highest (boot_segs B) cs"
    using H P(1) unfolding L(3) L(2) by (auto simp: word_le_nat_alt split: if_splits)
  moreover have "R \<le> unat (array_start l)" using a(2) by linarith
  ultimately have "unat (array_start l) \<le> unat e5 + R" "e5 \<le> array_start l" using res unfolding e5_def by blast+
  then have e5: "unat ?s \<le> unat e5" "unat e5 \<le> unat (array_start l)" using a(2) by (simp_all add: word_le_nat_alt)
  have av: "lay_avail l = cs2[k := (?s, e5)]" using k unfolding L(5) e5_def [symmetric] by (simp add: set_end_def cs2)
  show "snd (lay_avail l ! k) \<le> array_start l" using k e5(2) by (simp add: av cs2 word_le_nat_alt)
  show "\<forall>j<length cs. fst (lay_avail l ! j) = fst (cs ! j) \<and> (j \<noteq> k \<longrightarrow> lay_avail l ! j = cs ! j)"
    using k by (auto simp: av cs2 nth_list_update)
  have k2: "k < length cs2" "cs2 ! k = (?s, e2)" using k by (simp_all add: cs2)
  have "bytes (lay_avail l) + (unat e2 - unat ?s) = bytes cs2 + (unat e5 - unat ?s)"
    using bytes_update [OF k2(1), of ?s e5] k2(2) by (simp add: av)
  then have x: "bytes (lay_avail l) + seg_bytes (boot_segs B) + ?n * ?S + (if 4096 \<le> r then 4096 else 0) \<le> bytes cs2 + seg_bytes (boot_segs B)"
    using e5 a(1) P(3) e2lo by (auto split: if_splits)
  have rl: "r < 4096 + ?S" by (simp add: r_def)
  have S: "?S \<le> 4096" using lay(2) page_unat by (simp add: word_le_nat_alt)
  show "(bytes (lay_avail l) + seg_bytes (boot_segs B)) div 4096 \<le> ?n"
    by (rule pages_left [OF P(2) [unfolded t] rl [unfolded t] S]) (use x in simp)
qed


text \<open>
  Two chunks, of 4 and of 32 pages; two boot pages, one page for the bitmap. The reservation system
  takes 64 bytes for each 2 megabytes below the high water mark, rounded up to pages, as the kernel's does.
\<close>

definition demo_boot :: "unit boot_env" where
  "demo_boot = \<lparr>dense = False, sizeof_vm_page = 104, sizeof_uma_zone = 384, sizeof_uma_cache = 64, sizeof_uma_slab = 112,
    UMA_SLAB_SIZE = 4096, UMA_BOOT_PAGES_ZONES = 16, mp_maxid = 3, tunable_boot_pages = None,
    dump_avail = [(0x1000, 0x5000), (0x10000, 0x30000)], msgbuf = (0x3000, 0x1000), boot_segs = [],
    pmap_map = (\<lambda>va s e. (s, va)), vm_reserv_startup = (\<lambda>va e h. (e - round_page ((h + 0x1FFFFF) div 0x200000 * 64), va)),
    vm_phys_setup = (\<lambda>cs p. ([], p)), reset_free_count = (\<lambda>p. p), vm_phys_free_contig = (\<lambda>m n p. p),
    vm_reserv_init = (\<lambda>p. p), pmap_page_init = (\<lambda>x. x), NFREEORDER = 12, FREEPOOL = 0\<rparr>"

definition demo_chunks :: "chunk list" where
  "demo_chunks = [(0x1000, 0x5000), (0x10000, 0x30000), (0, 0)]"

lemma demo_round: "round_chunks demo_chunks = [(0x1000, 0x5000), (0x10000, 0x30000)]"
  by code_simp

lemma demo_big: "biggest (round_chunks demo_chunks) 0 0 0 = 1"
  by code_simp

lemma demo_bitmap: "dump_bitmap_size demo_boot = 0x1000"
  by code_simp

lemma demo_pages: "boot_pages_of demo_boot 2 = 2"
  by code_simp

lemma demo_fields: "\<not> dense demo_boot" "sizeof_vm_page demo_boot = 104" "boot_segs demo_boot = []" "UMA_SLAB_SIZE demo_boot = 4096"
  by (simp_all add: demo_boot_def)

lemma demo_highest: "highest [] (round_chunks demo_chunks) = 0x30000"
  unfolding demo_round by code_simp

lemma demo_reserv_size:
  assumes "h \<le> (0x30000 :: u64)"
  shows "unat (round_page ((h + 0x1FFFFF) div 0x200000 * 64)) \<le> 0x1000"
proof -
  have h: "unat h \<le> 0x30000" using assms by (simp add: word_le_nat_alt)
  then have a: "unat (h + 0x1FFFFF) = unat h + 0x1FFFFF" by (simp add: unat_word_ariths)
  have "unat ((h + 0x1FFFFF) div 0x200000) = (unat h + 0x1FFFFF) div 0x200000" by (simp add: unat_div a)
  then have "(h + 0x1FFFFF) div 0x200000 = 0 \<or> (h + 0x1FFFFF) div 0x200000 = 1"
    using h by (auto simp: word_unat_eq_iff)
  then show ?thesis
  proof
    assume "(h + 0x1FFFFF) div 0x200000 = 1"
    moreover have "unat (round_page 64) \<le> 0x1000" by code_simp
    ultimately show ?thesis by simp
  next
    assume "(h + 0x1FFFFF) div 0x200000 = 0"
    moreover have "unat (round_page 0) \<le> 0x1000" by code_simp
    ultimately show ?thesis by simp
  qed
qed

lemma demo_reserv:
  "\<forall>va e h. h \<le> 0x30000 \<and> 0x1000 \<le> unat e \<longrightarrow>
    unat e \<le> unat (fst (vm_reserv_startup demo_boot va e h)) + 0x1000 \<and> fst (vm_reserv_startup demo_boot va e h) \<le> e"
proof (intro allI impI)
  fix va e h :: u64
  assume h: "h \<le> 0x30000 \<and> 0x1000 \<le> unat e"
  define z where "z = round_page ((h + 0x1FFFFF) div 0x200000 * 64)"
  have z: "unat z \<le> 0x1000" using demo_reserv_size h by (simp add: z_def)
  then have "unat (e - z) = unat e - unat z" using h by (intro unat_minus) (simp add: word_le_nat_alt)
  moreover have "fst (vm_reserv_startup demo_boot va e h) = e - z" by (simp add: demo_boot_def z_def)
  ultimately show "unat e \<le> unat (fst (vm_reserv_startup demo_boot va e h)) + 0x1000 \<and> fst (vm_reserv_startup demo_boot va e h) \<le> e"
    using z by (simp add: word_le_nat_alt)
qed


end
