(* ===== verification/Vm_Boot_Props.thy ===== *)
theory Vm_Boot_Props
  imports Vm_Startup_Props
begin

text \<open>
  What the set-up of the segments leaves behind (\<open>vm_page_startup\<close> of \<open>src/asgn3/vm/vm_page.c\<close>): memory
  is in order, in the sense of \<open>mem_ok\<close> that the allocation of pages starts from and keeps.
\<close>

section \<open>Segments\<close>

definition npages_of :: "phys_seg \<Rightarrow> nat" where
  "npages_of g = (unat (seg_end g) - unat (seg_start g)) div 4096"

definition seg_pids :: "phys_seg \<Rightarrow> pid set" where
  "seg_pids g = {first_page g..<first_page g + npages_of g}"

definition seg_ok :: "phys_seg \<Rightarrow> bool" where
  "seg_ok g \<longleftrightarrow> seg_start g \<le> seg_end g \<and> 4096 dvd unat (seg_start g) \<and> 4096 dvd unat (seg_end g) \<and> npages_of g < 2 ^ 31"

definition segs_ok :: "phys_seg list \<Rightarrow> bool" where
  "segs_ok segs \<longleftrightarrow> (\<forall>g\<in>set segs. seg_ok g) \<and> sorted_wrt (\<lambda>g h. seg_pids g \<inter> seg_pids h = {}) segs"

text \<open>The segments that go to the allocator.\<close>

definition covered :: "chunk list \<Rightarrow> phys_seg \<Rightarrow> bool" where
  "covered av g \<longleftrightarrow> (\<exists>c\<in>set (chunks av). fst c \<le> seg_start g \<and> seg_end g \<le> snd c)"

lemma free_seg_eq:
  "free_seg E B av g b =
    (if covered av g then
      b\<lparr>bt_sys := (bt_sys b)\<lparr>phys := vm_phys_freecnt_adj E (first_page g) (sint (ucast (atop (seg_end g - seg_start g)) :: u32))
           (vm_phys_free_contig B (first_page g) (atop (seg_end g - seg_start g)) (phys (bt_sys b)))\<rparr>,
        bt_page_count := bt_page_count b + ucast (atop (seg_end g - seg_start g)),
        vmd_page_count := (vmd_page_count b)(seg_domain g := vmd_page_count b (seg_domain g) + ucast (atop (seg_end g - seg_start g))),
        vmd_segs := (vmd_segs b)(seg_domain g := vmd_segs b (seg_domain g) OR push_bit (nat (segind (pg (bt_sys b) (first_page g)))) 1)\<rparr>
     else b)"
proof -
  have "(\<exists>c\<in>set (chunks av). \<not> (seg_start g < fst c \<or> seg_end g > snd c)) \<longleftrightarrow> covered av g"
    by (auto simp: covered_def not_less)
  then show ?thesis by (simp add: free_seg_def Let_def)
qed

lemma seg_count:
  assumes "seg_ok g"
  shows "unat (atop (seg_end g - seg_start g)) = npages_of g"
    "sint (ucast (atop (seg_end g - seg_start g)) :: u32) = int (npages_of g)"
    "(ucast (atop (seg_end g - seg_start g)) :: u32) = of_nat (npages_of g)"
    "length (pages_between (seg_start g) (seg_end g)) = npages_of g"
proof -
  have le: "unat (seg_start g) \<le> unat (seg_end g)" "4096 dvd unat (seg_end g) - unat (seg_start g)"
    using assms by (auto simp: seg_ok_def word_le_nat_alt)
  have s: "npages_of g < 2 ^ 31" using assms by (simp add: seg_ok_def)
  show u: "unat (atop (seg_end g - seg_start g)) = npages_of g"
    using le unfolding atop_def unat_drop_bit_div by (simp add: npages_of_def unat_minus word_le_nat_alt)
  show c: "(ucast (atop (seg_end g - seg_start g)) :: u32) = of_nat (npages_of g)"
    unfolding u [symmetric] of_nat_unat by (rule refl)
  show "sint (ucast (atop (seg_end g - seg_start g)) :: u32) = int (npages_of g)"
    unfolding c using s by (simp add: signed_of_nat signed_take_bit_int_eq_self)
  obtain k where "unat (seg_end g) - unat (seg_start g) = 4096 * k" using le(2) by (rule dvdE)
  then show "length (pages_between (seg_start g) (seg_end g)) = npages_of g"
    by (simp add: pages_between_def npages_of_def PAGE_SIZE_def)
qed

lemma seg_page_addr:
  assumes "seg_ok g" "j < npages_of g"
  shows "unat (pages_between (seg_start g) (seg_end g) ! j) = unat (seg_start g) + j * 4096"
proof -
  have "j < length (pages_between (seg_start g) (seg_end g))" using assms seg_count(4) by simp
  then have e: "pages_between (seg_start g) (seg_end g) ! j = seg_start g + of_nat j * PAGE"
    by (simp add: pages_between_def)
  have "(j + 1) * 4096 \<le> npages_of g * 4096" using assms(2) by (intro mult_le_mono1) simp
  also have "\<dots> \<le> unat (seg_end g) - unat (seg_start g)" by (simp add: npages_of_def)
  finally have j: "j * 4096 + 4096 \<le> unat (seg_end g) - unat (seg_start g)" by simp
  then have b: "unat (seg_start g) + j * 4096 < 2 ^ 64" "j * 4096 < 2 ^ 64" using u64_bound [of "seg_end g"] by linarith+
  have "seg_start g + of_nat j * PAGE = of_nat (unat (seg_start g) + j * 4096)"
    by (simp add: PAGE_def PAGE_SIZE_def)
  then show ?thesis using b(1) unfolding e by (simp only: unat_of_nat) simp
qed

section \<open>The pages of a segment\<close>

lemma fold_init:
  "fold (\<lambda>(m, pa) P. upd_pg P m (f pa)) (zip [a..<a + length xs] xs) P m =
    (if a \<le> m \<and> m < a + length xs then f (xs ! (m - a)) (P m) else P m)"
proof (induction xs arbitrary: a P)
  case (Cons x xs)
  have z: "[a..<a + length (x # xs)] = a # [Suc a..<Suc a + length xs]" by (subst upt_conv_Cons) simp_all
  have "fold (\<lambda>(m, pa) P. upd_pg P m (f pa)) (zip [a..<a + length (x # xs)] (x # xs)) P m =
      fold (\<lambda>(m, pa) P. upd_pg P m (f pa)) (zip [Suc a..<Suc a + length xs] xs) (upd_pg P a (f x)) m"
    unfolding z by simp
  also have "\<dots> = (if Suc a \<le> m \<and> m < Suc a + length xs then f (xs ! (m - Suc a)) (upd_pg P a (f x) m) else upd_pg P a (f x) m)"
    by (rule Cons.IH)
  also have "\<dots> = (if a \<le> m \<and> m < a + length (x # xs) then f ((x # xs) ! (m - a)) (P m) else P m)"
    by (cases "m = a") (auto simp: nth_Cons' upd_pg_def)
  finally show ?case .
qed auto

abbreviation set_up_page :: "'p boot_env \<Rightarrow> nat \<Rightarrow> nat \<Rightarrow> vm_page \<Rightarrow> vm_page" where
  "set_up_page B pa ind \<equiv> vm_page_init_page (pmap_page_init B) (NFREEORDER B) (FREEPOOL B) pa (int ind)"

lemma init_seg:
  assumes "seg_ok g"
  shows "j < npages_of g \<Longrightarrow> init_seg_pages B ind g P (first_page g + j) =
      set_up_page B (unat (seg_start g) + j * 4096) ind (P (first_page g + j))"
    and "m \<notin> seg_pids g \<Longrightarrow> init_seg_pages B ind g P m = P m"
    and "m \<in> seg_pids g \<Longrightarrow> \<exists>pa. init_seg_pages B ind g P m = set_up_page B pa ind (P m)"
proof -
  have e: "init_seg_pages B ind g P m =
      (if m \<in> seg_pids g then set_up_page B (unat (pages_between (seg_start g) (seg_end g) ! (m - first_page g))) ind (P m) else P m)" for m
    unfolding init_seg_pages_def Let_def
    using fold_init [of "\<lambda>pa. set_up_page B (unat pa) ind" "first_page g" "pages_between (seg_start g) (seg_end g)" P m]
    by (simp add: seg_count(4) [OF assms] seg_pids_def)
  show "j < npages_of g \<Longrightarrow> init_seg_pages B ind g P (first_page g + j) =
      set_up_page B (unat (seg_start g) + j * 4096) ind (P (first_page g + j))"
    unfolding e using seg_page_addr [OF assms] by (simp add: seg_pids_def)
  show "m \<notin> seg_pids g \<Longrightarrow> init_seg_pages B ind g P m = P m" by (simp add: e)
  show "m \<in> seg_pids g \<Longrightarrow> \<exists>pa. init_seg_pages B ind g P m = set_up_page B pa ind (P m)" by (auto simp: e)
qed

section \<open>Memory in order\<close>

text \<open>No object and no queue has a page.\<close>

definition bare :: "('r \<Rightarrow> nat \<Rightarrow> pid option) \<Rightarrow> ('r, 'p) vm_sys \<Rightarrow> bool" where
  "bare view s \<longleftrightarrow>
    (\<forall>d q. pq_pl (vmd s d q) = [] \<and> pq_cnt (vmd s d q) = 0) \<and>
    (\<forall>ob i. memq (objs s ob) = [] \<and> resident_page_count (objs s ob) = 0 \<and> view (rtree (objs s ob)) i = None)"

text \<open>The page names no object and no queue.\<close>

definition nowhere :: "vm_page \<Rightarrow> bool" where
  "nowhere x \<longleftrightarrow> object x = None \<and> queue x = PQ_NONE"

lemma bare_mem_ok:
  assumes "bare view s" "\<forall>m. nowhere (pg s m)" "\<forall>m\<in>avail (phys s). fresh (pg s m)" "finite (avail (phys s))"
    "v_free_count E (phys s) = card (avail (phys s))"
  shows "mem_ok E view avail s"
  using assms by (auto simp: mem_ok_def queues_ok_def objs_ok_def object_ok_def bare_def nowhere_def)

text \<open>
  What is documented of the allocator: setting the count of free pages to 0 frees no page, freeing a
  run of pages makes them free, and the count is adjusted by what is asked. Of the machine: the page's
  part of the mappings starts with the default memory attribute, and nothing else of the page changes.
\<close>

definition boot_laws :: "('r, 'p) vm_env \<Rightarrow> 'p boot_env \<Rightarrow> ('p \<Rightarrow> pid set) \<Rightarrow> bool" where
  "boot_laws E B avail \<longleftrightarrow>
    (\<forall>p. avail (reset_free_count B p) = avail p \<and> v_free_count E (reset_free_count B p) = 0) \<and>
    (\<forall>m n p. {m..<m + unat n} \<inter> avail p = {} \<longrightarrow> avail (vm_phys_free_contig B m n p) = avail p \<union> {m..<m + unat n} \<and>
      v_free_count E (vm_phys_free_contig B m n p) = v_free_count E p) \<and>
    (\<forall>m n p. avail (vm_phys_freecnt_adj E m n p) = avail p \<and>
      v_free_count E (vm_phys_freecnt_adj E m n p) = nat (int (v_free_count E p) + n)) \<and>
    (\<forall>x. pmap_page_init B x = x\<lparr>memattr := VM_MEMATTR_DEFAULT\<rparr>)"

lemma set_up_fresh:
  assumes "boot_laws E B avail"
  shows "fresh (set_up_page B pa ind x)" "phys_addr (set_up_page B pa ind x) = pa" "segind (set_up_page B pa ind x) = int ind"
proof -
  have "pmap_page_init B y = y\<lparr>memattr := VM_MEMATTR_DEFAULT\<rparr>" for y using assms unfolding boot_laws_def by blast
  then show "fresh (set_up_page B pa ind x)" "phys_addr (set_up_page B pa ind x) = pa" "segind (set_up_page B pa ind x) = int ind"
    by (simp_all add: fresh_def vm_page_alloc_check_def vm_page_busied_def vm_page_init_page_def)
qed

lemma fresh_nowhere: "fresh x \<Longrightarrow> nowhere x"
  by (simp add: fresh_def vm_page_alloc_check_def nowhere_def)

definition boot_ok :: "('r, 'p) vm_env \<Rightarrow> ('r \<Rightarrow> nat \<Rightarrow> pid option) \<Rightarrow> ('p \<Rightarrow> pid set) \<Rightarrow> ('r, 'p) boot_state \<Rightarrow> bool" where
  "boot_ok E view avail b \<longleftrightarrow> bare view (bt_sys b) \<and> (\<forall>m\<in>avail (phys (bt_sys b)). fresh (pg (bt_sys b) m)) \<and>
    finite (avail (phys (bt_sys b))) \<and> v_free_count E (phys (bt_sys b)) = card (avail (phys (bt_sys b))) \<and>
    bt_page_count b = of_nat (card (avail (phys (bt_sys b))))"

lemma startup_seg_step:
  assumes laws: "boot_laws E B avail" and g: "seg_ok g" and ok: "boot_ok E view avail b"
    and new: "seg_pids g \<inter> avail (phys (bt_sys b)) = {}"
  shows "boot_ok E view avail (startup_seg E B av (ind, g) b)"
    and "avail (phys (bt_sys (startup_seg E B av (ind, g) b))) = avail (phys (bt_sys b)) \<union> (if covered av g then seg_pids g else {})"
    and "pg (bt_sys (startup_seg E B av (ind, g) b)) = init_seg_pages B ind g (pg (bt_sys b))"
proof -
  define b1 where "b1 = b\<lparr>bt_sys := (bt_sys b)\<lparr>pg := init_seg_pages B ind g (pg (bt_sys b))\<rparr>\<rparr>"
  let ?b' = "startup_seg E B av (ind, g) b" and ?p = "phys (bt_sys b)"
  have b': "?b' = free_seg E B av g b1" by (simp add: startup_seg_def b1_def)
  have b1: "phys (bt_sys b1) = ?p" "bt_page_count b1 = bt_page_count b" by (simp_all add: b1_def)
  note cnt = seg_count [OF g]
  have pids: "{first_page g..<first_page g + unat (atop (seg_end g - seg_start g))} = seg_pids g" by (simp add: cnt seg_pids_def)
  have card: "card (avail ?p \<union> seg_pids g) = card (avail ?p) + npages_of g" "finite (seg_pids g)"
    using new ok by (auto simp: card_Un_disjoint boot_ok_def seg_pids_def Int_commute)
  define q where "q = vm_phys_free_contig B (first_page g) (atop (seg_end g - seg_start g)) ?p"
  have q: "avail q = avail ?p \<union> seg_pids g" "v_free_count E q = v_free_count E ?p"
    using laws new unfolding boot_laws_def q_def by (metis pids)+
  have r: "avail (vm_phys_freecnt_adj E m n q) = avail q" "v_free_count E (vm_phys_freecnt_adj E m n q) = nat (int (v_free_count E q) + n)" for m n
    using laws unfolding boot_laws_def by blast+
  have fields: "pg (bt_sys ?b') = init_seg_pages B ind g (pg (bt_sys b))" "vmd (bt_sys ?b') = vmd (bt_sys b)" "objs (bt_sys ?b') = objs (bt_sys b)"
    by (simp_all add: b' free_seg_eq) (simp_all add: b1_def)
  show "pg (bt_sys ?b') = init_seg_pages B ind g (pg (bt_sys b))" by (rule fields(1))
  show av: "avail (phys (bt_sys ?b')) = avail ?p \<union> (if covered av g then seg_pids g else {})"
    by (simp add: b' free_seg_eq b1 q_def [symmetric] r q)
  have bl': "bare view (bt_sys ?b')" using ok by (simp add: boot_ok_def bare_def fields(2,3))
  have "fresh (pg (bt_sys ?b') m)" if "m \<in> avail (phys (bt_sys ?b'))" for m
  proof (cases "m \<in> seg_pids g")
    case True
    then obtain pa where "pg (bt_sys ?b') m = set_up_page B pa ind (pg (bt_sys b) m)" using init_seg(3) [OF g] fields(1) by metis
    then show ?thesis by (simp add: set_up_fresh(1) [OF laws])
  next
    case False
    then have "pg (bt_sys ?b') m = pg (bt_sys b) m" using init_seg(2) [OF g] by (simp add: fields(1))
    moreover have "m \<in> avail ?p" using that False by (simp add: av split: if_splits)
    ultimately show ?thesis using ok by (simp add: boot_ok_def)
  qed
  moreover have "v_free_count E (phys (bt_sys ?b')) = card (avail (phys (bt_sys ?b')))"
    using ok card(1) by (simp add: av) (simp add: b' free_seg_eq b1 q_def [symmetric] r q cnt(2) boot_ok_def nat_add_distrib)
  moreover have "bt_page_count ?b' = of_nat (card (avail (phys (bt_sys ?b'))))"
    using ok card(1) by (simp add: av) (simp add: b' free_seg_eq b1 cnt boot_ok_def)
  moreover have "finite (avail (phys (bt_sys ?b')))" using ok card(2) by (simp add: av boot_ok_def)
  ultimately show "boot_ok E view avail ?b'" using bl' by (simp add: boot_ok_def)
qed

lemma startup_fold:
  assumes laws: "boot_laws E B avail"
  shows "segs_ok segs \<Longrightarrow> boot_ok E view avail b \<Longrightarrow> \<forall>g\<in>set segs. seg_pids g \<inter> avail (phys (bt_sys b)) = {} \<Longrightarrow>
    b' = fold (startup_seg E B av) (List.enumerate ind segs) b \<Longrightarrow>
    boot_ok E view avail b' \<and>
    avail (phys (bt_sys b')) = avail (phys (bt_sys b)) \<union> \<Union> (seg_pids ` {g \<in> set segs. covered av g}) \<and>
    (\<forall>m. m \<notin> \<Union> (seg_pids ` set segs) \<longrightarrow> pg (bt_sys b') m = pg (bt_sys b) m) \<and>
    (\<forall>k<length segs. \<forall>j<npages_of (segs ! k). \<exists>x. pg (bt_sys b') (first_page (segs ! k) + j) =
      set_up_page B (unat (seg_start (segs ! k)) + j * 4096) (ind + k) x)"
proof (induction segs arbitrary: ind b)
  case (Cons g segs)
  have g: "seg_ok g" "segs_ok segs" "\<forall>h\<in>set segs. seg_pids g \<inter> seg_pids h = {}" "seg_pids g \<inter> avail (phys (bt_sys b)) = {}"
    using Cons.prems by (auto simp: segs_ok_def)
  let ?c = "startup_seg E B av (ind, g) b"
  note S = startup_seg_step [OF laws g(1) Cons.prems(2) g(4), of av ind]
  have d: "\<forall>h\<in>set segs. seg_pids h \<inter> avail (phys (bt_sys ?c)) = {}"
    using Cons.prems(3) g(3) by (auto simp: S(2))
  have "b' = fold (startup_seg E B av) (List.enumerate (Suc ind) segs) ?c" using Cons.prems(4) by simp
  note I = Cons.IH [OF g(2) S(1) d this]
  have "\<exists>x. pg (bt_sys b') (first_page ((g # segs) ! k) + j) =
      set_up_page B (unat (seg_start ((g # segs) ! k)) + j * 4096) (ind + k) x"
    if k: "k < length (g # segs)" and j: "j < npages_of ((g # segs) ! k)" for k j
  proof (cases k)
    case 0
    have "first_page g + j \<in> seg_pids g" using j 0 by (simp add: seg_pids_def)
    then have "first_page g + j \<notin> \<Union> (seg_pids ` set segs)" using g(3) by blast
    then have "pg (bt_sys b') (first_page g + j) = init_seg_pages B ind g (pg (bt_sys b)) (first_page g + j)"
      using I unfolding S(3) by blast
    then show ?thesis using init_seg(1) [OF g(1), of j B ind "pg (bt_sys b)"] j 0 by auto
  next
    case (Suc k')
    then show ?thesis using I k j by auto
  qed
  moreover have "pg (bt_sys b') m = pg (bt_sys b) m" if "m \<notin> \<Union> (seg_pids ` set (g # segs))" for m
    using that I init_seg(2) [OF g(1), of m] by (simp add: S(3))
  moreover have "avail (phys (bt_sys b')) = avail (phys (bt_sys b)) \<union> \<Union> (seg_pids ` {h \<in> set (g # segs). covered av h})"
    using I by (auto simp: S(2))
  ultimately show ?case using I by blast
qed simp

lemma boot_memory_ok:
  assumes laws: "boot_laws E B avail" and b: "bare view (bt_sys b)" "avail (phys (bt_sys b)) = {}" and segs: "segs_ok segs"
    and out: "\<forall>m. m \<notin> \<Union> (seg_pids ` set segs) \<longrightarrow> nowhere (pg (bt_sys b) m)"
    and b': "b' = startup_segs E B av segs b"
  shows "mem_ok E view avail (bt_sys b')"
    and "avail (phys (bt_sys b')) = \<Union> (seg_pids ` {g \<in> set segs. covered av g})"
    and "bt_page_count b' = of_nat (card (avail (phys (bt_sys b'))))"
    and "k < length segs \<Longrightarrow> j < npages_of (segs ! k) \<Longrightarrow>
      fresh (pg (bt_sys b') (first_page (segs ! k) + j)) \<and>
      phys_addr (pg (bt_sys b') (first_page (segs ! k) + j)) = unat (seg_start (segs ! k)) + j * 4096 \<and>
      segind (pg (bt_sys b') (first_page (segs ! k) + j)) = int k"
proof -
  let ?b0 = "b\<lparr>bt_page_count := 0, bt_sys := (bt_sys b)\<lparr>phys := reset_free_count B (phys (bt_sys b))\<rparr>\<rparr>"
  have r: "avail (reset_free_count B (phys (bt_sys b))) = {}" "v_free_count E (reset_free_count B (phys (bt_sys b))) = 0"
    using laws b(2) unfolding boot_laws_def by metis+
  have ok0: "boot_ok E view avail ?b0" using b(1) by (simp add: boot_ok_def r bare_def)
  have "\<forall>g\<in>set segs. seg_pids g \<inter> avail (phys (bt_sys ?b0)) = {}" by (simp add: r)
  note F = startup_fold [OF laws segs ok0 this, of b' av 0]
  have fold: "b' = fold (startup_seg E B av) (List.enumerate 0 segs) ?b0" by (simp add: b' startup_segs_def)
  have page: "fresh (pg (bt_sys b') (first_page (segs ! k) + j)) \<and>
      phys_addr (pg (bt_sys b') (first_page (segs ! k) + j)) = unat (seg_start (segs ! k)) + j * 4096 \<and>
      segind (pg (bt_sys b') (first_page (segs ! k) + j)) = int k"
    if k: "k < length segs" and j: "j < npages_of (segs ! k)" for k j
  proof -
    obtain x where "pg (bt_sys b') (first_page (segs ! k) + j) = set_up_page B (unat (seg_start (segs ! k)) + j * 4096) (0 + k) x"
      using F [OF fold] k j by blast
    then show ?thesis by (simp add: set_up_fresh [OF laws])
  qed
  have "nowhere (pg (bt_sys b') m)" for m
  proof (cases "m \<in> \<Union> (seg_pids ` set segs)")
    case True
    then obtain k where k: "k < length segs" "m \<in> seg_pids (segs ! k)" by (auto simp: in_set_conv_nth)
    then obtain j where "j < npages_of (segs ! k)" "m = first_page (segs ! k) + j"
      unfolding seg_pids_def by (metis atLeastLessThan_iff le_Suc_ex nat_add_left_cancel_less)
    then show ?thesis using page k(1) fresh_nowhere by blast
  next
    case False
    then have "pg (bt_sys b') m = pg (bt_sys ?b0) m" using F [OF fold] by blast
    then show ?thesis using out False by simp
  qed
  then show "mem_ok E view avail (bt_sys b')" using F [OF fold] unfolding boot_ok_def by (intro bare_mem_ok) blast+
  show "avail (phys (bt_sys b')) = \<Union> (seg_pids ` {g \<in> set segs. covered av g})" using F [OF fold] by (simp add: r)
  show "bt_page_count b' = of_nat (card (avail (phys (bt_sys b'))))" using F [OF fold] by (simp add: boot_ok_def)
  assume "k < length segs" "j < npages_of (segs ! k)"
  then show "fresh (pg (bt_sys b') (first_page (segs ! k) + j)) \<and>
      phys_addr (pg (bt_sys b') (first_page (segs ! k) + j)) = unat (seg_start (segs ! k)) + j * 4096 \<and>
      segind (pg (bt_sys b') (first_page (segs ! k) + j)) = int k"
    by (rule page)
qed

section \<open>Properties\<close>

text \<open>
  C18: After the segments are set up at boot memory is in order: no queue or object holds a page, the
  free pages are those of the segments that lie in a chunk of available memory, and the count of free
  pages is their number, as is the count of pages; every page of every segment, free or not, is as
  allocation expects a free page, whatever the memory held that the page array was put into, and knows
  its physical address and its segment. This needs that the segments are whole pages, none of more
  than \<open>INT_MAX\<close>, with pages of their own; the documented behaviour of the allocator and of
  \<open>pmap_page_init\<close>; and of the state before, that the lists of the queues and the objects are empty and no page
  is free. A number that is not in any segment stands for no page: it is taken to be in no object and no queue.
\<close>

theorem boot_memory_in_order:
  assumes "boot_laws E B avail" "bare view (bt_sys b)" "avail (phys (bt_sys b)) = {}" "segs_ok segs"
    and "\<forall>m. m \<notin> \<Union> (seg_pids ` set segs) \<longrightarrow> nowhere (pg (bt_sys b) m)"
    and "b' = startup_segs E B av segs b"
  shows "mem_ok E view avail (bt_sys b') \<and>
    avail (phys (bt_sys b')) = \<Union> (seg_pids ` {g \<in> set segs. covered av g}) \<and>
    bt_page_count b' = of_nat (card (avail (phys (bt_sys b')))) \<and>
    (\<forall>k<length segs. \<forall>j<npages_of (segs ! k).
      fresh (pg (bt_sys b') (first_page (segs ! k) + j)) \<and>
      phys_addr (pg (bt_sys b') (first_page (segs ! k) + j)) = unat (seg_start (segs ! k)) + j * 4096 \<and>
      segind (pg (bt_sys b') (first_page (segs ! k) + j)) = int k)"
  using boot_memory_ok [OF assms] by blast

text \<open>Two segments, of which a chunk covers the first; their pages hold what an earlier use of the memory left.\<close>

definition list_boot :: "(pid list \<times> nat) boot_env" where
  "list_boot = \<lparr>dense = False, sizeof_vm_page = 104, sizeof_uma_zone = 384, sizeof_uma_cache = 64, sizeof_uma_slab = 112,
    UMA_SLAB_SIZE = 4096, UMA_BOOT_PAGES_ZONES = 16, mp_maxid = 3, tunable_boot_pages = None,
    dump_avail = [], msgbuf = (0x3000, 0x1000), boot_segs = [],
    pmap_map = (\<lambda>va s e. (s, va)), vm_reserv_startup = (\<lambda>va e h. (e, va)),
    vm_phys_setup = (\<lambda>cs p. ([], p)), reset_free_count = (\<lambda>(l, c). (l, 0)),
    vm_phys_free_contig = (\<lambda>m n (l, c). ([m..<m + unat n] @ l, c)),
    vm_reserv_init = (\<lambda>p. p), pmap_page_init = (\<lambda>x. x\<lparr>memattr := VM_MEMATTR_DEFAULT\<rparr>), NFREEORDER = 12, FREEPOOL = 0\<rparr>"

lemma list_boot_laws: "boot_laws env1 list_boot avail1"
  by (auto simp: boot_laws_def list_boot_def env1_def avail1_def)

definition boot_start :: "((nat \<times> pid) list, pid list \<times> nat) boot_state" where
  "boot_start = \<lparr>bt_sys = (sys mem1)\<lparr>phys := ([], 9),
      pg := (\<lambda>m. if m < 20 then page0\<lparr>object := Some 7, queue := PQ_ACTIVE, wire_count := 3, hold_count := 1\<rparr> else page0)\<rparr>,
    bt_page_count = 5, vmd_page_count = (\<lambda>d. 0), vmd_segs = (\<lambda>d. 0)\<rparr>"

definition two_segs :: "phys_seg list" where
  "two_segs = [\<lparr>seg_start = 0x1000, seg_end = 0x5000, first_page = 0, seg_domain = 0\<rparr>,
    \<lparr>seg_start = 0x10000, seg_end = 0x20000, first_page = 4, seg_domain = 0\<rparr>]"

lemma two_segs_pids: "\<Union> (seg_pids ` set two_segs) = {0..<20}"
  by (auto simp: two_segs_def seg_pids_def npages_of_def)

theorem boot_memory_in_order_witness:
  "\<exists>b'. b' = startup_segs env1 list_boot [(0x1000, 0x5000), (0, 0)] two_segs boot_start \<and>
    mem_ok env1 map_of avail1 (bt_sys b') \<and> avail1 (phys (bt_sys b')) = {0..<4} \<and> bt_page_count b' = 4"
proof -
  let ?b' = "startup_segs env1 list_boot [(0x1000, 0x5000), (0, 0)] two_segs boot_start"
  have "bare map_of (bt_sys boot_start)" "avail1 (phys (bt_sys boot_start)) = {}"
    by (simp_all add: bare_def boot_start_def mem1_def avail1_def)
  moreover have "segs_ok two_segs" by (simp add: segs_ok_def two_segs_def seg_ok_def npages_of_def seg_pids_def)
  moreover have "\<forall>m. m \<notin> \<Union> (seg_pids ` set two_segs) \<longrightarrow> nowhere (pg (bt_sys boot_start) m)"
    unfolding two_segs_pids by (simp add: boot_start_def nowhere_def page0_def)
  ultimately have T: "mem_ok env1 map_of avail1 (bt_sys ?b')"
    "avail1 (phys (bt_sys ?b')) = \<Union> (seg_pids ` {g \<in> set two_segs. covered [(0x1000, 0x5000), (0, 0)] g})"
    "bt_page_count ?b' = of_nat (card (avail1 (phys (bt_sys ?b'))))"
    using boot_memory_in_order [OF list_boot_laws _ _ _ _ refl, of map_of boot_start two_segs "[(0x1000, 0x5000), (0, 0)]"] by simp_all
  have "{g \<in> set two_segs. covered [(0x1000, 0x5000), (0, 0)] g} = {hd two_segs}"
    by (auto simp: two_segs_def covered_def chunks_def)
  then have "avail1 (phys (bt_sys ?b')) = {0..<4}" unfolding T(2) by (simp add: two_segs_def seg_pids_def npages_of_def)
  then show ?thesis using T(1,3) by simp
qed

end
