(* ===== verification/Vm_Relock.thy ===== *)
theory Vm_Relock
  imports Vm_Types
begin

text \<open>
  Changing from the lock of one physical address to that of another while a pmap is locked
  (\<open>vm_page_pa_tryrelock\<close> of \<open>src/asgn3/vm/vm_page.c\<close>, with the hash of \<open>vm_page.h\<close>). The order of locks is
  a page's lock before the pmap's, so that a page's lock may only be tried while the pmap is locked,
  unless the pmap is let go.

  The state has what the thread holds, and for every lock that it waited for, what it held
  meanwhile. Whether a trial succeeds is the answer of the other threads, an argument; \<open>PDRSHIFT\<close> and
  \<open>PA_LOCK_COUNT\<close> are machine-dependent.
\<close>

section \<open>The operation\<close>

datatype vm_lock = Pa_lock nat | Pmap_lock

record relock =
  rl_held :: "vm_lock set"
  rl_waits :: "(vm_lock \<times> vm_lock set) list"
  pa_tryrelock_restart :: u32

record pa_hash =
  PDRSHIFT :: nat
  PA_LOCK_COUNT :: nat

definition PA_LOCKPTR :: "pa_hash \<Rightarrow> u64 \<Rightarrow> vm_lock" where
  "PA_LOCKPTR H pa = Pa_lock (unat (drop_bit (PDRSHIFT H) pa) mod PA_LOCK_COUNT H)"

definition rl_lock :: "vm_lock \<Rightarrow> relock \<Rightarrow> relock" where
  "rl_lock l s = s\<lparr>rl_held := insert l (rl_held s), rl_waits := rl_waits s @ [(l, rl_held s)]\<rparr>"

definition rl_trylock :: "bool \<Rightarrow> vm_lock \<Rightarrow> relock \<Rightarrow> relock" where
  "rl_trylock free l s = (if free then s\<lparr>rl_held := insert l (rl_held s)\<rparr> else s)"

definition rl_unlock :: "vm_lock \<Rightarrow> relock \<Rightarrow> relock" where
  "rl_unlock l s = s\<lparr>rl_held := rl_held s - {l}\<rparr>"

definition EAGAIN :: int where "EAGAIN = 35"

definition vm_page_pa_tryrelock :: "pa_hash \<Rightarrow> bool \<Rightarrow> u64 \<Rightarrow> u64 \<Rightarrow> relock \<Rightarrow> int \<times> u64 \<times> relock" where
  "vm_page_pa_tryrelock H free pa locked s =
    (let lockpa = locked in
     if lockpa \<noteq> 0 \<and> PA_LOCKPTR H pa = PA_LOCKPTR H lockpa then (0, pa, s)
     else
      (let s1 = (if lockpa \<noteq> 0 then rl_unlock (PA_LOCKPTR H lockpa) s else s)
       in if free then (0, pa, rl_trylock True (PA_LOCKPTR H pa) s1)
          else
           (let s2 = rl_unlock Pmap_lock s1;
                s3 = s2\<lparr>pa_tryrelock_restart := pa_tryrelock_restart s2 + 1\<rparr>
            in (EAGAIN, pa, rl_lock Pmap_lock (rl_lock (PA_LOCKPTR H pa) s3)))))"

text \<open>A caller that comes to one address after the other.\<close>

fun relocks :: "pa_hash \<Rightarrow> (bool \<times> u64) list \<Rightarrow> u64 \<Rightarrow> relock \<Rightarrow> u64 \<times> relock" where
  "relocks H [] locked s = (locked, s)"
| "relocks H ((free, pa) # pas) locked s =
    (case vm_page_pa_tryrelock H free pa locked s of (_, locked', s') \<Rightarrow> relocks H pas locked' s')"

section \<open>Which locks are held\<close>

definition relock_ok :: "pa_hash \<Rightarrow> u64 \<Rightarrow> relock \<Rightarrow> bool" where
  "relock_ok H locked s \<longleftrightarrow>
    rl_held s = insert Pmap_lock (if locked = 0 then {} else {PA_LOCKPTR H locked}) \<and>
    (\<forall>(l, h)\<in>set (rl_waits s). case l of Pa_lock _ \<Rightarrow> h = {} | Pmap_lock \<Rightarrow> Pmap_lock \<notin> h)"

lemma page_lock_not_pmap [simp]: "PA_LOCKPTR H pa \<noteq> Pmap_lock" "Pmap_lock \<noteq> PA_LOCKPTR H pa"
  by (simp_all add: PA_LOCKPTR_def)

lemma tryrelock_ok:
  assumes ok: "relock_ok H locked s" and pa: "pa \<noteq> 0" and r: "vm_page_pa_tryrelock H free pa locked s = (err, locked', s')"
  shows "relock_ok H locked' s' \<and> locked' = pa \<and> (err = EAGAIN \<longleftrightarrow> rl_waits s' \<noteq> rl_waits s) \<and>
    pa_tryrelock_restart s' = pa_tryrelock_restart s + (if err = EAGAIN then 1 else 0)"
proof -
  obtain k where k: "PA_LOCKPTR H pa = Pa_lock k" by (simp add: PA_LOCKPTR_def)
  note defs = vm_page_pa_tryrelock_def Let_def relock_ok_def rl_lock_def rl_trylock_def rl_unlock_def EAGAIN_def
  show ?thesis
  proof (cases "locked \<noteq> 0 \<and> PA_LOCKPTR H pa = PA_LOCKPTR H locked")
    case True
    then show ?thesis using ok pa r by (auto simp: defs)
  next
    case False
    then show ?thesis using ok pa r k by (cases free) (auto simp: defs split: if_splits)
  qed
qed

text \<open>
  Whatever the addresses and the outcomes of the trials, a caller ends with the pmap's lock and the
  lock of the last address, and never waited for a lock out of order.
\<close>

lemma relocks_in_order:
  "relock_ok H locked s \<Longrightarrow> \<forall>(free, pa)\<in>set pas. pa \<noteq> 0 \<Longrightarrow> relocks H pas locked s = (locked', s') \<Longrightarrow>
    relock_ok H locked' s' \<and> locked' = last (locked # map snd pas)"
proof (induction H pas locked s rule: relocks.induct)
  case (2 H free pa pas locked s)
  obtain err l1 s1 where r: "vm_page_pa_tryrelock H free pa locked s = (err, l1, s1)"
    by (cases "vm_page_pa_tryrelock H free pa locked s") auto
  have "relock_ok H l1 s1" "l1 = pa" using tryrelock_ok [OF "2.prems"(1) _ r] "2.prems"(2) by auto
  moreover have "relocks H pas l1 s1 = (locked', s')" using "2.prems"(3) by (simp add: r)
  ultimately show ?case using "2.IH" [OF r [symmetric] refl] "2.prems"(2) by auto
qed simp

end
