(* ===== verification/Sched_Locks.thy ===== *)
theory Sched_Locks
  imports Prelude
begin

text \<open>
  The locks of the thread queues (\<open>tdq_lock_pair\<close> and \<open>tdq_unlock_pair\<close> of
  \<open>src/asgn2/kern/sched_ule.c\<close>). The queues are the elements of one array, so that comparing the
  pointers is comparing their indices. Any number of processors lock pairs of queues; a step is the
  taking or the release of one lock. That the pair is locked in the order of the array is the
  interface \<open>ordered_locking\<close>, and it is all that the absence of deadlock rests on.
\<close>

section \<open>The operations\<close>

definition tdq_lock_pair :: "nat \<Rightarrow> nat \<Rightarrow> nat \<times> nat" where
  "tdq_lock_pair one two = (if one < two then (one, two) else (two, one))"

text \<open>
  Where a processor is: outside, about to take the first of two locks or the second, in possession of
  both, or about to release the last.
\<close>

datatype lock_pc = Outside | Wants nat nat | Has_first nat nat | Has_both nat nat | Has_last nat

record lock_sys =
  lk_owner :: "nat \<Rightarrow> nat option"
  lk_pc :: "nat \<Rightarrow> lock_pc"

inductive lock_step :: "(nat \<Rightarrow> nat \<Rightarrow> nat \<times> nat) \<Rightarrow> nat \<Rightarrow> nat \<Rightarrow> lock_sys \<Rightarrow> lock_sys \<Rightarrow> bool" for lock_pair ncpu where
  call: "lk_pc s t = Outside \<Longrightarrow> one < ncpu \<Longrightarrow> two < ncpu \<Longrightarrow> one \<noteq> two \<Longrightarrow> lock_pair one two = (a, b) \<Longrightarrow>
    lock_step lock_pair ncpu t s (s\<lparr>lk_pc := (lk_pc s)(t := Wants a b)\<rparr>)"
| lock_first: "lk_pc s t = Wants a b \<Longrightarrow> lk_owner s a = None \<Longrightarrow>
    lock_step lock_pair ncpu t s (s\<lparr>lk_owner := (lk_owner s)(a := Some t), lk_pc := (lk_pc s)(t := Has_first a b)\<rparr>)"
| lock_second: "lk_pc s t = Has_first a b \<Longrightarrow> lk_owner s b = None \<Longrightarrow>
    lock_step lock_pair ncpu t s (s\<lparr>lk_owner := (lk_owner s)(b := Some t), lk_pc := (lk_pc s)(t := Has_both a b)\<rparr>)"
| unlock: "lk_pc s t = Has_both a b \<Longrightarrow> (x, y) = (a, b) \<or> (x, y) = (b, a) \<Longrightarrow>
    lock_step lock_pair ncpu t s (s\<lparr>lk_owner := (lk_owner s)(x := None), lk_pc := (lk_pc s)(t := Has_last y)\<rparr>)"
| unlock_last: "lk_pc s t = Has_last y \<Longrightarrow>
    lock_step lock_pair ncpu t s (s\<lparr>lk_owner := (lk_owner s)(y := None), lk_pc := (lk_pc s)(t := Outside)\<rparr>)"

inductive_cases lock_stepE: "lock_step lock_pair ncpu t s s'"

definition lock_init :: lock_sys where
  "lock_init = \<lparr>lk_owner = (\<lambda>_. None), lk_pc = (\<lambda>_. Outside)\<rparr>"

inductive lock_reach :: "(nat \<Rightarrow> nat \<Rightarrow> nat \<times> nat) \<Rightarrow> nat \<Rightarrow> lock_sys \<Rightarrow> bool" for lock_pair ncpu where
  start: "lock_reach lock_pair ncpu lock_init"
| next_step: "lock_reach lock_pair ncpu s \<Longrightarrow> lock_step lock_pair ncpu t s s' \<Longrightarrow> lock_reach lock_pair ncpu s'"

text \<open>What is held at each place, and the lock that is waited for.\<close>

fun locks_held :: "lock_pc \<Rightarrow> nat set" where
  "locks_held Outside = {}"
| "locks_held (Wants a b) = {}"
| "locks_held (Has_first a b) = {a}"
| "locks_held (Has_both a b) = {a, b}"
| "locks_held (Has_last y) = {y}"

fun waits_for :: "lock_pc \<Rightarrow> nat option" where
  "waits_for (Wants a b) = Some a"
| "waits_for (Has_first a b) = Some b"
| "waits_for _ = None"

section \<open>Locking in order\<close>

locale ordered_locking =
  fixes lock_pair :: "nat \<Rightarrow> nat \<Rightarrow> nat \<times> nat"
  assumes ascending: "a \<noteq> b \<Longrightarrow> fst (lock_pair a b) < snd (lock_pair a b)"
    and same_pair: "{fst (lock_pair a b), snd (lock_pair a b)} = {a, b}"
begin

definition pc_ok :: "nat \<Rightarrow> lock_pc \<Rightarrow> bool" where
  "pc_ok ncpu p = (case p of Outside \<Rightarrow> True | Wants a b \<Rightarrow> a < b \<and> b < ncpu | Has_first a b \<Rightarrow> a < b \<and> b < ncpu
    | Has_both a b \<Rightarrow> a < b \<and> b < ncpu | Has_last y \<Rightarrow> y < ncpu)"

definition locks_ok :: "nat \<Rightarrow> lock_sys \<Rightarrow> bool" where
  "locks_ok ncpu s \<longleftrightarrow> (\<forall>t. pc_ok ncpu (lk_pc s t)) \<and> (\<forall>t q. lk_owner s q = Some t \<longleftrightarrow> q \<in> locks_held (lk_pc s t))"

lemma free_lock: "locks_ok ncpu s \<Longrightarrow> lk_owner s q = None \<Longrightarrow> q \<notin> locks_held (lk_pc s u)"
  unfolding locks_ok_def by (metis option.distinct(1))

lemma one_owner: "locks_ok ncpu s \<Longrightarrow> q \<in> locks_held (lk_pc s t) \<Longrightarrow> q \<in> locks_held (lk_pc s u) \<Longrightarrow> u = t"
  unfolding locks_ok_def by (metis option.inject)

lemma step_ok: "lock_step lock_pair ncpu t s s' \<Longrightarrow> locks_ok ncpu s \<Longrightarrow> locks_ok ncpu s'"
proof (induction rule: lock_step.induct)
  case (call s t one two a b)
  then have "a < b" "b < ncpu" using ascending [of one two] same_pair [of one two] by auto
  then show ?case using call by (auto simp: locks_ok_def pc_ok_def)
next
  case (lock_first s t a b)
  then have "a < b" "b < ncpu" by (auto simp: locks_ok_def pc_ok_def dest!: spec [of _ t])
  moreover have "a \<notin> locks_held (lk_pc s u)" for u using lock_first free_lock by blast
  ultimately show ?case using lock_first by (auto simp: locks_ok_def pc_ok_def)
next
  case (lock_second s t a b)
  then have "a < b" "b < ncpu" by (auto simp: locks_ok_def pc_ok_def dest!: spec [of _ t])
  moreover have "b \<notin> locks_held (lk_pc s u)" for u using lock_second free_lock by blast
  ultimately show ?case using lock_second by (auto simp: locks_ok_def pc_ok_def)
next
  case (unlock s t a b x y)
  then have "a < b" "b < ncpu" by (auto simp: locks_ok_def pc_ok_def dest!: spec [of _ t])
  moreover have "u = t" if "a \<in> locks_held (lk_pc s u) \<or> b \<in> locks_held (lk_pc s u)" for u
    using that one_owner [OF unlock(3), of _ t u] unlock(1) by auto
  ultimately show ?case using unlock by (auto simp: locks_ok_def pc_ok_def)
next
  case (unlock_last s t y)
  then have "u = t" if "y \<in> locks_held (lk_pc s u)" for u using that one_owner [OF unlock_last(2), of y t u] by auto
  then show ?case using unlock_last by (auto simp: locks_ok_def pc_ok_def)
qed

lemma reach_ok: "lock_reach lock_pair ncpu s \<Longrightarrow> locks_ok ncpu s"
proof (induction rule: lock_reach.induct)
  case start
  then show ?case by (simp add: lock_init_def locks_ok_def pc_ok_def)
qed (rule step_ok)

lemma goes_on:
  assumes "lk_pc s t \<noteq> Outside" "\<forall>q. waits_for (lk_pc s t) = Some q \<longrightarrow> lk_owner s q = None"
  shows "\<exists>s'. lock_step lock_pair ncpu t s s'"
  using assms by (cases "lk_pc s t") (auto intro: lock_step.intros)

lemma someone_goes_on:
  assumes reach: "lock_reach lock_pair ncpu s" and t: "lk_pc s t \<noteq> Outside"
  shows "\<exists>u s'. lk_pc s u \<noteq> Outside \<and> lock_step lock_pair ncpu u s s'"
proof (rule ccontr)
  assume none: "\<not> ?thesis"
  have ok: "locks_ok ncpu s" by (rule reach_ok [OF reach])
  define W where "W = {q. lk_owner s q \<noteq> None \<and> (\<exists>u. waits_for (lk_pc s u) = Some q)}"
  have stuck: "\<exists>q\<in>W. waits_for (lk_pc s u) = Some q" if "lk_pc s u \<noteq> Outside" for u
  proof -
    have "\<not> (\<forall>q. waits_for (lk_pc s u) = Some q \<longrightarrow> lk_owner s q = None)" using goes_on [OF that, of ncpu] none that by blast
    then show ?thesis unfolding W_def by blast
  qed
  have "q < ncpu" if "waits_for (lk_pc s u) = Some q" for u q
    using that ok by (cases "lk_pc s u") (auto simp: locks_ok_def pc_ok_def dest!: spec [of _ u])
  then have fin: "finite W" by (auto simp: W_def intro: finite_subset [of _ "{..<ncpu}"])
  have "W \<noteq> {}" using stuck [OF t] by auto
  then have "Max W \<in> W" using fin by (rule Max_in [rotated])
  then obtain u where u: "lk_owner s (Max W) = Some u" by (auto simp: W_def)
  then have held: "Max W \<in> locks_held (lk_pc s u)" using ok by (simp add: locks_ok_def)
  then have "lk_pc s u \<noteq> Outside" by auto
  then obtain q where q: "q \<in> W" "waits_for (lk_pc s u) = Some q" using stuck by blast
  have "Max W < q" using held q(2) ok by (cases "lk_pc s u") (auto simp: locks_ok_def pc_ok_def dest!: spec [of _ u])
  then show False using Max_ge [OF fin q(1)] by simp
qed

end

interpretation tq: ordered_locking tdq_lock_pair
  by unfold_locales (auto simp: tdq_lock_pair_def)

section \<open>Properties\<close>

text \<open>
  C28: Any number of processors that lock pairs of thread queues with \<open>tdq_lock_pair\<close> never run into
  a deadlock: in every state they can reach in which one is between its call and the release of its
  locks, one that is can go on. And no two of them have the same queue locked.
\<close>

theorem lock_pair_no_deadlock:
  assumes "lock_reach tdq_lock_pair ncpu s" "lk_pc s t \<noteq> Outside"
  shows "(\<exists>u s'. lk_pc s u \<noteq> Outside \<and> lock_step tdq_lock_pair ncpu u s s') \<and>
    (\<forall>u v. locks_held (lk_pc s u) \<inter> locks_held (lk_pc s v) \<noteq> {} \<longrightarrow> u = v)"
proof -
  have "locks_held (lk_pc s u) \<inter> locks_held (lk_pc s v) \<noteq> {} \<longrightarrow> u = v" for u v
    using tq.reach_ok [OF assms(1)] unfolding tq.locks_ok_def by (metis disjoint_iff option.inject)
  then show ?thesis using tq.someone_goes_on [OF assms] by blast
qed

text \<open>Processors 1 and 2 lock the queues 0 and 3 in opposite order of the arguments; both have called.\<close>

theorem lock_pair_no_deadlock_witness:
  "\<exists>s. lk_pc s 1 = Wants 0 3 \<and> lk_pc s 2 = Wants 0 3 \<and> (\<exists>u s'. lk_pc s u \<noteq> Outside \<and> lock_step tdq_lock_pair 4 u s s')"
proof -
  let ?s1 = "lock_init\<lparr>lk_pc := (lk_pc lock_init)(1 := Wants 0 3)\<rparr>"
  let ?s2 = "?s1\<lparr>lk_pc := (lk_pc ?s1)(2 := Wants 0 3)\<rparr>"
  have "lock_step tdq_lock_pair 4 1 lock_init ?s1"
    by (rule lock_step.call [of _ _ 0 _ 3]) (simp_all add: lock_init_def tdq_lock_pair_def)
  then have 1: "lock_reach tdq_lock_pair 4 ?s1" by (rule lock_reach.next_step [OF lock_reach.start])
  have "lock_step tdq_lock_pair 4 2 ?s1 ?s2"
    by (rule lock_step.call [of _ _ 3 _ 0]) (simp_all add: lock_init_def tdq_lock_pair_def)
  then have 2: "lock_reach tdq_lock_pair 4 ?s2" by (rule lock_reach.next_step [OF 1])
  show ?thesis using lock_pair_no_deadlock [OF 2, of 1] by (intro exI [of _ ?s2]) simp
qed

end
