(* ===== verification/Shell_Lex.thy ===== *)
theory Shell_Lex
  imports Prelude
begin

text \<open>
  The input of the shell (\<open>src/asgn1/shell.l\<close>): words, operators and quoted strings are copied one
  after the other into \<open>_linebuf\<close>, and \<open>_args\<close> holds where each starts, up to a null entry. Both
  arrays are static, what an earlier line left in them stays. Standard input is the string of what
  is still to be read; a rule's pattern takes the longest match, as in flex. The end of the input
  ends the line.
\<close>

section \<open>The arrays\<close>

definition ARGS_LEN :: nat where "ARGS_LEN = 256"
definition LINEBUF_LEN :: nat where "LINEBUF_LEN = 4096"

abbreviation NUL :: char where "NUL \<equiv> CHR 0x00"
abbreviation newline :: char where "newline \<equiv> CHR 0x0A"

record lexer =
  args_mem :: "nat \<Rightarrow> nat option"
  linebuf :: "nat \<Rightarrow> char"
  input :: string

section \<open>The rules\<close>

definition word_char :: "char \<Rightarrow> bool" where
  "word_char c \<longleftrightarrow> (let n = (of_char c :: nat) in
    97 \<le> n \<and> n \<le> 122 \<or> 65 \<le> n \<and> n \<le> 90 \<or> 48 \<le> n \<and> n \<le> 57 \<or> c \<in> set ''_/.-'')"

definition special_char :: "char \<Rightarrow> bool" where
  "special_char c \<longleftrightarrow> c \<in> set ''()><|&;*''"

definition quote_char :: "char \<Rightarrow> bool" where
  "quote_char c \<longleftrightarrow> c = CHR 0x27 \<or> c = CHR 0x22"

definition blank :: "char \<Rightarrow> bool" where
  "blank c \<longleftrightarrow> c = CHR '' '' \<or> c = CHR 0x09"

datatype token = Arg string | Newline | Skip

fun next_token :: "string \<Rightarrow> (token \<times> string) option" where
  "next_token [] = None"
| "next_token (c # cs) = Some
    (if word_char c then (Arg (c # takeWhile word_char cs), dropWhile word_char cs)
     else if special_char c then (Arg (c # takeWhile special_char cs), dropWhile special_char cs)
     else if quote_char c \<and> c \<in> set cs
     then (Arg (c # takeWhile (\<lambda>x. x \<noteq> c) cs @ [c]), drop 1 (dropWhile (\<lambda>x. x \<noteq> c) cs))
     else if c = newline then (Newline, cs)
     else if blank c then (Skip, dropWhile blank cs)
     else (Skip, cs))"

lemma next_token_shorter: "next_token s = Some (t, r) \<Longrightarrow> length r < length s"
proof (cases s)
  case (Cons c cs)
  assume "next_token s = Some (t, r)"
  moreover have "length (dropWhile P cs) < Suc (length cs)" "length (drop 1 (dropWhile P cs)) < Suc (length cs)" for P
    using length_dropWhile_le [of P cs] by simp_all
  ultimately show ?thesis using Cons by (auto split: if_splits)
qed simp

section \<open>The action of the scanner\<close>

fun copy_chars :: "string \<Rightarrow> nat \<Rightarrow> (nat \<Rightarrow> char) \<Rightarrow> fault + (nat \<times> (nat \<Rightarrow> char))" where
  "copy_chars [] p buf = Inr (p, buf)"
| "copy_chars (c # cs) p buf = (if p < LINEBUF_LEN then copy_chars cs (p + 1) (buf(p := c)) else Inl Overflow)"

definition put_arg :: "string \<Rightarrow> nat \<Rightarrow> nat \<Rightarrow> lexer \<Rightarrow> fault + (nat \<times> nat \<times> lexer)" where
  "put_arg yytext argcount bufpos st =
    (if argcount < ARGS_LEN - 1
     then and_then (copy_chars (takeWhile (\<lambda>c. c \<noteq> NUL) yytext @ [NUL]) bufpos (linebuf st)) (\<lambda>(p, buf).
       Inr (argcount + 1, p, st\<lparr>args_mem := (args_mem st)(argcount := Some bufpos, argcount + 1 := None), linebuf := buf\<rparr>))
     else Inr (argcount, bufpos, st))"

function yylex :: "nat \<Rightarrow> nat \<Rightarrow> string \<Rightarrow> lexer \<Rightarrow> fault + lexer" where
  "yylex argcount bufpos s st =
    (case next_token s of
       None \<Rightarrow> Inr (st\<lparr>input := []\<rparr>)
     | Some (Newline, r) \<Rightarrow> Inr (st\<lparr>input := r\<rparr>)
     | Some (Skip, r) \<Rightarrow> yylex argcount bufpos r st
     | Some (Arg yytext, r) \<Rightarrow> and_then (put_arg yytext argcount bufpos st) (\<lambda>(n, p, st'). yylex n p r st'))"
  by pat_completeness auto
termination by (relation "measure (\<lambda>(n, p, s, st). length s)") (auto dest: next_token_shorter)

declare yylex.simps [simp del]

definition get_args :: "lexer \<Rightarrow> fault + lexer" where
  "get_args st = yylex 0 0 (input st) (st\<lparr>args_mem := (args_mem st)(0 := None)\<rparr>)"

section \<open>Reading the arrays\<close>

function cstr :: "(nat \<Rightarrow> char) \<Rightarrow> nat \<Rightarrow> fault + string" where
  "cstr buf p =
    (if p \<ge> LINEBUF_LEN then Inl Overflow
     else if buf p = NUL then Inr []
     else and_then (cstr buf (p + 1)) (\<lambda>s. Inr (buf p # s)))"
  by pat_completeness auto
termination by (relation "measure (\<lambda>(buf, p). LINEBUF_LEN - p)") auto

declare cstr.simps [simp del]

definition arg :: "lexer \<Rightarrow> nat \<Rightarrow> fault + string option" where
  "arg st k =
    (if k \<ge> ARGS_LEN then Inl Overflow
     else case args_mem st k of
       None \<Rightarrow> Inr None
     | Some p \<Rightarrow> and_then (cstr (linebuf st) p) (\<lambda>s. Inr (Some s)))"

text \<open>The memory when the program starts.\<close>

definition lexer0 :: "string \<Rightarrow> lexer" where
  "lexer0 s = \<lparr>args_mem = (\<lambda>_. None), linebuf = (\<lambda>_. NUL), input = s\<rparr>"

end
