(* ===== verification/Shell_Run.thy ===== *)
theory Shell_Run
  imports Prelude
begin

text \<open>
  Running one command of the shell (\<open>src/asgn1/argshell.c\<close>): redirections, pipes, the forks and the
  call of \<open>execvp\<close>. A run is the tree of the processes it forks; every node that waits or ends has
  the process with its file descriptors. A process is named by the path of forks from the shell.
  Which files open, which programs can be executed and whether \<open>pipe\<close> and \<open>fork\<close> succeed is the
  operating system's, arguments in the record \<open>os\<close>. Messages and memory that is never freed are
  left out.
\<close>

section \<open>Processes\<close>

type_synonym pname = "nat list"

datatype open_flag = O_RDONLY | O_RDWR | O_CREAT | O_APPEND | O_TRUNC

type_synonym pipe_id = "pname \<times> nat"

datatype handle =
    Inherited nat                        \<comment> \<open>open when the shell started\<close>
  | File string "open_flag set"
  | Read_end pipe_id
  | Write_end pipe_id

record proc =
  name :: pname
  fds :: "nat \<Rightarrow> handle option"
  forked :: nat
  pipes :: nat

record os =
  open_max :: nat
  can_open :: "string \<Rightarrow> open_flag set \<Rightarrow> bool"
  can_exec :: "string \<Rightarrow> bool"
  can_pipe :: "pname \<Rightarrow> bool"
  can_fork :: "pname \<Rightarrow> bool"

text \<open>
  \<open>Back\<close> returns to the main loop of the shell. \<open>Undefined\<close> is a null pointer given to \<open>execvp\<close> or
  a descriptor used that \<open>pipe\<close> never set. \<open>Wait P None\<close> is a wait for any child, what \<open>waitpid\<close>
  does with the result of a \<open>fork\<close> that failed.
\<close>

datatype run =
    Exec proc string "string list"
  | Exit proc
  | Back proc
  | Undefined proc
  | Fork proc run run                    \<comment> \<open>the child, then the rest of the process itself\<close>
  | Wait proc "pname option" run

primrec then_run :: "run \<Rightarrow> (proc \<Rightarrow> run) \<Rightarrow> run" where
  "then_run (Exec P c args) k = Exec P c args"
| "then_run (Exit P) k = Exit P"
| "then_run (Back P) k = k P"
| "then_run (Undefined P) k = Undefined P"
| "then_run (Fork P c r) k = Fork P (then_run c k) (then_run r k)"
| "then_run (Wait P who r) k = Wait P who (then_run r k)"

section \<open>Descriptors\<close>

abbreviation (input) STDIN_FILENO :: nat where "STDIN_FILENO \<equiv> 0"
abbreviation (input) STDOUT_FILENO :: nat where "STDOUT_FILENO \<equiv> 1"
abbreviation (input) STDERR_FILENO :: nat where "STDERR_FILENO \<equiv> 2"

definition lowest_free :: "os \<Rightarrow> proc \<Rightarrow> nat option" where
  "lowest_free E P = List.find (\<lambda>n. fds P n = None) [0..<open_max E]"

definition set_fd :: "nat \<Rightarrow> handle \<Rightarrow> proc \<Rightarrow> proc" where
  "set_fd n h P = P\<lparr>fds := (fds P)(n := Some h)\<rparr>"

definition close :: "nat \<Rightarrow> proc \<Rightarrow> proc" where
  "close n P = P\<lparr>fds := (fds P)(n := None)\<rparr>"

definition dup2 :: "nat \<Rightarrow> nat \<Rightarrow> proc \<Rightarrow> proc" where
  "dup2 old new P = (case fds P old of None \<Rightarrow> P | Some h \<Rightarrow> set_fd new h P)"

definition pipe :: "os \<Rightarrow> proc \<Rightarrow> (nat \<times> nat \<times> proc) option" where
  "pipe E P =
    (if \<not> can_pipe E (name P) then None
     else case lowest_free E P of
       None \<Rightarrow> None
     | Some rd \<Rightarrow>
        (let P1 = set_fd rd (Read_end (name P, pipes P)) P
         in case lowest_free E P1 of
              None \<Rightarrow> None
            | Some wr \<Rightarrow> Some (rd, wr, (set_fd wr (Write_end (name P, pipes P)) P1)\<lparr>pipes := pipes P + 1\<rparr>)))"

text \<open>The child that the next \<open>fork\<close> makes, and the parent after it.\<close>

definition child :: "proc \<Rightarrow> proc" where
  "child P = P\<lparr>name := name P @ [forked P], forked := 0, pipes := 0\<rparr>"

definition after_fork :: "proc \<Rightarrow> proc" where
  "after_fork P = P\<lparr>forked := forked P + 1\<rparr>"

text \<open>The parent gets the name of the child, or nothing.\<close>

definition fork :: "os \<Rightarrow> proc \<Rightarrow> (proc \<Rightarrow> run) \<Rightarrow> (pname option \<Rightarrow> proc \<Rightarrow> run) \<Rightarrow> run" where
  "fork E P in_child in_parent =
    (if can_fork E (name P) then Fork P (in_child (child P)) (in_parent (Some (name (child P))) (after_fork P))
     else in_parent None P)"

section \<open>The functions of the shell\<close>

definition subarray :: "string list \<Rightarrow> nat \<Rightarrow> nat \<Rightarrow> string list" where
  "subarray args a b = take (b - a) (drop a args)"

definition pipe_output_stdout :: "nat \<Rightarrow> nat \<Rightarrow> proc \<Rightarrow> proc" where
  "pipe_output_stdout fd0 fd1 P = close fd1 (dup2 fd1 STDOUT_FILENO (close STDOUT_FILENO (close fd0 P)))"

definition pipe_output_stdout_and_stderr :: "nat \<Rightarrow> nat \<Rightarrow> proc \<Rightarrow> proc" where
  "pipe_output_stdout_and_stderr fd0 fd1 P =
    close fd1 (dup2 fd1 STDERR_FILENO (dup2 fd1 STDOUT_FILENO
      (close STDERR_FILENO (close STDOUT_FILENO (close fd0 P)))))"

definition pipe_input_stdin :: "nat \<Rightarrow> nat \<Rightarrow> proc \<Rightarrow> proc" where
  "pipe_input_stdin fd0 fd1 P = close fd0 (dup2 fd0 STDIN_FILENO (close STDIN_FILENO (close fd1 P)))"

text \<open>Without a file the process exits. The file name is null when the operator is the last word.\<close>

definition open_file :: "os \<Rightarrow> string option \<Rightarrow> open_flag set \<Rightarrow> proc \<Rightarrow> (nat \<times> proc) option" where
  "open_file E filename flags P =
    (case filename of
       None \<Rightarrow> None
     | Some f \<Rightarrow> if \<not> can_open E f flags then None
                 else map_option (\<lambda>nfd. (nfd, set_fd nfd (File f flags) P)) (lowest_free E P))"

definition redirect :: "os \<Rightarrow> string option \<Rightarrow> nat \<Rightarrow> open_flag set \<Rightarrow> proc \<Rightarrow> proc option" where
  "redirect E filename fd flags P =
    map_option (\<lambda>(nfd, P1). close nfd (dup2 nfd fd P1)) (open_file E filename flags P)"

definition redirect2 :: "os \<Rightarrow> string option \<Rightarrow> nat \<Rightarrow> nat \<Rightarrow> open_flag set \<Rightarrow> proc \<Rightarrow> proc option" where
  "redirect2 E filename fd1 fd2 flags P =
    map_option (\<lambda>(nfd, P1). close nfd (dup2 nfd fd2 (dup2 nfd fd1 P1))) (open_file E filename flags P)"

definition execute :: "os \<Rightarrow> string list \<Rightarrow> string list \<Rightarrow> proc \<Rightarrow> (proc \<Rightarrow> run) \<Rightarrow> run" where
  "execute E args newArgs P fails =
    (case args of
       [] \<Rightarrow> Undefined P
     | command # _ \<Rightarrow> if can_exec E command then Exec P command newArgs else fails P)"

text \<open>The operators with one file, what they do and with which flags.\<close>

definition redirection :: "string \<Rightarrow> (os \<Rightarrow> string option \<Rightarrow> proc \<Rightarrow> proc option) option" where
  "redirection w =
    (if w = ''<'' then Some (\<lambda>E f. redirect E f STDIN_FILENO {O_RDONLY})
     else if w = ''>'' then Some (\<lambda>E f. redirect E f STDOUT_FILENO {O_RDWR, O_CREAT})
     else if w = ''>>'' then Some (\<lambda>E f. redirect E f STDOUT_FILENO {O_RDWR, O_CREAT, O_APPEND})
     else if w = ''>&'' then Some (\<lambda>E f. redirect2 E f STDOUT_FILENO STDERR_FILENO {O_RDWR, O_CREAT})
     else if w = ''>>&'' then Some (\<lambda>E f. redirect2 E f STDERR_FILENO STDOUT_FILENO {O_RDWR, O_CREAT, O_APPEND})
     else None)"

text \<open>\<open>newArgs = None\<close>: it is still the pointer \<open>args\<close>. A call that returns goes on with the loop.\<close>

function isolateRun_loop :: "os \<Rightarrow> string list \<Rightarrow> nat \<Rightarrow> string list option \<Rightarrow> proc \<Rightarrow> run" where
  "isolateRun_loop E args i newArgs P =
    (if i \<ge> length args then execute E args (case newArgs of None \<Rightarrow> args | Some n \<Rightarrow> n) P Back
     else
      (let w = args ! i;
           cut = (if newArgs = None \<or> w = ''<'' then Some (subarray args 0 i) else newArgs)
       in case redirection w of
            Some r \<Rightarrow>
              (case r E (if i + 1 < length args then Some (args ! (i + 1)) else None) P of
                 None \<Rightarrow> Exit P
               | Some P1 \<Rightarrow> isolateRun_loop E args (i + 1) cut P1)
          | None \<Rightarrow>
              if w = ''|'' \<or> w = ''|&''
              then (case pipe E P of
                  None \<Rightarrow> Undefined P
                | Some (fd0, fd1, P1) \<Rightarrow>
                    fork E P1
                      (\<lambda>C. then_run
                         (isolateRun_loop E (subarray args (i + 1) (length args)) 0 None (pipe_input_stdin fd0 fd1 C))
                         (\<lambda>Q. isolateRun_loop E args (i + 1) cut Q))
                      (\<lambda>pid1 P2.
                         fork E (if w = ''|&'' then pipe_output_stdout_and_stderr fd0 fd1 P2 else pipe_output_stdout fd0 fd1 P2)
                           (\<lambda>C. execute E args (case cut of None \<Rightarrow> args | Some n \<Rightarrow> n) C
                              (\<lambda>Q. isolateRun_loop E args (i + 1) cut Q))
                           (\<lambda>pid2 P3. Wait P3 pid2 (Wait (close fd1 P3) pid1 (Exit (close fd1 P3))))))
              else isolateRun_loop E args (i + 1) newArgs P))"
  by pat_completeness auto
termination
  by (relation "measures [\<lambda>(E, args, i, n, P). length args, \<lambda>(E, args, i, n, P). length args - i]")
    (auto simp: subarray_def)

declare isolateRun_loop.simps [simp del]

definition isolateRun :: "os \<Rightarrow> string list \<Rightarrow> proc \<Rightarrow> run" where
  "isolateRun E args P = isolateRun_loop E args 0 None P"

definition forknRun :: "os \<Rightarrow> string list \<Rightarrow> proc \<Rightarrow> run" where
  "forknRun E args P = fork E P (isolateRun E args) (\<lambda>pid Q. Wait Q pid (Back Q))"

end
