(* ===== verification/Shell_Main.thy ===== *)
theory Shell_Main
  imports Shell_Lex Shell_Run
begin

text \<open>
  The main loop of the shell (\<open>src/asgn1/argshell.c\<close>): a line is cut at its semicolons, each part is
  run in a process of its own, and \<open>cd\<close> is done in between. The pointer \<open>args\<close> into the array of
  words is its index, \<open>args[k]\<close> the entry \<open>base + k\<close>; entries that an earlier line left behind can be
  read. A turn results in the actions it takes, in order.
\<close>

datatype action = Chdir_home | Chdir string | Run "string list"

section \<open>The words from a pointer on\<close>

function words_from :: "lexer \<Rightarrow> nat \<Rightarrow> fault + string list" where
  "words_from st base =
    (if base \<ge> ARGS_LEN then Inl Overflow
     else and_then (arg st base) (\<lambda>a. case a of
       None \<Rightarrow> Inr []
     | Some w \<Rightarrow> and_then (words_from st (base + 1)) (\<lambda>ws. Inr (w # ws))))"
  by pat_completeness auto
termination by (relation "measure (\<lambda>(st, base). ARGS_LEN - base)") auto

fun subarray_of :: "lexer \<Rightarrow> nat \<Rightarrow> nat \<Rightarrow> fault + string list" where
  "subarray_of st base 0 = Inr []"
| "subarray_of st base (Suc n) = and_then (arg st base) (\<lambda>a. case a of
     None \<Rightarrow> Inl Null_deref
   | Some w \<Rightarrow> and_then (subarray_of st (base + 1) n) (\<lambda>ws. Inr (w # ws)))"

section \<open>One line\<close>

text \<open>The loop over the words; the result is where \<open>args\<close> points in the end and the actions.\<close>

function line_loop :: "lexer \<Rightarrow> nat \<Rightarrow> nat \<Rightarrow> fault + (nat \<times> action list)" where
  "line_loop st base i =
    (if base + i \<ge> ARGS_LEN then Inl Overflow
     else and_then (arg st (base + i)) (\<lambda>a. case a of
       None \<Rightarrow> Inr (base, [])
     | Some w \<Rightarrow>
         if w = ''cd''
         then and_then (arg st (base + i + 1)) (\<lambda>b. case b of
             None \<Rightarrow> and_then (line_loop st (base + i + 1) 0) (\<lambda>(e, xs). Inr (e, Chdir_home # xs))
           | Some d \<Rightarrow>
               if d = '';'' then and_then (line_loop st (base + i + 2) 0) (\<lambda>(e, xs). Inr (e, Chdir_home # xs))
               else
                 \<comment> \<open>\<open>i\<close> is -1 when \<open>args[i+2]\<close> is looked at\<close>
                 and_then (arg st (base + i + 2 + 1)) (\<lambda>c.
                 and_then (line_loop st (if c = Some '';'' then base + i + 2 + 2 else base + i + 2) 0)
                   (\<lambda>(e, xs). Inr (e, Chdir d # xs))))
         else if w = '';''
         then and_then (subarray_of st base i) (\<lambda>ws.
              and_then (line_loop st (base + i + 1) 0) (\<lambda>(e, xs). Inr (e, Run ws # xs)))
         else line_loop st base (i + 1)))"
  by pat_completeness auto
termination by (relation "measure (\<lambda>(st, base, i). ARGS_LEN - (base + i))") auto

declare words_from.simps [simp del] line_loop.simps [simp del]

definition run_line :: "lexer \<Rightarrow> fault + action list" where
  "run_line st =
    and_then (line_loop st 0 0) (\<lambda>(base, xs).
    and_then (arg st base) (\<lambda>a.
      if a = None then Inr xs else and_then (words_from st base) (\<lambda>ws. Inr (xs @ [Run ws]))))"

text \<open>One turn of the main loop; the flag says whether the shell exits.\<close>

definition turn :: "lexer \<Rightarrow> fault + (bool \<times> action list \<times> lexer)" where
  "turn st =
    and_then (get_args st) (\<lambda>st'.
    and_then (words_from st' 0) (\<lambda>_.
    and_then (arg st' 0) (\<lambda>a.
      if a = None then Inr (False, [], st')
      else if a = Some ''exit'' then Inr (True, [], st')
      else and_then (run_line st') (\<lambda>xs. Inr (False, xs, st')))))"

text \<open>At most \<open>n\<close> turns: the actions of all, and whether the shell has exited.\<close>

fun shell :: "nat \<Rightarrow> lexer \<Rightarrow> fault + (bool \<times> action list)" where
  "shell 0 st = Inr (False, [])"
| "shell (Suc n) st =
    and_then (turn st) (\<lambda>(quit, xs, st').
      if quit then Inr (True, xs) else and_then (shell n st') (\<lambda>(q, ys). Inr (q, xs @ ys)))"

end
