(* ===== verification/Shell_Lex_Props.thy ===== *)
theory Shell_Lex_Props
  imports Shell_Lex
begin

text \<open>
  What the scanner leaves in the two arrays: the words of the line in order, as many as fit, or an
  overflow of the line buffer; and that a line printed from words is read back as these words.
\<close>

section \<open>The words of a line\<close>

text \<open>The words up to the end of the line, and what follows it.\<close>

function scan :: "string \<Rightarrow> string list \<times> string" where
  "scan s = (case next_token s of
     None \<Rightarrow> ([], [])
   | Some (Newline, r) \<Rightarrow> ([], r)
   | Some (Skip, r) \<Rightarrow> scan r
   | Some (Arg w, r) \<Rightarrow> (let (ws, r') = scan r in (w # ws, r')))"
  by pat_completeness auto
termination by (relation "measure length") (auto dest: next_token_shorter)

declare scan.simps [simp del]

definition c_string :: "string \<Rightarrow> string" where
  "c_string s = takeWhile (\<lambda>c. c \<noteq> NUL) s"

definition kept_args :: "string \<Rightarrow> string list" where
  "kept_args s = take (ARGS_LEN - 1) (map c_string (fst (scan s)))"

definition room :: "string list \<Rightarrow> nat" where
  "room ws = sum_list (map (\<lambda>w. length w + 1) ws)"

lemma room_simps [simp]: "room [] = 0" "room (w # ws) = length w + 1 + room ws" "room (us @ ws) = room us + room ws"
  by (simp_all add: room_def)

section \<open>The line buffer\<close>

definition stored :: "(nat \<Rightarrow> char) \<Rightarrow> nat \<Rightarrow> string \<Rightarrow> bool" where
  "stored buf p w \<longleftrightarrow> (\<forall>j<length w. buf (p + j) = w ! j \<and> w ! j \<noteq> NUL) \<and> buf (p + length w) = NUL"

lemma copy_chars_eq:
  "p \<le> LINEBUF_LEN \<Longrightarrow> copy_chars cs p buf =
    (if p + length cs \<le> LINEBUF_LEN
     then Inr (p + length cs, \<lambda>i. if p \<le> i \<and> i < p + length cs then cs ! (i - p) else buf i)
     else Inl Overflow)"
proof (induction cs arbitrary: p buf)
  case Nil
  then show ?case by (auto simp: fun_eq_iff)
next
  case (Cons c cs)
  show ?case
  proof (cases "p < LINEBUF_LEN")
    case True
    have "copy_chars (c # cs) p buf = copy_chars cs (p + 1) (buf(p := c))" using True by simp
    also have "\<dots> = (if p + 1 + length cs \<le> LINEBUF_LEN
        then Inr (p + 1 + length cs, \<lambda>i. if p + 1 \<le> i \<and> i < p + 1 + length cs then cs ! (i - (p + 1)) else (buf(p := c)) i)
        else Inl Overflow)"
      by (rule Cons.IH) (use True in simp)
    also have "(\<lambda>i. if p + 1 \<le> i \<and> i < p + 1 + length cs then cs ! (i - (p + 1)) else (buf(p := c)) i) =
        (\<lambda>i. if p \<le> i \<and> i < p + length (c # cs) then (c # cs) ! (i - p) else buf i)"
      by (rule ext) (auto simp: nth_Cons')
    finally show ?thesis by simp
  qed (use Cons.prems in simp)
qed

lemma cstr_stored: "stored buf p w \<Longrightarrow> p + length w < LINEBUF_LEN \<Longrightarrow> cstr buf p = Inr w"
proof (induction w arbitrary: p)
  case Nil
  then show ?case by (subst cstr.simps) (simp add: stored_def)
next
  case (Cons c w)
  have "buf p = c \<and> c \<noteq> NUL" using Cons.prems(1) by (auto simp: stored_def dest: spec [of _ 0])
  moreover have "stored buf (p + 1) w"
    using Cons.prems(1) by (auto simp: stored_def dest: spec [of _ "Suc j" for j])
  ultimately show ?case using Cons.IH [of "p + 1"] Cons.prems(2) by (subst cstr.simps) simp
qed

lemma stored_outside:
  "stored buf p w \<Longrightarrow> p + length w < q \<Longrightarrow> (\<And>i. i < q \<Longrightarrow> buf' i = buf i) \<Longrightarrow> stored buf' p w"
  by (simp add: stored_def)

lemma c_string_no_nul: "j < length (c_string w) \<Longrightarrow> c_string w ! j \<noteq> NUL"
  using nth_mem [of j "c_string w"] set_takeWhileD [of "c_string w ! j" "\<lambda>c. c \<noteq> NUL" w] by (simp add: c_string_def)

section \<open>The scanner\<close>

text \<open>The words read so far, the next free entry and the next free byte.\<close>

definition scanned :: "string list \<Rightarrow> nat \<Rightarrow> nat \<Rightarrow> lexer \<Rightarrow> bool" where
  "scanned ws n p st \<longleftrightarrow> n = length ws \<and> n < ARGS_LEN \<and> p = room ws \<and> p \<le> LINEBUF_LEN \<and> args_mem st n = None \<and>
    (\<forall>k<n. args_mem st k = Some (room (take k ws)) \<and> stored (linebuf st) (room (take k ws)) (ws ! k))"

lemma room_take: "k < length ws \<Longrightarrow> room (take k ws) + length (ws ! k) < room ws"
proof -
  assume "k < length ws"
  then have "room ws = room (take k ws) + room (ws ! k # drop (Suc k) ws)" by (metis Cons_nth_drop_Suc append_take_drop_id room_simps(3))
  then show ?thesis by simp
qed

text \<open>What an earlier line left behind stays beyond what the new one needs.\<close>

definition same_beyond :: "nat \<Rightarrow> nat \<Rightarrow> lexer \<Rightarrow> lexer \<Rightarrow> bool" where
  "same_beyond n p st st' \<longleftrightarrow> (\<forall>k>n. args_mem st' k = args_mem st k) \<and> (\<forall>i\<ge>p. linebuf st' i = linebuf st i)"

lemma same_beyond_refl [simp]: "same_beyond n p st (st\<lparr>input := s\<rparr>)"
  by (simp add: same_beyond_def)

lemma same_beyond_trans: "same_beyond n p st st1 \<Longrightarrow> same_beyond n' p' st1 st2 \<Longrightarrow> n \<le> n' \<Longrightarrow> p \<le> p' \<Longrightarrow> same_beyond n' p' st st2"
  by (simp add: same_beyond_def)

lemma put_arg_ok:
  assumes i: "scanned ws n p st" and n: "n < ARGS_LEN - 1"
  shows "p + length (c_string w) + 1 \<le> LINEBUF_LEN \<Longrightarrow> \<exists>st'. put_arg w n p st = Inr (n + 1, p + length (c_string w) + 1, st') \<and>
      scanned (ws @ [c_string w]) (n + 1) (p + length (c_string w) + 1) st' \<and> same_beyond (n + 1) (p + length (c_string w) + 1) st st'"
    and "LINEBUF_LEN < p + length (c_string w) + 1 \<Longrightarrow> put_arg w n p st = Inl Overflow"
proof -
  let ?w = "c_string w"
  have p: "p \<le> LINEBUF_LEN" using i by (simp add: scanned_def)
  note cc = copy_chars_eq [OF p] and put = put_arg_def [of w n p st, folded c_string_def]
  show "LINEBUF_LEN < p + length ?w + 1 \<Longrightarrow> put_arg w n p st = Inl Overflow"
    using n by (simp add: put cc)
  assume le: "p + length ?w + 1 \<le> LINEBUF_LEN"
  define buf where "buf = (\<lambda>i. if p \<le> i \<and> i < p + length (?w @ [NUL]) then (?w @ [NUL]) ! (i - p) else linebuf st i)"
  define st' where "st' = st\<lparr>args_mem := (args_mem st)(n := Some p, n + 1 := None), linebuf := buf\<rparr>"
  have "put_arg w n p st = Inr (n + 1, p + length ?w + 1, st')"
    using n le by (simp add: put cc st'_def buf_def)
  moreover have new: "stored buf p ?w" using c_string_no_nul [of _ w] by (auto simp: stored_def buf_def nth_append)
  have rm: "p = room ws" "n = length ws" using i by (simp_all add: scanned_def)
  have old: "stored buf (room (take k ws)) (ws ! k)" if "k < n" for k
  proof -
    have "stored (linebuf st) (room (take k ws)) (ws ! k)" using i that unfolding scanned_def by blast
    then show ?thesis by (rule stored_outside [where q = p]) (use room_take [of k ws] that rm in \<open>simp_all add: buf_def\<close>)
  qed
  have "scanned (ws @ [?w]) (n + 1) (p + length ?w + 1) st'"
    unfolding scanned_def
  proof (intro conjI allI impI)
    fix k assume k: "k < n + 1"
    show "args_mem st' k = Some (room (take k (ws @ [?w])))"
      using i k rm by (cases "k = n") (auto simp: scanned_def st'_def)
    show "stored (linebuf st') (room (take k (ws @ [?w]))) ((ws @ [?w]) ! k)"
      using old [of k] new k rm by (cases "k = n") (auto simp: st'_def nth_append)
  qed (use i n le in \<open>auto simp: scanned_def st'_def\<close>)
  moreover have "same_beyond (n + 1) (p + length ?w + 1) st st'" by (simp add: same_beyond_def st'_def buf_def)
  ultimately show "\<exists>st'. put_arg w n p st = Inr (n + 1, p + length ?w + 1, st') \<and>
      scanned (ws @ [?w]) (n + 1) (p + length ?w + 1) st' \<and> same_beyond (n + 1) (p + length ?w + 1) st st'" by blast
qed

definition reads :: "nat \<Rightarrow> nat \<Rightarrow> string \<Rightarrow> lexer \<Rightarrow> string list \<Rightarrow> string list \<Rightarrow> bool" where
  "reads n p s st ws ts \<longleftrightarrow>
    (p + room ts \<le> LINEBUF_LEN \<longrightarrow> (\<exists>st'. yylex n p s st = Inr st' \<and> input st' = snd (scan s) \<and>
      scanned (ws @ ts) (n + length ts) (p + room ts) st' \<and> same_beyond (n + length ts) (p + room ts) st st')) \<and>
    (LINEBUF_LEN < p + room ts \<longrightarrow> yylex n p s st = Inl Overflow)"

lemma reads_none: "yylex n p s st = Inr (st\<lparr>input := snd (scan s)\<rparr>) \<Longrightarrow> scanned ws n p st \<Longrightarrow> reads n p s st ws []"
  by (auto simp: reads_def scanned_def)

lemma yylex_ok:
  "scanned ws n p st \<Longrightarrow> reads n p s st ws (take (ARGS_LEN - 1 - n) (map c_string (fst (scan s))))"
proof (induction n p s st arbitrary: ws rule: yylex.induct)
  case (1 n p s st)
  note Y = yylex.simps [of n p s st] and S = scan.simps [of s]
  show ?case
  proof (cases "next_token s")
    case None
    then have "fst (scan s) = []" "yylex n p s st = Inr (st\<lparr>input := snd (scan s)\<rparr>)" by (simp_all add: Y S)
    then show ?thesis using reads_none "1.prems" by simp
  next
    case (Some x)
    obtain t r where x: "(t, r) = x" by (cases x) auto
    show ?thesis
    proof (cases t)
      case Newline
      then have "fst (scan s) = []" "yylex n p s st = Inr (st\<lparr>input := snd (scan s)\<rparr>)" using Some x Newline by (auto simp: Y S)
      then show ?thesis using reads_none "1.prems" by simp
    next
      case Skip
      then have "scan s = scan r" "yylex n p s st = yylex n p r st" using Some x Skip by (auto simp: Y S)
      then show ?thesis using "1.IH"(2) [OF Some x Skip "1.prems"] by (simp add: reads_def)
    next
      case (Arg w)
      have sc: "fst (scan s) = w # fst (scan r)" "snd (scan s) = snd (scan r)"
        using Some x Arg by (auto simp: S split: prod.splits)
      have y: "yylex n p s st = and_then (put_arg w n p st) (\<lambda>(n, p, st'). yylex n p r st')" using Some x Arg by (auto simp: Y)
      show ?thesis
      proof (cases "n < ARGS_LEN - 1")
        case False
        then have n: "ARGS_LEN - 1 - n = 0" by simp
        have pa: "put_arg w n p st = Inr (n, p, st)" using False by (simp add: put_arg_def)
        have "reads n p r st ws []" using "1.IH"(1) [OF Some x Arg pa refl refl "1.prems"] n by simp
        then show ?thesis unfolding n by (simp add: reads_def y pa sc)
      next
        case True
        define c where "c = c_string w"
        define ts where "ts = take (ARGS_LEN - 1 - (n + 1)) (map c_string (fst (scan r)))"
        have ts: "take (ARGS_LEN - 1 - n) (map c_string (fst (scan s))) = c # ts"
          using True by (simp add: sc ts_def c_def take_Cons' Suc_diff_Suc)
        note pa = put_arg_ok [OF "1.prems" True, of w, folded c_def]
        show ?thesis
        proof (cases "p + length c + 1 \<le> LINEBUF_LEN")
          case False
          then show ?thesis unfolding ts using pa(2) by (simp add: reads_def y)
        next
          case le: True
          obtain st' where st': "put_arg w n p st = Inr (n + 1, p + length c + 1, st')"
            "scanned (ws @ [c]) (n + 1) (p + length c + 1) st'" "same_beyond (n + 1) (p + length c + 1) st st'"
            using pa(1) [OF le] by blast
          have "reads (n + 1) (p + length c + 1) r st' (ws @ [c]) ts"
            unfolding ts_def by (rule "1.IH"(1) [OF Some x Arg st'(1) refl refl st'(2)])
          then show ?thesis
            unfolding ts using st'(1) same_beyond_trans [OF st'(3)] by (auto simp: reads_def y sc add.assoc)
        qed
      qed
    qed
  qed
qed

lemma arg_scanned: "scanned ws n p st \<Longrightarrow> k < n \<Longrightarrow> arg st k = Inr (Some (ws ! k))"
proof -
  assume i: "scanned ws n p st" and k: "k < n"
  then have q: "args_mem st k = Some (room (take k ws))" "stored (linebuf st) (room (take k ws)) (ws ! k)"
    unfolding scanned_def by blast+
  have "cstr (linebuf st) (room (take k ws)) = Inr (ws ! k)"
    by (rule cstr_stored [OF q(2)]) (use room_take [of k ws] i k in \<open>simp add: scanned_def\<close>)
  then show ?thesis using q(1) i k by (simp add: arg_def scanned_def)
qed

lemma arg_scanned_end: "scanned ws n p st \<Longrightarrow> arg st n = Inr None"
  unfolding scanned_def arg_def by (metis option.case(1) not_le)

lemma get_args_ok:
  fixes st :: lexer
  defines "ts \<equiv> kept_args (input st)"
  shows "room ts \<le> LINEBUF_LEN \<Longrightarrow> \<exists>st'. get_args st = Inr st' \<and> input st' = snd (scan (input st)) \<and>
      scanned ts (length ts) (room ts) st' \<and> same_beyond (length ts) (room ts) st st'"
    and "LINEBUF_LEN < room ts \<Longrightarrow> get_args st = Inl Overflow"
proof -
  have "scanned [] 0 0 (st\<lparr>args_mem := (args_mem st)(0 := None)\<rparr>)" by (simp add: scanned_def ARGS_LEN_def)
  from yylex_ok [OF this, of "input st"]
  have r: "reads 0 0 (input st) (st\<lparr>args_mem := (args_mem st)(0 := None)\<rparr>) [] ts" by (simp add: ts_def kept_args_def)
  then show "LINEBUF_LEN < room ts \<Longrightarrow> get_args st = Inl Overflow" by (simp add: reads_def get_args_def)
  have start: "same_beyond n q (st\<lparr>args_mem := (args_mem st)(0 := None)\<rparr>) st' = same_beyond n q st st'" for n q st'
    by (simp add: same_beyond_def)
  assume "room ts \<le> LINEBUF_LEN"
  then show "\<exists>st'. get_args st = Inr st' \<and> input st' = snd (scan (input st)) \<and>
      scanned ts (length ts) (room ts) st' \<and> same_beyond (length ts) (room ts) st st'"
    using r by (auto simp: reads_def get_args_def start)
qed

end
