(* ===== verification/Shell_Main_Props.thy ===== *)
theory Shell_Main_Props
  imports Shell_Main Shell_Lex_Props
begin

text \<open>
  Properties of the main loop of the shell: a line is read back from the words it was printed from,
  the actions of a line are those of a function on its words, and where the code differs from that
  because it looks beyond the end of the line.
\<close>

section \<open>Reading a line back\<close>

definition lexeme :: "string \<Rightarrow> bool" where
  "lexeme w \<longleftrightarrow> w \<noteq> [] \<and> NUL \<notin> set w \<and> (list_all word_char w \<or> list_all special_char w \<or>
    (\<exists>q v. quote_char q \<and> q \<notin> set v \<and> w = q # v @ [q]))"

definition print_line :: "string list \<Rightarrow> string" where
  "print_line ws = concat (map (\<lambda>w. w @ '' '') ws) @ [newline]"

lemma special_not_word: "special_char c \<Longrightarrow> \<not> word_char c"
  by (auto simp: special_char_def word_char_def)

lemma quote_not_word: "quote_char c \<Longrightarrow> \<not> word_char c \<and> \<not> special_char c"
  by (auto simp: quote_char_def word_char_def special_char_def)

lemma space_other: "\<not> word_char (CHR '' '')" "\<not> special_char (CHR '' '')" "\<not> quote_char (CHR '' '')"
  "CHR '' '' \<noteq> newline" "blank (CHR '' '')"
  by (simp_all add: special_char_def word_char_def quote_char_def blank_def)

lemma newline_other: "\<not> word_char newline" "\<not> special_char newline" "\<not> quote_char newline" "\<not> blank newline"
  by (simp_all add: special_char_def word_char_def quote_char_def blank_def)

lemma takeWhile_run: "list_all P w \<Longrightarrow> \<not> P x \<Longrightarrow> takeWhile P (w @ x # r) = w \<and> dropWhile P (w @ x # r) = x # r"
  by (simp add: list_all_iff)

lemma takeWhile_quote: "q \<notin> set v \<Longrightarrow> takeWhile (\<lambda>x. x \<noteq> q) (v @ q # r) = v \<and> dropWhile (\<lambda>x. x \<noteq> q) (v @ q # r) = q # r"
  by (induction v) auto

lemma next_token_lexeme:
  assumes "lexeme w"
  shows "next_token (w @ CHR '' '' # r) = Some (Arg w, CHR '' '' # r)"
proof -
  obtain c cs where w: "w = c # cs" using assms by (cases w) (auto simp: lexeme_def)
  note sp = space_other
  consider "list_all word_char w" | "list_all special_char w" | q v where "quote_char q" "q \<notin> set v" "w = q # v @ [q]"
    using assms unfolding lexeme_def by blast
  then show ?thesis
  proof cases
    case 1
    then show ?thesis using takeWhile_run [of word_char cs "CHR '' ''" r] sp by (simp add: w)
  next
    case 2
    then show ?thesis using takeWhile_run [of special_char cs "CHR '' ''" r] sp special_not_word [of c] by (simp add: w)
  next
    case 3
    show ?thesis using 3 quote_not_word [OF 3(1)] takeWhile_quote [OF 3(2), of "CHR '' '' # r"] by simp
  qed
qed

lemma next_token_space: "\<not> blank c \<Longrightarrow> next_token (CHR '' '' # c # r) = Some (Skip, c # r)"
  using space_other by simp

lemma scan_blank: "next_token s = Some (Skip, r) \<Longrightarrow> scan s = scan r"
  by (simp add: scan.simps [of s])

lemma lexeme_not_blank: "lexeme (c # cs) \<Longrightarrow> \<not> blank c"
  by (auto simp: lexeme_def blank_def word_char_def special_char_def quote_char_def)

lemma scan_print: "\<forall>w\<in>set ws. lexeme w \<Longrightarrow> scan (print_line ws @ r) = (ws, r)"
proof (induction ws)
  case Nil
  then show ?case by (subst scan.simps) (simp add: print_line_def newline_other)
next
  case (Cons w ws)
  have p: "print_line (w # ws) @ r = w @ CHR '' '' # (print_line ws @ r)" by (simp add: print_line_def)
  obtain c cs where c: "print_line ws @ r = c # cs" "\<not> blank c"
  proof (cases ws)
    case Nil
    then show ?thesis using that newline_other by (simp add: print_line_def)
  next
    case (Cons v vs)
    then obtain d ds where v: "v = d # ds" using \<open>\<forall>w\<in>set (w # ws). lexeme w\<close> by (cases v) (auto simp: lexeme_def)
    have "\<not> blank d" using lexeme_not_blank [of d ds] Cons v \<open>\<forall>w\<in>set (w # ws). lexeme w\<close> by simp
    then show ?thesis using that [of d "ds @ '' '' @ print_line vs @ r"] by (simp add: Cons v print_line_def)
  qed
  have "scan (print_line (w # ws) @ r) = (w # fst (scan (CHR '' '' # (print_line ws @ r))), snd (scan (CHR '' '' # (print_line ws @ r))))"
    unfolding p using next_token_lexeme [of w "print_line ws @ r"] Cons.prems by (subst scan.simps) (simp split: prod.splits)
  also have "scan (CHR '' '' # (print_line ws @ r)) = scan (print_line ws @ r)"
    unfolding c(1) by (rule scan_blank [OF next_token_space [OF c(2)]])
  finally show ?case using Cons by simp
qed

lemma c_string_id: "lexeme w \<Longrightarrow> c_string w = w"
  unfolding c_string_def lexeme_def takeWhile_eq_all_conv by auto

lemma words_from_scanned:
  assumes i: "scanned ws n p st"
  shows "k \<le> n \<Longrightarrow> words_from st k = Inr (drop k ws)"
proof (induction "n - k" arbitrary: k)
  case 0
  then have "k = n" "n = length ws" "n < ARGS_LEN" using i by (simp_all add: scanned_def)
  then show ?case using arg_scanned_end [OF i] by (subst words_from.simps) simp
next
  case (Suc x)
  then have k: "k < n" "n = length ws" "n < ARGS_LEN" using i by (simp_all add: scanned_def)
  have "words_from st (k + 1) = Inr (drop (k + 1) ws)" using Suc(1) [of "k + 1"] Suc(2) k by simp
  then show ?case using arg_scanned [OF i k(1)] k by (subst words_from.simps) (simp add: Cons_nth_drop_Suc)
qed

text \<open>
  C4: A line that is printed from at most 255 words, operators and quoted strings, 4096 bytes
  with their terminators, is read back as these words and no more of the input is used.
\<close>

theorem line_read_back:
  assumes ws: "\<forall>w\<in>set ws. lexeme w" "length ws < ARGS_LEN" "room ws \<le> LINEBUF_LEN"
  shows "\<exists>st'. get_args (st\<lparr>input := print_line ws @ r\<rparr>) = Inr st' \<and> words_from st' 0 = Inr ws \<and> input st' = r"
proof -
  have k: "kept_args (print_line ws @ r) = ws"
    using ws(1,2) c_string_id by (simp add: kept_args_def scan_print map_idI)
  obtain st' where st': "get_args (st\<lparr>input := print_line ws @ r\<rparr>) = Inr st'" "input st' = r"
    "scanned ws (length ws) (room ws) st'"
    using get_args_ok(1) [of "st\<lparr>input := print_line ws @ r\<rparr>"] ws(3) by (auto simp: k scan_print [OF ws(1)])
  then show ?thesis using words_from_scanned [OF st'(3), of 0] by auto
qed

theorem line_read_back_witness:
  "\<exists>st'. get_args (lexer0 []\<lparr>input := print_line [''ls'', ''|&'', [CHR 0x22, CHR ''a'', CHR '';'', CHR 0x22]] @ ''pwd''\<rparr>) = Inr st' \<and>
    words_from st' 0 = Inr [''ls'', ''|&'', [CHR 0x22, CHR ''a'', CHR '';'', CHR 0x22]] \<and> input st' = ''pwd''"
proof (rule line_read_back)
  have "lexeme [CHR 0x22, CHR ''a'', CHR '';'', CHR 0x22]"
    unfolding lexeme_def by (intro conjI disjI2 exI [of _ "CHR 0x22"] exI [of _ "''a;''"]) (simp_all add: quote_char_def)
  then show "\<forall>w\<in>set [''ls'', ''|&'', [CHR 0x22, CHR ''a'', CHR '';'', CHR 0x22]]. lexeme w"
    by (simp add: lexeme_def word_char_def special_char_def)
qed (simp_all add: ARGS_LEN_def LINEBUF_LEN_def)

section \<open>The actions of a line\<close>

text \<open>
  The actions as a function of the words alone; \<open>acc\<close> are those since the last semicolon or \<open>cd\<close>.
\<close>

function line_actions :: "string list \<Rightarrow> string list \<Rightarrow> action list" where
  "line_actions acc [] = (if acc = [] then [] else [Run acc])"
| "line_actions acc (w # ws) =
    (if w = ''cd''
     then (case ws of
         [] \<Rightarrow> [Chdir_home]
       | d # rest \<Rightarrow>
           if d = '';'' then Chdir_home # line_actions [] rest
           else Chdir d # line_actions [] (case rest of _ # x # r \<Rightarrow> if x = '';'' then r else rest | _ \<Rightarrow> rest))
     else if w = '';'' then Run acc # line_actions [] ws
     else line_actions (acc @ [w]) ws)"
  by pat_completeness auto
termination
  by (relation "measure (\<lambda>(acc, ws). length ws)") (auto split: list.splits)

text \<open>
  What the loop does as a function of the whole array of words, of which the line is the part up to the
  first null entry: after \<open>cd\<close> and a directory the entry after the next one decides where it goes on.
\<close>

fun after :: "action \<Rightarrow> fault + action list \<Rightarrow> fault + action list" where
  "after x (Inr xs) = Inr (x # xs)"
| "after x (Inl f) = Inl f"

function memory_actions :: "string list \<Rightarrow> string option list \<Rightarrow> fault + action list" where
  "memory_actions acc [] = Inl Overflow"
| "memory_actions acc (None # M) = Inr (if acc = [] then [] else [Run acc])"
| "memory_actions acc (Some w # M) =
    (if w = ''cd''
     then (case M of
         [] \<Rightarrow> Inl Overflow
       | None # _ \<Rightarrow> Inr [Chdir_home]
       | Some d # rest \<Rightarrow>
           if d = '';'' then after Chdir_home (memory_actions [] rest)
           else (case rest of
               _ # x # r \<Rightarrow> after (Chdir d) (memory_actions [] (if x = Some '';'' then r else rest))
             | _ \<Rightarrow> Inl Overflow))
     else if w = '';'' then after (Run acc) (memory_actions [] M)
     else memory_actions (acc @ [w]) M)"
  by pat_completeness auto
termination
  by (relation "measure (\<lambda>(acc, M). length M)") (auto split: list.splits option.splits)

lemma memory_cd:
  "d \<noteq> '';'' \<Longrightarrow> memory_actions acc (Some ''cd'' # Some d # y # x # r) =
    after (Chdir d) (memory_actions [] (if x = Some '';'' then r else y # x # r))"
  by (subst memory_actions.simps) (simp del: memory_actions.simps)

lemma memory_cd_short: "d \<noteq> '';'' \<Longrightarrow> length M \<le> 1 \<Longrightarrow> memory_actions acc (Some ''cd'' # Some d # M) = Inl Overflow"
  by (cases M) auto

text \<open>Every entry that is not null points to a terminated string, so that it can be read.\<close>

definition lexer_ok :: "lexer \<Rightarrow> bool" where
  "lexer_ok st \<longleftrightarrow> (\<forall>k<ARGS_LEN. \<forall>p. args_mem st k = Some p \<longrightarrow> (\<exists>q\<in>{p..<LINEBUF_LEN}. linebuf st q = NUL))"

lemma lexer_ok0: "lexer_ok (lexer0 s)"
  by (simp add: lexer_ok_def lexer0_def)

lemma cstr_ok: "p \<le> q \<Longrightarrow> q < LINEBUF_LEN \<Longrightarrow> buf q = NUL \<Longrightarrow> \<exists>w. cstr buf p = Inr w"
proof (induction "q - p" arbitrary: p)
  case 0
  then show ?case by (subst cstr.simps) simp
next
  case (Suc x)
  have "\<exists>w. cstr buf (p + 1) = Inr w" using Suc(1) [of "p + 1"] Suc(2-) by simp
  then show ?case using Suc(2-) by (subst cstr.simps) auto
qed

definition array_of :: "lexer \<Rightarrow> string option list" where
  "array_of st = map (\<lambda>k. case arg st k of Inr x \<Rightarrow> x | Inl _ \<Rightarrow> None) [0..<ARGS_LEN]"

lemma length_array_of [simp]: "length (array_of st) = ARGS_LEN"
  by (simp add: array_of_def)

lemma arg_array:
  assumes "lexer_ok st" "k < ARGS_LEN"
  shows "arg st k = Inr (array_of st ! k)"
proof -
  have "\<exists>x. arg st k = Inr x"
  proof (cases "args_mem st k")
    case (Some p)
    then obtain q where "q \<in> {p..<LINEBUF_LEN}" "linebuf st q = NUL" using assms unfolding lexer_ok_def by blast
    then obtain w where "cstr (linebuf st) p = Inr w" using cstr_ok [of p q] by auto
    then show ?thesis using assms(2) Some by (simp add: arg_def)
  qed (use assms(2) in \<open>simp add: arg_def\<close>)
  then show ?thesis using assms(2) by (auto simp: array_of_def)
qed

lemma lexer_ok_scanned:
  assumes ok: "lexer_ok st" and s: "scanned ws n p st'" "same_beyond n p st st'"
  shows "lexer_ok st'"
  unfolding lexer_ok_def
proof (intro allI impI)
  fix k r assume k: "k < ARGS_LEN" and r: "args_mem st' k = Some r"
  have n: "n = length ws" "p = room ws" "p \<le> LINEBUF_LEN" using s(1) by (simp_all add: scanned_def)
  have word: "room (take j ws) + length (ws ! j) < p \<and> linebuf st' (room (take j ws) + length (ws ! j)) = NUL"
    if "j < n" for j
    using s(1) that room_take [of j ws] n by (simp add: scanned_def stored_def)
  consider "k < n" | "k = n" | "n < k" by linarith
  then show "\<exists>q\<in>{r..<LINEBUF_LEN}. linebuf st' q = NUL"
  proof cases
    case 1
    then have "r = room (take k ws)" using s(1) r by (simp add: scanned_def)
    then show ?thesis using word [OF 1] n(3) by (intro bexI [of _ "r + length (ws ! k)"]) simp_all
  next
    case 2
    have "args_mem st' n = None" using s(1) unfolding scanned_def by blast
    then show ?thesis using 2 r by simp
  next
    case 3
    then have "args_mem st k = Some r" using s(2) r by (simp add: same_beyond_def)
    then obtain q where q: "q \<in> {r..<LINEBUF_LEN}" "linebuf st q = NUL" using ok k unfolding lexer_ok_def by blast
    show ?thesis
    proof (cases "p \<le> q")
      case True
      then show ?thesis using q s(2) by (intro bexI [of _ q]) (simp_all add: same_beyond_def)
    next
      case False
      then have "ws \<noteq> []" using n(2) by auto
      then have l: "n - 1 < n" "ws = take (n - 1) ws @ [ws ! (n - 1)]"
        using n(1) take_Suc_conv_app_nth [of "n - 1" ws] by simp_all
      have "room ws = room (take (n - 1) ws) + (length (ws ! (n - 1)) + 1)" by (subst l(2)) simp
      then have "linebuf st' (p - 1) = NUL" using word [OF l(1)] n(2) by simp
      then show ?thesis using False q(1) n(3) by (intro bexI [of _ "p - 1"]) auto
    qed
  qed
qed

text \<open>What the loop and the last command come to together.\<close>

definition finish :: "lexer \<Rightarrow> fault + (nat \<times> action list) \<Rightarrow> fault + action list" where
  "finish st r = and_then r (\<lambda>(base, xs). and_then (arg st base) (\<lambda>a.
      if a = None then Inr xs else and_then (words_from st base) (\<lambda>ws. Inr (xs @ [Run ws]))))"

lemma finish_cons: "finish st (and_then r (\<lambda>(e, xs). Inr (e, x # xs))) = after x (finish st r)"
proof (cases r)
  case (Inr p)
  then show ?thesis
    by (cases p; cases "arg st (fst p)"; cases "words_from st (fst p)") (simp_all add: finish_def)
qed (simp add: finish_def)

lemma words_array:
  assumes "lexer_ok st"
  shows "b + length acc < ARGS_LEN \<Longrightarrow> \<forall>j<length acc. array_of st ! (b + j) = Some (acc ! j) \<Longrightarrow>
    subarray_of st b (length acc) = Inr acc \<and>
    (array_of st ! (b + length acc) = None \<longrightarrow> words_from st b = Inr acc)"
proof (induction acc arbitrary: b)
  case Nil
  then show ?case using arg_array [OF assms, of b] by (subst words_from.simps) simp
next
  case (Cons w acc)
  have w: "arg st b = Inr (Some w)" using arg_array [OF assms, of b] Cons.prems by auto
  have "\<forall>j<length acc. array_of st ! (b + 1 + j) = Some (acc ! j)" using Cons.prems(2) by auto
  then show ?case using Cons.IH [of "b + 1"] Cons.prems(1) w by (subst words_from.simps) simp
qed

lemma drop_array: "k < ARGS_LEN \<Longrightarrow> drop k (array_of st) = array_of st ! k # drop (k + 1) (array_of st)"
  by (simp add: Cons_nth_drop_Suc)

lemma line_loop_memory:
  assumes ok: "lexer_ok st"
  shows "b + length acc \<le> ARGS_LEN \<Longrightarrow> \<forall>j<length acc. array_of st ! (b + j) = Some (acc ! j) \<Longrightarrow>
    finish st (line_loop st b (length acc)) = memory_actions acc (drop (b + length acc) (array_of st))"
proof (induction "ARGS_LEN - (b + length acc)" arbitrary: b acc rule: less_induct)
  case less
  let ?k = "b + length acc" and ?A = "array_of st"
  note L = line_loop.simps [of st b "length acc"] and A = arg_array [OF ok] and D = drop_array [of _ st]
  have fresh: "finish st (line_loop st b' 0) = memory_actions [] (drop b' ?A)" if "?k < b'" "b' \<le> ARGS_LEN" for b'
    using less.hyps [of b' "[]"] that by simp
  show ?case
  proof (cases "?k < ARGS_LEN")
    case False
    then show ?thesis using less.prems(1) L by (simp add: finish_def)
  next
    case True
    note W = words_array [OF ok True less.prems(2)] and ak = A [OF True] and dk = D [OF True]
    show ?thesis
    proof (cases "?A ! ?k")
      case None
      have l: "line_loop st b (length acc) = Inr (b, [])" using L True ak None by simp
      have ab: "arg st b = Inr (?A ! b)" using A [of b] True by simp
      show ?thesis
      proof (cases acc)
        case Nil
        then show ?thesis using None l dk ab by (simp add: finish_def)
      next
        case (Cons a acc')
        then have "?A ! b = Some a" using less.prems(2) by auto
        then show ?thesis using None l dk ab W Cons by (simp add: finish_def)
      qed
    next
      case (Some w)
      have ak: "arg st ?k = Inr (Some w)" using ak Some by simp
      have dk: "drop ?k ?A = Some w # drop (?k + 1) ?A" using dk Some by simp
      consider "w = ''cd''" | "w = '';''" | "w \<noteq> ''cd''" "w \<noteq> '';''" by blast
      then show ?thesis
      proof cases
        case 3
        have l: "line_loop st b (length acc) = line_loop st b (length (acc @ [w]))" using L True ak 3 by simp
        have "\<forall>j<length (acc @ [w]). ?A ! (b + j) = Some ((acc @ [w]) ! j)"
          using less.prems(2) Some by (auto simp: nth_append less_Suc_eq)
        then have "finish st (line_loop st b (length (acc @ [w]))) = memory_actions (acc @ [w]) (drop (?k + 1) ?A)"
          using less.hyps [of b "acc @ [w]"] True by simp
        then show ?thesis unfolding l dk using 3 by simp
      next
        case 2
        have l: "line_loop st b (length acc) = and_then (line_loop st (?k + 1) 0) (\<lambda>(e, xs). Inr (e, Run acc # xs))"
          using L True ak 2 W by simp
        show ?thesis unfolding l dk finish_cons using 2 True fresh [of "?k + 1"] by simp
      next
        case cd: 1
        show ?thesis
        proof (cases "?k + 1 < ARGS_LEN")
          case False
          then have "arg st (?k + 1) = Inl Overflow" by (simp add: arg_def)
          then show ?thesis using L True ak cd dk False by (simp add: finish_def)
        next
          case two: True
          note a1 = A [OF two] and d1 = D [OF two]
          show ?thesis
          proof (cases "?A ! (?k + 1)")
            case None
            have l: "line_loop st b (length acc) = and_then (line_loop st (?k + 1) 0) (\<lambda>(e, xs). Inr (e, Chdir_home # xs))"
              using L True ak cd a1 None by simp
            show ?thesis unfolding l dk finish_cons using fresh [of "?k + 1"] two d1 None cd by simp
          next
            case d: (Some d)
            have d1: "drop (?k + 1) ?A = Some d # drop (?k + 2) ?A" using d1 d by simp
            show ?thesis
            proof (cases "d = '';''")
              case True
              have l: "line_loop st b (length acc) = and_then (line_loop st (?k + 2) 0) (\<lambda>(e, xs). Inr (e, Chdir_home # xs))"
                using L \<open>?k < ARGS_LEN\<close> ak cd a1 d True by simp
              show ?thesis unfolding l dk d1 finish_cons using fresh [of "?k + 2"] two cd True by simp
            next
              case nd: False
              show ?thesis
              proof (cases "?k + 3 < ARGS_LEN")
                case False
                then have "arg st (?k + 3) = Inl Overflow" by (simp add: arg_def)
                then have l: "line_loop st b (length acc) = Inl Overflow" using L True ak cd a1 d nd by (simp add: numeral_3_eq_3)
                have "length (drop (?k + 2) ?A) \<le> 1" using False by simp
                then have "memory_actions acc (drop ?k ?A) = Inl Overflow"
                  unfolding dk d1 cd by (rule memory_cd_short [OF nd])
                then show ?thesis using l by (simp add: finish_def)
              next
                case four: True
                define b' where "b' = (if ?A ! (?k + 3) = Some '';'' then ?k + 4 else ?k + 2)"
                have l: "line_loop st b (length acc) = and_then (line_loop st b' 0) (\<lambda>(e, xs). Inr (e, Chdir d # xs))"
                  using L True ak cd a1 d nd A [OF four] by (simp add: numeral_3_eq_3 b'_def numeral_eq_Suc)
                have d3: "drop (?k + 2) ?A = ?A ! (?k + 2) # ?A ! (?k + 3) # drop (?k + 4) ?A"
                  using D [of "?k + 2"] D [of "?k + 3"] four by (simp add: numeral_eq_Suc)
                have "finish st (line_loop st b' 0) = memory_actions [] (drop b' ?A)" using fresh [of b'] four by (simp add: b'_def)
                then show ?thesis unfolding l dk d1 finish_cons using cd nd d3 by (simp add: b'_def)
              qed
            qed
          qed
        qed
      qed
    qed
  qed
qed

lemma run_line_memory: "lexer_ok st \<Longrightarrow> run_line st = memory_actions [] (array_of st)"
  using line_loop_memory [of st 0 "[]"] by (simp add: run_line_def finish_def)

text \<open>A line that does not end in \<open>cd\<close> and a directory, or for which no semicolon is found beyond it.\<close>

lemma memory_actions_line:
  "(\<forall>us d. ws = us @ [''cd'', d] \<longrightarrow> d = '';'') \<or> (\<exists>y M'. M = y # M' \<and> y \<noteq> Some '';'') \<Longrightarrow>
    memory_actions acc (map Some ws @ None # M) = Inr (line_actions acc ws)"
proof (induction acc ws rule: line_actions.induct)
  case (2 acc w ws)
  have tl: "(\<forall>us d. vs = us @ [''cd'', d] \<longrightarrow> d = '';'') \<or> (\<exists>y M'. M = y # M' \<and> y \<noteq> Some '';'')" if "w # ws = us @ vs" for us vs
    using "2.prems" that by (metis append_assoc)
  show ?case
  proof (cases "w = ''cd''")
    case False
    then show ?thesis using "2.IH" tl [of "[w]" ws] by (cases "w = '';''") simp_all
  next
    case cd: True
    show ?thesis
    proof (cases ws)
      case (Cons d rest)
      note t2 = tl [of "[w, d]" rest]
      show ?thesis
      proof (cases "d = '';''")
        case True
        then show ?thesis using "2.IH"(1) [OF cd Cons True] t2 by (simp add: cd Cons)
      next
        case nd: False
        show ?thesis
        proof (cases rest)
          case Nil
          have "\<not> (\<forall>us d. w # ws = us @ [''cd'', d] \<longrightarrow> d = '';'')" using nd by (auto simp: cd Cons Nil)
          then obtain y M' where "M = y # M'" "y \<noteq> Some '';''" using "2.prems" by blast
          then show ?thesis using nd by (simp add: cd Cons Nil)
        next
          case r: (Cons x1 r1)
          note I = "2.IH"(2) [OF cd Cons nd]
          show ?thesis
          proof (cases r1)
            case Nil
            then show ?thesis using I nd t2 by (simp add: cd Cons r)
          next
            case (Cons x2 r2)
            define next_ws where "next_ws = (if x2 = '';'' then r2 else rest)"
            have "(\<forall>us d. next_ws = us @ [''cd'', d] \<longrightarrow> d = '';'') \<or> (\<exists>y M'. M = y # M' \<and> y \<noteq> Some '';'')"
              using t2 tl [of "[w, d, x1, x2]" r2] by (auto simp: next_ws_def \<open>ws = d # rest\<close> r Cons)
            then have I': "memory_actions [] (map Some next_ws @ None # M) = Inr (line_actions [] next_ws)"
              using I by (simp add: r Cons next_ws_def)
            have "memory_actions acc (map Some (w # ws) @ None # M) = after (Chdir d) (memory_actions [] (map Some next_ws @ None # M))"
              by (simp add: cd \<open>ws = d # rest\<close> r Cons next_ws_def memory_cd [OF nd] del: memory_actions.simps)
            moreover have "line_actions acc (w # ws) = Chdir d # line_actions [] next_ws"
              by (subst line_actions.simps) (simp add: cd \<open>ws = d # rest\<close> nd r Cons next_ws_def del: line_actions.simps)
            ultimately show ?thesis using I' by simp
          qed
        qed
      qed
    qed (simp add: cd)
  qed
qed simp

lemma arg_words: "scanned ws n p st \<Longrightarrow> k \<le> n \<Longrightarrow> arg st k = Inr (if k < n then Some (ws ! k) else None)"
  using arg_scanned arg_scanned_end by (cases "k < n") auto

lemma array_scanned:
  assumes ok: "lexer_ok st'" and s: "scanned ws n p st'"
  obtains M where "array_of st' = map Some ws @ None # M" "length M = ARGS_LEN - (n + 1)"
proof -
  have n: "n = length ws" "n < ARGS_LEN" using s by (simp_all add: scanned_def)
  have e: "array_of st' ! k = (if k < n then Some (ws ! k) else None)" if "k \<le> n" for k
    using arg_words [OF s that] arg_array [OF ok, of k] that n(2) by simp
  have "take n (array_of st') = map Some ws" using e n by (intro nth_equalityI) simp_all
  moreover have "drop n (array_of st') = None # drop (n + 1) (array_of st')" using drop_array [OF n(2)] e [of n] by simp
  ultimately have "array_of st' = map Some ws @ None # drop (n + 1) (array_of st')" by (metis append_take_drop_id)
  then show ?thesis using that [of "drop (n + 1) (array_of st')"] by simp
qed

text \<open>What an earlier line left beyond the new one is still there.\<close>

lemma stale_entry:
  assumes ok: "lexer_ok st" "lexer_ok st'" and same: "same_beyond n p st st'"
    and k: "n < k" "k < ARGS_LEN" "\<forall>q. args_mem st k = Some q \<longrightarrow> p \<le> q"
  shows "array_of st' ! k = array_of st ! k"
proof -
  have cs: "p \<le> i \<Longrightarrow> cstr (linebuf st') i = cstr (linebuf st) i" for i
  proof (induction "LINEBUF_LEN - i" arbitrary: i rule: less_induct)
    case less
    then show ?case using same unfolding same_beyond_def by (subst (1 2) cstr.simps) auto
  qed
  have "args_mem st' k = args_mem st k" using same k(1) by (simp add: same_beyond_def)
  then have "arg st' k = arg st k" using cs k(3) by (simp add: arg_def split: option.split)
  then show ?thesis using arg_array [OF ok(1) k(2)] arg_array [OF ok(2) k(2)] by simp
qed

lemma turn_ok:
  fixes st :: lexer
  defines "ws \<equiv> kept_args (input st)"
  assumes ok: "lexer_ok st" and r: "room ws \<le> LINEBUF_LEN"
  obtains st' M where "input st' = snd (scan (input st))" "lexer_ok st'" "scanned ws (length ws) (room ws) st'"
    "same_beyond (length ws) (room ws) st st'" "array_of st' = map Some ws @ None # M"
    "turn st = (if ws = [] then Inr (False, [], st') else if hd ws = ''exit'' then Inr (True, [], st')
      else and_then (memory_actions [] (map Some ws @ None # M)) (\<lambda>xs. Inr (False, xs, st')))"
proof -
  obtain st' where st': "get_args st = Inr st'" "input st' = snd (scan (input st))" "scanned ws (length ws) (room ws) st'"
      "same_beyond (length ws) (room ws) st st'"
    using get_args_ok(1) [of st] r unfolding ws_def by blast
  have ok': "lexer_ok st'" by (rule lexer_ok_scanned [OF ok st'(3,4)])
  obtain M where M: "array_of st' = map Some ws @ None # M" by (rule array_scanned [OF ok' st'(3)])
  have "turn st = (if ws = [] then Inr (False, [], st') else if hd ws = ''exit'' then Inr (True, [], st')
      else and_then (memory_actions [] (map Some ws @ None # M)) (\<lambda>xs. Inr (False, xs, st')))"
    using st'(1) words_from_scanned [OF st'(3), of 0] arg_words [OF st'(3), of 0]
    by (simp add: turn_def run_line_memory [OF ok'] M hd_conv_nth)
  then show ?thesis using that st'(2-4) ok' M by blast
qed

text \<open>
  C3: One turn of the shell, in any state that the program can be in (every entry of the array that
  is not null points to a terminated string, which holds at the start and after every turn that does
  not overflow). A line too long for the buffer overflows it; an empty line does nothing; a line that
  starts with \<open>exit\<close> ends the shell. Any other has the actions that \<open>memory_actions\<close> gives for the array,
  which is the first 255 words of the line, a null entry, and entries of earlier lines; of these the
  ones whose string lies beyond the new line are unchanged. What earlier lines left matters only
  if the line ends in \<open>cd\<close> and a directory, and the second entry beyond that is a semicolon or outside the array:
  else the actions are those that \<open>line_actions\<close> gives for the words of the line alone. No more than the line is read.
\<close>

theorem turn_refines:
  fixes st :: lexer
  defines "ws \<equiv> kept_args (input st)"
  assumes "lexer_ok st"
  shows "(LINEBUF_LEN < room ws \<longrightarrow> turn st = Inl Overflow) \<and>
    (room ws \<le> LINEBUF_LEN \<longrightarrow> (\<exists>st' M. input st' = snd (scan (input st)) \<and> lexer_ok st' \<and>
      array_of st' = map Some ws @ None # M \<and>
      (\<forall>k. length ws < k \<and> k < ARGS_LEN \<and> (\<forall>q. args_mem st k = Some q \<longrightarrow> room ws \<le> q) \<longrightarrow> array_of st' ! k = array_of st ! k) \<and>
      turn st = (if ws = [] then Inr (False, [], st') else if hd ws = ''exit'' then Inr (True, [], st')
        else and_then (memory_actions [] (map Some ws @ None # M)) (\<lambda>xs. Inr (False, xs, st'))) \<and>
      ((\<forall>us d. ws = us @ [''cd'', d] \<longrightarrow> d = '';'') \<or> M \<noteq> [] \<and> hd M \<noteq> Some '';'' \<longrightarrow>
        memory_actions [] (map Some ws @ None # M) = Inr (line_actions [] ws))))"
proof (intro conjI impI)
  show "LINEBUF_LEN < room ws \<Longrightarrow> turn st = Inl Overflow" using get_args_ok(2) [of st] by (simp add: ws_def turn_def)
  assume r: "room ws \<le> LINEBUF_LEN"
  obtain st' M where T: "input st' = snd (scan (input st))" "lexer_ok st'" "same_beyond (length ws) (room ws) st st'"
    "array_of st' = map Some ws @ None # M"
    "turn st = (if ws = [] then Inr (False, [], st') else if hd ws = ''exit'' then Inr (True, [], st')
      else and_then (memory_actions [] (map Some ws @ None # M)) (\<lambda>xs. Inr (False, xs, st')))"
    using turn_ok [OF assms(2), folded ws_def, OF r] by blast
  have "memory_actions [] (map Some ws @ None # M) = Inr (line_actions [] ws)"
    if "(\<forall>us d. ws = us @ [''cd'', d] \<longrightarrow> d = '';'') \<or> M \<noteq> [] \<and> hd M \<noteq> Some '';''"
    using that by (intro memory_actions_line) (metis list.collapse)
  then show "\<exists>st' M. input st' = snd (scan (input st)) \<and> lexer_ok st' \<and>
      array_of st' = map Some ws @ None # M \<and>
      (\<forall>k. length ws < k \<and> k < ARGS_LEN \<and> (\<forall>q. args_mem st k = Some q \<longrightarrow> room ws \<le> q) \<longrightarrow> array_of st' ! k = array_of st ! k) \<and>
      turn st = (if ws = [] then Inr (False, [], st') else if hd ws = ''exit'' then Inr (True, [], st')
        else and_then (memory_actions [] (map Some ws @ None # M)) (\<lambda>xs. Inr (False, xs, st'))) \<and>
      ((\<forall>us d. ws = us @ [''cd'', d] \<longrightarrow> d = '';'') \<or> M \<noteq> [] \<and> hd M \<noteq> Some '';'' \<longrightarrow>
        memory_actions [] (map Some ws @ None # M) = Inr (line_actions [] ws))"
    using T stale_entry [OF assms(2) T(2,3)] by blast
qed

lemma input0: "input (lexer0 s) = s"
  by (simp add: lexer0_def)

text \<open>A line that ends in \<open>cd\<close> and a directory, as the first line, when the array is empty beyond it.\<close>

theorem turn_refines_witness:
  "\<exists>st'. turn (lexer0 ''ls ; cd x\<newline>'') = Inr (False, [Run [''ls''], Chdir ''x''], st')"
proof -
  have k: "kept_args ''ls ; cd x\<newline>'' = [''ls'', '';'', ''cd'', ''x'']"
    by code_simp
  let ?st = "lexer0 ''ls ; cd x\<newline>''" and ?ws = "[''ls'', '';'', ''cd'', ''x'']"
  have r: "room ?ws \<le> LINEBUF_LEN" and l: "\<And>k. (4::nat) < k \<Longrightarrow> length ?ws < k" by (simp_all add: LINEBUF_LEN_def)
  obtain st' M where T: "array_of st' = map Some ?ws @ None # M"
    "\<forall>k. 4 < k \<and> k < ARGS_LEN \<and> (\<forall>q. args_mem ?st k = Some q \<longrightarrow> room ?ws \<le> q) \<longrightarrow> array_of st' ! k = array_of ?st ! k"
    "turn ?st = (if ?ws = [] then Inr (False, [], st') else if hd ?ws = ''exit'' then Inr (True, [], st')
      else and_then (memory_actions [] (map Some ?ws @ None # M)) (\<lambda>xs. Inr (False, xs, st')))"
    "M \<noteq> [] \<and> hd M \<noteq> Some '';'' \<longrightarrow> memory_actions [] (map Some ?ws @ None # M) = Inr (line_actions [] ?ws)"
    using turn_refines [OF lexer_ok0 [of "''ls ; cd x\<newline>''"], unfolded input0 k] l r by blast
  have "array_of st' ! 5 = array_of ?st ! 5" using T(2) by (simp add: lexer0_def ARGS_LEN_def)
  also have "\<dots> = None" by (simp add: array_of_def lexer0_def arg_def ARGS_LEN_def)
  finally have "M ! 0 = None" using T(1) by simp
  moreover have "M \<noteq> []" using arg_cong [OF T(1), of length] by (auto simp: ARGS_LEN_def)
  ultimately have "M \<noteq> [] \<and> hd M \<noteq> Some '';''" by (simp add: hd_conv_nth)
  then show ?thesis using T(3,4) by simp
qed

section \<open>Beyond the end of the line\<close>

lemma memory_actions_beyond:
  assumes "d \<noteq> '';''" "memory_actions [] M = Inr xs"
  shows "''cd'' \<notin> set us \<Longrightarrow>
    memory_actions acc (map Some (us @ [''cd'', d]) @ None # Some '';'' # M) = Inr (line_actions acc (us @ [''cd'', d]) @ xs)"
proof (induction us arbitrary: acc)
  case Nil
  then show ?case using assms memory_cd [OF assms(1), of acc None "Some '';''" M] by simp
next
  case (Cons w us)
  then show ?case by (cases "w = '';''") auto
qed

lemma array_part:
  assumes "n \<le> length vs" "length vs < length A"
    and "\<forall>k. n \<le> k \<and> k \<le> length vs \<longrightarrow> A ! k = (if k < length vs then Some (vs ! k) else None)"
  obtains M where "drop n A = map Some (drop n vs) @ None # M"
proof -
  have "take (length vs - n) (drop n A) = map Some (drop n vs)" using assms by (intro nth_equalityI) simp_all
  moreover have "drop (length vs) A = None # drop (length vs + 1) A"
    using assms Cons_nth_drop_Suc [of "length vs" A] by simp
  ultimately have "drop n A = map Some (drop n vs) @ None # drop (length vs + 1) A"
    using append_take_drop_id [of "length vs - n" "drop n A"] assms(1) by simp
  then show ?thesis by (rule that)
qed

text \<open>
  C22: A line of words that ends in \<open>cd\<close> and a directory, after a longer line: the word of the longer line
  is looked at that is the second one beyond the end of the new line. If it is a semicolon, and the new line
  needs no more bytes than the words before it, then the words that follow it in the longer line are
  acted on again, after the new line's. (Both have no other look beyond their end: \<open>cd\<close> is in the new line
  only once, and what is acted on again does not end in \<open>cd\<close> and a directory.)
\<close>

theorem cd_runs_old_words:
  assumes old: "lexer_ok st" "scanned vs (length vs) (room vs) st" "vs ! n = '';''" "n < length vs"
      "\<forall>ts e. drop (n + 1) vs = ts @ [''cd'', e] \<longrightarrow> e = '';''"
    and ws: "kept_args (input st) = us @ [''cd'', d]" "''cd'' \<notin> set us" "hd (us @ [''cd'']) \<noteq> ''exit''" "d \<noteq> '';''"
      "n = length us + 3" "room (us @ [''cd'', d]) \<le> room (take n vs)"
  shows "\<exists>st'. turn st = Inr (False, line_actions [] (us @ [''cd'', d]) @ line_actions [] (drop (n + 1) vs), st')"
proof -
  let ?ws = "us @ [''cd'', d]"
  have vs: "length vs < ARGS_LEN" "room vs \<le> LINEBUF_LEN" using old(2) by (simp_all add: scanned_def)
  have "room ?ws \<le> LINEBUF_LEN" using ws(6) room_take [OF old(4)] vs(2) by linarith
  then obtain st' M where T: "lexer_ok st'" "same_beyond (length ?ws) (room ?ws) st st'" "array_of st' = map Some ?ws @ None # M"
    "turn st = (if ?ws = [] then Inr (False, [], st') else if hd ?ws = ''exit'' then Inr (True, [], st')
      else and_then (memory_actions [] (map Some ?ws @ None # M)) (\<lambda>xs. Inr (False, xs, st')))"
    using turn_ok [OF old(1), unfolded ws(1)] by blast
  have "array_of st' ! k = (if k < length vs then Some (vs ! k) else None)" if k: "n \<le> k" "k \<le> length vs" for k
  proof -
    have "take k vs = take n vs @ take (k - n) (drop n vs)" using k(1) take_add [of n "k - n" vs] by simp
    then have p: "room ?ws \<le> room (take k vs)" using ws(6) by simp
    have "args_mem st k = (if k < length vs then Some (room (take k vs)) else None)"
      using old(2) k(2) by (auto simp: scanned_def le_less)
    then have "array_of st' ! k = array_of st ! k"
      using p k vs(1) ws(5) by (intro stale_entry [OF old(1) T(1,2)]) (auto split: if_splits)
    then show ?thesis using arg_array [OF old(1), of k] arg_words [OF old(2) k(2)] k(2) vs(1) by simp
  qed
  then obtain M' where "drop n (array_of st') = map Some (drop n vs) @ None # M'"
    using array_part [of n vs "array_of st'"] old(4) vs(1) by auto
  then have "M = Some '';'' # map Some (drop (n + 1) vs) @ None # M'"
    using old(3,4) ws(5) by (simp add: T(3) Cons_nth_drop_Suc [symmetric])
  moreover have "memory_actions [] (map Some (drop (n + 1) vs) @ None # M') = Inr (line_actions [] (drop (n + 1) vs))"
    by (intro memory_actions_line disjI1 old(5))
  ultimately have "memory_actions [] (map Some ?ws @ None # M) = Inr (line_actions [] ?ws @ line_actions [] (drop (n + 1) vs))"
    using memory_actions_beyond [OF ws(4) _ ws(2)] by blast
  moreover have "hd ?ws \<noteq> ''exit''" using ws(3) by (cases us) auto
  ultimately show ?thesis using T(4) by auto
qed

theorem cd_runs_old_words_witness:
  "shell 2 (lexer0 ''ls a b ; rm\<newline>cd x\<newline>'') = Inr (False, [Run [''ls'', ''a'', ''b''], Run [''rm''], Chdir ''x'', Run [''rm'']])"
proof -
  define vs where "vs = [''ls'', ''a'', ''b'', '';'', ''rm'']"
  have k: "kept_args ''ls a b ; rm\<newline>cd x\<newline>'' = vs" "snd (scan ''ls a b ; rm\<newline>cd x\<newline>'') = ''cd x\<newline>''"
      "kept_args ''cd x\<newline>'' = [''cd'', ''x'']"
    unfolding vs_def by code_simp+
  have "room vs \<le> LINEBUF_LEN" by (simp add: vs_def LINEBUF_LEN_def)
  then obtain st M where st: "input st = ''cd x\<newline>''" "lexer_ok st" "scanned vs (length vs) (room vs) st"
      "turn (lexer0 ''ls a b ; rm\<newline>cd x\<newline>'') = (if vs = [] then Inr (False, [], st) else if hd vs = ''exit'' then Inr (True, [], st)
        else and_then (memory_actions [] (map Some vs @ None # M)) (\<lambda>xs. Inr (False, xs, st)))"
    using turn_ok [OF lexer_ok0 [of "''ls a b ; rm\<newline>cd x\<newline>''"], unfolded input0 k] by blast
  have "memory_actions [] (map Some vs @ None # M) = Inr (line_actions [] vs)"
    by (rule memory_actions_line) (auto simp: vs_def Cons_eq_append_conv)
  then have t: "turn (lexer0 ''ls a b ; rm\<newline>cd x\<newline>'') = Inr (False, [Run [''ls'', ''a'', ''b''], Run [''rm'']], st)"
    using st(4) by (simp add: vs_def)
  have e: "\<forall>ts e. drop (3 + 1) vs = ts @ [''cd'', e] \<longrightarrow> e = '';''" by (auto simp: vs_def Cons_eq_append_conv)
  have n: "vs ! 3 = '';''" "3 < length vs" by (simp_all add: vs_def)
  have x: "kept_args (input st) = [] @ [''cd'', ''x'']" using st(1) k(3) by simp
  have "\<exists>st'. turn st = Inr (False, line_actions [] ([] @ [''cd'', ''x'']) @ line_actions [] (drop (3 + 1) vs), st')"
    by (rule cd_runs_old_words [OF st(2,3) n e x]) (simp_all add: vs_def)
  then show ?thesis using t by (auto simp: vs_def numeral_2_eq_2)
qed

text \<open>
  At the end of its input the shell does not end: every further turn is one of an empty line.
\<close>

theorem shell_ignores_end_of_input:
  "shell n (lexer0 []) = Inr (False, [])"
proof -
  have "\<exists>st'. turn st = Inr (False, [], st') \<and> input st' = [] \<and> lexer_ok st'" if "input st = []" "lexer_ok st" for st
  proof -
    have "scan [] = ([], [])" by (subst scan.simps) simp
    then have k: "kept_args (input st) = []" "snd (scan (input st)) = []" using that by (simp_all add: kept_args_def)
    then show ?thesis using turn_ok [OF that(2)] by fastforce
  qed
  then have "input st = [] \<Longrightarrow> lexer_ok st \<Longrightarrow> shell n st = Inr (False, [])" for st
    by (induction n arbitrary: st) fastforce+
  then show ?thesis using lexer_ok0 [of "[]"] by (simp add: lexer0_def)
qed

end
