(* ===== verification/Shell_Run_Props.thy ===== *)
theory Shell_Run_Props
  imports Shell_Run
begin

text \<open>
  Properties of a command of the shell: how the programs of a pipeline are connected, which words a
  program gets after redirections, what a program that cannot be executed leads to, and which
  pipelines come to an end.
\<close>

section \<open>Descriptors\<close>

definition std_open :: "proc \<Rightarrow> bool" where
  "std_open P \<longleftrightarrow> fds P 0 \<noteq> None \<and> fds P 1 \<noteq> None \<and> fds P 2 \<noteq> None"

definition two_free :: "os \<Rightarrow> proc \<Rightarrow> bool" where
  "two_free E P \<longleftrightarrow> (\<exists>a b. a \<noteq> b \<and> a < open_max E \<and> b < open_max E \<and> fds P a = None \<and> fds P b = None)"

definition no_failures :: "os \<Rightarrow> bool" where
  "no_failures E \<longleftrightarrow> (\<forall>p. can_pipe E p) \<and> (\<forall>p. can_fork E p)"

lemma lowest_free_Some: "a < open_max E \<Longrightarrow> fds P a = None \<Longrightarrow> \<exists>n. lowest_free E P = Some n \<and> fds P n = None"
proof -
  assume a: "a < open_max E" "fds P a = None"
  have "lowest_free E P \<noteq> None" unfolding lowest_free_def find_None_iff using a by auto
  then obtain n where n: "lowest_free E P = Some n" by blast
  then have "fds P n = None" unfolding lowest_free_def find_Some_iff by auto
  then show ?thesis using n by blast
qed

lemma two_free_same: "two_free E P \<Longrightarrow> \<forall>n. (fds Q n = None) = (fds P n = None) \<Longrightarrow> two_free E Q"
  by (simp add: two_free_def)

text \<open>The pipe a process makes next, and its ends.\<close>

definition rd_end :: "proc \<Rightarrow> handle" where "rd_end P = Read_end (name P, pipes P)"
definition wr_end :: "proc \<Rightarrow> handle" where "wr_end P = Write_end (name P, pipes P)"

lemma pipe_ok:
  assumes "two_free E P" "no_failures E"
  shows "\<exists>rd wr. pipe E P = Some (rd, wr, P\<lparr>fds := (fds P)(rd := Some (rd_end P), wr := Some (wr_end P)), pipes := pipes P + 1\<rparr>) \<and>
    rd \<noteq> wr \<and> fds P rd = None \<and> fds P wr = None"
proof -
  obtain a b where ab: "a \<noteq> b" "a < open_max E" "b < open_max E" "fds P a = None" "fds P b = None"
    using assms(1) unfolding two_free_def by blast
  obtain rd where rd: "lowest_free E P = Some rd" "fds P rd = None" using lowest_free_Some ab(2,4) by blast
  let ?P = "set_fd rd (rd_end P) P"
  have "fds ?P a = None \<or> fds ?P b = None" using ab by (auto simp: set_fd_def)
  then obtain wr where wr: "lowest_free E ?P = Some wr" "fds ?P wr = None" using lowest_free_Some ab(2,3) by blast
  then have ne: "rd \<noteq> wr" "fds P wr = None" by (auto simp: set_fd_def split: if_splits)
  have "pipe E P = Some (rd, wr, P\<lparr>fds := (fds P)(rd := Some (rd_end P), wr := Some (wr_end P)), pipes := pipes P + 1\<rparr>)"
    using rd(1) wr(1) assms(2) by (simp add: pipe_def no_failures_def rd_end_def wr_end_def) (simp add: set_fd_def)
  then show ?thesis using rd(2) ne by blast
qed

text \<open>The process reading from the pipe, and the one writing to it, have no other end of it.\<close>

definition reader :: "proc \<Rightarrow> proc" where
  "reader P = (child P)\<lparr>fds := (fds P)(0 := Some (rd_end P))\<rparr>"

definition writer :: "string \<Rightarrow> proc \<Rightarrow> proc" where
  "writer op P = P\<lparr>fds := (if op = ''|&'' then (fds P)(1 := Some (wr_end P), 2 := Some (wr_end P)) else (fds P)(1 := Some (wr_end P))),
    forked := forked P + 1, pipes := pipes P + 1\<rparr>"

lemma std_same: "std_open P \<Longrightarrow> (fds (reader P) n = None) = (fds P n = None)"
  by (auto simp: std_open_def reader_def)

lemma piped:
  assumes p: "rd \<noteq> wr" "fds P rd = None" "fds P wr = None" and s: "std_open P"
  defines "P1 \<equiv> P\<lparr>fds := (fds P)(rd := Some (rd_end P), wr := Some (wr_end P)), pipes := pipes P + 1\<rparr>"
  shows "pipe_input_stdin rd wr (child P1) = reader P"
    and "op = ''|'' \<or> op = ''|&'' \<Longrightarrow>
      (if op = ''|&'' then pipe_output_stdout_and_stderr rd wr (after_fork P1) else pipe_output_stdout rd wr (after_fork P1)) = writer op P"
    and "close wr (after_fork (writer op P)) = after_fork (writer op P)" "name (child P1) = name (child P)"
proof -
  have n: "rd \<noteq> 0" "rd \<noteq> 1" "rd \<noteq> 2" "wr \<noteq> 0" "wr \<noteq> 1" "wr \<noteq> 2" using p s unfolding std_open_def by metis+
  show "pipe_input_stdin rd wr (child P1) = reader P"
    using p n by (simp add: P1_def pipe_input_stdin_def close_def dup2_def set_fd_def child_def reader_def fun_eq_iff)
  show "close wr (after_fork (writer op P)) = after_fork (writer op P)" "name (child P1) = name (child P)"
    using p n by (simp_all add: P1_def close_def writer_def child_def after_fork_def fun_eq_iff)
  assume "op = ''|'' \<or> op = ''|&''"
  then show "(if op = ''|&'' then pipe_output_stdout_and_stderr rd wr (after_fork P1) else pipe_output_stdout rd wr (after_fork P1)) = writer op P"
    using p n by (auto simp: P1_def pipe_output_stdout_def pipe_output_stdout_and_stderr_def close_def dup2_def set_fd_def
      after_fork_def writer_def fun_eq_iff)
qed

section \<open>The loop over the words\<close>

definition plain :: "string \<Rightarrow> bool" where
  "plain w \<longleftrightarrow> w \<notin> {''<'', ''>'', ''>>'', ''>&'', ''>>&'', ''|'', ''|&''}"

lemma plain_redirection: "plain w \<Longrightarrow> redirection w = None"
  by (simp add: plain_def redirection_def)

lemma pipe_redirection: "op = ''|'' \<or> op = ''|&'' \<Longrightarrow> redirection op = None"
  by (auto simp: redirection_def)

lemma loop_skip:
  "i + k \<le> length args \<Longrightarrow> \<forall>j. i \<le> j \<and> j < i + k \<longrightarrow> plain (args ! j) \<Longrightarrow>
    isolateRun_loop E args i new P = isolateRun_loop E args (i + k) new P"
proof (induction k arbitrary: i)
  case (Suc k)
  have "plain (args ! i)" using Suc.prems(2) by simp
  then have "isolateRun_loop E args i new P = isolateRun_loop E args (i + 1) new P"
    using Suc.prems(1) plain_redirection [of "args ! i"] by (subst isolateRun_loop.simps) (simp add: Let_def plain_def)
  also have "\<dots> = isolateRun_loop E args (i + 1 + k) new P" by (rule Suc.IH) (use Suc.prems in auto)
  finally show ?case by simp
qed simp

lemma loop_end:
  "isolateRun_loop E args (length args) new P = execute E args (case new of None \<Rightarrow> args | Some n \<Rightarrow> n) P Back"
  by (subst isolateRun_loop.simps) simp

lemma loop_plain_rest:
  assumes "\<forall>w\<in>set (drop i args). plain w" "i \<le> length args"
  shows "isolateRun_loop E args i new P = execute E args (case new of None \<Rightarrow> args | Some n \<Rightarrow> n) P Back"
proof -
  have "plain (args ! j)" if "i \<le> j" "j < length args" for j
    using assms(1) that nth_mem [of "j - i" "drop i args"] by simp
  then show ?thesis using loop_skip [of i "length args - i" args E new P] assms(2) loop_end by simp
qed

lemma loop_skip_front:
  assumes "\<forall>w\<in>set c. plain w"
  shows "isolateRun_loop E (c @ rest) 0 new P = isolateRun_loop E (c @ rest) (length c) new P"
  using loop_skip [of 0 "length c" "c @ rest" E new P] assms by (simp add: nth_append)

text \<open>A pipe operator: the tree of processes.\<close>

lemma loop_pipe:
  fixes rest :: "string list"
  assumes op: "op = ''|'' \<or> op = ''|&''" and c: "\<forall>w\<in>set c. plain w" and f: "no_failures E" "two_free E P" "std_open P"
  defines "args \<equiv> c @ op # rest"
  defines "k \<equiv> isolateRun_loop E args (length c + 1) (Some c)"
  shows "\<exists>F. name (child F) = name (child P) \<and> isolateRun E args P =
    Fork F (then_run (isolateRun E rest (reader P)) k)
      (let W = writer op P; V = after_fork W
       in Fork W (execute E args c (child W) k)
            (Wait V (Some (name (child W))) (Wait V (Some (name (child P))) (Exit V))))"
proof -
  obtain rd wr where p: "pipe E P = Some (rd, wr, P\<lparr>fds := (fds P)(rd := Some (rd_end P), wr := Some (wr_end P)), pipes := pipes P + 1\<rparr>)"
      "rd \<noteq> wr" "fds P rd = None" "fds P wr = None"
    using pipe_ok [OF f(2,1)] by blast
  define P1 where "P1 = P\<lparr>fds := (fds P)(rd := Some (rd_end P), wr := Some (wr_end P)), pipes := pipes P + 1\<rparr>"
  note Q = piped [OF p(2-4) f(3), folded P1_def]
  have ff: "can_fork E n" for n using f(1) by (simp add: no_failures_def)
  have sub: "subarray args (length c + 1) (length args) = rest" "subarray args 0 (length c) = c" "args ! length c = op"
    "length c < length args"
    by (simp_all add: subarray_def args_def)
  have "isolateRun E args P = isolateRun_loop E args (length c) None P"
    unfolding isolateRun_def args_def by (rule loop_skip_front [OF c])
  also have "\<dots> = fork E P1
      (\<lambda>C. then_run (isolateRun E rest (pipe_input_stdin rd wr C)) k)
      (\<lambda>pid1 P2. fork E (if op = ''|&'' then pipe_output_stdout_and_stderr rd wr P2 else pipe_output_stdout rd wr P2)
         (\<lambda>C. execute E args c C k)
         (\<lambda>pid2 P3. Wait P3 pid2 (Wait (close wr P3) pid1 (Exit (close wr P3)))))"
    using sub op p(1)
    by (subst isolateRun_loop.simps) (auto simp: Let_def pipe_redirection P1_def isolateRun_def k_def)
  also have "\<dots> = Fork P1 (then_run (isolateRun E rest (reader P)) k)
      (let W = writer op P; V = after_fork W
       in Fork W (execute E args c (child W) k)
            (Wait V (Some (name (child W))) (Wait V (Some (name (child P))) (Exit V))))"
    unfolding fork_def Q(2) [OF op] if_P [OF ff] Q(1,4) Let_def Q(3) [of op] by simp
  finally show ?thesis using Q(4) by (intro exI [of _ P1]) simp
qed

section \<open>The programs of a pipeline\<close>

text \<open>The programs run, with their words and descriptors; those of the parent first.\<close>

primrec execs :: "run \<Rightarrow> (string list \<times> (nat \<Rightarrow> handle option)) list" where
  "execs (Exec P c args) = [(args, fds P)]"
| "execs (Exit P) = []"
| "execs (Back P) = []"
| "execs (Undefined P) = []"
| "execs (Fork P c r) = execs r @ execs c"
| "execs (Wait P who r) = execs r"

primrec no_back :: "run \<Rightarrow> bool" where
  "no_back (Exec P c args) \<longleftrightarrow> c = hd args"
| "no_back (Exit P) \<longleftrightarrow> True"
| "no_back (Back P) \<longleftrightarrow> False"
| "no_back (Undefined P) \<longleftrightarrow> False"
| "no_back (Fork P c r) \<longleftrightarrow> no_back c \<and> no_back r"
| "no_back (Wait P who r) \<longleftrightarrow> no_back r"

lemma then_run_no_back [simp]: "no_back r \<Longrightarrow> then_run r k = r"
  by (induction r) auto

fun pipe_words :: "string list \<Rightarrow> (string \<times> string list) list \<Rightarrow> string list" where
  "pipe_words c [] = c"
| "pipe_words c ((op, d) # r) = c @ op # pipe_words d r"

text \<open>What a pipeline should be: each program with its words, each connected to the next.\<close>

fun wired :: "string list \<Rightarrow> (string \<times> string list) list \<Rightarrow> proc \<Rightarrow> (string list \<times> (nat \<Rightarrow> handle option)) list" where
  "wired c [] P = [(c, fds P)]"
| "wired c ((op, d) # r) P = (c, fds (writer op P)) # wired d r (reader P)"

definition runnable :: "os \<Rightarrow> string list \<Rightarrow> bool" where
  "runnable E c \<longleftrightarrow> c \<noteq> [] \<and> (\<forall>w\<in>set c. plain w) \<and> can_exec E (hd c)"

lemma execute_runnable: "runnable E c \<Longrightarrow> execute E (c @ rest) new P k = Exec P (hd c) new"
  by (cases c) (auto simp: runnable_def execute_def)

lemma isolate_plain: "runnable E c \<Longrightarrow> isolateRun E c P = Exec P (hd c) c"
  using loop_plain_rest [of 0 c E None P] execute_runnable [of E c "[]"] by (simp add: isolateRun_def runnable_def)

lemma pipeline_ok:
  assumes f: "no_failures E"
  shows "two_free E P \<Longrightarrow> std_open P \<Longrightarrow> runnable E c \<Longrightarrow>
    \<forall>(op, d)\<in>set r. (op = ''|'' \<or> op = ''|&'') \<and> runnable E d \<Longrightarrow>
    execs (isolateRun E (pipe_words c r) P) = wired c r P \<and> no_back (isolateRun E (pipe_words c r) P)"
proof (induction c r P rule: wired.induct)
  case (1 c P)
  then show ?case by (simp add: isolate_plain)
next
  case (2 c op d r P)
  have op: "op = ''|'' \<or> op = ''|&''" and d: "runnable E d" using 2(5) by auto
  have c: "\<forall>w\<in>set c. plain w" using 2(4) by (simp add: runnable_def)
  have s: "two_free E (reader P)" "std_open (reader P)"
    using two_free_same [OF 2(2)] std_same [OF 2(3)] 2(3) by (auto simp: std_open_def)
  have IH: "execs (isolateRun E (pipe_words d r) (reader P)) = wired d r (reader P) \<and> no_back (isolateRun E (pipe_words d r) (reader P))"
    by (rule 2(1) [OF s d]) (use 2(5) in simp)
  show ?case
    using loop_pipe [OF op c f 2(2,3), of "pipe_words d r"] IH
    by (auto simp: Let_def execute_runnable [OF 2(4)] child_def)
qed

text \<open>
  C2: A pipeline of any length runs each of its programs once, with its own words, its output (and
  with \<open>|&\<close> its errors) going to the next and its input coming from the one before; the
  other descriptors are the shell's, no program has another end of a pipe open, and no process
  comes back to the main loop.
\<close>

theorem pipeline_wired:
  assumes "no_failures E" "two_free E P" "std_open P" "runnable E c"
    and "\<forall>(op, d)\<in>set r. (op = ''|'' \<or> op = ''|&'') \<and> runnable E d"
  shows "execs (isolateRun E (pipe_words c r) P) = wired c r P \<and> no_back (isolateRun E (pipe_words c r) P)"
  by (rule pipeline_ok [OF assms])

definition os1 :: os where
  "os1 = \<lparr>open_max = 8, can_open = (\<lambda>_ _. True), can_exec = (\<lambda>c. c \<noteq> ''nosuch''), can_pipe = (\<lambda>_. True), can_fork = (\<lambda>_. True)\<rparr>"

definition shell1 :: proc where
  "shell1 = \<lparr>name = [0], fds = (\<lambda>n. if n < 3 then Some (Inherited n) else None), forked = 0, pipes = 0\<rparr>"

lemma os1_ok: "no_failures os1" "two_free os1 shell1" "std_open shell1"
proof -
  show "two_free os1 shell1"
    unfolding two_free_def by (rule exI [of _ 3], rule exI [of _ 4]) (simp add: os1_def shell1_def)
qed (simp_all add: no_failures_def os1_def std_open_def shell1_def)

theorem pipeline_wired_witness:
  "execs (isolateRun os1 [''cat'', ''f'', ''|'', ''sort'', ''|&'', ''head''] shell1) =
    [([''cat'', ''f''], (fds shell1)(1 := Some (Write_end ([0], 0)))),
     ([''sort''], (fds shell1)(0 := Some (Read_end ([0], 0)), 1 := Some (Write_end ([0, 0], 0)), 2 := Some (Write_end ([0, 0], 0)))),
     ([''head''], (fds shell1)(0 := Some (Read_end ([0, 0], 0))))]"
proof -
  have "execs (isolateRun os1 (pipe_words [''cat'', ''f''] [(''|'', [''sort'']), (''|&'', [''head''])]) shell1) =
      wired [''cat'', ''f''] [(''|'', [''sort'']), (''|&'', [''head''])] shell1 \<and>
    no_back (isolateRun os1 (pipe_words [''cat'', ''f''] [(''|'', [''sort'']), (''|&'', [''head''])]) shell1)"
    by (rule pipeline_wired [OF os1_ok]) (auto simp: runnable_def plain_def os1_def)
  then show ?thesis
    by (simp add: writer_def reader_def child_def rd_end_def wr_end_def) (simp add: shell1_def fun_eq_iff)
qed

text \<open>
  When the second program of a pipeline cannot be executed, the process that should have
  become it goes on with the words of the whole line and runs the first program again, now reading
  from the pipe that the first one writes to.
\<close>

theorem failed_exec_reruns:
  assumes f: "no_failures E" "two_free E P" "std_open P" "runnable E c" and op: "op = ''|'' \<or> op = ''|&''"
    and d: "d \<noteq> []" "\<forall>w\<in>set d. plain w" "\<not> can_exec E (hd d)"
  shows "execs (isolateRun E (pipe_words c [(op, d)]) P) = [(c, fds (writer op P)), (c, fds (reader P))]"
proof -
  have c: "\<forall>w\<in>set c. plain w" using f(4) by (simp add: runnable_def)
  have "isolateRun E d (reader P) = Back (reader P)"
    using loop_plain_rest [of 0 d E None "reader P"] d by (cases d) (simp_all add: isolateRun_def execute_def)
  moreover have "isolateRun_loop E (c @ op # d) (length c + 1) (Some c) Q = Exec Q (hd c) c" for Q
    using loop_plain_rest [of "length c + 1" "c @ op # d" E "Some c" Q] d(2) execute_runnable [OF f(4)] by simp
  ultimately show ?thesis
    using loop_pipe [OF op c f(1-3), of d] by (auto simp: Let_def execute_runnable [OF f(4)] child_def)
qed

theorem failed_exec_reruns_witness:
  "execs (isolateRun os1 [''rm'', ''f'', ''|'', ''nosuch''] shell1) =
    [([''rm'', ''f''], fds (writer ''|'' shell1)), ([''rm'', ''f''], fds (reader shell1))]"
  using failed_exec_reruns [OF os1_ok, of "[''rm'', ''f'']" "''|''" "[''nosuch'']"] by (simp add: runnable_def plain_def os1_def)

section \<open>Redirections\<close>

lemma redirect_ok:
  assumes "two_free E P" "std_open P" "can_open E g fl" "fd \<le> 2"
  shows "redirect E (Some g) fd fl P = Some (P\<lparr>fds := (fds P)(fd := Some (File g fl))\<rparr>)"
proof -
  obtain n where n: "lowest_free E P = Some n" "fds P n = None" using assms(1) lowest_free_Some unfolding two_free_def by blast
  have "n \<noteq> 0" "n \<noteq> 1" "n \<noteq> 2" using n(2) assms(2) unfolding std_open_def by metis+
  then have "n \<noteq> fd" using assms(4) by linarith
  then show ?thesis using n assms(3) by (simp add: redirect_def open_file_def close_def dup2_def set_fd_def fun_eq_iff)
qed

lemma two_redirections:
  assumes f: "two_free E P" "std_open P" "\<forall>g fl. can_open E g fl" and c: "runnable E c"
    and w: "plain g" "plain h" "redirection w1 = Some (\<lambda>E f. redirect E f fd1 fl1)" "redirection w2 = Some (\<lambda>E f. redirect E f fd2 fl2)"
      "fd1 \<le> 2" "fd2 \<le> 2"
  shows "isolateRun E (c @ [w1, g, w2, h]) P =
    Exec (P\<lparr>fds := (fds P)(fd1 := Some (File g fl1), fd2 := Some (File h fl2))\<rparr>) (hd c)
      (if w2 = ''<'' then c @ [w1, g] else c)"
proof -
  let ?a = "c @ [w1, g, w2, h]" and ?n = "length c"
  define P1 where "P1 = P\<lparr>fds := (fds P)(fd1 := Some (File g fl1))\<rparr>"
  have P1: "two_free E P1" "std_open P1"
  proof -
    have "fd1 = 0 \<or> fd1 = 1 \<or> fd1 = 2" using w(5) by linarith
    then have "\<forall>n. (fds P1 n = None) = (fds P n = None)" using f(2) by (auto simp: P1_def std_open_def)
    then show "two_free E P1" "std_open P1" using two_free_same [OF f(1), of P1] f(2) by (simp_all add: std_open_def)
  qed
  have r1: "redirect E (Some g) fd1 fl1 P = Some P1" using redirect_ok [OF f(1,2)] f(3) w(5) by (simp add: P1_def)
  have r2: "redirect E (Some h) fd2 fl2 P1 = Some (P1\<lparr>fds := (fds P1)(fd2 := Some (File h fl2))\<rparr>)"
    using redirect_ok [OF P1] f(3) w(6) by simp
  have nth: "?a ! ?n = w1" "?a ! (?n + 1) = g" "?a ! (?n + 2) = w2" "?a ! (?n + 3) = h" by (simp_all add: nth_append)
  have sub: "subarray ?a 0 ?n = c" "subarray ?a 0 (?n + 2) = c @ [w1, g]" by (simp_all add: subarray_def)
  have "isolateRun E ?a P = isolateRun_loop E ?a ?n None P"
    unfolding isolateRun_def by (rule loop_skip_front) (use c in \<open>simp add: runnable_def\<close>)
  also have "\<dots> = isolateRun_loop E ?a (?n + 1) (Some c) P1"
    using nth w(3) r1 sub by (subst isolateRun_loop.simps) (simp add: Let_def)
  also have "\<dots> = isolateRun_loop E ?a (?n + 2) (Some c) P1"
  proof -
    have "\<forall>j. ?n + 1 \<le> j \<and> j < ?n + 1 + 1 \<longrightarrow> plain (?a ! j)"
    proof (intro allI impI)
      fix j assume "?n + 1 \<le> j \<and> j < ?n + 1 + 1"
      then have "j = ?n + 1" by simp
      then show "plain (?a ! j)" using w(1) nth(2) by simp
    qed
    then show ?thesis using loop_skip [of "?n + 1" 1 ?a E "Some c" P1] by simp
  qed
  also have "\<dots> = isolateRun_loop E ?a (?n + 3) (Some (if w2 = ''<'' then c @ [w1, g] else c)) (P1\<lparr>fds := (fds P1)(fd2 := Some (File h fl2))\<rparr>)"
    using nth w(4) r2 sub by (subst isolateRun_loop.simps) (auto simp: Let_def numeral_3_eq_3 numeral_2_eq_2 subarray_def)
  also have "\<dots> = Exec (P1\<lparr>fds := (fds P1)(fd2 := Some (File h fl2))\<rparr>) (hd c) (if w2 = ''<'' then c @ [w1, g] else c)"
    using loop_plain_rest [of "?n + 3" ?a] w(2) execute_runnable [OF c] by (simp add: numeral_3_eq_3)
  finally show ?thesis by (simp add: P1_def)
qed

text \<open>
  C21: A command with input and output files runs with these as its input and output and nothing
  else changed. The file written to is never truncated. With the input file first the program gets
  its own words; with the output file first it also gets the operator and the name of the output file.
\<close>

theorem redirections:
  assumes "two_free E P" "std_open P" "\<forall>g fl. can_open E g fl" "runnable E c" "plain g" "plain h"
  shows "isolateRun E (c @ [''<'', g, ''>'', h]) P =
      Exec (P\<lparr>fds := (fds P)(0 := Some (File g {O_RDONLY}), 1 := Some (File h {O_RDWR, O_CREAT}))\<rparr>) (hd c) c \<and>
    isolateRun E (c @ [''>'', h, ''<'', g]) P =
      Exec (P\<lparr>fds := (fds P)(1 := Some (File h {O_RDWR, O_CREAT}), 0 := Some (File g {O_RDONLY}))\<rparr>) (hd c) (c @ [''>'', h])"
  using two_redirections [OF assms(1-4) assms(5,6), of "''<''" 0 "{O_RDONLY}" "''>''" 1 "{O_RDWR, O_CREAT}"]
    two_redirections [OF assms(1-4) assms(6,5), of "''>''" 1 "{O_RDWR, O_CREAT}" "''<''" 0 "{O_RDONLY}"]
  by (simp add: redirection_def)

theorem redirections_witness:
  "isolateRun os1 [''sort'', ''>'', ''out'', ''<'', ''in''] shell1 =
    Exec (shell1\<lparr>fds := (fds shell1)(1 := Some (File ''out'' {O_RDWR, O_CREAT}), 0 := Some (File ''in'' {O_RDONLY}))\<rparr>) ''sort''
      [''sort'', ''>'', ''out'']"
  using redirections [OF os1_ok(2,3), of "[''sort'']" "''in''" "''out''"] by (simp add: os1_def runnable_def plain_def)

section \<open>Which pipelines end\<close>

text \<open>
  The processes that run, by name. A program that reads its input to the end stays until no process
  has an end of the pipe open that could still write to it.
\<close>

type_synonym procs = "pname \<Rightarrow> run option"

primrec proc_of :: "run \<Rightarrow> proc" where
  "proc_of (Exec P c args) = P"
| "proc_of (Exit P) = P"
| "proc_of (Back P) = P"
| "proc_of (Undefined P) = P"
| "proc_of (Fork P c r) = P"
| "proc_of (Wait P who r) = P"

definition writers :: "procs \<Rightarrow> pipe_id \<Rightarrow> bool" where
  "writers C i \<longleftrightarrow> (\<exists>p r n. C p = Some r \<and> fds (proc_of r) n = Some (Write_end i))"

inductive proc_step :: "(string \<Rightarrow> bool) \<Rightarrow> procs \<Rightarrow> procs \<Rightarrow> bool" for to_eof :: "string \<Rightarrow> bool" where
  Forks: "C p = Some (Fork P c r) \<Longrightarrow> proc_step to_eof C (C(p := Some r, name (child P) := Some c))"
| Waits: "C p = Some (Wait P (Some q) r) \<Longrightarrow> C q = None \<Longrightarrow> proc_step to_eof C (C(p := Some r))"
| Waits_any: "C p = Some (Wait P None r) \<Longrightarrow> proc_step to_eof C (C(p := Some r))"
| Exits: "C p = Some (Exit P) \<Longrightarrow> proc_step to_eof C (C(p := None))"
| Crashes: "C p = Some (Undefined P) \<Longrightarrow> proc_step to_eof C (C(p := None))"
| Finishes: "C p = Some (Exec P c args) \<Longrightarrow>
    (\<And>i. to_eof c \<Longrightarrow> fds P 0 = Some (Read_end i) \<Longrightarrow> \<not> writers C i) \<Longrightarrow> proc_step to_eof C (C(p := None))"

inductive_cases proc_stepE: "proc_step to_eof C C'"

abbreviation reaches :: "(string \<Rightarrow> bool) \<Rightarrow> procs \<Rightarrow> procs \<Rightarrow> bool" where
  "reaches to_eof \<equiv> rtranclp (proc_step to_eof)"

text \<open>A process \<open>p\<close> forks a reader and a writer and waits for the writer first, the pipe open all along.\<close>

definition pipe_procs :: "pname \<Rightarrow> pname \<Rightarrow> pname \<Rightarrow> run \<Rightarrow> run \<Rightarrow> proc \<Rightarrow> proc \<Rightarrow> nat \<Rightarrow> procs" where
  "pipe_procs p n1 n2 X1 X2 W V k =
    (if k = 1 then [p \<mapsto> Fork W X2 (Wait V (Some n2) (Wait V (Some n1) (Exit V))), n1 \<mapsto> X1]
     else if k = 2 then [p \<mapsto> Wait V (Some n2) (Wait V (Some n1) (Exit V)), n1 \<mapsto> X1, n2 \<mapsto> X2]
     else if k = 3 then [p \<mapsto> Wait V (Some n2) (Wait V (Some n1) (Exit V)), n1 \<mapsto> X1]
     else [p \<mapsto> Wait V (Some n1) (Exit V), n1 \<mapsto> X1])"

lemma pipe_procs_step:
  assumes d: "p \<noteq> n1" "p \<noteq> n2" "n1 \<noteq> n2" and n2: "name (child W) = n2"
    and X1: "X1 = Exec P1 c1 a1" "to_eof c1" "fds P1 0 = Some (Read_end i)" and X2: "X2 = Exec P2 c2 a2"
    and w: "fds W 1 = Some (Write_end i)" "fds V 1 = Some (Write_end i)"
    and s: "proc_step to_eof (pipe_procs p n1 n2 X1 X2 W V k) C"
  shows "\<exists>j. C = pipe_procs p n1 n2 X1 X2 W V j"
proof -
  let ?C = "pipe_procs p n1 n2 X1 X2 W V k"
  have wr: "writers ?C i"
    unfolding writers_def by (rule exI [of _ p]) (use d w in \<open>auto simp: pipe_procs_def\<close>)
  consider "k = 1" | "k = 2" | "k = 3" | "k \<noteq> 1 \<and> k \<noteq> 2 \<and> k \<noteq> 3" by blast
  then show ?thesis
  proof cases
    case 1
    have "C = pipe_procs p n1 n2 X1 X2 W V 2"
      using s wr X1 d n2 unfolding 1
      by (elim proc_stepE) (auto simp: pipe_procs_def fun_eq_iff split: if_splits)
    then show ?thesis by blast
  next
    case 2
    have "C = pipe_procs p n1 n2 X1 X2 W V 3"
      using s wr X1 X2 d unfolding 2
      by (elim proc_stepE) (auto simp: pipe_procs_def fun_eq_iff split: if_splits)
    then show ?thesis by blast
  next
    case 3
    have "C = pipe_procs p n1 n2 X1 X2 W V 4"
      using s wr X1 d unfolding 3
      by (elim proc_stepE) (auto simp: pipe_procs_def fun_eq_iff split: if_splits)
    then show ?thesis by blast
  next
    case 4
    then have False
      using s wr X1 d by (elim proc_stepE) (auto simp: pipe_procs_def split: if_splits)
    then show ?thesis ..
  qed
qed

lemma pipe_procs_reach:
  assumes inv: "\<And>k C. proc_step to_eof (pipe_procs p n1 n2 X1 X2 W V k) C \<Longrightarrow> \<exists>j. C = pipe_procs p n1 n2 X1 X2 W V j"
    and s: "reaches to_eof (pipe_procs p n1 n2 X1 X2 W V k) C"
  shows "\<exists>j. C = pipe_procs p n1 n2 X1 X2 W V j"
  using s by (induction rule: rtranclp_induct) (use inv in blast)+

lemma pipe_procs_end:
  assumes d: "p \<noteq> n1" "p \<noteq> n2" "n1 \<noteq> n2" and n2: "name (child W) = n2"
    and X1: "X1 = Exec P1 c1 a1" "\<not> to_eof c1" and X2: "X2 = Exec P2 c2 a2" "\<forall>i. fds P2 0 \<noteq> Some (Read_end i)"
  shows "reaches to_eof (pipe_procs p n1 n2 X1 X2 W V 1) Map.empty"
proof -
  let ?C = "pipe_procs p n1 n2 X1 X2 W V"
  have e: "?C 2 = (?C 1)(p := Some (Wait V (Some n2) (Wait V (Some n1) (Exit V))), name (child W) := Some X2)"
    "?C 3 = (?C 2)(n2 := None)" "?C 4 = (?C 3)(p := Some (Wait V (Some n1) (Exit V)))"
    using d n2 by (auto simp: pipe_procs_def fun_eq_iff)
  have "proc_step to_eof (?C 1) (?C 2)" unfolding e(1) by (rule Forks) (use d in \<open>simp add: pipe_procs_def\<close>)
  moreover have "proc_step to_eof (?C 2) (?C 3)" unfolding e(2)
    by (rule Finishes [where P = P2 and c = c2 and args = a2]) (use d X2 in \<open>auto simp: pipe_procs_def\<close>)
  moreover have "proc_step to_eof (?C 3) (?C 4)" unfolding e(3)
    by (rule Waits [where q = n2]) (use d in \<open>auto simp: pipe_procs_def\<close>)
  moreover have "proc_step to_eof (?C 4) ((?C 4)(n1 := None))"
    by (rule Finishes [where P = P1 and c = c1 and args = a1]) (use d X1 in \<open>auto simp: pipe_procs_def\<close>)
  moreover have "proc_step to_eof ((?C 4)(n1 := None)) ((?C 4)(n1 := None, p := Some (Exit V)))"
    by (rule Waits [where q = n1 and P = V]) (use d in \<open>auto simp: pipe_procs_def\<close>)
  moreover have "proc_step to_eof ((?C 4)(n1 := None, p := Some (Exit V))) ((?C 4)(n1 := None, p := Some (Exit V), p := None))"
    by (rule Exits [where P = V]) simp
  moreover have "(?C 4)(n1 := None, p := Some (Exit V), p := None) = Map.empty"
    using d by (auto simp: pipe_procs_def fun_eq_iff)
  ultimately show ?thesis by (metis (no_types, lifting) converse_rtranclp_into_rtranclp r_into_rtranclp)
qed

text \<open>
  C20: A pipeline of two programs can come to an end when the second may end before the end of its
  input. When it reads to the end, as \<open>grep\<close> or \<open>sort\<close> does, no run of the processes ever ends: the
  process that waits for both programs has its own standard output on the pipe.
\<close>

theorem pipeline_hangs:
  assumes f: "no_failures E" "two_free E P" "std_open P" "runnable E c" "runnable E d" "\<forall>i. fds P 0 \<noteq> Some (Read_end i)"
    and op: "op = ''|'' \<or> op = ''|&''"
  shows "(to_eof (hd d) \<longrightarrow> (\<forall>C. reaches to_eof [name P \<mapsto> isolateRun E (pipe_words c [(op, d)]) P] C \<longrightarrow> C (name P) \<noteq> None)) \<and>
    (\<not> to_eof (hd d) \<longrightarrow> reaches to_eof [name P \<mapsto> isolateRun E (pipe_words c [(op, d)]) P] Map.empty)"
proof -
  define W V where "W = writer op P" and "V = after_fork (writer op P)"
  define n1 n2 where "n1 = name (child P)" and "n2 = name (child W)"
  define X1 X2 where "X1 = Exec (reader P) (hd d) d" and "X2 = Exec (child W) (hd c) c"
  define T where "T = isolateRun E (pipe_words c [(op, d)]) P"
  have c: "\<forall>w\<in>set c. plain w" using f(4) by (simp add: runnable_def)
  obtain F where F: "T = Fork F X1 (Fork W X2 (Wait V (Some n2) (Wait V (Some n1) (Exit V))))" "name (child F) = n1"
    using loop_pipe [OF op c f(1-3), of d]
    by (auto simp: Let_def isolate_plain [OF f(5)] execute_runnable [OF f(4)] T_def X1_def X2_def W_def V_def n1_def n2_def)
  have d: "name P \<noteq> n1" "name P \<noteq> n2" "n1 \<noteq> n2" by (simp_all add: n1_def n2_def W_def child_def writer_def)
  define S where "S = pipe_procs (name P) n1 n2 X1 X2 W V"
  have S1: "[name P \<mapsto> T](name P := Some (Fork W X2 (Wait V (Some n2) (Wait V (Some n1) (Exit V)))), name (child F) := Some X1) = S 1"
    using d F(2) by (auto simp: S_def pipe_procs_def fun_eq_iff)
  have first: "proc_step to_eof [name P \<mapsto> T] (S 1)"
    unfolding S1 [symmetric] by (rule Forks [where P = F]) (simp add: F(1))
  have "reaches to_eof (S 1) Map.empty" if "\<not> to_eof (hd d)"
    unfolding S_def by (rule pipe_procs_end [where to_eof = to_eof, OF d n2_def [symmetric] X1_def that X2_def])
      (use f(6) in \<open>simp add: W_def child_def writer_def\<close>)
  moreover have "C (name P) \<noteq> None" if e: "to_eof (hd d)" and r: "reaches to_eof [name P \<mapsto> T] C" for C
  proof -
    have w: "fds W 1 = Some (wr_end P)" "fds V 1 = Some (wr_end P)" "fds (reader P) 0 = Some (rd_end P)"
      by (auto simp: W_def V_def writer_def after_fork_def reader_def)
    have inv: "\<exists>j. C' = S j" if "proc_step to_eof (S k) C'" for k C'
      unfolding S_def
      by (rule pipe_procs_step [where to_eof = to_eof, OF d n2_def [symmetric] X1_def e w(3) [unfolded rd_end_def] X2_def
          w(1,2) [unfolded wr_end_def] that [unfolded S_def]])
    have one: "C' = S 1" if "proc_step to_eof [name P \<mapsto> T] C'" for C'
      using that S1 by (elim proc_stepE) (auto simp: F(1) split: if_splits)
    have "C = [name P \<mapsto> T] \<or> (\<exists>j. C = S j)"
      using r
    proof (cases rule: converse_rtranclpE)
      case (step C')
      have "\<exists>j. C = pipe_procs (name P) n1 n2 X1 X2 W V j"
        by (rule pipe_procs_reach [OF inv [unfolded S_def] step(2) [unfolded one [OF step(1)] S_def]])
      then show ?thesis by (simp add: S_def)
    qed simp
    then show ?thesis using d by (auto simp: S_def pipe_procs_def)
  qed
  ultimately show ?thesis using first unfolding T_def by (meson converse_rtranclp_into_rtranclp)
qed

theorem pipeline_hangs_witness:
  "(\<nexists>C. reaches (\<lambda>c. c = ''grep'') [[0] \<mapsto> isolateRun os1 [''ls'', ''|'', ''grep'', ''x''] shell1] C \<and> C [0] = None) \<and>
    reaches (\<lambda>c. c = ''grep'') [[0] \<mapsto> isolateRun os1 [''ls'', ''|'', ''head''] shell1] Map.empty"
  using pipeline_hangs [OF os1_ok, of "[''ls'']" "[''grep'', ''x'']" "''|''" "\<lambda>c. c = ''grep''"]
    pipeline_hangs [OF os1_ok, of "[''ls'']" "[''head'']" "''|''" "\<lambda>c. c = ''grep''"]
  by (simp add: os1_def runnable_def plain_def) (auto simp: shell1_def)

end
